(* ===== verification/Desesc_Prelude.thy ===== *)
theory Desesc_Prelude
  imports Main "HOL-Library.Word"
begin

text \<open>
  Shared vocabulary of the development: the machine integer types of the C++ code, the
  failures that a run of a debug build can end in (the \<open>I(...)\<close> assertions of the
  simulator, a null pointer, an index past the end of a vector, a division by zero, a shift by the width or more, a call of
  \<open>exit\<close>, a loop that does not end), the sequencing of fallible steps, and the generic facts on lists and words the component
  theories share.
\<close>

unbundle bit_operations_syntax

named_theorems res_simps "evaluation of fallible steps"
named_theorems word_mask_simps "unsigned readings of masked and shifted words"

section \<open>Machine types\<close>

type_synonym u8 = "8 word"
type_synonym u16 = "16 word"
type_synonym u32 = "32 word"
type_synonym u64 = "64 word"

text \<open>\<open>Addr_t\<close>, \<open>Time_t\<close> and \<open>Hartid_t\<close> of the simulator.\<close>

type_synonym addr = u64
type_synonym sim_time = u64

section \<open>Fallible steps\<close>

datatype sim_error = Assert_failed | Null_deref | Out_of_bounds | Div_by_zero | Bad_shift | Exit_called | Diverged

type_synonym 'a res = "sim_error + 'a"

definition bind_res :: "'a res \<Rightarrow> ('a \<Rightarrow> 'b res) \<Rightarrow> 'b res" where
  "bind_res r k = (case r of Inl e \<Rightarrow> Inl e | Inr x \<Rightarrow> k x)"

definition assert_res :: "bool \<Rightarrow> 'a res \<Rightarrow> 'a res" where
  "assert_res b k = (if b then k else Inl Assert_failed)"

definition deref :: "'a option \<Rightarrow> ('a \<Rightarrow> 'b res) \<Rightarrow> 'b res" where
  "deref p k = (case p of None \<Rightarrow> Inl Null_deref | Some x \<Rightarrow> k x)"

definition nth_res :: "'a list \<Rightarrow> nat \<Rightarrow> ('a \<Rightarrow> 'b res) \<Rightarrow> 'b res" where
  "nth_res xs i k = (if i < length xs then k (xs ! i) else Inl Out_of_bounds)"

definition update_res :: "'a list \<Rightarrow> nat \<Rightarrow> 'a \<Rightarrow> 'a list res" where
  "update_res xs i x = (if i < length xs then Inr (xs[i := x]) else Inl Out_of_bounds)"

lemma bind_res_simps [simp, res_simps]:
  "bind_res (Inl e) k = Inl e"
  "bind_res (Inr x) k = k x"
  by (simp_all add: bind_res_def)

lemma assert_res_True [simp, res_simps]: "b \<Longrightarrow> assert_res b k = k"
  by (simp add: assert_res_def)

lemma assert_res_False [simp, res_simps]: "\<not> b \<Longrightarrow> assert_res b k = Inl Assert_failed"
  by (simp add: assert_res_def)

lemma deref_simps [simp, res_simps]:
  "deref None k = Inl Null_deref"
  "deref (Some x) k = k x"
  by (simp_all add: deref_def)

lemma nth_res_in [simp, res_simps]: "i < length xs \<Longrightarrow> nth_res xs i k = k (xs ! i)"
  by (simp add: nth_res_def)

lemma nth_res_out [simp, res_simps]: "\<not> i < length xs \<Longrightarrow> nth_res xs i k = Inl Out_of_bounds"
  by (simp add: nth_res_def)

lemma update_res_in [simp, res_simps]: "i < length xs \<Longrightarrow> update_res xs i x = Inr (xs[i := x])"
  by (simp add: update_res_def)

lemma update_res_out [simp, res_simps]: "\<not> i < length xs \<Longrightarrow> update_res xs i x = Inl Out_of_bounds"
  by (simp add: update_res_def)

lemma bind_res_Inr_iff: "bind_res r k = Inr y \<longleftrightarrow> (\<exists>x. r = Inr x \<and> k x = Inr y)"
  by (cases r) auto

lemma assert_res_Inr_iff: "assert_res b k = Inr y \<longleftrightarrow> b \<and> k = Inr y"
  by (simp add: assert_res_def)

lemma deref_Inr_iff: "deref p k = Inr y \<longleftrightarrow> (\<exists>x. p = Some x \<and> k x = Inr y)"
  by (cases p) auto

lemma nth_res_Inr_iff: "nth_res xs i k = Inr y \<longleftrightarrow> i < length xs \<and> k (xs ! i) = Inr y"
  by (simp add: nth_res_def)

lemma update_res_Inr_iff: "update_res xs i x = Inr ys \<longleftrightarrow> i < length xs \<and> ys = xs[i := x]"
  by (auto simp: update_res_def)

lemmas res_Inr_iffs =
  bind_res_Inr_iff assert_res_Inr_iff deref_Inr_iff nth_res_Inr_iff update_res_Inr_iff

text \<open>A loop over a list of indices whose body can fail.\<close>

fun for_res :: "'i list \<Rightarrow> ('i \<Rightarrow> 's \<Rightarrow> 's res) \<Rightarrow> 's \<Rightarrow> 's res" where
  "for_res [] f s = Inr s"
| "for_res (i # is) f s = bind_res (f i s) (for_res is f)"

lemma for_res_append: "for_res (is @ js) f s = bind_res (for_res is f s) (for_res js f)"
  by (induction "is" arbitrary: s) (auto simp: bind_res_def split: sum.splits)

text \<open>A loop over \<open>0..<n\<close> establishes an invariant that its body carries from \<open>i\<close> to
  \<open>i + 1\<close>.\<close>

lemma for_res_upt:
  assumes "P 0 s" and "\<And>i s. i < n \<Longrightarrow> P i s \<Longrightarrow> \<exists>s'. f i s = Inr s' \<and> P (Suc i) s'"
  shows "\<exists>s'. for_res [0..<n] f s = Inr s' \<and> P n s'"
  using assms
proof (induction n)
  case 0
  then show ?case by simp
next
  case (Suc n)
  then obtain s1 where "for_res [0..<n] f s = Inr s1" "P n s1" by (metis less_SucI)
  moreover obtain s2 where "f n s1 = Inr s2" "P (Suc n) s2" using Suc.prems(2) \<open>P n s1\<close> by blast
  ultimately show ?case by (simp add: for_res_append)
qed

section \<open>Linked chains\<close>

text \<open>
  \<open>chain nx p xs\<close>: following \<open>nx\<close> from the pointer \<open>p\<close> visits exactly \<open>xs\<close> and
  ends at null.
\<close>

fun chain :: "('n \<Rightarrow> 'n option) \<Rightarrow> 'n option \<Rightarrow> 'n list \<Rightarrow> bool" where
  "chain nx p [] \<longleftrightarrow> p = None"
| "chain nx p (x # xs) \<longleftrightarrow> p = Some x \<and> chain nx (nx x) xs"

lemma chain_None [simp]: "chain nx None xs \<longleftrightarrow> xs = []"
  by (cases xs) auto

lemma chain_Some: "chain nx (Some x) xs \<longleftrightarrow> (\<exists>ys. xs = x # ys \<and> chain nx (nx x) ys)"
  by (cases xs) auto

lemma chain_Nil_iff: "chain nx p xs \<Longrightarrow> xs = [] \<longleftrightarrow> p = None"
  by (cases xs) auto

lemma chain_frame: "x \<notin> set xs \<Longrightarrow> chain (nx(x := q)) p xs \<longleftrightarrow> chain nx p xs"
  by (induction xs arbitrary: p) auto

lemma chain_cong_on:
  "(\<And>x. x \<in> set xs \<Longrightarrow> nx' x = nx x) \<Longrightarrow> chain nx' p xs \<longleftrightarrow> chain nx p xs"
  by (induction xs arbitrary: p) auto

lemma chain_unique: "chain nx p xs \<Longrightarrow> chain nx p ys \<Longrightarrow> xs = ys"
proof (induction xs arbitrary: p ys)
  case Nil
  then show ?case by simp
next
  case (Cons x xs)
  then show ?case by (cases ys) auto
qed

text \<open>Linking a new node behind the last one, and between two neighbours.\<close>

lemma chain_append_last:
  assumes "chain nx p (xs @ [a])" and "distinct (xs @ [a])" and "n \<notin> set (xs @ [a])"
  shows "chain (nx(a := Some n, n := None)) p (xs @ [a, n])"
  using assms by (induction xs arbitrary: p) (auto simp: fun_upd_twist)

lemma chain_insert_after:
  assumes "chain nx p (xs @ a # ys)" and "distinct (xs @ a # ys)" and "n \<notin> set (xs @ a # ys)"
  shows "chain (nx(a := Some n, n := nx a)) p (xs @ a # n # ys)"
  using assms by (induction xs arbitrary: p) (auto simp: chain_frame)

section \<open>Words\<close>

text \<open>
  A table of \<open>2 ^ k\<close> entries is indexed with the mask \<open>2 ^ k - 1\<close>: the masked
  value is the remainder modulo the size.
\<close>

lemma unat_and_mask [word_mask_simps]:
  fixes x :: "'a::len word"
  shows "unat (x AND mask k) = unat x mod 2 ^ k"
  by (metis take_bit_eq_mask take_bit_eq_mod unsigned_take_bit_eq)

lemma unat_drop_bit [word_mask_simps]:
  fixes x :: "'a::len word"
  shows "unat (drop_bit k x) = unat x div 2 ^ k"
  by (metis drop_bit_eq_div unat_drop_bit_eq)

lemma unat_two_power [simp]:
  assumes "k < LENGTH('a::len)"
  shows "unat (2 ^ k :: 'a word) = 2 ^ k"
proof -
  have "(2 ^ k :: 'a word) = of_nat (2 ^ k)" by simp
  also have "unat (of_nat (2 ^ k) :: 'a word) = 2 ^ k mod 2 ^ LENGTH('a)"
    by (rule unat_of_nat)
  also have "\<dots> = 2 ^ k" using assms by (intro mod_less power_strict_increasing) auto
  finally show ?thesis .
qed

lemma word_eq_mask_of_power:
  fixes m :: "'a::len word"
  assumes "k < LENGTH('a)"
  shows "2 ^ k - 1 = (mask k :: 'a word)"
  by (simp add: mask_eq_exp_minus_1)

lemma unat_and_le_right: "unat (x AND y :: 'a::len word) \<le> unat y"
  by (meson word_and_le1 word_le_nat_alt)

lemma unat_word_Suc:
  fixes x :: "'a::len word"
  assumes "x + 1 \<noteq> 0"
  shows "unat (x + 1) = Suc (unat x)"
  using unatSuc [of x] assms by (simp add: add.commute)

text \<open>Index arithmetic of a ring of \<open>2 ^ k\<close> slots: the wrap of the word is absorbed by
  the mask.\<close>

lemma mod_power_mod:
  fixes m :: nat
  assumes "k \<le> n"
  shows "m mod 2 ^ n mod 2 ^ k = m mod 2 ^ k"
  using assms by (intro mod_mod_cancel le_imp_power_dvd)

lemma unat_add_mask:
  fixes a b :: "'a::len word"
  assumes "k \<le> LENGTH('a)"
  shows "unat ((a + b) AND mask k) = (unat a + unat b) mod 2 ^ k"
  using mod_power_mod [OF assms] by (simp add: unat_and_mask unat_word_ariths)

lemma unat_pred_mask:
  fixes a :: "'a::len word"
  assumes "k \<le> LENGTH('a)"
  shows "unat ((a - 1) AND mask k) = (unat a + (2 ^ k - 1)) mod 2 ^ k"
proof (cases "a = 0")
  case True
  have "unat (- 1 :: 'a word) mod 2 ^ k = take_bit k (mask LENGTH('a) :: nat)"
    by (simp add: unsigned_minus_1_eq_mask take_bit_eq_mod)
  also have "\<dots> = mask k" using assms by (simp add: min_def)
  also have "\<dots> = 2 ^ k - 1" by (simp add: mask_eq_exp_minus_1)
  finally have "unat (- 1 AND mask k :: 'a word) = 2 ^ k - 1" by (simp only: unat_and_mask)
  then show ?thesis using True by simp
next
  case False
  then have "unat a + (2 ^ k - 1) = (unat a - 1) + 2 ^ k"
    by (simp add: unat_eq_0 [symmetric])
  then show ?thesis using False by (simp add: unat_and_mask unat_minus_one)
qed

text \<open>Two offsets below the size of a ring that reach the same slot are equal.\<close>

lemma ring_offset_inj:
  fixes s i j n :: nat
  assumes "i < n" and "j < n" and eq: "(s + i) mod n = (s + j) mod n"
  shows "i = j"
proof -
  have "i = j" if "i \<le> j" "j < n" "(s + j) mod n = (s + i) mod n" for i j :: nat
  proof -
    have "n dvd (s + j) - (s + i)" using that by (subst mod_eq_dvd_iff_nat [symmetric]) auto
    then have "n dvd j - i" by simp
    then show ?thesis using that by (metis dvd_imp_le less_imp_diff_less not_less zero_less_diff
      le_eq_less_or_eq)
  qed
  from this [of i j] this [of j i] assms show ?thesis by (metis nat_le_linear)
qed

lemma uint_word_of_int_in_range:
  assumes "0 \<le> i" and "i < 2 ^ LENGTH('a::len)"
  shows "uint (word_of_int i :: 'a word) = i"
  using assms by (intro word_of_int_inverse [OF refl])

lemma word_pred_le: "0 < (x :: 'a::len word) \<Longrightarrow> x - 1 \<le> x"
  by (simp add: word_le_nat_alt unat_minus_one)

lemma word_succ_le: "(x :: 'a::len word) < y \<Longrightarrow> x + 1 \<le> y"
  by (rule inc_le)

lemma unat_word_succ: "(x :: 'a::len word) < y \<Longrightarrow> unat (x + 1) = unat x + 1"
proof -
  assume "x < y"
  then have "unat x + 1 < 2 ^ LENGTH('a)"
    using unsigned_less [of y, where ?'a = nat] by (simp only: word_less_nat_alt)
  then show ?thesis by (simp add: unat_word_ariths)
qed

lemma unat_ucast_mod:
  "unat (ucast (x :: 'a::len word) :: 'b::len word) = unat x mod 2 ^ LENGTH('b)"
  by (simp add: unsigned_ucast_eq take_bit_eq_mod)

lemma unat_ucast_wide:
  assumes "LENGTH('a::len) \<le> LENGTH('b::len)"
  shows "unat (ucast (x :: 'a word) :: 'b word) = unat x"
proof -
  have "unat x < 2 ^ LENGTH('a)" by (rule unsigned_less)
  also have "\<dots> \<le> 2 ^ LENGTH('b)" using assms by (intro power_increasing) auto
  finally show ?thesis by (simp add: unat_ucast_mod)
qed

lemma unat_diff: "(y :: 'a::len word) \<le> x \<Longrightarrow> unat (x - y) = unat x - unat y"
  by (simp add: unat_sub word_le_nat_alt)

section \<open>Lists\<close>

text \<open>Updating one entry of a vector with a function of its old value.\<close>

definition list_modify :: "nat \<Rightarrow> ('a \<Rightarrow> 'a) \<Rightarrow> 'a list \<Rightarrow> 'a list" where
  "list_modify i f xs = xs[i := f (xs ! i)]"

lemma length_list_modify [simp]: "length (list_modify i f xs) = length xs"
  by (simp add: list_modify_def)

lemma nth_list_modify:
  "j < length xs \<Longrightarrow> list_modify i f xs ! j = (if i = j then f (xs ! j) else xs ! j)"
  by (auto simp: list_modify_def)

lemma list_modify_out: "length xs \<le> i \<Longrightarrow> list_modify i f xs = xs"
  by (simp add: list_modify_def list_update_beyond)

text \<open>Overwriting one entry of a list of counters changes their sum by the difference.\<close>

lemma sum_list_modify:
  fixes f :: "'a \<Rightarrow> int"
  assumes "i < length xs"
  shows "(\<Sum>x\<leftarrow>xs[i := y]. f x) = (\<Sum>x\<leftarrow>xs. f x) - f (xs ! i) + f y"
  using assms
proof (induction xs arbitrary: i)
  case Nil
  then show ?case by simp
next
  case (Cons x xs)
  then show ?case by (cases i) auto
qed

lemma filter_length_update:
  assumes "i < length xs"
  shows "int (length (filter P (xs[i := y]))) =
    int (length (filter P xs)) - (if P (xs ! i) then 1 else 0) + (if P y then 1 else 0)"
proof -
  have "int (length (filter P zs)) = (\<Sum>x\<leftarrow>zs. if P x then 1 else 0)" for zs
    by (induction zs) auto
  with sum_list_modify [OF assms, of "\<lambda>x. if P x then 1 else 0" y] show ?thesis by simp
qed

end
