(* ===== verification/Snippets.thy ===== *)
theory Snippets
  imports Desesc_Prelude
begin

text \<open>
  \<open>core/snippets.cpp\<close>: the two integer helpers every table of the simulator is sized
  with. \<open>roundUpPower2\<close> is kept on 32-bit words with its shifts and its wrap-around at
  zero; \<open>log2i\<close> is a loop whose bound doubles in a 32-bit word, which does not stop for
  arguments above \<open>2 ^ 31\<close>, so it is a partial function.
\<close>

section \<open>The helpers\<close>

definition roundUpPower2 :: "u32 \<Rightarrow> u32" where
  "roundUpPower2 x0 =
    (let x = x0 - 1;
         x = x OR drop_bit 1 x;
         x = x OR drop_bit 2 x;
         x = x OR drop_bit 4 x;
         x = x OR drop_bit 8 x;
         x = x OR drop_bit 16 x
     in x + 1)"

partial_function (option) log2i_loop :: "u32 \<Rightarrow> u32 \<Rightarrow> nat \<Rightarrow> nat option" where
  "log2i_loop n m i = (if m < n then log2i_loop n (push_bit 1 m) (Suc i) else Some i)"

definition log2i :: "u32 \<Rightarrow> nat option res" where
  "log2i n =
    (if n = 1 then Inr (Some 0)
     else let n = roundUpPower2 n
          in assert_res (n AND (n - 1) = 0) (Inr (log2i_loop n 1 0)))"

text \<open>\<open>ISPOWER2\<close>: the test used by the constructors that require a power of two.\<close>

definition ispower2 :: "'a::len word \<Rightarrow> bool" where
  "ispower2 x \<longleftrightarrow> x AND (x - 1) = 0"

section \<open>Smearing the highest bit\<close>

text \<open>
  After the shifts by 1, 2, 4, 8 and 16 every bit at or below the highest set bit is set.
  One shift doubles the length of the window of bits that are or-ed together.
\<close>

lemma bit_smear_step:
  fixes y x :: u32
  assumes "\<And>n. bit y n \<longleftrightarrow> (\<exists>j < s. bit x (n + j))"
  shows "bit (y OR drop_bit s y) n \<longleftrightarrow> (\<exists>j<2 * s. bit x (n + j))"
proof
  assume "bit (y OR drop_bit s y) n"
  then consider "bit y n" | "bit y (s + n)" by (auto simp: bit_simps)
  then show "\<exists>j<2 * s. bit x (n + j)"
  proof cases
    case 1
    then show ?thesis using assms by (metis mult_2 trans_less_add1)
  next
    case 2
    then obtain j where "j < s" "bit x (s + n + j)" using assms by auto
    then show ?thesis by (intro exI [of _ "s + j"]) (auto simp: ac_simps)
  qed
next
  assume "\<exists>j<2 * s. bit x (n + j)"
  then obtain j where j: "j < 2 * s" "bit x (n + j)" by blast
  show "bit (y OR drop_bit s y) n"
  proof (cases "j < s")
    case True
    then show ?thesis using j assms by (auto simp: bit_simps)
  next
    case False
    then have "j - s < s" "n + j = (s + n) + (j - s)" using j by auto
    then have "bit y (s + n)" using j assms by metis
    then show ?thesis by (simp add: bit_simps)
  qed
qed

definition smear :: "u32 \<Rightarrow> u32" where
  "smear x = (let x = x OR drop_bit 1 x; x = x OR drop_bit 2 x; x = x OR drop_bit 4 x;
                  x = x OR drop_bit 8 x in x OR drop_bit 16 x)"

lemma roundUpPower2_smear: "roundUpPower2 x = smear (x - 1) + 1"
  by (simp add: roundUpPower2_def smear_def Let_def)

lemma bit_smear: "bit (smear x) n \<longleftrightarrow> (\<exists>j<32. bit x (n + j))"
proof -
  have "bit x k \<longleftrightarrow> (\<exists>j<1. bit x (k + j))" for k by simp
  note s1 = bit_smear_step [of x 1 x, OF this]
  note s2 = bit_smear_step [of "x OR drop_bit 1 x" "2 * 1" x, OF s1]
  note s3 = bit_smear_step [OF s2]
  note s4 = bit_smear_step [OF s3]
  note s5 = bit_smear_step [OF s4]
  from s5 show ?thesis by (simp add: smear_def Let_def)
qed

text \<open>So the smeared word is the mask up to and including the highest set bit.\<close>

lemma bit_word_odd_div:
  fixes x :: "'a::len word"
  shows "bit x m \<longleftrightarrow> odd (unat x div 2 ^ m)"
proof -
  have "bit x m \<longleftrightarrow> bit (unat x) m"
    by (auto simp: bit_unsigned_iff dest: bit_imp_le_length)
  then show ?thesis by (simp only: bit_iff_odd)
qed

lemma smear_eq_mask:
  assumes "unat x < 2 ^ k" and "k \<le> 32" and "k > 0 \<Longrightarrow> 2 ^ (k - 1) \<le> unat x"
  shows "smear x = mask k"
proof (rule bit_word_eqI)
  fix n
  assume "n < LENGTH(32)"
  have below: "\<not> bit x m" if "k \<le> m" for m
  proof -
    have "unat x < 2 ^ m" using assms(1) power_increasing [OF that, of "2::nat"] by linarith
    then show ?thesis by (simp add: bit_word_odd_div)
  qed
  have top: "bit x (k - 1)" if "k > 0"
  proof -
    have "unat x < 2 * 2 ^ (k - 1)" using assms(1) that by (cases k) auto
    then have "unat x div 2 ^ (k - 1) = 1"
      using assms(3) [OF that] by (simp add: div_nat_eqI)
    then show ?thesis by (simp add: bit_word_odd_div)
  qed
  show "bit (smear x) n \<longleftrightarrow> bit (mask k :: u32) n"
  proof (cases "n < k")
    case True
    then have "bit x (n + (k - 1 - n))" "k - 1 - n < 32" using top assms(2) by auto
    then show ?thesis using True \<open>n < LENGTH(32)\<close> by (auto simp: bit_smear bit_simps)
  next
    case False
    then show ?thesis using below by (auto simp: bit_smear bit_simps)
  qed
qed

lemma exists_bit_length:
  fixes n :: nat
  shows "\<exists>k. n < 2 ^ k \<and> (k > 0 \<longrightarrow> 2 ^ (k - 1) \<le> n)"
proof (cases "n = 0")
  case True
  then show ?thesis by (intro exI [of _ 0]) simp
next
  case False
  define k where "k = (LEAST k. n < 2 ^ k)"
  have "n < 2 ^ k" unfolding k_def by (rule LeastI [of _ n]) (rule less_exp)
  moreover have "2 ^ (k - 1) \<le> n" if "k > 0"
    using not_less_Least [of "k - 1" "\<lambda>k. n < 2 ^ k"] that by (fold k_def) auto
  ultimately show ?thesis by blast
qed

text \<open>The rounded value is a power of two, and the least one that is not below \<open>x\<close>.\<close>

lemma roundUpPower2_power:
  assumes "0 < unat x" and "unat x \<le> 2 ^ 31"
  obtains k where "k \<le> 31" and "roundUpPower2 x = 2 ^ k" and "unat x \<le> 2 ^ k"
    and "k > 0 \<Longrightarrow> 2 ^ (k - 1) < unat x"
proof -
  have dec: "unat (x - 1) = unat x - 1"
    using assms(1) by (intro unat_minus_one) auto
  obtain k where k: "unat x - 1 < 2 ^ k" "k > 0 \<longrightarrow> 2 ^ (k - 1) \<le> unat x - 1"
    using exists_bit_length by blast
  have "k \<le> 31"
  proof (rule ccontr)
    assume "\<not> k \<le> 31"
    then have "2 ^ 31 \<le> (2::nat) ^ (k - 1)" by (intro power_increasing) auto
    then show False using k(2) assms \<open>\<not> k \<le> 31\<close> by simp
  qed
  have "smear (x - 1) = mask k"
    using k dec \<open>k \<le> 31\<close> by (intro smear_eq_mask) auto
  then have "roundUpPower2 x = 2 ^ k"
    by (simp add: roundUpPower2_smear mask_eq_exp_minus_1)
  then show ?thesis
    using that [of k] k \<open>k \<le> 31\<close> assms(1) by fastforce
qed

lemma power_two_and_pred: "k < LENGTH('a) \<Longrightarrow> (2 ^ k :: 'a::len word) AND (2 ^ k - 1) = 0"
  unfolding word_eq_mask_of_power
  by (rule bit_word_eqI) (auto simp: bit_simps)

text \<open>The test \<open>x & (x - 1)\<close> accepts zero and the powers of two, nothing else.\<close>

lemma bit_top:
  fixes x :: "'a::len word"
  assumes "2 ^ k \<le> unat x" and "unat x < 2 * 2 ^ k"
  shows "bit x k"
proof -
  have "unat x div 2 ^ k = 1" using assms by (simp add: div_nat_eqI)
  then show ?thesis by (simp add: bit_word_odd_div)
qed

lemma and_pred_zero_power:
  fixes x :: "'a::len word"
  assumes "x \<noteq> 0" and "x AND (x - 1) = 0"
  obtains k where "k < LENGTH('a)" and "x = 2 ^ k"
proof -
  obtain m where m: "unat x < 2 ^ m" "m > 0 \<longrightarrow> 2 ^ (m - 1) \<le> unat x"
    using exists_bit_length by blast
  have "m > 0" using m(1) assms(1) by (cases m) (auto simp: unat_eq_0)
  define k where "k = m - 1"
  have k: "2 ^ k \<le> unat x" "unat x < 2 * 2 ^ k"
    using m \<open>m > 0\<close> by (auto simp: k_def power_Suc [symmetric] simp del: power_Suc)
  have "bit x k" using k by (rule bit_top)
  then have "k < LENGTH('a)" by (rule bit_imp_le_length)
  have "unat x = 2 ^ k"
  proof (rule ccontr)
    assume "unat x \<noteq> 2 ^ k"
    then have "bit (x - 1) k"
      using k assms(1) by (intro bit_top) (auto simp: unat_minus_one)
    then have "bit (x AND (x - 1)) k" using \<open>bit x k\<close> by (simp add: bit_simps)
    then show False using assms(2) by simp
  qed
  then have "x = 2 ^ k" using \<open>k < LENGTH('a)\<close> by (simp add: word_unat_eq_iff)
  then show ?thesis using that \<open>k < LENGTH('a)\<close> by blast
qed

lemma log2i_loop_power:
  assumes "i \<le> k" and "k \<le> 31"
  shows "log2i_loop (2 ^ k) (2 ^ i) c = Some (c + (k - i))"
  using assms
proof (induction "k - i" arbitrary: i c)
  case 0
  then show ?case by (simp add: log2i_loop.simps)
next
  case (Suc d)
  have "unat (2 ^ i :: u32) < unat (2 ^ k :: u32)"
    using Suc.hyps(2) Suc.prems by (simp add: power_strict_increasing_iff)
  then have "(2 ^ i :: u32) < 2 ^ k" by (simp only: word_less_nat_alt)
  moreover have "push_bit 1 (2 ^ i :: u32) = 2 ^ Suc i" by (simp add: push_bit_eq_mult)
  ultimately have "log2i_loop (2 ^ k) (2 ^ i) c = log2i_loop (2 ^ k) (2 ^ Suc i) (Suc c)"
    by (simp only: log2i_loop.simps [of "2 ^ k" "2 ^ i"] if_True)
  then show ?case using Suc.hyps Suc.prems by (simp del: power_Suc)
qed

section \<open>Properties\<close>

text \<open>For every argument from 1 to \<open>2 ^ 31\<close>, \<open>roundUpPower2\<close> returns a power of
  two that is not below the argument, and no smaller power of two is above it: the bit
  smearing computes the least power of two that is at least \<open>x\<close>.\<close>

theorem roundUpPower2_least:
  assumes "0 < unat x" and "unat x \<le> 2 ^ 31"
  shows "\<exists>k \<le> 31. unat (roundUpPower2 x) = 2 ^ k \<and> unat x \<le> 2 ^ k \<and>
    (\<forall>j. unat x \<le> 2 ^ j \<longrightarrow> k \<le> j)"
proof -
  obtain k where k: "k \<le> 31" "roundUpPower2 x = 2 ^ k" "unat x \<le> 2 ^ k"
    "k > 0 \<Longrightarrow> 2 ^ (k - 1) < unat x"
    using roundUpPower2_power assms by blast
  have "k \<le> j" if "unat x \<le> 2 ^ j" for j
  proof (rule ccontr)
    assume "\<not> k \<le> j"
    then have "(2::nat) ^ j \<le> 2 ^ (k - 1)" by (intro power_increasing) auto
    moreover have "2 ^ (k - 1) < unat x" using k(4) \<open>\<not> k \<le> j\<close> by simp
    ultimately show False using that by linarith
  qed
  then show ?thesis using k by auto
qed

theorem roundUpPower2_least_witness:
  "\<exists>k \<le> 31. unat (roundUpPower2 (5 :: u32)) = 2 ^ k \<and> unat (5 :: u32) \<le> 2 ^ k \<and>
    (\<forall>j. unat (5 :: u32) \<le> 2 ^ j \<longrightarrow> k \<le> j)"
  by (rule roundUpPower2_least) simp_all

text \<open>The helper behind the next property, for the components that use \<open>log2i\<close>.\<close>

lemma log2i_value:
  assumes "0 < unat x" and "unat x \<le> 2 ^ 31"
  obtains k where "log2i x = Inr (Some k)" and "k \<le> 31" and "roundUpPower2 x = 2 ^ k"
proof -
  obtain k where k: "k \<le> 31" "roundUpPower2 x = 2 ^ k" "unat x \<le> 2 ^ k"
    "k > 0 \<Longrightarrow> 2 ^ (k - 1) < unat x"
    using roundUpPower2_power assms by blast
  have "k = 0" if "x = 1" using k(4) that by (cases k) auto
  moreover have "log2i_loop (2 ^ k) 1 0 = Some k"
    using log2i_loop_power [of 0 k 0] k(1) by simp
  ultimately have "log2i x = Inr (Some k)"
    using k(1,2) power_two_and_pred [of k, where 'a = 32] by (simp add: log2i_def Let_def)
  then show thesis using k that by blast
qed

text \<open>On the same range \<open>log2i\<close> passes its assertion, its loop returns, and the
  result is the exponent of the rounded power of two.\<close>

theorem log2i_returns_exponent:
  assumes "0 < unat x" and "unat x \<le> 2 ^ 31"
  shows "\<exists>k. log2i x = Inr (Some k) \<and> k \<le> 31 \<and> unat (roundUpPower2 x) = 2 ^ k"
proof -
  obtain k where "log2i x = Inr (Some k)" "k \<le> 31" "roundUpPower2 x = 2 ^ k"
    by (rule log2i_value [OF assms])
  then show ?thesis by (intro exI [of _ k]) simp
qed

theorem log2i_returns_exponent_witness:
  "\<exists>k. log2i 48 = Inr (Some k) \<and> k \<le> 31 \<and> unat (roundUpPower2 48) = 2 ^ k"
  by (rule log2i_returns_exponent) simp_all

end
