(* ===== verification/Sctable.thy ===== *)
theory Sctable
  imports Snippets
begin

text \<open>
  \<open>core/sctable.cpp\<close>, \<open>core/sctable.hpp\<close>: the table of saturating counters behind
  every branch predictor. The table is a list of bytes indexed with the size mask; the two
  print-and-assert exits of the constructor are error values. The facts: the constructor
  yields a well-formed table, every sequence of operations keeps it well formed, a
  counter moves by one towards the outcome and saturates, and enough equal outcomes decide
  the prediction.
\<close>

section \<open>State and operations\<close>

record sctable =
  sc_sizeMask :: u64
  sc_Saturate :: u8
  sc_MaxValue :: u8
  sc_table :: "u8 list"

fun sc_fill :: "nat \<Rightarrow> u8 \<Rightarrow> u8 \<Rightarrow> u8 list" where
  "sc_fill 0 saturate flipflop = []"
| "sc_fill (Suc n) saturate flipflop = flipflop # sc_fill n saturate (saturate - flipflop)"

definition sc_create :: "u64 \<Rightarrow> u8 \<Rightarrow> sctable res" where
  "sc_create sz bits =
    (let saturate = (if bits > 1 then push_bit (unat (bits - 1)) 1 else 1);
         maxValue = push_bit (unat bits) 1 - 1
     in if sz AND (sz - 1) \<noteq> 0 then Inl Assert_failed
        else if bits > 7 \<or> bits < 1 then Inl Assert_failed
        else Inr \<lparr>sc_sizeMask = sz - 1, sc_Saturate = saturate, sc_MaxValue = maxValue,
                  sc_table = sc_fill (unat sz) saturate 1\<rparr>)"

definition sc_pos :: "sctable \<Rightarrow> u32 \<Rightarrow> nat" where
  "sc_pos t cid = unat (ucast cid AND sc_sizeMask t)"

definition sc_getValue :: "sctable \<Rightarrow> u32 \<Rightarrow> u8" where
  "sc_getValue t cid = sc_table t ! sc_pos t cid"

definition sc_put :: "sctable \<Rightarrow> u32 \<Rightarrow> u8 \<Rightarrow> sctable" where
  "sc_put t cid v = t\<lparr>sc_table := (sc_table t)[sc_pos t cid := v]\<rparr>"

definition sc_reset :: "sctable \<Rightarrow> u32 \<Rightarrow> bool \<Rightarrow> sctable" where
  "sc_reset t cid taken = sc_put t cid (if taken then sc_Saturate t else sc_Saturate t - 1)"

definition sc_clear :: "sctable \<Rightarrow> u32 \<Rightarrow> sctable" where
  "sc_clear t cid = sc_put t cid 0"

definition sc_update :: "sctable \<Rightarrow> u32 \<Rightarrow> bool \<Rightarrow> sctable" where
  "sc_update t cid taken =
    (let entry = sc_getValue t cid
     in if taken
        then (if entry < sc_MaxValue t then sc_put t cid (entry + 1) else t)
        else (if entry > 0 then sc_put t cid (entry - 1) else t))"

definition sc_predict_update :: "sctable \<Rightarrow> u32 \<Rightarrow> bool \<Rightarrow> bool \<times> sctable" where
  "sc_predict_update t cid taken =
    (let entry = sc_getValue t cid;
         ptaken = (entry \<ge> sc_Saturate t);
         t' = (if taken
               then (if entry < sc_MaxValue t then sc_put t cid (entry + 1) else t)
               else (if entry > 0 then sc_put t cid (entry - 1) else t))
     in (ptaken, t'))"

definition sc_inc :: "sctable \<Rightarrow> u32 \<Rightarrow> int \<Rightarrow> sctable" where
  "sc_inc t cid d =
    (let entry = sc_getValue t cid
     in if d + uint entry < uint (sc_MaxValue t)
        then sc_put t cid (word_of_int (uint entry + d))
        else sc_put t cid (sc_MaxValue t))"

definition sc_dec :: "sctable \<Rightarrow> u32 \<Rightarrow> int \<Rightarrow> sctable" where
  "sc_dec t cid d =
    (let entry = sc_getValue t cid
     in if d - uint entry > 0
        then sc_put t cid (word_of_int (uint entry + d))
        else sc_put t cid 0)"

definition sc_predict :: "sctable \<Rightarrow> u32 \<Rightarrow> bool" where
  "sc_predict t cid \<longleftrightarrow> sc_getValue t cid \<ge> sc_Saturate t"

definition sc_isLowest :: "sctable \<Rightarrow> u32 \<Rightarrow> bool" where
  "sc_isLowest t cid \<longleftrightarrow> sc_getValue t cid = 0"

definition sc_isHighest :: "sctable \<Rightarrow> u32 \<Rightarrow> bool" where
  "sc_isHighest t cid \<longleftrightarrow> sc_getValue t cid = sc_MaxValue t"

section \<open>Well-formed tables\<close>

text \<open>
  The size is a power of two and the mask is one less, the counters have a width between
  1 and 7 bits, and no counter is above its maximum.
\<close>

definition sc_shape :: "sctable \<Rightarrow> bool" where
  "sc_shape t \<longleftrightarrow>
    (\<exists>k < 64. length (sc_table t) = 2 ^ k \<and> sc_sizeMask t = mask k) \<and>
    sc_Saturate t \<le> sc_MaxValue t \<and> 0 < sc_Saturate t"

definition sctable_wf :: "sctable \<Rightarrow> bool" where
  "sctable_wf t \<longleftrightarrow> sc_shape t \<and> (\<forall>v \<in> set (sc_table t). v \<le> sc_MaxValue t)"

lemma sc_pos_in_range: "sc_shape t \<Longrightarrow> sc_pos t cid < length (sc_table t)"
  by (auto simp: sc_shape_def sc_pos_def word_mask_simps)

lemma sc_put_simps [simp]:
  "sc_sizeMask (sc_put t cid v) = sc_sizeMask t"
  "sc_Saturate (sc_put t cid v) = sc_Saturate t"
  "sc_MaxValue (sc_put t cid v) = sc_MaxValue t"
  "sc_pos (sc_put t cid v) cid' = sc_pos t cid'"
  "sc_shape (sc_put t cid v) \<longleftrightarrow> sc_shape t"
  by (simp_all add: sc_put_def sc_pos_def sc_shape_def)

lemma sc_getValue_put:
  "sc_shape t \<Longrightarrow> sc_getValue (sc_put t cid v) cid' =
    (if sc_pos t cid = sc_pos t cid' then v else sc_getValue t cid')"
  using sc_pos_in_range [of t cid'] by (auto simp: sc_getValue_def sc_put_def sc_pos_def)

lemma sctable_wf_put: "sctable_wf t \<Longrightarrow> v \<le> sc_MaxValue t \<Longrightarrow> sctable_wf (sc_put t cid v)"
  by (auto simp: sctable_wf_def) (auto simp: sc_put_def dest: set_update_subset_insert [THEN subsetD])

lemma sctable_wf_value: "sctable_wf t \<Longrightarrow> sc_getValue t cid \<le> sc_MaxValue t"
  using sc_pos_in_range [of t cid] by (auto simp: sctable_wf_def sc_getValue_def)

lemma sc_predict_update_eq: "sc_predict_update t cid taken = (sc_predict t cid, sc_update t cid taken)"
  by (simp add: sc_predict_update_def sc_predict_def sc_update_def Let_def)

lemma sctable_wf_update: "sctable_wf t \<Longrightarrow> sctable_wf (sc_update t cid taken)"
  using sctable_wf_value [of t cid]
  by (auto simp: sc_update_def Let_def intro!: sctable_wf_put word_succ_le
      intro: order_trans [OF word_pred_le])

lemma sctable_wf_reset: "sctable_wf t \<Longrightarrow> sctable_wf (sc_reset t cid taken)"
  by (auto simp: sc_reset_def sctable_wf_def [of t] sc_shape_def intro!: sctable_wf_put
      intro: order_trans [OF word_pred_le])

lemma sctable_wf_clear: "sctable_wf t \<Longrightarrow> sctable_wf (sc_clear t cid)"
  by (simp add: sc_clear_def sctable_wf_put)

lemma sctable_wf_inc:
  assumes "sctable_wf t" and "0 \<le> d"
  shows "sctable_wf (sc_inc t cid d)"
proof (cases "d + uint (sc_getValue t cid) < uint (sc_MaxValue t)")
  case True
  then have "uint (word_of_int (uint (sc_getValue t cid) + d) :: u8) = uint (sc_getValue t cid) + d"
    using assms(2) uint_lt2p [of "sc_MaxValue t"] by (intro uint_word_of_int_in_range) auto
  then have "(word_of_int (uint (sc_getValue t cid) + d) :: u8) \<le> sc_MaxValue t"
    using True by (simp only: word_le_def)
  then show ?thesis using True assms by (simp add: sc_inc_def sctable_wf_put)
next
  case False
  then show ?thesis using assms by (simp add: sc_inc_def sctable_wf_put)
qed

section \<open>Construction\<close>

lemma length_sc_fill [simp]: "length (sc_fill n saturate f) = n"
  by (induction n arbitrary: f) auto

lemma sc_fill_numeral [simp]:
  "sc_fill (numeral n) saturate f = f # sc_fill (pred_numeral n) saturate (saturate - f)"
  by (simp add: numeral_eq_Suc)

lemma sc_fill_values: "set (sc_fill n saturate f) \<subseteq> {f, saturate - f}"
  by (induction n arbitrary: f) (auto, fastforce)

lemma counter_widths:
  fixes bits :: u8
  assumes "1 \<le> bits" and "bits \<le> 7"
  shows "bits \<in> {1, 2, 3, 4, 5, 6, 7}"
proof -
  have "unat bits \<in> {1, 2, 3, 4, 5, 6, 7}"
    using assms by (auto simp: word_le_nat_alt)
  then show ?thesis by (auto simp: word_unat_eq_iff)
qed

lemma sc_create_wf:
  assumes "sc_create sz bits = Inr t" and "0 < sz"
  shows "sctable_wf t"
proof -
  from assms(1) have sz: "sz AND (sz - 1) = 0" and "\<not> (bits > 7 \<or> bits < 1)"
    unfolding sc_create_def Let_def by (simp_all split: if_splits)
  then have bits: "1 \<le> bits" "bits \<le> 7" by (meson leI)+
  obtain k where k: "k < 64" "sz = 2 ^ k"
    using and_pred_zero_power [OF _ sz] assms(2) by auto
  define saturate where "saturate = (if bits > 1 then push_bit (unat (bits - 1)) 1 else (1 :: u8))"
  define maxValue where "maxValue = push_bit (unat bits) 1 - (1 :: u8)"
  have t: "t = \<lparr>sc_sizeMask = sz - 1, sc_Saturate = saturate, sc_MaxValue = maxValue,
      sc_table = sc_fill (unat sz) saturate 1\<rparr>"
    using assms(1) unfolding sc_create_def Let_def saturate_def maxValue_def
    by (simp split: if_splits)
  have widths: "saturate \<le> maxValue \<and> 0 < saturate \<and> 1 \<le> maxValue \<and> saturate - 1 \<le> maxValue"
    using counter_widths [OF bits] by (auto simp: saturate_def maxValue_def)
  have "set (sc_table t) \<subseteq> {1, saturate - 1}"
    using sc_fill_values by (simp add: t)
  then show ?thesis
    using widths k by (auto simp: sctable_wf_def sc_shape_def t word_eq_mask_of_power)
qed

section \<open>Runs of operations\<close>

datatype sc_op =
    ScClear u32
  | ScReset u32 bool
  | ScPredict u32 bool
  | ScUpdate u32 bool
  | ScInc u32 nat

fun sc_step :: "sctable \<Rightarrow> sc_op \<Rightarrow> sctable" where
  "sc_step t (ScClear cid) = sc_clear t cid"
| "sc_step t (ScReset cid taken) = sc_reset t cid taken"
| "sc_step t (ScPredict cid taken) = snd (sc_predict_update t cid taken)"
| "sc_step t (ScUpdate cid taken) = sc_update t cid taken"
| "sc_step t (ScInc cid d) = sc_inc t cid (int d)"

lemma sctable_wf_step: "sctable_wf t \<Longrightarrow> sctable_wf (sc_step t ev)"
  by (cases ev)
    (simp_all add: sctable_wf_clear sctable_wf_reset sctable_wf_update sctable_wf_inc
      sc_predict_update_eq)

lemma sctable_wf_run: "sctable_wf t \<Longrightarrow> sctable_wf (foldl sc_step t evs)"
  by (induction evs arbitrary: t) (simp_all add: sctable_wf_step)

text \<open>What the constructor chooses is never touched again.\<close>

lemma sc_step_config:
  "length (sc_table (sc_step t ev)) = length (sc_table t) \<and> sc_sizeMask (sc_step t ev) = sc_sizeMask t \<and>
    sc_Saturate (sc_step t ev) = sc_Saturate t \<and> sc_MaxValue (sc_step t ev) = sc_MaxValue t"
  by (cases ev) (simp_all add: sc_predict_update_eq sc_update_def sc_inc_def sc_clear_def sc_reset_def sc_put_def Let_def)

lemma sc_run_config:
  "length (sc_table (foldl sc_step t evs)) = length (sc_table t) \<and>
    sc_sizeMask (foldl sc_step t evs) = sc_sizeMask t \<and>
    sc_Saturate (foldl sc_step t evs) = sc_Saturate t \<and> sc_MaxValue (foldl sc_step t evs) = sc_MaxValue t"
  by (induction evs arbitrary: t) (simp_all add: sc_step_config)

text \<open>C34. A table built by the constructor with a positive size stays well formed under
  every sequence of the operations (decrements apart): its size, index mask, threshold and
  maximum stay those that the constructor gave it,
  every index the mask produces is inside the table and no counter exceeds the maximum
  value of its width.\<close>

theorem sctable_run_invariant:
  assumes "sc_create sz bits = Inr t" and "0 < sz"
  shows "sctable_wf (foldl sc_step t evs) \<and>
    length (sc_table (foldl sc_step t evs)) = length (sc_table t) \<and>
    sc_sizeMask (foldl sc_step t evs) = sc_sizeMask t \<and>
    sc_Saturate (foldl sc_step t evs) = sc_Saturate t \<and>
    sc_MaxValue (foldl sc_step t evs) = sc_MaxValue t \<and>
    sc_pos (foldl sc_step t evs) cid < length (sc_table (foldl sc_step t evs)) \<and>
    sc_getValue (foldl sc_step t evs) cid \<le> sc_MaxValue (foldl sc_step t evs)"
proof -
  have "sctable_wf (foldl sc_step t evs)"
    using sc_create_wf [OF assms] by (rule sctable_wf_run)
  then show ?thesis
    using sctable_wf_value [of "foldl sc_step t evs" cid] sc_pos_in_range [of "foldl sc_step t evs" cid]
      sc_run_config [of t evs] by (simp add: sctable_wf_def)
qed

theorem sctable_run_invariant_witness:
  "\<exists>t. sc_create 2 2 = Inr t \<and> sctable_wf (foldl sc_step t [ScUpdate 0 True, ScInc 1 9])"
proof -
  have "sc_create 2 2 = Inr \<lparr>sc_sizeMask = 1, sc_Saturate = 2, sc_MaxValue = 3,
      sc_table = [1, 1]\<rparr>"
    by (simp add: sc_create_def)
  moreover from sctable_run_invariant [OF this, of "[ScUpdate 0 True, ScInc 1 9]" 0]
  have "sctable_wf (foldl sc_step \<lparr>sc_sizeMask = 1, sc_Saturate = 2, sc_MaxValue = 3,
      sc_table = [1, 1]\<rparr> [ScUpdate 0 True, ScInc 1 9])" by simp
  ultimately show ?thesis by blast
qed

section \<open>Saturation\<close>

lemma sc_update_shape [simp]:
  "sc_MaxValue (sc_update t cid taken) = sc_MaxValue t"
  "sc_Saturate (sc_update t cid taken) = sc_Saturate t"
  "sc_pos (sc_update t cid taken) cid' = sc_pos t cid'"
  "sc_shape (sc_update t cid taken) \<longleftrightarrow> sc_shape t"
  by (simp_all add: sc_update_def Let_def)

lemma sc_getValue_update:
  assumes "sctable_wf t"
  shows "unat (sc_getValue (sc_update t cid taken) cid) =
    (if taken then min (unat (sc_MaxValue t)) (unat (sc_getValue t cid) + 1)
     else unat (sc_getValue t cid) - 1)"
proof -
  have le: "unat (sc_getValue t cid) \<le> unat (sc_MaxValue t)"
    using sctable_wf_value [OF assms] by (simp only: word_le_nat_alt)
  show ?thesis
  proof (cases taken)
    case True
    then show ?thesis
      using assms le unat_word_succ [of "sc_getValue t cid" "sc_MaxValue t"]
      by (auto simp: sc_update_def Let_def sc_getValue_put sctable_wf_def word_less_nat_alt
          not_less min_def)
  next
    case False
    then show ?thesis
      using assms
      by (auto simp: sc_update_def Let_def sc_getValue_put sctable_wf_def unat_minus_one word_gt_0)
  qed
qed

lemma sc_update_other:
  "sc_shape t \<Longrightarrow> sc_pos t cid \<noteq> sc_pos t cid' \<Longrightarrow>
    sc_getValue (sc_update t cid taken) cid' = sc_getValue t cid'"
  by (simp add: sc_update_def Let_def sc_getValue_put)

definition sc_train :: "nat \<Rightarrow> sctable \<Rightarrow> u32 \<Rightarrow> bool \<Rightarrow> sctable" where
  "sc_train n t cid taken = ((\<lambda>t. sc_update t cid taken) ^^ n) t"

lemma sc_train_wf: "sctable_wf t \<Longrightarrow> sctable_wf (sc_train n t cid taken)"
  by (induction n) (simp_all add: sc_train_def sctable_wf_update)

lemma sc_train_shape [simp]:
  "sc_MaxValue (sc_train n t cid taken) = sc_MaxValue t"
  "sc_Saturate (sc_train n t cid taken) = sc_Saturate t"
  by (induction n) (simp_all add: sc_train_def)

lemma sc_getValue_train:
  assumes "sctable_wf t"
  shows "unat (sc_getValue (sc_train n t cid taken) cid) =
    (if taken then min (unat (sc_MaxValue t)) (unat (sc_getValue t cid) + n)
     else unat (sc_getValue t cid) - n)"
proof (induction n)
  case 0
  then show ?case
    using sctable_wf_value [OF assms, of cid] by (simp add: sc_train_def word_le_nat_alt)
next
  case (Suc n)
  have "sc_train (Suc n) t cid taken = sc_update (sc_train n t cid taken) cid taken"
    by (simp add: sc_train_def)
  then show ?case
    using Suc sc_getValue_update [OF sc_train_wf [OF assms, of n cid taken], of cid taken] by auto
qed

text \<open>Hysteresis of the saturating counter: as many taken outcomes as the saturation
  threshold make the table predict taken, and as many not-taken outcomes as the maximum
  value make it predict not taken, from every well-formed table.\<close>

theorem sctable_training_decides:
  assumes "sctable_wf t"
  shows "(unat (sc_Saturate t) \<le> n \<longrightarrow> sc_predict (sc_train n t cid True) cid) \<and>
    (unat (sc_MaxValue t) \<le> n \<longrightarrow> \<not> sc_predict (sc_train n t cid False) cid)"
proof -
  have "unat (sc_Saturate t) \<le> unat (sc_MaxValue t)" "0 < unat (sc_Saturate t)"
    using assms by (auto simp: sctable_wf_def sc_shape_def word_le_nat_alt unat_gt_0)
  moreover have "unat (sc_getValue t cid) \<le> unat (sc_MaxValue t)"
    using sctable_wf_value [OF assms] by (simp only: word_le_nat_alt)
  ultimately show ?thesis
    by (auto simp: sc_predict_def word_le_nat_alt sc_getValue_train [OF assms])
qed

theorem sctable_training_decides_witness:
  "sc_predict (sc_train 2 \<lparr>sc_sizeMask = 1, sc_Saturate = 2, sc_MaxValue = 3, sc_table = [1, 1]\<rparr> 7 True) 7"
proof -
  have "sctable_wf \<lparr>sc_sizeMask = 1, sc_Saturate = 2, sc_MaxValue = 3, sc_table = [1, 1]\<rparr>"
    by (simp add: sctable_wf_def sc_shape_def) (intro exI [of _ 1], simp add: mask_eq_exp_minus_1)
  from sctable_training_decides [OF this, of 2 7] show ?thesis by simp
qed

text \<open>\<open>SCTable::dec\<close> does not decrement: it clears the counter when the amount is
  at most the counter's value, and when the amount is larger it adds the amount to the
  counter (the subtraction in the guard has its operands swapped and the assignment adds).\<close>

theorem sc_dec_clears_or_adds:
  assumes "sctable_wf t" and "0 \<le> d" and "d + uint (sc_getValue t cid) < 256"
  shows "uint (sc_getValue (sc_dec t cid d) cid) =
    (if d \<le> uint (sc_getValue t cid) then 0 else uint (sc_getValue t cid) + d)"
proof -
  have "uint (word_of_int (uint (sc_getValue t cid) + d) :: u8) = uint (sc_getValue t cid) + d"
    using assms(2,3) by (intro uint_word_of_int_in_range) auto
  moreover have "sc_shape t" using assms(1) by (simp add: sctable_wf_def)
  ultimately show ?thesis
    by (simp add: sc_dec_def Let_def sc_getValue_put del: of_int_add)
qed

theorem sc_dec_clears_or_adds_witness:
  "uint (sc_getValue (sc_dec \<lparr>sc_sizeMask = 1, sc_Saturate = 2, sc_MaxValue = 3, sc_table = [1, 1]\<rparr> 0 2) 0) = 3"
proof -
  let ?t = "\<lparr>sc_sizeMask = 1, sc_Saturate = 2, sc_MaxValue = 3, sc_table = [1, 1]\<rparr> :: sctable"
  have "sctable_wf ?t"
    by (simp add: sctable_wf_def sc_shape_def) (intro exI [of _ 1], simp add: mask_eq_exp_minus_1)
  moreover have "sc_getValue ?t 0 = 1" by (simp add: sc_getValue_def sc_pos_def)
  ultimately show ?thesis using sc_dec_clears_or_adds [of ?t 2 0] by simp
qed

end
