(* ===== verification/Fast_Queue.thy ===== *)
theory Fast_Queue
  imports Snippets
begin

text \<open>
  \<open>core/fastqueue.hpp\<close>: the ring buffer behind the reorder buffer and the fetch
  buckets. The buffer is a vector of a power-of-two size with 32-bit positions; the
  assertions of a debug build are error values. The ring is abstracted to the list of its
  elements from oldest to youngest, and each operation is shown to act on that list as a
  double-ended bounded queue; \<open>nilufar_push_to_end_data\<close> is the one that does not.
\<close>

section \<open>The interface\<close>

text \<open>
  What the users of the ring rely on: a bounded queue that is filled at the back and emptied
  at either end, given by the list of its elements.
\<close>

locale bounded_deque =
  fixes contents :: "'q \<Rightarrow> 'a list"
    and capacity :: "'q \<Rightarrow> nat"
    and valid :: "'q \<Rightarrow> bool"
    and enqueue :: "'q \<Rightarrow> 'a \<Rightarrow> 'q res"
    and dequeue :: "'q \<Rightarrow> 'q res"
    and dequeue_back :: "'q \<Rightarrow> 'q res"
  assumes bounded: "valid q \<Longrightarrow> length (contents q) \<le> capacity q"
    and enqueue_ok: "valid q \<Longrightarrow> length (contents q) < capacity q \<Longrightarrow>
      \<exists>q'. enqueue q x = Inr q' \<and> valid q' \<and> contents q' = contents q @ [x] \<and> capacity q' = capacity q"
    and dequeue_ok: "valid q \<Longrightarrow> contents q \<noteq> [] \<Longrightarrow>
      \<exists>q'. dequeue q = Inr q' \<and> valid q' \<and> contents q' = tl (contents q) \<and> capacity q' = capacity q"
    and dequeue_back_ok: "valid q \<Longrightarrow> contents q \<noteq> [] \<Longrightarrow>
      \<exists>q'. dequeue_back q = Inr q' \<and> valid q' \<and> contents q' = butlast (contents q) \<and> capacity q' = capacity q"
begin

text \<open>Pushing a list that fits appends it, element by element.\<close>

fun enqueue_all :: "'q \<Rightarrow> 'a list \<Rightarrow> 'q res" where
  "enqueue_all q [] = Inr q"
| "enqueue_all q (x # xs) = bind_res (enqueue q x) (\<lambda>q. enqueue_all q xs)"

lemma enqueue_all_ok:
  "valid q \<Longrightarrow> length (contents q) + length xs \<le> capacity q \<Longrightarrow>
    \<exists>q'. enqueue_all q xs = Inr q' \<and> valid q' \<and> contents q' = contents q @ xs \<and> capacity q' = capacity q"
proof (induction xs arbitrary: q)
  case Nil
  then show ?case by simp
next
  case (Cons x xs)
  obtain q1 where q1: "enqueue q x = Inr q1" "valid q1" "contents q1 = contents q @ [x]"
    "capacity q1 = capacity q"
    using enqueue_ok [of q x] Cons.prems by auto
  then have "length (contents q1) + length xs \<le> capacity q1" using Cons.prems by simp
  from Cons.IH [OF q1(2) this] q1 show ?case by simp
qed

text \<open>A push undone from the back leaves the contents as they were.\<close>

lemma enqueue_dequeue_back:
  assumes "valid q" and "length (contents q) < capacity q"
  shows "\<exists>q'. bind_res (enqueue q x) dequeue_back = Inr q' \<and> valid q' \<and> contents q' = contents q"
proof -
  obtain q1 where q1: "enqueue q x = Inr q1" "valid q1" "contents q1 = contents q @ [x]"
    using enqueue_ok [OF assms, of x] by blast
  then obtain q2 where "dequeue_back q1 = Inr q2" "valid q2" "contents q2 = butlast (contents q1)"
    using dequeue_back_ok [of q1] by auto
  with q1 show ?thesis by simp
qed

end

section \<open>The ring\<close>

record 'd fastqueue =
  fq_pipe :: "'d list"
  fq_pipe_in_cluster :: "'d list"
  fq_pipeMask :: u32
  fq_start :: u32
  fq_end :: u32
  fq_nElems :: u32

text \<open>The constructor's loop: increment until the value is a power of two.\<close>

function fq_round_up :: "u32 \<Rightarrow> u32" where
  "fq_round_up m = (if m AND (m - 1) \<noteq> 0 then fq_round_up (m + 1) else m)"
  by pat_completeness auto
termination
proof (relation "measure (\<lambda>m. if m = 0 then 0 else 2 ^ 32 - unat m)")
  fix m :: u32
  assume "m AND (m - 1) \<noteq> 0"
  then have "m \<noteq> 0" by auto
  have "unat m < 2 ^ 32" using unsigned_less [of m, where ?'a = nat] by simp
  show "(m + 1, m) \<in> measure (\<lambda>m. if m = 0 then 0 else 2 ^ 32 - unat m)"
  proof (cases "m + 1 = 0")
    case True
    then show ?thesis using \<open>m \<noteq> 0\<close> \<open>unat m < 2 ^ 32\<close> by simp
  next
    case False
    then have "unat (m + 1) = Suc (unat m)" by (rule unat_word_Suc)
    then show ?thesis using False \<open>m \<noteq> 0\<close> \<open>unat m < 2 ^ 32\<close> by simp
  qed
qed simp

declare fq_round_up.simps [simp del]

definition fq_create :: "'d \<Rightarrow> u64 \<Rightarrow> 'd fastqueue res" where
  "fq_create dflt sz =
    assert_res (sz \<noteq> 0)
     (assert_res (sz < 256 * 1024)
       (let pipeMask = fq_round_up (ucast sz)
        in Inr \<lparr>fq_pipe = replicate (unat pipeMask) dflt, fq_pipe_in_cluster = [],
                fq_pipeMask = pipeMask - 1, fq_start = 0, fq_end = 0, fq_nElems = 0\<rparr>))"

definition fq_push :: "'d fastqueue \<Rightarrow> 'd \<Rightarrow> 'd fastqueue res" where
  "fq_push q d =
    assert_res (fq_nElems q \<le> fq_pipeMask q)
     (bind_res (update_res (fq_pipe q) (unat (fq_end q)) d) (\<lambda>pipe.
       assert_res (fq_end q = (fq_start q + fq_nElems q) AND fq_pipeMask q)
        (Inr (q\<lparr>fq_pipe := pipe,
                fq_end := (fq_end q + 1) AND fq_pipeMask q,
                fq_nElems := fq_nElems q + 1\<rparr>))))"

definition fq_push_pipe_in_cluster :: "'d fastqueue \<Rightarrow> 'd \<Rightarrow> 'd fastqueue" where
  "fq_push_pipe_in_cluster q d = q\<lparr>fq_pipe_in_cluster := fq_pipe_in_cluster q @ [d]\<rparr>"

definition fq_pop_pipe_in_cluster :: "'d fastqueue \<Rightarrow> 'd fastqueue res" where
  "fq_pop_pipe_in_cluster q =
    (if fq_pipe_in_cluster q = [] then Inl Out_of_bounds
     else Inr (q\<lparr>fq_pipe_in_cluster := butlast (fq_pipe_in_cluster q)\<rparr>))"

definition fq_top :: "'d fastqueue \<Rightarrow> 'd res" where
  "fq_top q = nth_res (fq_pipe q) (unat (fq_start q)) Inr"

definition fq_back_pipe_in_cluster :: "'d fastqueue \<Rightarrow> 'd res" where
  "fq_back_pipe_in_cluster q =
    (if fq_pipe_in_cluster q = [] then Inl Out_of_bounds else Inr (last (fq_pipe_in_cluster q)))"

definition fq_end_data :: "'d fastqueue \<Rightarrow> 'd res" where
  "fq_end_data q =
    assert_res (fq_nElems q \<noteq> 0)
     (nth_res (fq_pipe q) (unat (if fq_end q \<noteq> 0 then fq_end q - 1 else fq_pipeMask q)) Inr)"

definition fq_nilufar_push_to_end_data :: "'d fastqueue \<Rightarrow> 'd \<Rightarrow> 'd fastqueue res" where
  "fq_nilufar_push_to_end_data q d =
    assert_res (fq_nElems q \<le> fq_pipeMask q)
     (bind_res (update_res (fq_pipe q) (unat (fq_end q + 1)) d) (\<lambda>pipe.
       assert_res (fq_end q = (fq_start q + fq_nElems q) AND fq_pipeMask q)
        (Inr (q\<lparr>fq_pipe := pipe,
                fq_end := (fq_end q + 1) AND fq_pipeMask q,
                fq_nElems := fq_nElems q + 1\<rparr>))))"

definition fq_pop :: "'d fastqueue \<Rightarrow> 'd fastqueue res" where
  "fq_pop q =
    assert_res (fq_nElems q \<noteq> 0)
     (Inr (q\<lparr>fq_nElems := fq_nElems q - 1, fq_start := (fq_start q + 1) AND fq_pipeMask q\<rparr>))"

definition fq_pop_from_back :: "'d fastqueue \<Rightarrow> 'd fastqueue" where
  "fq_pop_from_back q =
    q\<lparr>fq_nElems := fq_nElems q - 1, fq_end := (fq_end q - 1) AND fq_pipeMask q\<rparr>"

definition fq_getIDFromTop :: "'d fastqueue \<Rightarrow> u32 \<Rightarrow> u32 res" where
  "fq_getIDFromTop q i = assert_res (fq_nElems q > i) (Inr ((fq_start q + i) AND fq_pipeMask q))"

definition fq_getNextId :: "'d fastqueue \<Rightarrow> u32 \<Rightarrow> u32" where
  "fq_getNextId q i = (i + 1) AND fq_pipeMask q"

definition fq_isEnd :: "'d fastqueue \<Rightarrow> u32 \<Rightarrow> bool" where
  "fq_isEnd q i \<longleftrightarrow> i = fq_end q"

definition fq_getData :: "'d fastqueue \<Rightarrow> u32 \<Rightarrow> 'd res" where
  "fq_getData q i =
    assert_res (i \<le> fq_pipeMask q) (assert_res (i \<noteq> fq_end q) (nth_res (fq_pipe q) (unat i) Inr))"

definition fq_topNext :: "'d fastqueue \<Rightarrow> 'd res" where
  "fq_topNext q = bind_res (fq_getIDFromTop q 1) (fq_getData q)"

definition fq_size :: "'d fastqueue \<Rightarrow> nat" where
  "fq_size q = unat (fq_nElems q)"

definition fq_empty :: "'d fastqueue \<Rightarrow> bool" where
  "fq_empty q \<longleftrightarrow> fq_nElems q = 0"

definition fq_empty_pipe_in_cluster :: "'d fastqueue \<Rightarrow> bool" where
  "fq_empty_pipe_in_cluster q \<longleftrightarrow> fq_pipe_in_cluster q = []"

section \<open>Abstraction and invariant\<close>

definition fq_capacity :: "'d fastqueue \<Rightarrow> nat" where
  "fq_capacity q = length (fq_pipe q)"

definition fq_contents :: "'d fastqueue \<Rightarrow> 'd list" where
  "fq_contents q =
    map (\<lambda>i. fq_pipe q ! ((unat (fq_start q) + i) mod fq_capacity q)) [0..<unat (fq_nElems q)]"

definition fq_inv :: "'d fastqueue \<Rightarrow> bool" where
  "fq_inv q \<longleftrightarrow>
    (\<exists>k < 32. fq_capacity q = 2 ^ k \<and> fq_pipeMask q = mask k) \<and>
    unat (fq_start q) < fq_capacity q \<and> unat (fq_nElems q) \<le> fq_capacity q \<and>
    fq_end q = (fq_start q + fq_nElems q) AND fq_pipeMask q"

lemma length_fq_contents [simp]: "length (fq_contents q) = unat (fq_nElems q)"
  by (simp add: fq_contents_def)

lemma fq_inv_mask:
  assumes "fq_inv q"
  shows "unat ((a + b) AND fq_pipeMask q) = (unat a + unat b) mod fq_capacity q"
    and "unat ((a - 1) AND fq_pipeMask q) = (unat a + (fq_capacity q - 1)) mod fq_capacity q"
    and "unat (fq_pipeMask q) = fq_capacity q - 1"
  using assms unat_add_mask [where 'a = 32, of _ a b] unat_pred_mask [where 'a = 32, of _ a]
  by (auto simp: fq_inv_def mask_eq_exp_minus_1 unat_minus_one)

lemma fq_inv_end: "fq_inv q \<Longrightarrow>
    unat (fq_end q) = (unat (fq_start q) + unat (fq_nElems q)) mod fq_capacity q"
  using fq_inv_mask(1) by (auto simp: fq_inv_def)

lemma fq_capacity_pos: "fq_inv q \<Longrightarrow> 0 < fq_capacity q"
  by (auto simp: fq_inv_def)

lemma fq_contents_nth:
  "i < unat (fq_nElems q) \<Longrightarrow>
    fq_contents q ! i = fq_pipe q ! ((unat (fq_start q) + i) mod fq_capacity q)"
  by (simp add: fq_contents_def)

lemma unat_nElems_bounds:
  assumes "fq_inv q"
  shows "fq_nElems q \<le> fq_pipeMask q \<longleftrightarrow> unat (fq_nElems q) < fq_capacity q"
  using fq_inv_mask(3) [OF assms] fq_capacity_pos [OF assms] by (auto simp: word_le_nat_alt)

section \<open>Refinement of the operations\<close>

lemma fq_push_refines:
  assumes inv: "fq_inv q" and room: "unat (fq_nElems q) < fq_capacity q"
  obtains q' where "fq_push q d = Inr q'" and "fq_inv q'" and "fq_contents q' = fq_contents q @ [d]"
    and "fq_capacity q' = fq_capacity q"
proof -
  let ?n = "unat (fq_nElems q)" and ?e = "unat (fq_end q)"
  define q' where "q' = q\<lparr>fq_pipe := (fq_pipe q)[?e := d],
    fq_end := (fq_end q + 1) AND fq_pipeMask q, fq_nElems := fq_nElems q + 1\<rparr>"
  have cap: "fq_capacity q' = fq_capacity q" by (simp add: q'_def fq_capacity_def)
  have e: "?e = (unat (fq_start q) + ?n) mod fq_capacity q" using fq_inv_end [OF inv] .
  have "?e < fq_capacity q" using e fq_capacity_pos [OF inv] by simp
  have n': "unat (fq_nElems q + 1) = ?n + 1"
  proof -
    obtain k where "k < 32" "fq_capacity q = 2 ^ k" using inv by (auto simp: fq_inv_def)
    then have "?n + 1 < 2 ^ 32" using room power_strict_increasing [of k 32 "2 :: nat"] by simp
    then show ?thesis by (simp add: unat_word_ariths)
  qed
  have "fq_push q d = Inr q'"
    using inv room \<open>?e < fq_capacity q\<close> unat_nElems_bounds [OF inv]
    by (simp add: fq_push_def q'_def fq_capacity_def fq_inv_def)
  moreover have "fq_inv q'"
  proof -
    have "unat ((fq_end q + 1) AND fq_pipeMask q)
        = (unat (fq_start q) + (?n + 1)) mod fq_capacity q"
      using fq_inv_mask(1) [OF inv, of "fq_end q" 1] e by (simp add: mod_simps)
    also have "\<dots> = unat ((fq_start q + (fq_nElems q + 1)) AND fq_pipeMask q)"
      using fq_inv_mask(1) [OF inv, of "fq_start q" "fq_nElems q + 1"] n' by simp
    finally show ?thesis
      using inv room n' cap by (auto simp: fq_inv_def q'_def fq_capacity_def word_unat_eq_iff)
  qed
  moreover have "fq_contents q' = fq_contents q @ [d]"
  proof (rule nth_equalityI)
    show "length (fq_contents q') = length (fq_contents q @ [d])" by (simp add: q'_def n')
    fix i assume "i < length (fq_contents q')"
    then have i: "i < ?n + 1" by (simp add: q'_def n')
    let ?p = "(unat (fq_start q) + i) mod fq_capacity q"
    have nth: "fq_contents q' ! i = (fq_pipe q)[?e := d] ! ?p"
      using i by (subst fq_contents_nth) (simp_all add: q'_def n' fq_capacity_def)
    show "fq_contents q' ! i = (fq_contents q @ [d]) ! i"
    proof (cases "i = ?n")
      case True
      then show ?thesis using nth e \<open>?e < fq_capacity q\<close> by (simp add: nth_append fq_capacity_def)
    next
      case False
      then have "?p \<noteq> ?e" using i e room ring_offset_inj [of i "fq_capacity q" ?n] by auto
      then show ?thesis using False i nth by (simp add: nth_append fq_contents_nth)
    qed
  qed
  ultimately show ?thesis using that cap by blast
qed

lemma fq_pop_refines:
  assumes inv: "fq_inv q" and ne: "fq_contents q \<noteq> []"
  obtains q' where "fq_pop q = Inr q'" and "fq_inv q'" and "fq_contents q' = tl (fq_contents q)"
    and "fq_capacity q' = fq_capacity q"
proof -
  let ?n = "unat (fq_nElems q)"
  define q' where "q' = q\<lparr>fq_nElems := fq_nElems q - 1, fq_start := (fq_start q + 1) AND fq_pipeMask q\<rparr>"
  have cap: "fq_capacity q' = fq_capacity q" by (simp add: q'_def fq_capacity_def)
  have "?n \<noteq> 0" using ne length_fq_contents [of q] by (metis length_0_conv)
  then have n': "unat (fq_nElems q - 1) = ?n - 1" by (intro unat_minus_one) auto
  have s': "unat (fq_start q') = (unat (fq_start q) + 1) mod fq_capacity q"
    using fq_inv_mask(1) [OF inv, of "fq_start q" 1] by (simp add: q'_def)
  have "fq_nElems q \<noteq> 0" using \<open>?n \<noteq> 0\<close> by auto
  then have "fq_pop q = Inr q'" by (simp add: fq_pop_def q'_def)
  moreover have "fq_inv q'"
  proof -
    obtain m where m: "?n = Suc m" using \<open>?n \<noteq> 0\<close> by (cases ?n) auto
    have "unat (fq_end q) = unat ((fq_start q' + (fq_nElems q - 1)) AND fq_pipeMask q)"
      using fq_inv_mask(1) [OF inv, of "fq_start q'" "fq_nElems q - 1"] n' s' fq_inv_end [OF inv] m
      by (simp add: mod_simps)
    then show ?thesis
      using inv n' cap s' fq_capacity_pos [OF inv]
      by (auto simp: fq_inv_def q'_def word_unat_eq_iff)
  qed
  moreover have "fq_contents q' = tl (fq_contents q)"
  proof (rule nth_equalityI)
    show "length (fq_contents q') = length (tl (fq_contents q))" by (simp add: q'_def n')
    fix i assume "i < length (fq_contents q')"
    then have i: "i + 1 < ?n" by (simp add: q'_def n')
    have "fq_contents q' ! i = fq_pipe q ! ((unat (fq_start q') + i) mod fq_capacity q)"
      using i cap by (subst fq_contents_nth) (simp_all add: q'_def n')
    also have "(unat (fq_start q') + i) mod fq_capacity q = (unat (fq_start q) + (i + 1)) mod fq_capacity q"
      using s' by (simp add: mod_add_left_eq)
    finally show "fq_contents q' ! i = tl (fq_contents q) ! i"
      using i by (simp add: nth_tl fq_contents_nth)
  qed
  ultimately show ?thesis using that cap by blast
qed

lemma fq_pop_from_back_refines:
  assumes inv: "fq_inv q" and ne: "fq_contents q \<noteq> []"
  shows "fq_inv (fq_pop_from_back q)"
    and "fq_contents (fq_pop_from_back q) = butlast (fq_contents q)"
    and "fq_capacity (fq_pop_from_back q) = fq_capacity q"
proof -
  let ?n = "unat (fq_nElems q)" and ?q = "fq_pop_from_back q"
  show cap: "fq_capacity ?q = fq_capacity q" by (simp add: fq_pop_from_back_def fq_capacity_def)
  have "?n \<noteq> 0" using ne length_fq_contents [of q] by (metis length_0_conv)
  then have n': "unat (fq_nElems q - 1) = ?n - 1" by (intro unat_minus_one) auto
  have "unat ((fq_end q - 1) AND fq_pipeMask q)
      = (unat (fq_start q) + ?n + (fq_capacity q - 1)) mod fq_capacity q"
    using fq_inv_mask(2) [OF inv, of "fq_end q"] fq_inv_end [OF inv] by (simp add: mod_add_left_eq)
  also have "unat (fq_start q) + ?n + (fq_capacity q - 1) = unat (fq_start q) + (?n - 1) + fq_capacity q"
    using \<open>?n \<noteq> 0\<close> fq_capacity_pos [OF inv] by simp
  finally have "unat ((fq_end q - 1) AND fq_pipeMask q)
      = unat ((fq_start q + (fq_nElems q - 1)) AND fq_pipeMask q)"
    using fq_inv_mask(1) [OF inv, of "fq_start q" "fq_nElems q - 1"] n' by simp
  then show "fq_inv ?q"
    using inv n' cap by (auto simp: fq_inv_def fq_pop_from_back_def word_unat_eq_iff)
  show "fq_contents ?q = butlast (fq_contents q)"
    by (rule nth_equalityI)
      (simp_all add: fq_contents_nth nth_butlast fq_pop_from_back_def n' fq_capacity_def)
qed

interpretation fq: bounded_deque fq_contents fq_capacity fq_inv fq_push fq_pop
  "\<lambda>q. Inr (fq_pop_from_back q)"
proof unfold_locales
  fix q :: "'a fastqueue" and x
  assume inv: "fq_inv q"
  show "length (fq_contents q) \<le> fq_capacity q" using inv by (simp add: fq_inv_def)
  show "\<exists>q'. fq_push q x = Inr q' \<and> fq_inv q' \<and> fq_contents q' = fq_contents q @ [x] \<and>
      fq_capacity q' = fq_capacity q" if "length (fq_contents q) < fq_capacity q"
    using fq_push_refines [OF inv] that by (metis length_fq_contents)
  show "\<exists>q'. fq_pop q = Inr q' \<and> fq_inv q' \<and> fq_contents q' = tl (fq_contents q) \<and>
      fq_capacity q' = fq_capacity q" if "fq_contents q \<noteq> []"
    using fq_pop_refines [OF inv that] by metis
  show "\<exists>q'. Inr (fq_pop_from_back q) = Inr q' \<and> fq_inv q' \<and>
      fq_contents q' = butlast (fq_contents q) \<and> fq_capacity q' = fq_capacity q"
    if "fq_contents q \<noteq> []"
    using fq_pop_from_back_refines [OF inv that] by simp
qed

section \<open>Construction\<close>

text \<open>The constructor's increment loop computes the value of the branch-free
  \<open>roundUpPower2\<close>.\<close>

lemma fq_round_up_power:
  assumes "unat m \<le> 2 ^ k" and "k > 0 \<Longrightarrow> 2 ^ (k - 1) < unat m" and "k \<le> 31" and "0 < unat m"
  shows "fq_round_up m = 2 ^ k"
  using assms
proof (induction "2 ^ k - unat m" arbitrary: m)
  case 0
  then have "unat m = 2 ^ k" by simp
  then have "m = 2 ^ k" using \<open>k \<le> 31\<close> by (simp add: word_unat_eq_iff)
  then show ?case
    using power_two_and_pred [of k, where 'a = 32] \<open>k \<le> 31\<close> by (simp add: fq_round_up.simps)
next
  case (Suc d)
  have lt: "unat m < 2 ^ k" using Suc.hyps(2) by simp
  have "m AND (m - 1) \<noteq> 0"
  proof
    assume "m AND (m - 1) = 0"
    then obtain j where j: "j < 32" "m = 2 ^ j"
      using and_pred_zero_power [of m] Suc.prems(4) by (auto simp: unat_gt_0)
    then have "(2::nat) ^ j < 2 ^ k" using lt by simp
    then have "j < k" by simp
    then have "2 ^ j \<le> (2::nat) ^ (k - 1)" by (intro power_increasing) auto
    then show False using Suc.prems(2) \<open>j < k\<close> j by simp
  qed
  then have step: "fq_round_up m = fq_round_up (m + 1)" by (simp add: fq_round_up.simps [of m])
  have "(2::nat) ^ k < 2 ^ 32" using \<open>k \<le> 31\<close> by (intro power_strict_increasing) auto
  then have succ: "unat (m + 1) = unat m + 1" using lt by (simp add: unat_word_ariths)
  have "fq_round_up (m + 1) = 2 ^ k"
    using Suc.hyps(2) Suc.prems lt succ by (intro Suc.hyps(1)) (auto intro: less_SucI)
  then show ?case using step by simp
qed

text \<open>C36. The loop of the \<open>FastQueue\<close> constructor and the bit-smearing
  \<open>roundUpPower2\<close> of \<open>snippets.cpp\<close> compute the same function on the sizes from
  1 to \<open>2 ^ 31\<close>.\<close>

theorem fq_round_up_eq_roundUpPower2:
  assumes "0 < unat m" and "unat m \<le> 2 ^ 31"
  shows "fq_round_up m = roundUpPower2 m"
proof -
  obtain k where "k \<le> 31" "roundUpPower2 m = 2 ^ k" "unat m \<le> 2 ^ k"
    "k > 0 \<Longrightarrow> 2 ^ (k - 1) < unat m"
    using roundUpPower2_power assms by blast
  then show ?thesis using fq_round_up_power [of m k] assms by simp
qed

theorem fq_round_up_eq_roundUpPower2_witness: "fq_round_up 100 = roundUpPower2 100"
  by (rule fq_round_up_eq_roundUpPower2) simp_all

lemma fq_create_ok:
  assumes "0 < sz" and "sz < 256 * 1024"
  obtains q where "fq_create dflt sz = Inr q" and "fq_inv q" and "fq_contents q = []"
    and "unat sz \<le> fq_capacity q" and "fq_capacity q \<le> 2 ^ 31"
proof -
  have sz: "0 < unat sz" "unat sz < 2 ^ 18"
    using assms by (auto simp: word_less_nat_alt unat_gt_0)
  have u: "unat (ucast sz :: u32) = unat sz"
  proof -
    have "unat (ucast sz :: u32) = unat sz mod 2 ^ 32" by (simp add: unsigned_ucast_eq take_bit_eq_mod)
    then show ?thesis using sz(2) by simp
  qed
  obtain k where k: "k \<le> 31" "roundUpPower2 (ucast sz) = 2 ^ k" "unat sz \<le> 2 ^ k"
    "k > 0 \<Longrightarrow> 2 ^ (k - 1) < unat sz"
    using roundUpPower2_power [of "ucast sz"] sz u by auto
  then have r: "fq_round_up (ucast sz) = 2 ^ k" using fq_round_up_power [of "ucast sz" k] u sz by simp
  define q where "q = \<lparr>fq_pipe = replicate (2 ^ k) dflt, fq_pipe_in_cluster = [],
    fq_pipeMask = 2 ^ k - 1, fq_start = 0, fq_end = 0, fq_nElems = (0 :: u32)\<rparr>"
  have "fq_create dflt sz = Inr q"
    using assms r k(1) by (auto simp: fq_create_def q_def Let_def)
  moreover have "fq_inv q"
    using k(1) by (auto simp: fq_inv_def q_def fq_capacity_def word_eq_mask_of_power intro!: exI [of _ k])
  moreover have "fq_contents q = []" by (simp add: fq_contents_def q_def)
  moreover have "unat sz \<le> fq_capacity q" using k(3) by (simp add: q_def fq_capacity_def)
  moreover have "fq_capacity q \<le> 2 ^ 31"
    using k(1) power_increasing [of k 31 "2::nat"] by (simp add: q_def fq_capacity_def)
  ultimately show ?thesis using that by blast
qed

section \<open>Runs of operations\<close>

datatype 'd fq_op = FqPush 'd | FqPop | FqPopBack

fun fq_run :: "'d fastqueue \<Rightarrow> 'd fq_op list \<Rightarrow> 'd fastqueue res" where
  "fq_run q [] = Inr q"
| "fq_run q (FqPush d # evs) = bind_res (fq_push q d) (\<lambda>q. fq_run q evs)"
| "fq_run q (FqPop # evs) = bind_res (fq_pop q) (\<lambda>q. fq_run q evs)"
| "fq_run q (FqPopBack # evs) = fq_run (fq_pop_from_back q) evs"

text \<open>The specification: the same operations on a list, \<open>None\<close> when a push finds the
  ring full or a pop finds it empty.\<close>

fun deque_run :: "nat \<Rightarrow> 'd list \<Rightarrow> 'd fq_op list \<Rightarrow> 'd list option" where
  "deque_run cap xs [] = Some xs"
| "deque_run cap xs (FqPush d # evs) =
    (if length xs < cap then deque_run cap (xs @ [d]) evs else None)"
| "deque_run cap xs (FqPop # evs) = (if xs = [] then None else deque_run cap (tl xs) evs)"
| "deque_run cap xs (FqPopBack # evs) = (if xs = [] then None else deque_run cap (butlast xs) evs)"

text \<open>C32. The ring buffer refines a bounded double-ended queue: a sequence of pushes, pops
  and pops from the back that a list of at most the ring's capacity can perform passes every
  assertion of the ring and leaves it with exactly the list's elements in order, whatever
  the wrap-around of its positions.\<close>

theorem fq_run_refines_deque:
  assumes "fq_inv q" and "deque_run (fq_capacity q) (fq_contents q) evs = Some ys"
  shows "\<exists>q'. fq_run q evs = Inr q' \<and> fq_inv q' \<and> fq_contents q' = ys \<and> fq_capacity q' = fq_capacity q"
  using assms
proof (induction evs arbitrary: q)
  case Nil
  then show ?case by simp
next
  case (Cons ev evs)
  show ?case
  proof (cases ev)
    case (FqPush d)
    then have "length (fq_contents q) < fq_capacity q" using Cons.prems by (auto split: if_splits)
    from fq.enqueue_ok [OF Cons.prems(1) this, of d] FqPush Cons show ?thesis
      by (fastforce split: if_splits)
  next
    case FqPop
    then have "fq_contents q \<noteq> []" using Cons.prems by (auto split: if_splits)
    from fq.dequeue_ok [OF Cons.prems(1) this] FqPop Cons show ?thesis
      by (fastforce split: if_splits)
  next
    case FqPopBack
    then have "fq_contents q \<noteq> []" using Cons.prems by (auto split: if_splits)
    from fq_pop_from_back_refines [OF Cons.prems(1) this] FqPopBack Cons show ?thesis
      by (fastforce split: if_splits)
  qed
qed

definition fq_example :: "nat fastqueue" where
  "fq_example = \<lparr>fq_pipe = [7, 8, 9, 6], fq_pipe_in_cluster = [], fq_pipeMask = 3,
    fq_start = 3, fq_end = 1, fq_nElems = 2\<rparr>"

lemma fq_example_inv: "fq_inv fq_example"
  by (auto simp: fq_inv_def fq_example_def fq_capacity_def mask_eq_exp_minus_1 intro!: exI [of _ 2])

theorem fq_run_refines_deque_witness:
  "\<exists>q'. fq_run fq_example [FqPush 5, FqPop, FqPopBack] = Inr q' \<and> fq_contents q' = [7]"
proof -
  have "fq_contents fq_example = [6, 7]" "fq_capacity fq_example = 4"
    by (simp_all add: fq_contents_def fq_example_def fq_capacity_def upt_rec)
  then have "deque_run (fq_capacity fq_example) (fq_contents fq_example) [FqPush 5, FqPop, FqPopBack]
      = Some [7]" by simp
  from fq_run_refines_deque [OF fq_example_inv this] show ?thesis by blast
qed

section \<open>Reading the ring\<close>

lemma fq_getIDFromTop_ok:
  assumes "fq_inv q" and "i < fq_nElems q"
  shows "fq_getIDFromTop q i = Inr ((fq_start q + i) AND fq_pipeMask q)"
    and "unat ((fq_start q + i) AND fq_pipeMask q) = (unat (fq_start q) + unat i) mod fq_capacity q"
  using assms fq_inv_mask(1) by (auto simp: fq_getIDFromTop_def)

text \<open>Walking the ring by index: while the ring is not full, \<open>getData(getIDFromTop(i))\<close>
  returns the \<open>i\<close>-th oldest element for every \<open>i\<close> below the size; when the ring is
  full, the same call for the oldest element (\<open>i = 0\<close>) fails its assertion, because its
  position equals the end position.\<close>

theorem fq_getData_by_index:
  assumes "fq_inv q" and "i < fq_nElems q"
  shows "bind_res (fq_getIDFromTop q i) (fq_getData q) =
    (if unat (fq_nElems q) = fq_capacity q \<and> i = 0 then Inl Assert_failed
     else Inr (fq_contents q ! unat i))"
proof -
  let ?p = "(fq_start q + i) AND fq_pipeMask q"
  have i: "unat i < unat (fq_nElems q)" "unat (fq_nElems q) \<le> fq_capacity q"
    using assms by (auto simp: word_less_nat_alt fq_inv_def)
  have p: "unat ?p = (unat (fq_start q) + unat i) mod fq_capacity q"
    using fq_getIDFromTop_ok(2) [OF assms] .
  then have "unat ?p < fq_capacity q" using fq_capacity_pos [OF assms(1)] by simp
  then have "?p \<le> fq_pipeMask q"
    using fq_inv_mask(3) [OF assms(1)] by (simp add: word_le_nat_alt)
  moreover have "?p = fq_end q \<longleftrightarrow> unat (fq_nElems q) = fq_capacity q \<and> i = 0"
  proof
    assume "?p = fq_end q"
    then have eq: "(unat (fq_start q) + unat i) mod fq_capacity q
        = (unat (fq_start q) + unat (fq_nElems q)) mod fq_capacity q"
      using p fq_inv_end [OF assms(1)] by simp
    have full: "unat (fq_nElems q) = fq_capacity q"
      using eq i ring_offset_inj [of "unat i" "fq_capacity q" "unat (fq_nElems q)"] by fastforce
    then have "(unat (fq_start q) + unat i) mod fq_capacity q = (unat (fq_start q) + 0) mod fq_capacity q"
      using eq by simp
    then have "unat i = 0"
      using i fq_capacity_pos [OF assms(1)] ring_offset_inj [of "unat i" "fq_capacity q" 0] by simp
    then show "unat (fq_nElems q) = fq_capacity q \<and> i = 0" using full by (simp add: unat_eq_0)
  next
    assume "unat (fq_nElems q) = fq_capacity q \<and> i = 0"
    then show "?p = fq_end q" using p fq_inv_end [OF assms(1)] by (simp add: word_unat_eq_iff)
  qed
  ultimately show ?thesis
    using \<open>unat ?p < fq_capacity q\<close> p i
    by (simp add: fq_getIDFromTop_ok(1) [OF assms] fq_getData_def fq_capacity_def fq_contents_nth)
qed

theorem fq_getData_by_index_witness:
  "bind_res (fq_getIDFromTop fq_example 1) (fq_getData fq_example) = Inr (fq_contents fq_example ! 1)"
  using fq_getData_by_index [OF fq_example_inv, of 1] by (simp add: fq_example_def fq_capacity_def)

lemma fq_end_data_last:
  assumes inv: "fq_inv q" and ne: "fq_contents q \<noteq> []"
  shows "fq_end_data q = Inr (last (fq_contents q))"
proof -
  let ?n = "unat (fq_nElems q)"
  have "?n \<noteq> 0" using ne length_fq_contents [of q] by (metis length_0_conv)
  then have "fq_nElems q \<noteq> 0" by auto
  have pos: "unat (if fq_end q \<noteq> 0 then fq_end q - 1 else fq_pipeMask q)
      = (unat (fq_start q) + (?n - 1)) mod fq_capacity q"
  proof -
    let ?q = "fq_pop_from_back q"
    have "unat (fq_end ?q) = (unat (fq_start q) + (?n - 1)) mod fq_capacity q"
      using fq_inv_end [OF fq_pop_from_back_refines(1) [OF inv ne]] \<open>fq_nElems q \<noteq> 0\<close>
      by (simp add: fq_pop_from_back_def fq_capacity_def unat_minus_one)
    moreover have "unat (fq_end ?q) = unat (if fq_end q \<noteq> 0 then fq_end q - 1 else fq_pipeMask q)"
    proof -
      have "unat (fq_end q) < fq_capacity q" using fq_inv_end [OF inv] fq_capacity_pos [OF inv] by simp
      moreover have "unat (fq_end ?q) = (unat (fq_end q) + (fq_capacity q - 1)) mod fq_capacity q"
        using fq_inv_mask(2) [OF inv, of "fq_end q"] by (simp add: fq_pop_from_back_def)
      moreover have "unat (fq_end q) + (fq_capacity q - 1) = unat (fq_end q) - 1 + fq_capacity q"
        if "fq_end q \<noteq> 0" using that fq_capacity_pos [OF inv] by (simp add: unat_eq_0 [symmetric])
      ultimately show ?thesis
        using fq_inv_mask(3) [OF inv] fq_capacity_pos [OF inv] by (simp add: unat_minus_one)
    qed
    ultimately show ?thesis by simp
  qed
  show ?thesis
    using \<open>fq_nElems q \<noteq> 0\<close> \<open>?n \<noteq> 0\<close> fq_capacity_pos [OF inv] ne
    by (simp only: fq_end_data_def assert_res_True pos)
      (simp add: fq_capacity_def last_conv_nth fq_contents_nth)
qed

text \<open>\<open>nilufar_push_to_end_data\<close> does not push: on a valid ring that is not full it
  stores the element one slot past the end, so the queue grows by the stale content of the
  end slot instead of by the element, and when the end is the last slot of the vector the
  store is out of bounds.\<close>

theorem fq_nilufar_push_wrong_slot:
  assumes "fq_inv q" and "unat (fq_nElems q) + 1 < fq_capacity q"
  shows "if unat (fq_end q) + 1 < fq_capacity q
    then \<exists>q'. fq_nilufar_push_to_end_data q d = Inr q' \<and>
      fq_contents q' = fq_contents q @ [fq_pipe q ! unat (fq_end q)]
    else fq_nilufar_push_to_end_data q d = Inl Out_of_bounds"
proof -
  let ?n = "unat (fq_nElems q)" and ?e = "unat (fq_end q)"
  have e: "?e = (unat (fq_start q) + ?n) mod fq_capacity q" using fq_inv_end [OF assms(1)] .
  have cap: "fq_capacity q \<le> 2 ^ 31"
    using assms(1) power_increasing [of _ 31 "2::nat"] by (auto simp: fq_inv_def)
  have "?e < fq_capacity q" using e fq_capacity_pos [OF assms(1)] by simp
  then have e1: "unat (fq_end q + 1) = ?e + 1" using cap by (simp add: unat_word_ariths)
  have n1: "unat (fq_nElems q + 1) = ?n + 1" using cap assms(2) by (simp add: unat_word_ariths)
  have le: "fq_nElems q \<le> fq_pipeMask q" using unat_nElems_bounds [OF assms(1)] assms(2) by simp
  show ?thesis
  proof (cases "?e + 1 < fq_capacity q")
    case False
    then show ?thesis using le e1 by (simp add: fq_nilufar_push_to_end_data_def fq_capacity_def)
  next
    case True
    define q' where "q' = q\<lparr>fq_pipe := (fq_pipe q)[?e + 1 := d],
      fq_end := (fq_end q + 1) AND fq_pipeMask q, fq_nElems := fq_nElems q + 1\<rparr>"
    have "fq_nilufar_push_to_end_data q d = Inr q'"
      using assms(1) True le e1
      by (simp add: fq_nilufar_push_to_end_data_def q'_def fq_capacity_def fq_inv_def)
    moreover have "fq_contents q' = fq_contents q @ [fq_pipe q ! ?e]"
    proof (rule nth_equalityI)
      show "length (fq_contents q') = length (fq_contents q @ [fq_pipe q ! ?e])"
        by (simp add: q'_def n1)
      fix i assume "i < length (fq_contents q')"
      then have i: "i < ?n + 1" by (simp add: q'_def n1)
      let ?p = "(unat (fq_start q) + i) mod fq_capacity q"
      have "?e + 1 = (unat (fq_start q) + (?n + 1)) mod fq_capacity q"
        using e True by (metis Suc_eq_plus1 add_Suc_right mod_Suc_eq mod_less)
      then have "?p \<noteq> ?e + 1"
        using i assms(2) ring_offset_inj [of i "fq_capacity q" "?n + 1"] by auto
      then have "fq_contents q' ! i = fq_pipe q ! ?p"
        using i by (subst fq_contents_nth) (simp_all add: q'_def n1 fq_capacity_def)
      then show "fq_contents q' ! i = (fq_contents q @ [fq_pipe q ! ?e]) ! i"
        using i e by (cases "i = ?n") (simp_all add: nth_append fq_contents_nth)
    qed
    ultimately show ?thesis using True by auto
  qed
qed

theorem fq_nilufar_push_wrong_slot_witness:
  "\<exists>q'. fq_nilufar_push_to_end_data fq_example 5 = Inr q' \<and> fq_contents q' = [6, 7, 8]"
  using fq_nilufar_push_wrong_slot [OF fq_example_inv, of 5]
  by (simp add: fq_example_def fq_capacity_def fq_contents_def upt_rec)

end
