(* ===== verification/Pool.thy ===== *)
theory Pool
  imports Desesc_Prelude
begin

text \<open>
  \<open>core/pool.hpp\<close>, class \<open>pool\<close>: the free list that every callback and memory
  request of the simulator is taken from, as compiled in a debug build (assertions and the
  size check on, the timeout and the clear-on-insert options off). A holder is a number,
  the next one is what \<open>::new\<close> returns; the chain of \<open>holderNext\<close> pointers from
  \<open>first\<close> and the chain of \<open>allNext\<close> pointers from \<open>allFirst\<close> are lists, since
  both are only pushed and popped at their heads. The facts: the free list and the
  \<open>inPool\<close> flags always agree, taking an object never fails for the owning thread and
  never returns one that is in use, and the debug walk over the objects in use skips the
  newest holder.
\<close>

section \<open>The interface\<close>

text \<open>What a client of the pool relies on: an object handed out was not in use, and is in
  use until it is given back.\<close>

locale object_pool =
  fixes valid :: "'p \<Rightarrow> bool"
    and in_use :: "'p \<Rightarrow> 'h set"
    and take_object :: "'p \<Rightarrow> ('h \<times> 'p) res"
    and give_object :: "'h \<Rightarrow> 'p \<Rightarrow> 'p res"
  assumes take_ok: "valid p \<Longrightarrow>
      \<exists>h p'. take_object p = Inr (h, p') \<and> valid p' \<and> h \<notin> in_use p \<and> in_use p' = insert h (in_use p)"
    and give_ok: "valid p \<Longrightarrow> h \<in> in_use p \<Longrightarrow>
      \<exists>p'. give_object h p = Inr p' \<and> valid p' \<and> in_use p' = in_use p - {h}"
begin

fun take_many :: "nat \<Rightarrow> 'p \<Rightarrow> ('h list \<times> 'p) res" where
  "take_many 0 p = Inr ([], p)"
| "take_many (Suc n) p =
    bind_res (take_object p) (\<lambda>(h, p). bind_res (take_many n p) (\<lambda>(hs, p). Inr (h # hs, p)))"

lemma take_many_ok:
  "valid p \<Longrightarrow> \<exists>hs p'. take_many n p = Inr (hs, p') \<and> valid p' \<and> length hs = n \<and> distinct hs \<and>
    set hs \<inter> in_use p = {} \<and> in_use p' = set hs \<union> in_use p"
proof (induction n arbitrary: p)
  case 0
  then show ?case by simp
next
  case (Suc n)
  obtain h p1 where 1: "take_object p = Inr (h, p1)" "valid p1" "h \<notin> in_use p"
    "in_use p1 = insert h (in_use p)"
    using take_ok [OF Suc.prems] by blast
  from Suc.IH [OF 1(2)] obtain hs p2 where "take_many n p1 = Inr (hs, p2)" "valid p2"
    "length hs = n" "distinct hs" "set hs \<inter> in_use p1 = {}" "in_use p2 = set hs \<union> in_use p1"
    by blast
  with 1 show ?case by auto
qed

end

section \<open>State and operations\<close>

record pool =
  pl_Size :: nat
  pl_first :: "nat list"
  pl_allFirst :: "nat list"
  pl_inPool :: "nat \<Rightarrow> bool"
  pl_new :: nat
  pl_psize :: u64
  pl_warn_psize :: u64
  pl_thid :: nat
  pl_deleted :: bool

fun pool_reproduce_loop :: "nat \<Rightarrow> pool \<Rightarrow> pool" where
  "pool_reproduce_loop 0 p = p"
| "pool_reproduce_loop (Suc n) p =
    (let h = pl_new p
     in pool_reproduce_loop n
          (p\<lparr>pl_new := Suc h, pl_inPool := (pl_inPool p)(h := True),
             pl_allFirst := h # pl_allFirst p, pl_first := h # pl_first p\<rparr>))"

definition pool_reproduce :: "pool \<Rightarrow> pool res" where
  "pool_reproduce p = assert_res (pl_first p = []) (Inr (pool_reproduce_loop (pl_Size p) p))"

definition pool_create :: "nat \<Rightarrow> pool res" where
  "pool_create s =
    assert_res (s > 0)
     (pool_reproduce
       \<lparr>pl_Size = s, pl_first = [], pl_allFirst = [], pl_inPool = (\<lambda>_. False), pl_new = 0,
        pl_psize = 0, pl_warn_psize = of_nat (s * 8), pl_thid = 0, pl_deleted = False\<rparr>)"

definition pool_claim_thread :: "nat \<Rightarrow> pool \<Rightarrow> pool" where
  "pool_claim_thread self p = (if pl_thid p = 0 then p\<lparr>pl_thid := self\<rparr> else p)"

definition pool_in :: "nat \<Rightarrow> nat \<Rightarrow> pool \<Rightarrow> pool res" where
  "pool_in self h p0 =
    (let p = pool_claim_thread self p0
     in assert_res (pl_thid p = self)
         (assert_res (\<not> pl_deleted p)
           (assert_res (\<not> pl_inPool p h)
             (Inr (p\<lparr>pl_inPool := (pl_inPool p)(h := True), pl_first := h # pl_first p,
                     pl_psize := pl_psize p - 1\<rparr>)))))"

definition pool_size_check :: "pool \<Rightarrow> pool" where
  "pool_size_check p =
    (let p = p\<lparr>pl_psize := pl_psize p + 1\<rparr>
     in if pl_psize p \<ge> pl_warn_psize p then p\<lparr>pl_warn_psize := 4 * pl_psize p\<rparr> else p)"

definition pool_out :: "nat \<Rightarrow> pool \<Rightarrow> (nat \<times> pool) res" where
  "pool_out self p0 =
    (let p = pool_claim_thread self p0
     in assert_res (pl_thid p = self)
         (assert_res (\<not> pl_deleted p)
           (case pl_first p of
              [] \<Rightarrow> Inl Assert_failed
            | h # rest \<Rightarrow>
                assert_res (pl_inPool p h)
                 (let p = pool_size_check (p\<lparr>pl_inPool := (pl_inPool p)(h := False)\<rparr>);
                      p = p\<lparr>pl_first := rest\<rparr>
                  in if rest = [] then bind_res (pool_reproduce p) (\<lambda>p. Inr (h, p))
                     else Inr (h, p)))))"

text \<open>\<open>nextInUse\<close>: the walk starts at the successor of the given holder.\<close>

definition pool_nextInUse :: "pool \<Rightarrow> nat \<Rightarrow> nat option" where
  "pool_nextInUse p current =
    List.find (\<lambda>h. \<not> pl_inPool p h) (drop 1 (dropWhile (\<lambda>h. h \<noteq> current) (pl_allFirst p)))"

definition pool_firstInUse :: "pool \<Rightarrow> nat option res" where
  "pool_firstInUse p =
    (case pl_allFirst p of [] \<Rightarrow> Inl Null_deref | h # _ \<Rightarrow> Inr (pool_nextInUse p h))"

section \<open>Invariant\<close>

definition pool_in_use :: "pool \<Rightarrow> nat set" where
  "pool_in_use p = {h. h < pl_new p \<and> \<not> pl_inPool p h}"

definition pool_agree :: "pool \<Rightarrow> bool" where
  "pool_agree p \<longleftrightarrow>
    distinct (pl_first p) \<and> (\<forall>h < pl_new p. pl_inPool p h \<longleftrightarrow> h \<in> set (pl_first p)) \<and>
    set (pl_first p) \<subseteq> {..<pl_new p} \<and> pl_allFirst p = rev [0..<pl_new p] \<and>
    0 < pl_Size p \<and> \<not> pl_deleted p \<and> pl_psize p = of_nat (card (pool_in_use p))"

definition pool_inv :: "nat \<Rightarrow> pool \<Rightarrow> bool" where
  "pool_inv self p \<longleftrightarrow> pool_agree p \<and> pl_first p \<noteq> [] \<and> (pl_thid p = 0 \<or> pl_thid p = self)"

lemma finite_pool_in_use [simp]: "finite (pool_in_use p)"
  by (simp add: pool_in_use_def)

lemma pool_claim_thread_simps [simp]:
  "pl_first (pool_claim_thread self p) = pl_first p"
  "pl_inPool (pool_claim_thread self p) = pl_inPool p"
  "pl_new (pool_claim_thread self p) = pl_new p"
  "pl_allFirst (pool_claim_thread self p) = pl_allFirst p"
  "pl_deleted (pool_claim_thread self p) = pl_deleted p"
  "pl_psize (pool_claim_thread self p) = pl_psize p"
  "pool_in_use (pool_claim_thread self p) = pool_in_use p"
  "pool_agree (pool_claim_thread self p) \<longleftrightarrow> pool_agree p"
  "pl_thid p = 0 \<or> pl_thid p = self \<Longrightarrow> pl_thid (pool_claim_thread self p) = self"
  by (auto simp: pool_claim_thread_def pool_in_use_def pool_agree_def)

lemma pool_size_check_simps [simp]:
  "pl_first (pool_size_check p) = pl_first p"
  "pl_allFirst (pool_size_check p) = pl_allFirst p"
  "pl_inPool (pool_size_check p) = pl_inPool p"
  "pl_new (pool_size_check p) = pl_new p"
  "pl_Size (pool_size_check p) = pl_Size p"
  "pl_thid (pool_size_check p) = pl_thid p"
  "pl_deleted (pool_size_check p) = pl_deleted p"
  "pl_psize (pool_size_check p) = pl_psize p + 1"
  by (simp_all add: pool_size_check_def Let_def)

lemma pool_agree_new:
  assumes "pool_agree p"
  shows "pool_agree (p\<lparr>pl_new := Suc (pl_new p), pl_inPool := (pl_inPool p)(pl_new p := True),
           pl_allFirst := pl_new p # pl_allFirst p, pl_first := pl_new p # pl_first p\<rparr>)"
proof -
  let ?p = "p\<lparr>pl_new := Suc (pl_new p), pl_inPool := (pl_inPool p)(pl_new p := True),
           pl_allFirst := pl_new p # pl_allFirst p, pl_first := pl_new p # pl_first p\<rparr>"
  have "pool_in_use ?p = pool_in_use p" by (auto simp: pool_in_use_def less_Suc_eq)
  then show ?thesis using assms by (auto simp: pool_agree_def less_Suc_eq)
qed

lemma pool_reproduce_loop_agree:
  "pool_agree p \<Longrightarrow> pool_agree (pool_reproduce_loop n p) \<and>
    pool_in_use (pool_reproduce_loop n p) = pool_in_use p \<and>
    pl_thid (pool_reproduce_loop n p) = pl_thid p \<and>
    (0 < n \<longrightarrow> pl_first (pool_reproduce_loop n p) \<noteq> [])"
proof (induction n arbitrary: p)
  case 0
  then show ?case by simp
next
  case (Suc n)
  let ?p = "p\<lparr>pl_new := Suc (pl_new p), pl_inPool := (pl_inPool p)(pl_new p := True),
           pl_allFirst := pl_new p # pl_allFirst p, pl_first := pl_new p # pl_first p\<rparr>"
  have "pool_in_use ?p = pool_in_use p" by (auto simp: pool_in_use_def less_Suc_eq)
  then show ?case
    using Suc.IH [OF pool_agree_new [OF Suc.prems]] by (cases n) (auto simp: Let_def)
qed

lemma pool_create_inv:
  assumes "0 < s"
  obtains p where "pool_create s = Inr p" and "pool_inv self p" and "pool_in_use p = {}"
proof -
  define p0 where "p0 = \<lparr>pl_Size = s, pl_first = [], pl_allFirst = [], pl_inPool = (\<lambda>_. False),
    pl_new = 0, pl_psize = 0, pl_warn_psize = of_nat (s * 8), pl_thid = 0, pl_deleted = False\<rparr>"
  have "pool_agree p0" using assms by (simp add: pool_agree_def p0_def pool_in_use_def)
  from pool_reproduce_loop_agree [OF this, of s] assms
  have "pool_inv self (pool_reproduce_loop s p0)" "pool_in_use (pool_reproduce_loop s p0) = {}"
    by (auto simp: pool_inv_def p0_def pool_in_use_def)
  moreover have "pool_create s = Inr (pool_reproduce_loop s p0)"
    using assms by (simp add: pool_create_def pool_reproduce_def p0_def)
  ultimately show ?thesis using that by blast
qed

lemma pool_out_ok:
  assumes inv: "pool_inv self p"
  obtains h p' where "pool_out self p = Inr (h, p')" and "pool_inv self p'" and "h = hd (pl_first p)"
    and "h \<notin> pool_in_use p" and "pool_in_use p' = insert h (pool_in_use p)"
proof -
  let ?q = "pool_claim_thread self p"
  obtain h rest where first: "pl_first p = h # rest" using inv by (cases "pl_first p") (auto simp: pool_inv_def)
  have agree: "pool_agree ?q" and thid: "pl_thid ?q = self" using inv by (auto simp: pool_inv_def)
  have h: "h < pl_new p" "pl_inPool p h" "h \<notin> set rest"
    using agree first by (auto simp: pool_agree_def)
  define p1 where "p1 = (pool_size_check (?q\<lparr>pl_inPool := (pl_inPool ?q)(h := False)\<rparr>))\<lparr>pl_first := rest\<rparr>"
  have use: "pool_in_use p1 = insert h (pool_in_use p)" "h \<notin> pool_in_use p"
    using h by (auto simp: pool_in_use_def p1_def)
  have "pool_agree p1"
    using agree h first use by (auto simp: pool_agree_def) (auto simp: p1_def pool_in_use_def)
  have thid1: "pl_thid p1 = self" using thid by (simp add: p1_def)
  show ?thesis
  proof (cases "rest = []")
    case True
    then have "pool_out self p = Inr (h, pool_reproduce_loop (pl_Size p1) p1)"
      using first h agree thid
      by (simp add: pool_out_def Let_def pool_agree_def pool_reproduce_def p1_def)
    then show ?thesis
      using pool_reproduce_loop_agree [OF \<open>pool_agree p1\<close>, of "pl_Size p1"] \<open>pool_agree p1\<close> thid1 use first that
      by (auto simp: pool_inv_def pool_agree_def [of p1])
  next
    case False
    then have "pool_out self p = Inr (h, p1)"
      using first h agree thid by (simp add: pool_out_def Let_def pool_agree_def p1_def)
    moreover have "pl_first p1 \<noteq> []" using False by (simp add: p1_def)
    ultimately show ?thesis using \<open>pool_agree p1\<close> thid1 use first that by (auto simp: pool_inv_def)
  qed
qed

lemma pool_in_ok:
  assumes inv: "pool_inv self p" and use: "h \<in> pool_in_use p"
  obtains p' where "pool_in self h p = Inr p'" and "pool_inv self p'"
    and "pool_in_use p' = pool_in_use p - {h}" and "pl_first p' = h # pl_first p"
proof -
  let ?q = "pool_claim_thread self p"
  have agree: "pool_agree ?q" and thid: "pl_thid ?q = self" using inv by (auto simp: pool_inv_def)
  have h: "h < pl_new p" "\<not> pl_inPool p h" "h \<notin> set (pl_first p)"
    using use agree by (auto simp: pool_in_use_def pool_agree_def)
  define p1 where "p1 = ?q\<lparr>pl_inPool := (pl_inPool ?q)(h := True), pl_first := h # pl_first ?q,
    pl_psize := pl_psize ?q - 1\<rparr>"
  have use1: "pool_in_use p1 = pool_in_use p - {h}"
    using h by (auto simp: pool_in_use_def p1_def)
  have "card (pool_in_use p) = Suc (card (pool_in_use p1))"
    using use use1 card.remove [of "pool_in_use p" h] by simp
  then have "(of_nat (card (pool_in_use p)) :: u64) - 1 = of_nat (card (pool_in_use p1))" by simp
  then have "pl_psize p1 = of_nat (card (pool_in_use p1))"
    using agree by (simp add: pool_agree_def p1_def)
  then have "pool_agree p1"
    using agree h unfolding pool_agree_def by (auto simp: p1_def)
  then have "pool_inv self p1" using thid by (simp add: pool_inv_def p1_def)
  moreover have "pool_in self h p = Inr p1"
    using h agree thid by (simp add: pool_in_def Let_def pool_agree_def p1_def)
  moreover have "pl_first p1 = h # pl_first p" by (simp add: p1_def)
  ultimately show ?thesis using use1 that by blast
qed

interpretation pl: object_pool "pool_inv self" pool_in_use "pool_out self" "pool_in self" for self
proof unfold_locales
  fix p h
  assume inv: "pool_inv self p"
  show "\<exists>h p'. pool_out self p = Inr (h, p') \<and> pool_inv self p' \<and> h \<notin> pool_in_use p \<and>
      pool_in_use p' = insert h (pool_in_use p)"
    using pool_out_ok [OF inv] by metis
  show "\<exists>p'. pool_in self h p = Inr p' \<and> pool_inv self p' \<and> pool_in_use p' = pool_in_use p - {h}"
    if "h \<in> pool_in_use p"
    using pool_in_ok [OF inv that] by metis
qed

section \<open>A client\<close>

text \<open>A client of one thread that keeps the objects it holds and gives one of them back by
  its position; giving back at a position it does not have is no operation.\<close>

datatype pool_event = TakeOne | GiveBack nat

fun pool_client :: "nat \<Rightarrow> nat list \<times> pool \<Rightarrow> pool_event list \<Rightarrow> (nat list \<times> pool) res" where
  "pool_client self s [] = Inr s"
| "pool_client self (held, p) (TakeOne # evs) =
    bind_res (pool_out self p) (\<lambda>(h, p). pool_client self (h # held, p) evs)"
| "pool_client self (held, p) (GiveBack k # evs) =
    (if k < length held
     then bind_res (pool_in self (held ! k) p)
            (\<lambda>p. pool_client self (take k held @ drop (Suc k) held, p) evs)
     else pool_client self (held, p) evs)"

lemma set_without_nth:
  assumes "k < length xs" and "distinct xs"
  shows "set (take k xs @ drop (Suc k) xs) = set xs - {xs ! k}" and "distinct (take k xs @ drop (Suc k) xs)"
proof -
  have "xs = take k xs @ xs ! k # drop (Suc k) xs" using assms(1) by (rule id_take_nth_drop)
  then obtain as b bs where eq: "xs = as @ b # bs" "b = xs ! k" "as = take k xs" "bs = drop (Suc k) xs"
    by blast
  have "distinct (as @ b # bs)" using assms(2) eq(1) by simp
  moreover have "set xs = insert b (set as \<union> set bs)" by (subst eq(1)) auto
  ultimately show "set (take k xs @ drop (Suc k) xs) = set xs - {xs ! k}"
    and "distinct (take k xs @ drop (Suc k) xs)"
    unfolding eq(2) [symmetric] eq(3) [symmetric] eq(4) [symmetric] by auto
qed

lemma pool_client_ok:
  assumes "pool_inv self p" and "distinct held" and "set held = pool_in_use p"
  shows "\<exists>held' p'. pool_client self (held, p) evs = Inr (held', p') \<and> pool_inv self p' \<and>
    distinct held' \<and> set held' = pool_in_use p'"
  using assms
proof (induction evs arbitrary: held p)
  case Nil
  then show ?case by simp
next
  case (Cons ev evs)
  show ?case
  proof (cases ev)
    case TakeOne
    obtain h p1 where 1: "pool_out self p = Inr (h, p1)" "pool_inv self p1" "h \<notin> pool_in_use p"
      "pool_in_use p1 = insert h (pool_in_use p)"
      using pl.take_ok [OF Cons.prems(1)] by blast
    then have "distinct (h # held)" "set (h # held) = pool_in_use p1" using Cons.prems by simp_all
    from Cons.IH [OF 1(2) this] 1(1) TakeOne show ?thesis by simp
  next
    case (GiveBack k)
    show ?thesis
    proof (cases "k < length held")
      case True
      then have "held ! k \<in> pool_in_use p" using nth_mem Cons.prems(3) by fast
      then obtain p1 where 1: "pool_in self (held ! k) p = Inr p1" "pool_inv self p1"
        "pool_in_use p1 = pool_in_use p - {held ! k}"
        using pl.give_ok [OF Cons.prems(1)] by blast
      have "set (take k held @ drop (Suc k) held) = pool_in_use p1"
        using 1(3) Cons.prems(3) set_without_nth(1) [OF True Cons.prems(2)] by (simp only:)
      note IH = Cons.IH [OF 1(2) set_without_nth(2) [OF True Cons.prems(2)] this]
      have "pool_client self (held, p) (ev # evs)
          = pool_client self (take k held @ drop (Suc k) held, p1) evs"
        using 1(1) True GiveBack by (simp only: pool_client.simps if_True bind_res_simps)
      then show ?thesis using IH by (simp only:)
    next
      case False
      then show ?thesis using GiveBack Cons by simp
    qed
  qed
qed

text \<open>C30. Whatever a single-threaded client takes from and gives back to a fresh pool, no
  assertion of the pool fails, the objects it holds are pairwise different, they are exactly
  the objects the pool has out, and the debug size counter equals their number.\<close>

theorem pool_client_safe:
  assumes "0 < s"
  shows "\<exists>p held p'. pool_create s = Inr p \<and> pool_client self ([], p) evs = Inr (held, p') \<and>
    distinct held \<and> set held = pool_in_use p' \<and> pl_psize p' = of_nat (length held)"
proof -
  obtain p where p: "pool_create s = Inr p" "pool_inv self p" "pool_in_use p = {}"
    using pool_create_inv [OF assms] .
  obtain held p' where r: "pool_client self ([], p) evs = Inr (held, p')" "pool_inv self p'"
    "distinct held" "set held = pool_in_use p'"
    using pool_client_ok [of self p "[]" evs] p by auto
  have "card (pool_in_use p') = length held" using r(3,4) distinct_card by metis
  then have "pl_psize p' = of_nat (length held)" using r(2) by (simp add: pool_inv_def pool_agree_def)
  then show ?thesis using p r by blast
qed

theorem pool_client_safe_witness:
  "\<exists>p held p'. pool_create 2 = Inr p \<and>
    pool_client 1 ([], p) [TakeOne, TakeOne, TakeOne, GiveBack 1] = Inr (held, p') \<and>
    distinct held \<and> set held = pool_in_use p' \<and> pl_psize p' = of_nat (length held)"
  by (rule pool_client_safe) simp

section \<open>The debug walk\<close>

lemma pool_reproduce_loop_lists:
  "pl_first (pool_reproduce_loop n p) = rev [pl_new p..<pl_new p + n] @ pl_first p \<and>
   pl_allFirst (pool_reproduce_loop n p) = rev [pl_new p..<pl_new p + n] @ pl_allFirst p"
proof (induction n arbitrary: p)
  case 0
  then show ?case by simp
next
  case (Suc n)
  have "[pl_new p..<pl_new p + Suc n] = pl_new p # [Suc (pl_new p)..<Suc (pl_new p) + n]"
    by (simp add: upt_conv_Cons)
  then show ?case using Suc.IH by (simp add: Let_def)
qed

lemma pool_out_frame:
  assumes "pool_out self p = Inr (h, p')" and "pl_first p = g # rest" and "rest \<noteq> []"
  shows "pl_allFirst p' = pl_allFirst p \<and> pl_new p' = pl_new p"
  using assms
  by (auto simp: pool_out_def Let_def assert_res_Inr_iff)

text \<open>\<open>firstInUse\<close> misses the newest holder: after the first object is taken from a
  fresh pool of at least two holders, that object is the only one in use, and
  \<open>firstInUse\<close> reports that none is, since \<open>nextInUse\<close> starts its walk behind the
  holder it is given.\<close>

theorem pool_firstInUse_misses_newest:
  assumes "2 \<le> s"
  shows "\<exists>p h p'. pool_create s = Inr p \<and> pool_out self p = Inr (h, p') \<and>
    pool_in_use p' = {h} \<and> pool_firstInUse p' = Inr None"
proof -
  obtain p where p: "pool_create s = Inr p" "pool_inv self p" "pool_in_use p = {}"
    using pool_create_inv [of s self] assms by auto
  define p0 where "p0 = \<lparr>pl_Size = s, pl_first = [], pl_allFirst = [], pl_inPool = (\<lambda>_. False),
    pl_new = 0, pl_psize = 0, pl_warn_psize = of_nat (s * 8), pl_thid = 0, pl_deleted = False\<rparr>"
  have "p = pool_reproduce_loop s p0"
    using p(1) assms by (simp add: pool_create_def pool_reproduce_def p0_def)
  then have first: "pl_first p = rev [0..<s]" and all: "pl_allFirst p = rev [0..<s]"
    using pool_reproduce_loop_lists [of s p0] by (simp_all add: p0_def)
  define m where "m = s - 2"
  have m: "s = Suc (Suc m)" using assms by (simp add: m_def)
  have hd: "pl_first p = Suc m # rev [0..<Suc m]" "pl_allFirst p = Suc m # rev [0..<Suc m]"
    unfolding first all m by simp_all
  obtain h p' where out: "pool_out self p = Inr (h, p')" "h = hd (pl_first p)"
    "pool_in_use p' = insert h (pool_in_use p)" "pool_inv self p'"
    using pool_out_ok [OF p(2)] by metis
  have frame: "pl_allFirst p' = pl_allFirst p \<and> pl_new p' = pl_new p"
    using pool_out_frame [OF out(1) hd(1)] by simp
  have "pl_allFirst p = rev [0..<pl_new p]" using p(2) by (simp add: pool_inv_def pool_agree_def)
  then have "length (rev [0..<s]) = length (rev [0..<pl_new p])" using all by metis
  then have new: "pl_new p = s" by simp
  have "pl_inPool p' i" if "i \<in> set (rev [0..<Suc m])" for i
  proof -
    have "i < pl_new p'" using frame new m that by auto
    moreover have "i \<noteq> h" using that out(2) hd by auto
    ultimately show ?thesis using out(3) p(3) unfolding pool_in_use_def by blast
  qed
  then have "List.find (\<lambda>h. \<not> pl_inPool p' h) (rev [0..<Suc m]) = None"
    by (simp only: find_None_iff) blast
  then have "pool_firstInUse p' = Inr None"
    using frame hd by (simp add: pool_firstInUse_def pool_nextInUse_def)
  then show ?thesis using p(1,3) out by auto
qed

theorem pool_firstInUse_misses_newest_witness:
  "\<exists>p h p'. pool_create 32 = Inr p \<and> pool_out 1 p = Inr (h, p') \<and>
    pool_in_use p' = {h} \<and> pool_firstInUse p' = Inr None"
  by (rule pool_firstInUse_misses_newest) simp

end
