(* ===== verification/Tqueue.thy ===== *)
theory Tqueue
  imports Snippets
begin

text \<open>
  \<open>core/tqueue.hpp\<close>: the calendar queue of the event scheduler, as compiled with
  \<open>STRICT_PRIORITY\<close> (the definition \<open>callback.hpp\<close> makes). Jobs are node numbers;
  the fields of \<open>TQueue::User\<close> (time, next pointer, queue type) and the priority of the
  derived class are maps from node numbers, so that the bucket chains are chains of next
  pointers and the tail pointers alias their nodes as in the code. The overflow heap is the
  list of its nodes in time order: the code only uses the front, a pop of the front, a push
  and an erase. The order of equal times in a \<open>std\<close> heap is not specified: the list keeps one
  of the possible orders, and the theorems speak of times, priorities and the set of jobs only.
\<close>

section \<open>State\<close>

datatype queue_type = InNoQueue | InFastQueue | InTooFarQueue

record tqueue =
  tq_minTime :: sim_time
  tq_minPos :: u32
  tq_nNodes :: int
  tq_AccessSize :: u32
  tq_access :: "nat option list"
  tq_accessTail :: "nat option list"
  tq_tooFar :: "nat list"
  tq_minTooFar :: sim_time
  nd_time :: "nat \<Rightarrow> sim_time"
  nd_next :: "nat \<Rightarrow> nat option"
  nd_qType :: "nat \<Rightarrow> queue_type"
  nd_priority :: "nat \<Rightarrow> u64"

definition MaxTime :: sim_time where
  "MaxTime = NOT 0 - 1024"

definition tq_AccessMask :: "tqueue \<Rightarrow> u32" where
  "tq_AccessMask q = tq_AccessSize q - 1"

definition tq_setTQNext :: "nat \<Rightarrow> nat option \<Rightarrow> tqueue \<Rightarrow> tqueue" where
  "tq_setTQNext n p q = q\<lparr>nd_next := (nd_next q)(n := p)\<rparr>"

definition tq_setType :: "nat \<Rightarrow> queue_type \<Rightarrow> tqueue \<Rightarrow> tqueue" where
  "tq_setType n ty q = q\<lparr>nd_qType := (nd_qType q)(n := ty)\<rparr>"

section \<open>Operations\<close>

definition tq_pos :: "tqueue \<Rightarrow> sim_time \<Rightarrow> nat" where
  "tq_pos q t = unat (ucast (ucast (tq_minPos q) + t - tq_minTime q) AND tq_AccessMask q)"

definition tq_near :: "tqueue \<Rightarrow> sim_time \<Rightarrow> bool" where
  "tq_near q t \<longleftrightarrow> (ucast (t - tq_minTime q) :: u32) < tq_AccessSize q"

text \<open>The scan of a bucket for the first node of a lower priority (a larger value).\<close>

partial_function (option) tq_scan ::
  "(nat \<Rightarrow> nat option) \<Rightarrow> (nat \<Rightarrow> u64) \<Rightarrow> u64 \<Rightarrow> nat option \<Rightarrow> nat option \<Rightarrow> (nat option \<times> nat option) option"
  where
  "tq_scan nx pr p prev cur =
    (case cur of
       None \<Rightarrow> Some (prev, None)
     | Some c \<Rightarrow> if pr c \<le> p then tq_scan nx pr p (Some c) (nx c) else Some (prev, Some c))"

definition tq_addNode :: "nat \<Rightarrow> sim_time \<Rightarrow> tqueue \<Rightarrow> tqueue res" where
  "tq_addNode node t q =
    assert_res (t \<ge> tq_minTime q)
     (assert_res ((word_of_int \<bar>sint (ucast (t - tq_minTime q) :: u32)\<bar> :: u32) < tq_AccessSize q)
       (let pos = tq_pos q t;
            finish = (\<lambda>q. let q = tq_setType node InFastQueue q in q\<lparr>tq_nNodes := tq_nNodes q + 1\<rparr>)
        in case tq_access q ! pos of
             None \<Rightarrow>
               Inr (finish (tq_setTQNext node None
                 (q\<lparr>tq_access := (tq_access q)[pos := Some node],
                    tq_accessTail := (tq_accessTail q)[pos := Some node]\<rparr>)))
           | Some h \<Rightarrow>
               deref (tq_accessTail q ! pos) (\<lambda>tail.
                 if nd_priority q tail \<le> nd_priority q node
                 then Inr (finish (tq_setTQNext node None
                        ((tq_setTQNext tail (Some node) q)
                           \<lparr>tq_accessTail := (tq_accessTail q)[pos := Some node]\<rparr>)))
                 else (case tq_scan (nd_next q) (nd_priority q) (nd_priority q node) None (Some h) of
                         None \<Rightarrow> Inl Diverged
                       | Some (prev, cur) \<Rightarrow>
                           (let q' = (case prev of
                                        None \<Rightarrow>
                                          (tq_setTQNext node (Some h) q)
                                            \<lparr>tq_access := (tq_access q)[pos := Some node]\<rparr>
                                      | Some p \<Rightarrow> tq_setTQNext node cur (tq_setTQNext p (Some node) q));
                                q'' = (if cur = None
                                       then q'\<lparr>tq_accessTail := (tq_accessTail q')[pos := Some node]\<rparr>
                                       else q')
                            in Inr (finish q''))))))"

text \<open>\<open>adjustTooFar\<close>: the loop over the front of the heap.\<close>

fun tq_adjust_loop :: "nat list \<Rightarrow> tqueue \<Rightarrow> tqueue res" where
  "tq_adjust_loop [] q = Inr (q\<lparr>tq_tooFar := [], tq_minTooFar := MaxTime\<rparr>)"
| "tq_adjust_loop (n # ns) q =
    (if tq_near q (nd_time q n)
     then bind_res (tq_addNode n (nd_time q n) q) (tq_adjust_loop ns)
     else Inr (q\<lparr>tq_tooFar := n # ns, tq_minTooFar := nd_time q n\<rparr>))"

definition tq_adjustTooFar :: "tqueue \<Rightarrow> tqueue res" where
  "tq_adjustTooFar q = assert_res (tq_tooFar q \<noteq> []) (tq_adjust_loop (tq_tooFar q) q)"

definition tq_insert :: "nat \<Rightarrow> sim_time \<Rightarrow> tqueue \<Rightarrow> tqueue res" where
  "tq_insert n t q =
    assert_res (nd_qType q n = InNoQueue)
     (assert_res (t \<ge> tq_minTime q)
       (let q = q\<lparr>nd_time := (nd_time q)(n := t)\<rparr>
        in if tq_near q t then tq_addNode n t q
           else (let q = tq_setType n InTooFarQueue q;
                     q = q\<lparr>tq_tooFar := insort_key (nd_time q) n (tq_tooFar q)\<rparr>
                 in Inr (if tq_minTooFar q > t then q\<lparr>tq_minTooFar := t\<rparr> else q))))"

function tq_advance :: "nat option list \<Rightarrow> u32 \<Rightarrow> sim_time \<Rightarrow> u32 \<Rightarrow> sim_time \<Rightarrow> u32 \<times> sim_time" where
  "tq_advance access msk cTime minPos minTime =
    (if access ! unat minPos = None \<and> minTime < cTime
     then tq_advance access msk cTime ((minPos + 1) AND msk) (minTime + 1)
     else (minPos, minTime))"
  by pat_completeness auto
termination
  by (relation "measure (\<lambda>(access, msk, cTime, minPos, minTime). unat cTime - unat minTime)")
    (auto simp: word_less_nat_alt unat_word_succ [simplified word_less_nat_alt])

declare tq_advance.simps [simp del]

lemma tq_advance_skip:
  "access ! unat p = None \<Longrightarrow> m < c \<Longrightarrow>
    tq_advance access msk c p m = tq_advance access msk c ((p + 1) AND msk) (m + 1)"
  by (subst tq_advance.simps) simp

lemma tq_advance_stop:
  "access ! unat p \<noteq> None \<or> \<not> m < c \<Longrightarrow> tq_advance access msk c p m = (p, m)"
  by (subst tq_advance.simps) auto

definition tq_take_min :: "nat \<Rightarrow> tqueue \<Rightarrow> tqueue" where
  "tq_take_min node q =
    tq_setType node InNoQueue
      (q\<lparr>tq_nNodes := tq_nNodes q - 1,
         tq_access := (tq_access q)[unat (tq_minPos q) := nd_next q node]\<rparr>)"

text \<open>The second half of \<open>nextJob\<close>: the search over the slots up to \<open>cTime\<close>.\<close>

definition tq_search :: "sim_time \<Rightarrow> tqueue \<Rightarrow> (nat option \<times> tqueue) res" where
  "tq_search cTime q =
    (if tq_nNodes q = 0 then Inr (None, q\<lparr>tq_minTime := cTime, tq_minPos := 0\<rparr>)
     else (let (minPos, minTime) =
                 tq_advance (tq_access q) (tq_AccessMask q) cTime (tq_minPos q) (tq_minTime q);
               q = q\<lparr>tq_minPos := minPos, tq_minTime := minTime\<rparr>
           in case tq_access q ! unat minPos of
                None \<Rightarrow> Inr (None, q)
              | Some node \<Rightarrow>
                  assert_res (tq_minTime q \<le> cTime)
                   (assert_res (tq_nNodes q \<noteq> 0) (Inr (Some node, tq_take_min node q)))))"

definition tq_nextJob :: "sim_time \<Rightarrow> tqueue \<Rightarrow> (nat option \<times> tqueue) res" where
  "tq_nextJob cTime q =
    (if tq_access q ! unat (tq_minPos q) \<noteq> None \<and> tq_minTime q = cTime
     then (let node = the (tq_access q ! unat (tq_minPos q)) in Inr (Some node, tq_take_min node q))
     else bind_res (if tq_minTooFar q \<le> cTime then tq_adjustTooFar q else Inr q) (tq_search cTime))"

text \<open>\<open>remove\<close>: the walk to the node keeps the previous node.\<close>

partial_function (option) tq_find_prev ::
  "(nat \<Rightarrow> nat option) \<Rightarrow> nat \<Rightarrow> nat option \<Rightarrow> nat option \<Rightarrow> nat option res option" where
  "tq_find_prev nx node prev cur =
    (if cur = Some node then Some (Inr prev)
     else case cur of None \<Rightarrow> Some (Inl Null_deref) | Some c \<Rightarrow> tq_find_prev nx node (Some c) (nx c))"

definition tq_remove :: "nat \<Rightarrow> tqueue \<Rightarrow> tqueue res" where
  "tq_remove node q =
    (if nd_qType q node = InTooFarQueue
     then (case tq_tooFar q of
             [] \<Rightarrow> Inl Out_of_bounds
           | f # rest \<Rightarrow>
               if f = node
               then Inr (q\<lparr>tq_tooFar := rest,
                           tq_minTooFar := (case rest of [] \<Rightarrow> MaxTime | g # _ \<Rightarrow> nd_time q g)\<rparr>)
               else assert_res (node \<in> set (tq_tooFar q))
                     (let tooFar = remove1 node (tq_tooFar q)
                      in assert_res (node \<notin> set tooFar) (Inr (q\<lparr>tq_tooFar := tooFar\<rparr>))))
     else if nd_qType q node = InFastQueue
     then (if tq_access q ! unat (tq_minPos q) = Some node
           then Inr (tq_take_min node q)
           else (let pos = tq_pos q (nd_time q node)
                 in case tq_find_prev (nd_next q) node None (tq_access q ! pos) of
                      None \<Rightarrow> Inl Diverged
                    | Some r \<Rightarrow> bind_res r (\<lambda>prev.
                        let q = (case prev of
                                   None \<Rightarrow> q\<lparr>tq_access := (tq_access q)[pos := nd_next q node]\<rparr>
                                 | Some p \<Rightarrow> tq_setTQNext p (nd_next q node) q);
                            q = (if tq_accessTail q ! pos = Some node
                                 then q\<lparr>tq_accessTail := (tq_accessTail q)[pos := None]\<rparr> else q)
                        in Inr (q\<lparr>tq_nNodes := tq_nNodes q - 1\<rparr>))))
     else assert_res (nd_qType q node = InNoQueue) (Inr q))"

definition tq_reschedule :: "nat \<Rightarrow> sim_time \<Rightarrow> tqueue \<Rightarrow> tqueue res" where
  "tq_reschedule node rTime q =
    bind_res (tq_remove node q) (\<lambda>q.
      assert_res (nd_qType q node = InNoQueue) (tq_insert node rTime q))"

definition tq_size :: "tqueue \<Rightarrow> int" where
  "tq_size q = tq_nNodes q + int (length (tq_tooFar q))"

definition tq_empty :: "tqueue \<Rightarrow> bool" where
  "tq_empty q \<longleftrightarrow> tq_nNodes q = 0 \<and> tq_tooFar q = []"

text \<open>\<open>reset\<close> leaves the overflow heap as it is.\<close>

definition tq_reset :: "tqueue \<Rightarrow> tqueue" where
  "tq_reset q =
    q\<lparr>tq_access := replicate (length (tq_access q)) None,
      tq_accessTail := replicate (length (tq_accessTail q)) None,
      tq_nNodes := 0, tq_minTime := 0, tq_minPos := 0, tq_minTooFar := MaxTime\<rparr>"

definition tq_create :: "u32 \<Rightarrow> (nat \<Rightarrow> u64) \<Rightarrow> tqueue res" where
  "tq_create maxTimeDiff priority =
    assert_res (maxTimeDiff > 7)
     (assert_res (maxTimeDiff AND (maxTimeDiff - 1) = 0)
       (Inr (tq_reset \<lparr>tq_minTime = 0, tq_minPos = 0, tq_nNodes = 0, tq_AccessSize = maxTimeDiff,
          tq_access = replicate (unat maxTimeDiff) None,
          tq_accessTail = replicate (unat maxTimeDiff) None,
          tq_tooFar = [], tq_minTooFar = 0, nd_time = (\<lambda>_. 0), nd_next = (\<lambda>_. None),
          nd_qType = (\<lambda>_. InNoQueue), nd_priority = priority\<rparr>)))"

section \<open>The invariant\<close>

text \<open>
  The buckets are described by absolute time: \<open>B t\<close> is the chain of the jobs of time
  \<open>t\<close>, which lies in the slot \<open>tq_slot q t\<close> while \<open>t\<close> is in the window of
  \<open>AccessSize\<close> cycles from \<open>minTime\<close>. So moving \<open>minTime\<close> and \<open>minPos\<close>
  over an empty slot leaves \<open>B\<close> as it is.
\<close>

definition tq_slot :: "tqueue \<Rightarrow> nat \<Rightarrow> nat" where
  "tq_slot q t = (unat (tq_minPos q) + (t - unat (tq_minTime q))) mod unat (tq_AccessSize q)"

definition tq_window :: "tqueue \<Rightarrow> nat set" where
  "tq_window q = {unat (tq_minTime q)..<unat (tq_minTime q) + unat (tq_AccessSize q)}"

definition tq_shape :: "nat \<Rightarrow> tqueue \<Rightarrow> bool" where
  "tq_shape k q \<longleftrightarrow> 3 \<le> k \<and> k \<le> 31 \<and> tq_AccessSize q = 2 ^ k \<and>
    length (tq_access q) = 2 ^ k \<and> length (tq_accessTail q) = 2 ^ k \<and>
    unat (tq_minPos q) < 2 ^ k"

definition tq_bucket_ok :: "tqueue \<Rightarrow> nat \<Rightarrow> nat list \<Rightarrow> bool" where
  "tq_bucket_ok q t xs \<longleftrightarrow>
    chain (nd_next q) (tq_access q ! tq_slot q t) xs \<and>
    (xs \<noteq> [] \<longrightarrow> tq_accessTail q ! tq_slot q t = Some (last xs)) \<and>
    distinct xs \<and> sorted (map (nd_priority q) xs) \<and>
    (\<forall>n \<in> set xs. unat (nd_time q n) = t)"

definition tq_count_ok :: "tqueue \<Rightarrow> bool" where
  "tq_count_ok q \<longleftrightarrow> finite {n. nd_qType q n = InFastQueue} \<and>
    tq_nNodes q = int (card {n. nd_qType q n = InFastQueue})"

definition tq_near_ok :: "(nat \<Rightarrow> nat list) \<Rightarrow> tqueue \<Rightarrow> bool" where
  "tq_near_ok B q \<longleftrightarrow>
    (\<forall>t \<in> tq_window q. tq_bucket_ok q t (B t)) \<and> (\<forall>t. t \<notin> tq_window q \<longrightarrow> B t = []) \<and>
    (\<forall>n. nd_qType q n = InFastQueue \<longleftrightarrow> n \<in> set (B (unat (nd_time q n)))) \<and> tq_count_ok q"

definition tq_far_ok :: "tqueue \<Rightarrow> bool" where
  "tq_far_ok q \<longleftrightarrow>
    distinct (tq_tooFar q) \<and> sorted (map (nd_time q) (tq_tooFar q)) \<and>
    (\<forall>n. nd_qType q n = InTooFarQueue \<longleftrightarrow> n \<in> set (tq_tooFar q)) \<and>
    (\<forall>n \<in> set (tq_tooFar q). tq_minTime q < nd_time q n \<and> nd_time q n < MaxTime \<and>
       unat (nd_time q n) < unat (tq_minTime q) + 2 ^ 32) \<and>
    tq_minTooFar q = (case tq_tooFar q of [] \<Rightarrow> MaxTime | n # _ \<Rightarrow> nd_time q n)"

definition tq_inv :: "nat \<Rightarrow> tqueue \<Rightarrow> bool" where
  "tq_inv k q \<longleftrightarrow> tq_shape k q \<and> (\<exists>B. tq_near_ok B q) \<and> tq_far_ok q"

lemma tq_shape_size [simp]: "tq_shape k q \<Longrightarrow> unat (tq_AccessSize q) = 2 ^ k"
  by (simp add: tq_shape_def)

lemma tq_pos_slot:
  assumes "tq_shape k q" and "tq_minTime q \<le> t"
  shows "tq_pos q t = tq_slot q (unat t)"
proof -
  have k: "k \<le> 32" "tq_AccessMask q = mask k" "tq_AccessSize q = 2 ^ k"
    using assms by (auto simp: tq_shape_def tq_AccessMask_def mask_eq_exp_minus_1)
  let ?d = "unat t - unat (tq_minTime q)"
  have "unat (ucast (tq_minPos q) + t - tq_minTime q) = unat (ucast (tq_minPos q) + (t - tq_minTime q))"
    by (simp only: add_diff_eq)
  also have "\<dots> = (unat (tq_minPos q) + ?d) mod 2 ^ 64"
    using assms by (simp add: unat_word_ariths unat_diff unat_ucast_wide)
  finally have "unat (ucast (ucast (tq_minPos q) + t - tq_minTime q) :: u32)
      = (unat (tq_minPos q) + ?d) mod 2 ^ 64 mod 2 ^ 32"
    by (simp add: unat_ucast_mod)
  also have "\<dots> = (unat (tq_minPos q) + ?d) mod 2 ^ 32"
    by (rule mod_power_mod) simp
  finally have "unat (ucast (ucast (tq_minPos q) + t - tq_minTime q) :: u32)
      = (unat (tq_minPos q) + ?d) mod 2 ^ 32" .
  then have "tq_pos q t = (unat (tq_minPos q) + ?d) mod 2 ^ 32 mod 2 ^ k"
    by (simp only: tq_pos_def k(2) unat_and_mask)
  also have "\<dots> = (unat (tq_minPos q) + ?d) mod 2 ^ k"
    using k(1) by (rule mod_power_mod)
  finally show ?thesis using assms by (simp add: tq_slot_def)
qed

lemma tq_slot_less: "tq_shape k q \<Longrightarrow> tq_slot q t < 2 ^ k"
  by (simp add: tq_slot_def)

lemma tq_slot_inj:
  assumes "tq_shape k q" and "s \<in> tq_window q" and "t \<in> tq_window q" and "tq_slot q s = tq_slot q t"
  shows "s = t"
proof -
  let ?m = "unat (tq_minTime q)"
  have "?m \<le> s" "?m \<le> t" "s - ?m < 2 ^ k" "t - ?m < 2 ^ k"
    using assms(2,3) tq_shape_size [OF assms(1)] by (auto simp: tq_window_def)
  moreover have "(unat (tq_minPos q) + (s - ?m)) mod 2 ^ k = (unat (tq_minPos q) + (t - ?m)) mod 2 ^ k"
    using assms(4) tq_shape_size [OF assms(1)] by (simp only: tq_slot_def)
  ultimately have "s - ?m = t - ?m" using ring_offset_inj by blast
  with \<open>?m \<le> s\<close> \<open>?m \<le> t\<close> show ?thesis by linarith
qed

lemma tq_near_iff:
  assumes "tq_shape k q" and "tq_minTime q \<le> t" and "unat t < unat (tq_minTime q) + 2 ^ 32"
  shows "tq_near q t \<longleftrightarrow> unat t \<in> tq_window q"
proof -
  have "unat t - unat (tq_minTime q) < 2 ^ 32" using assms(2,3) unfolding word_le_nat_alt by linarith
  then have "unat (ucast (t - tq_minTime q) :: u32) = unat t - unat (tq_minTime q)"
    by (simp add: unat_diff [OF assms(2)] unat_ucast_mod)
  then have "tq_near q t \<longleftrightarrow> unat t - unat (tq_minTime q) < 2 ^ k"
    using tq_shape_size [OF assms(1)] by (simp only: tq_near_def word_less_nat_alt)
  moreover have "unat (tq_minTime q) \<le> unat t" using assms(2) by (simp only: word_le_nat_alt)
  ultimately show ?thesis
    unfolding tq_window_def tq_shape_size [OF assms(1)] atLeastLessThan_iff by linarith
qed

section \<open>Putting a job into its bucket\<close>

lemma tq_scan_None: "tq_scan nx pr p prev None = Some (prev, None)"
  by (subst tq_scan.simps) simp

lemma tq_scan_Some:
  "tq_scan nx pr p prev (Some c) =
    (if pr c \<le> p then tq_scan nx pr p (Some c) (nx c) else Some (prev, Some c))"
  by (subst tq_scan.simps) simp

lemma tq_scan_chain:
  "chain nx cur xs \<Longrightarrow>
    tq_scan nx pr p prev cur =
      Some (case takeWhile (\<lambda>n. pr n \<le> p) xs of [] \<Rightarrow> prev | y # ys \<Rightarrow> Some (last (y # ys)),
            case dropWhile (\<lambda>n. pr n \<le> p) xs of [] \<Rightarrow> None | z # _ \<Rightarrow> Some z)"
proof (induction xs arbitrary: cur prev)
  case Nil
  then show ?case by (simp add: tq_scan_None)
next
  case (Cons x xs)
  then show ?case by (auto simp: tq_scan_Some split: list.split)
qed

lemma tq_slot_cong:
  "tq_minPos q' = tq_minPos q \<Longrightarrow> tq_minTime q' = tq_minTime q \<Longrightarrow>
    tq_AccessSize q' = tq_AccessSize q \<Longrightarrow> tq_slot q' = tq_slot q \<and> tq_window q' = tq_window q"
  by (simp add: tq_slot_def tq_window_def fun_eq_iff)

lemma tq_count_cong:
  assumes "\<And>m. nd_qType q' m = InFastQueue \<longleftrightarrow> nd_qType q m = InFastQueue"
    and "tq_nNodes q' = tq_nNodes q"
  shows "tq_count_ok q' = tq_count_ok q"
  unfolding tq_count_ok_def assms ..

lemma tq_slot_updates [simp]:
  "tq_slot (q\<lparr>tq_access := x_tq_access\<rparr>) = tq_slot q" "tq_window (q\<lparr>tq_access := x_tq_access\<rparr>) = tq_window q"
  "tq_slot (q\<lparr>tq_accessTail := x_tq_accessTail\<rparr>) = tq_slot q" "tq_window (q\<lparr>tq_accessTail := x_tq_accessTail\<rparr>) = tq_window q"
  "tq_slot (q\<lparr>nd_next := x_nd_next\<rparr>) = tq_slot q" "tq_window (q\<lparr>nd_next := x_nd_next\<rparr>) = tq_window q"
  "tq_slot (q\<lparr>nd_qType := x_nd_qType\<rparr>) = tq_slot q" "tq_window (q\<lparr>nd_qType := x_nd_qType\<rparr>) = tq_window q"
  "tq_slot (q\<lparr>tq_nNodes := x_tq_nNodes\<rparr>) = tq_slot q" "tq_window (q\<lparr>tq_nNodes := x_tq_nNodes\<rparr>) = tq_window q"
  "tq_slot (q\<lparr>nd_time := x_nd_time\<rparr>) = tq_slot q" "tq_window (q\<lparr>nd_time := x_nd_time\<rparr>) = tq_window q"
  "tq_slot (q\<lparr>tq_tooFar := x_tq_tooFar\<rparr>) = tq_slot q" "tq_window (q\<lparr>tq_tooFar := x_tq_tooFar\<rparr>) = tq_window q"
  "tq_slot (q\<lparr>tq_minTooFar := x_tq_minTooFar\<rparr>) = tq_slot q" "tq_window (q\<lparr>tq_minTooFar := x_tq_minTooFar\<rparr>) = tq_window q"
  by (simp_all add: tq_slot_def tq_window_def fun_eq_iff)

lemma chain_cong: "\<forall>n \<in> set xs. nx' n = nx n \<Longrightarrow> chain nx' p xs \<longleftrightarrow> chain nx p xs"
  by (induction xs arbitrary: p) auto

lemma tq_near_replace:
  assumes near: "tq_near_ok B q" and shape: "tq_shape k q" and u: "u \<in> tq_window q"
    and same: "tq_minPos q' = tq_minPos q" "tq_minTime q' = tq_minTime q"
      "tq_AccessSize q' = tq_AccessSize q" "nd_priority q' = nd_priority q" "nd_time q' = nd_time q"
    and upd: "tq_access q' = (tq_access q)[tq_slot q u := a]"
      "tq_accessTail q' = (tq_accessTail q)[tq_slot q u := b]"
    and frame: "\<And>n. unat (nd_time q n) \<noteq> u \<Longrightarrow> nd_next q' n = nd_next q n"
    and new: "tq_bucket_ok q' u xs"
    and qty: "\<And>n. nd_qType q' n = InFastQueue \<longleftrightarrow> n \<in> set ((B(u := xs)) (unat (nd_time q n)))"
    and cnt: "tq_count_ok q'"
  shows "tq_near_ok (B(u := xs)) q'"
proof -
  note cong = tq_slot_cong [OF same(1-3)]
  have "tq_bucket_ok q' s (B s)" if "s \<in> tq_window q" "s \<noteq> u" for s
  proof -
    have ok: "tq_bucket_ok q s (B s)" using near that by (simp add: tq_near_ok_def)
    have ne: "tq_slot q u \<noteq> tq_slot q s" using tq_slot_inj [OF shape u that(1)] that by auto
    have "chain (nd_next q') p (B s) \<longleftrightarrow> chain (nd_next q) p (B s)" for p
      using ok that frame by (intro chain_cong) (auto simp: tq_bucket_ok_def)
    with ok ne show ?thesis by (simp add: tq_bucket_ok_def upd same cong)
  qed
  then show ?thesis
    using near new qty cnt u by (simp add: tq_near_ok_def cong same)
qed

text \<open>A job goes behind the jobs of its priority or a more urgent one, before the others.\<close>

definition tq_place :: "(nat \<Rightarrow> u64) \<Rightarrow> nat \<Rightarrow> nat list \<Rightarrow> nat list" where
  "tq_place pr n xs =
    takeWhile (\<lambda>m. pr m \<le> pr n) xs @ n # dropWhile (\<lambda>m. pr m \<le> pr n) xs"

lemma set_tq_place [simp]: "set (tq_place pr n xs) = insert n (set xs)"
proof -
  have "set xs = set (takeWhile (\<lambda>m. pr m \<le> pr n) xs) \<union> set (dropWhile (\<lambda>m. pr m \<le> pr n) xs)"
    by (metis set_append takeWhile_dropWhile_id)
  then show ?thesis by (simp add: tq_place_def)
qed

lemma distinct_tq_place: "distinct xs \<Longrightarrow> n \<notin> set xs \<Longrightarrow> distinct (tq_place pr n xs)"
proof -
  assume a: "distinct xs" "n \<notin> set xs"
  let ?t = "takeWhile (\<lambda>m. pr m \<le> pr n) xs" and ?d = "dropWhile (\<lambda>m. pr m \<le> pr n) xs"
  have x: "xs = ?t @ ?d" by simp
  have "distinct (?t @ ?d)" and "n \<notin> set (?t @ ?d)" using a by simp_all
  then show ?thesis unfolding tq_place_def by (auto simp del: takeWhile_dropWhile_id)
qed

lemma sorted_tq_place:
  assumes "sorted (map pr xs)"
  shows "sorted (map (pr :: nat \<Rightarrow> u64) (tq_place pr n xs))"
  using assms
proof (induction xs)
  case Nil
  then show ?case by (simp add: tq_place_def)
next
  case (Cons x xs)
  have "set (map pr (tq_place pr n xs)) = insert (pr n) (set (map pr xs))" by simp
  then show ?case using Cons
    by (cases "pr x \<le> pr n") (auto simp: tq_place_def)
qed

lemma tq_place_last:
  assumes "sorted (map pr xs)" and "xs \<noteq> []" and "pr (last xs) \<le> (pr n :: u64)"
  shows "tq_place pr n xs = xs @ [n]"
proof -
  have "\<forall>m \<in> set xs. pr m \<le> pr n"
    using assms by (induction xs rule: rev_induct) (auto simp: sorted_append)
  then show ?thesis by (simp add: tq_place_def)
qed

definition tq_frame :: "tqueue \<Rightarrow> tqueue \<Rightarrow> bool" where
  "tq_frame q q' \<longleftrightarrow> tq_minPos q' = tq_minPos q \<and> tq_minTime q' = tq_minTime q \<and>
    tq_AccessSize q' = tq_AccessSize q \<and> tq_tooFar q' = tq_tooFar q \<and>
    tq_minTooFar q' = tq_minTooFar q \<and> nd_time q' = nd_time q \<and> nd_priority q' = nd_priority q"

lemma small_sint_abs:
  assumes "unat (x :: u32) < 2 ^ 31"
  shows "(word_of_int \<bar>sint x\<bar> :: u32) = x"
proof -
  have "int (unat x) < int (2 ^ 31)" using assms by (simp only: of_nat_less_iff)
  then have "uint x < 2 ^ 31" by simp
  moreover have "- (2 ^ 31) \<le> uint x" by (rule order_trans [OF _ unsigned_greater_eq]) simp
  ultimately have "sint x = uint x" by (simp add: sint_uint signed_take_bit_int_eq_self)
  then show ?thesis by simp
qed

lemma tq_add_guard:
  assumes "tq_shape k q" and "tq_minTime q \<le> t" and "unat t \<in> tq_window q"
  shows "(word_of_int \<bar>sint (ucast (t - tq_minTime q) :: u32)\<bar> :: u32) < tq_AccessSize q"
proof -
  let ?d = "unat t - unat (tq_minTime q)"
  have k: "k \<le> 31" using assms(1) by (simp add: tq_shape_def)
  have "?d < 2 ^ k" using assms(3) tq_shape_size [OF assms(1)]
    by (auto simp: tq_window_def)
  moreover have "(2 :: nat) ^ k \<le> 2 ^ 31" using k by (intro power_increasing) auto
  ultimately have d: "?d < 2 ^ 31" "?d < 2 ^ k" by linarith+
  have x: "unat (ucast (t - tq_minTime q) :: u32) = ?d"
    using d(1) by (simp add: unat_diff [OF assms(2)] unat_ucast_mod)
  have "(word_of_int \<bar>sint (ucast (t - tq_minTime q) :: u32)\<bar> :: u32) = ucast (t - tq_minTime q)"
    using d(1) x by (intro small_sint_abs) simp
  then show ?thesis using x d(2) tq_shape_size [OF assms(1)] by (simp only: word_less_nat_alt)
qed

lemma tq_card_add:
  assumes "finite {m. T m = InFastQueue}" and "T n \<noteq> InFastQueue"
  shows "finite {m. (T(n := InFastQueue)) m = InFastQueue}"
    and "card {m. (T(n := InFastQueue)) m = InFastQueue} = Suc (card {m. T m = InFastQueue})"
proof -
  have "{m. (T(n := InFastQueue)) m = InFastQueue} = insert n {m. T m = InFastQueue}" by auto
  then show "finite {m. (T(n := InFastQueue)) m = InFastQueue}"
    "card {m. (T(n := InFastQueue)) m = InFastQueue} = Suc (card {m. T m = InFastQueue})"
    using assms by auto
qed

text \<open>Linking the new node at its place of a sorted chain.\<close>

lemma chain_place:
  assumes ch: "chain nx (Some h) xs" and d: "distinct xs" and n: "n \<notin> set xs"
    and scan: "tq_scan nx pr (pr n) None (Some h) = Some (prev, cur)"
  shows "chain (case prev of None \<Rightarrow> nx(n := Some h) | Some p \<Rightarrow> (nx(p := Some n))(n := cur))
      (if prev = None then Some n else Some h) (tq_place pr n xs)"
    and "prev = None \<Longrightarrow> n \<noteq> h \<and> hd xs = h" and "\<forall>p. prev = Some p \<longrightarrow> p \<in> set xs"
    and "last (tq_place pr n xs) = (if cur = None then n else last xs)"
proof -
  define ys zs where "ys = takeWhile (\<lambda>m. pr m \<le> pr n) xs" and "zs = dropWhile (\<lambda>m. pr m \<le> pr n) xs"
  have xs: "xs = ys @ zs" by (simp add: ys_def zs_def)
  have pc: "prev = (case ys of [] \<Rightarrow> None | y # ys \<Rightarrow> Some (last (y # ys)))"
    "cur = (case zs of [] \<Rightarrow> None | z # _ \<Rightarrow> Some z)"
    using scan unfolding tq_scan_chain [OF ch] by (simp_all add: ys_def zs_def)
  have pl: "tq_place pr n xs = ys @ n # zs" by (simp add: tq_place_def ys_def zs_def)
  show "last (tq_place pr n xs) = (if cur = None then n else last xs)"
    unfolding pl using pc(2) xs by (cases zs) auto
  show "prev = None \<Longrightarrow> n \<noteq> h \<and> hd xs = h" using ch n by (auto simp: chain_Some)
  show "\<forall>p. prev = Some p \<longrightarrow> p \<in> set xs" using pc(1) xs by (cases ys) auto
  show "chain (case prev of None \<Rightarrow> nx(n := Some h) | Some p \<Rightarrow> (nx(p := Some n))(n := cur))
      (if prev = None then Some n else Some h) (tq_place pr n xs)"
  proof (cases ys rule: rev_cases)
    case Nil
    then show ?thesis using pl pc ch n xs by (simp add: chain_frame)
  next
    case (snoc as a)
    then have prev: "prev = Some a" using pc(1) by (cases as) auto
    have ch': "chain nx (Some h) (as @ a # zs)" "distinct (as @ a # zs)" "n \<notin> set (as @ a # zs)"
      using ch d n xs snoc by simp_all
    have link: "chain nx p (as @ a # zs) \<Longrightarrow> chain nx (nx a) zs" for p
      by (induction as arbitrary: p) auto
    have "nx a = cur" using link [OF ch'(1)] pc(2) by (cases zs) simp_all
    then show ?thesis using chain_insert_after [OF ch'] prev pl snoc by simp
  qed
qed

text \<open>What \<open>addNode\<close> links, apart from the queue type and the count.\<close>

lemma tq_addNode_link:
  assumes shape: "tq_shape k q" and near: "tq_near_ok B q"
    and t: "tq_minTime q \<le> t" "unat t \<in> tq_window q"
    and n: "nd_time q n = t" "nd_qType q n \<noteq> InFastQueue"
  shows "\<exists>a b nx. tq_addNode n t q =
      Inr (q\<lparr>tq_access := (tq_access q)[tq_slot q (unat t) := a],
             tq_accessTail := (tq_accessTail q)[tq_slot q (unat t) := b],
             nd_next := nx, nd_qType := (nd_qType q)(n := InFastQueue),
             tq_nNodes := tq_nNodes q + 1\<rparr>) \<and>
    chain nx a (tq_place (nd_priority q) n (B (unat t))) \<and>
    b = Some (last (tq_place (nd_priority q) n (B (unat t)))) \<and>
    (\<forall>m. unat (nd_time q m) \<noteq> unat t \<longrightarrow> nx m = nd_next q m)"
proof -
  let ?u = "unat t" and ?pr = "nd_priority q"
  let ?xs = "B ?u" and ?p = "tq_slot q ?u"
  have ok: "tq_bucket_ok q ?u ?xs" using near t(2) by (simp add: tq_near_ok_def)
  then have ch: "chain (nd_next q) (tq_access q ! ?p) ?xs" and d: "distinct ?xs"
    and srt: "sorted (map ?pr ?xs)" and tms: "\<And>m. m \<in> set ?xs \<Longrightarrow> unat (nd_time q m) = ?u"
    and tl: "?xs \<noteq> [] \<Longrightarrow> tq_accessTail q ! ?p = Some (last ?xs)"
    by (auto simp: tq_bucket_ok_def)
  have nin: "n \<notin> set ?xs" using near n by (auto simp: tq_near_ok_def)
  have len: "?p < length (tq_access q)" "?p < length (tq_accessTail q)"
    using tq_slot_less [OF shape] shape by (simp_all add: tq_shape_def)
  note pos = tq_pos_slot [OF shape t(1)]
  note guard = t(1) tq_add_guard [OF shape t]
  show ?thesis
  proof (cases "tq_access q ! ?p")
    case None
    then have "?xs = []" using ch by simp
    then show ?thesis using None guard n
      by (intro exI [of _ "Some n"] exI [of _ "(nd_next q)(n := None)"])
        (simp add: Let_def tq_addNode_def pos tq_setTQNext_def tq_setType_def tq_place_def)
  next
    case (Some h)
    then have ne: "?xs \<noteq> []" using ch by auto
    have acc: "(tq_access q)[?p := Some h] = tq_access q"
      using list_update_id [of "tq_access q" ?p] by (simp only: Some)
    have accT: "(tq_accessTail q)[?p := Some (last ?xs)] = tq_accessTail q"
      using list_update_id [of "tq_accessTail q" ?p] by (simp only: tl [OF ne])
    show ?thesis
    proof (cases "?pr (last ?xs) \<le> ?pr n")
      case True
      obtain as l where xs: "?xs = as @ [l]" using ne by (cases ?xs rule: rev_cases) auto
      have "chain ((nd_next q)(l := Some n, n := None)) (Some h) (as @ [l, n])"
        using ch d nin Some xs by (intro chain_append_last) auto
      moreover have "tq_place ?pr n ?xs = as @ [l, n]"
        using tq_place_last [OF srt ne True] xs by simp
      moreover have "unat (nd_time q l) = ?u" using tms xs by simp
      ultimately show ?thesis using Some guard n True tl [OF ne] xs
        by (rule_tac exI [of _ "Some h"], rule_tac exI [of _ "Some n"],
            rule_tac exI [of _ "(nd_next q)(l := Some n, n := None)"])
          (auto simp: tq_addNode_def pos tq_setTQNext_def tq_setType_def acc)
    next
      case False
      obtain prev cur where scan: "tq_scan (nd_next q) ?pr (?pr n) None (Some h) = Some (prev, cur)"
        using ch Some by (simp add: tq_scan_chain)
      note pl = chain_place [OF ch [unfolded Some] d nin scan]
      let ?nx = "case prev of None \<Rightarrow> (nd_next q)(n := Some h)
                   | Some p \<Rightarrow> ((nd_next q)(p := Some n))(n := cur)"
      let ?a = "if prev = None then Some n else Some h"
      let ?b = "if cur = None then Some n else Some (last ?xs)"
      have fr: "\<forall>m. unat (nd_time q m) \<noteq> ?u \<longrightarrow> ?nx m = nd_next q m"
        using pl(3) tms n by (cases prev) auto
      show ?thesis
        using Some guard n False tl [OF ne] scan pl(1,4) fr
        by (rule_tac exI [of _ ?a], rule_tac exI [of _ ?b], rule_tac exI [of _ ?nx], intro conjI)
          (auto simp: Let_def tq_addNode_def pos tq_setTQNext_def tq_setType_def acc accT
            split: option.splits)
    qed
  qed
qed

lemma tq_addNode_near:
  assumes shape: "tq_shape k q" and near: "tq_near_ok B q"
    and t: "tq_minTime q \<le> t" "unat t \<in> tq_window q"
    and n: "nd_time q n = t" "nd_qType q n \<noteq> InFastQueue"
  obtains q' B' where "tq_addNode n t q = Inr q'" and "tq_near_ok B' q'" and "tq_shape k q'"
    and "tq_frame q q'" and "nd_qType q' = (nd_qType q)(n := InFastQueue)"
proof -
  let ?u = "unat t" let ?p = "tq_slot q ?u" let ?xs = "tq_place (nd_priority q) n (B ?u)"
  obtain a b nx where
    add: "tq_addNode n t q =
      Inr (q\<lparr>tq_access := (tq_access q)[?p := a], tq_accessTail := (tq_accessTail q)[?p := b],
             nd_next := nx, nd_qType := (nd_qType q)(n := InFastQueue),
             tq_nNodes := tq_nNodes q + 1\<rparr>)" (is "_ = Inr ?q'")
    and ch: "chain nx a ?xs" and b: "b = Some (last ?xs)"
    and fr: "\<forall>m. unat (nd_time q m) \<noteq> ?u \<longrightarrow> nx m = nd_next q m"
    using tq_addNode_link [OF assms] by blast
  have ok: "tq_bucket_ok q ?u (B ?u)" using near t(2) by (simp add: tq_near_ok_def)
  have nin: "n \<notin> set (B ?u)" using near n by (auto simp: tq_near_ok_def)
  have len: "?p < length (tq_access q)" "?p < length (tq_accessTail q)"
    using tq_slot_less [OF shape] shape by (simp_all add: tq_shape_def)
  have bok: "tq_bucket_ok ?q' ?u ?xs"
    using ok nin n ch b len
    by (auto simp: tq_bucket_ok_def sorted_tq_place distinct_tq_place)
  have "tq_near_ok (B(?u := ?xs)) ?q'"
  proof (rule tq_near_replace [OF near shape t(2), where a = a and b = b])
    show "tq_bucket_ok ?q' ?u ?xs" by (rule bok)
    show "nd_qType ?q' m = InFastQueue \<longleftrightarrow> m \<in> set ((B(?u := ?xs)) (unat (nd_time q m)))" for m
      using near n by (auto simp: tq_near_ok_def)
    have cnt: "tq_count_ok q" using near by (simp add: tq_near_ok_def)
    then show "tq_count_ok ?q'"
      using tq_card_add [of "nd_qType q" n] n(2) by (simp add: tq_count_ok_def)
  qed (use fr in auto)
  moreover have "tq_shape k ?q'" using shape by (simp add: tq_shape_def)
  moreover have "tq_frame q ?q'" by (simp add: tq_frame_def)
  ultimately show ?thesis using add that by simp
qed

section \<open>Insertion and the overflow heap\<close>

lemma tq_near_ok_irrelevant:
  "tq_near_ok B (q\<lparr>tq_tooFar := xs, tq_minTooFar := m\<rparr>) \<longleftrightarrow> tq_near_ok B q"
  "tq_shape k (q\<lparr>tq_tooFar := xs, tq_minTooFar := m\<rparr>) \<longleftrightarrow> tq_shape k q"
  by (simp_all add: tq_near_ok_def tq_shape_def tq_bucket_ok_def tq_slot_def tq_window_def tq_count_ok_def)

text \<open>
  \<open>tq_far_list q xs\<close>: the overflow jobs of \<open>q\<close> are the list \<open>xs\<close>, in time order, and
  none is due at \<open>minTime\<close>.
\<close>

definition tq_far_list :: "tqueue \<Rightarrow> nat list \<Rightarrow> bool" where
  "tq_far_list q xs \<longleftrightarrow>
    distinct xs \<and> sorted (map (nd_time q) xs) \<and>
    (\<forall>n. nd_qType q n = InTooFarQueue \<longleftrightarrow> n \<in> set xs) \<and>
    (\<forall>n \<in> set xs. tq_minTime q < nd_time q n \<and> nd_time q n < MaxTime \<and>
       unat (nd_time q n) < unat (tq_minTime q) + 2 ^ 32)"

lemma tq_far_ok_list:
  "tq_far_ok q \<longleftrightarrow> tq_far_list q (tq_tooFar q) \<and>
    tq_minTooFar q = (case tq_tooFar q of [] \<Rightarrow> MaxTime | n # _ \<Rightarrow> nd_time q n)"
  by (auto simp: tq_far_ok_def tq_far_list_def)

lemma tq_far_list_tl:
  assumes "tq_far_list q (n # ns)" and "tq_frame q q'"
    and "nd_qType q' = (nd_qType q)(n := InFastQueue)"
  shows "tq_far_list q' ns"
  using assms by (auto simp: tq_far_list_def tq_frame_def)

text \<open>Moving the jobs that came into the window: the others stay, later than the window.\<close>

lemma tq_adjust_loop_ok:
  assumes "tq_shape k q" and "tq_near_ok B q" and "tq_far_list q ns"
  shows "\<exists>q' B'. tq_adjust_loop ns q = Inr q' \<and> tq_shape k q' \<and> tq_near_ok B' q' \<and> tq_far_ok q' \<and>
    tq_minTime q' = tq_minTime q \<and> nd_time q' = nd_time q \<and> nd_priority q' = nd_priority q \<and>
    (\<forall>n. nd_qType q' n = InNoQueue \<longleftrightarrow> nd_qType q n = InNoQueue) \<and>
    (\<forall>n \<in> set (tq_tooFar q'). unat (tq_minTime q) + 2 ^ k \<le> unat (nd_time q n))"
  using assms
proof (induction ns arbitrary: q B)
  case Nil
  then show ?case
    by (intro exI [of _ "q\<lparr>tq_tooFar := [], tq_minTooFar := MaxTime\<rparr>"] exI [of _ B])
      (simp add: tq_near_ok_irrelevant tq_far_ok_list tq_far_list_def)
next
  case (Cons n ns)
  let ?t = "nd_time q n"
  have f: "tq_minTime q < ?t" "unat ?t < unat (tq_minTime q) + 2 ^ 32" "nd_qType q n = InTooFarQueue"
    using Cons.prems(3) by (auto simp: tq_far_list_def)
  note ni = tq_near_iff [OF Cons.prems(1) order_less_imp_le [OF f(1)] f(2)]
  show ?case
  proof (cases "tq_near q ?t")
    case True
    obtain q1 B1 where q1: "tq_addNode n ?t q = Inr q1" "tq_near_ok B1 q1" "tq_shape k q1"
        "tq_frame q q1" "nd_qType q1 = (nd_qType q)(n := InFastQueue)"
      using tq_addNode_near [OF Cons.prems(1,2) order_less_imp_le [OF f(1)]] True ni f(3)
      by (metis queue_type.distinct(5))
    note IH = Cons.IH [OF q1(3,2) tq_far_list_tl [OF Cons.prems(3) q1(4,5)]]
    have eqs: "tq_minTime q1 = tq_minTime q" "nd_time q1 = nd_time q" "nd_priority q1 = nd_priority q"
        "\<And>m. nd_qType q1 m = InNoQueue \<longleftrightarrow> nd_qType q m = InNoQueue"
      using q1(4,5) f(3) by (auto simp: tq_frame_def)
    show ?thesis using IH True q1(1) by (simp add: eqs)
  next
    case False
    let ?q' = "q\<lparr>tq_tooFar := n # ns, tq_minTooFar := ?t\<rparr>"
    have "unat (tq_minTime q) + 2 ^ k \<le> unat ?t"
    proof -
      have "unat (tq_minTime q) \<le> unat ?t" using f(1) by (simp add: word_less_nat_alt)
      then show ?thesis using False ni tq_shape_size [OF Cons.prems(1)]
        by (simp add: tq_window_def)
    qed
    moreover have "unat ?t \<le> unat (nd_time q m)" if "m \<in> set ns" for m
      using Cons.prems(3) that by (simp add: tq_far_list_def word_le_nat_alt)
    ultimately have "\<forall>m \<in> set (n # ns). unat (tq_minTime q) + 2 ^ k \<le> unat (nd_time q m)"
      by fastforce
    then show ?thesis using False Cons.prems
      by (intro exI [of _ ?q'] exI [of _ B])
        (simp add: tq_near_ok_irrelevant tq_far_ok_list tq_far_list_def)
  qed
qed

lemma tq_near_not_queued:
  assumes "tq_near_ok B q" and "nd_qType q n \<noteq> InFastQueue"
  shows "n \<notin> set (B s)"
proof
  assume n: "n \<in> set (B s)"
  then have "s \<in> tq_window q" using assms(1) by (force simp: tq_near_ok_def)
  then have "unat (nd_time q n) = s" using assms(1) n by (auto simp: tq_near_ok_def tq_bucket_ok_def)
  then show False using assms n by (auto simp: tq_near_ok_def)
qed

lemma tq_near_set_time:
  assumes near: "tq_near_ok B q" and n: "nd_qType q n \<noteq> InFastQueue"
  shows "tq_near_ok B (q\<lparr>nd_time := (nd_time q)(n := t)\<rparr>)"
proof -
  have nin: "n \<notin> set (B s)" for s using tq_near_not_queued [OF near n] .
  have "tq_bucket_ok (q\<lparr>nd_time := (nd_time q)(n := t)\<rparr>) s (B s)" if "s \<in> tq_window q" for s
  proof -
    have "tq_bucket_ok q s (B s)" using near that by (simp add: tq_near_ok_def)
    then show ?thesis using nin [of s] by (auto simp: tq_bucket_ok_def)
  qed
  moreover have "tq_count_ok (q\<lparr>nd_time := (nd_time q)(n := t)\<rparr>) = tq_count_ok q"
    by (rule tq_count_cong) simp_all
  ultimately show ?thesis using near n nin by (simp add: tq_near_ok_def)
qed

lemma tq_far_list_set_time:
  assumes "tq_far_list q xs" and "nd_qType q n = InNoQueue"
  shows "tq_far_list (q\<lparr>nd_time := (nd_time q)(n := t)\<rparr>) xs"
proof -
  have nin: "n \<notin> set xs" using assms unfolding tq_far_list_def by (metis queue_type.distinct(3))
  then have "map ((nd_time q)(n := t)) xs = map (nd_time q) xs" by (intro map_cong) auto
  with assms nin show ?thesis unfolding tq_far_list_def by auto
qed

lemma tq_far_list_add:
  assumes "tq_far_list q xs" and "nd_qType q n = InNoQueue"
    and "tq_minTime q < nd_time q n" and "nd_time q n < MaxTime"
    and "unat (nd_time q n) < unat (tq_minTime q) + 2 ^ 32"
  shows "tq_far_list (q\<lparr>nd_qType := (nd_qType q)(n := InTooFarQueue)\<rparr>) (insort_key (nd_time q) n xs)"
proof -
  have "n \<notin> set xs" using assms unfolding tq_far_list_def by (metis queue_type.distinct(3))
  moreover have "set (insort_key (nd_time q) n xs) = insert n (set xs)" by (rule set_insort_key)
  ultimately show ?thesis using assms unfolding tq_far_list_def
    by (simp add: distinct_insort sorted_insort_key)
qed

lemma tq_near_set_type:
  assumes "tq_near_ok B q" and "nd_qType q n \<noteq> InFastQueue" and "T \<noteq> InFastQueue"
  shows "tq_near_ok B (q\<lparr>nd_qType := (nd_qType q)(n := T)\<rparr>)"
proof -
  have eq: "((nd_qType q)(n := T)) m = InFastQueue \<longleftrightarrow> nd_qType q m = InFastQueue" for m
    using assms by auto
  then have "tq_count_ok (q\<lparr>nd_qType := (nd_qType q)(n := T)\<rparr>) = tq_count_ok q"
    by (intro tq_count_cong) (simp_all del: fun_upd_apply)
  with eq show ?thesis using assms(1)
    by (simp add: tq_near_ok_def tq_bucket_ok_def del: fun_upd_apply)
qed

text \<open>The effect of a legal insertion.\<close>

lemma tq_insert_ok:
  assumes inv: "tq_inv k q" and n: "nd_qType q n = InNoQueue"
    and t: "tq_minTime q \<le> t" "t < MaxTime" "unat t < unat (tq_minTime q) + 2 ^ 32"
  obtains q' where "tq_insert n t q = Inr q'" and "tq_inv k q'"
    and "tq_minTime q' = tq_minTime q" and "nd_time q' = (nd_time q)(n := t)"
    and "nd_priority q' = nd_priority q"
    and "\<And>m. nd_qType q' m \<noteq> InNoQueue \<longleftrightarrow> m = n \<or> nd_qType q m \<noteq> InNoQueue"
proof -
  obtain B where shape: "tq_shape k q" and near: "tq_near_ok B q" and far: "tq_far_ok q"
    using inv by (auto simp: tq_inv_def)
  let ?q = "q\<lparr>nd_time := (nd_time q)(n := t)\<rparr>"
  have shape1: "tq_shape k ?q" using shape by (simp add: tq_shape_def)
  have near1: "tq_near_ok B ?q" using tq_near_set_time [OF near] n by simp
  have far1: "tq_far_list ?q (tq_tooFar q)"
    using far n by (simp add: tq_far_ok_list tq_far_list_set_time)
  have minF: "tq_minTooFar q = (case tq_tooFar q of [] \<Rightarrow> MaxTime | m # _ \<Rightarrow> nd_time ?q m)"
  proof (cases "tq_tooFar q")
    case Nil
    then show ?thesis using far by (simp add: tq_far_ok_def)
  next
    case (Cons m ms)
    then have "nd_qType q m = InTooFarQueue" using far by (simp add: tq_far_ok_def)
    then have "m \<noteq> n" using n by auto
    then show ?thesis using far Cons by (simp add: tq_far_ok_def)
  qed
  have ni: "tq_near ?q t \<longleftrightarrow> unat t \<in> tq_window q" using tq_near_iff [OF shape1, of t] t by simp
  show ?thesis
  proof (cases "tq_near ?q t")
    case True
    obtain q' B' where q': "tq_addNode n t ?q = Inr q'" "tq_near_ok B' q'" "tq_shape k q'"
        "tq_frame ?q q'" "nd_qType q' = (nd_qType ?q)(n := InFastQueue)"
      using tq_addNode_near [OF shape1 near1, of t n] t n True ni by auto
    have "tq_insert n t q = Inr q'" using q'(1) n t True by (simp add: tq_insert_def)
    moreover have "n \<notin> set (tq_tooFar q)"
      using far n unfolding tq_far_ok_def by (metis queue_type.distinct(3))
    then have "tq_far_list q' (tq_tooFar q)"
      using far1 q'(4,5) by (auto simp: tq_far_list_def tq_frame_def)
    then have "tq_far_ok q'"
      using minF q'(4) by (simp add: tq_far_ok_list tq_frame_def split: list.split)
    moreover have "tq_inv k q'" using q'(2,3) \<open>tq_far_ok q'\<close> by (auto simp: tq_inv_def)
    ultimately show ?thesis using that [of q'] q'(4,5) by (simp add: tq_frame_def)
  next
    case False
    let ?ns = "insort_key ((nd_time q)(n := t)) n (tq_tooFar q)"
    let ?m = "if tq_minTooFar q > t then t else tq_minTooFar q"
    let ?q' = "?q\<lparr>nd_qType := (nd_qType q)(n := InTooFarQueue), tq_tooFar := ?ns, tq_minTooFar := ?m\<rparr>"
    have "unat t \<noteq> unat (tq_minTime q)"
      using False ni tq_shape_size [OF shape] by (auto simp: tq_window_def)
    then have lt: "tq_minTime q < t" using t(1) by (auto simp: order_less_le)
    have ins: "tq_insert n t q = Inr ?q'"
      using n t False by (simp add: tq_insert_def tq_setType_def Let_def)
    have nr: "tq_near_ok B ?q'"
      using tq_near_set_type [OF near1] n
      by (simp add: tq_near_ok_irrelevant del: fun_upd_apply)
    have fl: "tq_far_list ?q' ?ns"
      using tq_far_list_add [OF far1, of n] n lt t by (simp add: tq_far_list_def)
    have mm: "?m = (case ?ns of [] \<Rightarrow> MaxTime | m # _ \<Rightarrow> ((nd_time q)(n := t)) m)"
      using minF t(2) by (cases "tq_tooFar q") auto
    have "tq_minTooFar ?q' = (case tq_tooFar ?q' of [] \<Rightarrow> MaxTime | m # _ \<Rightarrow> nd_time ?q' m)"
        using mm by (simp cong: list.case_cong del: fun_upd_apply)
    moreover have "tq_far_list ?q' (tq_tooFar ?q')" using fl by simp
    ultimately have "tq_far_ok ?q'" unfolding tq_far_ok_list by (intro conjI)
    moreover have "tq_shape k ?q'" using shape by (simp add: tq_shape_def)
    ultimately have "tq_inv k ?q'" using nr unfolding tq_inv_def by blast
    then show ?thesis using that [OF ins] n by simp
  qed
qed

section \<open>The next job\<close>

lemma tq_slot_min:
  assumes "tq_shape k q"
  shows "unat (tq_minTime q) \<in> tq_window q" and "tq_slot q (unat (tq_minTime q)) = unat (tq_minPos q)"
  using assms by (auto simp: tq_shape_def tq_window_def tq_slot_def)

lemma tq_count_zero:
  assumes "tq_near_ok B q" and "tq_nNodes q = 0"
  shows "nd_qType q n \<noteq> InFastQueue" and "B s = []"
proof -
  have "finite {n. nd_qType q n = InFastQueue}" "card {n. nd_qType q n = InFastQueue} = 0"
    using assms by (auto simp: tq_near_ok_def tq_count_ok_def)
  then have none: "nd_qType q m \<noteq> InFastQueue" for m by auto
  then show "nd_qType q n \<noteq> InFastQueue" .
  show "B s = []"
    using tq_near_not_queued [OF assms(1) none] by (cases "B s") (auto, metis list.set_intros(1))
qed

text \<open>Skipping an empty slot.\<close>

lemma tq_near_step:
  assumes shape: "tq_shape k q" and near: "tq_near_ok B q"
    and empty: "tq_access q ! unat (tq_minPos q) = None" and lt: "tq_minTime q < c"
  defines "q1 \<equiv> q\<lparr>tq_minPos := (tq_minPos q + 1) AND tq_AccessMask q, tq_minTime := tq_minTime q + 1\<rparr>"
  shows "tq_shape k q1" and "tq_near_ok B q1" and "B (unat (tq_minTime q)) = []"
proof -
  let ?m = "unat (tq_minTime q)" and ?p = "unat (tq_minPos q)"
  have k: "3 \<le> k" "k \<le> 31" "tq_AccessMask q = mask k" "?p < 2 ^ k"
    using shape by (auto simp: tq_shape_def tq_AccessMask_def mask_eq_exp_minus_1)
  have p1: "unat (tq_minPos q1) = (?p + 1) mod 2 ^ k"
    using k by (simp add: q1_def unat_add_mask)
  have m1: "unat (tq_minTime q1) = ?m + 1" using unat_word_succ [OF lt] by (simp add: q1_def)
  have sz: "unat (tq_AccessSize q1) = 2 ^ k" "unat (tq_AccessSize q) = 2 ^ k"
    using shape by (simp_all add: q1_def)
  show sh1: "tq_shape k q1" using shape p1 by (simp add: tq_shape_def q1_def)
  have "tq_bucket_ok q ?m (B ?m)" using near tq_slot_min [OF shape] by (simp add: tq_near_ok_def)
  then show em: "B ?m = []"
    using empty tq_slot_min [OF shape] by (simp add: tq_bucket_ok_def)
  have slot: "tq_slot q1 t = (?p + (t - ?m)) mod 2 ^ k" if "?m + 1 \<le> t" for t
  proof -
    have "tq_slot q1 t = ((?p + 1) mod 2 ^ k + (t - (?m + 1))) mod 2 ^ k"
      by (simp add: tq_slot_def p1 m1 sz)
    also have "\<dots> = (?p + 1 + (t - (?m + 1))) mod 2 ^ k" by (rule mod_add_left_eq)
    also have "?p + 1 + (t - (?m + 1)) = ?p + (t - ?m)" using that by simp
    finally show ?thesis .
  qed
  have "tq_bucket_ok q1 t (B t)" if t: "t \<in> tq_window q1" for t
  proof (cases "t = ?m + 2 ^ k")
    case True
    then have "B t = []" using near sz(2) by (simp add: tq_near_ok_def tq_window_def)
    moreover have "tq_slot q1 t = ?p" using slot [of t] True k(4) by simp
    ultimately show ?thesis using empty by (simp add: tq_bucket_ok_def q1_def)
  next
    case False
    then have b: "?m + 1 \<le> t" "t \<in> tq_window q"
      using t by (auto simp: tq_window_def m1 sz)
    have "tq_slot q1 t = tq_slot q t" using slot [OF b(1)] by (simp add: tq_slot_def sz)
    moreover have "tq_bucket_ok q t (B t)" using near b(2) by (simp add: tq_near_ok_def)
    ultimately show ?thesis by (simp add: tq_bucket_ok_def q1_def)
  qed
  moreover have "B t = []" if "t \<notin> tq_window q1" for t
  proof (cases "t = ?m")
    case True
    then show ?thesis using em by simp
  next
    case False
    then have "t \<notin> tq_window q" using that by (auto simp: tq_window_def m1 sz)
    then show ?thesis using near by (simp add: tq_near_ok_def)
  qed
  moreover have "tq_count_ok q1 = tq_count_ok q" by (rule tq_count_cong) (simp_all add: q1_def)
  ultimately show "tq_near_ok B q1" using near by (simp add: tq_near_ok_def) (simp add: q1_def)
qed

lemma tq_advance_ok:
  assumes "tq_shape k q" and "tq_near_ok B q" and "tq_minTime q \<le> c"
  shows "\<exists>p m. tq_advance (tq_access q) (tq_AccessMask q) c (tq_minPos q) (tq_minTime q) = (p, m) \<and>
    tq_shape k (q\<lparr>tq_minPos := p, tq_minTime := m\<rparr>) \<and>
    tq_near_ok B (q\<lparr>tq_minPos := p, tq_minTime := m\<rparr>) \<and>
    tq_minTime q \<le> m \<and> m \<le> c \<and> (tq_access q ! unat p = None \<longrightarrow> m = c) \<and>
    (\<forall>s. s < unat m \<longrightarrow> B s = [])"
  using assms
proof (induction "unat c - unat (tq_minTime q)" arbitrary: q rule: less_induct)
  case less
  note sh = less.prems(1) and nr = less.prems(2) and le = less.prems(3)
  have before: "B s = []" if "s < unat (tq_minTime q)" for s
    using nr that by (simp add: tq_near_ok_def tq_window_def)
  show ?case
  proof (cases "tq_access q ! unat (tq_minPos q) = None \<and> tq_minTime q < c")
    case True
    let ?q1 = "q\<lparr>tq_minPos := (tq_minPos q + 1) AND tq_AccessMask q, tq_minTime := tq_minTime q + 1\<rparr>"
    note st = tq_near_step [OF sh nr conjunct1 [OF True] conjunct2 [OF True]]
    have u: "unat (tq_minTime q + 1) = unat (tq_minTime q) + 1" using True unat_word_succ by blast
    have "unat c - unat (tq_minTime ?q1) < unat c - unat (tq_minTime q)"
      using True u by (auto simp: word_less_nat_alt)
    moreover have "tq_minTime ?q1 \<le> c" using word_succ_le [OF conjunct2 [OF True]] by simp
    moreover have "tq_minTime q \<le> tq_minTime q + 1" using u by (simp add: word_le_nat_alt)
    moreover have "tq_AccessMask ?q1 = tq_AccessMask q" by (simp add: tq_AccessMask_def)
    ultimately show ?thesis
      using less.hyps [of ?q1] st(1,2) True
      by (subst tq_advance.simps) (auto intro: order_trans)
  next
    case False
    then show ?thesis using sh nr le before
      by (subst tq_advance.simps) (auto simp: order_le_less)
  qed
qed

lemma tq_take_min_near:
  assumes shape: "tq_shape k q" and near: "tq_near_ok B q"
    and head: "tq_access q ! unat (tq_minPos q) = Some n"
  shows "\<exists>xs. B (unat (tq_minTime q)) = n # xs \<and>
    tq_near_ok (B(unat (tq_minTime q) := xs)) (tq_take_min n q)"
proof -
  let ?u = "unat (tq_minTime q)" and ?q = "tq_take_min n q"
  note sl = tq_slot_min [OF shape]
  have ok: "tq_bucket_ok q ?u (B ?u)" using near sl by (simp add: tq_near_ok_def)
  then obtain xs where xs: "B ?u = n # xs" "chain (nd_next q) (nd_next q n) xs"
    using head sl by (auto simp: tq_bucket_ok_def chain_Some)
  have tn: "unat (nd_time q n) = ?u" using ok xs by (simp add: tq_bucket_ok_def)
  have fields: "tq_access ?q = (tq_access q)[tq_slot q ?u := nd_next q n]"
      "tq_accessTail ?q = (tq_accessTail q)[tq_slot q ?u := tq_accessTail q ! tq_slot q ?u]"
    by (simp_all add: tq_take_min_def tq_setType_def sl)
  have "tq_near_ok (B(?u := xs)) ?q"
  proof (rule tq_near_replace [OF near shape sl(1), where a = "nd_next q n"
        and b = "tq_accessTail q ! tq_slot q ?u"])
    have "tq_slot q ?u < length (tq_access q)" "tq_slot q ?u < length (tq_accessTail q)"
      using tq_slot_less [OF shape] shape by (simp_all add: tq_shape_def)
    then show "tq_bucket_ok ?q ?u xs"
      using ok xs sl by (auto simp: tq_bucket_ok_def tq_take_min_def tq_setType_def)
    have d: "distinct (n # xs)" using ok xs by (simp add: tq_bucket_ok_def)
    have qt: "nd_qType q m = InFastQueue \<longleftrightarrow> m \<in> set (B (unat (nd_time q m)))" for m
      using near by (simp add: tq_near_ok_def)
    show "nd_qType ?q m = InFastQueue \<longleftrightarrow> m \<in> set ((B(?u := xs)) (unat (nd_time q m)))" for m
      using d xs tn qt [of m] by (auto simp: tq_take_min_def tq_setType_def)
    have "{m. nd_qType ?q m = InFastQueue} = {m. nd_qType q m = InFastQueue} - {n}"
      by (auto simp: tq_take_min_def tq_setType_def)
    moreover have "nd_qType q n = InFastQueue" using qt [of n] tn xs by simp
    moreover have "tq_count_ok q" using near by (simp add: tq_near_ok_def)
    ultimately show "tq_count_ok ?q"
      unfolding tq_count_ok_def
      by (simp add: tq_take_min_def tq_setType_def card_Diff_singleton int_ops card_gt_0_iff exI [of _ n])
  qed (use fields in \<open>simp_all add: tq_take_min_def tq_setType_def\<close>)
  then show ?thesis using xs by blast
qed

text \<open>
  What a call \<open>nextJob(c)\<close> owes its caller: the most urgent queued job of the earliest
  time if one is due at \<open>c\<close>, nothing if none is.
\<close>

definition tq_queued :: "tqueue \<Rightarrow> nat \<Rightarrow> bool" where
  "tq_queued q n \<longleftrightarrow> nd_qType q n \<noteq> InNoQueue"

definition tq_answer :: "sim_time \<Rightarrow> tqueue \<Rightarrow> nat option \<Rightarrow> tqueue \<Rightarrow> bool" where
  "tq_answer c q r q' \<longleftrightarrow>
    (case r of
       None \<Rightarrow> tq_minTime q' = c \<and> (\<forall>n. tq_queued q n \<longrightarrow> c < nd_time q n) \<and>
         (\<forall>n. tq_queued q' n \<longleftrightarrow> tq_queued q n)
     | Some n \<Rightarrow> tq_queued q n \<and> nd_time q n \<le> c \<and> tq_minTime q' = nd_time q n \<and>
         (\<forall>m. tq_queued q m \<longrightarrow> nd_time q n < nd_time q m \<or>
            nd_time q n = nd_time q m \<and> nd_priority q n \<le> nd_priority q m) \<and>
         (\<forall>m. tq_queued q' m \<longleftrightarrow> m \<noteq> n \<and> tq_queued q m))"

lemma tq_queued_cases:
  assumes "tq_near_ok B q" and "tq_far_ok q"
  shows "tq_queued q n \<longleftrightarrow> n \<in> set (B (unat (nd_time q n))) \<or> n \<in> set (tq_tooFar q)"
  using assms unfolding tq_queued_def tq_near_ok_def tq_far_ok_def
  by (metis queue_type.exhaust queue_type.distinct(1,3))

lemma tq_far_ok_later:
  assumes "tq_far_ok q" and "\<forall>n \<in> set (tq_tooFar q). m < nd_time q n" and "tq_minTime q \<le> m"
    and "tq_tooFar q' = tq_tooFar q" and "tq_minTooFar q' = tq_minTooFar q"
    and "nd_time q' = nd_time q" and "tq_minTime q' = m"
    and "\<And>n. nd_qType q' n = InTooFarQueue \<longleftrightarrow> nd_qType q n = InTooFarQueue"
  shows "tq_far_ok q'"
proof -
  have "unat (nd_time q n) < unat m + 2 ^ 32" if "n \<in> set (tq_tooFar q)" for n
    using assms(1,3) that unfolding tq_far_ok_def word_le_nat_alt by fastforce
  then show ?thesis using assms unfolding tq_far_ok_def by (simp cong: list.case_cong)
qed

lemma tq_search_ok:
  assumes shape: "tq_shape k q" and near: "tq_near_ok B q" and far: "tq_far_ok q"
    and le: "tq_minTime q \<le> c" and later: "\<forall>n \<in> set (tq_tooFar q). c < nd_time q n"
  shows "\<exists>r q'. tq_search c q = Inr (r, q') \<and> tq_inv k q' \<and> nd_time q' = nd_time q \<and>
    nd_priority q' = nd_priority q \<and> tq_answer c q r q'"
proof (cases "tq_nNodes q = 0")
  case True
  let ?q = "q\<lparr>tq_minTime := c, tq_minPos := 0\<rparr>"
  note none = tq_count_zero [OF near True]
  have acc: "tq_access q ! i = None" if "i < 2 ^ k" for i
  proof -
    let ?p = "unat (tq_minPos q)"
    have p: "?p < 2 ^ k" using shape by (simp add: tq_shape_def)
    define d where "d = (i + 2 ^ k - ?p) mod 2 ^ k"
    have "(?p + d) mod 2 ^ k = (?p + (i + 2 ^ k - ?p)) mod 2 ^ k"
      unfolding d_def by (rule mod_add_right_eq)
    also have "\<dots> = i" using p that by simp
    finally have "tq_slot q (unat (tq_minTime q) + d) = i" using shape by (simp add: tq_slot_def)
    moreover have "unat (tq_minTime q) + d \<in> tq_window q"
      using shape by (simp add: tq_window_def d_def)
    ultimately show ?thesis using near none(2) unfolding tq_near_ok_def tq_bucket_ok_def
      by (metis chain.simps(1))
  qed
  have shape': "tq_shape k ?q" using shape by (simp add: tq_shape_def)
  have "tq_bucket_ok ?q t []" for t
    using acc [OF tq_slot_less [OF shape', of t]] by (simp add: tq_bucket_ok_def)
  moreover have "tq_count_ok ?q = tq_count_ok q" by (rule tq_count_cong) simp_all
  ultimately have "tq_near_ok (\<lambda>_. []) ?q"
    using near none(1) by (simp add: tq_near_ok_def)
  moreover have "tq_far_ok ?q" by (rule tq_far_ok_later [OF far later le]) simp_all
  moreover have "tq_answer c q None ?q"
    using later none(1) tq_queued_cases [OF near far] none(2) by (simp add: tq_answer_def tq_queued_def)
  ultimately show ?thesis using True shape' by (auto simp: tq_search_def tq_inv_def)
next
  case False
  obtain p m where adv: "tq_advance (tq_access q) (tq_AccessMask q) c (tq_minPos q) (tq_minTime q) = (p, m)"
    and s1: "tq_shape k (q\<lparr>tq_minPos := p, tq_minTime := m\<rparr>)"
    and n1: "tq_near_ok B (q\<lparr>tq_minPos := p, tq_minTime := m\<rparr>)" and m: "tq_minTime q \<le> m" "m \<le> c"
    and at_end: "tq_access q ! unat p = None \<longrightarrow> m = c" and before: "\<forall>s. s < unat m \<longrightarrow> B s = []"
    using tq_advance_ok [OF shape near le] by (elim exE conjE) (rule that; assumption)
  let ?q1 = "q\<lparr>tq_minPos := p, tq_minTime := m\<rparr>"
  have later': "\<forall>n \<in> set (tq_tooFar q). m < nd_time q n" using later m by (auto intro: le_less_trans)
  have f1: "tq_far_ok ?q1" by (rule tq_far_ok_later [OF far later' m(1)]) simp_all
  have near_ge: "m \<le> nd_time q n" if "n \<in> set (B (unat (nd_time q n)))" for n
    using before that by (force simp: word_le_nat_alt not_less [symmetric])
  note qc = tq_queued_cases [OF near far]
  show ?thesis
  proof (cases "tq_access q ! unat p")
    case None
    then have mc: "m = c" using at_end by simp
    have "B (unat m) = []"
      using n1 tq_slot_min [OF s1] None by (force simp: tq_near_ok_def tq_bucket_ok_def)
    then have "nd_time q n \<noteq> m" if "n \<in> set (B (unat (nd_time q n)))" for n using that by auto
    then have "c < nd_time q n" if "tq_queued q n" for n
      using qc [of n] that near_ge [of n] later mc by (auto simp: order_le_less)
    then have "tq_answer c q None ?q1" using mc by (simp add: tq_answer_def tq_queued_def)
    then show ?thesis using False adv None s1 n1 f1
      by (auto simp: tq_search_def tq_inv_def)
  next
    case (Some n)
    let ?q2 = "tq_take_min n ?q1"
    obtain xs where xs: "B (unat m) = n # xs" and n2: "tq_near_ok (B(unat m := xs)) ?q2"
      using tq_take_min_near [OF s1 n1] Some by auto
    have bok: "tq_bucket_ok ?q1 (unat m) (n # xs)"
      using n1 tq_slot_min [OF s1] xs by (force simp: tq_near_ok_def)
    then have tn: "nd_time q n = m" by (simp add: tq_bucket_ok_def word_unat_eq_iff)
    have pr: "nd_priority q n \<le> nd_priority q i" if "i \<in> set (n # xs)" for i
      using bok that by (auto simp: tq_bucket_ok_def)
    have fast: "nd_qType q n = InFastQueue" using near xs tn by (auto simp: tq_near_ok_def)
    have s2: "tq_shape k ?q2" using s1 by (simp add: tq_shape_def tq_take_min_def tq_setType_def)
    have f2: "tq_far_ok ?q2"
      by (rule tq_far_ok_later [OF f1]) (use later' fast in \<open>auto simp: tq_take_min_def tq_setType_def\<close>)
    have "m < nd_time q i \<or> m = nd_time q i \<and> nd_priority q n \<le> nd_priority q i" if "tq_queued q i" for i
      using qc [of i] that near_ge [of i] later' pr [of i] xs by (auto simp: order_le_less)
    then have "tq_answer c q (Some n) ?q2"
      using tn m fast by (auto simp: tq_answer_def tq_queued_def tq_take_min_def tq_setType_def)
    moreover have "tq_search c q = Inr (Some n, ?q2)" using False adv Some m by (simp add: tq_search_def)
    moreover have "nd_time ?q2 = nd_time q" "nd_priority ?q2 = nd_priority q"
      by (simp_all add: tq_take_min_def tq_setType_def)
    ultimately show ?thesis using s2 n2 f2 by (auto simp: tq_inv_def)
  qed
qed

lemma tq_near_count_pos:
  assumes "tq_near_ok B q" and "nd_qType q n = InFastQueue"
  shows "tq_nNodes q \<noteq> 0"
  using assms by (auto simp: tq_near_ok_def tq_count_ok_def card_eq_0_iff)

lemma tq_answer_cong:
  assumes "tq_answer c q1 r q'" and "\<And>n. tq_queued q1 n \<longleftrightarrow> tq_queued q n"
    and "nd_time q1 = nd_time q" and "nd_priority q1 = nd_priority q"
  shows "tq_answer c q r q'"
  using assms by (auto simp: tq_answer_def split: option.splits)

lemma tq_fast_path:
  assumes inv: "tq_inv k q" and head: "tq_access q ! unat (tq_minPos q) \<noteq> None"
    and c: "tq_minTime q = c"
  shows "tq_nextJob c q = tq_search c q"
proof -
  obtain B n where shape: "tq_shape k q" and near: "tq_near_ok B q"
    and n: "tq_access q ! unat (tq_minPos q) = Some n" using inv head by (auto simp: tq_inv_def)
  obtain xs where "B (unat (tq_minTime q)) = n # xs" using tq_take_min_near [OF shape near n] by blast
  moreover have "tq_bucket_ok q (unat (tq_minTime q)) (B (unat (tq_minTime q)))"
    using near tq_slot_min [OF shape] by (simp add: tq_near_ok_def)
  ultimately have "nd_qType q n = InFastQueue"
    using near by (auto simp: tq_bucket_ok_def tq_near_ok_def)
  then have "tq_nNodes q \<noteq> 0" using tq_near_count_pos [OF near] by simp
  moreover have "tq_advance (tq_access q) (tq_AccessMask q) c (tq_minPos q) (tq_minTime q)
      = (tq_minPos q, tq_minTime q)"
    using n by (subst tq_advance.simps) simp
  moreover have "q\<lparr>tq_minPos := tq_minPos q, tq_minTime := tq_minTime q\<rparr> = q" by simp
  ultimately have "tq_search c q = Inr (Some n, tq_take_min n q)"
    using n unfolding c [symmetric] by (simp add: tq_search_def)
  then show ?thesis using n c by (simp add: tq_nextJob_def)
qed

lemma tq_nextJob_ok:
  assumes inv: "tq_inv k q" and c: "tq_minTime q \<le> c" "c < MaxTime"
    and w: "unat c < unat (tq_minTime q) + 2 ^ k"
  shows "\<exists>r q'. tq_nextJob c q = Inr (r, q') \<and> tq_inv k q' \<and> nd_time q' = nd_time q \<and>
    nd_priority q' = nd_priority q \<and> tq_answer c q r q'"
proof -
  obtain B where shape: "tq_shape k q" and near: "tq_near_ok B q" and far: "tq_far_ok q"
    using inv by (auto simp: tq_inv_def)
  have front: "\<forall>n \<in> set (tq_tooFar q). tq_minTooFar q \<le> nd_time q n"
    using far by (auto simp: tq_far_ok_def split: list.splits)
  show ?thesis
  proof (cases "tq_access q ! unat (tq_minPos q) \<noteq> None \<and> tq_minTime q = c")
    case True
    then have "\<forall>n \<in> set (tq_tooFar q). c < nd_time q n" using far by (auto simp: tq_far_ok_def)
    then show ?thesis using tq_search_ok [OF shape near far c(1)] tq_fast_path [OF inv] True by simp
  next
    case False
    show ?thesis
    proof (cases "tq_minTooFar q \<le> c")
      case True
      then have ne: "tq_tooFar q \<noteq> []" using far c(2) by (auto simp: tq_far_ok_def)
      obtain q1 B1 where q1: "tq_adjust_loop (tq_tooFar q) q = Inr q1" "tq_shape k q1"
          "tq_near_ok B1 q1" "tq_far_ok q1" "tq_minTime q1 = tq_minTime q" "nd_time q1 = nd_time q"
          "nd_priority q1 = nd_priority q"
          "\<forall>n. nd_qType q1 n = InNoQueue \<longleftrightarrow> nd_qType q n = InNoQueue"
          "\<forall>n \<in> set (tq_tooFar q1). unat (tq_minTime q) + 2 ^ k \<le> unat (nd_time q n)"
        using tq_adjust_loop_ok [OF shape near, of "tq_tooFar q"] far
        unfolding tq_far_ok_list by blast
      have "\<forall>n \<in> set (tq_tooFar q1). c < nd_time q1 n"
        using q1(6,9) w by (fastforce simp: word_less_nat_alt)
      then obtain r q' where "tq_search c q1 = Inr (r, q')" "tq_inv k q'" "nd_time q' = nd_time q1"
          "nd_priority q' = nd_priority q1" "tq_answer c q1 r q'"
        using tq_search_ok [OF q1(2-4) c(1) [folded q1(5)]] by blast
      moreover have "tq_nextJob c q = tq_search c q1"
        using False True ne q1(1) by (auto simp: tq_nextJob_def tq_adjustTooFar_def)
      moreover have "tq_queued q1 n \<longleftrightarrow> tq_queued q n" for n
        using q1(8) by (simp add: tq_queued_def)
      ultimately show ?thesis using tq_answer_cong q1(6,7) by metis
    next
      case minTooFar: False
      then have "\<forall>n \<in> set (tq_tooFar q). c < nd_time q n"
        using front by (auto simp: not_le intro: less_le_trans)
      moreover have "tq_nextJob c q = tq_search c q"
        using False minTooFar by (auto simp: tq_nextJob_def)
      ultimately show ?thesis using tq_search_ok [OF shape near far c(1)] by simp
    qed
  qed
qed

section \<open>Reachable queues\<close>

text \<open>
  The queues a program builds with the constructor, legal insertions (a job that is not
  queued, at a time from \<open>minTime\<close> and within the 32 bit horizon) and calls of
  \<open>nextJob\<close> for a time of the window.
\<close>

inductive tq_reach :: "(nat \<Rightarrow> u64) \<Rightarrow> tqueue \<Rightarrow> bool" for pr where
  tq_reach_create: "tq_create n pr = Inr q \<Longrightarrow> tq_reach pr q"
| tq_reach_insert: "tq_reach pr q \<Longrightarrow> \<not> tq_queued q n \<Longrightarrow> tq_minTime q \<le> t \<Longrightarrow> t < MaxTime \<Longrightarrow>
    unat t < unat (tq_minTime q) + 2 ^ 32 \<Longrightarrow> tq_insert n t q = Inr q' \<Longrightarrow> tq_reach pr q'"
| tq_reach_next: "tq_reach pr q \<Longrightarrow> tq_minTime q \<le> c \<Longrightarrow> c < MaxTime \<Longrightarrow>
    unat c < unat (tq_minTime q) + unat (tq_AccessSize q) \<Longrightarrow>
    tq_nextJob c q = Inr (r, q') \<Longrightarrow> tq_reach pr q'"

lemma tq_create_inv:
  assumes "tq_create n pr = Inr q"
  shows "\<exists>k. tq_inv k q" and "nd_priority q = pr" and "tq_minTime q = 0" and "\<not> tq_queued q m"
    and "tq_AccessSize q = n"
proof -
  have n: "n > 7" "n AND (n - 1) = 0"
    using assms by (auto simp: tq_create_def res_Inr_iffs)
  obtain k where k: "k < 32" "n = 2 ^ k" 
  proof (rule and_pred_zero_power [of n])
    show "n \<noteq> 0" using n(1) by auto
    show "n AND n - 1 = 0" by (rule n(2))
  qed auto
  have "3 \<le> k"
  proof (rule ccontr)
    assume "\<not> 3 \<le> k"
    then have "k = 0 \<or> k = 1 \<or> k = 2" by linarith
    then show False using n(1) k(2) by auto
  qed
  moreover have "k \<le> 31" using k(1) by simp
  ultimately have "tq_inv k q" using assms n k
    by (auto simp: tq_create_def tq_reset_def tq_inv_def tq_shape_def tq_near_ok_def tq_bucket_ok_def
      tq_far_ok_def tq_count_ok_def tq_slot_def intro!: exI [of _ "\<lambda>_. []"])
  then show "\<exists>k. tq_inv k q" by blast
  show "nd_priority q = pr" "tq_minTime q = 0" "\<not> tq_queued q m" "tq_AccessSize q = n"
    using assms n by (auto simp: tq_create_def tq_reset_def tq_queued_def)
qed

lemma tq_reach_inv: "tq_reach pr q \<Longrightarrow> \<exists>k. tq_inv k q \<and> nd_priority q = pr"
proof (induction rule: tq_reach.induct)
  case (tq_reach_create n q)
  then show ?case using tq_create_inv by blast
next
  case (tq_reach_insert q n t q')
  then show ?case using tq_insert_ok [of _ q n t] unfolding tq_queued_def
    by (metis sum.inject(2))
next
  case (tq_reach_next q c r q')
  then obtain k where k: "tq_inv k q" "nd_priority q = pr" by blast
  then have "unat (tq_AccessSize q) = 2 ^ k" by (simp add: tq_inv_def)
  then show ?case using tq_nextJob_ok [OF k(1)] k(2) tq_reach_next by fastforce
qed

section \<open>Removal\<close>

lemma tq_find_prev_chain:
  assumes "chain nx p (xs @ n # ys)" and "n \<notin> set xs"
  shows "tq_find_prev nx n prev p = Some (Inr (if xs = [] then prev else Some (last xs)))"
  using assms
proof (induction xs arbitrary: p prev)
  case Nil
  then show ?case by (subst tq_find_prev.simps) simp
next
  case (Cons x xs)
  then show ?case by (subst tq_find_prev.simps) auto
qed

text \<open>The removal of a job of a bucket that is not at the head of the current slot.\<close>

lemma tq_remove_fast:
  assumes inv: "tq_inv k q" and n: "nd_qType q n = InFastQueue"
    and head: "tq_access q ! unat (tq_minPos q) \<noteq> Some n"
  obtains B xs ys where "tq_near_ok B q" and "B (unat (nd_time q n)) = xs @ n # ys" and "n \<notin> set xs"
    and "tq_remove n q = Inr
      (let pos = tq_slot q (unat (nd_time q n));
           q = (case xs of [] \<Rightarrow> q\<lparr>tq_access := (tq_access q)[pos := nd_next q n]\<rparr>
                | _ # _ \<Rightarrow> tq_setTQNext (last xs) (nd_next q n) q);
           q = (if ys = [] then q\<lparr>tq_accessTail := (tq_accessTail q)[pos := None]\<rparr> else q)
       in q\<lparr>tq_nNodes := tq_nNodes q - 1\<rparr>)"
proof -
  let ?t = "nd_time q n"
  obtain B where shape: "tq_shape k q" and near: "tq_near_ok B q" using inv by (auto simp: tq_inv_def)
  have nb: "n \<in> set (B (unat ?t))" using near n by (auto simp: tq_near_ok_def)
  then obtain xs ys where xs: "B (unat ?t) = xs @ n # ys" "n \<notin> set xs" by (metis split_list_first)
  have w: "unat ?t \<in> tq_window q" using near nb unfolding tq_near_ok_def by (metis empty_iff empty_set)
  then have le: "tq_minTime q \<le> ?t" by (simp add: tq_window_def word_le_nat_alt)
  have ok: "tq_bucket_ok q (unat ?t) (xs @ n # ys)" using near w xs(1) unfolding tq_near_ok_def by metis
  have tail: "tq_accessTail q ! tq_slot q (unat ?t) = Some n \<longleftrightarrow> ys = []"
    using ok by (cases ys rule: rev_cases) (simp_all add: tq_bucket_ok_def)
  have "tq_find_prev (nd_next q) n None (tq_access q ! tq_slot q (unat ?t))
      = Some (Inr (if xs = [] then None else Some (last xs)))"
    using ok xs(2) by (intro tq_find_prev_chain [where ys = ys]) (simp_all add: tq_bucket_ok_def)
  then have "tq_remove n q = Inr
      (let pos = tq_slot q (unat ?t);
           q = (case xs of [] \<Rightarrow> q\<lparr>tq_access := (tq_access q)[pos := nd_next q n]\<rparr>
                | _ # _ \<Rightarrow> tq_setTQNext (last xs) (nd_next q n) q);
           q = (if ys = [] then q\<lparr>tq_accessTail := (tq_accessTail q)[pos := None]\<rparr> else q)
       in q\<lparr>tq_nNodes := tq_nNodes q - 1\<rparr>)"
    using n head tail tq_pos_slot [OF shape le]
    by (cases xs) (auto simp: tq_remove_def Let_def tq_setTQNext_def)
  with near xs show ?thesis by (rule that)
qed

lemma tq_remove_keeps_type:
  assumes inv: "tq_inv k q" and n: "tq_queued q n"
    and head: "tq_access q ! unat (tq_minPos q) \<noteq> Some n"
  obtains q' where "tq_remove n q = Inr q'" and "nd_qType q' n = nd_qType q n"
proof (cases "nd_qType q n = InFastQueue")
  case True
  obtain xs ys :: "nat list" where r: "tq_remove n q = Inr
      (let pos = tq_slot q (unat (nd_time q n));
           q = (case xs of [] \<Rightarrow> q\<lparr>tq_access := (tq_access q)[pos := nd_next q n]\<rparr>
                | _ # _ \<Rightarrow> tq_setTQNext (last xs) (nd_next q n) q);
           q = (if ys = [] then q\<lparr>tq_accessTail := (tq_accessTail q)[pos := None]\<rparr> else q)
       in q\<lparr>tq_nNodes := tq_nNodes q - 1\<rparr>)"
    by (rule tq_remove_fast [OF inv True head]) (rule that)
  show ?thesis
    by (rule that [OF r]) (simp add: Let_def tq_setTQNext_def split: list.split)
next
  case False
  then have ty: "nd_qType q n = InTooFarQueue" using n by (cases "nd_qType q n") (auto simp: tq_queued_def)
  moreover have far: "distinct (tq_tooFar q)" "n \<in> set (tq_tooFar q)"
    using inv ty by (auto simp: tq_inv_def tq_far_ok_def)
  ultimately have "\<exists>q'. tq_remove n q = Inr q' \<and> nd_qType q' n = nd_qType q n"
    by (cases "tq_tooFar q") (auto simp: tq_remove_def Let_def)
  then show ?thesis using that by blast
qed

lemma tq_card_queued:
  assumes "tq_inv k q"
  shows "tq_size q = int (card {n. tq_queued q n})"
proof -
  let ?F = "{n. nd_qType q n = InFastQueue}"
  have fast: "finite ?F" "tq_nNodes q = int (card ?F)" and far: "distinct (tq_tooFar q)"
    "\<And>n. nd_qType q n = InTooFarQueue \<longleftrightarrow> n \<in> set (tq_tooFar q)"
    using assms unfolding tq_inv_def tq_near_ok_def tq_count_ok_def tq_far_ok_def by blast+
  have "tq_queued q n \<longleftrightarrow> n \<in> ?F \<union> set (tq_tooFar q)" for n
    using far(2) [of n] by (cases "nd_qType q n") (auto simp: tq_queued_def)
  then have "{n. tq_queued q n} = ?F \<union> set (tq_tooFar q)" by blast
  moreover have "?F \<inter> set (tq_tooFar q) = {}" using far(2) by (metis (mono_tags, lifting) disjoint_iff
    mem_Collect_eq queue_type.distinct(5))
  ultimately have "card {n. tq_queued q n} = card ?F + length (tq_tooFar q)"
    using fast far(1) by (simp add: card_Un_disjoint distinct_card)
  then show ?thesis using fast by (simp add: tq_size_def)
qed

section \<open>The interface of the scheduler\<close>

text \<open>
  What the event scheduler relies on: an insertion within the horizon always succeeds and
  adds the job, and the next job of a cycle of the window is the first one by time and
  priority.
\<close>

locale event_queue =
  fixes wf :: "'q \<Rightarrow> bool" and now :: "'q \<Rightarrow> sim_time" and queued :: "'q \<Rightarrow> nat \<Rightarrow> bool"
    and time :: "'q \<Rightarrow> nat \<Rightarrow> sim_time" and prio :: "nat \<Rightarrow> u64" and span :: nat
    and ins :: "nat \<Rightarrow> sim_time \<Rightarrow> 'q \<Rightarrow> 'q res"
    and nxt :: "sim_time \<Rightarrow> 'q \<Rightarrow> (nat option \<times> 'q) res"
  assumes ins_ok: "wf q \<Longrightarrow> \<not> queued q n \<Longrightarrow> now q \<le> t \<Longrightarrow> t < MaxTime \<Longrightarrow>
      unat t < unat (now q) + 2 ^ 32 \<Longrightarrow>
      \<exists>q'. ins n t q = Inr q' \<and> wf q' \<and> now q' = now q \<and> time q' = (time q)(n := t) \<and>
        (\<forall>m. queued q' m \<longleftrightarrow> m = n \<or> queued q m)"
    and nxt_ok: "wf q \<Longrightarrow> now q \<le> c \<Longrightarrow> c < MaxTime \<Longrightarrow> unat c < unat (now q) + span \<Longrightarrow>
      \<exists>r q'. nxt c q = Inr (r, q') \<and> wf q' \<and> time q' = time q \<and>
        (case r of
           None \<Rightarrow> now q' = c \<and> (\<forall>n. queued q n \<longrightarrow> c < time q n) \<and> (\<forall>n. queued q' n \<longleftrightarrow> queued q n)
         | Some n \<Rightarrow> queued q n \<and> time q n \<le> c \<and> now q' = time q n \<and>
             (\<forall>m. queued q m \<longrightarrow> time q n < time q m \<or> time q n = time q m \<and> prio n \<le> prio m) \<and>
             (\<forall>m. queued q' m \<longleftrightarrow> m \<noteq> n \<and> queued q m))"
    and finite_queued: "wf q \<Longrightarrow> finite {n. queued q n}"
    and span_range: "1 < span" "span \<le> 2 ^ 31"

definition tq_wf :: "nat \<Rightarrow> (nat \<Rightarrow> u64) \<Rightarrow> tqueue \<Rightarrow> bool" where
  "tq_wf k pr q \<longleftrightarrow> tq_inv k q \<and> nd_priority q = pr"

lemma tq_finite_queued:
  assumes "tq_inv k q"
  shows "finite {m. tq_queued q m}"
proof -
  have "finite {m. nd_qType q m = InFastQueue}" "finite {m. nd_qType q m = InTooFarQueue}"
    using assms unfolding tq_inv_def tq_near_ok_def tq_count_ok_def tq_far_ok_def by auto
  moreover have "{m. tq_queued q m} \<subseteq> {m. nd_qType q m = InFastQueue} \<union> {m. nd_qType q m = InTooFarQueue}"
    using queue_type.exhaust by (auto simp: tq_queued_def)
  ultimately show ?thesis by (meson finite_UnI finite_subset)
qed

interpretation tq: event_queue "tq_wf k pr" tq_minTime tq_queued nd_time pr
  "if 3 \<le> k \<and> k \<le> 31 then 2 ^ k else 2" tq_insert tq_nextJob
proof (unfold_locales, goal_cases)
  case (1 q n t)
  then have inv: "tq_inv k q" and qt: "nd_qType q n = InNoQueue"
    by (simp_all add: tq_wf_def tq_queued_def)
  obtain q' where q': "tq_insert n t q = Inr q'" "tq_inv k q'" "tq_minTime q' = tq_minTime q"
      "nd_time q' = (nd_time q)(n := t)" "nd_priority q' = nd_priority q"
      "\<And>m. tq_queued q' m \<longleftrightarrow> m = n \<or> tq_queued q m"
    using tq_insert_ok [OF inv qt 1(3-5)] unfolding tq_queued_def by blast
  then show ?case using 1(1) by (intro exI [of _ q']) (simp add: tq_wf_def)
next
  case (2 q c)
  then have inv: "tq_inv k q" and "3 \<le> k" "k \<le> 31" by (auto simp: tq_wf_def tq_inv_def tq_shape_def)
  then have "unat c < unat (tq_minTime q) + 2 ^ k" using 2(4) by simp
  then obtain r q' where r: "tq_nextJob c q = Inr (r, q')" "tq_inv k q'" "nd_time q' = nd_time q"
      "nd_priority q' = nd_priority q" "tq_answer c q r q'"
    using tq_nextJob_ok [OF inv 2(2,3)] by blast
  have "nd_priority q = pr" using 2(1) by (simp add: tq_wf_def)
  then show ?case using r by (intro exI [of _ r] exI [of _ q']) (auto simp: tq_wf_def tq_answer_def)
next
  case (3 q)
  then show ?case by (auto simp: tq_wf_def intro: tq_finite_queued)
next
  case 4
  then show ?case using one_less_power [of "2 :: nat" k] by auto
next
  case 5
  then show ?case using power_increasing [of k 31 "2 :: nat"] by auto
qed

section \<open>Properties\<close>

text \<open>
  C2. On every queue built by legal operations, \<open>nextJob(c)\<close> for a cycle \<open>c\<close> of the
  window returns normally; it answers null exactly when no queued job is due at \<open>c\<close>, and
  otherwise the queued job that is first by time and then by priority, which it removes. This
  holds through the buckets, the overflow heap and the common-case shortcut alike.
\<close>

theorem tq_nextJob_earliest:
  assumes "tq_reach pr q" and "tq_minTime q \<le> c" and "c < MaxTime"
    and "unat c < unat (tq_minTime q) + unat (tq_AccessSize q)"
  shows "\<exists>r q'. tq_nextJob c q = Inr (r, q') \<and> tq_answer c q r q' \<and> tq_reach pr q'"
proof -
  obtain k where k: "tq_inv k q" using tq_reach_inv [OF assms(1)] by blast
  then have "unat (tq_AccessSize q) = 2 ^ k" by (simp add: tq_inv_def)
  then obtain r q' where "tq_nextJob c q = Inr (r, q')" "tq_answer c q r q'"
    using tq_nextJob_ok [OF k assms(2,3)] assms(4) by auto
  then show ?thesis using tq_reach_next [OF assms] by blast
qed

lemma tq_example:
  assumes t: "unat t < 2 ^ 32"
  shows "\<exists>q q1. tq_create 8 pr = Inr q \<and> tq_insert n t q = Inr q1 \<and> tq_reach pr q1 \<and> tq_inv 3 q1 \<and>
    tq_minTime q1 = 0 \<and> nd_time q1 n = t \<and> (\<forall>m. tq_queued q1 m \<longleftrightarrow> m = n) \<and> tq_AccessSize q1 = 8"
proof -
  obtain q where q: "tq_create 8 pr = Inr q" by (simp add: tq_create_def)
  note c = tq_create_inv [OF q]
  obtain k where k: "tq_inv k q" using c(1) by blast
  have "(2 :: nat) ^ k = 2 ^ 3" using k c(5) tq_shape_size [of k q] by (simp add: tq_inv_def)
  then have "k = 3" by (rule power_inject_exp [THEN iffD1, rotated]) simp
  with k have k3: "tq_inv 3 q" by simp
  have "unat t < unat MaxTime" using t by (simp add: MaxTime_def)
  then have "t < MaxTime" by (simp only: word_less_nat_alt)
  moreover have "nd_qType q n = InNoQueue" using c(4) by (simp add: tq_queued_def)
  ultimately obtain q1 where q1: "tq_insert n t q = Inr q1" "tq_inv 3 q1" "tq_minTime q1 = 0"
      "nd_time q1 = (nd_time q)(n := t)" "\<And>m. tq_queued q1 m \<longleftrightarrow> m = n \<or> tq_queued q m"
    using tq_insert_ok [OF k3, of n t] c(3) t unfolding tq_queued_def by auto
  have "tq_reach pr q1"
    using tq_reach_insert [OF tq_reach_create [OF q] c(4) _ \<open>t < MaxTime\<close> _ q1(1)] c(3) t by simp
  moreover have "tq_AccessSize q1 = 8" using q1(2) by (simp add: tq_inv_def tq_shape_def)
  ultimately show ?thesis using q q1 c(4) by auto
qed

text \<open>A job inserted for cycle 4 is what a call for cycle 6 answers.\<close>

theorem tq_nextJob_earliest_witness:
  "\<exists>q q1 q2. tq_create 8 (\<lambda>_. 0) = Inr q \<and> tq_insert 3 4 q = Inr q1 \<and>
    tq_nextJob 6 q1 = Inr (Some 3, q2) \<and> tq_minTime q2 = 4"
proof -
  obtain q q1 where q: "tq_create 8 (\<lambda>_. 0) = Inr q" "tq_insert 3 4 q = Inr q1"
      "tq_reach (\<lambda>_. 0) q1" "tq_minTime q1 = 0" "nd_time q1 3 = 4"
      "\<forall>m. tq_queued q1 m \<longleftrightarrow> m = 3" "tq_AccessSize q1 = 8"
    using tq_example [of 4 "\<lambda>_. 0" 3] by auto
  have "(6 :: u64) < MaxTime" by (simp add: MaxTime_def)
  then obtain r q2 where r: "tq_nextJob 6 q1 = Inr (r, q2)" "tq_answer 6 q1 r q2"
    using tq_nextJob_earliest [OF q(3), of 6] q by auto
  have "(4 :: u64) \<le> 6" by simp
  then have "r = Some 3 \<and> tq_minTime q2 = 4"
    using r(2) q(5,6) by (cases r) (auto simp: tq_answer_def)
  then show ?thesis using q r by blast
qed

text \<open>
  C29. A legal insertion never fails; afterwards exactly the old jobs and the new one are
  queued, the times of the others are unchanged, and \<open>size()\<close>, which adds the count of the
  buckets and the length of the overflow heap, has grown by one.
\<close>

theorem tq_insert_adds_job:
  assumes "tq_reach pr q" and "\<not> tq_queued q n" and "tq_minTime q \<le> t" and "t < MaxTime"
    and "unat t < unat (tq_minTime q) + 2 ^ 32"
  shows "\<exists>q'. tq_insert n t q = Inr q' \<and> tq_reach pr q' \<and>
    (\<forall>m. tq_queued q' m \<longleftrightarrow> m = n \<or> tq_queued q m) \<and> nd_time q' = (nd_time q)(n := t) \<and>
    tq_size q' = tq_size q + 1"
proof -
  obtain k where k: "tq_inv k q" using tq_reach_inv [OF assms(1)] by blast
  obtain q' where q': "tq_insert n t q = Inr q'" "tq_inv k q'" "nd_time q' = (nd_time q)(n := t)"
      "\<And>m. tq_queued q' m \<longleftrightarrow> m = n \<or> tq_queued q m"
    using tq_insert_ok [OF k _ assms(3-5)] assms(2) unfolding tq_queued_def by metis
  note tq_finite_queued [OF k]
  moreover have "{m. tq_queued q' m} = insert n {m. tq_queued q m}" using q'(4) by blast
  ultimately have "tq_size q' = tq_size q + 1"
    using tq_card_queued [OF k] tq_card_queued [OF q'(2)] assms(2) by simp
  then show ?thesis using q' tq_reach_insert [OF assms q'(1)] by blast
qed

theorem tq_insert_adds_job_witness:
  "\<exists>q q'. tq_create 8 (\<lambda>_. 0) = Inr q \<and> tq_insert 5 1000 q = Inr q' \<and> tq_size q' = 1"
proof -
  obtain q where q: "tq_create 8 (\<lambda>_. 0) = Inr q" by (simp add: tq_create_def)
  note c = tq_create_inv [OF q]
  have "(1000 :: u64) < MaxTime" by (simp add: MaxTime_def)
  then obtain q' where "tq_insert 5 1000 q = Inr q'" "tq_size q' = tq_size q + 1"
    using tq_insert_adds_job [OF tq_reach_create [OF q] c(4), of 1000 5] c(3) by auto
  moreover have "tq_size q = 0" using q by (auto simp: tq_create_def tq_reset_def tq_size_def)
  ultimately show ?thesis using q by simp
qed

text \<open>
  \<open>reschedule\<close> of a queued job fails its own assertion unless the job is the head of
  the current slot: \<open>remove\<close> leaves the queue type as it was on every other path.
\<close>

theorem tq_reschedule_fails:
  assumes "tq_reach pr q" and "tq_queued q n" and "tq_access q ! unat (tq_minPos q) \<noteq> Some n"
  shows "tq_reschedule n t q = Inl Assert_failed"
proof -
  obtain k where k: "tq_inv k q" using tq_reach_inv [OF assms(1)] by blast
  then obtain q' where "tq_remove n q = Inr q'" "nd_qType q' n = nd_qType q n"
    using tq_remove_keeps_type [OF k assms(2,3)] by blast
  then show ?thesis using assms(2) by (simp add: tq_reschedule_def tq_queued_def)
qed

theorem tq_reschedule_fails_witness:
  "\<exists>q q1. tq_create 8 (\<lambda>_. 0) = Inr q \<and> tq_insert 3 4 q = Inr q1 \<and>
    tq_reschedule 3 6 q1 = Inl Assert_failed"
proof -
  obtain q q1 where q: "tq_create 8 (\<lambda>_. 0) = Inr q" "tq_insert 3 4 q = Inr q1"
      "tq_reach (\<lambda>_. 0) q1" "\<forall>m. tq_queued q1 m \<longleftrightarrow> m = 3"
    using tq_example [of 4 "\<lambda>_. 0" 3] by auto
  have "tq_access q1 ! unat (tq_minPos q1) \<noteq> Some 3"
    using q(1,2) by (auto simp: tq_create_def tq_reset_def tq_insert_def tq_near_def tq_addNode_def
      tq_pos_def tq_AccessMask_def tq_setTQNext_def tq_setType_def)
  then show ?thesis using tq_reschedule_fails [OF q(3), of 3] q by auto
qed

text \<open>
  Removing the last job of a bucket that holds others leaves its tail pointer null while
  the bucket is not empty: the next insertion for that cycle dereferences null.
\<close>

theorem tq_remove_tail_breaks_insert:
  assumes "tq_reach pr q" and fast: "nd_qType q n = InFastQueue"
    and tail: "tq_accessTail q ! tq_pos q (nd_time q n) = Some n"
    and more: "tq_access q ! tq_pos q (nd_time q n) \<noteq> Some n" and m: "\<not> tq_queued q m"
  shows "\<exists>q'. tq_remove n q = Inr q' \<and> tq_insert m (nd_time q n) q' = Inl Null_deref"
proof -
  let ?t = "nd_time q n" let ?p = "tq_slot q (unat ?t)"
  obtain k where inv: "tq_inv k q" using tq_reach_inv [OF assms(1)] by blast
  obtain B0 where shape: "tq_shape k q" and near0: "tq_near_ok B0 q" using inv by (auto simp: tq_inv_def)
  have nb: "n \<in> set (B0 (unat ?t))" using near0 fast by (auto simp: tq_near_ok_def)
  have w: "unat ?t \<in> tq_window q" using near0 nb unfolding tq_near_ok_def by (metis empty_iff empty_set)
  then have le: "tq_minTime q \<le> ?t" by (simp add: tq_window_def word_le_nat_alt)
  note pos = tq_pos_slot [OF shape le]
  have head: "tq_access q ! unat (tq_minPos q) \<noteq> Some n"
  proof
    assume h: "tq_access q ! unat (tq_minPos q) = Some n"
    then obtain zs where zs: "B0 (unat (tq_minTime q)) = n # zs" using tq_take_min_near [OF shape near0] by blast
    then have "unat (nd_time q n) = unat (tq_minTime q)"
      using near0 tq_slot_min [OF shape] by (force simp: tq_near_ok_def tq_bucket_ok_def)
    then show False using more h pos tq_slot_min [OF shape] by simp
  qed
  obtain B xs ys where B: "tq_near_ok B q" "B (unat ?t) = xs @ n # ys" "n \<notin> set xs"
    and r: "tq_remove n q = Inr
      (let pos = tq_slot q (unat ?t);
           q = (case xs of [] \<Rightarrow> q\<lparr>tq_access := (tq_access q)[pos := nd_next q n]\<rparr>
                | _ # _ \<Rightarrow> tq_setTQNext (last xs) (nd_next q n) q);
           q = (if ys = [] then q\<lparr>tq_accessTail := (tq_accessTail q)[pos := None]\<rparr> else q)
       in q\<lparr>tq_nNodes := tq_nNodes q - 1\<rparr>)"
    by (rule tq_remove_fast [OF inv fast head]) (rule that)
  have ok: "tq_bucket_ok q (unat ?t) (xs @ n # ys)" using B(1,2) w unfolding tq_near_ok_def by metis
  have "tq_accessTail q ! ?p = Some (last (xs @ n # ys))" and d: "distinct (n # ys)"
    and ch: "chain (nd_next q) (tq_access q ! ?p) (xs @ n # ys)"
    using ok by (simp_all add: tq_bucket_ok_def)
  then have "last (n # ys) = n" using tail pos by simp
  then have "ys = []" using d by (cases ys rule: rev_cases) simp_all
  moreover obtain x xs' where x: "xs = x # xs'" using ch more pos by (cases xs) auto
  ultimately have r': "tq_remove n q = Inr (q\<lparr>nd_next := (nd_next q)(last xs := nd_next q n),
      tq_accessTail := (tq_accessTail q)[?p := None], tq_nNodes := tq_nNodes q - 1\<rparr>)"
    (is "_ = Inr ?q'")
    using r by (simp add: Let_def tq_setTQNext_def)
  have len: "?p < length (tq_accessTail q)" using tq_slot_less [OF shape] shape by (simp add: tq_shape_def)
  have acc: "tq_access q ! ?p = Some x" using ch x by simp
  have sh': "tq_shape k (?q'\<lparr>nd_time := T\<rparr>)" for T using shape by (simp add: tq_shape_def tq_setTQNext_def)
  have fld: "tq_minTime ?q' = tq_minTime q" "nd_qType ?q' = nd_qType q" "tq_AccessSize ?q' = tq_AccessSize q"
      "tq_minPos ?q' = tq_minPos q" "tq_access ?q' = tq_access q"
      "tq_accessTail ?q' = (tq_accessTail q)[?p := None]"
    by (simp_all add: tq_setTQNext_def)
  have "unat ?t < unat (tq_minTime q) + 2 ^ k" using w shape by (simp add: tq_window_def)
  moreover have "(2 :: nat) ^ k \<le> 2 ^ 32" using shape by (intro power_increasing) (auto simp: tq_shape_def)
  ultimately have far: "unat ?t < unat (tq_minTime q) + 2 ^ 32" by linarith
  have win: "tq_window (?q'\<lparr>nd_time := T\<rparr>) = tq_window q" "tq_slot (?q'\<lparr>nd_time := T\<rparr>) = tq_slot q" for T
    using tq_slot_cong [of "?q'\<lparr>nd_time := T\<rparr>" q] fld by simp_all
  have "tq_near (?q'\<lparr>nd_time := T\<rparr>) ?t" for T
    using tq_near_iff [OF sh', of T ?t] le far w win by (simp add: fld)
  moreover have "tq_pos (?q'\<lparr>nd_time := T\<rparr>) ?t = ?p" for T
    using tq_pos_slot [OF sh', of T ?t] le win by (simp add: fld)
  moreover have "(word_of_int \<bar>sint (ucast (?t - tq_minTime q) :: u32)\<bar> :: u32) < tq_AccessSize q"
    by (rule tq_add_guard [OF shape le w])
  ultimately have "tq_insert m ?t ?q' = Inl Null_deref"
    using m le acc len fld by (simp add: tq_insert_def tq_addNode_def tq_queued_def Let_def)
  then show ?thesis using r' by blast
qed

text \<open>Jobs 1 and 2 of one bucket: without job 2 the bucket takes no third job.\<close>

theorem tq_remove_tail_breaks_insert_witness:
  "\<exists>q q1 q2 q3. tq_create 8 (\<lambda>_. 0) = Inr q \<and> tq_insert 1 4 q = Inr q1 \<and> tq_insert 2 4 q1 = Inr q2 \<and>
    tq_remove 2 q2 = Inr q3 \<and> tq_insert 3 4 q3 = Inl Null_deref"
proof -
  obtain q q1 where q: "tq_create 8 (\<lambda>_. 0) = Inr q" "tq_insert 1 4 q = Inr q1"
      "tq_reach (\<lambda>_. 0) q1" "\<forall>m. tq_queued q1 m \<longleftrightarrow> m = 1" "tq_minTime q1 = 0"
    using tq_example [of 4 "\<lambda>_. 0" 1] by auto
  have "(4 :: u64) < MaxTime" by (simp add: MaxTime_def)
  then obtain q2 where q2: "tq_insert 2 4 q1 = Inr q2" "tq_reach (\<lambda>_. 0) q2"
      "\<forall>m. tq_queued q2 m \<longleftrightarrow> m = 2 \<or> tq_queued q1 m"
    using tq_insert_adds_job [OF q(3), of 2 4] q(4,5) by auto
  have ev: "nd_time q2 2 = 4" "nd_qType q2 2 = InFastQueue"
      "tq_accessTail q2 ! tq_pos q2 4 = Some 2" "tq_access q2 ! tq_pos q2 4 = Some 1"
    using q(1,2) q2(1) by (auto simp: tq_create_def tq_reset_def tq_insert_def tq_near_def tq_addNode_def
      tq_pos_def tq_AccessMask_def tq_setTQNext_def tq_setType_def)
  then show ?thesis
    using tq_remove_tail_breaks_insert [OF q2(2), of 2 3] q q2 by auto
qed

text \<open>
  The distance of an insertion is compared after truncation to 32 bits: a job inserted
  \<open>2 ^ 32 + 5\<close> cycles ahead goes into a bucket and is handed out at cycle 5.
\<close>

theorem tq_horizon_fires_early:
  "\<exists>q q1 q2. tq_create 8 pr = Inr q \<and> tq_insert n (2 ^ 32 + 5) q = Inr q1 \<and>
    nd_time q1 n = 2 ^ 32 + 5 \<and> tq_nextJob 5 q1 = Inr (Some n, q2)"
proof -
  let ?e = "replicate 8 (None :: nat option)"
  have e: "?e[5 := Some n] = [None, None, None, None, None, Some n, None, None]"
    by (simp add: eval_nat_numeral)
  have adv: "tq_advance (?e[5 := Some n]) 7 5 0 0 = (5, 5)"
    unfolding e by (simp add: tq_advance_skip tq_advance_stop)
  obtain q where q: "tq_create 8 pr = Inr q" "tq_minTime q = 0" "tq_minPos q = 0" "tq_AccessSize q = 8"
      "tq_access q = ?e" "tq_accessTail q = ?e" "tq_tooFar q = []" "tq_minTooFar q = MaxTime"
      "tq_nNodes q = 0" "nd_qType q = (\<lambda>_. InNoQueue)"
    by (simp add: tq_create_def tq_reset_def)
  have near: "tq_near q (2 ^ 32 + 5)" "tq_pos q (2 ^ 32 + 5) = 5"
    by (simp_all add: tq_near_def tq_pos_def tq_AccessMask_def q)
  obtain q1 where q1: "tq_insert n (2 ^ 32 + 5) q = Inr q1" "tq_minTime q1 = 0" "tq_minPos q1 = 0"
      "tq_AccessSize q1 = 8" "tq_access q1 = ?e[5 := Some n]" "tq_minTooFar q1 = MaxTime"
      "tq_nNodes q1 = 1" "nd_time q1 n = 2 ^ 32 + 5"
    using near
    by (simp add: tq_insert_def tq_addNode_def tq_near_def tq_pos_def tq_AccessMask_def
        tq_setTQNext_def tq_setType_def q)
  have "\<not> MaxTime \<le> 5" by (simp add: MaxTime_def)
  then have "\<exists>q2. tq_nextJob 5 q1 = Inr (Some n, q2)"
    using adv by (simp add: tq_nextJob_def tq_search_def tq_AccessMask_def q1)
  then show ?thesis using q(1) q1(1,8) by blast
qed

end
