(* ===== verification/Port.thy ===== *)
theory Port
  imports Desesc_Prelude "HOL-Library.Multiset"
begin

text \<open>
  \<open>core/port.hpp\<close> and \<open>core/port.cpp\<close>: the contention ports. A simple port books the
  next free cycle at once (\<open>nextSlot\<close>); a priority-managed port queues requests that are
  drained, most urgent first, at the end of the cycle. The global clock is an argument. The
  statistics object of a port is the list of the samples it was given, each with its enable
  flag, the newest first. The \<open>std::priority_queue\<close> of a managed port is the list of its
  requests in priority order; the order of equal priorities is not specified by the code.
  The callback of a request is code of another component: it is the argument
  \<open>fire\<close>, which maps a request, the clock and the state of the rest of the simulator to
  the requests it queues on this port while it runs and the new state.
\<close>

section \<open>Requests and statistics\<close>

type_synonym port_samples = "(u64 \<times> bool) list"

record port_request =
  pr_priority :: sim_time
  pr_callback :: nat
  pr_enable_stats :: bool
  pr_transient :: bool

type_synonym 'w port_fire = "port_request \<Rightarrow> sim_time \<Rightarrow> 'w \<Rightarrow> port_request list \<times> 'w"

section \<open>Simple ports\<close>

record port_unlimited =
  pu_avgTime :: port_samples

definition pu_create :: port_unlimited where
  "pu_create = \<lparr>pu_avgTime = []\<rparr>"

definition pu_nextSlot :: "sim_time \<Rightarrow> bool \<Rightarrow> port_unlimited \<Rightarrow> sim_time \<times> port_unlimited" where
  "pu_nextSlot clock en p = (clock, p\<lparr>pu_avgTime := (0, en) # pu_avgTime p\<rparr>)"

definition pu_is_busy_for :: "sim_time \<Rightarrow> u16 \<Rightarrow> port_unlimited \<Rightarrow> bool" where
  "pu_is_busy_for clock clk p = False"

record port_fully_pipe =
  fp_lTime :: sim_time
  fp_avgTime :: port_samples

definition fp_create :: "sim_time \<Rightarrow> port_fully_pipe" where
  "fp_create clock = \<lparr>fp_lTime = clock, fp_avgTime = []\<rparr>"

definition fp_nextSlot :: "sim_time \<Rightarrow> bool \<Rightarrow> port_fully_pipe \<Rightarrow> sim_time \<times> port_fully_pipe" where
  "fp_nextSlot clock en p =
    (let p = (if fp_lTime p < clock then p\<lparr>fp_lTime := clock\<rparr> else p);
         p = p\<lparr>fp_avgTime := (fp_lTime p - clock, en) # fp_avgTime p\<rparr>
     in (fp_lTime p, p\<lparr>fp_lTime := fp_lTime p + 1\<rparr>))"

definition fp_is_busy_for :: "sim_time \<Rightarrow> u16 \<Rightarrow> port_fully_pipe \<Rightarrow> bool" where
  "fp_is_busy_for clock clk p \<longleftrightarrow> fp_lTime p - ucast clk \<ge> clock"

record port_fully_npipe =
  np_nUnitsMinusOne :: u16
  np_freeUnits :: u16
  np_lTime :: sim_time
  np_avgTime :: port_samples

definition np_create :: "sim_time \<Rightarrow> u16 \<Rightarrow> port_fully_npipe res" where
  "np_create clock nFU =
    assert_res (nFU > 0)
      (Inr \<lparr>np_nUnitsMinusOne = nFU - 1, np_freeUnits = nFU, np_lTime = clock, np_avgTime = []\<rparr>)"

definition np_nextSlot :: "sim_time \<Rightarrow> bool \<Rightarrow> port_fully_npipe \<Rightarrow> sim_time \<times> port_fully_npipe" where
  "np_nextSlot clock en p =
    (let p = (if np_lTime p < clock
              then p\<lparr>np_lTime := clock, np_freeUnits := np_nUnitsMinusOne p\<rparr>
              else if np_freeUnits p > 0 then p\<lparr>np_freeUnits := np_freeUnits p - 1\<rparr>
              else p\<lparr>np_lTime := np_lTime p + 1, np_freeUnits := np_nUnitsMinusOne p\<rparr>);
         p = p\<lparr>np_avgTime := (np_lTime p - clock, en) # np_avgTime p\<rparr>
     in (np_lTime p, p))"

definition np_is_busy_for :: "sim_time \<Rightarrow> u16 \<Rightarrow> port_fully_npipe \<Rightarrow> bool" where
  "np_is_busy_for clock clk p \<longleftrightarrow> np_lTime p - ucast clk \<ge> clock"

section \<open>Priority-managed ports\<close>

record port_prio =
  pp_queue :: "port_request list"
  pp_avgTime :: port_samples

definition pp_create :: port_prio where
  "pp_create = \<lparr>pp_queue = [], pp_avgTime = []\<rparr>"

definition pp_nextSlot :: "port_prio \<Rightarrow> (sim_time \<times> port_prio) res" where
  "pp_nextSlot p = Inl Assert_failed"

definition pp_schedule :: "bool \<Rightarrow> sim_time \<Rightarrow> bool \<Rightarrow> nat \<Rightarrow> port_prio \<Rightarrow> port_prio" where
  "pp_schedule en priority transient cb p =
    p\<lparr>pp_queue := insort_key pr_priority
        \<lparr>pr_priority = priority, pr_callback = cb, pr_enable_stats = en, pr_transient = transient\<rparr>
        (pp_queue p)\<rparr>"

definition pp_push :: "port_request list \<Rightarrow> port_request list \<Rightarrow> port_request list" where
  "pp_push reqs q = foldl (\<lambda>q r. insort_key pr_priority r q) q reqs"

text \<open>The rebuilding loop of \<open>flush_transient\<close>: from the top down, what is kept is pushed again.\<close>

fun pp_keep :: "port_request list \<Rightarrow> port_request list \<Rightarrow> port_request list" where
  "pp_keep kept [] = kept"
| "pp_keep kept (r # q) = pp_keep (if \<not> pr_transient r then insort_key pr_priority r kept else kept) q"

definition pp_flush_transient :: "port_prio \<Rightarrow> port_prio" where
  "pp_flush_transient p = (if pp_queue p = [] then p else p\<lparr>pp_queue := pp_keep [] (pp_queue p)\<rparr>)"

text \<open>The unbounded drain: it ends when the callbacks stop queueing requests.\<close>

partial_function (option) pp_drain_pending ::
  "'w port_fire \<Rightarrow> sim_time \<Rightarrow> port_prio \<Rightarrow> 'w \<Rightarrow> (port_prio \<times> 'w) option" where
  "pp_drain_pending fire clock p w =
    (case pp_queue p of
       [] \<Rightarrow> Some (p, w)
     | req # q \<Rightarrow>
         (let p = p\<lparr>pp_queue := q, pp_avgTime := (0, pr_enable_stats req) # pp_avgTime p\<rparr>;
              (reqs, w) = fire req clock w
          in pp_drain_pending fire clock (p\<lparr>pp_queue := pp_push reqs (pp_queue p)\<rparr>) w))"

definition pp_has_pending :: "port_prio \<Rightarrow> bool" where
  "pp_has_pending p \<longleftrightarrow> pp_queue p \<noteq> []"

record port_pipe_prio =
  pq_nUnits :: u16
  pq_queue :: "port_request list"
  pq_granted_this_cycle :: u16
  pq_granted_cycle :: sim_time
  pq_avgTime :: port_samples

definition pq_create :: "u16 \<Rightarrow> port_pipe_prio res" where
  "pq_create n =
    assert_res (n > 0) (Inr \<lparr>pq_nUnits = n, pq_queue = [], pq_granted_this_cycle = 0,
      pq_granted_cycle = 0, pq_avgTime = []\<rparr>)"

definition pq_align_cycle :: "sim_time \<Rightarrow> port_pipe_prio \<Rightarrow> port_pipe_prio" where
  "pq_align_cycle clock p =
    (if pq_granted_cycle p \<noteq> clock
     then p\<lparr>pq_granted_cycle := clock, pq_granted_this_cycle := 0\<rparr> else p)"

definition pq_is_busy_for :: "u16 \<Rightarrow> port_pipe_prio \<Rightarrow> bool" where
  "pq_is_busy_for clk p = False"

definition pq_schedule :: "bool \<Rightarrow> sim_time \<Rightarrow> bool \<Rightarrow> nat \<Rightarrow> port_pipe_prio \<Rightarrow> port_pipe_prio" where
  "pq_schedule en priority transient cb p =
    p\<lparr>pq_queue := insort_key pr_priority
        \<lparr>pr_priority = priority, pr_callback = cb, pr_enable_stats = en, pr_transient = transient\<rparr>
        (pq_queue p)\<rparr>"

definition pq_flush_transient :: "port_pipe_prio \<Rightarrow> port_pipe_prio" where
  "pq_flush_transient p = (if pq_queue p = [] then p else p\<lparr>pq_queue := pp_keep [] (pq_queue p)\<rparr>)"

text \<open>The grants of a cycle, with the log of the granted requests.\<close>

function pq_grant ::
  "'w port_fire \<Rightarrow> sim_time \<Rightarrow> port_pipe_prio \<Rightarrow> 'w \<Rightarrow> port_request list \<Rightarrow>
    port_pipe_prio \<times> 'w \<times> port_request list" where
  "pq_grant fire clock p w granted =
    (case pq_queue p of
       [] \<Rightarrow> (p, w, granted)
     | req # q \<Rightarrow>
         if pq_granted_this_cycle p < pq_nUnits p
         then (let p = p\<lparr>pq_queue := q, pq_avgTime := (0, pr_enable_stats req) # pq_avgTime p\<rparr>;
                   (reqs, w) = fire req clock w;
                   p = p\<lparr>pq_queue := pp_push reqs (pq_queue p)\<rparr>
               in pq_grant fire clock (p\<lparr>pq_granted_this_cycle := pq_granted_this_cycle p + 1\<rparr>) w
                    (granted @ [req]))
         else (p, w, granted))"
  by pat_completeness auto
termination
  by (relation "measure (\<lambda>(_, _, p, _, _). unat (pq_nUnits p) - unat (pq_granted_this_cycle p))")
    (auto simp: word_less_nat_alt unat_word_succ [simplified word_less_nat_alt])

declare pq_grant.simps [simp del]

definition pq_drain_pending ::
  "'w port_fire \<Rightarrow> sim_time \<Rightarrow> port_pipe_prio \<Rightarrow> 'w \<Rightarrow> port_pipe_prio \<times> 'w \<times> port_request list" where
  "pq_drain_pending fire clock p w = pq_grant fire clock (pq_align_cycle clock p) w []"

definition pq_has_pending :: "sim_time \<Rightarrow> port_pipe_prio \<Rightarrow> bool" where
  "pq_has_pending clock p \<longleftrightarrow>
    pq_queue p \<noteq> [] \<and>
    (pq_granted_cycle p \<noteq> clock \<or> pq_granted_this_cycle p < pq_nUnits p)"

section \<open>The kinds of ports and their construction\<close>

datatype port =
    PortUnlimited port_unlimited
  | PortFullyPipe port_fully_pipe
  | PortFullyNPipe port_fully_npipe
  | PortUnlimitedPriority port_prio
  | PortPipePriority port_pipe_prio

text \<open>The flag of the result says that the port was registered for the end-of-cycle drain.\<close>

definition port_create :: "sim_time \<Rightarrow> u16 \<Rightarrow> bool \<Rightarrow> (port \<times> bool) res" where
  "port_create clock nUnits priority_managed =
    (if nUnits = 0 then
       (if priority_managed then Inr (PortUnlimitedPriority pp_create, True)
        else Inr (PortUnlimited pu_create, False))
     else if priority_managed then
       bind_res (pq_create nUnits) (\<lambda>p. Inr (PortPipePriority p, True))
     else if nUnits = 1 then Inr (PortFullyPipe (fp_create clock), False)
     else bind_res (np_create clock nUnits) (\<lambda>p. Inr (PortFullyNPipe p, False)))"

fun port_nextSlot :: "sim_time \<Rightarrow> bool \<Rightarrow> port \<Rightarrow> (sim_time \<times> port) res" where
  "port_nextSlot clock en (PortUnlimited p) =
    (let (t, p) = pu_nextSlot clock en p in Inr (t, PortUnlimited p))"
| "port_nextSlot clock en (PortFullyPipe p) =
    (let (t, p) = fp_nextSlot clock en p in Inr (t, PortFullyPipe p))"
| "port_nextSlot clock en (PortFullyNPipe p) =
    (let (t, p) = np_nextSlot clock en p in Inr (t, PortFullyNPipe p))"
| "port_nextSlot clock en (PortUnlimitedPriority p) = Inl Assert_failed"
| "port_nextSlot clock en (PortPipePriority p) = Inl Assert_failed"

text \<open>\<open>nextSlotDelta\<close> truncates the distance to \<open>TimeDelta_t\<close>, 16 bits.\<close>

definition port_nextSlotDelta :: "sim_time \<Rightarrow> bool \<Rightarrow> port \<Rightarrow> (u16 \<times> port) res" where
  "port_nextSlotDelta clock en p =
    bind_res (port_nextSlot clock en p) (\<lambda>(t, p). Inr (ucast (t - clock), p))"

fun port_is_busy_for :: "sim_time \<Rightarrow> u16 \<Rightarrow> port \<Rightarrow> bool" where
  "port_is_busy_for clock clk (PortUnlimited p) = pu_is_busy_for clock clk p"
| "port_is_busy_for clock clk (PortFullyPipe p) = fp_is_busy_for clock clk p"
| "port_is_busy_for clock clk (PortFullyNPipe p) = np_is_busy_for clock clk p"
| "port_is_busy_for clock clk (PortUnlimitedPriority p) = False"
| "port_is_busy_for clock clk (PortPipePriority p) = pq_is_busy_for clk p"

fun port_schedule :: "bool \<Rightarrow> sim_time \<Rightarrow> bool \<Rightarrow> nat \<Rightarrow> port \<Rightarrow> port res" where
  "port_schedule en priority transient cb (PortUnlimitedPriority p) =
    Inr (PortUnlimitedPriority (pp_schedule en priority transient cb p))"
| "port_schedule en priority transient cb (PortPipePriority p) =
    Inr (PortPipePriority (pq_schedule en priority transient cb p))"
| "port_schedule en priority transient cb _ = Inl Assert_failed"

fun port_flush_transient :: "port \<Rightarrow> port" where
  "port_flush_transient (PortUnlimitedPriority p) = PortUnlimitedPriority (pp_flush_transient p)"
| "port_flush_transient (PortPipePriority p) = PortPipePriority (pq_flush_transient p)"
| "port_flush_transient p = p"

section \<open>Booking cycles\<close>

text \<open>
  The contract of a simple port: a booked cycle is not before the clock, it had a free slot,
  which is taken, and no slot remains before it. \<open>inv b\<close> bounds the booked cycles by \<open>b\<close>,
  so that the time does not wrap.
\<close>

locale slot_port =
  fixes slot :: "sim_time \<Rightarrow> 'p \<Rightarrow> sim_time \<times> 'p"
    and inv :: "nat \<Rightarrow> 'p \<Rightarrow> bool"
    and left :: "'p \<Rightarrow> sim_time \<Rightarrow> nat"
  assumes slot_inv: "inv b p \<Longrightarrow> unat c \<le> b \<Longrightarrow> Suc b < 2 ^ 64 \<Longrightarrow> inv (Suc b) (snd (slot c p))"
    and inv_mono: "inv b p \<Longrightarrow> b \<le> b' \<Longrightarrow> inv b' p"
    and slot_after: "inv b p \<Longrightarrow> Suc b < 2 ^ 64 \<Longrightarrow> c \<le> fst (slot c p)"
    and slot_taken: "inv b p \<Longrightarrow> unat c \<le> b \<Longrightarrow> Suc b < 2 ^ 64 \<Longrightarrow>
      left (snd (slot c p)) (fst (slot c p)) < left p (fst (slot c p))"
    and slot_others: "inv b p \<Longrightarrow> unat c \<le> b \<Longrightarrow> Suc b < 2 ^ 64 \<Longrightarrow> left (snd (slot c p)) u \<le> left p u"
    and slot_passed: "inv b p \<Longrightarrow> unat c \<le> b \<Longrightarrow> Suc b < 2 ^ 64 \<Longrightarrow> u < fst (slot c p) \<Longrightarrow> left (snd (slot c p)) u = 0"

fun slot_run :: "(sim_time \<Rightarrow> 'p \<Rightarrow> sim_time \<times> 'p) \<Rightarrow> sim_time list \<Rightarrow> 'p \<Rightarrow> sim_time list" where
  "slot_run slot [] p = []"
| "slot_run slot (c # cs) p = fst (slot c p) # slot_run slot cs (snd (slot c p))"

text \<open>Requests at non-decreasing clocks: what the ports promise together.\<close>

definition slot_run_ok :: "sim_time list \<Rightarrow> sim_time list \<Rightarrow> bool" where
  "slot_run_ok cs ts \<longleftrightarrow> list_all2 (\<le>) cs ts \<and> sorted ts"

context slot_port
begin

lemma run_capacity:
  assumes "inv b p" and "\<forall>c \<in> set cs. unat c \<le> b" and "b + length cs < 2 ^ 64"
  shows "count_list (slot_run slot cs p) t \<le> left p t"
  using assms
proof (induction cs arbitrary: p b)
  case Nil
  then show ?case by simp
next
  case (Cons c cs)
  let ?p = "snd (slot c p)"
  have b: "Suc b < 2 ^ 64" using Cons.prems(3) by simp
  have "count_list (slot_run slot cs ?p) t \<le> left ?p t"
    using Cons.prems slot_inv [OF Cons.prems(1) _ b, of c]
    by (intro Cons.IH [of "Suc b"]) auto
  then show ?case
    using slot_taken [OF Cons.prems(1) _ b, of c] Cons.prems(2) slot_others [OF Cons.prems(1) _ b, of c t]
    by (cases "fst (slot c p) = t") auto
qed

lemma run_free:
  assumes "inv b p" and "\<forall>c \<in> set cs. unat c \<le> b" and "b + length cs < 2 ^ 64"
    and "t \<in> set (slot_run slot cs p)"
  shows "0 < left p t"
proof -
  have "count_list (slot_run slot cs p) t \<noteq> 0" using assms(4) by (simp add: count_list_0_iff)
  then show ?thesis using run_capacity [OF assms(1-3), of t] by simp
qed

lemma run_ordered:
  assumes "inv b p" and "\<forall>c \<in> set cs. unat c \<le> b" and "b + length cs < 2 ^ 64"
  shows "slot_run_ok cs (slot_run slot cs p)"
  using assms
proof (induction cs arbitrary: p b)
  case Nil
  then show ?case by (simp add: slot_run_ok_def)
next
  case (Cons c cs)
  let ?p = "snd (slot c p)"
  have b: "Suc b < 2 ^ 64" using Cons.prems(3) by simp
  have p: "inv (Suc b) ?p" using Cons.prems slot_inv [OF Cons.prems(1) _ b, of c] by simp
  have rest: "\<forall>c \<in> set cs. unat c \<le> Suc b" "Suc b + length cs < 2 ^ 64" using Cons.prems by auto
  have "fst (slot c p) \<le> t" if "t \<in> set (slot_run slot cs ?p)" for t
    using run_free [OF p rest that] slot_passed [OF Cons.prems(1) _ b, of c t] Cons.prems(2) by (force simp: not_less [symmetric])
  moreover have "slot_run_ok cs (slot_run slot cs ?p)" by (rule Cons.IH [OF p rest])
  ultimately show ?case using slot_after [OF Cons.prems(1) b, of c] by (simp add: slot_run_ok_def)
qed

end

definition fp_inv :: "nat \<Rightarrow> port_fully_pipe \<Rightarrow> bool" where
  "fp_inv b p \<longleftrightarrow> unat (fp_lTime p) \<le> b"

definition fp_left :: "port_fully_pipe \<Rightarrow> sim_time \<Rightarrow> nat" where
  "fp_left p t = (if t < fp_lTime p then 0 else 1)"

definition np_inv :: "u16 \<Rightarrow> nat \<Rightarrow> port_fully_npipe \<Rightarrow> bool" where
  "np_inv n b p \<longleftrightarrow> 0 < n \<and> np_nUnitsMinusOne p = n - 1 \<and> np_freeUnits p \<le> n \<and> unat (np_lTime p) \<le> b"

definition np_left :: "u16 \<Rightarrow> port_fully_npipe \<Rightarrow> sim_time \<Rightarrow> nat" where
  "np_left n p t =
    (if t < np_lTime p then 0 else if t = np_lTime p then unat (np_freeUnits p) else unat n)"

lemma sim_time_succ:
  assumes "unat (t :: sim_time) \<le> b" and "Suc b < 2 ^ 64"
  shows "unat (t + 1) = Suc (unat t)" and "t < t + 1" and "u < t + 1 \<longleftrightarrow> u \<le> t"
proof -
  have "t + 1 \<noteq> 0"
  proof
    assume "t + 1 = 0"
    then have "t = - 1" by (simp add: eq_neg_iff_add_eq_0)
    then show False using assms by (simp add: unsigned_minus_1_eq_mask mask_eq_exp_minus_1)
  qed
  then show u: "unat (t + 1) = Suc (unat t)" by (rule unat_word_Suc)
  show "t < t + 1" "u < t + 1 \<longleftrightarrow> u \<le> t"
    unfolding word_less_nat_alt word_le_nat_alt u by auto
qed

interpretation fp: slot_port "\<lambda>c. fp_nextSlot c en" fp_inv fp_left
proof (unfold_locales, goal_cases)
  case (1 b p c)
  then show ?case using sim_time_succ(1) [of "fp_lTime p" b] sim_time_succ(1) [of c b]
    by (auto simp: fp_inv_def fp_nextSlot_def Let_def)
next
  case (4 b p c)
  then show ?case using sim_time_succ(2) [of "fp_lTime p" b] sim_time_succ(2) [of c b]
    by (auto simp: fp_inv_def fp_nextSlot_def Let_def fp_left_def)
next
  case (5 b p c u)
  then show ?case
    using sim_time_succ(3) [of "fp_lTime p" b u] sim_time_succ(3) [of c b u]
    by (auto simp: fp_inv_def fp_nextSlot_def Let_def fp_left_def not_le)
next
  case (6 b p c u)
  then show ?case
    using sim_time_succ(3) [of "fp_lTime p" b u] sim_time_succ(3) [of c b u]
    by (auto simp: fp_inv_def fp_nextSlot_def Let_def fp_left_def)
qed (auto simp: fp_inv_def fp_nextSlot_def Let_def fp_left_def)

lemma np_slot_cases:
  assumes "np_inv n b p" and "Suc b < 2 ^ 64"
  obtains "np_lTime p < c" "fst (np_nextSlot c en p) = c"
      "np_lTime (snd (np_nextSlot c en p)) = c" "np_freeUnits (snd (np_nextSlot c en p)) = n - 1"
  | "c \<le> np_lTime p" "0 < np_freeUnits p" "fst (np_nextSlot c en p) = np_lTime p"
      "np_lTime (snd (np_nextSlot c en p)) = np_lTime p"
      "np_freeUnits (snd (np_nextSlot c en p)) = np_freeUnits p - 1"
  | "c \<le> np_lTime p" "np_freeUnits p = 0" "fst (np_nextSlot c en p) = np_lTime p + 1"
      "np_lTime (snd (np_nextSlot c en p)) = np_lTime p + 1"
      "np_freeUnits (snd (np_nextSlot c en p)) = n - 1" "np_lTime p < np_lTime p + 1"
  using assms sim_time_succ(2) [of "np_lTime p" b]
  by (cases "np_lTime p < c"; cases "np_freeUnits p = 0")
    (auto simp: np_inv_def np_nextSlot_def Let_def not_less word_gt_0)

lemma np_minus_one: "(0 :: u16) < n \<Longrightarrow> unat (n - 1) = unat n - 1 \<and> n - 1 \<le> n \<and> 0 < unat n"
  by (simp add: unat_minus_one word_pred_le word_gt_0 unat_gt_0)

lemma np_nextSlot_unitsMinusOne [simp]:
  "np_nUnitsMinusOne (snd (np_nextSlot c en p)) = np_nUnitsMinusOne p"
  by (simp add: np_nextSlot_def Let_def)

interpretation np: slot_port "\<lambda>c. np_nextSlot c en" "np_inv n" "np_left n"
proof (unfold_locales, goal_cases)
  case (1 b p c)
  have n: "0 < n" "np_nUnitsMinusOne p = n - 1" "np_freeUnits p \<le> n" "unat (np_lTime p) \<le> b"
    using 1 by (auto simp: np_inv_def)
  from 1(1,3) show ?case
    by (cases rule: np_slot_cases [where c = c and en = en])
      (use n 1(2,3) np_minus_one [OF n(1)] sim_time_succ(1) [of "np_lTime p" b] word_pred_le order_trans
       in \<open>fastforce simp: np_inv_def\<close>)+
next
  case (2 b p b')
  then show ?case by (auto simp: np_inv_def)
next
  case (3 b p c)
  then show ?case by (cases rule: np_slot_cases [where c = c and en = en]) auto
next
  case (4 b p c)
  have n: "0 < n" using 4 by (simp add: np_inv_def)
  from 4(1,3) show ?case
    by (cases rule: np_slot_cases [where c = c and en = en])
      (use np_minus_one [OF n] in \<open>auto simp: np_left_def unat_minus_one unat_gt_0 word_gt_0\<close>)
next
  case (5 b p c u)
  have n: "0 < n" "np_freeUnits p \<le> n" using 5 by (auto simp: np_inv_def)
  from 5(1,3) show ?case
    by (cases rule: np_slot_cases [where c = c and en = en])
      (use np_minus_one [OF n(1)] n(2) in
        \<open>auto simp: np_left_def unat_minus_one word_gt_0 word_le_nat_alt [symmetric]\<close>)
next
  case (6 b p c u)
  from 6(1,3) show ?case
    by (cases rule: np_slot_cases [where c = c and en = en]) (use 6(4) in \<open>auto simp: np_left_def\<close>)
qed

section \<open>Drains\<close>

definition pq_sorted :: "port_pipe_prio \<Rightarrow> bool" where
  "pq_sorted p \<longleftrightarrow> sorted (map pr_priority (pq_queue p)) \<and> pq_granted_this_cycle p \<le> pq_nUnits p"

lemma pp_push_sorted: "sorted (map pr_priority q) \<Longrightarrow> sorted (map pr_priority (pp_push reqs q))"
  unfolding pp_push_def by (induction reqs arbitrary: q) (auto simp: sorted_insort_key)

lemma mset_insort_key: "mset (insort_key f x q) = add_mset x (mset q)"
  by (induction q) auto

lemma mset_pp_push: "mset (pp_push reqs q) = mset reqs + mset q"
  unfolding pp_push_def by (induction reqs arbitrary: q) (auto simp: mset_insort_key)

lemma pp_push_Nil [simp]: "pp_push [] q = q"
  by (simp add: pp_push_def)

lemma pp_keep_spec:
  "sorted (map pr_priority kept) \<Longrightarrow>
    sorted (map pr_priority (pp_keep kept q)) \<and>
    mset (pp_keep kept q) = mset kept + filter_mset (\<lambda>r. \<not> pr_transient r) (mset q)"
  by (induction kept q rule: pp_keep.induct) (auto simp: sorted_insort_key mset_insort_key)

text \<open>A grant loop: it stops with no unit or no request left, never exceeds the units, and
  keeps the queue in priority order.\<close>

lemma pq_grant_spec:
  assumes "pq_sorted p" and "pq_grant fire clock p w gs = (p', w', gs')"
  shows "pq_sorted p' \<and> (pq_queue p' = [] \<or> pq_granted_this_cycle p' = pq_nUnits p') \<and>
    pq_nUnits p' = pq_nUnits p \<and> pq_granted_cycle p' = pq_granted_cycle p \<and>
    unat (pq_granted_this_cycle p') + length gs = unat (pq_granted_this_cycle p) + length gs'"
  using assms
proof (induction fire clock p w gs arbitrary: rule: pq_grant.induct)
  case (1 fire clock p w gs)
  show ?case
  proof (cases "pq_queue p")
    case Nil
    then show ?thesis using "1.prems" by (auto simp: pq_grant.simps)
  next
    case (Cons req q)
    show ?thesis
    proof (cases "pq_granted_this_cycle p < pq_nUnits p")
      case True
      obtain reqs w1 where f: "fire req clock w = (reqs, w1)" by (cases "fire req clock w")
      let ?p1 = "p\<lparr>pq_avgTime := (0, pr_enable_stats req) # pq_avgTime p, pq_queue := pp_push reqs q,
                  pq_granted_this_cycle := pq_granted_this_cycle p + 1\<rparr>"
      have eq: "pq_grant fire clock ?p1 w1 (gs @ [req]) = (p', w', gs')"
        using "1.prems"(2) Cons True f by (simp add: pq_grant.simps [of _ _ p])
      have "pq_sorted ?p1"
        using "1.prems"(1) Cons True by (auto simp: pq_sorted_def pp_push_sorted word_succ_le)
      have u: "unat (pq_granted_this_cycle p + 1) = unat (pq_granted_this_cycle p) + 1"
        by (rule unat_word_succ [OF True])
      show ?thesis
        using "1.IH" [OF Cons True refl f [symmetric] refl refl] f eq \<open>pq_sorted ?p1\<close> u by auto
    next
      case False
      then show ?thesis using "1.prems" Cons by (auto simp: pq_grant.simps pq_sorted_def)
    qed
  qed
qed

text \<open>Callbacks that queue nothing on the port: the grants are the front of the queue.\<close>

lemma pq_grant_quiet:
  assumes "\<And>r c w. fst (fire r c w) = []" and "pq_granted_this_cycle p \<le> pq_nUnits p"
  shows "\<exists>p' w'. pq_grant fire clock p w gs =
      (p', w', gs @ take (unat (pq_nUnits p) - unat (pq_granted_this_cycle p)) (pq_queue p)) \<and>
    pq_queue p' = drop (unat (pq_nUnits p) - unat (pq_granted_this_cycle p)) (pq_queue p)"
  using assms(2)
proof (induction "pq_queue p" arbitrary: p w gs)
  case Nil
  then show ?case by (simp add: pq_grant.simps)
next
  case (Cons req q)
  note q = Cons.hyps(2) [symmetric]
  show ?case
  proof (cases "pq_granted_this_cycle p < pq_nUnits p")
    case True
    obtain w1 where f: "fire req clock w = ([], w1)"
      using assms(1) [of req clock w] by (cases "fire req clock w") simp
    let ?p1 = "p\<lparr>pq_queue := q, pq_avgTime := (0, pr_enable_stats req) # pq_avgTime p,
                  pq_granted_this_cycle := pq_granted_this_cycle p + 1\<rparr>"
    have u: "unat (pq_granted_this_cycle p + 1) = unat (pq_granted_this_cycle p) + 1"
      by (rule unat_word_succ [OF True])
    have d: "unat (pq_nUnits p) - unat (pq_granted_this_cycle p)
        = Suc (unat (pq_nUnits p) - unat (pq_granted_this_cycle ?p1))"
      using True u by (auto simp: word_less_nat_alt)
    have "pq_grant fire clock p w gs = pq_grant fire clock ?p1 w1 (gs @ [req])"
      using q True f by (simp add: pq_grant.simps [of _ _ p])
    moreover have "pq_granted_this_cycle ?p1 \<le> pq_nUnits ?p1" using True by (simp add: word_succ_le)
    ultimately show ?thesis
      using Cons.hyps(1) [of ?p1 w1 "gs @ [req]"] q unfolding d by simp
  next
    case False
    then have "pq_granted_this_cycle p = pq_nUnits p" using Cons.prems by simp
    then show ?thesis using False q by (simp add: pq_grant.simps)
  qed
qed

lemma pq_grant_exhausts:
  "pq_grant fire clock p w gs = (p', w', gs') \<Longrightarrow>
    (pq_queue p' = [] \<or> \<not> pq_granted_this_cycle p' < pq_nUnits p') \<and> pq_granted_cycle p' = pq_granted_cycle p"
proof (induction fire clock p w gs arbitrary: rule: pq_grant.induct)
  case (1 fire clock p w gs)
  show ?case
  proof (cases "pq_queue p = [] \<or> \<not> pq_granted_this_cycle p < pq_nUnits p")
    case True
    then show ?thesis using "1.prems" by (auto simp: pq_grant.simps [of _ _ p] split: list.splits)
  next
    case False
    then obtain req q where q: "pq_queue p = req # q" by (cases "pq_queue p") auto
    obtain reqs w1 where f: "fire req clock w = (reqs, w1)" by (cases "fire req clock w")
    have less: "pq_granted_this_cycle p < pq_nUnits p" using False by simp
    show ?thesis
      using "1.IH" [OF q less refl f [symmetric] refl] "1.prems" q less f
      by (simp add: pq_grant.simps [of _ _ p])
  qed
qed

lemma pq_drain_settles:
  assumes "pq_drain_pending fire clock p w = (p', w', gs)"
  shows "\<not> pq_has_pending clock p'"
  using pq_grant_exhausts [OF assms [unfolded pq_drain_pending_def]]
  by (auto simp: pq_has_pending_def pq_align_cycle_def)

lemma pq_align_sorted: "pq_sorted p \<Longrightarrow> pq_sorted (pq_align_cycle clock p)"
  by (simp add: pq_sorted_def pq_align_cycle_def)

section \<open>Properties\<close>

text \<open>
  C27. Whatever the clocks of its requests, a port of \<open>n\<close> pipelined units books no cycle
  before the clock of its request, books non-decreasing cycles, and never books one cycle more
  than \<open>n\<close> times.
\<close>

theorem np_slots_capacity:
  assumes "np_create c0 n = Inr p" and "unat c0 \<le> b" and "\<forall>c \<in> set cs. unat c \<le> b"
    and "b + length cs < 2 ^ 64"
  shows "slot_run_ok cs (slot_run (\<lambda>c. np_nextSlot c en) cs p) \<and>
    count_list (slot_run (\<lambda>c. np_nextSlot c en) cs p) t \<le> unat n"
proof -
  have p: "np_inv n b p" using assms(1,2) by (auto simp: np_create_def np_inv_def res_Inr_iffs)
  then have "np_left n p t \<le> unat n"
    by (auto simp: np_left_def np_inv_def word_le_nat_alt)
  then show ?thesis
    using np.run_ordered [OF p assms(3,4)] np.run_capacity [OF p assms(3,4), of en t] by simp
qed

theorem np_slots_capacity_witness:
  "\<exists>p. np_create 10 2 = Inr p \<and>
    slot_run_ok [10, 10, 10, 12] (slot_run (\<lambda>c. np_nextSlot c True) [10, 10, 10, 12] p) \<and>
    count_list (slot_run (\<lambda>c. np_nextSlot c True) [10, 10, 10, 12] p) 10 \<le> 2"
proof -
  obtain p where p: "np_create 10 2 = Inr p" by (simp add: np_create_def)
  then show ?thesis using np_slots_capacity [OF p, of 12 "[10, 10, 10, 12]" True 10] by simp
qed

lemma fp_np_run:
  assumes "np_inv 1 b p" and "fp_lTime f = np_lTime p + 1 - ucast (np_freeUnits p)"
    and "\<forall>c \<in> set cs. unat c \<le> b" and "b + length cs < 2 ^ 64"
  shows "slot_run (\<lambda>c. fp_nextSlot c en) cs f = slot_run (\<lambda>c. np_nextSlot c en) cs p"
  using assms
proof (induction cs arbitrary: p f b)
  case Nil
  then show ?case by simp
next
  case (Cons c cs)
  have b: "Suc b < 2 ^ 64" and cb: "unat c \<le> b" using Cons.prems(3,4) by auto
  have inv: "np_inv 1 (Suc b) (snd (np_nextSlot c en p))" by (rule np.slot_inv [OF Cons.prems(1) cb b])
  have "np_freeUnits p \<le> 1" using Cons.prems(1) by (simp add: np_inv_def)
  then have "unat (np_freeUnits p) \<le> 1" by (simp add: word_le_nat_alt)
  then have u: "unat (np_freeUnits p) = 0 \<or> unat (np_freeUnits p) = 1" by linarith
  have free: "np_freeUnits p = 0 \<or> np_freeUnits p = 1"
    using u by (simp add: word_unat_eq_iff)
  note L = sim_time_succ [of "np_lTime p" b]
  have lb: "unat (np_lTime p) \<le> b" using Cons.prems(1) by (simp add: np_inv_def)
  have one: "fst (fp_nextSlot c en f) = fst (np_nextSlot c en p) \<and>
    fp_lTime (snd (fp_nextSlot c en f)) =
      np_lTime (snd (np_nextSlot c en p)) + 1 - ucast (np_freeUnits (snd (np_nextSlot c en p)))"
    using Cons.prems(1) b
  proof (cases rule: np_slot_cases [where c = c and en = en])
    case 1
    have "np_lTime p + 1 \<le> c" by (rule word_succ_le [OF 1(1)])
    moreover have "fp_lTime f = np_lTime p + 1 \<or> fp_lTime f = np_lTime p"
      using Cons.prems(2) free by auto
    ultimately have "fp_lTime f < c \<or> fp_lTime f = c" using 1(1) by (auto simp: order_le_less)
    then show ?thesis using 1 by (auto simp: fp_nextSlot_def Let_def)
  next
    case 2
    then have "np_freeUnits p = 1" using free by auto
    then show ?thesis using 2 Cons.prems(2) by (auto simp: fp_nextSlot_def Let_def)
  next
    case 3
    then have "\<not> np_lTime p + 1 < c" by auto
    then show ?thesis using 3 Cons.prems(2) by (auto simp: fp_nextSlot_def Let_def)
  qed
  have "\<forall>c \<in> set cs. unat c \<le> Suc b" "Suc b + length cs < 2 ^ 64" using Cons.prems(3,4) by auto
  from Cons.IH [OF inv conjunct2 [OF one] this] show ?case using one by simp
qed

text \<open>
  The one-unit port, which keeps only the next free cycle, books the same cycles as the
  general port of one unit.
\<close>

theorem fp_is_one_unit_port:
  assumes "np_create c0 1 = Inr p" and "unat c0 \<le> b" and "\<forall>c \<in> set cs. unat c \<le> b"
    and "b + length cs < 2 ^ 64"
  shows "slot_run (\<lambda>c. fp_nextSlot c en) cs (fp_create c0) = slot_run (\<lambda>c. np_nextSlot c en) cs p"
proof -
  have "np_inv 1 b p" using assms(1,2) by (auto simp: np_create_def np_inv_def)
  moreover have "fp_lTime (fp_create c0) = np_lTime p + 1 - ucast (np_freeUnits p)"
    using assms(1) by (auto simp: np_create_def fp_create_def)
  ultimately show ?thesis using assms(3,4) by (rule fp_np_run)
qed

theorem fp_is_one_unit_port_witness:
  "\<exists>p. np_create 3 1 = Inr p \<and>
    slot_run (\<lambda>c. fp_nextSlot c True) [3, 3, 7] (fp_create 3) = slot_run (\<lambda>c. np_nextSlot c True) [3, 3, 7] p"
proof -
  obtain p where p: "np_create 3 1 = Inr p" by (simp add: np_create_def)
  then show ?thesis using fp_is_one_unit_port [OF p, of 7 "[3, 3, 7]" True] by simp
qed

text \<open>
  C28. A drain of a managed port of \<open>n\<close> units in any cycle grants at most the units that
  are left in it and ends with nothing left to do in this cycle, so that the fixed-point loop
  of the scheduler does not call it again; when the callbacks queue nothing, what it grants
  are exactly the most urgent requests.
\<close>

theorem pq_drain_grants_most_urgent:
  assumes "pq_sorted p" and "pq_drain_pending fire clock p w = (p', w', gs)"
  shows "\<not> pq_has_pending clock p' \<and> pq_sorted p' \<and>
    length gs + (if pq_granted_cycle p = clock then unat (pq_granted_this_cycle p) else 0)
      \<le> unat (pq_nUnits p) \<and>
    ((\<forall>r c w. fst (fire r c w) = []) \<longrightarrow>
      gs @ pq_queue p' = pq_queue p \<and> sorted (map pr_priority (gs @ pq_queue p')))"
proof -
  let ?a = "pq_align_cycle clock p"
  note gr = pq_grant_spec [OF pq_align_sorted [OF assms(1)] assms(2) [unfolded pq_drain_pending_def]]
  have cyc: "pq_granted_cycle ?a = clock" by (simp add: pq_align_cycle_def)
  have al: "pq_nUnits ?a = pq_nUnits p" "pq_queue ?a = pq_queue p"
    "unat (pq_granted_this_cycle ?a)
      = (if pq_granted_cycle p = clock then unat (pq_granted_this_cycle p) else 0)"
    by (simp_all add: pq_align_cycle_def)
  have "pq_granted_this_cycle p' \<le> pq_nUnits p'" using gr unfolding pq_sorted_def by blast
  then have "unat (pq_granted_this_cycle p') \<le> unat (pq_nUnits p')" by (simp only: word_le_nat_alt)
  moreover have "unat (pq_granted_this_cycle p') = unat (pq_granted_this_cycle ?a) + length gs"
    "pq_nUnits p' = pq_nUnits p" using gr al(1) by auto
  ultimately have "length gs + unat (pq_granted_this_cycle ?a) \<le> unat (pq_nUnits p)" by simp
  moreover have "\<not> pq_has_pending clock p'" using gr cyc by (auto simp: pq_has_pending_def)
  moreover have "gs @ pq_queue p' = pq_queue p" if "\<forall>r c w. fst (fire r c w) = []"
  proof -
    have "pq_granted_this_cycle ?a \<le> pq_nUnits ?a"
      using pq_align_sorted [OF assms(1)] by (simp add: pq_sorted_def)
    then show ?thesis
      using pq_grant_quiet [of fire ?a clock w "[]"] that assms(2) al
      by (auto simp: pq_drain_pending_def)
  qed
  moreover have "sorted (map pr_priority (pq_queue p))" using assms(1) by (simp add: pq_sorted_def)
  ultimately show ?thesis using conjunct1 [OF gr] al(3) by (simp del: map_append)
qed

theorem pq_drain_grants_most_urgent_witness:
  "let p = \<lparr>pq_nUnits = 1,
            pq_queue = [\<lparr>pr_priority = 4, pr_callback = 0, pr_enable_stats = True, pr_transient = False\<rparr>,
                        \<lparr>pr_priority = 9, pr_callback = 1, pr_enable_stats = True, pr_transient = True\<rparr>],
            pq_granted_this_cycle = 1, pq_granted_cycle = 6, pq_avgTime = []\<rparr>;
       (p', w', gs) = pq_drain_pending (\<lambda>r c w. ([], w + 1)) 7 p (0 :: nat)
   in gs @ pq_queue p' = pq_queue p \<and> length gs \<le> 1 \<and> \<not> pq_has_pending 7 p'"
proof -
  let ?p = "\<lparr>pq_nUnits = 1,
            pq_queue = [\<lparr>pr_priority = 4, pr_callback = 0, pr_enable_stats = True, pr_transient = False\<rparr>,
                        \<lparr>pr_priority = 9, pr_callback = 1, pr_enable_stats = True, pr_transient = True\<rparr>],
            pq_granted_this_cycle = 1, pq_granted_cycle = 6, pq_avgTime = []\<rparr>"
  obtain p' w' gs where d: "pq_drain_pending (\<lambda>r c w. ([], w + 1)) 7 ?p (0 :: nat) = (p', w', gs)"
    by (cases "pq_drain_pending (\<lambda>r c w. ([], w + 1)) 7 ?p (0 :: nat)")
  have "pq_sorted ?p" by (simp add: pq_sorted_def)
  from pq_drain_grants_most_urgent [OF this d] show ?thesis unfolding Let_def d by simp
qed

text \<open>
  A flush takes exactly the transient requests out of a managed port and leaves the
  others in priority order, in both kinds of managed ports.
\<close>

theorem pp_flush_drops_transients:
  fixes p :: port_prio and r :: port_pipe_prio
  assumes "sorted (map pr_priority (pp_queue p))" and "pq_sorted r"
  shows "mset (pp_queue (pp_flush_transient p)) = filter_mset (\<lambda>x. \<not> pr_transient x) (mset (pp_queue p)) \<and>
    sorted (map pr_priority (pp_queue (pp_flush_transient p))) \<and>
    mset (pq_queue (pq_flush_transient r)) = filter_mset (\<lambda>x. \<not> pr_transient x) (mset (pq_queue r)) \<and>
    pq_sorted (pq_flush_transient r)"
  using assms pp_keep_spec [of "[]" "pp_queue p"] pp_keep_spec [of "[]" "pq_queue r"]
  by (auto simp: pp_flush_transient_def pq_flush_transient_def pq_sorted_def)

theorem pp_flush_drops_transients_witness:
  "pp_queue (pp_flush_transient
     (pp_schedule True 3 True 1 (pp_schedule True 5 False 0 pp_create))) =
   [\<lparr>pr_priority = 5, pr_callback = 0, pr_enable_stats = True, pr_transient = False\<rparr>]"
proof -
  let ?p = "pp_schedule True 3 True 1 (pp_schedule True 5 False 0 pp_create)"
  have s: "sorted (map pr_priority (pp_queue ?p))" by (simp add: pp_schedule_def pp_create_def)
  obtain r where r: "pq_create 1 = Inr r" by (simp add: pq_create_def)
  then have "pq_sorted r" by (auto simp: pq_create_def pq_sorted_def)
  from pp_flush_drops_transients [OF s this]
  have "mset (pp_queue (pp_flush_transient ?p)) =
      {#\<lparr>pr_priority = 5, pr_callback = 0, pr_enable_stats = True, pr_transient = False\<rparr>#}"
    by (simp add: pp_schedule_def pp_create_def)
  then show ?thesis by simp
qed

text \<open>
  The drain of the unlimited managed port ends whenever the callbacks it fires queue
  nothing on it: all requests are fired, in queue order, each at the current cycle.
\<close>

theorem pp_drain_fires_all:
  assumes "\<And>r c w. fst (fire r c w) = []"
  shows "\<exists>p'. pp_drain_pending fire clock p w =
      Some (p', foldl (\<lambda>w r. snd (fire r clock w)) w (pp_queue p)) \<and> pp_queue p' = []"
proof (induction "pp_queue p" arbitrary: p w)
  case Nil
  then show ?case by (subst pp_drain_pending.simps) simp
next
  case (Cons req q)
  note q = Cons.hyps(2) [symmetric]
  obtain w1 where f: "fire req clock w = ([], w1)"
    using assms [of req clock w] by (cases "fire req clock w") simp
  let ?p1 = "p\<lparr>pp_queue := q, pp_avgTime := (0, pr_enable_stats req) # pp_avgTime p\<rparr>"
  have "pp_drain_pending fire clock p w = pp_drain_pending fire clock ?p1 w1"
    using q f by (subst pp_drain_pending.simps) simp
  then show ?case using Cons.hyps(1) [of ?p1 w1] q f by simp
qed

theorem pp_drain_fires_all_witness:
  "\<exists>p'. pp_drain_pending (\<lambda>r c w. ([], w @ [pr_callback r])) 7
      (pp_schedule True 3 True 1 (pp_schedule True 5 False 0 pp_create)) [] = Some (p', [1, 0])"
  using pp_drain_fires_all [of "\<lambda>r c w. ([], w @ [pr_callback r])" 7
      "pp_schedule True 3 True 1 (pp_schedule True 5 False 0 pp_create)" "[]"]
  by (auto simp: pp_schedule_def pp_create_def)

text \<open>
  \<open>is_busy_for(clk)\<close> answers whether the port is booked through the next \<open>clk\<close>
  cycles only once more than \<open>clk\<close> cycles have passed: before that the subtraction wraps
  and a free port says that it is busy.
\<close>

theorem fp_is_busy_for_wraps:
  assumes "unat clock + unat clk < 2 ^ 64"
  shows "(ucast clk \<le> fp_lTime p \<longrightarrow>
      (fp_is_busy_for clock clk p \<longleftrightarrow> unat clock + unat clk \<le> unat (fp_lTime p))) \<and>
    (fp_lTime p < ucast clk \<and> unat clock < 2 ^ 63 \<longrightarrow> fp_is_busy_for clock clk p)"
proof (intro conjI impI)
  let ?k = "ucast clk :: sim_time"
  have k: "unat ?k = unat clk" by (rule unat_ucast_wide) simp
  assume le: "?k \<le> fp_lTime p"
  have "unat (fp_lTime p - ?k) = unat (fp_lTime p) - unat clk" using unat_diff [OF le] k by simp
  moreover have "unat clk \<le> unat (fp_lTime p)" using le k by (simp add: word_le_nat_alt)
  ultimately show "fp_is_busy_for clock clk p \<longleftrightarrow> unat clock + unat clk \<le> unat (fp_lTime p)"
    unfolding fp_is_busy_for_def word_le_nat_alt by linarith
next
  let ?k = "ucast clk :: sim_time"
  have k: "unat ?k = unat clk" by (rule unat_ucast_wide) simp
  assume a: "fp_lTime p < ?k \<and> unat clock < 2 ^ 63"
  have lt: "unat (fp_lTime p) < unat clk" using a k by (simp add: word_less_nat_alt)
  have c16: "unat clk < 2 ^ 16" using unsigned_less [of clk, where ?'a = nat] by simp
  have "unat (fp_lTime p - ?k) = 2 ^ 64 + unat (fp_lTime p) - unat clk"
    using lt k by (simp add: unat_sub_if')
  moreover have "unat clock < 2 ^ 63" using a by blast
  ultimately show "fp_is_busy_for clock clk p"
    using c16 unfolding fp_is_busy_for_def word_le_nat_alt by simp
qed

theorem fp_is_busy_for_wraps_witness:
  "fp_is_busy_for 0 1 (fp_create 0) \<and> \<not> fp_is_busy_for 5 1 (fp_create 5)"
  using fp_is_busy_for_wraps [of 0 1 "fp_create 0"] fp_is_busy_for_wraps [of 5 1 "fp_create 5"]
  by (simp add: fp_create_def)

end
