(* ===== verification/Event_Scheduler.thy ===== *)
theory Event_Scheduler
  imports Tqueue Pool Port
begin

text \<open>
  \<open>core/callback.hpp\<close> and \<open>core/callback.cpp\<close>: the event scheduler that drives the whole
  simulation. The scheduler works on any queue with the operations of
  \<open>core/tqueue.hpp\<close>, which are its first arguments; the interpretation of
  \<open>event_queue\<close> in \<open>Tqueue\<close> gives them. What a callback does is code of other
  components: it is the argument \<open>cbs\<close>, which maps a callback and the state of the rest
  of the simulator to the schedule requests it makes and the new state. The registered
  priority-managed ports are a list of names in the state: \<open>pending\<close> and \<open>drain\<close> are the
  virtual methods \<open>has_pending\<close> and \<open>drain_pending\<close> of the port with a name, which works on
  the state of the rest of the simulator and returns the schedule requests of the callbacks it fires.
\<close>

section \<open>The scheduler\<close>

record ('q, 'w) sched =
  es_globalClock :: sim_time
  es_deadClock :: sim_time
  es_once :: bool
  es_cbQ :: 'q
  es_drain_ports :: "nat list"
  es_world :: 'w

type_synonym es_request = "nat \<times> u16"
type_synonym 'w callbacks = "nat \<Rightarrow> 'w \<Rightarrow> es_request list \<times> 'w"
type_synonym 'w port_pending = "nat \<Rightarrow> sim_time \<Rightarrow> 'w \<Rightarrow> bool"
type_synonym 'w port_drain = "nat \<Rightarrow> sim_time \<Rightarrow> 'w \<Rightarrow> es_request list \<times> 'w"
type_synonym 'q inserter = "nat \<Rightarrow> sim_time \<Rightarrow> 'q \<Rightarrow> 'q res"
type_synonym 'q taker = "sim_time \<Rightarrow> 'q \<Rightarrow> (nat option \<times> 'q) res"

definition es_schedule :: "'q inserter \<Rightarrow> u16 \<Rightarrow> nat \<Rightarrow> ('q, 'w) sched \<Rightarrow> ('q, 'w) sched res" where
  "es_schedule ins delta cb s =
    assert_res (delta \<noteq> 0)
      (bind_res (ins cb (es_globalClock s + ucast delta) (es_cbQ s)) (\<lambda>q. Inr (s\<lparr>es_cbQ := q\<rparr>)))"

definition es_scheduleAbs :: "'q inserter \<Rightarrow> sim_time \<Rightarrow> nat \<Rightarrow> ('q, 'w) sched \<Rightarrow> ('q, 'w) sched res" where
  "es_scheduleAbs ins tim cb s =
    assert_res (tim > es_globalClock s)
     (assert_res (es_globalClock s > 10000000 \<and> \<not> es_once s \<longrightarrow> tim < 2 * es_globalClock s)
       (let s = s\<lparr>es_once := False\<rparr>
        in bind_res (ins cb tim (es_cbQ s)) (\<lambda>q. Inr (s\<lparr>es_cbQ := q\<rparr>))))"

fun es_requests :: "'q inserter \<Rightarrow> es_request list \<Rightarrow> ('q, 'w) sched \<Rightarrow> ('q, 'w) sched res" where
  "es_requests ins [] s = Inr s"
| "es_requests ins ((cb, delta) # rs) s =
    bind_res (es_schedule ins delta cb s) (es_requests ins rs)"

definition es_call :: "'q inserter \<Rightarrow> 'w callbacks \<Rightarrow> nat \<Rightarrow> ('q, 'w) sched \<Rightarrow> ('q, 'w) sched res" where
  "es_call ins cbs cb s =
    (let (reqs, w) = cbs cb (es_world s) in es_requests ins reqs (s\<lparr>es_world := w\<rparr>))"

text \<open>The loop over the jobs of the cycle, with its fuel; \<open>n\<close> is \<open>cb_per_clock\<close>.\<close>

fun es_run_due ::
  "'q inserter \<Rightarrow> 'q taker \<Rightarrow> 'w callbacks \<Rightarrow> nat \<Rightarrow> u32 \<Rightarrow> bool \<Rightarrow> ('q, 'w) sched \<Rightarrow>
    (u32 \<times> bool \<times> ('q, 'w) sched) res" where
  "es_run_due ins nxt cbs 0 n progressed s = Inl Diverged"
| "es_run_due ins nxt cbs (Suc fuel) n progressed s =
    bind_res (nxt (es_globalClock s) (es_cbQ s)) (\<lambda>(r, q).
      let s = s\<lparr>es_cbQ := q\<rparr>
      in case r of
           None \<Rightarrow> Inr (n, progressed, s)
         | Some cb \<Rightarrow> bind_res (es_call ins cbs cb s) (es_run_due ins nxt cbs fuel (n + 1) True))"

text \<open>The ports that drain at the end of a cycle, in the order of their registration.\<close>

definition es_register_drain_port :: "nat \<Rightarrow> ('q, 'w) sched \<Rightarrow> ('q, 'w) sched" where
  "es_register_drain_port p s = s\<lparr>es_drain_ports := es_drain_ports s @ [p]\<rparr>"

fun es_drain_each :: "'q inserter \<Rightarrow> 'w port_drain \<Rightarrow> nat list \<Rightarrow> ('q, 'w) sched \<Rightarrow> ('q, 'w) sched res" where
  "es_drain_each ins drain [] s = Inr s"
| "es_drain_each ins drain (p # ps) s =
    (let (reqs, w) = drain p (es_globalClock s) (es_world s)
     in bind_res (es_requests ins reqs (s\<lparr>es_world := w\<rparr>)) (es_drain_each ins drain ps))"

definition es_drain_port_queues :: "'q inserter \<Rightarrow> 'w port_drain \<Rightarrow> ('q, 'w) sched \<Rightarrow> ('q, 'w) sched res" where
  "es_drain_port_queues ins drain s = es_drain_each ins drain (es_drain_ports s) s"

definition es_any_drain_port_has_pending :: "'w port_pending \<Rightarrow> ('q, 'w) sched \<Rightarrow> bool" where
  "es_any_drain_port_has_pending pending s =
    list_ex (\<lambda>p. pending p (es_globalClock s) (es_world s)) (es_drain_ports s)"

text \<open>The fixed point with the drain of the ports.\<close>

fun es_fixpoint ::
  "'q inserter \<Rightarrow> 'q taker \<Rightarrow> 'w callbacks \<Rightarrow> 'w port_pending \<Rightarrow> 'w port_drain \<Rightarrow>
    nat \<Rightarrow> u32 \<Rightarrow> ('q, 'w) sched \<Rightarrow> (u32 \<times> ('q, 'w) sched) res" where
  "es_fixpoint ins nxt cbs pending drain 0 n s = Inl Diverged"
| "es_fixpoint ins nxt cbs pending drain (Suc fuel) n s =
    bind_res (es_run_due ins nxt cbs (Suc fuel) n False s) (\<lambda>(n, progressed, s).
      if es_any_drain_port_has_pending pending s
      then bind_res (es_drain_port_queues ins drain s) (es_fixpoint ins nxt cbs pending drain fuel n)
      else if progressed then es_fixpoint ins nxt cbs pending drain fuel n s
      else Inr (n, s))"

definition es_advanceClock ::
  "'q inserter \<Rightarrow> 'q taker \<Rightarrow> 'w callbacks \<Rightarrow> 'w port_pending \<Rightarrow> 'w port_drain \<Rightarrow>
    nat \<Rightarrow> ('q, 'w) sched \<Rightarrow> ('q, 'w) sched res" where
  "es_advanceClock ins nxt cbs pending drain fuel s =
    bind_res (nxt (es_globalClock s) (es_cbQ s)) (\<lambda>(r, q).
      case r of
        Some cb \<Rightarrow> Inl Assert_failed
      | None \<Rightarrow>
          (let s = s\<lparr>es_cbQ := q, es_globalClock := es_globalClock s + 1\<rparr>
           in bind_res (es_fixpoint ins nxt cbs pending drain fuel 0 s) (\<lambda>(n, s).
                Inr (if n = 0 then s\<lparr>es_deadClock := es_deadClock s + 1\<rparr> else s))))"

definition es_reset :: "(tqueue, 'w) sched \<Rightarrow> (tqueue, 'w) sched res" where
  "es_reset s =
    assert_res (tq_empty (es_cbQ s))
      (Inr (s\<lparr>es_cbQ := tq_reset (es_cbQ s), es_globalClock := 0, es_drain_ports := []\<rparr>))"

text \<open>
  The contract of the callback objects: a running callback schedules only itself or objects
  that are free (taken from a pool), each once and never with a zero delay, and what it
  schedules is no longer free.
\<close>

definition callback_contract :: "('w \<Rightarrow> nat set) \<Rightarrow> 'w callbacks \<Rightarrow> bool" where
  "callback_contract free cbs \<longleftrightarrow>
    (\<forall>n w reqs w'. cbs n w = (reqs, w') \<longrightarrow>
      distinct (map fst reqs) \<and> fst ` set reqs \<subseteq> insert n (free w) \<and> (\<forall>r \<in> set reqs. snd r \<noteq> 0) \<and>
      free w' \<subseteq> insert n (free w) - fst ` set reqs)"

text \<open>
  The contract of the registered ports: the callbacks that a drain fires schedule free objects,
  each once and never with a zero delay, and a round over the ports that have something
  pending brings them closer to the end, which \<open>rounds\<close> measures.
\<close>

definition drain_round :: "'w port_drain \<Rightarrow> nat list \<Rightarrow> sim_time \<Rightarrow> 'w \<Rightarrow> 'w" where
  "drain_round drain ps c w = foldl (\<lambda>w p. snd (drain p c w)) w ps"

definition drain_contract ::
  "('w \<Rightarrow> nat set) \<Rightarrow> (sim_time \<Rightarrow> 'w \<Rightarrow> nat) \<Rightarrow> 'w port_pending \<Rightarrow> 'w port_drain \<Rightarrow> nat list \<Rightarrow> bool" where
  "drain_contract free rounds pending drain ps \<longleftrightarrow>
    (\<forall>p c w reqs w'. drain p c w = (reqs, w') \<longrightarrow>
      distinct (map fst reqs) \<and> fst ` set reqs \<subseteq> free w \<and> (\<forall>r \<in> set reqs. snd r \<noteq> 0) \<and>
      free w' \<subseteq> free w - fst ` set reqs) \<and>
    (\<forall>c w. (\<exists>p \<in> set ps. pending p c w) \<longrightarrow> rounds c (drain_round drain ps c w) < rounds c w)"

context event_queue
begin

lemma requests_ok:
  assumes "wf (es_cbQ s)" and "now (es_cbQ s) \<le> es_globalClock s"
    and "unat (es_globalClock s) < unat (now (es_cbQ s)) + span" and "unat (es_globalClock s) < 2 ^ 63"
    and "distinct (map fst reqs)" and "\<forall>r \<in> set reqs. snd r \<noteq> 0"
    and "\<forall>r \<in> set reqs. \<not> queued (es_cbQ s) (fst r)"
  shows "\<exists>q. es_requests ins reqs s = Inr (s\<lparr>es_cbQ := q\<rparr>) \<and> wf q \<and> now q = now (es_cbQ s) \<and>
    (\<forall>n. queued q n \<longleftrightarrow> n \<in> fst ` set reqs \<or> queued (es_cbQ s) n) \<and>
    (\<forall>n \<in> fst ` set reqs. es_globalClock s < time q n) \<and>
    (\<forall>n. n \<notin> fst ` set reqs \<longrightarrow> time q n = time (es_cbQ s) n)"
  using assms
proof (induction reqs arbitrary: s)
  case Nil
  then show ?case by (intro exI [of _ "es_cbQ s"]) simp
next
  case (Cons r reqs)
  obtain cb d where r: "r = (cb, d)" by (cases r)
  let ?c = "es_globalClock s" and ?t = "es_globalClock s + ucast d :: sim_time"
  have d: "d \<noteq> 0" "\<not> queued (es_cbQ s) cb" using Cons.prems r by auto
  have d16: "unat d < 2 ^ 16" using unsigned_less [of d, where ?'a = nat] by simp
  have dpos: "0 < unat d" using d(1) by (simp add: unat_gt_0)
  have "unat (ucast d :: sim_time) = unat d" by (rule unat_ucast_wide) simp
  then have t: "unat ?t = unat ?c + unat d"
    using Cons.prems(4) d16 by (simp add: unat_word_ariths)
  have ct: "?c < ?t" using t dpos by (simp add: word_less_nat_alt)
  have "now (es_cbQ s) \<le> ?t" using Cons.prems(2) ct by simp
  moreover have "unat ?t < unat MaxTime" using t Cons.prems(4) d16 by (simp add: MaxTime_def)
  then have "?t < MaxTime" by (simp only: word_less_nat_alt)
  moreover have "unat ?t < unat (now (es_cbQ s)) + 2 ^ 32" using t Cons.prems(3) d16 span_range(2) by simp
  ultimately obtain q where q: "ins cb ?t (es_cbQ s) = Inr q" "wf q" "now q = now (es_cbQ s)"
      "time q = (time (es_cbQ s))(cb := ?t)" "\<forall>m. queued q m \<longleftrightarrow> m = cb \<or> queued (es_cbQ s) m"
    using ins_ok [OF Cons.prems(1) d(2)] by blast
  let ?s = "s\<lparr>es_cbQ := q\<rparr>"
  have "cb \<noteq> fst r'" if "r' \<in> set reqs" for r' using Cons.prems(5) r that by (auto simp: image_iff)
  then have nq: "\<forall>r \<in> set reqs. \<not> queued (es_cbQ ?s) (fst r)"
    using q(5) Cons.prems(7) by auto
  have "wf (es_cbQ ?s)" "now (es_cbQ ?s) \<le> es_globalClock ?s"
    "unat (es_globalClock ?s) < unat (now (es_cbQ ?s)) + span" "unat (es_globalClock ?s) < 2 ^ 63"
    "distinct (map fst reqs)" "\<forall>r \<in> set reqs. snd r \<noteq> 0"
    using Cons.prems q(2,3) by simp_all
  from Cons.IH [OF this nq] obtain q' where
    q': "es_requests ins reqs ?s = Inr (s\<lparr>es_cbQ := q'\<rparr>)" "wf q'"
    "now q' = now q" "\<forall>n. queued q' n \<longleftrightarrow> n \<in> fst ` set reqs \<or> queued q n"
    "\<forall>n \<in> fst ` set reqs. ?c < time q' n" "\<forall>n. n \<notin> fst ` set reqs \<longrightarrow> time q' n = time q n"
    by (elim exE conjE) (rule that; simp)
  have "cb \<notin> fst ` set reqs" using Cons.prems(5) r by auto
  then have "time q' cb = ?t" using q'(6) q(4) by simp
  then show ?case using q q' d(1) r ct
    by (intro exI [of _ q']) (auto simp: es_schedule_def)
qed

end

section \<open>One cycle\<close>

lemma clock_below_max: "unat (c :: sim_time) < 2 ^ 63 \<Longrightarrow> c < MaxTime"
  by (simp add: MaxTime_def word_less_nat_alt)

context event_queue
begin

definition due :: "sim_time \<Rightarrow> 'q \<Rightarrow> nat set" where
  "due c q = {n. queued q n \<and> time q n = c}"

definition mid :: "('w \<Rightarrow> nat set) \<Rightarrow> ('q, 'w) sched \<Rightarrow> bool" where
  "mid free s \<longleftrightarrow> wf (es_cbQ s) \<and> now (es_cbQ s) \<le> es_globalClock s \<and>
    unat (es_globalClock s) < unat (now (es_cbQ s)) + span \<and> unat (es_globalClock s) < 2 ^ 63 \<and>
    (\<forall>n. queued (es_cbQ s) n \<longrightarrow> es_globalClock s \<le> time (es_cbQ s) n) \<and>
    (\<forall>n \<in> free (es_world s). \<not> queued (es_cbQ s) n)"

text \<open>The next job of a cycle in the middle of its drain.\<close>

lemma mid_next:
  assumes "mid free s"
  obtains (idle) q where "nxt (es_globalClock s) (es_cbQ s) = Inr (None, q)" and "due (es_globalClock s) (es_cbQ s) = {}"
      and "mid free (s\<lparr>es_cbQ := q\<rparr>)" and "now q = es_globalClock s"
      and "\<forall>n. queued q n \<longrightarrow> es_globalClock s < time q n" and "time q = time (es_cbQ s)"
      and "\<forall>n. queued q n \<longleftrightarrow> queued (es_cbQ s) n"
  | (job) n q where "nxt (es_globalClock s) (es_cbQ s) = Inr (Some n, q)"
      and "n \<in> due (es_globalClock s) (es_cbQ s)"
      and "due (es_globalClock s) q = due (es_globalClock s) (es_cbQ s) - {n}"
      and "\<forall>m \<in> due (es_globalClock s) (es_cbQ s). prio n \<le> prio m"
      and "mid free (s\<lparr>es_cbQ := q\<rparr>)" and "\<not> queued q n" and "now q = es_globalClock s"
proof -
  let ?c = "es_globalClock s"
  have m: "wf (es_cbQ s)" "now (es_cbQ s) \<le> ?c" "unat ?c < unat (now (es_cbQ s)) + span" "unat ?c < 2 ^ 63"
    "\<forall>n. queued (es_cbQ s) n \<longrightarrow> ?c \<le> time (es_cbQ s) n" "\<forall>n \<in> free (es_world s). \<not> queued (es_cbQ s) n"
    using assms by (auto simp: mid_def)
  obtain r q where r: "nxt ?c (es_cbQ s) = Inr (r, q)" "wf q" "time q = time (es_cbQ s)"
    and ans: "case r of
           None \<Rightarrow> now q = ?c \<and> (\<forall>n. queued (es_cbQ s) n \<longrightarrow> ?c < time (es_cbQ s) n) \<and>
             (\<forall>n. queued q n \<longleftrightarrow> queued (es_cbQ s) n)
         | Some n \<Rightarrow> queued (es_cbQ s) n \<and> time (es_cbQ s) n \<le> ?c \<and> now q = time (es_cbQ s) n \<and>
             (\<forall>m. queued (es_cbQ s) m \<longrightarrow> time (es_cbQ s) n < time (es_cbQ s) m \<or>
                time (es_cbQ s) n = time (es_cbQ s) m \<and> prio n \<le> prio m) \<and>
             (\<forall>m. queued q m \<longleftrightarrow> m \<noteq> n \<and> queued (es_cbQ s) m)"
    using nxt_ok [OF m(1,2) clock_below_max [OF m(4)] m(3)] by blast
  show thesis
  proof (cases r)
    case None
    show thesis
      by (rule idle [of q]) (use None r ans m span_range in \<open>auto simp: due_def mid_def\<close>)
  next
    case (Some n)
    have n: "queued (es_cbQ s) n" "time (es_cbQ s) n \<le> ?c" "now q = time (es_cbQ s) n"
      "\<forall>m. queued (es_cbQ s) m \<longrightarrow> time (es_cbQ s) n < time (es_cbQ s) m \<or>
         time (es_cbQ s) n = time (es_cbQ s) m \<and> prio n \<le> prio m"
      "\<forall>m. queued q m \<longleftrightarrow> m \<noteq> n \<and> queued (es_cbQ s) m"
      using ans Some by auto
    then have tn: "time (es_cbQ s) n = ?c" using m(5) by (simp add: order_antisym)
    show thesis
    proof (rule job [of n q])
      show "\<forall>m \<in> due ?c (es_cbQ s). prio n \<le> prio m"
        using n(4) tn by (auto simp: due_def)
      show "mid free (s\<lparr>es_cbQ := q\<rparr>)"
        using m n(3,5) tn r span_range by (auto simp: mid_def)
    qed (use r Some n tn in \<open>auto simp: due_def\<close>)
  qed
qed

lemma run_due_ok:
  assumes con: "callback_contract free cbs"
    and "mid free s" and "card (due (es_globalClock s) (es_cbQ s)) < fuel"
  shows "\<exists>ns s'. es_run_due ins nxt cbs fuel k p s = Inr (k + of_nat (length ns), p \<or> ns \<noteq> [], s') \<and>
    distinct ns \<and> set ns = due (es_globalClock s) (es_cbQ s) \<and> sorted (map prio ns) \<and>
    es_world s' = foldl (\<lambda>w n. snd (cbs n w)) (es_world s) ns \<and> mid free s' \<and>
    now (es_cbQ s') = es_globalClock s \<and> es_globalClock s' = es_globalClock s \<and>
    es_deadClock s' = es_deadClock s \<and> es_once s' = es_once s \<and> es_drain_ports s' = es_drain_ports s \<and>
    (\<forall>n. queued (es_cbQ s') n \<longrightarrow> es_globalClock s < time (es_cbQ s') n)"
  using assms(2,3)
proof (induction fuel arbitrary: k p s)
  case 0
  then show ?case by simp
next
  case (Suc fuel)
  let ?c = "es_globalClock s"
  from Suc.prems(1) show ?case
  proof (cases rule: mid_next)
    case (idle q)
    then show ?thesis
      by (intro exI [of _ "[]"] exI [of _ "s\<lparr>es_cbQ := q\<rparr>"]) (auto simp: due_def)
  next
    case (job n q)
    let ?s = "s\<lparr>es_cbQ := q\<rparr>"
    obtain reqs w where cb: "cbs n (es_world s) = (reqs, w)" by (cases "cbs n (es_world s)")
    have rq: "distinct (map fst reqs)" "fst ` set reqs \<subseteq> insert n (free (es_world s))"
      "\<forall>r \<in> set reqs. snd r \<noteq> 0" "free w \<subseteq> insert n (free (es_world s)) - fst ` set reqs"
      using con cb unfolding callback_contract_def by blast+
    have ms: "wf q" "now q \<le> ?c" "unat ?c < unat (now q) + span" "unat ?c < 2 ^ 63"
      "\<forall>n. queued q n \<longrightarrow> ?c \<le> time q n" "\<forall>n \<in> free (es_world s). \<not> queued q n"
      using job(5) by (auto simp: mid_def)
    have "\<forall>r \<in> set reqs. \<not> queued q (fst r)" using rq(2) ms(6) job(6) by auto
    then obtain q' where q': "es_requests ins reqs (s\<lparr>es_cbQ := q, es_world := w\<rparr>) = Inr (s\<lparr>es_world := w, es_cbQ := q'\<rparr>)"
      "wf q'" "now q' = now q" "\<forall>n. queued q' n \<longleftrightarrow> n \<in> fst ` set reqs \<or> queued q n"
      "\<forall>n \<in> fst ` set reqs. ?c < time q' n" "\<forall>n. n \<notin> fst ` set reqs \<longrightarrow> time q' n = time q n"
      using requests_ok [of "s\<lparr>es_cbQ := q, es_world := w\<rparr>" reqs] ms rq by auto
    let ?s' = "s\<lparr>es_world := w, es_cbQ := q'\<rparr>"
    have old: "time q' m = time q m" if "queued q m" for m
      using \<open>\<forall>r \<in> set reqs. \<not> queued q (fst r)\<close> that q'(6) by (metis image_iff)
    have later: "if m \<in> fst ` set reqs then ?c < time q' m else time q' m = time q m \<and> ?c \<le> time q m"
      if "queued q' m" for m
      using that q'(4,5) ms(5) old by auto
    then have "?c \<le> time q' m" if "queued q' m" for m
      using later [OF that] by (cases "m \<in> fst ` set reqs") auto
    then have "mid free ?s'"
      using ms q' rq(4) job(6) unfolding mid_def by auto
    moreover have "due ?c q' = due ?c q"
    proof -
      have "m \<in> due ?c q' \<longleftrightarrow> m \<in> due ?c q" for m
        using later [of m] old [of m] q'(4) \<open>\<forall>r \<in> set reqs. \<not> queued q (fst r)\<close>
        by (cases "m \<in> fst ` set reqs") (auto simp: due_def)
      then show ?thesis by blast
    qed
    moreover have fin: "finite (due ?c (es_cbQ s))"
      using Suc.prems(1) finite_queued [of "es_cbQ s"] by (simp add: due_def mid_def)
    then have "card (due ?c q) < fuel"
      using Suc.prems(2) job(2,3) card_Suc_Diff1 [OF fin job(2)] by simp
    ultimately obtain ns s' where IH:
      "es_run_due ins nxt cbs fuel (k + 1) True ?s' = Inr (k + 1 + of_nat (length ns), True, s')"
      "distinct ns" "set ns = due ?c q" "sorted (map prio ns)"
      "es_world s' = foldl (\<lambda>w n. snd (cbs n w)) w ns" "mid free s'"
      "now (es_cbQ s') = ?c" "es_globalClock s' = ?c"
      "es_deadClock s' = es_deadClock s" "es_once s' = es_once s" "es_drain_ports s' = es_drain_ports s"
      "\<forall>n. queued (es_cbQ s') n \<longrightarrow> ?c < time (es_cbQ s') n"
      using Suc.IH [of ?s' "k + 1" True] by auto
    have "es_run_due ins nxt cbs (Suc fuel) k p s = Inr (k + of_nat (length (n # ns)), p \<or> n # ns \<noteq> [], s')"
      using job(1) cb q'(1) IH(1) by (simp add: es_call_def ac_simps)
    moreover have "set (n # ns) = due ?c (es_cbQ s)" "distinct (n # ns)" using IH(2,3) job(2,3) by auto
    moreover have "sorted (map prio (n # ns))" using IH(3,4) job(3,4) by auto
    moreover have "es_world s' = foldl (\<lambda>w n. snd (cbs n w)) (es_world s) (n # ns)" using IH(5) cb by simp
    ultimately show ?thesis using IH(6-) by blast
  qed
qed

end

context event_queue
begin

definition quiet :: "('w \<Rightarrow> nat set) \<Rightarrow> ('q, 'w) sched \<Rightarrow> bool" where
  "quiet free s \<longleftrightarrow> mid free s \<and> now (es_cbQ s) = es_globalClock s \<and>
    (\<forall>n. queued (es_cbQ s) n \<longrightarrow> es_globalClock s < time (es_cbQ s) n)"

text \<open>The drain of the ports leaves every job in the future.\<close>

lemma drain_each_ok:
  assumes con: "drain_contract free rounds pending drain ps" and "quiet free s"
  shows "\<exists>q. es_drain_each ins drain qs s =
      Inr (s\<lparr>es_cbQ := q, es_world := drain_round drain qs (es_globalClock s) (es_world s)\<rparr>) \<and>
    quiet free (s\<lparr>es_cbQ := q, es_world := drain_round drain qs (es_globalClock s) (es_world s)\<rparr>)"
  using assms(2)
proof (induction qs arbitrary: s)
  case Nil
  then show ?case by (intro exI [of _ "es_cbQ s"]) (simp add: drain_round_def)
next
  case (Cons p qs)
  let ?c = "es_globalClock s"
  obtain reqs w where d: "drain p ?c (es_world s) = (reqs, w)" by (cases "drain p ?c (es_world s)")
  have rq: "distinct (map fst reqs)" "fst ` set reqs \<subseteq> free (es_world s)"
    "\<forall>r \<in> set reqs. snd r \<noteq> 0" "free w \<subseteq> free (es_world s) - fst ` set reqs"
    using con d unfolding drain_contract_def by blast+
  have ms: "wf (es_cbQ s)" "now (es_cbQ s) = ?c" "unat ?c < 2 ^ 63"
    "\<forall>n. queued (es_cbQ s) n \<longrightarrow> ?c < time (es_cbQ s) n" "\<forall>n \<in> free (es_world s). \<not> queued (es_cbQ s) n"
    using Cons.prems by (auto simp: quiet_def mid_def)
  have nq: "\<forall>r \<in> set reqs. \<not> queued (es_cbQ s) (fst r)" using rq(2) ms(5) by auto
  then obtain q where q: "es_requests ins reqs (s\<lparr>es_world := w\<rparr>) = Inr (s\<lparr>es_world := w, es_cbQ := q\<rparr>)"
    "wf q" "now q = ?c" "\<forall>n. queued q n \<longleftrightarrow> n \<in> fst ` set reqs \<or> queued (es_cbQ s) n"
    "\<forall>n \<in> fst ` set reqs. ?c < time q n" "\<forall>n. n \<notin> fst ` set reqs \<longrightarrow> time q n = time (es_cbQ s) n"
    using requests_ok [of "s\<lparr>es_world := w\<rparr>" reqs] ms rq span_range by auto
  have "?c < time q n" if "queued q n" for n
    using that q(4-6) ms(4) by (cases "n \<in> fst ` set reqs") auto
  then have "quiet free (s\<lparr>es_world := w, es_cbQ := q\<rparr>)"
    using q(2-4) rq(4) ms span_range unfolding quiet_def mid_def by (auto simp: less_imp_le)
  from Cons.IH [OF this] show ?case using d q(1) by (simp add: drain_round_def)
qed

lemma run_due_more_fuel:
  "es_run_due ins nxt cbs fuel n p s = Inr r \<Longrightarrow> fuel \<le> fuel' \<Longrightarrow> es_run_due ins nxt cbs fuel' n p s = Inr r"
proof (induction fuel arbitrary: fuel' n p s)
  case 0
  then show ?case by simp
next
  case (Suc fuel)
  then obtain f where f: "fuel' = Suc f" "fuel \<le> f" by (cases fuel') auto
  obtain x q where x: "nxt (es_globalClock s) (es_cbQ s) = Inr (x, q)"
    using Suc.prems(1) by (auto simp: bind_res_Inr_iff)
  from Suc.prems(1) show ?case
    by (cases x) (auto simp: f(1) x bind_res_Inr_iff Let_def dest: Suc.IH [OF _ f(2)])
qed

text \<open>A cycle in which no job is due any more ends when no port has anything pending.\<close>

lemma fixpoint_quiet:
  assumes con: "callback_contract free cbs" and dcon: "drain_contract free rounds pending drain (es_drain_ports s)"
    and "quiet free s"
  shows "\<exists>k s'. (\<forall>fuel > k. es_fixpoint ins nxt cbs pending drain fuel n s = Inr (n, s')) \<and>
    k \<le> rounds (es_globalClock s) (es_world s) \<and>
    es_world s' = (drain_round drain (es_drain_ports s) (es_globalClock s) ^^ k) (es_world s) \<and>
    (\<forall>i < k. \<exists>p \<in> set (es_drain_ports s). pending p (es_globalClock s)
      ((drain_round drain (es_drain_ports s) (es_globalClock s) ^^ i) (es_world s))) \<and>
    \<not> (\<exists>p \<in> set (es_drain_ports s). pending p (es_globalClock s) (es_world s')) \<and>
    quiet free s' \<and> es_globalClock s' = es_globalClock s \<and> es_deadClock s' = es_deadClock s \<and>
    es_drain_ports s' = es_drain_ports s"
  using assms(2,3)
proof (induction "rounds (es_globalClock s) (es_world s)" arbitrary: s rule: less_induct)
  case less
  let ?c = "es_globalClock s" and ?ps = "es_drain_ports s"
  let ?R = "drain_round drain ?ps ?c"
  have mid: "mid free s" and none: "due ?c (es_cbQ s) = {}"
    using less.prems(2) by (auto simp: quiet_def due_def)
  obtain s3 where s3: "es_run_due ins nxt cbs 1 n False s = Inr (n, False, s3)" "es_world s3 = es_world s"
      "quiet free s3" "es_globalClock s3 = ?c" "es_deadClock s3 = es_deadClock s" "es_drain_ports s3 = ?ps"
    using run_due_ok [OF con mid, of 1 n False] none by (auto simp: quiet_def)
  have same: "es_run_due ins nxt cbs (Suc f) n False s = Inr (n, False, s3)" for f
    by (rule run_due_more_fuel [OF s3(1)]) simp
  show ?case
  proof (cases "es_any_drain_port_has_pending pending s3")
    case False
    then have np: "\<not> (\<exists>p \<in> set ?ps. pending p ?c (es_world s3))"
      using s3 by (simp add: es_any_drain_port_has_pending_def list_ex_iff)
    have "es_fixpoint ins nxt cbs pending drain fuel n s = Inr (n, s3)" if "fuel > 0" for fuel
      using that same False by (cases fuel) (simp_all del: es_run_due.simps)
    then show ?thesis using np s3 by (intro exI [of _ 0] exI [of _ s3]) simp
  next
    case True
    then have pend: "\<exists>p \<in> set ?ps. pending p ?c (es_world s)"
      using s3 by (simp add: es_any_drain_port_has_pending_def list_ex_iff)
    obtain q where q: "es_drain_port_queues ins drain s3 = Inr (s3\<lparr>es_cbQ := q, es_world := ?R (es_world s)\<rparr>)"
      "quiet free (s3\<lparr>es_cbQ := q, es_world := ?R (es_world s)\<rparr>)"
      using drain_each_ok [OF less.prems(1) s3(3), of ?ps] s3 by (auto simp: es_drain_port_queues_def)
    let ?s = "s3\<lparr>es_cbQ := q, es_world := ?R (es_world s)\<rparr>"
    have dec: "rounds ?c (?R (es_world s)) < rounds ?c (es_world s)"
      using less.prems(1) pend unfolding drain_contract_def by blast
    have "rounds (es_globalClock ?s) (es_world ?s) < rounds ?c (es_world s)" using dec s3 by simp
    from less.hyps [OF this] less.prems(1) q(2) s3 obtain k s' where IH:
      "\<forall>fuel > k. es_fixpoint ins nxt cbs pending drain fuel n ?s = Inr (n, s')"
      "k \<le> rounds ?c (?R (es_world s))" "es_world s' = (?R ^^ k) (?R (es_world s))"
      "\<forall>i < k. \<exists>p \<in> set ?ps. pending p ?c ((?R ^^ i) (?R (es_world s)))"
      "\<not> (\<exists>p \<in> set ?ps. pending p ?c (es_world s'))"
      "quiet free s'" "es_globalClock s' = ?c" "es_deadClock s' = es_deadClock s" "es_drain_ports s' = ?ps"
      by auto
    have "es_fixpoint ins nxt cbs pending drain fuel n s = Inr (n, s')" if "fuel > Suc k" for fuel
      using that same True q(1) IH(1) by (cases fuel) (simp_all del: es_run_due.simps)
    moreover have "\<forall>i < Suc k. \<exists>p \<in> set ?ps. pending p ?c ((?R ^^ i) (es_world s))"
      using pend IH(4) by (auto simp: less_Suc_eq_0_disj funpow_swap1)
    ultimately show ?thesis using IH(2,3,5-) dec
      by (intro exI [of _ "Suc k"] exI [of _ s']) (auto simp: funpow_swap1)
  qed
qed

text \<open>The whole cycle.\<close>

lemma advance_ok:
  assumes con: "callback_contract free cbs"
    and dcon: "drain_contract free rounds pending drain (es_drain_ports s)"
    and qs: "quiet free s" and bound: "unat (es_globalClock s) + 1 < 2 ^ 63"
  shows "\<exists>ns k s'. (\<forall>fuel > length ns + k + 1.
      es_advanceClock ins nxt cbs pending drain fuel s = Inr s') \<and>
    es_globalClock s' = es_globalClock s + 1 \<and> distinct ns \<and>
    set ns = due (es_globalClock s + 1) (es_cbQ s) \<and> sorted (map prio ns) \<and>
    (let w = foldl (\<lambda>w n. snd (cbs n w)) (es_world s) ns;
         R = drain_round drain (es_drain_ports s) (es_globalClock s + 1)
     in es_world s' = (R ^^ k) w \<and> k \<le> rounds (es_globalClock s + 1) w \<and>
        (\<forall>i < k. \<exists>p \<in> set (es_drain_ports s). pending p (es_globalClock s + 1) ((R ^^ i) w))) \<and>
    \<not> (\<exists>p \<in> set (es_drain_ports s). pending p (es_globalClock s + 1) (es_world s')) \<and>
    es_deadClock s' = (if (of_nat (length ns) :: u32) = 0 then es_deadClock s + 1 else es_deadClock s) \<and>
    es_drain_ports s' = es_drain_ports s \<and> quiet free s'"
proof -
  let ?c = "es_globalClock s" and ?c1 = "es_globalClock s + 1" and ?ps = "es_drain_ports s"
  let ?R = "drain_round drain ?ps ?c1" and ?D = "due (es_globalClock s + 1) (es_cbQ s)"
  have u1: "unat ?c1 = unat ?c + 1" using bound by (simp add: unat_word_ariths)
  have mid: "mid free s" and none: "due ?c (es_cbQ s) = {}" using qs by (auto simp: quiet_def due_def)
  from mid obtain q where q: "nxt ?c (es_cbQ s) = Inr (None, q)" "mid free (s\<lparr>es_cbQ := q\<rparr>)"
      "now q = ?c" "\<forall>n. queued q n \<longrightarrow> ?c < time q n" "time q = time (es_cbQ s)"
      "\<forall>n. queued q n \<longleftrightarrow> queued (es_cbQ s) n"
    by (cases rule: mid_next) (use none in auto)
  let ?s1 = "s\<lparr>es_cbQ := q, es_globalClock := ?c1\<rparr>"
  have due1: "due ?c1 q = ?D" using q(5,6) by (simp add: due_def)
  have "?c1 \<le> time q n" if "queued q n" for n using q(4) that word_succ_le by blast
  then have mid1: "mid free ?s1"
    using q(2,3) u1 bound span_range by (auto simp: mid_def word_le_nat_alt)
  obtain ns s2 where r2:
      "es_run_due ins nxt cbs (Suc (card ?D)) 0 False ?s1 = Inr (of_nat (length ns), ns \<noteq> [], s2)"
      "distinct ns" "set ns = ?D" "sorted (map prio ns)"
      "es_world s2 = foldl (\<lambda>w n. snd (cbs n w)) (es_world s) ns" "quiet free s2"
      "es_globalClock s2 = ?c1" "es_deadClock s2 = es_deadClock s" "es_drain_ports s2 = ?ps"
    using run_due_ok [OF con mid1, of "Suc (card ?D)" 0 False] due1 by (auto simp: quiet_def)
  have same: "es_run_due ins nxt cbs (Suc f) 0 False ?s1 = Inr (of_nat (length ns), ns \<noteq> [], s2)"
    if "card ?D \<le> f" for f
    by (rule run_due_more_fuel [OF r2(1)]) (use that in simp)
  let ?w = "es_world s2" and ?n = "of_nat (length ns) :: u32"
  obtain k s' where fp: "\<forall>fuel > card ?D + k + 1. es_fixpoint ins nxt cbs pending drain fuel 0 ?s1 = Inr (?n, s')"
      "k \<le> rounds ?c1 ?w" "es_world s' = (?R ^^ k) ?w"
      "\<forall>i < k. \<exists>p \<in> set ?ps. pending p ?c1 ((?R ^^ i) ?w)"
      "\<not> (\<exists>p \<in> set ?ps. pending p ?c1 (es_world s'))"
      "quiet free s'" "es_globalClock s' = ?c1" "es_deadClock s' = es_deadClock s" "es_drain_ports s' = ?ps"
  proof (cases "es_any_drain_port_has_pending pending s2")
    case True
    then have pend: "\<exists>p \<in> set ?ps. pending p ?c1 ?w"
      using r2 by (simp add: es_any_drain_port_has_pending_def list_ex_iff)
    obtain q where q: "es_drain_port_queues ins drain s2 = Inr (s2\<lparr>es_cbQ := q, es_world := ?R ?w\<rparr>)"
      "quiet free (s2\<lparr>es_cbQ := q, es_world := ?R ?w\<rparr>)"
      using drain_each_ok [OF dcon r2(6), of ?ps] r2 by (auto simp: es_drain_port_queues_def)
    let ?s3 = "s2\<lparr>es_cbQ := q, es_world := ?R ?w\<rparr>"
    have dec: "rounds ?c1 (?R ?w) < rounds ?c1 ?w" using dcon pend unfolding drain_contract_def by blast
    have "drain_contract free rounds pending drain (es_drain_ports ?s3)" using dcon r2 by simp
    from fixpoint_quiet [OF con this q(2), of ?n] r2 obtain k s' where IH:
      "\<forall>fuel > k. es_fixpoint ins nxt cbs pending drain fuel ?n ?s3 = Inr (?n, s')"
      "k \<le> rounds ?c1 (?R ?w)" "es_world s' = (?R ^^ k) (?R ?w)"
      "\<forall>i < k. \<exists>p \<in> set ?ps. pending p ?c1 ((?R ^^ i) (?R ?w))"
      "\<not> (\<exists>p \<in> set ?ps. pending p ?c1 (es_world s'))"
      "quiet free s'" "es_globalClock s' = ?c1" "es_deadClock s' = es_deadClock s" "es_drain_ports s' = ?ps"
      by auto
    have "es_fixpoint ins nxt cbs pending drain fuel 0 ?s1 = Inr (?n, s')" if "fuel > card ?D + Suc k + 1" for fuel
      using that same True q(1) IH(1) by (cases fuel) (simp_all del: es_run_due.simps)
    moreover have "\<forall>i < Suc k. \<exists>p \<in> set ?ps. pending p ?c1 ((?R ^^ i) ?w)"
      using pend IH(4) by (auto simp: less_Suc_eq_0_disj funpow_swap1)
    ultimately show thesis using IH(2,3,5-) dec
      by (intro that [of "Suc k" s']) (auto simp: funpow_swap1)
  next
    case False
    note idle = this
    then have np: "\<not> (\<exists>p \<in> set ?ps. pending p ?c1 ?w)"
      using r2 by (simp add: es_any_drain_port_has_pending_def list_ex_iff)
    have "drain_contract free rounds pending drain (es_drain_ports s2)" using dcon r2 by simp
    from fixpoint_quiet [OF con this r2(6), of ?n] r2 obtain k s' where IH:
      "\<forall>fuel > k. es_fixpoint ins nxt cbs pending drain fuel ?n s2 = Inr (?n, s')"
      "k \<le> rounds ?c1 ?w" "es_world s' = (?R ^^ k) ?w"
      "\<forall>i < k. \<exists>p \<in> set ?ps. pending p ?c1 ((?R ^^ i) ?w)"
      "\<not> (\<exists>p \<in> set ?ps. pending p ?c1 (es_world s'))"
      "quiet free s'" "es_globalClock s' = ?c1" "es_deadClock s' = es_deadClock s" "es_drain_ports s' = ?ps"
      by auto
    have k: "k = 0" using IH(4) np by (cases k) auto
    show thesis
    proof (cases "ns = []")
      case True
      have "es_fixpoint ins nxt cbs pending drain fuel 0 ?s1 = Inr (?n, s2)" if "fuel > card ?D + 0 + 1" for fuel
        using that same idle True by (cases fuel) (simp_all del: es_run_due.simps)
      then show thesis using np r2 by (intro that [of 0 s2]) simp_all
    next
      case False
      have "es_fixpoint ins nxt cbs pending drain fuel 0 ?s1 = Inr (?n, s')" if "fuel > card ?D + k + 1" for fuel
        using that same idle False IH(1) by (cases fuel) (simp_all del: es_run_due.simps)
      then show thesis using IH(2-) by (intro that [of k s']) simp_all
    qed
  qed
  let ?s' = "if ?n = 0 then s'\<lparr>es_deadClock := es_deadClock s' + 1\<rparr> else s'"
  have "es_advanceClock ins nxt cbs pending drain fuel s = Inr ?s'" if "fuel > card ?D + k + 1" for fuel
    using q(1) fp(1) that by (simp add: es_advanceClock_def)
  moreover have "quiet free ?s'" using fp(6) span_range by (auto simp: quiet_def mid_def)
  moreover have "card ?D = length ns" using distinct_card [OF r2(2)] r2(3) by simp
  ultimately show ?thesis
    using r2(2-5) fp(2-5,7-) by (intro exI [of _ ns] exI [of _ k] exI [of _ ?s']) simp
qed

end

section \<open>Properties of the scheduler\<close>

text \<open>The queue of the scheduler, \<open>cbQ(256)\<close>.\<close>

interpretation cbq: event_queue "tq_wf 8 pr" tq_minTime tq_queued nd_time pr 256 tq_insert tq_nextJob
  using tq.event_queue_axioms [of 8 pr] by simp

text \<open>A scheduler between two cycles: everything queued is in the future.\<close>

definition es_settled :: "(nat \<Rightarrow> u64) \<Rightarrow> ('w \<Rightarrow> nat set) \<Rightarrow> (tqueue, 'w) sched \<Rightarrow> bool" where
  "es_settled pr free s \<longleftrightarrow> tq_wf 8 pr (es_cbQ s) \<and> tq_minTime (es_cbQ s) = es_globalClock s \<and>
    (\<forall>n. tq_queued (es_cbQ s) n \<longrightarrow> es_globalClock s < nd_time (es_cbQ s) n) \<and>
    (\<forall>n \<in> free (es_world s). \<not> tq_queued (es_cbQ s) n)"

text \<open>
  C3. From a state between two cycles whose clock is below \<open>2 ^ 63 - 1\<close>, \<open>advanceClock\<close> moves the clock
  by one and runs every callback scheduled for the new cycle exactly once, in priority order, and no
  other; then it drains the registered ports round after round, exactly as long as one of them has
  something pending, and ends with none. The contract of the parts it calls: a callback schedules only itself or
  free objects, a callback fired by a port only free objects, each once and with a delay that is not
  zero, and a round over ports with something pending brings them nearer to the end of the cycle. The
  jobs that callbacks and ports schedule are all for later cycles: afterwards the scheduler is
  between two cycles again. The dead clock has advanced when no job was due. The loops end
  with fuel for the due jobs, the rounds and two more calls of \<open>nextJob\<close>.
\<close>

theorem es_advance_runs_due:
  assumes "es_settled pr free s" and "callback_contract free cbs"
    and "drain_contract free rounds pending drain (es_drain_ports s)"
    and "unat (es_globalClock s) + 1 < 2 ^ 63"
  shows "\<exists>ns k s'. (\<forall>fuel > length ns + k + 1.
      es_advanceClock tq_insert tq_nextJob cbs pending drain fuel s = Inr s') \<and>
    es_globalClock s' = es_globalClock s + 1 \<and> distinct ns \<and>
    set ns = {n. tq_queued (es_cbQ s) n \<and> nd_time (es_cbQ s) n = es_globalClock s + 1} \<and>
    sorted (map pr ns) \<and>
    (let w = foldl (\<lambda>w n. snd (cbs n w)) (es_world s) ns;
         R = drain_round drain (es_drain_ports s) (es_globalClock s + 1)
     in es_world s' = (R ^^ k) w \<and> k \<le> rounds (es_globalClock s + 1) w \<and>
        (\<forall>i < k. \<exists>p \<in> set (es_drain_ports s). pending p (es_globalClock s + 1) ((R ^^ i) w))) \<and>
    \<not> (\<exists>p \<in> set (es_drain_ports s). pending p (es_globalClock s + 1) (es_world s')) \<and>
    es_deadClock s' = (if (of_nat (length ns) :: u32) = 0 then es_deadClock s + 1 else es_deadClock s) \<and>
    es_drain_ports s' = es_drain_ports s \<and> es_settled pr free s'"
proof -
  have settled: "es_settled pr free t" if "cbq.quiet pr free t" for t
    using that by (simp add: es_settled_def cbq.quiet_def cbq.mid_def)
  have "cbq.quiet pr free s"
    using assms(1,4) by (auto simp: es_settled_def cbq.quiet_def cbq.mid_def intro: less_imp_le)
  note adv = cbq.advance_ok [OF assms(2,3) this assms(4), unfolded cbq.due_def]
  show ?thesis
    by (rule exE [OF adv], elim exE conjE, intro exI conjI) (assumption | erule settled)+
qed

text \<open>
  A port of one unit and a callback that queues a request on it: the request is granted in the
  same cycle.
\<close>

definition es_pipe_pending :: "(port_pipe_prio \<times> nat list) port_pending" where
  "es_pipe_pending p c w \<longleftrightarrow> pq_has_pending c (fst w)"

definition es_pipe_drain :: "(port_pipe_prio \<times> nat list) port_drain" where
  "es_pipe_drain p c w =
    (let (q, l, gs) = pq_drain_pending (\<lambda>r c l. ([], l @ [pr_callback r])) c (fst w) (snd w) in ([], q, l))"

definition es_pipe_rounds :: "sim_time \<Rightarrow> port_pipe_prio \<times> nat list \<Rightarrow> nat" where
  "es_pipe_rounds c w = (if pq_has_pending c (fst w) then 1 else 0)"

definition es_pipe_callbacks :: "(port_pipe_prio \<times> nat list) callbacks" where
  "es_pipe_callbacks n w = ([], pq_schedule True 5 False (n + 1) (fst w), snd w @ [n])"

lemma es_pipe_contract:
  "drain_contract (\<lambda>_. {}) es_pipe_rounds es_pipe_pending es_pipe_drain [0]"
  by (auto simp: drain_contract_def drain_round_def es_pipe_rounds_def es_pipe_pending_def es_pipe_drain_def
      split: prod.splits dest: pq_drain_settles)

theorem es_advance_runs_due_witness:
  "\<exists>q q1 p p' s'. tq_create 256 (\<lambda>_. 0) = Inr q \<and> tq_insert 7 1 q = Inr q1 \<and> pq_create 1 = Inr p \<and>
    es_advanceClock tq_insert tq_nextJob es_pipe_callbacks es_pipe_pending es_pipe_drain 4
      \<lparr>es_globalClock = 0, es_deadClock = 0, es_once = True, es_cbQ = q1, es_drain_ports = [0],
       es_world = (p, [])\<rparr> = Inr s' \<and>
    es_world s' = (p', [7, 8]) \<and> pq_queue p' = [] \<and> es_globalClock s' = 1 \<and> es_deadClock s' = 0"
proof -
  obtain q where q: "tq_create 256 (\<lambda>_. 0) = Inr q" by (simp add: tq_create_def)
  note c = tq_create_inv [OF q]
  obtain k where k: "tq_inv k q" using c(1) by blast
  have "(2 :: nat) ^ k = 2 ^ 8" using k c(5) tq_shape_size [of k q] by (simp add: tq_inv_def)
  then have "k = 8" by (rule power_inject_exp [THEN iffD1, rotated]) simp
  with k c(2) have wf: "tq_wf 8 (\<lambda>_. 0) q" by (simp add: tq_wf_def)
  have "(1 :: u64) < MaxTime" by (rule clock_below_max) simp
  then obtain q1 where q1: "tq_insert 7 1 q = Inr q1" "tq_wf 8 (\<lambda>_. 0) q1" "tq_minTime q1 = 0"
      "nd_time q1 = (nd_time q)(7 := 1)" "\<forall>m. tq_queued q1 m \<longleftrightarrow> m = 7"
    using cbq.ins_ok [OF wf, of 7 1] c(3,4) by auto
  let ?p = "\<lparr>pq_nUnits = 1, pq_queue = [], pq_granted_this_cycle = 0, pq_granted_cycle = 0, pq_avgTime = []\<rparr>"
  have p: "pq_create 1 = Inr ?p" by (simp add: pq_create_def)
  let ?s = "\<lparr>es_globalClock = 0, es_deadClock = 0, es_once = True, es_cbQ = q1, es_drain_ports = [0],
    es_world = (?p, [])\<rparr>"
  let ?w = "es_pipe_callbacks 7 (?p, [])" and ?R = "drain_round es_pipe_drain [0] 1"
  have set: "es_settled (\<lambda>_. 0) (\<lambda>_. {}) ?s" using q1 by (simp add: es_settled_def)
  have con: "callback_contract (\<lambda>_. {}) es_pipe_callbacks"
    by (simp add: callback_contract_def es_pipe_callbacks_def)
  have dc: "drain_contract (\<lambda>_. {}) es_pipe_rounds es_pipe_pending es_pipe_drain (es_drain_ports ?s)"
    using es_pipe_contract by simp
  have due: "{n. tq_queued q1 n \<and> nd_time q1 n = 1} = {7}" using q1(4,5) by auto
  obtain ns k s' where r: "\<forall>fuel > length ns + k + 1.
      es_advanceClock tq_insert tq_nextJob es_pipe_callbacks es_pipe_pending es_pipe_drain fuel ?s = Inr s'"
      "es_globalClock s' = 1" "distinct ns" "set ns = {7}"
      "es_world s' = (?R ^^ k) (foldl (\<lambda>w n. snd (es_pipe_callbacks n w)) (?p, []) ns)"
      "k \<le> es_pipe_rounds 1 (foldl (\<lambda>w n. snd (es_pipe_callbacks n w)) (?p, []) ns)"
      "\<not> es_pipe_pending 0 1 (es_world s')"
      "es_deadClock s' = (if (of_nat (length ns) :: u32) = 0 then 1 else 0)"
    using es_advance_runs_due [OF set con dc] due by (auto simp: Let_def)
  have "length ns = 1" using r(3,4) distinct_card [of ns] by simp
  then have ns: "ns = [7]" using r(4) by (cases ns) auto
  let ?req = "\<lparr>pr_priority = 5, pr_callback = 8, pr_enable_stats = True, pr_transient = False\<rparr>"
  have w: "snd (es_pipe_callbacks 7 (?p, [])) = (?p\<lparr>pq_queue := [?req]\<rparr>, [7])"
    by (simp add: es_pipe_callbacks_def pq_schedule_def)
  have R: "?R (?p\<lparr>pq_queue := [?req]\<rparr>, [7]) = (\<lparr>pq_nUnits = 1, pq_queue = [], pq_granted_this_cycle = 1,
      pq_granted_cycle = 1, pq_avgTime = [(0, True)]\<rparr>, [7, 8])"
    by (simp add: drain_round_def es_pipe_drain_def pq_drain_pending_def pq_align_cycle_def pq_grant.simps pp_push_def)
  have "k = 1" using r(5-7) w by (cases k) (auto simp: ns es_pipe_rounds_def es_pipe_pending_def pq_has_pending_def split: if_splits)
  then show ?thesis using q q1(1) p r(1,2,5,8) w R by (simp add: ns)
qed

end
