(* ===== verification/Callbacks.thy ===== *)
theory Callbacks
  imports Event_Scheduler
begin

text \<open>
  \<open>core/callback.hpp\<close>: the pooled callback objects (\<open>CallbackFunction3\<close>, the class the
  other arities and the member versions repeat with fewer parameters or an instance pointer),
  the static callbacks (\<open>StaticCallbackMember2\<close>) with their debug flag, and the callback
  container. The function a callback calls is the argument \<open>f\<close>, a change of the state of
  the rest of the simulator. The facts: a scheduled callback is called with the parameters it
  was created with and then returned to its pool, whatever is created in between; a static
  callback cannot be scheduled twice; the container runs its callbacks in priority order, and
  a bounded run ends even when callbacks add themselves again; \<open>callNext\<close> and
  \<open>makeEmpty\<close> leave the container inconsistent.
\<close>

section \<open>Pooled callbacks\<close>

record 'p cbf =
  cf_pool :: pool
  cf_param :: "nat \<Rightarrow> 'p"
  cf_priority_set :: "nat \<Rightarrow> bool"

type_synonym ('w, 'p) cbf_state = "(tqueue, 'w) sched \<times> 'p cbf"

definition cbf_resetPriority :: "nat \<Rightarrow> ('w, 'p) cbf_state \<Rightarrow> ('w, 'p) cbf_state" where
  "cbf_resetPriority cb = (\<lambda>(s, c).
    (s\<lparr>es_cbQ := (es_cbQ s)\<lparr>nd_priority := (nd_priority (es_cbQ s))(cb := 0)\<rparr>\<rparr>,
     c\<lparr>cf_priority_set := (cf_priority_set c)(cb := False)\<rparr>))"

definition cbf_initPriority :: "nat \<Rightarrow> sim_time \<Rightarrow> ('w, 'p) cbf_state \<Rightarrow> ('w, 'p) cbf_state res" where
  "cbf_initPriority cb p = (\<lambda>(s, c).
    assert_res (\<not> cf_priority_set c cb)
      (Inr (s\<lparr>es_cbQ := (es_cbQ s)\<lparr>nd_priority := (nd_priority (es_cbQ s))(cb := p)\<rparr>\<rparr>,
            c\<lparr>cf_priority_set := (cf_priority_set c)(cb := True)\<rparr>)))"

definition cbf_create ::
  "nat \<Rightarrow> 'p1 \<Rightarrow> 'p2 \<Rightarrow> 'p3 \<Rightarrow> sim_time \<Rightarrow> ('w, 'p1 \<times> 'p2 \<times> 'p3) cbf_state \<Rightarrow>
    (nat \<times> ('w, 'p1 \<times> 'p2 \<times> 'p3) cbf_state) res" where
  "cbf_create self a1 a2 a3 priority = (\<lambda>(s, c).
    bind_res (pool_out self (cf_pool c)) (\<lambda>(cb, pool).
      bind_res (cbf_initPriority cb priority (cbf_resetPriority cb (s, c\<lparr>cf_pool := pool\<rparr>))) (\<lambda>(s, c).
        Inr (cb, s, c\<lparr>cf_param := (cf_param c)(cb := (a1, a2, a3))\<rparr>))))"

definition cbf_schedule ::
  "nat \<Rightarrow> ('p1 \<Rightarrow> 'p2 \<Rightarrow> 'p3 \<Rightarrow> 'w \<Rightarrow> 'w) \<Rightarrow> u16 \<Rightarrow> 'p1 \<Rightarrow> 'p2 \<Rightarrow> 'p3 \<Rightarrow> sim_time \<Rightarrow>
    ('w, 'p1 \<times> 'p2 \<times> 'p3) cbf_state \<Rightarrow> ('w, 'p1 \<times> 'p2 \<times> 'p3) cbf_state res" where
  "cbf_schedule self f delta a1 a2 a3 priority = (\<lambda>(s, c).
    if delta = 0 then Inr (s\<lparr>es_world := f a1 a2 a3 (es_world s)\<rparr>, c)
    else bind_res (cbf_create self a1 a2 a3 priority (s, c)) (\<lambda>(cb, s, c).
      bind_res (es_schedule tq_insert delta cb s) (\<lambda>s. Inr (s, c))))"

definition cbf_scheduleAbs ::
  "nat \<Rightarrow> ('p1 \<Rightarrow> 'p2 \<Rightarrow> 'p3 \<Rightarrow> 'w \<Rightarrow> 'w) \<Rightarrow> sim_time \<Rightarrow> 'p1 \<Rightarrow> 'p2 \<Rightarrow> 'p3 \<Rightarrow> sim_time \<Rightarrow>
    ('w, 'p1 \<times> 'p2 \<times> 'p3) cbf_state \<Rightarrow> ('w, 'p1 \<times> 'p2 \<times> 'p3) cbf_state res" where
  "cbf_scheduleAbs self f tim a1 a2 a3 priority = (\<lambda>(s, c).
    assert_res (tim \<ge> es_globalClock s)
     (if tim = es_globalClock s then Inr (s\<lparr>es_world := f a1 a2 a3 (es_world s)\<rparr>, c)
      else bind_res (cbf_create self a1 a2 a3 priority (s, c)) (\<lambda>(cb, s, c).
        bind_res (es_scheduleAbs tq_insert tim cb s) (\<lambda>s. Inr (s, c)))))"

definition cbf_destroy :: "nat \<Rightarrow> nat \<Rightarrow> ('w, 'p) cbf_state \<Rightarrow> ('w, 'p) cbf_state res" where
  "cbf_destroy self cb = (\<lambda>(s, c).
    bind_res (pool_in self cb (cf_pool c)) (\<lambda>pool. Inr (s, c\<lparr>cf_pool := pool\<rparr>)))"

definition cbf_call ::
  "nat \<Rightarrow> ('p1 \<Rightarrow> 'p2 \<Rightarrow> 'p3 \<Rightarrow> 'w \<Rightarrow> 'w) \<Rightarrow> nat \<Rightarrow> ('w, 'p1 \<times> 'p2 \<times> 'p3) cbf_state \<Rightarrow>
    ('w, 'p1 \<times> 'p2 \<times> 'p3) cbf_state res" where
  "cbf_call self f cb = (\<lambda>(s, c).
    let (p1, p2, p3) = cf_param c cb
    in cbf_destroy self cb (s\<lparr>es_world := f p1 p2 p3 (es_world s)\<rparr>, c))"

section \<open>Static callbacks\<close>

record ('p1, 'p2) static_cb =
  scb_this :: nat
  scb_isFree :: bool
  scb_p1 :: 'p1
  scb_p2 :: 'p2

definition scb_schedule ::
  "'q inserter \<Rightarrow> ('p1 \<Rightarrow> 'p2 \<Rightarrow> 'w \<Rightarrow> 'w) \<Rightarrow> u16 \<Rightarrow> 'p1 \<Rightarrow> 'p2 \<Rightarrow> ('p1, 'p2) static_cb \<times> ('q, 'w) sched \<Rightarrow>
    (('p1, 'p2) static_cb \<times> ('q, 'w) sched) res" where
  "scb_schedule ins f delta a1 a2 = (\<lambda>(b, s).
    assert_res (scb_isFree b)
     (if delta = 0 then Inr (b, s\<lparr>es_world := f a1 a2 (es_world s)\<rparr>)
      else (let b = b\<lparr>scb_p1 := a1, scb_p2 := a2, scb_isFree := False\<rparr>
            in bind_res (es_schedule ins delta (scb_this b) s) (\<lambda>s. Inr (b, s)))))"

definition scb_scheduleAbs ::
  "'q inserter \<Rightarrow> ('p1 \<Rightarrow> 'p2 \<Rightarrow> 'w \<Rightarrow> 'w) \<Rightarrow> sim_time \<Rightarrow> 'p1 \<Rightarrow> 'p2 \<Rightarrow> ('p1, 'p2) static_cb \<times> ('q, 'w) sched \<Rightarrow>
    (('p1, 'p2) static_cb \<times> ('q, 'w) sched) res" where
  "scb_scheduleAbs ins f tim a1 a2 = (\<lambda>(b, s).
    assert_res (scb_isFree b)
     (if tim = es_globalClock s then Inr (b, s\<lparr>es_world := f a1 a2 (es_world s)\<rparr>)
      else (let b = b\<lparr>scb_p1 := a1, scb_p2 := a2, scb_isFree := False\<rparr>
            in bind_res (es_scheduleAbs ins tim (scb_this b) s) (\<lambda>s. Inr (b, s)))))"

definition scb_call ::
  "('p1 \<Rightarrow> 'p2 \<Rightarrow> 'w \<Rightarrow> 'w) \<Rightarrow> ('p1, 'p2) static_cb \<times> ('q, 'w) sched \<Rightarrow>
    ('p1, 'p2) static_cb \<times> ('q, 'w) sched" where
  "scb_call f = (\<lambda>(b, s).
    (b\<lparr>scb_isFree := True\<rparr>, s\<lparr>es_world := f (scb_p1 b) (scb_p2 b) (es_world s)\<rparr>))"

section \<open>The callback container\<close>

record container =
  cc_first :: "nat option"
  cc_last :: "nat option"
  cc_size :: u64
  cc_next :: "nat \<Rightarrow> nat option"
  cc_priority :: "nat \<Rightarrow> u64"

definition cc_create :: "(nat \<Rightarrow> u64) \<Rightarrow> container" where
  "cc_create pr = \<lparr>cc_first = None, cc_last = None, cc_size = 0, cc_next = (\<lambda>_. None), cc_priority = pr\<rparr>"

definition cc_setNext :: "nat \<Rightarrow> nat option \<Rightarrow> container \<Rightarrow> container" where
  "cc_setNext n p c = c\<lparr>cc_next := (cc_next c)(n := p)\<rparr>"

definition cc_add :: "nat \<Rightarrow> container \<Rightarrow> container res" where
  "cc_add n c =
    assert_res (cc_next c n = None)
     (let c = cc_setNext n None c;
          grow = (\<lambda>c. Inr (c\<lparr>cc_size := cc_size c + 1\<rparr>))
      in case cc_last c of
           None \<Rightarrow> grow (c\<lparr>cc_first := Some n, cc_last := Some n\<rparr>)
         | Some l \<Rightarrow>
             if cc_priority c l \<le> cc_priority c n
             then grow ((cc_setNext l (Some n) c)\<lparr>cc_last := Some n\<rparr>)
             else (case tq_scan (cc_next c) (cc_priority c) (cc_priority c n) None (cc_first c) of
                     None \<Rightarrow> Inl Diverged
                   | Some (prev, cur) \<Rightarrow>
                       (let c' = (case prev of
                                    None \<Rightarrow> (cc_setNext n (cc_first c) c)\<lparr>cc_first := Some n\<rparr>
                                  | Some p \<Rightarrow> cc_setNext n cur (cc_setNext p (Some n) c))
                        in grow (if cur = None then c'\<lparr>cc_last := Some n\<rparr> else c'))))"

fun cc_add_all :: "nat list \<Rightarrow> container \<Rightarrow> container res" where
  "cc_add_all [] c = Inr c"
| "cc_add_all (n # ns) c = bind_res (cc_add n c) (cc_add_all ns)"

text \<open>Taking the first callback out, the common part of the three calls.\<close>

definition cc_pop :: "nat \<Rightarrow> container \<Rightarrow> container" where
  "cc_pop cb c =
    (let c = c\<lparr>cc_first := cc_next c cb\<rparr>;
         c = cc_setNext cb None c
     in if cc_first c = None then c\<lparr>cc_last := None\<rparr> else c)"

text \<open>
  A running callback may add callbacks to the container: \<open>run\<close> gives the ones it adds.
  The do-while loops have fuel for their iterations.
\<close>

fun cc_call_loop :: "(nat \<Rightarrow> 'w \<Rightarrow> nat list \<times> 'w) \<Rightarrow> nat \<Rightarrow> container \<Rightarrow> 'w \<Rightarrow> (container \<times> 'w) res" where
  "cc_call_loop run 0 c w = Inl Diverged"
| "cc_call_loop run (Suc fuel) c w =
    deref (cc_first c) (\<lambda>cb.
      let c = cc_pop cb c; (adds, w) = run cb w
      in bind_res (cc_add_all adds c) (\<lambda>c.
           let c = c\<lparr>cc_size := cc_size c - 1\<rparr>
           in if cc_first c \<noteq> None then cc_call_loop run fuel c w else Inr (c, w)))"

definition cc_call :: "(nat \<Rightarrow> 'w \<Rightarrow> nat list \<times> 'w) \<Rightarrow> nat \<Rightarrow> container \<Rightarrow> 'w \<Rightarrow> (container \<times> 'w) res" where
  "cc_call run fuel c w = (if cc_first c = None then Inr (c, w) else cc_call_loop run fuel c w)"

fun cc_mycall_loop ::
  "(nat \<Rightarrow> 'w \<Rightarrow> nat list \<times> 'w) \<Rightarrow> nat \<Rightarrow> u64 \<Rightarrow> container \<Rightarrow> 'w \<Rightarrow> (container \<times> 'w) res" where
  "cc_mycall_loop run 0 mysize c w = Inl Diverged"
| "cc_mycall_loop run (Suc fuel) mysize c w =
    deref (cc_first c) (\<lambda>cb.
      let c = cc_pop cb c; (adds, w) = run cb w
      in bind_res (cc_add_all adds c) (\<lambda>c.
           let c = c\<lparr>cc_size := cc_size c - 1\<rparr>; mysize = mysize - 1
           in if cc_first c \<noteq> None \<and> mysize > 0 then cc_mycall_loop run fuel mysize c w
              else Inr (c, w)))"

definition cc_mycall :: "(nat \<Rightarrow> 'w \<Rightarrow> nat list \<times> 'w) \<Rightarrow> nat \<Rightarrow> container \<Rightarrow> 'w \<Rightarrow> (container \<times> 'w) res" where
  "cc_mycall run fuel c w =
    (if cc_first c = None then Inr (c, w) else cc_mycall_loop run fuel (cc_size c) c w)"

definition cc_callNext :: "(nat \<Rightarrow> 'w \<Rightarrow> nat list \<times> 'w) \<Rightarrow> container \<Rightarrow> 'w \<Rightarrow> (container \<times> 'w) res" where
  "cc_callNext run c w =
    (case cc_first c of
       None \<Rightarrow> Inr (c, w)
     | Some cb \<Rightarrow>
         (let c = cc_pop cb c; (adds, w) = run cb w
          in bind_res (cc_add_all adds c) (\<lambda>c. Inr (c, w))))"

definition cc_empty :: "container \<Rightarrow> bool" where
  "cc_empty c \<longleftrightarrow> cc_first c = None"

definition cc_makeEmpty :: "container \<Rightarrow> container" where
  "cc_makeEmpty c = c\<lparr>cc_first := None\<rparr>"

section \<open>Correctness of the pooled callbacks\<close>

lemma tq_inv_set_priority:
  assumes inv: "tq_inv k q" and n: "\<not> tq_queued q n"
  shows "tq_inv k (q\<lparr>nd_priority := (nd_priority q)(n := p)\<rparr>)"
proof -
  let ?q = "q\<lparr>nd_priority := (nd_priority q)(n := p)\<rparr>"
  obtain B where shape: "tq_shape k q" and near: "tq_near_ok B q" and far: "tq_far_ok q"
    using inv by (auto simp: tq_inv_def)
  have slot: "tq_slot ?q = tq_slot q" "tq_window ?q = tq_window q" using tq_slot_cong [of ?q q] by simp_all
  have nin: "n \<notin> set (B t)" for t using tq_near_not_queued [OF near] n by (simp add: tq_queued_def)
  have "tq_bucket_ok ?q t (B t)" if "t \<in> tq_window q" for t
  proof -
    have "tq_bucket_ok q t (B t)" using near that by (simp add: tq_near_ok_def)
    moreover have "map ((nd_priority q)(n := p)) (B t) = map (nd_priority q) (B t)"
      using nin [of t] by (intro map_cong) auto
    ultimately show ?thesis by (simp add: tq_bucket_ok_def slot del: fun_upd_apply map_eq_conv)
  qed
  moreover have "tq_count_ok ?q = tq_count_ok q" by (rule tq_count_cong) simp_all
  ultimately have "tq_near_ok B ?q" using near by (simp add: tq_near_ok_def slot)
  moreover have "tq_shape k ?q" "tq_far_ok ?q" using shape far by (simp_all add: tq_shape_def tq_far_ok_def cong: list.case_cong)
  ultimately show ?thesis by (auto simp: tq_inv_def)
qed

lemma cbf_create_ok:
  assumes pool: "pool_inv self (cf_pool c)" and inv: "tq_inv k (es_cbQ s)"
    and idle: "\<And>cb. cb \<notin> pool_in_use (cf_pool c) \<Longrightarrow> \<not> tq_queued (es_cbQ s) cb"
  obtains cb q c' where "cbf_create self a1 a2 a3 pri (s, c) = Inr (cb, s\<lparr>es_cbQ := q\<rparr>, c')"
    and "pool_inv self (cf_pool c')" and "cb \<notin> pool_in_use (cf_pool c)"
    and "pool_in_use (cf_pool c') = insert cb (pool_in_use (cf_pool c))"
    and "cf_param c' = (cf_param c)(cb := (a1, a2, a3))"
    and "q = (es_cbQ s)\<lparr>nd_priority := (nd_priority (es_cbQ s))(cb := pri)\<rparr>" and "tq_inv k q"
proof -
  obtain cb p' where out: "pool_out self (cf_pool c) = Inr (cb, p')" "pool_inv self p'"
      "cb \<notin> pool_in_use (cf_pool c)" "pool_in_use p' = insert cb (pool_in_use (cf_pool c))"
    using pl.take_ok [OF pool] by blast
  let ?q = "(es_cbQ s)\<lparr>nd_priority := (nd_priority (es_cbQ s))(cb := pri)\<rparr>"
  let ?c = "c\<lparr>cf_pool := p', cf_priority_set := (cf_priority_set c)(cb := True),
    cf_param := (cf_param c)(cb := (a1, a2, a3))\<rparr>"
  have "tq_inv k ?q" by (rule tq_inv_set_priority [OF inv idle [OF out(3)]])
  moreover have "cbf_create self a1 a2 a3 pri (s, c) = Inr (cb, s\<lparr>es_cbQ := ?q\<rparr>, ?c)"
    using out(1) by (simp add: cbf_create_def cbf_resetPriority_def cbf_initPriority_def)
  ultimately show thesis using that [of cb ?q ?c] out by simp
qed

text \<open>
  \<open>schedule\<close> with a positive delay takes an object that was not in use from the pool
  and queues it \<open>delta\<close> cycles ahead with the given priority; whatever else is created
  until then, as long as the object stays in use, its call runs the function on exactly the
  parameters it was created with and gives it back. The parameters of the objects that were in
  use are not touched.
\<close>

theorem cbf_schedule_call:
  assumes "pool_inv self (cf_pool c)" and "tq_inv k (es_cbQ s)"
    and "\<And>cb. cb \<notin> pool_in_use (cf_pool c) \<Longrightarrow> \<not> tq_queued (es_cbQ s) cb"
    and "tq_minTime (es_cbQ s) \<le> es_globalClock s"
    and "unat (es_globalClock s) < unat (tq_minTime (es_cbQ s)) + 2 ^ k"
    and "unat (es_globalClock s) < 2 ^ 63" and "delta \<noteq> 0"
  shows "\<exists>cb s' c'. cbf_schedule self f delta a1 a2 a3 pri (s, c) = Inr (s', c') \<and>
    cb \<notin> pool_in_use (cf_pool c) \<and> pool_in_use (cf_pool c') = insert cb (pool_in_use (cf_pool c)) \<and>
    tq_queued (es_cbQ s') cb \<and> es_globalClock s < nd_time (es_cbQ s') cb \<and>
    nd_priority (es_cbQ s') cb = pri \<and> es_world s' = es_world s \<and>
    (\<forall>o' \<in> pool_in_use (cf_pool c). cf_param c' o' = cf_param c o') \<and>
    (\<forall>s2 c2. pool_inv self (cf_pool c2) \<and> cb \<in> pool_in_use (cf_pool c2) \<and> cf_param c2 cb = cf_param c' cb \<longrightarrow>
      (\<exists>c3. cbf_call self f cb (s2, c2) = Inr (s2\<lparr>es_world := f a1 a2 a3 (es_world s2)\<rparr>, c3) \<and>
        pool_in_use (cf_pool c3) = pool_in_use (cf_pool c2) - {cb}))"
proof -
  obtain cb q c' where cr: "cbf_create self a1 a2 a3 pri (s, c) = Inr (cb, s\<lparr>es_cbQ := q\<rparr>, c')"
      "pool_inv self (cf_pool c')" "cb \<notin> pool_in_use (cf_pool c)"
      "pool_in_use (cf_pool c') = insert cb (pool_in_use (cf_pool c))"
      "cf_param c' = (cf_param c)(cb := (a1, a2, a3))"
      "q = (es_cbQ s)\<lparr>nd_priority := (nd_priority (es_cbQ s))(cb := pri)\<rparr>" "tq_inv k q"
    by (rule cbf_create_ok [OF assms(1-3)]) (auto simp: fun_eq_iff)
  have wf: "tq_wf k (nd_priority q) q" using cr(7) by (simp add: tq_wf_def)
  have k: "3 \<le> k" "k \<le> 31" using cr(7) by (auto simp: tq_inv_def tq_shape_def)
  have nq: "\<not> tq_queued q cb" using assms(3) [OF cr(3)] by (simp add: cr(6) tq_queued_def)
  let ?s = "s\<lparr>es_cbQ := q\<rparr>"
  have "\<exists>q'. es_requests tq_insert [(cb, delta)] ?s = Inr (?s\<lparr>es_cbQ := q'\<rparr>) \<and> tq_wf k (nd_priority q) q' \<and>
      tq_minTime q' = tq_minTime (es_cbQ ?s) \<and>
      (\<forall>n. tq_queued q' n \<longleftrightarrow> n \<in> fst ` set [(cb, delta)] \<or> tq_queued (es_cbQ ?s) n) \<and>
      (\<forall>n \<in> fst ` set [(cb, delta)]. es_globalClock ?s < nd_time q' n) \<and>
      (\<forall>n. n \<notin> fst ` set [(cb, delta)] \<longrightarrow> nd_time q' n = nd_time (es_cbQ ?s) n)"
    by (rule tq.requests_ok [of k "nd_priority q"]) (use wf assms(4-7) k nq in \<open>simp_all add: cr(6)\<close>)
  then obtain q' where q': "es_schedule tq_insert delta cb ?s = Inr (s\<lparr>es_cbQ := q'\<rparr>)"
      "tq_wf k (nd_priority q) q'" "tq_queued q' cb" "es_globalClock s < nd_time q' cb"
    by (auto simp: bind_res_Inr_iff)
  have "\<exists>c3. cbf_call self f cb (s2, c2) = Inr (s2\<lparr>es_world := f a1 a2 a3 (es_world s2)\<rparr>, c3) \<and>
      pool_in_use (cf_pool c3) = pool_in_use (cf_pool c2) - {cb}"
    if "pool_inv self (cf_pool c2)" "cb \<in> pool_in_use (cf_pool c2)" "cf_param c2 cb = cf_param c' cb" for s2 c2
  proof -
    note h = that
    obtain p where "pool_in self cb (cf_pool c2) = Inr p" "pool_in_use p = pool_in_use (cf_pool c2) - {cb}"
      using pl.give_ok [OF h(1,2)] by blast
    then show ?thesis using h(3) cr(5)
      by (simp add: cbf_call_def cbf_destroy_def)
  qed
  moreover have "cbf_schedule self f delta a1 a2 a3 pri (s, c) = Inr (s\<lparr>es_cbQ := q'\<rparr>, c')"
    using assms(7) cr(1) q'(1) by (simp add: cbf_schedule_def)
  moreover have "nd_priority q' cb = pri" using q'(2) cr(6) by (simp add: tq_wf_def)
  moreover have "\<forall>o' \<in> pool_in_use (cf_pool c). cf_param c' o' = cf_param c o'" using cr(3,5) by auto
  ultimately show ?thesis using q'(3,4) cr(3,4)
    by (intro exI [of _ cb] exI [of _ "s\<lparr>es_cbQ := q'\<rparr>"] exI [of _ c']) simp
qed

theorem cbf_schedule_call_witness:
  "\<exists>pool q s' c' cb. pool_create 2 = Inr pool \<and> tq_create 256 (\<lambda>_. 0) = Inr q \<and>
    cbf_schedule 1 (\<lambda>x y z w. w + x) 3 (5 :: nat) True () 9
      (\<lparr>es_globalClock = 0, es_deadClock = 0, es_once = True, es_cbQ = q, es_drain_ports = [], es_world = (0 :: nat)\<rparr>,
       \<lparr>cf_pool = pool, cf_param = (\<lambda>_. (0, False, ())), cf_priority_set = (\<lambda>_. False)\<rparr>) = Inr (s', c') \<and>
    nd_priority (es_cbQ s') cb = 9 \<and> tq_queued (es_cbQ s') cb"
proof -
  obtain pool where p: "pool_create 2 = Inr pool" "pool_inv 1 pool" "pool_in_use pool = {}"
    using pool_create_inv [of 2 1] by auto
  obtain q where q: "tq_create 256 (\<lambda>_. 0) = Inr q" by (simp add: tq_create_def)
  note c = tq_create_inv [OF q]
  obtain k where k: "tq_inv k q" using c(1) by blast
  let ?s = "\<lparr>es_globalClock = 0, es_deadClock = 0, es_once = True, es_cbQ = q, es_drain_ports = [], es_world = (0 :: nat)\<rparr>"
  let ?c = "\<lparr>cf_pool = pool, cf_param = (\<lambda>_. (0, False, ())), cf_priority_set = (\<lambda>_. False)\<rparr>"
  have "\<exists>cb s' c'. cbf_schedule 1 (\<lambda>x y z w. w + x) 3 (5 :: nat) True () 9 (?s, ?c) = Inr (s', c') \<and>
      tq_queued (es_cbQ s') cb \<and> nd_priority (es_cbQ s') cb = 9"
    using cbf_schedule_call [of 1 ?c k ?s 3 "\<lambda>x y z w. w + x" 5 True "()" 9] p(2) k c(3,4)
    by auto
  then show ?thesis using p(1) q by blast
qed

text \<open>
  A static callback that was scheduled with a positive delay refuses any other
  \<open>schedule\<close> or \<open>scheduleAbs\<close> until it is called; the call runs the function on the
  scheduled parameters and frees it.
\<close>

theorem scb_exclusive:
  assumes "scb_schedule ins f delta a1 a2 (b, s) = Inr (b', s')" and "delta \<noteq> 0"
  shows "scb_schedule ins f d x1 x2 (b', t) = Inl Assert_failed \<and>
    scb_scheduleAbs ins f tim x1 x2 (b', t) = Inl Assert_failed \<and>
    scb_call f (b', t) = (b'\<lparr>scb_isFree := True\<rparr>, t\<lparr>es_world := f a1 a2 (es_world t)\<rparr>) \<and>
    scb_this b' = scb_this b \<and> es_world s' = es_world s"
  using assms
  by (auto simp: scb_schedule_def scb_scheduleAbs_def scb_call_def es_schedule_def Let_def res_Inr_iffs)

theorem scb_exclusive_witness:
  "\<exists>b' s'. scb_schedule (\<lambda>n t q. Inr (q @ [(n, t)])) (\<lambda>x y w. w + x + y) 2 3 (4 :: nat)
      (\<lparr>scb_this = 1, scb_isFree = True, scb_p1 = 0, scb_p2 = 0\<rparr>,
       \<lparr>es_globalClock = 5, es_deadClock = 0, es_once = True, es_cbQ = [], es_drain_ports = [], es_world = 0\<rparr>) = Inr (b', s') \<and>
    es_cbQ s' = [(1, 7)] \<and>
    scb_schedule (\<lambda>n t q. Inr (q @ [(n, t)])) (\<lambda>x y w. w + x + y) 1 0 0 (b', s') = Inl Assert_failed"
proof -
  let ?f = "\<lambda>x y w. w + x + y" and ?ins = "\<lambda>n t q. Inr (q @ [(n, t)])"
  let ?b = "\<lparr>scb_this = 1, scb_isFree = True, scb_p1 = 0, scb_p2 = 0\<rparr>"
  let ?s = "\<lparr>es_globalClock = 5, es_deadClock = 0, es_once = True, es_cbQ = [], es_drain_ports = [], es_world = 0\<rparr>"
  obtain b' s' where r: "scb_schedule ?ins ?f 2 3 (4 :: nat) (?b, ?s) = Inr (b', s')" "es_cbQ s' = [(1, 7)]"
    by (simp add: scb_schedule_def es_schedule_def)
  then show ?thesis using scb_exclusive [OF r(1)] by auto
qed

section \<open>Correctness of the container\<close>

text \<open>The container holds the chain \<open>xs\<close>, in priority order; its size may be off while a
  callback runs.\<close>

definition cc_holds :: "nat list \<Rightarrow> container \<Rightarrow> bool" where
  "cc_holds xs c \<longleftrightarrow> chain (cc_next c) (cc_first c) xs \<and> distinct xs \<and>
    sorted (map (cc_priority c) xs) \<and>
    cc_last c = (if xs = [] then None else Some (last xs)) \<and>
    (\<forall>n. n \<notin> set xs \<longrightarrow> cc_next c n = None)"

definition cc_ok :: "nat list \<Rightarrow> container \<Rightarrow> bool" where
  "cc_ok xs c \<longleftrightarrow> cc_holds xs c \<and> cc_size c = of_nat (length xs)"

lemma length_tq_place [simp]: "length (tq_place pr n xs) = Suc (length xs)"
proof -
  have "length xs = length (takeWhile (\<lambda>m. pr m \<le> pr n) xs) + length (dropWhile (\<lambda>m. pr m \<le> pr n) xs)"
    by (metis length_append takeWhile_dropWhile_id)
  then show ?thesis by (simp add: tq_place_def)
qed

lemma cc_add_ok:
  assumes ok: "cc_holds xs c" and n: "n \<notin> set xs"
  shows "\<exists>c'. cc_add n c = Inr c' \<and> cc_holds (tq_place (cc_priority c) n xs) c' \<and> cc_priority c' = cc_priority c \<and>
    cc_size c' = cc_size c + 1"
proof -
  have ch: "chain (cc_next c) (cc_first c) xs" and d: "distinct xs" and srt: "sorted (map (cc_priority c) xs)"
    and lst: "cc_last c = (if xs = [] then None else Some (last xs))"
    and free: "\<forall>m. m \<notin> set xs \<longrightarrow> cc_next c m = None"
    using ok by (auto simp: cc_holds_def)
  have nn: "cc_next c n = None" using free n by simp
  then have id: "(cc_next c)(n := None) = cc_next c" by auto
  let ?pr = "cc_priority c" and ?ys = "tq_place (cc_priority c) n xs"
  have srt': "sorted (map ?pr ?ys)" "distinct ?ys" "set ?ys = insert n (set xs)"
    using srt d n by (simp_all add: sorted_tq_place distinct_tq_place)
  show ?thesis
  proof (cases xs rule: rev_cases)
    case Nil
    then show ?thesis using nn ch free lst
      by (auto simp: cc_add_def Let_def cc_setNext_def cc_holds_def tq_place_def id)
  next
    case (snoc as l)
    show ?thesis
    proof (cases "?pr l \<le> ?pr n")
      case True
      then have pl: "?ys = as @ [l, n]" using tq_place_last [OF srt] snoc by simp
      have "chain ((cc_next c)(l := Some n, n := None)) (cc_first c) (as @ [l, n])"
        using ch d n snoc by (intro chain_append_last) auto
      moreover have "(cc_next c)(l := Some n, n := None) = (cc_next c)(l := Some n)"
        using nn snoc n by (auto simp: fun_eq_iff)
      ultimately show ?thesis using True nn snoc lst srt' pl free
        by (auto simp: cc_add_def Let_def cc_setNext_def cc_holds_def id)
    next
      case False
      then obtain h where h: "cc_first c = Some h" using ch snoc by (cases "cc_first c") auto
      obtain prev cur where scan: "tq_scan (cc_next c) ?pr (?pr n) None (Some h) = Some (prev, cur)"
        using ch h by (simp add: tq_scan_chain)
      note pl = chain_place [OF ch [unfolded h] d n scan]
      have "last ?ys = (if cur = None then n else l)" using pl(4) snoc by simp
      moreover have "?ys \<noteq> []" by (simp add: tq_place_def)
      ultimately show ?thesis
        using False nn snoc lst srt' free h scan pl(1,3)
        by (auto simp: cc_add_def Let_def cc_setNext_def cc_holds_def id split: option.splits)
    qed
  qed
qed

lemma cc_pop_ok:
  assumes "cc_holds xs c" and "cc_first c = Some x"
  obtains ys where "xs = x # ys" and "cc_holds ys (cc_pop x c)"
    and "cc_size (cc_pop x c) = cc_size c" and "cc_priority (cc_pop x c) = cc_priority c"
proof -
  obtain ys where xs: "xs = x # ys" using assms by (auto simp: cc_holds_def chain_Some)
  have "chain (cc_next c) (cc_next c x) ys" "x \<notin> set ys" "distinct ys" "sorted (map (cc_priority c) ys)"
    using assms xs by (auto simp: cc_holds_def)
  moreover from this have "cc_next c x = None \<longleftrightarrow> ys = []" by (auto dest: chain_Nil_iff)
  ultimately have "cc_holds ys (cc_pop x c)"
    using assms xs by (auto simp: cc_holds_def cc_pop_def cc_setNext_def Let_def chain_frame)
  then show thesis using that xs by (simp add: cc_pop_def cc_setNext_def Let_def)
qed

lemma cc_add_all_ok:
  assumes "cc_holds xs c" and "distinct ns" and "set ns \<inter> set xs = {}"
  shows "\<exists>ys c'. cc_add_all ns c = Inr c' \<and> cc_holds ys c' \<and> set ys = set ns \<union> set xs \<and>
    length ys = length ns + length xs \<and> cc_priority c' = cc_priority c \<and>
    cc_size c' = cc_size c + of_nat (length ns)"
  using assms
proof (induction ns arbitrary: xs c)
  case Nil
  then show ?case by auto
next
  case (Cons n ns)
  obtain c1 where c1: "cc_add n c = Inr c1" "cc_holds (tq_place (cc_priority c) n xs) c1"
      "cc_priority c1 = cc_priority c" "cc_size c1 = cc_size c + 1"
    using cc_add_ok [OF Cons.prems(1), of n] Cons.prems(3) by auto
  have "set ns \<inter> set (tq_place (cc_priority c) n xs) = {}" using Cons.prems by auto
  from Cons.IH [OF c1(2) _ this] Cons.prems(2) obtain ys c' where
    "cc_add_all ns c1 = Inr c'" "cc_holds ys c'" "set ys = set ns \<union> set (tq_place (cc_priority c) n xs)"
    "length ys = length ns + length (tq_place (cc_priority c) n xs)" "cc_priority c' = cc_priority c1"
    "cc_size c' = cc_size c1 + of_nat (length ns)"
    by auto
  then show ?case using c1 by (intro exI [of _ ys] exI [of _ c']) auto
qed

text \<open>
  What a running callback may add: callbacks that are not in the container (it has itself just
  been taken out), each once.
\<close>

definition cc_contract :: "('w \<Rightarrow> nat list \<Rightarrow> bool) \<Rightarrow> (nat \<Rightarrow> 'w \<Rightarrow> nat list \<times> 'w) \<Rightarrow> bool" where
  "cc_contract I run \<longleftrightarrow>
    (\<forall>w x xs ys adds w'. I w (x # xs) \<and> run x w = (adds, w') \<longrightarrow>
      distinct adds \<and> set adds \<inter> set xs = {} \<and>
      (set ys = set adds \<union> set xs \<and> length ys = length adds + length xs \<longrightarrow> I w' ys))"

lemma cc_mycall_loop_ok:
  assumes con: "cc_contract I run"
  shows "cc_ok xs c \<Longrightarrow> I w xs \<Longrightarrow> xs \<noteq> [] \<Longrightarrow> 0 < m \<Longrightarrow> m \<le> fuel \<Longrightarrow> m < 2 ^ 64 \<Longrightarrow>
    \<exists>ns ys c' w'. cc_mycall_loop run fuel (of_nat m) c w = Inr (c', w') \<and> cc_ok ys c' \<and> I w' ys \<and>
      0 < length ns \<and> length ns \<le> m \<and> (ys \<noteq> [] \<longrightarrow> length ns = m) \<and>
      w' = foldl (\<lambda>w n. snd (run n w)) w ns"
proof (induction fuel arbitrary: m xs c w)
  case 0
  then show ?case by simp
next
  case (Suc fuel)
  obtain x where x: "cc_first c = Some x"
    using Suc.prems(1,3) by (cases xs) (auto simp: cc_ok_def cc_holds_def)
  have h: "cc_holds xs c" using Suc.prems(1) by (simp add: cc_ok_def)
  obtain zs where zs: "xs = x # zs" "cc_holds zs (cc_pop x c)" "cc_size (cc_pop x c) = cc_size c"
    by (rule cc_pop_ok [OF h x])
  obtain adds w1 where r: "run x w = (adds, w1)" by (cases "run x w")
  have a: "distinct adds" "set adds \<inter> set zs = {}"
    "\<And>ys. set ys = set adds \<union> set zs \<Longrightarrow> length ys = length adds + length zs \<Longrightarrow> I w1 ys"
    using con Suc.prems(2) r unfolding cc_contract_def zs(1) by blast+
  from cc_add_all_ok [OF zs(2) a(1,2)] obtain ys c1 where
    c1: "cc_add_all adds (cc_pop x c) = Inr c1" "cc_holds ys c1" "set ys = set adds \<union> set zs"
      "length ys = length adds + length zs" "cc_size c1 = cc_size (cc_pop x c) + of_nat (length adds)"
    by blast
  let ?c2 = "c1\<lparr>cc_size := cc_size c1 - 1\<rparr>"
  have "cc_size c = of_nat (Suc (length zs))" using Suc.prems(1) zs(1) by (simp add: cc_ok_def)
  then have ok2: "cc_ok ys ?c2"
    using c1(2,4,5) zs(3) by (simp add: cc_ok_def cc_holds_def)
  have I1: "I w1 ys" by (rule a(3) [OF c1(3,4)])
  have ne: "cc_first c1 \<noteq> None \<longleftrightarrow> ys \<noteq> []" using c1(2) by (auto simp: cc_holds_def dest: chain_Nil_iff)
  obtain m' where m: "m = Suc m'" using Suc.prems(4) by (cases m) auto
  have pos: "(of_nat m' :: u64) > 0 \<longleftrightarrow> 0 < m'"
  proof -
    have "unat (of_nat m' :: u64) = m'" using Suc.prems(6) m by (simp add: unat_of_nat)
    then show ?thesis by (simp add: word_less_nat_alt)
  qed
  have step: "cc_mycall_loop run (Suc fuel) (of_nat m) c w =
      (if ys \<noteq> [] \<and> 0 < m' then cc_mycall_loop run fuel (of_nat m') ?c2 w1 else Inr (?c2, w1))"
    using x r c1(1) ne pos by (simp add: m)
  show ?case
  proof (cases "ys \<noteq> [] \<and> 0 < m'")
    case True
    have "m' \<le> fuel" "m' < 2 ^ 64" using Suc.prems(5,6) m by auto
    from Suc.IH [OF ok2 I1 _ _ this] True obtain ns zs' c' w' where
      IH: "cc_mycall_loop run fuel (of_nat m') ?c2 w1 = Inr (c', w')" "cc_ok zs' c'" "I w' zs'"
        "length ns \<le> m'" "zs' \<noteq> [] \<longrightarrow> length ns = m'" "w' = foldl (\<lambda>w n. snd (run n w)) w1 ns"
      by blast
    then show ?thesis using step True r m
      by (intro exI [of _ "x # ns"] exI [of _ zs'] exI [of _ c'] exI [of _ w']) simp
  next
    case False
    then show ?thesis using step ok2 I1 r m
      by (intro exI [of _ "[x]"] exI [of _ ys] exI [of _ ?c2] exI [of _ w1]) auto
  qed
qed

text \<open>
  C35. \<open>mycall\<close> ends whatever its callbacks add to the container while they run, themselves
  included: it runs as many callbacks as the container held at the call, or empties it before;
  the chain, the tail and the size are right afterwards.
\<close>

theorem cc_mycall_bounded:
  assumes "cc_contract I run" and "cc_ok xs c" and "I w xs" and "length xs < 2 ^ 64"
  shows "\<exists>ns ys c' w'. cc_mycall run (length xs) c w = Inr (c', w') \<and> cc_ok ys c' \<and>
    length ns \<le> length xs \<and> (ys \<noteq> [] \<longrightarrow> length ns = length xs) \<and>
    w' = foldl (\<lambda>w n. snd (run n w)) w ns"
proof (cases "xs = []")
  case True
  then have "cc_first c = None" using assms(2) by (simp add: cc_ok_def cc_holds_def)
  then show ?thesis using True assms(2)
    by (intro exI [of _ "[]"] exI [of _ xs] exI [of _ c] exI [of _ w]) (simp add: cc_mycall_def)
next
  case False
  then have "cc_first c \<noteq> None" using assms(2) by (auto simp: cc_ok_def cc_holds_def dest: chain_Nil_iff)
  moreover have "cc_size c = of_nat (length xs)" using assms(2) by (simp add: cc_ok_def)
  ultimately have "cc_mycall run (length xs) c w = cc_mycall_loop run (length xs) (of_nat (length xs)) c w"
    by (simp add: cc_mycall_def del: not_None_eq)
  then show ?thesis
    using cc_mycall_loop_ok [where m = "length xs" and fuel = "length xs", OF assms(1-3) False _ _ assms(4)] False
    by auto
qed

text \<open>Two callbacks that add themselves again: each runs once.\<close>

theorem cc_mycall_bounded_witness:
  "\<exists>c c' w'. cc_add_all [1, 2] (cc_create (\<lambda>_. 0)) = Inr c \<and>
    cc_mycall (\<lambda>n w. ([n], w + n)) 2 c 0 = Inr (c', w')"
proof -
  have ok: "cc_ok [] (cc_create (\<lambda>_. 0))" by (simp add: cc_ok_def cc_holds_def cc_create_def)
  then obtain ys c where c: "cc_add_all [1, 2] (cc_create (\<lambda>_. 0)) = Inr c" "cc_holds ys c"
      "length ys = 2" "cc_size c = 2"
    using cc_add_all_ok [of "[]" "cc_create (\<lambda>_. 0)" "[1, 2]"] by (auto simp: cc_ok_def cc_create_def)
  have "cc_contract (\<lambda>w xs. distinct xs) (\<lambda>n w. ([n], w + n))"
    by (auto simp: cc_contract_def card_distinct distinct_card)
  moreover have "cc_ok ys c" "distinct ys" using c by (simp_all add: cc_ok_def cc_holds_def)
  ultimately show ?thesis
    using cc_mycall_bounded [of "\<lambda>w xs. distinct xs" "\<lambda>n w. ([n], w + n)" ys c 0] c by auto
qed

text \<open>
  \<open>callNext\<close> never decrements \<open>size\<close>, and \<open>makeEmpty\<close> leaves the tail pointer: a
  callback of no higher urgency added after \<open>makeEmpty\<close> is linked behind the old tail and the
  container still answers that it is empty, so the callback is never called.
\<close>

theorem cc_makeEmpty_loses_callback:
  assumes "cc_ok xs c" and "xs \<noteq> []" and "n \<notin> set xs" and "cc_priority c (last xs) \<le> cc_priority c n"
  shows "\<exists>c'. cc_add n (cc_makeEmpty c) = Inr c' \<and> cc_empty c' \<and> cc_size c' = cc_size c + 1 \<and>
    cc_mycall run fuel c' w = Inr (c', w) \<and>
    (\<exists>c2 w2. cc_callNext (\<lambda>n w. ([], w)) c w = Inr (c2, w2) \<and> cc_size c2 = of_nat (length (tl xs)) + 1)"
proof -
  have h: "cc_holds xs c" "cc_size c = of_nat (length xs)" using assms(1) by (simp_all add: cc_ok_def)
  then have "cc_next c n = None" "cc_last c = Some (last xs)" using assms(2,3) by (simp_all add: cc_holds_def)
  then have add: "\<exists>c'. cc_add n (cc_makeEmpty c) = Inr c' \<and> cc_empty c' \<and> cc_size c' = cc_size c + 1 \<and>
      cc_mycall run fuel c' w = Inr (c', w)"
    using assms(4) by (simp add: cc_add_def cc_makeEmpty_def cc_setNext_def Let_def cc_empty_def cc_mycall_def)
  obtain x where x: "cc_first c = Some x" using h assms(2) by (cases xs) (auto simp: cc_holds_def)
  obtain ys where "xs = x # ys" "cc_size (cc_pop x c) = cc_size c" by (rule cc_pop_ok [OF h(1) x])
  then have "\<exists>c2 w2. cc_callNext (\<lambda>n w. ([], w)) c w = Inr (c2, w2) \<and> cc_size c2 = of_nat (length (tl xs)) + 1"
    using x h(2) by (simp add: cc_callNext_def)
  with add show ?thesis by blast
qed

theorem cc_makeEmpty_loses_callback_witness:
  "\<exists>c c'. cc_add 1 (cc_create (\<lambda>_. 0)) = Inr c \<and> cc_add 2 (cc_makeEmpty c) = Inr c' \<and> cc_empty c'"
proof -
  have ok: "cc_ok [] (cc_create (\<lambda>_. 0))" by (simp add: cc_ok_def cc_holds_def cc_create_def)
  then obtain c where c: "cc_add 1 (cc_create (\<lambda>_. 0)) = Inr c" "cc_holds [1] c" "cc_size c = 1"
      "cc_priority c = (\<lambda>_. 0)"
    using cc_add_ok [of "[]" "cc_create (\<lambda>_. 0)" 1] by (auto simp: cc_ok_def cc_create_def tq_place_def)
  then have "cc_ok [1] c" by (simp add: cc_ok_def)
  then have "\<exists>c'. cc_add 2 (cc_makeEmpty c) = Inr c' \<and> cc_empty c'"
    using cc_makeEmpty_loses_callback [of "[1]" c 2 "\<lambda>n w. ([], w)" 0 "()"] c(4) by auto
  then show ?thesis using c(1) by blast
qed

end
