(* ===== verification/Bloom_Filter.thy ===== *)
theory Bloom_Filter
  imports Desesc_Prelude "HOL-Library.Multiset"
begin

text \<open>
  \<open>core/bloomfilter.cpp\<close>: the counting Bloom filter and the bit selection of
  \<open>core/bloomfilter.hpp\<close>. The counters and sizes are \<open>int\<close>: the code adds one per
  element and signed overflow is undefined in C++. A shift by 32 or more, or by a negative
  distance, is undefined too and is the error \<open>Bad_shift\<close>: a layout may use the 32 bits of an
  \<open>unsigned\<close> and no more. The refinement: a filter represents the multiset of the elements that
  were inserted and not removed, and every query agrees with it on the side that a Bloom filter
  promises.
\<close>

section \<open>State and operations\<close>

record bloom =
  bf_vSize :: "int list"
  bf_vBits :: "int list"
  bf_vMask :: "u32 list"
  bf_rShift :: "nat list"
  bf_countVec :: "int list list"
  bf_nVectors :: nat
  bf_nonZeroCount :: "int list"
  bf_nElements :: int
  bf_BFBuild :: bool

definition bf_unbuilt :: bloom where
  "bf_unbuilt = \<lparr>bf_vSize = [], bf_vBits = [], bf_vMask = [], bf_rShift = [], bf_countVec = [],
    bf_nVectors = 0, bf_nonZeroCount = [], bf_nElements = 0, bf_BFBuild = False\<rparr>"

fun bf_ones :: "nat \<Rightarrow> u32 res" where
  "bf_ones 0 = Inr 0"
| "bf_ones (Suc m) =
    bind_res (bf_ones m) (\<lambda>mask. if m < 32 then Inr (mask OR push_bit m 1) else Inl Bad_shift)"

fun bf_mask_loop :: "int list \<Rightarrow> int \<Rightarrow> (u32 \<times> nat) list res" where
  "bf_mask_loop [] totShift = Inr []"
| "bf_mask_loop (b # bs) totShift =
    bind_res (bf_ones (nat b)) (\<lambda>mask.
      if totShift < 0 \<or> 32 \<le> totShift then Inl Bad_shift
      else bind_res (bf_mask_loop bs (totShift + b)) (\<lambda>ms.
             Inr ((push_bit (nat totShift) mask, nat totShift) # ms)))"

definition bf_initMasks :: "bloom \<Rightarrow> bloom res" where
  "bf_initMasks b = bind_res (bf_mask_loop (bf_vBits b) 0) (\<lambda>ms.
    Inr (b\<lparr>bf_vMask := map fst ms, bf_rShift := map snd ms\<rparr>))"

definition bf_create :: "int list \<Rightarrow> int list \<Rightarrow> bloom res" where
  "bf_create bits sizes =
    assert_res (length bits = length sizes)
     (if \<exists>s \<in> set sizes. s < 0 then Inl Out_of_bounds
      else bf_initMasks
        \<lparr>bf_vSize = sizes, bf_vBits = bits, bf_vMask = [], bf_rShift = [],
         bf_countVec = map (\<lambda>s. replicate (nat s) 0) sizes, bf_nVectors = length bits,
         bf_nonZeroCount = map (\<lambda>_. 0) sizes, bf_nElements = 0, bf_BFBuild = True\<rparr>)"

definition bf_getIndex :: "u32 \<Rightarrow> nat \<Rightarrow> bloom \<Rightarrow> nat res" where
  "bf_getIndex val i b =
    assert_res (bf_BFBuild b)
     (if bf_vSize b ! i = 0 then Inl Div_by_zero
      else (let uidx = val AND bf_vMask b ! i;
                uidx = drop_bit (bf_rShift b ! i) uidx;
                uidx = uidx mod word_of_int (bf_vSize b ! i);
                ret = sint uidx
            in assert_res (ret > -1 \<and> ret < bf_vSize b ! i) (Inr (nat ret))))"

definition bf_insert :: "u32 \<Rightarrow> bloom \<Rightarrow> bloom res" where
  "bf_insert e b =
    (if \<not> bf_BFBuild b then Inr b
     else bind_res
      (for_res [0..<bf_nVectors b] (\<lambda>i b.
         bind_res (bf_getIndex e i b) (\<lambda>idx.
           let c = bf_countVec b ! i ! idx;
               b = (if c = 0 then b\<lparr>bf_nonZeroCount := list_modify i (\<lambda>n. n + 1) (bf_nonZeroCount b)\<rparr> else b)
           in Inr (b\<lparr>bf_countVec := list_modify i (\<lambda>r. r[idx := c + 1]) (bf_countVec b)\<rparr>))) b)
      (\<lambda>b. Inr (b\<lparr>bf_nElements := bf_nElements b + 1\<rparr>)))"

definition bf_remove :: "u32 \<Rightarrow> bloom \<Rightarrow> bloom res" where
  "bf_remove e b =
    (if \<not> bf_BFBuild b then Inr b
     else bind_res
      (for_res [0..<bf_nVectors b] (\<lambda>i b.
         bind_res (bf_getIndex e i b) (\<lambda>idx.
           let c = bf_countVec b ! i ! idx - 1;
               b = b\<lparr>bf_countVec := list_modify i (\<lambda>r. r[idx := c]) (bf_countVec b)\<rparr>
           in assert_res (c \<ge> 0)
               (Inr (if c = 0
                     then b\<lparr>bf_nonZeroCount := list_modify i (\<lambda>n. n - 1) (bf_nonZeroCount b)\<rparr>
                     else b)))) b)
      (\<lambda>b. assert_res (bf_nElements b > 0) (Inr (b\<lparr>bf_nElements := bf_nElements b - 1\<rparr>))))"

definition bf_clear :: "bloom \<Rightarrow> bloom" where
  "bf_clear b =
    (if \<not> bf_BFBuild b then b
     else b\<lparr>bf_countVec := map (map (\<lambda>_. 0)) (bf_countVec b),
            bf_nonZeroCount := map (\<lambda>_. 0) (bf_nonZeroCount b), bf_nElements := 0\<rparr>)"

fun bf_all_nonzero :: "u32 \<Rightarrow> nat list \<Rightarrow> bloom \<Rightarrow> bool res" where
  "bf_all_nonzero e [] b = Inr True"
| "bf_all_nonzero e (i # is) b =
    bind_res (bf_getIndex e i b) (\<lambda>idx.
      if bf_countVec b ! i ! idx = 0 then Inr False else bf_all_nonzero e is b)"

definition bf_mayExist :: "u32 \<Rightarrow> bloom \<Rightarrow> bool res" where
  "bf_mayExist e b =
    (if \<not> bf_BFBuild b then Inr True else bf_all_nonzero e [0..<bf_nVectors b] b)"

definition bf_same_layout :: "bloom \<Rightarrow> bloom \<Rightarrow> bool" where
  "bf_same_layout a b \<longleftrightarrow>
    bf_nVectors a = bf_nVectors b \<and> (\<forall>i \<in> set [0..<bf_nVectors a]. bf_vSize a ! i = bf_vSize b ! i)"

definition bf_row :: "bloom \<Rightarrow> nat \<Rightarrow> int list" where
  "bf_row b v = take (nat (bf_vSize b ! v)) (bf_countVec b ! v)"

definition bf_mayIntersect :: "bloom \<Rightarrow> bloom \<Rightarrow> bool res" where
  "bf_mayIntersect a b =
    (if \<not> bf_BFBuild a \<or> \<not> bf_BFBuild b then Inr True
     else assert_res (bf_same_layout a b)
      (Inr (list_all (\<lambda>v. list_ex (\<lambda>(x, y). x > 0 \<and> y > 0) (zip (bf_row a v) (bf_row b v)))
             [0..<bf_nVectors a])))"

definition bf_count_nonzero :: "int list \<Rightarrow> int" where
  "bf_count_nonzero r = int (length (filter (\<lambda>x. x \<noteq> 0) r))"

definition bf_mergeWith :: "bloom \<Rightarrow> bloom \<Rightarrow> bloom res" where
  "bf_mergeWith a b =
    (if \<not> bf_BFBuild a \<or> \<not> bf_BFBuild b then Inr a
     else assert_res (bf_same_layout a b)
      (for_res [0..<bf_nVectors a] (\<lambda>v s.
        let r = map2 (+) (bf_row s v) (bf_row b v)
        in Inr (s\<lparr>bf_countVec := (bf_countVec s)[v := r],
                  bf_nonZeroCount := (bf_nonZeroCount s)[v := bf_count_nonzero r]\<rparr>)) a))"

definition bf_subtract :: "bloom \<Rightarrow> bloom \<Rightarrow> bloom res" where
  "bf_subtract a b =
    (if \<not> bf_BFBuild a \<or> \<not> bf_BFBuild b then Inr a
     else assert_res (bf_same_layout a b)
      (for_res [0..<bf_nVectors a] (\<lambda>v s.
        let r = map2 (-) (bf_row s v) (bf_row b v)
        in assert_res (list_all (\<lambda>x. x \<ge> 0) r)
            (Inr (s\<lparr>bf_countVec := (bf_countVec s)[v := r],
                    bf_nonZeroCount := (bf_nonZeroCount s)[v := bf_count_nonzero r]\<rparr>))) a))"

definition bf_getSize :: "bloom \<Rightarrow> int" where
  "bf_getSize b = (if \<not> bf_BFBuild b then 0 else sum_list (bf_vSize b))"

text \<open>The run-length size: state is the size so far and the length of the open run.\<close>

definition bf_rle_step :: "int \<Rightarrow> nat \<Rightarrow> int \<Rightarrow> int \<times> int \<Rightarrow> int \<times> int" where
  "bf_rle_step base runBits c = (\<lambda>(rleSize, runSize).
    let maxRun = 2 ^ runBits - 1
    in if c \<noteq> base
       then (let rleSize = (if runSize \<noteq> 0
                            then rleSize + (1 + int runBits) *
                              (runSize div maxRun + (if runSize mod maxRun > 0 then 1 else 0))
                            else rleSize)
             in (rleSize + 1, 0))
       else (rleSize, runSize + 1))"

definition bf_getSizeRLE :: "int \<Rightarrow> nat \<Rightarrow> bloom \<Rightarrow> int" where
  "bf_getSizeRLE base runBits b =
    (if \<not> bf_BFBuild b then 0
     else fst (fold (bf_rle_step base runBits)
            (concat (map (bf_row b) [0..<bf_nVectors b])) (0, 0)))"

definition bf_isSubsetOf :: "bloom \<Rightarrow> bloom \<Rightarrow> bool res" where
  "bf_isSubsetOf a b =
    (if \<not> bf_BFBuild a \<or> \<not> bf_BFBuild b then Inr True
     else assert_res (bf_same_layout a b)
      (Inr (list_all (\<lambda>v. list_all (\<lambda>(x, y). \<not> x > y) (zip (bf_row a v) (bf_row b v)))
             [0..<bf_nVectors a])))"

fun bf_alias_loop :: "u32 \<Rightarrow> nat list \<Rightarrow> int \<Rightarrow> bloom \<Rightarrow> int res" where
  "bf_alias_loop e [] a b = Inr a"
| "bf_alias_loop e (i # is) a b =
    bind_res (bf_getIndex e i b) (\<lambda>idx.
      bf_alias_loop e is (if bf_countVec b ! i ! idx \<noteq> 0 then a + 1 else a) b)"

definition bf_countAlias :: "u32 \<Rightarrow> bloom \<Rightarrow> int res" where
  "bf_countAlias e b = bf_alias_loop e [0..<bf_nVectors b] 0 b"

definition bf_intersectionWith :: "bloom \<Rightarrow> bloom \<Rightarrow> bloom \<Rightarrow> bloom" where
  "bf_intersectionWith a b dst =
    dst\<lparr>bf_countVec := map (\<lambda>v.
      map (\<lambda>(j, z). if j < nat (bf_vSize a ! v) \<and> bf_countVec a ! v ! j \<noteq> 0 \<and> bf_countVec b ! v ! j \<noteq> 0
                    then 1 else z)
        (enumerate 0 (bf_countVec dst ! v))) [0..<bf_nVectors a] @ drop (bf_nVectors a) (bf_countVec dst)\<rparr>"

definition bf_assign :: "bloom \<Rightarrow> bloom \<Rightarrow> bloom res" where
  "bf_assign a b =
    (if \<not> bf_BFBuild b then Inr (if bf_BFBuild a then bf_clear a else a)
     else assert_res (bf_same_layout a b)
      (Inr (a\<lparr>bf_BFBuild := True, bf_nVectors := bf_nVectors b, bf_vSize := bf_vSize b,
              bf_vBits := bf_vBits b, bf_vMask := bf_vMask b, bf_rShift := bf_rShift b,
              bf_nonZeroCount := bf_nonZeroCount b, bf_countVec := bf_countVec b,
              bf_nElements := bf_nElements b\<rparr>)))"

section \<open>Bit selection\<close>

record bit_selection =
  bs_bits :: "nat list"
  bs_mask :: "u32 list"

definition bs_addBit :: "nat \<Rightarrow> bit_selection \<Rightarrow> bit_selection res" where
  "bs_addBit b s =
    (if 32 \<le> b then Inl Bad_shift
     else if length (bs_bits s) < 32
     then Inr (s\<lparr>bs_bits := bs_bits s @ [b], bs_mask := bs_mask s @ [push_bit b 1]\<rparr>)
     else Inl Out_of_bounds)"

definition bs_create :: "nat list \<Rightarrow> bit_selection res" where
  "bs_create bitPos = for_res bitPos bs_addBit \<lparr>bs_bits = [], bs_mask = []\<rparr>"

definition bs_permute :: "bit_selection \<Rightarrow> u32 \<Rightarrow> u32" where
  "bs_permute s val =
    fold (\<lambda>(i, m) res. res OR push_bit i (if val AND m \<noteq> 0 then 1 else 0)) (enumerate 0 (bs_mask s)) 0"

section \<open>The represented multiset\<close>

definition bf_wf :: "bloom \<Rightarrow> bool" where
  "bf_wf b \<longleftrightarrow> bf_BFBuild b \<and>
    length (bf_vSize b) = bf_nVectors b \<and> length (bf_countVec b) = bf_nVectors b \<and>
    length (bf_nonZeroCount b) = bf_nVectors b \<and>
    (\<forall>i < bf_nVectors b. 0 < bf_vSize b ! i \<and> bf_vSize b ! i < 2 ^ 31 \<and>
       length (bf_countVec b ! i) = nat (bf_vSize b ! i))"

text \<open>The slot of an element in vector \<open>i\<close>.\<close>

definition bf_slot :: "bloom \<Rightarrow> nat \<Rightarrow> u32 \<Rightarrow> nat" where
  "bf_slot b i e = unat (drop_bit (bf_rShift b ! i) (e AND bf_vMask b ! i)) mod nat (bf_vSize b ! i)"

definition bf_counts :: "bloom \<Rightarrow> u32 multiset \<Rightarrow> nat \<Rightarrow> int list" where
  "bf_counts b M i =
    map (\<lambda>j. int (size (filter_mset (\<lambda>e. bf_slot b i e = j) M))) [0..<nat (bf_vSize b ! i)]"

definition bf_reps :: "u32 multiset \<Rightarrow> bloom \<Rightarrow> bool" where
  "bf_reps M b \<longleftrightarrow> bf_wf b \<and>
    (\<forall>i < bf_nVectors b. bf_countVec b ! i = bf_counts b M i \<and>
       bf_nonZeroCount b ! i = bf_count_nonzero (bf_counts b M i))"

text \<open>The layout: what the operations on the elements never change.\<close>

definition bf_layout :: "bloom \<Rightarrow> bloom \<Rightarrow> bool" where
  "bf_layout a b \<longleftrightarrow> bf_BFBuild a = bf_BFBuild b \<and> bf_nVectors a = bf_nVectors b \<and>
    bf_vSize a = bf_vSize b \<and> bf_vMask a = bf_vMask b \<and> bf_rShift a = bf_rShift b"

lemma bf_layout_refl [simp]: "bf_layout b b"
  by (simp add: bf_layout_def)

lemma bf_layout_slot: "bf_layout a b \<Longrightarrow> bf_slot a = bf_slot b \<and> bf_counts a = bf_counts b"
  by (simp add: bf_layout_def bf_slot_def bf_counts_def fun_eq_iff)

lemma bf_slot_less: "bf_wf b \<Longrightarrow> i < bf_nVectors b \<Longrightarrow> bf_slot b i e < nat (bf_vSize b ! i)"
  by (simp add: bf_slot_def bf_wf_def)

lemma bf_getIndex_ok:
  assumes "bf_wf b" and "i < bf_nVectors b"
  shows "bf_getIndex e i b = Inr (bf_slot b i e)"
proof -
  let ?n = "bf_vSize b ! i" and ?u = "drop_bit (bf_rShift b ! i) (e AND bf_vMask b ! i)"
  have n: "0 < ?n" "?n < 2 ^ 31" using assms by (auto simp: bf_wf_def)
  have w: "uint (word_of_int ?n :: u32) = ?n" using n by (intro uint_word_of_int_in_range) auto
  have um: "uint (?u mod word_of_int ?n) = uint ?u mod ?n" by (simp add: uint_mod w)
  also have lt: "uint ?u mod ?n < ?n" using n by simp
  finally have "uint (?u mod word_of_int ?n) < 2 ^ 31" using n by linarith
  moreover have "- (2 ^ 31) \<le> uint (?u mod word_of_int ?n)"
    by (rule order_trans [OF _ unsigned_greater_eq]) simp
  ultimately have s: "sint (?u mod word_of_int ?n) = uint ?u mod ?n"
    using um by (simp add: sint_uint signed_take_bit_int_eq_self)
  have "nat (uint ?u mod ?n) = bf_slot b i e"
    using n by (simp add: bf_slot_def nat_mod_distrib)
  moreover have "- 1 < uint ?u mod ?n" using pos_mod_sign [OF n(1), of "uint ?u"] by linarith
  moreover have "bf_BFBuild b" "?n \<noteq> 0" using assms n by (auto simp: bf_wf_def)
  ultimately show ?thesis unfolding bf_getIndex_def Let_def s using lt by simp
qed

lemma bf_counts_length [simp]: "length (bf_counts b M i) = nat (bf_vSize b ! i)"
  by (simp add: bf_counts_def)

lemma bf_counts_nth:
  "j < nat (bf_vSize b ! i) \<Longrightarrow>
    bf_counts b M i ! j = int (size (filter_mset (\<lambda>e. bf_slot b i e = j) M))"
  by (simp add: bf_counts_def)

lemma bf_counts_add:
  assumes "bf_slot b i e < nat (bf_vSize b ! i)"
  shows "bf_counts b (add_mset e M) i = (bf_counts b M i)[bf_slot b i e := bf_counts b M i ! bf_slot b i e + 1]"
  using assms by (intro nth_equalityI) (auto simp: bf_counts_nth nth_list_update)

lemma bf_count_nonzero_update:
  assumes "j < length r"
  shows "bf_count_nonzero (r[j := x]) =
    bf_count_nonzero r - (if r ! j \<noteq> 0 then 1 else 0) + (if x \<noteq> 0 then 1 else 0)"
  using filter_length_update [OF assms, of "\<lambda>x. x \<noteq> 0" x] by (simp add: bf_count_nonzero_def)

lemma bf_counts_nonneg: "x \<in> set (bf_counts b M i) \<Longrightarrow> 0 \<le> x"
  by (auto simp: bf_counts_def)

text \<open>A loop whose step replaces row \<open>i\<close> and its count of nonzero counters.\<close>

lemma bf_row_loop:
  assumes wf: "bf_wf b"
    and step: "\<And>i s. i < bf_nVectors b \<Longrightarrow> bf_layout s b \<Longrightarrow> bf_wf s \<Longrightarrow>
      bf_countVec s ! i = bf_countVec b ! i \<Longrightarrow> bf_nonZeroCount s ! i = bf_nonZeroCount b ! i \<Longrightarrow>
      f i s = Inr (s\<lparr>bf_countVec := (bf_countVec s)[i := R i], bf_nonZeroCount := (bf_nonZeroCount s)[i := N i]\<rparr>)"
    and len: "\<And>i. i < bf_nVectors b \<Longrightarrow> length (R i) = nat (bf_vSize b ! i)"
  shows "\<exists>s. for_res [0..<bf_nVectors b] f b = Inr s \<and> bf_layout s b \<and> bf_wf s \<and>
    bf_nElements s = bf_nElements b \<and>
    (\<forall>i < bf_nVectors b. bf_countVec s ! i = R i \<and> bf_nonZeroCount s ! i = N i)"
proof -
  let ?P = "\<lambda>k s. bf_layout s b \<and> bf_wf s \<and> bf_nElements s = bf_nElements b \<and>
    (\<forall>i < bf_nVectors b.
      if i < k then bf_countVec s ! i = R i \<and> bf_nonZeroCount s ! i = N i
      else bf_countVec s ! i = bf_countVec b ! i \<and> bf_nonZeroCount s ! i = bf_nonZeroCount b ! i)"
  have "\<exists>s. for_res [0..<bf_nVectors b] f b = Inr s \<and> ?P (bf_nVectors b) s"
  proof (rule for_res_upt [where P = ?P])
    show "?P 0 b" using wf by simp
    fix i s
    assume i: "i < bf_nVectors b" and P: "?P i s"
    let ?s = "s\<lparr>bf_countVec := (bf_countVec s)[i := R i], bf_nonZeroCount := (bf_nonZeroCount s)[i := N i]\<rparr>"
    have ln: "length (bf_countVec s) = bf_nVectors b" "length (bf_nonZeroCount s) = bf_nVectors b"
      using P by (auto simp: bf_wf_def bf_layout_def)
    have "length ((bf_countVec s)[i := R i] ! j) = nat (bf_vSize b ! j)" if "j < bf_nVectors b" for j
    proof (cases "j = i")
      case True
      then show ?thesis using len [OF i] ln i by simp
    next
      case False
      then show ?thesis using P that by (simp add: bf_wf_def bf_layout_def)
    qed
    then have "bf_wf ?s" using P wf by (simp add: bf_wf_def bf_layout_def)
    have "f i s = Inr ?s" using i P by (intro step) auto
    moreover have "bf_layout ?s b" using P by (simp add: bf_layout_def)
    moreover note \<open>bf_wf ?s\<close>
    moreover have "if j < Suc i then bf_countVec ?s ! j = R j \<and> bf_nonZeroCount ?s ! j = N j
        else bf_countVec ?s ! j = bf_countVec b ! j \<and> bf_nonZeroCount ?s ! j = bf_nonZeroCount b ! j"
      if "j < bf_nVectors b" for j
      using P that i ln by (cases "j = i") (auto simp: less_Suc_eq)
    moreover have "bf_nElements ?s = bf_nElements b" using P by simp
    ultimately show "\<exists>s'. f i s = Inr s' \<and> ?P (Suc i) s'" by blast
  qed
  then show ?thesis by auto
qed

lemma bf_repsI:
  assumes "bf_wf s" and "bf_layout s b"
    and "\<forall>i < bf_nVectors b. bf_countVec s ! i = bf_counts b M i \<and>
      bf_nonZeroCount s ! i = bf_count_nonzero (bf_counts b M i)"
  shows "bf_reps M s"
  using assms bf_layout_slot [OF assms(2)] by (simp add: bf_reps_def) (simp add: bf_layout_def)

lemma bf_insert_reps:
  assumes reps: "bf_reps M b"
  shows "\<exists>b'. bf_insert e b = Inr b' \<and> bf_reps (add_mset e M) b' \<and> bf_layout b' b \<and>
    bf_nElements b' = bf_nElements b + 1"
proof -
  have wf: "bf_wf b" and built: "bf_BFBuild b" using reps by (auto simp: bf_reps_def bf_wf_def)
  let ?body = "\<lambda>i b. bind_res (bf_getIndex e i b) (\<lambda>idx.
           let c = bf_countVec b ! i ! idx;
               b = (if c = 0 then b\<lparr>bf_nonZeroCount := list_modify i (\<lambda>n. n + 1) (bf_nonZeroCount b)\<rparr> else b)
           in Inr (b\<lparr>bf_countVec := list_modify i (\<lambda>r. r[idx := c + 1]) (bf_countVec b)\<rparr>))"
  let ?N = "add_mset e M"
  have "\<exists>s. for_res [0..<bf_nVectors b] ?body b = Inr s \<and> bf_layout s b \<and> bf_wf s \<and>
    bf_nElements s = bf_nElements b \<and>
    (\<forall>i < bf_nVectors b. bf_countVec s ! i = bf_counts b ?N i \<and>
      bf_nonZeroCount s ! i = bf_count_nonzero (bf_counts b ?N i))"
  proof (rule bf_row_loop [OF wf])
    fix i s
    assume i: "i < bf_nVectors b" and lay: "bf_layout s b" and wfs: "bf_wf s"
      and row: "bf_countVec s ! i = bf_countVec b ! i" "bf_nonZeroCount s ! i = bf_nonZeroCount b ! i"
    let ?j = "bf_slot b i e"
    have i': "i < bf_nVectors s" using i lay by (simp add: bf_layout_def)
    have j: "?j < nat (bf_vSize b ! i)" by (rule bf_slot_less [OF wf i])
    have r: "bf_countVec s ! i = bf_counts b M i"
        "bf_nonZeroCount s ! i = bf_count_nonzero (bf_counts b M i)"
      using reps i row by (simp_all add: bf_reps_def)
    have idx: "bf_getIndex e i s = Inr ?j"
      using bf_getIndex_ok [OF wfs i'] bf_layout_slot [OF lay] by simp
    have c: "bf_counts b M i ! ?j \<ge> 0" using j by (simp add: bf_counts_nth)
    have "bf_count_nonzero (bf_counts b ?N i) =
      bf_count_nonzero (bf_counts b M i) + (if bf_counts b M i ! ?j = 0 then 1 else 0)"
      using j c by (simp add: bf_counts_add bf_count_nonzero_update)
    moreover have "(bf_nonZeroCount s)[i := bf_nonZeroCount s ! i] = bf_nonZeroCount s" by simp
    ultimately show "?body i s = Inr (s\<lparr>bf_countVec := (bf_countVec s)[i := bf_counts b ?N i],
        bf_nonZeroCount := (bf_nonZeroCount s)[i := bf_count_nonzero (bf_counts b ?N i)]\<rparr>)"
      using idx r j by (simp add: Let_def list_modify_def bf_counts_add)
  qed simp
  then obtain s where s: "for_res [0..<bf_nVectors b] ?body b = Inr s" "bf_layout s b" "bf_wf s"
    "bf_nElements s = bf_nElements b"
    "\<forall>i < bf_nVectors b. bf_countVec s ! i = bf_counts b ?N i \<and>
      bf_nonZeroCount s ! i = bf_count_nonzero (bf_counts b ?N i)" by blast
  let ?b = "s\<lparr>bf_nElements := bf_nElements s + 1\<rparr>"
  have "bf_insert e b = Inr ?b" using built s(1) by (simp add: bf_insert_def)
  moreover have "bf_reps ?N ?b"
    by (rule bf_repsI [where b = b]) (use s in \<open>auto simp: bf_wf_def bf_layout_def\<close>)
  ultimately show ?thesis using s(2,4) by (auto simp: bf_layout_def)
qed

lemma bf_remove_loop:
  assumes reps: "bf_reps M b" and e: "e \<in># M"
  shows "\<exists>b'. bf_remove e b = assert_res (bf_nElements b > 0) (Inr b') \<and> bf_reps (M - {#e#}) b' \<and>
    bf_layout b' b \<and> bf_nElements b' = bf_nElements b - 1"
proof -
  have wf: "bf_wf b" and built: "bf_BFBuild b" using reps by (auto simp: bf_reps_def bf_wf_def)
  let ?body = "\<lambda>i b. bind_res (bf_getIndex e i b) (\<lambda>idx.
           let c = bf_countVec b ! i ! idx - 1;
               b = b\<lparr>bf_countVec := list_modify i (\<lambda>r. r[idx := c]) (bf_countVec b)\<rparr>
           in assert_res (c \<ge> 0)
               (Inr (if c = 0
                     then b\<lparr>bf_nonZeroCount := list_modify i (\<lambda>n. n - 1) (bf_nonZeroCount b)\<rparr>
                     else b)))"
  let ?N = "M - {#e#}"
  have M: "M = add_mset e ?N" using e by simp
  have "\<exists>s. for_res [0..<bf_nVectors b] ?body b = Inr s \<and> bf_layout s b \<and> bf_wf s \<and>
    bf_nElements s = bf_nElements b \<and>
    (\<forall>i < bf_nVectors b. bf_countVec s ! i = bf_counts b ?N i \<and>
      bf_nonZeroCount s ! i = bf_count_nonzero (bf_counts b ?N i))"
  proof (rule bf_row_loop [OF wf])
    fix i s
    assume i: "i < bf_nVectors b" and lay: "bf_layout s b" and wfs: "bf_wf s"
      and row: "bf_countVec s ! i = bf_countVec b ! i" "bf_nonZeroCount s ! i = bf_nonZeroCount b ! i"
    let ?j = "bf_slot b i e" let ?c = "bf_counts b ?N i"
    have i': "i < bf_nVectors s" using i lay by (simp add: bf_layout_def)
    have j: "?j < nat (bf_vSize b ! i)" by (rule bf_slot_less [OF wf i])
    have cM: "bf_counts b M i = ?c[?j := ?c ! ?j + 1]" using bf_counts_add [OF j, of ?N] M by simp
    have r: "bf_countVec s ! i = ?c[?j := ?c ! ?j + 1]"
        "bf_nonZeroCount s ! i = bf_count_nonzero (?c[?j := ?c ! ?j + 1])"
      using reps i row cM by (simp_all add: bf_reps_def)
    have idx: "bf_getIndex e i s = Inr ?j"
      using bf_getIndex_ok [OF wfs i'] bf_layout_slot [OF lay] by simp
    have c: "?c ! ?j \<ge> 0" using j by (simp add: bf_counts_nth)
    have nz: "bf_nonZeroCount s ! i = bf_count_nonzero ?c + (if ?c ! ?j = 0 then 1 else 0)"
      using j c r(2) by (simp add: bf_count_nonzero_update)
    have same: "(bf_nonZeroCount s)[i := bf_nonZeroCount s ! i] = bf_nonZeroCount s"
      "?c[?j := ?c ! ?j] = ?c" by simp_all
    show "?body i s = Inr (s\<lparr>bf_countVec := (bf_countVec s)[i := ?c],
        bf_nonZeroCount := (bf_nonZeroCount s)[i := bf_count_nonzero ?c]\<rparr>)"
    proof (cases "?c ! ?j = 0")
      case True
      then show ?thesis using idx r(1) j nz same(2) by (simp add: Let_def list_modify_def)
    next
      case False
      then have "(bf_nonZeroCount s)[i := bf_count_nonzero ?c] = bf_nonZeroCount s" using nz same(1) by simp
      then show ?thesis using False idx r(1) j c by (simp add: Let_def list_modify_def)
    qed
  qed simp
  then obtain s where s: "for_res [0..<bf_nVectors b] ?body b = Inr s" "bf_layout s b" "bf_wf s"
    "bf_nElements s = bf_nElements b"
    "\<forall>i < bf_nVectors b. bf_countVec s ! i = bf_counts b ?N i \<and>
      bf_nonZeroCount s ! i = bf_count_nonzero (bf_counts b ?N i)" by blast
  let ?b = "s\<lparr>bf_nElements := bf_nElements s - 1\<rparr>"
  have "bf_remove e b = assert_res (bf_nElements b > 0) (Inr ?b)"
    using built s(1,4) by (simp add: bf_remove_def)
  moreover have "bf_reps ?N ?b"
    by (rule bf_repsI [where b = b]) (use s in \<open>auto simp: bf_wf_def bf_layout_def\<close>)
  ultimately show ?thesis using s(2,4) by (auto simp: bf_layout_def)
qed

lemma bf_remove_reps:
  assumes "bf_reps M b" and "e \<in># M" and "0 < bf_nElements b"
  shows "\<exists>b'. bf_remove e b = Inr b' \<and> bf_reps (M - {#e#}) b' \<and> bf_layout b' b \<and>
    bf_nElements b' = bf_nElements b - 1"
  using bf_remove_loop [OF assms(1,2)] assms(3) by auto

lemma bf_all_nonzero_eq:
  assumes "bf_wf b" and "\<forall>i \<in> set is. i < bf_nVectors b"
  shows "bf_all_nonzero e is b = Inr (\<forall>i \<in> set is. bf_countVec b ! i ! bf_slot b i e \<noteq> 0)"
  using assms(2) by (induction "is") (auto simp: bf_getIndex_ok [OF assms(1)])

lemma bf_mayExist_reps:
  assumes reps: "bf_reps M b"
  shows "bf_mayExist e b = Inr (\<forall>i < bf_nVectors b. \<exists>x \<in># M. bf_slot b i x = bf_slot b i e)"
proof -
  have wf: "bf_wf b" and built: "bf_BFBuild b" using reps by (auto simp: bf_reps_def bf_wf_def)
  have "bf_countVec b ! i ! bf_slot b i e \<noteq> 0 \<longleftrightarrow> (\<exists>x \<in># M. bf_slot b i x = bf_slot b i e)"
    if "i < bf_nVectors b" for i
  proof -
    have "bf_countVec b ! i ! bf_slot b i e
        = int (size (filter_mset (\<lambda>x. bf_slot b i x = bf_slot b i e) M))"
      using reps that bf_slot_less [OF wf that] by (simp add: bf_reps_def bf_counts_nth)
    then show ?thesis by (auto simp: filter_mset_eq_conv)
  qed
  then show ?thesis using built by (auto simp: bf_mayExist_def bf_all_nonzero_eq [OF wf])
qed

text \<open>The layouts that fit: every shift of the construction is by less than 32.\<close>

definition bf_fits_at :: "int \<Rightarrow> int list \<Rightarrow> bool" where
  "bf_fits_at tot bits \<longleftrightarrow> (\<forall>i < length bits. bits ! i \<le> 32 \<and>
    0 \<le> tot + sum_list (take i bits) \<and> tot + sum_list (take i bits) < 32)"

abbreviation bf_fits :: "int list \<Rightarrow> bool" where
  "bf_fits \<equiv> bf_fits_at 0"

lemma bf_fits_at_Cons:
  "bf_fits_at tot (b # bs) \<longleftrightarrow> b \<le> 32 \<and> 0 \<le> tot \<and> tot < 32 \<and> bf_fits_at (tot + b) bs"
  by (auto simp: bf_fits_at_def All_less_Suc2 add.assoc)

lemma bf_ones_fits: "(\<exists>m. bf_ones n = Inr m) \<and> n \<le> 32 \<or> bf_ones n = Inl Bad_shift \<and> 32 < n"
  by (induction n) (auto split: if_splits)

lemma bf_mask_loop_fits:
  "if bf_fits_at tot bs then \<exists>ms. bf_mask_loop bs tot = Inr ms else bf_mask_loop bs tot = Inl Bad_shift"
proof (induction bs arbitrary: tot)
  case Nil
  then show ?case by (simp add: bf_fits_at_def)
next
  case (Cons b bs)
  show ?case using Cons.IH [of "tot + b"] bf_ones_fits [of "nat b"]
    by (auto simp: bf_fits_at_Cons split: if_splits)
qed

lemma bf_create_reps:
  assumes "length bits = length sizes" and "\<forall>s \<in> set sizes. 0 < s \<and> s < 2 ^ 31"
  shows "if bf_fits bits then \<exists>b. bf_create bits sizes = Inr b \<and> bf_reps {#} b \<and> bf_nElements b = 0
    else bf_create bits sizes = Inl Bad_shift"
proof -
  have "\<not> (\<exists>s \<in> set sizes. s < 0)" using assms(2) by force
  moreover have "replicate n 0 = map (\<lambda>j. 0) [0..<n]" for n by (simp add: map_replicate_const)
  ultimately show ?thesis
    using assms bf_mask_loop_fits [of 0 bits]
    by (auto simp: bf_create_def bf_initMasks_def bf_reps_def bf_wf_def bf_counts_def bf_count_nonzero_def
        split: if_splits)
qed

lemma bf_row_eq: "bf_wf b \<Longrightarrow> v < bf_nVectors b \<Longrightarrow> bf_row b v = bf_countVec b ! v"
  by (simp add: bf_row_def bf_wf_def)

lemma bf_layout_same: "bf_layout a b \<Longrightarrow> bf_same_layout a b"
  by (simp add: bf_layout_def bf_same_layout_def)

lemma bf_counts_union:
  "map2 (+) (bf_counts b M i) (bf_counts b N i) = bf_counts b (M + N) i"
  by (intro nth_equalityI) (simp_all add: bf_counts_nth)

lemma bf_counts_diff:
  assumes "N \<subseteq># M"
  shows "map2 (-) (bf_counts b M i) (bf_counts b N i) = bf_counts b (M - N) i"
proof -
  obtain L where "M = N + L" using assms by (metis subset_mset.add_diff_inverse)
  then show ?thesis by (intro nth_equalityI) (simp_all add: bf_counts_nth)
qed

lemma bf_mergeWith_reps:
  assumes a: "bf_reps M a" and b: "bf_reps N b" and lay: "bf_layout a b"
  shows "\<exists>a'. bf_mergeWith a b = Inr a' \<and> bf_reps (M + N) a' \<and> bf_layout a' a \<and>
    bf_nElements a' = bf_nElements a"
proof -
  have wf: "bf_wf a" "bf_wf b" and built: "bf_BFBuild a" "bf_BFBuild b"
    using a b by (auto simp: bf_reps_def bf_wf_def)
  have n: "bf_nVectors b = bf_nVectors a" "bf_counts b = bf_counts a"
    using lay bf_layout_slot [OF lay] by (simp_all add: bf_layout_def)
  have "\<exists>s. for_res [0..<bf_nVectors a] (\<lambda>v s.
        let r = map2 (+) (bf_row s v) (bf_row b v)
        in Inr (s\<lparr>bf_countVec := (bf_countVec s)[v := r],
                  bf_nonZeroCount := (bf_nonZeroCount s)[v := bf_count_nonzero r]\<rparr>)) a = Inr s \<and>
      bf_layout s a \<and> bf_wf s \<and> bf_nElements s = bf_nElements a \<and>
      (\<forall>i < bf_nVectors a. bf_countVec s ! i = bf_counts a (M + N) i \<and>
        bf_nonZeroCount s ! i = bf_count_nonzero (bf_counts a (M + N) i))"
  proof (rule bf_row_loop [OF wf(1)])
    fix i s
    assume i: "i < bf_nVectors a" and "bf_layout s a" "bf_wf s" "bf_countVec s ! i = bf_countVec a ! i"
    then have "bf_row s i = bf_counts a M i" "bf_row b i = bf_counts a N i"
      using a b wf n by (simp_all add: bf_row_eq bf_reps_def bf_layout_def)
    then show "(let r = map2 (+) (bf_row s i) (bf_row b i)
        in Inr (s\<lparr>bf_countVec := (bf_countVec s)[i := r],
                  bf_nonZeroCount := (bf_nonZeroCount s)[i := bf_count_nonzero r]\<rparr>)) =
      Inr (s\<lparr>bf_countVec := (bf_countVec s)[i := bf_counts a (M + N) i],
             bf_nonZeroCount := (bf_nonZeroCount s)[i := bf_count_nonzero (bf_counts a (M + N) i)]\<rparr>)"
      by (simp add: bf_counts_union Let_def)
  qed simp
  then show ?thesis using built bf_layout_same [OF lay] bf_repsI [of _ a "M + N"]
    by (auto simp: bf_mergeWith_def)
qed

lemma bf_subtract_reps:
  assumes a: "bf_reps M a" and b: "bf_reps N b" and lay: "bf_layout a b" and sub: "N \<subseteq># M"
  shows "\<exists>a'. bf_subtract a b = Inr a' \<and> bf_reps (M - N) a' \<and> bf_layout a' a \<and>
    bf_nElements a' = bf_nElements a"
proof -
  have wf: "bf_wf a" "bf_wf b" and built: "bf_BFBuild a" "bf_BFBuild b"
    using a b by (auto simp: bf_reps_def bf_wf_def)
  have n: "bf_nVectors b = bf_nVectors a" "bf_counts b = bf_counts a"
    using lay bf_layout_slot [OF lay] by (simp_all add: bf_layout_def)
  have "\<exists>s. for_res [0..<bf_nVectors a] (\<lambda>v s.
        let r = map2 (-) (bf_row s v) (bf_row b v)
        in assert_res (list_all (\<lambda>x. x \<ge> 0) r)
            (Inr (s\<lparr>bf_countVec := (bf_countVec s)[v := r],
                    bf_nonZeroCount := (bf_nonZeroCount s)[v := bf_count_nonzero r]\<rparr>))) a = Inr s \<and>
      bf_layout s a \<and> bf_wf s \<and> bf_nElements s = bf_nElements a \<and>
      (\<forall>i < bf_nVectors a. bf_countVec s ! i = bf_counts a (M - N) i \<and>
        bf_nonZeroCount s ! i = bf_count_nonzero (bf_counts a (M - N) i))"
  proof (rule bf_row_loop [OF wf(1)])
    fix i s
    assume i: "i < bf_nVectors a" and "bf_layout s a" "bf_wf s" "bf_countVec s ! i = bf_countVec a ! i"
    then have r: "bf_row s i = bf_counts a M i" "bf_row b i = bf_counts a N i"
      using a b wf n by (simp_all add: bf_row_eq bf_reps_def bf_layout_def)
    have "list_all (\<lambda>x. x \<ge> 0) (bf_counts a (M - N) i)"
      by (simp add: list_all_iff bf_counts_nonneg)
    then show "(let r = map2 (-) (bf_row s i) (bf_row b i)
        in assert_res (list_all (\<lambda>x. x \<ge> 0) r) (Inr (s\<lparr>bf_countVec := (bf_countVec s)[i := r],
                  bf_nonZeroCount := (bf_nonZeroCount s)[i := bf_count_nonzero r]\<rparr>))) =
      Inr (s\<lparr>bf_countVec := (bf_countVec s)[i := bf_counts a (M - N) i],
             bf_nonZeroCount := (bf_nonZeroCount s)[i := bf_count_nonzero (bf_counts a (M - N) i)]\<rparr>)"
      using r by (simp add: bf_counts_diff [OF sub] Let_def)
  qed simp
  then show ?thesis using built bf_layout_same [OF lay] bf_repsI [of _ a "M - N"]
    by (auto simp: bf_subtract_def)
qed

lemma bf_isSubsetOf_reps:
  assumes a: "bf_reps M a" and b: "bf_reps N b" and lay: "bf_layout a b" and sub: "M \<subseteq># N"
  shows "bf_isSubsetOf a b = Inr True"
proof -
  have wf: "bf_wf a" "bf_wf b" and built: "bf_BFBuild a" "bf_BFBuild b"
    using a b by (auto simp: bf_reps_def bf_wf_def)
  have n: "bf_nVectors b = bf_nVectors a" "bf_counts b = bf_counts a"
    using lay bf_layout_slot [OF lay] by (simp_all add: bf_layout_def)
  have "list_all (\<lambda>(x, y). \<not> x > y) (zip (bf_row a v) (bf_row b v))" if "v < bf_nVectors a" for v
  proof -
    have "bf_row a v = bf_counts a M v" "bf_row b v = bf_counts a N v"
      using a b wf n that by (simp_all add: bf_row_eq bf_reps_def)
    moreover have "size (filter_mset P M) \<le> size (filter_mset P N)" for P
      using sub by (intro size_mset_mono multiset_filter_mono)
    ultimately show ?thesis
      by (auto simp: list_all_iff in_set_zip bf_counts_nth not_less)
  qed
  then show ?thesis using built bf_layout_same [OF lay] by (simp add: bf_isSubsetOf_def list_all_iff)
qed

lemma bf_mayIntersect_reps:
  assumes a: "bf_reps M a" and b: "bf_reps N b" and lay: "bf_layout a b" and e: "e \<in># M" "e \<in># N"
  shows "bf_mayIntersect a b = Inr True"
proof -
  have wf: "bf_wf a" "bf_wf b" and built: "bf_BFBuild a" "bf_BFBuild b"
    using a b by (auto simp: bf_reps_def bf_wf_def)
  have n: "bf_nVectors b = bf_nVectors a" "bf_counts b = bf_counts a"
    using lay bf_layout_slot [OF lay] by (simp_all add: bf_layout_def)
  have "list_ex (\<lambda>(x, y). x > 0 \<and> y > 0) (zip (bf_row a v) (bf_row b v))" if "v < bf_nVectors a" for v
  proof -
    let ?j = "bf_slot a v e"
    have r: "bf_row a v = bf_counts a M v" "bf_row b v = bf_counts a N v"
      using a b wf n that by (simp_all add: bf_row_eq bf_reps_def)
    have j: "?j < nat (bf_vSize a ! v)" by (rule bf_slot_less [OF wf(1) that])
    have pos: "0 < bf_counts a K v ! ?j" if "e \<in># K" for K
      using j that by (auto simp: bf_counts_nth filter_mset_eq_conv nonempty_has_size [symmetric])
    have "(bf_counts a M v ! ?j, bf_counts a N v ! ?j) \<in> set (zip (bf_row a v) (bf_row b v))"
      using j r by (auto simp: in_set_zip)
    then show ?thesis using pos [OF e(1)] pos [OF e(2)] unfolding list_ex_iff by blast
  qed
  then show ?thesis using built bf_layout_same [OF lay] by (simp add: bf_mayIntersect_def list_all_iff)
qed

section \<open>The contract of a membership filter\<close>

text \<open>A filter that answers membership of the elements it holds, possibly with false positives.\<close>

locale membership_filter =
  fixes holds :: "'e multiset \<Rightarrow> 'f \<Rightarrow> bool"
    and ins :: "'e \<Rightarrow> 'f \<Rightarrow> 'f res" and rem :: "'e \<Rightarrow> 'f \<Rightarrow> 'f res"
    and query :: "'e \<Rightarrow> 'f \<Rightarrow> bool res" and count :: "'f \<Rightarrow> int"
  assumes ins_holds: "holds M f \<Longrightarrow>
      \<exists>f'. ins e f = Inr f' \<and> holds (add_mset e M) f' \<and> count f' = count f + 1"
    and rem_holds: "holds M f \<Longrightarrow> e \<in># M \<Longrightarrow> 0 < count f \<Longrightarrow>
      \<exists>f'. rem e f = Inr f' \<and> holds (M - {#e#}) f' \<and> count f' = count f - 1"
    and query_holds: "holds M f \<Longrightarrow> e \<in># M \<Longrightarrow> query e f = Inr True"

datatype 'e filter_op = Filter_insert 'e | Filter_remove 'e

fun filter_run ::
  "('e \<Rightarrow> 'f \<Rightarrow> 'f res) \<Rightarrow> ('e \<Rightarrow> 'f \<Rightarrow> 'f res) \<Rightarrow> 'e filter_op list \<Rightarrow> 'f \<Rightarrow> 'f res" where
  "filter_run ins rem [] f = Inr f"
| "filter_run ins rem (Filter_insert e # ops) f = bind_res (ins e f) (filter_run ins rem ops)"
| "filter_run ins rem (Filter_remove e # ops) f = bind_res (rem e f) (filter_run ins rem ops)"

text \<open>The elements left by a run that only removes what is there, or none.\<close>

fun filter_content :: "'e filter_op list \<Rightarrow> 'e multiset \<Rightarrow> 'e multiset option" where
  "filter_content [] M = Some M"
| "filter_content (Filter_insert e # ops) M = filter_content ops (add_mset e M)"
| "filter_content (Filter_remove e # ops) M =
    (if e \<in># M then filter_content ops (M - {#e#}) else None)"

context membership_filter
begin

lemma run_holds:
  "holds M f \<Longrightarrow> count f = int (size M) \<Longrightarrow> filter_content ops M = Some N \<Longrightarrow>
    \<exists>f'. filter_run ins rem ops f = Inr f' \<and> holds N f' \<and> count f' = int (size N)"
proof (induction ops M arbitrary: f rule: filter_content.induct)
  case (1 M)
  then show ?case by simp
next
  case (2 e ops M)
  obtain f' where "ins e f = Inr f'" "holds (add_mset e M) f'" "count f' = count f + 1"
    using ins_holds [OF "2.prems"(1)] by blast
  then show ?case using "2.IH" [of f'] "2.prems" by simp
next
  case (3 e ops M)
  then have e: "e \<in># M" "filter_content ops (M - {#e#}) = Some N" by (auto split: if_splits)
  have sz: "0 < size M" using e(1) by (auto simp: nonempty_has_size [symmetric])
  then obtain f' where "rem e f = Inr f'" "holds (M - {#e#}) f'" "count f' = count f - 1"
    using rem_holds [OF "3.prems"(1) e(1)] "3.prems"(2) by auto
  moreover have "int (size (M - {#e#})) = int (size M) - 1" using e(1) sz by (simp add: size_Diff_singleton)
  ultimately show ?case using "3.IH" [OF e(1), of f'] "3.prems" e by simp
qed

lemma run_no_false_negative:
  assumes "holds M f" and "count f = int (size M)" and "filter_content ops M = Some N"
  shows "\<exists>f'. filter_run ins rem ops f = Inr f' \<and> count f' = int (size N) \<and>
    (\<forall>e. e \<in># N \<longrightarrow> query e f' = Inr True)"
  using run_holds [OF assms] query_holds by blast

end

interpretation bf: membership_filter bf_reps bf_insert bf_remove bf_mayExist bf_nElements
proof (unfold_locales, goal_cases)
  case (1 M f e)
  then show ?case using bf_insert_reps by blast
next
  case (2 M f e)
  then show ?case using bf_remove_reps by blast
next
  case (3 M f e)
  then show ?case by (auto simp: bf_mayExist_reps)
qed

section \<open>Properties\<close>

text \<open>
  C33. A filter of any layout that fits the 32 bits of an element, with sizes between 1 and
  \<open>2 ^ 31 - 1\<close>, after any sequence of insertions and of removals of elements that
  are there, has failed no assertion, counts exactly the remaining elements in \<open>size()\<close>, and
  answers "may exist" for each of them: no false negatives, removals included. The construction
  of a layout that does not fit shifts by 32 or more, or by a negative distance.
\<close>

theorem bf_no_false_negatives:
  assumes "length bits = length sizes" and "\<forall>s \<in> set sizes. 0 < s \<and> s < 2 ^ 31"
    and "filter_content ops {#} = Some N"
  shows "if bf_fits bits
    then \<exists>b b'. bf_create bits sizes = Inr b \<and> filter_run bf_insert bf_remove ops b = Inr b' \<and>
      bf_nElements b' = int (size N) \<and> (\<forall>e. e \<in># N \<longrightarrow> bf_mayExist e b' = Inr True)
    else bf_create bits sizes = Inl Bad_shift"
proof (cases "bf_fits bits")
  case True
  then obtain b where b: "bf_create bits sizes = Inr b" "bf_reps {#} b" "bf_nElements b = 0"
    using bf_create_reps [OF assms(1,2)] by auto
  have "bf_nElements b = int (size ({#} :: u32 multiset))" using b(3) by simp
  from bf.run_no_false_negative [OF b(2) this assms(3)] show ?thesis using b(1) True by auto
next
  case False
  then show ?thesis using bf_create_reps [OF assms(1,2)] by simp
qed

theorem bf_no_false_negatives_witness:
  "\<exists>b b'. bf_create [4, 3] [16, 8] = Inr b \<and>
    filter_run bf_insert bf_remove [Filter_insert 5, Filter_insert 21, Filter_remove 5] b = Inr b' \<and>
    bf_nElements b' = 1 \<and> bf_mayExist 21 b' = Inr True"
proof -
  have "bf_fits [4, 3]" by (auto simp: bf_fits_at_def less_Suc_eq)
  then show ?thesis
    using bf_no_false_negatives [of "[4, 3]" "[16, 8]"
        "[Filter_insert 5, Filter_insert 21, Filter_remove 5]" "{#21#}"] by auto
qed

text \<open>
  What a filter answers is exactly the collision condition: an element may exist if and only
  if in every vector some held element falls into its slot. The merge of two filters of the same
  layout holds the union of their multisets and the subtraction of a contained filter the
  difference, while \<open>size()\<close> keeps the count of the left filter in both; containment and
  common elements are always answered positively.
\<close>

theorem bf_algebra:
  assumes "bf_reps M a" and "bf_reps N b" and "bf_layout a b"
  shows "bf_mayExist e a = Inr (\<forall>i < bf_nVectors a. \<exists>x \<in># M. bf_slot a i x = bf_slot a i e) \<and>
    (\<exists>c. bf_mergeWith a b = Inr c \<and> bf_reps (M + N) c \<and> bf_nElements c = bf_nElements a) \<and>
    (N \<subseteq># M \<longrightarrow> (\<exists>c. bf_subtract a b = Inr c \<and> bf_reps (M - N) c) \<and> bf_isSubsetOf b a = Inr True) \<and>
    (M \<inter># N \<noteq> {#} \<longrightarrow> bf_mayIntersect a b = Inr True)"
proof (intro conjI impI)
  show "bf_mayExist e a = Inr (\<forall>i < bf_nVectors a. \<exists>x \<in># M. bf_slot a i x = bf_slot a i e)"
    by (rule bf_mayExist_reps [OF assms(1)])
  show "\<exists>c. bf_mergeWith a b = Inr c \<and> bf_reps (M + N) c \<and> bf_nElements c = bf_nElements a"
    using bf_mergeWith_reps [OF assms] by blast
  show "\<exists>c. bf_subtract a b = Inr c \<and> bf_reps (M - N) c" if "N \<subseteq># M"
    using bf_subtract_reps [OF assms that] by blast
  have "bf_layout b a" using assms(3) by (simp add: bf_layout_def)
  then show "bf_isSubsetOf b a = Inr True" if "N \<subseteq># M"
    by (rule bf_isSubsetOf_reps [OF assms(2,1) _ that])
  show "bf_mayIntersect a b = Inr True" if "M \<inter># N \<noteq> {#}"
  proof -
    note ne = that
    obtain x where "x \<in># M \<inter># N" using multiset_nonemptyE [OF ne] by blast
    then have "x \<in># M" "x \<in># N" by simp_all
    then show ?thesis by (rule bf_mayIntersect_reps [OF assms])
  qed
qed

theorem bf_algebra_witness:
  "\<exists>b c d. bf_create [4] [16] = Inr b \<and> bf_insert 3 b = Inr c \<and> bf_mergeWith b c = Inr d \<and>
    bf_reps {#3#} d \<and> bf_nElements d = 0"
proof -
  obtain b where b: "bf_create [4] [16] = Inr b" "bf_reps {#} b" "bf_nElements b = 0"
    using bf_create_reps [of "[4]" "[16]"] by (auto simp: bf_fits_at_def)
  obtain c where c: "bf_insert 3 b = Inr c" "bf_reps {#3#} c" "bf_layout c b"
    using bf_insert_reps [OF b(2), of 3] by blast
  have "bf_layout b c" using c(3) by (simp add: bf_layout_def)
  from bf_algebra [OF b(2) c(2) this] show ?thesis using b c by auto
qed

text \<open>
  A merge does not count the merged elements: the removal of an element that a fresh filter
  got by a merge updates every counter and then fails the assertion on the element count.
\<close>

theorem bf_merge_then_remove_fails:
  assumes "bf_reps {#} a" and "bf_nElements a = 0" and "bf_reps {#e#} b" and "bf_layout a b"
  shows "\<exists>c. bf_mergeWith a b = Inr c \<and> bf_mayExist e c = Inr True \<and> bf_remove e c = Inl Assert_failed"
proof -
  obtain c where c: "bf_mergeWith a b = Inr c" "bf_reps {#e#} c" "bf_nElements c = 0"
    using bf_mergeWith_reps [OF assms(1,3,4)] assms(2) by auto
  have "bf_mayExist e c = Inr True" by (simp add: bf_mayExist_reps [OF c(2)])
  moreover have "bf_remove e c = Inl Assert_failed"
    using bf_remove_loop [OF c(2), of e] c(3) by auto
  ultimately show ?thesis using c(1) by blast
qed

theorem bf_merge_then_remove_fails_witness:
  "\<exists>a b c. bf_create [4] [16] = Inr a \<and> bf_insert 3 a = Inr b \<and> bf_mergeWith a b = Inr c \<and>
    bf_remove 3 c = Inl Assert_failed"
proof -
  obtain a where a: "bf_create [4] [16] = Inr a" "bf_reps {#} a" "bf_nElements a = 0"
    using bf_create_reps [of "[4]" "[16]"] by (auto simp: bf_fits_at_def)
  obtain b where b: "bf_insert 3 a = Inr b" "bf_reps {#3#} b" "bf_layout b a"
    using bf_insert_reps [OF a(2), of 3] by blast
  have "bf_layout a b" using b(3) by (simp add: bf_layout_def)
  from bf_merge_then_remove_fails [OF a(2,3) b(2) this] show ?thesis using a b by auto
qed

lemma bf_rle_run:
  "fst (fold (bf_rle_step base k) (replicate n base) (r, l)) = r"
  by (induction n arbitrary: l) (simp_all add: bf_rle_step_def)

text \<open>
  The run-length size never counts the last run: of a filter whose last counters equal the
  base value, any number of them may follow without changing the answer, and an empty filter has
  the run-length size 0.
\<close>

theorem bf_rle_drops_last_run:
  assumes "bf_BFBuild b" and "concat (map (bf_row b) [0..<bf_nVectors b]) = xs @ replicate n base"
  shows "bf_getSizeRLE base k b = fst (fold (bf_rle_step base k) xs (0, 0))"
proof -
  obtain r l where f: "fold (bf_rle_step base k) xs (0, 0) = (r, l)" by fastforce
  have "bf_getSizeRLE base k b = fst (fold (bf_rle_step base k) (replicate n base) (r, l))"
    using assms f by (simp add: bf_getSizeRLE_def del: fold_replicate)
  then show ?thesis by (simp only: bf_rle_run f fst_conv)
qed

theorem bf_rle_drops_last_run_witness:
  "\<exists>b. bf_create [4] [16] = Inr b \<and> bf_getSizeRLE 0 7 b = 0"
proof -
  obtain b where b: "bf_create [4] [16] = Inr b" "bf_BFBuild b" "bf_nVectors b = 1"
      "bf_row b 0 = replicate 16 0"
    by (simp add: bf_create_def bf_initMasks_def bf_row_def numeral_eq_Suc)
  then show ?thesis using bf_rle_drops_last_run [of b "[]" 16 0 7] by simp
qed

lemma bs_create_loop:
  "length (bs_bits s) + length ps \<le> 32 \<Longrightarrow> \<forall>p \<in> set ps. p < 32 \<Longrightarrow>
    for_res ps bs_addBit s = Inr (s\<lparr>bs_bits := bs_bits s @ ps, bs_mask := bs_mask s @ map (\<lambda>b. push_bit b 1) ps\<rparr>)"
  by (induction ps arbitrary: s) (auto simp: bs_addBit_def)

lemma bs_bit_test: "p < 32 \<Longrightarrow> (val :: u32) AND push_bit p 1 \<noteq> 0 \<longleftrightarrow> bit val p"
  by (simp add: and_exp_eq_0_iff_not_bit push_bit_eq_mult)

lemma bs_permute_loop:
  assumes "\<forall>p \<in> set ps. p < 32" and "k + length ps \<le> 32" and "\<forall>i \<ge> k. \<not> bit (r :: u32) i"
  shows "bit (fold (\<lambda>(i, m) res. res OR push_bit i (if val AND m \<noteq> 0 then 1 else 0))
      (enumerate k (map (\<lambda>b. push_bit b 1) ps)) r) i \<longleftrightarrow>
    (if i < k then bit r i else i < k + length ps \<and> bit (val :: u32) (ps ! (i - k)))"
  using assms
proof (induction ps arbitrary: k r)
  case Nil
  then show ?case by auto
next
  case (Cons p ps)
  define r' where "r' = r OR push_bit k (if val AND push_bit p 1 \<noteq> 0 then 1 else 0)"
  have p: "p < 32" "k < 32" using Cons.prems by auto
  have br: "bit r' j \<longleftrightarrow> (if j = k then bit val p else bit r j)" for j
    using Cons.prems(3) p bs_bit_test [OF p(1), of val]
    by (auto simp: r'_def bit_or_iff bit_push_bit_iff bit_1_iff)
  have step: "fold (\<lambda>(i, m) res. res OR push_bit i (if val AND m \<noteq> 0 then 1 else 0))
      (enumerate k (map (\<lambda>b. push_bit b 1) (p # ps))) r
    = fold (\<lambda>(i, m) res. res OR push_bit i (if val AND m \<noteq> 0 then 1 else 0))
      (enumerate (Suc k) (map (\<lambda>b. push_bit b 1) ps)) r'"
    by (simp add: r'_def)
  have "\<forall>j \<ge> Suc k. \<not> bit r' j" using Cons.prems(3) by (simp add: br)
  from Cons.IH [OF _ _ this] Cons.prems(1,2) show ?case
    unfolding step by (auto simp: br less_Suc_eq nth_Cons' Suc_diff_Suc)
qed

text \<open>
  A bit selection gathers the chosen bits in order: bit \<open>i\<close> of the permuted value is bit
  \<open>bs ! i\<close> of the argument, for any choice of at most 32 positions below 32, repeated ones
  included, and the higher bits are zero.
\<close>

theorem bs_permute_gathers:
  assumes "length ps \<le> 32" and "\<forall>p \<in> set ps. p < 32"
  shows "\<exists>s. bs_create ps = Inr s \<and>
    (\<forall>i. bit (bs_permute s val) i \<longleftrightarrow> i < length ps \<and> bit val (ps ! i))"
proof -
  have "bs_create ps = Inr \<lparr>bs_bits = ps, bs_mask = map (\<lambda>b. push_bit b 1) ps\<rparr>"
    using bs_create_loop [of "\<lparr>bs_bits = [], bs_mask = []\<rparr>" ps] assms by (simp add: bs_create_def)
  moreover have "bit (bs_permute \<lparr>bs_bits = ps, bs_mask = map (\<lambda>b. push_bit b 1) ps\<rparr> val) i \<longleftrightarrow>
      i < length ps \<and> bit val (ps ! i)" for i
    unfolding bs_permute_def bit_selection.simps
    by (subst bs_permute_loop) (use assms in auto)
  ultimately show ?thesis by blast
qed

theorem bs_permute_gathers_witness:
  "\<exists>s. bs_create [4, 0] = Inr s \<and>
    (\<forall>i. bit (bs_permute s 16) i \<longleftrightarrow> i < length [4 :: nat, 0] \<and> bit (16 :: u32) ([4, 0] ! i))"
  by (rule bs_permute_gathers) simp_all

end
