(* ===== verification/Instruction.thy ===== *)
theory Instruction
  imports Desesc_Prelude
begin

text \<open>
  \<open>emul/opcode.hpp\<close> and \<open>emul/instruction.hpp\<close>: the opcodes, ordered as the C++
  enumeration is, the logical registers that the code names, and the predicates that classify
  an instruction. A register is its number in the enumeration \<open>RegType\<close>.
\<close>

section \<open>Opcodes and registers\<close>

datatype opcode =
    iOpInvalid | iRALU | iAALU
  | iBALU_LBRANCH | iBALU_RBRANCH | iBALU_LJUMP | iBALU_RJUMP | iBALU_LCALL | iBALU_RCALL | iBALU_RET
  | iLALU_LD
  | iSALU_ST | iSALU_LL | iSALU_SC | iSALU_ADDR
  | iCALU_FPMULT | iCALU_FPDIV | iCALU_FPALU | iCALU_MULT | iCALU_DIV
  | iMAX

fun opcode_code :: "opcode \<Rightarrow> nat" where
  "opcode_code iOpInvalid = 0"
| "opcode_code iRALU = 1"
| "opcode_code iAALU = 2"
| "opcode_code iBALU_LBRANCH = 3"
| "opcode_code iBALU_RBRANCH = 4"
| "opcode_code iBALU_LJUMP = 5"
| "opcode_code iBALU_RJUMP = 6"
| "opcode_code iBALU_LCALL = 7"
| "opcode_code iBALU_RCALL = 8"
| "opcode_code iBALU_RET = 9"
| "opcode_code iLALU_LD = 10"
| "opcode_code iSALU_ST = 11"
| "opcode_code iSALU_LL = 12"
| "opcode_code iSALU_SC = 13"
| "opcode_code iSALU_ADDR = 14"
| "opcode_code iCALU_FPMULT = 15"
| "opcode_code iCALU_FPDIV = 16"
| "opcode_code iCALU_FPALU = 17"
| "opcode_code iCALU_MULT = 18"
| "opcode_code iCALU_DIV = 19"
| "opcode_code iMAX = 20"

lemma opcode_code_inject: "opcode_code a = opcode_code b \<Longrightarrow> a = b"
  by (cases a; cases b; simp)

instantiation opcode :: linorder
begin

definition less_eq_opcode :: "opcode \<Rightarrow> opcode \<Rightarrow> bool" where
  "less_eq_opcode a b \<longleftrightarrow> opcode_code a \<le> opcode_code b"

definition less_opcode :: "opcode \<Rightarrow> opcode \<Rightarrow> bool" where
  "less_opcode a b \<longleftrightarrow> opcode_code a < opcode_code b"

instance
  by intro_classes (auto simp: less_eq_opcode_def less_opcode_def dest: opcode_code_inject)

end

text \<open>\<open>format_as\<close>: the table of the names.\<close>

definition opcode_names :: "string list" where
  "opcode_names =
    [''iOpInvalid'', ''iRALU'', ''iAALU'', ''iBALU_LBRANCH'', ''iBALU_RBRANCH'', ''iBALU_LJUMP'',
     ''iBALU_RJUMP'', ''iBALU_LCALL'', ''iBALU_RCALL'', ''iBALU_RET'', ''iLALU_LD'', ''iSALU_ST'',
     ''iSALU_LL'', ''iSALU_SC'', ''iSALU_ADDR'', ''iCALU_FPMULT'', ''iCALU_FPDIV'',
     ''iCALU_FPALU'', ''iCALU_MULT'', ''iCALU_DIV'', ''iMAX'']"

definition opcode_format :: "opcode \<Rightarrow> string" where
  "opcode_format op =
    (let idx = opcode_code op
     in if idx < length opcode_names then opcode_names ! idx else ''invalid_OPCODE'')"

type_synonym reg_type = nat

definition LREG_R0 :: reg_type where "LREG_R0 = 0"
definition LREG_NoDependence :: reg_type where "LREG_NoDependence = LREG_R0"
definition LREG_ARCH0 :: reg_type where "LREG_ARCH0 = 97"
definition LREG_InvalidOutput :: reg_type where "LREG_InvalidOutput = 120"

definition is_arch :: "reg_type \<Rightarrow> bool" where
  "is_arch r \<longleftrightarrow> r < LREG_ARCH0"

section \<open>Instructions\<close>

record instruction =
  in_opcode :: opcode
  in_src1 :: reg_type
  in_src2 :: reg_type
  in_dst1 :: reg_type
  in_dst2 :: reg_type

definition in_set ::
  "opcode \<Rightarrow> reg_type \<Rightarrow> reg_type \<Rightarrow> reg_type \<Rightarrow> reg_type \<Rightarrow> instruction \<Rightarrow> instruction res" where
  "in_set op s1 s2 d1 d2 i =
    assert_res (op \<noteq> iOpInvalid)
      (Inr (i\<lparr>in_opcode := op, in_src1 := s1, in_src2 := s2,
              in_dst1 := (if d1 = LREG_NoDependence then LREG_InvalidOutput else d1),
              in_dst2 := (if d2 = LREG_NoDependence then LREG_InvalidOutput else d2)\<rparr>))"

definition doesJump2Label :: "instruction \<Rightarrow> bool" where
  "doesJump2Label i \<longleftrightarrow> in_opcode i = iBALU_LJUMP \<or> in_opcode i = iBALU_LCALL"

definition doesCtrl2Label :: "instruction \<Rightarrow> bool" where
  "doesCtrl2Label i \<longleftrightarrow>
    in_opcode i = iBALU_LJUMP \<or> in_opcode i = iBALU_LCALL \<or> in_opcode i = iBALU_LBRANCH"

definition hasDstRegister :: "instruction \<Rightarrow> bool" where
  "hasDstRegister i \<longleftrightarrow> in_dst1 i \<noteq> LREG_InvalidOutput \<or> in_dst2 i \<noteq> LREG_InvalidOutput"

definition hasSrc1Register :: "instruction \<Rightarrow> bool" where
  "hasSrc1Register i \<longleftrightarrow> in_src1 i \<noteq> LREG_NoDependence"

definition hasSrc2Register :: "instruction \<Rightarrow> bool" where
  "hasSrc2Register i \<longleftrightarrow> in_src2 i \<noteq> LREG_NoDependence"

definition getnsrc :: "instruction \<Rightarrow> nat" where
  "getnsrc i = (if hasSrc1Register i then 1 else 0) + (if hasSrc2Register i then 1 else 0)"

definition isFuncCall :: "instruction \<Rightarrow> bool" where
  "isFuncCall i \<longleftrightarrow> in_opcode i = iBALU_RCALL \<or> in_opcode i = iBALU_LCALL"

definition isFuncRet :: "instruction \<Rightarrow> bool" where
  "isFuncRet i \<longleftrightarrow> in_opcode i = iBALU_RET"

definition isBranch :: "instruction \<Rightarrow> bool" where
  "isBranch i \<longleftrightarrow> in_opcode i = iBALU_RBRANCH \<or> in_opcode i = iBALU_LBRANCH"

definition isJump :: "instruction \<Rightarrow> bool" where
  "isJump i \<longleftrightarrow> in_opcode i = iBALU_RJUMP \<or> in_opcode i = iBALU_LJUMP \<or> isFuncCall i"

definition isControl :: "instruction \<Rightarrow> bool res" where
  "isControl i =
    (let c = iBALU_LBRANCH \<le> in_opcode i \<and> in_opcode i \<le> iBALU_RET
     in assert_res (c \<longrightarrow> isJump i \<or> isBranch i \<or> isFuncCall i \<or> isFuncRet i) (Inr c))"

definition isALU :: "instruction \<Rightarrow> bool" where
  "isALU i \<longleftrightarrow> in_opcode i = iAALU"

definition isLoad :: "instruction \<Rightarrow> bool" where
  "isLoad i \<longleftrightarrow> in_opcode i = iLALU_LD"

definition isStore :: "instruction \<Rightarrow> bool" where
  "isStore i \<longleftrightarrow> in_opcode i = iSALU_ST \<or> in_opcode i = iSALU_SC \<or> in_opcode i = iSALU_LL"

definition isComplex :: "instruction \<Rightarrow> bool" where
  "isComplex i \<longleftrightarrow> iCALU_FPMULT \<le> in_opcode i \<and> in_opcode i \<le> iCALU_DIV"

definition isStoreAddress :: "instruction \<Rightarrow> bool" where
  "isStoreAddress i \<longleftrightarrow> in_opcode i = iSALU_ADDR"

definition isMemory :: "instruction \<Rightarrow> bool" where
  "isMemory i \<longleftrightarrow> isLoad i \<or> isStore i"

section \<open>Classification\<close>

named_theorems inst_defs "the predicates on instructions"

declare
  doesJump2Label_def [inst_defs] doesCtrl2Label_def [inst_defs] isFuncCall_def [inst_defs]
  isFuncRet_def [inst_defs] isBranch_def [inst_defs] isJump_def [inst_defs] isControl_def [inst_defs]
  isALU_def [inst_defs] isLoad_def [inst_defs] isStore_def [inst_defs] isComplex_def [inst_defs]
  isStoreAddress_def [inst_defs] isMemory_def [inst_defs] less_eq_opcode_def [inst_defs]

lemma isControl_total: "isControl i = Inr (isJump i \<or> isBranch i \<or> isFuncRet i)"
  by (cases "in_opcode i") (simp_all add: inst_defs)

lemma opcode_names_distinct: "distinct opcode_names"
  by (simp add: opcode_names_def)

lemma opcode_names_length: "length opcode_names = 21"
  by (simp add: opcode_names_def)

lemma opcode_code_bound: "opcode_code op < 21"
  by (cases op) simp_all

text \<open>
  C37. The classification of instructions is a partition: \<open>isControl\<close> never fails its
  assertion, and each of the opcodes of an instruction falls into exactly one of the classes
  control, ALU, load, store, store address and complex, while the two markers and the plain register
  opcode fall into none; every jump to a label is a jump and every control transfer to a label is a control transfer; and the
  printed names tell all opcodes apart, the markers included.
\<close>

theorem instruction_classes_partition:
  "(\<exists>c. isControl i = Inr c \<and>
      length (filter id [c, isALU i, isLoad i, isStore i, isStoreAddress i, isComplex i]) =
        (if in_opcode i \<in> {iOpInvalid, iRALU, iMAX} then 0 else 1) \<and>
      (doesCtrl2Label i \<longrightarrow> c) \<and> (doesJump2Label i \<longrightarrow> isJump i \<and> \<not> isBranch i)) \<and>
    (opcode_format op = opcode_format op' \<longleftrightarrow> op = op')"
proof (rule conjI)
  show "\<exists>c. isControl i = Inr c \<and>
      length (filter id [c, isALU i, isLoad i, isStore i, isStoreAddress i, isComplex i]) =
        (if in_opcode i \<in> {iOpInvalid, iRALU, iMAX} then 0 else 1) \<and>
      (doesCtrl2Label i \<longrightarrow> c) \<and> (doesJump2Label i \<longrightarrow> isJump i \<and> \<not> isBranch i)"
    by (cases "in_opcode i") (auto simp: inst_defs)
  show "opcode_format op = opcode_format op' \<longleftrightarrow> op = op'"
    by (auto simp: opcode_format_def opcode_names_length opcode_code_bound
        nth_eq_iff_index_eq [OF opcode_names_distinct] opcode_code_inject)
qed

lemma instruction_classes_partition_witness:
  "\<exists>c. isControl \<lparr>in_opcode = iBALU_LCALL, in_src1 = 1, in_src2 = 2, in_dst1 = 3, in_dst2 = 120\<rparr> = Inr c \<and> c"
proof -
  let ?i = "\<lparr>in_opcode = iBALU_LCALL, in_src1 = 1, in_src2 = 2, in_dst1 = 3, in_dst2 = 120\<rparr>"
  have "doesCtrl2Label ?i" by (simp add: inst_defs)
  with instruction_classes_partition [of ?i iRALU iMAX] show ?thesis by auto
qed

end
