(* ===== verification/Dinst.thy ===== *)
theory Dinst
  imports Instruction Pool
begin

text \<open>
  \<open>emul/dinst.hpp\<close> and \<open>emul/dinst.cpp\<close>: the dynamic instruction, as compiled in a
  debug build with \<open>DINST_PARENT\<close> and without \<open>ESESC_TRACE_DATA\<close>. Instructions are
  objects of a pool and are named by their number there; a store maps the numbers to records.
  The three embedded \<open>DinstNext\<close> nodes of an instruction are named by the instruction and
  the source (\<open>pend[0]\<close> to \<open>pend[2]\<close>), so that \<open>getDinst()\<close>, set once by the
  constructor, is the first component of the name. The entries of the register alias tables
  that an instruction points to are cells of a separate memory.
\<close>

section \<open>State\<close>

datatype src_slot = Src1 | Src2 | Src3

type_synonym dep_node = "nat \<times> src_slot"

record dinst_next =
  dn_parent :: "nat option"
  dn_nextDep :: "dep_node option"
  dn_isUsed :: bool

record dinst_flags =
  fl_branchMiss :: bool
  fl_use_level3 :: bool
  fl_branch_hit2_miss3 :: bool
  fl_branch_hit3_miss2 :: bool
  fl_branchHit_level1 :: bool
  fl_branchHit_level2 :: bool
  fl_branchHit_level3 :: bool
  fl_branchMiss_level1 :: bool
  fl_branchMiss_level2 :: bool
  fl_branchMiss_level3 :: bool
  fl_level3_NoPrediction :: bool
  fl_retired :: bool
  fl_loadForwarded :: bool
  fl_replay :: bool
  fl_performed :: bool
  fl_interCluster :: bool
  fl_keep_stats :: bool
  fl_biasBranch :: bool
  fl_imli_highconf :: bool
  fl_prefetch :: bool
  fl_dispatched :: bool
  fl_fullMiss :: bool
  fl_speculative :: bool
  fl_transient :: bool
  fl_del_entry :: bool
  fl_is_rrob :: bool
  fl_present_in_rob :: bool
  fl_present_in_scb :: bool
  fl_in_cluster :: bool
  fl_flush_transient :: bool
  fl_try_flush_transient :: bool
  fl_to_be_destroyed :: bool
  fl_to_be_load_destroyed :: bool
  fl_load_destroyed_retired_spec :: bool
  fl_load_destroyed_retired_safe_write :: bool
  fl_load_destroyed_performed_spec :: bool
  fl_load_destroyed_performed_safe_write :: bool
  fl_destroy_transient :: bool
  fl_to_be_load_scb_all :: bool
  fl_write_scb_r :: bool

record dinst =
  di_pend :: "src_slot \<Rightarrow> dinst_next"
  di_last :: "dep_node option"
  di_first :: "dep_node option"
  di_fid :: u32
  di_fetched :: sim_time
  di_renamed :: sim_time
  di_issued :: sim_time
  di_executing :: sim_time
  di_executed :: sim_time
  di_flags :: dinst_flags
  di_SSID :: int
  di_conflictStorePC :: addr
  di_inst :: instruction
  di_pc :: addr
  di_addr :: addr
  di_inflight :: u64
  di_bb :: int
  di_cluster :: "nat option"
  di_resource :: "nat option"
  di_scb :: "nat option"
  di_RAT1Entry :: "nat option"
  di_RAT2Entry :: "nat option"
  di_serializeEntry :: "nat option"
  di_fetch :: "nat option"
  di_gproc :: "nat option"
  di_nDeps :: int
  di_ID :: u64
  di_original_id :: u64
  di_mreq_id :: u64

record dinst_store =
  ds_obj :: "nat \<Rightarrow> dinst"
  ds_pool :: pool
  ds_currentID :: u64
  ds_current_original_id :: u64
  ds_rat :: "nat \<Rightarrow> nat option"
  ds_globalClock :: sim_time

definition MAX_PENDING_SOURCES :: int where
  "MAX_PENDING_SOURCES = 3"

definition di_set :: "(dinst_flags \<Rightarrow> dinst_flags) \<Rightarrow> dinst \<Rightarrow> dinst" where
  "di_set f d = d\<lparr>di_flags := f (di_flags d)\<rparr>"

definition ds_update :: "nat \<Rightarrow> (dinst \<Rightarrow> dinst) \<Rightarrow> dinst_store \<Rightarrow> dinst_store" where
  "ds_update n f s = s\<lparr>ds_obj := (ds_obj s)(n := f (ds_obj s n))\<rparr>"

section \<open>Creation\<close>

definition dn_idle :: dinst_next where
  "dn_idle = \<lparr>dn_parent = None, dn_nextDep = None, dn_isUsed = False\<rparr>"

text \<open>
  \<open>setup\<close>: \<open>present_in_rob\<close> is assigned twice and \<open>present_in_scb\<close> never;
  \<open>keep_stats\<close> and \<open>original_id\<close> are not assigned either.
\<close>

definition di_setup_flags :: "dinst_flags \<Rightarrow> dinst_flags" where
  "di_setup_flags f = f
    \<lparr>fl_branchMiss := False,
     fl_use_level3 := False,
     fl_branch_hit2_miss3 := False,
     fl_branch_hit3_miss2 := False,
     fl_branchHit_level1 := False,
     fl_branchHit_level2 := False,
     fl_branchHit_level3 := False,
     fl_branchMiss_level1 := False,
     fl_branchMiss_level2 := False,
     fl_branchMiss_level3 := False,
     fl_level3_NoPrediction := False,
     fl_retired := False,
     fl_loadForwarded := False,
     fl_replay := False,
     fl_performed := False,
     fl_interCluster := False,
     fl_biasBranch := False,
     fl_imli_highconf := False,
     fl_prefetch := False,
     fl_dispatched := False,
     fl_fullMiss := False,
     fl_speculative := True,
     fl_transient := False,
     fl_del_entry := False,
     fl_is_rrob := False,
     fl_present_in_rob := False,
     fl_in_cluster := False,
     fl_flush_transient := False,
     fl_try_flush_transient := False,
     fl_to_be_destroyed := False,
     fl_to_be_load_destroyed := False,
     fl_load_destroyed_retired_spec := False,
     fl_load_destroyed_retired_safe_write := False,
     fl_load_destroyed_performed_spec := False,
     fl_load_destroyed_performed_safe_write := False,
     fl_destroy_transient := False,
     fl_to_be_load_scb_all := False,
     fl_write_scb_r := False\<rparr>"

definition di_setup :: "nat \<Rightarrow> dinst_store \<Rightarrow> dinst_store" where
  "di_setup n s =
    (let s' = s\<lparr>ds_currentID := ds_currentID s + 1\<rparr>
     in ds_update n (\<lambda>d. d
      \<lparr>di_pend := (\<lambda>_. dn_idle), di_last := None, di_first := None,
       di_fetched := 0, di_renamed := 0, di_issued := 0, di_executing := 0, di_executed := 0,
       di_flags := di_setup_flags (di_flags d),
       di_SSID := - 1, di_conflictStorePC := 0,
       di_cluster := None, di_resource := None, di_scb := None,
       di_RAT1Entry := None, di_RAT2Entry := None, di_serializeEntry := None,
       di_fetch := None, di_gproc := None, di_nDeps := 0,
       di_ID := ds_currentID s, di_mreq_id := 0\<rparr>) s')"

definition di_create ::
  "nat \<Rightarrow> instruction \<Rightarrow> addr \<Rightarrow> addr \<Rightarrow> u32 \<Rightarrow> bool \<Rightarrow> dinst_store \<Rightarrow> (nat \<times> dinst_store) res"
  where
  "di_create self inst pc address fid keep_stats s =
    bind_res (pool_out self (ds_pool s)) (\<lambda>(n, p).
      assert_res (in_opcode inst \<noteq> iOpInvalid)
       (let s = s\<lparr>ds_pool := p\<rparr>;
            s = ds_update n (\<lambda>d. di_set (fl_keep_stats_update (\<lambda>_. keep_stats))
                  (d\<lparr>di_fid := fid, di_inst := inst, di_pc := pc, di_addr := address,
                     di_inflight := 0, di_bb := - 1, di_fetched := 0\<rparr>)) s;
            s = di_setup n s
        in assert_res (in_opcode (di_inst (ds_obj s n)) \<noteq> iOpInvalid) (Inr (n, s))))"

section \<open>Flags\<close>

definition di_set_safe :: "dinst \<Rightarrow> dinst" where
  "di_set_safe d = di_set (fl_speculative_update (\<lambda>_. False)) d"

definition di_set_spec :: "dinst \<Rightarrow> dinst" where
  "di_set_spec d = di_set (fl_speculative_update (\<lambda>_. True)) d"

definition di_setTransient :: "dinst \<Rightarrow> dinst" where
  "di_setTransient d = di_set (fl_transient_update (\<lambda>_. True)) d"

definition di_mark_to_be_destroyed :: "dinst \<Rightarrow> dinst" where
  "di_mark_to_be_destroyed d = di_set (fl_to_be_destroyed_update (\<lambda>_. True)) d"

definition di_set_to_be_load_destroyed :: "dinst \<Rightarrow> dinst" where
  "di_set_to_be_load_destroyed d = di_set (fl_to_be_load_destroyed_update (\<lambda>_. True)) d"

definition di_clear_to_be_destroyed :: "dinst \<Rightarrow> dinst" where
  "di_clear_to_be_destroyed d = di_set (fl_to_be_destroyed_update (\<lambda>_. False)) d"

definition di_set_write_scb_r :: "dinst \<Rightarrow> dinst" where
  "di_set_write_scb_r d = di_set (fl_write_scb_r_update (\<lambda>_. True)) d"

definition di_set_load_destroyed_retired_spec :: "dinst \<Rightarrow> dinst" where
  "di_set_load_destroyed_retired_spec d = di_set (fl_load_destroyed_retired_spec_update (\<lambda>_. True)) d"

definition di_set_load_destroyed_retired_safe_write :: "dinst \<Rightarrow> dinst" where
  "di_set_load_destroyed_retired_safe_write d = di_set (fl_load_destroyed_retired_safe_write_update (\<lambda>_. True)) d"

definition di_set_load_destroyed_performed_spec :: "dinst \<Rightarrow> dinst" where
  "di_set_load_destroyed_performed_spec d = di_set (fl_load_destroyed_performed_spec_update (\<lambda>_. True)) d"

definition di_set_load_destroyed_performed_safe_write :: "dinst \<Rightarrow> dinst" where
  "di_set_load_destroyed_performed_safe_write d = di_set (fl_load_destroyed_performed_safe_write_update (\<lambda>_. True)) d"

definition di_mark_destroy_transient :: "dinst \<Rightarrow> dinst" where
  "di_mark_destroy_transient d = di_set (fl_destroy_transient_update (\<lambda>_. True)) d"

definition di_mark_safe :: "dinst \<Rightarrow> dinst" where
  "di_mark_safe d = di_set (fl_speculative_update (\<lambda>_. False)) d"

definition di_mark_del_entry :: "dinst \<Rightarrow> dinst" where
  "di_mark_del_entry d = di_set (fl_del_entry_update (\<lambda>_. True)) d"

definition di_unmark_del_entry :: "dinst \<Rightarrow> dinst" where
  "di_unmark_del_entry d = di_set (fl_del_entry_update (\<lambda>_. False)) d"

definition di_mark_rrob :: "dinst \<Rightarrow> dinst" where
  "di_mark_rrob d = di_set (fl_is_rrob_update (\<lambda>_. True)) d"

definition di_set_in_cluster :: "dinst \<Rightarrow> dinst" where
  "di_set_in_cluster d = di_set (fl_in_cluster_update (\<lambda>_. True)) d"

definition di_mark_flush_transient :: "dinst \<Rightarrow> dinst" where
  "di_mark_flush_transient d = di_set (fl_flush_transient_update (\<lambda>_. True)) d"

definition di_mark_try_flush_transient :: "dinst \<Rightarrow> dinst" where
  "di_mark_try_flush_transient d = di_set (fl_try_flush_transient_update (\<lambda>_. True)) d"

definition di_set_present_in_rob :: "dinst \<Rightarrow> dinst" where
  "di_set_present_in_rob d = di_set (fl_present_in_rob_update (\<lambda>_. True)) d"

definition di_set_present_in_scb :: "dinst \<Rightarrow> dinst" where
  "di_set_present_in_scb d = di_set (fl_present_in_scb_update (\<lambda>_. True)) d"

definition di_reset_present_in_scb :: "dinst \<Rightarrow> dinst" where
  "di_reset_present_in_scb d = di_set (fl_present_in_scb_update (\<lambda>_. False)) d"

definition di_set_load_scb_all :: "dinst \<Rightarrow> dinst" where
  "di_set_load_scb_all d = di_set (fl_to_be_load_scb_all_update (\<lambda>_. True)) d"

definition di_setUseLevel3 :: "dinst \<Rightarrow> dinst" where
  "di_setUseLevel3 d = di_set (fl_use_level3_update (\<lambda>_. True)) d"

definition di_setBranch_hit2_miss3 :: "dinst \<Rightarrow> dinst" where
  "di_setBranch_hit2_miss3 d = di_set (fl_branch_hit2_miss3_update (\<lambda>_. True)) d"

definition di_setBranch_hit3_miss2 :: "dinst \<Rightarrow> dinst" where
  "di_setBranch_hit3_miss2 d = di_set (fl_branch_hit3_miss2_update (\<lambda>_. True)) d"

definition di_setBranchHit_level1 :: "dinst \<Rightarrow> dinst" where
  "di_setBranchHit_level1 d = di_set (fl_branchHit_level1_update (\<lambda>_. True)) d"

definition di_setBranchHit_level2 :: "dinst \<Rightarrow> dinst" where
  "di_setBranchHit_level2 d = di_set (fl_branchHit_level2_update (\<lambda>_. True)) d"

definition di_setBranchHit_level3 :: "dinst \<Rightarrow> dinst" where
  "di_setBranchHit_level3 d = di_set (fl_branchHit_level3_update (\<lambda>_. True)) d"

definition di_setBranchMiss_level1 :: "dinst \<Rightarrow> dinst" where
  "di_setBranchMiss_level1 d = di_set (fl_branchMiss_level1_update (\<lambda>_. True)) d"

definition di_setBranchMiss_level2 :: "dinst \<Rightarrow> dinst" where
  "di_setBranchMiss_level2 d = di_set (fl_branchMiss_level2_update (\<lambda>_. True)) d"

definition di_setBranchMiss_level3 :: "dinst \<Rightarrow> dinst" where
  "di_setBranchMiss_level3 d = di_set (fl_branchMiss_level3_update (\<lambda>_. True)) d"

definition di_setLevel3_NoPrediction :: "dinst \<Rightarrow> dinst" where
  "di_setLevel3_NoPrediction d = di_set (fl_level3_NoPrediction_update (\<lambda>_. True)) d"

definition di_markInterCluster :: "dinst \<Rightarrow> dinst" where
  "di_markInterCluster d = di_set (fl_interCluster_update (\<lambda>_. True)) d"

definition di_markReplay :: "dinst \<Rightarrow> dinst" where
  "di_markReplay d = di_set (fl_replay_update (\<lambda>_. True)) d"

definition di_setImliHighConf :: "dinst \<Rightarrow> dinst" where
  "di_setImliHighConf d = di_set (fl_imli_highconf_update (\<lambda>_. True)) d"

definition di_mark_retired :: "dinst \<Rightarrow> dinst" where
  "di_mark_retired d = di_set (fl_retired_update (\<lambda>_. True)) d"

definition di_markPrefetch :: "dinst \<Rightarrow> dinst" where
  "di_markPrefetch d = di_set (fl_prefetch_update (\<lambda>_. True)) d"

definition di_markDispatched :: "dinst \<Rightarrow> dinst" where
  "di_markDispatched d = di_set (fl_dispatched_update (\<lambda>_. True)) d"

definition di_is_write_scb_r :: "dinst \<Rightarrow> bool" where
  "di_is_write_scb_r d = fl_write_scb_r (di_flags d)"

definition di_is_load_destroyed_retired_spec :: "dinst \<Rightarrow> bool" where
  "di_is_load_destroyed_retired_spec d = fl_load_destroyed_retired_spec (di_flags d)"

definition di_is_load_destroyed_retired_safe_write :: "dinst \<Rightarrow> bool" where
  "di_is_load_destroyed_retired_safe_write d = fl_load_destroyed_retired_safe_write (di_flags d)"

definition di_is_load_destroyed_performed_spec :: "dinst \<Rightarrow> bool" where
  "di_is_load_destroyed_performed_spec d = fl_load_destroyed_performed_spec (di_flags d)"

definition di_is_load_destroyed_performed_safe_write :: "dinst \<Rightarrow> bool" where
  "di_is_load_destroyed_performed_safe_write d = fl_load_destroyed_performed_safe_write (di_flags d)"

definition di_is_spec :: "dinst \<Rightarrow> bool" where
  "di_is_spec d = fl_speculative (di_flags d)"

definition di_isTransient :: "dinst \<Rightarrow> bool" where
  "di_isTransient d = fl_transient (di_flags d)"

definition di_is_destroy_transient :: "dinst \<Rightarrow> bool" where
  "di_is_destroy_transient d = fl_to_be_destroyed (di_flags d)"

definition di_is_to_be_destroyed :: "dinst \<Rightarrow> bool" where
  "di_is_to_be_destroyed d = fl_to_be_destroyed (di_flags d)"

definition di_is_present_in_scb :: "dinst \<Rightarrow> bool" where
  "di_is_present_in_scb d = fl_present_in_scb (di_flags d)"

definition di_isTaken :: "dinst \<Rightarrow> bool res" where
  "di_isTaken d = bind_res (isControl (di_inst d)) (\<lambda>c. assert_res c (Inr (di_addr d \<noteq> 0)))"

definition di_set_original_id :: "nat \<Rightarrow> dinst_store \<Rightarrow> dinst_store res" where
  "di_set_original_id n s =
    assert_res (\<not> di_isTransient (ds_obj s n))
      (Inr ((ds_update n (\<lambda>d. d\<lparr>di_original_id := ds_current_original_id s\<rparr>) s)
         \<lparr>ds_current_original_id := ds_current_original_id s + 1\<rparr>))"

definition di_setLoadForwarded :: "dinst \<Rightarrow> dinst res" where
  "di_setLoadForwarded d =
    assert_res (\<not> fl_loadForwarded (di_flags d)) (Inr (di_set (fl_loadForwarded_update (\<lambda>_. True)) d))"

definition di_setConflictStorePC :: "addr \<Rightarrow> dinst \<Rightarrow> dinst res" where
  "di_setConflictStorePC storepc d =
    assert_res (storepc \<noteq> 0) (assert_res (isLoad (di_inst d)) (Inr (d\<lparr>di_conflictStorePC := storepc\<rparr>)))"

definition di_setRAT1Entry :: "nat option \<Rightarrow> dinst \<Rightarrow> dinst res" where
  "di_setRAT1Entry r d = assert_res (di_RAT1Entry d = None) (Inr (d\<lparr>di_RAT1Entry := r\<rparr>))"

definition di_setRAT2Entry :: "nat option \<Rightarrow> dinst \<Rightarrow> dinst res" where
  "di_setRAT2Entry r d = assert_res (di_RAT2Entry d = None) (Inr (d\<lparr>di_RAT2Entry := r\<rparr>))"

definition di_setSerializeEntry :: "nat option \<Rightarrow> dinst \<Rightarrow> dinst res" where
  "di_setSerializeEntry r d = assert_res (di_serializeEntry d = None) (Inr (d\<lparr>di_serializeEntry := r\<rparr>))"

definition di_setGProc :: "nat \<Rightarrow> dinst \<Rightarrow> dinst res" where
  "di_setGProc g d = assert_res (di_gproc d = None \<or> di_gproc d = Some g) (Inr (d\<lparr>di_gproc := Some g\<rparr>))"

section \<open>Stages\<close>

definition di_lockFetch :: "sim_time \<Rightarrow> nat \<Rightarrow> dinst \<Rightarrow> dinst res" where
  "di_lockFetch clk fe d =
    assert_res (\<not> fl_branchMiss (di_flags d))
     (assert_res (di_fetch d = None)
       (Inr (di_set (fl_branchMiss_update (\<lambda>_. True)) (d\<lparr>di_fetch := Some fe, di_fetched := clk\<rparr>))))"

definition di_setFetchTime :: "sim_time \<Rightarrow> dinst \<Rightarrow> dinst res" where
  "di_setFetchTime clk d =
    assert_res (di_fetch d = None)
     (assert_res (\<not> fl_branchMiss (di_flags d)) (Inr (d\<lparr>di_fetched := clk\<rparr>)))"

definition di_markRenamed :: "sim_time \<Rightarrow> dinst \<Rightarrow> dinst res" where
  "di_markRenamed clk d = assert_res (di_renamed d = 0) (Inr (d\<lparr>di_renamed := clk\<rparr>))"

definition di_isRenamed :: "dinst \<Rightarrow> bool" where "di_isRenamed d \<longleftrightarrow> di_renamed d \<noteq> 0"

definition di_markIssued :: "sim_time \<Rightarrow> dinst \<Rightarrow> dinst res" where
  "di_markIssued clk d =
    assert_res (di_issued d = 0)
     (assert_res (di_executing d = 0)
       (assert_res (di_executed d = 0) (Inr (d\<lparr>di_issued := clk\<rparr>))))"

definition di_isIssued :: "dinst \<Rightarrow> bool" where "di_isIssued d \<longleftrightarrow> di_issued d \<noteq> 0"

definition di_markIssuedTransient :: "sim_time \<Rightarrow> dinst \<Rightarrow> dinst" where
  "di_markIssuedTransient clk d = d\<lparr>di_issued := clk\<rparr>"

definition di_isExecuted :: "dinst \<Rightarrow> bool" where "di_isExecuted d \<longleftrightarrow> di_executed d \<noteq> 0"

definition di_markExecuted :: "sim_time \<Rightarrow> dinst \<Rightarrow> dinst res" where
  "di_markExecuted clk d =
    assert_res (\<not> di_is_spec d \<longrightarrow> di_issued d \<noteq> 0)
     (assert_res (\<not> di_is_spec d \<longrightarrow> di_executed d = 0) (Inr (d\<lparr>di_executed := clk\<rparr>)))"

definition di_markExecutedTransient :: "sim_time \<Rightarrow> dinst \<Rightarrow> dinst" where
  "di_markExecutedTransient clk d = d\<lparr>di_executed := clk\<rparr>"

definition di_isExecuting :: "dinst \<Rightarrow> bool" where "di_isExecuting d \<longleftrightarrow> di_executing d \<noteq> 0"

definition di_markExecuting :: "sim_time \<Rightarrow> dinst \<Rightarrow> dinst res" where
  "di_markExecuting clk d =
    assert_res (di_issued d \<noteq> 0)
     (assert_res (di_executing d = 0) (Inr (d\<lparr>di_executing := clk\<rparr>)))"

definition di_markExecutingTransient :: "sim_time \<Rightarrow> dinst \<Rightarrow> dinst" where
  "di_markExecutingTransient clk d = d\<lparr>di_executing := clk\<rparr>"

definition di_markPerformed :: "dinst \<Rightarrow> dinst res" where
  "di_markPerformed d =
    assert_res (\<not> di_isTransient d \<and> \<not> di_is_spec d \<longrightarrow> \<not> isLoad (di_inst d) \<longrightarrow> di_executed d \<noteq> 0)
      (Inr (di_set (fl_performed_update (\<lambda>_. True)) d))"

definition di_markRetired :: "dinst \<Rightarrow> dinst res" where
  "di_markRetired d = assert_res (isStore (di_inst d)) (Inr (di_set (fl_retired_update (\<lambda>_. True)) d))"

section \<open>Dependences\<close>

text \<open>
  \<open>addSrc1\<close>, \<open>addSrc2\<close> and \<open>addSrc3\<close> have the same body on \<open>pend[0]\<close>, \<open>pend[1]\<close>
  and \<open>pend[2]\<close>. The call is \<open>p->addSrcN(d)\<close>: \<open>d\<close> waits for \<open>p\<close>.
\<close>

definition ds_set_pend :: "dep_node \<Rightarrow> (dinst_next \<Rightarrow> dinst_next) \<Rightarrow> dinst_store \<Rightarrow> dinst_store" where
  "ds_set_pend nd f s =
    ds_update (fst nd) (\<lambda>d. d\<lparr>di_pend := (di_pend d)(snd nd := f (di_pend d (snd nd)))\<rparr>) s"

definition dn_mark :: "bool \<Rightarrow> nat option \<Rightarrow> dinst_next \<Rightarrow> dinst_next" where
  "dn_mark b p x = x\<lparr>dn_isUsed := b, dn_parent := p\<rparr>"

definition dn_setNextDep :: "dep_node option \<Rightarrow> dinst_next \<Rightarrow> dinst_next" where
  "dn_setNextDep n x = x\<lparr>dn_nextDep := n\<rparr>"

definition di_addSrc :: "src_slot \<Rightarrow> nat \<Rightarrow> nat \<Rightarrow> dinst_store \<Rightarrow> dinst_store res" where
  "di_addSrc k p d s =
    assert_res (di_nDeps (ds_obj s d) < MAX_PENDING_SOURCES)
     (let s = ds_update d (\<lambda>x. x\<lparr>di_nDeps := di_nDeps x + 1\<rparr>) s
      in assert_res (di_executed (ds_obj s p) = 0)
          (assert_res (di_executed (ds_obj s d) = 0)
            (assert_res (\<not> dn_isUsed (di_pend (ds_obj s d) k))
              (let s = ds_set_pend (d, k) (dn_mark True (Some p)) s
               in bind_res
                    (if di_first (ds_obj s p) = None
                     then Inr (ds_update p (\<lambda>x. x\<lparr>di_first := Some (d, k)\<rparr>) s)
                     else deref (di_last (ds_obj s p)) (\<lambda>l.
                       Inr (ds_set_pend l (dn_setNextDep (Some (d, k))) s)))
                    (\<lambda>s. Inr (ds_update p (\<lambda>x. x\<lparr>di_last := Some (d, k)\<rparr>)
                           (ds_set_pend (d, k) (dn_setNextDep None) s)))))))"

definition di_getNextPending :: "nat \<Rightarrow> dinst_store \<Rightarrow> (nat \<times> dinst_store) res" where
  "di_getNextPending p s =
    (case di_first (ds_obj s p) of
       None \<Rightarrow> Inl Assert_failed
     | Some nd \<Rightarrow>
         (let n = fst nd
          in assert_res (di_nDeps (ds_obj s n) > 0)
              (let s = ds_update n (\<lambda>x. x\<lparr>di_nDeps := di_nDeps x - 1\<rparr>) s;
                   s = ds_set_pend nd (dn_mark False None) s;
                   nxt = dn_nextDep (di_pend (ds_obj s n) (snd nd))
               in Inr (n, ds_update p (\<lambda>x. x\<lparr>di_first := nxt\<rparr>) s))))"

definition di_getParentSrc :: "src_slot \<Rightarrow> dinst \<Rightarrow> nat option" where
  "di_getParentSrc k d = (if dn_isUsed (di_pend d k) then dn_parent (di_pend d k) else None)"

definition di_isSrcReady :: "src_slot \<Rightarrow> dinst \<Rightarrow> bool" where
  "di_isSrcReady k d \<longleftrightarrow> \<not> dn_isUsed (di_pend d k)"

definition di_decrease_deps :: "dinst \<Rightarrow> dinst" where
  "di_decrease_deps d = d\<lparr>di_nDeps := di_nDeps d - 1\<rparr>"

definition di_flush_first :: "dinst \<Rightarrow> dinst" where
  "di_flush_first d = d\<lparr>di_first := None\<rparr>"

definition di_no_source :: "dinst \<Rightarrow> bool" where
  "di_no_source d \<longleftrightarrow>
    \<not> dn_isUsed (di_pend d Src1) \<and> \<not> dn_isUsed (di_pend d Src2) \<and> \<not> dn_isUsed (di_pend d Src3)"

definition di_hasPending :: "dinst \<Rightarrow> bool res" where
  "di_hasPending d = assert_res (di_no_source d \<longrightarrow> di_nDeps d = 0) (Inr (di_first d \<noteq> None))"

definition di_hasDeps :: "dinst \<Rightarrow> bool res" where
  "di_hasDeps d =
    assert_res (\<not> di_isTransient d \<longrightarrow> di_no_source d \<longrightarrow> di_nDeps d = 0) (Inr (di_nDeps d \<noteq> 0))"

section \<open>Destruction\<close>

text \<open>\<open>clearRATEntry\<close> dereferences the second entry without a check.\<close>

definition rat_clear :: "nat \<Rightarrow> nat \<Rightarrow> (nat \<Rightarrow> nat option) \<Rightarrow> nat \<Rightarrow> nat option" where
  "rat_clear n e rat = (if rat e = Some n then rat(e := None) else rat)"

definition di_clearRATEntry :: "nat \<Rightarrow> dinst_store \<Rightarrow> dinst_store res" where
  "di_clearRATEntry n s =
    (case di_RAT1Entry (ds_obj s n) of
       None \<Rightarrow> Inl Assert_failed
     | Some e1 \<Rightarrow>
         (let rat = rat_clear n e1 (ds_rat s)
          in deref (di_RAT2Entry (ds_obj s n)) (\<lambda>e2.
              let rat = rat_clear n e2 rat
              in Inr (s\<lparr>ds_rat := (case di_serializeEntry (ds_obj s n) of
                                     None \<Rightarrow> rat | Some e3 \<Rightarrow> rat_clear n e3 rat)\<rparr>))))"

definition di_recycle :: "nat \<Rightarrow> nat \<Rightarrow> dinst_store \<Rightarrow> dinst_store res" where
  "di_recycle self n s =
    (let s = ds_update n (\<lambda>d. d\<lparr>di_cluster := None, di_resource := None\<rparr>) s
     in bind_res (pool_in self n (ds_pool s)) (\<lambda>p. Inr (s\<lparr>ds_pool := p\<rparr>)))"

definition di_scrap :: "nat \<Rightarrow> nat \<Rightarrow> dinst_store \<Rightarrow> dinst_store res" where
  "di_scrap self n s =
    assert_res (di_nDeps (ds_obj s n) = 0)
     (assert_res (di_first (ds_obj s n) = None) (di_recycle self n s))"

definition di_destroy :: "nat \<Rightarrow> nat \<Rightarrow> dinst_store \<Rightarrow> dinst_store res" where
  "di_destroy self n s =
    assert_res (di_nDeps (ds_obj s n) = 0)
     (assert_res (di_issued (ds_obj s n) \<noteq> 0)
       (assert_res (di_executed (ds_obj s n) \<noteq> 0)
         (assert_res (di_first (ds_obj s n) = None) (di_recycle self n s))))"

text \<open>\<open>destroyTransientInst\<close>, without the line of \<open>Tracer::flush\<close> in the trace file.\<close>

definition di_destroyTransientInst :: "nat \<Rightarrow> nat \<Rightarrow> dinst_store \<Rightarrow> dinst_store res" where
  "di_destroyTransientInst self n s =
    assert_res (di_first (ds_obj s n) = None) (di_recycle self n s)"

section \<open>The dependence lists\<close>

definition ds_next :: "dinst_store \<Rightarrow> dep_node \<Rightarrow> dep_node option" where
  "ds_next s nd = dn_nextDep (di_pend (ds_obj s (fst nd)) (snd nd))"

definition ds_used :: "dinst_store \<Rightarrow> dep_node \<Rightarrow> bool" where
  "ds_used s nd = dn_isUsed (di_pend (ds_obj s (fst nd)) (snd nd))"

definition ds_parent :: "dinst_store \<Rightarrow> dep_node \<Rightarrow> nat option" where
  "ds_parent s nd = dn_parent (di_pend (ds_obj s (fst nd)) (snd nd))"

text \<open>
  \<open>dep_inv Q s\<close>: the list of each instruction \<open>p\<close> holds exactly the nodes \<open>Q p\<close>, in
  order, every used node is in the list of its parent, and the dependence count of an
  instruction is the number of its used nodes.
\<close>

definition dep_lists :: "(nat \<Rightarrow> dep_node list) \<Rightarrow> dinst_store \<Rightarrow> bool" where
  "dep_lists Q s \<longleftrightarrow>
    (\<forall>p. chain (ds_next s) (di_first (ds_obj s p)) (Q p) \<and> distinct (Q p) \<and>
      (Q p \<noteq> [] \<longrightarrow> di_last (ds_obj s p) = Some (last (Q p))))"

definition dep_parents :: "(nat \<Rightarrow> dep_node list) \<Rightarrow> dinst_store \<Rightarrow> bool" where
  "dep_parents Q s \<longleftrightarrow>
    (\<forall>p nd. nd \<in> set (Q p) \<longleftrightarrow> ds_used s nd \<and> ds_parent s nd = Some p) \<and>
    (\<forall>nd. ds_used s nd \<longrightarrow> ds_parent s nd \<noteq> None)"

definition dep_counts :: "dinst_store \<Rightarrow> bool" where
  "dep_counts s \<longleftrightarrow> (\<forall>d. di_nDeps (ds_obj s d) = int (card {k. ds_used s (d, k)}))"

definition dep_inv :: "(nat \<Rightarrow> dep_node list) \<Rightarrow> dinst_store \<Rightarrow> bool" where
  "dep_inv Q s \<longleftrightarrow> dep_lists Q s \<and> dep_parents Q s \<and> dep_counts s"

lemma finite_slots [simp]: "finite (S :: src_slot set)"
proof (rule finite_subset)
  show "S \<subseteq> {Src1, Src2, Src3}" using src_slot.exhaust by blast
qed simp

lemma card_slots: "card (S :: src_slot set) \<le> 3"
proof -
  have "S \<subseteq> {Src1, Src2, Src3}" using src_slot.exhaust by blast
  then have "card S \<le> card {Src1, Src2, Src3}" by (rule card_mono [rotated]) simp
  then show ?thesis by simp
qed

lemma card_slots_less: "k \<notin> S \<Longrightarrow> card (S :: src_slot set) < 3"
  using card_slots [of "insert k S"] by simp

text \<open>What the primitive updates of the store leave alone.\<close>

lemma ds_update_obj: "ds_obj (ds_update n f s) x = (if x = n then f (ds_obj s n) else ds_obj s x)"
  by (simp add: ds_update_def)

lemma ds_set_pend_obj [simp]:
  "di_first (ds_obj (ds_set_pend nd f s) x) = di_first (ds_obj s x)"
  "di_last (ds_obj (ds_set_pend nd f s) x) = di_last (ds_obj s x)"
  "di_nDeps (ds_obj (ds_set_pend nd f s) x) = di_nDeps (ds_obj s x)"
  "di_executed (ds_obj (ds_set_pend nd f s) x) = di_executed (ds_obj s x)"
  "di_pend (ds_obj (ds_set_pend nd f s) x) k =
    (if (x, k) = nd then f (di_pend (ds_obj s x) k) else di_pend (ds_obj s x) k)"
  by (cases nd; auto simp: ds_set_pend_def ds_update_obj)+

lemma ds_node_mark:
  "ds_next (ds_set_pend nd (dn_mark b p) s) = ds_next s"
  "ds_used (ds_set_pend nd (dn_mark b p) s) = (ds_used s)(nd := b)"
  "ds_parent (ds_set_pend nd (dn_mark b p) s) = (ds_parent s)(nd := p)"
  by (rule ext; auto simp: ds_next_def ds_used_def ds_parent_def dn_mark_def)+

lemma ds_node_link:
  "ds_next (ds_set_pend nd (dn_setNextDep m) s) = (ds_next s)(nd := m)"
  "ds_used (ds_set_pend nd (dn_setNextDep m) s) = ds_used s"
  "ds_parent (ds_set_pend nd (dn_setNextDep m) s) = ds_parent s"
  by (rule ext; auto simp: ds_next_def ds_used_def ds_parent_def dn_setNextDep_def)+

lemma ds_node_update:
  assumes "\<And>d. di_pend (f d) = di_pend d"
  shows "ds_next (ds_update n f s) = ds_next s" "ds_used (ds_update n f s) = ds_used s"
    "ds_parent (ds_update n f s) = ds_parent s"
  by (rule ext; auto simp: ds_next_def ds_used_def ds_parent_def ds_update_obj assms)+

lemmas dep_node_simps = ds_node_mark ds_node_link ds_node_update ds_update_obj

lemma dep_counts_step:
  assumes "dep_counts s"
    and "\<And>x. di_nDeps (ds_obj s' x) = di_nDeps (ds_obj s x) + (if x = d then c else 0)"
    and "ds_used s' = (ds_used s)((d, k) := b)" and "ds_used s (d, k) \<noteq> b"
    and "c = (if b then 1 else - 1)"
  shows "dep_counts s'"
proof -
  have eq: "{j. ds_used s' (x, j)} = (if x = d then
      if b then insert k {j. ds_used s (d, j)} else {j. ds_used s (d, j)} - {k}
      else {j. ds_used s (x, j)})" for x
    using assms(3) by auto
  have mem: "k \<in> {j. ds_used s (d, j)} \<longleftrightarrow> \<not> b" using assms(4) by auto
  have pos: "card {j. ds_used s (d, j)} > 0" if "\<not> b"
    using that mem by (metis card_gt_0_iff empty_iff finite_slots)
  show ?thesis
    using assms(1,2,5) mem pos unfolding dep_counts_def eq
    by (auto simp: of_nat_diff Suc_leI)
qed

lemma dep_unused_notin: "dep_parents Q s \<Longrightarrow> \<not> ds_used s nd \<Longrightarrow> nd \<notin> set (Q p)"
  unfolding dep_parents_def by blast

lemma dep_lists_disjoint: "dep_parents Q s \<Longrightarrow> nd \<in> set (Q p) \<Longrightarrow> nd \<in> set (Q q) \<Longrightarrow> p = q"
  unfolding dep_parents_def by (metis option.inject)

text \<open>Adding a source appends the node to the list of the producer.\<close>

lemma di_addSrc_effect:
  assumes inv: "dep_inv Q s" and free: "\<not> ds_used s (d, k)"
    and "di_executed (ds_obj s p) = 0" and "di_executed (ds_obj s d) = 0"
  obtains s' where "di_addSrc k p d s = Inr s'"
    "\<forall>x. di_first (ds_obj s' x) = (if x = p \<and> Q p = [] then Some (d, k) else di_first (ds_obj s x))"
    "\<forall>x. di_last (ds_obj s' x) = (if x = p then Some (d, k) else di_last (ds_obj s x))"
    "\<forall>x. di_nDeps (ds_obj s' x) = di_nDeps (ds_obj s x) + (if x = d then 1 else 0)"
    "\<forall>x. di_executed (ds_obj s' x) = di_executed (ds_obj s x)"
    "ds_used s' = (ds_used s)((d, k) := True)" "ds_parent s' = (ds_parent s)((d, k) := Some p)"
    "ds_next s' = (if Q p = [] then (ds_next s)((d, k) := None)
        else (ds_next s)(last (Q p) := Some (d, k), (d, k) := None))"
proof -
  have nd: "di_nDeps (ds_obj s d) < 3"
    using inv card_slots_less [of k "{j. ds_used s (d, j)}"] free by (simp add: dep_inv_def dep_counts_def)
  have first: "Q p = [] \<longleftrightarrow> di_first (ds_obj s p) = None"
    and last: "Q p \<noteq> [] \<Longrightarrow> di_last (ds_obj s p) = Some (last (Q p))"
    using inv chain_Nil_iff unfolding dep_inv_def dep_lists_def by blast+
  have free': "\<not> dn_isUsed (di_pend (ds_obj s d) k)" using free by (simp add: ds_used_def)
  let ?s1 = "ds_set_pend (d, k) (dn_mark True (Some p))
      (ds_update d (\<lambda>x. x\<lparr>di_nDeps := di_nDeps x + 1\<rparr>) s)"
  let ?s2 = "if Q p = [] then ds_update p (\<lambda>x. x\<lparr>di_first := Some (d, k)\<rparr>) ?s1
      else ds_set_pend (last (Q p)) (dn_setNextDep (Some (d, k))) ?s1"
  let ?s' = "ds_update p (\<lambda>x. x\<lparr>di_last := Some (d, k)\<rparr>)
      (ds_set_pend (d, k) (dn_setNextDep None) ?s2)"
  have run: "di_addSrc k p d s = Inr ?s'"
    using assms(3,4) nd free' first last
    by (auto simp: di_addSrc_def MAX_PENDING_SOURCES_def Let_def ds_update_obj deref_def)
  have used: "ds_used ?s' = (ds_used s)((d, k) := True)"
    by (simp add: dep_node_simps)
  have par: "ds_parent ?s' = (ds_parent s)((d, k) := Some p)"
    by (simp add: dep_node_simps)
  have nxt: "ds_next ?s' = (if Q p = [] then (ds_next s)((d, k) := None)
        else (ds_next s)(last (Q p) := Some (d, k), (d, k) := None))"
    by (simp add: dep_node_simps)
  show ?thesis
    by (rule that [OF run _ _ _ _ used par nxt]) (auto simp: ds_update_obj)
qed

lemma di_addSrc_ok:
  assumes inv: "dep_inv Q s" and free: "\<not> ds_used s (d, k)"
    and exe: "di_executed (ds_obj s p) = 0" "di_executed (ds_obj s d) = 0"
  obtains s' where "di_addSrc k p d s = Inr s'" "dep_inv (Q(p := Q p @ [(d, k)])) s'"
    "\<forall>x. di_executed (ds_obj s' x) = di_executed (ds_obj s x)"
    "ds_used s' = (ds_used s)((d, k) := True)" "ds_parent s' = (ds_parent s)((d, k) := Some p)"
proof -
  obtain s' where s': "di_addSrc k p d s = Inr s'"
    and first0: "\<forall>x. di_first (ds_obj s' x) = (if x = p \<and> Q p = [] then Some (d, k) else di_first (ds_obj s x))"
    and last0: "\<forall>x. di_last (ds_obj s' x) = (if x = p then Some (d, k) else di_last (ds_obj s x))"
    and nDeps0: "\<forall>x. di_nDeps (ds_obj s' x) = di_nDeps (ds_obj s x) + (if x = d then 1 else 0)"
    and exe0: "\<forall>x. di_executed (ds_obj s' x) = di_executed (ds_obj s x)"
    and used: "ds_used s' = (ds_used s)((d, k) := True)"
    and par: "ds_parent s' = (ds_parent s)((d, k) := Some p)"
    and nxt: "ds_next s' = (if Q p = [] then (ds_next s)((d, k) := None)
        else (ds_next s)(last (Q p) := Some (d, k), (d, k) := None))"
    by (rule di_addSrc_effect [OF assms])
  note first = first0 [rule_format] and last = last0 [rule_format]
    and nDeps = nDeps0 [rule_format] and exe' = exe0 [rule_format]
  from inv have L: "dep_lists Q s" and P: "dep_parents Q s" and C: "dep_counts s"
    by (simp_all add: dep_inv_def)
  have new: "(d, k) \<notin> set (Q x)" for x using P free by (rule dep_unused_notin)
  let ?Q = "Q(p := Q p @ [(d, k)])"
  have other: "chain (ds_next s') (di_first (ds_obj s' x)) (Q x)" if "x \<noteq> p" for x
  proof -
    have "last (Q p) \<notin> set (Q x)" if "Q p \<noteq> []"
      using dep_lists_disjoint [OF P last_in_set [OF that]] \<open>x \<noteq> p\<close> by blast
    then show ?thesis using L that new [of x]
      by (simp add: dep_lists_def first nxt chain_frame)
  qed
  have mine: "chain (ds_next s') (di_first (ds_obj s' p)) (Q p @ [(d, k)])"
  proof (cases "Q p" rule: rev_cases)
    case Nil
    then show ?thesis by (simp add: first nxt)
  next
    case (snoc xs a)
    then have "chain (ds_next s) (di_first (ds_obj s p)) (xs @ [a])" "distinct (xs @ [a])"
      using L unfolding dep_lists_def by metis+
    from chain_append_last [OF this, of "(d, k)"] show ?thesis
      using new [of p] snoc by (simp add: first nxt)
  qed
  have lists: "dep_lists ?Q s'"
    using L new other mine by (auto simp: dep_lists_def last)
  have parents: "dep_parents ?Q s'"
    unfolding dep_parents_def
  proof (intro conjI allI)
    show "nd \<in> set (?Q x) \<longleftrightarrow> ds_used s' nd \<and> ds_parent s' nd = Some x" for x nd
      using P new unfolding dep_parents_def used par by (auto simp del: split_paired_All)
    show "ds_used s' nd \<longrightarrow> ds_parent s' nd \<noteq> None" for nd
      using P unfolding dep_parents_def used par by (auto simp del: split_paired_All)
  qed
  have "dep_counts s'" by (rule dep_counts_step [OF C nDeps used]) (use free in simp_all)
  with lists parents show ?thesis
    using that [of s'] s' exe' used par by (simp add: dep_inv_def)
qed

text \<open>Linking does not touch what the instruction is.\<close>

lemma ds_set_pend_frame [simp]:
  "di_pc (ds_obj (ds_set_pend nd f t) x) = di_pc (ds_obj t x)"
  "di_inst (ds_obj (ds_set_pend nd f t) x) = di_inst (ds_obj t x)"
  "di_SSID (ds_obj (ds_set_pend nd f t) x) = di_SSID (ds_obj t x)"
  by (simp_all add: ds_set_pend_def ds_update_obj)

lemma di_addSrc_frame:
  assumes "di_addSrc k p d s = Inr s'"
  shows "di_pc (ds_obj s' x) = di_pc (ds_obj s x) \<and> di_inst (ds_obj s' x) = di_inst (ds_obj s x) \<and>
    di_SSID (ds_obj s' x) = di_SSID (ds_obj s x)"
  using assms
  by (auto simp: di_addSrc_def Let_def assert_res_def deref_def ds_update_obj
        split: if_splits option.splits)

lemma dep_inv_frame:
  assumes "dep_inv Q s"
    and "\<And>x. di_pend (ds_obj s' x) = di_pend (ds_obj s x)" "\<And>x. di_first (ds_obj s' x) = di_first (ds_obj s x)"
    and "\<And>x. di_last (ds_obj s' x) = di_last (ds_obj s x)" "\<And>x. di_nDeps (ds_obj s' x) = di_nDeps (ds_obj s x)"
  shows "dep_inv Q s'" and "ds_used s' = ds_used s" and "ds_parent s' = ds_parent s"
proof -
  have eq: "ds_next s' = ds_next s" "ds_used s' = ds_used s" "ds_parent s' = ds_parent s"
    by (simp_all add: ds_next_def ds_used_def ds_parent_def assms fun_eq_iff)
  then show "ds_used s' = ds_used s" "ds_parent s' = ds_parent s" by simp_all
  show "dep_inv Q s'"
    using assms(1) unfolding dep_inv_def dep_lists_def dep_parents_def dep_counts_def eq assms(3-5) .
qed

text \<open>Taking the next pending instruction removes the oldest node.\<close>

lemma di_getNextPending_ok:
  assumes inv: "dep_inv Q s" and q: "Q p = (d, k) # rest"
  obtains s' where "di_getNextPending p s = Inr (d, s')" "dep_inv (Q(p := rest)) s'"
    "\<forall>x. di_executed (ds_obj s' x) = di_executed (ds_obj s x)"
    "ds_used s' = (ds_used s)((d, k) := False)"
proof -
  from inv have L: "dep_lists Q s" and P: "dep_parents Q s" and C: "dep_counts s"
    by (simp_all add: dep_inv_def)
  from L q have "chain (ds_next s) (di_first (ds_obj s p)) ((d, k) # rest)" "distinct ((d, k) # rest)"
    unfolding dep_lists_def by metis+
  then have first: "di_first (ds_obj s p) = Some (d, k)" and ch: "chain (ds_next s) (ds_next s (d, k)) rest"
    and dist: "(d, k) \<notin> set rest" "distinct rest" by simp_all
  have used: "ds_used s (d, k)" "ds_parent s (d, k) = Some p"
    using P q unfolding dep_parents_def by (metis list.set_intros(1))+
  have "{j. ds_used s (d, j)} \<noteq> {}" using used by blast
  then have pos: "di_nDeps (ds_obj s d) > 0"
    using C card_gt_0_iff [of "{j. ds_used s (d, j)}"] by (simp add: dep_counts_def)
  let ?s = "ds_update p (\<lambda>x. x\<lparr>di_first := ds_next s (d, k)\<rparr>)
      (ds_set_pend (d, k) (dn_mark False None)
        (ds_update d (\<lambda>x. x\<lparr>di_nDeps := di_nDeps x - 1\<rparr>) s))"
  have run: "di_getNextPending p s = Inr (d, ?s)"
    using pos first by (simp add: di_getNextPending_def Let_def ds_next_def ds_update_obj dn_mark_def)
  have nxt: "ds_next ?s = ds_next s"
    by (simp add: dep_node_simps)
  have us: "ds_used ?s = (ds_used s)((d, k) := False)" and par: "ds_parent ?s = (ds_parent s)((d, k) := None)"
    by (simp_all add: dep_node_simps)
  have first': "di_first (ds_obj ?s x) = (if x = p then ds_next s (d, k) else di_first (ds_obj s x))"
    and last': "di_last (ds_obj ?s x) = di_last (ds_obj s x)"
    and nD: "di_nDeps (ds_obj ?s x) = di_nDeps (ds_obj s x) + (if x = d then - 1 else 0)"
    and ex: "di_executed (ds_obj ?s x) = di_executed (ds_obj s x)" for x
    by (auto simp: ds_update_obj)
  have only: "(d, k) \<in> set (Q x) \<longleftrightarrow> x = p" for x
    using P used unfolding dep_parents_def by auto
  have "dep_lists (Q(p := rest)) ?s"
    unfolding dep_lists_def nxt first' last' using L ch dist q
    by (auto simp: dep_lists_def split: if_splits)
  moreover have "dep_parents (Q(p := rest)) ?s"
    unfolding dep_parents_def us par
  proof (intro conjI allI)
    fix x nd
    show "nd \<in> set ((Q(p := rest)) x) \<longleftrightarrow>
        ((ds_used s)((d, k) := False)) nd \<and> ((ds_parent s)((d, k) := None)) nd = Some x"
    proof (cases "nd = (d, k)")
      case True
      then show ?thesis using only dist(1) by auto
    next
      case False
      then have "nd \<in> set ((Q(p := rest)) x) \<longleftrightarrow> nd \<in> set (Q x)" using q by auto
      then show ?thesis using False P unfolding dep_parents_def by simp
    qed
    show "((ds_used s)((d, k) := False)) nd \<longrightarrow> ((ds_parent s)((d, k) := None)) nd \<noteq> None"
      using P unfolding dep_parents_def by (auto simp del: split_paired_All)
  qed
  moreover have "dep_counts ?s" by (rule dep_counts_step [OF C nD us]) (use used in simp_all)
  ultimately show ?thesis using that [of ?s] run ex us by (simp add: dep_inv_def)
qed

section \<open>The interface of the dependence lists\<close>

text \<open>
  What the rename stage and the dependence window rely on: an added node waits at the end of
  the list of its producer, the oldest node of a producer is taken first, and neither changes
  which instructions are still open (not executed).
\<close>

datatype ('p, 'n) wake_op = Wake_add 'n 'p | Wake_take 'p

fun wake_run ::
  "('n \<Rightarrow> 'p \<Rightarrow> 's \<Rightarrow> 's res) \<Rightarrow> ('p \<Rightarrow> 's \<Rightarrow> ('p \<times> 's) res) \<Rightarrow> ('p, 'n) wake_op list \<Rightarrow> 's \<Rightarrow>
    ('p list \<times> 's) res" where
  "wake_run add pull [] s = Inr ([], s)"
| "wake_run add pull (Wake_add n p # ops) s = bind_res (add n p s) (wake_run add pull ops)"
| "wake_run add pull (Wake_take p # ops) s =
    bind_res (pull p s) (\<lambda>(c, s). bind_res (wake_run add pull ops s) (\<lambda>(cs, s). Inr (c # cs, s)))"

fun wake_spec ::
  "('n \<Rightarrow> 'p) \<Rightarrow> ('p \<Rightarrow> bool) \<Rightarrow> ('p, 'n) wake_op list \<Rightarrow> ('p \<Rightarrow> 'n list) \<Rightarrow> 'n set \<Rightarrow>
    ('p list \<times> ('p \<Rightarrow> 'n list)) option" where
  "wake_spec owner opn [] Q U = Some ([], Q)"
| "wake_spec owner opn (Wake_add n p # ops) Q U =
    (if n \<notin> U \<and> opn p \<and> opn (owner n)
     then wake_spec owner opn ops (Q(p := Q p @ [n])) (insert n U) else None)"
| "wake_spec owner opn (Wake_take p # ops) Q U =
    (case Q p of
       [] \<Rightarrow> None
     | n # rest \<Rightarrow>
         map_option (\<lambda>(cs, Q). (owner n # cs, Q)) (wake_spec owner opn ops (Q(p := rest)) (U - {n})))"

locale wake_list =
  fixes inv :: "('p \<Rightarrow> 'n list) \<Rightarrow> 's \<Rightarrow> bool"
    and used :: "'s \<Rightarrow> 'n set"
    and opn :: "'s \<Rightarrow> 'p \<Rightarrow> bool"
    and owner :: "'n \<Rightarrow> 'p"
    and add :: "'n \<Rightarrow> 'p \<Rightarrow> 's \<Rightarrow> 's res"
    and pull :: "'p \<Rightarrow> 's \<Rightarrow> ('p \<times> 's) res"
  assumes add_ok: "inv Q s \<Longrightarrow> n \<notin> used s \<Longrightarrow> opn s p \<Longrightarrow> opn s (owner n) \<Longrightarrow>
      \<exists>s'. add n p s = Inr s' \<and> inv (Q(p := Q p @ [n])) s' \<and> opn s' = opn s \<and> used s' = insert n (used s)"
    and take_ok: "inv Q s \<Longrightarrow> Q p = n # rest \<Longrightarrow>
      \<exists>s'. pull p s = Inr (owner n, s') \<and> inv (Q(p := rest)) s' \<and> opn s' = opn s \<and> used s' = used s - {n}"
begin

lemma run_refines:
  "inv Q s \<Longrightarrow> wake_spec owner (opn s) ops Q (used s) = Some (cs, Q') \<Longrightarrow>
    \<exists>s'. wake_run add pull ops s = Inr (cs, s') \<and> inv Q' s' \<and> opn s' = opn s"
proof (induction ops arbitrary: Q s cs)
  case Nil
  then show ?case by simp
next
  case (Cons op ops)
  show ?case
  proof (cases op)
    case (Wake_add n p)
    with Cons.prems obtain s' where s': "add n p s = Inr s'" "inv (Q(p := Q p @ [n])) s'" "opn s' = opn s"
      "used s' = insert n (used s)"
      using add_ok [of Q s n p] by (auto split: if_splits)
    have "wake_spec owner (opn s') ops (Q(p := Q p @ [n])) (used s') = Some (cs, Q')"
      using Cons.prems Wake_add s' by (simp split: if_splits)
    from Cons.IH [OF s'(2) this] show ?thesis using Wake_add s' by simp
  next
    case (Wake_take p)
    with Cons.prems obtain n rest ds where q: "Q p = n # rest" and cs: "cs = owner n # ds"
      and sp: "wake_spec owner (opn s) ops (Q(p := rest)) (used s - {n}) = Some (ds, Q')"
      by (auto split: list.splits)
    obtain s' where s': "pull p s = Inr (owner n, s')" "inv (Q(p := rest)) s'" "opn s' = opn s"
      "used s' = used s - {n}"
      using take_ok [OF Cons.prems(1) q] by blast
    have "wake_spec owner (opn s') ops (Q(p := rest)) (used s') = Some (ds, Q')" using sp s' by simp
    from Cons.IH [OF s'(2) this] show ?thesis using Wake_take cs s' by auto
  qed
qed

text \<open>Taking everything that waits for \<open>p\<close> visits the owners in the order of the list.\<close>

lemma drain:
  "inv Q s \<Longrightarrow> \<exists>s'. wake_run add pull (replicate (length (Q p)) (Wake_take p)) s = Inr (map owner (Q p), s') \<and>
    inv (Q(p := [])) s'"
proof (induction "Q p" arbitrary: Q s)
  case Nil
  then show ?case by (metis fun_upd_triv length_0_conv list.map_disc_iff list.size(3) replicate_0 wake_run.simps(1))
next
  case (Cons n rest)
  obtain s' where s': "pull p s = Inr (owner n, s')" "inv (Q(p := rest)) s'"
    using take_ok [OF Cons.prems Cons.hyps(2) [symmetric]] by blast
  from Cons.hyps(1) [of "Q(p := rest)" s'] s' Cons.hyps(2) [symmetric] show ?case by auto
qed

end

lemma ds_opn_eq:
  "\<forall>x. di_executed (ds_obj s' x) = di_executed (ds_obj s x) \<Longrightarrow>
    (\<lambda>n. di_executed (ds_obj s' n) = 0) = (\<lambda>n. di_executed (ds_obj s n) = 0)"
  by simp

interpretation wake: wake_list dep_inv "\<lambda>s. {nd. ds_used s nd}" "\<lambda>s n. di_executed (ds_obj s n) = 0"
  fst "\<lambda>nd p. di_addSrc (snd nd) p (fst nd)" di_getNextPending
proof unfold_locales
  fix Q s n p
  assume "dep_inv Q s" "n \<notin> {nd. ds_used s nd}" "di_executed (ds_obj s p) = 0"
      "di_executed (ds_obj s (fst n)) = 0"
  then obtain s' where "di_addSrc (snd n) p (fst n) s = Inr s'" "dep_inv (Q(p := Q p @ [n])) s'"
    "\<forall>x. di_executed (ds_obj s' x) = di_executed (ds_obj s x)" "ds_used s' = (ds_used s)(n := True)"
    using di_addSrc_ok [of Q s "fst n" "snd n" p] by auto
  then show "\<exists>s'. di_addSrc (snd n) p (fst n) s = Inr s' \<and> dep_inv (Q(p := Q p @ [n])) s' \<and>
      (\<lambda>n. di_executed (ds_obj s' n) = 0) = (\<lambda>n. di_executed (ds_obj s n) = 0) \<and>
      {nd. ds_used s' nd} = insert n {nd. ds_used s nd}"
    using ds_opn_eq [of s' s] by (auto simp del: split_paired_All)
next
  fix Q s p n rest
  assume "dep_inv Q s" "Q p = n # rest"
  then obtain s' where "di_getNextPending p s = Inr (fst n, s')" "dep_inv (Q(p := rest)) s'"
    "\<forall>x. di_executed (ds_obj s' x) = di_executed (ds_obj s x)" "ds_used s' = (ds_used s)(n := False)"
    using di_getNextPending_ok [of Q s p "fst n" "snd n" rest] by auto
  then show "\<exists>s'. di_getNextPending p s = Inr (fst n, s') \<and> dep_inv (Q(p := rest)) s' \<and>
      (\<lambda>n. di_executed (ds_obj s' n) = 0) = (\<lambda>n. di_executed (ds_obj s n) = 0) \<and>
      {nd. ds_used s' nd} = {nd. ds_used s nd} - {n}"
    using ds_opn_eq [of s' s] by (auto simp del: split_paired_All split: if_splits)
qed

section \<open>What the flags of the interface tell\<close>

lemma di_no_source_iff: "di_no_source d \<longleftrightarrow> {k. dn_isUsed (di_pend d k)} = {}"
  unfolding di_no_source_def by (auto, metis src_slot.exhaust)

lemma dep_nDeps: "dep_inv Q s \<Longrightarrow> di_nDeps (ds_obj s d) = int (card {k. dn_isUsed (di_pend (ds_obj s d) k)})"
  by (simp add: dep_inv_def dep_counts_def ds_used_def)

lemma dep_hasPending: "dep_inv Q s \<Longrightarrow> di_hasPending (ds_obj s p) = Inr (Q p \<noteq> [])"
proof -
  assume inv: "dep_inv Q s"
  then have "Q p = [] \<longleftrightarrow> di_first (ds_obj s p) = None"
    unfolding dep_inv_def dep_lists_def using chain_Nil_iff by metis
  then show ?thesis
    using dep_nDeps [OF inv, of p] by (simp add: di_hasPending_def di_no_source_iff)
qed

lemma dep_used_iff: "dep_inv Q s \<Longrightarrow> ds_used s nd \<longleftrightarrow> (\<exists>q. nd \<in> set (Q q))"
  unfolding dep_inv_def dep_parents_def by (metis not_None_eq)

lemma dep_hasDeps: "dep_inv Q s \<Longrightarrow> di_hasDeps (ds_obj s d) = Inr (\<exists>q k. (d, k) \<in> set (Q q))"
proof -
  assume inv: "dep_inv Q s"
  have "di_nDeps (ds_obj s d) \<noteq> 0 \<longleftrightarrow> (\<exists>k. ds_used s (d, k))"
    using dep_nDeps [OF inv, of d] by (simp add: ds_used_def)
  then show ?thesis
    using dep_nDeps [OF inv, of d] dep_used_iff [OF inv]
    by (auto simp: di_hasDeps_def di_no_source_iff)
qed

text \<open>
  C4. The dependence lists of the instructions refine one queue per producer: whatever
  instructions are linked as sources and taken as pending, in any order that uses a source once
  and links no executed instruction, no assertion fails, the instructions are handed out in the
  order of linking, and at the end \<open>hasPending\<close> and \<open>hasDeps\<close> tell exactly which producers
  still have waiters and which instructions still wait.
\<close>

theorem di_wakeup_refines_queues:
  assumes "dep_inv Q s"
    and "wake_spec fst (\<lambda>n. di_executed (ds_obj s n) = 0) ops Q {nd. ds_used s nd} = Some (cs, Q')"
  shows "\<exists>s'. wake_run (\<lambda>nd p. di_addSrc (snd nd) p (fst nd)) di_getNextPending ops s = Inr (cs, s') \<and>
    (\<forall>p. di_hasPending (ds_obj s' p) = Inr (Q' p \<noteq> [])) \<and>
    (\<forall>d. di_hasDeps (ds_obj s' d) = Inr (\<exists>q k. (d, k) \<in> set (Q' q)))"
  using wake.run_refines [OF assms] dep_hasPending dep_hasDeps by blast

definition di_blank :: dinst where
  "di_blank = \<lparr>di_pend = (\<lambda>_. dn_idle), di_last = None, di_first = None, di_fid = 0, di_fetched = 0,
     di_renamed = 0, di_issued = 0, di_executing = 0, di_executed = 0,
     di_flags = undefined, di_SSID = - 1, di_conflictStorePC = 0,
     di_inst = \<lparr>in_opcode = iOpInvalid, in_src1 = 0, in_src2 = 0, in_dst1 = 120, in_dst2 = 120\<rparr>,
     di_pc = 0, di_addr = 0, di_inflight = 0, di_bb = - 1, di_cluster = None, di_resource = None,
     di_scb = None, di_RAT1Entry = None, di_RAT2Entry = None, di_serializeEntry = None,
     di_fetch = None, di_gproc = None, di_nDeps = 0, di_ID = 0, di_original_id = 0, di_mreq_id = 0\<rparr>"

definition ds_blank :: "pool \<Rightarrow> dinst_store" where
  "ds_blank p = \<lparr>ds_obj = (\<lambda>_. di_blank), ds_pool = p, ds_currentID = 0, ds_current_original_id = 0,
     ds_rat = (\<lambda>_. None), ds_globalClock = 1\<rparr>"

lemma ds_blank_used [simp]: "ds_used (ds_blank p) nd = False"
  by (simp add: ds_used_def ds_blank_def di_blank_def dn_idle_def)

lemma ds_blank_inv: "dep_inv (\<lambda>_. []) (ds_blank p)"
  by (simp add: dep_inv_def dep_lists_def dep_parents_def dep_counts_def)
    (simp add: ds_blank_def di_blank_def)

definition pool_two :: pool where
  "pool_two = \<lparr>pl_Size = 2, pl_first = [1, 0], pl_allFirst = [1, 0], pl_inPool = (\<lambda>_. True), pl_new = 2,
     pl_psize = 0, pl_warn_psize = 16, pl_thid = 0, pl_deleted = False\<rparr>"

lemma di_wakeup_refines_queues_witness:
  "\<exists>s'. wake_run (\<lambda>nd p. di_addSrc (snd nd) p (fst nd)) di_getNextPending
      [Wake_add (1, Src1) 0, Wake_add (2, Src2) 0, Wake_add (2, Src1) 1, Wake_take 0, Wake_take 0]
      (ds_blank pool_two) = Inr ([1, 2], s') \<and>
    (\<forall>p. di_hasPending (ds_obj s' p) = Inr ((if p = 1 then [(2 :: nat, Src1)] else []) \<noteq> [])) \<and>
    (\<forall>d. di_hasDeps (ds_obj s' d) =
      Inr (\<exists>q k. (d, k) \<in> set (if q = (1 :: nat) then [(2, Src1)] else [])))"
  by (rule di_wakeup_refines_queues [OF ds_blank_inv])
    (simp add: ds_blank_def di_blank_def fun_eq_iff ds_used_def dn_idle_def)

section \<open>Allocation and release\<close>

text \<open>
  \<open>ds_inv\<close>: the pool is consistent, the dependence lists are, and an instruction that is in
  the pool neither waits nor is waited for.
\<close>

definition ds_inv :: "nat \<Rightarrow> (nat \<Rightarrow> dep_node list) \<Rightarrow> dinst_store \<Rightarrow> bool" where
  "ds_inv self Q s \<longleftrightarrow> pool_inv self (ds_pool s) \<and> dep_inv Q s \<and>
    (\<forall>n. n \<notin> pool_in_use (ds_pool s) \<longrightarrow> Q n = [] \<and> (\<forall>k. \<not> ds_used s (n, k)))"

lemma dep_inv_idle:
  assumes inv: "dep_inv Q s" and n: "Q n = []" "\<And>k. \<not> ds_used s (n, k)"
    and obj: "\<And>x. x \<noteq> n \<Longrightarrow> ds_obj s' x = ds_obj s x"
    and new: "di_pend (ds_obj s' n) = (\<lambda>_. dn_idle)" "di_first (ds_obj s' n) = None" "di_nDeps (ds_obj s' n) = 0"
  shows "dep_inv Q s'" and "ds_used s' = ds_used s"
proof -
  have used: "ds_used s' nd = ds_used s nd" for nd
    by (cases nd; cases "fst nd = n") (use n obj new in \<open>auto simp: ds_used_def dn_idle_def\<close>)
  then show u: "ds_used s' = ds_used s" by (rule ext)
  have nn: "fst nd \<noteq> n" if "nd \<in> set (Q p)" for nd p
    using inv n that dep_used_iff [OF inv, of nd] by (metis prod.collapse)
  have same: "ds_next s' nd = ds_next s nd" "ds_parent s' nd = ds_parent s nd" if "fst nd \<noteq> n" for nd
    using obj [OF that] by (simp_all add: ds_next_def ds_parent_def)
  have ch: "chain (ds_next s') p (Q x) \<longleftrightarrow> chain (ds_next s) p (Q x)" for p x
    by (rule chain_cong_on) (simp add: same nn)
  have "dep_lists Q s'"
    unfolding dep_lists_def ch
  proof (intro allI)
    fix p
    show "chain (ds_next s) (di_first (ds_obj s' p)) (Q p) \<and> distinct (Q p) \<and>
        (Q p \<noteq> [] \<longrightarrow> di_last (ds_obj s' p) = Some (last (Q p)))"
      using inv n new obj [of p] by (cases "p = n") (auto simp: dep_inv_def dep_lists_def)
  qed
  moreover have "dep_parents Q s'"
    unfolding dep_parents_def u
  proof (intro conjI allI)
    fix nd x
    have own: "fst nd \<noteq> n" if "ds_used s nd" using that n(2) [of "snd nd"] by (metis prod.collapse)
    have P: "nd \<in> set (Q x) \<longleftrightarrow> ds_used s nd \<and> ds_parent s nd = Some x"
      "ds_used s nd \<longrightarrow> ds_parent s nd \<noteq> None"
      using inv unfolding dep_inv_def dep_parents_def by blast+
    show "nd \<in> set (Q x) \<longleftrightarrow> ds_used s nd \<and> ds_parent s' nd = Some x"
      using P(1) own same(2) [of nd] by auto
    show "ds_used s nd \<longrightarrow> ds_parent s' nd \<noteq> None"
      using P(2) own same(2) [of nd] by auto
  qed
  moreover have "dep_counts s'"
    unfolding dep_counts_def u
  proof
    fix d
    have "{k. ds_used s (n, k)} = {}" using n(2) by simp
    then show "di_nDeps (ds_obj s' d) = int (card {k. ds_used s (d, k)})"
      using dep_nDeps [OF inv, of d] new(3) obj [of d] by (cases "d = n") (simp_all add: ds_used_def)
  qed
  ultimately show "dep_inv Q s'" by (simp add: dep_inv_def)
qed

lemma di_setup_obj:
  "x \<noteq> n \<Longrightarrow> ds_obj (di_setup n s) x = ds_obj s x"
  "di_pend (ds_obj (di_setup n s) n) = (\<lambda>_. dn_idle)" "di_first (ds_obj (di_setup n s) n) = None"
  "di_nDeps (ds_obj (di_setup n s) n) = 0" "di_ID (ds_obj (di_setup n s) n) = ds_currentID s"
  "di_fetched (ds_obj (di_setup n s) n) = 0" "di_renamed (ds_obj (di_setup n s) n) = 0"
  "di_executing (ds_obj (di_setup n s) n) = 0"
  "di_issued (ds_obj (di_setup n s) n) = 0" "di_executed (ds_obj (di_setup n s) n) = 0"
  "di_inst (ds_obj (di_setup n s) n) = di_inst (ds_obj s n)"
  "di_original_id (ds_obj (di_setup n s) n) = di_original_id (ds_obj s n)"
  "di_flags (ds_obj (di_setup n s) n) = di_setup_flags (di_flags (ds_obj s n))"
  "ds_pool (di_setup n s) = ds_pool s" "ds_currentID (di_setup n s) = ds_currentID s + 1"
  by (auto simp: di_setup_def Let_def ds_update_def)

text \<open>
  C31. An instruction made by \<open>create\<close> is one that no one holds, with the next ID, no source,
  no waiter and no stage time (all five of them are zero), and the pool and all dependence lists stay consistent; but
  \<open>setup\<close> assigns \<open>present_in_rob\<close> twice and \<open>present_in_scb\<close> never, so the new
  instruction is in the store buffer if the last user of its object was, and it has the old
  \<open>original_id\<close>.
\<close>

theorem di_create_fresh_but_scb:
  assumes inv: "ds_inv self Q s" and op: "in_opcode i \<noteq> iOpInvalid"
  shows "\<exists>n s'. di_create self i pc a fid stats s = Inr (n, s') \<and> n \<notin> pool_in_use (ds_pool s) \<and>
    ds_inv self Q s' \<and> pool_in_use (ds_pool s') = insert n (pool_in_use (ds_pool s)) \<and>
    di_ID (ds_obj s' n) = ds_currentID s \<and> ds_currentID s' = ds_currentID s + 1 \<and>
    di_hasPending (ds_obj s' n) = Inr False \<and> di_hasDeps (ds_obj s' n) = Inr False \<and>
    di_fetched (ds_obj s' n) = 0 \<and> di_renamed (ds_obj s' n) = 0 \<and> di_issued (ds_obj s' n) = 0 \<and>
    di_executing (ds_obj s' n) = 0 \<and> di_executed (ds_obj s' n) = 0 \<and>
    \<not> di_isTransient (ds_obj s' n) \<and> di_is_spec (ds_obj s' n) \<and>
    di_is_present_in_scb (ds_obj s' n) = di_is_present_in_scb (ds_obj s n) \<and>
    di_original_id (ds_obj s' n) = di_original_id (ds_obj s n)"
proof -
  from inv have pool: "pool_inv self (ds_pool s)" and dep: "dep_inv Q s"
    and idle: "\<And>n. n \<notin> pool_in_use (ds_pool s) \<Longrightarrow> Q n = [] \<and> (\<forall>k. \<not> ds_used s (n, k))"
    by (auto simp: ds_inv_def)
  obtain n p where out: "pool_out self (ds_pool s) = Inr (n, p)" "pool_inv self p"
    "n \<notin> pool_in_use (ds_pool s)" "pool_in_use p = insert n (pool_in_use (ds_pool s))"
    using pool_out_ok [OF pool] by metis
  define s1 where "s1 = ds_update n (\<lambda>d. di_set (fl_keep_stats_update (\<lambda>_. stats))
      (d\<lparr>di_fid := fid, di_inst := i, di_pc := pc, di_addr := a, di_inflight := 0, di_bb := - 1,
         di_fetched := 0\<rparr>)) (s\<lparr>ds_pool := p\<rparr>)"
  let ?s' = "di_setup n s1"
  have s1: "x \<noteq> n \<Longrightarrow> ds_obj s1 x = ds_obj s x" "di_inst (ds_obj s1 n) = i"
    "ds_pool s1 = p" "ds_currentID s1 = ds_currentID s"
    "di_original_id (ds_obj s1 n) = di_original_id (ds_obj s n)"
    "fl_present_in_scb (di_flags (ds_obj s1 n)) = fl_present_in_scb (di_flags (ds_obj s n))" for x
    by (auto simp: s1_def ds_update_def di_set_def)
  have run: "di_create self i pc a fid stats s = Inr (n, ?s')"
    using out(1) op s1(2) by (simp add: di_create_def Let_def s1_def [symmetric] di_setup_obj)
  have Qn: "Q n = []" "\<And>k. \<not> ds_used s (n, k)" using idle [OF out(3)] by auto
  have dep': "dep_inv Q ?s'" "ds_used ?s' = ds_used s"
    by (rule dep_inv_idle [OF dep Qn]; simp add: di_setup_obj s1(1))+
  have "ds_inv self Q ?s'"
    using out dep' idle by (auto simp: ds_inv_def di_setup_obj s1)
  moreover have "\<nexists>q k. (n, k) \<in> set (Q q)" using dep_used_iff [OF dep] Qn(2) by metis
  ultimately show ?thesis
    using run out dep_hasPending [OF dep'(1), of n] dep_hasDeps [OF dep'(1), of n] Qn(1)
    by (auto simp: di_setup_obj s1 di_is_present_in_scb_def di_isTransient_def di_is_spec_def di_setup_flags_def)
qed

lemma pool_two_inv: "pool_inv 1 pool_two" "pool_in_use pool_two = {}"
  by (auto simp: pool_inv_def pool_agree_def pool_in_use_def pool_two_def eval_nat_numeral)

lemma ds_blank_ds_inv: "ds_inv 1 (\<lambda>_. []) (ds_blank pool_two)"
  using ds_blank_inv [of pool_two] pool_two_inv by (simp add: ds_inv_def) (simp add: ds_blank_def)

lemma di_create_fresh_but_scb_witness:
  "\<exists>n s'. di_create 1 \<lparr>in_opcode = iSALU_ST, in_src1 = 1, in_src2 = 2, in_dst1 = 120, in_dst2 = 120\<rparr>
      64 128 0 True (ds_blank pool_two) = Inr (n, s') \<and> di_ID (ds_obj s' n) = ds_currentID (ds_blank pool_two)"
  using di_create_fresh_but_scb [OF ds_blank_ds_inv,
    of "\<lparr>in_opcode = iSALU_ST, in_src1 = 1, in_src2 = 2, in_dst1 = 120, in_dst2 = 120\<rparr>" 64 128 0 True]
  by auto

section \<open>The order of the stages\<close>

datatype stage_op = Stage_rename | Stage_issue | Stage_executing | Stage_executed

fun di_stage :: "stage_op \<Rightarrow> sim_time \<Rightarrow> dinst \<Rightarrow> dinst res" where
  "di_stage Stage_rename clk d = di_markRenamed clk d"
| "di_stage Stage_issue clk d = di_markIssued clk d"
| "di_stage Stage_executing clk d = di_markExecuting clk d"
| "di_stage Stage_executed clk d = di_markExecuted clk d"

fun stage_time :: "stage_op \<Rightarrow> dinst \<Rightarrow> sim_time" where
  "stage_time Stage_rename d = di_renamed d"
| "stage_time Stage_issue d = di_issued d"
| "stage_time Stage_executing d = di_executing d"
| "stage_time Stage_executed d = di_executed d"

fun di_stages :: "(stage_op \<times> sim_time) list \<Rightarrow> dinst \<Rightarrow> dinst res" where
  "di_stages [] d = Inr d"
| "di_stages ((op, clk) # ops) d = bind_res (di_stage op clk d) (di_stages ops)"

definition stage_ok :: "sim_time \<Rightarrow> dinst \<Rightarrow> bool" where
  "stage_ok c d \<longleftrightarrow> \<not> di_is_spec d \<and> (\<forall>op. stage_time op d \<le> c) \<and>
    (di_executing d \<noteq> 0 \<longrightarrow> di_issued d \<noteq> 0 \<and> di_issued d \<le> di_executing d) \<and>
    (di_executed d \<noteq> 0 \<longrightarrow> di_issued d \<noteq> 0 \<and> di_issued d \<le> di_executed d)"

lemma di_stage_step:
  assumes run: "di_stage op clk d = Inr d'" and ok: "stage_ok c d" and clk: "c \<le> clk" "0 < clk"
  shows "stage_ok clk d'" and "stage_time op d = 0" and "stage_time op d' = clk"
    and "op' \<noteq> op \<Longrightarrow> stage_time op' d' = stage_time op' d"
proof -
  have t: "stage_time o' d \<le> clk" for o' using ok clk unfolding stage_ok_def by (meson order_trans)
  have spec: "\<not> di_is_spec d" and le: "di_issued d \<le> clk" using ok t [of Stage_issue] by (simp_all add: stage_ok_def)
  have all: "(\<forall>op. P op) \<longleftrightarrow> P Stage_rename \<and> P Stage_issue \<and> P Stage_executing \<and> P Stage_executed" for P
    by (metis stage_op.exhaust)
  note ts = t [of Stage_rename] t [of Stage_issue] t [of Stage_executing] t [of Stage_executed]
  show "stage_time op d = 0" "stage_time op d' = clk" "op' \<noteq> op \<Longrightarrow> stage_time op' d' = stage_time op' d"
    using run spec
    by (cases op; cases op'; auto simp: di_markRenamed_def di_markIssued_def di_markExecuting_def
        di_markExecuted_def assert_res_def split: if_splits)+
  show "stage_ok clk d'"
    using run spec ok ts clk le
    by (cases op) (auto simp: stage_ok_def all di_is_spec_def di_markRenamed_def di_markIssued_def
        di_markExecuting_def di_markExecuted_def assert_res_def split: if_splits)
qed

lemma di_stages_ok:
  "di_stages ops d = Inr d' \<Longrightarrow> stage_ok c d \<Longrightarrow> sorted (c # map snd ops) \<Longrightarrow> 0 \<notin> snd ` set ops \<Longrightarrow>
    (\<exists>c'. stage_ok c' d') \<and> distinct (map fst ops) \<and> (\<forall>(op, t) \<in> set ops. stage_time op d' = t) \<and>
    (\<forall>op. stage_time op d \<noteq> 0 \<longrightarrow> op \<notin> fst ` set ops \<and> stage_time op d' = stage_time op d)"
proof (induction ops arbitrary: d c)
  case Nil
  then show ?case by auto
next
  case (Cons x ops)
  obtain op clk where x: "x = (op, clk)" by force
  with Cons.prems obtain d1 where d1: "di_stage op clk d = Inr d1" "di_stages ops d1 = Inr d'"
    by (auto simp: bind_res_def split: sum.splits)
  have clk: "c \<le> clk" "0 < clk" using Cons.prems x by (auto simp: word_neq_0_conv [symmetric])
  note step = di_stage_step [OF d1(1) Cons.prems(2) clk]
  have IH: "(\<exists>c'. stage_ok c' d') \<and> distinct (map fst ops) \<and> (\<forall>(op, t) \<in> set ops. stage_time op d' = t) \<and>
      (\<forall>op. stage_time op d1 \<noteq> 0 \<longrightarrow> op \<notin> fst ` set ops \<and> stage_time op d' = stage_time op d1)"
    by (rule Cons.IH [OF d1(2) step(1)]) (use Cons.prems x in auto)
  have now: "op \<notin> fst ` set ops" "stage_time op d' = clk" using IH step(3) clk(2) by auto
  have keep: "op' \<notin> fst ` set (x # ops) \<and> stage_time op' d' = stage_time op' d" if "stage_time op' d \<noteq> 0" for op'
  proof -
    have "op' \<noteq> op" using that step(2) by auto
    then show ?thesis using IH step(4) [of op'] that x by auto
  qed
  show ?case using IH now keep x by auto
qed

text \<open>
  An instruction that is not speculative goes through its stages in order and once: of any
  sequence of stage marks at non-decreasing positive clocks that passes the assertions, from a
  new instruction, every mark sets its stage to its clock for good, no stage is marked twice,
  and execution starts and ends only after, and not before the cycle of, the issue.
\<close>

theorem di_stages_in_order:
  assumes "di_stages ops d = Inr d'" and "\<not> di_is_spec d" and "\<forall>op. stage_time op d = 0"
    and "sorted (map snd ops)" and "0 \<notin> snd ` set ops"
  shows "distinct (map fst ops) \<and> (\<forall>(op, t) \<in> set ops. stage_time op d' = t) \<and>
    (di_isExecuting d' \<longrightarrow> di_isIssued d' \<and> di_issued d' \<le> di_executing d') \<and>
    (di_isExecuted d' \<longrightarrow> di_isIssued d' \<and> di_issued d' \<le> di_executed d')"
proof -
  have "stage_ok 0 d"
    unfolding stage_ok_def
    using assms(2,3) stage_time.simps(3,4) by (metis order_refl)
  from di_stages_ok [OF assms(1) this] assms(4,5) show ?thesis
    by (auto simp: stage_ok_def di_isExecuting_def di_isExecuted_def di_isIssued_def)
qed

lemma di_stages_in_order_witness:
  "\<exists>d. di_stages [(Stage_rename, 3), (Stage_issue, 4), (Stage_executing, 4), (Stage_executed, 9)]
      (di_set_safe di_blank) = Inr d \<and> di_isIssued d \<and> di_issued d \<le> di_executed d"
proof -
  let ?ops = "[(Stage_rename, 3), (Stage_issue, 4), (Stage_executing, 4), (Stage_executed, 9)] ::
    (stage_op \<times> sim_time) list"
  let ?d = "(di_set_safe di_blank)\<lparr>di_renamed := 3, di_issued := 4, di_executing := 4, di_executed := 9\<rparr>"
  have run: "di_stages ?ops (di_set_safe di_blank) = Inr ?d"
    by (simp add: di_markRenamed_def di_markIssued_def di_markExecuting_def di_markExecuted_def
        di_set_safe_def di_set_def di_blank_def di_is_spec_def)
  have "\<forall>op. stage_time op (di_set_safe di_blank) = 0"
  proof
    fix op show "stage_time op (di_set_safe di_blank) = 0"
      by (cases op) (simp_all add: di_set_safe_def di_set_def di_blank_def)
  qed
  moreover have "\<not> di_is_spec (di_set_safe di_blank)" by (simp add: di_set_safe_def di_set_def di_is_spec_def)
  ultimately have "di_isExecuted ?d \<longrightarrow> di_isIssued ?d \<and> di_issued ?d \<le> di_executed ?d"
    using di_stages_in_order [OF run] by simp
  then show ?thesis using run by (simp add: di_isExecuted_def)
qed

end
