(* ===== verification/Dep_Window.thy ===== *)
theory Dep_Window
  imports Dinst Port
begin

text \<open>
  \<open>simu/DepWindow.cpp\<close>: the dependence window of a cluster, which issues instructions whose
  sources are ready and wakes the waiters of an executed one, with the part of the cluster it
  calls (\<open>Cluster::select\<close>). A cluster is a number that maps to its record; the \<open>Tracer\<close>
  and the prints are left out, and \<open>do_schedule\<close> answers the time at which it schedules the
  execution callback. The counter of forwards between clusters counts the increments that are
  enabled.
\<close>

section \<open>State and operations\<close>

record cluster =
  cl_id :: int
  cl_nready :: int
  cl_schedPort :: port

record dep_window =
  dw_src_cluster_id :: int
  dw_inter_cluster_lat :: u16
  dw_sched_lat :: u16
  dw_inter_cluster_fwd :: nat

record dw_world =
  ww_store :: dinst_store
  ww_cluster :: "nat \<Rightarrow> cluster"
  ww_window :: dep_window

definition ww_dinst :: "nat \<Rightarrow> dw_world \<Rightarrow> dinst" where
  "ww_dinst d w = ds_obj (ww_store w) d"

definition ww_update :: "nat \<Rightarrow> (dinst \<Rightarrow> dinst) \<Rightarrow> dw_world \<Rightarrow> dw_world" where
  "ww_update d f w = w\<lparr>ww_store := ds_update d f (ww_store w)\<rparr>"

definition dw_select :: "nat \<Rightarrow> nat \<Rightarrow> dw_world \<Rightarrow> dw_world res" where
  "dw_select c d w =
    bind_res (port_schedule (fl_keep_stats (di_flags (ww_dinst d w))) (di_ID (ww_dinst d w))
        (di_isTransient (ww_dinst d w)) d (cl_schedPort (ww_cluster w c)))
      (\<lambda>p. Inr (w\<lparr>ww_cluster := (ww_cluster w)(c := (ww_cluster w c)\<lparr>cl_schedPort := p\<rparr>)\<rparr>))"

definition cl_select :: "nat \<Rightarrow> nat \<Rightarrow> dw_world \<Rightarrow> dw_world res" where
  "cl_select c d w =
    assert_res (cl_nready (ww_cluster w c) \<ge> 0)
      (dw_select c d
        (w\<lparr>ww_cluster := (ww_cluster w)(c := (ww_cluster w c)\<lparr>cl_nready := cl_nready (ww_cluster w c) + 1\<rparr>)\<rparr>))"

definition dw_preSelect :: "nat \<Rightarrow> dw_world \<Rightarrow> dw_world res" where
  "dw_preSelect d w =
    bind_res (di_hasDeps (ww_dinst d w)) (\<lambda>deps. assert_res (\<not> deps)
     (bind_res (di_markIssued (ds_globalClock (ww_store w)) (ww_dinst d w)) (\<lambda>x.
       let w = ww_update d (\<lambda>_. x) w
       in case di_cluster (ww_dinst d w) of
            None \<Rightarrow> Inl Assert_failed
          | Some c \<Rightarrow> cl_select c d w)))"

definition dw_add_inst :: "nat \<Rightarrow> dw_world \<Rightarrow> dw_world res" where
  "dw_add_inst d w =
    assert_res (di_cluster (ww_dinst d w) \<noteq> None)
     (bind_res (di_hasDeps (ww_dinst d w)) (\<lambda>deps.
        if \<not> deps then dw_preSelect d (ww_update d di_set_in_cluster w) else Inr w))"

definition dw_do_schedule :: "sim_time \<Rightarrow> nat \<Rightarrow> dw_world \<Rightarrow> sim_time res" where
  "dw_do_schedule when d w =
    (let schedTime = when + (if fl_interCluster (di_flags (ww_dinst d w))
                             then ucast (dw_inter_cluster_lat (ww_window w))
                             else ucast (dw_sched_lat (ww_window w)))
     in deref (di_cluster (ww_dinst d w)) (\<lambda>c.
          assert_res (dw_src_cluster_id (ww_window w) = cl_id (ww_cluster w c)) (Inr schedTime)))"

text \<open>The first lines of \<open>executed\<close> and of \<open>executed_flushed\<close>.\<close>

definition dw_mark_executed :: "nat \<Rightarrow> dw_world \<Rightarrow> dw_world res" where
  "dw_mark_executed d w =
    (let clk = ds_globalClock (ww_store w); x = ww_dinst d w
     in bind_res (if di_isTransient x then Inr (di_markExecutedTransient clk x) else di_markExecuted clk x)
          (\<lambda>x. bind_res (di_clearRATEntry d (ds_update d (\<lambda>_. x) (ww_store w)))
            (\<lambda>s. Inr (w\<lparr>ww_store := s\<rparr>))))"

definition dw_executed_flushed :: "nat \<Rightarrow> dw_world \<Rightarrow> dw_world res" where
  "dw_executed_flushed d w = dw_mark_executed d w"

text \<open>What the loop does with an instruction that it has just taken off the list.\<close>

definition dw_wake_one :: "nat \<Rightarrow> nat \<Rightarrow> dw_world \<Rightarrow> dw_world res" where
  "dw_wake_one self d w =
    bind_res (if di_is_to_be_destroyed (ww_dinst d w) then di_hasDeps (ww_dinst d w) else Inr True) (\<lambda>deps0.
      if di_is_to_be_destroyed (ww_dinst d w) \<and> \<not> deps0
      then bind_res (di_destroyTransientInst self d (ww_store w)) (\<lambda>s. Inr (w\<lparr>ww_store := s\<rparr>))
      else assert_res (\<not> di_isExecuted (ww_dinst d w))
        (bind_res (di_hasDeps (ww_dinst d w)) (\<lambda>deps.
          if deps then Inr w
          else case di_cluster (ww_dinst d w) of
                 None \<Rightarrow> Inl Assert_failed
               | Some c \<Rightarrow>
                   assert_res (cl_id (ww_cluster w c) \<noteq> 0)
                    (let w = (if cl_id (ww_cluster w c) \<noteq> dw_src_cluster_id (ww_window w)
                              then ww_update d di_markInterCluster
                                (w\<lparr>ww_window := (ww_window w)\<lparr>dw_inter_cluster_fwd :=
                                     dw_inter_cluster_fwd (ww_window w) +
                                       (if fl_keep_stats (di_flags (ww_dinst d w)) then 1 else 0)\<rparr>\<rparr>)
                              else w)
                     in dw_preSelect d w))))"

partial_function (option) dw_wake_loop :: "nat \<Rightarrow> nat \<Rightarrow> dw_world \<Rightarrow> dw_world res option" where
  "dw_wake_loop self p w =
    (case di_hasPending (ww_dinst p w) of
       Inl e \<Rightarrow> Some (Inl e)
     | Inr pend \<Rightarrow>
         if \<not> pend then Some (Inr w)
         else (case di_getNextPending p (ww_store w) of
                 Inl e \<Rightarrow> Some (Inl e)
               | Inr (d, s) \<Rightarrow>
                   (case dw_wake_one self d (w\<lparr>ww_store := s\<rparr>) of
                      Inl e \<Rightarrow> Some (Inl e)
                    | Inr w \<Rightarrow> dw_wake_loop self p w)))"

definition dw_executed :: "nat \<Rightarrow> nat \<Rightarrow> dw_world \<Rightarrow> dw_world res option" where
  "dw_executed self p w =
    (case bind_res (if \<not> di_isTransient (ww_dinst p w) then di_hasDeps (ww_dinst p w) else Inr False)
            (\<lambda>deps. assert_res (\<not> deps) (bind_res (dw_mark_executed p w) (\<lambda>w.
               bind_res (di_hasPending (ww_dinst p w)) (\<lambda>pend. Inr (w, pend))))) of
       Inl e \<Rightarrow> Some (Inl e)
     | Inr (w, pend) \<Rightarrow>
         if \<not> pend then Some (Inr w)
         else (case di_cluster (ww_dinst p w) of
                 None \<Rightarrow> Some (Inl Assert_failed)
               | Some c \<Rightarrow>
                   if dw_src_cluster_id (ww_window w) = cl_id (ww_cluster w c) \<and> di_isIssued (ww_dinst p w)
                   then dw_wake_loop self p w else Some (Inl Assert_failed)))"

section \<open>Waking the waiters\<close>

text \<open>A waiter that can be issued: not flushed, untouched by the later stages, and in a cluster
  whose scheduling port is a managed one.\<close>

definition port_managed :: "port \<Rightarrow> bool" where
  "port_managed p \<longleftrightarrow> (\<exists>q. p = PortUnlimitedPriority q) \<or> (\<exists>q. p = PortPipePriority q)"

definition wakeable :: "dw_world \<Rightarrow> nat \<Rightarrow> bool" where
  "wakeable w d \<longleftrightarrow>
    \<not> di_is_to_be_destroyed (ww_dinst d w) \<and> di_issued (ww_dinst d w) = 0 \<and>
    di_executing (ww_dinst d w) = 0 \<and> di_executed (ww_dinst d w) = 0 \<and> di_cluster (ww_dinst d w) \<noteq> None"

definition clusters_ok :: "dw_world \<Rightarrow> bool" where
  "clusters_ok w \<longleftrightarrow> (\<forall>c. cl_id (ww_cluster w c) \<noteq> 0 \<and> 0 \<le> cl_nready (ww_cluster w c) \<and>
    port_managed (cl_schedPort (ww_cluster w c)))"

lemma port_schedule_managed:
  "port_managed p \<Longrightarrow> \<exists>q. port_schedule en prio tr cb p = Inr q \<and> port_managed q"
  by (auto simp: port_managed_def)

lemma ww_update_dinst: "ww_dinst x (ww_update d f w) = (if x = d then f (ww_dinst d w) else ww_dinst x w)"
  by (simp add: ww_dinst_def ww_update_def ds_update_obj)

text \<open>Selection changes the clusters only.\<close>

lemma cl_select_ok:
  assumes "clusters_ok w"
  obtains w' where "cl_select c d w = Inr w'" "ww_store w' = ww_store w" "clusters_ok w'"
proof -
  let ?w1 = "w\<lparr>ww_cluster := (ww_cluster w)(c := (ww_cluster w c)\<lparr>cl_nready := cl_nready (ww_cluster w c) + 1\<rparr>)\<rparr>"
  obtain q where q: "port_schedule (fl_keep_stats (di_flags (ww_dinst d ?w1))) (di_ID (ww_dinst d ?w1))
      (di_isTransient (ww_dinst d ?w1)) d (cl_schedPort (ww_cluster ?w1 c)) = Inr q" "port_managed q"
    using port_schedule_managed assms unfolding clusters_ok_def by (auto, metis)
  then have "cl_select c d w = Inr (?w1\<lparr>ww_cluster := (ww_cluster ?w1)(c := (ww_cluster ?w1 c)\<lparr>cl_schedPort := q\<rparr>)\<rparr>)"
    using assms by (simp add: cl_select_def dw_select_def clusters_ok_def)
  then show ?thesis by (rule that) (use assms q in \<open>auto simp: clusters_ok_def\<close>)
qed

text \<open>Issuing an instruction without dependences.\<close>

lemma dw_preSelect_ok:
  assumes inv: "dep_inv Q (ww_store w)" and no: "\<nexists>q k. (d, k) \<in> set (Q q)"
    and ok: "wakeable w d" "clusters_ok w"
  obtains w' where "dw_preSelect d w = Inr w'" "dep_inv Q (ww_store w')" "clusters_ok w'"
    "\<forall>x. x \<noteq> d \<longrightarrow> ww_dinst x w' = ww_dinst x w"
    "di_issued (ww_dinst d w') = ds_globalClock (ww_store w)" "di_executed (ww_dinst d w') = 0"
    "ds_globalClock (ww_store w') = ds_globalClock (ww_store w)"
proof -
  let ?clk = "ds_globalClock (ww_store w)"
  obtain c where c: "di_cluster (ww_dinst d w) = Some c" using ok by (auto simp: wakeable_def)
  let ?x = "(ww_dinst d w)\<lparr>di_issued := ?clk\<rparr>"
  let ?w1 = "ww_update d (\<lambda>_. ?x) w"
  have deps: "di_hasDeps (ww_dinst d w) = Inr False"
    using dep_hasDeps [OF inv, of d] no by (auto simp: ww_dinst_def)
  have inv1: "dep_inv Q (ww_store ?w1)"
    by (rule dep_inv_frame [OF inv]) (auto simp: ww_update_def ds_update_obj ww_dinst_def)
  have "clusters_ok ?w1" using ok by (simp add: clusters_ok_def ww_update_def)
  then obtain w' where w': "cl_select c d ?w1 = Inr w'" "ww_store w' = ww_store ?w1" "clusters_ok w'"
    by (rule cl_select_ok)
  have "dw_preSelect d w = Inr w'"
    using deps c ok w'(1) by (simp add: dw_preSelect_def di_markIssued_def wakeable_def ww_update_dinst)
  moreover have "ww_dinst x w' = ww_dinst x ?w1" for x by (simp add: ww_dinst_def w'(2))
  moreover have "ds_globalClock (ww_store ?w1) = ?clk" by (simp add: ww_update_def ds_update_def)
  ultimately show ?thesis
    using that [of w'] w' inv1 ok by (auto simp: ww_update_dinst wakeable_def)
qed

lemma dw_wake_one_ok:
  assumes inv: "dep_inv Q (ww_store w)" and ok: "wakeable w d" "clusters_ok w"
  obtains w' where "dw_wake_one self d w = Inr w'" "dep_inv Q (ww_store w')" "clusters_ok w'"
    "\<forall>x. x \<noteq> d \<longrightarrow> ww_dinst x w' = ww_dinst x w" "di_executed (ww_dinst d w') = 0"
    "ds_globalClock (ww_store w') = ds_globalClock (ww_store w)"
    "\<exists>q k. (d, k) \<in> set (Q q) \<Longrightarrow> w' = w"
    "\<nexists>q k. (d, k) \<in> set (Q q) \<Longrightarrow> di_issued (ww_dinst d w') = ds_globalClock (ww_store w)"
proof (cases "\<exists>q k. (d, k) \<in> set (Q q)")
  case True
  have "di_hasDeps (ww_dinst d w) = Inr True"
    using dep_hasDeps [OF inv, of d] True by (simp add: ww_dinst_def)
  then have "dw_wake_one self d w = Inr w"
    using ok by (simp add: dw_wake_one_def wakeable_def di_isExecuted_def)
  then show ?thesis using that [of w] inv ok True by (auto simp: wakeable_def)
next
  case False
  have deps: "di_hasDeps (ww_dinst d w) = Inr False"
    using dep_hasDeps [OF inv, of d] False by (auto simp: ww_dinst_def)
  obtain c where c: "di_cluster (ww_dinst d w) = Some c" using ok by (auto simp: wakeable_def)
  let ?w1 = "if cl_id (ww_cluster w c) \<noteq> dw_src_cluster_id (ww_window w)
      then ww_update d di_markInterCluster
        (w\<lparr>ww_window := (ww_window w)\<lparr>dw_inter_cluster_fwd := dw_inter_cluster_fwd (ww_window w) +
             (if fl_keep_stats (di_flags (ww_dinst d w)) then 1 else 0)\<rparr>\<rparr>) else w"
  have run: "dw_wake_one self d w = dw_preSelect d ?w1"
    using deps c ok by (simp add: dw_wake_one_def wakeable_def di_isExecuted_def clusters_ok_def Let_def)
  have d1: "ww_dinst x ?w1 = (if x = d \<and> cl_id (ww_cluster w c) \<noteq> dw_src_cluster_id (ww_window w)
      then di_markInterCluster (ww_dinst d w) else ww_dinst x w)" for x
    by (simp add: ww_update_dinst) (simp add: ww_dinst_def)
  have inv1: "dep_inv Q (ww_store ?w1)"
    by (rule dep_inv_frame [OF inv])
      (auto simp: ww_update_def ds_update_obj di_markInterCluster_def di_set_def)
  have clk1: "ds_globalClock (ww_store ?w1) = ds_globalClock (ww_store w)"
    by (simp add: ww_update_def ds_update_def)
  have ok1: "wakeable ?w1 d" "clusters_ok ?w1"
    using ok unfolding wakeable_def d1
    by (auto simp: di_markInterCluster_def di_set_def di_is_to_be_destroyed_def clusters_ok_def ww_update_def)
  obtain w' where w': "dw_preSelect d ?w1 = Inr w'" "dep_inv Q (ww_store w')" "clusters_ok w'"
    "\<forall>x. x \<noteq> d \<longrightarrow> ww_dinst x w' = ww_dinst x ?w1"
    "di_issued (ww_dinst d w') = ds_globalClock (ww_store ?w1)" "di_executed (ww_dinst d w') = 0"
    "ds_globalClock (ww_store w') = ds_globalClock (ww_store ?w1)"
    by (rule dw_preSelect_ok [OF inv1 False ok1])
  show ?thesis
    by (rule that [of w']) (use run w' clk1 d1 False in auto)
qed

lemma di_getNextPending_frame:
  assumes "di_getNextPending p s = Inr (d, s')"
  shows "di_issued (ds_obj s' x) = di_issued (ds_obj s x)" "di_executing (ds_obj s' x) = di_executing (ds_obj s x)"
    "di_flags (ds_obj s' x) = di_flags (ds_obj s x)" "di_cluster (ds_obj s' x) = di_cluster (ds_obj s x)"
    "ds_globalClock s' = ds_globalClock s"
  using assms
  by (auto simp: di_getNextPending_def Let_def assert_res_def ds_set_pend_def ds_update_def
      split: option.splits if_splits)

text \<open>\<open>woken Q p x\<close>: \<open>x\<close> waits for \<open>p\<close> and for nothing else.\<close>

definition woken :: "(nat \<Rightarrow> dep_node list) \<Rightarrow> nat \<Rightarrow> nat \<Rightarrow> bool" where
  "woken Q p x \<longleftrightarrow> (\<exists>k. (x, k) \<in> set (Q p)) \<and> (\<forall>q k. (x, k) \<in> set (Q q) \<longrightarrow> q = p)"

lemma dw_wake_loop_ok:
  "dep_inv Q (ww_store w) \<Longrightarrow> clusters_ok w \<Longrightarrow> \<forall>d \<in> fst ` set (Q p). wakeable w d \<and> d \<noteq> p \<Longrightarrow>
    \<exists>w'. dw_wake_loop self p w = Some (Inr w') \<and> dep_inv (Q(p := [])) (ww_store w') \<and>
      (\<forall>x. di_issued (ww_dinst x w') =
        (if woken Q p x then ds_globalClock (ww_store w) else di_issued (ww_dinst x w)))"
proof (induction "Q p" arbitrary: Q w)
  case Nil
  have "di_hasPending (ww_dinst p w) = Inr False"
    using dep_hasPending [OF Nil.prems(1), of p] Nil.hyps by (simp add: ww_dinst_def)
  then have "dw_wake_loop self p w = Some (Inr w)" by (subst dw_wake_loop.simps) simp
  moreover have "Q(p := []) = Q" using Nil.hyps by (metis fun_upd_triv)
  ultimately show ?case using Nil by (auto simp: woken_def)
next
  case (Cons nd rest)
  obtain d k where nd: "nd = (d, k)" by force
  have q: "Q p = (d, k) # rest" using Cons.hyps(2) nd by simp
  have dok: "wakeable w d" using Cons.prems(3) q by simp
  obtain s1 where s1: "di_getNextPending p (ww_store w) = Inr (d, s1)" "dep_inv (Q(p := rest)) s1"
    "\<forall>x. di_executed (ds_obj s1 x) = di_executed (ds_obj (ww_store w) x)"
    "ds_used s1 = (ds_used (ww_store w))((d, k) := False)"
    by (rule di_getNextPending_ok [OF Cons.prems(1) q])
  let ?Q1 = "Q(p := rest)" and ?w1 = "w\<lparr>ww_store := s1\<rparr>" and ?clk = "ds_globalClock (ww_store w)"
  note frame = di_getNextPending_frame [OF s1(1)]
  have wk: "wakeable ?w1 x = wakeable w x" for x
    using frame s1(3) by (simp add: wakeable_def ww_dinst_def di_is_to_be_destroyed_def)
  have issued1: "di_issued (ww_dinst x ?w1) = di_issued (ww_dinst x w)" for x
    using frame by (simp add: ww_dinst_def)
  have inv1: "dep_inv ?Q1 (ww_store ?w1)" using s1(2) by simp
  have ok1: "wakeable ?w1 d" "clusters_ok ?w1" using dok wk Cons.prems(2) by (simp_all add: clusters_ok_def)
  obtain w2 where w2: "dw_wake_one self d ?w1 = Inr w2" "dep_inv ?Q1 (ww_store w2)" "clusters_ok w2"
    "\<forall>x. x \<noteq> d \<longrightarrow> ww_dinst x w2 = ww_dinst x ?w1"
    "ds_globalClock (ww_store w2) = ds_globalClock (ww_store ?w1)"
    and stay: "\<exists>q k. (d, k) \<in> set (?Q1 q) \<Longrightarrow> w2 = ?w1"
    and go: "\<nexists>q k. (d, k) \<in> set (?Q1 q) \<Longrightarrow> di_issued (ww_dinst d w2) = ds_globalClock (ww_store ?w1)"
    by (rule dw_wake_one_ok [OF inv1 ok1]) blast
  have pend: "di_hasPending (ww_dinst p w) = Inr True"
    using dep_hasPending [OF Cons.prems(1), of p] q by (simp add: ww_dinst_def)
  have step: "dw_wake_loop self p w = dw_wake_loop self p w2"
    by (subst dw_wake_loop.simps) (simp add: pend s1(1) w2(1))
  have hyp: "\<forall>x \<in> fst ` set (?Q1 p). wakeable w2 x \<and> x \<noteq> p"
  proof
    fix x assume x: "x \<in> fst ` set (?Q1 p)"
    then have "wakeable w x \<and> x \<noteq> p" using Cons.prems(3) q by auto
    moreover have "w2 = ?w1" if "x = d" using stay x that by fastforce
    moreover have "wakeable w2 x = wakeable ?w1 x" if "x \<noteq> d" using w2(4) that by (simp add: wakeable_def)
    ultimately show "wakeable w2 x \<and> x \<noteq> p" using wk by metis
  qed
  obtain w' where w': "dw_wake_loop self p w2 = Some (Inr w')" "dep_inv (?Q1(p := [])) (ww_store w')"
    and iss: "\<forall>x. di_issued (ww_dinst x w') =
        (if woken ?Q1 p x then ds_globalClock (ww_store w2) else di_issued (ww_dinst x w2))"
    using Cons.hyps(1) [of ?Q1 w2] w2(2,3) hyp by auto
  have clk: "ds_globalClock (ww_store w2) = ?clk" using w2(5) frame(5) by simp
  have "di_issued (ww_dinst x w') = (if woken Q p x then ?clk else di_issued (ww_dinst x w))" for x
  proof (cases "x = d")
    case False
    have "woken ?Q1 p x = woken Q p x" using False q by (auto simp: woken_def split: if_splits)
    then show ?thesis using iss False w2(4) issued1 clk by simp
  next
    case True
    show ?thesis
    proof (cases "\<exists>q k. (d, k) \<in> set (?Q1 q)")
      case stays: True
      have "woken ?Q1 p d = woken Q p d" using stays q by (auto simp: woken_def split: if_splits)
      then show ?thesis using iss stay [OF stays] issued1 clk True by simp
    next
      case goes: False
      then have none: "(d, k') \<notin> set (?Q1 x)" for x k' by blast
      then have "\<not> woken ?Q1 p d" unfolding woken_def using none by blast
      moreover have "woken Q p d" unfolding woken_def
      proof (intro conjI allI impI)
        show "\<exists>k'. (d, k') \<in> set (Q p)" using q by auto
        show "x = p" if "(d, k') \<in> set (Q x)" for x k' using none [of k' x] that by (metis fun_upd_other)
      qed
      ultimately show ?thesis using iss go [OF goes] frame(5) True by simp
    qed
  qed
  then show ?case using step w' by auto
qed

lemma dw_mark_executed_ok:
  assumes inv: "dep_inv Q (ww_store w)" and "\<not> di_isTransient (ww_dinst p w)"
    and "di_issued (ww_dinst p w) \<noteq> 0" "di_executed (ww_dinst p w) = 0"
    and "di_RAT1Entry (ww_dinst p w) = Some e1" "di_RAT2Entry (ww_dinst p w) = Some e2"
  obtains w' where "dw_mark_executed p w = Inr w'" "dep_inv Q (ww_store w')"
    "\<forall>x. ww_dinst x w' = (if x = p then (ww_dinst p w)\<lparr>di_executed := ds_globalClock (ww_store w)\<rparr> else ww_dinst x w)"
    "ww_cluster w' = ww_cluster w" "ww_window w' = ww_window w"
    "ds_globalClock (ww_store w') = ds_globalClock (ww_store w)"
proof -
  let ?s = "ds_update p (\<lambda>_. (ww_dinst p w)\<lparr>di_executed := ds_globalClock (ww_store w)\<rparr>) (ww_store w)"
  obtain rat where clear: "di_clearRATEntry p ?s = Inr (?s\<lparr>ds_rat := rat\<rparr>)"
    using assms(5,6) by (simp add: di_clearRATEntry_def ds_update_obj deref_def Let_def)
  let ?w' = "w\<lparr>ww_store := ?s\<lparr>ds_rat := rat\<rparr>\<rparr>"
  have "dw_mark_executed p w = Inr ?w'"
    using assms(2-4) clear by (simp add: dw_mark_executed_def di_markExecuted_def Let_def)
  moreover have "dep_inv Q (ww_store ?w')"
    by (rule dep_inv_frame [OF inv]) (auto simp: ds_update_obj ww_dinst_def)
  moreover have "ds_globalClock (ww_store ?w') = ds_globalClock (ww_store w)" by (simp add: ds_update_def)
  ultimately show ?thesis
    by (intro that [of ?w']) (auto simp: ww_dinst_def ds_update_obj)
qed

text \<open>
  C5. Wake-up: let an instruction that is not transient, has been issued and not executed, has no
  open source and both its RAT entries, and lies in the cluster of this window execute. Let every instruction that
  waits for it be wakeable: not flushed or marked for destruction, not issued, executing or
  executed yet, and in a cluster; and let every cluster have a number other than 0, a count of ready
  instructions that is not negative and a managed scheduling port. Then the walk over its
  waiters ends and passes every assertion, no instruction waits for it any more, every other
  dependence is kept, and exactly the instructions that waited for it and for nothing else are
  issued, at the current clock, however many of their sources it was. (Flushed waiters take the
  other branch of the loop, which destroys them once their sources are gone; the property does not speak of them.)
\<close>

theorem dw_executed_wakes_exactly_the_ready:
  assumes "dep_inv Q (ww_store w)" and "clusters_ok w"
    and "\<forall>d \<in> fst ` set (Q p). wakeable w d \<and> d \<noteq> p" and "\<forall>q k. (p, k) \<notin> set (Q q)"
    and "\<not> di_isTransient (ww_dinst p w)" "di_isIssued (ww_dinst p w)" "\<not> di_isExecuted (ww_dinst p w)"
    and "di_RAT1Entry (ww_dinst p w) = Some e1" "di_RAT2Entry (ww_dinst p w) = Some e2"
    and "di_cluster (ww_dinst p w) = Some c" "cl_id (ww_cluster w c) = dw_src_cluster_id (ww_window w)"
  shows "\<exists>w'. dw_executed self p w = Some (Inr w') \<and> dep_inv (Q(p := [])) (ww_store w') \<and>
    (\<forall>x. di_issued (ww_dinst x w') =
      (if woken Q p x then ds_globalClock (ww_store w) else di_issued (ww_dinst x w)))"
proof -
  obtain w1 where w1: "dw_mark_executed p w = Inr w1" "dep_inv Q (ww_store w1)"
    and obj: "\<forall>x. ww_dinst x w1 = (if x = p then (ww_dinst p w)\<lparr>di_executed := ds_globalClock (ww_store w)\<rparr> else ww_dinst x w)"
    and rest: "ww_cluster w1 = ww_cluster w" "ww_window w1 = ww_window w"
    "ds_globalClock (ww_store w1) = ds_globalClock (ww_store w)"
    using dw_mark_executed_ok [OF assms(1,5) _ _ assms(8,9)] assms(6,7)
    by (auto simp: di_isIssued_def di_isExecuted_def)
  have deps: "di_hasDeps (ww_dinst p w) = Inr False"
    using dep_hasDeps [OF assms(1), of p] assms(4) by (auto simp: ww_dinst_def)
  have pend: "di_hasPending (ww_dinst p w1) = Inr (Q p \<noteq> [])"
    using dep_hasPending [OF w1(2), of p] by (simp add: ww_dinst_def)
  have issued: "di_issued (ww_dinst x w1) = di_issued (ww_dinst x w)" for x using obj by simp
  have hyp: "\<forall>d \<in> fst ` set (Q p). wakeable w1 d \<and> d \<noteq> p"
    using assms(3) obj by (auto simp: wakeable_def)
  have cl: "clusters_ok w1" using assms(2) rest by (simp add: clusters_ok_def)
  obtain w' where w': "dw_wake_loop self p w1 = Some (Inr w')" "dep_inv (Q(p := [])) (ww_store w')"
    "\<forall>x. di_issued (ww_dinst x w') = (if woken Q p x then ds_globalClock (ww_store w1) else di_issued (ww_dinst x w1))"
    using dw_wake_loop_ok [OF w1(2) cl hyp] by blast
  have "dw_executed self p w = dw_wake_loop self p w1"
  proof (cases "Q p = []")
    case True
    then have "dw_wake_loop self p w1 = Some (Inr w1)"
      using pend by (subst dw_wake_loop.simps) simp
    then show ?thesis using True assms(5) deps w1(1) pend by (simp add: dw_executed_def)
  next
    case False
    then show ?thesis
      using assms(5,6,10,11) deps w1(1) pend obj rest
      by (simp add: dw_executed_def di_isIssued_def)
  qed
  then show ?thesis using w' rest issued by auto
qed

definition dw_example :: dw_world where
  "dw_example =
    (let d = di_blank\<lparr>di_flags := di_setup_flags (di_flags di_blank), di_cluster := Some 0,
               di_RAT1Entry := Some 0, di_RAT2Entry := Some 1\<rparr>;
         w = d\<lparr>di_pend := (\<lambda>_. dn_idle)(Src1 := \<lparr>dn_parent = Some 0, dn_nextDep = None, dn_isUsed = True\<rparr>),
               di_nDeps := 1\<rparr>
     in \<lparr>ww_store = (ds_blank pool_two)\<lparr>ds_obj := (\<lambda>_. d)
            (0 := d\<lparr>di_first := Some (1, Src1), di_last := Some (1, Src1), di_issued := 1\<rparr>, 1 := w),
            ds_globalClock := 5\<rparr>,
         ww_cluster = (\<lambda>_. \<lparr>cl_id = 1, cl_nready = 0, cl_schedPort = PortUnlimitedPriority pp_create\<rparr>),
         ww_window = \<lparr>dw_src_cluster_id = 1, dw_inter_cluster_lat = 2, dw_sched_lat = 1,
                      dw_inter_cluster_fwd = 0\<rparr>\<rparr>)"

lemma dw_example_used: "ds_used (ww_store dw_example) nd \<longleftrightarrow> nd = (1, Src1)"
  by (cases nd) (auto simp: ds_used_def dw_example_def Let_def di_blank_def dn_idle_def)

lemma dw_example_inv: "dep_inv ((\<lambda>_. [])(0 := [(1, Src1)])) (ww_store dw_example)"
proof -
  have one: "{k. (d, k) = (1, Src1)} = (if d = (1 :: nat) then {Src1} else {})" for d by auto
  have "ds_parent (ww_store dw_example) (1, Src1) = Some 0"
    by (simp add: ds_parent_def dw_example_def Let_def)
  then have "dep_parents ((\<lambda>_. [])(0 := [(1, Src1)])) (ww_store dw_example)"
    unfolding dep_parents_def dw_example_used by auto
  moreover have "dep_counts (ww_store dw_example)"
    unfolding dep_counts_def dw_example_used one by (simp add: dw_example_def Let_def di_blank_def)
  moreover have "dep_lists ((\<lambda>_. [])(0 := [(1, Src1)])) (ww_store dw_example)"
    by (simp add: dep_lists_def ds_next_def) (simp add: dw_example_def Let_def di_blank_def)
  ultimately show ?thesis by (simp add: dep_inv_def)
qed

lemma dw_executed_wakes_exactly_the_ready_witness:
  "\<exists>w'. dw_executed 1 0 dw_example = Some (Inr w') \<and> di_issued (ww_dinst 1 w') = 5"
proof -
  let ?Q = "(\<lambda>_. [])(0 := [(1, Src1)]) :: nat \<Rightarrow> dep_node list"
  have "clusters_ok dw_example"
    by (simp add: clusters_ok_def dw_example_def Let_def port_managed_def)
  moreover have "\<forall>d \<in> fst ` set (?Q 0). wakeable dw_example d \<and> d \<noteq> 0"
    by (simp add: wakeable_def ww_dinst_def dw_example_def Let_def di_blank_def di_setup_flags_def
        di_is_to_be_destroyed_def)
  moreover have "di_issued (ww_dinst 0 dw_example) = 1" "di_executed (ww_dinst 0 dw_example) = 0"
    "di_RAT1Entry (ww_dinst 0 dw_example) = Some 0" "di_RAT2Entry (ww_dinst 0 dw_example) = Some 1"
    "di_cluster (ww_dinst 0 dw_example) = Some 0" "\<not> di_isTransient (ww_dinst 0 dw_example)"
    "cl_id (ww_cluster dw_example 0) = dw_src_cluster_id (ww_window dw_example)"
    "ds_globalClock (ww_store dw_example) = 5"
    by (simp_all add: ww_dinst_def dw_example_def Let_def di_blank_def di_setup_flags_def di_isTransient_def)
  moreover have "woken ?Q 0 1" by (auto simp: woken_def split: if_splits)
  ultimately show ?thesis
    using dw_executed_wakes_exactly_the_ready [OF dw_example_inv, of 0 0 1 0 1]
    by (auto simp: di_isIssued_def di_isExecuted_def)
qed

end
