(* ===== verification/Store_Set.thy ===== *)
theory Store_Set
  imports Dinst
begin

text \<open>
  \<open>simu/StoreSet.cpp\<close> and \<open>simu/storeset.hpp\<close>: the store set predictor. The table \<open>SSIT\<close>
  maps hashed program counters to set ids (\<open>-1\<close> for none) and the table \<open>LFST\<close> maps a set
  id to the instruction of the set that was fetched last. A load or store of a set is linked
  behind that instruction through the third source of the dynamic instruction. The counter
  of \<open>create_id\<close> is a function static, shared by all store sets of a run; here it is a field.
  The timer that clears the tables is its handler; its scheduling is the event scheduler's.
\<close>

section \<open>State and tables\<close>

record store_set =
  ss_SSIT :: "int list"
  ss_LFST :: "nat option list"
  ss_StoreSetSize :: int
  ss_rnd :: int
  ss_clear_interval :: sim_time

definition int_nth_res :: "'a list \<Rightarrow> int \<Rightarrow> ('a \<Rightarrow> 'b res) \<Rightarrow> 'b res" where
  "int_nth_res xs i k = (if 0 \<le> i then nth_res xs (nat i) k else Inl Out_of_bounds)"

definition int_update_res :: "'a list \<Rightarrow> int \<Rightarrow> 'a \<Rightarrow> 'a list res" where
  "int_update_res xs i x = (if 0 \<le> i then update_res xs (nat i) x else Inl Out_of_bounds)"

definition ss_hashPC :: "store_set \<Rightarrow> addr \<Rightarrow> nat" where
  "ss_hashPC t PC =
    unat (drop_bit 2 ((drop_bit 2 PC XOR drop_bit 11 PC) + PC) AND word_of_int (ss_StoreSetSize t - 1))"

definition ss_isValidSSID :: "int \<Rightarrow> bool" where
  "ss_isValidSSID i \<longleftrightarrow> i \<noteq> - 1"

definition ss_get_SSID :: "addr \<Rightarrow> store_set \<Rightarrow> int" where
  "ss_get_SSID PC t = ss_SSIT t ! ss_hashPC t PC"

definition ss_set_SSID :: "addr \<Rightarrow> int \<Rightarrow> store_set \<Rightarrow> store_set" where
  "ss_set_SSID PC i t = t\<lparr>ss_SSIT := (ss_SSIT t)[ss_hashPC t PC := i]\<rparr>"

definition ss_get_LFS :: "int \<Rightarrow> store_set \<Rightarrow> (nat option \<Rightarrow> 'b res) \<Rightarrow> 'b res" where
  "ss_get_LFS i t k = assert_res (i \<le> int (length (ss_LFST t))) (int_nth_res (ss_LFST t) i k)"

definition ss_set_LFS :: "int \<Rightarrow> nat option \<Rightarrow> store_set \<Rightarrow> store_set res" where
  "ss_set_LFS i d t = bind_res (int_update_res (ss_LFST t) i d) (\<lambda>l. Inr (t\<lparr>ss_LFST := l\<rparr>))"

definition ss_clear_SSIT :: "store_set \<Rightarrow> store_set" where
  "ss_clear_SSIT t = t\<lparr>ss_SSIT := replicate (length (ss_SSIT t)) (- 1)\<rparr>"

definition ss_clear_LFST :: "store_set \<Rightarrow> store_set" where
  "ss_clear_LFST t = t\<lparr>ss_LFST := replicate (length (ss_LFST t)) None\<rparr>"

section \<open>Operations\<close>

text \<open>The constructor takes the configured size and the state of the shared counter, and
  returns the time of the first clearing.\<close>

definition ss_create :: "nat \<Rightarrow> int \<Rightarrow> sim_time \<Rightarrow> store_set \<times> sim_time" where
  "ss_create n rnd clk =
    (let t = ss_clear_LFST (ss_clear_SSIT
           \<lparr>ss_SSIT = replicate n 0, ss_LFST = replicate n None, ss_StoreSetSize = int n,
            ss_rnd = rnd, ss_clear_interval = 90000000\<rparr>);
         when = ss_clear_interval t + clk
     in (t, if clk \<noteq> 0 \<and> when \<ge> clk * 2 then clk * 2 - 1 else when))"

definition ss_clearStoreSetsTimer :: "sim_time \<Rightarrow> store_set \<Rightarrow> store_set \<times> sim_time" where
  "ss_clearStoreSetsTimer clk t =
    (let t = ss_clear_LFST (ss_clear_SSIT t);
         when = ss_clear_interval t + clk
     in (t, if when \<ge> clk * 2 then clk * 2 - 1 else when))"

definition ss_create_id :: "store_set \<Rightarrow> int \<times> store_set" where
  "ss_create_id t =
    (if ss_rnd t < ss_StoreSetSize t then (ss_rnd t, t\<lparr>ss_rnd := ss_rnd t + 1\<rparr>)
     else (0, t\<lparr>ss_rnd := 0\<rparr>))"

definition ss_create_set :: "addr \<Rightarrow> store_set \<Rightarrow> (int \<times> store_set) res" where
  "ss_create_set PC t =
    (let (i, t) = ss_create_id t;
         old = ss_get_SSID PC t;
         t = ss_set_SSID PC i t
     in bind_res (ss_set_LFS i None t) (\<lambda>t.
          assert_res (i < ss_StoreSetSize t)
           (bind_res (if ss_isValidSSID old then ss_set_LFS old None t else Inr t) (\<lambda>t. Inr (i, t)))))"

definition ss_merge_sets :: "nat \<Rightarrow> nat \<Rightarrow> store_set \<times> dinst_store \<Rightarrow> store_set res" where
  "ss_merge_sets m d = (\<lambda>(t, s).
    let m_pc = di_pc (ds_obj s m); d_pc = di_pc (ds_obj s d); i = ss_get_SSID m_pc t
    in bind_res (if \<not> ss_isValidSSID i then ss_create_set m_pc t else Inr (i, t)) (\<lambda>(i, t).
         Inr (ss_set_SSID d_pc i t)))"

definition ds_setSSID :: "nat \<Rightarrow> int \<Rightarrow> dinst_store \<Rightarrow> dinst_store" where
  "ds_setSSID d i s = ds_update d (\<lambda>x. x\<lparr>di_SSID := i\<rparr>) s"

definition ss_insert :: "nat \<Rightarrow> store_set \<times> dinst_store \<Rightarrow> (bool \<times> store_set \<times> dinst_store) res" where
  "ss_insert d = (\<lambda>(t, s).
    let i = ss_get_SSID (di_pc (ds_obj s d)) t
    in if \<not> ss_isValidSSID i then Inr (True, t, ds_setSSID d (- 1) s)
       else if isStoreAddress (di_inst (ds_obj s d)) then Inl Exit_called
       else assert_res (\<not> di_isExecuted (ds_obj s d))
             (let s = ds_setSSID d i s
              in ss_get_LFS i t (\<lambda>lfs.
                  bind_res (ss_set_LFS i (Some d) t) (\<lambda>t.
                    case lfs of
                      None \<Rightarrow> Inr (True, t, s)
                    | Some p \<Rightarrow>
                        assert_res (\<not> di_isExecuted (ds_obj s p))
                         (assert_res (\<not> di_isExecuted (ds_obj s d))
                           (bind_res (di_addSrc Src3 p d s) (\<lambda>s. Inr (True, t, s))))))))"

definition ss_remove :: "nat \<Rightarrow> store_set \<times> dinst_store \<Rightarrow> store_set res" where
  "ss_remove d = (\<lambda>(t, s).
    assert_res (\<not> isStoreAddress (di_inst (ds_obj s d)))
     (let i = di_SSID (ds_obj s d)
      in if \<not> ss_isValidSSID i then Inr t
         else ss_get_LFS i t (\<lambda>lfs.
           if Some d = lfs then assert_res (ss_isValidSSID i) (ss_set_LFS i None t) else Inr t)))"

text \<open>\<open>stldViolation\<close> returns at its first line: what follows it is never run.\<close>

definition ss_stldViolation :: "nat \<Rightarrow> addr \<Rightarrow> store_set \<times> dinst_store \<Rightarrow> store_set res" where
  "ss_stldViolation ld st_pc = (\<lambda>(t, s). Inr t)"

definition ss_stldViolation_dinst :: "nat \<Rightarrow> nat \<Rightarrow> store_set \<times> dinst_store \<Rightarrow> store_set res" where
  "ss_stldViolation_dinst ld st = (\<lambda>(t, s). ss_stldViolation ld (di_pc (ds_obj s st)) (t, s))"

definition ss_retarget :: "(int \<Rightarrow> bool) \<Rightarrow> int \<Rightarrow> store_set \<Rightarrow> store_set" where
  "ss_retarget P i t =
    t\<lparr>ss_SSIT := map (\<lambda>(n, j). if int n < ss_StoreSetSize t \<and> P j then i else j)
                    (enumerate 0 (ss_SSIT t))\<rparr>"

definition ss_stldViolation_withmerge :: "nat \<Rightarrow> nat \<Rightarrow> store_set \<times> dinst_store \<Rightarrow> store_set res" where
  "ss_stldViolation_withmerge ld st = (\<lambda>(t, s).
    assert_res (isStore (di_inst (ds_obj s st)))
     (assert_res (isLoad (di_inst (ds_obj s ld)))
       (let ld_pc = di_pc (ds_obj s ld); st_pc = di_pc (ds_obj s st);
            st_SSID = di_SSID (ds_obj s st)
        in bind_res (if \<not> ss_isValidSSID (di_SSID (ds_obj s ld)) then ss_create_set ld_pc t
                     else Inr (di_SSID (ds_obj s ld), t)) (\<lambda>(ld_SSID, t).
             bind_res (if ss_isValidSSID st_SSID \<and> st_SSID \<noteq> ld_SSID
                       then ss_set_LFS st_SSID None (ss_retarget (\<lambda>j. j = st_SSID) ld_SSID t)
                       else Inr t) (\<lambda>t. Inr (ss_set_SSID st_pc ld_SSID t))))))"

definition ss_mergeset :: "int \<Rightarrow> int \<Rightarrow> store_set \<Rightarrow> (int \<times> store_set) res" where
  "ss_mergeset id1 id2 t =
    (if id1 = id2 then Inr (id1, t)
     else let newid = (if id1 < id2 then id1 else id2)
          in assert_res (id1 \<noteq> - 1)
              (assert_res (id2 \<noteq> - 1)
                (bind_res (ss_set_LFS id1 None t) (\<lambda>t.
                   bind_res (ss_set_LFS id2 None t) (\<lambda>t.
                     Inr (newid, ss_retarget (\<lambda>j. j = id1 \<or> j = id2) newid t))))))"

definition ss_VPC_misspredict :: "nat \<Rightarrow> addr \<Rightarrow> store_set \<times> dinst_store \<Rightarrow> store_set res" where
  "ss_VPC_misspredict ld st_pc = (\<lambda>(t, s).
    assert_res (st_pc \<noteq> 0)
     (assert_res (isLoad (di_inst (ds_obj s ld)))
       (bind_res (if \<not> ss_isValidSSID (di_SSID (ds_obj s ld)) then ss_create_set (di_pc (ds_obj s ld)) t
                  else Inr (di_SSID (ds_obj s ld), t)) (\<lambda>(i, t). Inr (ss_set_SSID st_pc i t)))))"

definition ss_assign_SSID :: "nat \<Rightarrow> int \<Rightarrow> store_set \<times> dinst_store \<Rightarrow> (store_set \<times> dinst_store) res" where
  "ss_assign_SSID d target = (\<lambda>(t, s).
    let i = di_SSID (ds_obj s d); pc = di_pc (ds_obj s d)
    in bind_res (if ss_isValidSSID i
                 then ss_get_LFS i t (\<lambda>lfs.
                   if lfs = Some d \<and> pc = di_pc (ds_obj s d) then ss_set_LFS i None t else Inr t)
                 else Inr t) (\<lambda>t.
         Inr (ss_set_SSID pc target t, ds_setSSID d target s)))"

section \<open>Well-formed tables\<close>

definition ss_wf :: "store_set \<Rightarrow> bool" where
  "ss_wf t \<longleftrightarrow>
    (\<exists>k < 31. ss_StoreSetSize t = 2 ^ k) \<and> length (ss_SSIT t) = nat (ss_StoreSetSize t) \<and>
    length (ss_LFST t) = nat (ss_StoreSetSize t) \<and>
    (\<forall>i \<in> set (ss_SSIT t). - 1 \<le> i \<and> i < ss_StoreSetSize t)"

lemma ss_hash_in_range: "ss_wf t \<Longrightarrow> ss_hashPC t PC < length (ss_SSIT t)"
proof -
  assume wf: "ss_wf t"
  then obtain k where k: "k < 31" "ss_StoreSetSize t = 2 ^ k" by (auto simp: ss_wf_def)
  have "(word_of_int (2 ^ k - 1) :: u64) = mask k"
    by (simp add: mask_eq_exp_minus_1)
  then have "ss_hashPC t PC < 2 ^ k"
    using k by (simp add: ss_hashPC_def unat_and_mask)
  then show ?thesis using wf k by (simp add: ss_wf_def nat_power_eq)
qed

lemma ss_get_SSID_range:
  assumes "ss_wf t"
  shows "- 1 \<le> ss_get_SSID PC t \<and> ss_get_SSID PC t < ss_StoreSetSize t"
  using assms nth_mem [OF ss_hash_in_range [OF assms, of PC]]
  unfolding ss_wf_def ss_get_SSID_def by blast

lemma ss_LFS_ok:
  assumes "ss_wf t" and "0 \<le> i" and "i < ss_StoreSetSize t"
  shows "ss_get_LFS i t k = k (ss_LFST t ! nat i)"
    and "ss_set_LFS i d t = Inr (t\<lparr>ss_LFST := (ss_LFST t)[nat i := d]\<rparr>)"
    and "ss_wf (t\<lparr>ss_LFST := (ss_LFST t)[nat i := d]\<rparr>)"
  using assms
  by (auto simp: ss_wf_def ss_get_LFS_def ss_set_LFS_def int_nth_res_def int_update_res_def
      nth_res_def update_res_def)

lemma ss_create_wf:
  assumes "n = 2 ^ k" and "k < 31"
  shows "ss_wf (fst (ss_create n rnd clk))"
proof -
  have "(- 1 :: int) < 2 ^ k" by (rule less_le_trans [of _ 0]) simp_all
  then show ?thesis
    using assms by (auto simp: ss_create_def ss_wf_def ss_clear_SSIT_def ss_clear_LFST_def Let_def)
qed

section \<open>Insertion\<close>

definition ss_insertable :: "dinst_store \<Rightarrow> nat \<Rightarrow> bool" where
  "ss_insertable s d \<longleftrightarrow>
    \<not> isStoreAddress (di_inst (ds_obj s d)) \<and> di_executed (ds_obj s d) = 0 \<and> \<not> ds_used s (d, Src3)"

lemma ds_setSSID_frame:
  assumes "dep_inv Q s"
  shows "dep_inv Q (ds_setSSID d i s)" and "ds_used (ds_setSSID d i s) = ds_used s"
    and "ds_parent (ds_setSSID d i s) = ds_parent s"
    and "di_pc (ds_obj (ds_setSSID d i s) x) = di_pc (ds_obj s x)"
    and "di_inst (ds_obj (ds_setSSID d i s) x) = di_inst (ds_obj s x)"
    and "di_executed (ds_obj (ds_setSSID d i s) x) = di_executed (ds_obj s x)"
proof -
  have obj: "ds_obj (ds_setSSID d i s) x = (if x = d then (ds_obj s d)\<lparr>di_SSID := i\<rparr> else ds_obj s x)" for x
    by (simp add: ds_setSSID_def ds_update_obj)
  show "dep_inv Q (ds_setSSID d i s)" "ds_used (ds_setSSID d i s) = ds_used s"
    "ds_parent (ds_setSSID d i s) = ds_parent s"
    by (rule dep_inv_frame [OF assms]; simp add: obj)+
qed (simp_all add: ds_setSSID_def ds_update_obj)

lemma ss_insert_step:
  assumes wf: "ss_wf t" and inv: "dep_inv Q s" and ok: "ss_insertable s d"
    and i: "ss_get_SSID (di_pc (ds_obj s d)) t = i" "i \<noteq> - 1"
    and prev: "ss_LFST t ! nat i = prev" "\<And>p. prev = Some p \<Longrightarrow> p \<noteq> d \<and> di_executed (ds_obj s p) = 0"
  obtains s' Q' where "ss_insert d (t, s) = Inr (True, t\<lparr>ss_LFST := (ss_LFST t)[nat i := Some d]\<rparr>, s')"
    and "dep_inv Q' s'" and "ds_used s' = (ds_used s)((d, Src3) := prev \<noteq> None)"
    and "ds_parent s' = (if prev = None then ds_parent s else (ds_parent s)((d, Src3) := prev))"
    and "\<forall>x. di_pc (ds_obj s' x) = di_pc (ds_obj s x) \<and> di_inst (ds_obj s' x) = di_inst (ds_obj s x) \<and>
           di_executed (ds_obj s' x) = di_executed (ds_obj s x)"
proof -
  let ?s = "ds_setSSID d i s" and ?t = "t\<lparr>ss_LFST := (ss_LFST t)[nat i := Some d]\<rparr>"
  have range: "0 \<le> i" "i < ss_StoreSetSize t" using ss_get_SSID_range [OF wf, of "di_pc (ds_obj s d)"] i by auto
  note frame = ds_setSSID_frame [OF inv, of d i]
  have unused: "\<not> ds_used s (d, Src3)" using ok by (simp add: ss_insertable_def)
  show ?thesis
  proof (cases prev)
    case None
    have "ss_insert d (t, s) = Inr (True, ?t, ?s)"
      using ok i prev(1) None
      by (simp add: ss_LFS_ok [OF wf range] ss_insert_def ss_insertable_def di_isExecuted_def ss_isValidSSID_def Let_def)
    moreover have "ds_used s = (ds_used s)((d, Src3) := False)" using unused by (auto simp: fun_eq_iff)
    ultimately show ?thesis using that [of ?s Q] frame None by auto
  next
    case (Some p)
    have e: "di_executed (ds_obj ?s p) = 0" "di_executed (ds_obj ?s d) = 0"
      using prev(2) [OF Some] ok frame by (auto simp: ss_insertable_def)
    obtain s' where s': "di_addSrc Src3 p d ?s = Inr s'" "dep_inv (Q(p := Q p @ [(d, Src3)])) s'"
      "\<forall>x. di_executed (ds_obj s' x) = di_executed (ds_obj ?s x)"
      "ds_used s' = (ds_used ?s)((d, Src3) := True)" "ds_parent s' = (ds_parent ?s)((d, Src3) := Some p)"
      by (rule di_addSrc_ok [OF frame(1) _ e]) (use unused frame in simp)
    have "ss_insert d (t, s) = Inr (True, ?t, s')"
      using ok i prev Some e s'(1)
      by (simp add: ss_LFS_ok [OF wf range] ss_insert_def ss_insertable_def di_isExecuted_def ss_isValidSSID_def Let_def)
    moreover have "di_pc (ds_obj s' x) = di_pc (ds_obj s x) \<and> di_inst (ds_obj s' x) = di_inst (ds_obj s x) \<and>
        di_executed (ds_obj s' x) = di_executed (ds_obj s x)" for x
      using di_addSrc_frame [OF s'(1), of x] s'(3) frame by simp
    ultimately show ?thesis using that [of s'] s' frame Some by auto
  qed
qed

fun ss_insert_all :: "nat list \<Rightarrow> store_set \<times> dinst_store \<Rightarrow> (store_set \<times> dinst_store) res" where
  "ss_insert_all [] ts = Inr ts"
| "ss_insert_all (d # ds) ts = bind_res (ss_insert d ts) (\<lambda>(_, ts). ss_insert_all ds ts)"

fun waits_in_order :: "nat option \<Rightarrow> nat list \<Rightarrow> dinst_store \<Rightarrow> bool" where
  "waits_in_order prev [] s \<longleftrightarrow> True"
| "waits_in_order prev (d # ds) s \<longleftrightarrow> di_getParentSrc Src3 (ds_obj s d) = prev \<and> waits_in_order (Some d) ds s"

lemma ss_insert_all_ok:
  "ss_wf t \<Longrightarrow> dep_inv Q s \<Longrightarrow> distinct ds \<Longrightarrow> \<forall>d \<in> set ds. ss_insertable s d \<Longrightarrow>
    \<forall>d \<in> set ds. ss_get_SSID (di_pc (ds_obj s d)) t = i \<Longrightarrow> i \<noteq> - 1 \<Longrightarrow> ss_LFST t ! nat i = prev \<Longrightarrow>
    (\<forall>p. prev = Some p \<longrightarrow> p \<notin> set ds \<and> di_executed (ds_obj s p) = 0) \<Longrightarrow>
    \<exists>t' s' Q'. ss_insert_all ds (t, s) = Inr (t', s') \<and> dep_inv Q' s' \<and> waits_in_order prev ds s' \<and>
      (\<forall>d. d \<notin> set ds \<longrightarrow> ds_used s' (d, Src3) = ds_used s (d, Src3) \<and>
        ds_parent s' (d, Src3) = ds_parent s (d, Src3)) \<and>
      (ds \<noteq> [] \<longrightarrow> ss_LFST t' ! nat i = Some (last ds))"
proof (induction ds arbitrary: t s Q prev)
  case Nil
  then show ?case by (metis distinct.simps(1) list.distinct(1) ss_insert_all.simps(1) waits_in_order.simps(1))
next
  case (Cons d ds)
  have ok: "ss_insertable s d" and i: "ss_get_SSID (di_pc (ds_obj s d)) t = i" using Cons.prems by simp_all
  have prev: "p \<noteq> d \<and> di_executed (ds_obj s p) = 0" if "prev = Some p" for p
    using Cons.prems(8) that by auto
  let ?t = "t\<lparr>ss_LFST := (ss_LFST t)[nat i := Some d]\<rparr>"
  obtain s1 Q1 where s1: "ss_insert d (t, s) = Inr (True, ?t, s1)" and inv1: "dep_inv Q1 s1"
    and used1: "ds_used s1 = (ds_used s)((d, Src3) := prev \<noteq> None)"
    and par1: "ds_parent s1 = (if prev = None then ds_parent s else (ds_parent s)((d, Src3) := prev))"
    and fr: "\<forall>x. di_pc (ds_obj s1 x) = di_pc (ds_obj s x) \<and> di_inst (ds_obj s1 x) = di_inst (ds_obj s x) \<and>
           di_executed (ds_obj s1 x) = di_executed (ds_obj s x)"
    by (rule ss_insert_step [OF Cons.prems(1,2) ok i Cons.prems(6,7) prev])
  have range: "0 \<le> i" "i < ss_StoreSetSize t"
    using ss_get_SSID_range [OF Cons.prems(1), of "di_pc (ds_obj s d)"] i Cons.prems(6) by auto
  have wf: "ss_wf ?t" by (rule ss_LFS_ok(3) [OF Cons.prems(1) range])
  have lfst: "ss_LFST ?t ! nat i = Some d"
    using Cons.prems(1) range by (simp add: ss_wf_def)
  have hyps: "distinct ds" "\<forall>d \<in> set ds. ss_insertable s1 d"
    "\<forall>d \<in> set ds. ss_get_SSID (di_pc (ds_obj s1 d)) ?t = i"
    "\<forall>p. Some d = Some p \<longrightarrow> p \<notin> set ds \<and> di_executed (ds_obj s1 p) = 0"
    using Cons.prems(3-5) fr used1 ok
    by (auto simp: ss_insertable_def ss_get_SSID_def ss_hashPC_def)
  obtain t' s' Q' where run: "ss_insert_all ds (?t, s1) = Inr (t', s')" and inv': "dep_inv Q' s'"
    and wait: "waits_in_order (Some d) ds s'"
    and keep: "\<forall>x. x \<notin> set ds \<longrightarrow> ds_used s' (x, Src3) = ds_used s1 (x, Src3) \<and>
        ds_parent s' (x, Src3) = ds_parent s1 (x, Src3)"
    and last: "ds \<noteq> [] \<longrightarrow> ss_LFST t' ! nat i = Some (last ds)"
    using Cons.IH [OF wf inv1 hyps(1-3) Cons.prems(6) lfst hyps(4)] by blast
  have "di_getParentSrc Src3 (ds_obj s' d) = prev"
    using keep [rule_format, of d] Cons.prems(3) used1 par1
    by (simp add: di_getParentSrc_def ds_used_def ds_parent_def)
  moreover have "t' = ?t" if "ds = []" using run that by simp
  moreover have "ds_used s' (x, Src3) = ds_used s (x, Src3) \<and> ds_parent s' (x, Src3) = ds_parent s (x, Src3)"
    if "x \<notin> set (d # ds)" for x
    using keep [rule_format, of x] that used1 par1 by auto
  ultimately show ?case
    using run s1 inv' wait last lfst by (intro exI [of _ t'] exI [of _ s'] exI [of _ Q']) auto
qed

text \<open>
  A store set serialises its instructions: loads and stores that hash to one set and are
  inserted in fetch order pass every assertion, each of them waits through its third source for
  exactly the one inserted before it (the first one for the set's last fetched instruction, or
  for nothing), and the set remembers the last one.
\<close>

theorem ss_set_is_totally_ordered:
  assumes "ss_wf t" and "dep_inv Q s" and "distinct ds" and "ds \<noteq> []" and "\<forall>d \<in> set ds. ss_insertable s d"
    and "\<forall>d \<in> set ds. ss_get_SSID (di_pc (ds_obj s d)) t = i" and "i \<noteq> - 1"
    and "\<forall>p. ss_LFST t ! nat i = Some p \<longrightarrow> p \<notin> set ds \<and> \<not> di_isExecuted (ds_obj s p)"
  shows "\<exists>t' s'. ss_insert_all ds (t, s) = Inr (t', s') \<and> waits_in_order (ss_LFST t ! nat i) ds s' \<and>
    ss_LFST t' ! nat i = Some (last ds) \<and> (\<exists>Q'. dep_inv Q' s')"
  using ss_insert_all_ok [OF assms(1-3) assms(5-7) refl] assms(4,8)
  by (auto simp: di_isExecuted_def)

definition ss_two_sets :: store_set where
  "ss_two_sets = \<lparr>ss_SSIT = [1, - 1], ss_LFST = [None, None], ss_StoreSetSize = 2, ss_rnd = 0,
     ss_clear_interval = 90000000\<rparr>"

lemma ss_two_sets_wf: "ss_wf ss_two_sets"
  by (simp add: ss_wf_def ss_two_sets_def exI [of _ 1])

lemma ss_set_is_totally_ordered_witness:
  "\<exists>t' s'. ss_insert_all [4, 7, 5] (ss_two_sets, ds_blank pool_two) = Inr (t', s') \<and>
    waits_in_order None [4, 7, 5] s' \<and> ss_LFST t' ! 1 = Some 5"
proof -
  have blank: "di_pc (ds_obj (ds_blank pool_two) d) = 0" "ss_insertable (ds_blank pool_two) d" for d
    by (simp_all add: ss_insertable_def) (simp_all add: ds_blank_def di_blank_def isStoreAddress_def)
  have id: "ss_get_SSID 0 ss_two_sets = 1"
    by (simp add: ss_get_SSID_def ss_hashPC_def ss_two_sets_def)
  show ?thesis
    using ss_set_is_totally_ordered [OF ss_two_sets_wf ds_blank_inv [of pool_two], of "[4, 7, 5]" 1]
      blank id by (auto simp: ss_two_sets_def)
qed

section \<open>Merging\<close>

lemma ss_retarget_nth:
  assumes "n < length (ss_SSIT t)" and "length (ss_SSIT t) = nat (ss_StoreSetSize t)"
  shows "ss_SSIT (ss_retarget P i t) ! n = (if P (ss_SSIT t ! n) then i else ss_SSIT t ! n)"
  using assms by (simp add: ss_retarget_def nth_enumerate_eq) linarith

text \<open>
  \<open>mergeset\<close> of two different sets puts every program counter of either into the one with
  the smaller id, leaves all other program counters as they are, forgets the last fetched
  instructions of both, and keeps the tables well formed.
\<close>

theorem ss_mergeset_unites:
  assumes wf: "ss_wf t" and "0 \<le> i" "i < ss_StoreSetSize t" and "0 \<le> j" "j < ss_StoreSetSize t" and "i \<noteq> j"
  shows "\<exists>t'. ss_mergeset i j t = Inr (min i j, t') \<and> ss_wf t' \<and>
    (\<forall>pc. ss_get_SSID pc t' = (if ss_get_SSID pc t \<in> {i, j} then min i j else ss_get_SSID pc t)) \<and>
    ss_LFST t' = (ss_LFST t)[nat i := None, nat j := None]"
proof -
  let ?t1 = "t\<lparr>ss_LFST := (ss_LFST t)[nat i := None]\<rparr>"
  let ?t2 = "t\<lparr>ss_LFST := (ss_LFST t)[nat i := None, nat j := None]\<rparr>"
  let ?P = "\<lambda>x. x = i \<or> x = j"
  let ?t' = "ss_retarget ?P (min i j) ?t2"
  have wf1: "ss_wf ?t1" by (rule ss_LFS_ok(3) [OF wf assms(2,3)])
  have wf2: "ss_wf ?t2" using ss_LFS_ok(3) [OF wf1 assms(4), of None] assms(5) by simp
  have "ss_set_LFS j None ?t1 = Inr ?t2" using ss_LFS_ok(2) [OF wf1 assms(4), of None] assms(5) by simp
  then have run: "ss_mergeset i j t = Inr (min i j, ?t')"
    using assms by (simp add: ss_mergeset_def ss_LFS_ok(2) [OF wf assms(2,3)] Let_def min_def)
  have len: "length (ss_SSIT t) = nat (ss_StoreSetSize t)" using wf by (simp add: ss_wf_def)
  have nth: "ss_SSIT ?t' ! n = (if ?P (ss_SSIT t ! n) then min i j else ss_SSIT t ! n)"
    if "n < length (ss_SSIT t)" for n
    using ss_retarget_nth [of n ?t2 ?P "min i j"] that len by simp
  have get: "ss_get_SSID pc ?t' = (if ss_get_SSID pc t \<in> {i, j} then min i j else ss_get_SSID pc t)" for pc
    using nth [OF ss_hash_in_range [OF wf, of pc]]
    by (simp add: ss_get_SSID_def ss_hashPC_def ss_retarget_def)
  have wf': "ss_wf ?t'"
    unfolding ss_wf_def
  proof (intro conjI ballI)
    fix x assume "x \<in> set (ss_SSIT ?t')"
    then obtain n where n: "n < length (ss_SSIT t)" and x: "x = ss_SSIT ?t' ! n"
      by (auto simp: ss_retarget_def in_set_conv_nth)
    have "- 1 \<le> ss_SSIT t ! n \<and> ss_SSIT t ! n < ss_StoreSetSize t"
      using wf nth_mem [OF n] unfolding ss_wf_def by blast
    then show "- 1 \<le> x" "x < ss_StoreSetSize ?t'"
      using x nth [OF n] assms(2-5) by (simp_all add: ss_retarget_def min_def)
  qed (use wf in \<open>auto simp: ss_wf_def ss_retarget_def\<close>)
  show ?thesis using run get wf' by (auto simp: ss_retarget_def)
qed

lemma ss_mergeset_unites_witness:
  "\<exists>t'. ss_mergeset 0 1 ss_two_sets = Inr (0, t') \<and> ss_get_SSID 0 t' = 0"
proof -
  have "ss_get_SSID 0 ss_two_sets = 1" by (simp add: ss_get_SSID_def ss_hashPC_def ss_two_sets_def)
  moreover have "ss_StoreSetSize ss_two_sets = 2" by (simp add: ss_two_sets_def)
  ultimately show ?thesis using ss_mergeset_unites [OF ss_two_sets_wf, of 0 1] by auto
qed

section \<open>The disabled predictor\<close>

text \<open>The operations that the memory resources call; \<open>merge_sets\<close> has no caller.\<close>

datatype ss_op =
    SS_insert nat | SS_remove nat | SS_violation nat addr | SS_mergeset int int | SS_timer sim_time

fun ss_step :: "ss_op \<Rightarrow> store_set \<times> dinst_store \<Rightarrow> (store_set \<times> dinst_store) res" where
  "ss_step (SS_insert d) ts = bind_res (ss_insert d ts) (\<lambda>(_, ts). Inr ts)"
| "ss_step (SS_remove d) ts = bind_res (ss_remove d ts) (\<lambda>t. Inr (t, snd ts))"
| "ss_step (SS_violation ld pc) ts = bind_res (ss_stldViolation ld pc ts) (\<lambda>t. Inr (t, snd ts))"
| "ss_step (SS_mergeset i j) ts = bind_res (ss_mergeset i j (fst ts)) (\<lambda>(_, t). Inr (t, snd ts))"
| "ss_step (SS_timer clk) ts = Inr (fst (ss_clearStoreSetsTimer clk (fst ts)), snd ts)"

fun ss_run :: "ss_op list \<Rightarrow> store_set \<times> dinst_store \<Rightarrow> (store_set \<times> dinst_store) res" where
  "ss_run [] ts = Inr ts"
| "ss_run (op # ops) ts = bind_res (ss_step op ts) (ss_run ops)"

definition ss_inert :: "store_set \<Rightarrow> bool" where
  "ss_inert t \<longleftrightarrow> (\<forall>i \<in> set (ss_SSIT t). i = - 1) \<and> (\<forall>pc. ss_hashPC t pc < length (ss_SSIT t))"

lemma ss_inert_get: "ss_inert t \<Longrightarrow> ss_get_SSID pc t = - 1"
  by (simp add: ss_inert_def ss_get_SSID_def)

lemma ss_set_LFS_SSIT: "ss_set_LFS i d t = Inr t' \<Longrightarrow> ss_SSIT t' = ss_SSIT t \<and> ss_StoreSetSize t' = ss_StoreSetSize t"
  by (auto simp: ss_set_LFS_def bind_res_def split: sum.splits)

lemma ss_inert_cong: "ss_SSIT t' = ss_SSIT t \<Longrightarrow> ss_StoreSetSize t' = ss_StoreSetSize t \<Longrightarrow> ss_inert t' = ss_inert t"
  by (simp add: ss_inert_def ss_hashPC_def)

lemma ss_inert_remove:
  assumes "ss_remove d (t, s) = Inr t'"
  shows "ss_SSIT t' = ss_SSIT t \<and> ss_StoreSetSize t' = ss_StoreSetSize t"
proof (cases "ss_isValidSSID (di_SSID (ds_obj s d))")
  case False
  then show ?thesis using assms by (simp add: ss_remove_def assert_res_def split: if_splits)
next
  case True
  then show ?thesis using assms ss_set_LFS_SSIT [of _ _ t t']
    by (auto simp: ss_remove_def assert_res_def ss_get_LFS_def int_nth_res_def nth_res_def Let_def split: if_splits)
qed

lemma ss_inert_mergeset:
  assumes "ss_mergeset i j t = Inr (n, t')" and "ss_inert t"
  shows "ss_inert t'"
proof (cases "i = j")
  case True
  then show ?thesis using assms by (simp add: ss_mergeset_def)
next
  case False
  then obtain t1 t2 where t12: "i \<noteq> - 1" "j \<noteq> - 1" "ss_set_LFS i None t = Inr t1" "ss_set_LFS j None t1 = Inr t2"
    and t': "t' = ss_retarget (\<lambda>x. x = i \<or> x = j) n t2"
    using assms(1) by (auto simp: ss_mergeset_def assert_res_def bind_res_def split: if_splits sum.splits)
  have in2: "ss_inert t2"
    using assms(2) ss_inert_cong ss_set_LFS_SSIT [OF t12(3)] ss_set_LFS_SSIT [OF t12(4)] by metis
  have neg: "\<forall>x \<in> set (ss_SSIT t2). \<not> (x = i \<or> x = j)" using in2 t12(1,2) by (auto simp: ss_inert_def)
  have "ss_SSIT t' = ss_SSIT t2"
    unfolding t' ss_retarget_def using neg by (auto intro!: nth_equalityI simp: nth_enumerate_eq)
  then show ?thesis using in2 ss_inert_cong [of t' t2] t' by (simp add: ss_retarget_def)
qed

lemma ss_inert_step:
  assumes "ss_step op (t, s) = Inr (t', s')" and inert: "ss_inert t"
  shows "ss_inert t' \<and> (\<forall>d. di_pend (ds_obj s' d) = di_pend (ds_obj s d) \<and> di_nDeps (ds_obj s' d) = di_nDeps (ds_obj s d))"
proof (cases op)
  case (SS_insert d)
  then have "t' = t" "s' = ds_setSSID d (- 1) s"
    using assms by (simp_all add: ss_insert_def ss_inert_get ss_isValidSSID_def)
  then show ?thesis using inert by (simp add: ds_setSSID_def ds_update_obj)
next
  case (SS_remove d)
  then obtain u where "ss_remove d (t, s) = Inr u" "t' = u" "s' = s"
    using assms by (auto simp: bind_res_def split: sum.splits)
  then show ?thesis using inert ss_inert_remove [of d t s u] ss_inert_cong [of u t] by simp
next
  case (SS_violation ld pc)
  then show ?thesis using assms by (simp add: ss_stldViolation_def)
next
  case (SS_mergeset i j)
  then obtain n where "ss_mergeset i j t = Inr (n, t')" "s' = s"
    using assms by (auto simp: bind_res_def split: sum.splits)
  then show ?thesis using inert ss_inert_mergeset by blast
next
  case (SS_timer clk)
  then show ?thesis
    using assms by (auto simp: ss_inert_def ss_clearStoreSetsTimer_def Let_def ss_clear_SSIT_def
        ss_clear_LFST_def ss_hashPC_def)
qed

text \<open>
  The store set predictor is switched off: with \<open>stldViolation\<close> returning at its first
  line, no sequence of the operations that the memory resources call ever records a set, so
  every program counter stays without a set and no insertion adds a dependence.
\<close>

theorem ss_predictor_is_inert:
  assumes "n = 2 ^ k" and "k < 31" and "ss_run ops (fst (ss_create n rnd clk), s) = Inr (t', s')"
  shows "(\<forall>pc. ss_get_SSID pc t' = - 1) \<and>
    (\<forall>d. di_pend (ds_obj s' d) = di_pend (ds_obj s d) \<and> di_nDeps (ds_obj s' d) = di_nDeps (ds_obj s d))"
proof -
  have "ss_run ops (t, s) = Inr (t', s') \<Longrightarrow> ss_inert t \<Longrightarrow> ss_inert t' \<and>
      (\<forall>d. di_pend (ds_obj s' d) = di_pend (ds_obj s d) \<and> di_nDeps (ds_obj s' d) = di_nDeps (ds_obj s d))" for t
  proof (induction ops arbitrary: t s)
    case Nil
    then show ?case by simp
  next
    case (Cons op ops)
    then obtain t1 s1 where s1: "ss_step op (t, s) = Inr (t1, s1)" "ss_run ops (t1, s1) = Inr (t', s')"
      by (auto simp: bind_res_def split: sum.splits)
    with Cons.IH [OF s1(2)] ss_inert_step [OF s1(1) Cons.prems(2)] show ?case by simp
  qed
  moreover have "ss_inert (fst (ss_create n rnd clk))"
    using ss_hash_in_range [OF ss_create_wf [OF assms(1,2), of rnd clk]]
    by (auto simp: ss_inert_def) (auto simp: ss_create_def Let_def ss_clear_SSIT_def ss_clear_LFST_def)
  ultimately show ?thesis using assms(3) ss_inert_get by blast
qed

lemma ss_predictor_is_inert_witness:
  "\<exists>t' s'. ss_run [SS_violation 1 64, SS_insert 1, SS_timer 7] (fst (ss_create 4 0 0), ds_blank pool_two) = Inr (t', s') \<and>
    ss_get_SSID 64 t' = - 1"
proof -
  let ?t = "fst (ss_create 4 0 0)"
  have get: "ss_get_SSID pc ?t = - 1" for pc
    using ss_hash_in_range [OF ss_create_wf [of 4 2 0 0], of pc]
    by (simp add: ss_get_SSID_def) (simp add: ss_create_def Let_def ss_clear_SSIT_def ss_clear_LFST_def)
  obtain t' s' where run: "ss_run [SS_violation 1 64, SS_insert 1, SS_timer 7] (?t, ds_blank pool_two) = Inr (t', s')"
    by (simp add: ss_stldViolation_def ss_insert_def get ss_isValidSSID_def)
  then show ?thesis using ss_predictor_is_inert [of 4 2, OF _ _ run] by auto
qed

text \<open>
  The counter of \<open>create_id\<close> hands out id 0 twice in a row when it wraps: two store sets
  created one after the other are then the same set.
\<close>

lemma ss_create_id_wrap:
  assumes "ss_rnd t = ss_StoreSetSize t" and "0 < ss_StoreSetSize t"
  shows "fst (ss_create_id t) = 0 \<and> fst (ss_create_id (snd (ss_create_id t))) = 0"
  using assms by (simp add: ss_create_id_def)

end
