(* ===== verification/Lsq.thy ===== *)
theory Lsq
  imports Dinst
begin

text \<open>
  \<open>simu/LSQ.cpp\<close> and \<open>simu/lsq.hpp\<close>: the load/store queues. \<open>LSQFull\<close> keeps its
  instructions in a multimap from the address word (\<open>HASH_MULTIMAP\<close> of \<open>estl.hpp\<close> is
  \<open>std::multimap\<close>), \<open>LSQVPC\<close> likewise: a list sorted by key whose equal keys are in
  insertion order. \<open>LSQNone\<close> is a table of 128 entries. Dereferencing \<open>end()\<close> is the failure \<open>Out_of_bounds\<close>.
\<close>

section \<open>State\<close>

record lsq =
  lq_freeEntries :: int
  lq_unresolved :: int

record lsq_full = lsq +
  lf_stldForwarding :: nat
  lf_instMap :: "(addr \<times> nat) list"

record lsq_none = lsq +
  ln_addrTable :: "nat option list"

record lsq_vpc = lsq +
  lv_instMap :: "(addr \<times> nat) list"
  lv_replays :: nat

definition lq_incFreeEntries :: "'a lsq_scheme \<Rightarrow> 'a lsq_scheme" where
  "lq_incFreeEntries q = q\<lparr>lq_freeEntries := lq_freeEntries q + 1\<rparr>"

definition lq_decFreeEntries :: "'a lsq_scheme \<Rightarrow> 'a lsq_scheme" where
  "lq_decFreeEntries q = q\<lparr>lq_unresolved := lq_unresolved q + 1, lq_freeEntries := lq_freeEntries q - 1\<rparr>"

definition lq_hasFreeEntries :: "'a lsq_scheme \<Rightarrow> bool" where
  "lq_hasFreeEntries q \<longleftrightarrow> lq_freeEntries q > 0"

definition lq_hasPendingResolution :: "'a lsq_scheme \<Rightarrow> bool" where
  "lq_hasPendingResolution q \<longleftrightarrow> lq_unresolved q > 0"

section \<open>LSQFull\<close>

text \<open>Insertion in a multimap: behind the entries of an equal key.\<close>

fun mm_insert :: "addr \<times> nat \<Rightarrow> (addr \<times> nat) list \<Rightarrow> (addr \<times> nat) list" where
  "mm_insert e [] = [e]"
| "mm_insert e (x # xs) = (if fst e < fst x then e # x # xs else x # mm_insert e xs)"

definition lf_create :: "int \<Rightarrow> lsq_full" where
  "lf_create n = \<lparr>lq_freeEntries = n, lq_unresolved = 0, lf_stldForwarding = 0, lf_instMap = []\<rparr>"

definition lf_calcWord :: "dinst \<Rightarrow> addr" where
  "lf_calcWord d = drop_bit 3 (di_addr d)"

definition lf_insert :: "nat \<Rightarrow> dinst_store \<Rightarrow> lsq_full \<Rightarrow> (bool \<times> lsq_full) res" where
  "lf_insert d s q =
    assert_res (di_addr (ds_obj s d) \<noteq> 0)
      (Inr (True, q\<lparr>lf_instMap := mm_insert (lf_calcWord (ds_obj s d), d) (lf_instMap q)\<rparr>))"

text \<open>The loop over the instructions of the word, with the faulty load found so far.\<close>

fun lf_exec_loop ::
  "nat \<Rightarrow> nat list \<Rightarrow> nat option \<Rightarrow> nat \<Rightarrow> dinst_store \<Rightarrow> (nat option \<times> nat \<times> dinst_store) res" where
  "lf_exec_loop d [] faulty fwd s = Inr (faulty, fwd, s)"
| "lf_exec_loop d (q # qs) faulty fwd s =
    (let x = ds_obj s d; y = ds_obj s q
     in if q = d then lf_exec_loop d qs faulty fwd s
        else if di_ID y > di_ID x
        then lf_exec_loop d qs
               (if di_isExecuted y \<and> di_pc y \<noteq> di_pc x \<and> isStore (di_inst x) \<and> isLoad (di_inst y)
                then (case faulty of
                        None \<Rightarrow> Some q
                      | Some f \<Rightarrow> if di_ID (ds_obj s f) < di_ID y then Some q else faulty)
                else faulty) fwd s
        else if \<not> fl_loadForwarded (di_flags x) \<and> isLoad (di_inst x) \<and> isStore (di_inst y) \<and> di_isExecuted y
        then bind_res (di_setLoadForwarded x) (\<lambda>x'.
               lf_exec_loop d qs faulty (fwd + (if fl_keep_stats (di_flags x) then 1 else 0))
                 (ds_update d (\<lambda>_. x') s))
        else lf_exec_loop d qs faulty fwd s)"

definition lf_executing ::
  "nat \<Rightarrow> lsq_full \<times> dinst_store \<Rightarrow> (nat option \<times> lsq_full \<times> dinst_store) res" where
  "lf_executing d = (\<lambda>(q, s).
    assert_res (di_addr (ds_obj s d) \<noteq> 0)
     (let tag = lf_calcWord (ds_obj s d)
      in bind_res (lf_exec_loop d (map snd (filter (\<lambda>e. fst e = tag) (lf_instMap q))) None (lf_stldForwarding q) s)
           (\<lambda>(faulty, fwd, s).
             let q = q\<lparr>lf_stldForwarding := fwd, lq_unresolved := lq_unresolved q - 1\<rparr>
             in assert_res (\<not> di_isExecuted (ds_obj s d)) (Inr (faulty, q, s)))))"

fun lf_erase :: "nat \<Rightarrow> (addr \<times> nat) list \<Rightarrow> (addr \<times> nat) list" where
  "lf_erase d [] = []"
| "lf_erase d (e # es) = (if snd e = d then es else e # lf_erase d es)"

definition lf_remove :: "nat \<Rightarrow> dinst_store \<Rightarrow> lsq_full \<Rightarrow> lsq_full res" where
  "lf_remove d s q =
    assert_res (di_addr (ds_obj s d) \<noteq> 0) (Inr (q\<lparr>lf_instMap := lf_erase d (lf_instMap q)\<rparr>))"

section \<open>LSQNone\<close>

definition ln_create :: "int \<Rightarrow> lsq_none" where
  "ln_create n = \<lparr>lq_freeEntries = n, lq_unresolved = 0, ln_addrTable = replicate 128 None\<rparr>"

definition ln_getEntry :: "addr \<Rightarrow> nat" where
  "ln_getEntry a = unat ((drop_bit 1 a XOR drop_bit 17 a) AND 127)"

definition ln_insert :: "nat \<Rightarrow> dinst_store \<Rightarrow> lsq_none \<Rightarrow> bool \<times> lsq_none" where
  "ln_insert d s q =
    (let i = ln_getEntry (di_addr (ds_obj s d))
     in if ln_addrTable q ! i \<noteq> None then (False, q)
        else (True, q\<lparr>ln_addrTable := (ln_addrTable q)[i := Some d]\<rparr>))"

definition ln_executing :: "nat \<Rightarrow> dinst_store \<Rightarrow> lsq_none \<Rightarrow> (nat option \<times> lsq_none) res" where
  "ln_executing d s q =
    (let i = ln_getEntry (di_addr (ds_obj s d))
     in assert_res (ln_addrTable q ! i = Some d)
         (Inr (None, q\<lparr>ln_addrTable := (ln_addrTable q)[i := None], lq_unresolved := lq_unresolved q - 1\<rparr>)))"

definition ln_remove :: "nat \<Rightarrow> lsq_none \<Rightarrow> lsq_none" where
  "ln_remove d q = q"

section \<open>LSQVPC\<close>

definition lv_create :: "int \<Rightarrow> lsq_vpc" where
  "lv_create n = \<lparr>lq_freeEntries = n, lq_unresolved = 0, lv_instMap = [], lv_replays = 0\<rparr>"

definition lv_calcWord :: "dinst \<Rightarrow> addr" where
  "lv_calcWord d = drop_bit 2 (di_addr d)"

text \<open>\<open>find\<close>: the rest of the map from the first entry of the key, or \<open>end()\<close>.\<close>

definition mm_find :: "addr \<Rightarrow> (addr \<times> nat) list \<Rightarrow> (addr \<times> nat) list" where
  "mm_find k xs = dropWhile (\<lambda>e. fst e \<noteq> k) xs"

definition lv_insert :: "nat \<Rightarrow> dinst_store \<Rightarrow> lsq_vpc \<Rightarrow> (bool \<times> lsq_vpc) res" where
  "lv_insert d s q =
    assert_res (di_addr (ds_obj s d) \<noteq> 0)
      (Inr (True, q\<lparr>lv_instMap := mm_insert (lv_calcWord (ds_obj s d), d) (lv_instMap q)\<rparr>))"

definition lv_executing :: "nat \<Rightarrow> lsq_vpc \<Rightarrow> (nat option \<times> lsq_vpc) res" where
  "lv_executing d q = Inl Assert_failed"

fun lv_replay_loop :: "addr \<Rightarrow> nat \<Rightarrow> dinst_store \<Rightarrow> (addr \<times> nat) list \<Rightarrow> bool res" where
  "lv_replay_loop tag d s [] = Inl Out_of_bounds"
| "lv_replay_loop tag d s (e # es) =
    (if fst e = tag
     then if di_ID (ds_obj s (snd e)) < di_ID (ds_obj s d) \<and> di_addr (ds_obj s (snd e)) = di_addr (ds_obj s d)
          then Inr True else lv_replay_loop tag d s es
     else Inr False)"

definition lv_replayCheck :: "nat \<Rightarrow> dinst_store \<Rightarrow> lsq_vpc \<Rightarrow> (addr \<times> lsq_vpc) res" where
  "lv_replayCheck d s q =
    (let tag = lv_calcWord (ds_obj s d)
     in bind_res (lv_replay_loop tag d s (mm_find tag (lv_instMap q))) (\<lambda>r.
          if r then Inr (1, q\<lparr>lv_replays := lv_replays q +
                               (if fl_keep_stats (di_flags (ds_obj s d)) then 1 else 0)\<rparr>)
          else Inr (0, q)))"

fun lv_erase :: "addr \<Rightarrow> nat \<Rightarrow> (addr \<times> nat) list \<Rightarrow> (addr \<times> nat) list" where
  "lv_erase tag d [] = []"
| "lv_erase tag d (e # es) =
    (if fst e = tag then if snd e = d then es else e # lv_erase tag d es else e # es)"

definition lv_remove :: "nat \<Rightarrow> dinst_store \<Rightarrow> lsq_vpc \<Rightarrow> lsq_vpc res" where
  "lv_remove d s q =
    assert_res (di_addr (ds_obj s d) \<noteq> 0)
     (let tag = lv_calcWord (ds_obj s d)
      in if mm_find tag (lv_instMap q) = [] then Inl Out_of_bounds
         else Inr (q\<lparr>lv_instMap := takeWhile (\<lambda>e. fst e \<noteq> tag) (lv_instMap q) @
                       lv_erase tag d (mm_find tag (lv_instMap q))\<rparr>))"

section \<open>Memory order violations\<close>

text \<open>
  \<open>lf_violates s d q\<close>: the load \<open>q\<close> is younger than the store \<open>d\<close> and executed before
  it. \<open>lf_forwards s d q\<close>: the load \<open>d\<close> finds its value in the older executed store \<open>q\<close>.
\<close>

definition lf_violates :: "dinst_store \<Rightarrow> nat \<Rightarrow> nat \<Rightarrow> bool" where
  "lf_violates s d q \<longleftrightarrow> q \<noteq> d \<and> di_ID (ds_obj s q) > di_ID (ds_obj s d) \<and> di_isExecuted (ds_obj s q) \<and>
    di_pc (ds_obj s q) \<noteq> di_pc (ds_obj s d) \<and> isStore (di_inst (ds_obj s d)) \<and> isLoad (di_inst (ds_obj s q))"

definition lf_forwards :: "dinst_store \<Rightarrow> nat \<Rightarrow> nat \<Rightarrow> bool" where
  "lf_forwards s d q \<longleftrightarrow> q \<noteq> d \<and> \<not> di_ID (ds_obj s q) > di_ID (ds_obj s d) \<and> di_isExecuted (ds_obj s q) \<and>
    isLoad (di_inst (ds_obj s d)) \<and> isStore (di_inst (ds_obj s q))"

definition youngest :: "dinst_store \<Rightarrow> nat set \<Rightarrow> nat option \<Rightarrow> bool" where
  "youngest s V r \<longleftrightarrow>
    (case r of None \<Rightarrow> V = {} | Some q \<Rightarrow> q \<in> V \<and> (\<forall>v \<in> V. di_ID (ds_obj s v) \<le> di_ID (ds_obj s q)))"

definition lf_word :: "lsq_full \<Rightarrow> dinst_store \<Rightarrow> nat \<Rightarrow> nat set" where
  "lf_word q s d = {x. (lf_calcWord (ds_obj s d), x) \<in> set (lf_instMap q)}"

definition ds_forwarded :: "nat \<Rightarrow> bool \<Rightarrow> dinst_store \<Rightarrow> dinst_store" where
  "ds_forwarded d b s = (if b then ds_update d (di_set (fl_loadForwarded_update (\<lambda>_. True))) s else s)"

lemma ds_forwarded_obj:
  "di_ID (ds_obj (ds_forwarded d b s) x) = di_ID (ds_obj s x)"
  "di_executed (ds_obj (ds_forwarded d b s) x) = di_executed (ds_obj s x)"
  "di_pc (ds_obj (ds_forwarded d b s) x) = di_pc (ds_obj s x)"
  "di_inst (ds_obj (ds_forwarded d b s) x) = di_inst (ds_obj s x)"
  by (simp_all add: ds_forwarded_def ds_update_obj di_set_def)

lemma ds_forwarded_views:
  "lf_violates (ds_forwarded d b s) = lf_violates s" "lf_forwards (ds_forwarded d b s) = lf_forwards s"
  "youngest (ds_forwarded d b s) = youngest s"
  by (simp_all add: lf_violates_def lf_forwards_def youngest_def ds_forwarded_obj di_isExecuted_def fun_eq_iff
      split: option.splits)

lemma ds_forwarded_flag:
  "fl_loadForwarded (di_flags (ds_obj (ds_forwarded d b s) d)) \<longleftrightarrow> b \<or> fl_loadForwarded (di_flags (ds_obj s d))"
  by (simp add: ds_forwarded_def ds_update_obj di_set_def)

lemma ds_forwarded_twice:
  "ds_forwarded d c (ds_forwarded d b s) = ds_forwarded d (b \<or> c) s"
  by (auto simp: ds_forwarded_def ds_update_def di_set_def)

lemma youngest_insert:
  assumes "youngest s V r"
  shows "youngest s (insert q V) (case r of None \<Rightarrow> Some q
    | Some f \<Rightarrow> if di_ID (ds_obj s f) < di_ID (ds_obj s q) then Some q else r)"
  using assms by (auto simp: youngest_def split: option.splits)

lemma lf_exec_loop_ok:
  "youngest s V faulty \<Longrightarrow>
    \<exists>r fwd'. lf_exec_loop d qs faulty fwd s =
        Inr (r, fwd', ds_forwarded d (\<not> fl_loadForwarded (di_flags (ds_obj s d)) \<and> (\<exists>q \<in> set qs. lf_forwards s d q)) s) \<and>
      youngest s (V \<union> {q \<in> set qs. lf_violates s d q}) r"
proof (induction qs arbitrary: s V faulty fwd)
  case Nil
  then show ?case by (simp add: ds_forwarded_def)
next
  case (Cons q qs)
  let ?viol = "lf_violates s d q" and ?fwd = "lf_forwards s d q \<and> \<not> fl_loadForwarded (di_flags (ds_obj s d))"
  let ?faulty = "if ?viol then (case faulty of None \<Rightarrow> Some q
    | Some f \<Rightarrow> if di_ID (ds_obj s f) < di_ID (ds_obj s q) then Some q else faulty) else faulty"
  let ?s = "ds_forwarded d ?fwd s"
  have step: "\<exists>fwd'. lf_exec_loop d (q # qs) faulty fwd s = lf_exec_loop d qs ?faulty fwd' ?s"
    by (auto simp: lf_violates_def lf_forwards_def ds_forwarded_def di_setLoadForwarded_def Let_def ds_update_def)
  have y: "youngest ?s (V \<union> (if ?viol then {q} else {})) ?faulty"
    using youngest_insert [OF Cons.prems, of q] Cons.prems by (simp add: ds_forwarded_views)
  have set: "V \<union> (if ?viol then {q} else {}) \<union> {x \<in> set qs. lf_violates s d x} =
      V \<union> {x \<in> set (q # qs). lf_violates s d x}" by auto
  have b: "?fwd \<or> \<not> (?fwd \<or> fl_loadForwarded (di_flags (ds_obj s d))) \<and> (\<exists>q \<in> set qs. lf_forwards s d q) \<longleftrightarrow>
      \<not> fl_loadForwarded (di_flags (ds_obj s d)) \<and> (\<exists>q \<in> set (q # qs). lf_forwards s d q)" by auto
  from step obtain fwd' where "lf_exec_loop d (q # qs) faulty fwd s = lf_exec_loop d qs ?faulty fwd' ?s" by blast
  with Cons.IH [OF y, of fwd'] show ?case
    by (simp only: ds_forwarded_views ds_forwarded_flag ds_forwarded_twice set b)
qed

text \<open>
  C26. When a memory instruction with an address executes that has not executed before (the two conditions
  that the code asserts), the full queue looks at exactly the instructions of its 8-byte word: it reports a load iff some younger load of
  another program counter executed before this store, and then the youngest of them (so a replay
  from it leaves an older such load with its wrong value), and it marks this load as forwarded
  iff an older executed store is there; in the queue only the count of unresolved instructions,
  which is one less, and the statistic of forwarded loads change: no entry is given back.
\<close>

theorem lf_executing_finds_youngest_violation:
  assumes "di_addr (ds_obj s d) \<noteq> 0" and "\<not> di_isExecuted (ds_obj s d)"
  shows "\<exists>r q' s'. lf_executing d (q, s) = Inr (r, q', s') \<and>
    youngest s {x \<in> lf_word q s d. lf_violates s d x} r \<and>
    s' = ds_forwarded d (\<not> fl_loadForwarded (di_flags (ds_obj s d)) \<and> (\<exists>x \<in> lf_word q s d. lf_forwards s d x)) s \<and>
    (\<exists>n. q' = q\<lparr>lq_unresolved := lq_unresolved q - 1, lf_stldForwarding := n\<rparr>)"
proof -
  let ?qs = "map snd (filter (\<lambda>e. fst e = lf_calcWord (ds_obj s d)) (lf_instMap q))"
  have word: "set ?qs = lf_word q s d" by (force simp: lf_word_def)
  have "youngest s {} None" by (simp add: youngest_def)
  from lf_exec_loop_ok [OF this, of d ?qs "lf_stldForwarding q"]
  obtain r fwd' where run: "lf_exec_loop d ?qs None (lf_stldForwarding q) s =
      Inr (r, fwd', ds_forwarded d (\<not> fl_loadForwarded (di_flags (ds_obj s d)) \<and> (\<exists>x \<in> lf_word q s d. lf_forwards s d x)) s)"
    and y: "youngest s {x \<in> lf_word q s d. lf_violates s d x} r"
    unfolding word by auto
  show ?thesis
    using assms run y
    by (auto simp: lf_executing_def di_isExecuted_def ds_forwarded_obj intro!: exI [of _ fwd'])
qed

definition lsq_ld :: "u64 \<Rightarrow> dinst" where
  "lsq_ld n = di_blank\<lparr>di_ID := n, di_addr := 8, di_pc := 4, di_executed := 7,
     di_inst := \<lparr>in_opcode = iLALU_LD, in_src1 = 1, in_src2 = 0, in_dst1 = 3, in_dst2 = 120\<rparr>\<rparr>"

definition lsq_example :: dinst_store where
  "lsq_example = (ds_blank pool_two)\<lparr>ds_obj := (\<lambda>n. lsq_ld (of_nat (n + 1)))
     (0 := di_blank\<lparr>di_ID := 1, di_addr := 8,
        di_inst := \<lparr>in_opcode = iSALU_ST, in_src1 = 1, in_src2 = 2, in_dst1 = 120, in_dst2 = 120\<rparr>\<rparr>)\<rparr>"

definition lsq_queue :: lsq_full where
  "lsq_queue = \<lparr>lq_freeEntries = 5, lq_unresolved = 3, lf_stldForwarding = 0, lf_instMap = [(1, 2), (1, 1), (1, 0)]\<rparr>"

lemma lf_executing_finds_youngest_violation_witness:
  "\<exists>q' s'. lf_executing 0 (lsq_queue, lsq_example) = Inr (Some 2, q', s') \<and>
    lf_violates lsq_example 0 1 \<and> di_ID (ds_obj lsq_example 1) < di_ID (ds_obj lsq_example 2)"
proof -
  have word: "lf_calcWord (ds_obj lsq_example 0) = 1"
    by (simp add: lf_calcWord_def lsq_example_def drop_bit_eq_div)
  have lw: "lf_word lsq_queue lsq_example 0 = {0, 1, 2}"
    unfolding lf_word_def word by (auto simp: lsq_queue_def)
  have v: "lf_violates lsq_example 0 x" if "x \<in> {1, 2}" for x
    using that by (auto simp: lf_violates_def lsq_example_def lsq_ld_def di_isExecuted_def isStore_def isLoad_def di_blank_def)
  have set: "{x \<in> lf_word lsq_queue lsq_example 0. lf_violates lsq_example 0 x} = {1, 2}"
    using v by (auto simp: lw) (simp add: lf_violates_def)
  have "di_addr (ds_obj lsq_example 0) \<noteq> 0" "\<not> di_isExecuted (ds_obj lsq_example 0)"
    by (simp_all add: lsq_example_def di_isExecuted_def di_blank_def)
  from lf_executing_finds_youngest_violation [OF this, of lsq_queue] obtain r q' s' where
    r: "lf_executing 0 (lsq_queue, lsq_example) = Inr (r, q', s')" "youngest lsq_example {1, 2} r"
    unfolding set by blast
  have ids: "di_ID (ds_obj lsq_example 1) < di_ID (ds_obj lsq_example 2)"
    by (simp add: lsq_example_def lsq_ld_def)
  then have "r = Some 2" using r(2) by (auto simp: youngest_def split: option.splits)
  then show ?thesis using r v ids by auto
qed

section \<open>The end of the multimap\<close>

lemma lv_replay_loop_eq:
  "sorted (map fst es) \<Longrightarrow> \<forall>e \<in> set es. tag \<le> fst e \<Longrightarrow>
    lv_replay_loop tag d s es =
      (if \<exists>x. (tag, x) \<in> set es \<and> di_ID (ds_obj s x) < di_ID (ds_obj s d) \<and> di_addr (ds_obj s x) = di_addr (ds_obj s d)
       then Inr True
       else if \<exists>e \<in> set es. tag < fst e then Inr False else Inl Out_of_bounds)"
proof (induction es)
  case Nil
  then show ?case by simp
next
  case (Cons e es)
  show ?case
  proof (cases "fst e = tag")
    case True
    then show ?thesis using Cons by (cases e) auto
  next
    case False
    then have less: "tag < fst e" using Cons.prems by (simp add: order.not_eq_order_implies_strict)
    then have "\<forall>e' \<in> set es. tag < fst e'" using Cons.prems by (auto intro: less_le_trans)
    then have "\<nexists>x. (tag, x) \<in> set (e # es)" using less by auto
    then show ?thesis using less False by auto
  qed
qed

lemma mm_find_sorted:
  assumes "sorted (map fst es)" and "mm_find tag es \<noteq> []"
  shows "sorted (map fst (mm_find tag es))" and "\<forall>e \<in> set (mm_find tag es). tag \<le> fst e"
    and "(tag, x) \<in> set (mm_find tag es) \<longleftrightarrow> (tag, x) \<in> set es"
    and "(\<exists>e \<in> set (mm_find tag es). tag < fst e) \<longleftrightarrow> (\<exists>e \<in> set es. tag < fst e)"
proof -
  let ?f = "mm_find tag es" and ?t = "takeWhile (\<lambda>e. fst e \<noteq> tag) es"
  have es: "es = ?t @ ?f" by (simp add: mm_find_def)
  have so: "sorted (map fst (?t @ ?f))" using assms(1) by (simp add: mm_find_def)
  then show "sorted (map fst ?f)" by (simp add: sorted_append)
  have hd: "fst (hd ?f) = tag" using assms(2) hd_dropWhile [of "\<lambda>e. fst e \<noteq> tag" es] by (simp add: mm_find_def)
  then show ge: "\<forall>e \<in> set ?f. tag \<le> fst e"
    using so assms(2) by (cases ?f) (auto simp: sorted_append)
  have le: "\<forall>e \<in> set ?t. fst e \<le> tag" using so assms(2) hd by (cases ?f) (auto simp: sorted_append)
  have ne: "\<forall>e \<in> set ?t. fst e \<noteq> tag" by (auto dest: set_takeWhileD)
  have "set es = set ?t \<union> set ?f" using es by (metis set_append)
  then show "(tag, x) \<in> set ?f \<longleftrightarrow> (tag, x) \<in> set es"
    "(\<exists>e \<in> set ?f. tag < fst e) \<longleftrightarrow> (\<exists>e \<in> set es. tag < fst e)"
    using ne le by force+
qed

text \<open>
  \<open>LSQVPC::replayCheck\<close> asks for a replay iff an older instruction of the same address is
  in the queue, but it compares the entry at \<open>end()\<close>: with no such instruction it reads past
  the end of the map whenever the word is not in the map or no larger word is.
\<close>

theorem lv_replayCheck_reads_the_end:
  assumes "sorted (map fst (lv_instMap q))"
  shows "map_sum id fst (lv_replayCheck d s q) =
    (let tag = lv_calcWord (ds_obj s d); m = set (lv_instMap q)
     in if \<exists>x. (tag, x) \<in> m \<and> di_ID (ds_obj s x) < di_ID (ds_obj s d) \<and> di_addr (ds_obj s x) = di_addr (ds_obj s d)
        then Inr 1
        else if tag \<in> fst ` m \<and> (\<exists>e \<in> m. tag < fst e) then Inr 0 else Inl Out_of_bounds)"
proof (cases "mm_find (lv_calcWord (ds_obj s d)) (lv_instMap q) = []")
  case True
  then have "lv_calcWord (ds_obj s d) \<notin> fst ` set (lv_instMap q)" by (auto simp: mm_find_def)
  then show ?thesis using True by (force simp: lv_replayCheck_def Let_def)
next
  case False
  then have "lv_calcWord (ds_obj s d) \<in> fst ` set (lv_instMap q)"
    by (metis (mono_tags, lifting) dropWhile_eq_Nil_conv image_eqI mm_find_def)
  then show ?thesis
    using mm_find_sorted(3,4) [OF assms False]
      lv_replay_loop_eq [OF mm_find_sorted(1,2) [OF assms False], of d s]
    by (auto simp: lv_replayCheck_def Let_def)
qed

lemma lv_replayCheck_reads_the_end_witness:
  "map_sum id fst (lv_replayCheck 1 lsq_example (lv_create 4)) = Inl Out_of_bounds"
  using lv_replayCheck_reads_the_end [of "lv_create 4" 1 lsq_example]
  by (simp add: lv_create_def)

end
