(* ===== verification/Mshr.thy ===== *)
theory Mshr
  imports Callbacks Snippets "HOL-Library.Multiset"
begin

text \<open>
  \<open>mem/mshr.cpp\<close>, \<open>mem/mshr.hpp\<close> and \<open>mem/mshr_entry.hpp\<close>: the miss status registers of
  the memory controllers, compiled without \<open>DEBUG_TRANSIENTS\<close>. A request is seen through its
  retry flag and its statistics flag. \<open>retire\<close> runs the next waiting callback as its last
  action; the model takes it out of the container and answers it. The samples of the two
  averages are lists, the newest first. Each entry has its own container record; a callback
  waits in one container at a time. The calls that \<open>CCache\<close> (\<open>mem/ccache.cpp\<close>) makes follow, with the property that they lose no miss.
\<close>

section \<open>State and operations\<close>

record mshr_slot =
  me_cc :: container
  me_nUse :: int

record mshr =
  ms_Log2LineSize :: nat
  ms_nEntries :: int
  ms_nSubEntries :: int
  ms_nFreeEntries :: int
  ms_MSHRSize :: int
  ms_entry :: "mshr_slot list"
  ms_avgUse :: "(int \<times> bool) list"
  ms_avgSubUse :: "(int \<times> bool) list"
  ms_nStallConflict :: nat

definition ms_create :: "(nat \<Rightarrow> u64) \<Rightarrow> int \<Rightarrow> int \<Rightarrow> int \<Rightarrow> mshr res" where
  "ms_create pr n lineSize nsub =
    bind_res (log2i (word_of_int lineSize)) (\<lambda>l.
      let log2 = the l;
          sz = sint (roundUpPower2 (word_of_int n) * 4)
      in assert_res (n > 0 \<and> n < 1024 * 32 * 32)
          (assert_res (lineSize \<ge> 0 \<and> log2 < 8 * 8 - 1)
            (Inr \<lparr>ms_Log2LineSize = log2, ms_nEntries = n, ms_nSubEntries = nsub, ms_nFreeEntries = n,
                  ms_MSHRSize = sz,
                  ms_entry = replicate (nat sz) \<lparr>me_cc = cc_create pr, me_nUse = 0\<rparr>,
                  ms_avgUse = [], ms_avgSubUse = [], ms_nStallConflict = 0\<rparr>)))"

definition ms_calcEntry :: "mshr \<Rightarrow> addr \<Rightarrow> nat" where
  "ms_calcEntry m paddr =
    (let p = drop_bit (ms_Log2LineSize m) paddr
     in unat (ucast ((p XOR drop_bit 11 p) AND word_of_int (ms_MSHRSize m - 1)) :: u32))"

definition ms_calcLineAddr :: "mshr \<Rightarrow> addr \<Rightarrow> addr" where
  "ms_calcLineAddr m a = drop_bit (ms_Log2LineSize m) a"

definition ms_hasFreeEntries :: "mshr \<Rightarrow> bool" where
  "ms_hasFreeEntries m \<longleftrightarrow> ms_nFreeEntries m > 0"

definition ms_canAccept :: "addr \<Rightarrow> mshr \<Rightarrow> bool" where
  "ms_canAccept a m \<longleftrightarrow>
    \<not> ms_nFreeEntries m \<le> 0 \<and> \<not> me_nUse (ms_entry m ! ms_calcEntry m a) \<ge> ms_nSubEntries m"

definition ms_canIssue :: "addr \<Rightarrow> mshr \<Rightarrow> bool res" where
  "ms_canIssue a m =
    (let e = ms_entry m ! ms_calcEntry m a
     in if me_nUse e \<noteq> 0 then Inr False else assert_res (cc_empty (me_cc e)) (Inr True))"

definition ms_addEntry :: "addr \<Rightarrow> nat \<Rightarrow> bool \<Rightarrow> bool \<Rightarrow> mshr \<Rightarrow> mshr res" where
  "ms_addEntry a c retrying stats m =
    assert_res retrying
     (assert_res (ms_nFreeEntries m \<le> ms_nEntries m)
       (let free = ms_nFreeEntries m - 1;
            pos = ms_calcEntry m a;
            e = ms_entry m ! pos
        in bind_res (cc_add c (me_cc e)) (\<lambda>cc.
             assert_res (free \<ge> 0)
              (assert_res (me_nUse e \<noteq> 0)
                (Inr (m\<lparr>ms_nFreeEntries := free,
                        ms_avgUse := (ms_nEntries m - free, stats) # ms_avgUse m,
                        ms_entry := (ms_entry m)[pos := \<lparr>me_cc = cc, me_nUse = me_nUse e + 1\<rparr>],
                        ms_avgSubUse := (me_nUse e + 1, stats) # ms_avgSubUse m,
                        ms_nStallConflict := ms_nStallConflict m + 1\<rparr>))))))"

definition ms_blockEntry :: "addr \<Rightarrow> bool \<Rightarrow> bool \<Rightarrow> mshr \<Rightarrow> mshr res" where
  "ms_blockEntry a retrying stats m =
    assert_res (\<not> retrying)
     (assert_res (ms_nFreeEntries m \<le> ms_nEntries m)
       (let free = ms_nFreeEntries m - 1;
            pos = ms_calcEntry m a;
            e = ms_entry m ! pos
        in assert_res (free \<ge> 0)
            (assert_res (me_nUse e = 0)
              (Inr (m\<lparr>ms_nFreeEntries := free,
                      ms_avgUse := (ms_nEntries m - free, stats) # ms_avgUse m,
                      ms_entry := (ms_entry m)[pos := e\<lparr>me_nUse := me_nUse e + 1\<rparr>],
                      ms_avgSubUse := (me_nUse e + 1, stats) # ms_avgSubUse m\<rparr>)))))"

text \<open>The result is the callback that \<open>retire\<close> runs last, if any (then it returns true).\<close>

definition ms_retire :: "addr \<Rightarrow> mshr \<Rightarrow> (nat option \<times> mshr) res" where
  "ms_retire a m =
    (let pos = ms_calcEntry m a;
         e = ms_entry m ! pos;
         free = ms_nFreeEntries m + 1
     in assert_res (me_nUse e \<noteq> 0)
         (assert_res (free \<le> ms_nEntries m)
           (let e = e\<lparr>me_nUse := me_nUse e - 1\<rparr>
            in assert_res (free \<ge> 0)
                (assert_res (me_nUse e = 0 \<longrightarrow> cc_empty (me_cc e))
                  (let e' = (case cc_first (me_cc e) of None \<Rightarrow> e | Some cb \<Rightarrow> e\<lparr>me_cc := cc_pop cb (me_cc e)\<rparr>)
                   in Inr (cc_first (me_cc e),
                           m\<lparr>ms_nFreeEntries := free, ms_entry := (ms_entry m)[pos := e']\<rparr>))))))"

text \<open>\<open>MSHRentry\<close>: its \<open>retire\<close> never gives a sub-entry back.\<close>

record mshr_entry =
  my_cc :: container
  my_nFreeSEntries :: int

definition my_create :: "(nat \<Rightarrow> u64) \<Rightarrow> mshr_entry" where
  "my_create pr = \<lparr>my_cc = cc_create pr, my_nFreeSEntries = 0\<rparr>"

definition my_setup :: "int \<Rightarrow> mshr_entry \<Rightarrow> mshr_entry" where
  "my_setup n e = e\<lparr>my_nFreeSEntries := n\<rparr>"

definition my_addEntry :: "nat \<Rightarrow> mshr_entry \<Rightarrow> (bool \<times> mshr_entry) res" where
  "my_addEntry c e =
    (if my_nFreeSEntries e = 0 then Inr (False, e)
     else bind_res (cc_add c (my_cc e)) (\<lambda>cc.
            Inr (True, e\<lparr>my_nFreeSEntries := my_nFreeSEntries e - 1, my_cc := cc\<rparr>)))"

definition my_canAccept :: "mshr_entry \<Rightarrow> bool" where
  "my_canAccept e \<longleftrightarrow> my_nFreeSEntries e \<noteq> 0"

definition my_retire :: "mshr_entry \<Rightarrow> bool \<times> nat option \<times> mshr_entry" where
  "my_retire e =
    (case cc_first (my_cc e) of
       None \<Rightarrow> (True, None, e)
     | Some cb \<Rightarrow> (False, Some cb, e\<lparr>my_cc := cc_pop cb (my_cc e)\<rparr>))"

section \<open>A cache and its miss status registers\<close>

text \<open>
  How \<open>CCache\<close> uses the registers (\<open>mem/ccache.cpp\<close>, \<open>doReq\<close>, \<open>tryPrefetch\<close> and the places that call \<open>mshr->retire\<close>). Requests are
  numbers, \<open>ad r\<close> is the address of request \<open>r\<close>. A new request for a free entry takes it and is in service; a demand for an entry in use
  waits there with its redo callback, a prefetch for it is given up. \<open>retire\<close> ends the service of a request and runs the
  next waiting redo callback, which is \<open>doReq\<close> again, now retrying. The cache asks neither \<open>hasFreeEntries\<close> nor \<open>canAccept\<close>.
\<close>

datatype ms_outcome = MS_issued | MS_queued | MS_dropped

definition ms_doReq :: "addr \<Rightarrow> nat \<Rightarrow> bool \<Rightarrow> bool \<Rightarrow> bool \<Rightarrow> mshr \<Rightarrow> (ms_outcome \<times> mshr) res" where
  "ms_doReq a r prefetch retrying stats m =
    bind_res (ms_canIssue a m) (\<lambda>b.
      if retrying then assert_res (\<not> prefetch \<longrightarrow> \<not> b) (assert_res (\<not> prefetch) (Inr (MS_issued, m)))
      else if \<not> b
      then if prefetch then Inr (MS_dropped, m)
           else bind_res (ms_addEntry a r True stats m) (\<lambda>m. Inr (MS_queued, m))
      else bind_res (ms_blockEntry a False stats m) (\<lambda>m. Inr (MS_issued, m)))"

text \<open>The part of \<open>tryPrefetch\<close> from the test of the registers on; \<open>elsewhere\<close> tells that the prefetch is passed down instead.\<close>

definition ms_tryPrefetch :: "addr \<Rightarrow> bool \<Rightarrow> bool \<Rightarrow> mshr \<Rightarrow> (ms_outcome \<times> mshr) res" where
  "ms_tryPrefetch a elsewhere stats m =
    bind_res (ms_canIssue a m) (\<lambda>b.
      if \<not> b \<or> elsewhere then Inr (MS_dropped, m)
      else bind_res (ms_blockEntry a False stats m) (\<lambda>m. Inr (MS_issued, m)))"

text \<open>The requests in service, and all that were ever queued and released.\<close>

record ms_cache =
  mc_mshr :: mshr
  mc_serv :: "nat list"
  mc_queued :: "nat list"
  mc_released :: "nat list"

definition mc_start :: "mshr \<Rightarrow> ms_cache" where
  "mc_start m = \<lparr>mc_mshr = m, mc_serv = [], mc_queued = [], mc_released = []\<rparr>"

definition mc_note :: "nat \<Rightarrow> ms_cache \<Rightarrow> ms_outcome \<times> mshr \<Rightarrow> ms_cache" where
  "mc_note r c = (\<lambda>(out, m).
    case out of
      MS_issued \<Rightarrow> c\<lparr>mc_mshr := m, mc_serv := r # mc_serv c\<rparr>
    | MS_queued \<Rightarrow> c\<lparr>mc_mshr := m, mc_queued := r # mc_queued c\<rparr>
    | MS_dropped \<Rightarrow> c\<lparr>mc_mshr := m\<rparr>)"

text \<open>The end of the service of a request, with the redo callback that it runs.\<close>

definition mc_finish :: "(nat \<Rightarrow> addr) \<Rightarrow> nat \<Rightarrow> ms_cache \<Rightarrow> ms_cache res" where
  "mc_finish ad r c =
    bind_res (ms_retire (ad r) (mc_mshr c)) (\<lambda>(cb, m).
      let c = c\<lparr>mc_mshr := m, mc_serv := remove1 r (mc_serv c)\<rparr>
      in case cb of
           None \<Rightarrow> Inr c
         | Some q \<Rightarrow> bind_res (ms_doReq (ad q) q False True False m) (\<lambda>out.
             Inr (mc_note q (c\<lparr>mc_released := q # mc_released c\<rparr>) out)))"

datatype ms_op = MS_req nat bool bool | MS_prefetch nat bool bool | MS_again nat | MS_finish nat

fun mc_step :: "(nat \<Rightarrow> addr) \<Rightarrow> ms_op \<Rightarrow> ms_cache \<Rightarrow> ms_cache res" where
  "mc_step ad (MS_req r prefetch stats) c =
    bind_res (ms_doReq (ad r) r prefetch False stats (mc_mshr c)) (\<lambda>out. Inr (mc_note r c out))"
| "mc_step ad (MS_prefetch r elsewhere stats) c =
    bind_res (ms_tryPrefetch (ad r) elsewhere stats (mc_mshr c)) (\<lambda>out. Inr (mc_note r c out))"
| "mc_step ad (MS_again r) c = bind_res (ms_doReq (ad r) r False True False (mc_mshr c)) (\<lambda>_. Inr c)"
| "mc_step ad (MS_finish r) c = mc_finish ad r c"

fun mc_run :: "(nat \<Rightarrow> addr) \<Rightarrow> ms_op list \<Rightarrow> ms_cache \<Rightarrow> ms_cache res" where
  "mc_run ad [] c = Inr c"
| "mc_run ad (op # ops) c = bind_res (mc_step ad op c) (mc_run ad ops)"

text \<open>
  What the rest of the memory system keeps: a request that is sent is new, fewer than \<open>n\<close> are outstanding then, and only a request
  in service is done again or finished.
\<close>

definition mc_outstanding :: "ms_cache \<Rightarrow> nat multiset" where
  "mc_outstanding c = mset (mc_serv c) + (mset (mc_queued c) - mset (mc_released c))"

fun mc_legal :: "int \<Rightarrow> ms_op \<Rightarrow> ms_cache \<Rightarrow> bool" where
  "mc_legal n (MS_req r prefetch stats) c \<longleftrightarrow> r \<notin># mc_outstanding c \<and> int (size (mc_outstanding c)) < n"
| "mc_legal n (MS_prefetch r elsewhere stats) c \<longleftrightarrow> r \<notin># mc_outstanding c \<and> int (size (mc_outstanding c)) < n"
| "mc_legal n (MS_again r) c \<longleftrightarrow> r \<in> set (mc_serv c)"
| "mc_legal n (MS_finish r) c \<longleftrightarrow> r \<in> set (mc_serv c)"

fun mc_fair :: "int \<Rightarrow> (nat \<Rightarrow> addr) \<Rightarrow> ms_op list \<Rightarrow> ms_cache \<Rightarrow> bool" where
  "mc_fair n ad [] c \<longleftrightarrow> True"
| "mc_fair n ad (op # ops) c \<longleftrightarrow>
    mc_legal n op c \<and> (case mc_step ad op c of Inl e \<Rightarrow> True | Inr c \<Rightarrow> mc_fair n ad ops c)"

section \<open>Invariant\<close>

text \<open>
  \<open>ms_inv W m\<close>: entry \<open>i\<close> holds the callbacks \<open>W i\<close>, one less than its use count when it
  is used, and the free entries and the users add up.
\<close>

definition ms_slot_ok :: "nat list \<Rightarrow> mshr_slot \<Rightarrow> bool" where
  "ms_slot_ok ws e \<longleftrightarrow>
    cc_holds ws (me_cc e) \<and> 0 \<le> me_nUse e \<and> int (length ws) = (if me_nUse e = 0 then 0 else me_nUse e - 1)"

definition ms_shape :: "mshr \<Rightarrow> bool" where
  "ms_shape m \<longleftrightarrow> (\<exists>k < 31. ms_MSHRSize m = 2 ^ k) \<and> length (ms_entry m) = nat (ms_MSHRSize m)"

definition ms_inv :: "(nat \<Rightarrow> nat list) \<Rightarrow> mshr \<Rightarrow> bool" where
  "ms_inv W m \<longleftrightarrow> ms_shape m \<and>
    (\<forall>i < length (ms_entry m). ms_slot_ok (W i) (ms_entry m ! i)) \<and>
    ms_nFreeEntries m + sum_list (map me_nUse (ms_entry m)) = ms_nEntries m"

text \<open>What never changes.\<close>

definition ms_dims :: "mshr \<Rightarrow> nat \<times> int \<times> int \<times> nat" where
  "ms_dims m = (ms_Log2LineSize m, ms_MSHRSize m, ms_nEntries m, length (ms_entry m))"

definition ms_use :: "mshr \<Rightarrow> nat \<Rightarrow> int" where
  "ms_use m i = me_nUse (ms_entry m ! i)"

lemma ms_dims_calc: "ms_dims m' = ms_dims m \<Longrightarrow> ms_calcEntry m' a = ms_calcEntry m a"
  by (simp add: ms_dims_def ms_calcEntry_def)

lemma ms_calcEntry_range: "ms_shape m \<Longrightarrow> ms_calcEntry m a < length (ms_entry m)"
proof -
  assume sh: "ms_shape m"
  then obtain k where k: "k < 31" "ms_MSHRSize m = 2 ^ k" by (auto simp: ms_shape_def)
  have "(word_of_int (2 ^ k - 1) :: u64) = mask k" by (simp add: mask_eq_exp_minus_1)
  then have "unat ((x AND word_of_int (ms_MSHRSize m - 1)) :: u64) < 2 ^ k" for x
    using k by (simp add: unat_and_mask)
  then have "ms_calcEntry m a < 2 ^ k"
    unfolding ms_calcEntry_def Let_def by (simp add: unat_ucast_mod) (meson le_less_trans mod_less_eq_dividend)
  then show ?thesis using sh k by (simp add: ms_shape_def nat_power_eq)
qed

lemma sum_nUse_update:
  "i < length es \<Longrightarrow> sum_list (map me_nUse (es[i := e])) = sum_list (map me_nUse es) + me_nUse e - me_nUse (es ! i)"
  by (induction es arbitrary: i) (auto split: nat.splits)

lemma ms_nUse_le: "ms_inv W m \<Longrightarrow> i < length (ms_entry m) \<Longrightarrow> ms_use m i + ms_nFreeEntries m \<le> ms_nEntries m"
proof -
  assume inv: "ms_inv W m" and i: "i < length (ms_entry m)"
  have "me_nUse (ms_entry m ! i) \<le> sum_list (map me_nUse (ms_entry m))"
  proof (rule member_le_sum_list)
    show "me_nUse (ms_entry m ! i) \<in> set (map me_nUse (ms_entry m))" using i by simp
    fix x assume "x \<in> set (map me_nUse (ms_entry m))"
    then show "0 \<le> x" using inv by (auto simp: ms_inv_def ms_slot_ok_def in_set_conv_nth)
  qed
  then show ?thesis using inv by (simp add: ms_inv_def ms_use_def)
qed

lemma ms_slot:
  assumes "ms_inv W m"
  shows "ms_calcEntry m a < length (ms_entry m)" and "ms_slot_ok (W (ms_calcEntry m a)) (ms_entry m ! ms_calcEntry m a)"
    and "ms_nFreeEntries m \<le> ms_nEntries m"
proof -
  show p: "ms_calcEntry m a < length (ms_entry m)" using assms ms_calcEntry_range by (simp add: ms_inv_def)
  show "ms_slot_ok (W (ms_calcEntry m a)) (ms_entry m ! ms_calcEntry m a)" using assms p by (simp add: ms_inv_def)
  then show "ms_nFreeEntries m \<le> ms_nEntries m"
    using ms_nUse_le [OF assms p] by (simp add: ms_slot_ok_def ms_use_def)
qed

lemma ms_inv_update:
  assumes inv: "ms_inv W m" and i: "i < length (ms_entry m)" and ok: "ms_slot_ok ws e"
    and m': "ms_entry m' = (ms_entry m)[i := e]" "ms_nFreeEntries m' = ms_nFreeEntries m + me_nUse (ms_entry m ! i) - me_nUse e"
      "ms_nEntries m' = ms_nEntries m" "ms_MSHRSize m' = ms_MSHRSize m" "ms_Log2LineSize m' = ms_Log2LineSize m"
  shows "ms_inv (W(i := ws)) m'" and "ms_dims m' = ms_dims m" and "ms_use m' j = (if j = i then me_nUse e else ms_use m j)"
proof -
  have "ms_slot_ok ((W(i := ws)) j) (ms_entry m' ! j)" if "j < length (ms_entry m')" for j
    using inv ok that m' i by (cases "j = i") (auto simp: ms_inv_def)
  then show "ms_inv (W(i := ws)) m'"
    using inv i m' sum_nUse_update [OF i, of e] by (simp add: ms_inv_def ms_shape_def)
  show "ms_dims m' = ms_dims m" by (simp add: ms_dims_def m')
  show "ms_use m' j = (if j = i then me_nUse e else ms_use m j)" using i by (simp add: ms_use_def m')
qed

lemma ms_canIssue_ok: "ms_inv W m \<Longrightarrow> ms_canIssue a m = Inr (ms_use m (ms_calcEntry m a) = 0)"
  using ms_slot(2) [of W m a]
  by (auto simp: ms_canIssue_def Let_def ms_use_def ms_slot_ok_def cc_holds_def cc_empty_def)

lemma ms_block_ok:
  assumes inv: "ms_inv W m" and free: "0 < ms_nFreeEntries m" and idle: "ms_use m (ms_calcEntry m a) = 0"
  obtains m' where "ms_blockEntry a False stats m = Inr m'" and "ms_inv W m'" and "ms_dims m' = ms_dims m"
    and "ms_nFreeEntries m' = ms_nFreeEntries m - 1"
    and "\<And>j. ms_use m' j = (if j = ms_calcEntry m a then 1 else ms_use m j)" and "W (ms_calcEntry m a) = []"
proof -
  let ?i = "ms_calcEntry m a"
  let ?e = "(ms_entry m ! ?i)\<lparr>me_nUse := 1\<rparr>"
  note s = ms_slot(1,2) [OF inv, of a] ms_slot(3) [OF inv]
  obtain m' where m': "ms_blockEntry a False stats m = Inr m'" "ms_entry m' = (ms_entry m)[?i := ?e]"
      "ms_nFreeEntries m' = ms_nFreeEntries m - 1" "ms_nEntries m' = ms_nEntries m" "ms_MSHRSize m' = ms_MSHRSize m"
      "ms_Log2LineSize m' = ms_Log2LineSize m"
    using s free idle by (auto simp: ms_blockEntry_def Let_def ms_use_def)
  have w: "W ?i = []" using s(2) idle by (simp add: ms_slot_ok_def ms_use_def)
  have "ms_slot_ok (W ?i) ?e" using s(2) w by (simp add: ms_slot_ok_def)
  note u = ms_inv_update [OF inv s(1) this m'(2) _ m'(4-6)]
  have f: "ms_nFreeEntries m' = ms_nFreeEntries m + me_nUse (ms_entry m ! ?i) - me_nUse ?e"
    using m'(3) idle by (simp add: ms_use_def)
  show thesis
  proof (rule that [OF m'(1) _ u(2) m'(3) _ w])
    show "ms_inv W m'" using u(1) [OF f] by simp
    show "ms_use m' j = (if j = ?i then 1 else ms_use m j)" for j using u(3) [OF f, of j] by simp
  qed (rule f)
qed

lemma mset_tq_place [simp]: "mset (tq_place pr n xs) = add_mset n (mset xs)"
proof -
  have "mset (takeWhile P xs) + mset (dropWhile P xs) = mset xs" for P
    by (metis mset_append takeWhile_dropWhile_id)
  then show ?thesis by (simp add: tq_place_def)
qed

lemma ms_add_ok:
  assumes inv: "ms_inv W m" and free: "0 < ms_nFreeEntries m" and busy: "ms_use m (ms_calcEntry m a) \<noteq> 0"
    and new: "c \<notin> set (W (ms_calcEntry m a))"
  obtains m' ws where "ms_addEntry a c True stats m = Inr m'" and "ms_inv (W(ms_calcEntry m a := ws)) m'"
    and "mset ws = add_mset c (mset (W (ms_calcEntry m a)))" and "ms_dims m' = ms_dims m"
    and "ms_nFreeEntries m' = ms_nFreeEntries m - 1" and "\<And>j. (ms_use m' j = 0) = (ms_use m j = 0)"
proof -
  let ?i = "ms_calcEntry m a" and ?old = "ms_entry m ! ms_calcEntry m a"
  note s = ms_slot(1,2) [OF inv, of a] ms_slot(3) [OF inv]
  obtain cc where cc: "cc_add c (me_cc ?old) = Inr cc" "cc_holds (tq_place (cc_priority (me_cc ?old)) c (W ?i)) cc"
    using cc_add_ok s(2) new unfolding ms_slot_ok_def by blast
  let ?ws = "tq_place (cc_priority (me_cc ?old)) c (W ?i)"
  let ?e = "\<lparr>me_cc = cc, me_nUse = me_nUse ?old + 1\<rparr>"
  have b: "me_nUse ?old \<noteq> 0" using busy by (simp add: ms_use_def)
  moreover have "0 \<le> me_nUse ?old" using s(2) unfolding ms_slot_ok_def by (elim conjE)
  ultimately have pos: "0 < me_nUse ?old" "me_nUse ?old + 1 \<noteq> 0" by linarith+
  have len: "int (length (W ?i)) = me_nUse ?old - 1" using s(2) b by (simp add: ms_slot_ok_def)
  obtain m' where m': "ms_addEntry a c True stats m = Inr m'" "ms_entry m' = (ms_entry m)[?i := ?e]"
      "ms_nFreeEntries m' = ms_nFreeEntries m - 1" "ms_nEntries m' = ms_nEntries m" "ms_MSHRSize m' = ms_MSHRSize m"
      "ms_Log2LineSize m' = ms_Log2LineSize m"
    using s(3) free b cc(1) by (auto simp: ms_addEntry_def Let_def)
  have ws: "mset ?ws = add_mset c (mset (W ?i))" by simp
  then have "length ?ws = Suc (length (W ?i))" by (metis size_add_mset size_mset)
  then have "ms_slot_ok ?ws ?e" using cc(2) pos len by (simp add: ms_slot_ok_def)
  note u = ms_inv_update [OF inv s(1) this m'(2) _ m'(4-6)]
  have f: "ms_nFreeEntries m' = ms_nFreeEntries m + me_nUse ?old - me_nUse ?e" using m'(3) by simp
  show thesis
  proof (rule that [OF m'(1) u(1) ws u(2) m'(3)])
    show "(ms_use m' j = 0) = (ms_use m j = 0)" for j
    proof (cases "j = ?i")
      case True
      then have "ms_use m' j = me_nUse ?old + 1" using u(3) [OF f, of j] by simp
      then have "ms_use m' j \<noteq> 0" using pos(1) by linarith
      then show ?thesis using busy True by simp
    qed (use u(3) [OF f, of j] in simp)
  qed (rule f)+
qed

lemma ms_retire_ok:
  assumes inv: "ms_inv W m" and busy: "ms_use m (ms_calcEntry m a) \<noteq> 0" and free0: "0 \<le> ms_nFreeEntries m"
  obtains m' where "ms_retire a m = Inr (case W (ms_calcEntry m a) of [] \<Rightarrow> None | c # ws \<Rightarrow> Some c, m')"
    and "ms_inv (W(ms_calcEntry m a := tl (W (ms_calcEntry m a)))) m'" and "ms_dims m' = ms_dims m"
    and "ms_nFreeEntries m' = ms_nFreeEntries m + 1"
    and "\<And>j. (ms_use m' j = 0) = (if j = ms_calcEntry m a then W j = [] else ms_use m j = 0)"
proof -
  let ?i = "ms_calcEntry m a" and ?old = "ms_entry m ! ms_calcEntry m a"
  note s = ms_slot(1,2) [OF inv, of a] ms_slot(3) [OF inv]
  have b: "me_nUse ?old \<noteq> 0" using busy by (simp add: ms_use_def)
  moreover have n0: "0 \<le> me_nUse ?old" using s(2) unfolding ms_slot_ok_def by (elim conjE)
  ultimately have use: "1 \<le> me_nUse ?old" by linarith
  have holds: "cc_holds (W ?i) (me_cc ?old)" and len: "int (length (W ?i)) = me_nUse ?old - 1"
    using s(2) b by (simp_all add: ms_slot_ok_def)
  have first: "cc_first (me_cc ?old) = (case W ?i of [] \<Rightarrow> None | c # ws \<Rightarrow> Some c)"
    using holds by (cases "W ?i") (auto simp: cc_holds_def)
  let ?less = "?old\<lparr>me_nUse := me_nUse ?old - 1\<rparr>"
  let ?e = "case cc_first (me_cc ?old) of None \<Rightarrow> ?less | Some cb \<Rightarrow> ?less\<lparr>me_cc := cc_pop cb (me_cc ?old)\<rparr>"
  have nu: "me_nUse ?e = me_nUse ?old - 1" by (simp split: option.split)
  have free: "ms_nFreeEntries m + 1 \<le> ms_nEntries m" using ms_nUse_le [OF inv s(1)] use by (simp add: ms_use_def)
  have empty: "me_nUse ?less = 0 \<longrightarrow> cc_empty (me_cc ?old)"
  proof
    assume "me_nUse ?less = 0"
    then have "me_nUse ?old - 1 = 0" by simp
    then have "W ?i = []" using len by simp
    then show "cc_empty (me_cc ?old)" using first by (simp add: cc_empty_def)
  qed
  let ?m = "m\<lparr>ms_nFreeEntries := ms_nFreeEntries m + 1, ms_entry := (ms_entry m)[?i := ?e]\<rparr>"
  have run: "ms_retire a m = Inr (case W ?i of [] \<Rightarrow> None | c # ws \<Rightarrow> Some c, ?m)"
    using b free free0 empty by (simp add: ms_retire_def Let_def first [symmetric] cong: option.case_cong)
  have slot: "ms_slot_ok (tl (W ?i)) ?e"
  proof (cases "W ?i")
    case Nil
    then show ?thesis using first holds len use by (simp add: ms_slot_ok_def)
  next
    case (Cons c ws)
    then have "cc_holds ws (cc_pop c (me_cc ?old))" using cc_pop_ok [OF holds, of c] first by auto
    then show ?thesis using Cons first len use by (simp add: ms_slot_ok_def)
  qed
  have f: "ms_nFreeEntries ?m = ms_nFreeEntries m + me_nUse ?old - me_nUse ?e" using nu by simp
  note u = ms_inv_update [OF inv s(1) slot _ f, simplified]
  show thesis
  proof (rule that [OF run])
    show "(ms_use ?m j = 0) = (if j = ?i then W j = [] else ms_use m j = 0)" for j
      using u(3) [of j] nu len by auto
  qed (use u in simp_all)
qed


definition ms_waiting :: "(nat \<Rightarrow> nat list) \<Rightarrow> mshr \<Rightarrow> nat multiset" where
  "ms_waiting W m = (\<Sum>i < length (ms_entry m). mset (W i))"

lemma ms_waiting_update:
  assumes "i < length (ms_entry m)" and "length (ms_entry m') = length (ms_entry m)"
  shows "ms_waiting (W(i := ws)) m' + mset (W i) = ms_waiting W m + mset ws"
proof -
  have "ms_waiting (W(i := ws)) m' = mset ws + (\<Sum>j \<in> {..<length (ms_entry m)} - {i}. mset (W j))"
    unfolding ms_waiting_def assms(2) using assms(1) by (subst sum.remove [of _ i]) auto
  moreover have "ms_waiting W m = mset (W i) + (\<Sum>j \<in> {..<length (ms_entry m)} - {i}. mset (W j))"
    unfolding ms_waiting_def using assms(1) by (subst sum.remove [of _ i]) auto
  ultimately show ?thesis by simp
qed

lemma ms_waiting_member:
  assumes "i < length (ms_entry m)" and "c \<in> set (W i)"
  shows "c \<in># ms_waiting W m"
proof -
  have "ms_waiting W m = mset (W i) + (\<Sum>j \<in> {..<length (ms_entry m)} - {i}. mset (W j))"
    unfolding ms_waiting_def using assms(1) by (subst sum.remove [of _ i]) auto
  then show ?thesis using assms(2) by simp
qed

lemma ms_create_inv:
  assumes n: "0 < n" "n < 2 ^ 20" and line: "0 < lineSize" "lineSize < 2 ^ 15"
  obtains m where "ms_create pr n lineSize nsub = Inr m" and "ms_inv (\<lambda>_. []) m"
    and "ms_nFreeEntries m = n" and "ms_nEntries m = n" and "\<And>i. i < length (ms_entry m) \<Longrightarrow> ms_use m i = 0"
proof -
  have un: "unat (word_of_int n :: u32) = nat n"
    using n uint_word_of_int_in_range [of n, where 'a = 32] by (simp add: unat_eq_nat_uint)
  have ul: "unat (word_of_int lineSize :: u32) = nat lineSize"
    using line uint_word_of_int_in_range [of lineSize, where 'a = 32] by (simp add: unat_eq_nat_uint)
  obtain l where l: "log2i (word_of_int lineSize) = Inr (Some l)" "l \<le> 31"
    by (rule log2i_value [of "word_of_int lineSize"]) (use ul line in auto)
  have "0 < unat (word_of_int n :: u32)" "unat (word_of_int n :: u32) \<le> 2 ^ 31" using un n by auto
  then obtain k where k: "roundUpPower2 (word_of_int n) = 2 ^ k" "k > 0 \<Longrightarrow> 2 ^ (k - 1) < unat (word_of_int n :: u32)"
    using roundUpPower2_power by blast
  have "k \<le> 20"
  proof (rule ccontr)
    assume "\<not> k \<le> 20"
    then have "(2::nat) ^ 20 \<le> 2 ^ (k - 1)" by (intro power_increasing) auto
    moreover have "2 ^ (k - 1) < unat (word_of_int n :: u32)" using k(2) \<open>\<not> k \<le> 20\<close> by simp
    moreover have "nat n < 2 ^ 20" using n by simp
    ultimately show False using un by linarith
  qed
  then have k2: "k + 2 < 31" by simp
  have four: "roundUpPower2 (word_of_int n) * 4 = (2 ^ (k + 2) :: u32)" by (simp add: k(1) power_add)
  have "sint (2 ^ (k + 2) :: u32) = 2 ^ (k + 2)"
  proof -
    have "(2 ^ (k + 2) :: u32) = word_of_int (2 ^ (k + 2))" by simp
    moreover have "(2 :: int) ^ (k + 2) < 2 ^ 31" using k2 by (intro power_strict_increasing) auto
    moreover have "(- (2 ^ 31) :: int) \<le> 2 ^ (k + 2)" by (rule order_trans [of _ 0]) simp_all
    ultimately show ?thesis by (simp only: signed_of_int) (simp add: signed_take_bit_int_eq_self)
  qed
  then have sz: "sint (roundUpPower2 (word_of_int n) * 4 :: u32) = 2 ^ (k + 2)" unfolding four .
  let ?m = "\<lparr>ms_Log2LineSize = l, ms_nEntries = n, ms_nSubEntries = nsub, ms_nFreeEntries = n,
     ms_MSHRSize = 2 ^ (k + 2), ms_entry = replicate (nat (2 ^ (k + 2))) \<lparr>me_cc = cc_create pr, me_nUse = 0\<rparr>,
     ms_avgUse = [], ms_avgSubUse = [], ms_nStallConflict = 0\<rparr>"
  have made: "ms_create pr n lineSize nsub = Inr ?m"
    using l n line unfolding ms_create_def l bind_res_simps sz Let_def by simp
  have "cc_holds [] (cc_create pr)" by (simp add: cc_holds_def cc_create_def)
  moreover have "\<exists>j < 31. (2 :: int) ^ (k + 2) = 2 ^ j" using k2 by blast
  ultimately have "ms_inv (\<lambda>_. []) ?m"
    using n by (auto simp: ms_inv_def ms_shape_def ms_slot_ok_def sum_list_replicate simp del: power_add)
  with made show ?thesis using that by (simp add: ms_use_def)
qed

section \<open>The cache keeps its requests\<close>

text \<open>
  \<open>mc_inv n ad W c\<close>: each entry in use serves exactly one request, those that wait behind it have its entry as well, every queued request
  waits or was released, and the free entries are those that no outstanding request holds.
\<close>

definition mc_inv :: "int \<Rightarrow> (nat \<Rightarrow> addr) \<Rightarrow> (nat \<Rightarrow> nat list) \<Rightarrow> ms_cache \<Rightarrow> bool" where
  "mc_inv n ad W c \<longleftrightarrow> (let m = mc_mshr c; pos = (\<lambda>r. ms_calcEntry m (ad r)) in
    ms_inv W m \<and> ms_nEntries m = n \<and> distinct (mc_serv c) \<and> inj_on pos (set (mc_serv c)) \<and>
    (\<forall>i < length (ms_entry m). (ms_use m i \<noteq> 0) = (i \<in> pos ` set (mc_serv c))) \<and>
    (\<forall>i < length (ms_entry m). \<forall>q \<in> set (W i). pos q = i) \<and>
    mset (mc_queued c) = mset (mc_released c) + ms_waiting W m \<and>
    ms_nFreeEntries m = n - int (size (mc_outstanding c)) \<and> 0 \<le> ms_nFreeEntries m)"

lemma mc_invD:
  assumes "mc_inv n ad W c"
  shows "ms_inv W (mc_mshr c)" "ms_nEntries (mc_mshr c) = n" "distinct (mc_serv c)"
    "inj_on (\<lambda>r. ms_calcEntry (mc_mshr c) (ad r)) (set (mc_serv c))"
    "i < length (ms_entry (mc_mshr c)) \<Longrightarrow>
      (ms_use (mc_mshr c) i \<noteq> 0) = (i \<in> (\<lambda>r. ms_calcEntry (mc_mshr c) (ad r)) ` set (mc_serv c))"
    "i < length (ms_entry (mc_mshr c)) \<Longrightarrow> q \<in> set (W i) \<Longrightarrow> ms_calcEntry (mc_mshr c) (ad q) = i"
    "mset (mc_queued c) = mset (mc_released c) + ms_waiting W (mc_mshr c)"
    "ms_nFreeEntries (mc_mshr c) = n - int (size (mc_outstanding c))" "0 \<le> ms_nFreeEntries (mc_mshr c)"
  using assms unfolding mc_inv_def Let_def by blast+

lemma mc_invI:
  assumes "ms_inv W m" and "ms_nEntries m = n" and "distinct serv" and "inj_on (\<lambda>r. ms_calcEntry m (ad r)) (set serv)"
    and "\<And>i. i < length (ms_entry m) \<Longrightarrow> (ms_use m i \<noteq> 0) = (i \<in> (\<lambda>r. ms_calcEntry m (ad r)) ` set serv)"
    and "\<And>i q. i < length (ms_entry m) \<Longrightarrow> q \<in> set (W i) \<Longrightarrow> ms_calcEntry m (ad q) = i"
    and "mset qs = mset rs + ms_waiting W m"
    and "ms_nFreeEntries m = n - int (length serv) - int (size (ms_waiting W m))" and "0 \<le> ms_nFreeEntries m"
  shows "mc_inv n ad W \<lparr>mc_mshr = m, mc_serv = serv, mc_queued = qs, mc_released = rs\<rparr>"
  using assms unfolding mc_inv_def Let_def mc_outstanding_def by simp

lemma mc_inv_waiting: "mc_inv n ad W c \<Longrightarrow> mc_outstanding c = mset (mc_serv c) + ms_waiting W (mc_mshr c)"
  by (simp add: mc_inv_def Let_def mc_outstanding_def)

lemma mc_inv_free: "mc_inv n ad W c \<Longrightarrow>
    ms_nFreeEntries (mc_mshr c) = n - int (length (mc_serv c)) - int (size (ms_waiting W (mc_mshr c)))"
  using mc_inv_waiting [of n ad W c] mc_invD(8) [of n ad W c] by simp

lemma ms_waiting_dims: "ms_dims m' = ms_dims m \<Longrightarrow> ms_waiting W m' = ms_waiting W m"
  by (simp add: ms_dims_def ms_waiting_def)

lemma mc_inv_note_issued:
  assumes inv: "mc_inv n ad W c" and new: "r \<notin> set (mc_serv c)" and idle: "ms_use (mc_mshr c) (ms_calcEntry (mc_mshr c) (ad r)) = 0"
    and free: "0 < ms_nFreeEntries (mc_mshr c)"
    and m': "ms_inv W m'" "ms_dims m' = ms_dims (mc_mshr c)" "ms_nFreeEntries m' = ms_nFreeEntries (mc_mshr c) - 1"
    and use: "\<And>j. (ms_use m' j \<noteq> 0) = (j = ms_calcEntry (mc_mshr c) (ad r) \<or> ms_use (mc_mshr c) j \<noteq> 0)"
  shows "mc_inv n ad W (mc_note r c (MS_issued, m'))"
proof -
  let ?m = "mc_mshr c" and ?pos = "\<lambda>r. ms_calcEntry (mc_mshr c) (ad r)"
  note D = mc_invD [OF inv]
  have len: "length (ms_entry m') = length (ms_entry ?m)" "ms_nEntries m' = ms_nEntries ?m" using m'(2) by (simp_all add: ms_dims_def)
  have "?pos r \<notin> ?pos ` set (mc_serv c)" using D(5) [OF ms_slot(1) [OF D(1), of "ad r"]] idle by simp
  then have inj: "inj_on ?pos (insert r (set (mc_serv c)))" using D(4) new by (simp add: inj_on_insert)
  have "mc_inv n ad W \<lparr>mc_mshr = m', mc_serv = r # mc_serv c, mc_queued = mc_queued c, mc_released = mc_released c\<rparr>"
  proof (rule mc_invI [OF m'(1)])
    show "inj_on (\<lambda>r. ms_calcEntry m' (ad r)) (set (r # mc_serv c))" using inj by (simp add: ms_dims_calc [OF m'(2)])
    show "(ms_use m' i \<noteq> 0) = (i \<in> (\<lambda>r. ms_calcEntry m' (ad r)) ` set (r # mc_serv c))" if "i < length (ms_entry m')" for i
      using D(5) that by (simp add: ms_dims_calc [OF m'(2)] use len)
    show "ms_calcEntry m' (ad q) = i" if "i < length (ms_entry m')" "q \<in> set (W i)" for i q
      using D(6) that by (simp add: ms_dims_calc [OF m'(2)] len)
  qed (use D(2,3,7) new free m'(3) mc_inv_free [OF inv] in \<open>simp_all add: len ms_waiting_dims [OF m'(2)]\<close>)
  then show ?thesis by (cases c) (simp add: mc_note_def)
qed

lemma mc_inv_note_queued:
  assumes inv: "mc_inv n ad W c" and i: "i = ms_calcEntry (mc_mshr c) (ad r)" and free: "0 < ms_nFreeEntries (mc_mshr c)"
    and m': "ms_inv (W(i := ws)) m'" "mset ws = add_mset r (mset (W i))" "ms_dims m' = ms_dims (mc_mshr c)"
      "ms_nFreeEntries m' = ms_nFreeEntries (mc_mshr c) - 1" "\<And>j. (ms_use m' j = 0) = (ms_use (mc_mshr c) j = 0)"
  shows "mc_inv n ad (W(i := ws)) (mc_note r c (MS_queued, m'))"
proof -
  let ?m = "mc_mshr c"
  note D = mc_invD [OF inv]
  have len: "length (ms_entry m') = length (ms_entry ?m)" "ms_nEntries m' = ms_nEntries ?m" using m'(3) by (simp_all add: ms_dims_def)
  have pos: "i < length (ms_entry ?m)" unfolding i by (rule ms_slot(1) [OF D(1)])
  have w: "ms_waiting (W(i := ws)) m' = add_mset r (ms_waiting W ?m)"
    using ms_waiting_update [OF pos len(1), of W ws] m'(2) by simp
  have set: "set ws = insert r (set (W i))" using m'(2) by (metis set_mset_add_mset_insert set_mset_mset)
  have "mc_inv n ad (W(i := ws)) \<lparr>mc_mshr = m', mc_serv = mc_serv c, mc_queued = r # mc_queued c, mc_released = mc_released c\<rparr>"
  proof (rule mc_invI [OF m'(1)])
    show "inj_on (\<lambda>r. ms_calcEntry m' (ad r)) (set (mc_serv c))" using D(4) by (simp add: ms_dims_calc [OF m'(3)])
    show "(ms_use m' j \<noteq> 0) = (j \<in> (\<lambda>r. ms_calcEntry m' (ad r)) ` set (mc_serv c))" if "j < length (ms_entry m')" for j
      using D(5) that by (simp add: ms_dims_calc [OF m'(3)] m'(5) len)
    show "ms_calcEntry m' (ad q) = j" if "j < length (ms_entry m')" "q \<in> set ((W(i := ws)) j)" for j q
      using D(6) [of j q] that by (auto simp: ms_dims_calc [OF m'(3)] len set i split: if_splits)
  qed (use D(2,3,7) free m'(4) mc_inv_free [OF inv] in \<open>simp_all add: len w\<close>)
  then show ?thesis by (cases c) (simp add: mc_note_def)
qed

lemma mc_request_ok:
  assumes inv: "mc_inv n ad W c" and new: "r \<notin># mc_outstanding c" and few: "int (size (mc_outstanding c)) < n"
  shows "\<exists>out W'. ms_doReq (ad r) r prefetch False stats (mc_mshr c) = Inr out \<and> mc_inv n ad W' (mc_note r c out)"
    and "\<exists>out. ms_tryPrefetch (ad r) elsewhere stats (mc_mshr c) = Inr out \<and> mc_inv n ad W (mc_note r c out)"
proof -
  let ?m = "mc_mshr c" and ?i = "ms_calcEntry (mc_mshr c) (ad r)"
  have i: "ms_inv W ?m" using inv by (simp add: mc_inv_def Let_def)
  have free: "0 < ms_nFreeEntries ?m" using inv few by (simp add: mc_inv_def Let_def)
  have serv: "r \<notin> set (mc_serv c)" and wait: "r \<notin># ms_waiting W ?m" using new mc_inv_waiting [OF inv] by simp_all
  note issue = ms_canIssue_ok [OF i, of "ad r"]
  have block: "\<exists>m'. ms_blockEntry (ad r) False stats ?m = Inr m' \<and> mc_inv n ad W (mc_note r c (MS_issued, m'))"
    if idle: "ms_use ?m ?i = 0"
  proof -
    obtain m' where m': "ms_blockEntry (ad r) False stats ?m = Inr m'" "ms_inv W m'" "ms_dims m' = ms_dims ?m"
      "ms_nFreeEntries m' = ms_nFreeEntries ?m - 1" "\<And>j. ms_use m' j = (if j = ?i then 1 else ms_use ?m j)"
      using ms_block_ok [OF i free idle] by metis
    have "(ms_use m' j \<noteq> 0) = (j = ?i \<or> ms_use ?m j \<noteq> 0)" for j by (simp add: m'(5))
    from mc_inv_note_issued [OF inv serv idle free m'(2-4) this] show ?thesis using m'(1) by blast
  qed
  have drop: "mc_inv n ad W (mc_note r c (MS_dropped, ?m))" using inv by (simp add: mc_note_def)
  show "\<exists>out. ms_tryPrefetch (ad r) elsewhere stats ?m = Inr out \<and> mc_inv n ad W (mc_note r c out)"
    using block drop by (cases "ms_use ?m ?i = 0 \<and> \<not> elsewhere") (auto simp: ms_tryPrefetch_def issue bind_res_Inr_iff)
  show "\<exists>out W'. ms_doReq (ad r) r prefetch False stats ?m = Inr out \<and> mc_inv n ad W' (mc_note r c out)"
  proof (cases "ms_use ?m ?i = 0")
    case True
    then show ?thesis using block by (auto simp: ms_doReq_def issue bind_res_Inr_iff)
  next
    case busy: False
    show ?thesis
    proof (cases prefetch)
      case True
      then show ?thesis using busy drop by (auto simp: ms_doReq_def issue)
    next
      case False
      have "r \<notin> set (W ?i)" using wait ms_waiting_member [OF ms_slot(1) [OF i]] by blast
      from ms_add_ok [OF i free busy this] obtain m' ws where m': "ms_addEntry (ad r) r True stats ?m = Inr m'"
        "ms_inv (W(?i := ws)) m'" "mset ws = add_mset r (mset (W ?i))" "ms_dims m' = ms_dims ?m"
        "ms_nFreeEntries m' = ms_nFreeEntries ?m - 1" "\<And>j. (ms_use m' j = 0) = (ms_use ?m j = 0)" by metis
      from mc_inv_note_queued [OF inv refl free m'(2-6)] show ?thesis
        using False busy m'(1) by (auto simp: ms_doReq_def issue)
    qed
  qed
qed

lemma mc_again_ok:
  assumes inv: "mc_inv n ad W c" and r: "r \<in> set (mc_serv c)"
  shows "ms_doReq (ad r) r False True stats (mc_mshr c) = Inr (MS_issued, mc_mshr c)"
proof -
  let ?i = "ms_calcEntry (mc_mshr c) (ad r)"
  have i: "ms_inv W (mc_mshr c)" using inv by (simp add: mc_inv_def Let_def)
  have "ms_use (mc_mshr c) ?i \<noteq> 0" using inv ms_slot(1) [OF i] r by (simp add: mc_inv_def Let_def)
  then show ?thesis by (simp add: ms_doReq_def ms_canIssue_ok [OF i])
qed

lemma mc_finish_ok:
  assumes inv: "mc_inv n ad W c" and r: "r \<in> set (mc_serv c)"
  shows "\<exists>W' c'. mc_finish ad r c = Inr c' \<and> mc_inv n ad W' c'"
proof -
  let ?m = "mc_mshr c" and ?pos = "\<lambda>r. ms_calcEntry (mc_mshr c) (ad r)" and ?S = "set (mc_serv c)"
  let ?i = "?pos r" and ?serv = "remove1 r (mc_serv c)"
  note D = mc_invD [OF inv]
  note lt = ms_slot(1) [OF D(1), of "ad r"]
  have busy: "ms_use ?m ?i \<noteq> 0" using D(5) [OF lt] r by simp
  obtain m' where run: "ms_retire (ad r) ?m = Inr (case W ?i of [] \<Rightarrow> None | c # ws \<Rightarrow> Some c, m')"
    and m': "ms_inv (W(?i := tl (W ?i))) m'" "ms_dims m' = ms_dims ?m" "ms_nFreeEntries m' = ms_nFreeEntries ?m + 1"
      "\<And>j. (ms_use m' j = 0) = (if j = ?i then W j = [] else ms_use ?m j = 0)"
    using ms_retire_ok [OF D(1) busy D(9)] by metis
  have len: "length (ms_entry m') = length (ms_entry ?m)" "ms_nEntries m' = ms_nEntries ?m" using m'(2) by (simp_all add: ms_dims_def)
  have calc: "ms_calcEntry m' a = ms_calcEntry ?m a" for a by (rule ms_dims_calc [OF m'(2)])
  have S: "set ?serv = ?S - {r}" and dS: "distinct ?serv" using D(3) by simp_all
  have "length (mc_serv c) \<noteq> 0" using r by auto
  then have lS: "int (length ?serv) = int (length (mc_serv c)) - 1" using r by (simp add: length_remove1 of_nat_diff Suc_le_eq)
  have off: "x \<in> ?S - {r} \<Longrightarrow> ?pos x \<noteq> ?i" for x using D(4) r by (auto simp: inj_on_def)
  have others: "(j \<in> ?pos ` (?S - {r})) = (j \<noteq> ?i \<and> j \<in> ?pos ` ?S)" for j using off by auto
  note w = ms_waiting_update [OF lt len(1), of W "tl (W ?i)"]
  have at: "ms_calcEntry m' (ad q) = j" if "j < length (ms_entry m')" "q \<in> set ((W(?i := tl (W ?i))) j)" for j q
    using D(6) [of j q] that by (cases "W ?i") (auto simp: calc len split: if_splits)
  show ?thesis
  proof (cases "W ?i")
    case Nil
    have "mc_inv n ad (W(?i := tl (W ?i))) \<lparr>mc_mshr = m', mc_serv = ?serv, mc_queued = mc_queued c, mc_released = mc_released c\<rparr>"
    proof (rule mc_invI [OF m'(1) _ dS _ _ at])
      show "inj_on (\<lambda>r. ms_calcEntry m' (ad r)) (set ?serv)" using D(4) by (simp add: calc S inj_on_diff)
      show "(ms_use m' j \<noteq> 0) = (j \<in> (\<lambda>r. ms_calcEntry m' (ad r)) ` set ?serv)" if "j < length (ms_entry m')" for j
        using D(5) [of j] that Nil by (simp add: calc S others m'(4) len)
      show "mset (mc_queued c) = mset (mc_released c) + ms_waiting (W(?i := tl (W ?i))) m'" using D(7) w Nil by simp
      show "ms_nFreeEntries m' = n - int (length ?serv) - int (size (ms_waiting (W(?i := tl (W ?i))) m'))"
        using m'(3) mc_inv_free [OF inv] lS w Nil by simp
    qed (use D(2,9) m'(3) len in simp_all)
    then show ?thesis using run Nil by (intro exI [of _ "W(?i := tl (W ?i))"] exI conjI) (auto simp: mc_finish_def Let_def)
  next
    case (Cons q ws)
    have q: "?pos q = ?i" using D(6) [OF lt, of q] Cons by simp
    have qS: "q \<notin> set ?serv" using off q S by auto
    have use': "ms_use m' (ms_calcEntry m' (ad q)) \<noteq> 0" using m'(4) [of ?i] Cons by (simp add: calc q)
    have go: "ms_doReq (ad q) q False True False m' = Inr (MS_issued, m')"
      using use' by (simp add: ms_doReq_def ms_canIssue_ok [OF m'(1)])
    have ww: "ms_waiting W ?m = add_mset q (ms_waiting (W(?i := tl (W ?i))) m')" using w Cons by simp
    have "mc_inv n ad (W(?i := tl (W ?i)))
        \<lparr>mc_mshr = m', mc_serv = q # ?serv, mc_queued = mc_queued c, mc_released = q # mc_released c\<rparr>"
    proof (rule mc_invI [OF m'(1) _ _ _ _ at])
      show "distinct (q # ?serv)" using dS qS by simp
      show "inj_on (\<lambda>r. ms_calcEntry m' (ad r)) (set (q # ?serv))"
      proof -
        have "inj_on ?pos (?S - {r})" by (rule inj_on_diff [OF D(4)])
        moreover have "?pos q \<notin> ?pos ` (?S - {r})" using others [of ?i] q by simp
        ultimately show ?thesis by (simp only: calc S list.set inj_on_insert) blast
      qed
      show "(ms_use m' j \<noteq> 0) = (j \<in> (\<lambda>r. ms_calcEntry m' (ad r)) ` set (q # ?serv))" if "j < length (ms_entry m')" for j
        using D(5) [of j] that Cons by (simp add: calc S others m'(4) len q)
      show "mset (mc_queued c) = mset (q # mc_released c) + ms_waiting (W(?i := tl (W ?i))) m'" using D(7) ww by simp
      show "ms_nFreeEntries m' = n - int (length (q # ?serv)) - int (size (ms_waiting (W(?i := tl (W ?i))) m'))"
        using m'(3) mc_inv_free [OF inv] lS ww by simp
    qed (use D(2,9) m'(3) len in simp_all)
    then show ?thesis
      using run Cons go by (intro exI [of _ "W(?i := tl (W ?i))"] exI conjI) (auto simp: mc_finish_def mc_note_def Let_def)
  qed
qed

lemma mc_step_ok:
  assumes inv: "mc_inv n ad W c" and legal: "mc_legal n op c"
  shows "\<exists>W' c'. mc_step ad op c = Inr c' \<and> mc_inv n ad W' c'"
proof (cases op)
  case (MS_req r prefetch stats)
  then show ?thesis using mc_request_ok(1) [OF inv, of r prefetch stats] legal by auto
next
  case (MS_prefetch r elsewhere stats)
  then show ?thesis using mc_request_ok(2) [OF inv, of r elsewhere stats] legal by auto
next
  case (MS_again r)
  then show ?thesis using mc_again_ok [OF inv, of r False] inv legal by auto
next
  case (MS_finish r)
  then show ?thesis using mc_finish_ok [OF inv, of r] legal by simp
qed

lemma mc_run_ok: "mc_inv n ad W c \<Longrightarrow> mc_fair n ad ops c \<Longrightarrow> \<exists>W' c'. mc_run ad ops c = Inr c' \<and> mc_inv n ad W' c'"
proof (induction ops arbitrary: W c)
  case Nil
  then show ?case by auto
next
  case (Cons op ops)
  then obtain W1 c1 where c1: "mc_step ad op c = Inr c1" "mc_inv n ad W1 c1" using mc_step_ok [of n ad W c op] by auto
  from Cons.IH [OF c1(2)] Cons.prems(2) c1(1) show ?case by simp
qed

text \<open>
  C8. No miss is lost. Let a cache use new miss status registers as \<open>CCache\<close> does, and let the requests be legal: a request is not sent
  again while it is outstanding, at most as many as the registers have entries are outstanding at a time, and only a request in service is tried again or
  finished. Then no assertion of the registers fails; no two requests in service share an entry; every queued demand is still
  waiting or was released, into service, exactly once; and nothing waits once no request is in service.
\<close>

theorem ms_no_lost_miss:
  assumes "0 < n" "n < 2 ^ 20" and "0 < lineSize" "lineSize < 2 ^ 15"
  shows "\<exists>m. ms_create pr n lineSize nsub = Inr m \<and>
    (mc_fair n ad ops (mc_start m) \<longrightarrow>
      (\<exists>c. mc_run ad ops (mc_start m) = Inr c \<and>
        distinct (mc_serv c) \<and> inj_on (\<lambda>r. ms_calcEntry (mc_mshr c) (ad r)) (set (mc_serv c)) \<and>
        mset (mc_released c) \<subseteq># mset (mc_queued c) \<and>
        ms_nFreeEntries (mc_mshr c) = n - int (size (mc_outstanding c)) \<and>
        (mc_serv c = [] \<longrightarrow> mset (mc_released c) = mset (mc_queued c))))"
proof -
  obtain m where m: "ms_create pr n lineSize nsub = Inr m" "ms_inv (\<lambda>_. []) m" "ms_nFreeEntries m = n" "ms_nEntries m = n"
    and idle: "\<And>i. i < length (ms_entry m) \<Longrightarrow> ms_use m i = 0"
    by (rule ms_create_inv [OF assms, where pr = pr and nsub = nsub]) blast
  have start: "mc_inv n ad (\<lambda>_. []) (mc_start m)"
    unfolding mc_start_def by (rule mc_invI [OF m(2,4)]) (use m(3) idle assms(1) in \<open>simp_all add: ms_waiting_def\<close>)
  have "\<exists>c. mc_run ad ops (mc_start m) = Inr c \<and>
        distinct (mc_serv c) \<and> inj_on (\<lambda>r. ms_calcEntry (mc_mshr c) (ad r)) (set (mc_serv c)) \<and>
        mset (mc_released c) \<subseteq># mset (mc_queued c) \<and>
        ms_nFreeEntries (mc_mshr c) = n - int (size (mc_outstanding c)) \<and>
        (mc_serv c = [] \<longrightarrow> mset (mc_released c) = mset (mc_queued c))" if fair: "mc_fair n ad ops (mc_start m)"
  proof -
    obtain W c where c: "mc_run ad ops (mc_start m) = Inr c" "mc_inv n ad W c" using mc_run_ok [OF start fair] by blast
    note D = mc_invD [OF c(2)]
    have "mset (mc_released c) = mset (mc_queued c)" if none: "mc_serv c = []"
    proof -
      have "W i = []" if i: "i < length (ms_entry (mc_mshr c))" for i
      proof -
        have "ms_use (mc_mshr c) i = 0" using D(5) [OF i] none by simp
        moreover have "ms_slot_ok (W i) (ms_entry (mc_mshr c) ! i)" using D(1) i by (simp add: ms_inv_def)
        ultimately show ?thesis by (simp add: ms_slot_ok_def ms_use_def)
      qed
      then show ?thesis using D(7) by (simp add: ms_waiting_def)
    qed
    then show ?thesis using c(1) D by (intro exI [of _ c]) simp
  qed
  then show ?thesis using m(1) by blast
qed

text \<open>Two demands and a prefetch for one line; the first demand ends, and the second takes its place.\<close>

definition ms_example :: mshr where
  "ms_example = \<lparr>ms_Log2LineSize = 6, ms_nEntries = 4, ms_nSubEntries = 2, ms_nFreeEntries = 4, ms_MSHRSize = 16,
     ms_entry = replicate 16 \<lparr>me_cc = cc_create (\<lambda>_. 0), me_nUse = 0\<rparr>, ms_avgUse = [], ms_avgSubUse = [], ms_nStallConflict = 0\<rparr>"

lemma ms_example_created: "ms_create (\<lambda>_. 0) 4 64 2 = Inr ms_example"
proof -
  have "roundUpPower2 64 = 64" "roundUpPower2 4 = 4" by code_simp+
  moreover have "log2i_loop 64 1 0 = Some 6" using log2i_loop_power [of 0 6 0] by simp
  ultimately show ?thesis by (simp add: ms_create_def log2i_def ms_example_def)
qed

theorem ms_no_lost_miss_witness:
  "\<exists>m c. ms_create (\<lambda>_. 0) 4 64 2 = Inr m \<and>
    mc_run (\<lambda>_. 64) [MS_req 1 False True, MS_req 2 False True, MS_req 3 True True, MS_finish 1, MS_again 2] (mc_start m) = Inr c \<and>
    mc_serv c = [2] \<and> mset (mc_released c) \<subseteq># mset (mc_queued c) \<and> ms_nFreeEntries (mc_mshr c) = 3"
proof -
  let ?ops = "[MS_req 1 False True, MS_req 2 False True, MS_req 3 True True, MS_finish 1, MS_again 2]"
  have e: "mc_fair 4 (\<lambda>_. 64) ?ops (mc_start ms_example) \<and>
    (case mc_run (\<lambda>_. 64) ?ops (mc_start ms_example) of Inl e \<Rightarrow> False
     | Inr c \<Rightarrow> mc_serv c = [2] \<and> mc_queued c = [2] \<and> mc_released c = [2])"
    by code_simp
  have "\<exists>m. ms_create (\<lambda>_. 0) 4 64 2 = Inr m \<and>
    (mc_fair 4 (\<lambda>_. 64) ?ops (mc_start m) \<longrightarrow>
      (\<exists>c. mc_run (\<lambda>_. 64) ?ops (mc_start m) = Inr c \<and>
        distinct (mc_serv c) \<and> inj_on (\<lambda>r. ms_calcEntry (mc_mshr c) ((\<lambda>_. 64) r)) (set (mc_serv c)) \<and>
        mset (mc_released c) \<subseteq># mset (mc_queued c) \<and>
        ms_nFreeEntries (mc_mshr c) = 4 - int (size (mc_outstanding c)) \<and>
        (mc_serv c = [] \<longrightarrow> mset (mc_released c) = mset (mc_queued c))))"
    by (rule ms_no_lost_miss) simp_all
  then obtain m where m: "ms_create (\<lambda>_. 0) 4 64 2 = Inr m"
    and go: "mc_fair 4 (\<lambda>_. 64) ?ops (mc_start m) \<longrightarrow>
      (\<exists>c. mc_run (\<lambda>_. 64) ?ops (mc_start m) = Inr c \<and> mset (mc_released c) \<subseteq># mset (mc_queued c) \<and>
        ms_nFreeEntries (mc_mshr c) = 4 - int (size (mc_outstanding c)))"
    by blast
  have fair: "mc_fair 4 (\<lambda>_. 64) ?ops (mc_start m)" using e m ms_example_created by (simp del: mc_fair.simps mc_run.simps)
  obtain c where c: "mc_run (\<lambda>_. 64) ?ops (mc_start m) = Inr c" "mset (mc_released c) \<subseteq># mset (mc_queued c)"
      "ms_nFreeEntries (mc_mshr c) = 4 - int (size (mc_outstanding c))"
    using go fair by blast
  have s: "mc_serv c = [2]" "mc_queued c = [2]" "mc_released c = [2]" using e m ms_example_created c(1) by (simp_all del: mc_fair.simps mc_run.simps)
  then have "ms_nFreeEntries (mc_mshr c) = 3" using c(3) by (simp add: mc_outstanding_def)
  then show ?thesis using m c(1,2) s(1) by blast
qed

text \<open>
  An \<open>MSHRentry\<close> runs out for good: \<open>retire\<close> does not give the sub-entry back.
\<close>

lemma my_retire_keeps_sub_entries: "my_nFreeSEntries (snd (snd (my_retire e))) = my_nFreeSEntries e"
  by (simp add: my_retire_def split: option.split)

end
