(* ===== verification/Cache_Geometry.thy ===== *)
theory Cache_Geometry
  imports Snippets
begin

text \<open>
  \<open>core/cachecore.hpp\<close>: the part that every cache array shares. The geometry of
  \<open>CacheGeneric\<close> (sizes, masks, the split of an address into tag and set), with its
  32-bit arithmetic and the divisions of the constructor as written; the line state
  \<open>StateGeneric\<close>; and the ways a line is filled, over the virtual functions \<open>findLine\<close> and
  \<open>findLine2Replace\<close> as arguments. The facts: for power-of-two sizes and any associativity
  that fits, every set of lines lies inside the array, sets of different indices do not overlap, and
  the address a tag is turned back to is the start of its line.
\<close>

section \<open>Geometry\<close>

record cache_geom =
  cg_size :: u32
  cg_lineSize :: u32
  cg_addrUnit :: u32
  cg_assoc :: u32
  cg_log2Assoc :: nat
  cg_log2AddrLs :: nat
  cg_maskAssoc :: u64
  cg_sets :: u32
  cg_maskSets :: u32
  cg_log2Sets :: nat
  cg_numLines :: u32
  cg_xorIndex :: bool

definition log2i_res :: "u32 \<Rightarrow> (nat \<Rightarrow> 'a res) \<Rightarrow> 'a res" where
  "log2i_res n k =
    bind_res (log2i n) (\<lambda>r. case r of None \<Rightarrow> Inl Diverged | Some i \<Rightarrow> k i)"

definition div_res :: "u32 \<Rightarrow> u32 \<Rightarrow> (u32 \<Rightarrow> 'a res) \<Rightarrow> 'a res" where
  "div_res x y k = (if y = 0 then Inl Div_by_zero else k (x div y))"

definition cg_create :: "u32 \<Rightarrow> u32 \<Rightarrow> u32 \<Rightarrow> u32 \<Rightarrow> bool \<Rightarrow> cache_geom res" where
  "cg_create s a b u xr =
    log2i_res a (\<lambda>log2Assoc.
    div_res b u (\<lambda>units.
    log2i_res units (\<lambda>log2AddrLs.
    div_res s b (\<lambda>lines.
    div_res (roundUpPower2 lines) (roundUpPower2 a) (\<lambda>sets.
    log2i_res sets (\<lambda>log2Sets.
    div_res (roundUpPower2 a) a (\<lambda>fill.
    div_res (roundUpPower2 fill * s) b (\<lambda>numLines.
      Inr \<lparr>cg_size = s, cg_lineSize = b, cg_addrUnit = u, cg_assoc = a,
           cg_log2Assoc = log2Assoc, cg_log2AddrLs = log2AddrLs,
           cg_maskAssoc = ucast (roundUpPower2 a - 1),
           cg_sets = sets, cg_maskSets = sets - 1, cg_log2Sets = log2Sets,
           cg_numLines = numLines, cg_xorIndex = xr\<rparr>))))))))"

definition calcTag :: "cache_geom \<Rightarrow> addr \<Rightarrow> addr" where
  "calcTag g a = drop_bit (cg_log2AddrLs g) a"

definition calcIndex4Tag :: "cache_geom \<Rightarrow> addr \<Rightarrow> addr" where
  "calcIndex4Tag g t =
    (let set = (if cg_xorIndex g
                then let t = (t XOR drop_bit 5 t) XOR drop_bit (cg_log2Sets g) t
                     in t AND ucast (cg_maskSets g)
                else t AND ucast (cg_maskSets g))
     in push_bit (cg_log2Assoc g) set)"

definition calcAddr4Tag :: "cache_geom \<Rightarrow> addr \<Rightarrow> addr" where
  "calcAddr4Tag g t = push_bit (cg_log2AddrLs g) t"

text \<open>The position in the array of the first line of the set of an address, and the number of
  lines of a set.\<close>

definition set_index :: "cache_geom \<Rightarrow> addr \<Rightarrow> nat" where
  "set_index g a = unat (calcIndex4Tag g (calcTag g a))"

abbreviation ways :: "cache_geom \<Rightarrow> nat" where
  "ways g \<equiv> unat (cg_assoc g)"

section \<open>Lines\<close>

text \<open>\<open>StateGeneric\<close> with the two fields that \<open>CacheLine\<close> adds.\<close>

record cache_line =
  li_tag :: addr
  li_prefetch :: bool
  li_pc :: addr
  li_sign :: addr
  li_degree :: u8
  li_nDemand :: int
  li_recent :: bool
  li_rrip :: u8

text \<open>A concrete line, for the examples.\<close>

definition line_blank :: cache_line where
  "line_blank = \<lparr>li_tag = 0, li_prefetch = False, li_pc = 0, li_sign = 0, li_degree = 0,
     li_nDemand = 0, li_recent = False, li_rrip = 0\<rparr>"

definition li_isValid :: "'a cache_line_scheme \<Rightarrow> bool" where
  "li_isValid l \<longleftrightarrow> li_tag l \<noteq> 0"

definition li_setTag :: "addr \<Rightarrow> 'a cache_line_scheme \<Rightarrow> 'a cache_line_scheme res" where
  "li_setTag a l = assert_res (a \<noteq> 0) (Inr (l\<lparr>li_tag := a, li_nDemand := 0\<rparr>))"

definition li_clearTag :: "'a cache_line_scheme \<Rightarrow> 'a cache_line_scheme" where
  "li_clearTag l = l\<lparr>li_tag := 0, li_nDemand := 0\<rparr>"

definition li_initialize :: "'a cache_line_scheme \<Rightarrow> 'a cache_line_scheme" where
  "li_initialize l = li_clearTag (l\<lparr>li_prefetch := False\<rparr>)"

definition li_invalidate :: "'a cache_line_scheme \<Rightarrow> 'a cache_line_scheme" where
  "li_invalidate l =
    (li_clearTag l)\<lparr>li_pc := 0, li_sign := 0, li_degree := 0, li_prefetch := False\<rparr>"

definition li_clearPrefetch :: "'a cache_line_scheme \<Rightarrow> 'a cache_line_scheme" where
  "li_clearPrefetch l = l\<lparr>li_prefetch := False, li_sign := 0, li_degree := 0\<rparr>"

definition li_setPrefetch :: "addr \<Rightarrow> u8 \<Rightarrow> 'a cache_line_scheme \<Rightarrow> 'a cache_line_scheme" where
  "li_setPrefetch sign degree l = l\<lparr>li_prefetch := True, li_sign := sign, li_degree := degree\<rparr>"

definition li_setPC :: "addr \<Rightarrow> 'a cache_line_scheme \<Rightarrow> 'a cache_line_scheme" where
  "li_setPC pc l = l\<lparr>li_pc := pc\<rparr>"

definition li_set_prefetch :: "bool \<Rightarrow> 'a cache_line_scheme \<Rightarrow> 'a cache_line_scheme" where
  "li_set_prefetch v l = l\<lparr>li_prefetch := v\<rparr>"

definition li_incnDemand :: "'a cache_line_scheme \<Rightarrow> 'a cache_line_scheme" where
  "li_incnDemand l = l\<lparr>li_nDemand := li_nDemand l + 1\<rparr>"

section \<open>The array\<close>

text \<open>
  The part of an array that all classes have: the lines \<open>mem\<close>, of which the pointer array
  \<open>content\<close> holds the numbers, and the debug flag of the public interface. The last cell of
  \<open>content\<close> is never written by the constructors and is not part of the list.
\<close>

record 'a cache_array =
  ca_geom :: cache_geom
  ca_mem :: "nat \<Rightarrow> 'a cache_line_scheme"
  ca_content :: "nat list"
  ca_goodInterface :: bool

definition ca_update ::
  "nat \<Rightarrow> ('a cache_line_scheme \<Rightarrow> 'a cache_line_scheme) \<Rightarrow>
    ('a, 'b) cache_array_scheme \<Rightarrow> ('a, 'b) cache_array_scheme" where
  "ca_update i f c = c\<lparr>ca_mem := (ca_mem c)(i := f (ca_mem c i))\<rparr>"

definition ca_getPLine :: "u32 \<Rightarrow> ('a, 'b) cache_array_scheme \<Rightarrow> nat res" where
  "ca_getPLine l c =
    assert_res (l < cg_numLines (ca_geom c)) (nth_res (ca_content c) (unat l) Inr)"

text \<open>The line an array starts with, made from an arbitrary one.\<close>

definition li_zero :: "'a cache_line_scheme \<Rightarrow> 'a cache_line_scheme" where
  "li_zero l = li_invalidate (li_initialize l)"

definition ca_setTag ::
  "nat \<Rightarrow> addr \<Rightarrow> ('a, 'b) cache_array_scheme \<Rightarrow> ('a, 'b) cache_array_scheme res" where
  "ca_setTag i t c =
    bind_res (li_setTag t (ca_mem c i)) (\<lambda>l. Inr (ca_update i (\<lambda>_. l) c))"

type_synonym ('c, 'r) line_op = "'c \<Rightarrow> ('r \<times> 'c) res"

text \<open>\<open>findLineDebug\<close>, \<open>findLineNoEffect\<close>, \<open>readLine\<close> and \<open>writeLine\<close>: a lookup between
  two settings of the debug flag.\<close>

definition ca_guarded ::
  "(('a, 'b) cache_array_scheme, nat option) line_op \<Rightarrow>
    (('a, 'b) cache_array_scheme, nat option) line_op" where
  "ca_guarded lookup c =
    bind_res (lookup (c\<lparr>ca_goodInterface := True\<rparr>))
      (\<lambda>(r, c). Inr (r, c\<lparr>ca_goodInterface := False\<rparr>))"

text \<open>\<open>victim\<close> is \<open>findLine2Replace(addr, tag_addr, pc, prefetch)\<close>.\<close>

definition ca_fillLine ::
  "(addr \<Rightarrow> addr \<Rightarrow> addr \<Rightarrow> bool \<Rightarrow> (('a, 'b) cache_array_scheme, nat) line_op) \<Rightarrow>
    addr \<Rightarrow> addr \<Rightarrow> addr \<Rightarrow> (('a, 'b) cache_array_scheme, nat) line_op" where
  "ca_fillLine victim a ta pc c =
    bind_res (victim a ta pc False c) (\<lambda>(l, c).
      bind_res (ca_setTag l (calcTag (ca_geom c) ta) c) (\<lambda>c. Inr (l, c)))"

definition ca_fillLine_replace ::
  "(addr \<Rightarrow> addr \<Rightarrow> addr \<Rightarrow> bool \<Rightarrow> (('a, 'b) cache_array_scheme, nat) line_op) \<Rightarrow>
    addr \<Rightarrow> addr \<Rightarrow> addr \<Rightarrow> bool \<Rightarrow> (('a, 'b) cache_array_scheme, nat \<times> addr) line_op" where
  "ca_fillLine_replace victim a ta pc prefetch c =
    bind_res (victim a ta pc prefetch c) (\<lambda>(l, c).
      let newTag = calcTag (ca_geom c) ta;
          curTag = li_tag (ca_mem c l);
          rplcAddr = (if li_isValid (ca_mem c l) \<and> curTag \<noteq> newTag
                      then calcAddr4Tag (ca_geom c) curTag else 0)
      in bind_res (ca_setTag l newTag c) (\<lambda>c. Inr ((l, rplcAddr), c)))"

section \<open>Facts on the geometry\<close>

text \<open>
  Well-formed geometry: \<open>2 ^ j\<close> sets of \<open>2 ^ k\<close> places, where \<open>k\<close> is the rounded
  associativity, none past the end of the array.
\<close>

definition cg_wf :: "nat \<Rightarrow> cache_geom \<Rightarrow> bool" where
  "cg_wf j g \<longleftrightarrow> 0 < ways g \<and> ways g \<le> 2 ^ cg_log2Assoc g \<and> j + cg_log2Assoc g \<le> 31 \<and>
    cg_log2AddrLs g \<le> 31 \<and> cg_sets g = 2 ^ j \<and> cg_maskSets g = mask j \<and> cg_log2Sets g = j \<and>
    unat (cg_maskAssoc g) = 2 ^ cg_log2Assoc g - 1 \<and>
    2 ^ (j + cg_log2Assoc g) \<le> unat (cg_numLines g)"

lemma log2i_res_value:
  assumes "0 < unat x" and "unat x \<le> 2 ^ 31"
  obtains k where "\<And>f. log2i_res x f = f k" and "k \<le> 31" and "roundUpPower2 x = 2 ^ k"
proof -
  obtain k where "log2i x = Inr (Some k)" "k \<le> 31" "roundUpPower2 x = 2 ^ k"
    using log2i_value assms by blast
  then show thesis using that by (simp add: log2i_res_def)
qed

lemma unat_power_range:
  assumes "k \<le> 31"
  shows "0 < unat (2 ^ k :: u32)" and "unat (2 ^ k :: u32) \<le> 2 ^ 31"
  using assms power_increasing [of k 31 "2 :: nat"] by simp_all

lemma roundUpPower2_of_power:
  assumes "k \<le> 31"
  shows "roundUpPower2 (2 ^ k) = 2 ^ k"
proof -
  obtain m where m: "m \<le> 31" "roundUpPower2 (2 ^ k) = 2 ^ m" "unat (2 ^ k :: u32) \<le> 2 ^ m"
      "m > 0 \<Longrightarrow> 2 ^ (m - 1) < unat (2 ^ k :: u32)"
    using roundUpPower2_power unat_power_range [OF assms] by blast
  have "(2 :: nat) ^ k \<le> 2 ^ m" using m(3) assms by simp
  then have "k \<le> m" by simp
  moreover have "m \<le> k"
  proof (rule ccontr)
    assume "\<not> m \<le> k"
    then have "(2 :: nat) ^ (m - 1) < 2 ^ k" using m(4) assms by auto
    then have "m - 1 < k" using power_less_imp_less_exp [of "2 :: nat" "m - 1" k] by simp
    with \<open>\<not> m \<le> k\<close> show False by simp
  qed
  ultimately show ?thesis using m(2) by simp
qed

lemma log2i_res_power:
  assumes "k \<le> 31"
  shows "log2i_res (2 ^ k) f = f k"
proof -
  obtain m where m: "\<And>f :: nat \<Rightarrow> 'a res. log2i_res (2 ^ k) f = f m" "m \<le> 31" "roundUpPower2 (2 ^ k) = 2 ^ m"
    using log2i_res_value unat_power_range [OF assms] by blast
  have "unat (2 ^ k :: u32) = unat (2 ^ m :: u32)"
    using m(3) roundUpPower2_of_power [OF assms] by simp
  then have "(2 :: nat) ^ k = 2 ^ m" using m(2) assms by (simp del: power_inject_exp)
  then have "k = m" by (simp only: power_inject_exp one_less_numeral_iff semiring_norm)
  then show ?thesis using m(1) by simp
qed

lemma word_power_div:
  assumes "y \<le> x" and "x \<le> 31"
  shows "(2 ^ x :: u32) div 2 ^ y = 2 ^ (x - y)"
proof -
  have "unat ((2 ^ x :: u32) div 2 ^ y) = 2 ^ x div 2 ^ y" using assms by (simp add: unat_div_distrib)
  also have "\<dots> = 2 ^ (x - y)" using assms by (simp add: power_diff)
  finally show ?thesis using assms by (simp add: word_unat_eq_iff)
qed

text \<open>The constructor, for power-of-two sizes and an associativity of at most the number of
  lines.\<close>

lemma cg_create_wf:
  assumes "z \<le> y" and "y \<le> x" and "x \<le> 31" and "0 < unat a" and "unat a \<le> 2 ^ (x - y)"
  obtains g j where "cg_create (2 ^ x) a (2 ^ y) (2 ^ z) xr = Inr g" and "cg_wf j g"
    and "cg_assoc g = a" and "unat (cg_numLines g) = 2 ^ (x - y)" and "cg_log2AddrLs g = y - z"
    and "cg_xorIndex g = xr"
proof -
  have "(2 :: nat) ^ (x - y) \<le> 2 ^ 31" using assms(3) by (intro power_increasing) auto
  then have "unat a \<le> 2 ^ 31" using assms(5) by (rule order_trans [rotated])
  then obtain k where k: "k \<le> 31" "roundUpPower2 a = 2 ^ k" "unat a \<le> 2 ^ k"
      "k > 0 \<Longrightarrow> 2 ^ (k - 1) < unat a"
    using roundUpPower2_power assms(4) by blast
  obtain k' where k': "\<And>f :: nat \<Rightarrow> cache_geom res. log2i_res a f = f k'" "k' \<le> 31" "roundUpPower2 a = 2 ^ k'"
    using log2i_res_value [OF assms(4) \<open>unat a \<le> 2 ^ 31\<close>] by blast
  have "unat (2 ^ k :: u32) = unat (2 ^ k' :: u32)" using k(2) k'(3) by simp
  then have "k' = k" using k(1) k'(2) by (simp add: power_inject_exp)
  have kl: "k \<le> x - y"
  proof (rule ccontr)
    assume "\<not> k \<le> x - y"
    then have "(2 :: nat) ^ (k - 1) < unat a" using k(4) by simp
    then have "(2 :: nat) ^ (k - 1) < 2 ^ (x - y)" using assms(5) by (rule less_le_trans)
    then have "k - 1 < x - y" by (rule power_less_imp_less_exp [rotated]) simp
    with \<open>\<not> k \<le> x - y\<close> show False by simp
  qed
  have fill: "(2 ^ k :: u32) div a = 1"
  proof -
    have "2 ^ k div unat a = 1"
    proof (cases "k = 0")
      case True
      then have "unat a = 1" using k(3) assms(4) by simp
      then show ?thesis using True by simp
    next
      case False
      then have "2 ^ k < 2 * unat a" using k(4) by (cases k) auto
      then show ?thesis using k(3) by (intro div_nat_eqI) auto
    qed
    then have "unat ((2 ^ k :: u32) div a) = 1" using k(1) by (simp add: unat_div_distrib)
    then show ?thesis by (simp add: word_unat_eq_iff)
  qed
  have nz: "(2 ^ i :: u32) \<noteq> 0" if "i \<le> 31" for i
    using that by simp
  have one: "roundUpPower2 1 = 1" using roundUpPower2_of_power [of 0] by simp
  define g where "g = \<lparr>cg_size = 2 ^ x, cg_lineSize = 2 ^ y, cg_addrUnit = 2 ^ z, cg_assoc = a,
    cg_log2Assoc = k, cg_log2AddrLs = y - z, cg_maskAssoc = ucast (2 ^ k - 1 :: u32),
    cg_sets = 2 ^ (x - y - k), cg_maskSets = 2 ^ (x - y - k) - 1, cg_log2Sets = x - y - k,
    cg_numLines = 2 ^ (x - y), cg_xorIndex = xr\<rparr>"
  have "a \<noteq> 0" using assms(4) by auto
  then have "cg_create (2 ^ x) a (2 ^ y) (2 ^ z) xr = Inr g"
    using assms(1-3) k(1,2) kl k'(1) nz \<open>k' = k\<close>
    by (simp add: cg_create_def div_res_def word_power_div log2i_res_power roundUpPower2_of_power
        fill one g_def diff_le_mono)
  moreover have "cg_wf (x - y - k) g"
  proof -
    have "unat (ucast (2 ^ k - 1 :: u32) :: u64) = 2 ^ k - 1"
      using k(1) by (simp add: unat_ucast_wide unat_minus_one nz)
    moreover have "(2 :: nat) ^ (x - y - k + k) = 2 ^ (x - y)" using kl by simp
    moreover have "x - y \<le> 31" "y - z \<le> 31" using assms(2,3) by arith+
    ultimately show ?thesis
      using assms(1-4) k kl unfolding cg_wf_def
      by (simp add: g_def mask_eq_exp_minus_1)
  qed
  moreover have "cg_assoc g = a" "unat (cg_numLines g) = 2 ^ (x - y)" "cg_log2AddrLs g = y - z"
      "cg_xorIndex g = xr"
    using assms(2,3) by (simp_all add: g_def)
  ultimately show thesis by (rule that)
qed

lemma set_index_value:
  assumes "cg_wf j g"
  obtains s where "s < 2 ^ j" and "set_index g a = s * 2 ^ cg_log2Assoc g"
proof -
  define t where "t = (if cg_xorIndex g
    then (calcTag g a XOR drop_bit 5 (calcTag g a)) XOR drop_bit (cg_log2Sets g) (calcTag g a)
    else calcTag g a)"
  have t: "set_index g a = unat (push_bit (cg_log2Assoc g) (t AND ucast (cg_maskSets g)))"
    by (cases "cg_xorIndex g")
      (simp_all only: set_index_def calcIndex4Tag_def Let_def t_def if_True if_False)
  have m: "ucast (cg_maskSets g) = (mask j :: u64)"
  proof -
    have "ucast (mask j :: u32) = (mask j :: u64)"
      using assms by (intro bit_word_eqI) (auto simp: cg_wf_def bit_simps)
    then show ?thesis using assms by (simp add: cg_wf_def)
  qed
  define s where "s = unat t mod 2 ^ j"
  have s: "s < 2 ^ j" by (simp add: s_def)
  have "s * 2 ^ cg_log2Assoc g < 2 ^ (j + cg_log2Assoc g)" using s by (simp add: power_add)
  also have "(2 :: nat) ^ (j + cg_log2Assoc g) \<le> 2 ^ 31"
    using assms by (intro power_increasing) (auto simp: cg_wf_def)
  finally have "s * 2 ^ cg_log2Assoc g < 2 ^ 64" by simp
  then have "set_index g a = s * 2 ^ cg_log2Assoc g"
    using assms by (simp add: t [unfolded m] push_bit_eq_mult unat_word_ariths unat_and_mask s_def
        cg_wf_def mult.commute)
  with s show thesis by (rule that)
qed

lemma set_index_fits:
  assumes "cg_wf j g"
  shows "set_index g a + ways g \<le> unat (cg_numLines g)"
proof -
  obtain s where s: "s < 2 ^ j" "set_index g a = s * 2 ^ cg_log2Assoc g"
    using set_index_value [OF assms] by blast
  have "set_index g a + ways g \<le> (s + 1) * 2 ^ cg_log2Assoc g"
    using assms s(2) by (simp add: cg_wf_def)
  also have "\<dots> \<le> 2 ^ j * 2 ^ cg_log2Assoc g" using s(1) by (intro mult_right_mono) auto
  also have "\<dots> \<le> unat (cg_numLines g)" using assms by (simp add: cg_wf_def power_add)
  finally show ?thesis .
qed

lemma set_index_disjoint:
  assumes "cg_wf j g" and "set_index g a < set_index g b"
  shows "set_index g a + ways g \<le> set_index g b"
proof -
  obtain s where s: "set_index g a = s * 2 ^ cg_log2Assoc g" using set_index_value [OF assms(1)] by blast
  obtain t where t: "set_index g b = t * 2 ^ cg_log2Assoc g" using set_index_value [OF assms(1)] by blast
  have "s < t" using assms(2) s t by simp
  then have "(s + 1) * 2 ^ cg_log2Assoc g \<le> t * 2 ^ cg_log2Assoc g" by (intro mult_right_mono) auto
  then show ?thesis using assms(1) s t by (simp add: cg_wf_def)
qed

lemma calcAddr4Tag_calcTag:
  assumes "cg_log2AddrLs g \<le> 31"
  shows "unat (calcAddr4Tag g (calcTag g a)) = unat a - unat a mod 2 ^ cg_log2AddrLs g"
proof -
  let ?k = "cg_log2AddrLs g"
  have "unat (calcAddr4Tag g (calcTag g a)) = 2 ^ ?k * (unat a div 2 ^ ?k) mod 2 ^ 64"
    using assms
    by (simp add: calcAddr4Tag_def calcTag_def push_bit_eq_mult unat_word_ariths unat_drop_bit mult.commute)
  also have "2 ^ ?k * (unat a div 2 ^ ?k) = unat a - unat a mod 2 ^ ?k"
    by (simp add: minus_mod_eq_mult_div)
  finally show ?thesis using unsigned_less [of a, where ?'a = nat] by simp
qed

section \<open>Property\<close>

text \<open>
  For power-of-two sizes and any associativity of at most the number of lines, not only
  a power of two, the constructor of \<open>CacheGeneric\<close> succeeds, and the geometry is sound: the
  set of every address lies inside the array, two addresses have the same set or disjoint
  ones, addresses in one line have the same tag and so the same set, and turning a tag back into an address gives the
  start of the line.
\<close>

theorem cg_sets_partition:
  assumes "z \<le> y" and "y \<le> x" and "x \<le> 31" and "0 < unat a" and "unat a \<le> 2 ^ (x - y)"
  shows "\<exists>g. cg_create (2 ^ x) a (2 ^ y) (2 ^ z) xr = Inr g \<and>
    unat (cg_numLines g) = 2 ^ (x - y) \<and>
    (\<forall>p. set_index g p + unat a \<le> unat (cg_numLines g)) \<and>
    (\<forall>p q. set_index g p = set_index g q \<or> set_index g p + unat a \<le> set_index g q \<or>
      set_index g q + unat a \<le> set_index g p) \<and>
    (\<forall>p q. unat p div 2 ^ (y - z) = unat q div 2 ^ (y - z) \<longleftrightarrow> calcTag g p = calcTag g q) \<and>
    (\<forall>p. unat (calcAddr4Tag g (calcTag g p)) = unat p - unat p mod 2 ^ (y - z))"
proof -
  obtain g j where g: "cg_create (2 ^ x) a (2 ^ y) (2 ^ z) xr = Inr g" "cg_wf j g"
      "cg_assoc g = a" "unat (cg_numLines g) = 2 ^ (x - y)" "cg_log2AddrLs g = y - z"
    using cg_create_wf [OF assms] by metis
  have "set_index g p = set_index g q \<or> set_index g p + unat a \<le> set_index g q \<or>
      set_index g q + unat a \<le> set_index g p" for p q
    using set_index_disjoint [OF g(2)] g(3) by (metis linorder_less_linear)
  moreover have "unat p div 2 ^ (y - z) = unat q div 2 ^ (y - z) \<longleftrightarrow> calcTag g p = calcTag g q" for p q
    by (simp add: calcTag_def g(5) word_unat_eq_iff unat_drop_bit)
  moreover have "unat (calcAddr4Tag g (calcTag g p)) = unat p - unat p mod 2 ^ (y - z)" for p
    using calcAddr4Tag_calcTag [of g p] g(2,5) by (simp add: cg_wf_def)
  ultimately show ?thesis
    using g(1,3,4) set_index_fits [OF g(2)] by (intro exI [of _ g]) simp
qed

theorem cg_sets_partition_witness:
  "\<exists>g. cg_create (2 ^ 10) 3 (2 ^ 6) (2 ^ 0) True = Inr g \<and> unat (cg_numLines g) = 16 \<and>
    (\<forall>p. set_index g p + 3 \<le> 16)"
  using cg_sets_partition [of 0 6 10 3 True] by auto

end
