(* ===== verification/Cache_Client.thy ===== *)
theory Cache_Client
  imports Cache_Geometry
begin

text \<open>
  What the caches and predictors do with an array of \<open>core/cachecore.hpp\<close> on a demand
  access: a lookup, and a fill when it misses. The contract of an array towards such a client, the locale
  \<open>demand_cache\<close>, says that every outcome is a function of the accesses before it; here is also the
  function that a least-recently-used cache has.
\<close>

section \<open>Accesses\<close>

text \<open>
  An access is the address that selects the set, the address that gives the tag, and the
  program counter. The outcome is whether it hit, and the address of the line that was
  replaced (0 for none).
\<close>

type_synonym access = "addr \<times> addr \<times> addr"

definition ca_access ::
  "(addr \<Rightarrow> addr \<Rightarrow> addr \<Rightarrow> (('a, 'b) cache_array_scheme, nat option) line_op) \<Rightarrow>
    (addr \<Rightarrow> addr \<Rightarrow> addr \<Rightarrow> bool \<Rightarrow> (('a, 'b) cache_array_scheme, nat) line_op) \<Rightarrow>
    access \<Rightarrow> (('a, 'b) cache_array_scheme, bool \<times> addr) line_op" where
  "ca_access lookup victim x c =
    (case x of (a, ta, pc) \<Rightarrow>
      bind_res (ca_guarded (lookup a ta pc) c) (\<lambda>(r, c).
        case r of
          Some l \<Rightarrow> Inr ((True, 0), c)
        | None \<Rightarrow> bind_res (ca_fillLine_replace victim a ta pc False c)
                    (\<lambda>((l, rplc), c). Inr ((False, rplc), c))))"

fun run_accesses :: "('x \<Rightarrow> ('c, 'o) line_op) \<Rightarrow> 'x list \<Rightarrow> ('c, 'o list) line_op" where
  "run_accesses acc [] c = Inr ([], c)"
| "run_accesses acc (x # xs) c =
    bind_res (acc x c) (\<lambda>(o1, c).
      bind_res (run_accesses acc xs c) (\<lambda>(os, c). Inr (o1 # os, c)))"

section \<open>The contract\<close>

text \<open>
  \<open>represents h c\<close>: the state \<open>c\<close> is one that the accesses \<open>h\<close> lead to. The array accepts
  every access that is \<open>fine\<close>, with the outcome that the history determines.
\<close>

locale demand_cache =
  fixes acc :: "'x \<Rightarrow> ('c, 'o) line_op"
    and outcome :: "'x list \<Rightarrow> 'x \<Rightarrow> 'o"
    and represents :: "'x list \<Rightarrow> 'c \<Rightarrow> bool"
    and fine :: "'x \<Rightarrow> bool"
  assumes step: "represents h c \<Longrightarrow> fine x \<Longrightarrow>
    \<exists>c'. acc x c = Inr (outcome h x, c') \<and> represents (h @ [x]) c'"
begin

lemma run_outcomes:
  assumes "represents h c" and "\<forall>x \<in> set xs. fine x"
  shows "\<exists>c'. run_accesses acc xs c =
      Inr (map (\<lambda>k. outcome (h @ take k xs) (xs ! k)) [0..<length xs], c') \<and>
    represents (h @ xs) c'"
  using assms
proof (induction xs arbitrary: h c)
  case Nil
  then show ?case by simp
next
  case (Cons x xs)
  obtain c1 where c1: "acc x c = Inr (outcome h x, c1)" "represents (h @ [x]) c1"
    using step [OF Cons.prems(1)] Cons.prems(2) by auto
  obtain c2 where c2: "run_accesses acc xs c1 =
      Inr (map (\<lambda>k. outcome ((h @ [x]) @ take k xs) (xs ! k)) [0..<length xs], c2)"
      "represents ((h @ [x]) @ xs) c2"
    using Cons.IH [OF c1(2)] Cons.prems(2) by auto
  have "[0..<length (x # xs)] = 0 # map Suc [0..<length xs]"
    by (simp add: map_Suc_upt upt_conv_Cons del: upt_Suc)
  then show ?case using c1 c2 by (auto simp: comp_def)
qed

end

section \<open>Sets as lists\<close>

text \<open>The lines of the set that starts at \<open>lo\<close>, and their tags.\<close>

definition the_set :: "nat \<Rightarrow> ('a, 'b) cache_array_scheme \<Rightarrow> nat list" where
  "the_set lo c = take (ways (ca_geom c)) (drop lo (ca_content c))"

definition set_tags :: "nat \<Rightarrow> ('a, 'b) cache_array_scheme \<Rightarrow> addr list" where
  "set_tags lo c = map (\<lambda>i. li_tag (ca_mem c i)) (the_set lo c)"

section \<open>Least recently used\<close>

text \<open>The distinct elements of a history, the last one used first.\<close>

definition recency :: "'x list \<Rightarrow> 'x list" where
  "recency xs = rev (remdups xs)"

lemma recency_snoc: "recency (xs @ [x]) = x # removeAll x (recency xs)"
proof -
  have "remdups (ys @ [x]) = removeAll x (remdups ys) @ [x]" for ys
    by (induction ys) auto
  then show ?thesis by (simp add: recency_def rev_filter removeAll_filter_not_eq)
qed

lemma distinct_recency [simp]: "distinct (recency xs)"
  by (simp add: recency_def)

lemma set_recency [simp]: "set (recency xs) = set xs"
  by (simp add: recency_def)

text \<open>The first \<open>n\<close> of them, filled up with the empty tag.\<close>

definition resident :: "nat \<Rightarrow> addr list \<Rightarrow> addr list" where
  "resident n xs = take n (recency xs @ replicate n 0)"

lemma length_resident [simp]: "length (resident n xs) = n"
  by (simp add: resident_def)

lemma resident_hit:
  assumes "x \<in> set (resident n xs)" and "x \<noteq> 0"
  shows "x # remove1 x (resident n xs) = resident n (xs @ [x])"
proof -
  have "x \<in> set (take n (recency xs))"
    using assms by (auto simp: resident_def dest: in_set_takeD)
  then obtain i where i: "i < length (recency xs)" "i < n" "recency xs ! i = x"
    by (auto simp: in_set_conv_nth)
  define us where "us = take i (recency xs)"
  define vs where "vs = drop (Suc i) (recency xs)"
  have R: "recency xs = us @ x # vs" and us: "length us < n"
    using i id_take_nth_drop [OF i(1)] by (simp_all add: us_def vs_def)
  have d: "x \<notin> set us" "x \<notin> set vs" using distinct_recency [of xs] R by auto
  obtain m where m: "n = Suc (length us) + m" using us by (metis less_iff_Suc_add add_Suc)
  have "remove1 x (resident n xs) = us @ take m (vs @ replicate n 0)"
    using d by (simp add: resident_def R m remove1_append del: replicate_Suc)
  moreover have "recency (xs @ [x]) = x # us @ vs"
    using d by (simp add: recency_snoc R)
  ultimately show ?thesis by (simp add: resident_def m del: replicate_Suc)
qed

lemma resident_miss:
  assumes "x \<notin> set (resident n xs)" and "0 < n"
  shows "x # butlast (resident n xs) = resident n (xs @ [x])"
proof -
  obtain m where m: "n = Suc m" using assms(2) by (cases n) auto
  let ?R = "recency xs"
  have "butlast (resident n xs) = take m (?R @ replicate n 0)"
    by (simp add: resident_def m butlast_take del: replicate_Suc take_append)
  moreover have "take m (removeAll x ?R @ replicate n 0) = take m (?R @ replicate n 0)"
  proof -
    have x: "x \<notin> set (take n ?R)" using assms(1) by (auto simp: resident_def)
    have "take m ?R @ replicate (m - length ?R) 0 =
        take m (removeAll x ?R) @ replicate (m - length (removeAll x ?R)) 0"
    proof (cases "x \<in> set ?R")
      case False
      then show ?thesis by simp
    next
      case True
      then obtain us vs where R: "?R = us @ x # vs" by (metis split_list)
      have d: "x \<notin> set us" "x \<notin> set vs" using distinct_recency [of xs] R by auto
      have "n \<le> length us"
      proof (rule ccontr)
        assume "\<not> n \<le> length us"
        then have "x \<in> set (take n ?R)" by (cases "n - length us") (auto simp: R)
        with x show False by simp
      qed
      then show ?thesis using d by (simp add: R m)
    qed
    moreover have "take (m - q) (replicate n 0) = replicate (m - q) (0 :: addr)" for q
      by (simp add: take_replicate min_def m del: replicate_Suc)
    ultimately show ?thesis by simp
  qed
  ultimately show ?thesis by (simp add: resident_def recency_snoc m take_Cons' del: replicate_Suc)
qed

text \<open>The tags that went to the set of \<open>a\<close>, in order.\<close>

definition tags_to :: "cache_geom \<Rightarrow> addr \<Rightarrow> access list \<Rightarrow> addr list" where
  "tags_to g a h = [calcTag g ta. (b, ta, pc) \<leftarrow> h, set_index g b = set_index g a]"

text \<open>The outcome a least-recently-used cache has for an access after the history \<open>h\<close>.\<close>

definition lru_outcome :: "cache_geom \<Rightarrow> access list \<Rightarrow> access \<Rightarrow> bool \<times> addr" where
  "lru_outcome g h x =
    (case x of (a, ta, pc) \<Rightarrow>
      let R = resident (ways g) (tags_to g a h); t = calcTag g ta
      in if t \<in> set R then (True, 0)
         else (False, if last R = 0 then 0 else calcAddr4Tag g (last R)))"

lemma tags_to_snoc:
  "tags_to g a (h @ [(b, ta, pc)]) =
    tags_to g a h @ (if set_index g b = set_index g a then [calcTag g ta] else [])"
  by (simp add: tags_to_def)

lemma tags_to_cong: "set_index g a = set_index g b \<Longrightarrow> tags_to g a h = tags_to g b h"
  by (simp add: tags_to_def)

lemma calcTag_nonzero:
  "calcTag g t \<noteq> 0 \<longleftrightarrow> 2 ^ cg_log2AddrLs g \<le> unat t"
  by (simp add: calcTag_def word_unat_eq_iff unat_drop_bit div_eq_0_iff not_less)


end
