(* ===== verification/Cache_Assoc.thy ===== *)
theory Cache_Assoc
  imports Cache_Client "HOL-Library.Multiset"
begin

text \<open>
  \<open>core/cachecore.hpp\<close>, class \<open>CacheAssoc\<close>: the set-associative array with its replacement
  policies. A set is a range of the pointer array \<open>content\<close>; the loops over it are the loops of
  the code, from the low or from the high end. Lines have the state \<open>StateGeneric\<close> (with
  any further fields). The counters of the trackers are read by the report only; the access
  to the array of counters that can be out of range is kept. The facts: on demand accesses
  the policies LRU, PAR and UAR behave the same, as an exact least-recently-used cache.
\<close>

section \<open>Policies, trackers, state\<close>

datatype repl_policy = LRU | LRUp | RANDOM | SHIP | PAR | UAR | HAWKEYE

definition RRIP_MAX :: u16 where "RRIP_MAX = 15"
definition RRIP_PREF_MAX :: u16 where "RRIP_PREF_MAX = 2"

record tracker =
  tr_demand_trend :: int
  tr_conf :: int

definition tr_new :: tracker where
  "tr_new = \<lparr>tr_demand_trend = - 1, tr_conf = 0\<rparr>"

text \<open>The division is of non-negative numbers.\<close>

definition tr_done :: "int \<Rightarrow> tracker \<Rightarrow> tracker" where
  "tr_done nDemand t =
    (if tr_demand_trend t < 0 then t\<lparr>tr_demand_trend := nDemand\<rparr>
     else if tr_demand_trend t = nDemand
     then (if tr_conf t < 15 then t\<lparr>tr_conf := tr_conf t + 1\<rparr> else t)
     else let t' = (if tr_conf t > 0 \<and> drop_bit 1 (tr_demand_trend t) \<noteq> drop_bit 1 nDemand
                    then t\<lparr>tr_conf := tr_conf t - 1\<rparr> else t);
              d = (nDemand + tr_demand_trend t) div 2
          in t'\<lparr>tr_demand_trend := (if nDemand \<noteq> 0 \<and> nDemand > d then d + 1 else d)\<rparr>)"

record 'a cache_assoc = "'a cache_array" +
  as_irand :: u16
  as_policy :: repl_policy
  as_pc2tracker :: "addr \<Rightarrow> tracker"

definition char_lower :: "char \<Rightarrow> char" where
  "char_lower ch =
    (let n = of_char ch :: nat in if 65 \<le> n \<and> n \<le> 90 then char_of (n + 32) else ch)"

text \<open>\<open>None\<close> is an error that is added to the configuration errors; the field then keeps the
  value it had.\<close>

definition as_policy_of :: "string \<Rightarrow> repl_policy option" where
  "as_policy_of pStr =
    (let p = map char_lower pStr
     in if p = ''random'' then Some RANDOM
        else if p = ''lru'' then Some LRU
        else if p = ''lrup'' then Some LRUp
        else if p = ''par'' then Some PAR
        else if p = ''uar'' then Some UAR
        else None)"

definition as_create ::
  "u32 \<Rightarrow> u32 \<Rightarrow> u32 \<Rightarrow> u32 \<Rightarrow> string \<Rightarrow> bool \<Rightarrow> repl_policy \<Rightarrow> 'a cache_line_scheme \<Rightarrow>
    (bool \<times> 'a cache_assoc) res" where
  "as_create s a b u pStr xr pol0 l0 =
    bind_res (cg_create s a b u xr) (\<lambda>g.
      assert_res (cg_numLines g > 0)
       (Inr (as_policy_of pStr = None,
          \<lparr>ca_geom = g, ca_mem = (\<lambda>_. (li_zero l0)\<lparr>li_rrip := 0\<rparr>),
           ca_content = [0..<unat (cg_numLines g)], ca_goodInterface = False,
           as_irand = 0,
           as_policy = (case as_policy_of pStr of Some p \<Rightarrow> p | None \<Rightarrow> pol0),
           as_pc2tracker = (\<lambda>_. tr_new)\<rparr>)))"

section \<open>Operations\<close>

text \<open>The loops of \<open>adjustRRIP\<close> run from the last line of the set to the first.\<close>

fun adj_loop ::
  "(u16 \<Rightarrow> u16 \<Rightarrow> bool) \<Rightarrow> (u8 \<Rightarrow> u8) \<Rightarrow> nat \<Rightarrow> nat \<Rightarrow> nat \<Rightarrow>
    ('a, 'b) cache_array_scheme \<Rightarrow> ('a, 'b) cache_array_scheme res" where
  "adj_loop inside f lo 0 ch c = Inr c"
| "adj_loop inside f lo (Suc k) ch c =
    nth_res (ca_content c) (lo + k) (\<lambda>i.
      adj_loop inside f lo k ch
        (if inside (ucast (li_rrip (ca_mem c i))) (ucast (li_rrip (ca_mem c ch)))
         then ca_update i (\<lambda>l. l\<lparr>li_rrip := f (li_rrip l)\<rparr>) c else c))"

definition adjustRRIP ::
  "nat \<Rightarrow> nat \<Rightarrow> nat \<Rightarrow> u16 \<Rightarrow> ('a, 'b) cache_array_scheme \<Rightarrow> ('a, 'b) cache_array_scheme res" where
  "adjustRRIP lo n ch nxt c =
    (let r = ucast (li_rrip (ca_mem c ch)) :: u16;
         c' = ca_update ch (\<lambda>l. l\<lparr>li_rrip := ucast nxt\<rparr>) c
     in if r = nxt then Inr c
        else if r > nxt
        then adj_loop (\<lambda>x y. x < y \<and> x \<ge> nxt) (\<lambda>x. x + 1) lo n ch c'
        else adj_loop (\<lambda>x y. x > y \<and> x \<le> nxt) (\<lambda>x. x - 1) lo n ch c')"

text \<open>The search from position \<open>l\<close> upwards over \<open>k\<close> lines.\<close>

fun ca_scan :: "addr \<Rightarrow> nat \<Rightarrow> nat \<Rightarrow> ('a, 'b) cache_array_scheme \<Rightarrow> nat option res" where
  "ca_scan tag l 0 c = Inr None"
| "ca_scan tag l (Suc k) c =
    nth_res (ca_content c) l (\<lambda>i.
      if li_tag (ca_mem c i) = tag then Inr (Some l) else ca_scan tag (l + 1) k c)"

text \<open>Moving the pointer at \<open>lo + k\<close> to the front of its set: the pointers below it move up.\<close>

fun ca_shift :: "nat \<Rightarrow> nat \<Rightarrow> nat list \<Rightarrow> nat list" where
  "ca_shift lo 0 xs = xs"
| "ca_shift lo (Suc k) xs = ca_shift lo k (xs[lo + Suc k := xs ! (lo + k)])"

definition ca_to_front ::
  "nat \<Rightarrow> nat \<Rightarrow> nat \<Rightarrow> ('a, 'b) cache_array_scheme \<Rightarrow> ('a, 'b) cache_array_scheme" where
  "ca_to_front lo pos tmp c =
    c\<lparr>ca_content := (ca_shift lo (pos - lo) (ca_content c))[lo := tmp]\<rparr>"

definition as_findLineNoEffect ::
  "addr \<Rightarrow> addr \<Rightarrow> ('a cache_assoc, nat option) line_op" where
  "as_findLineNoEffect a ta c =
    (let tag = calcTag (ca_geom c) ta; lo = set_index (ca_geom c) a
     in nth_res (ca_content c) lo (\<lambda>m.
          if li_tag (ca_mem c m) = tag then Inr (Some m, c)
          else bind_res (ca_scan tag (lo + 1) (ways (ca_geom c) - 1) c) (\<lambda>r.
                 Inr (case r of None \<Rightarrow> None | Some l \<Rightarrow> Some (ca_content c ! l), c))))"

text \<open>The new reference value of a line that is hit, and the count of its demand accesses.\<close>

definition as_touch :: "addr \<Rightarrow> nat \<Rightarrow> 'a cache_assoc \<Rightarrow> u16 \<times> 'a cache_assoc" where
  "as_touch tag m c =
    (let r = ucast (li_rrip (ca_mem c m)) :: u16;
         nxt = (if tag \<noteq> 0 then RRIP_MAX else if r < RRIP_PREF_MAX then RRIP_PREF_MAX else r)
     in if as_policy c = UAR
        then let c = ca_update m li_incnDemand c;
                 t = as_pc2tracker c (li_pc (ca_mem c m))
             in (if nxt > 0 \<and> tr_conf t > 8 \<and> 1 + tr_demand_trend t < li_nDemand (ca_mem c m)
                 then nxt div 2 else nxt, c)
        else (nxt, c))"

definition as_findLine ::
  "addr \<Rightarrow> addr \<Rightarrow> addr \<Rightarrow> ('a cache_assoc, nat option) line_op" where
  "as_findLine a ta pc c =
    (let tag = calcTag (ca_geom c) ta; lo = set_index (ca_geom c) a; n = ways (ca_geom c)
     in nth_res (ca_content c) lo (\<lambda>m.
          if li_tag (ca_mem c m) = tag
          then bind_res
                 (if as_policy c = PAR \<or> as_policy c = UAR
                  then let (nxt, c) = as_touch tag m c in adjustRRIP lo n m nxt c
                  else Inr c)
                 (\<lambda>c. Inr (Some m, c))
          else bind_res (ca_scan tag (lo + 1) (n - 1) c) (\<lambda>r.
                 case r of
                   None \<Rightarrow> Inr (None, c)
                 | Some l \<Rightarrow>
                     (let tmp = ca_content c ! l
                      in assert_res (li_isValid (ca_mem c tmp))
                          (let (nxt, c) = as_touch tag tmp (ca_to_front lo l tmp c)
                           in bind_res (adjustRRIP lo n tmp nxt c) (\<lambda>c. Inr (Some tmp, c)))))))"

text \<open>The search of \<open>findLine2Replace\<close>, downwards: the position of the line that is hit, and
  the line it would prefer to replace.\<close>

fun as_scan_down ::
  "addr \<Rightarrow> nat \<Rightarrow> nat \<Rightarrow> nat option \<Rightarrow> 'a cache_assoc \<Rightarrow> (nat option \<times> nat option) res" where
  "as_scan_down tag lo 0 lineFree c = Inr (None, lineFree)"
| "as_scan_down tag lo (Suc k) lineFree c =
    nth_res (ca_content c) (lo + k) (\<lambda>i.
      let l = ca_mem c i
      in if li_tag l = tag then Inr (Some (lo + k), lineFree)
         else as_scan_down tag lo k
           (case lineFree of
              None \<Rightarrow> Some (lo + k)
            | Some p \<Rightarrow>
                (let f = ca_mem c (ca_content c ! p)
                 in if \<not> li_isValid l then Some (lo + k)
                    else if li_rrip l < li_rrip f then Some (lo + k)
                    else if as_policy c = UAR \<and> li_rrip l = li_rrip f \<and>
                      tr_demand_trend (as_pc2tracker c (li_pc l)) <
                      tr_demand_trend (as_pc2tracker c (li_pc f))
                    then Some (lo + k) else lineFree)) c)"

text \<open>The position that is replaced when no line is hit.\<close>

definition as_pick :: "nat \<Rightarrow> nat \<Rightarrow> nat option \<Rightarrow> 'a cache_assoc \<Rightarrow> (nat \<times> 'a cache_assoc) res" where
  "as_pick lo n lineFree c =
    assert_res (lineFree \<noteq> None)
     (if as_policy c = RANDOM
      then let m = ucast (cg_maskAssoc (ca_geom c)) :: u16;
               r = (as_irand c + 1) AND m;
               r = (if r = 0 then (r + 1) AND m else r)
           in Inr (lo + unat (as_irand c), c\<lparr>as_irand := r\<rparr>)
      else assert_res (as_policy c \<in> {LRU, LRUp, PAR, UAR}) (Inr (lo + n - 1, c)))"

text \<open>The tracker of the instruction that brought the line that leaves.\<close>

definition as_train :: "nat \<Rightarrow> 'a cache_assoc \<Rightarrow> 'a cache_assoc res" where
  "as_train i c =
    (let l = ca_mem c i
     in if li_isValid l \<and> as_policy c = UAR
        then let t = tr_done (li_nDemand l) (as_pc2tracker c (li_pc l))
             in if 0 \<le> tr_conf t \<and> tr_conf t < 16
                then Inr (c\<lparr>as_pc2tracker := (as_pc2tracker c)(li_pc l := t)\<rparr>)
                else Inl Out_of_bounds
        else Inr c)"

definition as_fill_prefetch :: "nat \<Rightarrow> nat \<Rightarrow> nat \<Rightarrow> addr \<Rightarrow> 'a cache_assoc \<Rightarrow> 'a cache_assoc res" where
  "as_fill_prefetch lo n tmp pc c =
    (case as_policy c of
       PAR \<Rightarrow> adjustRRIP lo n tmp 0 c
     | UAR \<Rightarrow>
         (let t = as_pc2tracker c pc
          in adjustRRIP lo n tmp
               (if tr_conf t > 0 \<and> tr_demand_trend t > 0 then RRIP_MAX div 2 else 0) c)
     | _ \<Rightarrow> Inr c)"

definition as_fill_demand :: "nat \<Rightarrow> nat \<Rightarrow> nat \<Rightarrow> nat \<Rightarrow> addr \<Rightarrow> 'a cache_assoc \<Rightarrow> 'a cache_assoc res" where
  "as_fill_demand lo n tmp pos pc c =
    (if as_policy c = LRUp then Inr c
     else if as_policy c = PAR \<or> as_policy c = UAR
     then let t = as_pc2tracker c pc;
              d = (if as_policy c = UAR
                   then if tr_conf t > 8 \<and> tr_demand_trend t = 0 then 0
                        else if tr_conf t > 8 \<and> tr_demand_trend t = 1 then RRIP_MAX div 2
                        else RRIP_MAX
                   else RRIP_MAX)
          in bind_res (adjustRRIP lo n tmp d c) (\<lambda>c. Inr (ca_to_front lo pos tmp c))
     else Inr (ca_to_front lo pos tmp c))"

definition as_findLine2Replace ::
  "addr \<Rightarrow> addr \<Rightarrow> addr \<Rightarrow> bool \<Rightarrow> ('a cache_assoc, nat) line_op" where
  "as_findLine2Replace a ta pc prefetch c =
    (let tag = calcTag (ca_geom c) ta; lo = set_index (ca_geom c) a; n = ways (ca_geom c)
     in assert_res (tag \<noteq> 0)
      (nth_res (ca_content c) lo (\<lambda>m.
        if li_tag (ca_mem c m) = tag
        then assert_res (li_isValid (ca_mem c m))
          (if as_policy c = PAR \<or> as_policy c = UAR
           then assert_res (prefetch \<longrightarrow> tag = 0)
             (let r = ucast (li_rrip (ca_mem c m)) :: u16;
                  nxt = (if tag \<noteq> 0 then RRIP_MAX
                         else if r < RRIP_PREF_MAX then if prefetch then RRIP_PREF_MAX else RRIP_MAX
                         else r)
              in bind_res (adjustRRIP lo n m nxt c) (\<lambda>c. Inr (m, c)))
           else Inr (m, c))
        else bind_res (as_scan_down tag lo n None c) (\<lambda>(lineHit, lineFree).
          bind_res (case lineHit of Some p \<Rightarrow> Inr (p, c) | None \<Rightarrow> as_pick lo n lineFree c) (\<lambda>(pos, c).
            nth_res (ca_content c) pos (\<lambda>tmp.
              if lineHit = None \<and> pos = lo \<and> as_policy c \<noteq> PAR \<and> as_policy c \<noteq> UAR
              then Inr (tmp, c)
              else bind_res (as_train tmp c) (\<lambda>c.
                let c = ca_update tmp (li_setPC pc) c
                in bind_res
                     (if prefetch then as_fill_prefetch lo n tmp pc c
                      else as_fill_demand lo n tmp pos pc c)
                     (\<lambda>c. Inr (tmp, c)))))))))"

section \<open>What adjusting a reference value does\<close>

text \<open>
  The loop compares with the value the changed line has already been given, so its two tests
  exclude each other: no other line is changed.
\<close>

lemma adj_loop_idle:
  assumes "lo + n \<le> length (ca_content c)"
    and "\<And>x. \<not> inside x (ucast (li_rrip (ca_mem c ch)))"
  shows "adj_loop inside f lo n ch c = Inr c"
  using assms by (induction n) auto

lemma ucast_u8_u16: "(ucast (ucast (x :: u16) :: u8) :: u16) = x" if "x < 256"
proof -
  have "unat x < 256" using that by (simp add: word_less_nat_alt)
  then show ?thesis by (simp add: word_unat_eq_iff unat_ucast_mod)
qed

lemma adjustRRIP_eq:
  assumes "lo + n \<le> length (ca_content c)" and "nxt < 256"
  shows "adjustRRIP lo n ch nxt c = Inr (ca_update ch (\<lambda>l. l\<lparr>li_rrip := ucast nxt\<rparr>) c)"
proof (cases "ucast (li_rrip (ca_mem c ch)) = nxt")
  case True
  moreover have "(ucast (ucast r :: u16) :: u8) = r" for r :: u8
    using unsigned_less [of r, where ?'a = nat] by (simp add: word_unat_eq_iff unat_ucast_mod)
  ultimately have "ucast nxt = li_rrip (ca_mem c ch)" by metis
  then have "ca_update ch (\<lambda>l. l\<lparr>li_rrip := ucast nxt\<rparr>) c = c"
    by (simp add: ca_update_def)
  then show ?thesis using True by (simp add: adjustRRIP_def)
next
  case False
  have c: "lo + n \<le> length (ca_content (ca_update ch (\<lambda>l. l\<lparr>li_rrip := ucast nxt\<rparr>) c))"
    using assms(1) by (simp add: ca_update_def)
  show ?thesis
    using False assms(2)
    by (auto simp: adjustRRIP_def Let_def ca_update_def ucast_u8_u16
        intro!: adj_loop_idle [OF c [unfolded ca_update_def]])
qed

section \<open>Moving lines in a set\<close>

text \<open>Bringing the element at position \<open>k\<close> to the front.\<close>

definition front_at :: "nat \<Rightarrow> 'x list \<Rightarrow> 'x list" where
  "front_at k xs = xs ! k # take k xs @ drop (Suc k) xs"

lemma set_front_at: "k < length xs \<Longrightarrow> set (front_at k xs) = set xs"
  by (metis front_at_def id_take_nth_drop list.simps(15) set_append Un_insert_right)

lemma distinct_front_at: "k < length xs \<Longrightarrow> distinct xs \<Longrightarrow> distinct (front_at k xs)"
  by (subst (asm) (2) id_take_nth_drop [of k xs]) (auto simp: front_at_def)

lemma length_front_at [simp]: "k < length xs \<Longrightarrow> length (front_at k xs) = length xs"
  by (simp add: front_at_def)

lemma map_front_at: "k < length xs \<Longrightarrow> map f (front_at k xs) = front_at k (map f xs)"
  by (simp add: front_at_def take_map drop_map)

lemma front_at_first:
  assumes "k < length xs" and "xs ! k = x" and "x \<notin> set (take k xs)"
  shows "front_at k xs = x # remove1 x xs"
proof -
  have "remove1 x (take k xs @ x # drop (Suc k) xs) = take k xs @ drop (Suc k) xs"
    using assms(3) by (simp add: remove1_append)
  moreover have "take k xs @ x # drop (Suc k) xs = xs"
    using assms(1,2) by (metis id_take_nth_drop)
  ultimately show ?thesis using assms(2) by (simp add: front_at_def)
qed

lemma front_at_last: "xs \<noteq> [] \<Longrightarrow> front_at (length xs - 1) xs = last xs # butlast xs"
  by (simp add: front_at_def last_conv_nth butlast_conv_take)

lemma ca_shift_nth:
  assumes "lo + k < length xs"
  shows "length (ca_shift lo k xs) = length xs" and
    "j < length xs \<Longrightarrow> ca_shift lo k xs ! j = (if lo < j \<and> j \<le> lo + k then xs ! (j - 1) else xs ! j)"
  using assms by (induction k arbitrary: xs) (auto simp: nth_list_update)

text \<open>On the array, one set is brought into the new order and everything else stays.\<close>

lemma ca_to_front_content:
  assumes "lo + k < length xs"
  shows "(ca_shift lo k xs)[lo := xs ! (lo + k)] =
    take lo xs @ front_at k (drop lo xs)"
proof (rule nth_equalityI)
  show "length ((ca_shift lo k xs)[lo := xs ! (lo + k)]) = length (take lo xs @ front_at k (drop lo xs))"
    using assms by (simp add: ca_shift_nth(1))
next
  fix j
  assume "j < length ((ca_shift lo k xs)[lo := xs ! (lo + k)])"
  then have j: "j < length xs" using assms by (simp add: ca_shift_nth(1))
  show "(ca_shift lo k xs)[lo := xs ! (lo + k)] ! j = (take lo xs @ front_at k (drop lo xs)) ! j"
    using assms j
    by (auto simp: nth_list_update ca_shift_nth nth_append front_at_def nth_Cons' min_def)
qed

lemma take_front_at: "k < n \<Longrightarrow> n \<le> length ys \<Longrightarrow> take n (front_at k ys) = front_at k (take n ys)"
  by (cases n) (auto simp: front_at_def drop_take min_def less_Suc_eq_le dest: le_antisym)

lemma drop_front_at: "k < n \<Longrightarrow> n \<le> length ys \<Longrightarrow> drop n (front_at k ys) = drop n ys"
  by (cases n) (auto simp: front_at_def)

lemma to_front_the_set:
  assumes "lo + ways (ca_geom c) \<le> length (ca_content c)" and "k < ways (ca_geom c)"
    and "tmp = ca_content c ! (lo + k)"
  shows "the_set lo (ca_to_front lo (lo + k) tmp c) = front_at k (the_set lo c)"
    and "lo' + ways (ca_geom c) \<le> lo \<or> lo + ways (ca_geom c) \<le> lo' \<Longrightarrow>
      the_set lo' (ca_to_front lo (lo + k) tmp c) = the_set lo' c"
    and "mset (ca_content (ca_to_front lo (lo + k) tmp c)) = mset (ca_content c)"
proof -
  let ?xs = "ca_content c" and ?n = "ways (ca_geom c)"
  have e: "ca_content (ca_to_front lo (lo + k) tmp c) = take lo ?xs @ front_at k (drop lo ?xs)"
    using assms ca_to_front_content [of lo k ?xs] by (simp add: ca_to_front_def)
  have g: "ca_geom (ca_to_front lo (lo + k) tmp c) = ca_geom c" by (simp add: ca_to_front_def)
  show "the_set lo (ca_to_front lo (lo + k) tmp c) = front_at k (the_set lo c)"
    using assms(1,2) by (simp add: the_set_def e g take_front_at)
  show "the_set lo' (ca_to_front lo (lo + k) tmp c) = the_set lo' c"
    if "lo' + ?n \<le> lo \<or> lo + ?n \<le> lo'"
    using that
  proof
    assume "lo' + ?n \<le> lo"
    then show ?thesis using assms(1)
      by (simp only: the_set_def e g take_drop) simp
  next
    assume l: "lo + ?n \<le> lo'"
    have "drop (lo' - lo) (front_at k (drop lo ?xs)) = drop (lo' - lo) (drop lo ?xs)"
    proof -
      have split: "drop (lo' - lo) zs = drop (lo' - lo - ?n) (drop ?n zs)" for zs :: "nat list"
        using l by simp
      have "drop ?n (front_at k (drop lo ?xs)) = drop ?n (drop lo ?xs)"
        using assms(1,2) by (intro drop_front_at) simp_all
      then show ?thesis by (simp only: split)
    qed
    then show ?thesis using assms(1) l by (simp add: the_set_def e g)
  qed
  have "mset (front_at k (drop lo ?xs)) = mset (drop lo ?xs)"
  proof -
    have "mset (front_at k ys) = mset ys" if "k < length ys" for ys :: "nat list"
      by (subst (2) id_take_nth_drop [OF that]) (simp add: front_at_def)
    then show ?thesis using assms(1,2) by simp
  qed
  then show "mset (ca_content (ca_to_front lo (lo + k) tmp c)) = mset ?xs"
    by (metis e append_take_drop_id mset_append)
qed

text \<open>The upward search finds the first position that holds the tag.\<close>

lemma ca_scan_eq:
  assumes "l + k \<le> length (ca_content c)"
  shows "ca_scan tag l k c = Inr
    (if \<exists>i<k. li_tag (ca_mem c (ca_content c ! (l + i))) = tag
     then Some (l + (LEAST i. li_tag (ca_mem c (ca_content c ! (l + i))) = tag)) else None)"
  using assms
proof (induction k arbitrary: l)
  case 0
  then show ?case by simp
next
  case (Suc k)
  let ?P = "\<lambda>i. li_tag (ca_mem c (ca_content c ! (l + i))) = tag"
  show ?case
  proof (cases "?P 0")
    case True
    then have "(LEAST i. ?P i) = 0" by (rule Least_eq_0)
    then show ?thesis using True Suc.prems by auto
  next
    case False
    have "(LEAST i. ?P i) = Suc (LEAST i. ?P (Suc i))" if "?P (Suc j)" for j
      using Least_Suc [of ?P "Suc j"] that False by blast
    moreover have "(\<exists>i<Suc k. ?P i) \<longleftrightarrow> (\<exists>i<k. ?P (Suc i))"
      using False by (metis (no_types, lifting) Suc_less_eq less_Suc_eq_0_disj)
    ultimately show ?thesis using Suc.IH [of "l + 1"] Suc.prems False by auto
  qed
qed

section \<open>The invariant\<close>

definition as_inv :: "nat \<Rightarrow> 'a cache_assoc \<Rightarrow> bool" where
  "as_inv j c \<longleftrightarrow> cg_wf j (ca_geom c) \<and> length (ca_content c) = unat (cg_numLines (ca_geom c)) \<and>
    distinct (ca_content c) \<and> as_policy c \<in> {LRU, PAR, UAR} \<and>
    (\<forall>pc. 0 \<le> tr_conf (as_pc2tracker c pc) \<and> tr_conf (as_pc2tracker c pc) \<le> 15)"

text \<open>Two states with the same pointers and the same tags.\<close>

definition same_lines :: "'a cache_assoc \<Rightarrow> 'a cache_assoc \<Rightarrow> bool" where
  "same_lines c c' \<longleftrightarrow> ca_geom c' = ca_geom c \<and> ca_content c' = ca_content c \<and>
    as_policy c' = as_policy c \<and> as_pc2tracker c' = as_pc2tracker c \<and>
    (\<forall>i. li_tag (ca_mem c' i) = li_tag (ca_mem c i))"

lemma same_lines_refl [simp]: "same_lines c c"
  by (simp add: same_lines_def)

lemma same_lines_trans: "same_lines c c' \<Longrightarrow> same_lines c' c'' \<Longrightarrow> same_lines c c''"
  by (simp add: same_lines_def)

lemma same_lines_inv: "same_lines c c' \<Longrightarrow> as_inv j c' \<longleftrightarrow> as_inv j c"
  by (simp add: same_lines_def as_inv_def)

lemma same_lines_tags: "same_lines c c' \<Longrightarrow> set_tags lo c' = set_tags lo c"
  by (simp add: same_lines_def set_tags_def the_set_def)

lemma same_lines_update:
  "(\<And>l. li_tag (f l) = li_tag l) \<Longrightarrow> same_lines c (ca_update i f c)"
  by (simp add: same_lines_def ca_update_def)

lemma as_inv_fits: "as_inv j c \<Longrightarrow> set_index (ca_geom c) a + ways (ca_geom c) \<le> length (ca_content c)"
  using set_index_fits [of j "ca_geom c" a] by (simp add: as_inv_def)

lemma as_inv_ways: "as_inv j c \<Longrightarrow> 0 < ways (ca_geom c)"
  by (simp add: as_inv_def cg_wf_def)

lemma length_set_tags:
  "lo + ways (ca_geom c) \<le> length (ca_content c) \<Longrightarrow> length (set_tags lo c) = ways (ca_geom c)"
  by (simp add: set_tags_def the_set_def)

lemma set_tags_nth:
  "lo + ways (ca_geom c) \<le> length (ca_content c) \<Longrightarrow> i < ways (ca_geom c) \<Longrightarrow>
    set_tags lo c ! i = li_tag (ca_mem c (ca_content c ! (lo + i)))"
  by (simp add: set_tags_def the_set_def)

lemma adjust_ok:
  assumes "as_inv j c" and "nxt < 256"
  shows "\<exists>c'. adjustRRIP (set_index (ca_geom c) a) (ways (ca_geom c)) m nxt c = Inr c' \<and> same_lines c c'"
  using adjustRRIP_eq [OF as_inv_fits [OF assms(1)] assms(2)]
  by (simp add: same_lines_update)

lemma as_touch_ok:
  "as_touch tag m c = (nxt, c') \<Longrightarrow> nxt < 256 \<and> same_lines c c'"
proof -
  have u8: "(ucast (r :: u8) :: u16) < 256" for r
    using unsigned_less [of r, where ?'a = nat]
    by (simp add: word_less_nat_alt unat_ucast_mod)
  have half: "x div 2 < 256" if "x < 256" for x :: u16
    using that by (simp add: word_less_nat_alt unat_div_distrib)
  have "same_lines c (ca_update m li_incnDemand c)"
    by (rule same_lines_update) (simp add: li_incnDemand_def)
  then show "as_touch tag m c = (nxt, c') \<Longrightarrow> nxt < 256 \<and> same_lines c c'"
    using u8 half by (auto simp: as_touch_def Let_def RRIP_MAX_def RRIP_PREF_MAX_def split: if_splits)
qed

text \<open>Moving a line of a set to its front.\<close>

lemma to_front_tags:
  assumes "as_inv j c" and "k < ways (ca_geom c)" and "lo = set_index (ca_geom c) a"
    and "tmp = ca_content c ! (lo + k)"
  shows "set_tags lo (ca_to_front lo (lo + k) tmp c) = front_at k (set_tags lo c)"
    and "set_index (ca_geom c) b \<noteq> lo \<Longrightarrow>
      set_tags (set_index (ca_geom c) b) (ca_to_front lo (lo + k) tmp c) =
      set_tags (set_index (ca_geom c) b) c"
    and "as_inv j (ca_to_front lo (lo + k) tmp c)"
proof -
  have fit: "lo + ways (ca_geom c) \<le> length (ca_content c)"
    using as_inv_fits [OF assms(1)] assms(3) by simp
  have wf: "cg_wf j (ca_geom c)" using assms(1) by (simp add: as_inv_def)
  note s = to_front_the_set [OF fit assms(2,4)]
  have mem: "ca_mem (ca_to_front lo (lo + k) tmp c) = ca_mem c" by (simp add: ca_to_front_def)
  show "set_tags lo (ca_to_front lo (lo + k) tmp c) = front_at k (set_tags lo c)"
  proof -
    have "length (the_set lo c) = ways (ca_geom c)" using fit by (simp add: the_set_def)
    then show ?thesis using assms(2) by (simp add: set_tags_def mem s(1) map_front_at)
  qed
  show "set_tags (set_index (ca_geom c) b) (ca_to_front lo (lo + k) tmp c) =
      set_tags (set_index (ca_geom c) b) c" if "set_index (ca_geom c) b \<noteq> lo"
  proof -
    have "set_index (ca_geom c) b + ways (ca_geom c) \<le> lo \<or>
        lo + ways (ca_geom c) \<le> set_index (ca_geom c) b"
      using that set_index_disjoint [OF wf] assms(3) by (metis linorder_less_linear)
    then show ?thesis using s(2) by (simp add: set_tags_def mem)
  qed
  have "distinct (ca_content (ca_to_front lo (lo + k) tmp c)) \<and>
      length (ca_content (ca_to_front lo (lo + k) tmp c)) = length (ca_content c)"
    using s(3) assms(1) by (metis as_inv_def mset_eq_imp_distinct_iff mset_eq_length)
  then show "as_inv j (ca_to_front lo (lo + k) tmp c)"
    using assms(1) by (simp add: as_inv_def) (simp add: ca_to_front_def)
qed

section \<open>Lookup and replacement\<close>

lemma ca_scan_first:
  assumes "lo + ways (ca_geom c) \<le> length (ca_content c)" and "0 < ways (ca_geom c)"
    and "set_tags lo c ! 0 \<noteq> tag"
  obtains (miss) "tag \<notin> set (set_tags lo c)"
      and "ca_scan tag (lo + 1) (ways (ca_geom c) - 1) c = Inr None"
  | (hit) k where "0 < k" and "k < ways (ca_geom c)" and "set_tags lo c ! k = tag"
      and "tag \<notin> set (take k (set_tags lo c))"
      and "ca_scan tag (lo + 1) (ways (ca_geom c) - 1) c = Inr (Some (lo + k))"
proof -
  let ?n = "ways (ca_geom c)" and ?ts = "set_tags lo c"
  let ?P = "\<lambda>i. li_tag (ca_mem c (ca_content c ! (lo + 1 + i))) = tag"
  have fit: "lo + 1 + (?n - 1) \<le> length (ca_content c)" using assms(1,2) by simp
  note scan = ca_scan_eq [OF fit, of tag]
  have len: "length ?ts = ?n" using assms(1) by (rule length_set_tags)
  have nth: "?ts ! Suc i = li_tag (ca_mem c (ca_content c ! (lo + 1 + i)))" if "Suc i < ?n" for i
    using set_tags_nth [OF assms(1) that] by simp
  show thesis
  proof (cases "\<exists>i < ?n - 1. ?P i")
    case False
    have "?ts ! i \<noteq> tag" if "i < ?n" for i
      using False nth that assms(3) by (cases i) auto
    then have "tag \<notin> set ?ts" by (auto simp: in_set_conv_nth len)
    moreover have "ca_scan tag (lo + 1) (?n - 1) c = Inr None" using scan False by auto
    ultimately show thesis by (rule miss)
  next
    case True
    define m where "m = (LEAST i. ?P i)"
    from True obtain i where i: "i < ?n - 1" "?P i" by blast
    have m: "?P m" "m \<le> i" unfolding m_def using LeastI [of ?P i] Least_le [of ?P i] i(2) by blast+
    have "?ts ! q \<noteq> tag" if "q < Suc m" for q
    proof (cases q)
      case 0
      then show ?thesis using assms(3) by simp
    next
      case (Suc q')
      then have "\<not> ?P q'" using that not_less_Least [of q' ?P] by (simp add: m_def)
      then show ?thesis using nth [of q'] Suc that m(2) i(1) by simp
    qed
    then have "tag \<notin> set (take (Suc m) ?ts)" by (auto simp: in_set_conv_nth)
    moreover have "?ts ! Suc m = tag" using nth [of m] m i(1) by simp
    moreover have "ca_scan tag (lo + 1) (?n - 1) c = Inr (Some (lo + Suc m))"
      using scan True by (simp add: m_def)
    ultimately show thesis using m(2) i(1) by (intro hit [of "Suc m"]) auto
  qed
qed

text \<open>A lookup that does not hit changes nothing; one that hits moves the tag to the front.\<close>

lemma as_findLine_ok:
  assumes "as_inv j c" and "tag = calcTag (ca_geom c) ta" and "tag \<noteq> 0"
    and "lo = set_index (ca_geom c) a"
  obtains (miss) "tag \<notin> set (set_tags lo c)" and "as_findLine a ta pc c = Inr (None, c)"
  | (hit) l c' where "tag \<in> set (set_tags lo c)" and "as_findLine a ta pc c = Inr (Some l, c')"
      and "as_inv j c'" and "ca_geom c' = ca_geom c" and "li_tag (ca_mem c' l) = tag"
      and "set_tags lo c' = tag # remove1 tag (set_tags lo c)"
      and "\<forall>b. set_index (ca_geom c) b \<noteq> lo \<longrightarrow>
        set_tags (set_index (ca_geom c) b) c' = set_tags (set_index (ca_geom c) b) c"
proof -
  let ?n = "ways (ca_geom c)" and ?ts = "set_tags lo c" and ?xs = "ca_content c"
  have fit: "lo + ?n \<le> length ?xs" using as_inv_fits [OF assms(1)] assms(4) by simp
  have n: "0 < ?n" using assms(1) by (rule as_inv_ways)
  have len: "length ?ts = ?n" using fit by (rule length_set_tags)
  have first: "?ts ! 0 = li_tag (ca_mem c (?xs ! lo))" using set_tags_nth [OF fit n] by simp
  have lo: "lo < length ?xs" using fit n by simp
  show thesis
  proof (cases "?ts ! 0 = tag")
    case True
    let ?m = "?xs ! lo"
    obtain nxt c1 where t: "as_touch tag ?m c = (nxt, c1)" by (cases "as_touch tag ?m c")
    have t': "nxt < 256" "same_lines c c1" using as_touch_ok [OF t] by simp_all
    have inv1: "as_inv j c1" using assms(1) same_lines_inv [OF t'(2)] by simp
    obtain c2 where c2: "adjustRRIP lo ?n ?m nxt c1 = Inr c2" "same_lines c1 c2"
      using adjust_ok [OF inv1 t'(1), of a ?m] t'(2) assms(4) by (auto simp: same_lines_def)
    obtain c' where c': "as_findLine a ta pc c = Inr (Some ?m, c')" "same_lines c c'"
    proof (cases "as_policy c = PAR \<or> as_policy c = UAR")
      case pol: True
      have "as_findLine a ta pc c = Inr (Some ?m, c2)"
        using True first lo t c2(1) pol assms(2,4) by (auto simp: as_findLine_def Let_def)
      then show thesis using that same_lines_trans [OF t'(2) c2(2)] by blast
    next
      case False
      then have "as_findLine a ta pc c = Inr (Some ?m, c)"
        using True first lo assms(2,4) by (simp add: as_findLine_def Let_def)
      then show thesis using that by simp
    qed
    have ne: "?ts \<noteq> []" using len n by auto
    show thesis
    proof (rule hit [OF _ c'(1)])
      show "tag \<in> set ?ts" using True ne by (metis list.set_sel(1) hd_conv_nth)
      show "as_inv j c'" using assms(1) same_lines_inv [OF c'(2)] by simp
      show "ca_geom c' = ca_geom c" using c'(2) by (simp add: same_lines_def)
      show "li_tag (ca_mem c' ?m) = tag" using c'(2) True first by (simp add: same_lines_def)
      show "set_tags lo c' = tag # remove1 tag ?ts"
        using True ne by (cases ?ts) (simp_all add: same_lines_tags [OF c'(2)])
      show "\<forall>b. set_index (ca_geom c) b \<noteq> lo \<longrightarrow>
          set_tags (set_index (ca_geom c) b) c' = set_tags (set_index (ca_geom c) b) c"
        by (simp add: same_lines_tags [OF c'(2)])
    qed
  next
    case False
    show thesis
    proof (rule ca_scan_first [OF fit n False])
      assume absent: "tag \<notin> set ?ts" and scan: "ca_scan tag (lo + 1) (?n - 1) c = Inr None"
      have "as_findLine a ta pc c = Inr (None, c)"
        using False first lo scan assms(2,4) by (simp add: as_findLine_def Let_def)
      with absent show thesis by (rule miss)
    next
      fix k
      assume k: "0 < k" "k < ?n" "?ts ! k = tag" "tag \<notin> set (take k ?ts)"
        and scan: "ca_scan tag (lo + 1) (?n - 1) c = Inr (Some (lo + k))"
      let ?m = "?xs ! (lo + k)"
      define c0 where "c0 = ca_to_front lo (lo + k) ?m c"
      note f = to_front_tags [OF assms(1) k(2) assms(4) refl, folded c0_def]
      obtain nxt c1 where t: "as_touch tag ?m c0 = (nxt, c1)" by (cases "as_touch tag ?m c0")
      have t': "nxt < 256" "same_lines c0 c1" using as_touch_ok [OF t] by simp_all
      have g0: "ca_geom c0 = ca_geom c" "ca_mem c0 = ca_mem c" by (simp_all add: c0_def ca_to_front_def)
      have inv1: "as_inv j c1" using f(3) same_lines_inv [OF t'(2)] by simp
      obtain c2 where c2: "adjustRRIP lo ?n ?m nxt c1 = Inr c2" "same_lines c1 c2"
        using adjust_ok [OF inv1 t'(1), of a ?m] t'(2) assms(4) g0 by (auto simp: same_lines_def)
      have s: "same_lines c0 c2" using same_lines_trans [OF t'(2) c2(2)] .
      have tagm: "li_tag (ca_mem c ?m) = tag" using k(3) set_tags_nth [OF fit k(2)] by simp
      have run: "as_findLine a ta pc c = Inr (Some ?m, c2)"
        using False first lo scan tagm t c2(1) assms(2-4)
        by (simp add: as_findLine_def Let_def li_isValid_def c0_def)
      show thesis
      proof (rule hit [OF _ run])
        show "tag \<in> set ?ts" using k(2,3) len by (metis nth_mem)
        show "as_inv j c2" using f(3) same_lines_inv [OF s] by simp
        show "ca_geom c2 = ca_geom c" using s g0 by (simp add: same_lines_def)
        show "li_tag (ca_mem c2 ?m) = tag" using s g0 tagm by (simp add: same_lines_def)
        show "set_tags lo c2 = tag # remove1 tag ?ts"
          using front_at_first [of k ?ts tag] k(2-4) len by (simp add: same_lines_tags [OF s] f(1))
        show "\<forall>b. set_index (ca_geom c) b \<noteq> lo \<longrightarrow>
            set_tags (set_index (ca_geom c) b) c2 = set_tags (set_index (ca_geom c) b) c"
          using f(2) by (simp add: same_lines_tags [OF s])
      qed
    qed
  qed
qed

lemma tr_done_conf:
  assumes "0 \<le> tr_conf t" and "tr_conf t \<le> 15"
  shows "0 \<le> tr_conf (tr_done d t) \<and> tr_conf (tr_done d t) \<le> 15"
  using assms by (auto simp: tr_done_def Let_def)

lemma as_train_ok:
  assumes "as_inv j c"
  obtains c' where "as_train i c = Inr c'" and "as_inv j c'" and "ca_geom c' = ca_geom c"
    and "ca_content c' = ca_content c" and "ca_mem c' = ca_mem c" and "as_policy c' = as_policy c"
proof (cases "li_isValid (ca_mem c i) \<and> as_policy c = UAR")
  case True
  let ?l = "ca_mem c i"
  let ?t = "tr_done (li_nDemand ?l) (as_pc2tracker c (li_pc ?l))"
  have r: "0 \<le> tr_conf ?t \<and> tr_conf ?t \<le> 15" using assms by (intro tr_done_conf) (auto simp: as_inv_def)
  have "as_train i c = Inr (c\<lparr>as_pc2tracker := (as_pc2tracker c)(li_pc ?l := ?t)\<rparr>)"
    using True r by (simp add: as_train_def Let_def)
  then show thesis using assms r that by (auto simp: as_inv_def)
next
  case False
  then have "as_train i c = Inr c" by (auto simp: as_train_def Let_def)
  then show thesis using assms that by blast
qed

lemma as_scan_down_absent:
  assumes "lo + k \<le> length (ca_content c)"
    and "\<And>i. i < k \<Longrightarrow> li_tag (ca_mem c (ca_content c ! (lo + i))) \<noteq> tag"
  shows "\<exists>f. as_scan_down tag lo k free c = Inr (None, f) \<and> (free \<noteq> None \<or> k > 0 \<longrightarrow> f \<noteq> None)"
  using assms
proof (induction k arbitrary: free)
  case 0
  then show ?case by simp
next
  case (Suc k)
  have "\<exists>g. as_scan_down tag lo (Suc k) free c = as_scan_down tag lo k g c \<and> g \<noteq> None"
    using Suc.prems(1) Suc.prems(2) [of k]
    apply (simp only: as_scan_down.simps nth_res_in add_Suc_right Suc_le_lessD lessI Let_def if_False)
    apply (intro exI conjI, rule refl)
    apply (simp split: option.split)
    done
  then obtain g where g: "as_scan_down tag lo (Suc k) free c = as_scan_down tag lo k g c" "g \<noteq> None"
    by blast
  moreover obtain f where "as_scan_down tag lo k g c = Inr (None, f)" "g \<noteq> None \<or> k > 0 \<longrightarrow> f \<noteq> None"
    using Suc.IH [of g] Suc.prems by auto
  ultimately show ?case by auto
qed

text \<open>On a miss the last line of the set is replaced, in front of the others.\<close>

lemma as_victim_ok:
  assumes "as_inv j c" and "tag = calcTag (ca_geom c) ta" and "tag \<noteq> 0"
    and "lo = set_index (ca_geom c) a" and "tag \<notin> set (set_tags lo c)"
  obtains l c' where "as_findLine2Replace a ta pc False c = Inr (l, c')" and "as_inv j c'"
    and "ca_geom c' = ca_geom c" and "ca_content c' ! lo = l"
    and "set_tags lo c' = last (set_tags lo c) # butlast (set_tags lo c)"
    and "\<forall>b. set_index (ca_geom c) b \<noteq> lo \<longrightarrow>
      set_tags (set_index (ca_geom c) b) c' = set_tags (set_index (ca_geom c) b) c"
proof -
  let ?n = "ways (ca_geom c)" and ?ts = "set_tags lo c" and ?xs = "ca_content c"
  have fit: "lo + ?n \<le> length ?xs" using as_inv_fits [OF assms(1)] assms(4) by simp
  have n: "0 < ?n" using assms(1) by (rule as_inv_ways)
  have len: "length ?ts = ?n" using fit by (rule length_set_tags)
  have lo: "lo < length ?xs" and last: "lo + (?n - 1) < length ?xs" using fit n by simp_all
  have absent: "li_tag (ca_mem c (?xs ! (lo + i))) \<noteq> tag" if "i < ?n" for i
    using set_tags_nth [OF fit that] assms(5) that len by (metis nth_mem)
  have a0: "li_tag (ca_mem c (?xs ! lo)) \<noteq> tag" using absent [OF n] by simp
  obtain f where f: "as_scan_down tag lo ?n None c = Inr (None, Some f)"
    using as_scan_down_absent [OF fit absent, of None] n by auto
  have pol: "as_policy c \<in> {LRU, PAR, UAR}" using assms(1) by (simp add: as_inv_def)
  have pick: "as_pick lo ?n (Some f) c = Inr (lo + (?n - 1), c)"
    using pol n by (auto simp: as_pick_def)
  let ?m = "?xs ! (lo + (?n - 1))"
  have ne: "?ts \<noteq> []" using len n by auto
  have rot: "front_at (?n - 1) ?ts = last ?ts # butlast ?ts" using front_at_last [OF ne] len by simp
  have run: "as_findLine2Replace a ta pc False c =
    (if lo + (?n - 1) = lo \<and> as_policy c \<noteq> PAR \<and> as_policy c \<noteq> UAR then Inr (?m, c)
     else bind_res (as_train ?m c) (\<lambda>c'.
       bind_res (as_fill_demand lo ?n ?m (lo + (?n - 1)) pc (ca_update ?m (li_setPC pc) c'))
         (\<lambda>c. Inr (?m, c))))"
    unfolding as_findLine2Replace_def Let_def assms(2) [symmetric] assms(4) [symmetric]
    using assms(3) a0 by (simp add: nth_res_in [OF lo] nth_res_in [OF last] f pick del: One_nat_def)
  show thesis
  proof (cases "?n = 1 \<and> as_policy c = LRU")
    case True
    then have "as_findLine2Replace a ta pc False c = Inr (?m, c)"
      by (simp add: run)
    moreover have "last ?ts # butlast ?ts = ?ts" using True len by (cases ?ts) auto
    ultimately show thesis using True
      by (intro that [OF _ assms(1) refl]) (simp_all only: simp_thms diff_self_eq_0 add_0_right)
  next
    case False
    obtain c1 where c1: "as_train ?m c = Inr c1" "as_inv j c1" "ca_geom c1 = ca_geom c"
        "ca_content c1 = ?xs" "ca_mem c1 = ca_mem c" "as_policy c1 = as_policy c"
      using as_train_ok [OF assms(1)] by blast
    define c2 where "c2 = ca_update ?m (li_setPC pc) c1"
    have s2: "same_lines c1 c2" by (simp add: c2_def same_lines_update li_setPC_def)
    have inv2: "as_inv j c2" using c1(2) same_lines_inv [OF s2] by simp
    have g2: "ca_geom c2 = ca_geom c" "as_policy c2 = as_policy c" using s2 c1 by (simp_all add: same_lines_def)
    obtain c3 where c3: "as_fill_demand lo ?n ?m (lo + (?n - 1)) pc c2 =
        Inr (ca_to_front lo (lo + (?n - 1)) ?m c3)" "same_lines c2 c3"
    proof (cases "as_policy c = LRU")
      case True
      then show thesis using that [of c2] by (simp add: as_fill_demand_def g2)
    next
      case False
      define d where "d = (let t = as_pc2tracker c2 pc in
        if as_policy c2 = UAR
        then if tr_conf t > 8 \<and> tr_demand_trend t = 0 then 0
             else if tr_conf t > 8 \<and> tr_demand_trend t = 1 then RRIP_MAX div 2 else RRIP_MAX
        else RRIP_MAX)"
      have "d < 256" by (simp add: d_def Let_def RRIP_MAX_def)
      then obtain c3 where "adjustRRIP lo ?n ?m d c2 = Inr c3" "same_lines c2 c3"
        using adjust_ok [OF inv2, of d a ?m] assms(4) g2 by auto
      then show thesis using that [of c3] False pol
        by (auto simp: as_fill_demand_def g2 d_def Let_def)
    qed
    define c' where "c' = ca_to_front lo (lo + (?n - 1)) ?m c3"
    have s13: "same_lines c1 c3" using same_lines_trans [OF s2 c3(2)] .
    then have g3: "ca_geom c3 = ca_geom c" "ca_content c3 = ?xs"
        "\<And>i. li_tag (ca_mem c3 i) = li_tag (ca_mem c i)"
      using c1 by (simp_all add: same_lines_def)
    have inv3: "as_inv j c3" using c1(2) same_lines_inv [OF s13] by simp
    have tags: "set_tags b c3 = set_tags b c" for b
      by (simp add: set_tags_def the_set_def g3)
    have lt: "?n - 1 < ways (ca_geom c3)" using n g3 by simp
    have lo3: "lo = set_index (ca_geom c3) a" and m3: "?m = ca_content c3 ! (lo + (?n - 1))"
      using assms(4) g3 by simp_all
    note f = to_front_tags [OF inv3 lt lo3 m3, folded c'_def, unfolded tags g3(1)]
    have "as_findLine2Replace a ta pc False c = Inr (?m, c')"
    proof -
      have "\<not> (lo + (?n - 1) = lo \<and> as_policy c \<noteq> PAR \<and> as_policy c \<noteq> UAR)"
        using False pol n by auto
      then show ?thesis using c3(1) by (simp only: run if_False c1(1) bind_res_simps c2_def c'_def)
    qed
    moreover have "ca_content c' ! lo = ?m"
      using ca_shift_nth(1) [OF last] lo by (simp add: c'_def ca_to_front_def g3)
    ultimately show thesis
      using that [of ?m c'] f rot by (simp add: c'_def ca_to_front_def g3)
  qed
qed

text \<open>A fill that misses: the tag comes to the front, the last one leaves.\<close>

lemma as_fill_ok:
  assumes "as_inv j c" and "tag = calcTag (ca_geom c) ta" and "tag \<noteq> 0"
    and "lo = set_index (ca_geom c) a" and "tag \<notin> set (set_tags lo c)"
  obtains l c' where "ca_fillLine_replace as_findLine2Replace a ta pc False c =
      Inr ((l, if last (set_tags lo c) \<noteq> 0 then calcAddr4Tag (ca_geom c) (last (set_tags lo c)) else 0), c')"
    and "as_inv j c'" and "ca_geom c' = ca_geom c"
    and "set_tags lo c' = tag # butlast (set_tags lo c)"
    and "\<forall>b. set_index (ca_geom c) b \<noteq> lo \<longrightarrow>
      set_tags (set_index (ca_geom c) b) c' = set_tags (set_index (ca_geom c) b) c"
proof -
  let ?n = "ways (ca_geom c)" and ?ts = "set_tags lo c"
  obtain l c1 where v: "as_findLine2Replace a ta pc False c = Inr (l, c1)" "as_inv j c1"
      "ca_geom c1 = ca_geom c" "ca_content c1 ! lo = l"
      "set_tags lo c1 = last ?ts # butlast ?ts"
      "\<forall>b. set_index (ca_geom c) b \<noteq> lo \<longrightarrow>
        set_tags (set_index (ca_geom c) b) c1 = set_tags (set_index (ca_geom c) b) c"
    using as_victim_ok [OF assms] by metis
  have fit: "set_index (ca_geom c1) b + ways (ca_geom c1) \<le> length (ca_content c1)" for b
    using v(2) by (rule as_inv_fits)
  have n: "0 < ways (ca_geom c1)" using v(2) by (rule as_inv_ways)
  have fit1: "lo + ways (ca_geom c1) \<le> length (ca_content c1)"
    using fit [of a] assms(4) by (simp add: v(3))
  have dist: "distinct (ca_content c1)" using v(2) by (simp add: as_inv_def)
  define c' where "c' = ca_update l (\<lambda>_. (ca_mem c1 l)\<lparr>li_tag := tag, li_nDemand := 0\<rparr>) c1"
  have g': "ca_geom c' = ca_geom c" "ca_content c' = ca_content c1"
    by (simp_all add: c'_def ca_update_def v(3))
  have curTag: "li_tag (ca_mem c1 l) = last ?ts"
    using set_tags_nth [OF fit1 n] v(4,5) by simp
  have absent: "last ?ts \<noteq> tag"
  proof -
    have "length ?ts = ?n" using length_set_tags fit [of a]
      by (metis as_inv_fits assms(1,4))
    then have "?ts \<noteq> []" using as_inv_ways [OF assms(1)] by auto
    then show ?thesis using assms(5) last_in_set by metis
  qed
  have run: "ca_fillLine_replace as_findLine2Replace a ta pc False c =
      Inr ((l, if last ?ts \<noteq> 0 then calcAddr4Tag (ca_geom c) (last ?ts) else 0), c')"
    using assms(3) absent
    by (simp add: ca_fillLine_replace_def v(1,3) Let_def curTag li_isValid_def ca_setTag_def
        li_setTag_def assms(2) [symmetric] c'_def)
  have tag': "li_tag (ca_mem c' i) = (if i = l then tag else li_tag (ca_mem c1 i))" for i
    by (simp add: c'_def ca_update_def)
  have at: "set_tags lo c' = tag # butlast ?ts"
  proof -
    have "the_set lo c1 = l # tl (the_set lo c1)" "l \<notin> set (tl (the_set lo c1))"
    proof -
      have "the_set lo c1 \<noteq> []" "hd (the_set lo c1) = l" "distinct (the_set lo c1)"
        using fit1 n v(4) dist by (auto simp: the_set_def hd_take hd_drop_conv_nth)
      then show "the_set lo c1 = l # tl (the_set lo c1)" "l \<notin> set (tl (the_set lo c1))"
        by (metis list.collapse, metis distinct.simps(2) list.collapse)
    qed
    then obtain rest where rest: "the_set lo c1 = l # rest" "l \<notin> set rest" by blast
    have "map (\<lambda>i. li_tag (ca_mem c1 i)) rest = butlast ?ts"
      using v(5) rest(1) by (simp add: set_tags_def)
    moreover have "the_set lo c' = l # rest" using rest(1) by (simp add: the_set_def g' v(3))
    moreover have "map (\<lambda>i. li_tag (ca_mem c' i)) rest = map (\<lambda>i. li_tag (ca_mem c1 i)) rest"
      using rest(2) by (intro map_cong) (auto simp: tag')
    ultimately show ?thesis by (simp add: set_tags_def tag')
  qed
  have other: "set_tags (set_index (ca_geom c) b) c' = set_tags (set_index (ca_geom c) b) c"
    if "set_index (ca_geom c) b \<noteq> lo" for b
  proof -
    let ?b = "set_index (ca_geom c) b"
    have wf: "cg_wf j (ca_geom c)" using assms(1) by (simp add: as_inv_def)
    have sep: "?b + ?n \<le> lo \<or> lo + ?n \<le> ?b"
      using that set_index_disjoint [OF wf] assms(4) by (metis linorder_less_linear)
    have "l \<notin> set (the_set ?b c1)"
    proof
      assume "l \<in> set (the_set ?b c1)"
      then obtain q where q: "q < ?n" "?b + q < length (ca_content c1)" "ca_content c1 ! (?b + q) = l"
        by (auto simp: the_set_def in_set_conv_nth v(3))
      then have "?b + q = lo"
        using nth_eq_iff_index_eq [OF dist q(2), of lo] v(4) fit1 n by simp
      then show False using sep q(1) as_inv_ways [OF assms(1)] by linarith
    qed
    then have "set_tags ?b c' = set_tags ?b c1"
      by (auto simp: set_tags_def the_set_def g' v(3) tag' intro!: map_cong)
    then show ?thesis using v(6) that by simp
  qed
  have "as_inv j c'" using v(2) by (simp add: as_inv_def c'_def ca_update_def)
  from that [OF run this g'(1) at] other show thesis by blast
qed

section \<open>Demand accesses\<close>

abbreviation as_access :: "access \<Rightarrow> ('a cache_assoc, bool \<times> addr) line_op" where
  "as_access \<equiv> ca_access as_findLine as_findLine2Replace"

text \<open>The state of every set is the recency list of the tags that went to it.\<close>

definition tracks :: "nat \<Rightarrow> cache_geom \<Rightarrow> access list \<Rightarrow> 'a cache_assoc \<Rightarrow> bool" where
  "tracks j g h c \<longleftrightarrow> as_inv j c \<and> ca_geom c = g \<and>
    (\<forall>a. set_tags (set_index g a) c = resident (ways g) (tags_to g a h))"

lemma tracks_step:
  assumes "tracks j g h c" and "calcTag g ta \<noteq> 0"
  shows "\<exists>c'. as_access (a, ta, pc) c = Inr (lru_outcome g h (a, ta, pc), c') \<and>
    tracks j g (h @ [(a, ta, pc)]) c'"
proof -
  let ?t = "calcTag g ta" and ?lo = "set_index g a" and ?R = "resident (ways g) (tags_to g a h)"
  define c0 where "c0 = c\<lparr>ca_goodInterface := True\<rparr>"
  have s0: "same_lines c c0" by (simp add: c0_def same_lines_def)
  have g: "ca_geom c = g" "as_inv j c" and tags: "\<And>b. set_tags (set_index g b) c = resident (ways g) (tags_to g b h)"
    using assms(1) by (simp_all add: tracks_def)
  have inv0: "as_inv j c0" and g0: "ca_geom c0 = g" and tags0: "set_tags ?lo c0 = ?R"
    using g same_lines_inv [OF s0] tags same_lines_tags [OF s0] by (simp_all add: c0_def)
  have n: "0 < ways g" using as_inv_ways [OF g(2)] g(1) by simp
  have R0: "?R = [] \<longleftrightarrow> False" using n by (metis length_resident length_0_conv less_irrefl)
  let ?off = "\<lambda>c :: 'a cache_assoc. c\<lparr>ca_goodInterface := False\<rparr>"
  have off: "same_lines c (?off c)" for c :: "'a cache_assoc" by (simp add: same_lines_def)
  have step: "tracks j g (h @ [(a, ta, pc)]) c'"
    if "as_inv j c'" "ca_geom c' = g" "set_tags ?lo c' = resident (ways g) (tags_to g a h @ [?t])"
      "\<forall>b. set_index g b \<noteq> ?lo \<longrightarrow> set_tags (set_index g b) c' = resident (ways g) (tags_to g b h)" for c'
  proof -
    have "set_tags (set_index g b) c' = resident (ways g) (tags_to g b (h @ [(a, ta, pc)]))" for b
      using that(3,4) tags_to_cong [of g a b h] by (cases "set_index g b = ?lo") (auto simp: tags_to_snoc)
    then show ?thesis using that(1,2) by (simp add: tracks_def)
  qed
  show ?thesis
  proof (rule as_findLine_ok [OF inv0 refl _ refl, of ta a pc])
    show "calcTag (ca_geom c0) ta \<noteq> 0" using assms(2) g0 by simp
  next
    assume "calcTag (ca_geom c0) ta \<notin> set (set_tags (set_index (ca_geom c0) a) c0)"
      and look: "as_findLine a ta pc c0 = Inr (None, c0)"
    then have miss: "?t \<notin> set ?R" using g0 tags0 by simp
    have inv1: "as_inv j (?off c0)" and g1: "ca_geom (?off c0) = g"
      and tags1: "\<And>b. set_tags (set_index g b) (?off c0) = resident (ways g) (tags_to g b h)"
      using inv0 g0 same_lines_inv [OF off] same_lines_tags [OF off] same_lines_tags [OF s0] tags
      by simp_all
    have m1: "?t \<notin> set (set_tags ?lo (?off c0))" using miss tags1 by simp
    obtain l c2 where f: "ca_fillLine_replace as_findLine2Replace a ta pc False (?off c0) =
        Inr ((l, if last ?R \<noteq> 0 then calcAddr4Tag g (last ?R) else 0), c2)"
      "as_inv j c2" "ca_geom c2 = g" "set_tags ?lo c2 = ?t # butlast ?R"
      "\<forall>b. set_index g b \<noteq> ?lo \<longrightarrow> set_tags (set_index g b) c2 = resident (ways g) (tags_to g b h)"
      using as_fill_ok [OF inv1, of ?t ta ?lo a pc] assms(2) m1 unfolding g1 tags1 by metis
    have "as_access (a, ta, pc) c = Inr (lru_outcome g h (a, ta, pc), c2)"
      using look f(1) miss by (simp add: ca_access_def ca_guarded_def c0_def [symmetric] lru_outcome_def)
    moreover have "tracks j g (h @ [(a, ta, pc)]) c2"
      using f(4) resident_miss [OF miss n] by (intro step f) simp
    ultimately show ?thesis by blast
  next
    fix l c1
    assume "calcTag (ca_geom c0) ta \<in> set (set_tags (set_index (ca_geom c0) a) c0)"
      and look: "as_findLine a ta pc c0 = Inr (Some l, c1)" and inv1: "as_inv j c1"
      and "ca_geom c1 = ca_geom c0"
      and "set_tags (set_index (ca_geom c0) a) c1 =
        calcTag (ca_geom c0) ta # remove1 (calcTag (ca_geom c0) ta) (set_tags (set_index (ca_geom c0) a) c0)"
      and "\<forall>b. set_index (ca_geom c0) b \<noteq> set_index (ca_geom c0) a \<longrightarrow>
        set_tags (set_index (ca_geom c0) b) c1 = set_tags (set_index (ca_geom c0) b) c0"
    then have hit: "?t \<in> set ?R" and g1: "ca_geom c1 = g" and t1: "set_tags ?lo c1 = ?t # remove1 ?t ?R"
      and o1: "\<forall>b. set_index g b \<noteq> ?lo \<longrightarrow> set_tags (set_index g b) c1 = resident (ways g) (tags_to g b h)"
      using g0 tags0 same_lines_tags [OF s0] tags by simp_all
    have "as_access (a, ta, pc) c = Inr (lru_outcome g h (a, ta, pc), ?off c1)"
      using look hit by (simp add: ca_access_def ca_guarded_def c0_def [symmetric] lru_outcome_def)
    moreover have "tracks j g (h @ [(a, ta, pc)]) (?off c1)"
      using inv1 g1 t1 o1 resident_hit [OF hit assms(2)] same_lines_inv [OF off] same_lines_tags [OF off]
      by (intro step) simp_all
    ultimately show ?thesis by blast
  qed
qed

text \<open>The array keeps the contract, with the outcomes of a least-recently-used cache.\<close>

interpretation as_lru: demand_cache as_access "lru_outcome g" "tracks j g"
    "\<lambda>(a, ta, pc). calcTag g ta \<noteq> 0"
  for g j
  by unfold_locales (use tracks_step in auto)

section \<open>Properties\<close>

lemma as_create_tracks:
  assumes "z \<le> y" and "y \<le> x" and "x \<le> 31" and "0 < unat a" and "unat a \<le> 2 ^ (x - y)"
    and "as_policy_of pol \<in> {Some LRU, Some PAR, Some UAR}"
  obtains c j where "as_create (2 ^ x) a (2 ^ y) (2 ^ z) pol xr pol0 l0 = Inr (False, c)"
    and "tracks j (ca_geom c) [] c" and "cg_log2AddrLs (ca_geom c) = y - z"
    and "cg_assoc (ca_geom c) = a" and "unat (cg_numLines (ca_geom c)) = 2 ^ (x - y)"
proof -
  obtain g j where g: "cg_create (2 ^ x) a (2 ^ y) (2 ^ z) xr = Inr g" "cg_wf j g"
      "cg_assoc g = a" "unat (cg_numLines g) = 2 ^ (x - y)" "cg_log2AddrLs g = y - z"
    using cg_create_wf [OF assms(1-5)] by metis
  obtain p where p: "as_policy_of pol = Some p" "p \<in> {LRU, PAR, UAR}" using assms(6) by auto
  define c where "c = \<lparr>ca_geom = g, ca_mem = (\<lambda>_. (li_zero l0)\<lparr>li_rrip := 0\<rparr>),
    ca_content = [0..<unat (cg_numLines g)], ca_goodInterface = False,
    as_irand = 0, as_policy = p, as_pc2tracker = (\<lambda>_. tr_new)\<rparr>"
  have pos: "cg_numLines g > 0" using g(4) by (simp add: word_less_nat_alt)
  have "as_create (2 ^ x) a (2 ^ y) (2 ^ z) pol xr pol0 l0 = Inr (False, c)"
    using pos by (simp add: as_create_def g(1) p(1) c_def)
  moreover have "tracks j (ca_geom c) [] c"
  proof -
    have inv: "as_inv j c" using g(2) p(2) by (simp add: as_inv_def c_def tr_new_def)
    have gc: "ca_geom c = g" by (simp add: c_def)
    have "set_tags (set_index g b) c = resident (ways g) (tags_to g b [])" for b
    proof -
      have fit: "set_index g b + ways g \<le> length (ca_content c)"
        using as_inv_fits [OF inv, of b] by (simp add: gc)
      have "set_tags (set_index g b) c = replicate (length (the_set (set_index g b) c)) 0"
        by (simp add: set_tags_def c_def li_zero_def li_invalidate_def li_clearTag_def map_replicate_const)
      also have "length (the_set (set_index g b) c) = ways g" using fit by (simp add: the_set_def gc)
      finally show ?thesis by (simp add: resident_def tags_to_def recency_def)
    qed
    with inv show ?thesis by (simp add: tracks_def gc)
  qed
  moreover have "cg_log2AddrLs (ca_geom c) = y - z" "cg_assoc (ca_geom c) = a"
      "unat (cg_numLines (ca_geom c)) = 2 ^ (x - y)"
    using g by (simp_all add: c_def)
  ultimately show thesis by (rule that)
qed

text \<open>
  C15. A set-associative array with policy \<open>lru\<close>, \<open>par\<close> or \<open>uar\<close>, of power-of-two sizes and any
  associativity of at most the number of lines, never fails on demand accesses, and is exactly a least-recently-used
  cache: an access hits when its tag is among the \<open>ways\<close> tags used last in its set, and the line it
  replaces otherwise is the one used least recently. The reference values, trackers and
  prefetch policies of \<open>par\<close> and \<open>uar\<close> have no influence on what is replaced.
\<close>

theorem as_demand_is_lru:
  assumes "z \<le> y" and "y \<le> x" and "x \<le> 31" and "0 < unat a" and "unat a \<le> 2 ^ (x - y)"
    and "as_policy_of pol \<in> {Some LRU, Some PAR, Some UAR}"
    and "\<forall>(p, tp, pc) \<in> set xs. 2 ^ (y - z) \<le> unat tp"
  shows "\<exists>c c'. as_create (2 ^ x) a (2 ^ y) (2 ^ z) pol xr pol0 l0 = Inr (False, c) \<and>
    run_accesses as_access xs c =
      Inr (map (\<lambda>k. lru_outcome (ca_geom c) (take k xs) (xs ! k)) [0..<length xs], c')"
proof -
  obtain c j where c: "as_create (2 ^ x) a (2 ^ y) (2 ^ z) pol xr pol0 l0 = Inr (False, c)"
      "tracks j (ca_geom c) [] c" "cg_log2AddrLs (ca_geom c) = y - z"
    using as_create_tracks [OF assms(1-6)] by metis
  have "\<forall>(p, tp, pc) \<in> set xs. calcTag (ca_geom c) tp \<noteq> 0"
    using assms(7) by (simp add: calcTag_nonzero c(3))
  from as_lru.run_outcomes [OF c(2), of xs] this c(1) show ?thesis by auto
qed

theorem as_demand_is_lru_witness:
  "\<exists>c c'. as_create (2 ^ 8) 2 (2 ^ 6) (2 ^ 0) ''UAR'' False LRU line_blank = Inr (False, c) \<and>
    run_accesses as_access [(64, 64, 0), (192, 192, 0), (64, 64, 0)] c =
      Inr ([lru_outcome (ca_geom c) [] (64, 64, 0),
            lru_outcome (ca_geom c) [(64, 64, 0)] (192, 192, 0),
            lru_outcome (ca_geom c) [(64, 64, 0), (192, 192, 0)] (64, 64, 0)], c')"
proof -
  have "as_policy_of ''UAR'' = Some UAR" by code_simp
  then show ?thesis
    using as_demand_is_lru [of 0 6 8 2 "''UAR''" "[(64, 64, 0), (192, 192, 0), (64, 64, 0)]" False LRU line_blank]
    by simp
qed

text \<open>
  With policy \<open>random\<close> and an associativity that is not a power of two, the replacement pointer
  runs over the rounded associativity. When it points past the ways of the set, the line behind
  the set is filled and moved to the front: the last tag of the set is pushed out of reach,
  but the address that is reported as replaced is the one of the line behind the set (none, when it was
  empty), so the owner is never told that the last line left.
\<close>

theorem as_random_unreported_eviction:
  assumes "cg_wf j (ca_geom c)" and "length (ca_content c) = unat (cg_numLines (ca_geom c))"
    and "distinct (ca_content c)" and "as_policy c = RANDOM"
    and "ways (ca_geom c) \<le> unat (as_irand c)" and "unat (as_irand c) < 2 ^ cg_log2Assoc (ca_geom c)"
    and "calcTag (ca_geom c) ta \<noteq> 0"
    and "calcTag (ca_geom c) ta \<notin> set (set_tags (set_index (ca_geom c) a) c)"
  shows "\<exists>l c'. ca_fillLine_replace as_findLine2Replace a ta pc False c =
      Inr ((l, let t = li_tag (ca_mem c l)
               in if t \<noteq> 0 \<and> t \<noteq> calcTag (ca_geom c) ta then calcAddr4Tag (ca_geom c) t else 0), c') \<and>
    l = ca_content c ! (set_index (ca_geom c) a + unat (as_irand c)) \<and>
    set_tags (set_index (ca_geom c) a) c' =
      calcTag (ca_geom c) ta # butlast (set_tags (set_index (ca_geom c) a) c)"
proof -
  let ?g = "ca_geom c" and ?n = "ways (ca_geom c)" and ?xs = "ca_content c" and ?r = "unat (as_irand c)"
  let ?lo = "set_index ?g a" and ?t = "calcTag ?g ta"
  have n: "0 < ?n" using assms(1) by (simp add: cg_wf_def)
  have fit: "?lo + ?n \<le> length ?xs" using set_index_fits [OF assms(1)] assms(2) by simp
  have fitr: "?lo + ?r < length ?xs"
  proof -
    obtain s where s: "s < 2 ^ j" "?lo = s * 2 ^ cg_log2Assoc ?g"
      using set_index_value [OF assms(1)] by blast
    have "?lo + ?r < (s + 1) * 2 ^ cg_log2Assoc ?g" using s(2) assms(6) by simp
    also have "\<dots> \<le> 2 ^ j * 2 ^ cg_log2Assoc ?g" using s(1) by (intro mult_right_mono) auto
    also have "\<dots> \<le> length ?xs" using assms(1,2) by (simp add: cg_wf_def power_add)
    finally show ?thesis .
  qed
  have len: "length (set_tags ?lo c) = ?n" using fit by (rule length_set_tags)
  have absent: "li_tag (ca_mem c (?xs ! (?lo + i))) \<noteq> ?t" if "i < ?n" for i
    using set_tags_nth [OF fit that] assms(8) that len by (metis nth_mem)
  have a0: "li_tag (ca_mem c (?xs ! ?lo)) \<noteq> ?t" using absent [OF n] by simp
  have lo: "?lo < length ?xs" using fit n by simp
  obtain f where f: "as_scan_down ?t ?lo ?n None c = Inr (None, Some f)"
    using as_scan_down_absent [OF fit absent, of None] n by auto
  obtain r where pick: "as_pick ?lo ?n (Some f) c = Inr (?lo + ?r, c\<lparr>as_irand := r\<rparr>)"
    using assms(4) by (simp add: as_pick_def Let_def)
  let ?m = "?xs ! (?lo + ?r)"
  define c1 where "c1 = ca_update ?m (li_setPC pc) (c\<lparr>as_irand := r\<rparr>)"
  define c2 where "c2 = ca_to_front ?lo (?lo + ?r) ?m c1"
  have pol1: "as_policy c1 = RANDOM" using assms(4) by (simp add: c1_def ca_update_def)
  have tags1: "li_tag (ca_mem c2 i) = li_tag (ca_mem c i)" "ca_geom c2 = ?g" for i
    by (simp_all add: c2_def c1_def ca_to_front_def ca_update_def li_setPC_def)
  have run: "as_findLine2Replace a ta pc False c = Inr (?m, c2)"
    using assms(4,5,7) a0 n
    by (simp add: as_findLine2Replace_def Let_def nth_res_in [OF lo] nth_res_in [OF fitr] f pick
        as_train_def c1_def [symmetric])
      (simp add: as_fill_demand_def pol1 c2_def)
  define c' where "c' = ca_update ?m (\<lambda>_. (ca_mem c2 ?m)\<lparr>li_tag := ?t, li_nDemand := 0\<rparr>) c2"
  have fill: "ca_fillLine_replace as_findLine2Replace a ta pc False c =
      Inr ((?m, let t = li_tag (ca_mem c ?m)
                in if t \<noteq> 0 \<and> t \<noteq> ?t then calcAddr4Tag ?g t else 0), c')"
    using assms(7)
    by (simp add: ca_fillLine_replace_def run Let_def tags1 li_isValid_def ca_setTag_def
        li_setTag_def c'_def)
  have "?m = ca_content c1 ! (?lo + ?r)" by (simp add: c1_def ca_update_def)
  then have content: "ca_content c2 = take ?lo ?xs @ front_at ?r (drop ?lo ?xs)"
    using ca_to_front_content [OF fitr]
    by (simp add: c2_def ca_to_front_def c1_def ca_update_def)
  have front: "take ?n (front_at ?r (drop ?lo ?xs)) = ?m # butlast (the_set ?lo c)"
  proof -
    obtain q where q: "?n = Suc q" using n by (cases ?n) auto
    have "q \<le> ?r" using q assms(5) by simp
    moreover have "butlast (take ?n (drop ?lo ?xs)) = take q (drop ?lo ?xs)"
      using fit q by (simp add: butlast_take)
    ultimately show ?thesis using fitr fit q
      by (simp add: front_at_def the_set_def min_def) arith
  qed
  have set': "the_set ?lo c' = ?m # butlast (the_set ?lo c)"
    using front fit by (simp add: the_set_def c'_def ca_update_def content tags1(2) min_def)
  have "?m \<notin> set (the_set ?lo c)"
  proof
    assume "?m \<in> set (the_set ?lo c)"
    then obtain i where i: "i < ?n" "?xs ! (?lo + i) = ?m"
      by (auto simp: the_set_def in_set_conv_nth)
    then have "?lo + i = ?lo + ?r"
      using nth_eq_iff_index_eq [OF assms(3), of "?lo + i" "?lo + ?r"] fit fitr by simp
    then show False using i(1) assms(5) by simp
  qed
  then have "set_tags ?lo c' = ?t # map (\<lambda>i. li_tag (ca_mem c i)) (butlast (the_set ?lo c))"
    using set' by (auto simp: set_tags_def c'_def ca_update_def tags1 dest: in_set_butlastD)
  then have "set_tags ?lo c' = ?t # butlast (set_tags ?lo c)" by (simp add: set_tags_def map_butlast)
  with fill show ?thesis by blast
qed

theorem as_random_unreported_eviction_witness:
  "\<exists>(c :: unit cache_assoc) l c'. as_policy c = RANDOM \<and> ways (ca_geom c) = 3 \<and>
    last (set_tags (set_index (ca_geom c) 64) c) = 102 \<and>
    ca_fillLine_replace as_findLine2Replace 64 64 0 False c = Inr ((l, 0), c') \<and>
    set_tags (set_index (ca_geom c) 64) c' = 1 # butlast (set_tags (set_index (ca_geom c) 64) c)"
proof -
  obtain g j where g: "cg_wf j g" "cg_assoc g = 3" "unat (cg_numLines g) = 4" "cg_log2AddrLs g = 6"
  proof (rule cg_create_wf [of 0 6 8 3 False])
  qed simp_all
  let ?mem = "\<lambda>i. \<lparr>li_tag = (if i < 3 then 100 + of_nat i else 0), li_prefetch = False, li_pc = 0,
    li_sign = 0, li_degree = 0, li_nDemand = 0, li_recent = False, li_rrip = 0\<rparr>"
  define c :: "unit cache_assoc" where "c = \<lparr>ca_geom = g, ca_mem = ?mem, ca_content = [0..<4],
    ca_goodInterface = False, as_irand = 3, as_policy = RANDOM, as_pc2tracker = (\<lambda>_. tr_new)\<rparr>"
  have k: "4 \<le> (2 :: nat) ^ cg_log2Assoc g"
  proof -
    have "3 \<le> (2 :: nat) ^ cg_log2Assoc g" using g(1,2) by (simp add: cg_wf_def)
    then have "2 \<le> cg_log2Assoc g" by (cases "cg_log2Assoc g" rule: nat.exhaust; cases "cg_log2Assoc g - 1") auto
    then show ?thesis using power_increasing [of 2 "cg_log2Assoc g" "2 :: nat"] by simp
  qed
  have idx: "set_index g 64 = 0"
  proof -
    obtain s where s: "set_index g 64 = s * 2 ^ cg_log2Assoc g" using set_index_value [OF g(1)] by blast
    have "set_index g 64 + 3 \<le> 4" using set_index_fits [OF g(1), of 64] g(2,3) by simp
    then show ?thesis using s k by (cases s) auto
  qed
  have tag: "calcTag g 64 = 1" by (simp add: calcTag_def g(4) drop_bit_eq_div)
  have tags: "set_tags 0 c = [100, 101, 102]"
    by (simp add: set_tags_def the_set_def c_def g(2) upt_rec)
  have pad: "li_tag (ca_mem c (ca_content c ! 3)) = 0" by (simp add: c_def nth_append)
  have "\<exists>l c'. ca_fillLine_replace as_findLine2Replace 64 64 0 False c =
      Inr ((l, let t = li_tag (ca_mem c l)
               in if t \<noteq> 0 \<and> t \<noteq> calcTag (ca_geom c) 64 then calcAddr4Tag (ca_geom c) t else 0), c') \<and>
    l = ca_content c ! (set_index (ca_geom c) 64 + unat (as_irand c)) \<and>
    set_tags (set_index (ca_geom c) 64) c' =
      calcTag (ca_geom c) 64 # butlast (set_tags (set_index (ca_geom c) 64) c)"
    using g k tag tags idx
    by (intro as_random_unreported_eviction [of j]) (simp_all add: c_def)
  then show ?thesis using idx tag tags pad g(2)
    by (intro exI [of _ c]) (auto simp: c_def)
qed

end
