(* ===== verification/Cache_Direct.thy ===== *)
theory Cache_Direct
  imports Cache_Client
begin

text \<open>
  \<open>core/cachecore.hpp\<close>, classes \<open>CacheDM\<close> and \<open>CacheDMSkew\<close>: the direct-mapped array, and
  the skewed one that looks for a line in three places. The random choice of the skewed
  array is a static variable of the function, a field here. Its loop \<open>while (1)\<close> has fuel. The facts: the
  direct-mapped array is the one-way case of the same contract that the associative one keeps;
  the loop of the skewed array ends within two rounds and what it fills is found again, but lookups of
  small addresses fail an assertion.
\<close>

section \<open>Direct mapped\<close>

definition dm_create ::
  "u32 \<Rightarrow> u32 \<Rightarrow> u32 \<Rightarrow> bool \<Rightarrow> 'a cache_line_scheme \<Rightarrow> 'a cache_array res" where
  "dm_create s b u xr l0 =
    bind_res (cg_create s 1 b u xr) (\<lambda>g.
      assert_res (cg_numLines g > 0)
       (Inr \<lparr>ca_geom = g, ca_mem = (\<lambda>_. li_zero l0),
             ca_content = [0..<unat (cg_numLines g)], ca_goodInterface = False\<rparr>))"

definition dm_findLineNoEffect :: "addr \<Rightarrow> addr \<Rightarrow> ('a cache_array, nat option) line_op" where
  "dm_findLineNoEffect a ta c =
    (let tag = calcTag (ca_geom c) ta
     in assert_res (tag \<noteq> 0)
      (nth_res (ca_content c) (set_index (ca_geom c) a) (\<lambda>l.
        if li_tag (ca_mem c l) = tag
        then assert_res (li_isValid (ca_mem c l)) (Inr (Some l, c))
        else Inr (None, c))))"

definition dm_findLine :: "addr \<Rightarrow> addr \<Rightarrow> addr \<Rightarrow> ('a cache_array, nat option) line_op" where
  "dm_findLine a ta pc c = dm_findLineNoEffect a ta c"

definition dm_findLine2Replace ::
  "addr \<Rightarrow> addr \<Rightarrow> addr \<Rightarrow> bool \<Rightarrow> ('a cache_array, nat) line_op" where
  "dm_findLine2Replace a ta pc prefetch c =
    nth_res (ca_content c) (set_index (ca_geom c) a) (\<lambda>l.
      Inr (l, ca_update l (li_set_prefetch prefetch) c))"

section \<open>Skewed\<close>

record 'a cache_skew = "'a cache_array" +
  sk_rand_number :: int

definition sk_create ::
  "u32 \<Rightarrow> u32 \<Rightarrow> u32 \<Rightarrow> int \<Rightarrow> 'a cache_line_scheme \<Rightarrow> 'a cache_skew res" where
  "sk_create s b u rnd l0 =
    bind_res (cg_create s 1 b u False) (\<lambda>g.
      assert_res (cg_numLines g > 0)
       (Inr \<lparr>ca_geom = g, ca_mem = (\<lambda>_. li_zero l0),
             ca_content = [0..<unat (cg_numLines g)], ca_goodInterface = False,
             sk_rand_number = rnd\<rparr>))"

definition li_set_recent :: "bool \<Rightarrow> 'a cache_line_scheme \<Rightarrow> 'a cache_line_scheme" where
  "li_set_recent v l = l\<lparr>li_recent := v\<rparr>"

definition sk_hash2 :: "addr \<Rightarrow> addr" where
  "sk_hash2 a = drop_bit 5 a XOR drop_bit 11 a"

definition sk_hash3 :: "addr \<Rightarrow> addr" where
  "sk_hash3 a = sk_hash2 a + (a AND 0xFF)"

definition sk_hit :: "nat \<Rightarrow> ('a cache_skew, nat option) line_op" where
  "sk_hit l c = assert_res (li_isValid (ca_mem c l)) (Inr (Some l, ca_update l (li_set_recent True) c))"

definition sk_findLineNoEffect :: "addr \<Rightarrow> addr \<Rightarrow> ('a cache_skew, nat option) line_op" where
  "sk_findLineNoEffect a ta c =
    (let tag = calcTag (ca_geom c) ta
     in assert_res (tag \<noteq> 0)
      (nth_res (ca_content c) (set_index (ca_geom c) a) (\<lambda>l0.
        if li_tag (ca_mem c l0) = tag then sk_hit l0 c
        else assert_res (calcTag (ca_geom c) (sk_hash2 a) \<noteq> 0)
          (nth_res (ca_content c) (set_index (ca_geom c) (sk_hash2 a)) (\<lambda>l1.
            if li_tag (ca_mem c l1) = tag then sk_hit l1 c
            else assert_res (calcTag (ca_geom c) (sk_hash3 a) \<noteq> 0)
              (nth_res (ca_content c) (set_index (ca_geom c) (sk_hash3 a)) (\<lambda>l3.
                if li_tag (ca_mem c l3) = tag then sk_hit l3 c
                else Inr (None, ca_update l0 (li_set_recent False)
                      (ca_update l1 (li_set_recent False)
                        (ca_update l3 (li_set_recent False) c))))))))))"

definition sk_findLine :: "addr \<Rightarrow> addr \<Rightarrow> addr \<Rightarrow> ('a cache_skew, nat option) line_op" where
  "sk_findLine a ta pc c = sk_findLineNoEffect a ta c"

text \<open>The choice among three lines that do not match: a line that was used recently loses its
  mark instead.\<close>

definition sk_take :: "nat \<Rightarrow> nat \<Rightarrow> nat \<Rightarrow> nat \<Rightarrow> bool \<Rightarrow> 'a cache_skew \<Rightarrow> nat \<times> 'a cache_skew" where
  "sk_take l1 l2 l3 l prefetch c =
    (l, ca_update l (li_set_prefetch prefetch) (ca_update l (li_set_recent True)
         (ca_update l3 (li_set_recent False) (ca_update l2 (li_set_recent False)
           (ca_update l1 (li_set_recent False) c)))))"

fun sk_loop :: "nat \<Rightarrow> nat \<Rightarrow> nat \<Rightarrow> nat \<Rightarrow> bool \<Rightarrow> ('a cache_skew, nat) line_op" where
  "sk_loop 0 l1 l2 l3 prefetch c = Inl Diverged"
| "sk_loop (Suc fuel) l1 l2 l3 prefetch c =
    (let c = (if sk_rand_number c > 2 then c\<lparr>sk_rand_number := 0\<rparr> else c)
     in if sk_rand_number c = 0 \<and> \<not> li_recent (ca_mem c l1)
        then Inr (sk_take l1 l2 l3 l1 prefetch c)
        else let c = (if sk_rand_number c = 0 then ca_update l1 (li_set_recent False) c else c);
                 l = (if sk_rand_number c = 1 then l2 else l3)
             in if li_recent (ca_mem c l)
                then sk_loop fuel l1 l2 l3 prefetch (ca_update l (li_set_recent False) c)
                else Inr (sk_take l1 l2 l3 l prefetch c))"

definition sk_findLine2Replace ::
  "addr \<Rightarrow> addr \<Rightarrow> addr \<Rightarrow> bool \<Rightarrow> ('a cache_skew, nat) line_op" where
  "sk_findLine2Replace a ta pc prefetch c =
    (let tag = calcTag (ca_geom c) ta
     in nth_res (ca_content c) (set_index (ca_geom c) a) (\<lambda>l1.
        if li_tag (ca_mem c l1) = tag
        then assert_res (tag \<noteq> 0 \<longrightarrow> li_isValid (ca_mem c l1)) (Inr (l1, c))
        else nth_res (ca_content c) (set_index (ca_geom c) (sk_hash2 a)) (\<lambda>l2.
          if li_tag (ca_mem c l2) = tag
          then assert_res (li_isValid (ca_mem c l2)) (Inr (l2, c))
          else let c = c\<lparr>sk_rand_number := sk_rand_number c + 1\<rparr>
               in nth_res (ca_content c) (set_index (ca_geom c) (sk_hash3 a)) (\<lambda>l3.
                    if li_tag (ca_mem c l3) = tag
                    then assert_res (li_isValid (ca_mem c l3)) (Inr (l3, c))
                    else sk_loop 2 l1 l2 l3 prefetch c))))"

section \<open>The direct-mapped array keeps the contract\<close>

definition dm_tracks :: "nat \<Rightarrow> cache_geom \<Rightarrow> access list \<Rightarrow> 'a cache_array \<Rightarrow> bool" where
  "dm_tracks j g h c \<longleftrightarrow> cg_wf j g \<and> cg_assoc g = 1 \<and> ca_geom c = g \<and>
    ca_content c = [0..<unat (cg_numLines g)] \<and>
    (\<forall>a. resident 1 (tags_to g a h) = [li_tag (ca_mem c (set_index g a))])"

lemma set_index_lt: "cg_wf j g \<Longrightarrow> set_index g a < unat (cg_numLines g)"
  using set_index_fits [of j g a] by (simp add: cg_wf_def)

lemma dm_step:
  assumes "dm_tracks j g h c" and "calcTag g ta \<noteq> 0"
  shows "\<exists>c'. ca_access dm_findLine dm_findLine2Replace (a, ta, pc) c =
      Inr (lru_outcome g h (a, ta, pc), c') \<and> dm_tracks j g (h @ [(a, ta, pc)]) c'"
proof -
  let ?t = "calcTag g ta" and ?i = "set_index g a"
  let ?old = "li_tag (ca_mem c ?i)"
  have g: "cg_wf j g" "cg_assoc g = 1" "ca_geom c = g" "ca_content c = [0..<unat (cg_numLines g)]"
    and r: "\<And>b. resident 1 (tags_to g b h) = [li_tag (ca_mem c (set_index g b))]"
    using assms(1) by (simp_all add: dm_tracks_def)
  have lt: "?i < unat (cg_numLines g)" using g(1) by (rule set_index_lt)
  have out: "lru_outcome g h (a, ta, pc) =
      (if ?old = ?t then (True, 0) else (False, if ?old = 0 then 0 else calcAddr4Tag g ?old))"
    using r [of a] by (auto simp: lru_outcome_def g(2) Let_def)
  have nxt: "resident 1 (tags_to g b (h @ [(a, ta, pc)])) =
      [if set_index g b = ?i then ?t else li_tag (ca_mem c (set_index g b))]" for b
  proof (cases "set_index g b = ?i")
    case True
    have rb: "resident 1 (tags_to g b h) = [?old]" using r [of b] True by simp
    have "resident 1 (tags_to g b h @ [?t]) = [?t]"
    proof (cases "?old = ?t")
      case hit: True
      then show ?thesis using resident_hit [of ?t 1 "tags_to g b h"] rb assms(2) by simp
    next
      case False
      then show ?thesis using resident_miss [of ?t 1 "tags_to g b h"] rb by simp
    qed
    then show ?thesis using True by (simp add: tags_to_snoc)
  next
    case False
    then show ?thesis using r [of b] by (simp add: tags_to_snoc eq_commute)
  qed
  show ?thesis
  proof (cases "?old = ?t")
    case True
    let ?c' = "c\<lparr>ca_goodInterface := False\<rparr>"
    have "ca_access dm_findLine dm_findLine2Replace (a, ta, pc) c = Inr ((True, 0), ?c')"
      using assms(2) lt True
      by (simp add: ca_access_def ca_guarded_def dm_findLine_def dm_findLineNoEffect_def g li_isValid_def)
    moreover have "dm_tracks j g (h @ [(a, ta, pc)]) ?c'"
      using g nxt True by (auto simp: dm_tracks_def)
    ultimately show ?thesis using out True by auto
  next
    case False
    define l where "l = (li_set_prefetch False (ca_mem c ?i))\<lparr>li_tag := ?t, li_nDemand := 0\<rparr>"
    let ?c' = "c\<lparr>ca_goodInterface := False, ca_mem := (ca_mem c)(?i := l)\<rparr>"
    have "ca_access dm_findLine dm_findLine2Replace (a, ta, pc) c =
        Inr ((False, if ?old = 0 then 0 else calcAddr4Tag g ?old), ?c')"
      using assms(2) lt False
      by (simp add: ca_access_def ca_guarded_def dm_findLine_def dm_findLineNoEffect_def g
          ca_fillLine_replace_def dm_findLine2Replace_def ca_update_def ca_setTag_def li_setTag_def
          li_isValid_def li_set_prefetch_def l_def Let_def)
    moreover have "dm_tracks j g (h @ [(a, ta, pc)]) ?c'"
      using g nxt by (auto simp: dm_tracks_def l_def)
    ultimately show ?thesis using out False by auto
  qed
qed

interpretation dm_lru: demand_cache "ca_access dm_findLine dm_findLine2Replace" "lru_outcome g"
    "dm_tracks j g" "\<lambda>(a, ta, pc). calcTag g ta \<noteq> 0"
  for g j
  by unfold_locales (use dm_step in auto)

section \<open>The skewed array\<close>

text \<open>The loop takes one of its three lines in at most two rounds, changing marks only.\<close>

definition marks_only :: "'a cache_skew \<Rightarrow> 'a cache_skew \<Rightarrow> bool" where
  "marks_only c c' \<longleftrightarrow> ca_geom c' = ca_geom c \<and> ca_content c' = ca_content c \<and>
    (\<forall>i. li_tag (ca_mem c' i) = li_tag (ca_mem c i))"

lemma marks_only_trans: "marks_only c c' \<Longrightarrow> marks_only c' c'' \<Longrightarrow> marks_only c c''"
  by (simp add: marks_only_def)

lemma marks_only_recent [simp]:
  "marks_only c (ca_update l (li_set_recent v) c)"
  "marks_only c (c\<lparr>sk_rand_number := r\<rparr>)"
  by (simp_all add: marks_only_def ca_update_def li_set_recent_def)

lemma sk_take_ok: "sk_take l1 l2 l3 l prefetch c = (l', c') \<Longrightarrow> l' = l \<and> marks_only c c'"
  by (auto simp: sk_take_def marks_only_def ca_update_def li_set_recent_def li_set_prefetch_def)

lemma sk_loop_one:
  assumes "\<not> li_recent (ca_mem c (if sk_rand_number c = 0 then l1 else if sk_rand_number c = 1 then l2 else l3))"
    and "sk_rand_number c \<le> 2"
  shows "\<exists>l c'. sk_loop (Suc fuel) l1 l2 l3 prefetch c = Inr (l, c') \<and> l \<in> {l1, l2, l3} \<and> marks_only c c'"
proof -
  obtain l c' where "sk_take l1 l2 l3 (if sk_rand_number c = 0 then l1 else if sk_rand_number c = 1 then l2 else l3) prefetch c = (l, c')"
    by fastforce
  moreover from sk_take_ok [OF this] have "l \<in> {l1, l2, l3}" "marks_only c c'" by auto
  ultimately show ?thesis using assms by (auto simp: Let_def)
qed

lemma sk_loop_two:
  "\<exists>l c'. sk_loop 2 l1 l2 l3 prefetch c = Inr (l, c') \<and> l \<in> {l1, l2, l3} \<and> marks_only c c'"
proof -
  define c0 where "c0 = (if sk_rand_number c > 2 then c\<lparr>sk_rand_number := 0\<rparr> else c)"
  let ?r = "sk_rand_number c0"
  let ?c1 = "if ?r = 0 then ca_update l1 (li_set_recent False) c0 else c0"
  let ?l = "if ?r = 1 then l2 else l3"
  have m0: "marks_only c c0" by (simp add: c0_def marks_only_def)
  have m1: "marks_only c0 ?c1" by (simp add: marks_only_def ca_update_def li_set_recent_def)
  have r: "?r \<le> 2" by (simp add: c0_def)
  have rn: "sk_rand_number ?c1 = ?r" by (simp add: ca_update_def)
  have unf: "sk_loop 2 l1 l2 l3 prefetch c =
    (if ?r = 0 \<and> \<not> li_recent (ca_mem c0 l1) then Inr (sk_take l1 l2 l3 l1 prefetch c0)
     else if li_recent (ca_mem ?c1 ?l)
     then sk_loop (Suc 0) l1 l2 l3 prefetch (ca_update ?l (li_set_recent False) ?c1)
     else Inr (sk_take l1 l2 l3 ?l prefetch ?c1))"
    by (simp only: numeral_2_eq_2 sk_loop.simps(2) [of "Suc 0"] c0_def [symmetric] Let_def rn)
  consider (a) "?r = 0 \<and> \<not> li_recent (ca_mem c0 l1)"
    | (b) "\<not> (?r = 0 \<and> \<not> li_recent (ca_mem c0 l1))" "li_recent (ca_mem ?c1 ?l)"
    | (c) "\<not> (?r = 0 \<and> \<not> li_recent (ca_mem c0 l1))" "\<not> li_recent (ca_mem ?c1 ?l)"
    by blast
  then show ?thesis
  proof cases
    case a
    obtain l c' where t: "sk_take l1 l2 l3 l1 prefetch c0 = (l, c')" by fastforce
    with a sk_take_ok [OF t] marks_only_trans [OF m0] show ?thesis by (auto simp: unf)
  next
    case c
    obtain l c' where t: "sk_take l1 l2 l3 ?l prefetch ?c1 = (l, c')" by fastforce
    have "marks_only c c'" using sk_take_ok [OF t] marks_only_trans [OF marks_only_trans [OF m0 m1]] by blast
    moreover have "l \<in> {l1, l2, l3}" using sk_take_ok [OF t] by auto
    ultimately show ?thesis using c t by (simp only: unf if_False) auto
  next
    case b
    let ?c2 = "ca_update ?l (li_set_recent False) ?c1"
    have m2: "marks_only ?c1 ?c2" by simp
    have rn2: "sk_rand_number ?c2 = ?r" by (simp add: ca_update_def)
    have old: "\<not> li_recent (ca_mem ?c2 (if sk_rand_number ?c2 = 0 then l1
        else if sk_rand_number ?c2 = 1 then l2 else l3))"
      unfolding rn2 by (auto simp: ca_update_def li_set_recent_def)
    have "sk_rand_number ?c2 \<le> 2" using r rn2 by simp
    from sk_loop_one [OF old this, of 0 prefetch] obtain l c' where s: "sk_loop (Suc 0) l1 l2 l3 prefetch ?c2 = Inr (l, c')"
        "l \<in> {l1, l2, l3}" "marks_only ?c2 c'"
      by blast
    have "marks_only c c'"
      using marks_only_trans [OF marks_only_trans [OF marks_only_trans [OF m0 m1] m2] s(3)] .
    then show ?thesis using b s(1,2) by (simp only: unf if_False if_True) auto
  qed
qed

section \<open>Properties\<close>

text \<open>
  C25. A direct-mapped array of power-of-two sizes never fails on demand accesses: an access hits
  exactly when the last access to its set had the same tag, and reports the line it replaces
  otherwise.
\<close>

theorem dm_demand_is_last_tag:
  assumes "z \<le> y" and "y \<le> x" and "x \<le> 31"
    and "\<forall>(p, tp, pc) \<in> set xs. 2 ^ (y - z) \<le> unat tp"
  shows "\<exists>c c'. dm_create (2 ^ x) (2 ^ y) (2 ^ z) xr l0 = Inr c \<and> cg_assoc (ca_geom c) = 1 \<and>
    run_accesses (ca_access dm_findLine dm_findLine2Replace) xs c =
      Inr (map (\<lambda>k. lru_outcome (ca_geom c) (take k xs) (xs ! k)) [0..<length xs], c')"
proof -
  obtain g j where g: "cg_create (2 ^ x) 1 (2 ^ y) (2 ^ z) xr = Inr g" "cg_wf j g"
      "cg_assoc g = 1" "unat (cg_numLines g) = 2 ^ (x - y)" "cg_log2AddrLs g = y - z"
  proof (rule cg_create_wf [OF assms(1-3), of 1 xr])
  qed simp_all
  define c where "c = \<lparr>ca_geom = g, ca_mem = (\<lambda>_. li_zero l0),
    ca_content = [0..<unat (cg_numLines g)], ca_goodInterface = False\<rparr>"
  have pos: "cg_numLines g > 0" using g(4) by (simp add: word_less_nat_alt)
  have c: "dm_create (2 ^ x) (2 ^ y) (2 ^ z) xr l0 = Inr c"
    using pos by (simp add: dm_create_def g(1) c_def)
  have "dm_tracks j g [] c"
    using g by (simp add: dm_tracks_def c_def resident_def tags_to_def recency_def li_zero_def
        li_invalidate_def li_clearTag_def)
  moreover have "\<forall>(p, tp, pc) \<in> set xs. calcTag g tp \<noteq> 0"
    using assms(4) by (simp add: calcTag_nonzero g(5))
  ultimately have "\<exists>c'. run_accesses (ca_access dm_findLine dm_findLine2Replace) xs c =
      Inr (map (\<lambda>k. lru_outcome g (take k xs) (xs ! k)) [0..<length xs], c')"
    using dm_lru.run_outcomes [of j g "[]" c xs] by auto
  moreover have gc: "ca_geom c = g" by (simp add: c_def)
  ultimately obtain c' where "run_accesses (ca_access dm_findLine dm_findLine2Replace) xs c =
      Inr (map (\<lambda>k. lru_outcome (ca_geom c) (take k xs) (xs ! k)) [0..<length xs], c')"
    by auto
  with c g(3) gc show ?thesis by blast
qed

theorem dm_demand_is_last_tag_witness:
  "\<exists>c c'. dm_create (2 ^ 8) (2 ^ 6) (2 ^ 0) False line_blank = Inr c \<and>
    run_accesses (ca_access dm_findLine dm_findLine2Replace) [(64, 64, 0), (320, 320, 0)] c =
      Inr ([lru_outcome (ca_geom c) [] (64, 64, 0),
            lru_outcome (ca_geom c) [(64, 64, 0)] (320, 320, 0)], c')"
  using dm_demand_is_last_tag [of 0 6 8 "[(64, 64, 0), (320, 320, 0)]" False line_blank] by auto

lemma ca_setTag_Inr:
  "t \<noteq> 0 \<Longrightarrow> ca_setTag l t c = Inr (ca_update l (\<lambda>_. (ca_mem c l)\<lparr>li_tag := t, li_nDemand := 0\<rparr>) c)"
  by (simp add: ca_setTag_def li_setTag_def)

text \<open>The three places of an address.\<close>

definition sk_places :: "cache_geom \<Rightarrow> addr \<Rightarrow> addr list" where
  "sk_places g a = [a, sk_hash2 a, sk_hash3 a]"

lemma sk_find_present:
  assumes "cg_wf j (ca_geom c)" and "length (ca_content c) = unat (cg_numLines (ca_geom c))"
    and "calcTag (ca_geom c) ta = t" and "t \<noteq> 0"
    and "calcTag (ca_geom c) (sk_hash2 a) \<noteq> 0" and "calcTag (ca_geom c) (sk_hash3 a) \<noteq> 0"
    and "\<exists>b \<in> set (sk_places (ca_geom c) a).
      li_tag (ca_mem c (ca_content c ! set_index (ca_geom c) b)) = t"
  shows "\<exists>l c'. sk_findLine a ta pc c = Inr (Some l, c') \<and> li_tag (ca_mem c' l) = t"
proof -
  have lt: "set_index (ca_geom c) b < length (ca_content c)" for b
    using set_index_lt [OF assms(1)] assms(2) by simp
  let ?T = "\<lambda>b. li_tag (ca_mem c (ca_content c ! set_index (ca_geom c) b))"
  consider "?T a = t" | "?T a \<noteq> t" "?T (sk_hash2 a) = t"
    | "?T a \<noteq> t" "?T (sk_hash2 a) \<noteq> t" "?T (sk_hash3 a) = t"
    using assms(7) by (auto simp: sk_places_def)
  then show ?thesis
    by cases (use assms(3-6) in \<open>auto simp: sk_findLine_def sk_findLineNoEffect_def Let_def
      nth_res_in [OF lt] sk_hit_def li_isValid_def ca_update_def li_set_recent_def\<close>)
qed

text \<open>
  A fill of the skewed array always returns, with one of the three places of the address,
  after at most two rounds of its loop, and a lookup of the address then finds the tag, when the second and third
  place do not have the hash zero.
\<close>

theorem sk_fill_then_hit:
  assumes "cg_wf j (ca_geom c)" and "length (ca_content c) = unat (cg_numLines (ca_geom c))"
    and "calcTag (ca_geom c) ta \<noteq> 0"
    and "calcTag (ca_geom c) (sk_hash2 a) \<noteq> 0" and "calcTag (ca_geom c) (sk_hash3 a) \<noteq> 0"
  shows "\<exists>l r c' l' c''. ca_fillLine_replace sk_findLine2Replace a ta pc prefetch c = Inr ((l, r), c') \<and>
    l \<in> (\<lambda>b. ca_content c ! set_index (ca_geom c) b) ` set (sk_places (ca_geom c) a) \<and>
    sk_findLine a ta pc' c' = Inr (Some l', c'') \<and> li_tag (ca_mem c'' l') = calcTag (ca_geom c) ta"
proof -
  let ?g = "ca_geom c" and ?t = "calcTag (ca_geom c) ta"
  have lt: "set_index ?g b < length (ca_content c)" for b
    using set_index_lt [OF assms(1)] assms(2) by simp
  let ?L = "\<lambda>b. ca_content c ! set_index ?g b"
  let ?cr = "c\<lparr>sk_rand_number := sk_rand_number c + 1\<rparr>"
  obtain l c1 where v: "sk_findLine2Replace a ta pc prefetch c = Inr (l, c1)" "l \<in> {?L a, ?L (sk_hash2 a), ?L (sk_hash3 a)}"
      "marks_only c c1"
  proof -
    obtain l c1 where lo: "sk_loop 2 (?L a) (?L (sk_hash2 a)) (?L (sk_hash3 a)) prefetch ?cr = Inr (l, c1)"
        "l \<in> {?L a, ?L (sk_hash2 a), ?L (sk_hash3 a)}" "marks_only ?cr c1"
      using sk_loop_two by blast
    have m: "marks_only c c1" using marks_only_trans [OF marks_only_recent(2) lo(3)] .
    have valid: "li_isValid (ca_mem c i)" if "li_tag (ca_mem c i) = ?t" for i
      using that assms(3) by (simp add: li_isValid_def)
    have self: "marks_only c c" by (simp add: marks_only_def)
    consider (1) "li_tag (ca_mem c (?L a)) = ?t"
      | (2) "li_tag (ca_mem c (?L a)) \<noteq> ?t" "li_tag (ca_mem c (?L (sk_hash2 a))) = ?t"
      | (3) "li_tag (ca_mem c (?L a)) \<noteq> ?t" "li_tag (ca_mem c (?L (sk_hash2 a))) \<noteq> ?t"
          "li_tag (ca_mem c (?L (sk_hash3 a))) = ?t"
      | (4) "li_tag (ca_mem c (?L a)) \<noteq> ?t" "li_tag (ca_mem c (?L (sk_hash2 a))) \<noteq> ?t"
          "li_tag (ca_mem c (?L (sk_hash3 a))) \<noteq> ?t"
      by blast
    then show thesis
    proof cases
      case 1
      then show thesis using that [of "?L a" c] valid [OF 1] self
        by (simp add: sk_findLine2Replace_def nth_res_in [OF lt])
    next
      case 2
      then show thesis using that [of "?L (sk_hash2 a)" c] valid [OF 2(2)] self
        by (simp add: sk_findLine2Replace_def nth_res_in [OF lt])
    next
      case 3
      have "marks_only c ?cr" by simp
      then show thesis using 3 that [of "?L (sk_hash3 a)" ?cr] valid [OF 3(3)]
        by (simp add: sk_findLine2Replace_def nth_res_in [OF lt])
    next
      case 4
      then show thesis using that [OF _ lo(2) m] lo(1)
        by (simp add: sk_findLine2Replace_def nth_res_in [OF lt] del: sk_loop.simps)
    qed
  qed
  have g1: "ca_geom c1 = ?g" "ca_content c1 = ca_content c" using v(3) by (simp_all add: marks_only_def)
  define c2 where "c2 = ca_update l (\<lambda>_. (ca_mem c1 l)\<lparr>li_tag := ?t, li_nDemand := 0\<rparr>) c1"
  have g2: "ca_geom c2 = ?g" "ca_content c2 = ca_content c" "li_tag (ca_mem c2 l) = ?t"
    by (simp_all add: c2_def ca_update_def g1)
  obtain r where fill: "ca_fillLine_replace sk_findLine2Replace a ta pc prefetch c = Inr ((l, r), c2)"
    using assms(3) by (simp add: ca_fillLine_replace_def v(1) g1 Let_def ca_setTag_Inr c2_def)
  have "\<exists>b \<in> set (sk_places (ca_geom c2) a). li_tag (ca_mem c2 (ca_content c2 ! set_index (ca_geom c2) b)) = ?t"
    using v(2) g2 by (auto simp: sk_places_def)
  then obtain l' c'' where find': "sk_findLine a ta pc' c2 = Inr (Some l', c'')" "li_tag (ca_mem c'' l') = ?t"
    using sk_find_present [of j c2 ta ?t a pc'] assms g2 by auto
  have "l \<in> ?L ` set (sk_places ?g a)" using v(2) by (auto simp: sk_places_def)
  with fill find' show ?thesis by blast
qed

theorem sk_fill_then_hit_witness:
  "\<exists>(c :: unit cache_skew) l r c' l' c''. sk_create 256 64 1 0 \<lparr>li_tag = 0, li_prefetch = False, li_pc = 0,
      li_sign = 0, li_degree = 0, li_nDemand = 0, li_recent = False, li_rrip = 0\<rparr> = Inr c \<and>
    ca_fillLine_replace sk_findLine2Replace 1048576 1048576 0 False c = Inr ((l, r), c') \<and>
    sk_findLine 1048576 1048576 0 c' = Inr (Some l', c'') \<and> li_tag (ca_mem c'' l') = 16384"
proof -
  obtain g j where g: "cg_create 256 1 64 1 False = Inr g" "cg_wf j g"
      "unat (cg_numLines g) = 4" "cg_log2AddrLs g = 6"
  proof (rule cg_create_wf [of 0 6 8 1 False])
  qed simp_all
  let ?l0 = "\<lparr>li_tag = 0, li_prefetch = False, li_pc = 0, li_sign = 0, li_degree = 0,
    li_nDemand = 0, li_recent = False, li_rrip = 0\<rparr>"
  define c :: "unit cache_skew" where "c = \<lparr>ca_geom = g, ca_mem = (\<lambda>_. li_zero ?l0),
    ca_content = [0..<unat (cg_numLines g)], ca_goodInterface = False, sk_rand_number = 0\<rparr>"
  have c: "sk_create 256 64 1 0 ?l0 = Inr c"
    using g(3) by (simp add: sk_create_def g(1) c_def word_less_nat_alt)
  have tag: "calcTag (ca_geom c) 1048576 = 16384" "calcTag (ca_geom c) (sk_hash2 1048576) = 520"
      "calcTag (ca_geom c) (sk_hash3 1048576) = 520"
    by (simp_all add: c_def calcTag_def g(4) sk_hash2_def sk_hash3_def)
  have "\<exists>l r c' l' c''. ca_fillLine_replace sk_findLine2Replace 1048576 1048576 0 False c = Inr ((l, r), c') \<and>
    l \<in> (\<lambda>b. ca_content c ! set_index (ca_geom c) b) ` set (sk_places (ca_geom c) 1048576) \<and>
    sk_findLine 1048576 1048576 0 c' = Inr (Some l', c'') \<and>
    li_tag (ca_mem c'' l') = calcTag (ca_geom c) 1048576"
    by (rule sk_fill_then_hit [of j]) (use g tag in \<open>simp_all add: c_def\<close>)
  then show ?thesis using c tag(1) by metis
qed

text \<open>
  A lookup of an address below \<open>32\<close> lines fails an assertion on the second hash unless
  its first place holds it: so does every lookup of such an address in an empty skewed array.
\<close>

theorem sk_small_address_asserts:
  assumes "cg_wf j (ca_geom c)" and "length (ca_content c) = unat (cg_numLines (ca_geom c))"
    and "2 ^ cg_log2AddrLs (ca_geom c) \<le> unat a" and "unat a < 2 ^ (cg_log2AddrLs (ca_geom c) + 5)"
    and "li_tag (ca_mem c (ca_content c ! set_index (ca_geom c) a)) \<noteq> calcTag (ca_geom c) a"
  shows "sk_findLine a a pc c = Inl Assert_failed"
proof -
  let ?k = "cg_log2AddrLs (ca_geom c)"
  have far: "drop_bit (?k + m) a = 0" if "5 \<le> m" for m
  proof -
    have "(2 :: nat) ^ (?k + 5) \<le> 2 ^ (?k + m)" using that by (intro power_increasing) auto
    with assms(4) have "unat a < 2 ^ (?k + m)" by (rule less_le_trans)
    then show ?thesis by (simp add: word_unat_eq_iff unat_drop_bit)
  qed
  have "calcTag (ca_geom c) (sk_hash2 a) = 0"
    using far [of 5] far [of 11] by (simp add: calcTag_def sk_hash2_def drop_bit_xor)
  moreover have "calcTag (ca_geom c) a \<noteq> 0" using assms(3) by (simp add: calcTag_nonzero)
  moreover have "set_index (ca_geom c) b < length (ca_content c)" for b
    using set_index_lt [OF assms(1)] assms(2) by simp
  ultimately show ?thesis using assms(5) by (simp add: sk_findLine_def sk_findLineNoEffect_def)
qed

theorem sk_small_address_asserts_witness:
  "\<exists>c. sk_create 256 64 1 0 line_blank = Inr c \<and> sk_findLine 128 128 0 c = Inl Assert_failed"
proof -
  obtain g j where g: "cg_create 256 1 64 1 False = Inr g" "cg_wf j g"
      "unat (cg_numLines g) = 4" "cg_log2AddrLs g = 6"
  proof (rule cg_create_wf [of 0 6 8 1 False])
  qed simp_all
  define c where "c = \<lparr>ca_geom = g, ca_mem = (\<lambda>_. li_zero line_blank),
    ca_content = [0..<unat (cg_numLines g)], ca_goodInterface = False, sk_rand_number = 0\<rparr>"
  have "sk_create 256 64 1 0 line_blank = Inr c"
    using g(3) by (simp add: sk_create_def g(1) c_def word_less_nat_alt)
  moreover have "sk_findLine 128 128 0 c = Inl Assert_failed"
    by (rule sk_small_address_asserts [of j])
      (use g in \<open>simp_all add: c_def calcTag_def li_zero_def li_invalidate_def li_clearTag_def\<close>)
  ultimately show ?thesis by blast
qed

end
