(* ===== verification/Cache_Ship.thy ===== *)
theory Cache_Ship
  imports Cache_Client
begin

text \<open>
  \<open>core/cachecore.hpp\<close>, class \<open>CacheSHIP\<close>: replacement by predicted re-reference. The class is
  a template over the line state: the operations it calls on a line are a record of functions,
  with \<open>StateGeneric\<close> as its value, the state of the file whose SHIP operations are
  assertions that fail. \<open>StateGenericShip\<close> has the state but not the other operations of a line,
  so the array cannot be made with it: it is a record of its own. The table \<open>SHCT\<close> starts with
  what the memory held. The loop that ages a set until a line is distant has fuel. The facts: with
  \<open>StateGeneric\<close> no line can ever be replaced; most of the table is never initialised.
\<close>

section \<open>The line states\<close>

definition RRIP_M :: u8 where "RRIP_M = 4"

record 'a ship_ops =
  so_getSignature :: "'a cache_line_scheme \<Rightarrow> addr"
  so_setSignature :: "addr \<Rightarrow> 'a cache_line_scheme \<Rightarrow> 'a cache_line_scheme res"
  so_getOutcome :: "'a cache_line_scheme \<Rightarrow> bool"
  so_setOutcome :: "bool \<Rightarrow> 'a cache_line_scheme \<Rightarrow> 'a cache_line_scheme res"
  so_getRRPV :: "'a cache_line_scheme \<Rightarrow> u8"
  so_setRRPV :: "u8 \<Rightarrow> 'a cache_line_scheme \<Rightarrow> 'a cache_line_scheme res"
  so_incRRPV :: "'a cache_line_scheme \<Rightarrow> 'a cache_line_scheme res"

definition StateGeneric :: "'a ship_ops" where
  "StateGeneric = \<lparr>so_getSignature = (\<lambda>l. 0), so_setSignature = (\<lambda>a l. Inl Assert_failed),
    so_getOutcome = (\<lambda>l. False), so_setOutcome = (\<lambda>a l. Inl Assert_failed),
    so_getRRPV = (\<lambda>l. 0), so_setRRPV = (\<lambda>a l. Inl Assert_failed),
    so_incRRPV = (\<lambda>l. Inl Assert_failed)\<rparr>"

text \<open>
  The line with SHIP state has no prefetch flag, no program counter and no counters: the class has
  none of the operations \<open>set_prefetch\<close>, \<open>getSign\<close>, \<open>isPrefetch\<close> that every array of the file calls.
\<close>

record StateGenericShip =
  ss_tag :: addr
  ss_rrpv :: u8
  ss_signature :: addr
  ss_outcome :: bool

definition ss_setTag :: "addr \<Rightarrow> StateGenericShip \<Rightarrow> StateGenericShip res" where
  "ss_setTag a l = assert_res (a \<noteq> 0) (Inr (l\<lparr>ss_tag := a\<rparr>))"

definition ss_initSHIP :: "StateGenericShip \<Rightarrow> StateGenericShip" where
  "ss_initSHIP l = l\<lparr>ss_rrpv := RRIP_M - 1, ss_signature := 0, ss_outcome := False\<rparr>"

definition ss_clearTag :: "StateGenericShip \<Rightarrow> StateGenericShip" where
  "ss_clearTag l = ss_initSHIP (l\<lparr>ss_tag := 0\<rparr>)"

definition ss_setRRPV :: "u8 \<Rightarrow> StateGenericShip \<Rightarrow> StateGenericShip" where
  "ss_setRRPV a l = l\<lparr>ss_rrpv := (if a > RRIP_M - 1 then RRIP_M - 1 else a)\<rparr>"

definition ss_incRRPV :: "StateGenericShip \<Rightarrow> StateGenericShip" where
  "ss_incRRPV l = (if ss_rrpv l < RRIP_M - 1 then l\<lparr>ss_rrpv := ss_rrpv l + 1\<rparr> else l)"

definition ss_isValid :: "StateGenericShip \<Rightarrow> bool" where
  "ss_isValid l \<longleftrightarrow> ss_tag l \<noteq> 0"

text \<open>The value stays below the maximum; a line in range that is aged three times is distant.\<close>

lemma ss_rrpv_bounded:
  "ss_rrpv (ss_clearTag l) < RRIP_M" "ss_rrpv (ss_setRRPV a l) < RRIP_M"
  "ss_rrpv l < RRIP_M \<Longrightarrow> ss_rrpv (ss_incRRPV l) < RRIP_M"
  by (auto simp: ss_clearTag_def ss_initSHIP_def ss_setRRPV_def ss_incRRPV_def RRIP_M_def
      word_less_nat_alt unat_word_ariths)

lemma ss_three_rounds:
  assumes "ss_rrpv l < RRIP_M"
  shows "ss_rrpv ((ss_incRRPV ^^ 3) l) = RRIP_M - 1"
proof -
  have "ss_rrpv l = 0 \<or> ss_rrpv l = 1 \<or> ss_rrpv l = 2 \<or> ss_rrpv l = 3"
    using assms by (simp add: RRIP_M_def word_less_nat_alt word_unat_eq_iff) arith
  then show ?thesis by (auto simp: ss_incRRPV_def RRIP_M_def numeral_3_eq_3)
qed

section \<open>The array\<close>

record 'a cache_ship = "'a cache_array" +
  sh_SHCT :: "u8 list"
  sh_log2shct :: nat

text \<open>\<open>zero\<close> is the line after \<open>initialize\<close> and \<open>invalidate\<close>, \<open>old\<close> the memory of the table.
  The bound of the clearing loop is the exclusive or of the code.\<close>

definition sh_create ::
  "u32 \<Rightarrow> u32 \<Rightarrow> u32 \<Rightarrow> u32 \<Rightarrow> u32 \<Rightarrow> (nat \<Rightarrow> u8) \<Rightarrow> 'a cache_line_scheme \<Rightarrow> 'a cache_ship res" where
  "sh_create s a b u shct_size old zero =
    bind_res (cg_create s a b u False) (\<lambda>g.
      assert_res (cg_numLines g > 0)
       (assert_res (shct_size < 31)
         (let n = 2 ^ (unat shct_size + 1);
              tab = fold (\<lambda>j t. t[j := 0]) [0..<unat (2 XOR shct_size)] (map old [0..<n])
          in Inr \<lparr>ca_geom = g, ca_mem = (\<lambda>_. zero), ca_content = [0..<unat (cg_numLines g)],
                  ca_goodInterface = False, sh_SHCT = tab, sh_log2shct = unat shct_size\<rparr>)))"

definition sh_signature :: "nat \<Rightarrow> addr \<Rightarrow> addr" where
  "sh_signature log2shct pc =
    (pc XOR (drop_bit 1 pc + (pc AND 0xFFFFFFFF))) AND (push_bit log2shct 2 - 1)"

definition sh_line ::
  "nat \<Rightarrow> ('a cache_line_scheme \<Rightarrow> 'a cache_line_scheme res) \<Rightarrow> 'a cache_ship \<Rightarrow> 'a cache_ship res" where
  "sh_line i f c = bind_res (f (ca_mem c i)) (\<lambda>l. Inr (ca_update i (\<lambda>_. l) c))"

fun sh_scan_tag :: "addr \<Rightarrow> nat \<Rightarrow> nat \<Rightarrow> 'a cache_ship \<Rightarrow> nat option res" where
  "sh_scan_tag tag l 0 c = Inr None"
| "sh_scan_tag tag l (Suc k) c =
    nth_res (ca_content c) l (\<lambda>i.
      if li_tag (ca_mem c i) = tag then Inr (Some i) else sh_scan_tag tag (l + 1) k c)"

text \<open>The result of a search that finds nothing is dereferenced.\<close>

definition sh_findLineNoEffect :: "addr \<Rightarrow> addr \<Rightarrow> ('a cache_ship, nat option) line_op" where
  "sh_findLineNoEffect a ta c =
    bind_res (sh_scan_tag (calcTag (ca_geom c) ta) (set_index (ca_geom c) a) (ways (ca_geom c)) c)
      (\<lambda>r. deref r (\<lambda>i. Inr (Some i, c)))"

definition sh_findLine :: "'a ship_ops \<Rightarrow> addr \<Rightarrow> addr \<Rightarrow> addr \<Rightarrow> ('a cache_ship, nat option) line_op" where
  "sh_findLine ops a ta pc c =
    bind_res (sh_scan_tag (calcTag (ca_geom c) ta) (set_index (ca_geom c) a) (ways (ca_geom c)) c) (\<lambda>r.
      case r of
        None \<Rightarrow> Inr (None, c)
      | Some i \<Rightarrow>
          assert_res (li_isValid (ca_mem c i))
           (let sig = unat (sh_signature (sh_log2shct c) pc)
            in bind_res (sh_line i (so_setOutcome ops True) c) (\<lambda>c.
                 nth_res (sh_SHCT c) sig (\<lambda>v.
                   let c = (if v < 7 then c\<lparr>sh_SHCT := (sh_SHCT c)[sig := v + 1]\<rparr> else c)
                   in bind_res (sh_line i (so_setRRPV ops 0) c) (\<lambda>c. Inr (Some i, c))))))"

text \<open>One scan of the set for a line that matches or can be replaced, and one round of ageing.\<close>

fun sh_scan :: "'a ship_ops \<Rightarrow> addr \<Rightarrow> nat \<Rightarrow> nat \<Rightarrow> 'a cache_ship \<Rightarrow> (nat option \<times> nat option) res" where
  "sh_scan ops tag l 0 c = Inr (None, None)"
| "sh_scan ops tag l (Suc k) c =
    nth_res (ca_content c) l (\<lambda>i.
      if li_tag (ca_mem c i) = tag then Inr (Some i, None)
      else if \<not> li_isValid (ca_mem c i) then Inr (None, Some i)
      else if so_getRRPV ops (ca_mem c i) \<ge> RRIP_M - 1 then Inr (None, Some i)
      else sh_scan ops tag (l + 1) k c)"

fun sh_age :: "'a ship_ops \<Rightarrow> nat \<Rightarrow> nat \<Rightarrow> 'a cache_ship \<Rightarrow> 'a cache_ship res" where
  "sh_age ops l 0 c = Inr c"
| "sh_age ops l (Suc k) c =
    nth_res (ca_content c) l (\<lambda>i. bind_res (sh_line i (so_incRRPV ops) c) (sh_age ops (l + 1) k))"

fun sh_choose :: "'a ship_ops \<Rightarrow> addr \<Rightarrow> nat \<Rightarrow> nat \<Rightarrow> nat \<Rightarrow> 'a cache_ship \<Rightarrow>
    ((nat option \<times> nat option) \<times> 'a cache_ship) res" where
  "sh_choose ops tag lo n 0 c = Inl Diverged"
| "sh_choose ops tag lo n (Suc fuel) c =
    bind_res (sh_scan ops tag lo n c) (\<lambda>r.
      if r = (None, None) then bind_res (sh_age ops lo n c) (sh_choose ops tag lo n fuel)
      else Inr (r, c))"

definition sh_untrain :: "'a ship_ops \<Rightarrow> nat \<Rightarrow> 'a cache_ship \<Rightarrow> 'a cache_ship res" where
  "sh_untrain ops i c =
    (let l = ca_mem c i; m = unat (so_getSignature ops l)
     in if li_isValid l \<and> \<not> so_getOutcome ops l
        then nth_res (sh_SHCT c) m (\<lambda>v.
               Inr (if v > 0 then c\<lparr>sh_SHCT := (sh_SHCT c)[m := v - 1]\<rparr> else c))
        else Inr c)"

definition sh_findLine2Replace ::
  "'a ship_ops \<Rightarrow> nat \<Rightarrow> addr \<Rightarrow> addr \<Rightarrow> addr \<Rightarrow> bool \<Rightarrow> ('a cache_ship, nat) line_op" where
  "sh_findLine2Replace ops fuel a ta pc prefetch c =
    (let tag = calcTag (ca_geom c) ta; sig = sh_signature (sh_log2shct c) pc
     in assert_res (tag \<noteq> 0)
      (bind_res (sh_choose ops tag (set_index (ca_geom c) a) (ways (ca_geom c)) fuel c)
        (\<lambda>((lineHit, lineFree), c).
          deref (case lineHit of None \<Rightarrow> lineFree | Some i \<Rightarrow> Some i) (\<lambda>i.
            bind_res (sh_untrain ops i
                (if lineHit = None then ca_update i (li_set_prefetch prefetch) c else c)) (\<lambda>c.
              bind_res (sh_line i (so_setOutcome ops False) c) (\<lambda>c.
                bind_res (sh_line i (so_setSignature ops sig) c) (\<lambda>c.
                  nth_res (sh_SHCT c) (unat sig) (\<lambda>v.
                    bind_res (sh_line i (so_setRRPV ops (if v = 0 then RRIP_M - 1 else RRIP_M div 2)) c)
                      (\<lambda>c. Inr (i, c))))))))))"

section \<open>Properties\<close>

text \<open>
  With the line state \<open>StateGeneric\<close>, the only one in the repository that has every operation the class
  calls, \<open>CacheSHIP\<close> can replace no line: each request ends in one of the failing
  assertions, in a set with a free line as well as in a full one.
\<close>

theorem sh_generic_never_replaces:
  assumes "set_index (ca_geom c) a + ways (ca_geom c) \<le> length (ca_content c)"
    and "0 < ways (ca_geom c)" and "calcTag (ca_geom c) ta \<noteq> 0" and "sh_SHCT c \<noteq> []"
  shows "sh_findLine2Replace StateGeneric (Suc fuel) a ta pc prefetch c = Inl Assert_failed"
proof -
  let ?lo = "set_index (ca_geom c) a" and ?n = "ways (ca_geom c)" and ?t = "calcTag (ca_geom c) ta"
  have scan: "\<exists>r. sh_scan StateGeneric tag l k c = Inr r" if "l + k \<le> length (ca_content c)" for tag l k
    using that by (induction k arbitrary: l) auto
  have age: "sh_age StateGeneric ?lo ?n c = Inl Assert_failed"
    using assms(1,2) by (cases ?n) (simp_all add: sh_line_def StateGeneric_def)
  obtain r where r: "sh_scan StateGeneric ?t ?lo ?n c = Inr r" using scan [OF assms(1)] by blast
  show ?thesis
  proof (cases "r = (None, None)")
    case True
    then show ?thesis using assms(3) r age by (simp add: sh_findLine2Replace_def)
  next
    case False
    have un: "\<exists>c2. sh_untrain StateGeneric i (ca_update i f c) = Inr c2"
        "\<exists>c2. sh_untrain StateGeneric i c = Inr c2" for i f
      using assms(4) by (simp_all add: sh_untrain_def StateGeneric_def ca_update_def Let_def)
    have fails: "sh_line i (so_setOutcome StateGeneric v) c2 = Inl Assert_failed" for i v c2
      by (simp add: sh_line_def StateGeneric_def)
    obtain h f where hf: "r = (h, f)" by (cases r)
    show ?thesis
    proof (cases h)
      case None
      then obtain i where "f = Some i" using False hf by (cases f) auto
      moreover obtain c2 where "sh_untrain StateGeneric i (ca_update i (li_set_prefetch prefetch) c) = Inr c2"
        using un(1) by blast
      ultimately show ?thesis using assms(3) r hf None by (simp add: sh_findLine2Replace_def fails)
    next
      case (Some i)
      moreover obtain c2 where "sh_untrain StateGeneric i c = Inr c2" using un(2) by blast
      ultimately show ?thesis using assms(3) r hf by (simp add: sh_findLine2Replace_def fails)
    qed
  qed
qed

lemma sh_create_example:
  obtains c g where "sh_create 256 2 64 1 13 old zero = Inr c" and "ca_geom c = g"
    and "cg_assoc g = 2" and "set_index g a + 2 \<le> length (ca_content c)" and "cg_log2AddrLs g = 6"
    and "length (sh_SHCT c) = 16384"
proof -
  obtain g j where g: "cg_create 256 2 64 1 False = Inr g" "cg_wf j g" "cg_assoc g = 2"
      "unat (cg_numLines g) = 4" "cg_log2AddrLs g = 6"
  proof (rule cg_create_wf [of 0 6 8 2 False])
  qed simp_all
  have len: "length (fold (\<lambda>j t. t[j := 0]) js xs) = length xs" for js and xs :: "u8 list"
    by (induction js arbitrary: xs) auto
  have "cg_numLines g > 0" using g(4) by (simp add: word_less_nat_alt)
  then obtain c where "sh_create 256 2 64 1 13 old zero = Inr c" "ca_geom c = g"
      "length (ca_content c) = 4" "length (sh_SHCT c) = 16384"
    using g(4) by (simp add: sh_create_def g(1) Let_def len)
  moreover have "set_index g a + 2 \<le> 4" using set_index_fits [OF g(2), of a] g(3,4) by simp
  ultimately show thesis using that g(3,5) by simp
qed

theorem sh_generic_never_replaces_witness:
  "\<exists>c. sh_create 256 2 64 1 13 (\<lambda>_. 0) line_blank = Inr c \<and>
    sh_findLine2Replace StateGeneric 4 64 64 0 False c = Inl Assert_failed"
proof -
  obtain c g where c: "sh_create 256 2 64 1 13 (\<lambda>_. 0) line_blank = Inr c" "ca_geom c = g"
    "cg_assoc g = 2" "set_index g 64 + 2 \<le> length (ca_content c)" "cg_log2AddrLs g = 6"
    "length (sh_SHCT c) = 16384"
    by (rule sh_create_example)
  have "calcTag g 64 = 1" by (simp add: calcTag_def c(5) drop_bit_eq_div)
  then have "sh_findLine2Replace StateGeneric (Suc 3) 64 64 0 False c = Inl Assert_failed"
    using c by (intro sh_generic_never_replaces) auto
  then show ?thesis using c(1) by (simp del: sh_choose.simps)
qed

text \<open>
  The loop that clears the counter table runs to \<open>2 ^ log2shct\<close>, which is the exclusive or in
  C++: with the 13 bits of the default, 15 of the 16384 counters are cleared and the others
  start with what the memory held.
\<close>

theorem sh_table_mostly_uninitialised:
  assumes "sh_create s a b u shct_size old zero = Inr c"
  shows "length (sh_SHCT c) = 2 ^ (unat shct_size + 1) \<and>
    (\<forall>k < 2 ^ (unat shct_size + 1).
      sh_SHCT c ! k = (if k < unat (2 XOR shct_size) then 0 else old k))"
proof -
  have len: "length (fold (\<lambda>j t. t[j := 0]) js xs) = length xs" for js and xs :: "u8 list"
    by (induction js arbitrary: xs) auto
  have nth: "fold (\<lambda>j t. t[j := 0]) [0..<m] xs ! k = (if k < m then 0 else xs ! k)"
    if "k < length xs" for m k and xs :: "u8 list"
  proof (induction m)
    case (Suc m)
    then show ?case using that by (cases "k = m") (auto simp: len)
  qed simp
  have "sh_SHCT c = fold (\<lambda>j t. t[j := 0]) [0..<unat (2 XOR shct_size)]
      (map old [0..<2 ^ (unat shct_size + 1)])"
    using assms by (auto simp: sh_create_def res_Inr_iffs Let_def)
  then show ?thesis by (simp add: len nth)
qed

theorem sh_table_mostly_uninitialised_witness:
  "\<exists>c. sh_create 256 2 64 1 13 (\<lambda>k. 7) line_blank = Inr c \<and> length (sh_SHCT c) = 16384 \<and>
    sh_SHCT c ! 14 = 0 \<and> sh_SHCT c ! 15 = 7"
proof -
  obtain c where c: "sh_create 256 2 64 1 13 (\<lambda>k. 7) line_blank = Inr c"
    by (rule sh_create_example)
  have "unat (2 XOR 13 :: u32) = 15" by simp
  then show ?thesis using sh_table_mostly_uninitialised [OF c] c by simp
qed

end
