(* ===== verification/Cache_Hawk.thy ===== *)
theory Cache_Hawk
  imports Cache_Client
begin

text \<open>
  \<open>core/cachecore.hpp\<close>, class \<open>HawkCache\<close>: the array that learns from what an optimal
  replacement would have done. The vectors have the fixed sizes of the constructor; every
  access to one of them is checked. The facts: in a cache of at most 8192 lines no sequence
  of lookups and fills reads or writes past a vector or fails an assertion, and the prediction
  counters stay between 0 and 7; in a larger cache a lookup reads past the usage table.
\<close>

section \<open>State\<close>

record 'a cache_hawk = "'a cache_array" +
  hk_prediction :: "u8 list"
  hk_predictionMask :: u32
  hk_usageInterval :: "u8 list"
  hk_occupancyVector :: "u8 list"
  hk_trackedAddresses_ptr :: nat
  hk_trackedAddresses :: "addr list"
  hk_occVectIterator :: int

definition hk_create ::
  "u32 \<Rightarrow> u32 \<Rightarrow> u32 \<Rightarrow> u32 \<Rightarrow> bool \<Rightarrow> 'a cache_line_scheme \<Rightarrow> 'a cache_hawk res" where
  "hk_create s a b u xr l0 =
    bind_res (cg_create s a b u xr) (\<lambda>g.
      assert_res (cg_numLines g > 0)
       (Inr \<lparr>ca_geom = g, ca_mem = (\<lambda>_. li_zero l0),
             ca_content = [0..<unat (cg_numLines g)], ca_goodInterface = False,
             hk_prediction = replicate 512 0, hk_predictionMask = 512 - 1,
             hk_usageInterval = replicate 8192 0, hk_occupancyVector = replicate 8192 0,
             hk_trackedAddresses_ptr = 0, hk_trackedAddresses = replicate 8192 0,
             hk_occVectIterator = 0\<rparr>))"

definition hk_getUsageIntervalHash :: "cache_geom \<Rightarrow> addr \<Rightarrow> nat" where
  "hk_getUsageIntervalHash g a =
    (let a = drop_bit (cg_log2AddrLs g) a; a = drop_bit 5 a XOR a
     in unat (a AND ucast (cg_numLines g - 1)))"

definition hk_getPredictionHash :: "'a cache_hawk \<Rightarrow> addr \<Rightarrow> nat" where
  "hk_getPredictionHash c pc =
    (let pc = drop_bit 2 pc; pc = drop_bit 17 pc XOR pc in unat (pc AND ucast (hk_predictionMask c)))"

section \<open>Lookup\<close>

fun hk_scan :: "addr \<Rightarrow> nat \<Rightarrow> nat \<Rightarrow> 'a cache_hawk \<Rightarrow> nat option res" where
  "hk_scan tag l 0 c = Inr None"
| "hk_scan tag l (Suc k) c =
    nth_res (ca_content c) l (\<lambda>i.
      if li_tag (ca_mem c i) = tag then Inr (Some i) else hk_scan tag (l + 1) k c)"

definition hk_findLineNoEffect :: "addr \<Rightarrow> addr \<Rightarrow> ('a cache_hawk, nat option) line_op" where
  "hk_findLineNoEffect a ta c =
    (let tag = calcTag (ca_geom c) ta; lo = set_index (ca_geom c) a
     in nth_res (ca_content c) lo (\<lambda>m.
          if li_tag (ca_mem c m) = tag then Inr (Some m, c)
          else bind_res (hk_scan tag (lo + 1) (ways (ca_geom c) - 1) c) (\<lambda>r. Inr (r, c))))"

definition hk_advance :: "'a cache_hawk \<Rightarrow> 'a cache_hawk res" where
  "hk_advance c =
    (let c = c\<lparr>hk_occVectIterator := hk_occVectIterator c + 1\<rparr>
     in if hk_occVectIterator c \<ge> 8192
        then for_res [0..<8192] (\<lambda>i c.
               bind_res (update_res (hk_occupancyVector c) i 0) (\<lambda>v. Inr (c\<lparr>hk_occupancyVector := v\<rparr>)))
               (c\<lparr>hk_occVectIterator := 0\<rparr>)
        else Inr c)"

text \<open>One tracked address: its interval grows; \<open>cur\<close> is the last position that holds the tag.\<close>

definition hk_age_tracked :: "addr \<Rightarrow> nat \<Rightarrow> nat \<times> 'a cache_hawk \<Rightarrow> (nat \<times> 'a cache_hawk) res" where
  "hk_age_tracked tag i s =
    (case s of (cur, c) \<Rightarrow>
      nth_res (hk_trackedAddresses c) i (\<lambda>t.
        if t = 0 then Inr (cur, c)
        else let cur = (if t = tag then i else cur); h = hk_getUsageIntervalHash (ca_geom c) t
             in nth_res (hk_usageInterval c) h (\<lambda>u.
                  if u < 255
                  then bind_res (update_res (hk_usageInterval c) h (u + 1)) (\<lambda>v.
                         Inr (cur, c\<lparr>hk_usageInterval := v\<rparr>))
                  else Inr (cur, c))))"

fun hk_any_full :: "nat list \<Rightarrow> 'a cache_hawk \<Rightarrow> bool res" where
  "hk_any_full [] c = Inr False"
| "hk_any_full (i # is) c =
    nth_res (hk_occupancyVector c) i (\<lambda>v.
      if (ucast v :: u32) \<ge> cg_numLines (ca_geom c) then Inr True else hk_any_full is c)"

definition hk_occupy :: "nat \<Rightarrow> 'a cache_hawk \<Rightarrow> 'a cache_hawk res" where
  "hk_occupy i c =
    nth_res (hk_occupancyVector c) i (\<lambda>v.
      if v < 255
      then bind_res (update_res (hk_occupancyVector c) i (v + 1)) (\<lambda>w. Inr (c\<lparr>hk_occupancyVector := w\<rparr>))
      else Inr c)"

fun hk_first_slot :: "addr \<Rightarrow> nat list \<Rightarrow> 'a cache_hawk \<Rightarrow> nat option res" where
  "hk_first_slot tag [] c = Inr None"
| "hk_first_slot tag (i # is) c =
    nth_res (hk_trackedAddresses c) i (\<lambda>t.
      if t = tag \<or> t = 0 then Inr (Some i) else hk_first_slot tag is c)"

definition hk_track :: "addr \<Rightarrow> 'a cache_hawk \<Rightarrow> 'a cache_hawk res" where
  "hk_track tag c =
    bind_res (hk_first_slot tag [0..<8192] c) (\<lambda>r.
      case r of
        Some i \<Rightarrow> bind_res (update_res (hk_trackedAddresses c) i tag) (\<lambda>t. Inr (c\<lparr>hk_trackedAddresses := t\<rparr>))
      | None \<Rightarrow>
          bind_res (update_res (hk_trackedAddresses c) (hk_trackedAddresses_ptr c) tag) (\<lambda>t.
            let p = hk_trackedAddresses_ptr c + 1
            in Inr (c\<lparr>hk_trackedAddresses := t,
                      hk_trackedAddresses_ptr := (if p \<ge> length t then 0 else p)\<rparr>)))"

text \<open>The positions of the occupancy vector in the usage interval of an address.\<close>

definition hk_span :: "int \<Rightarrow> u8 \<Rightarrow> nat list" where
  "hk_span it u =
    (let lim = it - int (unat u);
         lim = (if lim < 0 then 0 else if lim \<ge> 8192 then 8192 - 1 else lim)
     in [nat lim..<nat it])"

text \<open>\<open>OPTgen\<close>: would the optimal replacement have had the line? The result is \<open>missFlag\<close>.\<close>

definition hk_optgen :: "addr \<Rightarrow> addr \<Rightarrow> ('a cache_hawk, bool) line_op" where
  "hk_optgen a tag c =
    (let h = hk_getUsageIntervalHash (ca_geom c) a
     in bind_res (hk_advance c) (\<lambda>c.
        bind_res (for_res [0..<8192] (hk_age_tracked tag) (0, c)) (\<lambda>(cur, c).
        nth_res (hk_usageInterval c) h (\<lambda>u.
          if u > 0
          then let span = hk_span (hk_occVectIterator c) u
               in bind_res (hk_any_full span c) (\<lambda>full.
                    if full then Inr (True, c)
                    else bind_res (for_res span hk_occupy c) (\<lambda>c.
                         bind_res (update_res (hk_usageInterval c) h 0) (\<lambda>v.
                         bind_res (update_res (hk_trackedAddresses c) cur 0) (\<lambda>t.
                           Inr (False, c\<lparr>hk_usageInterval := v, hk_trackedAddresses := t\<rparr>)))))
          else bind_res (update_res (hk_usageInterval c) h 1) (\<lambda>v.
                 bind_res (hk_track tag (c\<lparr>hk_usageInterval := v\<rparr>)) (\<lambda>c. Inr (False, c)))))))"

definition hk_predict :: "addr \<Rightarrow> bool \<Rightarrow> ('a cache_hawk, u8) line_op" where
  "hk_predict pc missFlag c =
    (let h = hk_getPredictionHash c pc
     in nth_res (hk_prediction c) h (\<lambda>p.
          let p' = (if \<not> missFlag then (if p < 7 then p + 1 else p) else (if p > 0 then p - 1 else p))
          in bind_res (update_res (hk_prediction c) h p') (\<lambda>v.
               Inr (drop_bit 2 p', c\<lparr>hk_prediction := v\<rparr>))))"

definition hk_age_line :: "nat \<Rightarrow> 'a cache_hawk \<Rightarrow> 'a cache_hawk res" where
  "hk_age_line l c =
    nth_res (ca_content c) l (\<lambda>i.
      Inr (if li_isValid (ca_mem c i) \<and> li_rrip (ca_mem c i) < 6
           then ca_update i (\<lambda>x. x\<lparr>li_rrip := li_rrip x + 1\<rparr>) c else c))"

definition hk_findLine :: "addr \<Rightarrow> addr \<Rightarrow> addr \<Rightarrow> ('a cache_hawk, nat option) line_op" where
  "hk_findLine a ta pc c =
    (let tag = calcTag (ca_geom c) ta; lo = set_index (ca_geom c) a; n = ways (ca_geom c)
     in nth_res (ca_content c) lo (\<lambda>m.
          if li_tag (ca_mem c m) = tag then Inr (Some m, c)
          else bind_res (hk_scan tag (lo + 1) (n - 1) c) (\<lambda>lineHit.
               bind_res (hk_optgen a tag c) (\<lambda>(missFlag, c).
               bind_res (hk_predict pc missFlag c) (\<lambda>(hawk, c).
                 case lineHit of
                   None \<Rightarrow>
                     bind_res (if hawk = 1 then for_res [lo + 1..<lo + n] hk_age_line c else Inr c)
                       (\<lambda>c. Inr (None, c))
                 | Some i \<Rightarrow>
                     (let c = (if li_isValid (ca_mem c i)
                               then ca_update i (\<lambda>x. x\<lparr>li_rrip := (if hawk = 0 then 7 else 0)\<rparr>) c else c)
                      in assert_res (li_isValid (ca_mem c i)) (Inr (Some i, c))))))))"

section \<open>Replacement\<close>

fun hk_scan_down ::
  "addr \<Rightarrow> nat \<Rightarrow> nat \<Rightarrow> nat option \<Rightarrow> 'a cache_hawk \<Rightarrow> (nat option \<times> nat option) res" where
  "hk_scan_down tag lo 0 lineFree c = Inr (None, lineFree)"
| "hk_scan_down tag lo (Suc k) lineFree c =
    nth_res (ca_content c) (lo + k) (\<lambda>i.
      if li_tag (ca_mem c i) = tag then Inr (Some (lo + k), lineFree)
      else hk_scan_down tag lo k
        (if \<not> li_isValid (ca_mem c i) \<or> lineFree = None then Some (lo + k) else lineFree) c)"

fun hk_distant :: "nat \<Rightarrow> nat \<Rightarrow> 'a cache_hawk \<Rightarrow> nat option res" where
  "hk_distant lo 0 c = Inr None"
| "hk_distant lo (Suc k) c =
    nth_res (ca_content c) (lo + k) (\<lambda>i.
      if li_isValid (ca_mem c i) \<and> li_rrip (ca_mem c i) = 7 then Inr (Some (lo + k))
      else hk_distant lo k c)"

definition hk_findLine2Replace ::
  "addr \<Rightarrow> addr \<Rightarrow> addr \<Rightarrow> bool \<Rightarrow> ('a cache_hawk, nat) line_op" where
  "hk_findLine2Replace a ta pc prefetch c =
    (let tag = calcTag (ca_geom c) ta; lo = set_index (ca_geom c) a; n = ways (ca_geom c)
     in assert_res (tag \<noteq> 0)
      (nth_res (ca_content c) lo (\<lambda>m.
        if li_tag (ca_mem c m) = tag then assert_res (li_isValid (ca_mem c m)) (Inr (m, c))
        else bind_res (hk_scan_down tag lo n None c) (\<lambda>(lineHit, lineFree).
          case lineHit of
            Some p \<Rightarrow> nth_res (ca_content c) p (\<lambda>i. Inr (i, c))
          | None \<Rightarrow>
              (case lineFree of
                 None \<Rightarrow> Inl Assert_failed
               | Some tmp \<Rightarrow>
                   bind_res (hk_distant lo n c) (\<lambda>d.
                     let f = (case d of Some l \<Rightarrow> l | None \<Rightarrow> tmp)
                     in nth_res (ca_content c) f (\<lambda>fi.
                          bind_res
                            (if f = tmp \<and> li_rrip (ca_mem c fi) \<noteq> 7
                             then let h = hk_getPredictionHash c pc
                                  in nth_res (hk_prediction c) h (\<lambda>p.
                                       Inr (lo + n - 1,
                                         if p > 0 then c\<lparr>hk_prediction := (hk_prediction c)[h := p - 1]\<rparr> else c))
                             else Inr (f, c))
                            (\<lambda>(f, c). nth_res (ca_content c) f (\<lambda>i.
                               Inr (i, ca_update i (li_set_prefetch prefetch) c))))))))))"

section \<open>The invariant\<close>

definition hk_inv :: "nat \<Rightarrow> 'a cache_hawk \<Rightarrow> bool" where
  "hk_inv j c \<longleftrightarrow> cg_wf j (ca_geom c) \<and> length (ca_content c) = unat (cg_numLines (ca_geom c)) \<and>
    unat (cg_numLines (ca_geom c)) \<le> 8192 \<and>
    length (hk_prediction c) = 512 \<and> hk_predictionMask c = 511 \<and> (\<forall>p \<in> set (hk_prediction c). p \<le> 7) \<and>
    length (hk_usageInterval c) = 8192 \<and> length (hk_occupancyVector c) = 8192 \<and>
    length (hk_trackedAddresses c) = 8192 \<and> hk_trackedAddresses_ptr c < 8192 \<and>
    0 \<le> hk_occVectIterator c \<and> hk_occVectIterator c < 8192"

text \<open>A state that satisfies it and has the lines of \<open>c0\<close>.\<close>

definition hk_ok :: "nat \<Rightarrow> 'a cache_hawk \<Rightarrow> 'a cache_hawk \<Rightarrow> bool" where
  "hk_ok j c0 c \<longleftrightarrow> hk_inv j c \<and> ca_geom c = ca_geom c0 \<and> ca_content c = ca_content c0 \<and> ca_mem c = ca_mem c0"

lemma hk_ok_refl: "hk_inv j c \<Longrightarrow> hk_ok j c c"
  by (simp add: hk_ok_def)

lemma usage_hash_lt:
  assumes "hk_inv j c"
  shows "hk_getUsageIntervalHash (ca_geom c) a < 8192"
proof -
  have "hk_getUsageIntervalHash (ca_geom c) a \<le> unat (ucast (cg_numLines (ca_geom c) - 1) :: u64)"
    by (simp add: hk_getUsageIntervalHash_def Let_def unat_and_le_right)
  also have "\<dots> = unat (cg_numLines (ca_geom c) - 1)" by (simp add: unat_ucast_wide)
  also have "\<dots> < 8192"
  proof -
    have "0 < unat (cg_numLines (ca_geom c))"
      using set_index_fits [of j "ca_geom c" 0] assms by (auto simp: hk_inv_def cg_wf_def)
    then have "unat (cg_numLines (ca_geom c) - 1) = unat (cg_numLines (ca_geom c)) - 1"
      by (intro unat_minus_one) auto
    moreover have "unat (cg_numLines (ca_geom c)) \<le> 8192" using assms by (simp add: hk_inv_def)
    ultimately show ?thesis using \<open>0 < unat (cg_numLines (ca_geom c))\<close> by linarith
  qed
  finally show ?thesis .
qed

lemma prediction_hash_lt:
  assumes "hk_inv j c"
  shows "hk_getPredictionHash c pc < 512"
proof -
  have "unat (x AND 511 :: u64) \<le> unat (511 :: u64)" for x by (rule unat_and_le_right)
  then show ?thesis using assms by (simp add: hk_getPredictionHash_def Let_def hk_inv_def less_Suc_eq_le [of _ 511, simplified])
qed

lemma hk_advance_ok:
  assumes "hk_inv j c"
  shows "\<exists>c'. hk_advance c = Inr c' \<and> hk_ok j c c'"
proof (cases "hk_occVectIterator c + 1 \<ge> 8192")
  case False
  then show ?thesis using assms by (auto simp: hk_advance_def hk_ok_def hk_inv_def)
next
  case True
  let ?c = "c\<lparr>hk_occVectIterator := 0\<rparr>"
  let ?f = "\<lambda>(i :: nat) (c :: 'a cache_hawk). bind_res (update_res (hk_occupancyVector c) i 0) (\<lambda>v. Inr (c\<lparr>hk_occupancyVector := v\<rparr>))"
  have "\<exists>c'. for_res [0..<8192] ?f ?c = Inr c' \<and> hk_ok j c c'"
  proof (rule for_res_upt)
    show "hk_ok j c ?c" using assms by (simp add: hk_ok_def hk_inv_def)
  next
    fix i :: nat and s :: "'a cache_hawk"
    assume "i < 8192" and "hk_ok j c s"
    then show "\<exists>s'. ?f i s = Inr s' \<and> hk_ok j c s'" by (auto simp: hk_ok_def hk_inv_def)
  qed
  then show ?thesis using True by (simp add: hk_advance_def)
qed

lemma hk_age_tracked_ok:
  assumes "hk_inv j c"
  shows "\<exists>cur c'. for_res [0..<8192] (hk_age_tracked tag) (0, c) = Inr (cur, c') \<and> hk_ok j c c' \<and> cur < 8192"
proof -
  have "\<exists>s'. for_res [0..<8192] (hk_age_tracked tag) (0, c) = Inr s' \<and> hk_ok j c (snd s') \<and> fst s' < 8192"
  proof (rule for_res_upt [where P = "\<lambda>_ s. hk_ok j c (snd s) \<and> fst s < 8192"])
    show "hk_ok j c (snd (0, c)) \<and> fst (0 :: nat, c) < 8192" using assms by (simp add: hk_ok_refl)
  next
    fix i :: nat and s :: "nat \<times> 'a cache_hawk"
    assume i: "i < 8192" and s: "hk_ok j c (snd s) \<and> fst s < 8192"
    obtain cur d where sd: "s = (cur, d)" by (cases s)
    have inv: "hk_inv j d" using s sd by (simp add: hk_ok_def)
    have h: "hk_getUsageIntervalHash (ca_geom d) t < 8192" for t using inv by (rule usage_hash_lt)
    then show "\<exists>s'. hk_age_tracked tag i s = Inr s' \<and> hk_ok j c (snd s') \<and> fst s' < 8192"
      using i s sd by (auto simp: hk_age_tracked_def hk_ok_def hk_inv_def Let_def)
  qed
  then show ?thesis by auto
qed

lemma hk_any_full_ok:
  "hk_inv j c \<Longrightarrow> \<forall>i \<in> set is. i < 8192 \<Longrightarrow> \<exists>b. hk_any_full is c = Inr b"
  by (induction "is") (auto simp: hk_inv_def)

lemma hk_occupy_ok:
  assumes "hk_inv j c" and "\<forall>i \<in> set is. i < 8192"
  shows "\<exists>c'. for_res is hk_occupy c = Inr c' \<and> hk_ok j c c'"
  using assms
proof (induction "is" arbitrary: c)
  case Nil
  then show ?case by (simp add: hk_ok_refl)
next
  case (Cons i "is")
  have "\<exists>c1. hk_occupy i c = Inr c1 \<and> hk_ok j c c1"
    using Cons.prems by (auto simp: hk_occupy_def hk_ok_def hk_inv_def)
  then obtain c1 where c1: "hk_occupy i c = Inr c1" "hk_ok j c c1" by blast
  then obtain c' where "for_res is hk_occupy c1 = Inr c'" "hk_ok j c1 c'"
    using Cons.IH [of c1] Cons.prems(2) by (auto simp: hk_ok_def)
  then show ?case using c1 by (auto simp: hk_ok_def)
qed

lemma hk_first_slot_ok:
  "hk_inv j c \<Longrightarrow> \<forall>i \<in> set is. i < 8192 \<Longrightarrow>
    \<exists>r. hk_first_slot tag is c = Inr r \<and> (\<forall>i. r = Some i \<longrightarrow> i < 8192)"
  by (induction "is") (auto simp: hk_inv_def)

lemma hk_track_ok:
  assumes "hk_inv j c"
  shows "\<exists>c'. hk_track tag c = Inr c' \<and> hk_ok j c c'"
proof -
  obtain r where r: "hk_first_slot tag [0..<8192] c = Inr r" "\<forall>i. r = Some i \<longrightarrow> i < 8192"
    using hk_first_slot_ok [OF assms, of "[0..<8192]" tag] by auto
  show ?thesis
  proof (cases r)
    case None
    then show ?thesis using r assms by (simp add: hk_track_def hk_ok_def hk_inv_def Let_def)
  next
    case (Some i)
    then show ?thesis using r assms by (simp add: hk_track_def hk_ok_def hk_inv_def)
  qed
qed

lemma hk_ok_trans: "hk_ok j a b \<Longrightarrow> hk_ok j b c \<Longrightarrow> hk_ok j a c"
  by (simp add: hk_ok_def)

lemma hk_optgen_ok:
  assumes "hk_inv j c"
  shows "\<exists>miss c'. hk_optgen a tag c = Inr (miss, c') \<and> hk_ok j c c'"
proof -
  let ?h = "hk_getUsageIntervalHash (ca_geom c) a"
  have h: "?h < 8192" using assms by (rule usage_hash_lt)
  obtain c1 where c1: "hk_advance c = Inr c1" "hk_ok j c c1" using hk_advance_ok [OF assms] by blast
  obtain cur c2 where c2: "for_res [0..<8192] (hk_age_tracked tag) (0, c1) = Inr (cur, c2)"
      "hk_ok j c1 c2" "cur < 8192"
    using hk_age_tracked_ok [of j c1 tag] c1(2) by (auto simp: hk_ok_def)
  have ok2: "hk_ok j c c2" using hk_ok_trans [OF c1(2) c2(2)] .
  then have inv2: "hk_inv j c2" by (simp add: hk_ok_def)
  have hl: "?h < length (hk_usageInterval c2)" using inv2 h by (simp add: hk_inv_def)
  define span where "span = hk_span (hk_occVectIterator c2) (hk_usageInterval c2 ! ?h)"
  have span: "\<forall>i \<in> set span. i < 8192" using inv2 by (auto simp: span_def hk_span_def Let_def hk_inv_def)
  obtain full where full: "hk_any_full span c2 = Inr full" using hk_any_full_ok [OF inv2 span] by blast
  obtain c3 where c3: "for_res span hk_occupy c2 = Inr c3" "hk_ok j c2 c3"
    using hk_occupy_ok [OF inv2 span] by blast
  let ?c4 = "c2\<lparr>hk_usageInterval := (hk_usageInterval c2)[?h := 1]\<rparr>"
  have "hk_inv j ?c4" using inv2 by (simp add: hk_inv_def)
  then obtain c5 where c5: "hk_track tag ?c4 = Inr c5" "hk_ok j ?c4 c5" using hk_track_ok by blast
  have run: "hk_optgen a tag c =
    (if hk_usageInterval c2 ! ?h > 0
     then if full then Inr (True, c2)
          else bind_res (update_res (hk_usageInterval c3) ?h 0) (\<lambda>v.
               bind_res (update_res (hk_trackedAddresses c3) cur 0) (\<lambda>t.
                 Inr (False, c3\<lparr>hk_usageInterval := v, hk_trackedAddresses := t\<rparr>)))
     else Inr (False, c5))"
    using c1(1) c2(1) full c3(1) c5(1)
    by (simp add: hk_optgen_def nth_res_in [OF hl] update_res_in [OF hl] span_def [symmetric] Let_def
        del: for_res.simps upt_rec_numeral)
  have inv3: "hk_inv j c3" using c3(2) by (simp add: hk_ok_def)
  have ok3: "hk_ok j c c3" using hk_ok_trans [OF ok2 c3(2)] .
  have ok5: "hk_ok j c c5" using c5(2) ok2 by (simp add: hk_ok_def)
  consider "hk_usageInterval c2 ! ?h > 0" full | "hk_usageInterval c2 ! ?h > 0" "\<not> full"
    | "\<not> hk_usageInterval c2 ! ?h > 0" by blast
  then show ?thesis
  proof cases
    case 1
    then show ?thesis using run ok2 by auto
  next
    case 2
    have "hk_ok j c (c3\<lparr>hk_usageInterval := (hk_usageInterval c3)[?h := 0],
        hk_trackedAddresses := (hk_trackedAddresses c3)[cur := 0]\<rparr>)"
      using ok3 by (auto simp: hk_ok_def hk_inv_def)
    moreover have "?h < length (hk_usageInterval c3)" "cur < length (hk_trackedAddresses c3)"
      using inv3 h c2(3) by (simp_all add: hk_inv_def)
    ultimately show ?thesis using run 2 by auto
  next
    case 3
    then show ?thesis using run ok5 by auto
  qed
qed

lemma hk_scan_ok:
  "l + k \<le> length (ca_content c) \<Longrightarrow>
    \<exists>r. hk_scan tag l k c = Inr r \<and> (\<forall>i. r = Some i \<longrightarrow> li_tag (ca_mem c i) = tag)"
  by (induction k arbitrary: l) auto

lemma hk_inv_fits: "hk_inv j c \<Longrightarrow> set_index (ca_geom c) a + ways (ca_geom c) \<le> length (ca_content c)"
  using set_index_fits [of j "ca_geom c" a] by (simp add: hk_inv_def)

lemma hk_inv_ways: "hk_inv j c \<Longrightarrow> 0 < ways (ca_geom c)"
  by (simp add: hk_inv_def cg_wf_def)

lemma hk_inv_mem [simp]: "hk_inv j (ca_update i f c) = hk_inv j c"
  by (simp add: hk_inv_def ca_update_def)

lemma hk_predict_ok:
  assumes "hk_inv j c"
  shows "\<exists>v c'. hk_predict pc miss c = Inr (v, c') \<and> hk_ok j c c'"
proof -
  let ?h = "hk_getPredictionHash c pc"
  have h: "?h < length (hk_prediction c)" using prediction_hash_lt [OF assms] assms by (simp add: hk_inv_def)
  let ?p = "hk_prediction c ! ?h"
  let ?q = "if \<not> miss then (if ?p < 7 then ?p + 1 else ?p) else (if ?p > 0 then ?p - 1 else ?p)"
  have "?p \<le> 7" using assms h by (auto simp: hk_inv_def)
  then have "?q \<le> 7" by (auto intro: word_succ_le order_trans [OF word_pred_le])
  then have "hk_ok j c (c\<lparr>hk_prediction := (hk_prediction c)[?h := ?q]\<rparr>)"
    using assms by (auto simp: hk_ok_def hk_inv_def dest!: subsetD [OF set_update_subset_insert])
  then show ?thesis using h by (simp add: hk_predict_def Let_def)
qed

lemma hk_age_line_ok:
  assumes "hk_inv j c" and "\<forall>l \<in> set ls. l < length (ca_content c)"
  shows "\<exists>c'. for_res ls hk_age_line c = Inr c' \<and> hk_inv j c' \<and> ca_geom c' = ca_geom c"
  using assms
proof (induction ls arbitrary: c)
  case Nil
  then show ?case by simp
next
  case (Cons l ls)
  obtain c1 where c1: "hk_age_line l c = Inr c1" "hk_inv j c1" "ca_content c1 = ca_content c" "ca_geom c1 = ca_geom c"
  proof
    show "hk_age_line l c = Inr (if li_isValid (ca_mem c (ca_content c ! l)) \<and> li_rrip (ca_mem c (ca_content c ! l)) < 6
        then ca_update (ca_content c ! l) (\<lambda>x. x\<lparr>li_rrip := li_rrip x + 1\<rparr>) c else c)"
      using Cons.prems(2) by (simp add: hk_age_line_def)
  qed (use Cons.prems(1) in \<open>simp_all add: ca_update_def hk_inv_def\<close>)
  then show ?case using Cons.IH [of c1] Cons.prems(2) by auto
qed

lemma hk_findLine_ok:
  assumes "hk_inv j c" and "calcTag (ca_geom c) ta \<noteq> 0"
  shows "\<exists>r c'. hk_findLine a ta pc c = Inr (r, c') \<and> hk_inv j c' \<and> ca_geom c' = ca_geom c"
proof -
  let ?t = "calcTag (ca_geom c) ta" and ?lo = "set_index (ca_geom c) a" and ?n = "ways (ca_geom c)"
  have fit: "?lo + ?n \<le> length (ca_content c)" using assms(1) by (rule hk_inv_fits)
  have n: "0 < ?n" using assms(1) by (rule hk_inv_ways)
  have lo: "?lo < length (ca_content c)" using fit n by simp
  show ?thesis
  proof (cases "li_tag (ca_mem c (ca_content c ! ?lo)) = ?t")
    case True
    then show ?thesis using lo assms(1) by (simp add: hk_findLine_def Let_def)
  next
    case False
    obtain r where r: "hk_scan ?t (?lo + 1) (?n - 1) c = Inr r" "\<forall>i. r = Some i \<longrightarrow> li_tag (ca_mem c i) = ?t"
      using hk_scan_ok [of "?lo + 1" "?n - 1" c ?t] fit n by auto
    obtain miss c1 where c1: "hk_optgen a ?t c = Inr (miss, c1)" "hk_ok j c c1"
      using hk_optgen_ok [OF assms(1)] by blast
    obtain hawk c2 where c2: "hk_predict pc miss c1 = Inr (hawk, c2)" "hk_ok j c1 c2"
      using hk_predict_ok [of j c1 pc miss] c1(2) by (auto simp: hk_ok_def)
    have ok2: "hk_ok j c c2" using hk_ok_trans [OF c1(2) c2(2)] .
    then have inv2: "hk_inv j c2" and g2: "ca_geom c2 = ca_geom c" "ca_content c2 = ca_content c" "ca_mem c2 = ca_mem c"
      by (simp_all add: hk_ok_def)
    show ?thesis
    proof (cases r)
      case None
      obtain c3 where c3: "for_res [?lo + 1..<?lo + ?n] hk_age_line c2 = Inr c3" "hk_inv j c3" "ca_geom c3 = ca_geom c2"
        using hk_age_line_ok [OF inv2, of "[?lo + 1..<?lo + ?n]"] fit by (auto simp: g2)
      then show ?thesis using False lo r(1) None c1(1) c2(1) inv2 g2(1)
        by (simp add: hk_findLine_def Let_def del: for_res.simps)
    next
      case (Some i)
      have "li_isValid (ca_mem c i)" using r(2) Some assms(2) by (simp add: li_isValid_def)
      then show ?thesis using False lo r(1) Some c1(1) c2(1) inv2 g2
        by (simp add: hk_findLine_def Let_def) (simp add: ca_update_def li_isValid_def hk_inv_def)
    qed
  qed
qed

lemma hk_scan_down_ok:
  "lo + k \<le> length (ca_content c) \<Longrightarrow> (\<forall>p. free = Some p \<longrightarrow> p < length (ca_content c)) \<Longrightarrow>
    \<exists>h f. hk_scan_down tag lo k free c = Inr (h, f) \<and> (\<forall>p. h = Some p \<longrightarrow> p < length (ca_content c)) \<and>
      (\<forall>p. f = Some p \<longrightarrow> p < length (ca_content c)) \<and> (h = None \<and> (k > 0 \<or> free \<noteq> None) \<longrightarrow> f \<noteq> None)"
proof (induction k arbitrary: free)
  case 0
  then show ?case by auto
next
  case (Suc k)
  let ?i = "ca_content c ! (lo + k)"
  show ?case
  proof (cases "li_tag (ca_mem c ?i) = tag")
    case True
    then show ?thesis using Suc.prems by auto
  next
    case False
    let ?free = "if \<not> li_isValid (ca_mem c ?i) \<or> free = None then Some (lo + k) else free"
    have "\<forall>p. ?free = Some p \<longrightarrow> p < length (ca_content c)" "?free \<noteq> None" using Suc.prems by auto
    with Suc.IH [of ?free] Suc.prems(1) False show ?thesis by auto
  qed
qed

lemma hk_distant_ok:
  "lo + k \<le> length (ca_content c) \<Longrightarrow>
    \<exists>d. hk_distant lo k c = Inr d \<and> (\<forall>p. d = Some p \<longrightarrow> p < length (ca_content c))"
  by (induction k) auto

lemma hk_findLine2Replace_ok:
  assumes "hk_inv j c" and "calcTag (ca_geom c) ta \<noteq> 0"
  shows "\<exists>l c'. hk_findLine2Replace a ta pc prefetch c = Inr (l, c') \<and> hk_inv j c' \<and> ca_geom c' = ca_geom c"
proof -
  let ?t = "calcTag (ca_geom c) ta" and ?lo = "set_index (ca_geom c) a" and ?n = "ways (ca_geom c)"
  have fit: "?lo + ?n \<le> length (ca_content c)" using assms(1) by (rule hk_inv_fits)
  have n: "0 < ?n" using assms(1) by (rule hk_inv_ways)
  have lo: "?lo < length (ca_content c)" and top: "?lo + ?n - 1 < length (ca_content c)" using fit n by simp_all
  obtain h f where hf: "hk_scan_down ?t ?lo ?n None c = Inr (h, f)" "\<forall>p. h = Some p \<longrightarrow> p < length (ca_content c)"
      "\<forall>p. f = Some p \<longrightarrow> p < length (ca_content c)" "h = None \<longrightarrow> f \<noteq> None"
    using hk_scan_down_ok [OF fit, of None ?t] n by auto
  obtain d where d: "hk_distant ?lo ?n c = Inr d" "\<forall>p. d = Some p \<longrightarrow> p < length (ca_content c)"
    using hk_distant_ok [OF fit] by blast
  show ?thesis
  proof (cases "li_tag (ca_mem c (ca_content c ! ?lo)) = ?t")
    case True
    then show ?thesis using lo assms by (simp add: hk_findLine2Replace_def Let_def li_isValid_def)
  next
    case False
    show ?thesis
    proof (cases h)
      case (Some p)
      then show ?thesis using False lo assms hf by (simp add: hk_findLine2Replace_def Let_def)
    next
      case None
      then obtain tmp where tmp: "f = Some tmp" "tmp < length (ca_content c)" using hf by auto
      define g where "g = (case d of Some l \<Rightarrow> l | None \<Rightarrow> tmp)"
      have g: "g < length (ca_content c)" using d(2) tmp(2) by (auto simp: g_def split: option.splits)
      let ?h = "hk_getPredictionHash c pc"
      have hl: "?h < length (hk_prediction c)" using prediction_hash_lt [OF assms(1)] assms(1) by (simp add: hk_inv_def)
      let ?c1 = "if hk_prediction c ! ?h > 0 then c\<lparr>hk_prediction := (hk_prediction c)[?h := hk_prediction c ! ?h - 1]\<rparr> else c"
      have "hk_prediction c ! ?h \<le> 7" using assms(1) hl by (auto simp: hk_inv_def)
      then have inv1: "hk_inv j ?c1"
        using assms(1) by (auto simp: hk_inv_def dest!: subsetD [OF set_update_subset_insert] intro: order_trans [OF word_pred_le])
      have same: "ca_content ?c1 = ca_content c" "ca_geom ?c1 = ca_geom c" by simp_all
      have run: "hk_findLine2Replace a ta pc prefetch c =
        (if g = tmp \<and> li_rrip (ca_mem c (ca_content c ! g)) \<noteq> 7
         then nth_res (ca_content ?c1) (?lo + ?n - 1) (\<lambda>i. Inr (i, ca_update i (li_set_prefetch prefetch) ?c1))
         else Inr (ca_content c ! g, ca_update (ca_content c ! g) (li_set_prefetch prefetch) c))"
      proof (cases "g = tmp \<and> li_rrip (ca_mem c (ca_content c ! g)) \<noteq> 7")
        case True
        then show ?thesis using False assms(2) None tmp
          by (simp add: hk_findLine2Replace_def Let_def nth_res_in [OF lo] hf(1) d(1) g_def [symmetric]
              nth_res_in [OF hl])
      next
        case near: False
        then show ?thesis using False assms(2) None tmp(1)
          by (simp add: hk_findLine2Replace_def Let_def nth_res_in [OF lo] hf(1) d(1) g_def [symmetric]
              nth_res_in [OF g] del: de_Morgan_conj)
      qed
      show ?thesis
        unfolding run same(1) nth_res_in [OF top]
        using inv1 assms(1) same(2) by (auto simp: ca_update_def hk_inv_def)
    qed
  qed
qed

section \<open>Properties\<close>

datatype hk_op = HFind addr addr addr | HFill addr addr addr bool

fun hk_step :: "hk_op \<Rightarrow> ('a cache_hawk, nat option) line_op" where
  "hk_step (HFind a ta pc) c = ca_guarded (hk_findLine a ta pc) c"
| "hk_step (HFill a ta pc prefetch) c =
    bind_res (ca_fillLine_replace hk_findLine2Replace a ta pc prefetch c)
      (\<lambda>((l, rplc), c). Inr (Some l, c))"

fun hk_op_tag :: "hk_op \<Rightarrow> addr" where
  "hk_op_tag (HFind a ta pc) = ta"
| "hk_op_tag (HFill a ta pc prefetch) = ta"

lemma hk_inv_flag [simp]: "hk_inv j (c\<lparr>ca_goodInterface := v\<rparr>) = hk_inv j c"
  by (simp add: hk_inv_def)

lemma hk_step_ok:
  assumes "hk_inv j c" and "calcTag (ca_geom c) (hk_op_tag x) \<noteq> 0"
  shows "\<exists>r c'. hk_step x c = Inr (r, c') \<and> hk_inv j c' \<and> ca_geom c' = ca_geom c"
proof (cases x)
  case (HFind a ta pc)
  let ?c = "c\<lparr>ca_goodInterface := True\<rparr>"
  obtain r c' where "hk_findLine a ta pc ?c = Inr (r, c')" "hk_inv j c'" "ca_geom c' = ca_geom c"
    using hk_findLine_ok [of j ?c ta a pc] assms HFind by auto
  then show ?thesis using HFind by (simp add: ca_guarded_def)
next
  case (HFill a ta pc prefetch)
  obtain l c' where "hk_findLine2Replace a ta pc prefetch c = Inr (l, c')" "hk_inv j c'" "ca_geom c' = ca_geom c"
    using hk_findLine2Replace_ok [of j c ta a pc prefetch] assms HFill by auto
  then show ?thesis using HFill assms(2)
    by (simp add: ca_fillLine_replace_def ca_setTag_def li_setTag_def Let_def) (simp add: ca_update_def)
qed

lemma hk_run_ok:
  assumes "hk_inv j c" and "\<forall>x \<in> set xs. calcTag (ca_geom c) (hk_op_tag x) \<noteq> 0"
  shows "\<exists>os c'. run_accesses hk_step xs c = Inr (os, c') \<and> hk_inv j c'"
  using assms
proof (induction xs arbitrary: c)
  case Nil
  then show ?case by simp
next
  case (Cons x xs)
  obtain r c1 where "hk_step x c = Inr (r, c1)" "hk_inv j c1" "ca_geom c1 = ca_geom c"
    using hk_step_ok [OF Cons.prems(1)] Cons.prems(2) by fastforce
  then show ?case using Cons.IH [of c1] Cons.prems(2) by (auto simp del: hk_step.simps)
qed

lemma hk_create_ok:
  assumes "z \<le> y" and "y \<le> x" and "x \<le> 31" and "0 < unat a" and "unat a \<le> 2 ^ (x - y)"
  obtains c j where "hk_create (2 ^ x) a (2 ^ y) (2 ^ z) xr l0 = Inr c"
    and "unat (cg_numLines (ca_geom c)) = 2 ^ (x - y)" and "cg_log2AddrLs (ca_geom c) = y - z"
    and "x - y \<le> 13 \<Longrightarrow> hk_inv j c" and "cg_wf j (ca_geom c)"
    and "ca_content c = [0..<unat (cg_numLines (ca_geom c))]"
    and "ca_mem c = (\<lambda>_. li_zero l0)" and "hk_trackedAddresses c = replicate 8192 0"
    and "hk_usageInterval c = replicate 8192 0" and "hk_occVectIterator c = 0"
proof -
  obtain g j where g: "cg_create (2 ^ x) a (2 ^ y) (2 ^ z) xr = Inr g" "cg_wf j g"
      "unat (cg_numLines g) = 2 ^ (x - y)" "cg_log2AddrLs g = y - z"
    using cg_create_wf [OF assms] by metis
  have pos: "cg_numLines g > 0" using g(3) by (simp add: word_less_nat_alt)
  define c where "c = \<lparr>ca_geom = g, ca_mem = (\<lambda>_. li_zero l0),
    ca_content = [0..<unat (cg_numLines g)], ca_goodInterface = False,
    hk_prediction = replicate 512 0, hk_predictionMask = 512 - 1,
    hk_usageInterval = replicate 8192 0, hk_occupancyVector = replicate 8192 0,
    hk_trackedAddresses_ptr = 0, hk_trackedAddresses = replicate 8192 0, hk_occVectIterator = 0\<rparr>"
  have "hk_create (2 ^ x) a (2 ^ y) (2 ^ z) xr l0 = Inr c"
    using pos by (simp add: hk_create_def g(1) c_def)
  moreover have "hk_inv j c" if "x - y \<le> 13"
  proof -
    have "(2 :: nat) ^ (x - y) \<le> 2 ^ 13" using that by (intro power_increasing) auto
    then show ?thesis using g by (simp add: hk_inv_def c_def)
  qed
  ultimately show thesis using that [of c j] g by (simp add: c_def)
qed

text \<open>
  In a Hawkeye array of at most 8192 lines, of power-of-two sizes, no sequence of lookups and
  fills fails: every index into the five vectors is in range, no assertion fails, and the
  prediction counters keep to the range 0 to 7 that the aging threshold relies on.
\<close>

theorem hk_accesses_in_bounds:
  assumes "z \<le> y" and "y \<le> x" and "x \<le> 31" and "x - y \<le> 13" and "0 < unat a" and "unat a \<le> 2 ^ (x - y)"
    and "\<forall>op \<in> set xs. 2 ^ (y - z) \<le> unat (hk_op_tag op)"
  shows "\<exists>c os c'. hk_create (2 ^ x) a (2 ^ y) (2 ^ z) xr l0 = Inr c \<and>
    run_accesses hk_step xs c = Inr (os, c') \<and> (\<forall>p \<in> set (hk_prediction c'). p \<le> 7)"
proof -
  obtain c j where c: "hk_create (2 ^ x) a (2 ^ y) (2 ^ z) xr l0 = Inr c" "hk_inv j c"
      "cg_log2AddrLs (ca_geom c) = y - z"
    using hk_create_ok [OF assms(1-3,5,6)] assms(4) by metis
  obtain os c' where "run_accesses hk_step xs c = Inr (os, c')" "hk_inv j c'"
    using hk_run_ok [OF c(2)] assms(7) by (metis calcTag_nonzero c(3))
  then show ?thesis using c(1) by (auto simp: hk_inv_def)
qed

theorem hk_accesses_in_bounds_witness:
  "\<exists>c os c'. hk_create (2 ^ 8) 2 (2 ^ 6) (2 ^ 0) False line_blank = Inr c \<and>
    run_accesses hk_step [HFill 64 64 0 False, HFind 192 192 0, HFind 64 64 0] c = Inr (os, c') \<and>
    (\<forall>p \<in> set (hk_prediction c'). p \<le> 7)"
  using hk_accesses_in_bounds [of 0 6 8 2 "[HFill 64 64 0 False, HFind 192 192 0, HFind 64 64 0]" False line_blank]
  by (simp del: run_accesses.simps)

text \<open>
  In a larger array the usage hash is taken modulo the number of lines and not of the table:
  the first lookup that misses with a hash of 8192 or more reads past \<open>usageInterval\<close>.
\<close>

theorem hk_large_cache_reads_past_the_table:
  assumes "z \<le> y" and "y \<le> x" and "x \<le> 31" and "0 < unat a" and "unat a \<le> 2 ^ (x - y)"
    and "hk_create (2 ^ x) a (2 ^ y) (2 ^ z) xr l0 = Inr c"
    and "8192 \<le> hk_getUsageIntervalHash (ca_geom c) p" and "2 ^ (y - z) \<le> unat p"
  shows "hk_findLine p p pc c = Inl Out_of_bounds"
proof -
  obtain c1 j where c1: "hk_create (2 ^ x) a (2 ^ y) (2 ^ z) xr l0 = Inr c1"
      "cg_log2AddrLs (ca_geom c1) = y - z" "cg_wf j (ca_geom c1)"
      "ca_content c1 = [0..<unat (cg_numLines (ca_geom c1))]" "ca_mem c1 = (\<lambda>_. li_zero l0)"
      "hk_trackedAddresses c1 = replicate 8192 0"
      "hk_usageInterval c1 = replicate 8192 0" "hk_occVectIterator c1 = 0"
    using hk_create_ok [OF assms(1-5)] by metis
  have "c1 = c" using c1(1) assms(6) by simp
  note c = c1(2-) [unfolded this]
  have fit: "set_index (ca_geom c) p + ways (ca_geom c) \<le> length (ca_content c)" and n: "0 < ways (ca_geom c)"
    using set_index_fits [OF c(2)] c(2) by (simp_all add: c(3) cg_wf_def)
  have tag: "calcTag (ca_geom c) p \<noteq> 0" using assms(8) by (simp add: calcTag_nonzero c(1))
  have empty: "li_tag (ca_mem c i) = 0" for i
    by (simp add: c(4) li_zero_def li_invalidate_def li_clearTag_def)
  have scan: "hk_scan t l k c = Inr None" if "t \<noteq> 0" "l + k \<le> length (ca_content c)" for t l k
    using that empty by (induction k arbitrary: l) auto
  define c2 where "c2 = c\<lparr>hk_occVectIterator := 1\<rparr>"
  have adv: "hk_advance c = Inr c2" by (simp add: hk_advance_def c(7) c2_def)
  have idle: "for_res is (hk_age_tracked t) (0, c2) = Inr (0, c2)" if "\<forall>i \<in> set is. i < 8192" for "is" t
    using that by (induction "is") (auto simp: hk_age_tracked_def c2_def c(5))
  have age: "for_res [0..<8192] (hk_age_tracked (calcTag (ca_geom c) p)) (0, c2) = Inr (0, c2)"
    by (rule idle) simp
  have oob: "\<not> hk_getUsageIntervalHash (ca_geom c) p < length (hk_usageInterval c2)"
    using assms(7) by (simp add: c2_def c(6))
  have "hk_optgen p (calcTag (ca_geom c) p) c = Inl Out_of_bounds"
    by (simp add: hk_optgen_def Let_def adv age nth_res_out [OF oob] del: for_res.simps upt_rec_numeral)
  moreover have "set_index (ca_geom c) p < length (ca_content c)" using fit n by simp
  ultimately show ?thesis
    using tag fit n scan [OF tag, of "set_index (ca_geom c) p + 1" "ways (ca_geom c) - 1"]
    by (simp add: hk_findLine_def Let_def empty)
qed

theorem hk_large_cache_reads_past_the_table_witness:
  "\<exists>c. hk_create (2 ^ 20) 8 (2 ^ 6) (2 ^ 0) False line_blank = Inr c \<and>
    hk_findLine 524288 524288 0 c = Inl Out_of_bounds"
proof -
  obtain c j where c: "hk_create (2 ^ 20) 8 (2 ^ 6) (2 ^ 0) False line_blank = Inr c"
      "unat (cg_numLines (ca_geom c)) = 2 ^ (20 - 6)" "cg_log2AddrLs (ca_geom c) = 6 - 0"
    by (rule hk_create_ok [of 0 6 20 8 False line_blank]) simp_all
  have "cg_numLines (ca_geom c) = 16384" using c(2) by (simp add: word_unat_eq_iff)
  then have "hk_getUsageIntervalHash (ca_geom c) 524288 = 8448"
    using c(3) by (simp add: hk_getUsageIntervalHash_def)
  then have "hk_findLine 524288 524288 0 c = Inl Out_of_bounds"
    by (intro hk_large_cache_reads_past_the_table [OF _ _ _ _ _ c(1)]) simp_all
  then show ?thesis using c(1) by blast
qed

end
