(* ===== verification/Cache_Factory.thy ===== *)
theory Cache_Factory
  imports Cache_Assoc Cache_Direct Cache_Ship Cache_Hawk "HOL-Library.Signed_Division"
begin

text \<open>
  \<open>CacheGeneric::create\<close> of \<open>core/cachecore.hpp\<close> and the virtual functions of the object it
  returns: an array of one of the five classes. An error that is added to the configuration makes
  the simulator stop after it has been set up; the factory then returns null, which its caller
  checks with an assertion. The facts: what class each configuration has, and that a skewed array can be
  had only where the size of the SHIP table is given as zero.
\<close>

section \<open>Objects and their virtual functions\<close>

datatype 'a any_cache =
    Any_assoc "'a cache_assoc"
  | Any_dm "'a cache_array"
  | Any_skew "'a cache_skew"
  | Any_ship "'a cache_ship"
  | Any_hawk "'a cache_hawk"

definition any_op :: "('c \<Rightarrow> 'd) \<Rightarrow> ('c, 'r) line_op \<Rightarrow> 'c \<Rightarrow> ('r \<times> 'd) res" where
  "any_op con op c = bind_res (op c) (\<lambda>(r, c). Inr (r, con c))"

fun any_findLineNoEffect :: "addr \<Rightarrow> addr \<Rightarrow> ('a any_cache, nat option) line_op" where
  "any_findLineNoEffect a ta (Any_assoc c) = any_op Any_assoc (ca_guarded (as_findLineNoEffect a ta)) c"
| "any_findLineNoEffect a ta (Any_dm c) = any_op Any_dm (ca_guarded (dm_findLineNoEffect a ta)) c"
| "any_findLineNoEffect a ta (Any_skew c) = any_op Any_skew (ca_guarded (sk_findLineNoEffect a ta)) c"
| "any_findLineNoEffect a ta (Any_ship c) = any_op Any_ship (ca_guarded (sh_findLineNoEffect a ta)) c"
| "any_findLineNoEffect a ta (Any_hawk c) = any_op Any_hawk (ca_guarded (hk_findLineNoEffect a ta)) c"

text \<open>\<open>readLine\<close> and \<open>writeLine\<close>.\<close>

fun any_findLine :: "'a ship_ops \<Rightarrow> addr \<Rightarrow> addr \<Rightarrow> addr \<Rightarrow> ('a any_cache, nat option) line_op" where
  "any_findLine ops a ta pc (Any_assoc c) = any_op Any_assoc (ca_guarded (as_findLine a ta pc)) c"
| "any_findLine ops a ta pc (Any_dm c) = any_op Any_dm (ca_guarded (dm_findLine a ta pc)) c"
| "any_findLine ops a ta pc (Any_skew c) = any_op Any_skew (ca_guarded (sk_findLine a ta pc)) c"
| "any_findLine ops a ta pc (Any_ship c) = any_op Any_ship (ca_guarded (sh_findLine ops a ta pc)) c"
| "any_findLine ops a ta pc (Any_hawk c) = any_op Any_hawk (ca_guarded (hk_findLine a ta pc)) c"

fun any_fillLine :: "'a ship_ops \<Rightarrow> addr \<Rightarrow> addr \<Rightarrow> addr \<Rightarrow> ('a any_cache, nat) line_op" where
  "any_fillLine ops a ta pc (Any_assoc c) = any_op Any_assoc (ca_fillLine as_findLine2Replace a ta pc) c"
| "any_fillLine ops a ta pc (Any_dm c) = any_op Any_dm (ca_fillLine dm_findLine2Replace a ta pc) c"
| "any_fillLine ops a ta pc (Any_skew c) = any_op Any_skew (ca_fillLine sk_findLine2Replace a ta pc) c"
| "any_fillLine ops a ta pc (Any_ship c) = any_op Any_ship (ca_fillLine (sh_findLine2Replace ops 4) a ta pc) c"
| "any_fillLine ops a ta pc (Any_hawk c) = any_op Any_hawk (ca_fillLine hk_findLine2Replace a ta pc) c"

fun any_fillLine_replace ::
  "'a ship_ops \<Rightarrow> addr \<Rightarrow> addr \<Rightarrow> addr \<Rightarrow> bool \<Rightarrow> ('a any_cache, nat \<times> addr) line_op" where
  "any_fillLine_replace ops a ta pc pre (Any_assoc c) =
    any_op Any_assoc (ca_fillLine_replace as_findLine2Replace a ta pc pre) c"
| "any_fillLine_replace ops a ta pc pre (Any_dm c) =
    any_op Any_dm (ca_fillLine_replace dm_findLine2Replace a ta pc pre) c"
| "any_fillLine_replace ops a ta pc pre (Any_skew c) =
    any_op Any_skew (ca_fillLine_replace sk_findLine2Replace a ta pc pre) c"
| "any_fillLine_replace ops a ta pc pre (Any_ship c) =
    any_op Any_ship (ca_fillLine_replace (sh_findLine2Replace ops 4) a ta pc pre) c"
| "any_fillLine_replace ops a ta pc pre (Any_hawk c) =
    any_op Any_hawk (ca_fillLine_replace hk_findLine2Replace a ta pc pre) c"

text \<open>The line behind a pointer.\<close>

fun any_line :: "nat \<Rightarrow> 'a any_cache \<Rightarrow> 'a cache_line_scheme" where
  "any_line i (Any_assoc c) = ca_mem c i"
| "any_line i (Any_dm c) = ca_mem c i"
| "any_line i (Any_skew c) = ca_mem c i"
| "any_line i (Any_ship c) = ca_mem c i"
| "any_line i (Any_hawk c) = ca_mem c i"

fun any_update :: "nat \<Rightarrow> ('a cache_line_scheme \<Rightarrow> 'a cache_line_scheme) \<Rightarrow> 'a any_cache \<Rightarrow> 'a any_cache" where
  "any_update i f (Any_assoc c) = Any_assoc (ca_update i f c)"
| "any_update i f (Any_dm c) = Any_dm (ca_update i f c)"
| "any_update i f (Any_skew c) = Any_skew (ca_update i f c)"
| "any_update i f (Any_ship c) = Any_ship (ca_update i f c)"
| "any_update i f (Any_hawk c) = Any_hawk (ca_update i f c)"

section \<open>The factory\<close>

text \<open>
  What the constructors find in memory or draw: the replacement policy of an array whose name is
  unknown, the random number of the skewed array, the SHIP table, and a line.
\<close>

record 'a cache_env =
  ce_policy :: repl_policy
  ce_random :: int
  ce_table :: "nat \<Rightarrow> u8"
  ce_line :: "'a cache_line_scheme"

text \<open>The flag says that an error was added to the configuration.\<close>

definition any_create_assoc ::
  "'a cache_env \<Rightarrow> u32 \<Rightarrow> u32 \<Rightarrow> u32 \<Rightarrow> u32 \<Rightarrow> string \<Rightarrow> bool \<Rightarrow> u32 \<Rightarrow> (bool \<times> 'a any_cache) res" where
  "any_create_assoc e s a b u p xr shct =
    (if p = ''ship'' then bind_res (sh_create s a b u shct (ce_table e) (li_zero (ce_line e)))
                            (\<lambda>c. Inr (False, Any_ship c))
     else if p = ''hawkeye'' then bind_res (hk_create s a b u xr (ce_line e)) (\<lambda>c. Inr (False, Any_hawk c))
     else bind_res (as_create s a b u p xr (ce_policy e) (ce_line e)) (\<lambda>(err, c). Inr (err, Any_assoc c)))"

definition any_create ::
  "'a cache_env \<Rightarrow> int \<Rightarrow> int \<Rightarrow> int \<Rightarrow> int \<Rightarrow> string \<Rightarrow> bool \<Rightarrow> bool \<Rightarrow> u32 \<Rightarrow> (bool \<times> 'a any_cache option) res" where
  "any_create e s a b u pStr skew xr shct =
    (if b = 0 then Inl Div_by_zero
     else if s sdiv b < a then Inr (True, None)
     else if skew \<and> shct \<noteq> 0 then Inr (True, None)
     else let p = map char_lower pStr;
              w = (\<lambda>x. word_of_int x :: u32)
          in if skew then assert_res (a = 1) (bind_res (sk_create (w s) (w b) (w u) (ce_random e) (ce_line e))
                            (\<lambda>c. Inr (False, Some (Any_skew c))))
             else if a = 1 then bind_res (dm_create (w s) (w b) (w u) xr (ce_line e))
                            (\<lambda>c. Inr (False, Some (Any_dm c)))
             else bind_res (any_create_assoc e (w s) (w a) (w b) (w u) p xr shct)
                            (\<lambda>(err, c). Inr (err, Some c)))"

section \<open>What a client that stores data in the lines relies on\<close>

text \<open>
  \<open>front a ta l c\<close>: the line \<open>l\<close> holds the tag of \<open>ta\<close> where the set of \<open>a\<close> is searched first. A fill
  brings its line there; filling again finds the same line with its data, and so does a
  lookup. \<open>payload\<close> and \<open>put\<close> are the client's data in a line.
\<close>

locale line_store =
  fixes fill :: "addr \<Rightarrow> addr \<Rightarrow> addr \<Rightarrow> ('c, nat) line_op"
    and look :: "addr \<Rightarrow> addr \<Rightarrow> ('c, nat option) line_op"
    and payload :: "nat \<Rightarrow> 'c \<Rightarrow> 'v"
    and put :: "nat \<Rightarrow> 'v \<Rightarrow> 'c \<Rightarrow> 'c"
    and good :: "'c \<Rightarrow> bool"
    and fine :: "'c \<Rightarrow> addr \<Rightarrow> bool"
    and front :: "addr \<Rightarrow> addr \<Rightarrow> nat \<Rightarrow> 'c \<Rightarrow> bool"
  assumes fill: "good c \<Longrightarrow> fine c ta \<Longrightarrow>
      \<exists>l c'. fill a ta pc c = Inr (l, c') \<and> good c' \<and> front a ta l c' \<and> (\<forall>x. fine c' x = fine c x)"
    and refill: "good c \<Longrightarrow> front a ta l c \<Longrightarrow>
      \<exists>c'. fill a ta pc c = Inr (l, c') \<and> payload l c' = payload l c"
    and look: "good c \<Longrightarrow> front a ta l c \<Longrightarrow>
      \<exists>c'. look a ta c = Inr (Some l, c') \<and> payload l c' = payload l c"
    and put: "good c \<Longrightarrow> front a ta l c \<Longrightarrow>
      good (put l v c) \<and> front a ta l (put l v c) \<and> payload l (put l v c) = v"
begin

text \<open>What was put into a filled line is read back by either access.\<close>

lemma fill_put_get:
  assumes "good c" and "fine c ta"
  shows "\<exists>l c1. fill a ta pc c = Inr (l, c1) \<and>
    (\<exists>c2. fill a ta pc' (put l v c1) = Inr (l, c2) \<and> payload l c2 = v) \<and>
    (\<exists>c2. look a ta (put l v c1) = Inr (Some l, c2) \<and> payload l c2 = v)"
  using fill [OF assms] refill look put by metis

lemma fill_again:
  assumes "good c" and "fine c ta"
  shows "\<exists>l c1. fill a ta pc c = Inr (l, c1) \<and>
    (\<exists>c2. fill a ta pc' c1 = Inr (l, c2) \<and> payload l c2 = payload l c1) \<and>
    (\<exists>c2. look a ta c1 = Inr (Some l, c2) \<and> payload l c2 = payload l c1)"
  using fill [OF assms] refill look by metis

end

section \<open>The set-associative array as a line store\<close>

definition ca_front :: "addr \<Rightarrow> addr \<Rightarrow> nat \<Rightarrow> ('a, 'b) cache_array_scheme \<Rightarrow> bool" where
  "ca_front a ta l c \<longleftrightarrow> set_index (ca_geom c) a < length (ca_content c) \<and>
     ca_content c ! set_index (ca_geom c) a = l \<and> li_tag (ca_mem c l) = calcTag (ca_geom c) ta \<and>
     calcTag (ca_geom c) ta \<noteq> 0"

lemma as_scan_down_found:
  assumes "lo + k \<le> length (ca_content c)" and "free \<noteq> None \<or> 0 < k"
  shows "\<exists>hit f. as_scan_down tag lo k free c = Inr (hit, f) \<and>
    (hit = None \<and> f \<noteq> None \<or> (\<exists>i < k. hit = Some (lo + i) \<and> li_tag (ca_mem c (ca_content c ! (lo + i))) = tag))"
  using assms
proof (induction k arbitrary: free)
  case (Suc k)
  show ?case
  proof (cases "li_tag (ca_mem c (ca_content c ! (lo + k))) = tag")
    case True
    with Suc.prems(1) show ?thesis by (auto simp: Let_def)
  next
    case False
    have "\<exists>g. as_scan_down tag lo (Suc k) free c = as_scan_down tag lo k g c \<and> g \<noteq> None"
      using Suc.prems(1) False
      apply (simp only: as_scan_down.simps nth_res_in add_Suc_right Suc_le_lessD lessI Let_def if_False)
      apply (intro exI conjI, rule refl)
      apply (simp split: option.split)
      done
    then obtain g where g: "as_scan_down tag lo (Suc k) free c = as_scan_down tag lo k g c" "g \<noteq> None" by blast
    with Suc.IH [of g] Suc.prems(1) show ?thesis by (auto intro: less_SucI)
  qed
qed auto

lemma as_fill_demand_ok:
  assumes "as_inv j c"
  shows "\<exists>c'. as_fill_demand (set_index (ca_geom c) a) (ways (ca_geom c)) m pos pc c =
    Inr (ca_to_front (set_index (ca_geom c) a) pos m c') \<and> same_lines c c'"
proof (cases "as_policy c = LRU")
  case True
  then show ?thesis by (auto simp: as_fill_demand_def)
next
  case False
  define d where "d = (let t = as_pc2tracker c pc in
    if as_policy c = UAR
    then if tr_conf t > 8 \<and> tr_demand_trend t = 0 then 0
         else if tr_conf t > 8 \<and> tr_demand_trend t = 1 then RRIP_MAX div 2 else RRIP_MAX
    else RRIP_MAX)"
  have "d < 256" by (simp add: d_def Let_def RRIP_MAX_def)
  then obtain c' where "adjustRRIP (set_index (ca_geom c) a) (ways (ca_geom c)) m d c = Inr c'" "same_lines c c'"
    using adjust_ok [OF assms] by blast
  with False assms show ?thesis by (auto simp: as_fill_demand_def as_inv_def d_def Let_def)
qed

lemma as_victim_first_eq:
  assumes "set_index (ca_geom c) a < length (ca_content c)" and "m = ca_content c ! set_index (ca_geom c) a"
    and "li_tag (ca_mem c m) = calcTag (ca_geom c) ta" and "calcTag (ca_geom c) ta \<noteq> 0"
  shows "as_findLine2Replace a ta pc False c =
    (if as_policy c = PAR \<or> as_policy c = UAR
     then bind_res (adjustRRIP (set_index (ca_geom c) a) (ways (ca_geom c)) m RRIP_MAX c) (\<lambda>c. Inr (m, c))
     else Inr (m, c))"
  unfolding as_findLine2Replace_def Let_def nth_res_in [OF assms(1)] assms(2) [symmetric]
  using assms(3,4) by (simp add: li_isValid_def)

text \<open>Whatever line is chosen, it ends up at the front of its set.\<close>

lemma as_victim_front:
  assumes inv: "as_inv j c" and nz: "calcTag (ca_geom c) ta \<noteq> 0"
  shows "\<exists>l c'. as_findLine2Replace a ta pc False c = Inr (l, c') \<and> as_inv j c' \<and> ca_geom c' = ca_geom c \<and>
    ca_content c' ! set_index (ca_geom c) a = l"
proof -
  let ?t = "calcTag (ca_geom c) ta" and ?lo = "set_index (ca_geom c) a" and ?n = "ways (ca_geom c)"
    and ?xs = "ca_content c"
  have fit: "?lo + ?n \<le> length ?xs" using inv by (rule as_inv_fits)
  have n: "0 < ?n" using inv by (rule as_inv_ways)
  have lo: "?lo < length ?xs" using fit n by simp
  have pol: "as_policy c \<in> {LRU, PAR, UAR}" using inv by (simp add: as_inv_def)
  show ?thesis
  proof (cases "li_tag (ca_mem c (?xs ! ?lo)) = ?t")
    case True
    obtain c1 where c1: "adjustRRIP ?lo ?n (?xs ! ?lo) RRIP_MAX c = Inr c1" "same_lines c c1"
    proof -
      have "RRIP_MAX < 256" by (simp add: RRIP_MAX_def)
      from adjust_ok [OF inv this, of a "?xs ! ?lo"] that show thesis by blast
    qed
    from c1(2) inv have inv1: "as_inv j c1" by (simp add: same_lines_inv)
    define c' where "c' = (if as_policy c = PAR \<or> as_policy c = UAR then c1 else c)"
    have "as_findLine2Replace a ta pc False c = Inr (?xs ! ?lo, c')"
      using as_victim_first_eq [OF lo refl True nz, of pc] c1(1) by (simp add: c'_def)
    moreover have "as_inv j c'" "ca_geom c' = ca_geom c" "ca_content c' = ?xs"
      using inv inv1 c1(2) by (simp_all add: c'_def same_lines_def)
    ultimately show ?thesis by (intro exI [of _ "?xs ! ?lo"] exI [of _ c']) simp
  next
    case False
    obtain hit f where s: "as_scan_down ?t ?lo ?n None c = Inr (hit, f)"
      "hit = None \<and> f \<noteq> None \<or> (\<exists>i < ?n. hit = Some (?lo + i) \<and> li_tag (ca_mem c (?xs ! (?lo + i))) = ?t)"
      using as_scan_down_found [OF fit, of None ?t] n by blast
    have pick: "f \<noteq> None \<Longrightarrow> as_pick ?lo ?n f c = Inr (?lo + (?n - 1), c)"
      using pol n by (auto simp: as_pick_def)
    obtain i where i: "i < ?n"
      "(case hit of Some p \<Rightarrow> Inr (p, c) | None \<Rightarrow> as_pick ?lo ?n f c) = Inr (?lo + i, c)"
    proof (cases hit)
      case None
      with s(2) pick n that [of "?n - 1"] show thesis by simp
    next
      case (Some p)
      with s(2) obtain k where "k < ?n" "p = ?lo + k" by auto
      with Some that [of k] show thesis by simp
    qed
    let ?m = "?xs ! (?lo + i)"
    have li: "?lo + i < length ?xs" using i(1) fit by simp
    obtain c1 where c1: "as_train ?m c = Inr c1" "as_inv j c1" "ca_geom c1 = ca_geom c"
        "ca_content c1 = ?xs" "ca_mem c1 = ca_mem c" "as_policy c1 = as_policy c"
      using as_train_ok [OF inv] by blast
    define c2 where "c2 = ca_update ?m (li_setPC pc) c1"
    have s2: "same_lines c1 c2" by (simp add: c2_def same_lines_update li_setPC_def)
    have inv2: "as_inv j c2" using c1(2) same_lines_inv [OF s2] by simp
    have g2: "ca_geom c2 = ca_geom c" "ca_content c2 = ?xs" using s2 c1 by (simp_all add: same_lines_def)
    obtain c3 where c3: "as_fill_demand ?lo ?n ?m (?lo + i) pc c2 = Inr (ca_to_front ?lo (?lo + i) ?m c3)" "same_lines c2 c3"
      using as_fill_demand_ok [OF inv2, of a ?m "?lo + i" pc] g2 by auto
    have g3: "ca_geom c3 = ca_geom c" "ca_content c3 = ?xs" using c3(2) g2 by (simp_all add: same_lines_def)
    have inv3: "as_inv j c3" using inv2 same_lines_inv [OF c3(2)] by simp
    have inv4: "as_inv j (ca_to_front ?lo (?lo + i) ?m c3)"
      using to_front_tags(3) [OF inv3, of i ?lo a ?m] i(1) g3 by simp
    have at: "ca_content (ca_to_front ?lo (?lo + i) ?m c3) ! ?lo = ?m"
      using ca_shift_nth(1) [OF li] lo by (simp add: ca_to_front_def g3)
    have gg: "ca_geom (ca_to_front ?lo (?lo + i) ?m c3) = ca_geom c" by (simp add: ca_to_front_def g3)
    have run: "as_findLine2Replace a ta pc False c =
      (if hit = None \<and> ?lo + i = ?lo \<and> as_policy c \<noteq> PAR \<and> as_policy c \<noteq> UAR then Inr (?m, c)
       else Inr (?m, ca_to_front ?lo (?lo + i) ?m c3))"
      unfolding as_findLine2Replace_def Let_def
      using nz False by (simp add: nth_res_in [OF lo] s(1) i(2) nth_res_in [OF li] c1(1) c2_def [symmetric] c3(1))
    show ?thesis
    proof (cases "hit = None \<and> ?lo + i = ?lo \<and> as_policy c \<noteq> PAR \<and> as_policy c \<noteq> UAR")
      case True
      then have "as_findLine2Replace a ta pc False c = Inr (?m, c)" by (simp only: run if_True simp_thms)
      with True inv show ?thesis by auto
    next
      case False
      then have "as_findLine2Replace a ta pc False c = Inr (?m, ca_to_front ?lo (?lo + i) ?m c3)"
        by (simp only: run if_False)
      with inv4 gg at show ?thesis by auto
    qed
  qed
qed

lemma as_victim_at_front:
  assumes "as_inv j c" and "ca_front a ta l c"
  shows "\<exists>c'. as_findLine2Replace a ta pc False c = Inr (l, c') \<and>
    c' \<in> {c, ca_update l (\<lambda>x. x\<lparr>li_rrip := ucast RRIP_MAX\<rparr>) c}"
proof -
  have f: "set_index (ca_geom c) a < length (ca_content c)" "l = ca_content c ! set_index (ca_geom c) a"
    "li_tag (ca_mem c l) = calcTag (ca_geom c) ta" "calcTag (ca_geom c) ta \<noteq> 0"
    using assms(2) by (auto simp: ca_front_def)
  have r: "adjustRRIP (set_index (ca_geom c) a) (ways (ca_geom c)) l RRIP_MAX c =
      Inr (ca_update l (\<lambda>x. x\<lparr>li_rrip := ucast RRIP_MAX\<rparr>) c)"
    by (rule adjustRRIP_eq [OF as_inv_fits [OF assms(1)]]) (simp add: RRIP_MAX_def)
  show ?thesis
    using as_victim_first_eq [OF f(1,2,3,4), of pc]
    by (cases "as_policy c = PAR \<or> as_policy c = UAR") (simp_all add: r)
qed

lemma ca_fillLine_eq:
  assumes "victim a ta pc False c = Inr (l, c1)" and "calcTag (ca_geom c1) ta \<noteq> 0"
  shows "ca_fillLine victim a ta pc c =
    Inr (l, ca_update l (\<lambda>x. x\<lparr>li_tag := calcTag (ca_geom c1) ta, li_nDemand := 0\<rparr>) c1)"
  using assms by (simp add: ca_fillLine_def ca_setTag_def li_setTag_def ca_update_def)

lemma ca_update_fields [simp]:
  "ca_geom (ca_update l f c) = ca_geom c" "ca_content (ca_update l f c) = ca_content c"
  "ca_mem (ca_update l f c) k = (if k = l then f (ca_mem c l) else ca_mem c k)"
  by (simp_all add: ca_update_def)

lemma as_inv_update [simp]: "as_inv j (ca_update l f c) \<longleftrightarrow> as_inv j c"
  by (simp add: as_inv_def ca_update_def)

lemma ca_front_update: "(\<And>x. li_tag (f x) = li_tag x) \<Longrightarrow> ca_front a ta l (ca_update l f c) \<longleftrightarrow> ca_front a ta l c"
  by (simp add: ca_front_def)

section \<open>Payloads\<close>

fun any_geom :: "'a any_cache \<Rightarrow> cache_geom" where
  "any_geom (Any_assoc c) = ca_geom c"
| "any_geom (Any_dm c) = ca_geom c"
| "any_geom (Any_skew c) = ca_geom c"
| "any_geom (Any_ship c) = ca_geom c"
| "any_geom (Any_hawk c) = ca_geom c"

definition any_fine :: "'a any_cache \<Rightarrow> addr \<Rightarrow> bool" where
  "any_fine c ta \<longleftrightarrow> calcTag (any_geom c) ta \<noteq> 0"

text \<open>The well-formed arrays of the two classes, and the line at the front of a set.\<close>

fun assoc_good :: "'a any_cache \<Rightarrow> bool" where
  "assoc_good (Any_assoc c) \<longleftrightarrow> (\<exists>j. as_inv j c)"
| "assoc_good _ \<longleftrightarrow> False"

fun direct_good :: "'a any_cache \<Rightarrow> bool" where
  "direct_good (Any_dm c) \<longleftrightarrow> (\<forall>a. set_index (ca_geom c) a < length (ca_content c))"
| "direct_good _ \<longleftrightarrow> False"

fun any_front :: "addr \<Rightarrow> addr \<Rightarrow> nat \<Rightarrow> 'a any_cache \<Rightarrow> bool" where
  "any_front a ta l (Any_assoc c) \<longleftrightarrow> ca_front a ta l c"
| "any_front a ta l (Any_dm c) \<longleftrightarrow> ca_front a ta l c"
| "any_front a ta l _ \<longleftrightarrow> False"

locale line_payload =
  fixes get_p :: "'a cache_line_scheme \<Rightarrow> 'v"
    and set_p :: "'v \<Rightarrow> 'a cache_line_scheme \<Rightarrow> 'a cache_line_scheme"
  assumes get_set: "get_p (set_p v l) = v"
    and tag_set: "li_tag (set_p v l) = li_tag l"
    and get_rrip: "get_p (l\<lparr>li_rrip := r\<rparr>) = get_p l"
    and get_tag: "get_p (l\<lparr>li_tag := t, li_nDemand := n\<rparr>) = get_p l"
    and get_prefetch: "get_p (l\<lparr>li_prefetch := b\<rparr>) = get_p l"

sublocale line_payload < assoc: line_store "any_fillLine ops" any_findLineNoEffect
    "\<lambda>l c. get_p (any_line l c)" "\<lambda>l v. any_update l (set_p v)" assoc_good any_fine any_front
  for ops
proof
  fix c :: "'a any_cache" and a ta pc
  assume "assoc_good c" "any_fine c ta"
  then obtain x j where c: "c = Any_assoc x" "as_inv j x" "calcTag (ca_geom x) ta \<noteq> 0"
    by (cases c) (auto simp: any_fine_def)
  from as_victim_front [OF c(2,3)] obtain l y where y: "as_findLine2Replace a ta pc False x = Inr (l, y)"
    "as_inv j y" "ca_geom y = ca_geom x" "ca_content y ! set_index (ca_geom x) a = l" by blast
  have "set_index (ca_geom y) a < length (ca_content y)"
    using as_inv_fits [OF y(2), of a] as_inv_ways [OF y(2)] by simp
  moreover have "\<exists>j. as_inv j y" using y(2) by blast
  ultimately show "\<exists>l c'. any_fillLine ops a ta pc c = Inr (l, c') \<and> assoc_good c' \<and> any_front a ta l c' \<and>
      (\<forall>x. any_fine c' x = any_fine c x)"
    using y(3,4) c by (simp add: ca_fillLine_eq [where victim = as_findLine2Replace, OF y(1)] any_op_def any_fine_def ca_front_def)
next
  fix c :: "'a any_cache" and a ta pc l
  assume "assoc_good c" "any_front a ta l c"
  then obtain x j where c: "c = Any_assoc x" "as_inv j x" "ca_front a ta l x" by (cases c) auto
  from as_victim_at_front [OF c(2,3), of pc] obtain y where y: "as_findLine2Replace a ta pc False x = Inr (l, y)"
    "y \<in> {x, ca_update l (\<lambda>x. x\<lparr>li_rrip := ucast RRIP_MAX\<rparr>) x}" by blast
  then have "calcTag (ca_geom y) ta \<noteq> 0" using c(3) by (auto simp: ca_front_def)
  with y c(1) show "\<exists>c'. any_fillLine ops a ta pc c = Inr (l, c') \<and> get_p (any_line l c') = get_p (any_line l c)"
    by (auto simp: ca_fillLine_eq any_op_def get_tag get_rrip)
next
  fix c :: "'a any_cache" and a ta l
  assume "assoc_good c" "any_front a ta l c"
  then obtain x j where c: "c = Any_assoc x" "as_inv j x" "ca_front a ta l x" by (cases c) auto
  then show "\<exists>c'. any_findLineNoEffect a ta c = Inr (Some l, c') \<and> get_p (any_line l c') = get_p (any_line l c)"
    by (auto simp: any_op_def ca_guarded_def as_findLineNoEffect_def ca_front_def Let_def)
next
  fix c :: "'a any_cache" and a ta l v
  assume "assoc_good c" "any_front a ta l c"
  then obtain x j where c: "c = Any_assoc x" "as_inv j x" "ca_front a ta l x" by (cases c) auto
  then show "assoc_good (any_update l (set_p v) c) \<and> any_front a ta l (any_update l (set_p v) c) \<and>
      get_p (any_line l (any_update l (set_p v) c)) = v"
    by (auto simp: ca_front_update tag_set get_set)
qed

sublocale line_payload < direct: line_store "any_fillLine ops" any_findLineNoEffect
    "\<lambda>l c. get_p (any_line l c)" "\<lambda>l v. any_update l (set_p v)" direct_good any_fine any_front
  for ops
proof
  fix c :: "'a any_cache" and a ta pc
  assume "direct_good c" "any_fine c ta"
  then obtain x where c: "c = Any_dm x" "calcTag (ca_geom x) ta \<noteq> 0" "set_index (ca_geom x) a < length (ca_content x)"
      "\<forall>a. set_index (ca_geom x) a < length (ca_content x)"
    by (cases c) (auto simp: any_fine_def)
  then show "\<exists>l c'. any_fillLine ops a ta pc c = Inr (l, c') \<and> direct_good c' \<and> any_front a ta l c' \<and>
      (\<forall>x. any_fine c' x = any_fine c x)"
    by (simp add: dm_findLine2Replace_def ca_fillLine_eq any_op_def any_fine_def ca_front_def)
next
  fix c :: "'a any_cache" and a ta pc l
  assume "direct_good c" "any_front a ta l c"
  then obtain x where c: "c = Any_dm x" "ca_front a ta l x" by (cases c) auto
  then show "\<exists>c'. any_fillLine ops a ta pc c = Inr (l, c') \<and> get_p (any_line l c') = get_p (any_line l c)"
    by (auto simp: dm_findLine2Replace_def ca_fillLine_eq any_op_def ca_front_def get_tag get_prefetch li_set_prefetch_def)
next
  fix c :: "'a any_cache" and a ta l
  assume "direct_good c" "any_front a ta l c"
  then obtain x where c: "c = Any_dm x" "ca_front a ta l x" by (cases c) auto
  then show "\<exists>c'. any_findLineNoEffect a ta c = Inr (Some l, c') \<and> get_p (any_line l c') = get_p (any_line l c)"
    by (auto simp: any_op_def ca_guarded_def dm_findLineNoEffect_def ca_front_def Let_def li_isValid_def)
next
  fix c :: "'a any_cache" and a ta l v
  assume "direct_good c" "any_front a ta l c"
  then obtain x where c: "c = Any_dm x" "ca_front a ta l x" "\<forall>a. set_index (ca_geom x) a < length (ca_content x)"
    by (cases c) auto
  then show "direct_good (any_update l (set_p v) c) \<and> any_front a ta l (any_update l (set_p v) c) \<and>
      get_p (any_line l (any_update l (set_p v) c)) = v"
    by (simp add: ca_front_update tag_set get_set)
qed

section \<open>What the factory makes\<close>

lemma any_create_skew:
  "any_create e s a b u p True xr shct = Inr (err, Some c) \<Longrightarrow> shct = 0"
  by (simp add: any_create_def split: if_splits)

lemma policy_names:
  assumes "p \<in> {''lru'', ''par'', ''uar''}"
  shows "map char_lower p = p" and "as_policy_of p \<in> {Some LRU, Some PAR, Some UAR}"
proof -
  have "map char_lower ''lru'' = ''lru'' \<and> map char_lower ''par'' = ''par'' \<and> map char_lower ''uar'' = ''uar''"
    by code_simp
  then show "map char_lower p = p" using assms by auto
  have "as_policy_of ''lru'' = Some LRU \<and> as_policy_of ''par'' = Some PAR \<and> as_policy_of ''uar'' = Some UAR"
    by code_simp
  then show "as_policy_of p \<in> {Some LRU, Some PAR, Some UAR}" using assms by auto
qed

lemma unat_word_of_int:
  "0 \<le> i \<Longrightarrow> i < 2 ^ 32 \<Longrightarrow> unat (word_of_int i :: u32) = nat i"
  by (simp add: unat_eq_nat_uint uint_word_of_int_eq take_bit_int_eq_self)

text \<open>With lines of one unit: any associativity up to the number of lines, and the policies that
  keep the lines of a set by recency.\<close>

lemma any_create_unit_lines:
  assumes x: "x \<le> 30" and a: "1 \<le> a" "a \<le> 2 ^ x" and p: "p \<in> {''lru'', ''par'', ''uar''}"
  obtains c where "any_create e (2 ^ x) a 1 1 p False xr shct = Inr (False, Some c)"
    and "assoc_good c \<or> direct_good c" and "cg_log2AddrLs (any_geom c) = 0"
proof -
  have big: "(2 :: int) ^ x \<le> 2 ^ 30" using x by (intro power_increasing) auto
  let ?a = "word_of_int a :: u32"
  have ua: "unat ?a = nat a" using a big by (intro unat_word_of_int) auto
  have a': "0 < unat ?a" "unat ?a \<le> 2 ^ (x - 0)"
    using a ua by (auto simp: nat_le_iff)
  have room: "\<not> (2 :: int) ^ x sdiv 1 < a" using a by (simp add: signed_divide_int_def)
  show thesis
  proof (cases "a = 1")
    case True
    obtain g j where g: "cg_create (2 ^ x) 1 (2 ^ 0) (2 ^ 0) xr = Inr g" "cg_wf j g" "unat (cg_numLines g) = 2 ^ (x - 0)"
      "cg_log2AddrLs g = 0 - 0"
      by (rule cg_create_wf [of 0 0 x 1 xr]) (use x in simp_all)
    then have pos: "cg_numLines g > 0" by (simp add: word_less_nat_alt)
    define c where "c = \<lparr>ca_geom = g, ca_mem = (\<lambda>_. li_zero (ce_line e)),
      ca_content = [0..<unat (cg_numLines g)], ca_goodInterface = False\<rparr>"
    have "set_index g b < unat (cg_numLines g)" for b
      using g(2) by (rule set_index_lt)
    then have "direct_good (Any_dm c)" by (simp add: c_def)
    moreover have "any_create e (2 ^ x) a 1 1 p False xr shct = Inr (False, Some (Any_dm c))"
      using True g(1) pos room by (simp add: any_create_def dm_create_def c_def Let_def)
    ultimately show thesis using that [of "Any_dm c"] g(4) by (simp add: c_def)
  next
    case False
    obtain c j where c: "as_create (2 ^ x) ?a (2 ^ 0) (2 ^ 0) p xr (ce_policy e) (ce_line e) = Inr (False, c)"
      "tracks j (ca_geom c) [] c" "cg_log2AddrLs (ca_geom c) = 0 - 0"
      by (rule as_create_tracks [of 0 0 x ?a p xr "ce_policy e" "ce_line e"]) (use a' x policy_names(2) [OF p] in simp_all)
    have "p \<noteq> ''ship''" "p \<noteq> ''hawkeye''" using p by auto
    then have "any_create e (2 ^ x) a 1 1 p False xr shct = Inr (False, Some (Any_assoc c))"
      using False c(1) policy_names(1) [OF p] room by (simp add: any_create_def any_create_assoc_def Let_def)
    moreover have "assoc_good (Any_assoc c)" using c(2) by (auto simp: tracks_def)
    ultimately show thesis using that [of "Any_assoc c"] c(3) by simp
  qed
qed

end
