(* ===== verification/Store_Buffer.thy ===== *)
theory Store_Buffer
  imports Dinst "HOL-Library.Multiset"
begin

text \<open>
  \<open>simu/store_buffer.hpp\<close> and \<open>simu/store_buffer.cpp\<close>: the coherent store buffer behind the
  reorder buffer. The hash map from lines to entries is the list of its pairs, one per key; its
  iteration order is not specified by the code and is the order of the list here. What the
  buffer sends (requests to the first-level cache, the callback it schedules without one) are events. The flag
  \<open>prefetch_line\<close> and the other fields that the constructor of an entry leaves uninitialised come from an argument. The facts:
  a store that was accepted forwards to loads and is not dropped before its ownership arrives, no
  store waits without an outstanding request, and the buffer holds at most one line more than its size; speculative
  prefetches and transient stores break each of these.
\<close>

section \<open>Entries\<close>

datatype sb_state = Uncoherent | Modified | Invalid | Clean

record sb_line =
  sl_state :: sb_state
  sl_transient :: bool
  sl_word_present :: "bool list"
  sl_line_addr :: addr
  sl_prefetch_line :: bool
  sl_inducing :: addr

definition sl_new :: "sb_line \<Rightarrow> sb_line" where
  "sl_new junk = junk\<lparr>sl_state := Invalid, sl_word_present := []\<rparr>"

definition sl_init :: "nat \<Rightarrow> addr \<Rightarrow> sb_line \<Rightarrow> sb_line res" where
  "sl_init line_size a l =
    assert_res (sl_state l = Invalid)
      (Inr (l\<lparr>sl_word_present := replicate (line_size div 4) False, sl_state := Uncoherent,
              sl_line_addr := a, sl_transient := False\<rparr>))"

definition sl_init_prefetch :: "addr \<Rightarrow> addr \<Rightarrow> sb_line \<Rightarrow> sb_line res" where
  "sl_init_prefetch a inducing l =
    assert_res (sl_state l = Invalid)
      (Inr (l\<lparr>sl_state := Uncoherent, sl_line_addr := a, sl_transient := True,
              sl_prefetch_line := True, sl_inducing := inducing\<rparr>))"

definition sl_convert_to_store :: "nat \<Rightarrow> sb_line \<Rightarrow> sb_line" where
  "sl_convert_to_store line_size l =
    (if \<not> sl_prefetch_line l then l
     else l\<lparr>sl_word_present := replicate (line_size div 4) False, sl_prefetch_line := False\<rparr>)"

definition sl_add_st :: "nat \<Rightarrow> sb_line \<Rightarrow> sb_line res" where
  "sl_add_st off l =
    assert_res (off div 4 < length (sl_word_present l))
      (Inr (l\<lparr>sl_word_present := (sl_word_present l)[off div 4 := True]\<rparr>))"

definition sl_is_ld_forward :: "nat \<Rightarrow> sb_line \<Rightarrow> bool res" where
  "sl_is_ld_forward off l = nth_res (sl_word_present l) (off div 4) Inr"

definition sl_is_clean :: "sb_line \<Rightarrow> bool" where
  "sl_is_clean l \<longleftrightarrow> sl_state l = Clean"

definition sl_is_waiting_wb :: "sb_line \<Rightarrow> bool" where
  "sl_is_waiting_wb l \<longleftrightarrow> sl_state l = Uncoherent"

section \<open>The buffer\<close>

record store_buffer =
  sb_map :: "(addr \<times> sb_line) list"
  sb_size :: int
  sb_line_size :: nat
  sb_addr_bits :: nat
  sb_line_size_mask :: addr
  sb_dl1 :: bool

datatype sb_event =
    Send_write addr bool addr
  | Send_read_prefetch addr bool addr
  | Send_write_prefetch addr bool addr
  | Schedule_ownership addr

type_synonym 'r sb_op = "store_buffer \<Rightarrow> ('r \<times> sb_event list \<times> store_buffer) res"

definition sb_calc_line :: "store_buffer \<Rightarrow> addr \<Rightarrow> addr" where
  "sb_calc_line s a = drop_bit (sb_addr_bits s) a"

definition sb_calc_offset :: "store_buffer \<Rightarrow> addr \<Rightarrow> nat" where
  "sb_calc_offset s a = unat (a AND sb_line_size_mask s)"

text \<open>The sizes come from the configuration: a power-of-two line, 1 to 2048 entries.\<close>

definition sb_create :: "nat \<Rightarrow> int \<Rightarrow> bool \<Rightarrow> store_buffer" where
  "sb_create bits n dl1 = \<lparr>sb_map = [], sb_size = n, sb_line_size = 2 ^ bits, sb_addr_bits = bits,
     sb_line_size_mask = 2 ^ bits - 1, sb_dl1 = dl1\<rparr>"

definition sb_find :: "store_buffer \<Rightarrow> addr \<Rightarrow> sb_line option" where
  "sb_find s l = map_of (sb_map s) l"

definition sb_on_line :: "addr \<Rightarrow> (sb_line \<Rightarrow> sb_line) \<Rightarrow> store_buffer \<Rightarrow> store_buffer" where
  "sb_on_line l f s = s\<lparr>sb_map := map (\<lambda>(k, x). (k, if k = l then f x else x)) (sb_map s)\<rparr>"

definition sb_erase_if :: "(addr \<Rightarrow> sb_line \<Rightarrow> bool) \<Rightarrow> store_buffer \<Rightarrow> store_buffer" where
  "sb_erase_if p s = s\<lparr>sb_map := [(k, x) \<leftarrow> sb_map s. \<not> p k x]\<rparr>"

definition sb_insert :: "addr \<Rightarrow> sb_line \<Rightarrow> store_buffer \<Rightarrow> store_buffer" where
  "sb_insert l x s = s\<lparr>sb_map := (l, x) # sb_map s\<rparr>"

definition sb_get_clean_num :: "store_buffer \<Rightarrow> int" where
  "sb_get_clean_num s = int (length [x \<leftarrow> sb_map s. sl_is_clean (snd x)])"

definition sb_remove_clean :: "store_buffer \<Rightarrow> store_buffer" where
  "sb_remove_clean s = sb_erase_if (\<lambda>_ x. sl_is_clean x \<or> sl_prefetch_line x) s"

definition sb_flush_transient :: "store_buffer \<Rightarrow> store_buffer" where
  "sb_flush_transient s = sb_erase_if (\<lambda>_ x. sl_transient x) s"

definition sb_can_accept_st :: "addr \<Rightarrow> store_buffer \<Rightarrow> bool" where
  "sb_can_accept_st a s \<longleftrightarrow>
    int (length (sb_map s)) - sb_get_clean_num s < sb_size s \<or> sb_find s (sb_calc_line s a) \<noteq> None"

definition sb_make_room :: "store_buffer \<Rightarrow> store_buffer" where
  "sb_make_room s = (if int (length (sb_map s)) > sb_size s then sb_remove_clean s else s)"

definition sb_try_prefetch :: "sb_line \<Rightarrow> addr \<Rightarrow> bool \<Rightarrow> addr \<Rightarrow> addr \<Rightarrow> unit sb_op" where
  "sb_try_prefetch junk a doStats pc inducing s =
    (let l = sb_calc_line s a
     in if sb_find s l \<noteq> None then Inr ((), [], s)
        else let s = sb_make_room s
             in bind_res (sl_init_prefetch l (sb_calc_line s inducing) (sl_new junk)) (\<lambda>x.
                  Inr ((), if sb_dl1 s then [Send_read_prefetch a doStats pc] else [], sb_insert l x s)))"

definition sb_prefetch_done :: "addr \<Rightarrow> store_buffer \<Rightarrow> store_buffer" where
  "sb_prefetch_done a s =
    (case sb_find s (sb_calc_line s a) of
       None \<Rightarrow> s
     | Some x \<Rightarrow> if sl_prefetch_line x
         then sb_on_line (sb_calc_line s a) (\<lambda>x. x\<lparr>sl_state := Clean\<rparr>) s else s)"

definition sb_promote :: "addr \<Rightarrow> bool \<Rightarrow> addr \<Rightarrow> store_buffer \<Rightarrow> sb_event list \<times> store_buffer" where
  "sb_promote inducing_ld doStats pc s =
    (let hit = (\<lambda>x. sl_prefetch_line x \<and> sl_inducing x = sb_calc_line s inducing_ld)
     in ([Send_write_prefetch (push_bit (sb_addr_bits s) k) doStats pc.
           (k, x) \<leftarrow> sb_map s, hit x \<and> sl_is_clean x],
         sb_erase_if (\<lambda>_ x. hit x) s))"

definition sb_request :: "dinst \<Rightarrow> store_buffer \<Rightarrow> sb_event list" where
  "sb_request d s =
    [if sb_dl1 s then Send_write (di_addr d) (fl_keep_stats (di_flags d)) (di_pc d)
     else Schedule_ownership (di_addr d)]"

text \<open>
  For a new line the flag \<open>transient\<close> is set through the iterator of the lookup that failed, the
  end of the map.
\<close>

definition sb_add_st :: "sb_line \<Rightarrow> dinst \<Rightarrow> unit sb_op" where
  "sb_add_st junk d s =
    (let a = di_addr d; l = sb_calc_line s a; off = sb_calc_offset s a
     in case sb_find s l of
          None \<Rightarrow>
            (let s = sb_make_room s
             in bind_res (sl_init (sb_line_size s) l (sl_new junk)) (\<lambda>x.
                bind_res (sl_add_st off x) (\<lambda>x.
                  assert_res (sl_state x = Uncoherent)
                   (let s = sb_insert l x s
                    in if di_isTransient d then Inl Out_of_bounds
                       else Inr ((), sb_request d s, s)))))
        | Some x \<Rightarrow>
            bind_res (sl_add_st off (sl_convert_to_store (sb_line_size s) x)) (\<lambda>x.
              let s = sb_on_line l (\<lambda>_. x) s
              in if sl_is_waiting_wb x then Inr ((), [], s)
                 else Inr ((), sb_request d s, sb_on_line l (\<lambda>x. x\<lparr>sl_state := Uncoherent\<rparr>) s)))"

definition sb_ownership_done :: "addr \<Rightarrow> store_buffer \<Rightarrow> store_buffer" where
  "sb_ownership_done a s = sb_on_line (sb_calc_line s a) (\<lambda>x. x\<lparr>sl_state := Clean\<rparr>) s"

definition sb_remove_spec_load :: "dinst \<Rightarrow> store_buffer \<Rightarrow> store_buffer" where
  "sb_remove_spec_load d s = sb_erase_if (\<lambda>k _. k = sb_calc_line s (di_addr d)) s"

definition sb_is_clean_disp :: "dinst \<Rightarrow> store_buffer \<Rightarrow> bool" where
  "sb_is_clean_disp d s =
    (case sb_find s (sb_calc_line s (di_addr d)) of None \<Rightarrow> False | Some x \<Rightarrow> sl_is_clean x)"

definition sb_set_clean_scb :: "dinst \<Rightarrow> store_buffer \<Rightarrow> store_buffer" where
  "sb_set_clean_scb d s =
    sb_on_line (sb_calc_line s (di_addr d)) (\<lambda>x. x\<lparr>sl_state := Clean\<rparr>) s"

definition sb_is_ld_forward :: "addr \<Rightarrow> store_buffer \<Rightarrow> bool res" where
  "sb_is_ld_forward a s =
    (case sb_find s (sb_calc_line s a) of
       None \<Rightarrow> Inr False
     | Some x \<Rightarrow> if sl_prefetch_line x then Inr False else sl_is_ld_forward (sb_calc_offset s a) x)"

definition sb_find_dinst :: "dinst \<Rightarrow> store_buffer \<Rightarrow> bool" where
  "sb_find_dinst d s \<longleftrightarrow> sb_find s (sb_calc_line s (di_addr d)) \<noteq> None"

section \<open>Sequences of calls\<close>

text \<open>
  The calls the core and the memory make. A call that is answered by nothing else than a new state
  is lifted; the contents of a fresh entry travel with the call that creates it.
\<close>

datatype sb_call =
    Add_st sb_line dinst
  | Ownership_done addr
  | Remove_spec_load dinst
  | Set_clean_scb dinst
  | Flush_transient
  | Remove_clean
  | Try_prefetch sb_line addr bool addr addr
  | Prefetch_done addr
  | Promote addr bool addr

fun sb_call_step :: "sb_call \<Rightarrow> store_buffer \<Rightarrow> (sb_event list \<times> store_buffer) res" where
  "sb_call_step (Add_st junk d) s = bind_res (sb_add_st junk d s) (\<lambda>(_, r). Inr r)"
| "sb_call_step (Ownership_done a) s = Inr ([], sb_ownership_done a s)"
| "sb_call_step (Remove_spec_load d) s = Inr ([], sb_remove_spec_load d s)"
| "sb_call_step (Set_clean_scb d) s = Inr ([], sb_set_clean_scb d s)"
| "sb_call_step Flush_transient s = Inr ([], sb_flush_transient s)"
| "sb_call_step Remove_clean s = Inr ([], sb_remove_clean s)"
| "sb_call_step (Try_prefetch junk a st pc i) s = bind_res (sb_try_prefetch junk a st pc i s) (\<lambda>(_, r). Inr r)"
| "sb_call_step (Prefetch_done a) s = Inr ([], sb_prefetch_done a s)"
| "sb_call_step (Promote a st pc) s = Inr (sb_promote a st pc s)"

fun sb_run :: "sb_call list \<Rightarrow> store_buffer \<Rightarrow> (sb_event list \<times> store_buffer) res" where
  "sb_run [] s = Inr ([], s)"
| "sb_run (c # cs) s =
    bind_res (sb_call_step c s) (\<lambda>(ev, s). bind_res (sb_run cs s) (\<lambda>(evs, s). Inr (ev @ evs, s)))"

text \<open>The calls that end the wait of a line, or that take the line away.\<close>

fun sb_spares :: "store_buffer \<Rightarrow> addr \<Rightarrow> sb_call \<Rightarrow> bool" where
  "sb_spares s l (Ownership_done a) \<longleftrightarrow> sb_calc_line s a \<noteq> l"
| "sb_spares s l (Remove_spec_load d) \<longleftrightarrow> sb_calc_line s (di_addr d) \<noteq> l"
| "sb_spares s l (Set_clean_scb d) \<longleftrightarrow> sb_calc_line s (di_addr d) \<noteq> l"
| "sb_spares s l _ \<longleftrightarrow> True"

section \<open>Lookup after each operation\<close>

lemmas sb_defs = sb_find_def sb_on_line_def sb_erase_if_def sb_insert_def

lemma sb_find_insert [simp]: "sb_find (sb_insert l x s) k = (if k = l then Some x else sb_find s k)"
  by (auto simp: sb_defs)

lemma sb_find_on_line [simp]:
  "sb_find (sb_on_line l f s) k = (if k = l then map_option f (sb_find s k) else sb_find s k)"
proof -
  have "map_of (map (\<lambda>(k, x). (k, if k = l then f x else x)) xs) k =
      (if k = l then map_option f (map_of xs k) else map_of xs k)" for xs
    by (induction xs) auto
  then show ?thesis by (simp add: sb_defs)
qed

lemma sb_find_erase_if_keep:
  "sb_find s k = Some x \<Longrightarrow> \<not> p k x \<Longrightarrow> sb_find (sb_erase_if p s) k = Some x"
proof -
  have "map_of xs k = Some x \<Longrightarrow> \<not> p k x \<Longrightarrow> map_of [(k, x) \<leftarrow> xs. \<not> p k x] k = Some x" for xs
    by (induction xs) (auto split: if_splits)
  then show "sb_find s k = Some x \<Longrightarrow> \<not> p k x \<Longrightarrow> ?thesis" by (simp add: sb_defs)
qed

text \<open>The size, the line arithmetic and the first-level cache are fixed at construction.\<close>

definition sb_same_config :: "store_buffer \<Rightarrow> store_buffer \<Rightarrow> bool" where
  "sb_same_config s t \<longleftrightarrow> store_buffer.truncate s\<lparr>sb_map := []\<rparr> = store_buffer.truncate t\<lparr>sb_map := []\<rparr>"

lemma sb_same_config_fields:
  "sb_same_config s t \<longleftrightarrow> sb_size s = sb_size t \<and> sb_line_size s = sb_line_size t \<and>
     sb_addr_bits s = sb_addr_bits t \<and> sb_line_size_mask s = sb_line_size_mask t \<and> sb_dl1 s = sb_dl1 t"
  by (auto simp: sb_same_config_def store_buffer.truncate_def)

lemma sb_same_config_calc:
  "sb_same_config s t \<Longrightarrow> sb_calc_line s a = sb_calc_line t a"
  "sb_same_config s t \<Longrightarrow> sb_calc_offset s a = sb_calc_offset t a"
  by (simp_all add: sb_same_config_fields sb_calc_line_def sb_calc_offset_def)

lemma sb_same_config_ops [simp]:
  "sb_same_config (sb_on_line l f s) s" "sb_same_config (sb_erase_if p s) s"
  "sb_same_config (sb_insert l x s) s" "sb_same_config (sb_make_room s) s"
  "sb_same_config s s"
  by (auto simp: sb_same_config_fields sb_defs sb_make_room_def sb_remove_clean_def)

lemma sb_same_config_trans: "sb_same_config r s \<Longrightarrow> sb_same_config s t \<Longrightarrow> sb_same_config r t"
  by (simp add: sb_same_config_fields)

lemma sb_call_step_config:
  "sb_call_step c s = Inr (ev, t) \<Longrightarrow> sb_same_config t s"
  by (cases c)
    (auto simp: sb_add_st_def sb_ownership_done_def sb_remove_spec_load_def sb_set_clean_scb_def
      sb_flush_transient_def sb_remove_clean_def sb_try_prefetch_def sb_prefetch_done_def sb_promote_def
      Let_def bind_res_Inr_iff assert_res_Inr_iff
      split: option.splits if_splits intro: sb_same_config_trans [OF sb_same_config_ops(3)]
        sb_same_config_trans [OF sb_same_config_ops(1)])

section \<open>Accepted stores forward\<close>

text \<open>A line with a store to word \<open>w\<close> that waits for its ownership.\<close>

definition sb_waiting :: "addr \<Rightarrow> nat \<Rightarrow> store_buffer \<Rightarrow> bool" where
  "sb_waiting l w s \<longleftrightarrow>
    (case sb_find s l of
       None \<Rightarrow> False
     | Some x \<Rightarrow> sl_state x = Uncoherent \<and> \<not> sl_prefetch_line x \<and> \<not> sl_transient x \<and>
         w < length (sl_word_present x) \<and> sl_word_present x ! w)"

lemma sb_waitingI:
  "sb_find s l = Some x \<Longrightarrow> sl_state x = Uncoherent \<Longrightarrow> \<not> sl_prefetch_line x \<Longrightarrow> \<not> sl_transient x \<Longrightarrow>
    w < length (sl_word_present x) \<Longrightarrow> sl_word_present x ! w \<Longrightarrow> sb_waiting l w s"
  by (simp add: sb_waiting_def)

lemma sb_waitingE:
  assumes "sb_waiting l w s"
  obtains x where "sb_find s l = Some x" "sl_state x = Uncoherent" "\<not> sl_prefetch_line x"
    "\<not> sl_transient x" "w < length (sl_word_present x)" "sl_word_present x ! w"
  using assms by (auto simp: sb_waiting_def split: option.splits)

lemma sb_waiting_erase_if:
  assumes "sb_waiting l w s"
    and "\<And>x. sl_state x = Uncoherent \<Longrightarrow> \<not> sl_prefetch_line x \<Longrightarrow> \<not> sl_transient x \<Longrightarrow> \<not> p l x"
  shows "sb_waiting l w (sb_erase_if p s)"
proof -
  from assms(1) obtain x where x: "sb_find s l = Some x" "sl_state x = Uncoherent" "\<not> sl_prefetch_line x"
    "\<not> sl_transient x" "w < length (sl_word_present x)" "sl_word_present x ! w"
    by (rule sb_waitingE)
  from sb_find_erase_if_keep [of s l x p, OF x(1) assms(2) [OF x(2-4)]]
  show ?thesis using x(2-) by (rule sb_waitingI)
qed

lemma sb_waiting_on_line_other: "k \<noteq> l \<Longrightarrow> sb_waiting l w (sb_on_line k f s) = sb_waiting l w s"
  by (simp add: sb_waiting_def)

lemma sb_waiting_insert_other: "k \<noteq> l \<Longrightarrow> sb_waiting l w (sb_insert k x s) = sb_waiting l w s"
  by (simp add: sb_waiting_def)

lemmas sb_waiting_other = sb_waiting_on_line_other sb_waiting_insert_other

lemma sb_waiting_make_room: "sb_waiting l w s \<Longrightarrow> sb_waiting l w (sb_make_room s)"
  by (auto simp: sb_make_room_def sb_remove_clean_def sl_is_clean_def intro!: sb_waiting_erase_if)

lemma sb_waiting_found: "sb_waiting l w s \<Longrightarrow> sb_find s l \<noteq> None"
  by (auto elim: sb_waitingE)

lemma sl_add_st_present:
  "sl_add_st off x = Inr y \<Longrightarrow> w < length (sl_word_present x) \<Longrightarrow> sl_word_present x ! w \<or> w = off div 4 \<Longrightarrow>
    w < length (sl_word_present y) \<and> sl_word_present y ! w"
  by (auto simp: sl_add_st_def assert_res_Inr_iff nth_list_update)

lemma sl_add_st_keeps:
  "sl_add_st off x = Inr y \<Longrightarrow>
    sl_state y = sl_state x \<and> sl_prefetch_line y = sl_prefetch_line x \<and> sl_transient y = sl_transient x \<and>
    off div 4 < length (sl_word_present x)"
  by (auto simp: sl_add_st_def assert_res_Inr_iff)

lemma sb_request_config: "sb_same_config t s \<Longrightarrow> sb_request d t = sb_request d s"
  by (simp add: sb_request_def sb_same_config_fields)

lemma sb_on_line_twice: "sb_on_line l f (sb_on_line l g s) = sb_on_line l (f \<circ> g) s"
  by (simp add: sb_on_line_def comp_def case_prod_unfold)

lemma sb_add_st_found:
  assumes "sb_add_st junk d s = Inr (u, ev, t)" and "sb_find s (sb_calc_line s (di_addr d)) = Some x"
  obtains y where "sl_add_st (sb_calc_offset s (di_addr d)) (sl_convert_to_store (sb_line_size s) x) = Inr y"
    and "t = sb_on_line (sb_calc_line s (di_addr d)) (\<lambda>_. y\<lparr>sl_state := Uncoherent\<rparr>) s"
    and "ev = (if sl_state x = Uncoherent then [] else sb_request d s)"
proof -
  from assms obtain y where y: "sl_add_st (sb_calc_offset s (di_addr d)) (sl_convert_to_store (sb_line_size s) x) = Inr y"
    and r: "(if sl_is_waiting_wb y then Inr ((), [], sb_on_line (sb_calc_line s (di_addr d)) (\<lambda>_. y) s)
       else Inr ((), sb_request d (sb_on_line (sb_calc_line s (di_addr d)) (\<lambda>_. y) s),
         sb_on_line (sb_calc_line s (di_addr d)) (\<lambda>x. x\<lparr>sl_state := Uncoherent\<rparr>)
           (sb_on_line (sb_calc_line s (di_addr d)) (\<lambda>_. y) s))) = (Inr (u, ev, t) :: (unit \<times> sb_event list \<times> store_buffer) res)"
    by (auto simp: sb_add_st_def bind_res_Inr_iff Let_def)
  from sl_add_st_keeps [OF y] have st: "sl_state y = sl_state x"
    by (simp add: sl_convert_to_store_def split: if_splits)
  show thesis
  proof (rule that [OF y])
    show "t = sb_on_line (sb_calc_line s (di_addr d)) (\<lambda>_. y\<lparr>sl_state := Uncoherent\<rparr>) s"
    proof (cases "sl_state y = Uncoherent")
      case True
      then have e: "y\<lparr>sl_state := Uncoherent\<rparr> = y" by (metis (full_types) sb_line.surjective sb_line.update_convs(1))
      show ?thesis unfolding e using r True by (auto simp: sl_is_waiting_wb_def)
    qed (use r in \<open>simp add: sl_is_waiting_wb_def sb_on_line_twice o_def\<close>)
    show "ev = (if sl_state x = Uncoherent then [] else sb_request d s)"
      using r st by (auto simp: sl_is_waiting_wb_def sb_request_config split: if_splits)
  qed
qed

lemma sb_add_st_new:
  assumes "sb_add_st junk d s = Inr (u, ev, t)" and "sb_find s (sb_calc_line s (di_addr d)) = None"
  obtains y where "t = sb_insert (sb_calc_line s (di_addr d)) y (sb_make_room s)"
    and "ev = sb_request d s" and "\<not> di_isTransient d"
    and "sl_state y = Uncoherent" and "\<not> sl_transient y" and "sl_prefetch_line y = sl_prefetch_line junk"
    and "sb_calc_offset s (di_addr d) div 4 < length (sl_word_present y)"
    and "sl_word_present y ! (sb_calc_offset s (di_addr d) div 4)"
proof -
  have c: "sb_request d (sb_insert l x (sb_make_room s)) = sb_request d s" for l x
    by (rule sb_request_config) (blast intro: sb_same_config_ops sb_same_config_trans)
  from assms show thesis
    by (auto simp: sb_add_st_def bind_res_Inr_iff assert_res_Inr_iff Let_def sl_init_def sl_new_def
        sl_add_st_def c split: if_splits intro!: that)
qed

lemma sb_waiting_add_st:
  assumes ok: "sb_add_st junk d s = Inr (u, ev, t)" and w: "sb_waiting l w s"
  shows "sb_waiting l w t"
proof (cases "sb_calc_line s (di_addr d) = l")
  case True
  from w obtain x where x: "sb_find s l = Some x" "sl_state x = Uncoherent" "\<not> sl_prefetch_line x"
    "\<not> sl_transient x" "w < length (sl_word_present x)" "sl_word_present x ! w"
    by (rule sb_waitingE)
  from sb_add_st_found [OF ok] True x obtain y
    where y: "sl_add_st (sb_calc_offset s (di_addr d)) (sl_convert_to_store (sb_line_size s) x) = Inr y"
      and t: "t = sb_on_line l (\<lambda>_. y\<lparr>sl_state := Uncoherent\<rparr>) s" by metis
  from x(3) have "sl_convert_to_store (sb_line_size s) x = x" by (simp add: sl_convert_to_store_def)
  with y have y: "sl_add_st (sb_calc_offset s (di_addr d)) x = Inr y" by simp
  show ?thesis
    using sl_add_st_keeps [OF y] sl_add_st_present [OF y, of w] x by (auto simp: t intro!: sb_waitingI)
next
  case False
  with ok w show ?thesis
    by (auto simp: sb_add_st_def bind_res_Inr_iff assert_res_Inr_iff Let_def sb_waiting_other
        sb_waiting_make_room split: option.splits if_splits)
qed

lemma sb_waiting_step:
  assumes ok: "sb_call_step c s = Inr (ev, t)" and sp: "sb_spares s l c" and w: "sb_waiting l w s"
  shows "sb_waiting l w t"
proof (cases c)
  case (Add_st junk d)
  with ok w show ?thesis by (auto simp: bind_res_Inr_iff intro: sb_waiting_add_st)
next
  case (Try_prefetch junk a st pc i)
  show ?thesis
  proof (cases "sb_find s (sb_calc_line s a)")
    case None
    with w have "sb_calc_line s a \<noteq> l" by (auto dest: sb_waiting_found)
    with None ok w Try_prefetch show ?thesis
      by (auto simp: sb_try_prefetch_def Let_def bind_res_Inr_iff sb_waiting_other sb_waiting_make_room)
  qed (use ok w Try_prefetch in \<open>simp add: sb_try_prefetch_def\<close>)
next
  case (Prefetch_done a)
  from w obtain x where x: "sb_find s l = Some x" "\<not> sl_prefetch_line x" by (rule sb_waitingE)
  with ok w Prefetch_done show ?thesis
    by (cases "sb_calc_line s a = l")
      (auto simp: sb_prefetch_done_def sb_waiting_other split: option.splits if_splits)
qed (use ok sp w in \<open>auto simp: sb_ownership_done_def sb_remove_spec_load_def sb_set_clean_scb_def
      sb_flush_transient_def sb_remove_clean_def sb_promote_def Let_def sl_is_clean_def sb_waiting_other
      intro!: sb_waiting_erase_if\<close>)

lemma sb_waiting_run:
  "sb_run cs s = Inr (evs, t) \<Longrightarrow> \<forall>c \<in> set cs. sb_spares s l c \<Longrightarrow> sb_waiting l w s \<Longrightarrow> sb_waiting l w t"
proof (induction cs arbitrary: s evs)
  case (Cons c cs)
  from Cons.prems(1) obtain ev s1 evs1 where c: "sb_call_step c s = Inr (ev, s1)"
    and r: "sb_run cs s1 = Inr (evs1, t)" by (auto simp: bind_res_Inr_iff)
  from sb_call_step_config [OF c] have "sb_spares s1 l c' = sb_spares s l c'" for c'
    by (cases c') (simp_all add: sb_same_config_calc)
  with Cons.prems c have "\<forall>c \<in> set cs. sb_spares s1 l c" "sb_waiting l w s1"
    by (auto intro: sb_waiting_step)
  with Cons.IH [OF r] show ?case by blast
qed simp

lemma sb_waiting_forwards:
  assumes "sb_waiting (sb_calc_line s b) (sb_calc_offset s b div 4) s"
  shows "sb_is_ld_forward b s = Inr True"
  using assms by (rule sb_waitingE) (simp add: sb_is_ld_forward_def sl_is_ld_forward_def)

lemma sb_run_config: "sb_run cs s = Inr (evs, t) \<Longrightarrow> sb_same_config t s"
proof (induction cs arbitrary: s evs)
  case (Cons c cs)
  then show ?case
    by (auto simp: bind_res_Inr_iff dest!: sb_call_step_config intro: sb_same_config_trans)
qed simp

text \<open>The lines a store may meet: its own earlier stores, not a prefetch or a transient one.\<close>

lemma sb_add_st_waiting:
  assumes ok: "sb_add_st junk d s = Inr (u, ev, t)"
    and junk: "sb_find s (sb_calc_line s (di_addr d)) = None \<longrightarrow> \<not> sl_prefetch_line junk"
    and old: "\<forall>x. sb_find s (sb_calc_line s (di_addr d)) = Some x \<longrightarrow> \<not> sl_prefetch_line x \<and> \<not> sl_transient x"
  shows "sb_waiting (sb_calc_line s (di_addr d)) (sb_calc_offset s (di_addr d) div 4) t"
proof (cases "sb_find s (sb_calc_line s (di_addr d))")
  case None
  from sb_add_st_new [OF ok None] show ?thesis
    by (metis None junk sb_find_insert sb_waitingI)
next
  case (Some x)
  from sb_add_st_found [OF ok Some] obtain y
    where y: "sl_add_st (sb_calc_offset s (di_addr d)) (sl_convert_to_store (sb_line_size s) x) = Inr y"
      and t: "t = sb_on_line (sb_calc_line s (di_addr d)) (\<lambda>_. y\<lparr>sl_state := Uncoherent\<rparr>) s" by metis
  show ?thesis
    using sl_add_st_keeps [OF y] sl_add_st_present [OF y] old Some
    by (auto simp: t sl_convert_to_store_def intro!: sb_waitingI)
qed

lemma sb_flagged_store_not_forwarded:
  assumes "sb_add_st junk d s = Inr (u, ev, t)" and "sb_find s (sb_calc_line s (di_addr d)) = None"
    and "sl_prefetch_line junk"
  shows "sb_is_ld_forward (di_addr d) t = Inr False"
proof -
  let ?l = "sb_calc_line s (di_addr d)"
  from sb_add_st_new [OF assms(1,2)] obtain y where t: "t = sb_insert ?l y (sb_make_room s)"
    and y: "sl_prefetch_line y" using assms(3) by metis
  have "sb_same_config t s" unfolding t by (blast intro: sb_same_config_ops sb_same_config_trans)
  then have "sb_calc_line t (di_addr d) = ?l" by (simp add: sb_same_config_calc)
  then show ?thesis by (simp add: sb_is_ld_forward_def t y)
qed

text \<open>
  C14. A store that was accepted, into a fresh line or into a line of ordinary stores (neither a
  prefetch nor transient), is forwarded to every load of the same word, after every sequence of calls
  that neither completes, cleans nor removes its line: prefetches, promotions, flushes of transient
  lines and the eviction of clean lines never lose it. The one exception is a flaw of the code: a fresh
  line takes its flag \<open>prefetch_line\<close> from the uninitialised memory of its constructor, and when
  that happens to be set the store is not forwarded even at once.
\<close>

theorem sb_accepted_store_forwards:
  assumes add: "sb_add_st junk d s = Inr (u, ev, s1)"
    and "\<forall>x. sb_find s (sb_calc_line s (di_addr d)) = Some x \<longrightarrow> \<not> sl_prefetch_line x \<and> \<not> sl_transient x"
    and run: "sb_run cs s1 = Inr (evs, t)"
    and sp: "\<forall>c \<in> set cs. sb_spares s1 (sb_calc_line s (di_addr d)) c"
    and same: "sb_calc_line s b = sb_calc_line s (di_addr d)"
      "sb_calc_offset s b div 4 = sb_calc_offset s (di_addr d) div 4"
  shows "if sb_find s (sb_calc_line s (di_addr d)) = None \<and> sl_prefetch_line junk
    then sb_is_ld_forward (di_addr d) s1 = Inr False
    else sb_is_ld_forward b t = Inr True"
proof (cases "sb_find s (sb_calc_line s (di_addr d)) = None \<and> sl_prefetch_line junk")
  case True
  then show ?thesis using sb_flagged_store_not_forwarded [OF add] by simp
next
  case False
  have c: "sb_same_config s1 s" using sb_call_step_config [of "Add_st junk d" s ev s1] add by simp
  from sb_run_config [OF run] c have t: "sb_same_config t s" by (rule sb_same_config_trans)
  have "sb_waiting (sb_calc_line s (di_addr d)) (sb_calc_offset s (di_addr d) div 4) t"
    using sb_waiting_run [OF run sp] sb_add_st_waiting [OF add _ assms(2)] False by blast
  then have "sb_is_ld_forward b t = Inr True"
    by (intro sb_waiting_forwards) (simp add: sb_same_config_calc [OF t] same)
  then show ?thesis by (simp only: False if_False)
qed

section \<open>Without prefetches: requests and size\<close>

fun sb_requested :: "sb_event \<Rightarrow> addr list" where
  "sb_requested (Send_write a st pc) = [a]"
| "sb_requested (Schedule_ownership a) = [a]"
| "sb_requested _ = []"

text \<open>
  The buffer with the multiset of addresses whose ownership has been requested and has not arrived: stores
  come under the guard \<open>can_accept_st\<close>, an answer comes for a request, and the core cleans and
  removes lines at any time.
\<close>

inductive sb_reach :: "store_buffer \<Rightarrow> store_buffer \<Rightarrow> addr multiset \<Rightarrow> bool" for s0 where
  reach_create: "sb_reach s0 s0 {#}"
| reach_store: "sb_reach s0 s P \<Longrightarrow> sb_can_accept_st (di_addr d) s \<Longrightarrow> \<not> sl_prefetch_line junk \<Longrightarrow>
    sb_add_st junk d s = Inr (u, ev, t) \<Longrightarrow> sb_reach s0 t (P + mset (concat (map sb_requested ev)))"
| reach_answer: "sb_reach s0 s P \<Longrightarrow> a \<in># P \<Longrightarrow> sb_reach s0 (sb_ownership_done a s) (P - {#a#})"
| reach_remove: "sb_reach s0 s P \<Longrightarrow> sb_reach s0 (sb_remove_spec_load d s) P"
| reach_clean: "sb_reach s0 s P \<Longrightarrow> sb_reach s0 (sb_set_clean_scb d s) P"
| reach_flush: "sb_reach s0 s P \<Longrightarrow> sb_reach s0 (sb_flush_transient s) P"
| reach_drop: "sb_reach s0 s P \<Longrightarrow> sb_reach s0 (sb_remove_clean s) P"

definition sb_lines_ok :: "store_buffer \<Rightarrow> addr multiset \<Rightarrow> bool" where
  "sb_lines_ok s P \<longleftrightarrow>
    (\<forall>(k, x) \<in> set (sb_map s). \<not> sl_prefetch_line x \<and> \<not> sl_transient x \<and>
       (sl_state x = Clean \<or> sl_state x = Uncoherent \<and> (\<exists>a. a \<in># P \<and> sb_calc_line s a = k)))"

definition sb_inv :: "store_buffer \<Rightarrow> store_buffer \<Rightarrow> addr multiset \<Rightarrow> bool" where
  "sb_inv s0 s P \<longleftrightarrow> sb_same_config s s0 \<and> distinct (map fst (sb_map s)) \<and>
     int (length (sb_map s)) \<le> sb_size s + 1 \<and> sb_lines_ok s P"

lemma sb_lines_ok_erase_if: "sb_lines_ok s P \<Longrightarrow> sb_lines_ok (sb_erase_if p s) P"
  by (auto simp: sb_lines_ok_def sb_erase_if_def sb_calc_line_def)

lemma sb_inv_erase_if: "sb_inv s0 s P \<Longrightarrow> sb_inv s0 (sb_erase_if p s) P"
proof -
  assume i: "sb_inv s0 s P"
  have "int (length [(k, x) \<leftarrow> sb_map s. \<not> p k x]) \<le> sb_size s + 1"
    by (rule order_trans [OF iffD2 [OF of_nat_le_iff length_filter_le]]) (use i in \<open>simp add: sb_inv_def\<close>)
  moreover have "distinct (map fst [(k, x) \<leftarrow> sb_map s. \<not> p k x])"
    using i by (simp add: sb_inv_def distinct_map_filter)
  ultimately show ?thesis
    using i sb_lines_ok_erase_if [of s P p] sb_same_config_trans [OF sb_same_config_ops(2)]
    by (auto simp: sb_inv_def sb_erase_if_def)
qed

lemma sb_inv_make_room: "sb_inv s0 s P \<Longrightarrow> sb_inv s0 (sb_make_room s) P"
  by (simp add: sb_make_room_def sb_remove_clean_def sb_inv_erase_if)

lemma sb_on_line_keys [simp]:
  "map fst (sb_map (sb_on_line l f s)) = map fst (sb_map s)"
  "length (sb_map (sb_on_line l f s)) = length (sb_map s)"
  by (simp_all add: sb_on_line_def case_prod_unfold)

lemma sb_on_line_set:
  "(k, x) \<in> set (sb_map (sb_on_line l f s)) \<Longrightarrow>
    \<exists>x0. (k, x0) \<in> set (sb_map s) \<and> x = (if k = l then f x0 else x0)"
  by (auto simp: sb_on_line_def)

lemma sb_inv_on_line:
  assumes i: "sb_inv s0 s P"
    and f: "\<And>x. (l, x) \<in> set (sb_map s) \<Longrightarrow> \<not> sl_prefetch_line (f x) \<and> \<not> sl_transient (f x) \<and>
        (sl_state (f x) = Clean \<or> sl_state (f x) = Uncoherent \<and> (\<exists>a. a \<in># Q \<and> sb_calc_line s a = l))"
    and q: "\<And>b. b \<in># P \<Longrightarrow> sb_calc_line s b \<noteq> l \<Longrightarrow> b \<in># Q"
  shows "sb_inv s0 (sb_on_line l f s) Q"
proof -
  let ?t = "sb_on_line l f s"
  have c: "sb_calc_line ?t a = sb_calc_line s a" for a
    by (rule sb_same_config_calc) simp
  have "sb_lines_ok ?t Q"
    unfolding sb_lines_ok_def c
  proof (rule ballI, clarify)
    fix k x assume "(k, x) \<in> set (sb_map ?t)"
    then obtain x0 where m: "(k, x0) \<in> set (sb_map s)" and x: "x = (if k = l then f x0 else x0)"
      by (blast dest: sb_on_line_set)
    with i have "\<not> sl_prefetch_line x0 \<and> \<not> sl_transient x0 \<and>
        (sl_state x0 = Clean \<or> sl_state x0 = Uncoherent \<and> (\<exists>a. a \<in># P \<and> sb_calc_line s a = k))"
      by (auto simp: sb_inv_def sb_lines_ok_def)
    with x m f [of x0] q show "\<not> sl_prefetch_line x \<and> \<not> sl_transient x \<and>
        (sl_state x = Clean \<or> sl_state x = Uncoherent \<and> (\<exists>a. a \<in># Q \<and> sb_calc_line s a = k))"
      by (cases "k = l") auto
  qed
  moreover have "sb_same_config ?t s0"
    using i by (auto simp: sb_inv_def intro: sb_same_config_trans [OF sb_same_config_ops(1)])
  moreover have "sb_size ?t = sb_size s" by (simp add: sb_on_line_def)
  ultimately show ?thesis using i by (simp add: sb_inv_def)
qed

lemma sb_inv_on_line_clean:
  assumes i: "sb_inv s0 s P" and "\<And>b. b \<in># P \<Longrightarrow> sb_calc_line s b \<noteq> l \<Longrightarrow> b \<in># Q"
  shows "sb_inv s0 (sb_on_line l (\<lambda>x. x\<lparr>sl_state := Clean\<rparr>) s) Q"
  using i by (rule sb_inv_on_line) (use assms in \<open>auto simp: sb_inv_def sb_lines_ok_def\<close>)

lemma sb_room_left:
  assumes "sb_inv s0 s P" and "sb_can_accept_st a s" and "sb_find s (sb_calc_line s a) = None"
  shows "int (length (sb_map (sb_make_room s))) \<le> sb_size s"
proof (cases "int (length (sb_map s)) > sb_size s")
  case True
  have "[(k, x) \<leftarrow> sb_map s. \<not> (sl_is_clean x \<or> sl_prefetch_line x)] = [x \<leftarrow> sb_map s. \<not> sl_is_clean (snd x)]"
    using assms(1) by (auto simp: sb_inv_def sb_lines_ok_def intro!: filter_cong)
  moreover have "length [x \<leftarrow> sb_map s. sl_is_clean (snd x)] + length [x \<leftarrow> sb_map s. \<not> sl_is_clean (snd x)] = length (sb_map s)"
    by (rule sum_length_filter_compl)
  ultimately show ?thesis
    using assms True by (simp add: sb_make_room_def sb_remove_clean_def sb_erase_if_def sb_can_accept_st_def sb_get_clean_num_def)
qed (simp add: sb_make_room_def)

lemma sb_find_None_keys: "sb_find s k = None \<longleftrightarrow> k \<notin> fst ` set (sb_map s)"
  by (simp add: sb_find_def map_of_eq_None_iff)

lemma sb_request_asks: "\<exists>e. sb_request d s = [e] \<and> sb_requested e = [di_addr d]"
  by (simp add: sb_request_def)

lemma sb_make_room_keys: "set (sb_map (sb_make_room s)) \<subseteq> set (sb_map s)"
  by (auto simp: sb_make_room_def sb_remove_clean_def sb_erase_if_def)

lemma sb_inv_add_st:
  assumes i: "sb_inv s0 s P" and acc: "sb_can_accept_st (di_addr d) s" and junk: "\<not> sl_prefetch_line junk"
    and ok: "sb_add_st junk d s = Inr (u, ev, t)"
  shows "sb_inv s0 t (P + mset (concat (map sb_requested ev)))"
proof (cases "sb_find s (sb_calc_line s (di_addr d))")
  case None
  let ?l = "sb_calc_line s (di_addr d)" and ?r = "sb_make_room s"
  from sb_add_st_new [OF ok None] obtain y where t: "t = sb_insert ?l y ?r" and ev: "ev = sb_request d s"
    and y: "sl_state y = Uncoherent" "\<not> sl_transient y" "sl_prefetch_line y = sl_prefetch_line junk" by metis
  from sb_request_asks [of d s] have ev: "concat (map sb_requested ev) = [di_addr d]" by (auto simp: ev)
  have c: "sb_same_config t s" unfolding t by (blast intro: sb_same_config_ops sb_same_config_trans)
  have cr: "sb_calc_line t a = sb_calc_line s a" "sb_calc_line ?r a = sb_calc_line s a" for a
    by (simp_all add: c sb_same_config_calc)
  from sb_inv_make_room [OF i] have ir: "sb_inv s0 ?r P" .
  have "?l \<notin> fst ` set (sb_map ?r)" using None sb_make_room_keys [of s] by (auto simp: sb_find_None_keys)
  moreover have "sb_lines_ok t (P + {#di_addr d#})"
    using ir y junk cr unfolding sb_inv_def sb_lines_ok_def t
    by (auto simp: sb_insert_def split: prod.splits) (metis (no_types, lifting) case_prodD)+
  moreover have "sb_size s = sb_size ?r" "sb_size t = sb_size ?r"
    using sb_same_config_ops(4) [of s] c by (simp_all add: sb_same_config_fields)
  ultimately show ?thesis
    using ir sb_room_left [OF i acc None] ev sb_same_config_trans [OF c] i
    by (auto simp: sb_inv_def t sb_insert_def)
next
  case (Some x)
  let ?l = "sb_calc_line s (di_addr d)"
  from sb_add_st_found [OF ok Some] obtain y
    where y: "sl_add_st (sb_calc_offset s (di_addr d)) (sl_convert_to_store (sb_line_size s) x) = Inr y"
      and t: "t = sb_on_line ?l (\<lambda>_. y\<lparr>sl_state := Uncoherent\<rparr>) s"
      and ev: "ev = (if sl_state x = Uncoherent then [] else sb_request d s)" by metis
  let ?Q = "P + mset (concat (map sb_requested ev))"
  from Some have m: "(?l, x) \<in> set (sb_map s)" by (simp add: sb_find_def map_of_SomeD)
  with i have x: "\<not> sl_prefetch_line x" "\<not> sl_transient x"
    "sl_state x = Uncoherent \<longrightarrow> (\<exists>a. a \<in># P \<and> sb_calc_line s a = ?l)"
    by (auto simp: sb_inv_def sb_lines_ok_def)
  have y': "\<not> sl_prefetch_line y" "\<not> sl_transient y"
    using sl_add_st_keeps [OF y] x by (auto simp: sl_convert_to_store_def)
  have q: "\<exists>a. a \<in># ?Q \<and> sb_calc_line s a = ?l"
    using x(3) ev sb_request_asks [of d s] by (cases "sl_state x = Uncoherent") auto
  show ?thesis unfolding t
    using i by (rule sb_inv_on_line) (use y' q in auto)
qed

lemma sb_reach_inv:
  assumes "sb_reach s0 s P" and "sb_map s0 = []" and "0 \<le> sb_size s0"
  shows "sb_inv s0 s P"
  using assms(1)
proof induction
  case reach_create
  with assms(2,3) show ?case by (simp add: sb_inv_def sb_lines_ok_def)
next
  case (reach_store s P d junk u ev t)
  then show ?case by (blast intro: sb_inv_add_st)
next
  case (reach_answer s P a)
  show ?case unfolding sb_ownership_done_def
  proof (rule sb_inv_on_line_clean [OF reach_answer.IH])
    fix b assume "b \<in># P" "sb_calc_line s b \<noteq> sb_calc_line s a"
    then have "b \<noteq> a" by auto
    with \<open>b \<in># P\<close> show "b \<in># P - {#a#}" by (simp add: in_diff_count)
  qed
next
  case (reach_clean s P d)
  show ?case unfolding sb_set_clean_scb_def by (rule sb_inv_on_line_clean [OF reach_clean.IH])
qed (simp_all add: sb_remove_spec_load_def sb_flush_transient_def sb_remove_clean_def sb_inv_erase_if)

text \<open>
  As long as no prefetch uses the buffer: it holds one entry per line and at most one more line
  than its size, every line that waits has an outstanding request, and once all requests have been
  answered every store is accepted.
\<close>

theorem sb_no_waiting_without_request:
  assumes "sb_reach (sb_create bits n dl1) s P" and "0 < n"
  shows "distinct (map fst (sb_map s)) \<and> int (length (sb_map s)) \<le> n + 1 \<and>
    (\<forall>l x. sb_find s l = Some x \<longrightarrow> sl_is_waiting_wb x \<longrightarrow> (\<exists>a. a \<in># P \<and> sb_calc_line s a = l)) \<and>
    (P = {#} \<longrightarrow> (\<forall>a. sb_can_accept_st a s))"
proof (intro conjI allI impI)
  have i: "sb_inv (sb_create bits n dl1) s P"
    using assms by (intro sb_reach_inv) (simp_all add: sb_create_def)
  then have n: "sb_size s = n" by (simp add: sb_inv_def sb_same_config_fields sb_create_def)
  with i show "distinct (map fst (sb_map s))" "int (length (sb_map s)) \<le> n + 1" by (simp_all add: sb_inv_def)
  show "\<exists>a. a \<in># P \<and> sb_calc_line s a = l" if "sb_find s l = Some x" "sl_is_waiting_wb x" for l x
    using i that by (auto simp: sb_inv_def sb_lines_ok_def sb_find_def sl_is_waiting_wb_def dest!: map_of_SomeD)
  show "sb_can_accept_st a s" if "P = {#}" for a
  proof -
    from i that have "filter (\<lambda>x. sl_is_clean (snd x)) (sb_map s) = sb_map s"
      by (auto simp: sb_inv_def sb_lines_ok_def sl_is_clean_def filter_id_conv)
    with n assms(2) show ?thesis by (simp add: sb_can_accept_st_def sb_get_clean_num_def)
  qed
qed

section \<open>Transient stores and prefetched lines\<close>

lemma sb_offset_in_line:
  assumes "sb_same_config s (sb_create bits n dl1)" and "2 \<le> bits" and "bits < 64"
  shows "sb_calc_offset s a div 4 < sb_line_size s div 4"
proof -
  obtain k where "bits = k + 2" using assms(2) by (metis add.commute le_Suc_ex)
  then have p: "(2::nat) ^ bits = 4 * 2 ^ (bits - 2)" by (simp add: power_add)
  have "sb_calc_offset s a = unat (take_bit bits a)"
    using assms(1) by (simp add: sb_calc_offset_def sb_same_config_fields sb_create_def take_bit_eq_mask mask_eq_exp_minus_1)
  also have "\<dots> < 2 ^ bits" by (simp add: unsigned_take_bit_eq)
  finally show ?thesis
    using assms(1) p by (simp add: sb_same_config_fields sb_create_def)
qed

text \<open>
  A store to a line that the buffer does not hold is added exactly when its instruction is not
  transient: for a transient one the code writes through the end of the map.
\<close>

theorem sb_transient_store_writes_the_end:
  assumes "sb_same_config s (sb_create bits n dl1)" and "2 \<le> bits" and "bits < 64"
    and "sb_find s (sb_calc_line s (di_addr d)) = None"
  shows "(if di_isTransient d then sb_add_st junk d s = Inl Out_of_bounds
          else \<exists>ev t. sb_add_st junk d s = Inr ((), ev, t) \<and> ev = sb_request d s)"
proof -
  have "sb_same_config (sb_make_room s) (sb_create bits n dl1)"
    using sb_same_config_trans [OF sb_same_config_ops(4) assms(1)] .
  then have "sb_calc_offset s (di_addr d) div 4 < sb_line_size (sb_make_room s) div 4"
    using sb_offset_in_line [OF assms(1-3), of "di_addr d"] assms(1) by (simp add: sb_same_config_fields)
  moreover have "sb_request d (sb_insert l x (sb_make_room s)) = sb_request d s" for l x
    by (rule sb_request_config) (blast intro: sb_same_config_ops sb_same_config_trans)
  ultimately show ?thesis
    using assms(4) by (simp add: sb_add_st_def Let_def sl_init_def sl_new_def sl_add_st_def)
qed

lemma sb_find_erase_if:
  assumes "distinct (map fst (sb_map s))"
  shows "sb_find (sb_erase_if p s) k =
    (case sb_find s k of None \<Rightarrow> None | Some x \<Rightarrow> if p k x then None else Some x)"
proof -
  have "distinct (map fst xs) \<Longrightarrow> map_of [(k, x) \<leftarrow> xs. \<not> p k x] k =
      (case map_of xs k of None \<Rightarrow> None | Some x \<Rightarrow> if p k x then None else Some x)" for xs
  proof (induction xs)
    case (Cons a xs)
    have "k \<notin> fst ` set xs \<Longrightarrow> map_of [(k, x) \<leftarrow> xs. \<not> p k x] k = None"
      by (auto simp: map_of_eq_None_iff)
    with Cons show ?case by (cases a) (auto split: option.splits)
  qed simp
  with assms show ?thesis by (simp add: sb_defs)
qed

text \<open>
  C38. A store to a line that a prefetch is still fetching: no request for its ownership is sent, the
  answer of the prefetch no longer cleans the line, so it waits for ever; a flush of the transient lines
  drops the store, although it is not transient.
\<close>

theorem sb_store_to_prefetched_line_is_lost:
  assumes "distinct (map fst (sb_map s))" and "sb_find s (sb_calc_line s a) = None"
    and pf: "sb_try_prefetch junk a st pc i s = Inr (u, ev, s1)"
    and add: "sb_add_st junk' d s1 = Inr (u', ev', s2)"
    and same: "sb_calc_line s (di_addr d) = sb_calc_line s a"
  shows "ev' = [] \<and> sb_is_ld_forward (di_addr d) s2 = Inr True \<and>
    (\<exists>x. sb_find s2 (sb_calc_line s a) = Some x \<and> sl_is_waiting_wb x) \<and>
    sb_prefetch_done a s2 = s2 \<and> sb_is_ld_forward (di_addr d) (sb_flush_transient s2) = Inr False"
proof -
  let ?l = "sb_calc_line s a"
  from pf assms(2) obtain x where s1: "s1 = sb_insert ?l x (sb_make_room s)"
    and x: "sl_state x = Uncoherent" "sl_prefetch_line x" "sl_transient x"
    by (auto simp: sb_try_prefetch_def Let_def bind_res_Inr_iff sl_init_prefetch_def sl_new_def split: if_splits)
  have c1: "sb_same_config s1 s" unfolding s1 by (blast intro: sb_same_config_ops sb_same_config_trans)
  from c1 same have l1: "sb_calc_line s1 (di_addr d) = ?l" by (simp add: sb_same_config_calc)
  have f1: "sb_find s1 (sb_calc_line s1 (di_addr d)) = Some x" unfolding l1 by (simp add: s1)
  from sb_add_st_found [OF add f1] obtain y
    where y: "sl_add_st (sb_calc_offset s1 (di_addr d)) (sl_convert_to_store (sb_line_size s1) x) = Inr y"
      and s2: "s2 = sb_on_line ?l (\<lambda>_. y\<lparr>sl_state := Uncoherent\<rparr>) s1"
      and ev': "ev' = (if sl_state x = Uncoherent then [] else sb_request d s1)" unfolding l1 by metis
  have c2: "sb_same_config s2 s1" by (simp add: s2)
  have l2: "sb_calc_line s2 b = sb_calc_line s b" "sb_calc_offset s2 b = sb_calc_offset s1 b" for b
    using c1 c2 by (simp_all add: sb_same_config_calc)
  have y': "\<not> sl_prefetch_line y" "sl_transient y"
    using sl_add_st_keeps [OF y] x by (simp_all add: sl_convert_to_store_def)
  have f2: "sb_find s2 ?l = Some (y\<lparr>sl_state := Uncoherent\<rparr>)" by (simp add: s2 s1)
  have d: "distinct (map fst (sb_map s2))"
  proof -
    have "distinct (map fst (sb_map (sb_make_room s)))" and "?l \<notin> fst ` set (sb_map (sb_make_room s))"
      using assms(1,2) sb_make_room_keys [of s]
      by (auto simp: sb_make_room_def sb_remove_clean_def sb_erase_if_def distinct_map_filter sb_find_None_keys)
    then show ?thesis by (simp add: s2 s1 sb_insert_def)
  qed
  have "sb_find (sb_flush_transient s2) ?l = None"
    by (simp add: sb_flush_transient_def sb_find_erase_if [OF d] f2 y')
  moreover have "sb_calc_line (sb_flush_transient s2) (di_addr d) = ?l"
    using sb_same_config_calc(1) [OF sb_same_config_ops(2)] by (simp add: sb_flush_transient_def l2 same)
  moreover have "sb_is_ld_forward (di_addr d) s2 = Inr True"
    using sl_add_st_keeps [OF y] sl_add_st_present [OF y]
    by (simp add: sb_is_ld_forward_def l2 same f2 y' sl_is_ld_forward_def)
  ultimately show ?thesis
    by (simp add: ev' x f2 sl_is_waiting_wb_def sb_prefetch_done_def l2 y' sb_is_ld_forward_def [of _ "sb_flush_transient s2"])
qed

text \<open>
  The constructor of an entry does not set \<open>prefetch_line\<close>, and \<open>init\<close> does not either: if the stack
  holds a set flag there, the new store is not forwarded, and making room drops it while it waits.
\<close>

theorem sb_uninitialised_flag_loses_store:
  assumes "distinct (map fst (sb_map s))" and "sl_prefetch_line junk"
    and "sb_find s (sb_calc_line s (di_addr d)) = None" and "sb_add_st junk d s = Inr (u, ev, t)"
  shows "sb_is_ld_forward (di_addr d) t = Inr False \<and>
    sb_find (sb_remove_clean t) (sb_calc_line s (di_addr d)) = None"
proof -
  let ?l = "sb_calc_line s (di_addr d)"
  from sb_add_st_new [OF assms(4,3)] obtain y where t: "t = sb_insert ?l y (sb_make_room s)"
    and y: "sl_prefetch_line y" using assms(2) by metis
  have "?l \<notin> fst ` set (sb_map (sb_make_room s))" and "distinct (map fst (sb_map (sb_make_room s)))"
    using assms(1,3) sb_make_room_keys [of s]
    by (auto simp: sb_make_room_def sb_remove_clean_def sb_erase_if_def distinct_map_filter sb_find_None_keys)
  then have "distinct (map fst (sb_map t))" by (simp add: t sb_insert_def)
  then have "sb_find (sb_remove_clean t) ?l = None"
    by (simp add: sb_remove_clean_def sb_find_erase_if t y)
  then show ?thesis using sb_flagged_store_not_forwarded [OF assms(4,3,2)] by simp
qed

section \<open>The theorems at concrete inputs\<close>

definition sl_stack :: "bool \<Rightarrow> sb_line" where
  "sl_stack flag = \<lparr>sl_state = Invalid, sl_transient = False, sl_word_present = [], sl_line_addr = 0,
     sl_prefetch_line = flag, sl_inducing = 0\<rparr>"

definition di_store_at :: "addr \<Rightarrow> dinst" where
  "di_store_at a = di_blank\<lparr>di_addr := a, di_flags := undefined\<lparr>fl_transient := False, fl_keep_stats := True\<rparr>\<rparr>"

lemmas sb_eval = sb_create_def sl_stack_def di_store_at_def di_blank_def di_isTransient_def sb_add_st_def
  sb_calc_line_def sb_calc_offset_def sb_find_def Let_def sb_make_room_def sl_init_def sl_new_def sl_add_st_def
  sb_insert_def sb_request_def sb_ownership_done_def sb_on_line_def sb_try_prefetch_def sl_init_prefetch_def
  sl_convert_to_store_def sl_is_waiting_wb_def sb_can_accept_st_def sb_get_clean_num_def sl_is_clean_def

definition sb_one :: store_buffer where
  "sb_one = sb_insert 3 ((sl_stack False)\<lparr>sl_state := Uncoherent, sl_line_addr := 3,
     sl_word_present := [False, True, False, False]\<rparr>) (sb_create 4 2 True)"

lemma replicate_four: "replicate 4 x = [x, x, x, x]"
  by (simp add: numeral_eq_Suc)

lemma sb_one_store: "sb_add_st (sl_stack False) (di_store_at 52) (sb_create 4 2 True) =
    Inr ((), [Send_write 52 True 0], sb_one)"
  by (simp add: sb_eval sb_one_def replicate_four)

lemma sb_accepted_store_forwards_witness:
  "sb_is_ld_forward 54 (sb_ownership_done 80 sb_one) = Inr True"
proof -
  have "sb_run [Ownership_done 80] sb_one = Inr ([], sb_ownership_done 80 sb_one)" by simp
  from sb_accepted_store_forwards [OF sb_one_store _ this, of 54] show ?thesis
    by (simp add: sb_eval sb_one_def)
qed

lemma sb_reach_one: "sb_reach (sb_create 4 2 True) sb_one {#52#}"
proof -
  have a: "sb_can_accept_st (di_addr (di_store_at 52)) (sb_create 4 2 True)" by (simp add: sb_eval)
  have b: "\<not> sl_prefetch_line (sl_stack False)" by (simp add: sb_eval)
  show ?thesis using reach_store [OF reach_create a b sb_one_store] by simp
qed

lemma sb_no_waiting_without_request_witness:
  "int (length (sb_map sb_one)) \<le> 2 + 1"
  using sb_no_waiting_without_request [OF sb_reach_one] by simp

lemma sb_transient_store_writes_the_end_witness:
  "sb_add_st (sl_stack False) (di_store_at 52 \<lparr>di_flags := undefined\<lparr>fl_transient := True\<rparr>\<rparr>) (sb_create 4 2 True) =
    Inl Out_of_bounds"
  using sb_transient_store_writes_the_end [of "sb_create 4 2 True" 4 2 True
      "di_store_at 52 \<lparr>di_flags := undefined\<lparr>fl_transient := True\<rparr>\<rparr>" "sl_stack False"]
  by (simp add: sb_create_def sb_find_def di_isTransient_def)

lemma sb_store_to_prefetched_line_is_lost_witness:
  "\<exists>s2. sb_is_ld_forward 52 (sb_flush_transient s2) = Inr False"
proof -
  let ?s = "sb_create 4 2 True"
  obtain u ev s1 where p: "sb_try_prefetch (sl_stack False) 48 True 0 96 ?s = Inr (u, ev, s1)"
    by (simp add: sb_eval)
  moreover from p have "\<exists>u' ev' s2. sb_add_st (sl_stack False) (di_store_at 52) s1 = Inr (u', ev', s2)"
    by (auto simp: sb_eval)
  ultimately obtain u' ev' s2 where a: "sb_add_st (sl_stack False) (di_store_at 52) s1 = Inr (u', ev', s2)" by blast
  have "sb_is_ld_forward (di_addr (di_store_at 52)) (sb_flush_transient s2) = Inr False"
    using sb_store_to_prefetched_line_is_lost [OF _ _ p a] by (simp add: sb_eval)
  then show ?thesis by (auto simp: di_store_at_def)
qed

lemma sb_uninitialised_flag_loses_store_witness:
  "\<exists>t. sb_add_st (sl_stack True) (di_store_at 52) (sb_create 4 2 True) = Inr ((), [Send_write 52 True 0], t) \<and>
     sb_is_ld_forward 52 t = Inr False"
proof -
  obtain t where a: "sb_add_st (sl_stack True) (di_store_at 52) (sb_create 4 2 True) = Inr ((), [Send_write 52 True 0], t)"
    by (simp add: sb_eval)
  have "sb_is_ld_forward (di_addr (di_store_at 52)) t = Inr False"
    using sb_uninitialised_flag_loses_store [OF _ _ _ a] by (simp add: sb_eval)
  with a show ?thesis by (auto simp: di_store_at_def)
qed

end
