(* ===== verification/Dolc.thy ===== *)
theory Dolc
  imports Desesc_Prelude
begin

text \<open>
  \<open>simu/dolc.hpp\<close>: the path history behind the branch target buffer and the two-level predictor.
  It keeps the last \<open>depth\<close> addresses, newest first, and folds a few low bits of each, more of
  the recent ones, into a signature. A shift by 64 or more and a mask of 31 bits or more (an
  \<open>int\<close> shift in the code) are undefined in C++ and are the error \<open>Bad_shift\<close> here. The facts:
  the configurations in use compute a signature for up to 30 bits, it fits its width, and it depends
  on nothing but the recorded bits of the last addresses; a depth of one writes past the vectors.
\<close>

section \<open>State and operations\<close>

record dolc =
  dc_depth :: nat
  dc_olderBits :: nat
  dc_lastBits :: nat
  dc_currBits :: nat
  dc_phase :: u64
  dc_hist :: "u64 list"
  dc_histMask :: "u64 list"
  dc_histBits :: "nat list"

text \<open>The number of bits that the loop of \<open>allocate\<close> gives to the entries from \<open>i\<close> on.\<close>

fun dc_bits :: "nat \<Rightarrow> nat \<Rightarrow> nat \<Rightarrow> nat list" where
  "dc_bits 0 i obits = []"
| "dc_bits (Suc n) i obits =
    (let obits = (if i = 2 then 4 else if i = 3 then 2 else if i = 6 then 1 else obits);
         obits = (if obits < 1 then 1 else obits)
     in obits # dc_bits n (i + 1) obits)"

definition dc_create :: "nat \<Rightarrow> nat \<Rightarrow> nat \<Rightarrow> nat \<Rightarrow> dolc res" where
  "dc_create d ob l c =
    (if 63 < ob \<or> 63 < l \<or> 63 < c then Inl Exit_called
     else if d < 2 then Inl Out_of_bounds
     else let bits = (dc_bits d 0 ob)[1 := l, 0 := c]
          in Inr \<lparr>dc_depth = d, dc_olderBits = ob, dc_lastBits = l, dc_currBits = c, dc_phase = 0,
                  dc_hist = replicate d 0, dc_histMask = map (\<lambda>b. 2 ^ b - 1) bits, dc_histBits = bits\<rparr>)"

definition dc_update :: "u64 \<Rightarrow> dolc \<Rightarrow> dolc res" where
  "dc_update a d =
    (if dc_hist d = [] then Inl Out_of_bounds else Inr (d\<lparr>dc_hist := a # butlast (dc_hist d)\<rparr>))"

definition dc_setPhase :: "u64 \<Rightarrow> dolc \<Rightarrow> dolc" where
  "dc_setPhase a d = d\<lparr>dc_phase := a\<rparr>"

text \<open>One entry of the history is rotated into the signature.\<close>

definition dc_fold :: "dolc \<Rightarrow> nat \<Rightarrow> nat \<times> u64 \<Rightarrow> (nat \<times> u64) res" where
  "dc_fold d i = (\<lambda>(nbits, sign).
    nth_res (dc_histBits d) i (\<lambda>oBits.
    nth_res (dc_hist d) i (\<lambda>h.
    nth_res (dc_histMask d) i (\<lambda>m.
      if oBits = 0 \<or> 64 \<le> oBits then Inl Bad_shift
      else let sign = sign XOR drop_bit (64 - oBits) sign
           in Inr ((nbits + oBits) mod 2 ^ 16, push_bit oBits sign + (h AND m))))))"

definition dc_spread :: "(nat \<Rightarrow> u64 \<Rightarrow> u64) \<Rightarrow> nat \<Rightarrow> nat \<Rightarrow> u64 \<Rightarrow> u64 res" where
  "dc_spread shift bits i sign =
    (if 64 \<le> i * bits then Inl Bad_shift else Inr (sign + shift (i * bits) sign))"

definition dc_getSign :: "nat \<Rightarrow> nat \<Rightarrow> dolc \<Rightarrow> u64 res" where
  "dc_getSign bits m d =
    bind_res (for_res [0..<min m (dc_depth d)] (dc_fold d) (0, 0)) (\<lambda>(nbits, sign).
      let sign = sign XOR dc_phase d
      in bind_res
          (if nbits < bits
           then if nbits = 0 then Inl Div_by_zero
                else for_res [0..<bits div nbits] (dc_spread push_bit bits) sign
           else if bits = 0 then Inl Div_by_zero
                else for_res [0..<nbits div bits] (dc_spread drop_bit bits) sign)
          (\<lambda>sign. if 31 \<le> bits then Inl Bad_shift else Inr (sign AND (2 ^ bits - 1))))"

section \<open>The configurations in use\<close>

text \<open>The levels 5, 2, 2 of the predictors.\<close>

definition dc_level :: "nat \<Rightarrow> nat" where
  "dc_level i = (if i < 2 then 5 else if i = 2 then 4 else if i < 6 then 2 else 1)"

definition dc_std :: "nat \<Rightarrow> nat" where
  "dc_std i = (if i < 2 then 2 else dc_level i)"

definition dc_total :: "nat \<Rightarrow> nat" where
  "dc_total n = (if n \<le> 2 then 2 * n else if n \<le> 6 then 2 * n + 2 else n + 8)"

lemma length_dc_bits [simp]: "length (dc_bits n i ob) = n"
  by (induction n arbitrary: i ob) (simp_all add: Let_def)

lemma nth_dc_bits:
  "k < n \<Longrightarrow> (if i = 0 then ob = 5 else ob = dc_level (i - 1)) \<Longrightarrow> dc_bits n i ob ! k = dc_level (i + k)"
proof (induction n arbitrary: i ob k)
  case (Suc n)
  define ob1 where "ob1 = (if i = 2 then 4 else if i = 3 then 2 else if i = 6 then 1 else ob)"
  define ob2 where "ob2 = (if ob1 < 1 then 1 else ob1)"
  have u: "dc_bits (Suc n) i ob = ob2 # dc_bits n (i + 1) ob2"
    by (simp only: dc_bits.simps Let_def ob1_def [symmetric] ob2_def [symmetric])
  have "ob2 = dc_level i"
    using Suc.prems(2) by (auto simp: ob2_def ob1_def dc_level_def split: if_splits)
  then show ?case unfolding u using Suc.IH [of "k - 1" "i + 1" ob2] Suc.prems(1) by (cases k) auto
qed simp

text \<open>What a history of the configurations in use looks like.\<close>

definition dc_wf :: "dolc \<Rightarrow> bool" where
  "dc_wf d \<longleftrightarrow> 2 \<le> dc_depth d \<and> length (dc_hist d) = dc_depth d \<and>
     dc_histBits d = map dc_std [0..<dc_depth d] \<and> dc_histMask d = map (\<lambda>i. 2 ^ dc_std i - 1) [0..<dc_depth d]"

lemma dc_create_wf:
  assumes "2 \<le> n"
  obtains d where "dc_create n 5 2 2 = Inr d" and "dc_wf d" and "dc_depth d = n" and "dc_phase d = 0"
    and "dc_hist d = replicate n 0"
proof -
  have b: "(dc_bits n 0 5)[1 := 2, 0 := 2] = map dc_std [0..<n]"
    by (rule nth_equalityI) (auto simp: nth_list_update nth_dc_bits dc_std_def)
  show thesis
  proof (rule that)
    show "dc_create n 5 2 2 = Inr \<lparr>dc_depth = n, dc_olderBits = 5, dc_lastBits = 2, dc_currBits = 2, dc_phase = 0,
       dc_hist = replicate n 0, dc_histMask = map (\<lambda>b. 2 ^ b - 1) (map dc_std [0..<n]), dc_histBits = map dc_std [0..<n]\<rparr>"
      using assms b by (simp add: dc_create_def Let_def del: map_map)
  qed (use assms in \<open>simp_all add: dc_wf_def\<close>)
qed

text \<open>The calls of the owner between two signatures.\<close>

definition dc_run :: "u64 list \<Rightarrow> dolc \<Rightarrow> dolc res" where
  "dc_run as = for_res as dc_update"

text \<open>The address \<open>i\<close> steps back on a path.\<close>

definition dc_path :: "u64 list \<Rightarrow> nat \<Rightarrow> u64" where
  "dc_path as i = (if i < length as then rev as ! i else 0)"

lemma dc_run_hist:
  "dc_wf d \<Longrightarrow> \<exists>d'. dc_run as d = Inr d' \<and> dc_wf d' \<and> dc_phase d' = dc_phase d \<and> dc_depth d' = dc_depth d \<and>
     dc_hist d' = take (dc_depth d) (rev as @ dc_hist d)"
proof (induction as arbitrary: d)
  case Nil
  then show ?case by (simp add: dc_run_def dc_wf_def)
next
  case (Cons a as)
  let ?d = "d\<lparr>dc_hist := a # butlast (dc_hist d)\<rparr>"
  from Cons.prems have l: "length (dc_hist d) = dc_depth d" "2 \<le> dc_depth d" by (simp_all add: dc_wf_def)
  then have "dc_update a d = Inr ?d" by (auto simp: dc_update_def)
  moreover have "dc_wf ?d" using Cons.prems by (simp add: dc_wf_def)
  moreover have "take (dc_depth d) (rev as @ a # butlast (dc_hist d)) = take (dc_depth d) (rev as @ a # dc_hist d)"
    using l by (simp add: take_append butlast_conv_take take_Cons' min_def)
  ultimately show ?case using Cons.IH [of ?d] by (auto simp: dc_run_def)
qed

lemma dc_run_path:
  assumes "dc_create n 5 2 2 = Inr d" and "2 \<le> n"
  obtains d' where "dc_run as d = Inr d'" and "dc_wf d'" and "dc_phase d' = 0" and "dc_depth d' = n"
    and "\<forall>i < n. dc_hist d' ! i = dc_path as i"
proof -
  obtain e where "dc_create n 5 2 2 = Inr e" "dc_wf e" "dc_depth e = n" "dc_phase e = 0" "dc_hist e = replicate n 0"
    using dc_create_wf [OF assms(2)] by blast
  with assms(1) have d: "dc_wf d" "dc_depth d = n" "dc_phase d = 0" "dc_hist d = replicate n 0" by auto
  from dc_run_hist [OF d(1), of as] obtain d' where d': "dc_run as d = Inr d'" "dc_wf d'" "dc_phase d' = 0"
    "dc_depth d' = n" "dc_hist d' = take n (rev as @ replicate n 0)" using d by auto
  have "\<forall>i < n. dc_hist d' ! i = dc_path as i"
    by (auto simp: d'(5) dc_path_def nth_append)
  with d'(1-4) show thesis by (rule that)
qed

section \<open>The signature\<close>

lemma for_res_cong: "(\<And>i. i \<in> set is \<Longrightarrow> f i = g i) \<Longrightarrow> for_res is f s = for_res is g s"
proof (induction "is" arbitrary: s)
  case (Cons i "is")
  then have "for_res is f = for_res is g" by (intro ext) auto
  with Cons.prems [of i] show ?case by simp
qed simp

lemma dc_fold_step:
  assumes "dc_wf d" and "i < dc_depth d"
  shows "dc_fold d i (nb, sg) = Inr ((nb + dc_std i) mod 2 ^ 16,
    push_bit (dc_std i) (sg XOR drop_bit (64 - dc_std i) sg) + (dc_hist d ! i AND (2 ^ dc_std i - 1)))"
  using assms by (simp add: dc_fold_def dc_wf_def Let_def dc_std_def dc_level_def)

lemma dc_fold_total:
  assumes "dc_wf d" and "h \<le> dc_depth d" and "h \<le> 30"
  shows "\<exists>sg. for_res [0..<h] (dc_fold d) (0, 0) = Inr (dc_total h, sg)"
proof -
  have "\<exists>r. for_res [0..<h] (dc_fold d) (0, 0) = Inr r \<and> fst r = dc_total h"
  proof (rule for_res_upt [where P = "\<lambda>i r. fst r = dc_total i"])
    fix i and r :: "nat \<times> u64" assume i: "i < h" "fst r = dc_total i"
    moreover have "dc_total i + dc_std i = dc_total (Suc i)" "dc_total (Suc i) < 2 ^ 16"
      using i(1) assms(3) by (auto simp: dc_total_def dc_std_def dc_level_def)
    ultimately show "\<exists>r'. dc_fold d i r = Inr r' \<and> fst r' = dc_total (Suc i)"
      using assms(1,2) by (cases r) (simp add: dc_fold_step)
  qed (simp add: dc_total_def)
  then show ?thesis by auto
qed

lemma dc_spread_total:
  assumes "(n - 1) * b < 64"
  shows "\<exists>s'. for_res [0..<n] (dc_spread f b) s = Inr s'"
proof -
  have "\<exists>s'. for_res [0..<n] (dc_spread f b) s = Inr s' \<and> True"
  proof (rule for_res_upt)
    fix i s assume "i < n"
    then have "i \<le> n - 1" by arith
    then have "i * b \<le> (n - 1) * b" by (rule mult_le_mono1)
    then have "i * b < 64" using assms by (rule le_less_trans)
    then show "\<exists>s'. dc_spread f b i s = Inr s' \<and> True" by (simp add: dc_spread_def)
  qed simp
  then show ?thesis by simp
qed

lemma dc_getSign_total:
  assumes "dc_wf d" and "1 \<le> h" and "h \<le> 30" and "h \<le> dc_depth d"
  shows "\<exists>s. dc_getSign h h d = Inr s \<and> unat s < 2 ^ h"
proof -
  obtain sg where f: "for_res [0..<min h (dc_depth d)] (dc_fold d) (0, 0) = Inr (dc_total h, sg)"
    using dc_fold_total [OF assms(1,4,3)] assms(4) by (auto simp: min_def)
  have t: "h \<le> dc_total h" "dc_total h \<le> 38" using assms(2,3) by (auto simp: dc_total_def)
  have "(dc_total h div h - 1) * h \<le> dc_total h div h * h" by (intro mult_le_mono1) simp
  also have "\<dots> \<le> dc_total h" by simp
  also have "\<dots> < 64" using t(2) by simp
  finally have "(dc_total h div h - 1) * h < 64" .
  from dc_spread_total [OF this] obtain s where
    s: "for_res [0..<dc_total h div h] (dc_spread drop_bit h) (sg XOR dc_phase d) = Inr s" by blast
  have "unat (s AND (2 ^ h - 1)) < 2 ^ h"
    using assms(3) by (simp flip: mask_eq_exp_minus_1 take_bit_eq_mask add: unsigned_take_bit_eq)
  then show ?thesis using f s t assms(2,3) by (simp add: dc_getSign_def Let_def)
qed

text \<open>
  C19. A signature of at most 30 bits, over as many addresses, is always computed, fits its width, and is
  determined by the recorded low bits of those addresses: two paths that agree there have the same
  signature, whatever came before.
\<close>

theorem dolc_sign_is_path_history:
  assumes "dc_create n 5 2 2 = Inr d" and "2 \<le> n" and "1 \<le> h" and "h \<le> 30" and "h \<le> n"
    and "\<forall>i < h. dc_path as i AND (2 ^ dc_std i - 1) = dc_path bs i AND (2 ^ dc_std i - 1)"
  shows "\<exists>s. bind_res (dc_run as d) (dc_getSign h h) = Inr s \<and>
    bind_res (dc_run bs d) (dc_getSign h h) = Inr s \<and> unat s < 2 ^ h"
proof -
  obtain x where x: "dc_run as d = Inr x" "dc_wf x" "dc_phase x = 0" "dc_depth x = n" "\<forall>i < n. dc_hist x ! i = dc_path as i"
    using dc_run_path [OF assms(1,2)] by blast
  obtain y where y: "dc_run bs d = Inr y" "dc_wf y" "dc_phase y = 0" "dc_depth y = n" "\<forall>i < n. dc_hist y ! i = dc_path bs i"
    using dc_run_path [OF assms(1,2)] by blast
  have "for_res [0..<min h n] (dc_fold x) (0, 0) = for_res [0..<min h n] (dc_fold y) (0, 0)"
  proof (rule for_res_cong, rule ext)
    fix i and r :: "nat \<times> u64" assume "i \<in> set [0..<min h n]"
    then have "i < n" "i < h" by auto
    then show "dc_fold x i r = dc_fold y i r"
      using x y assms(6) by (cases r) (simp add: dc_fold_step)
  qed
  then have "dc_getSign h h x = dc_getSign h h y"
    using x y by (simp add: dc_getSign_def)
  with dc_getSign_total [OF x(2) assms(3,4)] x y assms(5) show ?thesis by auto
qed

lemma dolc_sign_is_path_history_witness:
  "\<exists>d s. dc_create 4 5 2 2 = Inr d \<and> bind_res (dc_run [7, 1, 2, 3] d) (dc_getSign 3 3) = Inr s \<and>
     bind_res (dc_run [8, 17, 6, 7] d) (dc_getSign 3 3) = Inr s"
proof -
  obtain d where d: "dc_create 4 5 2 2 = Inr d" using dc_create_wf [of 4] by auto
  have "\<forall>i < 3. dc_path [7, 1, 2, 3] i AND (2 ^ dc_std i - 1) = dc_path [8, 17, 6, 7] i AND (2 ^ dc_std i - 1)"
    by (auto simp: less_Suc_eq numeral_eq_Suc dc_path_def dc_std_def dc_level_def)
  from dolc_sign_is_path_history [OF d _ _ _ _ this] d show ?thesis by auto
qed

text \<open>
  Where the code leaves its vectors: with a depth of one the second entry of the width table is written
  past its end, and signatures of 31 bits or more shift an \<open>int\<close> too far.
\<close>

theorem dolc_bounds_fail:
  "dc_create 1 5 2 2 = Inl Out_of_bounds \<and> (31 \<le> h \<longrightarrow> (\<forall>s. dc_getSign h m d \<noteq> Inr s))"
  by (auto simp: dc_create_def dc_getSign_def bind_res_Inr_iff Let_def split: if_splits)

lemma dolc_bounds_fail_witness: "dc_getSign 31 31 \<lparr>dc_depth = 2, dc_olderBits = 5, dc_lastBits = 2,
    dc_currBits = 2, dc_phase = 0, dc_hist = [], dc_histMask = [], dc_histBits = []\<rparr> \<noteq> Inr 5"
  using dolc_bounds_fail [of 31] by simp

end
