(* ===== verification/Branch_Btb.thy ===== *)
theory Branch_Btb
  imports Dolc Cache_Factory Dinst
begin

text \<open>
  The branch target buffer of \<open>simu/bpred.hpp\<close> and \<open>simu/BPred.cpp\<close> (class \<open>BPBTB\<close>): a vector of
  cache arrays, one per bank, whose lines hold a target. The index and the tag are hashes of the fetch
  boundary, the position of the branch in the fetch block and the path history. The
  counters of hits and misses are statistics and left out. The facts: a taken branch that was
  looked up with update is predicted correctly the next time, in the associative and in the
  direct-mapped arrays; in the latter an update ignores the tag; a skewed buffer cannot be built.
\<close>

datatype outcome = Outcome_Correct | Outcome_None | Outcome_NoBTB | Outcome_Miss

section \<open>Hashes\<close>

definition bpred_hash :: "addr \<Rightarrow> u64" where
  "bpred_hash x =
    (let x = x XOR word_rotl 5 x; x = x XOR word_rotl 13 x; x = x XOR drop_bit 32 x;
         x = x XOR word_rotl 7 x; x = x XOR drop_bit 23 x; x = x XOR word_rotl 17 x;
         x = x XOR drop_bit 29 x
     in x XOR word_rotl 41 x)"

definition bpred_hash_offset :: "addr \<Rightarrow> addr \<Rightarrow> u64" where
  "bpred_hash_offset a off =
    (let x = bpred_hash a; c = bpred_hash (off XOR word_rotl 19 off XOR push_bit 1 off);
         x = x XOR word_rotl 9 c; x = x XOR word_rotl 27 c; x = x XOR drop_bit 17 c;
         x = x XOR word_rotl 33 (x XOR c)
     in bpred_hash x)"

section \<open>State\<close>

record btb_line = cache_line +
  bt_targetPC :: addr

type_synonym btb_cache = "unit btb_line_ext any_cache"

record btb =
  bt_dolc :: "dolc option"
  bt_icache :: bool
  bt_historySize :: nat
  bt_fetch_predict :: bool
  bt_tag_offset :: bool
  bt_tag_hybrid :: bool
  bt_tag_mask :: u32
  bt_log2_nsub :: nat
  bt_nsub_mask :: u32
  bt_taken_counter :: int
  bt_tag_counter :: int
  bt_data :: "btb_cache list"
  bt_boundaryPC :: addr
  bt_boundaryID :: u64

record btb_config =
  bc_fetch_predict :: bool
  bc_tag_offset :: bool
  bc_tag_hybrid :: bool
  bc_tag_size :: u32
  bc_log2_nsub :: nat
  bc_history_size :: nat
  bc_split_il1 :: bool
  bc_size :: int
  bc_assoc :: int
  bc_line_size :: int
  bc_xor :: bool
  bc_skew :: bool
  bc_addrUnit :: int
  bc_repl_policy :: string

text \<open>\<open>create\<close> is called without the size of the SHIP table, whose default is 13.\<close>

fun bt_banks :: "unit btb_line_ext cache_env \<Rightarrow> btb_config \<Rightarrow> nat \<Rightarrow> (bool \<times> btb_cache list) res" where
  "bt_banks e g 0 = Inr (False, [])"
| "bt_banks e g (Suc n) =
    bind_res (any_create e (bc_size g div 2 ^ bc_log2_nsub g) (bc_assoc g) (bc_line_size g) (bc_addrUnit g)
        (bc_repl_policy g) (bc_skew g) (bc_xor g) 13) (\<lambda>(err, c).
      case c of None \<Rightarrow> Inl Assert_failed
      | Some c \<Rightarrow> bind_res (bt_banks e g n) (\<lambda>(errs, cs). Inr (err \<or> errs, c # cs)))"

text \<open>\<open>old\<close> is the memory of the object: without arrays most members are not written.\<close>

definition bt_create :: "unit btb_line_ext cache_env \<Rightarrow> btb_config \<Rightarrow> btb \<Rightarrow> (bool \<times> btb) res" where
  "bt_create e g old =
    (let n = bc_log2_nsub g;
         err = bc_tag_offset g \<and> bc_tag_hybrid g;
         b = old\<lparr>bt_fetch_predict := bc_fetch_predict g, bt_tag_offset := bc_tag_offset g,
               bt_tag_hybrid := bc_tag_hybrid g, bt_log2_nsub := n, bt_nsub_mask := 2 ^ n - 1,
               bt_historySize := bc_history_size g, bt_icache := bc_split_il1 g\<rparr>
     in bind_res
         (if bc_history_size g = 0 then Inr None
          else bind_res (dc_create (bc_history_size g + 1) 5 2 2) (\<lambda>d. Inr (Some d))) (\<lambda>d.
         let b = b\<lparr>bt_dolc := d\<rparr>
         in if bc_size g = 0 then Inr (err, b\<lparr>bt_data := []\<rparr>)
            else if 31 < unat (32 - bc_tag_size g) then Inl Bad_shift
            else let s = unat (32 - bc_tag_size g);
                     b = b\<lparr>bt_boundaryPC := 0, bt_taken_counter := - 1, bt_tag_counter := - 1,
                           bt_tag_mask := drop_bit s (push_bit s (- 1))\<rparr>;
                     err = (err \<or> bc_size g div 2 ^ n < bc_assoc g * bc_line_size g)
                 in bind_res (bt_banks e g (2 ^ n)) (\<lambda>(errs, cs). Inr (err \<or> errs, b\<lparr>bt_data := cs\<rparr>))))"

section \<open>Operations\<close>

definition bt_fetchBoundaryBegin :: "dinst \<Rightarrow> btb \<Rightarrow> btb" where
  "bt_fetchBoundaryBegin d b = b\<lparr>bt_boundaryPC := di_pc d, bt_boundaryID := di_ID d,
     bt_taken_counter := 0, bt_tag_counter := 0\<rparr>"

definition bt_fetchBoundaryEnd :: "btb \<Rightarrow> btb" where
  "bt_fetchBoundaryEnd b = b\<lparr>bt_taken_counter := - 1, bt_tag_counter := 0, bt_boundaryPC := 0\<rparr>"

definition bt_split_tag_bank :: "btb \<Rightarrow> addr \<Rightarrow> addr \<times> nat" where
  "bt_split_tag_bank b t =
    (let n = bt_log2_nsub b;
         bank = (if 0 < n then unat (t AND ucast (bt_nsub_mask b)) else 0);
         t = (if 0 < n then drop_bit n t else t)
     in (if t = 0 then of_nat (bank + 1) else t, bank))"

definition bt_keys :: "dinst \<Rightarrow> bool \<Rightarrow> btb \<Rightarrow> u32 \<times> u32" where
  "bt_keys d do_tag_offset b =
    (let pc_key = ucast (bpred_hash (di_pc d)) :: u32;
         boundary = (if bt_fetch_predict b then ucast (bpred_hash (bt_boundaryPC b)) else pc_key);
         t = (if do_tag_offset \<and> bt_fetch_predict b
              then ucast (bpred_hash_offset (bt_boundaryPC b) (di_ID d - bt_boundaryID b))
              else ucast (bpred_hash_offset (di_pc d) 33)) AND bt_tag_mask b
     in (boundary, if t = 0 then word_of_int (bt_tag_counter b + 22) else t))"

definition bt_compute_index_tag :: "dinst \<Rightarrow> bool \<Rightarrow> bool \<Rightarrow> btb \<Rightarrow> ((u32 \<times> u32) \<times> btb) res" where
  "bt_compute_index_tag d do_tag_offset doUpdate b =
    (let (boundary, t) = bt_keys d do_tag_offset b
     in case bt_dolc b of
          None \<Rightarrow> Inr ((boundary, t), b)
        | Some c \<Rightarrow>
            bind_res (if doUpdate then dc_update (bt_boundaryPC b) c else Inr c) (\<lambda>c.
              let h = bt_historySize b mod 2 ^ 16
              in bind_res (dc_getSign h h c) (\<lambda>s.
                   Inr ((boundary XOR ucast s, t XOR ucast s), b\<lparr>bt_dolc := Some c\<rparr>))))"

text \<open>A lookup in the bank of the tag: a fill, or a search without effect.\<close>

definition bt_lookup :: "dinst \<Rightarrow> bool \<Rightarrow> bool \<Rightarrow> bool \<Rightarrow> btb \<Rightarrow> ((nat \<times> nat option) \<times> btb) res" where
  "bt_lookup d do_tag_offset dolcUpdate fill b =
    bind_res (bt_compute_index_tag d do_tag_offset dolcUpdate b) (\<lambda>((boundary, t), b).
      let (key, bank) = bt_split_tag_bank b (ucast t)
      in nth_res (bt_data b) bank (\<lambda>c.
           bind_res
             (if fill then bind_res (any_fillLine StateGeneric (ucast boundary) key 0xdeaddead c)
                             (\<lambda>(l, c). Inr (Some l, c))
              else any_findLineNoEffect (ucast boundary) key c) (\<lambda>(r, c).
             Inr ((bank, r), b\<lparr>bt_data := (bt_data b)[bank := c]\<rparr>))))"

definition bt_set_target :: "nat \<Rightarrow> nat \<Rightarrow> addr \<Rightarrow> btb \<Rightarrow> btb" where
  "bt_set_target bank l v b =
    b\<lparr>bt_data := (bt_data b)[bank := any_update l (\<lambda>x. x\<lparr>bt_targetPC := v\<rparr>) (bt_data b ! bank)]\<rparr>"

definition bt_updateOnly :: "dinst \<Rightarrow> btb \<Rightarrow> btb res" where
  "bt_updateOnly d b =
    (let b = b\<lparr>bt_tag_counter := bt_tag_counter b + 1\<rparr>
     in if bt_data b = [] then Inr b
        else bind_res (di_isTaken d) (\<lambda>taken.
          if \<not> taken \<or> isFuncRet (di_inst d) then Inr b
          else assert_res (0 \<le> bt_taken_counter b)
           (let b = b\<lparr>bt_taken_counter := bt_taken_counter b + 1\<rparr>;
                force_offset = (bt_taken_counter b > 1 \<and> bt_tag_hybrid b)
            in bind_res (bt_lookup d (bt_tag_offset b \<or> force_offset) True True b) (\<lambda>((bank, r), b).
                 deref r (\<lambda>l. Inr (bt_set_target bank l (di_addr d) b))))))"

text \<open>What a line that was found predicts; \<open>None\<close> when it holds no target.\<close>

definition bt_judge :: "dinst \<Rightarrow> bool \<Rightarrow> nat \<Rightarrow> nat \<Rightarrow> btb \<Rightarrow> outcome option \<times> btb" where
  "bt_judge d upd bank l b =
    (let predictID = bt_targetPC (any_line l (bt_data b ! bank))
     in if predictID = di_addr d then (Some Outcome_Correct, b)
        else (if predictID \<noteq> 0 then Some Outcome_Miss else None,
              if upd then bt_set_target bank l (di_addr d) b else b))"

definition bt_predict_hybrid :: "dinst \<Rightarrow> bool \<Rightarrow> btb \<Rightarrow> (outcome \<times> btb) res" where
  "bt_predict_hybrid d doUpdate b =
    (let upd = (doUpdate \<and> bt_taken_counter b > 1)
     in bind_res (bt_lookup d True upd (upd \<and> di_addr d \<noteq> 0) b) (\<lambda>((bank, r), b).
          case r of
            None \<Rightarrow> Inr (Outcome_NoBTB, b)
          | Some l \<Rightarrow> (case bt_judge d upd bank l b of (p, b) \<Rightarrow>
              Inr (case p of None \<Rightarrow> Outcome_NoBTB | Some p \<Rightarrow> p, b))))"

definition bt_predict :: "dinst \<Rightarrow> bool \<Rightarrow> btb \<Rightarrow> (outcome \<times> btb) res" where
  "bt_predict d doUpdate b =
    (let b = b\<lparr>bt_tag_counter := bt_tag_counter b + 1\<rparr>;
         doUpdate = (doUpdate \<and> \<not> di_isTransient d)
     in if bt_data b = [] then Inr (Outcome_Correct, b)
        else if isFuncRet (di_inst d) then Inr (Outcome_NoBTB, b)
        else assert_res (0 \<le> bt_taken_counter b)
         (bind_res (di_isTaken d) (\<lambda>taken.
            let b = (if taken then b\<lparr>bt_taken_counter := bt_taken_counter b + 1\<rparr> else b)
            in if doesCtrl2Label (di_inst d) \<and> bt_icache b then Inr (Outcome_Correct, b)
               else let force_offset = (bt_taken_counter b > 1 \<and> bt_tag_hybrid b)
                    in bind_res (bt_lookup d (bt_tag_offset b \<or> force_offset) doUpdate
                                  (doUpdate \<and> di_addr d \<noteq> 0) b) (\<lambda>((bank, r), b).
                         case r of
                           None \<Rightarrow> if bt_tag_hybrid b then bt_predict_hybrid d doUpdate b
                                   else Inr (Outcome_NoBTB, b)
                         | Some l \<Rightarrow> (case bt_judge d doUpdate bank l b of (p, b) \<Rightarrow>
                             Inr (case p of None \<Rightarrow> Outcome_NoBTB | Some p \<Rightarrow> p, b))))))"

section \<open>Buffers that work\<close>

interpretation bt_target: line_payload bt_targetPC "\<lambda>v x. x\<lparr>bt_targetPC := v\<rparr>"
  by unfold_locales simp_all

text \<open>Banks that are associative or direct mapped, with lines of one unit, and no path history.\<close>

definition bt_bank_ok :: "btb_cache \<Rightarrow> bool" where
  "bt_bank_ok c \<longleftrightarrow> (assoc_good c \<or> direct_good c) \<and> cg_log2AddrLs (any_geom c) = 0"

definition bt_good :: "btb \<Rightarrow> bool" where
  "bt_good b \<longleftrightarrow> bt_dolc b = None \<and> bt_log2_nsub b < 32 \<and> bt_nsub_mask b = 2 ^ bt_log2_nsub b - 1 \<and>
     length (bt_data b) = 2 ^ bt_log2_nsub b \<and> (\<forall>c \<in> set (bt_data b). bt_bank_ok c)"

abbreviation bt_target_of :: "nat \<Rightarrow> btb_cache \<Rightarrow> addr" where
  "bt_target_of l c \<equiv> bt_targetPC (any_line l c)"

abbreviation bt_write :: "nat \<Rightarrow> addr \<Rightarrow> btb_cache \<Rightarrow> btb_cache" where
  "bt_write l v \<equiv> any_update l (\<lambda>x. x\<lparr>bt_targetPC := v\<rparr>)"

text \<open>A filled line, with the target it has or with one that is written, is found by every later
  access to its key.\<close>

lemma bt_fill_found:
  assumes "bt_bank_ok c" and "key \<noteq> 0"
  shows "\<exists>l c1. any_fillLine StateGeneric a key pc c = Inr (l, c1) \<and>
    (\<forall>c'. c' = c1 \<and> v = bt_target_of l c1 \<or> c' = bt_write l v c1 \<longrightarrow>
      (\<exists>c2. any_fillLine StateGeneric a key pc' c' = Inr (l, c2) \<and> bt_target_of l c2 = v) \<and>
      (\<exists>c2. any_findLineNoEffect a key c' = Inr (Some l, c2) \<and> bt_target_of l c2 = v))"
proof -
  have f: "any_fine c key" using assms by (simp add: bt_bank_ok_def any_fine_def calcTag_def)
  from assms(1) consider "assoc_good c" | "direct_good c" by (auto simp: bt_bank_ok_def)
  then show ?thesis
  proof cases
    case 1
    obtain l c1 where "any_fillLine StateGeneric a key pc c = Inr (l, c1)" "assoc_good c1" "any_front a key l c1"
      using bt_target.assoc.fill [OF 1 f] by blast
    then show ?thesis
      using bt_target.assoc.refill bt_target.assoc.look bt_target.assoc.put by metis
  next
    case 2
    obtain l c1 where "any_fillLine StateGeneric a key pc c = Inr (l, c1)" "direct_good c1" "any_front a key l c1"
      using bt_target.direct.fill [OF 2 f] by blast
    then show ?thesis
      using bt_target.direct.refill bt_target.direct.look bt_target.direct.put by metis
  qed
qed

lemma bt_bank_lt:
  assumes "bt_good b"
  shows "snd (bt_split_tag_bank b t) < length (bt_data b)" and "fst (bt_split_tag_bank b t) \<noteq> 0"
proof -
  let ?n = "bt_log2_nsub b"
  have n: "?n < 32" "bt_nsub_mask b = 2 ^ ?n - 1" "length (bt_data b) = 2 ^ ?n" using assms by (simp_all add: bt_good_def)
  have "(ucast (2 ^ ?n - 1 :: u32) :: u64) = mask ?n"
    unfolding mask_eq_exp_minus_1 [symmetric]
    by (rule bit_word_eqI) (use n(1) in \<open>auto simp: bit_ucast_iff bit_mask_iff\<close>)
  then have "unat (t AND ucast (bt_nsub_mask b)) = take_bit ?n (unat t)"
    by (simp add: n(2) unsigned_take_bit_eq flip: take_bit_eq_mask)
  also have "\<dots> < 2 ^ ?n" by simp
  finally have m: "unat (t AND ucast (bt_nsub_mask b)) < 2 ^ ?n" .
  then show "snd (bt_split_tag_bank b t) < length (bt_data b)"
    by (simp add: bt_split_tag_bank_def Let_def n(3))
  have "(2 :: nat) ^ ?n < 2 ^ 32" using n(1) by (intro power_strict_increasing) simp_all
  with m have "unat (t AND ucast (bt_nsub_mask b)) + 1 < 2 ^ 64" by simp
  then have "(of_nat (unat (t AND ucast (bt_nsub_mask b)) + 1) :: u64) \<noteq> 0"
    by (simp only: word_of_nat_eq_0_iff) (simp add: nat_dvd_not_less)
  then show "fst (bt_split_tag_bank b t) \<noteq> 0"
    by (simp add: bt_split_tag_bank_def Let_def)
qed

text \<open>One step on the state of a buffer without history.\<close>

lemma bt_lookup_fill:
  assumes "bt_good b" and "bt_keys d off b = (i, t)" and "bt_split_tag_bank b (ucast t) = (key, bank)"
    and "any_fillLine StateGeneric (ucast i) key 0xdeaddead (bt_data b ! bank) = Inr (l, c1)"
  shows "bt_lookup d off u True b = Inr ((bank, Some l), b\<lparr>bt_data := (bt_data b)[bank := c1]\<rparr>)"
  using assms bt_bank_lt(1) [OF assms(1), of "ucast t"]
  by (simp add: bt_lookup_def bt_compute_index_tag_def bt_good_def)

lemma bt_lookup_find:
  assumes "bt_dolc b = None" and "bt_keys d off b = (i, t)" and "bt_split_tag_bank b (ucast t) = (key, bank)"
    and "bank < length (bt_data b)"
    and "any_findLineNoEffect (ucast i) key (bt_data b ! bank) = Inr (Some l, c1)"
  shows "bt_lookup d off u False b = Inr ((bank, Some l), b\<lparr>bt_data := (bt_data b)[bank := c1]\<rparr>)"
  using assms by (simp add: bt_lookup_def bt_compute_index_tag_def)

lemma bt_lookup_fill':
  assumes "bt_dolc b = None" and "bt_keys d off b = (i, t)" and "bt_split_tag_bank b (ucast t) = (key, bank)"
    and "bank < length (bt_data b)"
    and "any_fillLine StateGeneric (ucast i) key 0xdeaddead (bt_data b ! bank) = Inr (l, c1)"
  shows "bt_lookup d off u True b = Inr ((bank, Some l), b\<lparr>bt_data := (bt_data b)[bank := c1]\<rparr>)"
  using assms by (simp add: bt_lookup_def bt_compute_index_tag_def)

lemma bt_keys_cong:
  assumes "di_pc d' = di_pc d" and "di_ID d' - bt_boundaryID s' = di_ID d - bt_boundaryID s"
    and "bt_boundaryPC s' = bt_boundaryPC s" and "bt_fetch_predict s' = bt_fetch_predict s"
    and "bt_tag_mask s' = bt_tag_mask s" and "bt_tag_counter s' = bt_tag_counter s"
  shows "bt_keys d' off s' = bt_keys d off s"
  unfolding bt_keys_def assms ..

lemma bt_split_cong:
  assumes "bt_log2_nsub s' = bt_log2_nsub s" and "bt_nsub_mask s' = bt_nsub_mask s"
  shows "bt_split_tag_bank s' t = bt_split_tag_bank s t"
  unfolding bt_split_tag_bank_def assms ..

text \<open>The first prediction of a fetch block, for a taken branch that goes to the arrays.\<close>

definition bt_uses_arrays :: "dinst \<Rightarrow> btb \<Rightarrow> bool" where
  "bt_uses_arrays d b \<longleftrightarrow> di_addr d \<noteq> 0 \<and> isControl (di_inst d) = Inr True \<and> \<not> isFuncRet (di_inst d) \<and>
     \<not> (doesCtrl2Label (di_inst d) \<and> bt_icache b) \<and> bt_data b \<noteq> []"

lemma bt_predict_first:
  assumes "bt_uses_arrays d b"
    and "s = (bt_fetchBoundaryBegin d0 b)\<lparr>bt_tag_counter := 1, bt_taken_counter := 1\<rparr>"
    and "upd' = (upd \<and> \<not> di_isTransient d)"
    and "bt_lookup d (bt_tag_offset b) upd' upd' s = Inr ((bank, Some l), s')"
  shows "bt_predict d upd (bt_fetchBoundaryBegin d0 b) =
    (case bt_judge d upd' bank l s' of (p, s) \<Rightarrow> Inr (case p of None \<Rightarrow> Outcome_NoBTB | Some p \<Rightarrow> p, s))"
  using assms
  by (auto simp: bt_predict_def Let_def bt_fetchBoundaryBegin_def bt_uses_arrays_def di_isTaken_def)

text \<open>
  C17. A buffer without path history, whose banks are associative (\<open>lru\<close>, \<open>par\<close>, \<open>uar\<close>) or direct
  mapped with lines of one unit, learns a target in one step: when a taken branch other than a return (or a branch to a label, if
  those are left to the instruction cache), which is not transient, has been predicted with update as the first one of its fetch block, and the
  block ends there, then the very next prediction, of the same branch with the same target at the same place of the next fetch
  block, is correct, with or without update. (Other branches in between may evict the line: the
  property does not speak of them.)
\<close>

theorem btb_learns_target:
  assumes good: "bt_good b" and d: "bt_uses_arrays d b" and nt: "\<not> di_isTransient d"
    and same: "di_pc d' = di_pc d" "di_addr d' = di_addr d" "di_inst d' = di_inst d" "di_pc e' = di_pc e"
      "di_ID d' - di_ID e' = di_ID d - di_ID e"
  shows "\<exists>p b1 b2. bt_predict d True (bt_fetchBoundaryBegin e b) = Inr (p, b1) \<and>
    bt_predict d' upd (bt_fetchBoundaryBegin e' (bt_fetchBoundaryEnd b1)) = Inr (Outcome_Correct, b2)"
proof -
  define s where "s = (bt_fetchBoundaryBegin e b)\<lparr>bt_tag_counter := 1, bt_taken_counter := 1\<rparr>"
  have gs: "bt_good s" using good by (simp add: bt_good_def s_def bt_fetchBoundaryBegin_def)
  obtain i t key bank where k: "bt_keys d (bt_tag_offset b) s = (i, t)"
    "bt_split_tag_bank s (ucast t) = (key, bank)" by (metis surj_pair)
  have bank: "bank < length (bt_data s)" and key: "key \<noteq> 0"
    using bt_bank_lt [OF gs, of "ucast t"] k(2) by simp_all
  have "bt_bank_ok (bt_data s ! bank)" using gs bank by (auto simp: bt_good_def)
  from bt_fill_found [OF this key, of "ucast i" "0xdeaddead" "di_addr d" "0xdeaddead"]
  obtain l c1 where l: "any_fillLine StateGeneric (ucast i) key 0xdeaddead (bt_data s ! bank) = Inr (l, c1)"
    and again: "\<And>c'. c' = c1 \<and> di_addr d = bt_target_of l c1 \<or> c' = bt_write l (di_addr d) c1 \<Longrightarrow>
      (\<exists>c2. any_fillLine StateGeneric (ucast i) key 0xdeaddead c' = Inr (l, c2) \<and> bt_target_of l c2 = di_addr d) \<and>
      (\<exists>c2. any_findLineNoEffect (ucast i) key c' = Inr (Some l, c2) \<and> bt_target_of l c2 = di_addr d)"
    by metis
  define c' where "c' = (if bt_target_of l c1 = di_addr d then c1 else bt_write l (di_addr d) c1)"
  have look1: "bt_lookup d (bt_tag_offset b) True True s = Inr ((bank, Some l), s\<lparr>bt_data := (bt_data s)[bank := c1]\<rparr>)"
    using bt_lookup_fill [OF gs k l] .
  define b1 where "b1 = s\<lparr>bt_data := (bt_data s)[bank := c']\<rparr>"
  have "\<exists>p. bt_predict d True (bt_fetchBoundaryBegin e b) = Inr (p, b1)"
    using bt_predict_first [OF d s_def, of True True bank l] look1 nt bank
    by (auto simp: bt_judge_def b1_def c'_def bt_set_target_def Let_def split: if_splits)
  then obtain p where p: "bt_predict d True (bt_fetchBoundaryBegin e b) = Inr (p, b1)" ..
  let ?b = "bt_fetchBoundaryEnd b1"
  define s2 where "s2 = (bt_fetchBoundaryBegin e' ?b)\<lparr>bt_tag_counter := 1, bt_taken_counter := 1\<rparr>"
  have d2: "bt_uses_arrays d' ?b"
    using d same bank by (auto simp: bt_uses_arrays_def bt_fetchBoundaryEnd_def b1_def s_def bt_fetchBoundaryBegin_def)
  have s2': "bt_dolc s2 = None" "bt_tag_offset ?b = bt_tag_offset b" "bt_data s2 = (bt_data s)[bank := c']"
    "bt_boundaryPC s2 = di_pc e'" "bt_boundaryID s2 = di_ID e'" "bt_fetch_predict s2 = bt_fetch_predict s"
    "bt_tag_mask s2 = bt_tag_mask s" "bt_tag_counter s2 = bt_tag_counter s" "bt_boundaryPC s = di_pc e"
    "bt_boundaryID s = di_ID e" "bt_log2_nsub s2 = bt_log2_nsub s" "bt_nsub_mask s2 = bt_nsub_mask s"
    using gs by (simp_all add: s2_def bt_fetchBoundaryEnd_def b1_def s_def bt_fetchBoundaryBegin_def bt_good_def)
  have "bt_keys d' (bt_tag_offset b) s2 = bt_keys d (bt_tag_offset b) s"
    by (rule bt_keys_cong) (use s2' same in simp_all)
  moreover have "bt_split_tag_bank s2 (ucast t) = bt_split_tag_bank s (ucast t)"
    by (rule bt_split_cong) (use s2' in simp_all)
  ultimately have s2: "bt_dolc s2 = None" "bt_tag_offset ?b = bt_tag_offset b" "bt_data s2 = (bt_data s)[bank := c']"
    "bt_keys d' (bt_tag_offset b) s2 = (i, t)" "bt_split_tag_bank s2 (ucast t) = (key, bank)"
    using s2'(1-3) k by simp_all
  have lt: "bank < length (bt_data s2)" and at: "bt_data s2 ! bank = c'" using bank s2(3) by simp_all
  have "c' = c1 \<and> di_addr d = bt_target_of l c1 \<or> c' = bt_write l (di_addr d) c1" by (simp add: c'_def)
  from again [OF this] obtain c2 c3 where
    c2: "any_fillLine StateGeneric (ucast i) key 0xdeaddead c' = Inr (l, c2)" "bt_target_of l c2 = di_addr d" and
    c3: "any_findLineNoEffect (ucast i) key c' = Inr (Some l, c3)" "bt_target_of l c3 = di_addr d" by blast
  have "\<exists>c4. bt_lookup d' (bt_tag_offset ?b) u u s2 = Inr ((bank, Some l), s2\<lparr>bt_data := (bt_data s2)[bank := c4]\<rparr>) \<and>
      bt_target_of l c4 = di_addr d" for u
    using bt_lookup_fill' [OF s2(1,4,5) lt] bt_lookup_find [OF s2(1,4,5) lt] c2 c3 s2(2) at by (cases u) auto
  then obtain c4 where c4: "bt_lookup d' (bt_tag_offset ?b) (upd \<and> \<not> di_isTransient d') (upd \<and> \<not> di_isTransient d') s2 =
      Inr ((bank, Some l), s2\<lparr>bt_data := (bt_data s2)[bank := c4]\<rparr>)" "bt_target_of l c4 = di_addr d" by blast
  have "\<exists>b2. bt_predict d' upd (bt_fetchBoundaryBegin e' ?b) = Inr (Outcome_Correct, b2)"
    using bt_predict_first [OF d2 s2_def refl c4(1)] c4(2) lt same(2)
    by (simp add: bt_judge_def Let_def)
  with p show ?thesis by blast
qed

section \<open>What the constructor makes\<close>

lemma bt_banks_ok:
  assumes "\<forall>p. any_create e (bc_size g div 2 ^ bc_log2_nsub g) (bc_assoc g) (bc_line_size g) (bc_addrUnit g)
      (bc_repl_policy g) (bc_skew g) (bc_xor g) 13 = Inr (False, Some c)" and "bt_bank_ok c"
  shows "bt_banks e g n = Inr (False, replicate n c)"
  using assms by (induction n) simp_all

text \<open>A buffer of \<open>2 ^ n\<close> banks of \<open>2 ^ x\<close> entries each, without path history.\<close>

lemma bt_create_good:
  assumes "x \<le> 30" and "n < 32" and "1 \<le> bc_assoc g" and "bc_assoc g \<le> 2 ^ x"
    and "bc_size g = 2 ^ x * 2 ^ n" and "bc_log2_nsub g = n" and "bc_history_size g = 0"
    and "bc_line_size g = 1" and "bc_addrUnit g = 1" and "\<not> bc_skew g"
    and "bc_repl_policy g \<in> {''lru'', ''par'', ''uar''}" and "unat (32 - bc_tag_size g) < 32"
  obtains b err where "bt_create e g old = Inr (err, b)" and "bt_good b" and "bt_icache b = bc_split_il1 g"
    and "bt_data b \<noteq> []" and "err = (bc_tag_offset g \<and> bc_tag_hybrid g)"
proof -
  obtain c where c: "any_create e (2 ^ x) (bc_assoc g) 1 1 (bc_repl_policy g) False (bc_xor g) 13 = Inr (False, Some c)"
    "assoc_good c \<or> direct_good c" "cg_log2AddrLs (any_geom c) = 0"
    by (rule any_create_unit_lines [OF assms(1,3,4,11)])
  have s: "bc_size g div 2 ^ n = 2 ^ x" by (simp add: assms(5))
  have ok: "bt_bank_ok c" using c(2,3) by (simp add: bt_bank_ok_def)
  have "bt_banks e g (2 ^ n) = Inr (False, replicate (2 ^ n) c)"
    by (rule bt_banks_ok [OF _ ok]) (use c(1) s assms in simp)
  moreover have "bc_size g \<noteq> 0" by (simp add: assms(5))
  ultimately show thesis
    using that assms s ok by (simp add: bt_create_def Let_def bt_good_def)
qed

definition btb_config_small :: btb_config where
  "btb_config_small = \<lparr>bc_fetch_predict = True, bc_tag_offset = False, bc_tag_hybrid = True, bc_tag_size = 12,
     bc_log2_nsub = 1, bc_history_size = 0, bc_split_il1 = False, bc_size = 16, bc_assoc = 2,
     bc_line_size = 1, bc_xor = False, bc_skew = False, bc_addrUnit = 1, bc_repl_policy = ''lru''\<rparr>"

definition btb_env :: "unit btb_line_ext cache_env" where
  "btb_env = \<lparr>ce_policy = LRU, ce_random = 0, ce_table = (\<lambda>_. 0), ce_line = cache_line.extend line_blank \<lparr>bt_targetPC = 0\<rparr>\<rparr>"

definition di_jump_at :: "addr \<Rightarrow> u64 \<Rightarrow> addr \<Rightarrow> dinst" where
  "di_jump_at pc i a = di_blank\<lparr>di_pc := pc, di_ID := i, di_addr := a,
     di_inst := \<lparr>in_opcode = iBALU_RJUMP, in_src1 = 0, in_src2 = 0, in_dst1 = 0, in_dst2 = 0\<rparr>,
     di_flags := undefined\<lparr>fl_transient := False, fl_keep_stats := True\<rparr>\<rparr>"

lemma btb_learns_target_witness:
  "\<exists>b p b1 b2. bt_create btb_env btb_config_small undefined = Inr (False, b) \<and>
    bt_predict (di_jump_at 100 7 200) True (bt_fetchBoundaryBegin (di_jump_at 96 6 0) b) = Inr (p, b1) \<and>
    bt_predict (di_jump_at 100 27 200) False (bt_fetchBoundaryBegin (di_jump_at 96 26 0) (bt_fetchBoundaryEnd b1)) =
      Inr (Outcome_Correct, b2)"
proof -
  obtain b err where b: "bt_create btb_env btb_config_small undefined = Inr (err, b)" "bt_good b"
    "bt_icache b = bc_split_il1 btb_config_small" "bt_data b \<noteq> []"
    "err = (bc_tag_offset btb_config_small \<and> bc_tag_hybrid btb_config_small)"
    by (rule bt_create_good [of 3 1 btb_config_small btb_env undefined]) (simp_all add: btb_config_small_def)
  have "bt_uses_arrays (di_jump_at 100 7 200) b"
    using b(4) by (simp add: bt_uses_arrays_def di_jump_at_def isControl_total isJump_def isFuncRet_def
        doesCtrl2Label_def isFuncCall_def isBranch_def doesJump2Label_def)
  from btb_learns_target [OF b(2) this, of "di_jump_at 100 27 200" "di_jump_at 96 26 0" "di_jump_at 96 6 0" False]
  show ?thesis using b(1,5) by (simp add: di_jump_at_def di_isTransient_def btb_config_small_def)
qed

section \<open>Where the buffer falls short\<close>

text \<open>
  An update fills the line before it looks at it, and a fill keeps the target that the line had for
  another branch. In a direct-mapped bank the tag therefore plays no part in an update: the
  outcome is decided by the target left at the index, whoever left it.
\<close>

theorem btb_direct_update_ignores_tag:
  assumes "bt_uses_arrays d b" and "\<not> di_isTransient d" and "bt_dolc b = None" and "bt_log2_nsub b = 0"
    and "bt_data b = [Any_dm c]" and "direct_good (Any_dm c)" and "cg_log2AddrLs (ca_geom c) = 0"
    and "l = ca_content c ! set_index (ca_geom c) (ucast (fst (bt_keys d (bt_tag_offset b)
      ((bt_fetchBoundaryBegin e b)\<lparr>bt_tag_counter := 1, bt_taken_counter := 1\<rparr>))))"
  shows "\<exists>b'. bt_predict d True (bt_fetchBoundaryBegin e b) =
    Inr (if bt_targetPC (ca_mem c l) = di_addr d then Outcome_Correct
         else if bt_targetPC (ca_mem c l) \<noteq> 0 then Outcome_Miss else Outcome_NoBTB, b')"
proof -
  define s where "s = (bt_fetchBoundaryBegin e b)\<lparr>bt_tag_counter := 1, bt_taken_counter := 1\<rparr>"
  obtain i t key bank where k: "bt_keys d (bt_tag_offset b) s = (i, t)"
    "bt_split_tag_bank s (ucast t) = (key, bank)" by (metis surj_pair)
  have s: "bt_dolc s = None" "bt_data s = [Any_dm c]" "bt_log2_nsub s = 0"
    using assms by (simp_all add: s_def bt_fetchBoundaryBegin_def)
  have bank: "bank = 0" "key \<noteq> 0" using k(2) s(3) by (auto simp: bt_split_tag_bank_def Let_def split: if_splits)
  have l: "l = ca_content c ! set_index (ca_geom c) (ucast i)" "set_index (ca_geom c) (ucast i) < length (ca_content c)"
    using assms(6,8) k(1) by (simp_all add: s_def)
  have "\<exists>c1. any_fillLine StateGeneric (ucast i) key 0xdeaddead (Any_dm c) = Inr (l, c1) \<and>
      bt_target_of l c1 = bt_targetPC (ca_mem c l)"
    using l bank(2) assms(7)
    by (simp add: any_op_def ca_fillLine_eq [where victim = dm_findLine2Replace] dm_findLine2Replace_def calcTag_def
        li_set_prefetch_def)
  then obtain c1 where c1: "any_fillLine StateGeneric (ucast i) key 0xdeaddead (Any_dm c) = Inr (l, c1)"
    "bt_target_of l c1 = bt_targetPC (ca_mem c l)" by blast
  have "bt_lookup d (bt_tag_offset b) True True s = Inr ((bank, Some l), s\<lparr>bt_data := (bt_data s)[bank := c1]\<rparr>)"
    by (rule bt_lookup_fill' [OF s(1) k]) (use s(2) bank c1(1) in simp_all)
  from bt_predict_first [OF assms(1) s_def, of True True, OF _ this] c1(2) s(2) bank(1) assms(2)
  show ?thesis by (auto simp: bt_judge_def Let_def)
qed

text \<open>
  The constructor cannot make a skewed buffer: the size of the SHIP table that it does not pass defaults to 13,
  with which the factory returns null.
\<close>

theorem btb_cannot_be_skewed:
  assumes "bc_skew g" and "bc_size g \<noteq> 0"
  shows "\<nexists>r. bt_create e g old = Inr r"
proof -
  have "\<exists>er. bt_banks e g (Suc m) = Inl er" for m
  proof (cases "any_create e (bc_size g div 2 ^ bc_log2_nsub g) (bc_assoc g) (bc_line_size g) (bc_addrUnit g)
        (bc_repl_policy g) (bc_skew g) (bc_xor g) 13")
    case (Inr r)
    then obtain err c where r: "r = (err, c)" by (cases r)
    have "c = None" using any_create_skew [of e] Inr assms(1) by (cases c) (auto simp: r dest!: any_create_skew)
    with Inr r show ?thesis by simp
  qed simp
  moreover have "\<exists>m. 2 ^ bc_log2_nsub g = Suc m" by (rule not0_implies_Suc) simp
  ultimately have "\<exists>er. bt_banks e g (2 ^ bc_log2_nsub g) = Inl er" by metis
  then show ?thesis
    using assms(2) by (auto simp: bt_create_def Let_def bind_res_Inr_iff split: if_splits)
qed

lemma btb_cannot_be_skewed_witness:
  "\<nexists>r. bt_create btb_env (btb_config_small\<lparr>bc_skew := True, bc_assoc := 1\<rparr>) undefined = Inr r"
  by (rule btb_cannot_be_skewed) (simp_all add: btb_config_small_def)

end
