(* ===== verification/Branch_Base.thy ===== *)
theory Branch_Base
  imports Branch_Btb
begin

text \<open>
  The base class of the branch predictors (\<open>simu/bpred.hpp\<close>, class \<open>BPred\<close>). A derived class is an
  extension of the record; \<open>bp_with_btb\<close> is the common layout of the classes that hold a branch target
  buffer, with the steps they share. The facts: what these steps keep, what they do when the
  buffer is perfect (it has no arrays), and what a wrong direction teaches the buffer.
\<close>

section \<open>The base class\<close>

record bpred =
  bp_taken_counter :: int
  bp_addrShift :: nat

definition bp_fetchBoundaryBegin :: "'a bpred_scheme \<Rightarrow> 'a bpred_scheme" where
  "bp_fetchBoundaryBegin p = p\<lparr>bp_taken_counter := 0\<rparr>"

definition bp_fetchBoundaryEnd :: "'a bpred_scheme \<Rightarrow> 'a bpred_scheme" where
  "bp_fetchBoundaryEnd p = p\<lparr>bp_taken_counter := - 1\<rparr>"

text \<open>
  \<open>pc >> 1\<close> is not negative as a \<open>HistoryType\<close>, so the arithmetic shifts that follow are logical.
\<close>

definition bp_calcHist :: "nat \<Rightarrow> addr \<Rightarrow> u64 res" where
  "bp_calcHist addrShift pc =
    (if 63 < addrShift then Inl Bad_shift
     else let cid = drop_bit addrShift (drop_bit 1 pc)
          in Inr (drop_bit 17 cid XOR cid))"

text \<open>
  \<open>predict\<close> is the virtual function. The base class calls it, and counts the taken instructions of the
  fetch block. It returns the instruction too, because some predictors mark it. The statistics are left out.
\<close>

type_synonym 'p bp_step = "dinst \<Rightarrow> bool \<Rightarrow> 'p \<Rightarrow> ((outcome \<times> dinst) \<times> 'p) res"

definition bp_doPredict :: "'a bpred_scheme bp_step \<Rightarrow> dinst \<Rightarrow> 'a bpred_scheme \<Rightarrow>
    ((outcome \<times> dinst) \<times> 'a bpred_scheme) res" where
  "bp_doPredict predict d p =
    assert_res (0 \<le> bp_taken_counter p)
     (bind_res (predict d True p) (\<lambda>((o', d), p).
        bind_res (di_isTaken d) (\<lambda>taken.
          Inr ((o', d), if taken then p\<lparr>bp_taken_counter := bp_taken_counter p + 1\<rparr> else p))))"

text \<open>The step of a predictor seen as one of several kinds.\<close>

definition with_bp :: "('c \<Rightarrow> 'd) \<Rightarrow> (outcome \<times> dinst) \<times> 'c \<Rightarrow> ((outcome \<times> dinst) \<times> 'd) res" where
  "with_bp C r = Inr (fst r, C (snd r))"

text \<open>A predictor that does not mark the instruction, as a step.\<close>

definition bp_pure :: "(dinst \<Rightarrow> bool \<Rightarrow> 'p \<Rightarrow> (outcome \<times> 'p) res) \<Rightarrow> 'p bp_step" where
  "bp_pure predict d upd p = bind_res (predict d upd p) (\<lambda>(o', p). Inr ((o', d), p))"

section \<open>Predictors with a branch target buffer\<close>

record bp_with_btb = bpred +
  bw_btb :: btb

definition bw_fetchBoundaryBegin :: "dinst \<Rightarrow> 'a bp_with_btb_scheme \<Rightarrow> 'a bp_with_btb_scheme" where
  "bw_fetchBoundaryBegin d p = (bp_fetchBoundaryBegin p)\<lparr>bw_btb := bt_fetchBoundaryBegin d (bw_btb p)\<rparr>"

definition bw_fetchBoundaryEnd :: "'a bp_with_btb_scheme \<Rightarrow> 'a bp_with_btb_scheme" where
  "bw_fetchBoundaryEnd p = bp_fetchBoundaryEnd (p\<lparr>bw_btb := bt_fetchBoundaryEnd (bw_btb p)\<rparr>)"

definition bw_btb_predict :: "dinst \<Rightarrow> bool \<Rightarrow> 'a bp_with_btb_scheme \<Rightarrow> (outcome \<times> 'a bp_with_btb_scheme) res" where
  "bw_btb_predict d upd p = bind_res (bt_predict d upd (bw_btb p)) (\<lambda>(o', b). Inr (o', p\<lparr>bw_btb := b\<rparr>))"

definition bw_btb_updateOnly :: "dinst \<Rightarrow> 'a bp_with_btb_scheme \<Rightarrow> 'a bp_with_btb_scheme res" where
  "bw_btb_updateOnly d p = bind_res (bt_updateOnly d (bw_btb p)) (\<lambda>b. Inr (p\<lparr>bw_btb := b\<rparr>))"

text \<open>The last lines of most predictors: judge the direction, then ask for the target.\<close>

definition bw_finish :: "dinst \<Rightarrow> bool \<Rightarrow> bool \<Rightarrow> bool \<Rightarrow> 'a bp_with_btb_scheme \<Rightarrow>
    (outcome \<times> 'a bp_with_btb_scheme) res" where
  "bw_finish d upd taken ptaken p =
    (if taken \<noteq> ptaken
     then bind_res (if upd then bw_btb_updateOnly d p else Inr p) (\<lambda>p. Inr (Outcome_Miss, p))
     else if ptaken then bw_btb_predict d upd p
     else Inr (Outcome_Correct, p))"

section \<open>What the shared steps keep\<close>

text \<open>Everything but the buffer.\<close>

definition bw_same :: "'a bp_with_btb_scheme \<Rightarrow> 'a bp_with_btb_scheme \<Rightarrow> bool" where
  "bw_same p p' \<longleftrightarrow> (\<exists>b. p' = p\<lparr>bw_btb := b\<rparr>)"

lemma bw_same_refl [simp]: "bw_same p p"
  unfolding bw_same_def by (rule exI [of _ "bw_btb p"]) simp

lemma bw_same_update [simp]: "bw_same p (p\<lparr>bw_btb := b\<rparr>)"
  by (auto simp: bw_same_def)

lemma bw_same_selD:
  "bw_same p p' \<Longrightarrow> bp_taken_counter p' = bp_taken_counter p"
  "bw_same p p' \<Longrightarrow> bp_addrShift p' = bp_addrShift p"
  by (auto simp: bw_same_def)

lemma bw_btb_predict_same: "bw_btb_predict d upd p = Inr (o', p') \<Longrightarrow> bw_same p p'"
  by (auto simp: bw_btb_predict_def bind_res_Inr_iff)

lemma bw_btb_updateOnly_same: "bw_btb_updateOnly d p = Inr p' \<Longrightarrow> bw_same p p'"
  by (auto simp: bw_btb_updateOnly_def bind_res_Inr_iff)

lemma bw_finish_same: "bw_finish d upd taken ptaken p = Inr (o', p') \<Longrightarrow> bw_same p p'"
  by (auto simp: bw_finish_def bind_res_Inr_iff bw_btb_predict_same bw_btb_updateOnly_same split: if_splits)

text \<open>A direction that is wrong is a miss, a not-taken direction that is right is correct.\<close>

lemma bw_finish_not_taken:
  "bw_finish d upd False False p = Inr (Outcome_Correct, p)"
  by (simp add: bw_finish_def)

lemma bw_finish_wrong:
  "taken \<noteq> ptaken \<Longrightarrow> bw_finish d upd taken ptaken p = Inr (o', p') \<Longrightarrow> o' = Outcome_Miss"
  by (auto simp: bw_finish_def bind_res_Inr_iff split: if_splits)

section \<open>A perfect buffer\<close>

text \<open>
  A buffer without arrays (\<open>btb_size\<close> 0) knows every target; only its tag counter moves.
\<close>

lemma bt_predict_oracle:
  "bt_data b = [] \<Longrightarrow> bt_predict d upd b = Inr (Outcome_Correct, b\<lparr>bt_tag_counter := bt_tag_counter b + 1\<rparr>)"
  by (simp add: bt_predict_def Let_def)

lemma bt_updateOnly_oracle:
  "bt_data b = [] \<Longrightarrow> bt_updateOnly d b = Inr (b\<lparr>bt_tag_counter := bt_tag_counter b + 1\<rparr>)"
  by (simp add: bt_updateOnly_def Let_def)

definition bw_oracle :: "'a bp_with_btb_scheme \<Rightarrow> bool" where
  "bw_oracle p \<longleftrightarrow> bt_data (bw_btb p) = []"

lemma bw_finish_oracle:
  assumes "bw_oracle p"
  obtains p' where "bw_finish d upd taken ptaken p = Inr (if taken = ptaken then Outcome_Correct else Outcome_Miss, p')"
    and "bw_same p p'" and "bw_oracle p'"
proof -
  have "\<exists>p'. bw_finish d upd taken ptaken p = Inr (if taken = ptaken then Outcome_Correct else Outcome_Miss, p') \<and>
      bw_same p p' \<and> bw_oracle p'"
    using assms by (simp add: bw_finish_def bw_oracle_def bw_btb_predict_def bw_btb_updateOnly_def
        bt_predict_oracle bt_updateOnly_oracle)
  with that show thesis by blast
qed

lemma bw_btb_predict_oracle:
  assumes "bw_oracle p"
  obtains p' where "bw_btb_predict d upd p = Inr (Outcome_Correct, p')" and "bw_same p p'" and "bw_oracle p'"
proof -
  have "\<exists>p'. bw_btb_predict d upd p = Inr (Outcome_Correct, p') \<and> bw_same p p' \<and> bw_oracle p'"
    using assms by (simp add: bw_oracle_def bw_btb_predict_def bt_predict_oracle)
  with that show thesis by blast
qed

lemma bw_boundary_oracle [simp]:
  "bw_oracle (bw_fetchBoundaryBegin d p) = bw_oracle p"
  "bw_oracle (bw_fetchBoundaryEnd p) = bw_oracle p"
  by (simp_all add: bw_oracle_def bw_fetchBoundaryBegin_def bw_fetchBoundaryEnd_def bp_fetchBoundaryBegin_def
      bp_fetchBoundaryEnd_def bt_fetchBoundaryBegin_def bt_fetchBoundaryEnd_def)

lemma bp_calcHist_total: "s \<le> 63 \<Longrightarrow> \<exists>h. bp_calcHist s pc = Inr h"
  by (simp add: bp_calcHist_def Let_def)

section \<open>The interface of the predictors\<close>

text \<open>A fetch block: the predictions of its control instructions, one after another.\<close>

fun bp_block :: "'a bpred_scheme bp_step \<Rightarrow> dinst list \<Rightarrow> 'a bpred_scheme \<Rightarrow> (outcome list \<times> 'a bpred_scheme) res" where
  "bp_block predict [] p = Inr ([], p)"
| "bp_block predict (d # ds) p =
    bind_res (bp_doPredict predict d p) (\<lambda>((o', d), p).
      bind_res (bp_block predict ds p) (\<lambda>(os, p). Inr (o' # os, p)))"

text \<open>
  What the base class relies on: a prediction keeps the tables well formed, does not touch the counter of the base class,
  which the begin of a block clears, and at most marks the instruction.
\<close>

locale block_predictor =
  fixes step :: "'a bpred_scheme bp_step"
    and start :: "dinst \<Rightarrow> 'a bpred_scheme \<Rightarrow> 'a bpred_scheme res"
    and stop :: "'a bpred_scheme \<Rightarrow> 'a bpred_scheme res"
    and wf :: "'a bpred_scheme \<Rightarrow> bool"
  assumes step_keeps: "wf p \<Longrightarrow> step d upd p = Inr ((o', d'), p') \<Longrightarrow>
      wf p' \<and> bp_taken_counter p' = bp_taken_counter p \<and> di_addr d' = di_addr d \<and> di_inst d' = di_inst d"
    and start_keeps: "wf p \<Longrightarrow> start d p = Inr p' \<Longrightarrow> wf p' \<and> bp_taken_counter p' = 0"
    and stop_keeps: "wf p \<Longrightarrow> stop p = Inr p' \<Longrightarrow> wf p'"
    and wf_counter: "wf (p\<lparr>bp_taken_counter := n\<rparr>) = wf p"
begin

lemma doPredict_keeps:
  assumes "wf p" and "bp_doPredict step d p = Inr ((o', d'), p')"
  shows "wf p' \<and> di_addr d' = di_addr d \<and> di_inst d' = di_inst d \<and>
    bp_taken_counter p' = bp_taken_counter p + (if di_addr d \<noteq> 0 then 1 else 0)"
proof -
  obtain q where q: "step d True p = Inr ((o', d'), q)"
    "p' = (if di_addr d' \<noteq> 0 then q\<lparr>bp_taken_counter := bp_taken_counter q + 1\<rparr> else q)"
    using assms(2) by (auto simp: bp_doPredict_def di_isTaken_def res_Inr_iffs)
  with step_keeps [OF assms(1) q(1)] show ?thesis by (simp add: wf_counter)
qed

lemma with_keeps:
  assumes "wf p" and "bind_res (bp_doPredict step d p) (with_bp C) = Inr ((o', d'), q)"
  shows "\<exists>p'. q = C p' \<and> wf p' \<and> di_addr d' = di_addr d \<and> di_inst d' = di_inst d \<and>
    bp_taken_counter p' = bp_taken_counter p + (if di_addr d \<noteq> 0 then 1 else 0)"
proof -
  from assms(2) obtain p' where p': "bp_doPredict step d p = Inr ((o', d'), p')" "q = C p'"
    by (auto simp: bind_res_Inr_iff with_bp_def)
  from doPredict_keeps [OF assms(1) p'(1)] p'(2) show ?thesis by blast
qed

lemma block_keeps:
  assumes "wf p" and "bp_block step ds p = Inr (os, p')"
  shows "wf p' \<and> length os = length ds \<and>
    bp_taken_counter p' = bp_taken_counter p + int (length (filter (\<lambda>d. di_addr d \<noteq> 0) ds))"
  using assms
proof (induction ds arbitrary: p os)
  case (Cons d ds)
  obtain o' d' q os' where q: "bp_doPredict step d p = Inr ((o', d'), q)"
    "bp_block step ds q = Inr (os', p')" "os = o' # os'"
    using Cons.prems(2) by (auto simp: bind_res_Inr_iff)
  show ?case using doPredict_keeps [OF Cons.prems(1) q(1)] Cons.IH [of q os'] q(2,3) by auto
qed simp

text \<open>In a block that was begun the counter is the number of taken instructions so far; it is never negative.\<close>

lemma begun_block:
  assumes "wf p" and "start e p = Inr q" and "bp_block step ds q = Inr (os, p')"
  shows "wf p' \<and> bp_taken_counter p' = int (length (filter (\<lambda>d. di_addr d \<noteq> 0) ds))"
  using block_keeps [OF conjunct1 [OF start_keeps [OF assms(1,2)]] assms(3)] start_keeps [OF assms(1,2)] by auto

end

text \<open>A prediction outside of a block is refused.\<close>

lemma bp_doPredict_outside_block: "bp_taken_counter p < 0 \<Longrightarrow> bp_doPredict predict d p = Inl Assert_failed"
  by (simp add: bp_doPredict_def)

text \<open>The same for the predictors that do not mark the instruction, and whose boundaries cannot fail.\<close>

locale direction_predictor =
  fixes predict :: "dinst \<Rightarrow> bool \<Rightarrow> 'a bpred_scheme \<Rightarrow> (outcome \<times> 'a bpred_scheme) res"
    and start :: "dinst \<Rightarrow> 'a bpred_scheme \<Rightarrow> 'a bpred_scheme"
    and stop :: "'a bpred_scheme \<Rightarrow> 'a bpred_scheme"
    and wf :: "'a bpred_scheme \<Rightarrow> bool"
  assumes predict_keeps: "wf p \<Longrightarrow> predict d upd p = Inr (o', p') \<Longrightarrow> wf p' \<and> bp_taken_counter p' = bp_taken_counter p"
    and begin_keeps: "wf p \<Longrightarrow> wf (start d p) \<and> bp_taken_counter (start d p) = 0"
    and end_keeps: "wf p \<Longrightarrow> wf (stop p)"
    and wf_any_counter: "wf (p\<lparr>bp_taken_counter := n\<rparr>) = wf p"

sublocale direction_predictor < block_predictor "bp_pure predict" "\<lambda>d p. Inr (start d p)" "\<lambda>p. Inr (stop p)" wf
  by unfold_locales (auto simp: bp_pure_def bind_res_Inr_iff begin_keeps end_keeps wf_any_counter dest: predict_keeps)

end
