(* ===== verification/Branch_Ras.thy ===== *)
theory Branch_Ras
  imports Branch_Base
begin

text \<open>
  The return address stack of \<open>simu/BPred.cpp\<close> (class \<open>BPRas\<close>): a ring of the addresses of calls.
  Prefetches of the instruction cache are a list of addresses. The facts: returns from well nested calls, no deeper
  than the ring is long, are all predicted correctly, whatever else is executed; without
  entries the prefetch does not end.
\<close>

section \<open>State and operations\<close>

record bp_ras = bpred +
  ras_size :: nat
  ras_prefetch :: nat
  ras_stack :: "addr list"
  ras_index :: int

text \<open>\<open>junk\<close> is the index of a stack without entries, which the constructor does not set.\<close>

definition ras_create :: "nat \<Rightarrow> bool \<Rightarrow> nat \<Rightarrow> int \<Rightarrow> bp_ras" where
  "ras_create n pf shift junk = \<lparr>bp_taken_counter = - 1, bp_addrShift = shift, ras_size = n, ras_prefetch = (if pf then 1 else 0), ras_stack = replicate n 0,
     ras_index = (if n = 0 then junk else 0)\<rparr>"

definition ras_entry :: "bp_ras \<Rightarrow> int \<Rightarrow> (addr \<Rightarrow> 'a res) \<Rightarrow> 'a res" where
  "ras_entry r i f = (if i < 0 then Inl Out_of_bounds else nth_res (ras_stack r) (nat i) f)"

text \<open>The loop \<open>while (i < 0) i = RasSize - 1\<close> ends only if the stack has an entry.\<close>

definition ras_wrap_down :: "bp_ras \<Rightarrow> int \<Rightarrow> int res" where
  "ras_wrap_down r i =
    (if 0 \<le> i then Inr i else if ras_size r = 0 then Inl Diverged else Inr (int (ras_size r) - 1))"

definition ras_tryPrefetch :: "bp_ras \<Rightarrow> addr list res" where
  "ras_tryPrefetch r =
    for_res [0..<ras_prefetch r] (\<lambda>j as.
      bind_res (ras_wrap_down r (ras_index r - int j - 1)) (\<lambda>i. ras_entry r i (\<lambda>a. Inr (as @ [a])))) []"

definition ras_pop :: "bp_ras \<Rightarrow> bp_ras" where
  "ras_pop r = (let i = ras_index r - 1 in r\<lparr>ras_index := (if i < 0 then int (ras_size r) - 1 else i)\<rparr>)"

definition ras_push :: "addr \<Rightarrow> bp_ras \<Rightarrow> bp_ras res" where
  "ras_push pc r =
    (if ras_index r < 0 then Inl Out_of_bounds
     else bind_res (update_res (ras_stack r) (nat (ras_index r)) pc) (\<lambda>st.
            let i = ras_index r + 1
            in Inr (r\<lparr>ras_stack := st, ras_index := (if int (ras_size r) \<le> i then 0 else i)\<rparr>)))"

definition ras_predict :: "dinst \<Rightarrow> bool \<Rightarrow> bp_ras \<Rightarrow> (outcome \<times> bp_ras) res" where
  "ras_predict d doUpdate r =
    (if isFuncRet (di_inst d)
     then if ras_size r = 0 then Inr (Outcome_Correct, r)
          else let r = (if doUpdate then ras_pop r else r)
               in ras_entry r (ras_index r) (\<lambda>top.
                    Inr (if top = di_addr d \<or> top + 4 = di_addr d \<or> top + 2 = di_addr d
                         then Outcome_Correct else Outcome_Miss, r))
     else if isFuncCall (di_inst d) \<and> ras_size r \<noteq> 0
     then bind_res (if doUpdate then ras_push (di_pc d) r else Inr r) (\<lambda>r. Inr (Outcome_None, r))
     else Inr (Outcome_None, r))"

fun ras_run :: "dinst list \<Rightarrow> bp_ras \<Rightarrow> (outcome list \<times> bp_ras) res" where
  "ras_run [] r = Inr ([], r)"
| "ras_run (d # ds) r =
    bind_res (ras_predict d True r) (\<lambda>(p, r). bind_res (ras_run ds r) (\<lambda>(ps, r). Inr (p # ps, r)))"

section \<open>Well nested calls\<close>

text \<open>
  Executions in which every call returns behind itself (the call takes 2 or 4 bytes), with at most
  \<open>n\<close> calls open; instructions that are neither calls nor returns are anywhere.
\<close>

inductive nested :: "nat \<Rightarrow> dinst list \<Rightarrow> bool" where
  nested_Nil: "nested n []"
| nested_other: "nested n ds \<Longrightarrow> \<not> isFuncCall (di_inst d) \<Longrightarrow> \<not> isFuncRet (di_inst d) \<Longrightarrow> nested n (d # ds)"
| nested_call: "nested n ds \<Longrightarrow> nested (Suc n) es \<Longrightarrow> isFuncCall (di_inst c) \<Longrightarrow> isFuncRet (di_inst r) \<Longrightarrow>
    di_addr r \<in> {di_pc c, di_pc c + 2, di_pc c + 4} \<Longrightarrow> nested (Suc n) (c # ds @ r # es)"

definition ras_wf :: "bp_ras \<Rightarrow> bool" where
  "ras_wf r \<longleftrightarrow> 0 < ras_size r \<and> length (ras_stack r) = ras_size r \<and> 0 \<le> ras_index r \<and> ras_index r < int (ras_size r)"

text \<open>
  \<open>r'\<close> is \<open>r\<close> but for the \<open>n\<close> entries above the top.
\<close>

definition ras_same_below :: "nat \<Rightarrow> bp_ras \<Rightarrow> bp_ras \<Rightarrow> bool" where
  "ras_same_below n r r' \<longleftrightarrow> ras_size r' = ras_size r \<and> ras_index r' = ras_index r \<and>
     length (ras_stack r') = length (ras_stack r) \<and>
     (\<forall>i < ras_size r. (\<forall>k < n. i \<noteq> (nat (ras_index r) + k) mod ras_size r) \<longrightarrow> ras_stack r' ! i = ras_stack r ! i)"

lemma ras_same_below_refl: "ras_same_below n r r"
  by (simp add: ras_same_below_def)

lemma ras_same_below_trans:
  "ras_same_below n r s \<Longrightarrow> ras_same_below n s t \<Longrightarrow> ras_same_below n r t"
  by (simp add: ras_same_below_def)

lemma ras_same_below_wf: "ras_same_below n r s \<Longrightarrow> ras_wf r \<Longrightarrow> ras_wf s"
  by (simp add: ras_same_below_def ras_wf_def)

lemma ras_run_append:
  "ras_run (ds @ es) r = bind_res (ras_run ds r) (\<lambda>(ps, r). bind_res (ras_run es r) (\<lambda>(qs, r). Inr (ps @ qs, r)))"
  by (induction ds arbitrary: r) (auto simp: bind_res_def split: sum.splits)

lemma isFuncCall_not_ret: "isFuncCall i \<Longrightarrow> \<not> isFuncRet i"
  by (auto simp: isFuncCall_def isFuncRet_def)

text \<open>A call writes one entry; the calls below it do not reach around to that entry.\<close>

lemma ras_predict_call:
  assumes "ras_wf r" and "isFuncCall (di_inst c)"
  obtains s where "ras_predict c True r = Inr (Outcome_None, s)" and "ras_wf s" and "ras_size s = ras_size r"
    and "ras_stack s = (ras_stack r)[nat (ras_index r) := di_pc c]"
    and "ras_index s = (ras_index r + 1) mod int (ras_size r)"
proof -
  have wrap: "(if int (ras_size r) \<le> ras_index r + 1 then 0 else ras_index r + 1) = (ras_index r + 1) mod int (ras_size r)"
    using assms(1) by (cases "ras_index r + 1 = int (ras_size r)") (auto simp: ras_wf_def)
  from assms(1) have "nat (ras_index r) < length (ras_stack r)" by (auto simp: ras_wf_def)
  with assms isFuncCall_not_ret [OF assms(2)] that wrap show thesis
    by (auto simp: ras_predict_def ras_push_def ras_wf_def update_res_def Let_def)
qed

lemma ras_pop_after_push:
  assumes "ras_wf r" and "ras_wf s" and "ras_size s = ras_size r" and "ras_index s = (ras_index r + 1) mod int (ras_size r)"
  shows "ras_index (ras_pop s) = ras_index r"
  using assms by (cases "ras_index r + 1 = int (ras_size r)") (auto simp: ras_pop_def ras_wf_def Let_def)

lemma ras_predict_ret:
  assumes "ras_wf s" and "isFuncRet (di_inst d)" and "i = ras_index (ras_pop s)" and "0 \<le> i" and "i < int (ras_size s)"
    and "ras_stack s ! nat i = pc" and "di_addr d \<in> {pc, pc + 2, pc + 4}"
  shows "ras_predict d True s = Inr (Outcome_Correct, ras_pop s)"
  using assms by (auto simp: ras_predict_def ras_entry_def ras_wf_def ras_pop_def Let_def)

lemma nested_run:
  assumes "nested n ds" and "n \<le> ras_size r" and "ras_wf r"
  shows "\<exists>ps r'. ras_run ds r = Inr (ps, r') \<and> length ps = length ds \<and> ras_same_below n r r' \<and>
    (\<forall>k < length ds. isFuncRet (di_inst (ds ! k)) \<longrightarrow> ps ! k = Outcome_Correct)"
  using assms
proof (induction arbitrary: r)
  case (nested_Nil n)
  then show ?case by (simp add: ras_same_below_refl)
next
  case (nested_other n ds d)
  then have p: "ras_predict d True r = Inr (Outcome_None, r)" by (simp add: ras_predict_def)
  from nested_other.IH [OF nested_other.prems] obtain ps r' where "ras_run ds r = Inr (ps, r')" "length ps = length ds"
    "ras_same_below n r r'" "\<forall>k < length ds. isFuncRet (di_inst (ds ! k)) \<longrightarrow> ps ! k = Outcome_Correct" by blast
  with p nested_other.hyps show ?case by (auto simp: nth_Cons split: nat.splits)
next
  case (nested_call n ds es c d)
  obtain s where s: "ras_predict c True r = Inr (Outcome_None, s)" "ras_wf s" "ras_size s = ras_size r"
    "ras_stack s = (ras_stack r)[nat (ras_index r) := di_pc c]" "ras_index s = (ras_index r + 1) mod int (ras_size r)"
    using ras_predict_call [OF nested_call.prems(2) nested_call.hyps(3)] by blast
  have sz: "n \<le> ras_size s" "Suc n \<le> ras_size r" using nested_call.prems(1) s(3) by simp_all
  from nested_call.IH(1) [OF sz(1) s(2)] obtain ps t where t: "ras_run ds s = Inr (ps, t)" "length ps = length ds"
    "ras_same_below n s t" "\<forall>k < length ds. isFuncRet (di_inst (ds ! k)) \<longrightarrow> ps ! k = Outcome_Correct" by blast
  have twf: "ras_wf t" using t(3) s(2) by (rule ras_same_below_wf)
  let ?i = "nat (ras_index r)" and ?N = "ras_size r"
  have wf: "?i < ?N" "ras_index r = int ?i" "length (ras_stack r) = ?N" "0 \<le> ras_index r" using nested_call.prems(2) by (auto simp: ras_wf_def)
  have "(ras_index r + 1) mod int ?N = int ((?i + 1) mod ?N)" using wf(2) by (simp add: zmod_int add.commute)
  then have si: "nat (ras_index s) = (?i + 1) mod ?N" by (simp only: s(5) nat_int)
  have away: "?i \<noteq> (nat (ras_index s) + k) mod ?N" if "k < n" for k
  proof
    assume "?i = (nat (ras_index s) + k) mod ?N"
    then have "?i = (?i + Suc k) mod ?N" unfolding si by (simp add: mod_add_left_eq)
    moreover have "Suc k < ?N" using that sz(2) by simp
    ultimately show False using wf(1)
      by (cases "?i + Suc k < ?N") (auto simp: mod_if le_mod_geq split: if_splits)
  qed
  have top: "ras_stack t ! ?i = di_pc c"
    using t(3) away wf s(3,4) by (auto simp: ras_same_below_def)
  have ti: "ras_index t = ras_index s" "ras_size t = ?N" "length (ras_stack t) = ?N" using t(3) s(2,3) by (auto simp: ras_same_below_def ras_wf_def)
  have pi: "ras_index (ras_pop t) = ras_index r"
    by (rule ras_pop_after_push [OF nested_call.prems(2) twf ti(2)]) (simp add: ti(1) s(5))
  have ret: "ras_predict d True t = Inr (Outcome_Correct, ras_pop t)"
    by (rule ras_predict_ret [OF twf nested_call.hyps(4) refl]) (use pi wf ti top nested_call.hyps(5) in auto)
  have below: "ras_same_below (Suc n) r (ras_pop t)"
    unfolding ras_same_below_def
  proof (intro conjI allI impI)
    fix i assume i: "i < ?N" "\<forall>k < Suc n. i \<noteq> (?i + k) mod ?N"
    have "i \<noteq> ?i" using i(2) wf(1) by (metis add.right_neutral mod_less zero_less_Suc)
    moreover have "i \<noteq> (nat (ras_index s) + k) mod ?N" if "k < n" for k
      using i(2) that unfolding si by (simp add: mod_add_left_eq) (metis Suc_less_eq add_Suc_right)
    ultimately show "ras_stack (ras_pop t) ! i = ras_stack r ! i"
      using t(3) s(3,4) i(1) by (simp add: ras_same_below_def ras_pop_def Let_def)
  qed (use ti pi wf in \<open>simp_all add: ras_pop_def Let_def\<close>)
  have pwf: "ras_wf (ras_pop t)" using below nested_call.prems(2) by (rule ras_same_below_wf)
  have "Suc n \<le> ras_size (ras_pop t)" using below sz(2) by (simp add: ras_same_below_def)
  from nested_call.IH(2) [OF this pwf] obtain qs u where u: "ras_run es (ras_pop t) = Inr (qs, u)"
    "length qs = length es" "ras_same_below (Suc n) (ras_pop t) u"
    "\<forall>k < length es. isFuncRet (di_inst (es ! k)) \<longrightarrow> qs ! k = Outcome_Correct" by blast
  have "ras_run (c # ds @ d # es) r = Inr (Outcome_None # ps @ Outcome_Correct # qs, u)"
    by (simp add: s(1) ras_run_append t(1) ret u(1))
  moreover have "ras_same_below (Suc n) r u" using below u(3) by (rule ras_same_below_trans)
  moreover have "(Outcome_None # ps @ Outcome_Correct # qs) ! k = Outcome_Correct"
    if "k < length (c # ds @ d # es)" "isFuncRet (di_inst ((c # ds @ d # es) ! k))" for k
    using that t(2,4) u(2,4) isFuncCall_not_ret [OF nested_call.hyps(3)]
    by (auto simp: nth_Cons nth_append split: nat.splits if_splits)
  ultimately show ?case using t(2) u(2) by (intro exI conjI) auto
qed

text \<open>
  C18. In every execution whose calls are well nested and at most as deep as the stack, every return is
  predicted correctly.
\<close>

theorem ras_predicts_nested_returns:
  assumes "nested n ds" and "n \<le> size_of" and "0 < size_of"
  shows "\<exists>ps r. ras_run ds (ras_create size_of pf shift junk) = Inr (ps, r) \<and> length ps = length ds \<and>
    (\<forall>k < length ds. isFuncRet (di_inst (ds ! k)) \<longrightarrow> ps ! k = Outcome_Correct)"
proof -
  have "ras_wf (ras_create size_of pf shift junk)" "n \<le> ras_size (ras_create size_of pf shift junk)"
    using assms(2,3) by (simp_all add: ras_wf_def ras_create_def)
  with nested_run [OF assms(1)] show ?thesis by blast
qed

definition di_op_at :: "opcode \<Rightarrow> addr \<Rightarrow> addr \<Rightarrow> dinst" where
  "di_op_at opc pc a = (di_jump_at pc 0 a)\<lparr>di_inst := \<lparr>in_opcode = opc, in_src1 = 0, in_src2 = 0, in_dst1 = 0, in_dst2 = 0\<rparr>\<rparr>"

lemma ras_predicts_nested_returns_witness:
  "\<exists>ps r. ras_run [di_op_at iBALU_LCALL 100 500, di_op_at iBALU_RCALL 510 900, di_op_at iBALU_RET 920 514, di_op_at iBALU_RET 520 102]
      (ras_create 2 True 0 0) = Inr (ps, r) \<and> ps ! 3 = Outcome_Correct"
proof -
  have "nested (Suc (Suc 0)) (di_op_at iBALU_LCALL 100 500 # [di_op_at iBALU_RCALL 510 900, di_op_at iBALU_RET 920 514] @ di_op_at iBALU_RET 520 102 # [])"
    by (intro nested.nested_call nested_Nil nested.nested_call [where ds = "[]" and es = "[]", simplified])
      (simp_all add: di_op_at_def di_jump_at_def isFuncCall_def isFuncRet_def)
  from ras_predicts_nested_returns [OF this, of 2 True 0 0] show ?thesis
    by (auto simp: di_op_at_def isFuncRet_def)
qed

text \<open>
  With no entries and prefetching switched on, a negative index makes the loop that wraps it
  around run for ever.
\<close>

theorem ras_prefetch_diverges:
  assumes "junk < 1"
  shows "ras_tryPrefetch (ras_create 0 True shift junk) = Inl Diverged"
  using assms by (simp add: ras_tryPrefetch_def ras_create_def ras_wrap_down_def)

lemma ras_prefetch_diverges_witness: "ras_tryPrefetch (ras_create 0 True 0 0) = Inl Diverged"
  by (rule ras_prefetch_diverges) simp

end
