(* ===== verification/Sctable_Learning.thy ===== *)
theory Sctable_Learning
  imports Sctable
begin

text \<open>
  A mistake bound for the counter table of \<open>core/sctable.cpp\<close>, shared by the predictors that are built on it:
  when every entry is always trained in one direction, an entry is wrong at most as often as its counter can move,
  however the uses of the entries are mixed.
\<close>

text \<open>The number of wrong predictions of a sequence of predictions with update.\<close>

fun sc_mistakes :: "sctable \<Rightarrow> (u32 \<times> bool) list \<Rightarrow> nat" where
  "sc_mistakes t [] = 0"
| "sc_mistakes t ((i, b) # xs) =
    (case sc_predict_update t i b of (p, t) \<Rightarrow> (if p = b then 0 else 1) + sc_mistakes t xs)"

text \<open>How far an entry is from the end towards which \<open>g\<close> trains it.\<close>

definition sc_doubt :: "(nat \<Rightarrow> bool) \<Rightarrow> sctable \<Rightarrow> nat \<Rightarrow> nat" where
  "sc_doubt g t j =
    (if g j then unat (sc_MaxValue t) - unat (sc_table t ! j) else unat (sc_table t ! j))"

lemma sc_doubt_le: "sctable_wf t \<Longrightarrow> j < length (sc_table t) \<Longrightarrow> sc_doubt g t j \<le> unat (sc_MaxValue t)"
  by (auto simp: sc_doubt_def sctable_wf_def word_le_nat_alt)

lemma sc_table_update_other: "j \<noteq> sc_pos t i \<Longrightarrow> sc_table (sc_update t i b) ! j = sc_table t ! j"
  by (simp add: sc_update_def Let_def sc_put_def)

lemma sc_doubt_update_other: "j \<noteq> sc_pos t i \<Longrightarrow> sc_doubt g (sc_update t i b) j = sc_doubt g t j"
  by (simp add: sc_doubt_def sc_table_update_other)

text \<open>A training step never raises the doubt of its entry, and a mistake lowers it.\<close>

lemma sc_doubt_update:
  assumes "sctable_wf t" and "b = g (sc_pos t i)"
  shows "(if sc_predict t i = b then 0 else 1) + sc_doubt g (sc_update t i b) (sc_pos t i) \<le> sc_doubt g t (sc_pos t i)"
proof -
  have sat: "unat (sc_Saturate t) \<le> unat (sc_MaxValue t)" "0 < unat (sc_Saturate t)"
    using assms(1) by (auto simp: sctable_wf_def sc_shape_def word_le_nat_alt unat_gt_0)
  have new: "unat (sc_table (sc_update t i b) ! sc_pos t i) =
      (if b then min (unat (sc_MaxValue t)) (unat (sc_getValue t i) + 1) else unat (sc_getValue t i) - 1)"
    using sc_getValue_update [OF assms(1), of i b] by (simp add: sc_getValue_def)
  have pred: "sc_predict t i \<longleftrightarrow> unat (sc_Saturate t) \<le> unat (sc_getValue t i)"
    by (simp add: sc_predict_def word_le_nat_alt)
  show ?thesis
    using sat pred new by (cases b) (auto simp: sc_doubt_def assms(2) [symmetric] sc_getValue_def [symmetric])
qed

lemma sc_mistakes_doubt:
  assumes "sctable_wf t" and "finite S" and "\<forall>(i, b) \<in> set xs. sc_pos t i \<in> S \<and> b = g (sc_pos t i)"
  shows "sc_mistakes t xs \<le> (\<Sum>j\<in>S. sc_doubt g t j)"
  using assms(1,3)
proof (induction xs arbitrary: t)
  case (Cons x xs)
  obtain i b where x: "x = (i, b)" by (cases x)
  let ?t = "sc_update t i b"
  have i: "sc_pos t i \<in> S" "b = g (sc_pos t i)" using Cons.prems(2) by (auto simp: x)
  have IH: "sc_mistakes ?t xs \<le> (\<Sum>j\<in>S. sc_doubt g ?t j)"
    using Cons.prems by (intro Cons.IH) (auto simp: sctable_wf_update)
  have "(\<Sum>j\<in>S. sc_doubt g ?t j) = sc_doubt g ?t (sc_pos t i) + (\<Sum>j\<in>S - {sc_pos t i}. sc_doubt g t j)"
    by (simp add: sum.remove [OF assms(2) i(1)] sc_doubt_update_other)
  moreover have "(\<Sum>j\<in>S. sc_doubt g t j) = sc_doubt g t (sc_pos t i) + (\<Sum>j\<in>S - {sc_pos t i}. sc_doubt g t j)"
    by (rule sum.remove [OF assms(2) i(1)])
  ultimately show ?case
    using IH sc_doubt_update [of t b g i, OF Cons.prems(1) i(2)] by (simp add: x sc_predict_update_eq)
qed simp

text \<open>
  The bound: the entries that are used, times the largest value of a counter.
\<close>

lemma sc_mistakes_bound:
  assumes "sctable_wf t" and "\<forall>(i, b) \<in> set xs. b = g (sc_pos t i)"
  shows "sc_mistakes t xs \<le> card (sc_pos t ` fst ` set xs) * unat (sc_MaxValue t)"
proof -
  let ?S = "sc_pos t ` fst ` set xs"
  have "sc_mistakes t xs \<le> (\<Sum>j\<in>?S. sc_doubt g t j)"
    by (rule sc_mistakes_doubt) (use assms in force)+
  also have "\<dots> \<le> (\<Sum>j\<in>?S. unat (sc_MaxValue t))"
    using assms(1) by (intro sum_mono sc_doubt_le) (auto simp: sctable_wf_def intro!: sc_pos_in_range)
  finally show ?thesis by simp
qed

end
