(* ===== verification/Branch_Simple.thy ===== *)
theory Branch_Simple
  imports Branch_Base Sctable_Learning Snippets
begin

text \<open>
  The simple predictors of \<open>simu/BPred.cpp\<close>: the static ones (\<open>BPOracle\<close>, \<open>BPTaken\<close>, \<open>BPNotTaken\<close>,
  \<open>BPNotTakenEnhanced\<close>, \<open>BPMiss\<close>), the bimodal tables \<open>BP2bit\<close> and \<open>BP2bitL0\<close>, \<open>BPTData\<close>, and the load branch
  predictor \<open>BPLdbp\<close> with its correlator. The facts: the oracle with a perfect target buffer is always right; the
  bimodal table learns a biased branch; the first-level variant never answers for a branch that it
  predicts as not taken; the counters of the correlator stay in their range.
\<close>

section \<open>Static predictors\<close>

definition oracle_predict :: "dinst \<Rightarrow> bool \<Rightarrow> 'a bp_with_btb_scheme \<Rightarrow> (outcome \<times> 'a bp_with_btb_scheme) res" where
  "oracle_predict d upd p =
    bind_res (di_isTaken d) (\<lambda>taken.
      if \<not> taken then Inr (Outcome_Correct, p) else bw_btb_predict d upd p)"

definition taken_predict :: "dinst \<Rightarrow> bool \<Rightarrow> 'a bp_with_btb_scheme \<Rightarrow> (outcome \<times> 'a bp_with_btb_scheme) res" where
  "taken_predict d upd p =
    bind_res (if \<not> isBranch (di_inst d) then Inr True else di_isTaken d) (\<lambda>go.
      if go then bw_btb_predict d upd p
      else bind_res (bw_btb_predict d False p) (\<lambda>(o', p).
             Inr (if o' = Outcome_Correct then Outcome_Correct else Outcome_Miss, p)))"

definition not_taken_predict :: "dinst \<Rightarrow> bool \<Rightarrow> 'a bp_with_btb_scheme \<Rightarrow> (outcome \<times> 'a bp_with_btb_scheme) res" where
  "not_taken_predict d upd p =
    (if \<not> isBranch (di_inst d) then bw_btb_predict d upd p
     else bind_res (di_isTaken d) (\<lambda>taken. Inr (if taken then Outcome_Miss else Outcome_Correct, p)))"

definition miss_predict :: "dinst \<Rightarrow> bool \<Rightarrow> 'a bpred_scheme \<Rightarrow> (outcome \<times> 'a bpred_scheme) res" where
  "miss_predict d upd p = Inr (Outcome_Miss, p)"

definition not_taken_enhanced_predict ::
  "dinst \<Rightarrow> bool \<Rightarrow> 'a bp_with_btb_scheme \<Rightarrow> (outcome \<times> 'a bp_with_btb_scheme) res" where
  "not_taken_enhanced_predict d upd p =
    (if \<not> isBranch (di_inst d) then bw_btb_predict d upd p
     else bind_res (di_isTaken d) (\<lambda>taken.
       if taken
       then if di_addr d < di_pc d then bw_btb_predict d upd p else Inr (Outcome_Miss, p)
       else Inr (Outcome_Correct, p)))"

section \<open>Bimodal tables\<close>

record bp_2bit = bp_with_btb +
  p2_table :: sctable
  p2_pc :: addr

definition p2_create :: "nat \<Rightarrow> btb \<Rightarrow> u64 \<Rightarrow> u8 \<Rightarrow> bp_2bit res" where
  "p2_create shift b sz bits =
    bind_res (sc_create sz bits) (\<lambda>t.
      Inr \<lparr>bp_taken_counter = - 1, bp_addrShift = shift, bw_btb = b, p2_table = t, p2_pc = 0\<rparr>)"

definition p2_fetchBoundaryBegin :: "dinst \<Rightarrow> 'a bp_2bit_scheme \<Rightarrow> 'a bp_2bit_scheme" where
  "p2_fetchBoundaryBegin d p = (bw_fetchBoundaryBegin d p)\<lparr>p2_pc := di_pc d\<rparr>"

definition p2_fetchBoundaryEnd :: "'a bp_2bit_scheme \<Rightarrow> 'a bp_2bit_scheme" where
  "p2_fetchBoundaryEnd p = (bw_fetchBoundaryEnd p)\<lparr>p2_pc := 0\<rparr>"

text \<open>The table is indexed by the first instruction of the fetch block, when there is one.\<close>

definition p2_index :: "dinst \<Rightarrow> 'a bp_2bit_scheme \<Rightarrow> u32 res" where
  "p2_index d p =
    bind_res (bp_calcHist (bp_addrShift p) (if p2_pc p = 0 then di_pc d else p2_pc p)) (\<lambda>h. Inr (ucast h))"

definition p2_predict :: "dinst \<Rightarrow> bool \<Rightarrow> 'a bp_2bit_scheme \<Rightarrow> (outcome \<times> 'a bp_2bit_scheme) res" where
  "p2_predict d upd p =
    bind_res (di_isTaken d) (\<lambda>taken.
      bind_res (p2_index d p) (\<lambda>i.
        let (ptaken, t) = (if upd then sc_predict_update (p2_table p) i taken
                           else (sc_predict (p2_table p) i, p2_table p))
        in bw_finish d upd taken ptaken (p\<lparr>p2_table := t\<rparr>)))"

record bp_2bitL0 = bp_2bit +
  p0_one_prediction_done :: bool

definition p0_create :: "nat \<Rightarrow> btb \<Rightarrow> u64 \<Rightarrow> u8 \<Rightarrow> bp_2bitL0 res" where
  "p0_create shift b sz bits =
    bind_res (sc_create sz bits) (\<lambda>t.
      Inr \<lparr>bp_taken_counter = - 1, bp_addrShift = shift, bw_btb = b, p2_table = t, p2_pc = 0,
           p0_one_prediction_done = False\<rparr>)"

definition p0_fetchBoundaryBegin :: "dinst \<Rightarrow> 'a bp_2bitL0_scheme \<Rightarrow> 'a bp_2bitL0_scheme" where
  "p0_fetchBoundaryBegin d p = (bw_fetchBoundaryBegin d p)\<lparr>p2_pc := di_pc d, p0_one_prediction_done := False\<rparr>"

definition p0_fetchBoundaryEnd :: "'a bp_2bitL0_scheme \<Rightarrow> 'a bp_2bitL0_scheme" where
  "p0_fetchBoundaryEnd p = (bw_fetchBoundaryEnd p)\<lparr>p2_pc := 0\<rparr>"

definition p0_predict :: "dinst \<Rightarrow> bool \<Rightarrow> 'a bp_2bitL0_scheme \<Rightarrow> (outcome \<times> 'a bp_2bitL0_scheme) res" where
  "p0_predict d upd p =
    (if p0_one_prediction_done p then Inr (Outcome_None, p)
     else bind_res (di_isTaken d) (\<lambda>taken.
       bind_res (p2_index d p) (\<lambda>i.
         let ptaken = sc_isHighest (p2_table p) i;
             p = (if upd then p\<lparr>p2_table := sc_update (p2_table p) i taken\<rparr> else p)
         in bind_res (if ptaken then bw_btb_predict d (if upd then taken else False) p
                      else Inr (Outcome_NoBTB, p)) (\<lambda>(bo, p).
              if bo = Outcome_NoBTB then Inr (Outcome_NoBTB, p)
              else let p = (if ptaken then p\<lparr>p0_one_prediction_done := True\<rparr> else p)
                   in Inr (if ptaken \<noteq> taken then Outcome_Miss
                           else if ptaken then bo else Outcome_Correct, p)))))"

section \<open>Data-indexed table\<close>

text \<open>Without trace data, as the program is built, the load address and the data signature are constants.\<close>

definition di_getLDPC :: "dinst \<Rightarrow> addr" where "di_getLDPC d = 0"

definition di_getDataSign :: "dinst \<Rightarrow> u64" where "di_getDataSign d = 0"

record bp_tdata = bp_with_btb +
  td_table :: sctable

definition td_create :: "nat \<Rightarrow> btb \<Rightarrow> u64 \<Rightarrow> u8 \<Rightarrow> bp_tdata res" where
  "td_create shift b sz bits =
    bind_res (sc_create sz bits) (\<lambda>t.
      Inr \<lparr>bp_taken_counter = - 1, bp_addrShift = shift, bw_btb = b, td_table = t\<rparr>)"

definition td_predict :: "dinst \<Rightarrow> bool \<Rightarrow> 'a bp_tdata_scheme \<Rightarrow> (outcome \<times> 'a bp_tdata_scheme) res" where
  "td_predict d upd p =
    (if \<not> isBranch (di_inst d) then bw_btb_predict d upd p
     else bind_res (di_isTaken d) (\<lambda>taken.
       let i = ucast (di_getLDPC d XOR push_bit 7 (di_pc d) XOR push_bit 10 (di_getDataSign d));
           (ptaken, t) = (if upd then sc_predict_update (td_table p) i taken
                          else (sc_predict (td_table p) i, td_table p));
           p = p\<lparr>td_table := t\<rparr>
       in if \<not> sc_isLowest t i \<and> \<not> sc_isHighest t i then Inr (Outcome_None, p)
          else bw_finish d upd taken ptaken p))"

section \<open>Load branch predictor\<close>

datatype br_op = BEQ | BNE | BLT | BGE | BLTU | BGEU | ILLEGAL_BR

fun outcome_calculator :: "br_op \<Rightarrow> u64 \<Rightarrow> u64 \<Rightarrow> bool" where
  "outcome_calculator BEQ x y \<longleftrightarrow> (ucast x :: u32) = ucast y"
| "outcome_calculator BNE x y \<longleftrightarrow> (ucast x :: u32) \<noteq> ucast y"
| "outcome_calculator BLT x y \<longleftrightarrow> sint (ucast x :: u32) < sint (ucast y :: u32)"
| "outcome_calculator BLTU x y \<longleftrightarrow> x < y"
| "outcome_calculator BGE x y \<longleftrightarrow> sint (ucast y :: u32) \<le> sint (ucast x :: u32)"
| "outcome_calculator BGEU x y \<longleftrightarrow> y \<le> x"
| "outcome_calculator ILLEGAL_BR x y \<longleftrightarrow> False"

record doc_entry =
  doc_tag :: addr
  doc_taken :: int
  doc_ntaken :: int

definition doc_compute :: "doc_entry \<Rightarrow> int" where
  "doc_compute c =
    (let t = doc_taken c; n = doc_ntaken c;
         med = (if t = 2 * n + 1 \<or> n = 2 * t + 1 then 1 else 0);
         low = (if t < 2 * n + 1 \<and> n < 2 * t + 1 then 1 else 0);
         m = 2 * low + med :: int
     in if m < 1 then (if t > n then 1 else 2) else 0)"

definition update_doc :: "addr \<Rightarrow> bool \<Rightarrow> bool \<Rightarrow> doc_entry \<Rightarrow> int \<times> doc_entry" where
  "update_doc a doc_miss outcome c =
    (let (conf, c) = (if \<not> doc_miss then (doc_compute (c\<lparr>doc_tag := a\<rparr>), c\<lparr>doc_tag := a\<rparr>)
                      else (0, c\<lparr>doc_taken := 0, doc_ntaken := 0\<rparr>))
     in (conf,
         if outcome
         then (if doc_taken c < 7 then c\<lparr>doc_taken := doc_taken c + 1\<rparr>
               else if doc_ntaken c > 0 then c\<lparr>doc_ntaken := doc_ntaken c - 1\<rparr> else c)
         else (if doc_ntaken c < 7 then c\<lparr>doc_ntaken := doc_ntaken c + 1\<rparr>
               else if doc_taken c > 0 then c\<lparr>doc_taken := doc_taken c - 1\<rparr> else c)))"

definition doc_access :: "addr \<Rightarrow> bool \<Rightarrow> doc_entry \<Rightarrow> int \<times> doc_entry" where
  "doc_access t outcome c =
    (if doc_tag c = t then update_doc t False outcome c else update_doc t True outcome (c\<lparr>doc_tag := t\<rparr>))"

record bp_ldbp = bp_with_btb +
  ld_DOC_SIZE :: int
  ld_doc_table :: "doc_entry list"

definition ld_create :: "nat \<Rightarrow> btb \<Rightarrow> int \<Rightarrow> bp_ldbp" where
  "ld_create shift b n = \<lparr>bp_taken_counter = - 1, bp_addrShift = shift, bw_btb = b, ld_DOC_SIZE = n,
     ld_doc_table = replicate (nat n) \<lparr>doc_tag = 0, doc_taken = 0, doc_ntaken = 0\<rparr>\<rparr>"

definition ld_predict :: "dinst \<Rightarrow> bool \<Rightarrow> 'a bp_ldbp_scheme \<Rightarrow> (outcome \<times> 'a bp_ldbp_scheme) res" where
  "ld_predict d upd p =
    (if in_opcode (di_inst d) \<noteq> iBALU_LBRANCH then Inr (Outcome_None, p)
     else bind_res (di_isTaken d) (\<lambda>taken.
       if \<not> fl_use_level3 (di_flags d) then Inr (Outcome_None, p)
       else let ptaken = taken in bw_finish d upd taken ptaken p))"

definition ld_outcome_doc :: "addr \<Rightarrow> bool \<Rightarrow> 'a bp_ldbp_scheme \<Rightarrow> (int \<times> 'a bp_ldbp_scheme) res" where
  "ld_outcome_doc a outcome p =
    bind_res (log2i (word_of_int (ld_DOC_SIZE p))) (\<lambda>r.
      case r of
        None \<Rightarrow> Inl Diverged
      | Some s \<Rightarrow>
          let m = word_of_int (ld_DOC_SIZE p - 1);
              t = drop_bit s a AND m;
              i = unat (a AND m)
          in nth_res (ld_doc_table p) i (\<lambda>c.
               case doc_access t outcome c of (conf, c) \<Rightarrow>
                 Inr (conf, p\<lparr>ld_doc_table := (ld_doc_table p)[i := c]\<rparr>)))"

section \<open>The bimodal table learns biased branches\<close>

text \<open>A fetch block that starts at \<open>e\<close> and whose only control instruction is \<open>d\<close>.\<close>

definition p2_visit :: "dinst \<Rightarrow> dinst \<Rightarrow> bp_2bit \<Rightarrow> (outcome \<times> bp_2bit) res" where
  "p2_visit e d p =
    bind_res (bp_doPredict (bp_pure p2_predict) d (p2_fetchBoundaryBegin e p)) (\<lambda>((o', d), p).
      Inr (o', p2_fetchBoundaryEnd p))"

fun p2_run :: "(dinst \<times> dinst) list \<Rightarrow> bp_2bit \<Rightarrow> (outcome list \<times> bp_2bit) res" where
  "p2_run [] p = Inr ([], p)"
| "p2_run ((e, d) # vs) p =
    bind_res (p2_visit e d p) (\<lambda>(o', p). bind_res (p2_run vs p) (\<lambda>(os, p). Inr (o' # os, p)))"

definition p2_entry :: "nat \<Rightarrow> dinst \<Rightarrow> dinst \<Rightarrow> u32" where
  "p2_entry shift e d =
    (case bp_calcHist shift (if di_pc e = 0 then di_pc d else di_pc e) of Inl _ \<Rightarrow> 0 | Inr h \<Rightarrow> ucast h)"

definition p2_good :: "bp_2bit \<Rightarrow> bool" where
  "p2_good p \<longleftrightarrow> sctable_wf (p2_table p) \<and> bp_addrShift p \<le> 63 \<and> bw_oracle p"

lemma p2_visit_step:
  assumes "p2_good p" and "isControl (di_inst d) = Inr True"
  shows "\<exists>p'. p2_visit e d p =
      Inr (if sc_predict (p2_table p) (p2_entry (bp_addrShift p) e d) = (di_addr d \<noteq> 0)
           then Outcome_Correct else Outcome_Miss, p') \<and>
    p2_good p' \<and> bp_addrShift p' = bp_addrShift p \<and>
    p2_table p' = sc_update (p2_table p) (p2_entry (bp_addrShift p) e d) (di_addr d \<noteq> 0)"
proof -
  define s where "s = p2_fetchBoundaryBegin e p"
  define i where "i = p2_entry (bp_addrShift p) e d"
  define t where "t = (di_addr d \<noteq> 0)"
  have s: "p2_table s = p2_table p" "bp_taken_counter s = 0" "bp_addrShift s = bp_addrShift p" "bw_oracle s"
    using assms(1) by (simp_all add: s_def p2_fetchBoundaryBegin_def bw_fetchBoundaryBegin_def bp_fetchBoundaryBegin_def
        p2_good_def bw_oracle_def bt_fetchBoundaryBegin_def)
  have idx: "p2_index d s = Inr i"
    using assms(1) by (simp add: p2_index_def s_def p2_fetchBoundaryBegin_def bw_fetchBoundaryBegin_def
        bp_fetchBoundaryBegin_def i_def p2_entry_def p2_good_def bp_calcHist_def Let_def)
  let ?s = "s\<lparr>p2_table := sc_update (p2_table p) i t\<rparr>" and ?o = "if t = sc_predict (p2_table p) i then Outcome_Correct else Outcome_Miss"
  have "bw_oracle ?s" using s(4) by (simp add: bw_oracle_def)
  from bw_finish_oracle [OF this, of d True t "sc_predict (p2_table p) i"] obtain s' where
    s': "bw_finish d True t (sc_predict (p2_table p) i) ?s = Inr (?o, s')" "bw_same ?s s'" "bw_oracle s'" by blast
  have taken: "di_isTaken d = Inr t" using assms(2) by (simp add: di_isTaken_def t_def)
  have pred: "p2_predict d True s = Inr (?o, s')"
    using s'(1) by (simp add: p2_predict_def taken idx sc_predict_update_eq s)
  from s'(2) obtain b where b: "s' = ?s\<lparr>bw_btb := b\<rparr>" unfolding bw_same_def ..
  have bd: "bt_data b = []" using s'(3) b by (simp add: bw_oracle_def)
  have "p2_visit e d p = Inr (?o, p2_fetchBoundaryEnd (if t then s'\<lparr>bp_taken_counter := bp_taken_counter s' + 1\<rparr> else s'))"
    by (simp add: p2_visit_def bp_doPredict_def bp_pure_def pred taken s flip: s_def)
  then show ?thesis
    unfolding i_def [symmetric] t_def [symmetric]
    using assms(1) bd s by (auto simp: b p2_good_def p2_fetchBoundaryEnd_def bw_fetchBoundaryEnd_def
        bp_fetchBoundaryEnd_def bw_oracle_def bt_fetchBoundaryEnd_def sctable_wf_update)
qed

text \<open>With a perfect target buffer the misses of a run are the mistakes of its counter table.\<close>

lemma p2_run_mistakes:
  assumes "p2_good p" and "\<forall>(e, d) \<in> set vs. isControl (di_inst d) = Inr True"
  shows "\<exists>os p'. p2_run vs p = Inr (os, p') \<and> length os = length vs \<and> set os \<subseteq> {Outcome_Correct, Outcome_Miss} \<and>
    count_list os Outcome_Miss =
      sc_mistakes (p2_table p) (map (\<lambda>(e, d). (p2_entry (bp_addrShift p) e d, di_addr d \<noteq> 0)) vs)"
  using assms
proof (induction vs arbitrary: p)
  case (Cons v vs)
  obtain e d where v: "v = (e, d)" by (cases v)
  from Cons.prems have "isControl (di_inst d) = Inr True" by (simp add: v)
  from p2_visit_step [OF Cons.prems(1) this, of e] obtain p' where p': "p2_visit e d p =
      Inr (if sc_predict (p2_table p) (p2_entry (bp_addrShift p) e d) = (di_addr d \<noteq> 0)
           then Outcome_Correct else Outcome_Miss, p')" "p2_good p'" "bp_addrShift p' = bp_addrShift p"
    "p2_table p' = sc_update (p2_table p) (p2_entry (bp_addrShift p) e d) (di_addr d \<noteq> 0)" by blast
  from Cons.IH [OF p'(2)] Cons.prems(2) obtain os q where "p2_run vs p' = Inr (os, q)" "length os = length vs"
    "set os \<subseteq> {Outcome_Correct, Outcome_Miss}" "count_list os Outcome_Miss =
      sc_mistakes (p2_table p') (map (\<lambda>(e, d). (p2_entry (bp_addrShift p') e d, di_addr d \<noteq> 0)) vs)" by auto
  then show ?case by (auto simp: v p' sc_predict_update_eq)
qed simp

text \<open>
  C20. When the branches that share a counter all go the same way, the bimodal predictor with a perfect
  target buffer mispredicts, over a run of any length and in any order, at most as often as its counters can move:
  the number of counters in use times their largest value. All other outcomes are correct.
\<close>

theorem bimodal_mistake_bound:
  assumes "p2_good p" and "\<forall>(e, d) \<in> set vs. isControl (di_inst d) = Inr True"
    and "\<forall>(e, d) \<in> set vs. (di_addr d \<noteq> 0) = g (sc_pos (p2_table p) (p2_entry (bp_addrShift p) e d))"
  shows "\<exists>os p'. p2_run vs p = Inr (os, p') \<and> length os = length vs \<and> set os \<subseteq> {Outcome_Correct, Outcome_Miss} \<and>
    count_list os Outcome_Miss \<le>
      card ((\<lambda>(e, d). sc_pos (p2_table p) (p2_entry (bp_addrShift p) e d)) ` set vs) * unat (sc_MaxValue (p2_table p))"
proof -
  let ?xs = "map (\<lambda>(e, d). (p2_entry (bp_addrShift p) e d, di_addr d \<noteq> 0)) vs"
  have "sc_pos (p2_table p) ` fst ` set ?xs = (\<lambda>(e, d). sc_pos (p2_table p) (p2_entry (bp_addrShift p) e d)) ` set vs"
    by (auto simp: image_image split_def)
  moreover have "sc_mistakes (p2_table p) ?xs \<le> card (sc_pos (p2_table p) ` fst ` set ?xs) * unat (sc_MaxValue (p2_table p))"
    using assms(1,3) by (intro sc_mistakes_bound [where g = g]) (auto simp: p2_good_def)
  ultimately show ?thesis using p2_run_mistakes [OF assms(1,2)] by auto
qed

lemma bimodal_mistake_bound_witness:
  "\<exists>p vs os p'. p2_create 1 (undefined\<lparr>bt_data := []\<rparr>) 4 2 = Inr p \<and>
    vs = [(di_jump_at 96 6 0, di_jump_at 100 7 200), (di_jump_at 96 16 0, di_jump_at 100 17 200)] \<and>
    p2_run vs p = Inr (os, p') \<and> count_list os Outcome_Miss \<le>
      card ((\<lambda>(e, d). sc_pos (p2_table p) (p2_entry (bp_addrShift p) e d)) ` set vs) * unat (sc_MaxValue (p2_table p))"
proof -
  obtain t where t: "sc_create 4 2 = Inr t" by (simp add: sc_create_def Let_def)
  define p where "p = \<lparr>bp_taken_counter = - 1, bp_addrShift = 1, bw_btb = undefined\<lparr>bt_data := []\<rparr>, p2_table = t, p2_pc = 0\<rparr>"
  define vs where "vs = [(di_jump_at 96 6 0, di_jump_at 100 7 200), (di_jump_at 96 16 0, di_jump_at 100 17 200)]"
  have "sctable_wf t" by (rule sc_create_wf [OF t]) simp
  then have good: "p2_good p" by (simp add: p2_good_def bw_oracle_def p_def)
  have create: "p2_create 1 (undefined\<lparr>bt_data := []\<rparr>) 4 2 = Inr p" by (simp add: p2_create_def t p_def)
  have ctl: "isControl (di_inst (di_jump_at a n b)) = Inr True" for a n b
    by (simp add: di_jump_at_def isControl_total isJump_def isFuncRet_def doesCtrl2Label_def isFuncCall_def
        isBranch_def doesJump2Label_def)
  have ad: "di_addr (di_jump_at a n b) = b" for a n b by (simp add: di_jump_at_def)
  have "\<forall>(e, d) \<in> set vs. isControl (di_inst d) = Inr True" by (simp add: vs_def ctl)
  moreover have "\<forall>(e, d) \<in> set vs. (di_addr d \<noteq> 0) = (\<lambda>_. True) (sc_pos (p2_table p) (p2_entry (bp_addrShift p) e d))"
    by (simp add: vs_def ad)
  ultimately show ?thesis using bimodal_mistake_bound [OF good, of vs "\<lambda>_. True"] create vs_def by blast
qed

section \<open>The first-level variant and the correlator\<close>

text \<open>
  The first-level variant answers only for branches that it predicts as taken: for the others it has no target,
  whether they are taken or not, and after one answer in a fetch block it is silent.
\<close>

theorem L0_answers_only_for_taken:
  assumes "p0_predict d upd p = Inr (o', p')" and "p2_index d p = Inr i" and "\<not> sc_isHighest (p2_table p) i"
  shows "o' = (if p0_one_prediction_done p then Outcome_None else Outcome_NoBTB)"
  using assms by (auto simp: p0_predict_def bind_res_Inr_iff Let_def split: if_splits)

lemma L0_once_per_block: "p0_one_prediction_done p \<Longrightarrow> p0_predict d upd p = Inr (Outcome_None, p)"
  by (simp add: p0_predict_def)

definition doc_wf :: "doc_entry \<Rightarrow> bool" where
  "doc_wf c \<longleftrightarrow> 0 \<le> doc_taken c \<and> doc_taken c \<le> 7 \<and> 0 \<le> doc_ntaken c \<and> doc_ntaken c \<le> 7"

lemma update_doc_wf: "doc_wf c \<Longrightarrow> doc_wf (snd (update_doc a miss outcome c))"
  by (auto simp: doc_wf_def update_doc_def Let_def)

text \<open>The correlator is confident when one outcome is seen more than twice as often as the other, plus one.\<close>

lemma doc_compute_confident:
  assumes "doc_wf c"
  shows "doc_compute c = (if doc_taken c > 2 * doc_ntaken c + 1 then 1 else if doc_ntaken c > 2 * doc_taken c + 1 then 2 else 0)"
  using assms by (auto simp: doc_compute_def doc_wf_def Let_def)

lemma doc_wf_tag [simp]: "doc_wf (c\<lparr>doc_tag := t\<rparr>) = doc_wf c"
  by (simp add: doc_wf_def)

lemma doc_access_wf: "doc_wf c \<Longrightarrow> doc_wf (snd (doc_access t outcome c))"
  by (simp add: doc_access_def update_doc_wf)

lemma ld_outcome_doc_wf:
  assumes "ld_outcome_doc a outcome p = Inr (conf, p')" and "\<forall>c \<in> set (ld_doc_table p). doc_wf c"
  shows "\<forall>c \<in> set (ld_doc_table p'). doc_wf c"
proof -
  obtain s where s: "log2i (word_of_int (ld_DOC_SIZE p)) = Inr (Some s)"
    using assms(1) by (auto simp: ld_outcome_doc_def bind_res_Inr_iff split: option.splits)
  define t where "t = drop_bit s a AND word_of_int (ld_DOC_SIZE p - 1)"
  define i where "i = unat (a AND word_of_int (ld_DOC_SIZE p - 1))"
  have ld: "nth_res (ld_doc_table p) i (\<lambda>c. case doc_access t outcome c of (conf, c) \<Rightarrow>
      Inr (conf, p\<lparr>ld_doc_table := (ld_doc_table p)[i := c]\<rparr>)) = Inr (conf, p')"
    using assms(1) by (simp add: ld_outcome_doc_def s t_def i_def Let_def)
  then have i: "i < length (ld_doc_table p)" by (simp add: nth_res_Inr_iff)
  then have w: "doc_wf (snd (doc_access t outcome (ld_doc_table p ! i)))" using assms(2) by (simp add: doc_access_wf)
  have "ld_doc_table p' = (ld_doc_table p)[i := snd (doc_access t outcome (ld_doc_table p ! i))]"
    using ld i by (cases "doc_access t outcome (ld_doc_table p ! i)") auto
  then show ?thesis using assms(2) w by (auto dest!: set_update_subset_insert [THEN subsetD])
qed

text \<open>The load branch predictor is used only with the answer that it should find: it never mispredicts a direction.\<close>

lemma ld_predict_direction:
  assumes "bw_oracle p" and "ld_predict d upd p = Inr (o', p')"
  shows "o' \<in> {Outcome_None, Outcome_Correct}"
proof (cases "in_opcode (di_inst d) = iBALU_LBRANCH \<and> fl_use_level3 (di_flags d)")
  case True
  then obtain t where t: "bw_finish d upd t t p = Inr (o', p')"
    using assms(2) by (auto simp: ld_predict_def bind_res_Inr_iff)
  obtain p'' where "bw_finish d upd t t p = Inr (if t = t then Outcome_Correct else Outcome_Miss, p'')"
    using bw_finish_oracle [OF assms(1)] by blast
  with t show ?thesis by simp
next
  case False
  with assms(2) show ?thesis by (auto simp: ld_predict_def bind_res_Inr_iff split: if_splits)
qed

section \<open>The predictors meet the interface\<close>

lemmas bw_block_defs =
  bw_fetchBoundaryBegin_def bw_fetchBoundaryEnd_def bp_fetchBoundaryBegin_def bp_fetchBoundaryEnd_def

text \<open>After a step that changes only the buffer, what does not read the buffer is as before.\<close>

lemma bw_same_read:
  assumes "bw_same p p'" and "\<And>b. f (p\<lparr>bw_btb := b\<rparr>) = f p"
  shows "f p' = f p"
  using assms by (auto simp: bw_same_def)

lemma table_update_wf: "sctable_wf t \<Longrightarrow> sctable_wf (snd (if upd then sc_predict_update t i taken else (sc_predict t i, t)))"
  by (simp add: sc_predict_update_eq sctable_wf_update)

interpretation static_oracle: direction_predictor oracle_predict bw_fetchBoundaryBegin bw_fetchBoundaryEnd "\<lambda>_. True"
  by unfold_locales (auto simp: oracle_predict_def bind_res_Inr_iff bw_block_defs dest!: bw_btb_predict_same bw_same_selD(1)
      split: if_splits)

interpretation static_taken: direction_predictor taken_predict bw_fetchBoundaryBegin bw_fetchBoundaryEnd "\<lambda>_. True"
  by unfold_locales (auto simp: taken_predict_def bind_res_Inr_iff bw_block_defs dest!: bw_btb_predict_same bw_same_selD(1)
      split: if_splits)

interpretation static_not_taken: direction_predictor not_taken_predict bw_fetchBoundaryBegin bw_fetchBoundaryEnd "\<lambda>_. True"
  by unfold_locales (auto simp: not_taken_predict_def bind_res_Inr_iff bw_block_defs dest!: bw_btb_predict_same bw_same_selD(1)
      split: if_splits)

interpretation static_enhanced: direction_predictor not_taken_enhanced_predict bw_fetchBoundaryBegin bw_fetchBoundaryEnd "\<lambda>_. True"
  by unfold_locales (auto simp: not_taken_enhanced_predict_def bind_res_Inr_iff bw_block_defs
      dest!: bw_btb_predict_same bw_same_selD(1) split: if_splits)

lemma p2_predict_keeps:
  assumes "p2_predict d upd p = Inr (o', p')"
  shows "\<exists>i taken. bw_same (p\<lparr>p2_table := (if upd then sc_update (p2_table p) i taken else p2_table p)\<rparr>) p'"
  using assms by (auto simp: p2_predict_def bind_res_Inr_iff sc_predict_update_eq Let_def split: if_splits dest!: bw_finish_same)

interpretation bimodal: direction_predictor p2_predict p2_fetchBoundaryBegin p2_fetchBoundaryEnd "\<lambda>p. sctable_wf (p2_table p)"
proof
  fix p :: "'a bp_2bit_scheme" and p' d upd o'
  assume wf: "sctable_wf (p2_table p)" and r: "p2_predict d upd p = Inr (o', p')"
  from p2_predict_keeps [OF r] obtain i taken where
    s: "bw_same (p\<lparr>p2_table := (if upd then sc_update (p2_table p) i taken else p2_table p)\<rparr>) p'" by blast
  from s show "sctable_wf (p2_table p') \<and> bp_taken_counter p' = bp_taken_counter p"
    using wf by (auto simp: bw_same_def sctable_wf_update)
qed (simp_all add: p2_fetchBoundaryBegin_def p2_fetchBoundaryEnd_def bw_block_defs)

lemma p0_predict_keeps:
  assumes "p0_predict d upd p = Inr (o', p')" and "sctable_wf (p2_table p)"
  shows "sctable_wf (p2_table p') \<and> bp_taken_counter p' = bp_taken_counter p"
proof (cases "p0_one_prediction_done p")
  case False
  with assms(1) obtain taken i where ti: "di_isTaken d = Inr taken" "p2_index d p = Inr i"
    by (auto simp: p0_predict_def bind_res_Inr_iff)
  define s where "s = (if upd then p\<lparr>p2_table := sc_update (p2_table p) i taken\<rparr> else p)"
  have s: "sctable_wf (p2_table s) \<and> bp_taken_counter s = bp_taken_counter p"
    using assms(2) by (simp add: s_def sctable_wf_update)
  obtain r where r: "(if sc_isHighest (p2_table p) i then bw_btb_predict d (if upd then taken else False) s
      else Inr (Outcome_NoBTB, s)) = Inr r"
    using assms(1) False unfolding p0_predict_def ti bind_res_simps Let_def s_def [symmetric]
    by (auto simp: bind_res_Inr_iff)
  obtain bo q where q: "r = (bo, q)" by (cases r)
  have p': "p' = q \<or> p' = q\<lparr>p0_one_prediction_done := True\<rparr>"
    using assms(1) False unfolding p0_predict_def ti bind_res_simps Let_def s_def [symmetric] r q
    by (auto split: if_splits)
  have "bw_same s q" using r q by (auto split: if_splits dest: bw_btb_predict_same)
  with s have "sctable_wf (p2_table q) \<and> bp_taken_counter q = bp_taken_counter p" by (auto simp: bw_same_def)
  with p' show ?thesis by auto
qed (use assms in \<open>auto simp: p0_predict_def\<close>)

interpretation level0: direction_predictor p0_predict p0_fetchBoundaryBegin p0_fetchBoundaryEnd "\<lambda>p. sctable_wf (p2_table p)"
  by unfold_locales (auto simp: p0_fetchBoundaryBegin_def p0_fetchBoundaryEnd_def bw_block_defs dest: p0_predict_keeps)

lemma td_predict_keeps:
  assumes "td_predict d upd p = Inr (o', p')" and "sctable_wf (td_table p)"
  shows "sctable_wf (td_table p') \<and> bp_taken_counter p' = bp_taken_counter p"
proof (cases "isBranch (di_inst d)")
  case True
  then obtain taken where taken: "di_isTaken d = Inr taken"
    using assms(1) by (auto simp: td_predict_def bind_res_Inr_iff)
  define i :: u32 where "i = ucast (di_getLDPC d XOR push_bit 7 (di_pc d) XOR push_bit 10 (di_getDataSign d))"
  define t where "t = (if upd then sc_update (td_table p) i taken else td_table p)"
  have "td_predict d upd p = (if \<not> sc_isLowest t i \<and> \<not> sc_isHighest t i then Inr (Outcome_None, p\<lparr>td_table := t\<rparr>)
      else bw_finish d upd taken (sc_predict (td_table p) i) (p\<lparr>td_table := t\<rparr>))"
    using True by (cases upd) (simp_all add: td_predict_def taken sc_predict_update_eq Let_def t_def flip: i_def)
  with assms(1) have "(if \<not> sc_isLowest t i \<and> \<not> sc_isHighest t i then Inr (Outcome_None, p\<lparr>td_table := t\<rparr>)
      else bw_finish d upd taken (sc_predict (td_table p) i) (p\<lparr>td_table := t\<rparr>)) = Inr (o', p')" by (rule subst [rotated])
  then have "bw_same (p\<lparr>td_table := t\<rparr>) p'" by (auto split: if_splits dest: bw_finish_same)
  moreover have "sctable_wf t" using assms(2) by (simp add: t_def sctable_wf_update)
  ultimately show ?thesis by (auto simp: bw_same_def)
next
  case False
  with assms show ?thesis by (auto simp: td_predict_def bw_same_def dest!: bw_btb_predict_same)
qed

interpretation data_table: direction_predictor td_predict bw_fetchBoundaryBegin bw_fetchBoundaryEnd "\<lambda>p. sctable_wf (td_table p)"
  by unfold_locales (auto simp: bw_block_defs dest: td_predict_keeps)

lemma ld_predict_keeps: "ld_predict d upd p = Inr (o', p') \<Longrightarrow> bw_same p p'"
  by (auto simp: ld_predict_def bind_res_Inr_iff Let_def split: if_splits dest!: bw_finish_same)

interpretation load_branch: direction_predictor ld_predict bw_fetchBoundaryBegin bw_fetchBoundaryEnd
    "\<lambda>p. \<forall>c \<in> set (ld_doc_table p). doc_wf c"
  by unfold_locales (auto simp: bw_block_defs bw_same_def dest!: ld_predict_keeps)

end
