(* ===== verification/Branch_Global.thy ===== *)
theory Branch_Global
  imports Branch_Simple
begin

text \<open>
  The predictors of \<open>simu/BPred.cpp\<close> that use global or per-branch histories: \<open>BP2level\<close>, \<open>BPHybrid\<close>,
  \<open>BP2BcgSkew\<close> and \<open>BPyags\<close>. A history register is a word of 64 bits (\<open>HistoryType\<close>); the constructors
  compute its mask in \<open>int\<close>, so widths of 31 bits or more are undefined. The facts: every operation keeps
  the tables well formed and the registers inside their masks; the two-level predictor learns every
  branch whose outcome is decided by its history; and where the code departs from the published predictors.
\<close>

section \<open>History registers\<close>

definition hist_mask :: "nat \<Rightarrow> u64 res" where
  "hist_mask n = (if n < 31 then Inr (2 ^ n - 1) else Inl Bad_shift)"

definition hist_bit :: "u64 \<Rightarrow> bool \<Rightarrow> u64" where
  "hist_bit iID taken = (drop_bit 2 iID AND 1) XOR (if taken then 1 else 0)"

definition hist_push :: "u64 \<Rightarrow> u64 \<Rightarrow> u64 \<Rightarrow> bool \<Rightarrow> u64" where
  "hist_push m h iID taken = (push_bit 1 h OR hist_bit iID taken) AND m"

definition hist_index :: "u64 \<Rightarrow> nat \<Rightarrow> u64 \<Rightarrow> u64 \<Rightarrow> u64" where
  "hist_index m n h iID = ((h XOR iID) AND m) OR push_bit n iID"

text \<open>\<open>SCTable::predict\<close> with or without training; its index is 32 bits wide.\<close>

definition table_predict :: "sctable \<Rightarrow> u64 \<Rightarrow> bool \<Rightarrow> bool \<Rightarrow> bool \<times> sctable" where
  "table_predict t i upd taken =
    (if upd then sc_predict_update t (ucast i) taken else (sc_predict t (ucast i), t))"

section \<open>Two-level predictor\<close>

record bp_2level = bp_with_btb +
  l2_l1Size :: u16
  l2_l1SizeMask :: u32
  l2_historySize :: nat
  l2_historyMask :: u64
  l2_globalTable :: sctable
  l2_dolc :: dolc
  l2_historyTable :: "u64 list"
  l2_useDolc :: bool
  l2_maxCores :: nat

text \<open>The table of histories is not initialised: \<open>junk\<close> is what its memory holds.\<close>

definition l2_create ::
  "nat \<Rightarrow> btb \<Rightarrow> u16 \<Rightarrow> nat \<Rightarrow> u64 \<Rightarrow> u8 \<Rightarrow> bool \<Rightarrow> nat \<Rightarrow> (nat \<Rightarrow> u64) \<Rightarrow> bp_2level res" where
  "l2_create shift b l1 hs sz bits path cores junk =
    bind_res (hist_mask hs) (\<lambda>m.
    bind_res (sc_create sz bits) (\<lambda>t.
    bind_res (dc_create hs 5 2 2) (\<lambda>d.
    assert_res (l1 AND (l1 - 1) = 0)
      (Inr \<lparr>bp_taken_counter = - 1, bp_addrShift = shift, bw_btb = b, l2_l1Size = l1,
            l2_l1SizeMask = word_of_int (int (unat l1) - 1), l2_historySize = hs, l2_historyMask = m, l2_globalTable = t,
            l2_dolc = d, l2_historyTable = map junk [0..<unat l1 * cores], l2_useDolc = path, l2_maxCores = cores\<rparr>))))"

definition l2_path :: "addr \<Rightarrow> 'a bp_2level_scheme \<Rightarrow> 'a bp_2level_scheme res" where
  "l2_path a p =
    (if l2_useDolc p then bind_res (dc_update a (l2_dolc p)) (\<lambda>c. Inr (p\<lparr>l2_dolc := c\<rparr>)) else Inr p)"

definition l2_l1Index :: "dinst \<Rightarrow> u64 \<Rightarrow> 'a bp_2level_scheme \<Rightarrow> u16" where
  "l2_l1Index d iID p = ucast (iID AND ucast (l2_l1SizeMask p)) + ucast (di_fid d) * l2_l1Size p"

text \<open>The history that replaces the one of the branch.\<close>

definition l2_nhist :: "u64 \<Rightarrow> u64 \<Rightarrow> bool \<Rightarrow> 'a bp_2level_scheme \<Rightarrow> u64 res" where
  "l2_nhist h iID taken p =
    (if l2_useDolc p then dc_getSign (l2_historySize p) (l2_historySize p) (l2_dolc p)
     else Inr (hist_push (l2_historyMask p) h iID taken))"

definition l2_predict :: "dinst \<Rightarrow> bool \<Rightarrow> 'a bp_2level_scheme \<Rightarrow> (outcome \<times> 'a bp_2level_scheme) res" where
  "l2_predict d upd p =
    (if \<not> isBranch (di_inst d)
     then bind_res (l2_path (di_pc d) p) (bw_btb_predict d upd)
     else bind_res (di_isTaken d) (\<lambda>taken.
      bind_res (bp_calcHist (bp_addrShift p) (di_pc d)) (\<lambda>iID.
      let i = unat (l2_l1Index d iID p)
      in assert_res (i < l2_maxCores p * unat (l2_l1Size p))
       (nth_res (l2_historyTable p) i (\<lambda>h.
        bind_res (l2_path (di_pc d) p) (\<lambda>p.
        bind_res (if upd then bind_res (l2_nhist h iID taken p)
                               (\<lambda>n. Inr (p\<lparr>l2_historyTable := (l2_historyTable p)[i := n]\<rparr>))
                  else Inr p) (\<lambda>p.
        let l2Index = hist_index (l2_historyMask p) (l2_historySize p) h iID
        in bind_res (if taken then l2_path (di_addr d) p else Inr p) (\<lambda>p.
             case table_predict (l2_globalTable p) l2Index upd taken of (ptaken, t) \<Rightarrow>
               bw_finish d upd taken ptaken (p\<lparr>l2_globalTable := t\<rparr>)))))))))"

section \<open>Hybrid predictor\<close>

record bp_hybrid = bp_with_btb +
  hy_historySize :: nat
  hy_historyMask :: u64
  hy_globalTable :: sctable
  hy_ghr :: u64
  hy_localTable :: sctable
  hy_metaTable :: sctable

definition hy_create ::
  "nat \<Rightarrow> btb \<Rightarrow> nat \<Rightarrow> u64 \<times> u8 \<Rightarrow> u64 \<times> u8 \<Rightarrow> u64 \<times> u8 \<Rightarrow> bp_hybrid res" where
  "hy_create shift b hs global local meta =
    bind_res (hist_mask hs) (\<lambda>m.
    bind_res (sc_create (fst global) (snd global)) (\<lambda>g.
    bind_res (sc_create (fst local) (snd local)) (\<lambda>l.
    bind_res (sc_create (fst meta) (snd meta)) (\<lambda>t.
      Inr \<lparr>bp_taken_counter = - 1, bp_addrShift = shift, bw_btb = b, hy_historySize = hs, hy_historyMask = m,
           hy_globalTable = g, hy_ghr = 0, hy_localTable = l, hy_metaTable = t\<rparr>))))"

text \<open>The chooser is trained only when the two tables disagree.\<close>

definition hy_meta :: "sctable \<Rightarrow> u64 \<Rightarrow> bool \<Rightarrow> bool \<Rightarrow> bool \<Rightarrow> bool \<Rightarrow> bool \<times> sctable" where
  "hy_meta t i upd taken globalTaken localTaken =
    (if \<not> upd then table_predict t i False False
     else if globalTaken = taken \<and> localTaken \<noteq> taken then table_predict t i True False
     else if globalTaken \<noteq> taken \<and> localTaken = taken then table_predict t i True True
     else table_predict t i False False)"

definition hy_predict :: "dinst \<Rightarrow> bool \<Rightarrow> 'a bp_hybrid_scheme \<Rightarrow> (outcome \<times> 'a bp_hybrid_scheme) res" where
  "hy_predict d upd p =
    (if \<not> isBranch (di_inst d) then bw_btb_predict d upd p
     else bind_res (di_isTaken d) (\<lambda>taken.
      bind_res (bp_calcHist (bp_addrShift p) (di_pc d)) (\<lambda>iID.
      let i = hist_index (hy_historyMask p) (hy_historySize p) (hy_ghr p) iID;
          ghr = (if upd then hist_push (hy_historyMask p) (hy_ghr p) iID taken else hy_ghr p);
          (globalTaken, g) = table_predict (hy_globalTable p) i upd taken;
          (localTaken, l) = table_predict (hy_localTable p) iID upd taken;
          (metaOut, t) = hy_meta (hy_metaTable p) i upd taken globalTaken localTaken
      in bw_finish d upd taken (if metaOut then localTaken else globalTaken)
           (p\<lparr>hy_ghr := ghr, hy_globalTable := g, hy_localTable := l, hy_metaTable := t\<rparr>))))"

section \<open>The skewed predictor 2BcgSkew\<close>

text \<open>One of the three tables that are indexed by the history.\<close>

record hist_table =
  ht_table :: sctable
  ht_size :: nat
  ht_mask :: u64

definition ht_create :: "nat \<Rightarrow> u64 \<Rightarrow> hist_table res" where
  "ht_create hs sz = bind_res (sc_create sz 2) (\<lambda>t. bind_res (hist_mask hs) (\<lambda>m.
    Inr \<lparr>ht_table = t, ht_size = hs, ht_mask = m\<rparr>))"

definition ht_index :: "hist_table \<Rightarrow> u64 \<Rightarrow> u64 \<Rightarrow> u64" where
  "ht_index h key iID = (key AND ht_mask h) OR push_bit (ht_size h) iID"

definition ht_train :: "u64 \<Rightarrow> bool \<Rightarrow> hist_table \<Rightarrow> hist_table" where
  "ht_train i taken h = h\<lparr>ht_table := sc_update (ht_table h) (ucast i) taken\<rparr>"

definition ht_predict :: "hist_table \<Rightarrow> u64 \<Rightarrow> bool" where
  "ht_predict h i = sc_predict (ht_table h) (ucast i)"

record bp_bcgskew = bp_with_btb +
  bs_BIM :: sctable
  bs_G0 :: hist_table
  bs_G1 :: hist_table
  bs_meta :: hist_table
  bs_history :: u64

definition bs_create ::
  "nat \<Rightarrow> btb \<Rightarrow> u64 \<Rightarrow> nat \<times> u64 \<Rightarrow> nat \<times> u64 \<Rightarrow> nat \<times> u64 \<Rightarrow> bp_bcgskew res" where
  "bs_create shift b bim g0 g1 meta =
    bind_res (sc_create bim 2) (\<lambda>t.
    bind_res (ht_create (fst g0) (snd g0)) (\<lambda>h0.
    bind_res (ht_create (fst g1) (snd g1)) (\<lambda>h1.
    bind_res (ht_create (fst meta) (snd meta)) (\<lambda>hm.
      Inr \<lparr>bp_taken_counter = - 1, bp_addrShift = shift, bw_btb = b, bs_BIM = t, bs_G0 = h0, bs_G1 = h1,
           bs_meta = hm, bs_history = 0x55555555\<rparr>))))"

definition majority :: "bool \<Rightarrow> bool \<Rightarrow> bool \<Rightarrow> bool" where
  "majority x y z \<longleftrightarrow> of_bool x + of_bool y + of_bool z \<ge> (2::nat)"

text \<open>After a wrong direction all tables are trained, then the chooser by the new votes.\<close>

definition bs_learn_miss :: "u64 \<Rightarrow> u64 \<Rightarrow> u64 \<Rightarrow> u64 \<Rightarrow> bool \<Rightarrow> 'a bp_bcgskew_scheme \<Rightarrow> 'a bp_bcgskew_scheme" where
  "bs_learn_miss iID i0 i1 im taken p =
    (let bim = sc_update (bs_BIM p) (ucast iID) taken;
         g0 = ht_train i0 taken (bs_G0 p);
         g1 = ht_train i1 taken (bs_G1 p);
         BIMOut = sc_predict bim (ucast iID);
         gskewOut = majority (ht_predict g0 i0) (ht_predict g1 i1) BIMOut
     in p\<lparr>bs_BIM := bim, bs_G0 := g0, bs_G1 := g1,
          bs_meta := (if BIMOut \<noteq> gskewOut then ht_train im (BIMOut = taken) (bs_meta p)
                      else (bs_meta p)\<lparr>ht_table := sc_reset (ht_table (bs_meta p)) (ucast im) (BIMOut = taken)\<rparr>)\<rparr>)"

text \<open>After a right direction the tables that agree are strengthened.\<close>

definition bs_learn_hit :: "u64 \<Rightarrow> u64 \<Rightarrow> u64 \<Rightarrow> u64 \<Rightarrow> bool \<Rightarrow> 'a bp_bcgskew_scheme \<Rightarrow> 'a bp_bcgskew_scheme" where
  "bs_learn_hit iID i0 i1 im taken p =
    (let metaOut = ht_predict (bs_meta p) im;
         BIMOut = sc_predict (bs_BIM p) (ucast iID);
         G0Out = ht_predict (bs_G0 p) i0;
         G1Out = ht_predict (bs_G1 p) i1;
         gskewOut = majority G0Out G1Out BIMOut
     in p\<lparr>bs_BIM := (if metaOut \<or> BIMOut = taken then sc_update (bs_BIM p) (ucast iID) taken else bs_BIM p),
          bs_G0 := (if \<not> metaOut \<and> G0Out = taken then ht_train i0 taken (bs_G0 p) else bs_G0 p),
          bs_G1 := (if \<not> metaOut \<and> G1Out = taken then ht_train i1 taken (bs_G1 p) else bs_G1 p),
          bs_meta := (if BIMOut \<noteq> gskewOut then ht_train im (BIMOut = taken) (bs_meta p) else bs_meta p),
          bs_history := push_bit 1 (bs_history p) OR hist_bit iID taken\<rparr>)"

definition bs_predict :: "dinst \<Rightarrow> bool \<Rightarrow> 'a bp_bcgskew_scheme \<Rightarrow> (outcome \<times> 'a bp_bcgskew_scheme) res" where
  "bs_predict d upd p =
    (if \<not> isBranch (di_inst d) then bw_btb_predict d upd p
     else bind_res (bp_calcHist (bp_addrShift p) (di_pc d)) (\<lambda>iID.
      bind_res (di_isTaken d) (\<lambda>taken.
      let h = bs_history p;
          im = ht_index (bs_meta p) (h XOR iID) iID;
          i0 = ht_index (bs_G0 p) (h XOR drop_bit 2 iID) iID;
          i1 = ht_index (bs_G1 p) (h XOR drop_bit 4 iID) iID;
          BIMOut = sc_predict (bs_BIM p) (ucast iID);
          gskewOut = majority (ht_predict (bs_G0 p) i0) (ht_predict (bs_G1 p) i1) BIMOut;
          ptaken = (if ht_predict (bs_meta p) im then BIMOut else gskewOut)
      in if ptaken \<noteq> taken
         then if \<not> upd then Inr (Outcome_Miss, p)
              else bind_res (bw_btb_updateOnly d (bs_learn_miss iID i0 i1 im taken p)) (\<lambda>p. Inr (Outcome_Miss, p))
         else let p = (if upd then bs_learn_hit iID i0 i1 im taken p else p)
              in if ptaken then bw_btb_predict d upd p else Inr (Outcome_Correct, p))))"

section \<open>YAGS\<close>

text \<open>A direction cache: a table of counters, and tags of 8 bits.\<close>

record dir_cache =
  dir_ctable :: sctable
  dir_tags :: "u8 list"
  dir_mask :: u64
  dir_tagMask :: u64

definition dir_create :: "u64 \<Rightarrow> u8 \<Rightarrow> nat \<Rightarrow> (nat \<Rightarrow> u8) \<Rightarrow> dir_cache res" where
  "dir_create sz bits tagw junk =
    bind_res (sc_create sz bits) (\<lambda>t. bind_res (hist_mask tagw) (\<lambda>tm.
      Inr \<lparr>dir_ctable = t, dir_tags = map junk [0..<unat sz], dir_mask = sz - 1, dir_tagMask = tm\<rparr>))"

text \<open>
  \<open>dir\<close> is the direction of the choice table. In a hit the counter decides; when the branch leaves the direction
  of the choice a tag is allocated and a counter is trained: at the index \<open>miss\<close>, which the two halves of the code pass differently.
\<close>

definition dir_lookup :: "bool \<Rightarrow> u64 \<Rightarrow> u64 \<Rightarrow> u64 \<Rightarrow> bool \<Rightarrow> bool \<Rightarrow> dir_cache \<Rightarrow> (bool \<times> dir_cache) res" where
  "dir_lookup dir iIDHist miss iID upd taken c =
    (let i = unat (iIDHist AND dir_mask c);
         tg = iID AND dir_tagMask c
     in nth_res (dir_tags c) i (\<lambda>v.
          if ucast v = tg
          then (case table_predict (dir_ctable c) iIDHist upd taken of (ptaken, t) \<Rightarrow>
                  Inr (ptaken, c\<lparr>dir_tags := (if upd then (dir_tags c)[i := ucast tg] else dir_tags c), dir_ctable := t\<rparr>))
          else if upd \<and> taken \<noteq> dir
          then Inr (dir, c\<lparr>dir_tags := (dir_tags c)[i := ucast tg],
                           dir_ctable := snd (table_predict (dir_ctable c) miss True taken)\<rparr>)
          else Inr (dir, c)))"

record bp_yags = bp_with_btb +
  ya_table :: sctable
  ya_ghr :: u64
  ya_Taken :: dir_cache
  ya_NotTaken :: dir_cache

definition ya_historySize :: nat where "ya_historySize = 24"

definition ya_historyMask :: u64 where "ya_historyMask = 2 ^ 24 - 1"

definition ya_create :: "nat \<Rightarrow> btb \<Rightarrow> u64 \<times> u8 \<Rightarrow> u64 \<times> u8 \<Rightarrow> u64 \<times> u8 \<Rightarrow> nat \<Rightarrow> u64 \<Rightarrow> (nat \<Rightarrow> u8) \<Rightarrow>
    (nat \<Rightarrow> u8) \<Rightarrow> bp_yags res" where
  "ya_create shift b meta l1 l2 tagw ghr junk1 junk2 =
    bind_res (sc_create (fst meta) (snd meta)) (\<lambda>t.
    bind_res (dir_create (fst l1) (snd l1) tagw junk1) (\<lambda>c1.
    bind_res (dir_create (fst l2) (snd l2) tagw junk2) (\<lambda>c2.
      Inr \<lparr>bp_taken_counter = - 1, bp_addrShift = shift, bw_btb = b, ya_table = t, ya_ghr = ghr,
           ya_Taken = c1, ya_NotTaken = c2\<rparr>)))"

definition ya_predict :: "dinst \<Rightarrow> bool \<Rightarrow> 'a bp_yags_scheme \<Rightarrow> (outcome \<times> 'a bp_yags_scheme) res" where
  "ya_predict d upd p =
    (if \<not> isBranch (di_inst d) then bw_btb_predict d upd p
     else bind_res (di_isTaken d) (\<lambda>taken.
      bind_res (bp_calcHist (bp_addrShift p) (di_pc d)) (\<lambda>iID.
      let ghr = (if upd then hist_push ya_historyMask (ya_ghr p) iID taken else ya_ghr p);
          (choice, t) = table_predict (ya_table p) iID upd taken;
          iIDHist = hist_index ya_historyMask ya_historySize (ya_ghr p) iID;
          p = p\<lparr>ya_ghr := ghr, ya_table := t\<rparr>
      in if choice
         then bind_res (dir_lookup True iIDHist iID iID upd taken (ya_NotTaken p)) (\<lambda>(ptaken, c).
                bw_finish d upd taken ptaken (p\<lparr>ya_NotTaken := c\<rparr>))
         else bind_res (dir_lookup False iIDHist iIDHist iID upd taken (ya_Taken p)) (\<lambda>(ptaken, c).
                bw_finish d upd taken ptaken (p\<lparr>ya_Taken := c\<rparr>)))))"

section \<open>Invariants\<close>

lemma table_predict_wf: "sctable_wf t \<Longrightarrow> sctable_wf (snd (table_predict t i upd taken))"
  by (simp add: table_predict_def sc_predict_update_eq sctable_wf_update)

lemma hy_meta_wf: "sctable_wf t \<Longrightarrow> sctable_wf (snd (hy_meta t i upd taken g l))"
  by (simp add: hy_meta_def table_predict_wf)

lemma hist_push_mask [simp]: "hist_push m h iID taken AND m = hist_push m h iID taken"
  by (simp add: hist_push_def ac_simps)

subsection \<open>Two-level\<close>

definition l2_wf :: "'a bp_2level_scheme \<Rightarrow> bool" where
  "l2_wf p \<longleftrightarrow> sctable_wf (l2_globalTable p) \<and> length (l2_historyTable p) = unat (l2_l1Size p) * l2_maxCores p"

lemma l2_path_keeps:
  assumes "l2_path a p = Inr q"
  shows "l2_wf q = l2_wf p" and "bp_taken_counter q = bp_taken_counter p"
  using assms by (auto simp: l2_path_def bind_res_Inr_iff l2_wf_def split: if_splits)

lemma l2_predict_keeps:
  assumes "l2_wf p" and "l2_predict d upd p = Inr (o', p')"
  shows "l2_wf p' \<and> bp_taken_counter p' = bp_taken_counter p"
proof (cases "isBranch (di_inst d)")
  case False
  then obtain q where "l2_path (di_pc d) p = Inr q" "bw_same q p'"
    using assms(2) by (auto simp: l2_predict_def bind_res_Inr_iff dest: bw_btb_predict_same)
  with l2_path_keeps [OF this(1)] assms(1) show ?thesis by (auto simp: bw_same_def l2_wf_def)
next
  case True
  from assms(2) True obtain taken iID where ti: "di_isTaken d = Inr taken" "bp_calcHist (bp_addrShift p) (di_pc d) = Inr iID"
    by (auto simp: l2_predict_def bind_res_Inr_iff)
  define i where "i = unat (l2_l1Index d iID p)"
  let ?h = "l2_historyTable p ! i"
  from assms(2) True obtain q1 where q1: "l2_path (di_pc d) p = Inr q1"
    by (auto simp: l2_predict_def ti Let_def res_Inr_iffs simp flip: i_def)
  from assms(2) True obtain q2 where q2: "(if upd then bind_res (l2_nhist ?h iID taken q1)
      (\<lambda>n. Inr (q1\<lparr>l2_historyTable := (l2_historyTable q1)[i := n]\<rparr>)) else Inr q1) = Inr q2"
    unfolding l2_predict_def ti bind_res_simps Let_def i_def [symmetric] q1
    by (auto simp: assert_res_Inr_iff nth_res_Inr_iff q1 bind_res_Inr_iff simp del: if_split_asm)
  from assms(2) True obtain q3 where q3: "(if taken then l2_path (di_addr d) q2 else Inr q2) = Inr q3"
    unfolding l2_predict_def ti bind_res_simps Let_def i_def [symmetric] q1
    by (auto simp: assert_res_Inr_iff nth_res_Inr_iff q1 q2 bind_res_Inr_iff)
  have "\<exists>j. bw_finish d upd taken (fst (table_predict (l2_globalTable q3) j upd taken))
      (q3\<lparr>l2_globalTable := snd (table_predict (l2_globalTable q3) j upd taken)\<rparr>) = Inr (o', p')"
    using assms(2) True unfolding l2_predict_def ti bind_res_simps Let_def i_def [symmetric] q1
    by (auto simp: assert_res_Inr_iff nth_res_Inr_iff q1 q2 q3 case_prod_beta)
  then obtain j where "bw_same (q3\<lparr>l2_globalTable := snd (table_predict (l2_globalTable q3) j upd taken)\<rparr>) p'"
    using bw_finish_same by blast
  moreover have "l2_wf q2 \<and> bp_taken_counter q2 = bp_taken_counter p"
    using q2 l2_path_keeps [OF q1] assms(1) by (auto simp: bind_res_Inr_iff l2_wf_def split: if_splits)
  then have "l2_wf q3 \<and> bp_taken_counter q3 = bp_taken_counter p"
    using q3 l2_path_keeps [of "di_addr d" q2 q3] by (auto split: if_splits)
  ultimately show ?thesis by (auto simp: bw_same_def l2_wf_def table_predict_wf)
qed

interpretation two_level: direction_predictor l2_predict bw_fetchBoundaryBegin bw_fetchBoundaryEnd l2_wf
  by (unfold_locales, erule l2_predict_keeps, assumption) (simp_all add: bw_block_defs l2_wf_def)

subsection \<open>Hybrid\<close>

definition hy_wf :: "'a bp_hybrid_scheme \<Rightarrow> bool" where
  "hy_wf p \<longleftrightarrow> sctable_wf (hy_globalTable p) \<and> sctable_wf (hy_localTable p) \<and> sctable_wf (hy_metaTable p) \<and>
     hy_ghr p AND hy_historyMask p = hy_ghr p"

lemma hy_predict_keeps:
  assumes "hy_wf p" and "hy_predict d upd p = Inr (o', p')"
  shows "hy_wf p' \<and> bp_taken_counter p' = bp_taken_counter p"
proof (cases "isBranch (di_inst d)")
  case False
  with assms show ?thesis by (auto simp: hy_predict_def bw_same_def hy_wf_def dest!: bw_btb_predict_same)
next
  case True
  from assms(2) True obtain taken iID where ti: "di_isTaken d = Inr taken" "bp_calcHist (bp_addrShift p) (di_pc d) = Inr iID"
    by (auto simp: hy_predict_def bind_res_Inr_iff)
  let ?i = "hist_index (hy_historyMask p) (hy_historySize p) (hy_ghr p) iID"
  let ?g = "table_predict (hy_globalTable p) ?i upd taken" and ?l = "table_predict (hy_localTable p) iID upd taken"
  let ?m = "hy_meta (hy_metaTable p) ?i upd taken (fst ?g) (fst ?l)"
  let ?q = "p\<lparr>hy_ghr := (if upd then hist_push (hy_historyMask p) (hy_ghr p) iID taken else hy_ghr p),
    hy_globalTable := snd ?g, hy_localTable := snd ?l, hy_metaTable := snd ?m\<rparr>"
  have "bw_finish d upd taken (if fst ?m then fst ?l else fst ?g) ?q = Inr (o', p')"
    using assms(2) True unfolding hy_predict_def ti bind_res_simps Let_def by (simp only: case_prod_beta not_True_eq_False if_False)
  then have "bw_same ?q p'" by (rule bw_finish_same)
  moreover have "hy_wf ?q" using assms(1) by (simp add: hy_wf_def table_predict_wf hy_meta_wf)
  ultimately show ?thesis by (auto simp: bw_same_def hy_wf_def)
qed

interpretation hybrid: direction_predictor hy_predict bw_fetchBoundaryBegin bw_fetchBoundaryEnd hy_wf
  by (unfold_locales, erule hy_predict_keeps, assumption) (simp_all add: bw_block_defs hy_wf_def)

subsection \<open>2BcgSkew\<close>

definition ht_wf :: "hist_table \<Rightarrow> bool" where
  "ht_wf h \<longleftrightarrow> sctable_wf (ht_table h)"

definition bs_wf :: "'a bp_bcgskew_scheme \<Rightarrow> bool" where
  "bs_wf p \<longleftrightarrow> sctable_wf (bs_BIM p) \<and> ht_wf (bs_G0 p) \<and> ht_wf (bs_G1 p) \<and> ht_wf (bs_meta p)"

lemma ht_train_wf: "ht_wf h \<Longrightarrow> ht_wf (ht_train i taken h)"
  by (simp add: ht_wf_def ht_train_def sctable_wf_update)

lemma ht_reset_wf: "ht_wf h \<Longrightarrow> ht_wf (h\<lparr>ht_table := sc_reset (ht_table h) i b\<rparr>)"
  by (simp add: ht_wf_def sctable_wf_reset)

lemma bs_learn_keeps:
  assumes "bs_wf p"
  shows "bs_wf (bs_learn_miss iID i0 i1 im taken p)" and "bs_wf (bs_learn_hit iID i0 i1 im taken p)"
    and "bp_taken_counter (bs_learn_miss iID i0 i1 im taken p) = bp_taken_counter p"
    and "bp_taken_counter (bs_learn_hit iID i0 i1 im taken p) = bp_taken_counter p"
  using assms by (simp_all add: bs_wf_def bs_learn_miss_def bs_learn_hit_def Let_def ht_train_wf ht_reset_wf sctable_wf_update)

lemma bw_same_bs: "bw_same q p' \<Longrightarrow> bs_wf p' = bs_wf q \<and> bp_taken_counter p' = bp_taken_counter q"
  by (auto simp: bw_same_def bs_wf_def)

lemma bs_predict_keeps:
  assumes "bs_wf p" and "bs_predict d upd p = Inr (o', p')"
  shows "bs_wf p' \<and> bp_taken_counter p' = bp_taken_counter p"
proof (cases "isBranch (di_inst d)")
  case False
  with assms show ?thesis by (auto simp: bs_predict_def dest!: bw_btb_predict_same bw_same_bs)
next
  case True
  from assms(2) True obtain taken iID where ti: "di_isTaken d = Inr taken" "bp_calcHist (bp_addrShift p) (di_pc d) = Inr iID"
    by (auto simp: bs_predict_def bind_res_Inr_iff)
  define im where "im = ht_index (bs_meta p) (bs_history p XOR iID) iID"
  define i0 where "i0 = ht_index (bs_G0 p) (bs_history p XOR drop_bit 2 iID) iID"
  define i1 where "i1 = ht_index (bs_G1 p) (bs_history p XOR drop_bit 4 iID) iID"
  define qm where "qm = bs_learn_miss iID i0 i1 im taken p"
  define qh where "qh = (if upd then bs_learn_hit iID i0 i1 im taken p else p)"
  have q: "bs_wf qm \<and> bp_taken_counter qm = bp_taken_counter p" "bs_wf qh \<and> bp_taken_counter qh = bp_taken_counter p"
    using bs_learn_keeps [OF assms(1)] assms(1) by (simp_all add: qm_def qh_def)
  obtain ptaken where "bs_predict d upd p =
     (if ptaken \<noteq> taken then if \<not> upd then Inr (Outcome_Miss, p)
        else bind_res (bw_btb_updateOnly d qm) (\<lambda>p. Inr (Outcome_Miss, p))
      else if ptaken then bw_btb_predict d upd qh else Inr (Outcome_Correct, qh))"
    using True unfolding bs_predict_def ti bind_res_simps Let_def qm_def qh_def im_def i0_def i1_def by simp
  with assms(2) have "p' = p \<or> bw_same qm p' \<or> bw_same qh p'"
    by (auto simp: bind_res_Inr_iff split: if_splits dest: bw_btb_predict_same bw_btb_updateOnly_same)
  then show ?thesis using q assms(1) by (auto dest!: bw_same_bs)
qed

interpretation skewed: direction_predictor bs_predict bw_fetchBoundaryBegin bw_fetchBoundaryEnd bs_wf
  by (unfold_locales, erule bs_predict_keeps, assumption) (simp_all add: bw_block_defs bs_wf_def)

subsection \<open>YAGS\<close>

definition dir_wf :: "dir_cache \<Rightarrow> bool" where
  "dir_wf c \<longleftrightarrow> sctable_wf (dir_ctable c) \<and> length (dir_tags c) = unat (dir_mask c) + 1"

definition ya_wf :: "'a bp_yags_scheme \<Rightarrow> bool" where
  "ya_wf p \<longleftrightarrow> sctable_wf (ya_table p) \<and> dir_wf (ya_Taken p) \<and> dir_wf (ya_NotTaken p)"

text \<open>The lookups in the direction caches never leave their arrays.\<close>

lemma dir_lookup_total:
  assumes "dir_wf c"
  shows "\<exists>r c'. dir_lookup dir x miss iID upd taken c = Inr (r, c') \<and> dir_wf c'"
proof -
  have "unat (x AND dir_mask c) < length (dir_tags c)"
    using assms unat_and_le_right [of x "dir_mask c"] by (simp add: dir_wf_def)
  with assms show ?thesis
    by (auto simp: dir_lookup_def Let_def dir_wf_def case_prod_beta table_predict_wf)
qed

lemma ya_predict_keeps:
  assumes "ya_wf p" and "ya_predict d upd p = Inr (o', p')"
  shows "ya_wf p' \<and> bp_taken_counter p' = bp_taken_counter p"
proof (cases "isBranch (di_inst d)")
  case False
  with assms show ?thesis by (auto simp: ya_predict_def bw_same_def ya_wf_def dest!: bw_btb_predict_same)
next
  case True
  from assms(2) True obtain taken iID where ti: "di_isTaken d = Inr taken" "bp_calcHist (bp_addrShift p) (di_pc d) = Inr iID"
    by (auto simp: ya_predict_def bind_res_Inr_iff)
  let ?c = "table_predict (ya_table p) iID upd taken"
  let ?x = "hist_index ya_historyMask ya_historySize (ya_ghr p) iID"
  define q where "q = p\<lparr>ya_ghr := (if upd then hist_push ya_historyMask (ya_ghr p) iID taken else ya_ghr p), ya_table := snd ?c\<rparr>"
  have q: "ya_wf q" "bp_taken_counter q = bp_taken_counter p" using assms(1) by (simp_all add: q_def ya_wf_def table_predict_wf)
  obtain r1 c1 where c1: "dir_lookup True ?x iID iID upd taken (ya_NotTaken q) = Inr (r1, c1)" "dir_wf c1"
    using dir_lookup_total q(1) by (metis ya_wf_def)
  obtain r2 c2 where c2: "dir_lookup False ?x ?x iID upd taken (ya_Taken q) = Inr (r2, c2)" "dir_wf c2"
    using dir_lookup_total q(1) by (metis ya_wf_def)
  have "ya_predict d upd p = (if fst ?c then bw_finish d upd taken r1 (q\<lparr>ya_NotTaken := c1\<rparr>)
      else bw_finish d upd taken r2 (q\<lparr>ya_Taken := c2\<rparr>))"
    using True unfolding ya_predict_def ti bind_res_simps Let_def
    by (simp only: case_prod_beta not_True_eq_False if_False flip: q_def) (simp add: c1 c2)
  with assms(2) have "bw_same (q\<lparr>ya_NotTaken := c1\<rparr>) p' \<or> bw_same (q\<lparr>ya_Taken := c2\<rparr>) p'"
    by (auto split: if_splits dest: bw_finish_same)
  then show ?thesis using q c1(2) c2(2) by (auto simp: bw_same_def ya_wf_def)
qed

interpretation yags: direction_predictor ya_predict bw_fetchBoundaryBegin bw_fetchBoundaryEnd ya_wf
  by (unfold_locales, erule ya_predict_keeps, assumption) (simp_all add: bw_block_defs ya_wf_def)

section \<open>What the two-level predictor learns\<close>

text \<open>One execution of the branch \<open>d\<close> in a fetch block of its own.\<close>

definition l2_visit :: "dinst \<Rightarrow> bp_2level \<Rightarrow> (outcome \<times> bp_2level) res" where
  "l2_visit d p =
    bind_res (bp_doPredict (bp_pure l2_predict) d (bw_fetchBoundaryBegin d p)) (\<lambda>((o', d), p).
      Inr (o', bw_fetchBoundaryEnd p))"

fun l2_run :: "dinst list \<Rightarrow> bp_2level \<Rightarrow> (outcome list \<times> bp_2level) res" where
  "l2_run [] p = Inr ([], p)"
| "l2_run (d # ds) p =
    bind_res (l2_visit d p) (\<lambda>(o', p). bind_res (l2_run ds p) (\<lambda>(os, p). Inr (o' # os, p)))"

text \<open>The uses of the second-level table by a run: index and outcome. Only the first-level table matters for it.\<close>

definition l2_key :: "dinst \<Rightarrow> bp_2level \<Rightarrow> u64" where
  "l2_key d p = (case bp_calcHist (bp_addrShift p) (di_pc d) of Inl _ \<Rightarrow> 0 | Inr h \<Rightarrow> h)"

definition l2_use :: "dinst \<Rightarrow> bp_2level \<Rightarrow> u32 \<times> bool" where
  "l2_use d p =
    (ucast (hist_index (l2_historyMask p) (l2_historySize p)
       (l2_historyTable p ! unat (l2_l1Index d (l2_key d p) p)) (l2_key d p)), di_addr d \<noteq> 0)"

definition l2_record :: "dinst \<Rightarrow> bp_2level \<Rightarrow> bp_2level" where
  "l2_record d p =
    (let i = unat (l2_l1Index d (l2_key d p) p)
     in p\<lparr>l2_historyTable := (l2_historyTable p)[i :=
            hist_push (l2_historyMask p) (l2_historyTable p ! i) (l2_key d p) (di_addr d \<noteq> 0)]\<rparr>)"

fun l2_trace :: "bp_2level \<Rightarrow> dinst list \<Rightarrow> (u32 \<times> bool) list" where
  "l2_trace p [] = []"
| "l2_trace p (d # ds) = l2_use d p # l2_trace (l2_record d p) ds"

definition l2_good :: "bp_2level \<Rightarrow> bool" where
  "l2_good p \<longleftrightarrow> l2_wf p \<and> bp_addrShift p \<le> 63 \<and> bw_oracle p \<and> \<not> l2_useDolc p \<and>
     0 < unat (l2_l1Size p) \<and> l2_l1SizeMask p = word_of_int (int (unat (l2_l1Size p)) - 1) \<and>
     l2_maxCores p * unat (l2_l1Size p) \<le> 2 ^ 16"

definition l2_branch :: "dinst \<Rightarrow> bp_2level \<Rightarrow> bool" where
  "l2_branch d p \<longleftrightarrow> isBranch (di_inst d) \<and> isControl (di_inst d) = Inr True \<and> unat (di_fid d) < l2_maxCores p"

lemma l2_slot_in_range:
  assumes "l2_good p" and "l2_branch d p"
  shows "unat (l2_l1Index d k p) < l2_maxCores p * unat (l2_l1Size p)"
proof -
  let ?n = "unat (l2_l1Size p)"
  have n: "0 < ?n" "?n \<le> 2 ^ 16" using assms(1) unsigned_less [of "l2_l1Size p", where ?'a = nat] by (simp_all add: l2_good_def)
  have m: "unat (ucast (l2_l1SizeMask p) :: u64) = ?n - 1"
  proof -
    have "int ?n - 1 = int (?n - 1)" using n(1) by (simp add: of_nat_diff)
    then have "l2_l1SizeMask p = of_nat (?n - 1)" using assms(1) unfolding l2_good_def by (metis of_int_of_nat_eq)
    moreover have "?n - 1 < 2 ^ 32" using n(2) by (rule le_less_trans [OF diff_le_self le_less_trans]) simp
    ultimately show ?thesis by (simp add: unat_ucast_wide unat_of_nat)
  qed
  have "unat (k AND ucast (l2_l1SizeMask p)) < ?n" using unat_and_le_right [of k "ucast (l2_l1SizeMask p)"] m n(1) by simp
  then have a: "unat (ucast (k AND ucast (l2_l1SizeMask p)) :: u16) < ?n" using n(2) by (simp add: unat_ucast_mod)
  have f: "unat (di_fid d) < l2_maxCores p" "l2_maxCores p * ?n \<le> 2 ^ 16" using assms by (simp_all add: l2_branch_def l2_good_def)
  have "unat (di_fid d) * ?n + ?n \<le> l2_maxCores p * ?n"
    using f(1) by (metis Suc_leI add.commute mult_Suc mult_le_mono1)
  moreover have "unat (di_fid d) \<le> unat (di_fid d) * ?n" using n(1) by simp
  ultimately have lt: "unat (di_fid d) < 2 ^ 16" "unat (di_fid d) * ?n < 2 ^ 16" and le: "unat (di_fid d) * ?n + ?n \<le> l2_maxCores p * ?n"
    using f(2) n(1) by linarith+
  have b: "unat (ucast (di_fid d) * l2_l1Size p :: u16) = unat (di_fid d) * ?n"
    using lt by (simp add: unat_word_ariths unat_ucast_mod)
  have "unat (l2_l1Index d k p) = unat (ucast (k AND ucast (l2_l1SizeMask p)) :: u16) + unat (di_fid d) * ?n"
    unfolding l2_l1Index_def using a b le f(2) by (simp add: unat_word_ariths)
  with a le show ?thesis by simp
qed

text \<open>What a visit changes beside the history and the counters.\<close>

definition l2_other :: "bp_2level \<Rightarrow> btb \<Rightarrow> int \<Rightarrow> sctable \<Rightarrow> bp_2level" where
  "l2_other p b n t = p\<lparr>bw_btb := b, bp_taken_counter := n, l2_globalTable := t\<rparr>"

lemma l2_other_reads [simp]:
  "l2_key d (l2_other p b n t) = l2_key d p" "l2_use d (l2_other p b n t) = l2_use d p"
  "l2_record d (l2_other p b n t) = l2_other (l2_record d p) b n t" "l2_branch d (l2_other p b n t) = l2_branch d p"
  "l2_globalTable (l2_other p b n t) = t"
  by (simp_all add: l2_other_def l2_key_def l2_use_def l2_record_def l2_branch_def l2_l1Index_def Let_def)

lemma l2_trace_other [simp]: "l2_trace (l2_other p b n t) ds = l2_trace p ds"
  by (induction ds arbitrary: p) simp_all

lemma l2_record_reads [simp]:
  "l2_branch d (l2_record e p) = l2_branch d p" "l2_globalTable (l2_record e p) = l2_globalTable p"
  "l2_good (l2_record e p) = l2_good p"
  by (simp_all add: l2_branch_def l2_record_def l2_good_def l2_wf_def bw_oracle_def Let_def)

lemma l2_good_other: "l2_good p \<Longrightarrow> bt_data b = [] \<Longrightarrow> sctable_wf t \<Longrightarrow> l2_good (l2_other p b n t)"
  by (simp add: l2_good_def l2_other_def l2_wf_def bw_oracle_def)

lemma l2_visit_step:
  assumes "l2_good p" and "l2_branch d p"
  shows "\<exists>b. l2_visit d p =
      Inr (if sc_predict (l2_globalTable p) (fst (l2_use d p)) = snd (l2_use d p) then Outcome_Correct else Outcome_Miss,
           l2_other (l2_record d p) b (- 1) (sc_update (l2_globalTable p) (fst (l2_use d p)) (snd (l2_use d p)))) \<and> bt_data b = []"
proof -
  define s where "s = bw_fetchBoundaryBegin d p"
  define i where "i = unat (l2_l1Index d (l2_key d p) p)"
  define t where "t = (di_addr d \<noteq> 0)"
  obtain u where u: "l2_use d p = (u, t)" by (simp add: l2_use_def t_def)
  have s: "s = p\<lparr>bp_taken_counter := 0, bw_btb := bt_fetchBoundaryBegin d (bw_btb p)\<rparr>"
    by (simp add: s_def bw_fetchBoundaryBegin_def bp_fetchBoundaryBegin_def)
  have key: "bp_calcHist (bp_addrShift p) (di_pc d) = Inr (l2_key d p)"
    using assms(1) by (simp add: l2_key_def l2_good_def bp_calcHist_def Let_def)
  have i: "i < l2_maxCores p * unat (l2_l1Size p)" "i < length (l2_historyTable p)"
    using l2_slot_in_range [OF assms] assms(1) by (simp_all add: i_def l2_good_def l2_wf_def mult.commute)
  have br: "isBranch (di_inst d)" "di_isTaken d = Inr t" "\<not> l2_useDolc p"
    using assms by (simp_all add: l2_branch_def di_isTaken_def l2_good_def t_def)
  have idx: "l2_l1Index d k (p\<lparr>bp_taken_counter := n, bw_btb := b\<rparr>) = l2_l1Index d k p" for k n b
    by (simp add: l2_l1Index_def)
  define r where "r = s\<lparr>l2_historyTable := l2_historyTable (l2_record d p), l2_globalTable := sc_update (l2_globalTable p) u t\<rparr>"
  have uu: "u = ucast (hist_index (l2_historyMask p) (l2_historySize p) (l2_historyTable p ! i) (l2_key d p))"
    using u by (simp add: l2_use_def i_def)
  have pred: "l2_predict d True s = bw_finish d True t (sc_predict (l2_globalTable p) u) r"
    unfolding l2_predict_def br(2) bind_res_simps Let_def
    using i br by (cases t) (simp_all add: idx key s l2_path_def l2_nhist_def table_predict_def sc_predict_update_eq
        r_def l2_record_def Let_def uu t_def [symmetric] flip: i_def)
  have "bw_oracle r" using assms(1) by (simp add: r_def s bw_oracle_def l2_good_def bt_fetchBoundaryBegin_def)
  from bw_finish_oracle [OF this, of d True t "sc_predict (l2_globalTable p) u"] obtain r' where
    r': "bw_finish d True t (sc_predict (l2_globalTable p) u) r =
      Inr (if t = sc_predict (l2_globalTable p) u then Outcome_Correct else Outcome_Miss, r')" "bw_same r r'" "bw_oracle r'" by blast
  from r'(2) obtain b where b: "r' = r\<lparr>bw_btb := b\<rparr>" unfolding bw_same_def ..
  have bd: "bt_data b = []" using r'(3) b by (simp add: bw_oracle_def)
  have "bp_taken_counter s = 0" by (simp add: s)
  then have "l2_visit d p = Inr (if t = sc_predict (l2_globalTable p) u then Outcome_Correct else Outcome_Miss,
      bw_fetchBoundaryEnd (if t then r'\<lparr>bp_taken_counter := bp_taken_counter r' + 1\<rparr> else r'))"
    unfolding l2_visit_def s_def [symmetric] bp_doPredict_def bp_pure_def pred r'(1) by (simp add: br(2))
  moreover have "bw_fetchBoundaryEnd (if t then r'\<lparr>bp_taken_counter := bp_taken_counter r' + 1\<rparr> else r') =
      l2_other (l2_record d p) (bt_fetchBoundaryEnd b) (- 1) (sc_update (l2_globalTable p) u t)"
    by (cases t) (simp_all add: b bw_fetchBoundaryEnd_def bp_fetchBoundaryEnd_def l2_other_def r_def s l2_record_def Let_def)
  moreover have "bt_data (bt_fetchBoundaryEnd b) = []" using bd by (simp add: bt_fetchBoundaryEnd_def)
  ultimately show ?thesis unfolding u by (auto simp: eq_commute)
qed

lemma l2_run_mistakes:
  assumes "l2_good p" and "\<forall>d \<in> set ds. l2_branch d p"
  shows "\<exists>os p'. l2_run ds p = Inr (os, p') \<and> length os = length ds \<and> set os \<subseteq> {Outcome_Correct, Outcome_Miss} \<and>
    count_list os Outcome_Miss = sc_mistakes (l2_globalTable p) (l2_trace p ds)"
  using assms
proof (induction ds arbitrary: p)
  case (Cons d ds)
  then have d: "l2_branch d p" by simp
  obtain u t where u: "l2_use d p = (u, t)" by (cases "l2_use d p")
  from l2_visit_step [OF Cons.prems(1) d] obtain b where v: "l2_visit d p =
      Inr (if sc_predict (l2_globalTable p) u = t then Outcome_Correct else Outcome_Miss,
           l2_other (l2_record d p) b (- 1) (sc_update (l2_globalTable p) u t))" and b: "bt_data b = []" by (auto simp: u)
  let ?q = "l2_other (l2_record d p) b (- 1) (sc_update (l2_globalTable p) u t)"
  have "sctable_wf (sc_update (l2_globalTable p) u t)" using Cons.prems(1) by (simp add: l2_good_def l2_wf_def sctable_wf_update)
  then have "l2_good ?q" using Cons.prems(1) b by (intro l2_good_other) simp_all
  from Cons.IH [OF this] Cons.prems(2) obtain os r where "l2_run ds ?q = Inr (os, r)" "length os = length ds"
    "set os \<subseteq> {Outcome_Correct, Outcome_Miss}"
    "count_list os Outcome_Miss = sc_mistakes (sc_update (l2_globalTable p) u t) (l2_trace (l2_record d p) ds)" by auto
  then show ?case by (auto simp: v u sc_predict_update_eq)
qed simp

text \<open>
  C21. With a perfect target buffer and per-branch histories, the two-level predictor learns every sequence
  of branches whose outcome is decided by the branch and its history, in the sense that two executions
  that reach the same second-level counter go the same way: over a run of any length it
  mispredicts at most the number of counters in use times their largest value.
\<close>

theorem two_level_mistake_bound:
  assumes "l2_good p" and "\<forall>d \<in> set ds. l2_branch d p"
    and "\<forall>(i, t) \<in> set (l2_trace p ds). \<forall>(j, t') \<in> set (l2_trace p ds).
      sc_pos (l2_globalTable p) i = sc_pos (l2_globalTable p) j \<longrightarrow> t = t'"
  shows "\<exists>os p'. l2_run ds p = Inr (os, p') \<and> length os = length ds \<and> set os \<subseteq> {Outcome_Correct, Outcome_Miss} \<and>
    count_list os Outcome_Miss \<le>
      card (sc_pos (l2_globalTable p) ` fst ` set (l2_trace p ds)) * unat (sc_MaxValue (l2_globalTable p))"
proof -
  let ?xs = "l2_trace p ds" and ?t = "l2_globalTable p"
  let ?g = "\<lambda>n. \<exists>i. (i, True) \<in> set ?xs \<and> n = sc_pos ?t i"
  have same: "t = t'" if "(i, t) \<in> set ?xs" "(j, t') \<in> set ?xs" "sc_pos ?t i = sc_pos ?t j" for i j t t'
  proof -
    from bspec [OF assms(3) that(1)]
    have "\<forall>(j, t') \<in> set ?xs. sc_pos ?t i = sc_pos ?t j \<longrightarrow> t = t'" by (simp only: split_conv)
    from bspec [OF this that(2)] that(3) show ?thesis by simp
  qed
  have "b = ?g (sc_pos ?t i)" if "(i, b) \<in> set ?xs" for i b
    using that same [of i b _ True] by (cases b) auto
  then have "\<forall>(i, b) \<in> set ?xs. b = ?g (sc_pos ?t i)" by blast
  moreover have "sctable_wf ?t" using assms(1) by (simp add: l2_good_def l2_wf_def)
  ultimately have "sc_mistakes ?t ?xs \<le> card (sc_pos ?t ` fst ` set ?xs) * unat (sc_MaxValue ?t)"
    by (intro sc_mistakes_bound)
  with l2_run_mistakes [OF assms(1,2)] show ?thesis by auto
qed

text \<open>A branch that alternates is learned.\<close>

definition di_branch_at :: "addr \<Rightarrow> addr \<Rightarrow> dinst" where
  "di_branch_at pc a = (di_jump_at pc 0 a)\<lparr>di_fid := 0, di_inst := \<lparr>in_opcode = iBALU_LBRANCH, in_src1 = 0, in_src2 = 0,
     in_dst1 = 0, in_dst2 = 0\<rparr>\<rparr>"

lemma two_level_mistake_bound_witness:
  "\<exists>p os p'. l2_create 1 (undefined\<lparr>bt_data := []\<rparr>) 1 2 8 2 False 1 (\<lambda>_. 0) = Inr p \<and>
    l2_run [di_branch_at 64 200, di_branch_at 64 0, di_branch_at 64 200, di_branch_at 64 0, di_branch_at 64 200] p = Inr (os, p') \<and>
    length os = 5 \<and> set os \<subseteq> {Outcome_Correct, Outcome_Miss}"
proof -
  let ?ds = "[di_branch_at 64 200, di_branch_at 64 0, di_branch_at 64 200, di_branch_at 64 0, di_branch_at 64 200]"
  obtain t where t: "sc_create 8 2 = Inr t" "sc_sizeMask t = 7" by (simp add: sc_create_def Let_def)
  obtain c where c: "dc_create 2 5 2 2 = Inr c" by (simp add: dc_create_def Let_def)
  have wf: "sctable_wf t" by (rule sc_create_wf [OF t(1)]) simp
  define p where "p = \<lparr>bp_taken_counter = - 1, bp_addrShift = 1, bw_btb = undefined\<lparr>bt_data := []\<rparr>, l2_l1Size = 1,
    l2_l1SizeMask = 0, l2_historySize = 2, l2_historyMask = 3, l2_globalTable = t, l2_dolc = c, l2_historyTable = [0],
    l2_useDolc = False, l2_maxCores = 1\<rparr>"
  have create: "l2_create 1 (undefined\<lparr>bt_data := []\<rparr>) 1 2 8 2 False 1 (\<lambda>_. 0) = Inr p"
    by (simp add: l2_create_def hist_mask_def t c p_def)
  have good: "l2_good p" by (simp add: p_def l2_good_def l2_wf_def bw_oracle_def wf)
  have br: "\<forall>d \<in> set ?ds. l2_branch d p"
    by (simp add: l2_branch_def di_branch_at_def di_jump_at_def isBranch_def isControl_total p_def isJump_def isFuncRet_def
        doesCtrl2Label_def isFuncCall_def doesJump2Label_def)
  have trace: "l2_trace p ?ds = [(64, True), (65, False), (66, True), (65, False), (66, True)]"
    by (simp add: p_def l2_use_def l2_record_def l2_key_def l2_l1Index_def bp_calcHist_def Let_def di_branch_at_def di_jump_at_def
        hist_index_def hist_push_def hist_bit_def)
  have "sc_pos t 64 = 0" "sc_pos t 65 = 1" "sc_pos t 66 = 2" by (simp_all add: sc_pos_def t(2))
  then have "\<forall>(i, b) \<in> set (l2_trace p ?ds). \<forall>(j, b') \<in> set (l2_trace p ?ds).
      sc_pos (l2_globalTable p) i = sc_pos (l2_globalTable p) j \<longrightarrow> b = b'"
    unfolding trace by (simp add: p_def)
  from two_level_mistake_bound [OF good br this] create show ?thesis by auto
qed

section \<open>Where the code leaves the published predictors\<close>

text \<open>
  A path-based two-level predictor moves its path history in every call, also in one without update: a prediction
  that should leave no trace changes the signatures of all later ones.
\<close>

lemma l2_predict_moves_path:
  assumes "\<not> isBranch (di_inst d)" and "l2_useDolc p" and "l2_predict d False p = Inr (o', p')"
  shows "dc_hist (l2_dolc p') = di_pc d # butlast (dc_hist (l2_dolc p))"
proof -
  obtain q where "l2_path (di_pc d) p = Inr q" "bw_same q p'"
    using assms(1,3) by (auto simp: l2_predict_def bind_res_Inr_iff dest: bw_btb_predict_same)
  then show ?thesis using assms(2)
    by (auto simp: l2_path_def bind_res_Inr_iff dc_update_def bw_same_def split: if_splits)
qed

text \<open>2BcgSkew shifts its history only after right predictions: a misprediction leaves no trace in it.\<close>

lemma bs_miss_keeps_history:
  assumes "isBranch (di_inst d)" and "bs_predict d upd p = Inr (Outcome_Miss, p')" and "bw_oracle p"
  shows "bs_history p' = bs_history p"
proof -
  from assms(1,2) obtain taken iID where ti: "di_isTaken d = Inr taken" "bp_calcHist (bp_addrShift p) (di_pc d) = Inr iID"
    by (auto simp: bs_predict_def bind_res_Inr_iff)
  obtain i0 i1 im ptaken where eq: "bs_predict d upd p =
     (if ptaken \<noteq> taken then if \<not> upd then Inr (Outcome_Miss, p)
        else bind_res (bw_btb_updateOnly d (bs_learn_miss iID i0 i1 im taken p)) (\<lambda>p. Inr (Outcome_Miss, p))
      else if ptaken then bw_btb_predict d upd (if upd then bs_learn_hit iID i0 i1 im taken p else p)
      else Inr (Outcome_Correct, if upd then bs_learn_hit iID i0 i1 im taken p else p))"
    using assms(1) unfolding bs_predict_def ti bind_res_simps Let_def by simp
  have orc: "bw_oracle (if upd then bs_learn_hit iID i0 i1 im taken p else p)"
    using assms(3) by (simp add: bw_oracle_def bs_learn_hit_def Let_def)
  show ?thesis
  proof (cases "ptaken = taken")
    case True
    obtain q where "bw_btb_predict d upd (if upd then bs_learn_hit iID i0 i1 im taken p else p) = Inr (Outcome_Correct, q)"
      using bw_btb_predict_oracle [OF orc] by blast
    with eq assms(2) True show ?thesis by (cases taken) simp_all
  next
    case False
    show ?thesis
    proof (cases upd)
      case True
      with eq assms(2) False obtain q where "bw_btb_updateOnly d (bs_learn_miss iID i0 i1 im taken p) = Inr q" "p' = q"
        by (auto simp: bind_res_Inr_iff)
      then have "bw_same (bs_learn_miss iID i0 i1 im taken p) p'" by (simp add: bw_btb_updateOnly_same)
      then show ?thesis by (auto simp: bw_same_def bs_learn_miss_def Let_def)
    next
      case upd: False
      with eq assms(2) False show ?thesis by simp
    qed
  qed
qed

text \<open>
  YAGS trains a newly allocated not-taken entry at another index than the one it reads: the counter that the next
  lookup with the same history reads is not trained, unless both indices fall together.
\<close>

lemma dir_lookup_trains_elsewhere:
  assumes "dir_wf c" and "dir_lookup True x iID iID True False c = Inr (r, c')"
    and "ucast (dir_tags c ! unat (x AND dir_mask c)) \<noteq> iID AND dir_tagMask c"
    and "sc_pos (dir_ctable c) (ucast x) \<noteq> sc_pos (dir_ctable c) (ucast iID)"
  shows "sc_getValue (dir_ctable c') (ucast x) = sc_getValue (dir_ctable c) (ucast x)"
proof -
  have "dir_ctable c' = sc_update (dir_ctable c) (ucast iID) False"
    using assms(2,3) by (auto simp: dir_lookup_def Let_def nth_res_Inr_iff table_predict_def sc_predict_update_eq split: if_splits)
  moreover have "sc_shape (dir_ctable c)" using assms(1) by (simp add: dir_wf_def sctable_wf_def)
  ultimately show ?thesis using sc_update_other assms(4) by metis
qed

text \<open>
  The tags are kept in 8 bits and compared in 64: a branch whose tag needs more is never found.
\<close>

lemma dir_lookup_wide_tag:
  assumes "dir_lookup dir x miss iID False taken c = Inr (r, c')" and "2 ^ 8 \<le> unat (iID AND dir_tagMask c)"
  shows "r = dir \<and> c' = c"
proof -
  have "ucast v \<noteq> iID AND dir_tagMask c" for v :: u8
  proof
    assume "ucast v = iID AND dir_tagMask c"
    then have "unat (ucast v :: u64) \<ge> 2 ^ 8" using assms(2) by simp
    then show False using unsigned_less [of v, where ?'a = nat] by (simp add: unat_ucast_wide)
  qed
  with assms(1) show ?thesis by (auto simp: dir_lookup_def Let_def nth_res_Inr_iff)
qed

end
