(* ===== verification/Branch_Loop.thy ===== *)
theory Branch_Loop
  imports Desesc_Prelude
begin

text \<open>
  The loop predictor of \<open>simu/BPred.cpp\<close> (class \<open>LoopPredictor\<close>): a table of entries that count the
  iterations of a loop branch. The facts: a loop that has run often enough with the same number of iterations is
  recognised, and from then on every iteration is predicted exactly, the last one included.
\<close>

section \<open>State and operations\<close>

record loop_entry =
  le_tag :: u64
  le_iterCounter :: u32
  le_currCounter :: u32
  le_confidence :: int
  le_dir :: u8

record loop_predictor =
  lp_nentries :: u32
  lp_table :: "loop_entry list"

text \<open>The direction of an entry is not initialised.\<close>

definition lp_create :: "u32 \<Rightarrow> (nat \<Rightarrow> u8) \<Rightarrow> loop_predictor" where
  "lp_create n junk = \<lparr>lp_nentries = n, lp_table = map (\<lambda>i. \<lparr>le_tag = 0, le_iterCounter = 0, le_currCounter = 0,
     le_confidence = 0, le_dir = junk i\<rparr>) [0..<unat n]\<rparr>"

definition lp_entry :: "u64 \<Rightarrow> loop_predictor \<Rightarrow> (nat \<Rightarrow> loop_entry \<Rightarrow> 'a res) \<Rightarrow> 'a res" where
  "lp_entry key p f =
    (if lp_nentries p = 0 then Inl Div_by_zero
     else let i = unat (key mod ucast (lp_nentries p)) in nth_res (lp_table p) i (f i))"

definition lp_put :: "nat \<Rightarrow> loop_entry \<Rightarrow> loop_predictor \<Rightarrow> loop_predictor" where
  "lp_put i e p = p\<lparr>lp_table := (lp_table p)[i := e]\<rparr>"

text \<open>Another branch takes the entry over.\<close>

definition le_claim :: "u64 \<Rightarrow> bool \<Rightarrow> loop_entry \<Rightarrow> loop_entry" where
  "le_claim tg taken e =
    (if le_tag e \<noteq> tg
     then e\<lparr>le_tag := tg, le_confidence := 0, le_currCounter := 0, le_dir := (if taken then 1 else 0)\<rparr> else e)"

text \<open>The direction changes: the end of a run of the loop.\<close>

definition le_close :: "bool \<Rightarrow> loop_entry \<Rightarrow> loop_entry" where
  "le_close taken e =
    (let e = (if le_iterCounter e = le_currCounter e then e\<lparr>le_confidence := le_confidence e + 1\<rparr>
              else e\<lparr>le_tag := 0, le_confidence := 0\<rparr>);
         e = (if le_confidence e = 0 then e\<lparr>le_dir := (if taken then 1 else 0)\<rparr> else e)
     in e\<lparr>le_iterCounter := le_currCounter e, le_currCounter := 0\<rparr>)"

definition le_update :: "u64 \<Rightarrow> bool \<Rightarrow> loop_entry \<Rightarrow> loop_entry" where
  "le_update tg taken e =
    (let e = le_claim tg taken e;
         e = e\<lparr>le_currCounter := le_currCounter e + 1\<rparr>
     in if le_dir e \<noteq> (if taken then 1 else 0) then le_close taken e else e)"

definition lp_update :: "u64 \<Rightarrow> u64 \<Rightarrow> bool \<Rightarrow> loop_predictor \<Rightarrow> loop_predictor res" where
  "lp_update key tg taken p = lp_entry key p (\<lambda>i e. Inr (lp_put i (le_update tg taken e) p))"

text \<open>The product of the confidence (\<open>int\<close>) and the iterations (\<open>uint32_t\<close>) is one of 32 bits.\<close>

definition le_isLoop :: "u64 \<Rightarrow> loop_entry \<Rightarrow> bool" where
  "le_isLoop tg e \<longleftrightarrow> le_tag e = tg \<and> word_of_int (le_confidence e) * le_iterCounter e > 800 \<and> le_confidence e > 7"

definition lp_isLoop :: "u64 \<Rightarrow> u64 \<Rightarrow> loop_predictor \<Rightarrow> bool res" where
  "lp_isLoop key tg p = lp_entry key p (\<lambda>i e. Inr (le_isLoop tg e))"

definition le_isTaken :: "bool \<Rightarrow> loop_entry \<Rightarrow> bool \<times> loop_entry" where
  "le_isTaken taken e =
    (let d = (le_dir e \<noteq> 0);
         d = (if le_currCounter e + 1 = le_iterCounter e then \<not> (le_dir e \<noteq> 0) else d)
     in (d, if d \<noteq> taken then e\<lparr>le_confidence := le_confidence e div 2\<rparr> else e))"

definition lp_isTaken :: "u64 \<Rightarrow> u64 \<Rightarrow> bool \<Rightarrow> loop_predictor \<Rightarrow> (bool \<times> loop_predictor) res" where
  "lp_isTaken key tg taken p =
    bind_res (lp_isLoop key tg p) (\<lambda>l. assert_res l
      (lp_entry key p (\<lambda>i e. case le_isTaken taken e of (d, e) \<Rightarrow> Inr (d, lp_put i e p))))"

definition lp_getLoopIter :: "u64 \<Rightarrow> u64 \<Rightarrow> loop_predictor \<Rightarrow> u32 res" where
  "lp_getLoopIter key tg p = lp_entry key p (\<lambda>i e. Inr (if le_tag e \<noteq> tg then 0 else le_iterCounter e))"

section \<open>Learning a loop\<close>

text \<open>One run of a loop of \<open>n\<close> iterations whose branch goes \<open>b\<close> until it leaves.\<close>

definition loop_run :: "nat \<Rightarrow> bool \<Rightarrow> bool list" where
  "loop_run n b = replicate (n - 1) b @ [\<not> b]"

text \<open>The predictor is trained with some outcomes; or it is asked before each of them.\<close>

fun lp_train :: "u64 \<Rightarrow> u64 \<Rightarrow> bool list \<Rightarrow> loop_predictor \<Rightarrow> loop_predictor res" where
  "lp_train key tg [] p = Inr p"
| "lp_train key tg (t # ts) p = bind_res (lp_update key tg t p) (lp_train key tg ts)"

fun lp_play :: "u64 \<Rightarrow> u64 \<Rightarrow> bool list \<Rightarrow> loop_predictor \<Rightarrow> (bool list \<times> loop_predictor) res" where
  "lp_play key tg [] p = Inr ([], p)"
| "lp_play key tg (t # ts) p =
    bind_res (lp_isTaken key tg t p) (\<lambda>(d, p).
    bind_res (lp_update key tg t p) (\<lambda>p.
    bind_res (lp_play key tg ts p) (\<lambda>(ds, p). Inr (d # ds, p))))"

text \<open>An entry in the middle of a run: \<open>i\<close> iterations are expected, \<open>j\<close> have been seen.\<close>

definition le_at :: "u64 \<Rightarrow> u32 \<Rightarrow> nat \<Rightarrow> int \<Rightarrow> bool \<Rightarrow> loop_entry" where
  "le_at tg i j c b = \<lparr>le_tag = tg, le_iterCounter = i, le_currCounter = of_nat j, le_confidence = c,
     le_dir = (if b then 1 else 0)\<rparr>"

lemma le_at_step: "le_update tg b (le_at tg i j c b) = le_at tg i (Suc j) c b"
  by (simp add: le_update_def le_claim_def le_at_def Let_def add.commute)

abbreviation le_train :: "u64 \<Rightarrow> bool list \<Rightarrow> loop_entry \<Rightarrow> loop_entry" where
  "le_train tg ts e \<equiv> foldl (\<lambda>e t. le_update tg t e) e ts"

lemma le_at_steps: "le_train tg (replicate m b) (le_at tg i j c b) = le_at tg i (j + m) c b"
  by (induction m arbitrary: j) (simp_all add: le_at_step)

lemma le_at_close:
  assumes "i = of_nat (Suc j)" and "0 \<le> c"
  shows "le_update tg (\<not> b) (le_at tg i j c b) = le_at tg i 0 (c + 1) b"
  using assms by (simp add: le_update_def le_claim_def le_close_def le_at_def Let_def add.commute)

text \<open>A run of another length than expected only teaches its length: the entry is given up.\<close>

definition le_given_up :: "u32 \<Rightarrow> bool \<Rightarrow> loop_entry" where
  "le_given_up i d = \<lparr>le_tag = 0, le_iterCounter = i, le_currCounter = 0, le_confidence = 0, le_dir = (if d then 1 else 0)\<rparr>"

lemma le_at_break:
  assumes "i \<noteq> of_nat (Suc j)"
  shows "le_update tg (\<not> b) (le_at tg i j c b) = le_given_up (of_nat (Suc j)) (\<not> b)"
  using assms by (simp add: le_update_def le_claim_def le_close_def le_at_def le_given_up_def Let_def add.commute)

lemma le_run:
  assumes "0 < n" and "0 \<le> c"
  shows "le_train tg (loop_run n b) (le_at tg (of_nat n) 0 c b) = le_at tg (of_nat n) 0 (c + 1) b"
  using assms by (simp add: loop_run_def le_at_steps le_at_close)

lemma le_runs:
  assumes "0 < n" and "0 \<le> c"
  shows "le_train tg (concat (replicate k (loop_run n b))) (le_at tg (of_nat n) 0 c b) = le_at tg (of_nat n) 0 (c + int k) b"
  using assms(2)
proof (induction k arbitrary: c)
  case (Suc k)
  with le_run [OF assms(1) Suc.prems] show ?case by (simp add: ac_simps)
qed simp

lemma le_claimed: "le_tag e \<noteq> tg \<Longrightarrow> le_update tg b e = le_at tg (le_iterCounter e) 1 0 b"
  by (cases e) (simp add: le_update_def le_claim_def le_at_def Let_def)

lemma loop_run_Suc: "loop_run (Suc (Suc m)) b = b # replicate m b @ [\<not> b]"
  by (simp add: loop_run_def)

text \<open>The first run teaches the number of iterations, whatever the entry held before, the second starts over with it.\<close>

lemma le_first_run:
  assumes "2 \<le> n" and "le_tag e \<noteq> tg" and "le_iterCounter e \<noteq> of_nat n"
  shows "le_train tg (loop_run n b) e = le_given_up (of_nat n) (\<not> b)"
proof -
  obtain m where n: "n = Suc (Suc m)" using assms(1) by (metis One_nat_def Suc_1 Suc_le_D Suc_le_mono)
  show ?thesis
    using assms(3) by (simp add: n loop_run_Suc le_claimed [OF assms(2)] le_at_steps le_at_break)
qed

lemma le_second_run:
  assumes "2 \<le> n" and "tg \<noteq> 0"
  shows "le_train tg (loop_run n b) (le_given_up (of_nat n) d) = le_at tg (of_nat n) 0 1 b"
proof -
  obtain m where n: "n = Suc (Suc m)" using assms(1) by (metis One_nat_def Suc_1 Suc_le_D Suc_le_mono)
  have "le_tag (le_given_up (of_nat n) d) \<noteq> tg" using assms(2) by (simp add: le_given_up_def)
  then show ?thesis
    using le_at_close [of "of_nat n" "Suc m" 0 tg b]
    by (simp add: n loop_run_Suc le_claimed le_at_steps del: of_nat_Suc) (simp add: le_given_up_def)
qed

lemma le_learned:
  assumes "2 \<le> n" and "tg \<noteq> 0" and "le_tag e \<noteq> tg" and "le_iterCounter e \<noteq> of_nat n"
  shows "le_train tg (concat (replicate (Suc (Suc k)) (loop_run n b))) e = le_at tg (of_nat n) 0 (1 + int k) b"
  using le_first_run [OF assms(1,3,4)] le_second_run [OF assms(1,2), where b = b and d = "\<not> b"] le_runs [where n = n and c = 1 and tg = tg and k = k and b = b] assms(1) by simp

section \<open>The table\<close>

definition lp_slot :: "u64 \<Rightarrow> loop_predictor \<Rightarrow> nat" where
  "lp_slot key p = unat (key mod ucast (lp_nentries p))"

definition lp_wf :: "loop_predictor \<Rightarrow> bool" where
  "lp_wf p \<longleftrightarrow> lp_nentries p \<noteq> 0 \<and> length (lp_table p) = unat (lp_nentries p)"

lemma lp_create_wf: "n \<noteq> 0 \<Longrightarrow> lp_wf (lp_create n junk)"
  by (simp add: lp_wf_def lp_create_def)

lemma lp_slot_in_range:
  assumes "lp_wf p"
  shows "lp_slot key p < length (lp_table p)"
proof -
  have "unat (ucast (lp_nentries p) :: u64) = unat (lp_nentries p)" by (simp add: unat_ucast_wide)
  moreover have "0 < unat (lp_nentries p)" using assms by (simp add: lp_wf_def unat_gt_0)
  ultimately show ?thesis using assms by (simp add: lp_slot_def unat_mod lp_wf_def)
qed

lemma lp_entry_eq: "lp_wf p \<Longrightarrow> lp_entry key p f = f (lp_slot key p) (lp_table p ! lp_slot key p)"
  using lp_slot_in_range [of p key] by (simp add: lp_entry_def lp_wf_def lp_slot_def Let_def)

lemma lp_put_simps [simp]:
  "lp_wf (lp_put i e p) = lp_wf p" "lp_slot key (lp_put i e p) = lp_slot key p"
  "lp_put i e (lp_put i e' p) = lp_put i e p"
  by (simp_all add: lp_wf_def lp_put_def lp_slot_def)

lemma lp_put_same [simp]: "lp_put i (lp_table p ! i) p = p"
  by (simp add: lp_put_def)

lemma lp_table_put [simp]: "lp_wf p \<Longrightarrow> lp_table (lp_put (lp_slot key p) e p) ! lp_slot key p = e"
  using lp_slot_in_range [of p key] by (simp add: lp_put_def)

lemma lp_train_eq:
  "lp_wf p \<Longrightarrow> lp_train key tg ts p = Inr (lp_put (lp_slot key p) (le_train tg ts (lp_table p ! lp_slot key p)) p)"
  by (induction ts arbitrary: p) (simp_all add: lp_update_def lp_entry_eq)

text \<open>A learned entry predicts the next outcome of its run, and is not changed by the prediction.\<close>

lemma le_predicts:
  assumes "j < n" and "n < 2 ^ 32" and "t = (if Suc j = n then \<not> b else b)"
  shows "le_isTaken t (le_at tg (of_nat n) j c b) = (t, le_at tg (of_nat n) j c b)"
proof -
  have "((of_nat j :: u32) + 1 = of_nat n) = (Suc j = n)"
  proof
    assume "(of_nat j :: u32) + 1 = of_nat n"
    then have "unat (of_nat (Suc j) :: u32) = unat (of_nat n :: u32)" by (simp add: add.commute)
    with assms(1,2) show "Suc j = n" by (simp add: unat_of_nat del: of_nat_Suc)
  qed auto
  with assms(3) show ?thesis by (simp add: le_isTaken_def le_at_def Let_def)
qed

definition le_confident :: "nat \<Rightarrow> int \<Rightarrow> bool" where
  "le_confident n c \<longleftrightarrow> 7 < c \<and> 800 < c * int n \<and> c * int n < 2 ^ 32"

lemma le_confident_isLoop:
  assumes "le_confident n c"
  shows "le_isLoop tg (le_at tg (of_nat n) j c b)"
proof -
  have "(word_of_int c :: u32) * of_nat n = word_of_int (c * int n)" by simp
  moreover have "uint (word_of_int (c * int n) :: u32) = c * int n"
    using assms by (intro uint_word_of_int_in_range) (simp_all add: le_confident_def)
  ultimately have "uint ((word_of_int c :: u32) * of_nat n) = c * int n" by (simp only:)
  then have "(800 :: u32) < word_of_int c * of_nat n" using assms by (simp add: word_less_def le_confident_def)
  with assms show ?thesis by (simp add: le_isLoop_def le_at_def le_confident_def)
qed

lemma lp_play_step:
  assumes "lp_wf p" and "lp_table p ! lp_slot key p = le_at tg (of_nat n) j c b" and "le_confident n c" and "j < n" and "n < 2 ^ 32"
    and "t = (if Suc j = n then \<not> b else b)"
  shows "lp_play key tg (t # ts) p =
    bind_res (lp_play key tg ts (lp_put (lp_slot key p) (le_update tg t (le_at tg (of_nat n) j c b)) p))
      (\<lambda>(ds, p). Inr (t # ds, p))"
  using assms(1,2) le_confident_isLoop [OF assms(3)] le_predicts [OF assms(4-6)]
  by (simp add: lp_isTaken_def lp_isLoop_def lp_entry_eq lp_update_def)

lemma lp_play_rest:
  assumes "lp_wf p" and "lp_table p ! lp_slot key p = le_at tg (of_nat n) j c b" and "le_confident n c" and "j < n" and "n < 2 ^ 32"
  shows "\<exists>p'. lp_play key tg (replicate (n - 1 - j) b @ [\<not> b]) p = Inr (replicate (n - 1 - j) b @ [\<not> b], p')"
  using assms(1,2,4)
proof (induction "n - 1 - j" arbitrary: j p)
  case 0
  then have "n = Suc j" by simp
  with lp_play_step [OF 0(2,3) assms(3) 0(4) assms(5), of "\<not> b" "[]"] show ?case by simp
next
  case (Suc m)
  let ?p = "lp_put (lp_slot key p) (le_at tg (of_nat n) (Suc j) c b) p"
  have "\<exists>p'. lp_play key tg (replicate (n - 1 - Suc j) b @ [\<not> b]) ?p = Inr (replicate (n - 1 - Suc j) b @ [\<not> b], p')"
    by (rule Suc(1)) (use Suc(2-5) in simp_all)
  moreover have "n - 1 - j = Suc (n - 1 - Suc j)" "Suc j \<noteq> n" using Suc(2) by simp_all
  ultimately show ?case
    using lp_play_step [OF Suc(3,4) assms(3) Suc(5) assms(5), of b "replicate (n - 1 - Suc j) b @ [\<not> b]"]
    by (auto simp: le_at_step)
qed

text \<open>
  C22. A loop branch that runs with the same number of iterations is learned: after two runs that find the length and
  enough further ones for the confidence, every outcome of the next run is predicted exactly, the exit
  included. The hypothesis on the initial entry only excludes that it belongs to the branch already or by accident expects
  the right length.
\<close>

theorem loop_predicted_exactly:
  assumes "lp_wf p" and "2 \<le> n" and "n < 2 ^ 32" and "tg \<noteq> 0" and "le_confident n (1 + int k)"
    and "le_tag (lp_table p ! lp_slot key p) \<noteq> tg" and "le_iterCounter (lp_table p ! lp_slot key p) \<noteq> of_nat n"
  shows "\<exists>p1 p2. lp_train key tg (concat (replicate (Suc (Suc k)) (loop_run n b))) p = Inr p1 \<and>
    lp_isLoop key tg p1 = Inr True \<and> lp_getLoopIter key tg p1 = Inr (of_nat n) \<and>
    lp_play key tg (loop_run n b) p1 = Inr (loop_run n b, p2)"
proof -
  let ?e = "le_at tg (of_nat n) 0 (1 + int k) b"
  define p1 where "p1 = lp_put (lp_slot key p) ?e p"
  have train: "lp_train key tg (concat (replicate (Suc (Suc k)) (loop_run n b))) p = Inr p1"
    by (simp only: lp_train_eq [OF assms(1)] le_learned [OF assms(2,4,6,7)] p1_def)
  have p1: "lp_wf p1" "lp_table p1 ! lp_slot key p1 = ?e" using assms(1) by (simp_all add: p1_def)
  have "\<exists>p2. lp_play key tg (loop_run n b) p1 = Inr (loop_run n b, p2)"
    using lp_play_rest [OF p1 assms(5) _ assms(3)] assms(2) by (simp add: loop_run_def)
  then obtain p2 where "lp_play key tg (loop_run n b) p1 = Inr (loop_run n b, p2)" ..
  moreover have "lp_isLoop key tg p1 = Inr True"
    using le_confident_isLoop [OF assms(5)] by (simp add: lp_isLoop_def lp_entry_eq [OF p1(1)] p1(2))
  moreover have "lp_getLoopIter key tg p1 = Inr (of_nat n)"
    by (simp add: lp_getLoopIter_def lp_entry_eq [OF p1(1)] p1(2) le_at_def)
  ultimately show ?thesis using train by blast
qed

lemma loop_predicted_exactly_witness:
  "\<exists>p1 p2. lp_train 5 77 (concat (replicate (Suc (Suc 8)) (loop_run 100 True))) (lp_create 4 (\<lambda>_. 0)) = Inr p1 \<and>
    lp_play 5 77 (loop_run 100 True) p1 = Inr (loop_run 100 True, p2)"
proof -
  let ?p = "lp_create 4 (\<lambda>_. 0)"
  have wf: "lp_wf ?p" by (rule lp_create_wf) simp
  have e: "lp_table ?p ! lp_slot 5 ?p = \<lparr>le_tag = 0, le_iterCounter = 0, le_currCounter = 0, le_confidence = 0, le_dir = 0\<rparr>"
    using lp_slot_in_range [OF wf, of 5] by (simp add: lp_create_def)
  have conf: "le_confident 100 (1 + int 8)" by (simp add: le_confident_def)
  have "le_tag (lp_table ?p ! lp_slot 5 ?p) \<noteq> 77" "le_iterCounter (lp_table ?p ! lp_slot 5 ?p) \<noteq> of_nat 100"
    by (simp_all add: e)
  from loop_predicted_exactly [OF wf _ _ _ conf this] show ?thesis by simp blast
qed

text \<open>
  The confidence counts runs without bound and is multiplied in 32 bits: a loop of \<open>2 ^ 28\<close> iterations that has been right
  16 times is not recognised any more.
\<close>

lemma loop_confidence_wraps: "\<not> le_isLoop tg (le_at tg (2 ^ 28) j 16 b)"
  by (simp add: le_isLoop_def le_at_def)

end
