(* ===== verification/Branch_Wrapped.thy ===== *)
theory Branch_Wrapped
  imports Branch_Base
begin

text \<open>
  The predictor classes of \<open>simu/BPred.cpp\<close> that wrap a TAGE predictor: \<open>BPTahead\<close>, \<open>BPTahead1\<close>, \<open>BPIMLI\<close> and
  \<open>BPSuperbp\<close>. The engine inside (\<open>Tahead\<close>, \<open>Tahead1\<close>, \<open>IMLIBest\<close>, and \<open>PREDICTOR\<close>, which is not part of the
  repository) is a value of a parameter type, its operations are a record of functions. The code is modelled
  as it is compiled, without delayed updates. The facts: for every engine the wrappers meet the interface of the
  predictors, and at most mark the bias of an instruction.
\<close>

definition di_setBiasBranch :: "bool \<Rightarrow> dinst \<Rightarrow> dinst" where
  "di_setBiasBranch b d = di_set (fl_biasBranch_update (\<lambda>_. b)) d"

definition di_isBiasBranch :: "dinst \<Rightarrow> bool" where
  "di_isBiasBranch d = fl_biasBranch (di_flags d)"

section \<open>BPTahead and BPTahead1\<close>

text \<open>\<open>th_getPrediction\<close> returns the direction and whether it is biased; the third flag of \<open>Tahead1\<close> is ignored.\<close>

record 't tahead_ops =
  th_TrackOtherInst :: "addr \<Rightarrow> opcode \<Rightarrow> bool \<Rightarrow> addr \<Rightarrow> 't \<Rightarrow> 't res"
  th_getPrediction :: "addr \<Rightarrow> 't \<Rightarrow> ((bool \<times> bool) \<times> 't) res"
  th_updatePredictor :: "addr \<Rightarrow> opcode \<Rightarrow> bool \<Rightarrow> bool \<Rightarrow> addr \<Rightarrow> 't \<Rightarrow> 't res"

record 't bp_tahead = bp_with_btb +
  th_tahead :: 't

definition th_predict :: "'t tahead_ops \<Rightarrow> 't bp_tahead bp_step" where
  "th_predict ops d upd p =
    (if \<not> isBranch (di_inst d)
     then bind_res (di_isTaken d) (\<lambda>taken.
          bind_res (th_TrackOtherInst ops (di_pc d) (in_opcode (di_inst d)) taken (di_addr d) (th_tahead p)) (\<lambda>x.
            let d = di_setBiasBranch True d
            in bind_res (bw_btb_predict d upd (p\<lparr>th_tahead := x\<rparr>)) (\<lambda>(o', p). Inr ((o', d), p))))
     else bind_res (di_isTaken d) (\<lambda>taken.
          bind_res (th_getPrediction ops (di_pc d) (th_tahead p)) (\<lambda>((ptaken, bias), x).
            let d = di_setBiasBranch bias d
            in bind_res (if upd then th_updatePredictor ops (di_pc d) (in_opcode (di_inst d)) taken ptaken (di_addr d) x
                         else Inr x) (\<lambda>x.
               bind_res (bw_finish d upd taken ptaken (p\<lparr>th_tahead := x\<rparr>)) (\<lambda>(o', p). Inr ((o', d), p))))))"

text \<open>\<open>Tahead1\<close> also reports a low confidence, which is used only with \<open>LOWCONF\<close> (not defined).\<close>

record 't tahead1_ops =
  th1_TrackOtherInst :: "addr \<Rightarrow> opcode \<Rightarrow> bool \<Rightarrow> addr \<Rightarrow> 't \<Rightarrow> 't res"
  th1_getPrediction :: "addr \<Rightarrow> 't \<Rightarrow> ((bool \<times> bool \<times> bool) \<times> 't) res"
  th1_updatePredictor :: "addr \<Rightarrow> opcode \<Rightarrow> bool \<Rightarrow> bool \<Rightarrow> addr \<Rightarrow> 't \<Rightarrow> 't res"

definition th1_predict :: "'t tahead1_ops \<Rightarrow> 't bp_tahead bp_step" where
  "th1_predict ops d upd p =
    (if \<not> isBranch (di_inst d)
     then bind_res (di_isTaken d) (\<lambda>taken.
          bind_res (th1_TrackOtherInst ops (di_pc d) (in_opcode (di_inst d)) taken (di_addr d) (th_tahead p)) (\<lambda>x.
            let d = di_setBiasBranch True d
            in bind_res (bw_btb_predict d upd (p\<lparr>th_tahead := x\<rparr>)) (\<lambda>(o', p). Inr ((o', d), p))))
     else bind_res (di_isTaken d) (\<lambda>taken.
          bind_res (th1_getPrediction ops (di_pc d) (th_tahead p)) (\<lambda>((ptaken, bias, lowconf), x).
            let d = di_setBiasBranch bias d
            in bind_res (if upd then th1_updatePredictor ops (di_pc d) (in_opcode (di_inst d)) taken ptaken (di_addr d) x
                         else Inr x) (\<lambda>x.
               bind_res (bw_finish d upd taken ptaken (p\<lparr>th_tahead := x\<rparr>)) (\<lambda>(o', p). Inr ((o', d), p))))))"

section \<open>BPIMLI\<close>

record 'i imli_ops =
  im_fetchBoundaryBegin :: "addr \<Rightarrow> u64 \<Rightarrow> 'i \<Rightarrow> 'i res"
  im_fetchBoundaryEnd :: "'i \<Rightarrow> 'i res"
  im_TrackOtherInst :: "addr \<Rightarrow> opcode \<Rightarrow> addr \<Rightarrow> 'i \<Rightarrow> 'i res"
  im_getPrediction :: "addr \<Rightarrow> u64 \<Rightarrow> bool \<Rightarrow> bool \<Rightarrow> int \<Rightarrow> 'i \<Rightarrow> ((bool \<times> bool) \<times> 'i) res"
  im_deferPredictorUpdate :: "addr \<Rightarrow> u64 \<Rightarrow> bool \<Rightarrow> bool \<Rightarrow> addr \<Rightarrow> bool \<Rightarrow> bool \<Rightarrow> bool \<Rightarrow> int \<Rightarrow> 'i \<Rightarrow> 'i res"

record 'i bp_imli = bp_with_btb +
  im_imli :: 'i
  im_boundaryPC :: addr
  im_FetchPredict :: bool
  im_btb_fetch_predict :: bool
  im_use_tag_offset :: bool
  im_use_tag_hybrid :: bool

definition im_lift :: "('i \<Rightarrow> 'i res) \<Rightarrow> 'i bp_imli \<Rightarrow> 'i bp_imli res" where
  "im_lift f p = bind_res (f (im_imli p)) (\<lambda>x. Inr (p\<lparr>im_imli := x\<rparr>))"

definition im_open :: "'i imli_ops \<Rightarrow> dinst \<Rightarrow> 'i bp_imli \<Rightarrow> 'i bp_imli res" where
  "im_open ops d p = im_lift (im_fetchBoundaryBegin ops (di_pc d) (di_ID d)) (p\<lparr>im_boundaryPC := di_pc d\<rparr>)"

definition imli_fetchBoundaryBegin :: "'i imli_ops \<Rightarrow> dinst \<Rightarrow> 'i bp_imli \<Rightarrow> 'i bp_imli res" where
  "imli_fetchBoundaryBegin ops d p =
    bind_res (if im_FetchPredict p then im_open ops d p else Inr p) (\<lambda>p.
      let p = (if im_btb_fetch_predict p then p\<lparr>bw_btb := bt_fetchBoundaryBegin d (bw_btb p)\<rparr> else p)
      in Inr (p\<lparr>bp_taken_counter := 0\<rparr>))"

definition imli_fetchBoundaryEnd :: "'i imli_ops \<Rightarrow> 'i bp_imli \<Rightarrow> 'i bp_imli res" where
  "imli_fetchBoundaryEnd ops p =
    bind_res (if im_FetchPredict p then im_lift (im_fetchBoundaryEnd ops) p else Inr p) (\<lambda>p.
      let p = (if im_btb_fetch_predict p then p\<lparr>bw_btb := bt_fetchBoundaryEnd (bw_btb p)\<rparr> else p)
      in Inr (p\<lparr>bp_taken_counter := - 1\<rparr>))"

text \<open>The direction of a branch, with the training of the engine.\<close>

definition imli_direction :: "'i imli_ops \<Rightarrow> dinst \<Rightarrow> bool \<Rightarrow> bool \<Rightarrow> 'i bp_imli \<Rightarrow> ((bool \<times> dinst) \<times> 'i bp_imli) res" where
  "imli_direction ops d upd taken p =
    bind_res (im_getPrediction ops (di_pc d) (di_ID d) (im_use_tag_offset p) (im_use_tag_hybrid p) (bp_taken_counter p)
        (im_imli p)) (\<lambda>((ptaken, bias), x).
      let d = di_setBiasBranch bias d;
          p = p\<lparr>im_imli := x\<rparr>;
          no_alloc = (\<not> fl_use_level3 (di_flags d))
      in bind_res (if upd then im_lift (im_deferPredictorUpdate ops (di_pc d) (di_ID d) taken ptaken (di_addr d) no_alloc
                                  (im_use_tag_offset p) (im_use_tag_hybrid p) (bp_taken_counter p)) p
                   else Inr p) (\<lambda>p.
         bind_res (if \<not> im_FetchPredict p \<and> \<not> di_isTransient d then im_lift (im_fetchBoundaryEnd ops) p else Inr p) (\<lambda>p.
           Inr ((ptaken, d), p))))"

definition imli_predict :: "'i imli_ops \<Rightarrow> 'i bp_imli bp_step" where
  "imli_predict ops d upd p =
    bind_res (if \<not> im_FetchPredict p then im_open ops d p else Inr p) (\<lambda>p.
    let p = (if \<not> im_btb_fetch_predict p then p\<lparr>bw_btb := bt_fetchBoundaryBegin d (bw_btb p)\<rparr> else p)
    in assert_res (0 \<le> bp_taken_counter p \<and> bp_taken_counter p < 1024)
      (if \<not> isBranch (di_inst d)
       then bind_res (im_lift (im_TrackOtherInst ops (di_pc d) (in_opcode (di_inst d)) (di_addr d)) p) (\<lambda>p.
            let d = di_setBiasBranch True d
            in bind_res (if \<not> im_FetchPredict p then im_lift (im_fetchBoundaryEnd ops) p else Inr p) (\<lambda>p.
               bind_res (bw_btb_predict d upd p) (\<lambda>(o', p). Inr ((o', d), p))))
       else bind_res (di_isTaken d) (\<lambda>taken.
            bind_res (imli_direction ops d upd taken p) (\<lambda>((ptaken, d), p).
            bind_res (if taken \<noteq> ptaken
                      then bind_res (if upd \<and> \<not> di_isTransient d then bw_btb_updateOnly d p else Inr p) (\<lambda>p.
                             Inr (Outcome_Miss, p))
                      else if ptaken then bw_btb_predict d upd p
                      else Inr (Outcome_Correct, p)) (\<lambda>(o', p).
              Inr ((o', d), if \<not> im_btb_fetch_predict p then p\<lparr>bw_btb := bt_fetchBoundaryEnd (bw_btb p)\<rparr> else p))))))"

section \<open>BPSuperbp\<close>

text \<open>\<open>sb_handle_insn\<close> returns the prediction and the confidence of its main table, and whether its first table answered.\<close>

record 's superbp_ops =
  su_fetchBoundaryBegin :: "addr \<Rightarrow> 's \<Rightarrow> 's res"
  su_fetchBoundaryEnd :: "'s \<Rightarrow> 's res"
  su_handle_insn :: "addr \<Rightarrow> addr \<Rightarrow> nat \<Rightarrow> bool \<Rightarrow> 's \<Rightarrow> ((bool \<times> bool \<times> bool) \<times> 's) res"

record 's bp_superbp = bp_with_btb +
  su_superbp :: 's
  su_FetchPredict :: bool
  su_btb_fetch_predict :: bool
  su_last_taken_type :: nat

definition su_lift :: "('s \<Rightarrow> 's res) \<Rightarrow> 's bp_superbp \<Rightarrow> 's bp_superbp res" where
  "su_lift f p = bind_res (f (su_superbp p)) (\<lambda>x. Inr (p\<lparr>su_superbp := x\<rparr>))"

definition superbp_fetchBoundaryBegin :: "'s superbp_ops \<Rightarrow> dinst \<Rightarrow> 's bp_superbp \<Rightarrow> 's bp_superbp res" where
  "superbp_fetchBoundaryBegin ops d p =
    bind_res (if su_FetchPredict p then su_lift (su_fetchBoundaryBegin ops (di_pc d)) (bp_fetchBoundaryBegin p)
              else Inr (bp_fetchBoundaryBegin p)) (\<lambda>p.
      Inr (if su_btb_fetch_predict p then p\<lparr>bw_btb := bt_fetchBoundaryBegin d (bw_btb p)\<rparr> else p))"

definition superbp_fetchBoundaryEnd :: "'s superbp_ops \<Rightarrow> 's bp_superbp \<Rightarrow> 's bp_superbp res" where
  "superbp_fetchBoundaryEnd ops p =
    bind_res (if su_FetchPredict p then su_lift (su_fetchBoundaryEnd ops) p else Inr p) (\<lambda>p.
      Inr (bp_fetchBoundaryEnd (if su_btb_fetch_predict p then p\<lparr>bw_btb := bt_fetchBoundaryEnd (bw_btb p)\<rparr> else p)))"

definition su_insn_type :: "instruction \<Rightarrow> nat" where
  "su_insn_type i = (if isFuncRet i then 4 else if isFuncCall i then 3 else if isBranch i then 2 else if isJump i then 1 else 0)"

definition superbp_predict :: "'s superbp_ops \<Rightarrow> 's bp_superbp bp_step" where
  "superbp_predict ops d upd p =
    (if \<not> isBranch (di_inst d)
     then let d = di_setBiasBranch True d
          in bind_res (bw_btb_predict d upd p) (\<lambda>(o', p). Inr ((o', d), p))
     else bind_res (di_isTaken d) (\<lambda>taken.
      bind_res (if \<not> su_FetchPredict p then su_lift (su_fetchBoundaryBegin ops (di_pc d)) p else Inr p) (\<lambda>p.
      let p = (if \<not> su_btb_fetch_predict p then p\<lparr>bw_btb := bt_fetchBoundaryBegin d (bw_btb p)\<rparr> else p)
      in bind_res (su_handle_insn ops (di_pc d) (di_addr d) (su_insn_type (di_inst d)) taken (su_superbp p))
          (\<lambda>((batage_pred, batage_conf, gshare_use), x).
        let ptaken = (gshare_use \<or> batage_pred);
            p = p\<lparr>su_superbp := x,
                  su_last_taken_type := (if \<not> gshare_use \<and> taken then su_insn_type (di_inst d) else su_last_taken_type p)\<rparr>;
            d = di_setBiasBranch (batage_conf \<and> \<not> gshare_use) d
        in bind_res (if \<not> su_FetchPredict p then su_lift (su_fetchBoundaryEnd ops) p else Inr p) (\<lambda>p.
           let p = (if \<not> su_btb_fetch_predict p then p\<lparr>bw_btb := bt_fetchBoundaryBegin d (bw_btb p)\<rparr> else p)
           in bind_res (bw_finish d upd taken ptaken p) (\<lambda>(o', p). Inr ((o', d), p)))))))"

section \<open>The wrappers meet the interface\<close>

lemma di_setBiasBranch_simps [simp]:
  "di_addr (di_setBiasBranch b d) = di_addr d" "di_inst (di_setBiasBranch b d) = di_inst d"
  "di_pc (di_setBiasBranch b d) = di_pc d" "di_ID (di_setBiasBranch b d) = di_ID d"
  "di_isTransient (di_setBiasBranch b d) = di_isTransient d" "di_isBiasBranch (di_setBiasBranch b d) = b"
  by (simp_all add: di_setBiasBranch_def di_set_def di_isTransient_def di_isBiasBranch_def)

lemma bw_btb_predict_counter: "bw_btb_predict d upd p = Inr (o', p') \<Longrightarrow> bp_taken_counter p' = bp_taken_counter p"
  by (drule bw_btb_predict_same) (rule bw_same_selD)

lemma bw_finish_counter: "bw_finish d upd taken ptaken p = Inr (o', p') \<Longrightarrow> bp_taken_counter p' = bp_taken_counter p"
  by (drule bw_finish_same) (rule bw_same_selD)

lemma bw_btb_updateOnly_counter: "bw_btb_updateOnly d p = Inr p' \<Longrightarrow> bp_taken_counter p' = bp_taken_counter p"
  by (drule bw_btb_updateOnly_same) (rule bw_same_selD)

lemmas bw_counters = bw_btb_predict_counter bw_finish_counter bw_btb_updateOnly_counter

lemma th_predict_keeps:
  assumes "th_predict ops d upd p = Inr ((o', d'), p')"
  shows "bp_taken_counter p' = bp_taken_counter p \<and> di_addr d' = di_addr d \<and> di_inst d' = di_inst d"
  using assms by (auto simp: th_predict_def bind_res_Inr_iff Let_def split: if_splits dest!: bw_counters)

lemma th1_predict_keeps:
  assumes "th1_predict ops d upd p = Inr ((o', d'), p')"
  shows "bp_taken_counter p' = bp_taken_counter p \<and> di_addr d' = di_addr d \<and> di_inst d' = di_inst d"
  using assms by (auto simp: th1_predict_def bind_res_Inr_iff Let_def split: if_splits dest!: bw_counters)

interpretation tahead: block_predictor "th_predict ops" "\<lambda>d p. Inr (bw_fetchBoundaryBegin d p)"
    "\<lambda>p. Inr (bw_fetchBoundaryEnd p)" "\<lambda>_. True" for ops
  by unfold_locales (auto simp: bw_fetchBoundaryBegin_def bp_fetchBoundaryBegin_def dest: th_predict_keeps)

interpretation tahead1: block_predictor "th1_predict ops" "\<lambda>d p. Inr (bw_fetchBoundaryBegin d p)"
    "\<lambda>p. Inr (bw_fetchBoundaryEnd p)" "\<lambda>_. True" for ops
  by unfold_locales (auto simp: bw_fetchBoundaryBegin_def bp_fetchBoundaryBegin_def dest: th1_predict_keeps)

lemma im_lift_keeps: "im_lift f p = Inr p' \<Longrightarrow> bp_taken_counter p' = bp_taken_counter p \<and> bw_btb p' = bw_btb p \<and>
    im_btb_fetch_predict p' = im_btb_fetch_predict p"
  by (auto simp: im_lift_def bind_res_Inr_iff)

lemma im_open_keeps: "im_open ops d p = Inr p' \<Longrightarrow> bp_taken_counter p' = bp_taken_counter p \<and> bw_btb p' = bw_btb p \<and>
    im_btb_fetch_predict p' = im_btb_fetch_predict p"
  by (auto simp: im_open_def dest!: im_lift_keeps)

lemma imli_direction_keeps:
  assumes "imli_direction ops d upd taken p = Inr ((t, d'), p')"
  shows "bp_taken_counter p' = bp_taken_counter p \<and> bw_btb p' = bw_btb p \<and> im_btb_fetch_predict p' = im_btb_fetch_predict p \<and>
    di_addr d' = di_addr d \<and> di_inst d' = di_inst d \<and> di_isTransient d' = di_isTransient d"
proof -
  obtain bias x f q1 where d': "d' = di_setBiasBranch bias d"
    and q1: "(if upd then im_lift f (p\<lparr>im_imli := x\<rparr>) else Inr (p\<lparr>im_imli := x\<rparr>)) = Inr q1"
    and q2: "(if \<not> im_FetchPredict q1 \<and> \<not> di_isTransient d' then im_lift (im_fetchBoundaryEnd ops) q1 else Inr q1) = Inr p'"
    using assms by (auto simp: imli_direction_def bind_res_Inr_iff Let_def)
  have "bp_taken_counter q1 = bp_taken_counter p \<and> bw_btb q1 = bw_btb p \<and> im_btb_fetch_predict q1 = im_btb_fetch_predict p"
    using q1 by (auto split: if_splits dest!: im_lift_keeps)
  moreover have "bp_taken_counter p' = bp_taken_counter q1 \<and> bw_btb p' = bw_btb q1 \<and> im_btb_fetch_predict p' = im_btb_fetch_predict q1"
    using q2 by (auto split: if_splits dest!: im_lift_keeps)
  ultimately show ?thesis by (simp add: d')
qed

lemma imli_predict_keeps:
  assumes "imli_predict ops d upd p = Inr ((o', d'), p')"
  shows "bp_taken_counter p' = bp_taken_counter p \<and> di_addr d' = di_addr d \<and> di_inst d' = di_inst d"
proof -
  obtain q where q: "(if \<not> im_FetchPredict p then im_open ops d p else Inr p) = Inr q"
    using assms by (auto simp: imli_predict_def bind_res_Inr_iff)
  define s where "s = (if \<not> im_btb_fetch_predict q then q\<lparr>bw_btb := bt_fetchBoundaryBegin d (bw_btb q)\<rparr> else q)"
  have "bp_taken_counter q = bp_taken_counter p" using q by (auto split: if_splits dest: im_open_keeps)
  then have s: "bp_taken_counter s = bp_taken_counter p" by (simp add: s_def)
  show ?thesis
  proof (cases "isBranch (di_inst d)")
    case False
    with assms obtain r t where
      "im_lift (im_TrackOtherInst ops (di_pc d) (in_opcode (di_inst d)) (di_addr d)) s = Inr r" "d' = di_setBiasBranch True d"
      "(if \<not> im_FetchPredict r then im_lift (im_fetchBoundaryEnd ops) r else Inr r) = Inr t"
      "bw_btb_predict (di_setBiasBranch True d) upd t = Inr (o', p')"
      unfolding imli_predict_def q bind_res_simps Let_def s_def [symmetric]
      by (auto simp: bind_res_Inr_iff assert_res_Inr_iff)
    with s show ?thesis by (auto split: if_splits dest!: im_lift_keeps bw_btb_predict_counter)
  next
    case True
    with assms obtain taken ptaken r t where
      "imli_direction ops d upd taken s = Inr ((ptaken, d'), r)"
      and t: "(if taken \<noteq> ptaken then bind_res (if upd \<and> \<not> di_isTransient d' then bw_btb_updateOnly d' r else Inr r)
           (\<lambda>p. Inr (Outcome_Miss, p))
         else if ptaken then bw_btb_predict d' upd r else Inr (Outcome_Correct, r)) = Inr (o', t)"
      and p': "p' = (if \<not> im_btb_fetch_predict t then t\<lparr>bw_btb := bt_fetchBoundaryEnd (bw_btb t)\<rparr> else t)"
      unfolding imli_predict_def q bind_res_simps Let_def s_def [symmetric]
      by (auto simp: bind_res_Inr_iff assert_res_Inr_iff)
    moreover have "bp_taken_counter t = bp_taken_counter r"
      using t by (auto simp: bind_res_Inr_iff split: if_splits dest!: bw_counters)
    ultimately show ?thesis using s by (auto dest!: imli_direction_keeps)
  qed
qed

interpretation imli: block_predictor "imli_predict ops" "imli_fetchBoundaryBegin ops" "imli_fetchBoundaryEnd ops" "\<lambda>_. True" for ops
  by unfold_locales (auto simp: imli_fetchBoundaryBegin_def bind_res_Inr_iff Let_def dest: imli_predict_keeps)

lemma su_lift_keeps: "su_lift f p = Inr p' \<Longrightarrow> bp_taken_counter p' = bp_taken_counter p \<and> bw_btb p' = bw_btb p"
  by (auto simp: su_lift_def bind_res_Inr_iff)

lemma superbp_predict_keeps:
  assumes "superbp_predict ops d upd p = Inr ((o', d'), p')"
  shows "bp_taken_counter p' = bp_taken_counter p \<and> di_addr d' = di_addr d \<and> di_inst d' = di_inst d"
proof (cases "isBranch (di_inst d)")
  case False
  with assms show ?thesis
    by (auto simp: superbp_predict_def bind_res_Inr_iff Let_def dest!: bw_btb_predict_counter)
next
  case True
  from assms True obtain q where q: "(if \<not> su_FetchPredict p then su_lift (su_fetchBoundaryBegin ops (di_pc d)) p else Inr p) = Inr q"
    by (auto simp: superbp_predict_def bind_res_Inr_iff)
  define s where "s = (if \<not> su_btb_fetch_predict q then q\<lparr>bw_btb := bt_fetchBoundaryBegin d (bw_btb q)\<rparr> else q)"
  have "bp_taken_counter q = bp_taken_counter p" using q by (auto split: if_splits dest: su_lift_keeps)
  then have s: "bp_taken_counter s = bp_taken_counter p" by (simp add: s_def)
  from assms True obtain taken ptaken conf x n r where d': "d' = di_setBiasBranch conf d"
    and r: "(if \<not> su_FetchPredict s then su_lift (su_fetchBoundaryEnd ops) (s\<lparr>su_superbp := x, su_last_taken_type := n\<rparr>)
      else Inr (s\<lparr>su_superbp := x, su_last_taken_type := n\<rparr>)) = Inr r"
    and fin: "bw_finish d' upd taken ptaken (if \<not> su_btb_fetch_predict r
      then r\<lparr>bw_btb := bt_fetchBoundaryBegin d' (bw_btb r)\<rparr> else r) = Inr (o', p')"
    unfolding superbp_predict_def q bind_res_simps Let_def s_def [symmetric]
    by (auto simp: bind_res_Inr_iff)
  have "bp_taken_counter r = bp_taken_counter s" using r by (auto split: if_splits dest!: su_lift_keeps)
  with s bw_finish_counter [OF fin] d' show ?thesis by (simp split: if_splits)
qed

interpretation superbp: block_predictor "superbp_predict ops" "superbp_fetchBoundaryBegin ops" "superbp_fetchBoundaryEnd ops"
    "\<lambda>_. True" for ops
  by unfold_locales (auto simp: superbp_fetchBoundaryBegin_def bp_fetchBoundaryBegin_def bind_res_Inr_iff
      split: if_splits dest!: superbp_predict_keeps su_lift_keeps)

end
