(* ===== verification/Branch_Predictor.thy ===== *)
theory Branch_Predictor
  imports Branch_Ras Branch_Global Branch_Wrapped
begin

text \<open>
  The branch prediction unit of a processor (\<open>simu/BPred.cpp\<close>, class \<open>BPredictor\<close>): a return address stack and up to
  three levels of predictors, each slower than the one before. \<open>predict\<close> asks them all and returns the number of
  cycles that the fetch engine loses, and whether the loss can be repaired before the branch is
  executed. The levels are shared by the threads of a processor, the stack is not. The
  facts: the delay as a function of the outcomes, what it can be, and that a perfect front end never
  waits for the execution of a branch.
\<close>

section \<open>The kinds of predictors\<close>

text \<open>The types of \<open>getBPred\<close>; the type parameters are the engines of the wrapped predictors.\<close>

datatype ('i, 't, 'u, 's) any_bpred =
    Bp_oracle bp_with_btb
  | Bp_miss bpred
  | Bp_not_taken bp_with_btb
  | Bp_not_taken_enhanced bp_with_btb
  | Bp_taken bp_with_btb
  | Bp_2bit bp_2bit
  | Bp_2bitl0 bp_2bitL0
  | Bp_2level bp_2level
  | Bp_2bcgskew bp_bcgskew
  | Bp_hybrid bp_hybrid
  | Bp_yags bp_yags
  | Bp_imli "'i bp_imli"
  | Bp_tahead "'t bp_tahead"
  | Bp_tahead1 "'u bp_tahead"
  | Bp_superbp "'s bp_superbp"
  | Bp_tdata bp_tdata
  | Bp_ldbp bp_ldbp

record ('i, 't, 'u, 's) bp_engines =
  en_imli :: "'i imli_ops"
  en_tahead :: "'t tahead_ops"
  en_tahead1 :: "'u tahead1_ops"
  en_superbp :: "'s superbp_ops"

fun any_doPredict :: "('i, 't, 'u, 's) bp_engines \<Rightarrow> dinst \<Rightarrow> ('i, 't, 'u, 's) any_bpred \<Rightarrow>
    ((outcome \<times> dinst) \<times> ('i, 't, 'u, 's) any_bpred) res" where
  "any_doPredict e d (Bp_oracle p) = bind_res (bp_doPredict (bp_pure oracle_predict) d p) (with_bp Bp_oracle)"
| "any_doPredict e d (Bp_miss p) = bind_res (bp_doPredict (bp_pure miss_predict) d p) (with_bp Bp_miss)"
| "any_doPredict e d (Bp_not_taken p) = bind_res (bp_doPredict (bp_pure not_taken_predict) d p) (with_bp Bp_not_taken)"
| "any_doPredict e d (Bp_not_taken_enhanced p) =
    bind_res (bp_doPredict (bp_pure not_taken_enhanced_predict) d p) (with_bp Bp_not_taken_enhanced)"
| "any_doPredict e d (Bp_taken p) = bind_res (bp_doPredict (bp_pure taken_predict) d p) (with_bp Bp_taken)"
| "any_doPredict e d (Bp_2bit p) = bind_res (bp_doPredict (bp_pure p2_predict) d p) (with_bp Bp_2bit)"
| "any_doPredict e d (Bp_2bitl0 p) = bind_res (bp_doPredict (bp_pure p0_predict) d p) (with_bp Bp_2bitl0)"
| "any_doPredict e d (Bp_2level p) = bind_res (bp_doPredict (bp_pure l2_predict) d p) (with_bp Bp_2level)"
| "any_doPredict e d (Bp_2bcgskew p) = bind_res (bp_doPredict (bp_pure bs_predict) d p) (with_bp Bp_2bcgskew)"
| "any_doPredict e d (Bp_hybrid p) = bind_res (bp_doPredict (bp_pure hy_predict) d p) (with_bp Bp_hybrid)"
| "any_doPredict e d (Bp_yags p) = bind_res (bp_doPredict (bp_pure ya_predict) d p) (with_bp Bp_yags)"
| "any_doPredict e d (Bp_imli p) = bind_res (bp_doPredict (imli_predict (en_imli e)) d p) (with_bp Bp_imli)"
| "any_doPredict e d (Bp_tahead p) = bind_res (bp_doPredict (th_predict (en_tahead e)) d p) (with_bp Bp_tahead)"
| "any_doPredict e d (Bp_tahead1 p) = bind_res (bp_doPredict (th1_predict (en_tahead1 e)) d p) (with_bp Bp_tahead1)"
| "any_doPredict e d (Bp_superbp p) = bind_res (bp_doPredict (superbp_predict (en_superbp e)) d p) (with_bp Bp_superbp)"
| "any_doPredict e d (Bp_tdata p) = bind_res (bp_doPredict (bp_pure td_predict) d p) (with_bp Bp_tdata)"
| "any_doPredict e d (Bp_ldbp p) = bind_res (bp_doPredict (bp_pure ld_predict) d p) (with_bp Bp_ldbp)"

text \<open>\<open>BPMiss\<close> has the boundaries of the base class.\<close>

fun any_fetchBoundaryBegin :: "('i, 't, 'u, 's) bp_engines \<Rightarrow> dinst \<Rightarrow> ('i, 't, 'u, 's) any_bpred \<Rightarrow>
    ('i, 't, 'u, 's) any_bpred res" where
  "any_fetchBoundaryBegin e d (Bp_oracle p) = Inr (Bp_oracle (bw_fetchBoundaryBegin d p))"
| "any_fetchBoundaryBegin e d (Bp_miss p) = Inr (Bp_miss (bp_fetchBoundaryBegin p))"
| "any_fetchBoundaryBegin e d (Bp_not_taken p) = Inr (Bp_not_taken (bw_fetchBoundaryBegin d p))"
| "any_fetchBoundaryBegin e d (Bp_not_taken_enhanced p) = Inr (Bp_not_taken_enhanced (bw_fetchBoundaryBegin d p))"
| "any_fetchBoundaryBegin e d (Bp_taken p) = Inr (Bp_taken (bw_fetchBoundaryBegin d p))"
| "any_fetchBoundaryBegin e d (Bp_2bit p) = Inr (Bp_2bit (p2_fetchBoundaryBegin d p))"
| "any_fetchBoundaryBegin e d (Bp_2bitl0 p) = Inr (Bp_2bitl0 (p0_fetchBoundaryBegin d p))"
| "any_fetchBoundaryBegin e d (Bp_2level p) = Inr (Bp_2level (bw_fetchBoundaryBegin d p))"
| "any_fetchBoundaryBegin e d (Bp_2bcgskew p) = Inr (Bp_2bcgskew (bw_fetchBoundaryBegin d p))"
| "any_fetchBoundaryBegin e d (Bp_hybrid p) = Inr (Bp_hybrid (bw_fetchBoundaryBegin d p))"
| "any_fetchBoundaryBegin e d (Bp_yags p) = Inr (Bp_yags (bw_fetchBoundaryBegin d p))"
| "any_fetchBoundaryBegin e d (Bp_imli p) = bind_res (imli_fetchBoundaryBegin (en_imli e) d p) (Inr \<circ> Bp_imli)"
| "any_fetchBoundaryBegin e d (Bp_tahead p) = Inr (Bp_tahead (bw_fetchBoundaryBegin d p))"
| "any_fetchBoundaryBegin e d (Bp_tahead1 p) = Inr (Bp_tahead1 (bw_fetchBoundaryBegin d p))"
| "any_fetchBoundaryBegin e d (Bp_superbp p) = bind_res (superbp_fetchBoundaryBegin (en_superbp e) d p) (Inr \<circ> Bp_superbp)"
| "any_fetchBoundaryBegin e d (Bp_tdata p) = Inr (Bp_tdata (bw_fetchBoundaryBegin d p))"
| "any_fetchBoundaryBegin e d (Bp_ldbp p) = Inr (Bp_ldbp (bw_fetchBoundaryBegin d p))"

fun any_fetchBoundaryEnd :: "('i, 't, 'u, 's) bp_engines \<Rightarrow> ('i, 't, 'u, 's) any_bpred \<Rightarrow> ('i, 't, 'u, 's) any_bpred res" where
  "any_fetchBoundaryEnd e (Bp_oracle p) = Inr (Bp_oracle (bw_fetchBoundaryEnd p))"
| "any_fetchBoundaryEnd e (Bp_miss p) = Inr (Bp_miss (bp_fetchBoundaryEnd p))"
| "any_fetchBoundaryEnd e (Bp_not_taken p) = Inr (Bp_not_taken (bw_fetchBoundaryEnd p))"
| "any_fetchBoundaryEnd e (Bp_not_taken_enhanced p) = Inr (Bp_not_taken_enhanced (bw_fetchBoundaryEnd p))"
| "any_fetchBoundaryEnd e (Bp_taken p) = Inr (Bp_taken (bw_fetchBoundaryEnd p))"
| "any_fetchBoundaryEnd e (Bp_2bit p) = Inr (Bp_2bit (p2_fetchBoundaryEnd p))"
| "any_fetchBoundaryEnd e (Bp_2bitl0 p) = Inr (Bp_2bitl0 (p0_fetchBoundaryEnd p))"
| "any_fetchBoundaryEnd e (Bp_2level p) = Inr (Bp_2level (bw_fetchBoundaryEnd p))"
| "any_fetchBoundaryEnd e (Bp_2bcgskew p) = Inr (Bp_2bcgskew (bw_fetchBoundaryEnd p))"
| "any_fetchBoundaryEnd e (Bp_hybrid p) = Inr (Bp_hybrid (bw_fetchBoundaryEnd p))"
| "any_fetchBoundaryEnd e (Bp_yags p) = Inr (Bp_yags (bw_fetchBoundaryEnd p))"
| "any_fetchBoundaryEnd e (Bp_imli p) = bind_res (imli_fetchBoundaryEnd (en_imli e) p) (Inr \<circ> Bp_imli)"
| "any_fetchBoundaryEnd e (Bp_tahead p) = Inr (Bp_tahead (bw_fetchBoundaryEnd p))"
| "any_fetchBoundaryEnd e (Bp_tahead1 p) = Inr (Bp_tahead1 (bw_fetchBoundaryEnd p))"
| "any_fetchBoundaryEnd e (Bp_superbp p) = bind_res (superbp_fetchBoundaryEnd (en_superbp e) p) (Inr \<circ> Bp_superbp)"
| "any_fetchBoundaryEnd e (Bp_tdata p) = Inr (Bp_tdata (bw_fetchBoundaryEnd p))"
| "any_fetchBoundaryEnd e (Bp_ldbp p) = Inr (Bp_ldbp (bw_fetchBoundaryEnd p))"

section \<open>The unit\<close>

text \<open>The levels, shared between the threads; a missing level is a null pointer.\<close>

record ('i, 't, 'u, 's) bp_levels =
  bl_pred1 :: "('i, 't, 'u, 's) any_bpred option"
  bl_pred2 :: "('i, 't, 'u, 's) any_bpred option"
  bl_pred3 :: "('i, 't, 'u, 's) any_bpred option"

record bpredictor =
  br_ras :: bp_ras
  br_delay1 :: int
  br_delay2 :: int
  br_delay3 :: int

text \<open>
  \<open>ds\<close> are the delays in the configuration. A value that is not above the one of the level before
  is a configuration error (the flag) and reads as 0, which stands for a level without predictor; more than three are an
  error too.
\<close>

fun br_delays :: "int \<Rightarrow> int list \<Rightarrow> bool \<times> int list" where
  "br_delays prev [] = (False, [])"
| "br_delays prev (v # ds) =
    (let d = (if v < prev + 1 then 0 else v); (err, xs) = br_delays d ds
     in (err \<or> v < prev + 1, d # xs))"

definition br_create :: "bp_ras \<Rightarrow> int list \<Rightarrow> (bool \<times> bpredictor) res" where
  "br_create ras ds =
    (let (err, xs) = br_delays 0 (take 3 ds);
         err = (err \<or> 3 < length ds);
         xs = xs @ [0, 0, 0]; d1 = xs ! 0; d2 = xs ! 1; d3 = xs ! 2
     in if d1 = 0 then Inr (True, \<lparr>br_ras = ras, br_delay1 = d1, br_delay2 = d2, br_delay3 = d3\<rparr>)
        else let d2 = (if d2 = 0 then d1 + 1 else d2); d3 = (if d3 = 0 then d2 + 1 else d3)
             in assert_res (d1 < d3) (assert_res (d2 < d3) (assert_res (d1 < d2)
                  (Inr (err, \<lparr>br_ras = ras, br_delay1 = d1, br_delay2 = d2, br_delay3 = d3\<rparr>)))))"

text \<open>A further thread of the processor takes over the levels only; its delays are not initialised.\<close>

definition br_create_smt :: "bp_ras \<Rightarrow> int \<Rightarrow> int \<Rightarrow> int \<Rightarrow> bpredictor" where
  "br_create_smt ras junk1 junk2 junk3 = \<lparr>br_ras = ras, br_delay1 = junk1, br_delay2 = junk2, br_delay3 = junk3\<rparr>"

definition opt_step :: "('a \<Rightarrow> 'a res) \<Rightarrow> 'a option \<Rightarrow> 'a option res" where
  "opt_step f x = (case x of None \<Rightarrow> Inr None | Some a \<Rightarrow> bind_res (f a) (Inr \<circ> Some))"

text \<open>The third level is reached only through the second.\<close>

definition bl_boundary :: "(('i, 't, 'u, 's) any_bpred \<Rightarrow> ('i, 't, 'u, 's) any_bpred res) \<Rightarrow>
    ('i, 't, 'u, 's) bp_levels \<Rightarrow> ('i, 't, 'u, 's) bp_levels res" where
  "bl_boundary f l =
    deref (bl_pred1 l) (\<lambda>p. bind_res (f p) (\<lambda>p1.
      if bl_pred2 l = None then Inr (l\<lparr>bl_pred1 := Some p1\<rparr>)
      else bind_res (opt_step f (bl_pred2 l)) (\<lambda>p2. bind_res (opt_step f (bl_pred3 l)) (\<lambda>p3.
             Inr (l\<lparr>bl_pred1 := Some p1, bl_pred2 := p2, bl_pred3 := p3\<rparr>)))))"

definition br_fetchBoundaryBegin :: "('i, 't, 'u, 's) bp_engines \<Rightarrow> dinst \<Rightarrow> bpredictor \<Rightarrow> ('i, 't, 'u, 's) bp_levels \<Rightarrow>
    (bpredictor \<times> ('i, 't, 'u, 's) bp_levels) res" where
  "br_fetchBoundaryBegin e d b l =
    bind_res (bl_boundary (any_fetchBoundaryBegin e d) l) (\<lambda>l. Inr (b\<lparr>br_ras := bp_fetchBoundaryBegin (br_ras b)\<rparr>, l))"

definition br_fetchBoundaryEnd :: "('i, 't, 'u, 's) bp_engines \<Rightarrow> bpredictor \<Rightarrow> ('i, 't, 'u, 's) bp_levels \<Rightarrow>
    (bpredictor \<times> ('i, 't, 'u, 's) bp_levels) res" where
  "br_fetchBoundaryEnd e b l =
    bind_res (bl_boundary (any_fetchBoundaryEnd e) l) (\<lambda>l. Inr (b\<lparr>br_ras := bp_fetchBoundaryEnd (br_ras b)\<rparr>, l))"

section \<open>Asking the levels\<close>

definition br_predict_level :: "('i, 't, 'u, 's) bp_engines \<Rightarrow> dinst \<Rightarrow> ('i, 't, 'u, 's) any_bpred option \<Rightarrow>
    ((outcome \<times> dinst) \<times> ('i, 't, 'u, 's) any_bpred option) res" where
  "br_predict_level e d p =
    bind_res (isControl (di_inst d)) (\<lambda>c. assert_res c
      (deref p (\<lambda>p. bind_res (any_doPredict e d p) (\<lambda>(r, p). Inr (r, Some p)))))"

definition br_predict1 where
  "br_predict1 e d l = bind_res (br_predict_level e d (bl_pred1 l)) (\<lambda>(r, p). Inr (r, l\<lparr>bl_pred1 := p\<rparr>))"

definition br_predict2 where
  "br_predict2 e d l = bind_res (br_predict_level e d (bl_pred2 l)) (\<lambda>(r, p). Inr (r, l\<lparr>bl_pred2 := p\<rparr>))"

definition br_predict3 where
  "br_predict3 e d l = bind_res (br_predict_level e d (bl_pred3 l)) (\<lambda>(r, p). Inr (r, l\<lparr>bl_pred3 := p\<rparr>))"

text \<open>The three outcomes, and the bias of the instruction before and after the last level.\<close>

record bp_answers =
  ba_outcome1 :: outcome
  ba_outcome2 :: outcome
  ba_outcome3 :: outcome
  ba_first_bias :: bool
  ba_last_bias :: bool

text \<open>The stack has answered: the levels are asked for their histories only.\<close>

definition br_ask_after_ras where
  "br_ask_after_ras e o1 d l =
    bind_res (br_predict1 e d l) (\<lambda>((_, d), l).
    bind_res (if bl_pred2 l = None then Inr ((o1, d), l) else br_predict2 e d l) (\<lambda>((_, d), l).
    bind_res (if bl_pred3 l = None then Inr ((o1, d), l) else br_predict3 e d l) (\<lambda>((_, d), l).
      Inr ((\<lparr>ba_outcome1 = o1, ba_outcome2 = o1, ba_outcome3 = o1, ba_first_bias = False, ba_last_bias = False\<rparr>, d), l))))"

definition br_ask_levels where
  "br_ask_levels e d l =
    bind_res (br_predict1 e d l) (\<lambda>((o1, d), l).
    let first_bias = (bl_pred2 l \<noteq> None \<and> bl_pred3 l = None \<and> \<not> di_isTransient d \<and> di_isBiasBranch d)
    in bind_res (if bl_pred2 l = None then Inr ((o1, d), l) else br_predict2 e d l) (\<lambda>((o2, d), l).
    let first_bias = (if bl_pred3 l = None then first_bias else di_isBiasBranch d)
    in bind_res (if bl_pred3 l = None then Inr ((o2, d), l) else br_predict3 e d l) (\<lambda>((o3, d), l).
      Inr ((\<lparr>ba_outcome1 = o1, ba_outcome2 = o2, ba_outcome3 = o3, ba_first_bias = first_bias,
             ba_last_bias = (\<not> di_isTransient d \<and> di_isBiasBranch d)\<rparr>, d), l))))"

text \<open>A biased prediction that the last level does not confirm stands.\<close>

definition br_override :: "bool \<Rightarrow> bp_answers \<Rightarrow> bp_answers" where
  "br_override has3 a =
    (if ba_first_bias a \<and> \<not> ba_last_bias a
     then if has3 then a\<lparr>ba_outcome3 := ba_outcome2 a\<rparr>
          else a\<lparr>ba_outcome2 := ba_outcome1 a, ba_outcome3 := ba_outcome1 a\<rparr>
     else a)"

text \<open>The marks of the instruction.\<close>

definition br_mark :: "bp_answers \<Rightarrow> dinst \<Rightarrow> dinst" where
  "br_mark a d =
    (let o1 = ba_outcome1 a; o2 = ba_outcome2 a; o3 = ba_outcome3 a;
         bad3 = (o3 = Outcome_Miss \<or> o3 = Outcome_NoBTB);
         d = (if o1 \<noteq> Outcome_Correct then di_setBranchMiss_level1 d else di_setBranchHit_level1 d);
         d = (if o2 \<noteq> Outcome_Correct then di_setBranchMiss_level2 d
              else let d = di_setBranchHit_level2 d in if bad3 then di_setBranch_hit2_miss3 d else d)
     in if bad3 then di_setBranchMiss_level3 d
        else if o3 = Outcome_Correct
        then let d = di_setBranchHit_level3 d in if o2 \<noteq> Outcome_Correct then di_setBranch_hit3_miss2 d else d
        else d)"

text \<open>The cycles lost (16 bits), and whether they can be lost at fetch (\<open>fastfix\<close>).\<close>

definition br_delay :: "bpredictor \<Rightarrow> bool \<Rightarrow> bp_answers \<Rightarrow> u16 \<times> bool" where
  "br_delay b taken a =
    (let o1 = ba_outcome1 a; o2 = ba_outcome2 a; o3 = ba_outcome3 a
     in if taken \<and> o1 = Outcome_Correct \<and> o2 = Outcome_Correct \<and> o3 = Outcome_Correct then (word_of_int (br_delay1 b), True)
        else if \<not> taken \<and> o1 \<noteq> Outcome_Miss \<and> o2 \<noteq> Outcome_Miss \<and> o3 \<noteq> Outcome_Miss then (0, True)
        else if o2 = Outcome_Correct \<and> o3 = Outcome_Correct then (word_of_int (br_delay2 b), True)
        else if o3 = Outcome_Correct then (word_of_int (br_delay3 b), True)
        else (1, False))"

text \<open>\<open>predict\<close>: the delay and \<open>fastfix\<close>, and the addresses whose lines the stack prefetches.\<close>

definition br_predict :: "('i, 't, 'u, 's) bp_engines \<Rightarrow> dinst \<Rightarrow> bpredictor \<Rightarrow> ('i, 't, 'u, 's) bp_levels \<Rightarrow>
    (((u16 \<times> bool) \<times> addr list) \<times> dinst \<times> bpredictor \<times> ('i, 't, 'u, 's) bp_levels) res" where
  "br_predict e d b l =
    (let d = di_setBiasBranch False d
     in bind_res (bp_doPredict (bp_pure ras_predict) d (br_ras b)) (\<lambda>((o1, d), ras).
        let b = b\<lparr>br_ras := ras\<rparr>
        in bind_res (if o1 \<noteq> Outcome_None then br_ask_after_ras e o1 d l else br_ask_levels e d l) (\<lambda>((a, d), l).
           let call = (isFuncRet (di_inst d) \<or> isFuncCall (di_inst d));
               d = (if call then di_setBiasBranch True d else d)
           in bind_res (if call \<and> \<not> di_isTransient d then ras_tryPrefetch (br_ras b) else Inr []) (\<lambda>pf.
              let a = br_override (bl_pred3 l \<noteq> None) a;
                  d = br_mark a d
              in bind_res (di_isTaken d) (\<lambda>taken. Inr ((br_delay b taken a, pf), d, b, l))))))"

section \<open>The delay\<close>

text \<open>A unit that is built without a configuration error has three different, increasing delays.\<close>

lemma br_delays_increase:
  "br_delays prev ds = (False, xs) \<Longrightarrow> length xs = length ds \<and> (\<forall>i < length xs. prev < xs ! i \<and> (\<forall>j < i. xs ! j < xs ! i))"
proof (induction ds arbitrary: prev xs)
  case (Cons v ds)
  obtain err ys where ys: "br_delays (if v < prev + 1 then 0 else v) ds = (err, ys)" by (metis surj_pair)
  from Cons.prems ys have v: "\<not> v < prev + 1" and e: "err = False" and xs: "xs = v # ys" by (auto simp: Let_def)
  from Cons.IH [of v ys] ys v e have "length ys = length ds" "\<forall>i < length ys. v < ys ! i \<and> (\<forall>j < i. ys ! j < ys ! i)" by simp_all
  with v show ?case by (fastforce simp: xs nth_Cons split: nat.splits)
qed simp

lemma br_create_ordered:
  assumes "br_create ras ds = Inr (False, b)" and "\<forall>v \<in> set ds. 0 < v"
  shows "0 < br_delay1 b \<and> br_delay1 b < br_delay2 b \<and> br_delay2 b < br_delay3 b \<and> br_ras b = ras"
proof -
  obtain xs where xs: "br_delays 0 (take 3 ds) = (False, xs)"
    using assms(1) by (cases "br_delays 0 (take 3 ds)") (auto simp: br_create_def Let_def assert_res_Inr_iff split: if_splits)
  have "xs \<noteq> [] \<Longrightarrow> 0 < xs ! 0" using br_delays_increase [OF xs] by (cases xs) auto
  then show ?thesis
    using assms(1) xs by (cases xs) (auto simp: br_create_def Let_def assert_res_Inr_iff split: if_splits)
qed

text \<open>
  The delay of a unit whose delays are increasing: nothing is lost exactly for a branch that is not taken and that no
  level mispredicts (levels that abstain do no harm); the loss has to wait for the execution exactly
  when the last level is not right about a branch that is taken or mispredicted; otherwise it is the delay of the first level
  from which on all levels are right.
\<close>

theorem br_delay_cases:
  assumes "0 < br_delay1 b" and "br_delay1 b < br_delay2 b" and "br_delay2 b < br_delay3 b" and "br_delay3 b < 2 ^ 16"
  shows "(fst (br_delay b taken a) = 0 \<longleftrightarrow> \<not> taken \<and> Outcome_Miss \<notin> {ba_outcome1 a, ba_outcome2 a, ba_outcome3 a}) \<and>
    (snd (br_delay b taken a) \<longleftrightarrow>
      ba_outcome3 a = Outcome_Correct \<or> (\<not> taken \<and> Outcome_Miss \<notin> {ba_outcome1 a, ba_outcome2 a, ba_outcome3 a})) \<and>
    (taken \<and> ba_outcome3 a = Outcome_Correct \<longrightarrow> uint (fst (br_delay b taken a)) =
      (if ba_outcome2 a = Outcome_Correct then if ba_outcome1 a = Outcome_Correct then br_delay1 b else br_delay2 b
       else br_delay3 b))"
proof -
  have u: "uint (word_of_int (br_delay1 b) :: u16) = br_delay1 b" "uint (word_of_int (br_delay2 b) :: u16) = br_delay2 b"
    "uint (word_of_int (br_delay3 b) :: u16) = br_delay3 b"
    using assms by (simp_all add: uint_word_of_int_in_range)
  have "(word_of_int (br_delay1 b) :: u16) \<noteq> 0" "(word_of_int (br_delay2 b) :: u16) \<noteq> 0" "(word_of_int (br_delay3 b) :: u16) \<noteq> 0"
    using u assms by (metis less_irrefl less_trans unsigned_0)+
  then show ?thesis using u by (auto simp: br_delay_def Let_def)
qed

lemma br_delay_cases_witness:
  "\<exists>b. br_create (ras_create 8 False 0 0) [1, 3, 6] = Inr (False, b) \<and>
    br_delay b True \<lparr>ba_outcome1 = Outcome_Miss, ba_outcome2 = Outcome_NoBTB, ba_outcome3 = Outcome_Correct,
      ba_first_bias = False, ba_last_bias = False\<rparr> = (6, True)"
proof -
  let ?b = "\<lparr>br_ras = ras_create 8 False 0 0, br_delay1 = 1, br_delay2 = 3, br_delay3 = 6\<rparr>"
  let ?a = "\<lparr>ba_outcome1 = Outcome_Miss, ba_outcome2 = Outcome_NoBTB, ba_outcome3 = Outcome_Correct,
      ba_first_bias = False, ba_last_bias = False\<rparr>"
  have "uint (fst (br_delay ?b True ?a)) = 6 \<and> snd (br_delay ?b True ?a)"
    using br_delay_cases [of ?b True ?a] by simp
  then have "br_delay ?b True ?a = (6, True)" by (cases "br_delay ?b True ?a") (auto simp: word_uint_eq_iff)
  then show ?thesis by (auto simp: br_create_def numeral_3_eq_3)
qed

text \<open>The delays of a further thread are what its memory held: with 0 there, every loss is free.\<close>

lemma smt_delay_uninitialised:
  "br_delay (br_create_smt ras 0 0 0) True \<lparr>ba_outcome1 = o1, ba_outcome2 = o2, ba_outcome3 = Outcome_Correct,
     ba_first_bias = fb, ba_last_bias = lb\<rparr> = (0, True)"
  by (simp add: br_delay_def br_create_smt_def Let_def)

section \<open>The levels stay in step\<close>

interpretation static_miss: direction_predictor miss_predict "\<lambda>_. bp_fetchBoundaryBegin" bp_fetchBoundaryEnd "\<lambda>_. True"
  by unfold_locales (auto simp: miss_predict_def bp_fetchBoundaryBegin_def)

fun any_wf :: "('i, 't, 'u, 's) any_bpred \<Rightarrow> bool" where
  "any_wf (Bp_2bit p) = sctable_wf (p2_table p)"
| "any_wf (Bp_2bitl0 p) = sctable_wf (p2_table p)"
| "any_wf (Bp_2level p) = l2_wf p"
| "any_wf (Bp_2bcgskew p) = bs_wf p"
| "any_wf (Bp_hybrid p) = hy_wf p"
| "any_wf (Bp_yags p) = ya_wf p"
| "any_wf (Bp_tdata p) = sctable_wf (td_table p)"
| "any_wf (Bp_ldbp p) = (\<forall>c \<in> set (ld_doc_table p). doc_wf c)"
| "any_wf _ = True"

fun any_counter :: "('i, 't, 'u, 's) any_bpred \<Rightarrow> int" where
  "any_counter (Bp_oracle p) = bp_taken_counter p"
| "any_counter (Bp_miss p) = bp_taken_counter p"
| "any_counter (Bp_not_taken p) = bp_taken_counter p"
| "any_counter (Bp_not_taken_enhanced p) = bp_taken_counter p"
| "any_counter (Bp_taken p) = bp_taken_counter p"
| "any_counter (Bp_2bit p) = bp_taken_counter p"
| "any_counter (Bp_2bitl0 p) = bp_taken_counter p"
| "any_counter (Bp_2level p) = bp_taken_counter p"
| "any_counter (Bp_2bcgskew p) = bp_taken_counter p"
| "any_counter (Bp_hybrid p) = bp_taken_counter p"
| "any_counter (Bp_yags p) = bp_taken_counter p"
| "any_counter (Bp_imli p) = bp_taken_counter p"
| "any_counter (Bp_tahead p) = bp_taken_counter p"
| "any_counter (Bp_tahead1 p) = bp_taken_counter p"
| "any_counter (Bp_superbp p) = bp_taken_counter p"
| "any_counter (Bp_tdata p) = bp_taken_counter p"
| "any_counter (Bp_ldbp p) = bp_taken_counter p"

text \<open>The interface gives the same fact for every kind of predictor.\<close>

lemma any_doPredict_keeps:
  assumes "any_wf p" and "any_doPredict e d p = Inr ((o', d'), p')"
  shows "any_wf p' \<and> any_counter p' = any_counter p + (if di_addr d \<noteq> 0 then 1 else 0) \<and>
    di_addr d' = di_addr d \<and> di_inst d' = di_inst d"
proof (cases p)
  case C: (Bp_oracle q)
  from static_oracle.with_keeps [OF TrueI assms(2) [unfolded C any_doPredict.simps]] show ?thesis by (auto simp: C)
next
  case C: (Bp_miss q)
  from static_miss.with_keeps [OF TrueI assms(2) [unfolded C any_doPredict.simps]] show ?thesis by (auto simp: C)
next
  case C: (Bp_not_taken q)
  from static_not_taken.with_keeps [OF TrueI assms(2) [unfolded C any_doPredict.simps]] show ?thesis by (auto simp: C)
next
  case C: (Bp_not_taken_enhanced q)
  from static_enhanced.with_keeps [OF TrueI assms(2) [unfolded C any_doPredict.simps]] show ?thesis by (auto simp: C)
next
  case C: (Bp_taken q)
  from static_taken.with_keeps [OF TrueI assms(2) [unfolded C any_doPredict.simps]] show ?thesis by (auto simp: C)
next
  case C: (Bp_2bit q)
  from bimodal.with_keeps [OF assms(1) [unfolded C any_wf.simps] assms(2) [unfolded C any_doPredict.simps]] show ?thesis by (auto simp: C)
next
  case C: (Bp_2bitl0 q)
  from level0.with_keeps [OF assms(1) [unfolded C any_wf.simps] assms(2) [unfolded C any_doPredict.simps]] show ?thesis by (auto simp: C)
next
  case C: (Bp_2level q)
  from two_level.with_keeps [OF assms(1) [unfolded C any_wf.simps] assms(2) [unfolded C any_doPredict.simps]] show ?thesis by (auto simp: C)
next
  case C: (Bp_2bcgskew q)
  from skewed.with_keeps [OF assms(1) [unfolded C any_wf.simps] assms(2) [unfolded C any_doPredict.simps]] show ?thesis by (auto simp: C)
next
  case C: (Bp_hybrid q)
  from hybrid.with_keeps [OF assms(1) [unfolded C any_wf.simps] assms(2) [unfolded C any_doPredict.simps]] show ?thesis by (auto simp: C)
next
  case C: (Bp_yags q)
  from yags.with_keeps [OF assms(1) [unfolded C any_wf.simps] assms(2) [unfolded C any_doPredict.simps]] show ?thesis by (auto simp: C)
next
  case C: (Bp_imli q)
  from imli.with_keeps [OF TrueI assms(2) [unfolded C any_doPredict.simps]] show ?thesis by (auto simp: C)
next
  case C: (Bp_tahead q)
  from tahead.with_keeps [OF TrueI assms(2) [unfolded C any_doPredict.simps]] show ?thesis by (auto simp: C)
next
  case C: (Bp_tahead1 q)
  from tahead1.with_keeps [OF TrueI assms(2) [unfolded C any_doPredict.simps]] show ?thesis by (auto simp: C)
next
  case C: (Bp_superbp q)
  from superbp.with_keeps [OF TrueI assms(2) [unfolded C any_doPredict.simps]] show ?thesis by (auto simp: C)
next
  case C: (Bp_tdata q)
  from data_table.with_keeps [OF assms(1) [unfolded C any_wf.simps] assms(2) [unfolded C any_doPredict.simps]] show ?thesis by (auto simp: C)
next
  case C: (Bp_ldbp q)
  from load_branch.with_keeps [OF assms(1) [unfolded C any_wf.simps] assms(2) [unfolded C any_doPredict.simps]] show ?thesis by (auto simp: C)
qed

interpretation return_stack: direction_predictor ras_predict "\<lambda>_. bp_fetchBoundaryBegin" bp_fetchBoundaryEnd "\<lambda>_. True"
  by unfold_locales (auto simp: ras_predict_def ras_entry_def ras_pop_def ras_push_def Let_def res_Inr_iffs
      bp_fetchBoundaryBegin_def split: if_splits)

lemma any_fetchBoundaryBegin_keeps:
  assumes "any_wf p" and "any_fetchBoundaryBegin e d p = Inr p'"
  shows "any_wf p' \<and> any_counter p' = 0"
  using assms
  by (cases p) (auto simp: bind_res_Inr_iff bw_block_defs p2_fetchBoundaryBegin_def p0_fetchBoundaryBegin_def l2_wf_def
      bs_wf_def hy_wf_def ya_wf_def dest: imli.start_keeps [OF TrueI] superbp.start_keeps [OF TrueI])

text \<open>The levels that are present are well formed, and have counted \<open>n\<close> taken instructions.\<close>

definition level_ok :: "int \<Rightarrow> ('i, 't, 'u, 's) any_bpred option \<Rightarrow> bool" where
  "level_ok n x \<longleftrightarrow> (\<forall>p. x = Some p \<longrightarrow> any_wf p \<and> any_counter p = n)"

definition bl_in_step :: "int \<Rightarrow> ('i, 't, 'u, 's) bp_levels \<Rightarrow> bool" where
  "bl_in_step n l \<longleftrightarrow> level_ok n (bl_pred1 l) \<and> level_ok n (bl_pred2 l) \<and> level_ok n (bl_pred3 l)"

abbreviation di_taken_count :: "dinst \<Rightarrow> int" where
  "di_taken_count d \<equiv> (if di_addr d \<noteq> 0 then 1 else 0)"

lemma br_predict_level_keeps:
  assumes "level_ok n x" and "br_predict_level e d x = Inr ((o', d'), x')"
  shows "level_ok (n + di_taken_count d) x' \<and> di_addr d' = di_addr d \<and> di_inst d' = di_inst d"
proof -
  obtain p p' where p: "x = Some p" "any_doPredict e d p = Inr ((o', d'), p')" "x' = Some p'"
    using assms(2) by (auto simp: br_predict_level_def res_Inr_iffs)
  with assms(1) any_doPredict_keeps [OF _ p(2)] show ?thesis by (simp add: level_ok_def)
qed

lemma level_ok_None [simp]: "level_ok n None"
  by (simp add: level_ok_def)

text \<open>The levels are asked one after another, those that are missing are left out.\<close>

lemma levels_keep:
  assumes "bl_in_step n l" and p1: "br_predict1 e d l = Inr ((o1, d1), l1)"
    and p2: "(if bl_pred2 l1 = None then Inr ((x, d1), l1) else br_predict2 e d1 l1) = Inr ((o2, d2), l2)"
    and p3: "(if bl_pred3 l2 = None then Inr ((y, d2), l2) else br_predict3 e d2 l2) = Inr ((o3, d3), l3)"
  shows "bl_in_step (n + di_taken_count d) l3 \<and> di_addr d3 = di_addr d \<and> di_inst d3 = di_inst d"
proof -
  have k: "level_ok n (bl_pred1 l)" "level_ok n (bl_pred2 l)" "level_ok n (bl_pred3 l)"
    using assms(1) by (simp_all add: bl_in_step_def)
  obtain q1 where q1: "br_predict_level e d (bl_pred1 l) = Inr ((o1, d1), q1)" "l1 = l\<lparr>bl_pred1 := q1\<rparr>"
    using p1 by (auto simp: br_predict1_def bind_res_Inr_iff)
  have k1: "level_ok (n + di_taken_count d) (bl_pred1 l1)" "bl_pred2 l1 = bl_pred2 l" "bl_pred3 l1 = bl_pred3 l"
    "di_addr d1 = di_addr d" "di_inst d1 = di_inst d"
    using br_predict_level_keeps [OF k(1) q1(1)] by (simp_all add: q1(2))
  have k2: "level_ok (n + di_taken_count d) (bl_pred2 l2)" "bl_pred1 l2 = bl_pred1 l1" "bl_pred3 l2 = bl_pred3 l"
    "di_addr d2 = di_addr d" "di_inst d2 = di_inst d"
    using p2 k1 br_predict_level_keeps [OF k(2), of e d1]
    by (auto simp: br_predict2_def bind_res_Inr_iff split: if_splits)
  have "level_ok (n + di_taken_count d) (bl_pred3 l3)" "bl_pred1 l3 = bl_pred1 l2" "bl_pred2 l3 = bl_pred2 l2"
    "di_addr d3 = di_addr d" "di_inst d3 = di_inst d"
    using p3 k2 br_predict_level_keeps [OF k(3), of e d2]
    by (auto simp: br_predict3_def bind_res_Inr_iff split: if_splits)
  with k1 k2 show ?thesis by (simp add: bl_in_step_def)
qed

lemma br_ask_levels_keeps:
  assumes "bl_in_step n l" and "br_ask_levels e d l = Inr ((a, d'), l')"
  shows "bl_in_step (n + di_taken_count d) l' \<and> di_addr d' = di_addr d \<and> di_inst d' = di_inst d"
proof -
  obtain o1 d1 l1 where p1: "br_predict1 e d l = Inr ((o1, d1), l1)"
    using assms(2) by (auto simp: br_ask_levels_def bind_res_Inr_iff)
  obtain o2 d2 l2 where p2: "(if bl_pred2 l1 = None then Inr ((o1, d1), l1) else br_predict2 e d1 l1) = Inr ((o2, d2), l2)"
    using assms(2) unfolding br_ask_levels_def p1 bind_res_simps split_conv Let_def by (auto simp: bind_res_Inr_iff)
  have "\<exists>o3. (if bl_pred3 l2 = None then Inr ((o2, d2), l2) else br_predict3 e d2 l2) = Inr ((o3, d'), l')"
    using assms(2) unfolding br_ask_levels_def p1 bind_res_simps split_conv Let_def p2 by (auto simp: bind_res_Inr_iff)
  with levels_keep [OF assms(1) p1 p2] show ?thesis by blast
qed

lemma br_ask_after_ras_keeps:
  assumes "bl_in_step n l" and "br_ask_after_ras e o1 d l = Inr ((a, d'), l')"
  shows "bl_in_step (n + di_taken_count d) l' \<and> di_addr d' = di_addr d \<and> di_inst d' = di_inst d"
proof -
  obtain oo d1 l1 where p1: "br_predict1 e d l = Inr ((oo, d1), l1)"
    using assms(2) by (auto simp: br_ask_after_ras_def bind_res_Inr_iff)
  obtain o2 d2 l2 where p2: "(if bl_pred2 l1 = None then Inr ((o1, d1), l1) else br_predict2 e d1 l1) = Inr ((o2, d2), l2)"
    using assms(2) unfolding br_ask_after_ras_def p1 bind_res_simps split_conv by (auto simp: bind_res_Inr_iff)
  have "\<exists>o3. (if bl_pred3 l2 = None then Inr ((o1, d2), l2) else br_predict3 e d2 l2) = Inr ((o3, d'), l')"
    using assms(2) unfolding br_ask_after_ras_def p1 bind_res_simps split_conv p2 by (auto simp: bind_res_Inr_iff)
  with levels_keep [OF assms(1) p1 p2] show ?thesis by blast
qed

lemma di_mark_addr [simp]:
  "di_addr (br_mark a d) = di_addr d" "di_inst (br_mark a d) = di_inst d"
  by (simp_all add: br_mark_def Let_def di_set_def di_setBranchMiss_level1_def di_setBranchHit_level1_def
      di_setBranchMiss_level2_def di_setBranchHit_level2_def di_setBranch_hit2_miss3_def di_setBranchMiss_level3_def
      di_setBranchHit_level3_def di_setBranch_hit3_miss2_def)

definition br_in_step :: "int \<Rightarrow> bpredictor \<Rightarrow> ('i, 't, 'u, 's) bp_levels \<Rightarrow> bool" where
  "br_in_step n b l \<longleftrightarrow> bp_taken_counter (br_ras b) = n \<and> bl_in_step n l"

lemma br_predict_keeps:
  assumes "br_in_step n b l" and "br_predict e d b l = Inr (r, d', b', l')"
  shows "br_in_step (n + di_taken_count d) b' l' \<and> di_addr d' = di_addr d"
proof -
  define d0 where "d0 = di_setBiasBranch False d"
  obtain o1 d1 ras where ras: "bp_doPredict (bp_pure ras_predict) d0 (br_ras b) = Inr ((o1, d1), ras)"
    using assms(2) by (auto simp: br_predict_def Let_def bind_res_Inr_iff simp flip: d0_def)
  from return_stack.doPredict_keeps [OF TrueI ras] have k1: "di_addr d1 = di_addr d" "di_inst d1 = di_inst d"
    "bp_taken_counter ras = bp_taken_counter (br_ras b) + di_taken_count d" by (simp_all add: d0_def)
  obtain a d2 l2 where a: "(if o1 \<noteq> Outcome_None then br_ask_after_ras e o1 d1 l else br_ask_levels e d1 l) = Inr ((a, d2), l2)"
    using assms(2) ras by (auto simp: br_predict_def Let_def bind_res_Inr_iff simp flip: d0_def)
  have "bl_in_step n l" using assms(1) by (simp add: br_in_step_def)
  with a have "bl_in_step (n + di_taken_count d1) l2 \<and> di_addr d2 = di_addr d1 \<and> di_inst d2 = di_inst d1"
    by (cases "o1 \<noteq> Outcome_None") (simp_all add: br_ask_after_ras_keeps br_ask_levels_keeps)
  then have k2: "bl_in_step (n + di_taken_count d) l2" "di_addr d2 = di_addr d" by (simp_all add: k1)
  have "l' = l2 \<and> br_ras b' = ras \<and> di_addr d' = di_addr d2"
    using assms(2) unfolding br_predict_def Let_def d0_def [symmetric] ras bind_res_simps split_conv a
    by (auto simp: bind_res_Inr_iff split: if_splits)
  with k1 k2 assms(1) show ?thesis by (simp add: br_in_step_def)
qed

text \<open>A fetch block of the unit.\<close>

fun br_block :: "('i, 't, 'u, 's) bp_engines \<Rightarrow> dinst list \<Rightarrow> bpredictor \<Rightarrow> ('i, 't, 'u, 's) bp_levels \<Rightarrow>
    ((u16 \<times> bool) list \<times> bpredictor \<times> ('i, 't, 'u, 's) bp_levels) res" where
  "br_block e [] b l = Inr ([], b, l)"
| "br_block e (d # ds) b l =
    bind_res (br_predict e d b l) (\<lambda>((r, _), _, b, l).
      bind_res (br_block e ds b l) (\<lambda>(rs, b, l). Inr (r # rs, b, l)))"

lemma br_block_keeps:
  assumes "br_in_step n b l" and "br_block e ds b l = Inr (rs, b', l')"
  shows "br_in_step (n + int (length (filter (\<lambda>d. di_addr d \<noteq> 0) ds))) b' l' \<and> length rs = length ds"
  using assms
proof (induction ds arbitrary: n b l rs)
  case (Cons d ds)
  obtain r d1 b1 l1 rs1 where p: "br_predict e d b l = Inr (r, d1, b1, l1)"
    "br_block e ds b1 l1 = Inr (rs1, b', l')" "rs = fst r # rs1"
    using Cons.prems(2) by (auto simp: bind_res_Inr_iff)
  from Cons.IH [OF conjunct1 [OF br_predict_keeps [OF Cons.prems(1) p(1)]] p(2)] show ?case
    by (simp add: p(3) ac_simps split: if_splits)
qed (auto simp: br_in_step_def)

subsection \<open>Each level is asked once for every instruction\<close>

text \<open>An instruction and a marked copy of it: they differ in their flags only.\<close>

definition same_branch :: "dinst \<Rightarrow> dinst \<Rightarrow> bool" where
  "same_branch d d' \<longleftrightarrow> d' = d\<lparr>di_flags := di_flags d'\<rparr>"

lemma same_branch_refl [simp]: "same_branch d d"
  by (simp add: same_branch_def)

lemma same_branch_set [simp]: "same_branch d (di_set f d)" "same_branch d (di_setBiasBranch b d)"
  by (simp_all add: same_branch_def di_set_def di_setBiasBranch_def)

lemma same_branch_trans: "same_branch d d1 \<Longrightarrow> same_branch d1 d2 \<Longrightarrow> same_branch d d2"
  unfolding same_branch_def by (cases d; cases d1; cases d2) simp

lemma doPredict_same_branch:
  assumes "bind_res (bp_doPredict step d p) (with_bp C) = Inr ((o', d'), q)"
    and "\<And>o1 d1 p1. step d True p = Inr ((o1, d1), p1) \<Longrightarrow> same_branch d d1"
  shows "same_branch d d'"
  using assms by (auto simp: bp_doPredict_def with_bp_def res_Inr_iffs)

lemma bp_pure_same_branch: "bp_pure f d upd p = Inr ((o1, d1), p1) \<Longrightarrow> same_branch d d1"
  by (auto simp: bp_pure_def bind_res_Inr_iff)

lemma tahead_same_branch:
  "th_predict th d upd p = Inr ((o1, d1), p1) \<Longrightarrow> same_branch d d1"
  "th1_predict th1 d upd q = Inr ((o1, d1), q1) \<Longrightarrow> same_branch d d1"
  by (auto simp: th_predict_def th1_predict_def bind_res_Inr_iff Let_def split: if_splits)

lemma imli_direction_same_branch:
  "imli_direction im d upd taken p = Inr ((t, d1), p1) \<Longrightarrow> same_branch d d1"
  by (auto simp: imli_direction_def bind_res_Inr_iff Let_def)

lemma imli_same_branch:
  assumes "imli_predict im d upd p = Inr ((o1, d1), p1)"
  shows "same_branch d d1"
proof (cases "isBranch (di_inst d)")
  case False
  then have "d1 = di_setBiasBranch True d"
    using assms by (auto simp: imli_predict_def Let_def bind_res_Inr_iff assert_res_Inr_iff)
  then show ?thesis by simp
next
  case True
  then obtain taken s ptaken r where "imli_direction im d upd taken s = Inr ((ptaken, d1), r)"
    using assms by (auto simp: imli_predict_def Let_def bind_res_Inr_iff assert_res_Inr_iff)
  then show ?thesis by (rule imli_direction_same_branch)
qed

lemma superbp_same_branch:
  assumes "superbp_predict su d upd p = Inr ((o1, d1), p1)"
  shows "same_branch d d1"
proof -
  have "\<exists>c. d1 = di_setBiasBranch c d"
    using assms by (cases "isBranch (di_inst d)") (auto simp: superbp_predict_def Let_def bind_res_Inr_iff)
  then show ?thesis by auto
qed

lemmas step_same_branch = bp_pure_same_branch tahead_same_branch imli_same_branch superbp_same_branch

lemma any_doPredict_same_branch:
  assumes "any_doPredict e d p = Inr ((o', d'), p')"
  shows "same_branch d d'"
  using assms
  by (cases p) (simp_all only: any_doPredict.simps,
    (erule doPredict_same_branch, (rule step_same_branch, assumption))+)

text \<open>A level is asked once, about the instruction or a marked copy; a missing level stays missing.\<close>

definition asked_once :: "('i, 't, 'u, 's) bp_engines \<Rightarrow> dinst \<Rightarrow> ('i, 't, 'u, 's) any_bpred option \<Rightarrow>
    ('i, 't, 'u, 's) any_bpred option \<Rightarrow> bool" where
  "asked_once e d x y \<longleftrightarrow>
    (case x of
       None \<Rightarrow> y = None
     | Some p \<Rightarrow> \<exists>d1 r p'. same_branch d d1 \<and> any_doPredict e d1 p = Inr (r, p') \<and> y = Some p')"

fun asked_in_turn :: "('a \<Rightarrow> 'x \<Rightarrow> 'x \<Rightarrow> bool) \<Rightarrow> 'a list \<Rightarrow> 'x \<Rightarrow> 'x \<Rightarrow> bool" where
  "asked_in_turn ask [] x z \<longleftrightarrow> z = x"
| "asked_in_turn ask (d # ds) x z \<longleftrightarrow> (\<exists>y. ask d x y \<and> asked_in_turn ask ds y z)"

definition stack_asked_once :: "dinst \<Rightarrow> bp_ras \<Rightarrow> bp_ras \<Rightarrow> bool" where
  "stack_asked_once d r r' \<longleftrightarrow>
    (\<exists>d1 a. same_branch d d1 \<and> bp_doPredict (bp_pure ras_predict) d1 r = Inr (a, r'))"

lemma br_predict_level_asks:
  assumes "br_predict_level e d1 x = Inr ((o', d'), x')" and "same_branch d d1"
  shows "asked_once e d x x' \<and> same_branch d d'"
proof -
  obtain p p' where p: "x = Some p" "any_doPredict e d1 p = Inr ((o', d'), p')" "x' = Some p'"
    using assms(1) by (auto simp: br_predict_level_def res_Inr_iffs)
  show ?thesis
    using p assms(2) any_doPredict_same_branch [OF p(2)] by (auto simp: asked_once_def intro: same_branch_trans)
qed

lemma levels_asked:
  assumes p1: "br_predict1 e d0 l = Inr ((o1, d1), l1)" and "same_branch d d0"
    and p2: "(if bl_pred2 l1 = None then Inr ((x, d1), l1) else br_predict2 e d1 l1) = Inr ((o2, d2), l2)"
    and p3: "(if bl_pred3 l2 = None then Inr ((y, d2), l2) else br_predict3 e d2 l2) = Inr ((o3, d3), l3)"
  shows "asked_once e d (bl_pred1 l) (bl_pred1 l3) \<and> asked_once e d (bl_pred2 l) (bl_pred2 l3) \<and>
    asked_once e d (bl_pred3 l) (bl_pred3 l3)"
proof -
  obtain q1 where q1: "br_predict_level e d0 (bl_pred1 l) = Inr ((o1, d1), q1)" "l1 = l\<lparr>bl_pred1 := q1\<rparr>"
    using p1 by (auto simp: br_predict1_def bind_res_Inr_iff)
  have a1: "asked_once e d (bl_pred1 l) (bl_pred1 l1)" "bl_pred2 l1 = bl_pred2 l" "bl_pred3 l1 = bl_pred3 l"
    "same_branch d d1"
    using br_predict_level_asks [OF q1(1) assms(2)] by (simp_all add: q1(2))
  have a2: "asked_once e d (bl_pred2 l) (bl_pred2 l2)" "bl_pred1 l2 = bl_pred1 l1" "bl_pred3 l2 = bl_pred3 l"
    "same_branch d d2"
    using p2 a1 br_predict_level_asks [OF _ a1(4), of e "bl_pred2 l"]
    by (auto simp: br_predict2_def bind_res_Inr_iff asked_once_def split: if_splits)
  have "asked_once e d (bl_pred3 l) (bl_pred3 l3)" "bl_pred1 l3 = bl_pred1 l2" "bl_pred2 l3 = bl_pred2 l2"
    using p3 a2 br_predict_level_asks [OF _ a2(4), of e "bl_pred3 l"]
    by (auto simp: br_predict3_def bind_res_Inr_iff asked_once_def split: if_splits)
  with a1 a2 show ?thesis by simp
qed

lemma br_ask_asks:
  assumes "(if after then br_ask_after_ras e o1 d0 l else br_ask_levels e d0 l) = Inr ((a, d'), l')"
    and "same_branch d d0"
  shows "asked_once e d (bl_pred1 l) (bl_pred1 l') \<and> asked_once e d (bl_pred2 l) (bl_pred2 l') \<and>
    asked_once e d (bl_pred3 l) (bl_pred3 l')"
proof (cases after)
  case True
  with assms(1) have r: "br_ask_after_ras e o1 d0 l = Inr ((a, d'), l')" by simp
  obtain oo d1 l1 where p1: "br_predict1 e d0 l = Inr ((oo, d1), l1)"
    using r by (auto simp: br_ask_after_ras_def bind_res_Inr_iff)
  obtain o2 d2 l2 where p2: "(if bl_pred2 l1 = None then Inr ((o1, d1), l1) else br_predict2 e d1 l1) = Inr ((o2, d2), l2)"
    using r unfolding br_ask_after_ras_def p1 bind_res_simps split_conv by (auto simp: bind_res_Inr_iff)
  have "\<exists>o3. (if bl_pred3 l2 = None then Inr ((o1, d2), l2) else br_predict3 e d2 l2) = Inr ((o3, d'), l')"
    using r unfolding br_ask_after_ras_def p1 bind_res_simps split_conv p2 by (auto simp: bind_res_Inr_iff)
  with levels_asked [OF p1 assms(2) p2] show ?thesis by blast
next
  case False
  with assms(1) have r: "br_ask_levels e d0 l = Inr ((a, d'), l')" by simp
  obtain oo d1 l1 where p1: "br_predict1 e d0 l = Inr ((oo, d1), l1)"
    using r by (auto simp: br_ask_levels_def bind_res_Inr_iff)
  obtain o2 d2 l2 where p2: "(if bl_pred2 l1 = None then Inr ((oo, d1), l1) else br_predict2 e d1 l1) = Inr ((o2, d2), l2)"
    using r unfolding br_ask_levels_def p1 bind_res_simps split_conv Let_def by (auto simp: bind_res_Inr_iff)
  have "\<exists>o3. (if bl_pred3 l2 = None then Inr ((o2, d2), l2) else br_predict3 e d2 l2) = Inr ((o3, d'), l')"
    using r unfolding br_ask_levels_def p1 bind_res_simps split_conv Let_def p2 by (auto simp: bind_res_Inr_iff)
  with levels_asked [OF p1 assms(2) p2] show ?thesis by blast
qed

lemma br_predict_asks:
  assumes "br_predict e d b l = Inr (r, d', b', l')"
  shows "asked_once e d (bl_pred1 l) (bl_pred1 l') \<and> asked_once e d (bl_pred2 l) (bl_pred2 l') \<and>
    asked_once e d (bl_pred3 l) (bl_pred3 l') \<and> stack_asked_once d (br_ras b) (br_ras b')"
proof -
  define d0 where "d0 = di_setBiasBranch False d"
  obtain o1 d1 ras where ras: "bp_doPredict (bp_pure ras_predict) d0 (br_ras b) = Inr ((o1, d1), ras)"
    using assms by (auto simp: br_predict_def Let_def bind_res_Inr_iff simp flip: d0_def)
  have "d1 = d0" using ras by (auto simp: bp_doPredict_def bp_pure_def res_Inr_iffs)
  then have same: "same_branch d d1" "same_branch d d0" by (simp_all add: d0_def)
  obtain a d2 l2 where a: "(if o1 \<noteq> Outcome_None then br_ask_after_ras e o1 d1 l else br_ask_levels e d1 l) = Inr ((a, d2), l2)"
    using assms ras by (auto simp: br_predict_def Let_def bind_res_Inr_iff simp flip: d0_def)
  have "l' = l2 \<and> br_ras b' = ras"
    using assms unfolding br_predict_def Let_def d0_def [symmetric] ras bind_res_simps split_conv a
    by (auto simp: bind_res_Inr_iff split: if_splits)
  with br_ask_asks [OF a same(1)] same(2) ras show ?thesis unfolding stack_asked_once_def by blast
qed

lemma br_block_asks:
  assumes "br_block e ds b l = Inr (rs, b', l')"
  shows "asked_in_turn (asked_once e) ds (bl_pred1 l) (bl_pred1 l') \<and>
    asked_in_turn (asked_once e) ds (bl_pred2 l) (bl_pred2 l') \<and>
    asked_in_turn (asked_once e) ds (bl_pred3 l) (bl_pred3 l') \<and>
    asked_in_turn stack_asked_once ds (br_ras b) (br_ras b')"
  using assms
proof (induction ds arbitrary: b l rs)
  case (Cons d ds)
  obtain r d1 b1 l1 rs1 where p: "br_predict e d b l = Inr (r, d1, b1, l1)" "br_block e ds b1 l1 = Inr (rs1, b', l')"
    using Cons.prems by (auto simp: bind_res_Inr_iff)
  show ?case using br_predict_asks [OF p(1)] Cons.IH [OF p(2)] by auto
qed simp

text \<open>
  C23. In a fetch block the stack and all levels stay in step: from the begin of the block on, each of them is asked
  exactly once for every instruction, in program order, about the instruction itself but for its flags,
  whichever of them answered, and has counted exactly the taken ones; the tables that the model has
  stay well formed (the static predictors have none, the engines of the wrapped ones are parameters). In particular none
  refuses a prediction because it has not begun a block.
\<close>

theorem br_levels_in_step:
  assumes "\<forall>p. Some p \<in> {bl_pred1 l, bl_pred2 l, bl_pred3 l} \<longrightarrow> any_wf p"
    and "bl_pred2 l = None \<Longrightarrow> bl_pred3 l = None"
    and "br_fetchBoundaryBegin e d0 b l = Inr (b1, l1)"
    and "br_block e ds b1 l1 = Inr (rs, b2, l2)"
  shows "br_in_step (int (length (filter (\<lambda>d. di_addr d \<noteq> 0) ds))) b2 l2 \<and>
    asked_in_turn (asked_once e) ds (bl_pred1 l1) (bl_pred1 l2) \<and>
    asked_in_turn (asked_once e) ds (bl_pred2 l1) (bl_pred2 l2) \<and>
    asked_in_turn (asked_once e) ds (bl_pred3 l1) (bl_pred3 l2) \<and>
    asked_in_turn stack_asked_once ds (br_ras b1) (br_ras b2)"
proof -
  have ok: "level_ok 0 q" if "opt_step (any_fetchBoundaryBegin e d0) x = Inr q" "\<forall>p. x = Some p \<longrightarrow> any_wf p" for x q
    using that by (auto simp: opt_step_def level_ok_def bind_res_Inr_iff split: option.splits dest: any_fetchBoundaryBegin_keeps)
  obtain l' where l': "bl_boundary (any_fetchBoundaryBegin e d0) l = Inr l'" "l1 = l'" "b1 = b\<lparr>br_ras := bp_fetchBoundaryBegin (br_ras b)\<rparr>"
    using assms(3) by (auto simp: br_fetchBoundaryBegin_def bind_res_Inr_iff)
  obtain p p1 where p1: "bl_pred1 l = Some p" "any_fetchBoundaryBegin e d0 p = Inr p1"
    using l'(1) by (auto simp: bl_boundary_def deref_Inr_iff bind_res_Inr_iff)
  then have "level_ok 0 (Some p1)" using assms(1) any_fetchBoundaryBegin_keeps [OF _ p1(2)] by (simp add: level_ok_def)
  moreover have "level_ok 0 (bl_pred2 l')" "level_ok 0 (bl_pred3 l')" "bl_pred1 l' = Some p1"
    using l'(1) assms(1,2) ok p1 by (auto simp: bl_boundary_def bind_res_Inr_iff split: if_splits)
  ultimately have "br_in_step 0 b1 l1" by (simp add: br_in_step_def bl_in_step_def l'(2,3) bp_fetchBoundaryBegin_def)
  from br_block_keeps [OF this assms(4)] br_block_asks [OF assms(4)] show ?thesis by simp
qed

lemma br_levels_in_step_witness:
  "\<exists>b1 l1 rs b2 l2. br_fetchBoundaryBegin (undefined :: (unit, unit, unit, unit) bp_engines) (di_branch_at 60 0)
      \<lparr>br_ras = ras_create 2 False 0 0, br_delay1 = 1, br_delay2 = 2, br_delay3 = 3\<rparr>
      \<lparr>bl_pred1 = Some (Bp_miss \<lparr>bp_taken_counter = - 1, bp_addrShift = 0\<rparr>), bl_pred2 = Some (Bp_miss \<lparr>bp_taken_counter = - 1, bp_addrShift = 0\<rparr>), bl_pred3 = None\<rparr> = Inr (b1, l1) \<and>
    br_block (undefined :: (unit, unit, unit, unit) bp_engines) [di_branch_at 64 0, di_branch_at 68 200] b1 l1 = Inr (rs, b2, l2) \<and>
    br_in_step 1 b2 l2"
proof -
  let ?e = "undefined :: (unit, unit, unit, unit) bp_engines"
  let ?b = "\<lparr>br_ras = ras_create 2 False 0 0, br_delay1 = 1, br_delay2 = 2, br_delay3 = 3\<rparr>"
  let ?l = "\<lparr>bl_pred1 = Some (Bp_miss \<lparr>bp_taken_counter = - 1, bp_addrShift = 0\<rparr>), bl_pred2 = Some (Bp_miss \<lparr>bp_taken_counter = - 1, bp_addrShift = 0\<rparr>), bl_pred3 = None\<rparr> ::
    (unit, unit, unit, unit) bp_levels"
  obtain b1 l1 where start: "br_fetchBoundaryBegin ?e (di_branch_at 60 0) ?b ?l = Inr (b1, l1)"
    and b1: "b1 = ?b\<lparr>br_ras := (br_ras ?b)\<lparr>bp_taken_counter := 0\<rparr>\<rparr>"
    and l1: "l1 = ?l\<lparr>bl_pred1 := Some (Bp_miss \<lparr>bp_taken_counter = 0, bp_addrShift = 0\<rparr>),
      bl_pred2 := Some (Bp_miss \<lparr>bp_taken_counter = 0, bp_addrShift = 0\<rparr>)\<rparr>"
    by (simp add: br_fetchBoundaryBegin_def bl_boundary_def bp_fetchBoundaryBegin_def opt_step_def)
  have ctl: "di_isTaken (di_branch_at pc a) = Inr (a \<noteq> 0)" "isControl (di_inst (di_branch_at pc a)) = Inr True"
    "\<not> isFuncRet (di_inst (di_branch_at pc a))" "\<not> isFuncCall (di_inst (di_branch_at pc a))" for pc a
    by (simp_all add: di_isTaken_def di_branch_at_def di_jump_at_def isControl_total isBranch_def isJump_def isFuncRet_def
        doesCtrl2Label_def isFuncCall_def doesJump2Label_def)
  have bias: "di_isTaken (di_setBiasBranch x (di_branch_at pc a)) = Inr (a \<noteq> 0)" for x pc a
    using ctl(1) [of pc a] by (simp add: di_isTaken_def)
  have mark: "di_isTaken (br_mark x d) = di_isTaken d" for x d by (simp add: di_isTaken_def)
  have "\<exists>rs b2 l2. br_block ?e [di_branch_at 64 0, di_branch_at 68 200] b1 l1 = Inr (rs, b2, l2)"
    by (simp add: br_predict_def bp_doPredict_def bp_pure_def ras_predict_def ctl bias mark br_ask_levels_def br_predict1_def
        br_predict2_def br_predict_level_def miss_predict_def with_bp_def b1 l1 Let_def)
  then obtain rs b2 l2 where run: "br_block ?e [di_branch_at 64 0, di_branch_at 68 200] b1 l1 = Inr (rs, b2, l2)" by blast
  have "br_in_step (int (length (filter (\<lambda>d. di_addr d \<noteq> 0) [di_branch_at 64 0, di_branch_at 68 200]))) b2 l2"
    by (rule br_levels_in_step [OF _ _ start run, THEN conjunct1]) simp_all
  with start run show ?thesis by (simp add: di_branch_at_def di_jump_at_def)
qed

section \<open>A perfect front end\<close>

definition level_perfect :: "('i, 't, 'u, 's) any_bpred option \<Rightarrow> bool" where
  "level_perfect x \<longleftrightarrow> (\<forall>q. x = Some q \<longrightarrow> (\<exists>p. q = Bp_oracle p \<and> bw_oracle p \<and> 0 \<le> bp_taken_counter p))"

definition bl_perfect :: "('i, 't, 'u, 's) bp_levels \<Rightarrow> bool" where
  "bl_perfect l \<longleftrightarrow> bl_pred1 l \<noteq> None \<and> level_perfect (bl_pred1 l) \<and> level_perfect (bl_pred2 l) \<and> level_perfect (bl_pred3 l)"

lemma level_perfect_predict:
  assumes "level_perfect x" and "x \<noteq> None" and "isControl (di_inst d) = Inr True"
  obtains x' where "br_predict_level e d x = Inr ((Outcome_Correct, d), x')" and "level_perfect x'" and "x' \<noteq> None"
proof -
  obtain p where p: "x = Some (Bp_oracle p)" "bw_oracle p" "0 \<le> bp_taken_counter p"
    using assms(1,2) by (auto simp: level_perfect_def)
  obtain p1 where p1: "oracle_predict d True p = Inr (Outcome_Correct, p1)" "bw_oracle p1" "bp_taken_counter p1 = bp_taken_counter p"
  proof (cases "di_addr d = 0")
    case True
    with assms(3) that p show ?thesis by (simp add: oracle_predict_def di_isTaken_def)
  next
    case False
    obtain p' where "bw_btb_predict d True p = Inr (Outcome_Correct, p')" "bw_same p p'" "bw_oracle p'"
      using bw_btb_predict_oracle [OF p(2)] .
    with False assms(3) that show ?thesis by (simp add: oracle_predict_def di_isTaken_def bw_same_selD)
  qed
  define p2 where "p2 = (if di_addr d \<noteq> 0 then p1\<lparr>bp_taken_counter := bp_taken_counter p1 + 1\<rparr> else p1)"
  have "bw_oracle p2" "0 \<le> bp_taken_counter p2" using p1 p(3) by (simp_all add: p2_def bw_oracle_def)
  moreover have "br_predict_level e d x = Inr ((Outcome_Correct, d), Some (Bp_oracle p2))"
    using assms(3) p p1(1) by (simp add: br_predict_level_def bp_doPredict_def bp_pure_def di_isTaken_def with_bp_def p2_def)
  ultimately show thesis using that by (simp add: level_perfect_def)
qed

lemma perfect_levels:
  assumes "bl_perfect l" and "isControl (di_inst d) = Inr True"
  obtains l1 l2 l3 where "br_predict1 e d l = Inr ((Outcome_Correct, d), l1)"
    and "(if bl_pred2 l1 = None then Inr ((Outcome_Correct, d), l1) else br_predict2 e d l1) = Inr ((Outcome_Correct, d), l2)"
    and "(if bl_pred3 l2 = None then Inr ((Outcome_Correct, d), l2) else br_predict3 e d l2) = Inr ((Outcome_Correct, d), l3)"
    and "bl_perfect l3"
proof -
  have l: "bl_pred1 l \<noteq> None" "level_perfect (bl_pred1 l)" "level_perfect (bl_pred2 l)" "level_perfect (bl_pred3 l)"
    using assms(1) by (simp_all add: bl_perfect_def)
  obtain x where x: "br_predict_level e d (bl_pred1 l) = Inr ((Outcome_Correct, d), x)" "level_perfect x" "x \<noteq> None"
    using level_perfect_predict [OF l(2,1) assms(2)] .
  define l1 where "l1 = l\<lparr>bl_pred1 := x\<rparr>"
  have 2: "\<exists>y. (if bl_pred2 l1 = None then Inr ((Outcome_Correct, d), l1) else br_predict2 e d l1) =
      Inr ((Outcome_Correct, d), l1\<lparr>bl_pred2 := y\<rparr>) \<and> level_perfect y"
  proof (cases "bl_pred2 l1 = None")
    case True
    then have "l1\<lparr>bl_pred2 := None\<rparr> = l1" by (cases l1) simp
    with True show ?thesis by (intro exI [of _ None]) (simp add: level_perfect_def)
  next
    case False
    obtain y where "br_predict_level e d (bl_pred2 l1) = Inr ((Outcome_Correct, d), y)" "level_perfect y"
      using level_perfect_predict [OF _ False assms(2)] l(3) by (metis bp_levels.select_convs(2) bp_levels.surjective bp_levels.update_convs(1) l1_def)
    with False show ?thesis by (auto simp: br_predict2_def)
  qed
  then obtain y where y: "(if bl_pred2 l1 = None then Inr ((Outcome_Correct, d), l1) else br_predict2 e d l1) =
      Inr ((Outcome_Correct, d), l1\<lparr>bl_pred2 := y\<rparr>)" "level_perfect y" by blast
  define l2 where "l2 = l1\<lparr>bl_pred2 := y\<rparr>"
  have "\<exists>z. (if bl_pred3 l2 = None then Inr ((Outcome_Correct, d), l2) else br_predict3 e d l2) =
      Inr ((Outcome_Correct, d), l2\<lparr>bl_pred3 := z\<rparr>) \<and> level_perfect z"
  proof (cases "bl_pred3 l2 = None")
    case True
    then have "l2\<lparr>bl_pred3 := None\<rparr> = l2" by (cases l2) simp
    with True show ?thesis by (intro exI [of _ None]) (simp add: level_perfect_def)
  next
    case False
    have "level_perfect (bl_pred3 l2)" using l(4) by (simp add: l2_def l1_def)
    from level_perfect_predict [OF this False assms(2)] obtain z where
      "br_predict_level e d (bl_pred3 l2) = Inr ((Outcome_Correct, d), z)" "level_perfect z" by metis
    with False show ?thesis by (auto simp: br_predict3_def)
  qed
  then obtain z where z: "(if bl_pred3 l2 = None then Inr ((Outcome_Correct, d), l2) else br_predict3 e d l2) =
      Inr ((Outcome_Correct, d), l2\<lparr>bl_pred3 := z\<rparr>)" "level_perfect z" by blast
  have "bl_perfect (l2\<lparr>bl_pred3 := z\<rparr>)" using x y(2) z(2) by (simp add: bl_perfect_def l2_def l1_def)
  moreover have "br_predict1 e d l = Inr ((Outcome_Correct, d), l1)" by (simp add: br_predict1_def x(1) l1_def)
  ultimately show thesis using that y(1) z(1) unfolding l2_def [symmetric] by blast
qed

definition br_perfect :: "bpredictor \<Rightarrow> bool" where
  "br_perfect b \<longleftrightarrow> ras_size (br_ras b) = 0 \<and> ras_prefetch (br_ras b) = 0 \<and> 0 \<le> bp_taken_counter (br_ras b)"

lemma perfect_step:
  assumes "br_perfect b" and "bl_perfect l" and ctl: "isControl (di_inst d) = Inr True"
  shows "\<exists>pf d' b' l'. br_predict e d b l =
      Inr (((if di_addr d \<noteq> 0 then word_of_int (br_delay1 b) else 0, True), pf), d', b', l') \<and>
    br_perfect b' \<and> br_delay1 b' = br_delay1 b \<and> bl_perfect l'"
proof -
  define d0 where "d0 = di_setBiasBranch False d"
  define o1 where "o1 = (if isFuncRet (di_inst d) then Outcome_Correct else Outcome_None)"
  define ras where "ras = (if di_addr d \<noteq> 0 then (br_ras b)\<lparr>bp_taken_counter := bp_taken_counter (br_ras b) + 1\<rparr> else br_ras b)"
  have d0: "di_isTaken d0 = Inr (di_addr d \<noteq> 0)" "isControl (di_inst d0) = Inr True" "\<not> di_isBiasBranch d0"
    using ctl by (simp_all add: d0_def di_isTaken_def)
  have r: "bp_doPredict (bp_pure ras_predict) d0 (br_ras b) = Inr ((o1, d0), ras)"
    using assms(1) d0 by (simp add: bp_doPredict_def bp_pure_def ras_predict_def br_perfect_def o1_def ras_def d0_def)
  obtain l1 l2 l3 where lv: "br_predict1 e d0 l = Inr ((Outcome_Correct, d0), l1)"
    "(if bl_pred2 l1 = None then Inr ((Outcome_Correct, d0), l1) else br_predict2 e d0 l1) = Inr ((Outcome_Correct, d0), l2)"
    "(if bl_pred3 l2 = None then Inr ((Outcome_Correct, d0), l2) else br_predict3 e d0 l2) = Inr ((Outcome_Correct, d0), l3)"
    "bl_perfect l3"
    using perfect_levels [OF assms(2) d0(2)] .
  have a: "\<exists>a. (if o1 \<noteq> Outcome_None then br_ask_after_ras e o1 d0 l else br_ask_levels e d0 l) = Inr ((a, d0), l3) \<and>
      ba_outcome1 a = Outcome_Correct \<and> ba_outcome2 a = Outcome_Correct \<and> ba_outcome3 a = Outcome_Correct \<and> \<not> ba_first_bias a"
    unfolding br_ask_after_ras_def br_ask_levels_def lv(1) bind_res_simps split_conv Let_def lv(2) lv(3) o1_def
    using lv d0(3) by (auto simp: if_distrib)
  then obtain a where a: "(if o1 \<noteq> Outcome_None then br_ask_after_ras e o1 d0 l else br_ask_levels e d0 l) = Inr ((a, d0), l3)"
    "ba_outcome1 a = Outcome_Correct" "ba_outcome2 a = Outcome_Correct" "ba_outcome3 a = Outcome_Correct" "\<not> ba_first_bias a" by blast
  have "ras_tryPrefetch ras = Inr []" using assms(1) by (simp add: ras_tryPrefetch_def br_perfect_def ras_def)
  then have pf: "(if c then ras_tryPrefetch (br_ras (b\<lparr>br_ras := ras\<rparr>)) else Inr []) = Inr []" for c by simp
  have taken: "di_isTaken (br_mark x (if c then di_setBiasBranch True d0 else d0)) = Inr (di_addr d \<noteq> 0)" for x c
    using d0(1) by (simp add: di_isTaken_def)
  have ov: "br_override c a = a" for c using a(5) by (simp add: br_override_def)
  have "\<exists>d'. br_predict e d b l = Inr ((br_delay (b\<lparr>br_ras := ras\<rparr>) (di_addr d \<noteq> 0) a, []), d', b\<lparr>br_ras := ras\<rparr>, l3)"
    unfolding br_predict_def Let_def d0_def [symmetric] r bind_res_simps split_conv a(1) pf ov taken by blast
  moreover have "br_delay (b\<lparr>br_ras := ras\<rparr>) (di_addr d \<noteq> 0) a = (if di_addr d \<noteq> 0 then word_of_int (br_delay1 b) else 0, True)"
    using a by (simp add: br_delay_def Let_def)
  moreover have "br_perfect (b\<lparr>br_ras := ras\<rparr>)" using assms(1) by (simp add: br_perfect_def ras_def)
  ultimately show ?thesis using lv(4) by auto
qed

text \<open>
  End to end: when the present levels are oracles with perfect target buffers (and the stack is switched off), no
  instruction of a fetch block ever waits for the execution of a branch; a taken instruction loses the delay
  of the first level, the others nothing.
\<close>

theorem perfect_front_end_never_stalls:
  assumes "br_perfect b" and "bl_perfect l" and "\<forall>d \<in> set ds. isControl (di_inst d) = Inr True"
  shows "\<exists>b' l'. br_block e ds b l =
    Inr (map (\<lambda>d. (if di_addr d \<noteq> 0 then word_of_int (br_delay1 b) else 0, True)) ds, b', l')"
  using assms
proof (induction ds arbitrary: b l)
  case (Cons d ds)
  then have "isControl (di_inst d) = Inr True" by simp
  from perfect_step [OF Cons.prems(1,2) this] obtain pf d' b1 l1 where p: "br_predict e d b l =
      Inr (((if di_addr d \<noteq> 0 then word_of_int (br_delay1 b) else 0, True), pf), d', b1, l1)"
    "br_perfect b1" "br_delay1 b1 = br_delay1 b" "bl_perfect l1" by blast
  from Cons.IH [OF p(2,4)] Cons.prems(3) p(3) obtain b2 l2 where "br_block e ds b1 l1 =
      Inr (map (\<lambda>d. (if di_addr d \<noteq> 0 then word_of_int (br_delay1 b) else 0, True)) ds, b2, l2)" by auto
  with p(1) show ?case by simp
qed simp

lemma perfect_front_end_never_stalls_witness:
  "\<exists>b' l'. br_block (undefined :: (unit, unit, unit, unit) bp_engines) [di_branch_at 64 0, di_branch_at 68 200]
      \<lparr>br_ras = (ras_create 0 False 0 0)\<lparr>bp_taken_counter := 0\<rparr>, br_delay1 = 1, br_delay2 = 2, br_delay3 = 3\<rparr>
      \<lparr>bl_pred1 = Some (Bp_oracle \<lparr>bp_taken_counter = 0, bp_addrShift = 0, bw_btb = undefined\<lparr>bt_data := []\<rparr>\<rparr>),
       bl_pred2 = None, bl_pred3 = None\<rparr> = Inr ([(0, True), (1, True)], b', l')"
proof -
  let ?b = "\<lparr>br_ras = (ras_create 0 False 0 0)\<lparr>bp_taken_counter := 0\<rparr>, br_delay1 = 1, br_delay2 = 2, br_delay3 = 3\<rparr>"
  let ?l = "\<lparr>bl_pred1 = Some (Bp_oracle \<lparr>bp_taken_counter = 0, bp_addrShift = 0, bw_btb = undefined\<lparr>bt_data := []\<rparr>\<rparr>),
       bl_pred2 = None, bl_pred3 = None\<rparr> :: (unit, unit, unit, unit) bp_levels"
  have "br_perfect ?b" by (simp add: br_perfect_def ras_create_def)
  moreover have "bl_perfect ?l" by (simp add: bl_perfect_def level_perfect_def bw_oracle_def)
  moreover have "\<forall>d \<in> set [di_branch_at 64 0, di_branch_at 68 200]. isControl (di_inst d) = Inr True"
    by (simp add: di_branch_at_def di_jump_at_def isControl_total isBranch_def isJump_def isFuncRet_def
        doesCtrl2Label_def isFuncCall_def doesJump2Label_def)
  ultimately show ?thesis
    using perfect_front_end_never_stalls [of ?b ?l "[di_branch_at 64 0, di_branch_at 68 200]" undefined]
    by (simp add: di_branch_at_def di_jump_at_def)
qed

end
