(* ===== verification/Core_State.thy ===== *)
theory Core_State
  imports Dep_Window Lsq Store_Set Store_Buffer
begin

text \<open>
  The back end of an out-of-order core: the state that the clusters (\<open>simu/cluster.cpp\<close>), their
  functional units (\<open>simu/resource.cpp\<close>) and the processor (\<open>simu/oooprocessor.cpp\<close>) share through pointers, and
  the operations of the clusters. Clusters, units and ports are numbers that map to records. What the
  back end asks of the parts outside (a callback at a later time, a request to the first-level cache, a call of
  the prefetcher or the fetch engine) is an event of a trace. The statistics counters and the trace
  output are left out.
\<close>

section \<open>State\<close>

datatype stall_cause =
    NoStall | SmallWinStall | SmallROBStall | SmallREGStall | DivergeStall | OutsLoadsStall | OutsStoresStall
  | OutsBranchesStall | ReplaysStall | SyscallStall | MaxStall | Suspend

text \<open>The three classes of clusters differ in the moment at which they give an entry of the window back.\<close>

datatype cluster_kind = ExecutingCluster | ExecutedCluster | RetiredCluster

record cluster_pool =
  cp_kind :: cluster_kind
  cp_MaxWinSize :: int
  cp_windowSize :: int
  cp_nRegs :: int
  cp_regPool :: int
  cp_lateAlloc :: bool

record fu_load =
  ul_LSDelay :: u16
  ul_freeEntries :: int
  ul_enableDcache :: bool
  ul_LSQlateAlloc :: bool

record fu_store =
  us_freeEntries :: int
  us_enableDcache :: bool
  us_LSQlateAlloc :: bool

record fu_branch =
  ub_freeBranches :: int
  ub_drainOnMiss :: bool
  ub_bpred_delay :: u16

record fu_ralu =
  ua_blockUntil :: sim_time

datatype fu_kind = FULoad fu_load | FUStore fu_store | FUGeneric | FUBranch fu_branch | FURALU fu_ralu

record resource =
  rs_cluster :: nat
  rs_gen :: nat
  rs_lat :: u16
  rs_inorder :: bool
  rs_usedTime :: sim_time
  rs_kind :: fu_kind

text \<open>The callbacks a unit schedules, and its calls of other parts.\<close>

datatype core_event =
    Ev_executed sim_time nat
  | Ev_performed sim_time nat
  | Ev_performed_spec sim_time nat
  | Ev_cacheDispatched sim_time nat
  | Ev_specReqDL1Read nat
  | Ev_safeReqDL1Read nat
  | Ev_scb_clean_disp nat
  | Ev_scb_dirty_disp nat
  | Ev_pref_exe nat
  | Ev_pref_ret nat
  | Ev_unBlockFetch nat nat sim_time
  | Ev_scb sb_event

record core =
  co_self :: nat
  co_hid :: u32
  co_store :: dinst_store
  co_cluster :: "nat \<Rightarrow> cluster"
  co_window :: "nat \<Rightarrow> dep_window"
  co_pool :: "nat \<Rightarrow> cluster_pool"
  co_unit :: "nat \<Rightarrow> resource"
  co_port :: "nat \<Rightarrow> port"
  co_lsq :: lsq_full
  co_ss :: store_set
  co_scb :: store_buffer
  co_junk_line :: sb_line
  co_dl1_isBusy :: "addr \<Rightarrow> bool"
  co_MemoryReplay :: bool
  co_serialize_for :: int
  co_replayRecovering :: bool
  co_replayID :: sim_time
  co_flushing :: bool
  co_events :: "core_event list"

section \<open>Access\<close>

definition co_dinst :: "nat \<Rightarrow> 'a core_scheme \<Rightarrow> dinst" where
  "co_dinst d w = ds_obj (co_store w) d"

definition co_clock :: "'a core_scheme \<Rightarrow> sim_time" where
  "co_clock w = ds_globalClock (co_store w)"

definition co_update :: "nat \<Rightarrow> (dinst \<Rightarrow> dinst) \<Rightarrow> 'a core_scheme \<Rightarrow> 'a core_scheme" where
  "co_update d f w = w\<lparr>co_store := ds_update d f (co_store w)\<rparr>"

definition co_update_res :: "nat \<Rightarrow> (dinst \<Rightarrow> dinst res) \<Rightarrow> 'a core_scheme \<Rightarrow> 'a core_scheme res" where
  "co_update_res d f w = bind_res (f (co_dinst d w)) (\<lambda>x. Inr (co_update d (\<lambda>_. x) w))"

definition co_with_store :: "(dinst_store \<Rightarrow> dinst_store res) \<Rightarrow> 'a core_scheme \<Rightarrow> 'a core_scheme res" where
  "co_with_store f w = bind_res (f (co_store w)) (\<lambda>s. Inr (w\<lparr>co_store := s\<rparr>))"

definition co_emit :: "core_event \<Rightarrow> 'a core_scheme \<Rightarrow> 'a core_scheme" where
  "co_emit e w = w\<lparr>co_events := co_events w @ [e]\<rparr>"

definition co_on_pool :: "nat \<Rightarrow> (cluster_pool \<Rightarrow> cluster_pool) \<Rightarrow> 'a core_scheme \<Rightarrow> 'a core_scheme" where
  "co_on_pool c f w = w\<lparr>co_pool := (co_pool w)(c := f (co_pool w c))\<rparr>"

definition co_on_unit :: "nat \<Rightarrow> (fu_kind \<Rightarrow> fu_kind) \<Rightarrow> 'a core_scheme \<Rightarrow> 'a core_scheme" where
  "co_on_unit u f w = w\<lparr>co_unit := (co_unit w)(u := (co_unit w u)\<lparr>rs_kind := f (rs_kind (co_unit w u))\<rparr>)\<rparr>"

text \<open>A step of the dependence window of a cluster.\<close>

definition co_in_window :: "nat \<Rightarrow> (dw_world \<Rightarrow> dw_world res) \<Rightarrow> 'a core_scheme \<Rightarrow> 'a core_scheme res" where
  "co_in_window c f w =
    bind_res (f \<lparr>ww_store = co_store w, ww_cluster = co_cluster w, ww_window = co_window w c\<rparr>)
      (\<lambda>r. Inr (w\<lparr>co_store := ww_store r, co_cluster := ww_cluster r, co_window := (co_window w)(c := ww_window r)\<rparr>))"

definition loop_res :: "'a res option \<Rightarrow> 'a res" where
  "loop_res r = (case r of None \<Rightarrow> Inl Diverged | Some x \<Rightarrow> x)"

text \<open>\<open>dinst->getCluster()\<close> and \<open>dinst->getClusterResource()\<close>, dereferenced.\<close>

definition co_cluster_of :: "nat \<Rightarrow> (nat \<Rightarrow> 'b res) \<Rightarrow> 'a core_scheme \<Rightarrow> 'b res" where
  "co_cluster_of d k w = deref (di_cluster (co_dinst d w)) k"

definition co_resource_of :: "nat \<Rightarrow> (nat \<Rightarrow> 'b res) \<Rightarrow> 'a core_scheme \<Rightarrow> 'b res" where
  "co_resource_of d k w = deref (di_resource (co_dinst d w)) k"

section \<open>Entries and registers of a cluster\<close>

definition cl_delEntry :: "nat \<Rightarrow> 'a core_scheme \<Rightarrow> 'a core_scheme res" where
  "cl_delEntry c w =
    (let w = co_on_pool c (\<lambda>p. p\<lparr>cp_windowSize := cp_windowSize p + 1\<rparr>) w
     in assert_res (cp_windowSize (co_pool w c) \<le> cp_MaxWinSize (co_pool w c)) (Inr w))"

definition cl_newEntry :: "nat \<Rightarrow> 'a core_scheme \<Rightarrow> 'a core_scheme res" where
  "cl_newEntry c w =
    (let w = co_on_pool c (\<lambda>p. p\<lparr>cp_windowSize := cp_windowSize p - 1\<rparr>) w
     in assert_res (0 \<le> cp_windowSize (co_pool w c)) (Inr w))"

definition cl_add_reg_pool :: "nat \<Rightarrow> 'a core_scheme \<Rightarrow> 'a core_scheme" where
  "cl_add_reg_pool c w = co_on_pool c (\<lambda>p. p\<lparr>cp_regPool := cp_regPool p + 1\<rparr>) w"

definition cl_getAvailSpace :: "nat \<Rightarrow> 'a core_scheme \<Rightarrow> int" where
  "cl_getAvailSpace c w = min (cp_regPool (co_pool w c)) (cp_windowSize (co_pool w c))"

definition cl_take_reg :: "bool \<Rightarrow> nat \<Rightarrow> nat \<Rightarrow> 'a core_scheme \<Rightarrow> 'a core_scheme res" where
  "cl_take_reg checked c d w =
    (if hasDstRegister (di_inst (co_dinst d w))
     then assert_res (checked \<longrightarrow> cp_regPool (co_pool w c) > 0)
            (Inr (co_on_pool c (\<lambda>p. p\<lparr>cp_regPool := cp_regPool p - 1\<rparr>) w))
     else Inr w)"

definition cl_add_inst :: "nat \<Rightarrow> nat \<Rightarrow> 'a core_scheme \<Rightarrow> 'a core_scheme res" where
  "cl_add_inst c d w =
    bind_res (if \<not> cp_lateAlloc (co_pool w c) then cl_take_reg True c d w else Inr w) (\<lambda>w.
    bind_res (cl_newEntry c w) (co_in_window c (dw_add_inst d)))"

definition cl_add_inst_retry :: "nat \<Rightarrow> nat \<Rightarrow> 'a core_scheme \<Rightarrow> 'a core_scheme res" where
  "cl_add_inst_retry c d w =
    (if \<not> fl_in_cluster (di_flags (co_dinst d w)) then co_in_window c (dw_add_inst d) w else Inr w)"

section \<open>Execution\<close>

text \<open>\<open>OoOProcessor::executing\<close>; its \<open>executed\<close> and \<open>flushed\<close> do nothing in the configuration compiled.\<close>

definition oo_executing :: "nat \<Rightarrow> 'a core_scheme \<Rightarrow> 'a core_scheme res" where
  "oo_executing d w =
    (if di_isTransient (co_dinst d w) then Inr (co_update d (di_markExecutingTransient (co_clock w)) w)
     else co_update_res d (di_markExecuting (co_clock w)) w)"

definition cl_leave_ready :: "nat \<Rightarrow> 'a core_scheme \<Rightarrow> 'a core_scheme" where
  "cl_leave_ready c w =
    w\<lparr>co_cluster := (co_cluster w)(c := (co_cluster w c)\<lparr>cl_nready := cl_nready (co_cluster w c) - 1\<rparr>)\<rparr>"

definition cl_executing :: "nat \<Rightarrow> nat \<Rightarrow> 'a core_scheme \<Rightarrow> 'a core_scheme res" where
  "cl_executing c d w =
    (let w = cl_leave_ready c w
     in bind_res (if cp_lateAlloc (co_pool w c)
                  then cl_take_reg (cp_kind (co_pool w c) \<noteq> RetiredCluster) c d w else Inr w) (\<lambda>w.
        bind_res (oo_executing d w) (\<lambda>w.
          if cp_kind (co_pool w c) = ExecutingCluster then cl_delEntry c w else Inr w)))"

text \<open>\<open>ExecutedCluster\<close> gives the entry back once, which the mark of the instruction remembers.\<close>

definition cl_del_entry_once :: "nat \<Rightarrow> nat \<Rightarrow> 'a core_scheme \<Rightarrow> 'a core_scheme res" where
  "cl_del_entry_once c d w =
    (if fl_del_entry (di_flags (co_dinst d w)) then Inr w
     else cl_delEntry c (co_update d di_mark_del_entry w))"

definition cl_executed :: "nat \<Rightarrow> nat \<Rightarrow> 'a core_scheme \<Rightarrow> 'a core_scheme res" where
  "cl_executed c d w =
    bind_res (co_in_window c (\<lambda>v. loop_res (dw_executed (co_self w) d v)) w) (\<lambda>w.
      if cp_kind (co_pool w c) \<noteq> ExecutedCluster then Inr w
      else bind_res (if di_isTransient (co_dinst d w) then Inr False else di_hasPending (co_dinst d w)) (\<lambda>pend.
             assert_res (\<not> pend) (cl_del_entry_once c d w)))"

definition cl_del_entry_flush :: "nat \<Rightarrow> nat \<Rightarrow> 'a core_scheme \<Rightarrow> 'a core_scheme res" where
  "cl_del_entry_flush c d w =
    (if cp_kind (co_pool w c) = ExecutedCluster then cl_del_entry_once c d w
     else cl_delEntry c (co_update d di_mark_del_entry w))"

end
