(* ===== verification/Functional_Units.thy ===== *)
theory Functional_Units
  imports Core_State
begin

text \<open>
  The functional units of a cluster (\<open>simu/resource.cpp\<close>, compiled with \<open>ENABLE_SCB_ALL\<close>, \<open>USE_PNR\<close> and, through
  \<open>store_buffer.hpp\<close>, \<open>ENABLE_SCB_SPEC\<close>): one operation per
  method of the five classes, and the virtual methods of \<open>Resource\<close> by the kind of the unit. A unit
  is given by its number \<open>u\<close>, an instruction by its number \<open>d\<close>.
\<close>

section \<open>What the units share\<close>

definition fu_gen_schedule :: "nat \<Rightarrow> nat \<Rightarrow> 'a core_scheme \<Rightarrow> 'a core_scheme res" where
  "fu_gen_schedule u d w =
    (let g = rs_gen (co_unit w u); x = co_dinst d w
     in bind_res (port_schedule (fl_keep_stats (di_flags x)) (di_ID x) (di_isTransient x) d (co_port w g))
          (\<lambda>p. Inr (w\<lparr>co_port := (co_port w)(g := p)\<rparr>)))"

text \<open>\<open>OoOProcessor::replay\<close>: a load has to be executed again.\<close>

definition oo_replay :: "nat \<Rightarrow> 'a core_scheme \<Rightarrow> 'a core_scheme res" where
  "oo_replay d w =
    (if co_serialize_for w \<noteq> 0 then Inr w
     else assert_res (isLoad (di_inst (co_dinst d w)))
       (if \<not> co_MemoryReplay w then Inr w
        else let w = co_update d di_markReplay w;
                 w = (if co_replayID w < di_ID (co_dinst d w) then w\<lparr>co_replayID := di_ID (co_dinst d w)\<rparr> else w)
             in if co_replayRecovering w then Inr w else Inr (w\<lparr>co_replayRecovering := True\<rparr>)))"

definition fu_lsq_remove :: "nat \<Rightarrow> 'a core_scheme \<Rightarrow> 'a core_scheme res" where
  "fu_lsq_remove d w = bind_res (lf_remove d (co_store w) (co_lsq w)) (\<lambda>q. Inr (w\<lparr>co_lsq := q\<rparr>))"

definition fu_lsq_inc :: "'a core_scheme \<Rightarrow> 'a core_scheme" where
  "fu_lsq_inc w = w\<lparr>co_lsq := lq_incFreeEntries (co_lsq w)\<rparr>"

definition fu_storeset_remove :: "nat \<Rightarrow> 'a core_scheme \<Rightarrow> 'a core_scheme res" where
  "fu_storeset_remove d w = bind_res (ss_remove d (co_ss w, co_store w)) (\<lambda>t. Inr (w\<lparr>co_ss := t\<rparr>))"

definition fu_lsq_executing :: "nat \<Rightarrow> 'a core_scheme \<Rightarrow> (nat option \<times> 'a core_scheme) res" where
  "fu_lsq_executing d w =
    bind_res (lf_executing d (co_lsq w, co_store w)) (\<lambda>(r, q, s). Inr (r, w\<lparr>co_lsq := q, co_store := s\<rparr>))"

text \<open>The part of \<open>canIssue\<close> that loads and stores have in common: a place in the load/store queue.\<close>

definition fu_enter_lsq :: "stall_cause \<Rightarrow> nat \<Rightarrow> nat \<Rightarrow> 'a core_scheme \<Rightarrow> (stall_cause \<times> 'a core_scheme) res" where
  "fu_enter_lsq cause u d w =
    (if \<not> lq_hasFreeEntries (co_lsq w) then Inr (cause, w)
     else if rs_inorder (co_unit w u) \<and> lq_hasPendingResolution (co_lsq w) then Inr (cause, w)
     else bind_res (lf_insert d (co_store w) (co_lsq w)) (\<lambda>(ok, q).
       let w = w\<lparr>co_lsq := q\<rparr>
       in if \<not> ok then Inr (cause, w)
          else bind_res (ss_insert d (co_ss w, co_store w)) (\<lambda>(_, t, s).
            Inr (NoStall, w\<lparr>co_ss := t, co_store := s, co_lsq := lq_decFreeEntries (co_lsq w)\<rparr>))))"

section \<open>Loads\<close>

definition fu_load_add :: "int \<Rightarrow> nat \<Rightarrow> 'a core_scheme \<Rightarrow> 'a core_scheme" where
  "fu_load_add n u w =
    co_on_unit u (\<lambda>k. case k of FULoad l \<Rightarrow> FULoad (l\<lparr>ul_freeEntries := ul_freeEntries l + n\<rparr>) | _ \<Rightarrow> k) w"

definition load_canIssue :: "fu_load \<Rightarrow> nat \<Rightarrow> nat \<Rightarrow> 'a core_scheme \<Rightarrow> (stall_cause \<times> 'a core_scheme) res" where
  "load_canIssue l u d w =
    (if ul_freeEntries l \<le> 0 then assert_res (ul_freeEntries l = 0) (Inr (OutsLoadsStall, w))
     else bind_res (fu_enter_lsq OutsLoadsStall u d w) (\<lambda>(sc, w).
       if sc \<noteq> NoStall then Inr (sc, w)
       else Inr (NoStall, if ul_LSQlateAlloc l then w else fu_load_add (- 1) u w)))"

text \<open>A load that is forwarded needs no access to the cache.\<close>

definition load_is_forwarded :: "fu_load \<Rightarrow> nat \<Rightarrow> 'a core_scheme \<Rightarrow> bool res" where
  "load_is_forwarded l d w =
    (let x = co_dinst d w
     in if fl_loadForwarded (di_flags x) then Inr True
        else bind_res (sb_is_ld_forward (di_addr x) (co_scb w)) (\<lambda>fwd.
               Inr (fwd \<or> \<not> ul_enableDcache l \<or> di_is_destroy_transient x)))"

text \<open>A speculative load calls \<open>performed_spec\<close> at that time, a safe load \<open>performed\<close>.\<close>

definition load_performs_at :: "sim_time \<Rightarrow> nat \<Rightarrow> 'a core_scheme \<Rightarrow> 'a core_scheme" where
  "load_performs_at t d w =
    (if di_is_spec (co_dinst d w)
     then co_update d di_markDispatched (co_emit (Ev_performed_spec t d) w)
     else co_emit (Ev_pref_exe d)
            (co_update d di_markDispatched (co_emit (Ev_performed t d) (co_update d di_set_load_scb_all w))))"

definition do_load_execution :: "fu_load \<Rightarrow> nat \<Rightarrow> sim_time \<Rightarrow> nat \<Rightarrow> 'a core_scheme \<Rightarrow> 'a core_scheme res" where
  "do_load_execution l u when d w =
    (let w = (if ul_LSQlateAlloc l then fu_load_add (- 1) u w else w)
     in bind_res (cl_executing (rs_cluster (co_unit w u)) d w) (\<lambda>w.
        bind_res (fu_lsq_executing d w) (\<lambda>(q, w). assert_res (q = None)
         (bind_res (load_is_forwarded l d w) (\<lambda>fwd.
            if fwd then Inr (load_performs_at (when + ucast (ul_LSDelay l)) d w)
            else Inr (co_emit (Ev_cacheDispatched (when + ucast (rs_lat (co_unit w u))) d) w))))))"

text \<open>The request of a speculative load is answered by \<open>performed_spec\<close>, that of a safe load by \<open>performed\<close>.\<close>

definition load_cacheDispatched :: "fu_load \<Rightarrow> nat \<Rightarrow> 'a core_scheme \<Rightarrow> 'a core_scheme res" where
  "load_cacheDispatched l d w =
    assert_res (ul_enableDcache l) (assert_res (\<not> fl_loadForwarded (di_flags (co_dinst d w)))
     (let w = co_update d di_markDispatched w;
          w = (if di_is_spec (co_dinst d w) then co_emit (Ev_specReqDL1Read d) w
               else co_emit (Ev_safeReqDL1Read d) (co_update d di_set_load_scb_all w))
      in Inr (co_emit (Ev_pref_exe d) w)))"

text \<open>\<open>getChained\<close> is 0 in the configuration compiled.\<close>

definition load_executed :: "nat \<Rightarrow> nat \<Rightarrow> 'a core_scheme \<Rightarrow> 'a core_scheme res" where
  "load_executed u d w =
    (if di_isExecuted (co_dinst d w) then Inr w
     else assert_res (di_fetch (co_dinst d w) = None)
       (bind_res (fu_storeset_remove d w) (cl_executed (rs_cluster (co_unit w u)) d)))"

definition load_leave_scb :: "nat \<Rightarrow> 'a core_scheme \<Rightarrow> 'a core_scheme" where
  "load_leave_scb d w =
    (if di_is_present_in_scb (co_dinst d w)
     then co_update d di_reset_present_in_scb (w\<lparr>co_scb := sb_remove_spec_load (co_dinst d w) (co_scb w)\<rparr>)
     else w)"

text \<open>
  A speculative load that has become safe hands its line, and the lines it had prefetched, to the first-level
  cache; the cache answers the request by \<open>performed_safe_write\<close>.
\<close>

definition load_to_cache :: "nat \<Rightarrow> 'a core_scheme \<Rightarrow> 'a core_scheme" where
  "load_to_cache d w =
    (let x = co_dinst d w;
         w = co_emit (if sb_is_clean_disp x (co_scb w) then Ev_scb_clean_disp d else Ev_scb_dirty_disp d) w;
         (es, b) = sb_promote (di_addr x) (fl_keep_stats (di_flags x)) (di_pc x) (co_scb w)
     in w\<lparr>co_scb := b, co_events := co_events w @ map Ev_scb es\<rparr>)"

definition load_make_safe :: "fu_load \<Rightarrow> nat \<Rightarrow> 'a core_scheme \<Rightarrow> 'a core_scheme" where
  "load_make_safe l d w =
    (let w = co_update d di_set_safe (load_leave_scb d w)
     in if ul_enableDcache l \<and> \<not> di_isTransient (co_dinst d w) then load_to_cache d w else w)"

definition load_preretire :: "fu_load \<Rightarrow> nat \<Rightarrow> nat \<Rightarrow> 'a core_scheme \<Rightarrow> (bool \<times> 'a core_scheme) res" where
  "load_preretire l u d w =
    (if \<not> fl_dispatched (di_flags (co_dinst d w)) then Inr (False, w)
     else let w = (if di_is_spec (co_dinst d w) then load_make_safe l d w else w)
          in Inr (True, if fl_try_flush_transient (di_flags (co_dinst d w)) then w
                        else co_emit (Ev_pref_ret d) (fu_load_add 1 u w)))"

definition load_retire :: "nat \<Rightarrow> 'a core_scheme \<Rightarrow> (bool \<times> 'a core_scheme) res" where
  "load_retire d w =
    (let x = co_dinst d w
     in if \<not> fl_performed (di_flags x) then Inr (False, w)
        else bind_res (if fl_try_flush_transient (di_flags x) then Inr w else fu_lsq_remove d (fu_lsq_inc w))
               (\<lambda>w. Inr (True, w)))"

definition load_release :: "bool \<Rightarrow> nat \<Rightarrow> nat \<Rightarrow> 'a core_scheme \<Rightarrow> 'a core_scheme res" where
  "load_release from_set u d w =
    bind_res (fu_lsq_remove d (fu_lsq_inc (fu_load_add 1 u w))) (\<lambda>w.
    bind_res (if from_set then fu_storeset_remove d w else Inr w) (co_with_store (di_clearRATEntry d)))"

definition load_try_flushed :: "nat \<Rightarrow> nat \<Rightarrow> 'a core_scheme \<Rightarrow> 'a core_scheme res" where
  "load_try_flushed u d w =
    (let w = co_update d di_mark_try_flush_transient w; x = co_dinst d w
     in if \<not> fl_retired (di_flags x) \<and> di_isExecuted x then load_release False u d w
        else if di_isExecuting x \<or> di_isIssued x then load_release True u d w
        else if di_isRenamed x then load_release True u d w
        else Inr w)"

definition load_performed :: "nat \<Rightarrow> nat \<Rightarrow> 'a core_scheme \<Rightarrow> 'a core_scheme res" where
  "load_performed u d w =
    bind_res (co_update_res d di_markPerformed w) (\<lambda>w.
      if \<not> di_isExecuted (co_dinst d w) then load_executed u d w else Inr w)"

text \<open>The store buffer takes the line of a load as it takes that of a store.\<close>

definition fu_add_st :: "nat \<Rightarrow> 'a core_scheme \<Rightarrow> 'a core_scheme res" where
  "fu_add_st d w =
    bind_res (sb_add_st (co_junk_line w) (co_dinst d w) (co_scb w)) (\<lambda>(_, es, b).
      Inr (w\<lparr>co_scb := b, co_events := co_events w @ map Ev_scb es\<rparr>))"

definition load_enter_scb :: "nat \<Rightarrow> 'a core_scheme \<Rightarrow> 'a core_scheme res" where
  "load_enter_scb d w =
    (if sb_can_accept_st (di_addr (co_dinst d w)) (co_scb w)
     then bind_res (fu_add_st d w) (\<lambda>w. Inr (co_update d di_set_present_in_scb w))
     else Inr w)"

definition load_performed_spec :: "nat \<Rightarrow> nat \<Rightarrow> 'a core_scheme \<Rightarrow> 'a core_scheme res" where
  "load_performed_spec u d w =
    bind_res (if di_is_spec (co_dinst d w) then load_enter_scb d w else co_update_res d di_markPerformed w) (\<lambda>w.
    bind_res (if \<not> di_isExecuted (co_dinst d w) then load_executed u d w else Inr w) (\<lambda>w.
      if fl_retired (di_flags (co_dinst d w))
      then if di_is_load_destroyed_performed_spec (co_dinst d w)
           then co_with_store (di_destroy (co_self w) d) w
           else Inr (co_update d di_set_load_destroyed_performed_safe_write w)
      else Inr (co_update d di_set_load_destroyed_retired_spec
                 (co_update d di_set_load_destroyed_performed_safe_write w))))"

definition load_performed_safe_write :: "nat \<Rightarrow> 'a core_scheme \<Rightarrow> 'a core_scheme res" where
  "load_performed_safe_write d w =
    bind_res (co_update_res d di_markPerformed w) (\<lambda>w.
      let w = load_leave_scb d w
      in if fl_retired (di_flags (co_dinst d w))
         then if di_is_load_destroyed_performed_safe_write (co_dinst d w)
              then co_with_store (di_destroy (co_self w) d) w
              else Inr (co_update d di_set_load_destroyed_performed_spec w)
         else Inr (co_update d di_set_load_destroyed_retired_safe_write
                    (co_update d di_set_load_destroyed_performed_spec w)))"

section \<open>Stores\<close>

definition fu_store_add :: "int \<Rightarrow> nat \<Rightarrow> 'a core_scheme \<Rightarrow> 'a core_scheme" where
  "fu_store_add n u w =
    co_on_unit u (\<lambda>k. case k of FUStore l \<Rightarrow> FUStore (l\<lparr>us_freeEntries := us_freeEntries l + n\<rparr>) | _ \<Rightarrow> k) w"

definition store_canIssue :: "fu_store \<Rightarrow> nat \<Rightarrow> nat \<Rightarrow> 'a core_scheme \<Rightarrow> (stall_cause \<times> 'a core_scheme) res" where
  "store_canIssue l u d w =
    (if isStoreAddress (di_inst (co_dinst d w)) then Inr (NoStall, w)
     else if us_freeEntries l \<le> 0 then assert_res (us_freeEntries l = 0) (Inr (OutsStoresStall, w))
     else bind_res (fu_enter_lsq OutsStoresStall u d w) (\<lambda>(sc, w).
       if sc \<noteq> NoStall then Inr (sc, w) else Inr (NoStall, fu_store_add (- 1) u w)))"

text \<open>A younger load that has read too early is replayed.\<close>

definition store_check_order :: "nat \<Rightarrow> 'a core_scheme \<Rightarrow> 'a core_scheme res" where
  "store_check_order d w =
    (if isStoreAddress (di_inst (co_dinst d w)) then Inr w
     else bind_res (fu_lsq_executing d w) (\<lambda>(q, w).
       case q of
         None \<Rightarrow> Inr w
       | Some q \<Rightarrow> bind_res (oo_replay q w) (\<lambda>w.
           bind_res (ss_stldViolation_dinst q d (co_ss w, co_store w)) (\<lambda>t. Inr (w\<lparr>co_ss := t\<rparr>)))))"

definition store_executing :: "nat \<Rightarrow> nat \<Rightarrow> 'a core_scheme \<Rightarrow> 'a core_scheme res" where
  "store_executing u d w =
    bind_res (store_check_order d w) (\<lambda>w.
    bind_res (cl_executing (rs_cluster (co_unit w u)) d w) (fu_gen_schedule u d))"

definition store_executed :: "nat \<Rightarrow> nat \<Rightarrow> 'a core_scheme \<Rightarrow> 'a core_scheme res" where
  "store_executed u d w =
    bind_res (if isStore (di_inst (co_dinst d w)) then fu_storeset_remove d w else Inr w)
      (cl_executed (rs_cluster (co_unit w u)) d)"

definition do_store_execution :: "nat \<Rightarrow> sim_time \<Rightarrow> nat \<Rightarrow> 'a core_scheme \<Rightarrow> 'a core_scheme res" where
  "do_store_execution u when d w = store_executed u d w"

text \<open>The mark is set after the instruction may have been given back to the pool.\<close>

definition store_performed :: "nat \<Rightarrow> 'a core_scheme \<Rightarrow> 'a core_scheme res" where
  "store_performed d w =
    (let x = co_dinst d w;
         w = (if di_is_write_scb_r x then w\<lparr>co_scb := sb_set_clean_scb x (co_scb w)\<rparr> else w)
     in assert_res (\<not> di_isTransient x \<longrightarrow> \<not> fl_performed (di_flags x))
         (bind_res (if fl_retired (di_flags x) then co_with_store (di_destroy (co_self w) d) w else Inr w)
           (co_update_res d di_markPerformed)))"

definition store_preretire :: "nat \<Rightarrow> nat \<Rightarrow> bool \<Rightarrow> 'a core_scheme \<Rightarrow> (bool \<times> 'a core_scheme) res" where
  "store_preretire u d flushing w =
    (let x = co_dinst d w
     in if \<not> di_isExecuted x then Inr (False, w)
        else if isStoreAddress (di_inst x) then Inr (True, w)
        else if flushing then bind_res (store_performed d (fu_store_add 1 u w)) (\<lambda>w. Inr (True, w))
        else if \<not> sb_can_accept_st (di_addr x) (co_scb w) then Inr (False, w)
        else if co_dl1_isBusy w (di_addr x) then Inr (False, w)
        else bind_res (if \<not> di_isTransient x \<or> \<not> di_is_spec x then fu_add_st d w else Inr w) (\<lambda>w.
             bind_res (store_performed d w) (\<lambda>w. Inr (True, fu_store_add 1 u w))))"

definition store_retire :: "nat \<Rightarrow> 'a core_scheme \<Rightarrow> (bool \<times> 'a core_scheme) res" where
  "store_retire d w =
    (if isStoreAddress (di_inst (co_dinst d w)) then Inr (True, w)
     else assert_res (\<not> fl_retired (di_flags (co_dinst d w)))
       (bind_res (co_update_res d di_markRetired w) (\<lambda>w.
        bind_res (co_with_store (di_clearRATEntry d) w) (\<lambda>w.
        bind_res (fu_lsq_remove d w) (\<lambda>w. Inr (True, fu_lsq_inc w))))))"

definition store_try_flushed :: "nat \<Rightarrow> nat \<Rightarrow> 'a core_scheme \<Rightarrow> 'a core_scheme res" where
  "store_try_flushed u d w =
    bind_res (fu_lsq_remove d (fu_store_add 1 u w)) (\<lambda>w.
    bind_res (fu_storeset_remove d (fu_lsq_inc w)) (store_performed d))"

section \<open>Simple units\<close>

definition generic_executed :: "nat \<Rightarrow> nat \<Rightarrow> 'a core_scheme \<Rightarrow> 'a core_scheme res" where
  "generic_executed u d w =
    bind_res (cl_executed (rs_cluster (co_unit w u)) d w) (co_update_res d di_markPerformed)"

definition do_generic_execution :: "nat \<Rightarrow> sim_time \<Rightarrow> nat \<Rightarrow> 'a core_scheme \<Rightarrow> 'a core_scheme res" where
  "do_generic_execution u when d w =
    (let nlat = when + ucast (rs_lat (co_unit w u))
     in bind_res (cl_executing (rs_cluster (co_unit w u)) d w) (\<lambda>w. Inr (co_emit (Ev_executed nlat d) w)))"

text \<open>\<open>performed\<close> of a unit that is not a memory unit marks the instruction and fails.\<close>

definition not_memory_performed :: "nat \<Rightarrow> 'a core_scheme \<Rightarrow> 'a core_scheme res" where
  "not_memory_performed d w = bind_res (co_update_res d di_markPerformed w) (\<lambda>w. assert_res False (Inr w))"

section \<open>Branches\<close>

definition fu_branch_add :: "int \<Rightarrow> nat \<Rightarrow> 'a core_scheme \<Rightarrow> 'a core_scheme" where
  "fu_branch_add n u w =
    co_on_unit u (\<lambda>k. case k of FUBranch b \<Rightarrow> FUBranch (b\<lparr>ub_freeBranches := ub_freeBranches b + n\<rparr>) | _ \<Rightarrow> k) w"

definition branch_create :: "int \<Rightarrow> bool \<Rightarrow> u16 \<Rightarrow> fu_branch res" where
  "branch_create mb drain delay =
    assert_res (mb > 0) (Inr \<lparr>ub_freeBranches = mb, ub_drainOnMiss = drain, ub_bpred_delay = delay\<rparr>)"

definition branch_canIssue :: "fu_branch \<Rightarrow> nat \<Rightarrow> nat \<Rightarrow> 'a core_scheme \<Rightarrow> (stall_cause \<times> 'a core_scheme) res" where
  "branch_canIssue b u d w =
    bind_res (isControl (di_inst (co_dinst d w))) (\<lambda>c. assert_res c
      (if ub_freeBranches b = 0 then Inr (OutsBranchesStall, w) else Inr (NoStall, fu_branch_add (- 1) u w)))"

definition do_branch_execution :: "fu_branch \<Rightarrow> nat \<Rightarrow> sim_time \<Rightarrow> nat \<Rightarrow> 'a core_scheme \<Rightarrow> 'a core_scheme res" where
  "do_branch_execution b u when d w =
    bind_res (cl_executing (rs_cluster (co_unit w u)) d w) (\<lambda>w.
      Inr (co_emit (Ev_executed (when + ucast (rs_lat (co_unit w u)) + ucast (ub_bpred_delay b)) d) w))"

text \<open>The fetch engine stopped at the missed branch and goes on.\<close>

definition branch_unblock :: "nat \<Rightarrow> 'a core_scheme \<Rightarrow> 'a core_scheme res" where
  "branch_unblock d w =
    deref (di_fetch (co_dinst d w)) (\<lambda>fe. Inr (co_emit (Ev_unBlockFetch fe d (di_fetched (co_dinst d w))) w))"

definition branch_executed :: "fu_branch \<Rightarrow> nat \<Rightarrow> nat \<Rightarrow> 'a core_scheme \<Rightarrow> 'a core_scheme res" where
  "branch_executed b u d w =
    bind_res (cl_executed (rs_cluster (co_unit w u)) d w) (\<lambda>w.
    bind_res (co_update_res d di_markPerformed w) (\<lambda>w.
    bind_res (if \<not> ub_drainOnMiss b \<and> fl_branchMiss (di_flags (co_dinst d w)) then branch_unblock d w else Inr w) (\<lambda>w.
      Inr (fu_branch_add 1 u w))))"

definition branch_preretire :: "fu_branch \<Rightarrow> nat \<Rightarrow> 'a core_scheme \<Rightarrow> (bool \<times> 'a core_scheme) res" where
  "branch_preretire b d w =
    (let x = co_dinst d w
     in bind_res (if ub_drainOnMiss b \<and> di_isExecuted x \<and> fl_branchMiss (di_flags x) then branch_unblock d w else Inr w)
          (\<lambda>w. Inr (di_isExecuted (co_dinst d w), w)))"

section \<open>The RALU unit\<close>

text \<open>The program counter \<open>0xdeaddead\<close> stands for a system call, which holds the unit for 100 cycles.\<close>

definition ralu_canIssue :: "fu_ralu \<Rightarrow> nat \<Rightarrow> nat \<Rightarrow> 'a core_scheme \<Rightarrow> (stall_cause \<times> 'a core_scheme) res" where
  "ralu_canIssue r u d w =
    (let pc = di_pc (co_dinst d w); set_block = (\<lambda>t. co_on_unit u (\<lambda>_. FURALU (r\<lparr>ua_blockUntil := t\<rparr>)) w)
     in assert_res (pc \<noteq> 0xf00df00d)
         (if pc = 0xdeaddead
          then if ua_blockUntil r = 0 then Inr (SyscallStall, set_block (co_clock w + 100))
               else if ua_blockUntil r \<le> co_clock w then Inr (NoStall, set_block 0)
               else Inr (SyscallStall, w)
          else Inr (NoStall, w)))"

definition ralu_retire :: "nat \<Rightarrow> 'a core_scheme \<Rightarrow> (bool \<times> 'a core_scheme) res" where
  "ralu_retire d w = Inr (True, if di_isTransient (co_dinst d w) then co_update d di_mark_retired w else w)"

definition ralu_flushed :: "nat \<Rightarrow> 'a core_scheme \<Rightarrow> (bool \<times> 'a core_scheme) res" where
  "ralu_flushed d w =
    (if di_isExecuted (co_dinst d w) then Inr (True, w)
     else bind_res (co_with_store (di_clearRATEntry d) (co_update d (di_markExecutedTransient (co_clock w)) w))
            (\<lambda>w. Inr (True, w)))"

section \<open>The virtual methods\<close>

definition fu_canIssue :: "nat \<Rightarrow> nat \<Rightarrow> 'a core_scheme \<Rightarrow> (stall_cause \<times> 'a core_scheme) res" where
  "fu_canIssue u d w =
    (case rs_kind (co_unit w u) of
       FULoad l \<Rightarrow> load_canIssue l u d w | FUStore l \<Rightarrow> store_canIssue l u d w
     | FUGeneric \<Rightarrow> Inr (NoStall, w) | FUBranch b \<Rightarrow> branch_canIssue b u d w | FURALU r \<Rightarrow> ralu_canIssue r u d w)"

definition fu_executing :: "nat \<Rightarrow> nat \<Rightarrow> 'a core_scheme \<Rightarrow> 'a core_scheme res" where
  "fu_executing u d w =
    (case rs_kind (co_unit w u) of FUStore l \<Rightarrow> store_executing u d w | _ \<Rightarrow> fu_gen_schedule u d w)"

text \<open>What the port calls at the time \<open>when\<close> it grants.\<close>

definition fu_do_execution :: "nat \<Rightarrow> sim_time \<Rightarrow> nat \<Rightarrow> 'a core_scheme \<Rightarrow> 'a core_scheme res" where
  "fu_do_execution u when d w =
    (case rs_kind (co_unit w u) of
       FULoad l \<Rightarrow> do_load_execution l u when d w | FUStore l \<Rightarrow> do_store_execution u when d w
     | FUBranch b \<Rightarrow> do_branch_execution b u when d w | _ \<Rightarrow> do_generic_execution u when d w)"

definition fu_executed :: "nat \<Rightarrow> nat \<Rightarrow> 'a core_scheme \<Rightarrow> 'a core_scheme res" where
  "fu_executed u d w =
    (case rs_kind (co_unit w u) of
       FULoad l \<Rightarrow> load_executed u d w | FUStore l \<Rightarrow> store_executed u d w
     | FUBranch b \<Rightarrow> branch_executed b u d w | _ \<Rightarrow> generic_executed u d w)"

definition fu_preretire :: "nat \<Rightarrow> nat \<Rightarrow> bool \<Rightarrow> 'a core_scheme \<Rightarrow> (bool \<times> 'a core_scheme) res" where
  "fu_preretire u d flushing w =
    (case rs_kind (co_unit w u) of
       FULoad l \<Rightarrow> load_preretire l u d w | FUStore l \<Rightarrow> store_preretire u d flushing w
     | FUBranch b \<Rightarrow> branch_preretire b d w | _ \<Rightarrow> Inr (di_isExecuted (co_dinst d w), w))"

definition fu_retire :: "nat \<Rightarrow> nat \<Rightarrow> 'a core_scheme \<Rightarrow> (bool \<times> 'a core_scheme) res" where
  "fu_retire u d w =
    (case rs_kind (co_unit w u) of
       FULoad l \<Rightarrow> load_retire d w | FUStore l \<Rightarrow> store_retire d w | FURALU r \<Rightarrow> ralu_retire d w | _ \<Rightarrow> Inr (True, w))"

definition fu_performed :: "nat \<Rightarrow> nat \<Rightarrow> 'a core_scheme \<Rightarrow> 'a core_scheme res" where
  "fu_performed u d w =
    (case rs_kind (co_unit w u) of
       FULoad l \<Rightarrow> load_performed u d w | FUStore l \<Rightarrow> store_performed d w | _ \<Rightarrow> not_memory_performed d w)"

definition fu_performed_spec :: "nat \<Rightarrow> nat \<Rightarrow> 'a core_scheme \<Rightarrow> 'a core_scheme res" where
  "fu_performed_spec u d w =
    (case rs_kind (co_unit w u) of FULoad l \<Rightarrow> load_performed_spec u d w | _ \<Rightarrow> Inr w)"

definition fu_performed_safe_write :: "nat \<Rightarrow> nat \<Rightarrow> 'a core_scheme \<Rightarrow> 'a core_scheme res" where
  "fu_performed_safe_write u d w =
    (case rs_kind (co_unit w u) of FULoad l \<Rightarrow> load_performed_safe_write d w | _ \<Rightarrow> Inr w)"

definition fu_flushed :: "nat \<Rightarrow> nat \<Rightarrow> 'a core_scheme \<Rightarrow> (bool \<times> 'a core_scheme) res" where
  "fu_flushed u d w = (case rs_kind (co_unit w u) of FURALU r \<Rightarrow> ralu_flushed d w | _ \<Rightarrow> Inr (True, w))"

definition fu_try_flushed :: "nat \<Rightarrow> nat \<Rightarrow> 'a core_scheme \<Rightarrow> 'a core_scheme res" where
  "fu_try_flushed u d w =
    (case rs_kind (co_unit w u) of
       FULoad l \<Rightarrow> load_try_flushed u d w | FUStore l \<Rightarrow> store_try_flushed u d w
     | FUBranch b \<Rightarrow> Inr (fu_branch_add 1 u w) | _ \<Rightarrow> Inr w)"

section \<open>The operations of a cluster that call the unit of an instruction\<close>

text \<open>\<open>DepWindow::canIssue\<close> answers \<open>NoStall\<close>.\<close>

definition cl_canIssue :: "nat \<Rightarrow> nat \<Rightarrow> 'a core_scheme \<Rightarrow> (stall_cause \<times> 'a core_scheme) res" where
  "cl_canIssue c d w =
    (if cp_regPool (co_pool w c) \<le> 0 then Inr (SmallREGStall, w)
     else if cp_windowSize (co_pool w c) \<le> 0 then Inr (SmallWinStall, w)
     else co_resource_of d (\<lambda>u. fu_canIssue u d w) w)"

definition cl_give_reg :: "nat \<Rightarrow> 'a core_scheme \<Rightarrow> 'a core_scheme res" where
  "cl_give_reg c w =
    (let w = cl_add_reg_pool c w in assert_res (cp_regPool (co_pool w c) \<le> cp_nRegs (co_pool w c)) (Inr w))"

definition cl_retire :: "nat \<Rightarrow> nat \<Rightarrow> 'a core_scheme \<Rightarrow> (bool \<times> 'a core_scheme) res" where
  "cl_retire c d w =
    co_resource_of d (\<lambda>u. bind_res (fu_retire u d w) (\<lambda>(done, w).
      if \<not> done then Inr (False, w)
      else let hasDest = hasDstRegister (di_inst (co_dinst d w))
           in case cp_kind (co_pool w c) of
                ExecutingCluster \<Rightarrow> bind_res (if hasDest then cl_give_reg c w else Inr w) (\<lambda>w. Inr (True, w))
              | ExecutedCluster \<Rightarrow>
                  assert_res (cp_regPool (co_pool w c) \<le> cp_nRegs (co_pool w c))
                   (bind_res (if hasDest \<and> \<not> fl_try_flush_transient (di_flags (co_dinst d w))
                              then cl_give_reg c w else Inr w) (\<lambda>w. Inr (True, w)))
              | RetiredCluster \<Rightarrow>
                  assert_res (co_hid w = di_fid (co_dinst d w))
                   (bind_res (if hasDest then cl_give_reg c w else Inr w) (\<lambda>w.
                    bind_res (cl_delEntry c w) (\<lambda>w. Inr (True, w)))))) w"

definition cl_try_flushed :: "nat \<Rightarrow> nat \<Rightarrow> 'a core_scheme \<Rightarrow> 'a core_scheme res" where
  "cl_try_flushed c d w =
    bind_res (if cp_kind (co_pool w c) = ExecutedCluster then Inr w else cl_delEntry c w) (\<lambda>w.
      co_resource_of d (\<lambda>u. fu_try_flushed u d w) w)"

definition cl_flushed :: "nat \<Rightarrow> nat \<Rightarrow> 'a core_scheme \<Rightarrow> 'a core_scheme res" where
  "cl_flushed c d w =
    (case cp_kind (co_pool w c) of
       ExecutingCluster \<Rightarrow>
         (let w = cl_leave_ready c w in if cp_lateAlloc (co_pool w c) then cl_take_reg True c d w else Inr w)
     | ExecutedCluster \<Rightarrow> co_in_window c (dw_executed_flushed d) w
     | RetiredCluster \<Rightarrow>
         co_resource_of d (\<lambda>u. bind_res (fu_flushed u d w) (\<lambda>(_, w).
           assert_res (co_hid w = di_fid (co_dinst d w))
            (if hasDstRegister (di_inst (co_dinst d w)) then cl_give_reg c w else Inr w))) w)"

end
