(* ===== verification/Cluster_Window.thy ===== *)
theory Cluster_Window
  imports Functional_Units
begin

text \<open>
  The accounting of a cluster that gives the entry of its window back when an instruction has
  executed (\<open>ExecutedCluster\<close>, the only one of the shipped configurations): an inductive
  relation collects what the core does with the cluster, and its invariant says that entries are neither lost
  nor given back twice. The flush of a branch, on the other hand, returns its place in the unit twice.
\<close>

section \<open>What the dependence window leaves alone\<close>

definition di_static :: "dinst \<Rightarrow> dinst_flags \<times> instruction \<times> u64" where
  "di_static x = ((di_flags x)\<lparr>fl_interCluster := False, fl_in_cluster := False\<rparr>, di_inst x, di_ID x)"

definition ds_keeps :: "dinst_store \<Rightarrow> dinst_store \<Rightarrow> bool" where
  "ds_keeps s s' \<longleftrightarrow> (\<forall>d. di_static (ds_obj s' d) = di_static (ds_obj s d))"

lemma ds_keeps_refl [simp]: "ds_keeps s s"
  by (simp add: ds_keeps_def)

lemma ds_keeps_trans: "ds_keeps s s' \<Longrightarrow> ds_keeps s' s'' \<Longrightarrow> ds_keeps s s''"
  by (simp add: ds_keeps_def)

lemma ds_keeps_update:
  assumes "di_static (f (ds_obj s d)) = di_static (ds_obj s d)"
  shows "ds_keeps s (ds_update d f s)"
  using assms by (simp add: ds_keeps_def ds_update_obj)

lemma ds_keeps_flags:
  assumes "ds_keeps s s'"
  shows "fl_del_entry (di_flags (ds_obj s' d)) = fl_del_entry (di_flags (ds_obj s d))"
    "fl_transient (di_flags (ds_obj s' d)) = fl_transient (di_flags (ds_obj s d))"
    "fl_try_flush_transient (di_flags (ds_obj s' d)) = fl_try_flush_transient (di_flags (ds_obj s d))"
    "fl_branchMiss (di_flags (ds_obj s' d)) = fl_branchMiss (di_flags (ds_obj s d))"
    "fl_performed (di_flags (ds_obj s' d)) = fl_performed (di_flags (ds_obj s d))"
    "di_inst (ds_obj s' d) = di_inst (ds_obj s d)"
proof -
  have e: "(di_flags (ds_obj s' d))\<lparr>fl_interCluster := False, fl_in_cluster := False\<rparr> =
      (di_flags (ds_obj s d))\<lparr>fl_interCluster := False, fl_in_cluster := False\<rparr>"
    "di_inst (ds_obj s' d) = di_inst (ds_obj s d)"
    using assms by (simp_all add: ds_keeps_def di_static_def)
  show "di_inst (ds_obj s' d) = di_inst (ds_obj s d)" by (rule e(2))
  show "fl_del_entry (di_flags (ds_obj s' d)) = fl_del_entry (di_flags (ds_obj s d))"
    using arg_cong [OF e(1), of fl_del_entry] by simp
  show "fl_transient (di_flags (ds_obj s' d)) = fl_transient (di_flags (ds_obj s d))"
    using arg_cong [OF e(1), of fl_transient] by simp
  show "fl_try_flush_transient (di_flags (ds_obj s' d)) = fl_try_flush_transient (di_flags (ds_obj s d))"
    using arg_cong [OF e(1), of fl_try_flush_transient] by simp
  show "fl_branchMiss (di_flags (ds_obj s' d)) = fl_branchMiss (di_flags (ds_obj s d))"
    using arg_cong [OF e(1), of fl_branchMiss] by simp
  show "fl_performed (di_flags (ds_obj s' d)) = fl_performed (di_flags (ds_obj s d))"
    using arg_cong [OF e(1), of fl_performed] by simp
qed

lemma dw_select_store: "dw_select c d w = Inr w' \<Longrightarrow> ww_store w' = ww_store w"
  by (auto simp: dw_select_def bind_res_Inr_iff)

lemma cl_select_store: "cl_select c d w = Inr w' \<Longrightarrow> ww_store w' = ww_store w"
  by (auto simp: cl_select_def assert_res_Inr_iff dest: dw_select_store)

lemma dw_preSelect_keeps:
  assumes "dw_preSelect d w = Inr w'"
  shows "ds_keeps (ww_store w) (ww_store w')"
proof -
  obtain x c where x: "di_markIssued (ds_globalClock (ww_store w)) (ww_dinst d w) = Inr x"
    and sel: "cl_select c d (ww_update d (\<lambda>_. x) w) = Inr w'"
    using assms by (auto simp: dw_preSelect_def res_Inr_iffs Let_def split: option.splits)
  have "di_static x = di_static (ds_obj (ww_store w) d)"
    using x by (auto simp: di_markIssued_def assert_res_Inr_iff di_static_def ww_dinst_def)
  then show ?thesis
    using cl_select_store [OF sel] by (simp add: ww_update_def ds_keeps_update)
qed

lemma dw_add_inst_keeps:
  assumes "dw_add_inst d w = Inr w'"
  shows "ds_keeps (ww_store w) (ww_store w')"
proof -
  have "ds_keeps (ww_store w) (ww_store (ww_update d di_set_in_cluster w))"
    unfolding ww_update_def by (simp, rule ds_keeps_update) (simp add: di_static_def di_set_in_cluster_def di_set_def)
  then show ?thesis
    using assms
    by (auto simp: dw_add_inst_def res_Inr_iffs split: if_splits dest!: dw_preSelect_keeps elim: ds_keeps_trans)
qed

lemma dw_mark_executed_keeps:
  assumes "dw_mark_executed d w = Inr w'"
  shows "ds_keeps (ww_store w) (ww_store w')"
proof -
  obtain x s where x: "(if di_isTransient (ww_dinst d w) then Inr (di_markExecutedTransient (ds_globalClock (ww_store w)) (ww_dinst d w))
      else di_markExecuted (ds_globalClock (ww_store w)) (ww_dinst d w)) = Inr x"
    and s: "di_clearRATEntry d (ds_update d (\<lambda>_. x) (ww_store w)) = Inr s" and w': "w' = w\<lparr>ww_store := s\<rparr>"
    using assms by (auto simp: dw_mark_executed_def bind_res_Inr_iff Let_def)
  have "di_static x = di_static (ds_obj (ww_store w) d)"
    using x by (auto simp: di_markExecuted_def di_markExecutedTransient_def assert_res_Inr_iff di_static_def ww_dinst_def
        split: if_splits)
  then have "ds_keeps (ww_store w) (ds_update d (\<lambda>_. x) (ww_store w))" by (rule ds_keeps_update)
  moreover have "ds_obj s = ds_obj (ds_update d (\<lambda>_. x) (ww_store w))"
    using s by (auto simp: di_clearRATEntry_def res_Inr_iffs Let_def split: option.splits)
  ultimately show ?thesis by (simp add: w' ds_keeps_def)
qed

lemma di_destroyTransientInst_keeps:
  "di_destroyTransientInst self d s = Inr s' \<Longrightarrow> ds_keeps s s'"
  by (auto simp: di_destroyTransientInst_def di_recycle_def res_Inr_iffs Let_def ds_keeps_def ds_update_obj di_static_def)

lemma dw_wake_one_keeps:
  assumes "dw_wake_one self d w = Inr w'"
  shows "ds_keeps (ww_store w) (ww_store w')"
proof (cases "di_is_to_be_destroyed (ww_dinst d w) \<and> di_hasDeps (ww_dinst d w) = Inr False")
  case True
  then show ?thesis
    using assms by (auto simp: dw_wake_one_def bind_res_Inr_iff dest: di_destroyTransientInst_keeps)
next
  case False
  have "ds_keeps (ww_store w) (ds_update d di_markInterCluster (ww_store w))"
    by (rule ds_keeps_update) (simp add: di_static_def di_markInterCluster_def di_set_def)
  then have pre: "ds_keeps (ww_store w) s" if "ds_keeps (ds_update d di_markInterCluster (ww_store w)) s" for s
    using that ds_keeps_trans by blast
  obtain deps where deps: "di_hasDeps (ww_dinst d w) = Inr deps" "deps \<or> \<not> di_is_to_be_destroyed (ww_dinst d w)"
    using assms False by (auto simp: dw_wake_one_def res_Inr_iffs split: if_splits)
  show ?thesis
  proof (cases deps)
    case True
    then show ?thesis using assms deps by (auto simp: dw_wake_one_def res_Inr_iffs split: if_splits)
  next
    case False
    then show ?thesis
      using assms deps pre
      by (auto simp: dw_wake_one_def res_Inr_iffs Let_def ww_update_def split: if_splits option.splits
          dest!: dw_preSelect_keeps intro: pre)
  qed
qed

lemma di_getNextPending_keeps:
  assumes "di_getNextPending p s = Inr (d, s')"
  shows "ds_keeps s s'"
  using assms
  by (auto simp: di_getNextPending_def Let_def assert_res_def ds_set_pend_def ds_update_def ds_keeps_def di_static_def
      split: option.splits if_splits)

lemma dw_wake_loop_keeps:
  assumes "dw_wake_loop self p w = Some r"
  shows "\<forall>w'. r = Inr w' \<longrightarrow> ds_keeps (ww_store w) (ww_store w')"
  using assms
proof (rule dw_wake_loop.raw_induct [rotated])
  fix lp self p w r
  assume IH: "\<And>self p w r. lp self p w = Some r \<Longrightarrow> \<forall>w'. r = Inr w' \<longrightarrow> ds_keeps (ww_store w) (ww_store w')"
    and run: "(case di_hasPending (ww_dinst p w) of Inl e \<Rightarrow> Some (Inl e)
      | Inr pend \<Rightarrow> if \<not> pend then Some (Inr w)
          else (case di_getNextPending p (ww_store w) of Inl e \<Rightarrow> Some (Inl e)
            | Inr (d, s) \<Rightarrow> (case dw_wake_one self d (w\<lparr>ww_store := s\<rparr>) of Inl e \<Rightarrow> Some (Inl e)
               | Inr w \<Rightarrow> lp self p w))) = Some r"
  show "\<forall>w'. r = Inr w' \<longrightarrow> ds_keeps (ww_store w) (ww_store w')"
  proof (intro allI impI)
    fix w' assume r: "r = Inr w'"
    consider "w' = w"
      | d s w1 where "di_getNextPending p (ww_store w) = Inr (d, s)" "dw_wake_one self d (w\<lparr>ww_store := s\<rparr>) = Inr w1"
          "lp self p w1 = Some r"
      using run r by (auto split: sum.splits if_splits prod.splits)
    then show "ds_keeps (ww_store w) (ww_store w')"
    proof cases
      case 2
      have "ds_keeps (ww_store w) s" by (rule di_getNextPending_keeps [OF 2(1)])
      moreover have "ds_keeps s (ww_store w1)" using dw_wake_one_keeps [OF 2(2)] by simp
      moreover have "ds_keeps (ww_store w1) (ww_store w')" using IH [OF 2(3)] r by blast
      ultimately show ?thesis by (metis ds_keeps_trans)
    qed simp
  qed
qed

lemma dw_executed_keeps:
  assumes "dw_executed self p w = Some (Inr w')"
  shows "ds_keeps (ww_store w) (ww_store w')"
proof -
  obtain w1 pend where w1: "dw_mark_executed p w = Inr w1"
    and r: "w' = w1 \<or> dw_wake_loop self p w1 = Some (Inr w')"
    using assms
    by (auto simp: dw_executed_def res_Inr_iffs split: sum.splits if_splits option.splits prod.splits)
  have "ds_keeps (ww_store w1) (ww_store w')" using r dw_wake_loop_keeps by auto
  then show ?thesis using dw_mark_executed_keeps [OF w1] ds_keeps_trans by blast
qed

section \<open>Operations that leave the entries of a cluster alone\<close>

definition co_del :: "'a core_scheme \<Rightarrow> nat \<Rightarrow> bool" where
  "co_del w d = fl_del_entry (di_flags (co_dinst d w))"

text \<open>The state of the entries of a cluster: its kind, its size, what is free, and the marks.\<close>

definition cl_entries :: "nat \<Rightarrow> 'a core_scheme \<Rightarrow> (cluster_kind \<times> int \<times> int) \<times> (nat \<Rightarrow> bool)" where
  "cl_entries c w =
    ((cp_kind (co_pool w c), cp_MaxWinSize (co_pool w c), cp_windowSize (co_pool w c)), co_del w)"

named_theorems entries_simps "operations that keep the entries of a cluster"

lemma co_del_update:
  "(\<And>x. fl_del_entry (di_flags (f x)) = fl_del_entry (di_flags x)) \<Longrightarrow> co_del (co_update d f w) = co_del w"
  by (rule ext) (simp add: co_del_def co_update_def co_dinst_def ds_update_obj)

lemma co_del_keeps: "ds_keeps (co_store w) (co_store w') \<Longrightarrow> co_del w' = co_del w"
  by (rule ext) (simp add: co_del_def co_dinst_def ds_keeps_flags)

lemma cl_entries_fields [entries_simps]:
  "cl_entries c (w\<lparr>co_lsq := q\<rparr>) = cl_entries c w" "cl_entries c (w\<lparr>co_scb := b\<rparr>) = cl_entries c w"
  "cl_entries c (w\<lparr>co_ss := t\<rparr>) = cl_entries c w" "cl_entries c (w\<lparr>co_events := es\<rparr>) = cl_entries c w"
  "cl_entries c (w\<lparr>co_port := p\<rparr>) = cl_entries c w" "cl_entries c (w\<lparr>co_unit := u\<rparr>) = cl_entries c w"
  "cl_entries c (w\<lparr>co_cluster := k\<rparr>) = cl_entries c w" "cl_entries c (w\<lparr>co_replayID := n\<rparr>) = cl_entries c w"
  "cl_entries c (w\<lparr>co_replayRecovering := e\<rparr>) = cl_entries c w"
  by (simp_all add: cl_entries_def co_del_def [abs_def] co_dinst_def)

lemma cl_entries_lifts [entries_simps]:
  "cl_entries c (co_emit e w) = cl_entries c w"
  "cl_entries c (co_on_unit u g w) = cl_entries c w"
  "cl_entries c (cl_leave_ready k w) = cl_entries c w"
  "cl_entries c (fu_lsq_inc w) = cl_entries c w"
  "cl_entries c (fu_load_add n u w) = cl_entries c w"
  "cl_entries c (fu_store_add n u w) = cl_entries c w"
  "cl_entries c (fu_branch_add n u w) = cl_entries c w"
  by (simp_all add: co_emit_def co_on_unit_def cl_leave_ready_def fu_lsq_inc_def fu_load_add_def fu_store_add_def
      fu_branch_add_def entries_simps)

lemma cl_entries_regs [entries_simps]:
  "cl_entries c (cl_add_reg_pool k w) = cl_entries c w"
  "cl_entries c (co_on_pool k (\<lambda>p. p\<lparr>cp_regPool := cp_regPool p - 1\<rparr>) w) = cl_entries c w"
  by (simp_all add: cl_entries_def cl_add_reg_pool_def co_on_pool_def co_del_def [abs_def] co_dinst_def)

lemma cl_entries_update:
  "(\<And>x. fl_del_entry (di_flags (f x)) = fl_del_entry (di_flags x)) \<Longrightarrow> cl_entries c (co_update d f w) = cl_entries c w"
  by (simp add: cl_entries_def co_del_update) (simp add: co_update_def)

lemma cl_entries_marks [entries_simps]:
  "cl_entries c (co_update d di_markDispatched w) = cl_entries c w"
  "cl_entries c (co_update d di_set_load_scb_all w) = cl_entries c w"
  "cl_entries c (co_update d di_markReplay w) = cl_entries c w"
  "cl_entries c (co_update d di_mark_retired w) = cl_entries c w"
  "cl_entries c (co_update d di_mark_try_flush_transient w) = cl_entries c w"
  "cl_entries c (co_update d (di_markExecutingTransient t) w) = cl_entries c w"
  "cl_entries c (co_update d (di_markExecutedTransient t) w) = cl_entries c w"
  by (rule cl_entries_update;
      simp add: di_markDispatched_def di_set_load_scb_all_def di_markReplay_def di_mark_retired_def
        di_mark_try_flush_transient_def di_markExecutingTransient_def di_markExecutedTransient_def di_set_def)+

lemma cl_entries_update_res:
  assumes "co_update_res d f w = Inr w'"
    and "\<And>x y. f x = Inr y \<Longrightarrow> fl_del_entry (di_flags y) = fl_del_entry (di_flags x)"
  shows "cl_entries c w' = cl_entries c w"
proof -
  obtain x where x: "f (co_dinst d w) = Inr x" "w' = co_update d (\<lambda>_. x) w"
    using assms(1) by (auto simp: co_update_res_def bind_res_Inr_iff)
  have "co_del w' = co_del w"
    using assms(2) [OF x(1)] by (intro ext) (simp add: x(2) co_del_def co_update_def co_dinst_def ds_update_obj)
  then show ?thesis by (simp add: cl_entries_def x(2)) (simp add: co_update_def)
qed

lemma cl_entries_store:
  assumes "co_with_store f w = Inr w'" and "\<And>s s'. f s = Inr s' \<Longrightarrow> ds_keeps s s'"
  shows "cl_entries c w' = cl_entries c w"
proof -
  obtain s where s: "f (co_store w) = Inr s" "w' = w\<lparr>co_store := s\<rparr>"
    using assms(1) by (auto simp: co_with_store_def bind_res_Inr_iff)
  have "co_del w' = co_del w" by (rule co_del_keeps) (simp add: s(2) assms(2) [OF s(1)])
  then show ?thesis by (simp add: cl_entries_def s(2))
qed

lemma di_clearRATEntry_keeps: "di_clearRATEntry d s = Inr s' \<Longrightarrow> ds_keeps s s'"
  by (auto simp: di_clearRATEntry_def res_Inr_iffs Let_def ds_keeps_def split: option.splits)

lemma di_destroy_keeps: "di_destroy self d s = Inr s' \<Longrightarrow> ds_keeps s s'"
  by (auto simp: di_destroy_def di_recycle_def res_Inr_iffs Let_def ds_keeps_def ds_update_obj di_static_def)

lemma cl_entries_window:
  assumes "co_in_window k f w = Inr w'" and "\<And>v v'. f v = Inr v' \<Longrightarrow> ds_keeps (ww_store v) (ww_store v')"
  shows "cl_entries c w' = cl_entries c w"
proof -
  obtain v where v: "f \<lparr>ww_store = co_store w, ww_cluster = co_cluster w, ww_window = co_window w k\<rparr> = Inr v"
    and w': "w' = w\<lparr>co_store := ww_store v, co_cluster := ww_cluster v, co_window := (co_window w)(k := ww_window v)\<rparr>"
    using assms(1) by (auto simp: co_in_window_def bind_res_Inr_iff)
  have "co_del w' = co_del w" by (rule co_del_keeps) (use assms(2) [OF v] w' in simp)
  then show ?thesis by (simp add: cl_entries_def w')
qed

lemma mark_flags:
  "di_markPerformed x = Inr y \<Longrightarrow> fl_del_entry (di_flags y) = fl_del_entry (di_flags x)"
  "di_markRetired x = Inr y \<Longrightarrow> fl_del_entry (di_flags y) = fl_del_entry (di_flags x)"
  "di_markExecuting t x = Inr y \<Longrightarrow> fl_del_entry (di_flags y) = fl_del_entry (di_flags x)"
  by (auto simp: di_markPerformed_def di_markRetired_def di_markExecuting_def assert_res_Inr_iff di_set_def)

lemmas cl_entries_marked = cl_entries_update_res [OF _ mark_flags(1)] cl_entries_update_res [OF _ mark_flags(2)]
  cl_entries_update_res [OF _ mark_flags(3)]

lemma fu_remove_entries:
  "fu_lsq_remove d w = Inr w' \<Longrightarrow> cl_entries c w' = cl_entries c w"
  "fu_storeset_remove d w = Inr w' \<Longrightarrow> cl_entries c w' = cl_entries c w"
  by (auto simp: fu_lsq_remove_def fu_storeset_remove_def bind_res_Inr_iff entries_simps)

lemma co_clear_entries: "co_with_store (di_clearRATEntry d) w = Inr w' \<Longrightarrow> cl_entries c w' = cl_entries c w"
  by (rule cl_entries_store [OF _ di_clearRATEntry_keeps])

lemma store_performed_entries:
  assumes "store_performed d w = Inr w'"
  shows "cl_entries c w' = cl_entries c w"
  using assms
  by (auto simp: store_performed_def Let_def res_Inr_iffs entries_simps split: if_splits
      dest!: cl_entries_store [OF _ di_destroy_keeps, where c = c] cl_entries_marked(1) [where c = c])

lemma load_release_entries:
  assumes "load_release b u d w = Inr w'"
  shows "cl_entries c w' = cl_entries c w"
  using assms
  by (auto simp: load_release_def bind_res_Inr_iff entries_simps split: if_splits
      dest!: fu_remove_entries(1) [where c = c] fu_remove_entries(2) [where c = c] co_clear_entries [where c = c])

lemma fu_try_flushed_entries:
  assumes "fu_try_flushed u d w = Inr w'"
  shows "cl_entries c w' = cl_entries c w"
  using assms
  by (auto simp: fu_try_flushed_def load_try_flushed_def store_try_flushed_def Let_def bind_res_Inr_iff entries_simps
      split: fu_kind.splits if_splits dest!: load_release_entries [where c = c] store_performed_entries [where c = c]
        fu_remove_entries(1) [where c = c] fu_remove_entries(2) [where c = c])

lemma fu_retire_entries:
  assumes "fu_retire u d w = Inr (b, w')"
  shows "cl_entries c w' = cl_entries c w"
  using assms
  by (auto simp: fu_retire_def load_retire_def store_retire_def ralu_retire_def Let_def res_Inr_iffs entries_simps
      split: fu_kind.splits if_splits dest!: fu_remove_entries(1) [where c = c] co_clear_entries [where c = c]
        cl_entries_marked(2) [where c = c])

section \<open>Reachable states of a window\<close>

lemma cl_take_reg_entries: "cl_take_reg b k d w = Inr w' \<Longrightarrow> cl_entries c w' = cl_entries c w"
  by (auto simp: cl_take_reg_def assert_res_Inr_iff entries_simps split: if_splits)

lemma cl_give_reg_entries: "cl_give_reg k w = Inr w' \<Longrightarrow> cl_entries c w' = cl_entries c w"
  by (auto simp: cl_give_reg_def Let_def assert_res_Inr_iff entries_simps)

lemma cl_delEntry_step:
  "cl_delEntry c w = Inr w' \<longleftrightarrow> cp_windowSize (co_pool w c) < cp_MaxWinSize (co_pool w c) \<and>
    w' = co_on_pool c (\<lambda>p. p\<lparr>cp_windowSize := cp_windowSize p + 1\<rparr>) w"
  by (auto simp: cl_delEntry_def Let_def assert_res_Inr_iff co_on_pool_def)

lemma cl_entries_moved:
  "cl_entries c (co_on_pool c (\<lambda>p. p\<lparr>cp_windowSize := cp_windowSize p + n\<rparr>) w) =
    ((cp_kind (co_pool w c), cp_MaxWinSize (co_pool w c), cp_windowSize (co_pool w c) + n), co_del w)"
  by (simp add: cl_entries_def co_on_pool_def co_del_def [abs_def] co_dinst_def)

lemma cl_del_entry_once_entries:
  assumes "cl_del_entry_once c d w = Inr w'"
  shows "cl_entries c w' = ((cp_kind (co_pool w c), cp_MaxWinSize (co_pool w c),
    cp_windowSize (co_pool w c) + (if co_del w d then 0 else 1)), (co_del w)(d := True))"
proof (cases "co_del w d")
  case True
  then have "(co_del w)(d := True) = co_del w" by (auto simp: fun_eq_iff)
  then show ?thesis using assms True by (simp add: cl_del_entry_once_def co_del_def cl_entries_def)
next
  case False
  have "co_del (co_update d di_mark_del_entry w) = (co_del w)(d := True)"
    by (rule ext) (simp add: co_del_def co_update_def co_dinst_def ds_update_obj di_mark_del_entry_def di_set_def)
  then show ?thesis
    using assms False cl_entries_moved [of c 1 "co_update d di_mark_del_entry w"]
    by (auto simp: cl_del_entry_once_def co_del_def cl_delEntry_step) (simp_all add: co_update_def)
qed

lemma cl_add_inst_entries:
  assumes "cl_add_inst c d w = Inr w'"
  shows "cl_entries c w' = ((cp_kind (co_pool w c), cp_MaxWinSize (co_pool w c), cp_windowSize (co_pool w c) - 1), co_del w)"
    "0 < cp_windowSize (co_pool w c)"
proof -
  obtain w1 w2 where w1: "(if \<not> cp_lateAlloc (co_pool w c) then cl_take_reg True c d w else Inr w) = Inr w1"
    and w2: "cl_newEntry c w1 = Inr w2" and w': "co_in_window c (dw_add_inst d) w2 = Inr w'"
    using assms by (auto simp: cl_add_inst_def bind_res_Inr_iff)
  have e1: "cl_entries c w1 = cl_entries c w" using w1 by (auto split: if_splits dest: cl_take_reg_entries)
  have e2: "w2 = co_on_pool c (\<lambda>p. p\<lparr>cp_windowSize := cp_windowSize p + - 1\<rparr>) w1" "0 < cp_windowSize (co_pool w1 c)"
    using w2 by (auto simp: cl_newEntry_def Let_def assert_res_Inr_iff co_on_pool_def)
  have e3: "cl_entries c w' = cl_entries c w2" by (rule cl_entries_window [OF w' dw_add_inst_keeps])
  show "cl_entries c w' = ((cp_kind (co_pool w c), cp_MaxWinSize (co_pool w c), cp_windowSize (co_pool w c) - 1), co_del w)"
    using e1 unfolding e3 e2(1) cl_entries_moved by (simp add: cl_entries_def)
  show "0 < cp_windowSize (co_pool w c)" using e1 e2(2) by (simp add: cl_entries_def)
qed

lemma cl_executed_entries:
  assumes "cl_executed c d w = Inr w'" and "cp_kind (co_pool w c) = ExecutedCluster"
  shows "cl_entries c w' = ((cp_kind (co_pool w c), cp_MaxWinSize (co_pool w c),
    cp_windowSize (co_pool w c) + (if co_del w d then 0 else 1)), (co_del w)(d := True))"
proof -
  obtain w1 where w1: "co_in_window c (\<lambda>v. loop_res (dw_executed (co_self w) d v)) w = Inr w1"
    and once: "cp_kind (co_pool w1 c) = ExecutedCluster \<Longrightarrow> cl_del_entry_once c d w1 = Inr w'"
    using assms by (auto simp: cl_executed_def res_Inr_iffs split: if_splits)
  have keeps: "ds_keeps (ww_store v) (ww_store v')" if "loop_res (dw_executed (co_self w) d v) = Inr v'" for v v'
    using that dw_executed_keeps by (auto simp: loop_res_def split: option.splits)
  have e: "cl_entries c w1 = cl_entries c w" by (rule cl_entries_window [OF w1 keeps])
  then have "cl_del_entry_once c d w1 = Inr w'" using once assms(2) by (simp add: cl_entries_def)
  then show ?thesis using cl_del_entry_once_entries [of c d w1 w'] e by (simp add: cl_entries_def)
qed

lemma cl_executing_entries:
  assumes "cl_executing c d w = Inr w'" and "cp_kind (co_pool w c) = ExecutedCluster"
  shows "cl_entries c w' = cl_entries c w"
proof -
  let ?w0 = "cl_leave_ready c w"
  have k0: "cp_kind (co_pool ?w0 c) = ExecutedCluster" using assms(2) by (simp add: cl_leave_ready_def)
  obtain w1 w2 where w1: "(if cp_lateAlloc (co_pool ?w0 c)
        then cl_take_reg (cp_kind (co_pool ?w0 c) \<noteq> RetiredCluster) c d ?w0 else Inr ?w0) = Inr w1"
    and w2: "oo_executing d w1 = Inr w2"
    and w': "(if cp_kind (co_pool w2 c) = ExecutingCluster then cl_delEntry c w2 else Inr w2) = Inr w'"
    using assms(1) by (auto simp only: cl_executing_def Let_def bind_res_Inr_iff)
  have e1: "cl_entries c w1 = cl_entries c ?w0" using w1 by (auto split: if_splits dest: cl_take_reg_entries)
  have e2: "cl_entries c w2 = cl_entries c w1"
    using w2 by (auto simp: oo_executing_def entries_simps split: if_splits dest: cl_entries_marked(3))
  have "cp_kind (co_pool w2 c) = ExecutedCluster" using e1 e2 k0 by (simp add: cl_entries_def)
  then have "w' = w2" using w' by simp
  then show ?thesis using e1 e2 by (simp add: entries_simps)
qed

lemma cl_retire_entries:
  assumes "cl_retire c d w = Inr (b, w')" and "cp_kind (co_pool w c) = ExecutedCluster"
  shows "cl_entries c w' = cl_entries c w"
proof -
  obtain u b1 w1 where w1: "fu_retire u d w = Inr (b1, w1)"
    and r: "w' = w1 \<or> cp_kind (co_pool w1 c) = ExecutedCluster \<longrightarrow> cl_give_reg c w1 = Inr w' \<or> w' = w1"
    using assms(1)
    by (auto simp: cl_retire_def co_resource_of_def res_Inr_iffs Let_def split: if_splits cluster_kind.splits)
  have "cl_entries c w1 = cl_entries c w" by (rule fu_retire_entries [OF w1])
  then show ?thesis using r assms(2) cl_give_reg_entries [of c w1 w' c] by (auto simp: cl_entries_def)
qed

lemma cl_try_flushed_entries:
  assumes "cl_try_flushed c d w = Inr w'" and "cp_kind (co_pool w c) = ExecutedCluster"
  shows "cl_entries c w' = cl_entries c w"
  using assms by (auto simp: cl_try_flushed_def co_resource_of_def res_Inr_iffs dest: fu_try_flushed_entries)

lemma cl_flushed_entries:
  assumes "cl_flushed c d w = Inr w'" and "cp_kind (co_pool w c) = ExecutedCluster"
  shows "cl_entries c w' = cl_entries c w"
proof -
  have "co_in_window c (dw_executed_flushed d) w = Inr w'" using assms by (simp add: cl_flushed_def)
  then show ?thesis by (rule cl_entries_window) (simp add: dw_executed_flushed_def dw_mark_executed_keeps)
qed

text \<open>
  \<open>win_reach c L w\<close>: \<open>w\<close> is reached by the operations of the cluster \<open>c\<close>, in any order, and steps of the rest
  of the core that do not touch its window; \<open>L\<close> are the instructions that were added and have
  not retired. An instruction is added when it is new, and retires when it has given its entry back.
\<close>

inductive win_reach :: "nat \<Rightarrow> nat set \<Rightarrow> 'a core_scheme \<Rightarrow> bool" where
  win_start: "cp_kind (co_pool w c) = ExecutedCluster \<Longrightarrow> cp_windowSize (co_pool w c) = cp_MaxWinSize (co_pool w c) \<Longrightarrow>
    0 \<le> cp_MaxWinSize (co_pool w c) \<Longrightarrow> win_reach c {} w"
| win_add: "win_reach c L w \<Longrightarrow> d \<notin> L \<Longrightarrow> \<not> co_del w d \<Longrightarrow> cl_add_inst c d w = Inr w' \<Longrightarrow> win_reach c (insert d L) w'"
| win_executing: "win_reach c L w \<Longrightarrow> cl_executing c d w = Inr w' \<Longrightarrow> win_reach c L w'"
| win_executed: "win_reach c L w \<Longrightarrow> d \<in> L \<Longrightarrow> cl_executed c d w = Inr w' \<Longrightarrow> win_reach c L w'"
| win_flush: "win_reach c L w \<Longrightarrow> d \<in> L \<Longrightarrow> cl_del_entry_flush c d w = Inr w' \<Longrightarrow> win_reach c L w'"
| win_try_flushed: "win_reach c L w \<Longrightarrow> cl_try_flushed c d w = Inr w' \<Longrightarrow> win_reach c L w'"
| win_flushed: "win_reach c L w \<Longrightarrow> cl_flushed c d w = Inr w' \<Longrightarrow> win_reach c L w'"
| win_retire: "win_reach c L w \<Longrightarrow> co_del w d \<Longrightarrow> cl_retire c d w = Inr (b, w') \<Longrightarrow>
    win_reach c (if b then L - {d} else L) w'"
| win_other: "win_reach c L w \<Longrightarrow> co_pool w' c = co_pool w c \<Longrightarrow> \<forall>d \<in> L. co_del w' d = co_del w d \<Longrightarrow> win_reach c L w'"

definition win_inv :: "nat \<Rightarrow> nat set \<Rightarrow> 'a core_scheme \<Rightarrow> bool" where
  "win_inv c L w \<longleftrightarrow> finite L \<and> cp_kind (co_pool w c) = ExecutedCluster \<and> 0 \<le> cp_windowSize (co_pool w c) \<and>
    cp_windowSize (co_pool w c) + int (card {d \<in> L. \<not> co_del w d}) = cp_MaxWinSize (co_pool w c)"

lemma win_inv_cong: "win_inv c L w \<Longrightarrow> cl_entries c w' = cl_entries c w \<Longrightarrow> win_inv c L w'"
  by (simp add: win_inv_def cl_entries_def)

lemma win_inv_marked:
  assumes "win_inv c L w" and "d \<in> L"
    and "cl_entries c w' = ((cp_kind (co_pool w c), cp_MaxWinSize (co_pool w c),
      cp_windowSize (co_pool w c) + (if co_del w d then 0 else 1)), (co_del w)(d := True))"
  shows "win_inv c L w'"
proof (cases "co_del w d")
  case True
  then have "(co_del w)(d := True) = co_del w" by (auto simp: fun_eq_iff)
  then show ?thesis using assms True by (simp add: win_inv_def cl_entries_def)
next
  case False
  have "{x \<in> L. \<not> ((co_del w)(d := True)) x} = {x \<in> L. \<not> co_del w x} - {d}" by auto
  then have "Suc (card {x \<in> L. \<not> co_del w' x}) = card {x \<in> L. \<not> co_del w x}"
    using assms False card.remove [of "{x \<in> L. \<not> co_del w x}" d] by (simp add: cl_entries_def win_inv_def)
  then show ?thesis using assms False by (simp add: win_inv_def cl_entries_def)
qed

lemma win_reach_inv: "win_reach c L w \<Longrightarrow> win_inv c L w"
proof (induction rule: win_reach.induct)
  case (win_add c L w d w')
  have e: "co_del w' = co_del w" "cp_kind (co_pool w' c) = cp_kind (co_pool w c)"
    "cp_MaxWinSize (co_pool w' c) = cp_MaxWinSize (co_pool w c)"
    "cp_windowSize (co_pool w' c) = cp_windowSize (co_pool w c) - 1" "0 < cp_windowSize (co_pool w c)"
    using cl_add_inst_entries [OF win_add.hyps(4)] by (simp_all add: cl_entries_def)
  have "{x \<in> insert d L. \<not> co_del w x} = insert d {x \<in> L. \<not> co_del w x}" using win_add.hyps(3) by auto
  then show ?case using win_add e by (simp add: win_inv_def)
next
  case (win_executed c L w d w')
  have "cp_kind (co_pool w c) = ExecutedCluster" using win_executed.IH by (simp add: win_inv_def)
  then show ?case
    using win_inv_marked [OF win_executed.IH win_executed.hyps(2)] cl_executed_entries [OF win_executed.hyps(3)] by blast
next
  case (win_flush c L w d w')
  have "cp_kind (co_pool w c) = ExecutedCluster" using win_flush.IH by (simp add: win_inv_def)
  then show ?case
    using win_inv_marked [OF win_flush.IH win_flush.hyps(2)] cl_del_entry_once_entries [of c d w w'] win_flush.hyps(3)
    by (simp add: cl_del_entry_flush_def)
next
  case (win_retire c L w d b w')
  have e: "cl_entries c w' = cl_entries c w"
    by (rule cl_retire_entries [OF win_retire.hyps(3)]) (use win_retire.IH in \<open>simp add: win_inv_def\<close>)
  have "{x \<in> L - {d}. \<not> co_del w x} = {x \<in> L. \<not> co_del w x}" using win_retire.hyps(2) by auto
  then have "win_inv c (L - {d}) w" using win_retire.IH by (simp add: win_inv_def)
  then show ?case using win_inv_cong [OF _ e] win_retire.IH by simp
next
  case (win_other c L w w')
  have "{x \<in> L. \<not> co_del w' x} = {x \<in> L. \<not> co_del w x}" using win_other.hyps(3) by auto
  then show ?case using win_other.IH win_other.hyps(2) by (simp add: win_inv_def)
next
  case (win_executing c L w d w')
  show ?case by (rule win_inv_cong [OF win_executing.IH cl_executing_entries [OF win_executing.hyps(2)]])
      (use win_executing.IH in \<open>simp add: win_inv_def\<close>)
next
  case (win_try_flushed c L w d w')
  show ?case by (rule win_inv_cong [OF win_try_flushed.IH cl_try_flushed_entries [OF win_try_flushed.hyps(2)]])
      (use win_try_flushed.IH in \<open>simp add: win_inv_def\<close>)
next
  case (win_flushed c L w d w')
  show ?case by (rule win_inv_cong [OF win_flushed.IH cl_flushed_entries [OF win_flushed.hyps(2)]])
      (use win_flushed.IH in \<open>simp add: win_inv_def\<close>)
qed (simp add: win_inv_def)

text \<open>
  C9. A cluster of the kind \<open>ExecutedCluster\<close>, whose instructions remember whether their entry was given back: its entries
  are neither lost nor given back twice. The free ones and those of the added instructions
  that have not given theirs back make up the window, and giving the entry of an added instruction back, at its execution or at a
  flush, never fails the assertion on its size.
\<close>

theorem cluster_entries_balance:
  assumes "win_reach c L w"
  shows "0 \<le> cp_windowSize (co_pool w c) \<and>
    cp_windowSize (co_pool w c) + int (card {d \<in> L. \<not> co_del w d}) = cp_MaxWinSize (co_pool w c) \<and>
    (\<forall>d \<in> L. \<exists>w'. cl_del_entry_flush c d w = Inr w')"
proof -
  have inv: "win_inv c L w" by (rule win_reach_inv [OF assms])
  have "\<exists>w'. cl_del_entry_flush c d w = Inr w'" if d: "d \<in> L" for d
  proof (cases "co_del w d")
    case True
    then show ?thesis using inv by (simp add: cl_del_entry_flush_def cl_del_entry_once_def co_del_def win_inv_def)
  next
    case False
    then have "{x \<in> L. \<not> co_del w x} \<noteq> {}" using d by blast
    then have "0 < card {x \<in> L. \<not> co_del w x}" using inv by (simp add: win_inv_def card_gt_0_iff)
    then have "cp_windowSize (co_pool w c) < cp_MaxWinSize (co_pool w c)" using inv by (simp add: win_inv_def)
    then show ?thesis
      using inv False
      by (auto simp: cl_del_entry_flush_def cl_del_entry_once_def co_del_def win_inv_def cl_delEntry_step co_update_def)
  qed
  then show ?thesis using inv by (simp add: win_inv_def)
qed

text \<open>A core with one branch unit, which can hold one branch, and one instruction.\<close>

definition co_example :: core where
  "co_example =
    (let d = di_blank\<lparr>di_flags := di_setup_flags (di_flags di_blank), di_cluster := Some 0, di_resource := Some 0,
               di_RAT1Entry := Some 0, di_RAT2Entry := Some 1,
               di_inst := \<lparr>in_opcode = iBALU_LBRANCH, in_src1 = 0, in_src2 = 0, in_dst1 = 120, in_dst2 = 120\<rparr>\<rparr>
     in \<lparr>co_self = 0, co_hid = 0, co_store = (ds_blank pool_two)\<lparr>ds_obj := (\<lambda>_. d), ds_globalClock := 5\<rparr>,
         co_cluster = (\<lambda>_. \<lparr>cl_id = 1, cl_nready = 0, cl_schedPort = PortUnlimitedPriority pp_create\<rparr>),
         co_window = (\<lambda>_. \<lparr>dw_src_cluster_id = 1, dw_inter_cluster_lat = 2, dw_sched_lat = 1, dw_inter_cluster_fwd = 0\<rparr>),
         co_pool = (\<lambda>_. \<lparr>cp_kind = ExecutedCluster, cp_MaxWinSize = 1, cp_windowSize = 1, cp_nRegs = 4, cp_regPool = 4,
                       cp_lateAlloc = False\<rparr>),
         co_unit = (\<lambda>_. \<lparr>rs_cluster = 0, rs_gen = 0, rs_lat = 1, rs_inorder = False, rs_usedTime = 0,
                       rs_kind = FUBranch \<lparr>ub_freeBranches = 1, ub_drainOnMiss = False, ub_bpred_delay = 1\<rparr>\<rparr>),
         co_port = (\<lambda>_. PortUnlimitedPriority pp_create), co_lsq = lf_create 4,
         co_ss = fst (ss_create 16 0 0), co_scb = sb_create 6 4 True, co_junk_line = undefined,
         co_dl1_isBusy = (\<lambda>_. False), co_MemoryReplay = False, co_serialize_for = 0, co_replayRecovering = False,
         co_replayID = 0, co_flushing = False, co_events = []\<rparr>)"

lemmas co_example_simps = co_example_def Let_def di_blank_def ds_blank_def di_setup_flags_def co_dinst_def

lemma co_example_add: "\<exists>w. cl_add_inst 0 0 co_example = Inr w \<and> di_issued (co_dinst 0 w) = 5"
  by (simp add: co_example_simps cl_add_inst_def cl_take_reg_def hasDstRegister_def LREG_InvalidOutput_def cl_newEntry_def
      co_on_pool_def co_in_window_def dw_add_inst_def ww_dinst_def di_hasDeps_def di_no_source_def dn_idle_def
      ww_update_def ds_update_def dw_preSelect_def di_markIssued_def di_set_in_cluster_def di_set_def cl_select_def
      dw_select_def di_isTransient_def)

lemma cluster_entries_balance_witness:
  "\<exists>w. cl_add_inst 0 0 co_example = Inr w \<and> cp_windowSize (co_pool w 0) + 1 = 1 \<and> (\<exists>w'. cl_del_entry_flush 0 0 w = Inr w')"
proof -
  obtain w where w: "cl_add_inst 0 0 co_example = Inr w" using co_example_add by blast
  have "win_reach 0 {} co_example" by (rule win_start) (simp_all add: co_example_simps)
  moreover have new: "\<not> co_del co_example 0" by (simp add: co_del_def co_example_simps)
  ultimately have r: "win_reach 0 {0} w" using win_add [OF _ _ _ w] by simp
  have e: "co_del w = co_del co_example" "cp_MaxWinSize (co_pool w 0) = 1"
    using cl_add_inst_entries(1) [OF w] by (simp_all add: cl_entries_def co_example_def Let_def)
  have "{d. d = 0 \<and> \<not> co_del w d} = {0 :: nat}" using new e by auto
  then show ?thesis using cluster_entries_balance [OF r] w e by simp
qed

section \<open>Flushes of the other kinds of clusters\<close>

text \<open>
  C39. A flush calls \<open>try_flushed\<close> and then \<open>del_entry_flush\<close>. In an \<open>ExecutingCluster\<close> or a \<open>RetiredCluster\<close> each of the two gives the entry of the
  instruction back, unconditionally: the window grows by two entries for one instruction, and where that
  instruction was the only one in the window the second call fails its assertion.
\<close>

theorem flush_returns_entry_twice:
  assumes kind: "cp_kind (co_pool w c) \<noteq> ExecutedCluster" and run: "cl_try_flushed c d w = Inr w1"
  shows "(\<forall>w2. cl_del_entry_flush c d w1 = Inr w2 \<longrightarrow>
      cp_windowSize (co_pool w2 c) = cp_windowSize (co_pool w c) + 2) \<and>
    (cp_windowSize (co_pool w c) = cp_MaxWinSize (co_pool w c) - 1 \<longrightarrow> cl_del_entry_flush c d w1 = Inl Assert_failed)"
proof -
  let ?w = "co_on_pool c (\<lambda>p. p\<lparr>cp_windowSize := cp_windowSize p + 1\<rparr>) w"
  obtain u where u: "fu_try_flushed u d ?w = Inr w1"
    using kind run
    by (auto simp: cl_try_flushed_def bind_res_Inr_iff cl_delEntry_step co_resource_of_def deref_Inr_iff)
  from fu_try_flushed_entries [OF u, of c]
  have e: "cp_kind (co_pool w1 c) = cp_kind (co_pool w c)" "cp_MaxWinSize (co_pool w1 c) = cp_MaxWinSize (co_pool w c)"
    "cp_windowSize (co_pool w1 c) = cp_windowSize (co_pool w c) + 1"
    by (simp_all add: cl_entries_moved) (simp_all add: cl_entries_def)
  have p: "co_pool (co_update d di_mark_del_entry w1) = co_pool w1" by (simp add: co_update_def)
  show ?thesis
    using kind e by (auto simp: cl_del_entry_flush_def cl_delEntry_step p) (auto simp: cl_delEntry_def Let_def co_on_pool_def p)
qed

theorem flush_returns_entry_twice_witness:
  "\<exists>w1. cl_try_flushed 0 0 (co_on_pool 0 (\<lambda>p. p\<lparr>cp_kind := RetiredCluster, cp_windowSize := 0\<rparr>) co_example) = Inr w1 \<and>
    cl_del_entry_flush 0 0 w1 = Inl Assert_failed"
proof -
  let ?w = "co_on_pool 0 (\<lambda>p. p\<lparr>cp_kind := RetiredCluster, cp_windowSize := 0\<rparr>) co_example"
  have "\<exists>w1. cl_try_flushed 0 0 ?w = Inr w1"
    by (simp add: cl_try_flushed_def cl_delEntry_def co_on_pool_def co_example_simps co_resource_of_def fu_try_flushed_def)
  moreover have "cp_kind (co_pool ?w 0) \<noteq> ExecutedCluster" "cp_windowSize (co_pool ?w 0) = cp_MaxWinSize (co_pool ?w 0) - 1"
    by (simp_all add: co_on_pool_def co_example_simps)
  ultimately show ?thesis using flush_returns_entry_twice [of ?w 0 0] by blast
qed

section \<open>Branches that are flushed\<close>

lemma cl_executed_unit: "cl_executed c d w = Inr w' \<Longrightarrow> co_unit w' = co_unit w"
  by (auto simp: cl_executed_def co_in_window_def res_Inr_iffs cl_del_entry_once_def cl_delEntry_step co_on_pool_def
      co_update_def split: if_splits)

lemma branch_executed_kind:
  assumes k: "rs_kind (co_unit w u) = FUBranch b" and "fu_executed u d w = Inr w'"
  shows "rs_kind (co_unit w' u) = FUBranch (b\<lparr>ub_freeBranches := ub_freeBranches b + 1\<rparr>)"
proof -
  have "branch_executed b u d w = Inr w'" using assms by (simp add: fu_executed_def)
  then obtain v1 v2 v where v1: "cl_executed (rs_cluster (co_unit w u)) d w = Inr v1"
    and v2: "co_update_res d di_markPerformed v1 = Inr v2"
    and v3: "(if \<not> ub_drainOnMiss b \<and> fl_branchMiss (di_flags (co_dinst d v2)) then branch_unblock d v2 else Inr v2) = Inr v"
    and w': "w' = fu_branch_add 1 u v"
    by (auto simp only: branch_executed_def bind_res_Inr_iff Inr_inject)
  have "co_unit v = co_unit w"
    using cl_executed_unit [OF v1] v2 v3
    by (auto simp: co_update_res_def branch_unblock_def res_Inr_iffs co_emit_def co_update_def split: if_splits)
  then show ?thesis using w' k by (simp add: fu_branch_add_def co_on_unit_def)
qed

text \<open>
  \<open>executed\<close> gives the place of a branch back, and so does \<open>try_flushed\<close>, whatever the
  branch has done before: after a branch that was issued, executed and flushed the unit has one
  place more than before, so the limit \<open>max_branches\<close> does not hold.
\<close>

theorem flushed_branch_frees_twice:
  assumes "rs_kind (co_unit w u) = FUBranch b" and "fu_canIssue u d w = Inr (NoStall, w1)"
    and "co_unit w2 u = co_unit w1 u" and "fu_executed u d w2 = Inr w3"
    and "co_unit w4 u = co_unit w3 u" and "fu_try_flushed u d w4 = Inr w5"
  shows "rs_kind (co_unit w5 u) = FUBranch (b\<lparr>ub_freeBranches := ub_freeBranches b + 1\<rparr>)"
proof -
  have "w1 = fu_branch_add (- 1) u w"
    using assms(1,2) by (auto simp: fu_canIssue_def branch_canIssue_def res_Inr_iffs split: if_splits)
  then have "rs_kind (co_unit w2 u) = FUBranch (b\<lparr>ub_freeBranches := ub_freeBranches b - 1\<rparr>)"
    using assms(1,3) by (simp add: fu_branch_add_def co_on_unit_def)
  from branch_executed_kind [OF this assms(4)] have "rs_kind (co_unit w4 u) = FUBranch b" using assms(5) by simp
  then show ?thesis using assms(6) by (auto simp: fu_try_flushed_def fu_branch_add_def co_on_unit_def)
qed

lemma co_example_executed:
  assumes "w = fu_branch_add (- 1) 0 co_example" and "w1 = co_on_pool 0 (\<lambda>p. p\<lparr>cp_windowSize := 0\<rparr>) (co_update 0 (\<lambda>x. x\<lparr>di_issued := 3\<rparr>) w)"
  shows "\<exists>w3. fu_executed 0 0 w1 = Inr w3"
  unfolding assms
  by (simp add: co_example_simps fu_branch_add_def co_on_unit_def co_update_def ds_update_def fu_executed_def
      branch_executed_def cl_executed_def co_in_window_def loop_res_def dw_executed_def ww_dinst_def di_isTransient_def
      di_hasDeps_def di_no_source_def dn_idle_def dw_mark_executed_def di_markExecuted_def di_is_spec_def
      di_clearRATEntry_def rat_clear_def di_hasPending_def cl_del_entry_once_def di_mark_del_entry_def di_set_def
      cl_delEntry_def co_on_pool_def co_update_res_def di_markPerformed_def)

lemma flushed_branch_frees_twice_witness:
  "\<exists>w1 w3 w5. fu_canIssue 0 0 co_example = Inr (NoStall, w1) \<and>
    fu_executed 0 0 (co_on_pool 0 (\<lambda>p. p\<lparr>cp_windowSize := 0\<rparr>) (co_update 0 (\<lambda>x. x\<lparr>di_issued := 3\<rparr>) w1)) = Inr w3 \<and>
    fu_try_flushed 0 0 w3 = Inr w5 \<and>
    rs_kind (co_unit w5 0) = FUBranch \<lparr>ub_freeBranches = 2, ub_drainOnMiss = False, ub_bpred_delay = 1\<rparr>"
proof -
  let ?b = "\<lparr>ub_freeBranches = 1, ub_drainOnMiss = False, ub_bpred_delay = 1\<rparr>"
  let ?w1 = "fu_branch_add (- 1) 0 co_example"
  let ?w2 = "co_on_pool 0 (\<lambda>p. p\<lparr>cp_windowSize := 0\<rparr>) (co_update 0 (\<lambda>x. x\<lparr>di_issued := 3\<rparr>) ?w1)"
  have k: "rs_kind (co_unit co_example 0) = FUBranch ?b" by (simp add: co_example_simps)
  have i: "fu_canIssue 0 0 co_example = Inr (NoStall, ?w1)"
    unfolding fu_canIssue_def k
    by (simp add: branch_canIssue_def co_example_simps isControl_def isBranch_def less_eq_opcode_def)
  obtain w3 where w3: "fu_executed 0 0 ?w2 = Inr w3" using co_example_executed by blast
  have u2: "co_unit ?w2 0 = co_unit ?w1 0" by (simp add: co_update_def co_on_pool_def)
  have "rs_kind (co_unit ?w2 0) = FUBranch (?b\<lparr>ub_freeBranches := 0\<rparr>)"
    by (simp add: co_update_def co_on_pool_def fu_branch_add_def co_on_unit_def k)
  from branch_executed_kind [OF this w3] have "\<exists>w5. fu_try_flushed 0 0 w3 = Inr w5" by (simp add: fu_try_flushed_def)
  then show ?thesis using flushed_branch_frees_twice [OF k i u2 w3 refl] i w3 by fastforce
qed

section \<open>Loads that become safe\<close>

lemma sb_remove_spec_load_gone: "\<not> sb_is_clean_disp d (sb_remove_spec_load d s)"
proof -
  have "map_of [(k, x) \<leftarrow> xs. k \<noteq> l] l = None" for xs :: "(addr \<times> sb_line) list" and l by (induction xs) auto
  then show ?thesis
    by (simp add: sb_is_clean_disp_def sb_remove_spec_load_def sb_erase_if_def sb_find_def sb_calc_line_def)
qed

text \<open>
  C16. \<open>FULoad::preretire\<close> removes the line of a speculative load from the store buffer before it asks whether that line is clean. A load that
  is in the buffer, is not transient and becomes safe therefore always sends a dirty displacement to the first-level cache, also where its line was clean: the
  branch for clean lines is dead for the loads it is meant for.
\<close>

theorem safe_load_always_displaces_dirty:
  assumes disp: "fl_dispatched (di_flags (co_dinst d w))" and spec: "di_is_spec (co_dinst d w)"
    and scb: "di_is_present_in_scb (co_dinst d w)" and live: "\<not> di_isTransient (co_dinst d w)" and dc: "ul_enableDcache l"
    and run: "load_preretire l u d w = Inr (b, w')"
  shows "b \<and> \<not> di_is_spec (co_dinst d w') \<and>
    (\<exists>es. co_events w' = co_events w @ Ev_scb_dirty_disp d # es \<and> Ev_scb_clean_disp d \<notin> set es)"
proof -
  let ?x = "co_dinst d w"
  define v where "v = co_update d di_set_safe (load_leave_scb d w)"
  have x: "co_dinst d v = di_set_safe (di_reset_present_in_scb ?x)" and e: "co_events v = co_events w"
    and b: "co_scb v = sb_remove_spec_load ?x (co_scb w)"
    using scb by (simp_all add: v_def load_leave_scb_def co_update_def co_dinst_def ds_update_obj)
  have a: "di_addr (co_dinst d v) = di_addr ?x" by (simp add: x di_set_safe_def di_reset_present_in_scb_def di_set_def)
  have "\<not> sb_is_clean_disp (co_dinst d v) (co_scb v)"
    using sb_remove_spec_load_gone [of ?x "co_scb w"] by (simp add: b sb_is_clean_disp_def a)
  moreover have "\<not> di_isTransient (co_dinst d v)"
    using live by (simp add: x di_set_safe_def di_reset_present_in_scb_def di_set_def di_isTransient_def)
  ultimately have m: "load_make_safe l d w = load_to_cache d v" and
      t: "\<exists>es. co_events (load_to_cache d v) = co_events w @ Ev_scb_dirty_disp d # map Ev_scb es"
      and dx: "co_dinst d (load_to_cache d v) = co_dinst d v"
    using dc e
    by (simp_all add: load_make_safe_def Let_def v_def [symmetric] load_to_cache_def co_emit_def co_dinst_def split: prod.split) auto
  have "\<not> di_is_spec (co_dinst d v)" by (simp add: x di_set_safe_def di_reset_present_in_scb_def di_set_def di_is_spec_def)
  then show ?thesis
    using run disp spec t
    by (auto simp: load_preretire_def m dx Let_def co_emit_def fu_load_add_def co_on_unit_def co_dinst_def [symmetric] split: if_splits)
      (auto simp: co_dinst_def dx [unfolded co_dinst_def])
qed

definition co_load_example :: core where
  "co_load_example = co_example
    \<lparr>co_store := (co_store co_example)\<lparr>ds_obj := (\<lambda>_. (co_dinst 0 co_example)
       \<lparr>di_flags := (di_flags (co_dinst 0 co_example))\<lparr>fl_dispatched := True, fl_present_in_scb := True\<rparr>\<rparr>)\<rparr>,
     co_scb := (co_scb co_example)\<lparr>sb_map := [(0, undefined\<lparr>sl_state := Clean\<rparr>)]\<rparr>\<rparr>"

theorem safe_load_always_displaces_dirty_witness:
  "sb_is_clean_disp (co_dinst 0 co_load_example) (co_scb co_load_example) \<and>
    (\<exists>w' es. load_preretire \<lparr>ul_LSDelay = 1, ul_freeEntries = 1, ul_enableDcache = True, ul_LSQlateAlloc = False\<rparr> 0 0 co_load_example =
      Inr (True, w') \<and> co_events w' = Ev_scb_dirty_disp 0 # es)"
proof -
  let ?l = "\<lparr>ul_LSDelay = 1, ul_freeEntries = 1, ul_enableDcache = True, ul_LSQlateAlloc = False\<rparr>"
  obtain b w' where w': "load_preretire ?l 0 0 co_load_example = Inr (b, w')"
    by (cases "load_preretire ?l 0 0 co_load_example") (auto simp: load_preretire_def Let_def split: if_splits)
  have "b \<and> (\<exists>es. co_events w' = co_events co_load_example @ Ev_scb_dirty_disp 0 # es)"
    using safe_load_always_displaces_dirty [OF _ _ _ _ _ w']
    by (simp add: co_load_example_def co_example_simps di_is_spec_def di_is_present_in_scb_def di_isTransient_def) blast
  then show ?thesis
    using w' by (auto simp: sb_is_clean_disp_def sb_find_def sb_calc_line_def sl_is_clean_def co_load_example_def co_example_simps
        sb_create_def)
qed

end
