(* ===== verification/Pipeline.thy ===== *)
theory Pipeline
  imports Fast_Queue Dinst
begin

text \<open>
  \<open>simu/pipeline.cpp\<close>: the front end between fetch and rename. A bucket of instructions gets a ticket
  when its fetch starts; the answers of the instruction cache come in any order, and the
  pipeline puts the buckets back into the order of the tickets before it hands them out. A bucket is a number
  that maps to its record; the priority queue of the buckets that wait is a list sorted by ticket. The
  main fact is that the buckets leave in the order of their tickets, flushes of transient
  instructions included, and that none is left behind when all fetches have been answered.
\<close>

section \<open>Buckets\<close>

record ibucket =
  ib_insts :: "nat fastqueue"
  ib_cleanItem :: bool
  ib_pipeId :: sim_time
  ib_clock :: sim_time
  ib_transient :: bool
  ib_fetched :: bool

record pipeline =
  pi_PipeLength :: u64
  pi_bucketPoolMaxSize :: nat
  pi_MaxIRequests :: int
  pi_nIRequests :: int
  pi_buffer :: "nat fastqueue"
  pi_transient_buffer :: "nat fastqueue"
  pi_bucketPool :: "nat list"
  pi_received :: "nat list"
  pi_maxItemCntr :: sim_time
  pi_minItemCntr :: sim_time
  pi_flushing_id :: sim_time
  pi_flushedPipelineIDs :: "sim_time list"
  pi_bucket :: "nat \<Rightarrow> ibucket"

definition ib_create :: "u64 \<Rightarrow> ibucket \<Rightarrow> ibucket res" where
  "ib_create sz junk = bind_res (fq_create 0 sz) (\<lambda>q. Inr (junk\<lparr>ib_insts := q, ib_cleanItem := False\<rparr>))"

definition pi_ticket :: "pipeline \<Rightarrow> nat \<Rightarrow> sim_time" where
  "pi_ticket p b = ib_pipeId (pi_bucket p b)"

definition pi_on_bucket :: "nat \<Rightarrow> (ibucket \<Rightarrow> ibucket) \<Rightarrow> pipeline \<Rightarrow> pipeline" where
  "pi_on_bucket b f p = p\<lparr>pi_bucket := (pi_bucket p)(b := f (pi_bucket p b))\<rparr>"

definition pi_empty :: "pipeline \<Rightarrow> nat \<Rightarrow> bool" where
  "pi_empty p b = fq_empty (ib_insts (pi_bucket p b))"

text \<open>\<open>bucketPool\<close> is a vector used as a stack: its back is the head of the list.\<close>

definition pi_create :: "u64 \<Rightarrow> u64 \<Rightarrow> int \<Rightarrow> (nat \<Rightarrow> ibucket) \<Rightarrow> pipeline res" where
  "pi_create s fetch maxReqs junk =
    (let n = unat (s + 2 + word_of_int maxReqs)
     in bind_res (fq_create 0 (s + 1 + word_of_int maxReqs)) (\<lambda>buf.
        bind_res (fq_create 0 (s + 2 + word_of_int maxReqs)) (\<lambda>tbuf.
        bind_res (for_res [0..<n] (\<lambda>i m. bind_res (ib_create (fetch + 1) (junk i)) (\<lambda>x. Inr (m(i := x)))) junk) (\<lambda>m.
          Inr \<lparr>pi_PipeLength = s, pi_bucketPoolMaxSize = n, pi_MaxIRequests = maxReqs, pi_nIRequests = maxReqs,
               pi_buffer = buf, pi_transient_buffer = tbuf, pi_bucketPool = rev [0..<n], pi_received = [],
               pi_maxItemCntr = 0, pi_minItemCntr = 0, pi_flushing_id = 0, pi_flushedPipelineIDs = [],
               pi_bucket = m\<rparr>))))"

section \<open>Taking and returning buckets\<close>

definition pi_newItem :: "pipeline \<Rightarrow> (nat option \<times> pipeline) res" where
  "pi_newItem p =
    (if pi_nIRequests p = 0 then Inr (None, p)
     else case pi_bucketPool p of
       [] \<Rightarrow> Inr (None, p)
     | b # pool \<Rightarrow>
         (let p = p\<lparr>pi_nIRequests := pi_nIRequests p - 1, pi_bucketPool := pool\<rparr>;
              p = pi_on_bucket b (\<lambda>x. x\<lparr>ib_pipeId := pi_maxItemCntr p, ib_fetched := False\<rparr>) p;
              p = p\<lparr>pi_maxItemCntr := pi_maxItemCntr p + 1\<rparr>
          in assert_res (pi_empty p b) (Inr (Some b, p))))"

definition pi_free :: "nat \<Rightarrow> pipeline \<Rightarrow> pipeline" where
  "pi_free b p =
    (pi_on_bucket b (\<lambda>x. x\<lparr>ib_clock := 0, ib_transient := False\<rparr>) p)\<lparr>pi_bucketPool := b # pi_bucketPool p\<rparr>"

definition pi_doneItem :: "nat \<Rightarrow> pipeline \<Rightarrow> pipeline res" where
  "pi_doneItem b p = assert_res (pi_ticket p b < pi_minItemCntr p) (assert_res (pi_empty p b) (Inr (pi_free b p)))"

section \<open>Flushing transient instructions\<close>

text \<open>The loop that takes transient instructions off the back of a bucket; \<open>n\<close> bounds its rounds.\<close>

fun ib_strip :: "nat \<Rightarrow> nat \<Rightarrow> nat fastqueue \<times> dinst_store \<Rightarrow> (nat fastqueue \<times> dinst_store) res" where
  "ib_strip 0 self (q, s) = Inl Diverged"
| "ib_strip (Suc n) self (q, s) =
    (if fq_empty q then Inr (q, s)
     else bind_res (fq_end_data q) (\<lambda>d.
       assert_res (\<not> fl_present_in_rob (di_flags (ds_obj s d)))
        (if di_isTransient (ds_obj s d)
         then bind_res (di_destroyTransientInst self d s) (\<lambda>s. ib_strip n self (fq_pop_from_back q, s))
         else Inr (q, s))))"

definition pi_strip :: "nat \<Rightarrow> nat \<Rightarrow> pipeline \<times> dinst_store \<Rightarrow> (pipeline \<times> dinst_store) res" where
  "pi_strip self b = (\<lambda>(p, s).
    let q = ib_insts (pi_bucket p b)
    in bind_res (ib_strip (Suc (fq_size q)) self (q, s)) (\<lambda>(q, s).
         Inr (pi_on_bucket b (\<lambda>x. x\<lparr>ib_insts := q\<rparr>) p, s)))"

fun pi_flush_loop :: "nat \<Rightarrow> nat \<Rightarrow> pipeline \<times> dinst_store \<Rightarrow> (pipeline \<times> dinst_store) res" where
  "pi_flush_loop 0 self (p, s) = Inl Diverged"
| "pi_flush_loop (Suc n) self (p, s) =
    (if fq_empty (pi_buffer p) then Inr (p, s)
     else bind_res (fq_end_data (pi_buffer p)) (\<lambda>b.
          bind_res (pi_strip self b (p, s)) (\<lambda>(p, s).
            if \<not> pi_empty p b then Inr (p, s)
            else bind_res (pi_doneItem b p) (\<lambda>p.
                 pi_flush_loop n self (p\<lparr>pi_buffer := fq_pop_from_back (pi_buffer p)\<rparr>, s)))))"

definition pi_flush_buffer :: "nat \<Rightarrow> pipeline \<times> dinst_store \<Rightarrow> (pipeline \<times> dinst_store) res" where
  "pi_flush_buffer self = (\<lambda>(p, s). pi_flush_loop (Suc (fq_size (pi_buffer p))) self (p, s))"

definition pi_set_transient :: "nat \<Rightarrow> pipeline \<Rightarrow> pipeline" where
  "pi_set_transient b p = pi_on_bucket b (\<lambda>x. x\<lparr>ib_transient := True\<rparr>) p"

text \<open>The buckets that wait for an older one: an emptied one is freed, its ticket is kept.\<close>

fun pi_flush_waiting ::
  "nat \<Rightarrow> nat list \<Rightarrow> pipeline \<times> dinst_store \<Rightarrow> (nat list \<times> pipeline \<times> dinst_store) res" where
  "pi_flush_waiting self [] (p, s) = Inr ([], p, s)"
| "pi_flush_waiting self (b # bs) (p, s) =
    bind_res (pi_strip self b (p, s)) (\<lambda>(p, s).
      if pi_empty p b
      then pi_flush_waiting self bs
             (pi_free b (p\<lparr>pi_flushedPipelineIDs := pi_flushedPipelineIDs p @ [pi_ticket p b]\<rparr>), s)
      else bind_res (pi_flush_waiting self bs (p, s)) (\<lambda>(keep, r). Inr (b # keep, r)))"

definition pi_flush_received :: "nat \<Rightarrow> pipeline \<times> dinst_store \<Rightarrow> (pipeline \<times> dinst_store) res" where
  "pi_flush_received self = (\<lambda>(p, s).
    bind_res (pi_flush_waiting self (pi_received p) (p\<lparr>pi_received := []\<rparr>, s)) (\<lambda>(keep, p, s).
      Inr (p\<lparr>pi_received := keep\<rparr>, s)))"

section \<open>Putting the buckets in order\<close>

definition pi_take_in :: "nat \<Rightarrow> pipeline \<Rightarrow> pipeline res" where
  "pi_take_in b p =
    (let p = p\<lparr>pi_minItemCntr := pi_minItemCntr p + 1\<rparr>
     in if pi_empty p b then pi_doneItem b p
        else bind_res (fq_push (pi_buffer p) b) (\<lambda>q. Inr (p\<lparr>pi_buffer := q\<rparr>)))"

fun pi_clear_loop :: "nat \<Rightarrow> nat \<Rightarrow> pipeline \<times> dinst_store \<Rightarrow> (pipeline \<times> dinst_store) res" where
  "pi_clear_loop 0 self (p, s) = Inl Diverged"
| "pi_clear_loop (Suc n) self (p, s) =
    (if pi_minItemCntr p \<in> set (pi_flushedPipelineIDs p)
     then pi_clear_loop n self (p\<lparr>pi_flushedPipelineIDs := remove1 (pi_minItemCntr p) (pi_flushedPipelineIDs p),
                                 pi_minItemCntr := pi_minItemCntr p + 1\<rparr>, s)
     else case pi_received p of
       [] \<Rightarrow> Inr (p, s)
     | b # bs \<Rightarrow>
         if pi_ticket p b \<noteq> pi_minItemCntr p then Inr (p, s)
         else bind_res (pi_take_in b (p\<lparr>pi_received := bs\<rparr>)) (\<lambda>p'.
              bind_res (if pi_empty p b then Inr (p', s) else pi_flush_buffer self (p', s)) (\<lambda>r.
                pi_clear_loop n self r)))"

definition pi_clearItems :: "nat \<Rightarrow> pipeline \<times> dinst_store \<Rightarrow> (pipeline \<times> dinst_store) res" where
  "pi_clearItems self = (\<lambda>(p, s).
    pi_clear_loop (Suc (length (pi_flushedPipelineIDs p) + length (pi_received p))) self (p, s))"

definition pi_wait :: "nat \<Rightarrow> pipeline \<Rightarrow> pipeline" where
  "pi_wait b p = p\<lparr>pi_received := insort_key (pi_ticket p) b (pi_received p)\<rparr>"

definition pi_readyItem :: "nat \<Rightarrow> nat \<Rightarrow> pipeline \<times> dinst_store \<Rightarrow> (pipeline \<times> dinst_store) res" where
  "pi_readyItem self b = (\<lambda>(p, s).
    let p = pi_on_bucket b (\<lambda>x. x\<lparr>ib_clock := ds_globalClock s, ib_transient := False\<rparr>) p;
        p = p\<lparr>pi_nIRequests := pi_nIRequests p + 1\<rparr>
    in if pi_ticket p b \<noteq> pi_minItemCntr p then Inr (pi_wait b p, s)
       else bind_res (pi_take_in b p) (\<lambda>p. pi_clearItems self (p, s)))"

definition ib_markFetched :: "nat \<Rightarrow> nat \<Rightarrow> pipeline \<times> dinst_store \<Rightarrow> (pipeline \<times> dinst_store) res" where
  "ib_markFetched self b = (\<lambda>(p, s).
    assert_res (\<not> ib_fetched (pi_bucket p b))
      (pi_readyItem self b (pi_on_bucket b (\<lambda>x. x\<lparr>ib_fetched := True\<rparr>) p, s)))"

definition pi_nextItem :: "nat \<Rightarrow> pipeline \<times> dinst_store \<Rightarrow> (nat option \<times> pipeline \<times> dinst_store) res" where
  "pi_nextItem self = (\<lambda>(p, s).
    if fq_empty (pi_buffer p)
    then bind_res (pi_clearItems self (p, s)) (\<lambda>(p, s). assert_res (fq_empty (pi_buffer p)) (Inr (None, p, s)))
    else bind_res (fq_top (pi_buffer p)) (\<lambda>b.
      if ib_clock (pi_bucket p b) + pi_PipeLength p > ds_globalClock s then Inr (None, p, s)
      else bind_res (fq_pop (pi_buffer p)) (\<lambda>q.
        assert_res (\<not> pi_empty p b) (assert_res (\<not> ib_cleanItem (pi_bucket p b))
          (Inr (Some b, p\<lparr>pi_buffer := q\<rparr>, s))))))"

definition pi_hasOutstandingItems :: "pipeline \<Rightarrow> bool" where
  "pi_hasOutstandingItems p \<longleftrightarrow>
    \<not> fq_empty (pi_buffer p) \<or> pi_received p \<noteq> [] \<or> pi_nIRequests p < pi_MaxIRequests p"

definition pi_set_flushing_id :: "sim_time \<Rightarrow> pipeline \<Rightarrow> pipeline" where
  "pi_set_flushing_id t p = p\<lparr>pi_flushing_id := t\<rparr>"

definition ib_getPriority :: "dinst_store \<Rightarrow> ibucket \<Rightarrow> sim_time res" where
  "ib_getPriority s x =
    (if fq_empty (ib_insts x) then Inr 0 else bind_res (fq_top (ib_insts x)) (\<lambda>d. Inr (di_ID (ds_obj s d))))"

section \<open>The ring operations, read backwards\<close>

lemma fq_push_Inr:
  assumes "fq_inv q" and "fq_push q d = Inr q'"
  shows "fq_inv q' \<and> fq_contents q' = fq_contents q @ [d]"
proof -
  have "unat (fq_nElems q) < fq_capacity q"
    using assms(2) unat_nElems_bounds [OF assms(1)] by (auto simp: fq_push_def assert_res_Inr_iff)
  then show ?thesis using fq_push_refines [OF assms(1), of d] assms(2) by (metis sum.inject(2))
qed

lemma fq_empty_contents: "fq_empty q \<longleftrightarrow> fq_contents q = []"
  using length_fq_contents [of q] by (auto simp: fq_empty_def unat_eq_0 simp flip: length_0_conv)

lemma fq_pop_Inr:
  assumes "fq_inv q" and "fq_pop q = Inr q'"
  shows "fq_inv q' \<and> fq_contents q' = tl (fq_contents q) \<and> fq_contents q \<noteq> []"
proof -
  have "fq_contents q \<noteq> []"
    using assms(2) fq_empty_contents [of q] by (auto simp: fq_pop_def assert_res_Inr_iff fq_empty_def)
  then show ?thesis using fq_pop_refines [OF assms(1)] assms(2) by (metis sum.inject(2))
qed

lemma fq_top_hd:
  assumes "fq_inv q" and "fq_contents q \<noteq> []"
  shows "fq_top q = Inr (hd (fq_contents q))"
proof -
  have n: "0 < unat (fq_nElems q)" using assms(2) length_fq_contents [of q] by (metis length_greater_0_conv)
  have "unat (fq_start q) < fq_capacity q" using assms(1) by (simp add: fq_inv_def)
  then show ?thesis
    using fq_contents_nth [OF n] assms(2) by (simp add: fq_top_def fq_capacity_def hd_conv_nth)
qed

section \<open>The order of the buckets\<close>

abbreviation pi_tickets :: "pipeline \<Rightarrow> nat list \<Rightarrow> sim_time list" where
  "pi_tickets p bs \<equiv> map (pi_ticket p) bs"

text \<open>
  \<open>pi_open W\<close>: the tickets that are still out are those between \<open>minItemCntr\<close> and \<open>maxItemCntr\<close>; each belongs to a bucket in \<open>F\<close>
  (its fetch has not been answered), to one that waits for an older bucket, or to one that was emptied by a flush. \<open>H\<close> are the
  tickets of the buckets handed out, oldest first, \<open>D\<close> the buckets in use behind the pipeline.
\<close>

definition pi_open :: "nat list \<Rightarrow> pipeline \<Rightarrow> bool" where
  "pi_open F p \<longleftrightarrow> pi_minItemCntr p \<le> pi_maxItemCntr p \<and>
    distinct (pi_tickets p F @ pi_tickets p (pi_received p) @ pi_flushedPipelineIDs p) \<and>
    set (pi_tickets p F @ pi_tickets p (pi_received p) @ pi_flushedPipelineIDs p) =
      {pi_minItemCntr p..<pi_maxItemCntr p} \<and>
    sorted (pi_tickets p (pi_received p))"

definition pi_places :: "nat list \<Rightarrow> nat list \<Rightarrow> pipeline \<Rightarrow> bool" where
  "pi_places F D p \<longleftrightarrow> distinct (F @ D @ pi_received p @ fq_contents (pi_buffer p) @ pi_bucketPool p)"

definition pi_ordered :: "sim_time list \<Rightarrow> pipeline \<Rightarrow> bool" where
  "pi_ordered H p \<longleftrightarrow> sorted_wrt (<) (H @ pi_tickets p (fq_contents (pi_buffer p))) \<and>
    (\<forall>t \<in> set H \<union> set (pi_tickets p (fq_contents (pi_buffer p))). t < pi_minItemCntr p)"

definition pi_rings :: "pipeline \<Rightarrow> bool" where
  "pi_rings p \<longleftrightarrow> fq_inv (pi_buffer p) \<and> (\<forall>b. fq_inv (ib_insts (pi_bucket p b))) \<and>
    (\<forall>b \<in> set (fq_contents (pi_buffer p)). \<not> pi_empty p b)"

definition pi_inv :: "nat list \<Rightarrow> sim_time list \<Rightarrow> nat list \<Rightarrow> pipeline \<Rightarrow> bool" where
  "pi_inv F H D p \<longleftrightarrow> pi_open F p \<and> pi_places F D p \<and> pi_ordered H p \<and> pi_rings p"

text \<open>At rest the oldest open ticket is one whose fetch has not been answered.\<close>

definition pi_rest :: "nat list \<Rightarrow> pipeline \<Rightarrow> bool" where
  "pi_rest F p \<longleftrightarrow> (pi_minItemCntr p < pi_maxItemCntr p \<longrightarrow> pi_minItemCntr p \<in> set (pi_tickets p F))"

subsection \<open>Stripping a bucket\<close>

lemma ib_strip_inv: "ib_strip n self (q, s) = Inr (q', s') \<Longrightarrow> fq_inv q \<Longrightarrow> fq_inv q'"
proof (induction n arbitrary: q s)
  case (Suc n)
  have "fq_inv (fq_pop_from_back q)" if "\<not> fq_empty q"
    using fq_pop_from_back_refines(1) [OF Suc.prems(2)] that fq_empty_contents by blast
  then show ?case using Suc by (auto simp: res_Inr_iffs split: if_splits)
qed simp

lemma pi_strip_shape:
  assumes "pi_strip self b (p, s) = Inr (p', s')" and "pi_rings p"
  obtains q where "fq_inv q" "p' = pi_on_bucket b (\<lambda>x. x\<lparr>ib_insts := q\<rparr>) p"
  using assms by (auto simp: pi_strip_def Let_def bind_res_Inr_iff pi_rings_def simp del: ib_strip.simps dest!: ib_strip_inv)

lemma pi_on_bucket_simps [simp]:
  "pi_ticket (pi_on_bucket b (\<lambda>x. x\<lparr>ib_insts := q\<rparr>) p) = pi_ticket p"
  "pi_received (pi_on_bucket b f p) = pi_received p" "pi_buffer (pi_on_bucket b f p) = pi_buffer p"
  "pi_bucketPool (pi_on_bucket b f p) = pi_bucketPool p" "pi_minItemCntr (pi_on_bucket b f p) = pi_minItemCntr p"
  "pi_maxItemCntr (pi_on_bucket b f p) = pi_maxItemCntr p"
  "pi_flushedPipelineIDs (pi_on_bucket b f p) = pi_flushedPipelineIDs p"
  by (auto simp: pi_on_bucket_def pi_ticket_def fun_eq_iff)

lemma pi_free_simps [simp]:
  "pi_ticket (pi_free b p) = pi_ticket p" "pi_received (pi_free b p) = pi_received p"
  "pi_buffer (pi_free b p) = pi_buffer p" "pi_bucketPool (pi_free b p) = b # pi_bucketPool p"
  "pi_minItemCntr (pi_free b p) = pi_minItemCntr p" "pi_maxItemCntr (pi_free b p) = pi_maxItemCntr p"
  "pi_flushedPipelineIDs (pi_free b p) = pi_flushedPipelineIDs p"
  "pi_empty (pi_free b p) = pi_empty p" "ib_insts (pi_bucket (pi_free b p) x) = ib_insts (pi_bucket p x)"
  by (auto simp: pi_free_def pi_on_bucket_def pi_ticket_def pi_empty_def fun_eq_iff)

lemma pi_ticket_fields [simp]:
  "pi_ticket (p\<lparr>pi_buffer := q\<rparr>) = pi_ticket p" "pi_ticket (p\<lparr>pi_received := r\<rparr>) = pi_ticket p"
  "pi_ticket (p\<lparr>pi_minItemCntr := t\<rparr>) = pi_ticket p" "pi_ticket (p\<lparr>pi_flushedPipelineIDs := ts\<rparr>) = pi_ticket p"
  "pi_ticket (p\<lparr>pi_nIRequests := i\<rparr>) = pi_ticket p" "pi_ticket (p\<lparr>pi_maxItemCntr := t\<rparr>) = pi_ticket p"
  "pi_ticket (p\<lparr>pi_bucketPool := r\<rparr>) = pi_ticket p"
  "pi_empty (p\<lparr>pi_buffer := q\<rparr>) = pi_empty p" "pi_empty (p\<lparr>pi_received := r\<rparr>) = pi_empty p"
  "pi_empty (p\<lparr>pi_minItemCntr := t\<rparr>) = pi_empty p" "pi_empty (p\<lparr>pi_flushedPipelineIDs := ts\<rparr>) = pi_empty p"
  "pi_empty (p\<lparr>pi_nIRequests := i\<rparr>) = pi_empty p" "pi_empty (p\<lparr>pi_maxItemCntr := t\<rparr>) = pi_empty p"
  "pi_empty (p\<lparr>pi_bucketPool := r\<rparr>) = pi_empty p"
  by (auto simp: pi_ticket_def pi_empty_def fun_eq_iff)

lemma pi_rings_bucket:
  assumes "pi_rings p" and "fq_inv q" and "b \<in> set (fq_contents (pi_buffer p)) \<Longrightarrow> \<not> fq_empty q"
  shows "pi_rings (pi_on_bucket b (\<lambda>x. x\<lparr>ib_insts := q\<rparr>) p)"
  using assms by (auto simp: pi_rings_def pi_empty_def) (auto simp: pi_on_bucket_def split: if_splits)

lemma pi_inv_bucket:
  assumes "pi_inv F H D p" and "fq_inv q" and "b \<in> set (fq_contents (pi_buffer p)) \<Longrightarrow> \<not> fq_empty q"
  shows "pi_inv F H D (pi_on_bucket b (\<lambda>x. x\<lparr>ib_insts := q\<rparr>) p)"
  using assms pi_rings_bucket by (simp add: pi_inv_def pi_open_def pi_places_def pi_ordered_def)

subsection \<open>Flushing\<close>

text \<open>The fields a flush of the buffer leaves alone.\<close>

definition pi_same_open :: "pipeline \<Rightarrow> pipeline \<Rightarrow> bool" where
  "pi_same_open p p' \<longleftrightarrow> pi_ticket p' = pi_ticket p \<and> pi_received p' = pi_received p \<and>
    pi_minItemCntr p' = pi_minItemCntr p \<and> pi_maxItemCntr p' = pi_maxItemCntr p \<and>
    pi_flushedPipelineIDs p' = pi_flushedPipelineIDs p"

lemma pi_inv_drop_last:
  assumes inv: "pi_inv F H D p" and ne: "fq_contents (pi_buffer p) \<noteq> []"
    and b: "b = last (fq_contents (pi_buffer p))" and q: "fq_inv q"
  shows "pi_inv F H D ((pi_free b (pi_on_bucket b (\<lambda>x. x\<lparr>ib_insts := q\<rparr>) p))
    \<lparr>pi_buffer := fq_pop_from_back (pi_buffer p)\<rparr>)"
proof -
  let ?c = "fq_contents (pi_buffer p)"
  have c: "?c = butlast ?c @ [b]" using ne b by simp
  have r: "fq_inv (pi_buffer p)" using inv by (simp add: pi_inv_def pi_rings_def)
  note bk = fq_pop_from_back_refines [OF r ne]
  have "pi_places F D p" using inv by (simp add: pi_inv_def)
  then have "distinct (F @ D @ pi_received p @ (butlast ?c @ [b]) @ pi_bucketPool p)"
    by (simp add: pi_places_def ne b)
  then have d: "distinct (F @ D @ pi_received p @ butlast ?c @ b # pi_bucketPool p)" "b \<notin> set (butlast ?c)" by auto
  have "sorted_wrt (<) (H @ pi_tickets p (butlast ?c @ [b]))" "\<forall>t \<in> set H \<union> set (pi_tickets p (butlast ?c @ [b])). t < pi_minItemCntr p"
    using inv ne by (simp_all add: pi_inv_def pi_ordered_def b)
  then have "sorted_wrt (<) (H @ pi_tickets p (butlast ?c)) \<and> (\<forall>t \<in> set H \<union> set (pi_tickets p (butlast ?c)). t < pi_minItemCntr p)"
    by (auto simp: sorted_wrt_append)
  moreover have "\<not> pi_empty (pi_on_bucket b (\<lambda>x. x\<lparr>ib_insts := q\<rparr>) p) x" if "x \<in> set (butlast ?c)" for x
    using inv that d(2) in_set_butlastD [OF that] by (auto simp: pi_inv_def pi_rings_def pi_empty_def pi_on_bucket_def)
  moreover have "fq_inv (ib_insts (pi_bucket (pi_on_bucket b (\<lambda>x. x\<lparr>ib_insts := q\<rparr>) p) x))" for x
    using inv q by (auto simp: pi_inv_def pi_rings_def pi_on_bucket_def)
  ultimately show ?thesis
    using inv d(1) bk by (simp add: pi_inv_def pi_open_def pi_places_def pi_ordered_def pi_rings_def)
qed

lemma pi_flush_loop_inv:
  "pi_flush_loop n self (p, s) = Inr (p', s') \<Longrightarrow> pi_inv F H D p \<Longrightarrow> pi_inv F H D p' \<and> pi_same_open p p'"
proof (induction n arbitrary: p s)
  case (Suc n)
  let ?c = "fq_contents (pi_buffer p)"
  have r: "pi_rings p" "fq_inv (pi_buffer p)" using Suc.prems(2) by (simp_all add: pi_inv_def pi_rings_def)
  show ?case
  proof (cases "fq_empty (pi_buffer p)")
    case True
    then show ?thesis using Suc.prems by (simp add: pi_same_open_def)
  next
    case False
    then have ne: "?c \<noteq> []" by (simp add: fq_empty_contents)
    define b where "b = last ?c"
    have b: "fq_end_data (pi_buffer p) = Inr b" using fq_end_data_last [OF r(2) ne] by (simp add: b_def)
    obtain p1 s1 where p1: "pi_strip self b (p, s) = Inr (p1, s1)"
      and rest: "(if \<not> pi_empty p1 b then Inr (p1, s1)
        else bind_res (pi_doneItem b p1) (\<lambda>p. pi_flush_loop n self (p\<lparr>pi_buffer := fq_pop_from_back (pi_buffer p)\<rparr>, s1)))
        = Inr (p', s')"
      using Suc.prems(1) False b by (auto simp: bind_res_Inr_iff)
    obtain q where q: "fq_inv q" "p1 = pi_on_bucket b (\<lambda>x. x\<lparr>ib_insts := q\<rparr>) p"
      by (rule pi_strip_shape [OF p1 r(1)])
    have e: "pi_empty p1 b = fq_empty q" by (simp add: q(2) pi_empty_def pi_on_bucket_def)
    show ?thesis
    proof (cases "pi_empty p1 b")
      case False
      then have "p' = p1" using rest by simp
      moreover have "pi_inv F H D p1" unfolding q(2) using pi_inv_bucket [OF Suc.prems(2) q(1)] e False by simp
      ultimately show ?thesis by (simp add: pi_same_open_def q(2))
    next
      case True
      let ?p2 = "(pi_free b p1)\<lparr>pi_buffer := fq_pop_from_back (pi_buffer p1)\<rparr>"
      have "pi_flush_loop n self (?p2, s1) = Inr (p', s')"
        using rest True by (auto simp: pi_doneItem_def res_Inr_iffs)
      moreover have "pi_inv F H D ?p2" using pi_inv_drop_last [OF Suc.prems(2) ne b_def q(1)] by (simp add: q(2))
      ultimately have "pi_inv F H D p' \<and> pi_same_open ?p2 p'" by (rule Suc.IH)
      then show ?thesis by (simp add: pi_same_open_def q(2))
    qed
  qed
qed simp

lemma pi_flush_buffer_inv:
  "pi_flush_buffer self (p, s) = Inr (p', s') \<Longrightarrow> pi_inv F H D p \<Longrightarrow> pi_inv F H D p' \<and> pi_same_open p p'"
  by (auto simp: pi_flush_buffer_def simp del: pi_flush_loop.simps dest: pi_flush_loop_inv)

lemma pi_same_open_rest: "pi_same_open p p' \<Longrightarrow> pi_rest F p' = pi_rest F p"
  by (simp add: pi_same_open_def pi_rest_def)

lemma pi_inv_flush_ticket:
  assumes "pi_inv F H D (p\<lparr>pi_received := pre @ b # bs\<rparr>)"
  shows "pi_inv F H D ((pi_free b (p\<lparr>pi_flushedPipelineIDs := pi_flushedPipelineIDs p @ [pi_ticket p b]\<rparr>))
    \<lparr>pi_received := pre @ bs\<rparr>)"
  using assms
  by (auto simp: pi_inv_def pi_open_def pi_places_def pi_ordered_def pi_rings_def sorted_append)

lemma pi_flush_waiting_inv:
  "pi_flush_waiting self bs (p, s) = Inr (keep, p', s') \<Longrightarrow> pi_inv F H D (p\<lparr>pi_received := pre @ bs\<rparr>) \<Longrightarrow>
    pi_inv F H D (p'\<lparr>pi_received := pre @ keep\<rparr>) \<and> pi_minItemCntr p' = pi_minItemCntr p \<and>
    pi_maxItemCntr p' = pi_maxItemCntr p \<and> pi_ticket p' = pi_ticket p"
proof (induction bs arbitrary: p s pre keep)
  case Nil
  then show ?case by simp
next
  case (Cons b bs)
  let ?p = "p\<lparr>pi_received := pre @ b # bs\<rparr>"
  obtain p1 s1 where p1: "pi_strip self b (p, s) = Inr (p1, s1)"
    and rest: "(if pi_empty p1 b
      then pi_flush_waiting self bs
             (pi_free b (p1\<lparr>pi_flushedPipelineIDs := pi_flushedPipelineIDs p1 @ [pi_ticket p1 b]\<rparr>), s1)
      else bind_res (pi_flush_waiting self bs (p1, s1)) (\<lambda>(keep, r). Inr (b # keep, r))) = Inr (keep, p', s')"
    using Cons.prems(1) by (auto simp: bind_res_Inr_iff)
  have "pi_rings p" using Cons.prems(2) by (simp add: pi_inv_def pi_rings_def)
  then obtain q where q: "fq_inv q" "p1 = pi_on_bucket b (\<lambda>x. x\<lparr>ib_insts := q\<rparr>) p" by (rule pi_strip_shape [OF p1])
  have nb: "b \<notin> set (fq_contents (pi_buffer p))" using Cons.prems(2) by (auto simp: pi_inv_def pi_places_def)
  have "pi_inv F H D (pi_on_bucket b (\<lambda>x. x\<lparr>ib_insts := q\<rparr>) ?p)"
    by (rule pi_inv_bucket [OF Cons.prems(2) q(1)]) (use nb in simp)
  then have i1: "pi_inv F H D (p1\<lparr>pi_received := pre @ b # bs\<rparr>)"
    by (simp add: q(2) pi_inv_def pi_open_def pi_places_def pi_ordered_def pi_rings_def pi_empty_def pi_ticket_def [abs_def])
      (simp add: pi_on_bucket_def)
  have t1: "pi_minItemCntr p1 = pi_minItemCntr p" "pi_maxItemCntr p1 = pi_maxItemCntr p" "pi_ticket p1 = pi_ticket p"
    by (simp_all add: q(2))
  show ?case
  proof (cases "pi_empty p1 b")
    case True
    then show ?thesis
      using Cons.IH [of _ s1 keep pre] pi_inv_flush_ticket [OF i1] rest t1 by simp
  next
    case False
    then obtain keep' where k: "keep = b # keep'" "pi_flush_waiting self bs (p1, s1) = Inr (keep', p', s')"
      using rest by (auto simp: bind_res_Inr_iff)
    then show ?thesis using Cons.IH [OF k(2), of "pre @ [b]"] i1 t1 by simp
  qed
qed

lemma pi_flush_received_inv:
  assumes "pi_flush_received self (p, s) = Inr (p', s')" and "pi_inv F H D p" and "pi_rest F p"
  shows "pi_inv F H D p' \<and> pi_rest F p'"
proof -
  obtain keep p1 where k: "pi_flush_waiting self (pi_received p) (p\<lparr>pi_received := []\<rparr>, s) = Inr (keep, p1, s')"
    "p' = p1\<lparr>pi_received := keep\<rparr>"
    using assms(1) by (auto simp: pi_flush_received_def bind_res_Inr_iff)
  from pi_flush_waiting_inv [OF k(1), of F H D "[]"] show ?thesis using assms k(2) by (simp add: pi_rest_def)
qed

subsection \<open>Putting a bucket into the buffer\<close>

lemma word_lt_succ:
  assumes "(a :: u64) < c"
  shows "t < a + 1 \<longleftrightarrow> t \<le> a" and "{a + 1..<c} = {a..<c} - {a}"
proof -
  have "a + 1 \<noteq> 0"
  proof
    assume "a + 1 = 0"
    then have "a = - 1" by (simp add: add_eq_0_iff2)
    then show False using assms by (simp add: word_not_simps)
  qed
  then have u: "unat (a + 1) = Suc (unat a)" by (rule unat_word_Suc)
  have lt: "t < a + 1 \<longleftrightarrow> t \<le> a" "a + 1 \<le> t \<longleftrightarrow> a < t" for t
    unfolding word_less_nat_alt word_le_nat_alt u by (rule less_Suc_eq_le, rule Suc_le_eq)
  show "t < a + 1 \<longleftrightarrow> t \<le> a" by (rule lt)
  show "{a + 1..<c} = {a..<c} - {a}"
  proof (rule set_eqI)
    fix t
    show "t \<in> {a + 1..<c} \<longleftrightarrow> t \<in> {a..<c} - {a}"
      unfolding atLeastLessThan_iff Diff_iff singleton_iff lt(2) less_le by blast
  qed
qed

lemma pi_take_in_inv:
  assumes inv: "pi_inv (F1 @ b # F2) H D p" and t: "pi_ticket p b = pi_minItemCntr p" and run: "pi_take_in b p = Inr p'"
  shows "pi_inv (F1 @ F2) H D p' \<and> pi_received p' = pi_received p \<and> pi_flushedPipelineIDs p' = pi_flushedPipelineIDs p"
proof -
  let ?m = "pi_minItemCntr p" and ?c = "fq_contents (pi_buffer p)"
  have o: "pi_open (F1 @ b # F2) p" and pl: "pi_places (F1 @ b # F2) D p" and od: "pi_ordered H p" and rg: "pi_rings p"
    using inv by (simp_all add: pi_inv_def)
  have "pi_ticket p b \<in> set (pi_tickets p (F1 @ b # F2) @ pi_tickets p (pi_received p) @ pi_flushedPipelineIDs p)" by simp
  then have "pi_ticket p b \<in> {?m..<pi_maxItemCntr p}" using o unfolding pi_open_def by blast
  then have lt: "?m < pi_maxItemCntr p" using t by simp
  note succ = word_lt_succ [OF lt]
  have lt1: "?m + 1 \<le> pi_maxItemCntr p" by (rule leI) (use succ(1) lt in simp)
  have open1: "pi_open (F1 @ F2) (p\<lparr>pi_minItemCntr := ?m + 1\<rparr>)"
    using o lt1 t unfolding pi_open_def by (auto simp: succ(2))
  have lts: "\<forall>t \<in> set H \<union> set (pi_tickets p ?c). t < ?m" using od by (simp add: pi_ordered_def)
  show ?thesis
  proof (cases "pi_empty p b")
    case True
    then have p': "p' = pi_free b (p\<lparr>pi_minItemCntr := ?m + 1\<rparr>)"
      using run by (auto simp: pi_take_in_def Let_def pi_doneItem_def res_Inr_iffs)
    have "pi_ordered H p'" using od lts succ(1) by (auto simp: pi_ordered_def p' intro: less_imp_le)
    then show ?thesis using open1 pl rg by (auto simp: p' pi_inv_def pi_open_def pi_places_def pi_rings_def)
  next
    case False
    then obtain q where q: "fq_push (pi_buffer p) b = Inr q" "p' = p\<lparr>pi_minItemCntr := ?m + 1, pi_buffer := q\<rparr>"
      using run by (auto simp: pi_take_in_def Let_def res_Inr_iffs)
    have c: "fq_inv q" "fq_contents q = ?c @ [b]" using fq_push_Inr [OF _ q(1)] rg by (simp_all add: pi_rings_def)
    have "pi_ordered H p'"
      using od lts succ(1) t by (auto simp: pi_ordered_def q(2) c(2) sorted_wrt_append intro: less_imp_le)
    moreover have "pi_places (F1 @ F2) D p'" using pl by (auto simp: pi_places_def q(2) c(2))
    moreover have "pi_rings p'" using rg False c by (auto simp: pi_rings_def q(2))
    ultimately show ?thesis using open1 by (simp add: q(2) pi_inv_def pi_open_def)
  qed
qed

lemma pi_inv_uncover:
  assumes "pi_inv F H D p" and "pi_received p = b # bs"
  shows "pi_inv (F @ [b]) H D (p\<lparr>pi_received := bs\<rparr>)"
  using assms
  by (auto simp: pi_inv_def pi_open_def pi_places_def pi_ordered_def pi_rings_def)

lemma pi_inv_skip:
  assumes inv: "pi_inv F H D p" and m: "pi_minItemCntr p \<in> set (pi_flushedPipelineIDs p)"
  shows "pi_inv F H D (p\<lparr>pi_flushedPipelineIDs := remove1 (pi_minItemCntr p) (pi_flushedPipelineIDs p),
    pi_minItemCntr := pi_minItemCntr p + 1\<rparr>)"
proof -
  let ?m = "pi_minItemCntr p"
  have o: "pi_open F p" and od: "pi_ordered H p" using inv by (simp_all add: pi_inv_def)
  have "?m \<in> {?m..<pi_maxItemCntr p}" using o m by (auto simp: pi_open_def)
  then have lt: "?m < pi_maxItemCntr p" by simp
  note succ = word_lt_succ [OF lt]
  have lt1: "?m + 1 \<le> pi_maxItemCntr p" by (rule leI) (use succ(1) lt in simp)
  have dist: "distinct (pi_flushedPipelineIDs p)" using o by (simp add: pi_open_def)
  have "pi_open F (p\<lparr>pi_flushedPipelineIDs := remove1 ?m (pi_flushedPipelineIDs p), pi_minItemCntr := ?m + 1\<rparr>)"
    using o lt1 m dist unfolding pi_open_def by (auto simp: succ(2))
  moreover have "pi_ordered H (p\<lparr>pi_flushedPipelineIDs := remove1 ?m (pi_flushedPipelineIDs p), pi_minItemCntr := ?m + 1\<rparr>)"
    using od succ(1) by (auto simp: pi_ordered_def intro: less_imp_le)
  ultimately show ?thesis using inv by (simp add: pi_inv_def pi_places_def pi_rings_def)
qed

text \<open>Where the loop stops, the oldest open ticket is not among the buckets that wait.\<close>

lemma pi_stop_rest:
  assumes inv: "pi_inv F H D p" and "pi_minItemCntr p \<notin> set (pi_flushedPipelineIDs p)"
    and "pi_received p = [] \<or> pi_ticket p (hd (pi_received p)) \<noteq> pi_minItemCntr p"
  shows "pi_rest F p"
  unfolding pi_rest_def
proof
  let ?m = "pi_minItemCntr p"
  assume lt: "?m < pi_maxItemCntr p"
  have o: "pi_open F p" using inv by (simp add: pi_inv_def)
  have mem: "?m \<in> set (pi_tickets p F) \<union> set (pi_tickets p (pi_received p))"
    using o lt assms(2) by (auto simp: pi_open_def)
  have "?m \<notin> set (pi_tickets p (pi_received p))"
  proof
    assume i: "?m \<in> set (pi_tickets p (pi_received p))"
    then obtain b bs where b: "pi_received p = b # bs" by (cases "pi_received p") auto
    have "pi_ticket p b \<in> {?m..<pi_maxItemCntr p}" using o b by (auto simp: pi_open_def)
    moreover have "pi_ticket p b \<le> ?m" using o i b by (auto simp: pi_open_def)
    ultimately show False using assms(3) b by auto
  qed
  then show "?m \<in> set (pi_tickets p F)" using mem by blast
qed

lemma pi_clear_loop_inv:
  "pi_clear_loop n self (p, s) = Inr (p', s') \<Longrightarrow> pi_inv F H D p \<Longrightarrow> pi_inv F H D p' \<and> pi_rest F p'"
proof (induction n arbitrary: p s)
  case (Suc n)
  let ?m = "pi_minItemCntr p"
  show ?case
  proof (cases "?m \<in> set (pi_flushedPipelineIDs p)")
    case True
    then show ?thesis using Suc.IH pi_inv_skip [OF Suc.prems(2) True] Suc.prems(1) by simp
  next
    case False
    show ?thesis
    proof (cases "pi_received p = [] \<or> pi_ticket p (hd (pi_received p)) \<noteq> ?m")
      case True
      then have "p' = p" using Suc.prems(1) False by (cases "pi_received p") auto
      then show ?thesis using pi_stop_rest [OF Suc.prems(2) False True] Suc.prems(2) by simp
    next
      case go: False
      then obtain b bs where b: "pi_received p = b # bs" "pi_ticket p b = ?m" by (cases "pi_received p") auto
      obtain p1 p2 s2 where p1: "pi_take_in b (p\<lparr>pi_received := bs\<rparr>) = Inr p1"
        and p2: "(if pi_empty p b then Inr (p1, s) else pi_flush_buffer self (p1, s)) = Inr (p2, s2)"
        and loop: "pi_clear_loop n self (p2, s2) = Inr (p', s')"
        using Suc.prems(1) False b by (simp add: bind_res_Inr_iff) (metis surj_pair)
      have "pi_inv F H D p1"
        using pi_take_in_inv [of F b "[]", OF _ _ p1] pi_inv_uncover [OF Suc.prems(2) b(1)] b(2) by simp
      then have "pi_inv F H D p2" using p2 pi_flush_buffer_inv by (auto split: if_splits)
      then show ?thesis by (rule Suc.IH [OF loop])
    qed
  qed
qed simp

lemma pi_clearItems_inv:
  "pi_clearItems self (p, s) = Inr (p', s') \<Longrightarrow> pi_inv F H D p \<Longrightarrow> pi_inv F H D p' \<and> pi_rest F p'"
  by (auto simp: pi_clearItems_def simp del: pi_clear_loop.simps dest: pi_clear_loop_inv)

text \<open>At rest there is nothing to clear.\<close>

lemma pi_clearItems_rest:
  assumes inv: "pi_inv F H D p" and rest: "pi_rest F p"
  shows "pi_clearItems self (p, s) = Inr (p, s)"
proof -
  let ?m = "pi_minItemCntr p"
  have o: "pi_open F p" using inv by (simp add: pi_inv_def)
  have no: "?m \<notin> set (pi_tickets p (pi_received p)) \<union> set (pi_flushedPipelineIDs p)"
  proof
    assume i: "?m \<in> set (pi_tickets p (pi_received p)) \<union> set (pi_flushedPipelineIDs p)"
    then have "?m \<in> {?m..<pi_maxItemCntr p}" using o unfolding pi_open_def by auto
    then have "?m \<in> set (pi_tickets p F)" using rest by (simp add: pi_rest_def)
    then show False using i o unfolding pi_open_def by auto
  qed
  then show ?thesis by (cases "pi_received p") (auto simp: pi_clearItems_def)
qed

section \<open>The interface of the pipeline preserves the order\<close>

lemma pi_insort_key:
  "set (map f (insort_key f b xs)) = insert (f b) (set (map f xs))"
  "distinct (map f (insort_key f b xs)) \<longleftrightarrow> f b \<notin> f ` set xs \<and> distinct (map f xs)"
  by (induction xs) (auto simp: set_insort_key)

lemma pi_inv_wait:
  assumes "pi_inv (F1 @ b # F2) H D p"
  shows "pi_inv (F1 @ F2) H D (pi_wait b p)"
proof -
  let ?r = "insort_key (pi_ticket p) b (pi_received p)"
  have o: "pi_open (F1 @ b # F2) p" and pl: "pi_places (F1 @ b # F2) D p" using assms by (simp_all add: pi_inv_def)
  have "distinct (F1 @ F2 @ D @ ?r @ fq_contents (pi_buffer p) @ pi_bucketPool p)"
    using pl by (auto simp: pi_places_def distinct_insort set_insort_key)
  then have "pi_places (F1 @ F2) D (pi_wait b p)" by (simp add: pi_places_def pi_wait_def)
  moreover have "pi_open (F1 @ F2) (pi_wait b p)"
    using o unfolding pi_open_def pi_wait_def
    by (auto simp: pi_insort_key set_insort_key sorted_insort_key)
  ultimately show ?thesis using assms by (simp add: pi_inv_def pi_ordered_def pi_rings_def pi_wait_def)
qed

lemma pi_inv_stamp:
  assumes "pi_inv F H D p" and "\<And>x. ib_pipeId (f x) = ib_pipeId x" and "\<And>x. ib_insts (f x) = ib_insts x"
  shows "pi_inv F H D (pi_on_bucket b f p)" and "pi_ticket (pi_on_bucket b f p) = pi_ticket p"
proof -
  have t: "pi_ticket (pi_on_bucket b f p) = pi_ticket p" "pi_empty (pi_on_bucket b f p) = pi_empty p"
    "ib_insts (pi_bucket (pi_on_bucket b f p) x) = ib_insts (pi_bucket p x)" for x
    using assms(2,3) by (auto simp: pi_ticket_def pi_empty_def pi_on_bucket_def fun_eq_iff)
  then show "pi_ticket (pi_on_bucket b f p) = pi_ticket p" by simp
  show "pi_inv F H D (pi_on_bucket b f p)"
    using assms(1) t by (simp add: pi_inv_def pi_open_def pi_places_def pi_ordered_def pi_rings_def)
qed

lemma pi_inv_requests: "pi_inv F H D (p\<lparr>pi_nIRequests := n\<rparr>) = pi_inv F H D p"
  by (simp add: pi_inv_def pi_open_def pi_places_def pi_ordered_def pi_rings_def)

lemma pi_readyItem_inv:
  assumes inv: "pi_inv (F1 @ b # F2) H D p" and rest: "pi_rest (F1 @ b # F2) p"
    and run: "pi_readyItem self b (p, s) = Inr (p', s')"
  shows "pi_inv (F1 @ F2) H D p' \<and> pi_rest (F1 @ F2) p'"
proof -
  let ?q = "pi_on_bucket b (\<lambda>x. x\<lparr>ib_clock := ds_globalClock s, ib_transient := False\<rparr>) p"
  define q where "q = ?q\<lparr>pi_nIRequests := pi_nIRequests ?q + 1\<rparr>"
  have iq: "pi_inv (F1 @ b # F2) H D q" "pi_ticket q = pi_ticket p"
    unfolding q_def pi_inv_requests using pi_inv_stamp [OF inv] by simp_all
  have mq: "pi_minItemCntr q = pi_minItemCntr p" "pi_maxItemCntr q = pi_maxItemCntr p" by (simp_all add: q_def)
  have run: "(if pi_ticket q b \<noteq> pi_minItemCntr q then Inr (pi_wait b q, s)
      else bind_res (pi_take_in b q) (\<lambda>p. pi_clearItems self (p, s))) = Inr (p', s')"
    using run by (simp only: pi_readyItem_def q_def Let_def prod.case)
  show ?thesis
  proof (cases "pi_ticket q b = pi_minItemCntr q")
    case True
    then obtain p1 where p1: "pi_take_in b q = Inr p1" "pi_clearItems self (p1, s) = Inr (p', s')"
      using run by (auto simp: bind_res_Inr_iff)
    show ?thesis using pi_clearItems_inv [OF p1(2)] pi_take_in_inv [OF iq(1) True p1(1)] by blast
  next
    case False
    then have p': "p' = pi_wait b q" using run by simp
    have "pi_rest (F1 @ F2) p'"
      using rest False iq(2) mq by (auto simp: pi_rest_def p' pi_wait_def)
    then show ?thesis using pi_inv_wait [OF iq(1)] p' by simp
  qed
qed

lemma pi_newItem_inv:
  assumes inv: "pi_inv F H D p" and rest: "pi_rest F p" and run: "pi_newItem p = Inr (Some b, p')"
    and room: "pi_maxItemCntr p + 1 \<noteq> 0"
  shows "pi_inv (F @ [b]) H D p' \<and> pi_rest (F @ [b]) p'"
proof -
  let ?m = "pi_maxItemCntr p"
  obtain pool where pool: "pi_bucketPool p = b # pool" "p' = (pi_on_bucket b (\<lambda>x. x\<lparr>ib_pipeId := ?m, ib_fetched := False\<rparr>)
      (p\<lparr>pi_nIRequests := pi_nIRequests p - 1, pi_bucketPool := pool\<rparr>))\<lparr>pi_maxItemCntr := ?m + 1\<rparr>"
    using run by (auto simp: pi_newItem_def Let_def res_Inr_iffs split: if_splits list.splits)
  have o: "pi_open F p" and pl: "pi_places F D p" and od: "pi_ordered H p" and rg: "pi_rings p"
    using inv by (simp_all add: pi_inv_def)
  have t: "pi_ticket p' = (pi_ticket p)(b := ?m)"
    by (auto simp: pool(2) pi_ticket_def pi_on_bucket_def fun_eq_iff)
  have f: "pi_received p' = pi_received p" "pi_buffer p' = pi_buffer p" "pi_bucketPool p' = pool"
    "pi_minItemCntr p' = pi_minItemCntr p" "pi_maxItemCntr p' = ?m + 1"
    "pi_flushedPipelineIDs p' = pi_flushedPipelineIDs p" by (simp_all add: pool(2))
  have new: "b \<notin> set F" "b \<notin> set (pi_received p)" "b \<notin> set (fq_contents (pi_buffer p))"
    using pl pool(1) by (auto simp: pi_places_def)
  have mt: "map ((pi_ticket p)(b := ?m)) xs = pi_tickets p xs" if "b \<notin> set xs" for xs
    using that by (auto simp: map_eq_conv)
  have le: "pi_minItemCntr p \<le> ?m" using o by (simp add: pi_open_def)
  have u: "unat (?m + 1) = Suc (unat ?m)" using room by (rule unat_word_Suc)
  have lt: "x < ?m + 1 \<longleftrightarrow> x < ?m \<or> x = ?m" for x
    unfolding word_less_nat_alt u less_Suc_eq word_unat_eq_iff by (rule refl)
  have ival: "{pi_minItemCntr p..<?m + 1} = insert ?m {pi_minItemCntr p..<?m}"
  proof (rule set_eqI)
    fix x
    show "x \<in> {pi_minItemCntr p..<?m + 1} \<longleftrightarrow> x \<in> insert ?m {pi_minItemCntr p..<?m}"
      unfolding atLeastLessThan_iff insert_iff lt using le by blast
  qed
  have le1: "pi_minItemCntr p \<le> ?m + 1" by (rule less_imp_le) (use lt le in \<open>auto simp: less_le\<close>)
  have "?m \<notin> set (pi_tickets p F @ pi_tickets p (pi_received p) @ pi_flushedPipelineIDs p)"
    using o by (simp only: pi_open_def) simp
  then have nm: "?m \<notin> pi_ticket p ` set F" "?m \<notin> pi_ticket p ` set (pi_received p)" "?m \<notin> set (pi_flushedPipelineIDs p)"
    by auto
  have "pi_open (F @ [b]) p'"
    using o le1 unfolding pi_open_def by (simp add: t f mt new ival nm)
  moreover have "pi_places (F @ [b]) D p'" using pl pool(1) by (auto simp: pi_places_def f)
  moreover have "pi_ordered H p'" using od by (simp add: pi_ordered_def t f mt new)
  moreover have "pi_rings p'"
    using rg by (auto simp: pi_rings_def f pi_empty_def) (auto simp: pool(2) pi_on_bucket_def split: if_splits)
  moreover have "pi_rest (F @ [b]) p'"
    using rest le new(1) by (auto simp: pi_rest_def f t mt lt less_le)
  ultimately show ?thesis by (simp add: pi_inv_def)
qed

lemma pi_doneItem_inv:
  assumes "pi_inv F H (D1 @ b # D2) p" and "pi_doneItem b p = Inr p'"
  shows "pi_inv F H (D1 @ D2) p' \<and> pi_rest F p' = pi_rest F p"
proof -
  have p': "p' = pi_free b p" using assms(2) by (simp add: pi_doneItem_def assert_res_Inr_iff)
  have "pi_places F (D1 @ b # D2) p" using assms(1) by (simp add: pi_inv_def)
  then have "pi_places F (D1 @ D2) p'" by (auto simp: pi_places_def p')
  then show ?thesis using assms(1) by (simp add: p' pi_inv_def pi_open_def pi_ordered_def pi_rings_def pi_rest_def)
qed

lemma pi_nextItem_inv:
  assumes inv: "pi_inv F H D p" and rest: "pi_rest F p" and run: "pi_nextItem self (p, s) = Inr (r, p', s')"
  shows "case r of None \<Rightarrow> p' = p
    | Some b \<Rightarrow> pi_inv F (H @ [pi_ticket p b]) (D @ [b]) p' \<and> pi_rest F p' \<and> \<not> pi_empty p' b"
proof (cases "fq_empty (pi_buffer p)")
  case True
  then show ?thesis using run pi_clearItems_rest [OF inv rest] by (auto simp: pi_nextItem_def res_Inr_iffs)
next
  case False
  let ?c = "fq_contents (pi_buffer p)"
  have ne: "?c \<noteq> []" using False by (simp add: fq_empty_contents)
  have rg: "fq_inv (pi_buffer p)" using inv by (simp add: pi_inv_def pi_rings_def)
  have run: "(if ib_clock (pi_bucket p (hd ?c)) + pi_PipeLength p > ds_globalClock s then Inr (None, p, s)
      else bind_res (fq_pop (pi_buffer p)) (\<lambda>q. assert_res (\<not> pi_empty p (hd ?c))
        (assert_res (\<not> ib_cleanItem (pi_bucket p (hd ?c))) (Inr (Some (hd ?c), p\<lparr>pi_buffer := q\<rparr>, s))))) = Inr (r, p', s')"
    using run False by (simp add: pi_nextItem_def fq_top_hd [OF rg ne])
  show ?thesis
  proof (cases "ib_clock (pi_bucket p (hd ?c)) + pi_PipeLength p > ds_globalClock s")
    case True
    then show ?thesis using run by auto
  next
    case False
    then obtain q where q: "fq_pop (pi_buffer p) = Inr q" "\<not> pi_empty p (hd ?c)"
      "r = Some (hd ?c)" "p' = p\<lparr>pi_buffer := q\<rparr>"
      using run by (simp only: if_False) (auto simp: res_Inr_iffs)
    have c: "fq_inv q" "fq_contents q = tl ?c" using fq_pop_Inr [OF rg q(1)] by simp_all
    obtain b bs where b: "?c = b # bs" using ne by (cases ?c) auto
    have "pi_inv F (H @ [pi_ticket p b]) (D @ [b]) p'"
      using inv b c by (auto simp: q(4) pi_inv_def pi_open_def pi_places_def pi_ordered_def pi_rings_def sorted_wrt_append)
    then show ?thesis using rest q b by (simp add: pi_rest_def)
  qed
qed

lemma pi_create_inv:
  assumes run: "pi_create s fetch maxReqs junk = Inr p" and junk: "\<And>b. fq_inv (ib_insts (junk b))"
  shows "pi_inv [] [] [] p \<and> pi_rest [] p"
proof -
  let ?n = "unat (s + 2 + word_of_int maxReqs)"
  have created: "fq_inv q \<and> fq_contents q = []" if "fq_create d sz = Inr q" for d sz and q :: "nat fastqueue"
  proof -
    have "0 < sz" "sz < 256 * 1024" using that by (auto simp: fq_create_def assert_res_Inr_iff word_neq_0_conv)
    then show ?thesis using that fq_create_ok by (metis sum.inject(2))
  qed
  have loop: "\<forall>b. fq_inv (ib_insts (m' b))"
    if "for_res is (\<lambda>i m. bind_res (ib_create (fetch + 1) (junk i)) (\<lambda>x. Inr (m(i := x)))) m = Inr m'"
      and "\<forall>b. fq_inv (ib_insts (m b))" for "is" m m'
    using that created by (induction "is" arbitrary: m) (auto simp: ib_create_def bind_res_Inr_iff)
  obtain buf m where "fq_create 0 (s + 1 + word_of_int maxReqs) = Inr buf"
    and m: "for_res [0..<?n] (\<lambda>i m. bind_res (ib_create (fetch + 1) (junk i)) (\<lambda>x. Inr (m(i := x)))) junk = Inr m"
    and p: "pi_buffer p = buf" "pi_bucketPool p = rev [0..<?n]" "pi_received p = []" "pi_maxItemCntr p = 0"
      "pi_minItemCntr p = 0" "pi_flushedPipelineIDs p = []" "pi_bucket p = m"
    using run by (auto simp: pi_create_def Let_def bind_res_Inr_iff)
  then show ?thesis using created loop [OF m] junk
    by (simp add: pi_inv_def pi_open_def pi_places_def pi_ordered_def pi_rings_def pi_rest_def)
qed

section \<open>Reachable pipelines\<close>

text \<open>
  \<open>pi_reach F H D p\<close>: \<open>p\<close> arises from a new pipeline by the calls of the fetch engine and the processor; \<open>F\<close> are the buckets whose fetch has not
  been answered, \<open>H\<close> the tickets of those handed out, \<open>D\<close> the buckets the processor has in use. Fetch and rename change the
  instructions of their own buckets only. A run ends before the 64 bit ticket counter wraps.
\<close>

inductive pi_reach :: "nat list \<Rightarrow> sim_time list \<Rightarrow> nat list \<Rightarrow> pipeline \<Rightarrow> bool" where
  pir_start: "pi_create s fetch maxReqs junk = Inr p \<Longrightarrow> (\<And>b. fq_inv (ib_insts (junk b))) \<Longrightarrow> pi_reach [] [] [] p"
| pir_new: "pi_reach F H D p \<Longrightarrow> pi_maxItemCntr p + 1 \<noteq> 0 \<Longrightarrow> pi_newItem p = Inr (Some b, p') \<Longrightarrow> pi_reach (F @ [b]) H D p'"
| pir_fill: "pi_reach F H D p \<Longrightarrow> b \<in> set (F @ D) \<Longrightarrow> fq_inv q \<Longrightarrow>
    pi_reach F H D (pi_on_bucket b (\<lambda>x. x\<lparr>ib_insts := q\<rparr>) p)"
| pir_ready: "pi_reach (F1 @ b # F2) H D p \<Longrightarrow> pi_readyItem self b (p, s) = Inr (p', s') \<Longrightarrow> pi_reach (F1 @ F2) H D p'"
| pir_mark: "pi_reach (F1 @ b # F2) H D p \<Longrightarrow> ib_markFetched self b (p, s) = Inr (p', s') \<Longrightarrow> pi_reach (F1 @ F2) H D p'"
| pir_wait: "pi_reach F H D p \<Longrightarrow> pi_nextItem self (p, s) = Inr (None, p', s') \<Longrightarrow> pi_reach F H D p'"
| pir_next: "pi_reach F H D p \<Longrightarrow> pi_nextItem self (p, s) = Inr (Some b, p', s') \<Longrightarrow>
    pi_reach F (H @ [pi_ticket p b]) (D @ [b]) p'"
| pir_done: "pi_reach F H (D1 @ b # D2) p \<Longrightarrow> pi_doneItem b p = Inr p' \<Longrightarrow> pi_reach F H (D1 @ D2) p'"
| pir_flush_buffer: "pi_reach F H D p \<Longrightarrow> pi_flush_buffer self (p, s) = Inr (p', s') \<Longrightarrow> pi_reach F H D p'"
| pir_flush_received: "pi_reach F H D p \<Longrightarrow> pi_flush_received self (p, s) = Inr (p', s') \<Longrightarrow> pi_reach F H D p'"

lemma pi_markFetched_inv:
  assumes "pi_inv (F1 @ b # F2) H D p" and "pi_rest (F1 @ b # F2) p" and "ib_markFetched self b (p, s) = Inr (p', s')"
  shows "pi_inv (F1 @ F2) H D p' \<and> pi_rest (F1 @ F2) p'"
proof -
  let ?p = "pi_on_bucket b (\<lambda>x. x\<lparr>ib_fetched := True\<rparr>) p"
  have i: "pi_inv (F1 @ b # F2) H D ?p" "pi_ticket ?p = pi_ticket p" using pi_inv_stamp [OF assms(1)] by simp_all
  have r: "pi_rest (F1 @ b # F2) ?p" using assms(2) i(2) by (simp add: pi_rest_def)
  have "pi_readyItem self b (?p, s) = Inr (p', s')" using assms(3) by (simp add: ib_markFetched_def assert_res_Inr_iff)
  then show ?thesis by (rule pi_readyItem_inv [OF i(1) r])
qed

lemma pi_reach_inv: "pi_reach F H D p \<Longrightarrow> pi_inv F H D p \<and> pi_rest F p"
proof (induction rule: pi_reach.induct)
  case (pir_start s fetch maxReqs junk p)
  then show ?case by (rule pi_create_inv)
next
  case (pir_new F H D p b p')
  show ?case by (rule pi_newItem_inv [OF pir_new.IH [THEN conjunct1] pir_new.IH [THEN conjunct2] pir_new.hyps(3,2)])
next
  case (pir_fill F H D p b q)
  then have nb: "b \<notin> set (fq_contents (pi_buffer p))" by (auto simp: pi_inv_def pi_places_def)
  have "pi_inv F H D (pi_on_bucket b (\<lambda>x. x\<lparr>ib_insts := q\<rparr>) p)"
    by (rule pi_inv_bucket [OF pir_fill.IH [THEN conjunct1] pir_fill.hyps(3)]) (use nb in simp)
  then show ?case using pir_fill.IH by (simp add: pi_rest_def)
next
  case (pir_ready F1 b F2 H D p self s p' s')
  show ?case by (rule pi_readyItem_inv [OF pir_ready.IH [THEN conjunct1] pir_ready.IH [THEN conjunct2] pir_ready.hyps(2)])
next
  case (pir_mark F1 b F2 H D p self s p' s')
  show ?case by (rule pi_markFetched_inv [OF pir_mark.IH [THEN conjunct1] pir_mark.IH [THEN conjunct2] pir_mark.hyps(2)])
next
  case (pir_wait F H D p self s p' s')
  then show ?case using pi_nextItem_inv [of F H D p self s None p' s'] by simp
next
  case (pir_next F H D p self s b p' s')
  then show ?case using pi_nextItem_inv [of F H D p self s "Some b" p' s'] by simp
next
  case (pir_done F H D1 b D2 p p')
  have "pi_inv F H (D1 @ D2) p' \<and> pi_rest F p' = pi_rest F p" by (rule pi_doneItem_inv [OF pir_done.IH [THEN conjunct1] pir_done.hyps(2)])
  then show ?case using pir_done.IH by simp
next
  case (pir_flush_buffer F H D p self s p' s')
  then show ?case using pi_flush_buffer_inv [OF pir_flush_buffer(2)] pi_same_open_rest by blast
next
  case (pir_flush_received F H D p self s p' s')
  show ?case by (rule pi_flush_received_inv [OF pir_flush_received.hyps(2) pir_flush_received.IH [THEN conjunct1] pir_flush_received.IH [THEN conjunct2]])
qed

text \<open>
  C6. However the cache orders its answers and whatever the flushes remove, the buckets leave the pipeline in the
  order of their tickets, each bucket is in one place only, the call of \<open>clearItems\<close> inside \<open>nextItem\<close>
  changes nothing, and once every fetch has been answered no bucket and no
  ticket is left waiting.
\<close>

theorem pipeline_hands_out_in_ticket_order:
  assumes "pi_reach F H D p"
  shows "sorted_wrt (<) H \<and> distinct (F @ D @ pi_received p @ fq_contents (pi_buffer p) @ pi_bucketPool p) \<and>
    pi_clearItems self (p, s) = Inr (p, s) \<and>
    (F = [] \<longrightarrow> pi_received p = [] \<and> pi_flushedPipelineIDs p = [] \<and> pi_minItemCntr p = pi_maxItemCntr p)"
proof -
  have inv: "pi_inv F H D p" and rest: "pi_rest F p" using pi_reach_inv [OF assms] by simp_all
  have "pi_received p = [] \<and> pi_flushedPipelineIDs p = [] \<and> pi_minItemCntr p = pi_maxItemCntr p" if "F = []"
  proof -
    have "pi_open [] p" using inv that by (simp add: pi_inv_def)
    moreover have "\<not> pi_minItemCntr p < pi_maxItemCntr p" using rest that by (simp add: pi_rest_def)
    ultimately show ?thesis by (auto simp: pi_open_def)
  qed
  moreover have "sorted_wrt (<) H" using inv by (simp add: pi_inv_def pi_ordered_def sorted_wrt_append)
  ultimately show ?thesis using inv pi_clearItems_rest [OF inv rest] by (simp add: pi_inv_def pi_places_def)
qed

definition pl_ring :: "nat list \<Rightarrow> nat fastqueue" where
  "pl_ring xs = \<lparr>fq_pipe = take 2 (xs @ [0, 0]), fq_pipe_in_cluster = [], fq_pipeMask = 1, fq_start = 0,
    fq_end = of_nat (length xs mod 2), fq_nElems = of_nat (length xs)\<rparr>"

definition pl_junk :: ibucket where
  "pl_junk = \<lparr>ib_insts = pl_ring [], ib_cleanItem = False, ib_pipeId = 0, ib_clock = 0, ib_transient = False, ib_fetched = False\<rparr>"

text \<open>Two fetches, answered in the opposite order; both buckets hold one instruction.\<close>

definition pl_state :: "nat list \<Rightarrow> nat list \<Rightarrow> nat list \<Rightarrow> u32 \<Rightarrow> int \<Rightarrow> sim_time \<Rightarrow> sim_time \<Rightarrow> (nat \<Rightarrow> ibucket) \<Rightarrow> pipeline" where
  "pl_state ring pool waiting n i hi lo bk =
    \<lparr>pi_PipeLength = 1, pi_bucketPoolMaxSize = 5, pi_MaxIRequests = 2, pi_nIRequests = i,
     pi_buffer = \<lparr>fq_pipe = ring, fq_pipe_in_cluster = [], fq_pipeMask = 3, fq_start = 0, fq_end = n, fq_nElems = n\<rparr>,
     pi_transient_buffer = \<lparr>fq_pipe = replicate 8 0, fq_pipe_in_cluster = [], fq_pipeMask = 7, fq_start = 0, fq_end = 0, fq_nElems = 0\<rparr>,
     pi_bucketPool = pool, pi_received = waiting, pi_maxItemCntr = hi, pi_minItemCntr = lo, pi_flushing_id = 0,
     pi_flushedPipelineIDs = [], pi_bucket = bk\<rparr>"

lemma pl_round_up: "fq_round_up 2 = 2" "fq_round_up 4 = 4" "fq_round_up 5 = 8"
  by (rule fq_round_up_power [of _ 1, simplified] fq_round_up_power [of _ 2, simplified] fq_round_up_power [of _ 3, simplified]; simp)+

lemma pl_created: "pi_create 1 1 2 (\<lambda>_. pl_junk) = Inr (pl_state [0, 0, 0, 0] [4, 3, 2, 1, 0] [] 0 2 0 0 (\<lambda>_. pl_junk))"
proof -
  have n: "[0..<5] = [0, 1, 2, 3, 4 :: nat]" by (simp add: upt_rec)
  have r: "replicate 4 x = [x, x, x, x]" for x :: nat by (simp add: numeral_eq_Suc)
  have r2: "replicate 2 x = [x, x]" for x :: nat by (simp add: numeral_eq_Suc)
  have c: "ib_create 2 pl_junk = Inr pl_junk"
    by (simp add: ib_create_def fq_create_def pl_round_up r2 pl_junk_def pl_ring_def)
  show ?thesis by (simp add: pi_create_def fq_create_def pl_round_up n c r pl_state_def fun_upd_idem)
qed

definition pl_one :: ibucket where
  "pl_one = pl_junk\<lparr>ib_insts := pl_ring [7]\<rparr>"

lemmas pl_simps = pl_state_def pl_junk_def pl_ring_def pl_one_def pi_on_bucket_def pi_ticket_def pi_empty_def fq_empty_def
  Let_def

definition pl_store :: dinst_store where
  "pl_store = (ds_blank pool_two)\<lparr>ds_obj := (\<lambda>_. di_blank\<lparr>di_flags := di_setup_flags (di_flags di_blank)\<rparr>)\<rparr>"

lemma pl_store_simps:
  "ds_globalClock pl_store = 1" "fl_present_in_rob (di_flags (ds_obj pl_store d)) = False"
  "di_isTransient (ds_obj pl_store d) = False"
  by (simp_all add: pl_store_def ds_blank_def di_setup_flags_def di_isTransient_def)

lemma pl_new:
  "pi_newItem (pl_state [0, 0, 0, 0] [4, 3, 2, 1, 0] [] 0 2 0 0 (\<lambda>_. pl_junk)) =
    Inr (Some 4, pl_state [0, 0, 0, 0] [3, 2, 1, 0] [] 0 1 1 0 (\<lambda>_. pl_junk))"
  "pi_newItem (pl_state [0, 0, 0, 0] [3, 2, 1, 0] [] 0 1 1 0 (\<lambda>_. pl_junk)) =
    Inr (Some 3, pl_state [0, 0, 0, 0] [2, 1, 0] [] 0 0 2 0 ((\<lambda>_. pl_junk)(3 := pl_junk\<lparr>ib_pipeId := 1\<rparr>)))"
  by (simp_all add: pi_newItem_def pl_simps fun_upd_idem)

abbreviation pl_full :: "sim_time \<Rightarrow> sim_time \<Rightarrow> nat \<Rightarrow> ibucket" where
  "pl_full t3 t4 \<equiv> (\<lambda>_. pl_junk)(3 := pl_one\<lparr>ib_pipeId := 1, ib_clock := t3\<rparr>, 4 := pl_one\<lparr>ib_clock := t4\<rparr>)"

lemma pl_answered_1:
  "pi_readyItem 0 3 (pl_state [0, 0, 0, 0] [2, 1, 0] [] 0 0 2 0 (pl_full 0 0), pl_store) =
    Inr (pl_state [0, 0, 0, 0] [2, 1, 0] [3] 0 1 2 0 (pl_full 1 0), pl_store)"
  by (simp add: pi_readyItem_def pl_simps pi_wait_def pl_store_simps fun_eq_iff)

lemma pl_answered_2:
  "pi_readyItem 0 4 (pl_state [0, 0, 0, 0] [2, 1, 0] [3] 0 1 2 0 (pl_full 1 0), pl_store) =
    Inr (pl_state [4, 3, 0, 0] [2, 1, 0] [] 2 2 2 2 (pl_full 1 1), pl_store)"
  by (simp add: pi_readyItem_def pl_simps pl_store_simps pi_take_in_def pi_clearItems_def fq_push_def
      pi_flush_buffer_def pi_strip_def fq_end_data_def fq_size_def update_res_def) (rule fun_upd_twist, simp)

lemma pl_handed:
  "pi_nextItem 0 (pl_state [4, 3, 0, 0] [2, 1, 0] [] 2 2 2 2 (pl_full 1 1), pl_store\<lparr>ds_globalClock := 9\<rparr>) =
    Inr (Some 4, (pl_state [4, 3, 0, 0] [2, 1, 0] [] 2 2 2 2 (pl_full 1 1))
      \<lparr>pi_buffer := \<lparr>fq_pipe = [4, 3, 0, 0], fq_pipe_in_cluster = [], fq_pipeMask = 3, fq_start = 1, fq_end = 2, fq_nElems = 1\<rparr>\<rparr>,
      pl_store\<lparr>ds_globalClock := 9\<rparr>)"
  by (simp add: pi_nextItem_def pl_simps fq_top_def fq_pop_def)

lemma pl_reached:
  "pi_reach [] [0] [4] ((pl_state [4, 3, 0, 0] [2, 1, 0] [] 2 2 2 2 (pl_full 1 1))
      \<lparr>pi_buffer := \<lparr>fq_pipe = [4, 3, 0, 0], fq_pipe_in_cluster = [], fq_pipeMask = 3, fq_start = 1, fq_end = 2, fq_nElems = 1\<rparr>\<rparr>)"
    (is "pi_reach [] [0] [4] ?p")
proof -
  have ring: "fq_inv (pl_ring [7])" "fq_inv (pl_ring [])"
    by (auto simp: fq_inv_def pl_ring_def fq_capacity_def intro!: exI [of _ 1])
  let ?f = "\<lambda>b. pi_on_bucket b (\<lambda>x. x\<lparr>ib_insts := pl_ring [7]\<rparr>)"
  have "pi_reach [] [] [] (pl_state [0, 0, 0, 0] [4, 3, 2, 1, 0] [] 0 2 0 0 (\<lambda>_. pl_junk))"
    by (rule pir_start [OF pl_created]) (simp add: pl_junk_def ring)
  from pir_new [OF this _ pl_new(1)] have "pi_reach [4] [] [] (pl_state [0, 0, 0, 0] [3, 2, 1, 0] [] 0 1 1 0 (\<lambda>_. pl_junk))"
    by (simp add: pl_state_def)
  from pir_new [OF this _ pl_new(2)]
  have "pi_reach [4, 3] [] [] (pl_state [0, 0, 0, 0] [2, 1, 0] [] 0 0 2 0 ((\<lambda>_. pl_junk)(3 := pl_junk\<lparr>ib_pipeId := 1\<rparr>)))"
    by (simp add: pl_state_def)
  from pir_fill [OF this _ ring(1), of 3]
  have "pi_reach [4, 3] [] [] (?f 3 (pl_state [0, 0, 0, 0] [2, 1, 0] [] 0 0 2 0 ((\<lambda>_. pl_junk)(3 := pl_junk\<lparr>ib_pipeId := 1\<rparr>))))"
    by simp
  from pir_fill [OF this _ ring(1), of 4]
  have "pi_reach ([4] @ 3 # []) [] [] (pl_state [0, 0, 0, 0] [2, 1, 0] [] 0 0 2 0 (pl_full 0 0))"
    by (simp add: pl_state_def pl_one_def pi_on_bucket_def pl_junk_def)
  from pir_ready [OF this pl_answered_1] have "pi_reach ([] @ 4 # []) [] [] (pl_state [0, 0, 0, 0] [2, 1, 0] [3] 0 1 2 0 (pl_full 1 0))"
    by simp
  from pir_ready [OF this pl_answered_2] have "pi_reach [] [] [] (pl_state [4, 3, 0, 0] [2, 1, 0] [] 2 2 2 2 (pl_full 1 1))"
    by simp
  from pir_next [OF this pl_handed] show ?thesis by (simp add: pi_ticket_def pl_state_def pl_one_def pl_junk_def)
qed

theorem pipeline_hands_out_in_ticket_order_witness:
  "\<exists>p. pi_reach [] [0] [4] p \<and> fq_contents (pi_buffer p) = [3] \<and> sorted_wrt (<) [0 :: sim_time] \<and> pi_received p = [] \<and>
    pi_minItemCntr p = pi_maxItemCntr p"
proof -
  let ?p = "(pl_state [4, 3, 0, 0] [2, 1, 0] [] 2 2 2 2 (pl_full 1 1))
      \<lparr>pi_buffer := \<lparr>fq_pipe = [4, 3, 0, 0], fq_pipe_in_cluster = [], fq_pipeMask = 3, fq_start = 1, fq_end = 2, fq_nElems = 1\<rparr>\<rparr>"
  have "fq_contents (pi_buffer ?p) = [3]" by (simp add: fq_contents_def fq_capacity_def pl_state_def)
  then show ?thesis using pipeline_hands_out_in_ticket_order [OF pl_reached, of 0 pl_store] pl_reached by blast
qed

end
