(* ===== verification/Cluster_Scheduler.thy ===== *)
theory Cluster_Scheduler
  imports Cluster_Window
begin

text \<open>
  \<open>simu/clusterscheduler.cpp\<close>: the three policies that choose the unit of an instruction among those of its
  opcode. Units and clusters are the numbers of \<open>Core_State\<close>. The positions of the round-robin policies and the counts outside
  \<open>Opcodes\<close> are not initialised by the constructors, so they are arguments. Round robin is fair from any position; the policy by
  use reads past the end of the list of units.
\<close>

datatype sched_policy = SchedRoundRobin | SchedLRU | SchedUse

record cluster_sched =
  cs_policy :: sched_policy
  cs_res :: "opcode \<Rightarrow> nat list"
  cs_nres :: "opcode \<Rightarrow> u32"
  cs_pos :: "opcode \<Rightarrow> u32"
  cs_cused :: "reg_type \<Rightarrow> nat option"

text \<open>\<open>Opcodes\<close>, over which the constructors loop: all but \<open>iOpInvalid\<close> and \<open>iMAX\<close>, whose counts stay as they are.\<close>

definition cs_real :: "opcode \<Rightarrow> bool" where
  "cs_real op \<longleftrightarrow> iRALU \<le> op \<and> op < iMAX"

definition cs_create :: "sched_policy \<Rightarrow> (opcode \<Rightarrow> nat list) \<Rightarrow> (opcode \<Rightarrow> u32) \<Rightarrow> (opcode \<Rightarrow> u32) \<Rightarrow> cluster_sched" where
  "cs_create k r nres0 pos0 =
    \<lparr>cs_policy = k, cs_res = r, cs_nres = (\<lambda>op. if cs_real op then of_nat (length (r op)) else nres0 op),
     cs_pos = pos0, cs_cused = (\<lambda>_. None)\<rparr>"

text \<open>The position that is used, and the one that is kept.\<close>

definition cs_advance :: "opcode \<Rightarrow> cluster_sched \<Rightarrow> u32 \<times> cluster_sched" where
  "cs_advance op s =
    (let i = cs_pos s op
     in if cs_nres s op \<le> i then (0, s\<lparr>cs_pos := (cs_pos s)(op := 1)\<rparr>)
        else (i, s\<lparr>cs_pos := (cs_pos s)(op := i + 1)\<rparr>))"

definition cs_round_robin :: "opcode \<Rightarrow> cluster_sched \<Rightarrow> (nat \<times> cluster_sched) res" where
  "cs_round_robin op s =
    (let (i, s) = cs_advance op s
     in assert_res (unat i < length (cs_res s op)) (nth_res (cs_res s op) (unat i) (\<lambda>u. Inr (u, s))))"

definition cs_older :: "'a core_scheme \<Rightarrow> nat \<Rightarrow> nat \<Rightarrow> nat" where
  "cs_older w touse u = (if rs_usedTime (co_unit w touse) > rs_usedTime (co_unit w u) then u else touse)"

definition cs_lru :: "opcode \<Rightarrow> cluster_sched \<Rightarrow> 'a core_scheme \<Rightarrow> (nat \<times> 'a core_scheme) res" where
  "cs_lru op s w =
    nth_res (cs_res s op) 0 (\<lambda>u.
      let touse = foldl (cs_older w) u (tl (cs_res s op))
      in Inr (touse, w\<lparr>co_unit := (co_unit w)(touse := (co_unit w touse)\<lparr>rs_usedTime := co_clock w\<rparr>)\<rparr>))"

text \<open>A register whose producer is in another cluster costs one; first compared by name, then by object.\<close>

definition cs_apart :: "'a core_scheme \<Rightarrow> nat \<Rightarrow> nat option \<Rightarrow> int" where
  "cs_apart w c used = (case used of None \<Rightarrow> 0 | Some k \<Rightarrow> if cl_id (co_cluster w k) \<noteq> cl_id (co_cluster w c) then 1 else 0)"

definition cs_other :: "nat \<Rightarrow> nat option \<Rightarrow> int" where
  "cs_other c used = (if used \<noteq> Some c \<and> used \<noteq> None then 1 else 0)"

definition cs_use_step ::
  "instruction \<Rightarrow> nat \<Rightarrow> cluster_sched \<Rightarrow> 'a core_scheme \<Rightarrow> nat \<Rightarrow> nat \<times> int \<Rightarrow> (nat \<times> int) res" where
  "cs_use_step x p s w i = (\<lambda>(touse, touse_nintra).
    let us = cs_res s (in_opcode x);
        n = p + i; n = (if length us \<le> n then n - length us else n)
    in nth_res us n (\<lambda>u.
         let c = rs_cluster (co_unit w u)
         in if cl_getAvailSpace c w \<le> 0 then Inr (touse, touse_nintra)
            else let nintra = cs_other c (cs_cused s (in_src1 x)) + cs_other c (cs_cused s (in_src2 x))
                 in if nintra = touse_nintra \<and>
                       cl_nready (co_cluster w (rs_cluster (co_unit w touse))) < cl_nready (co_cluster w c)
                    then Inr (u, nintra)
                    else if nintra < touse_nintra then Inr (u, nintra) else Inr (touse, touse_nintra)))"

definition cs_use :: "instruction \<Rightarrow> cluster_sched \<Rightarrow> 'a core_scheme \<Rightarrow> (nat \<times> cluster_sched) res" where
  "cs_use x s w =
    (let op = in_opcode x; (p, s) = cs_advance op s
     in nth_res (cs_res s op) (unat p) (\<lambda>u.
          let c = rs_cluster (co_unit w u);
              nintra = cs_apart w c (cs_cused s (in_src1 x)) + cs_apart w c (cs_cused s (in_src2 x))
          in bind_res (for_res [opcode_code iRALU..<opcode_code iMAX] (cs_use_step x (unat p) s w) (u, nintra)) (\<lambda>(touse, _).
               let k = Some (rs_cluster (co_unit w touse));
                   s = s\<lparr>cs_cused := (cs_cused s)(in_dst1 x := k, in_dst2 x := k)\<rparr>
               in assert_res (cs_cused s LREG_NoDependence = None) (Inr (touse, s)))))"

definition cs_getResource ::
  "instruction \<Rightarrow> cluster_sched \<Rightarrow> 'a core_scheme \<Rightarrow> (nat \<times> cluster_sched \<times> 'a core_scheme) res" where
  "cs_getResource x s w =
    (case cs_policy s of
       SchedRoundRobin \<Rightarrow> bind_res (cs_round_robin (in_opcode x) s) (\<lambda>(u, s). Inr (u, s, w))
     | SchedLRU \<Rightarrow> bind_res (cs_lru (in_opcode x) s w) (\<lambda>(u, w). Inr (u, s, w))
     | SchedUse \<Rightarrow> bind_res (cs_use x s w) (\<lambda>(u, s). Inr (u, s, w)))"

section \<open>Round robin\<close>

fun cs_requests :: "opcode list \<Rightarrow> cluster_sched \<Rightarrow> (nat list \<times> cluster_sched) res" where
  "cs_requests [] s = Inr ([], s)"
| "cs_requests (op # ops) s =
    bind_res (cs_round_robin op s) (\<lambda>(u, s). bind_res (cs_requests ops s) (\<lambda>(us, s). Inr (u # us, s)))"

definition cs_turn :: "opcode \<Rightarrow> cluster_sched \<Rightarrow> nat" where
  "cs_turn op s = (if cs_nres s op \<le> cs_pos s op then 0 else unat (cs_pos s op))"

definition cs_ok :: "cluster_sched \<Rightarrow> bool" where
  "cs_ok s \<longleftrightarrow> (\<forall>op. cs_real op \<longrightarrow> cs_nres s op = of_nat (length (cs_res s op)) \<and> 0 < length (cs_res s op) \<and> length (cs_res s op) < 2 ^ 32)"

lemma cs_nres_unat: "cs_ok s \<Longrightarrow> cs_real op \<Longrightarrow> unat (cs_nres s op) = length (cs_res s op)"
  by (simp add: cs_ok_def unsigned_of_nat take_bit_nat_eq_self)

lemma cs_turn_less:
  assumes "cs_ok s" and "cs_real op"
  shows "cs_turn op s < length (cs_res s op)"
proof (cases "cs_nres s op \<le> cs_pos s op")
  case True
  then show ?thesis using assms by (simp add: cs_turn_def cs_ok_def)
next
  case False
  then have "unat (cs_pos s op) < unat (cs_nres s op)" by (simp add: word_le_nat_alt)
  then show ?thesis using False cs_nres_unat [OF assms] by (simp add: cs_turn_def)
qed

lemma cs_round_robin_step:
  assumes ok: "cs_ok s" and real: "cs_real op"
  obtains s' where "cs_round_robin op s = Inr (cs_res s op ! cs_turn op s, s')" and "cs_ok s'" and "cs_res s' = cs_res s"
    and "\<And>o'. cs_turn o' s' = (if o' = op then Suc (cs_turn op s) mod length (cs_res s op) else cs_turn o' s)"
proof -
  let ?n = "length (cs_res s op)"
  define i where "i = (if cs_nres s op \<le> cs_pos s op then 0 else cs_pos s op)"
  define s' where "s' = s\<lparr>cs_pos := (cs_pos s)(op := i + 1)\<rparr>"
  have t: "unat i = cs_turn op s" by (simp add: cs_turn_def i_def)
  have lt: "unat i < ?n" using cs_turn_less [OF ok real] t by simp
  have n: "?n < 2 ^ 32" "unat (cs_nres s op) = ?n" using ok real cs_nres_unat [OF ok real] by (simp_all add: cs_ok_def)
  have "i + 1 \<noteq> 0"
  proof
    assume "i + 1 = 0"
    then have "i = - 1" by (simp only: add_eq_0_iff2)
    then have "unat i = 2 ^ 32 - 1" by (simp only: unsigned_minus_1_eq_mask mask_eq_exp_minus_1) simp
    then show False using lt n(1) by simp
  qed
  then have u: "unat (i + 1) = Suc (cs_turn op s)" using t unat_word_Suc by metis
  have "cs_round_robin op s = Inr (cs_res s op ! cs_turn op s, s')"
    using lt t by (auto simp: cs_round_robin_def cs_advance_def Let_def s'_def i_def nth_res_def split: if_splits)
  moreover have "cs_ok s'" "cs_res s' = cs_res s" using ok by (simp_all add: s'_def cs_ok_def)
  moreover have "cs_turn o' s' = (if o' = op then Suc (cs_turn op s) mod ?n else cs_turn o' s)" for o'
  proof (cases "o' = op")
    case True
    have "cs_nres s op \<le> i + 1 \<longleftrightarrow> ?n \<le> Suc (cs_turn op s)" unfolding word_le_nat_alt n(2) u by (rule refl)
    then have "cs_turn op s' = (if ?n \<le> Suc (cs_turn op s) then 0 else Suc (cs_turn op s))"
      unfolding cs_turn_def [of op s'] by (simp add: s'_def u)
    then show ?thesis using True lt t by (simp add: mod_Suc)
  next
    case False
    then show ?thesis by (simp add: cs_turn_def s'_def)
  qed
  ultimately show ?thesis using that by blast
qed

definition cs_served :: "opcode \<Rightarrow> opcode list \<Rightarrow> nat list \<Rightarrow> nat list" where
  "cs_served op ops us = map snd (filter (\<lambda>(o', u). o' = op) (zip ops us))"

lemma cs_requests_fair:
  assumes "cs_ok s" and "\<forall>op \<in> set ops. cs_real op"
  shows "\<exists>us s'. cs_requests ops s = Inr (us, s') \<and> length us = length ops \<and>
    (\<forall>op. cs_real op \<longrightarrow>
      cs_served op ops us = map (\<lambda>i. cs_res s op ! ((cs_turn op s + i) mod length (cs_res s op))) [0..<count_list ops op])"
  using assms
proof (induction ops arbitrary: s)
  case Nil
  then show ?case by (simp add: cs_served_def)
next
  case (Cons o1 ops)
  let ?u = "cs_res s o1 ! cs_turn o1 s"
  let ?f = "\<lambda>op i. cs_res s op ! ((cs_turn op s + i) mod length (cs_res s op))"
  have o1: "cs_real o1" using Cons.prems(2) by simp
  obtain s1 where s1: "cs_round_robin o1 s = Inr (?u, s1)" "cs_ok s1" "cs_res s1 = cs_res s"
    and t: "\<And>o'. cs_turn o' s1 = (if o' = o1 then Suc (cs_turn o1 s) mod length (cs_res s o1) else cs_turn o' s)"
    using cs_round_robin_step [OF Cons.prems(1) o1] by blast
  obtain us s' where us: "cs_requests ops s1 = Inr (us, s')" "length us = length ops"
    and served: "\<And>op. cs_real op \<Longrightarrow> cs_served op ops us =
      map (\<lambda>i. cs_res s1 op ! ((cs_turn op s1 + i) mod length (cs_res s1 op))) [0..<count_list ops op]"
    using Cons.IH [OF s1(2)] Cons.prems(2) by auto
  have "cs_served op (o1 # ops) (?u # us) = map (?f op) [0..<count_list (o1 # ops) op]" if op: "cs_real op" for op
  proof (cases "op = o1")
    case True
    have "[0..<Suc (count_list ops o1)] = 0 # map Suc [0..<count_list ops o1]"
      by (simp add: map_Suc_upt upt_conv_Cons del: upt_Suc)
    moreover have "cs_turn o1 s mod length (cs_res s o1) = cs_turn o1 s" using cs_turn_less [OF Cons.prems(1) o1] by simp
    ultimately show ?thesis
      using served [OF o1] True by (simp add: cs_served_def t s1(3) mod_add_left_eq del: upt_Suc)
  next
    case False
    then show ?thesis using served [OF op] by (simp add: cs_served_def t s1(3))
  qed
  then show ?case using s1(1) us by simp
qed

text \<open>
  C24. Round robin over a pool as \<open>ClusterManager\<close> fills it, with units for the opcodes from \<open>iRALU\<close> up to, not including, \<open>iMAX\<close>. Whatever the
  positions hold at the start, the requests for each opcode go round its units: the \<open>i\<close>-th gets the unit
  \<open>i\<close> places after the first, however the requests for other opcodes are mixed in, and the access is
  never past the end.
\<close>

theorem round_robin_is_fair:
  assumes pool: "\<And>op. cs_real op \<Longrightarrow> 0 < length (r op) \<and> length (r op) < 2 ^ 32"
    and ops: "\<forall>op \<in> set ops. cs_real op"
  shows "\<exists>us s'. cs_requests ops (cs_create SchedRoundRobin r nres0 pos0) = Inr (us, s') \<and> length us = length ops \<and>
    (\<forall>op. cs_real op \<longrightarrow> (\<exists>k. k < length (r op) \<and>
      cs_served op ops us = map (\<lambda>i. r op ! ((k + i) mod length (r op))) [0..<count_list ops op]))"
proof -
  let ?s = "cs_create SchedRoundRobin r nres0 pos0"
  have ok: "cs_ok ?s" using pool by (simp add: cs_ok_def cs_create_def)
  have "cs_res ?s = r" by (simp add: cs_create_def)
  then show ?thesis using cs_requests_fair [OF ok ops] cs_turn_less [OF ok] by metis
qed

text \<open>A pool with no unit for \<open>iOpInvalid\<close> and \<open>iMAX\<close>, as it is built.\<close>

definition cs_example_pool :: "opcode \<Rightarrow> nat list" where
  "cs_example_pool op = (if cs_real op then [7, 8] else [])"

theorem round_robin_is_fair_witness:
  "\<exists>us s'. cs_requests [iRALU, iAALU, iRALU, iRALU]
      (cs_create SchedRoundRobin cs_example_pool (\<lambda>_. 5) (\<lambda>_. 99)) = Inr (us, s') \<and> length us = 4 \<and>
    (\<exists>k < 2. cs_served iRALU [iRALU, iAALU, iRALU, iRALU] us = map (\<lambda>i. [7, 8] ! ((k + i) mod 2)) [0..<3])"
proof -
  have r: "cs_real iRALU" "cs_real iAALU" by (simp_all add: cs_real_def less_eq_opcode_def less_opcode_def)
  have l: "cs_example_pool iRALU = [7, 8]" using r by (simp add: cs_example_pool_def)
  have p: "0 < length (cs_example_pool op) \<and> length (cs_example_pool op) < 2 ^ 32" if "cs_real op" for op
    using that by (simp add: cs_example_pool_def)
  obtain us s' where us: "cs_requests [iRALU, iAALU, iRALU, iRALU]
      (cs_create SchedRoundRobin cs_example_pool (\<lambda>_. 5) (\<lambda>_. 99)) = Inr (us, s')"
      "length us = length [iRALU, iAALU, iRALU, iRALU]"
    and k: "\<forall>op. cs_real op \<longrightarrow> (\<exists>k. k < length (cs_example_pool op) \<and>
      cs_served op [iRALU, iAALU, iRALU, iRALU] us =
        map (\<lambda>i. cs_example_pool op ! ((k + i) mod length (cs_example_pool op)))
          [0..<count_list [iRALU, iAALU, iRALU, iRALU] op])"
    using round_robin_is_fair [of cs_example_pool "[iRALU, iAALU, iRALU, iRALU]" "\<lambda>_. 5" "\<lambda>_. 99"] p r by auto
  have c: "count_list [iRALU, iAALU, iRALU, iRALU] iRALU = 3" by simp
  have "\<exists>k < 2. cs_served iRALU [iRALU, iAALU, iRALU, iRALU] us = map (\<lambda>i. [7, 8] ! ((k + i) mod 2)) [0..<3]"
    using k [rule_format, OF r(1)] c by (simp only: l) (simp add: numeral_2_eq_2)
  then show ?thesis using us by auto
qed

section \<open>The policy by use\<close>

lemma cs_use_step_ok:
  assumes "p + i < 2 * length (cs_res s (in_opcode x))"
  shows "\<exists>r'. cs_use_step x p s w i r = Inr r'"
  using assms by (cases r) (auto simp: cs_use_step_def Let_def nth_res_def)

lemma cs_use_step_past:
  assumes "2 * length (cs_res s (in_opcode x)) \<le> p + i"
  shows "cs_use_step x p s w i r = Inl Out_of_bounds"
  using assms by (cases r) (auto simp: cs_use_step_def Let_def nth_res_def)

lemma cs_use_loop_past:
  assumes "a \<le> b" and "p + a \<le> 2 * length (cs_res s (in_opcode x))" and "2 * length (cs_res s (in_opcode x)) < p + b"
  shows "for_res [a..<b] (cs_use_step x p s w) r = Inl Out_of_bounds"
  using assms
proof (induction "b - a" arbitrary: a r)
  case 0
  then show ?case by simp
next
  case (Suc k)
  then have ab: "[a..<b] = a # [Suc a..<b]" by (simp add: upt_conv_Cons)
  show ?case
  proof (cases "p + a = 2 * length (cs_res s (in_opcode x))")
    case True
    then show ?thesis by (simp add: ab cs_use_step_past)
  next
    case False
    then obtain r' where "cs_use_step x p s w a r = Inr r'" using cs_use_step_ok [of p a s x w r] Suc.prems(2) by auto
    then show ?thesis using Suc False by (simp add: ab)
  qed
qed

text \<open>
  The loop of \<open>UseClusterScheduler\<close> counts over the opcodes and not over the units, and corrects its index once: with
  at most nine units for an opcode it always reads past the end of their list.
\<close>

theorem use_policy_reads_past_the_end:
  assumes "cs_res s (in_opcode x) \<noteq> []" and "length (cs_res s (in_opcode x)) \<le> 9"
    and "cs_nres s (in_opcode x) = of_nat (length (cs_res s (in_opcode x)))"
  shows "cs_use x s w = Inl Out_of_bounds"
proof -
  let ?op = "in_opcode x"
  obtain p s1 where p: "cs_advance ?op s = (p, s1)" by fastforce
  have n: "unat (cs_nres s ?op) = length (cs_res s ?op)"
    using assms(2,3) by (simp add: unsigned_of_nat take_bit_nat_eq_self)
  have res: "cs_res s1 = cs_res s" using p by (auto simp: cs_advance_def Let_def split: if_splits)
  have "unat p < unat (cs_nres s ?op)"
    using p n assms(1) by (auto simp: cs_advance_def Let_def not_le word_less_nat_alt split: if_splits)
  then have lt: "unat p < length (cs_res s1 ?op)" using n res by simp
  have "for_res [opcode_code iRALU..<opcode_code iMAX] (cs_use_step x (unat p) s1 w) r = Inl Out_of_bounds" for r
    by (rule cs_use_loop_past) (use lt res assms(2) in auto)
  then show ?thesis using lt by (simp add: cs_use_def p Let_def nth_res_def)
qed

theorem use_policy_reads_past_the_end_witness:
  "cs_use \<lparr>in_opcode = iAALU, in_src1 = 1, in_src2 = 2, in_dst1 = 3, in_dst2 = 120\<rparr>
    (cs_create SchedUse cs_example_pool (\<lambda>_. 5) (\<lambda>_. 0)) co_example = Inl Out_of_bounds"
  by (rule use_policy_reads_past_the_end)
    (simp_all add: cs_create_def cs_example_pool_def cs_real_def less_eq_opcode_def less_opcode_def)

end
