(* ===== verification/Ooo_Core.thy ===== *)
theory Ooo_Core
  imports Cluster_Scheduler Pipeline
begin

text \<open>
  The out-of-order core itself (\<open>simu/oooprocessor.cpp\<close> and the stages of \<open>simu/gprocessor.cpp\<close>): rename with the
  two register tables, the reorder buffer and the buffer of instructions that wait to commit, the queue
  between decode and rename, and the flush of transient instructions. The state extends that of the back
  end. Two of the calls of the tracer are part of it, \<open>Tracer::stage (dinst, "RN")\<close> at the end of \<open>add_inst\<close> and \<open>Tracer::commit\<close>
  in \<open>retire\<close>: \<open>oo_renamed\<close> and \<open>oo_committed\<close> are the instructions they were called with, in order. Register \<open>r\<close> has the cell \<open>r\<close> in \<open>RAT\<close>; the cells of \<open>TRAT\<close> and \<open>serializeRAT\<close> follow.
\<close>

section \<open>State\<close>

record ooo = core +
  oo_FetchWidth :: int
  oo_IssueWidth :: int
  oo_RetireWidth :: int
  oo_InstQueueSize :: int
  oo_MaxROBSize :: u64
  oo_do_random_transients :: bool
  oo_RetireDelay :: int
  oo_ROB :: "nat fastqueue"
  oo_rROB :: "nat fastqueue"
  oo_nTotalRegs :: int
  oo_sched :: cluster_sched
  oo_scooreMemory :: bool
  oo_serialize :: u32
  oo_serialize_level :: u32
  oo_forwardProg_threshold :: u32
  oo_last_serialized :: "nat option"
  oo_last_serializedST :: "nat option"
  oo_last_serializeLogical :: reg_type
  oo_last_serializePC :: addr
  oo_lastReplay :: u64
  oo_flushing_fid :: u32
  oo_pipe :: pipeline
  oo_instQueue :: "nat fastqueue"
  oo_spaceInInstQueue :: int
  oo_busy :: bool
  oo_last_transientid :: sim_time
  oo_flushing_last_transientid :: sim_time
  oo_renamed :: "nat list"
  oo_committed :: "nat list"

definition LREG_MAX :: nat where "LREG_MAX = 121"

definition rat_cell :: "bool \<Rightarrow> reg_type \<Rightarrow> nat" where
  "rat_cell transient r = (if transient then LREG_MAX + r else r)"

definition serialize_cell :: "reg_type \<Rightarrow> nat" where
  "serialize_cell r = 2 * LREG_MAX + r"

definition oo_rat :: "nat \<Rightarrow> 'a ooo_scheme \<Rightarrow> nat option" where
  "oo_rat cell w = ds_rat (co_store w) cell"

definition oo_set_rat :: "nat \<Rightarrow> nat option \<Rightarrow> 'a core_scheme \<Rightarrow> 'a core_scheme" where
  "oo_set_rat cell v w = w\<lparr>co_store := (co_store w)\<lparr>ds_rat := (ds_rat (co_store w))(cell := v)\<rparr>\<rparr>"

section \<open>Rename\<close>

subsection \<open>Serialisation after a replay\<close>

text \<open>\<open>if (last && !last->isIssued()) last->addSrc3(dinst)\<close>\<close>

definition oo_wait_issue :: "nat option \<Rightarrow> nat \<Rightarrow> 'a ooo_scheme \<Rightarrow> 'a ooo_scheme res" where
  "oo_wait_issue who d w =
    (case who of
       None \<Rightarrow> Inr w
     | Some p \<Rightarrow> if di_isIssued (co_dinst p w) then Inr w else co_with_store (di_addSrc Src3 p d) w)"

definition oo_serialize_all :: "nat \<Rightarrow> 'a ooo_scheme \<Rightarrow> 'a ooo_scheme res" where
  "oo_serialize_all d w =
    (if isMemory (di_inst (co_dinst d w)) \<and> di_isSrcReady Src3 (co_dinst d w)
     then bind_res (oo_wait_issue (oo_last_serialized w) d w) (\<lambda>w. Inr (w\<lparr>oo_last_serialized := Some d\<rparr>))
     else Inr w)"

definition oo_serialize_stores :: "nat \<Rightarrow> 'a ooo_scheme \<Rightarrow> 'a ooo_scheme res" where
  "oo_serialize_stores d w =
    bind_res
      (if isLoad (di_inst (co_dinst d w)) \<and> di_isSrcReady Src3 (co_dinst d w)
       then bind_res (oo_wait_issue (oo_last_serializedST w) d w) (\<lambda>w. Inr (w\<lparr>oo_last_serialized := Some d\<rparr>))
       else Inr w) (\<lambda>w.
      if isStore (di_inst (co_dinst d w)) \<and> di_isSrcReady Src3 (co_dinst d w)
      then bind_res (oo_wait_issue (oo_last_serialized w) d w) (\<lambda>w. Inr (w\<lparr>oo_last_serializedST := Some d\<rparr>))
      else Inr w)"

text \<open>The memory operations through one logical register.\<close>

definition oo_serialize_register :: "nat \<Rightarrow> 'a ooo_scheme \<Rightarrow> 'a ooo_scheme res" where
  "oo_serialize_register d w =
    (let x = co_dinst d w; inst = di_inst x;
         w = (if is_arch (in_src1 inst) then w\<lparr>oo_last_serializeLogical := in_src1 inst\<rparr>
              else if oo_last_serializePC w \<noteq> di_pc x then w\<lparr>oo_last_serializeLogical := LREG_InvalidOutput\<rparr> else w);
         w = w\<lparr>oo_last_serializePC := di_pc x\<rparr>;
         cell = serialize_cell (oo_last_serializeLogical w)
     in if \<not> is_arch (oo_last_serializeLogical w) then Inr w
        else if isMemory inst
        then bind_res
               (case oo_rat cell w of
                  None \<Rightarrow> Inr w
                | Some p \<Rightarrow>
                    if \<not> isLoad inst \<or> isStore (di_inst (co_dinst p w)) then co_with_store (di_addSrc Src3 p d) w else Inr w)
               (\<lambda>w. bind_res (co_update_res d (di_setSerializeEntry (Some cell)) w) (\<lambda>w.
                      Inr (oo_set_rat cell (Some d) w)))
        else Inr (oo_set_rat (serialize_cell (in_dst2 inst)) None (oo_set_rat (serialize_cell (in_dst1 inst)) None w)))"

definition oo_serialize_inst :: "nat \<Rightarrow> 'a ooo_scheme \<Rightarrow> 'a ooo_scheme res" where
  "oo_serialize_inst d w =
    (if co_serialize_for w > 0 \<and> \<not> co_replayRecovering w
     then let w = w\<lparr>co_serialize_for := co_serialize_for w - 1\<rparr>
          in if \<not> oo_scooreMemory w
             then if isMemory (di_inst (co_dinst d w)) \<and> di_isSrcReady Src3 (co_dinst d w)
                  then Inr (w\<lparr>oo_last_serialized := Some d\<rparr>) else Inr w
             else if oo_serialize_level w = 0 then oo_serialize_all d w
             else if oo_serialize_level w = 1 then oo_serialize_stores d w
             else oo_serialize_register d w
     else Inr w)"

subsection \<open>Speculative loads\<close>

definition oo_unresolved :: "dinst \<Rightarrow> bool" where
  "oo_unresolved x =
    (if isMemory (di_inst x) then \<not> di_isExecuting x
     else if isBranch (di_inst x) then \<not> di_isExecuted x
     else (in_opcode (di_inst x) = iCALU_FPDIV \<or> in_opcode (di_inst x) = iCALU_DIV) \<and> \<not> di_isExecuted x)"

definition oo_is_load_spec :: "nat \<Rightarrow> 'a ooo_scheme \<Rightarrow> bool res" where
  "oo_is_load_spec d w =
    (if \<not> isLoad (di_inst (co_dinst d w)) then Inr False
     else for_res [0..<fq_size (oo_ROB w)] (\<lambda>i found.
            bind_res (fq_getIDFromTop (oo_ROB w) (of_nat i)) (\<lambda>pos.
            bind_res (fq_getData (oo_ROB w) pos) (\<lambda>x. Inr (found \<or> oo_unresolved (co_dinst x w))))) False)"

subsection \<open>Sources and destinations\<close>

text \<open>A transient instruction looks in \<open>TRAT\<close>, any other in \<open>RAT\<close>.\<close>

definition oo_link :: "src_slot \<Rightarrow> reg_type \<Rightarrow> nat \<Rightarrow> 'a ooo_scheme \<Rightarrow> 'a ooo_scheme res" where
  "oo_link k r d w =
    (case oo_rat (rat_cell (di_isTransient (co_dinst d w)) r) w of
       None \<Rightarrow> Inr w
     | Some p \<Rightarrow> co_with_store (di_addSrc k p d) w)"

definition oo_link_sources :: "nat \<Rightarrow> 'a ooo_scheme \<Rightarrow> 'a ooo_scheme res" where
  "oo_link_sources d w =
    (let inst = di_inst (co_dinst d w)
     in if \<not> di_isSrcReady Src2 (co_dinst d w) then oo_link Src1 (in_src1 inst) d w
        else bind_res (oo_link Src1 (in_src1 inst) d w) (oo_link Src2 (in_src2 inst) d))"

definition oo_dst_cells :: "nat \<Rightarrow> 'a core_scheme \<Rightarrow> nat \<times> nat" where
  "oo_dst_cells d w =
    (let x = co_dinst d w in (rat_cell (di_isTransient x) (in_dst1 (di_inst x)), rat_cell (di_isTransient x) (in_dst2 (di_inst x))))"

definition oo_rename :: "nat \<Rightarrow> 'a ooo_scheme \<Rightarrow> 'a ooo_scheme res" where
  "oo_rename d w =
    bind_res (oo_link_sources d w) (\<lambda>w.
    bind_res (co_update_res d (di_setRAT1Entry (Some (fst (oo_dst_cells d w)))) w) (\<lambda>w.
    bind_res (co_update_res d (di_setRAT2Entry (Some (snd (oo_dst_cells d w)))) w) (\<lambda>w.
      assert_res (\<not> di_isExecuted (co_dinst d w)) (
      bind_res (co_cluster_of d (\<lambda>c. cl_add_inst c d w) w) (\<lambda>w.
        let w = (if di_isExecuted (co_dinst d w) then w
                 else oo_set_rat (snd (oo_dst_cells d w)) (Some d) (oo_set_rat (fst (oo_dst_cells d w)) (Some d) w))
        in assert_res (di_cluster (co_dinst d w) \<noteq> None) (co_update_res d (di_markRenamed (co_clock w)) w))))))"

definition oo_take_reg :: "int \<Rightarrow> nat \<Rightarrow> 'a ooo_scheme \<Rightarrow> 'a ooo_scheme" where
  "oo_take_reg n d w = (if hasDstRegister (di_inst (co_dinst d w)) then w\<lparr>oo_nTotalRegs := oo_nTotalRegs w + n\<rparr> else w)"

text \<open>The part of \<open>add_inst\<close> after the last stall.\<close>

definition oo_insert :: "nat \<Rightarrow> 'a ooo_scheme \<Rightarrow> 'a ooo_scheme res" where
  "oo_insert d w =
    bind_res (oo_serialize_inst d (oo_take_reg (- 1) d w)) (\<lambda>w.
    bind_res (fq_push (oo_ROB w) d) (\<lambda>rob.
      let w = w\<lparr>oo_ROB := rob\<rparr>
      in bind_res (oo_is_load_spec d w) (\<lambda>spec.
         let w = (if spec then co_update d di_set_spec w else w);
             w = co_update d di_set_present_in_rob w
         in assert_res (di_cluster (co_dinst d w) \<noteq> None)
              (bind_res (oo_rename d w) (\<lambda>w. Inr (w\<lparr>oo_renamed := oo_renamed w @ [d]\<rparr>))))))"

definition oo_assign :: "nat \<Rightarrow> 'a ooo_scheme \<Rightarrow> 'a ooo_scheme res" where
  "oo_assign d w =
    (if di_cluster (co_dinst d w) \<noteq> None then Inr w
     else bind_res (cs_getResource (di_inst (co_dinst d w)) (oo_sched w) w) (\<lambda>(u, s, w).
       Inr (co_update d (\<lambda>x. x\<lparr>di_cluster := Some (rs_cluster (co_unit w u)), di_resource := Some u\<rparr>) (w\<lparr>oo_sched := s\<rparr>))))"

definition oo_robs :: "'a ooo_scheme \<Rightarrow> u64" where
  "oo_robs w = of_nat (fq_size (oo_ROB w) + fq_size (oo_rROB w))"

definition oo_add_inst :: "nat \<Rightarrow> 'a ooo_scheme \<Rightarrow> (stall_cause \<times> 'a ooo_scheme) res" where
  "oo_add_inst d w =
    (if co_replayRecovering w \<and> di_ID (co_dinst d w) > co_replayID w then Inr (ReplaysStall, w)
     else if oo_robs w \<ge> oo_MaxROBSize w - 1 then Inr (SmallROBStall, w)
     else if oo_nTotalRegs w \<le> 0 then Inr (SmallREGStall, w)
     else bind_res (oo_assign d w) (\<lambda>w.
          bind_res (co_cluster_of d (\<lambda>c. cl_canIssue c d w) w) (\<lambda>(sc, w).
            if sc \<noteq> NoStall then Inr (sc, w)
            else bind_res (oo_insert d w) (\<lambda>w. Inr (NoStall, w)))))"

section \<open>Retirement\<close>

definition oo_give_reg :: "nat \<Rightarrow> 'a ooo_scheme \<Rightarrow> 'a ooo_scheme" where
  "oo_give_reg d w = oo_take_reg 1 d w"

text \<open>\<open>OoOProcessor::try_flush\<close>\<close>

definition oo_try_flush :: "nat \<Rightarrow> 'a ooo_scheme \<Rightarrow> 'a ooo_scheme" where
  "oo_try_flush d w = oo_give_reg d w"

text \<open>\<open>while (dinst->hasPending()) \<dots>\<close>: those that wait for a transient instruction are transient.\<close>

partial_function (option) oo_drop_waiters :: "nat \<Rightarrow> dinst_store \<Rightarrow> dinst_store res option" where
  "oo_drop_waiters d s =
    (case di_hasPending (ds_obj s d) of
       Inl e \<Rightarrow> Some (Inl e)
     | Inr pend \<Rightarrow>
         if \<not> pend then Some (Inr s)
         else (case di_getNextPending d s of
                 Inl e \<Rightarrow> Some (Inl e)
               | Inr (r, s) \<Rightarrow> if di_isTransient (ds_obj s r) then oo_drop_waiters d s else Some (Inl Assert_failed)))"

definition oo_drop :: "nat \<Rightarrow> 'a core_scheme \<Rightarrow> 'a core_scheme res" where
  "oo_drop d w = co_with_store (\<lambda>s. loop_res (oo_drop_waiters d s)) w"

definition oo_pop_ROB :: "'a ooo_scheme \<Rightarrow> 'a ooo_scheme res" where
  "oo_pop_ROB w = bind_res (fq_pop (oo_ROB w)) (\<lambda>q. Inr (w\<lparr>oo_ROB := q\<rparr>))"

text \<open>A transient instruction at the top of the buffer leaves it for good; the two branches of the code have the same effect.\<close>

definition oo_mark_dead :: "nat \<Rightarrow> 'a core_scheme \<Rightarrow> 'a core_scheme res" where
  "oo_mark_dead d w =
    (if di_isExecuted (co_dinst d w) then Inr w
     else co_with_store (di_clearRATEntry d) (co_update d (di_markExecutedTransient (co_clock w)) w))"

definition oo_retire_transient :: "nat \<Rightarrow> 'a ooo_scheme \<Rightarrow> 'a ooo_scheme res" where
  "oo_retire_transient d w =
    bind_res (oo_mark_dead d w) (\<lambda>w.
    bind_res (oo_drop d w) (\<lambda>w.
    bind_res (co_with_store (di_destroyTransientInst (co_self w) d) (oo_give_reg d w)) oo_pop_ROB))"

text \<open>From the reorder buffer to the buffer of those that wait to commit.\<close>

fun oo_pnr_loop :: "nat \<Rightarrow> 'a ooo_scheme \<Rightarrow> 'a ooo_scheme res" where
  "oo_pnr_loop 0 w = (if fq_empty (oo_ROB w) then Inr w else Inl Diverged)"
| "oo_pnr_loop (Suc n) w =
    (if fq_empty (oo_ROB w) then Inr w
     else bind_res (fq_top (oo_ROB w)) (\<lambda>d.
       assert_res (di_cluster (co_dinst d w) \<noteq> None) (
       bind_res (co_resource_of d (\<lambda>u. fu_preretire u d (co_flushing w) w) w) (\<lambda>(done, w).
         assert_res (co_flushing w \<and> di_isExecuted (co_dinst d w) \<longrightarrow> done) (
         if \<not> done then Inr w
         else assert_res (di_cluster (co_dinst d w) \<noteq> None) (
           bind_res (if di_isTransient (co_dinst d w) then co_cluster_of d (\<lambda>c. cl_retire c d w) w else Inr (True, w))
            (\<lambda>(done, w).
              if \<not> done then Inr w
              else if fl_flush_transient (di_flags (co_dinst d w)) \<or> di_isTransient (co_dinst d w)
              then bind_res (oo_retire_transient d w) (oo_pnr_loop n)
              else bind_res (fq_push (oo_rROB w) d) (\<lambda>q.
                   bind_res (oo_pop_ROB (w\<lparr>oo_rROB := q\<rparr>)) (oo_pnr_loop n)))))))))"

definition oo_forget_serialized :: "nat \<Rightarrow> 'a ooo_scheme \<Rightarrow> 'a ooo_scheme" where
  "oo_forget_serialized d w =
    (let w = (if oo_last_serialized w = Some d then w\<lparr>oo_last_serialized := None\<rparr> else w)
     in if oo_last_serializedST w = Some d then w\<lparr>oo_last_serializedST := None\<rparr> else w)"

text \<open>
  What happens to an instruction that has left its cluster. Its object is read after it may have been given back, so the
  three tests are made one after the other.
\<close>

definition oo_destroy_if :: "(dinst \<Rightarrow> bool) \<Rightarrow> nat \<Rightarrow> 'a ooo_scheme \<Rightarrow> 'a ooo_scheme res" where
  "oo_destroy_if P d w = (if P (co_dinst d w) then co_with_store (di_destroy (co_self w) d) w else Inr w)"

definition oo_commit :: "nat \<Rightarrow> 'a ooo_scheme \<Rightarrow> 'a ooo_scheme res" where
  "oo_commit d w =
    (let w = (if fl_replay (di_flags (co_dinst d w))
              then w\<lparr>co_flushing := True, oo_flushing_fid := di_fid (co_dinst d w)\<rparr> else w);
         w = oo_give_reg d w
     in assert_res (\<not> isStore (di_inst (co_dinst d w)) \<longrightarrow> fl_performed (di_flags (co_dinst d w))) (
        let w = co_update d di_mark_retired w; w = w\<lparr>oo_committed := oo_committed w @ [d]\<rparr>
        in bind_res (oo_destroy_if (\<lambda>x. fl_performed (di_flags x) \<and> \<not> isLoad (di_inst x)) d w) (\<lambda>w.
           bind_res (oo_destroy_if (\<lambda>x. fl_performed (di_flags x) \<and> fl_to_be_load_scb_all (di_flags x)) d w) (\<lambda>w.
           bind_res (oo_destroy_if (\<lambda>x. di_is_load_destroyed_retired_spec x \<and> di_is_load_destroyed_retired_safe_write x) d w) (\<lambda>w.
             bind_res (fq_pop (oo_rROB w)) (\<lambda>q. Inr (w\<lparr>oo_rROB := q\<rparr>)))))))"

fun oo_commit_loop :: "nat \<Rightarrow> 'a ooo_scheme \<Rightarrow> 'a ooo_scheme res" where
  "oo_commit_loop 0 w = Inr w"
| "oo_commit_loop (Suc n) w =
    (if fq_empty (oo_rROB w) then Inr w
     else bind_res (fq_top (oo_rROB w)) (\<lambda>d.
       let w = oo_forget_serialized d (co_update d di_mark_rrob w)
       in if di_executed (co_dinst d w) + word_of_int (oo_RetireDelay w) \<ge> co_clock w then Inr w
          else assert_res (\<not> di_is_spec (co_dinst d w) \<longrightarrow> di_cluster (co_dinst d w) \<noteq> None) (
            bind_res (co_cluster_of d (\<lambda>c. cl_retire c d w) w) (\<lambda>(done, w).
              if \<not> done then Inr w else bind_res (oo_commit d w) (oo_commit_loop n)))))"

definition oo_retire :: "'a ooo_scheme \<Rightarrow> 'a ooo_scheme res" where
  "oo_retire w = bind_res (oo_pnr_loop (fq_size (oo_ROB w)) w) (\<lambda>w. oo_commit_loop (nat (oo_RetireWidth w)) w)"

section \<open>From decode to rename\<close>

definition oo_in_pipe :: "(pipeline \<times> dinst_store \<Rightarrow> (pipeline \<times> dinst_store) res) \<Rightarrow> 'a ooo_scheme \<Rightarrow> 'a ooo_scheme res" where
  "oo_in_pipe f w = bind_res (f (oo_pipe w, co_store w)) (\<lambda>(p, s). Inr (w\<lparr>oo_pipe := p, co_store := s\<rparr>))"

definition oo_bucket :: "nat \<Rightarrow> 'a ooo_scheme \<Rightarrow> nat fastqueue" where
  "oo_bucket b w = ib_insts (pi_bucket (oo_pipe w) b)"

definition oo_set_bucket :: "nat \<Rightarrow> nat fastqueue \<Rightarrow> 'a ooo_scheme \<Rightarrow> 'a ooo_scheme" where
  "oo_set_bucket b q w = w\<lparr>oo_pipe := pi_on_bucket b (\<lambda>x. x\<lparr>ib_insts := q\<rparr>) (oo_pipe w)\<rparr>"

definition oo_doneItem :: "nat \<Rightarrow> 'a ooo_scheme \<Rightarrow> 'a ooo_scheme res" where
  "oo_doneItem b w = bind_res (pi_doneItem b (oo_pipe w)) (\<lambda>p. Inr (w\<lparr>oo_pipe := p\<rparr>))"

text \<open>
  \<open>decode_stage\<close>; the argument is the answer of \<open>adjust_clock\<close>, which scales the clock in floating point. The result tells to
  abort the cycle.
\<close>

definition oo_decode_stage :: "bool \<Rightarrow> 'a ooo_scheme \<Rightarrow> (bool \<times> 'a ooo_scheme) res" where
  "oo_decode_stage new_clock w =
    (if \<not> new_clock then Inr (True, w)
     else if oo_spaceInInstQueue w < oo_FetchWidth w then Inr (False, w)
     else bind_res (pi_nextItem (co_self w) (oo_pipe w, co_store w)) (\<lambda>(r, p, s).
       let w = w\<lparr>oo_pipe := p, co_store := s\<rparr>
       in case r of
            None \<Rightarrow> Inr (False, w)
          | Some b \<Rightarrow> assert_res (\<not> pi_empty (oo_pipe w) b) (
              let w = w\<lparr>oo_spaceInInstQueue := oo_spaceInInstQueue w - int (fq_size (oo_bucket b w))\<rparr>
              in bind_res (fq_push (oo_instQueue w) b) (\<lambda>q. Inr (False, w\<lparr>oo_instQueue := q\<rparr>)))))"

text \<open>
  \<open>issue\<close>: the instructions of the oldest bucket are renamed until the width is used up or one stalls. The two loops are one
  recursion over the width; the count is the result.
\<close>

fun oo_issue_loop :: "nat \<Rightarrow> int \<Rightarrow> 'a ooo_scheme \<Rightarrow> (int \<times> 'a ooo_scheme) res" where
  "oo_issue_loop n i w =
    bind_res (fq_top (oo_instQueue w)) (\<lambda>b.
    assert_res (\<not> pi_empty (oo_pipe w) b) (
    case n of
      0 \<Rightarrow> Inr (i, w)
    | Suc n \<Rightarrow>
        bind_res (fq_top (oo_bucket b w)) (\<lambda>d.
        bind_res (co_update_res d (di_setGProc (unat (co_hid w))) w) (\<lambda>w.
        bind_res (oo_add_inst d w) (\<lambda>(c, w).
          if c \<noteq> NoStall then Inr (i, w)
          else bind_res (fq_pop (oo_bucket b w)) (\<lambda>q.
            let w = oo_set_bucket b q w
            in if \<not> pi_empty (oo_pipe w) b then oo_issue_loop n (i + 1) w
               else bind_res (oo_doneItem b w) (\<lambda>w.
                    bind_res (fq_pop (oo_instQueue w)) (\<lambda>q.
                      let w = w\<lparr>oo_instQueue := q\<rparr>
                      in if fq_empty q then Inr (i + 1, w) else oo_issue_loop n (i + 1) w))))))))"

definition oo_issue :: "'a ooo_scheme \<Rightarrow> (int \<times> 'a ooo_scheme) res" where
  "oo_issue w = assert_res (\<not> fq_empty (oo_instQueue w)) (oo_issue_loop (nat (oo_IssueWidth w)) 0 w)"

section \<open>A cycle of the core\<close>

text \<open>The end of the recovery from a replay.\<close>

definition oo_recovered :: "'a ooo_scheme \<Rightarrow> 'a ooo_scheme" where
  "oo_recovered w =
    (let w = w\<lparr>co_replayRecovering := False, co_flushing := False\<rparr>;
         w = (if oo_lastReplay w + ucast (2 * oo_forwardProg_threshold w) < co_replayID w then w\<lparr>oo_serialize_level := 3\<rparr> else w);
         w = (if oo_lastReplay w + ucast (oo_forwardProg_threshold w) > co_replayID w
              then w\<lparr>oo_serialize_level := (if oo_serialize_level w \<noteq> 0 then oo_serialize_level w - 1 else 0),
                     co_serialize_for := sint (oo_serialize w)\<rparr>
              else w)
     in w\<lparr>oo_lastReplay := co_replayID w\<rparr>)"

definition oo_advance_clock_drain :: "bool \<Rightarrow> 'a ooo_scheme \<Rightarrow> (bool \<times> 'a ooo_scheme) res" where
  "oo_advance_clock_drain new_clock w =
    bind_res (oo_decode_stage new_clock w) (\<lambda>(abort, w).
      if abort \<or> \<not> oo_busy w then Inr (oo_busy w, w)
      else let empty = fq_empty (oo_rROB w) \<and> fq_empty (oo_ROB w)
           in if co_replayRecovering w \<and> \<not> empty then bind_res (oo_retire w) (\<lambda>w. Inr (True, w))
              else let w = (if co_replayRecovering w then oo_recovered w else w)
                   in if \<not> fq_empty (oo_instQueue w)
                      then bind_res (oo_issue w) (\<lambda>(n, w).
                           bind_res (oo_retire (w\<lparr>oo_spaceInInstQueue := oo_spaceInInstQueue w + n\<rparr>)) (\<lambda>w. Inr (True, w)))
                      else if fq_empty (oo_ROB w) \<and> fq_empty (oo_rROB w) \<and> \<not> pi_hasOutstandingItems (oo_pipe w)
                      then Inr (False, w)
                      else bind_res (oo_retire w) (\<lambda>w. Inr (True, w)))"

section \<open>Flushing transient instructions\<close>

fun oo_strip_bucket :: "nat \<Rightarrow> nat \<Rightarrow> 'a ooo_scheme \<Rightarrow> (bool \<times> 'a ooo_scheme) res" where
  "oo_strip_bucket 0 b w = (if fq_empty (oo_bucket b w) then Inr (True, w) else Inl Diverged)"
| "oo_strip_bucket (Suc n) b w =
    (if fq_empty (oo_bucket b w) then Inr (True, w)
     else bind_res (fq_end_data (oo_bucket b w)) (\<lambda>d.
       if \<not> di_isTransient (co_dinst d w) then Inr (False, w)
       else bind_res (co_with_store (di_destroyTransientInst (co_self w) d) w) (\<lambda>w.
         let w = oo_set_bucket b (fq_pop_from_back (oo_bucket b w)) w
         in oo_strip_bucket n b (w\<lparr>oo_spaceInInstQueue := oo_spaceInInstQueue w + 1\<rparr>))))"

fun oo_flush_queue_loop :: "nat \<Rightarrow> 'a ooo_scheme \<Rightarrow> 'a ooo_scheme res" where
  "oo_flush_queue_loop 0 w = (if fq_empty (oo_instQueue w) then Inr w else Inl Diverged)"
| "oo_flush_queue_loop (Suc n) w =
    (if fq_empty (oo_instQueue w) then Inr w
     else bind_res (fq_end_data (oo_instQueue w)) (\<lambda>b.
       bind_res (oo_strip_bucket (fq_size (oo_bucket b w)) b w) (\<lambda>(emptied, w).
         if \<not> emptied then Inr w
         else bind_res (oo_doneItem b w) (\<lambda>w.
              oo_flush_queue_loop n (w\<lparr>oo_instQueue := fq_pop_from_back (oo_instQueue w)\<rparr>)))))"

definition oo_flush_inst_queue :: "'a ooo_scheme \<Rightarrow> 'a ooo_scheme res" where
  "oo_flush_inst_queue w = oo_flush_queue_loop (fq_size (oo_instQueue w)) w"

text \<open>The side vector of the reorder buffer takes those that stay.\<close>

definition oo_keep :: "nat \<Rightarrow> 'a ooo_scheme \<Rightarrow> 'a ooo_scheme" where
  "oo_keep d w = w\<lparr>oo_ROB := fq_push_pipe_in_cluster (oo_ROB w) d\<rparr>"

definition oo_pop_back_ROB :: "'a ooo_scheme \<Rightarrow> 'a ooo_scheme" where
  "oo_pop_back_ROB w = w\<lparr>oo_ROB := fq_pop_from_back (oo_ROB w)\<rparr>"

definition oo_add_cluster_reg :: "nat \<Rightarrow> 'a ooo_scheme \<Rightarrow> 'a ooo_scheme res" where
  "oo_add_cluster_reg d w = co_cluster_of d (\<lambda>c. Inr (cl_add_reg_pool c w)) w"

text \<open>An executed one is finished at once.\<close>

definition oo_flush_executed :: "nat \<Rightarrow> 'a ooo_scheme \<Rightarrow> 'a ooo_scheme res" where
  "oo_flush_executed d w =
    bind_res (oo_drop d w) (\<lambda>w.
    bind_res (if hasDstRegister (di_inst (co_dinst d w)) \<and> \<not> fl_try_flush_transient (di_flags (co_dinst d w))
              then oo_add_cluster_reg d w else Inr w) (\<lambda>w.
    bind_res (co_with_store (di_clearRATEntry d) w) (\<lambda>w.
    bind_res (co_cluster_of d (\<lambda>c. cl_try_flushed c d w) w) (\<lambda>w.
      let w = oo_try_flush d w
      in co_with_store (di_destroyTransientInst (co_self w) d) w))))"

text \<open>One that is on its way gives its resources back and stays.\<close>

definition oo_flush_pending :: "nat \<Rightarrow> 'a ooo_scheme \<Rightarrow> 'a ooo_scheme res" where
  "oo_flush_pending d w =
    bind_res (co_with_store (di_clearRATEntry d) w) (\<lambda>w.
    bind_res (co_cluster_of d (\<lambda>c. cl_try_flushed c d w) w) (\<lambda>w.
    bind_res (co_cluster_of d (\<lambda>c. cl_del_entry_flush c d w) w) (\<lambda>w.
    bind_res (if hasDstRegister (di_inst (co_dinst d w))
              then bind_res (oo_add_cluster_reg d w) (\<lambda>w. Inr (co_update d di_mark_try_flush_transient w)) else Inr w) (\<lambda>w.
      Inr (oo_keep d w)))))"

definition oo_flush_one :: "nat \<Rightarrow> 'a ooo_scheme \<Rightarrow> 'a ooo_scheme res" where
  "oo_flush_one d w =
    (if \<not> di_isTransient (co_dinst d w) then Inr (oo_keep d w)
     else bind_res (co_with_store (di_clearRATEntry d) w) (\<lambda>w.
       let w = co_update d di_mark_destroy_transient w; x = co_dinst d w
       in if \<not> fl_retired (di_flags x) \<and> di_isExecuted x then oo_flush_executed d w
          else if di_isExecuting x \<or> di_isIssued x
          then if fl_try_flush_transient (di_flags x) then Inr (oo_keep d w)
               else oo_flush_pending d (co_update d di_mark_flush_transient w)
          else if di_isRenamed x
          then if fl_try_flush_transient (di_flags x) then Inr (oo_keep d w) else oo_flush_pending d w
          else Inr w))"

fun oo_flush_loop :: "nat \<Rightarrow> 'a ooo_scheme \<Rightarrow> 'a ooo_scheme res" where
  "oo_flush_loop 0 w = (if fq_empty (oo_ROB w) then Inr w else Inl Diverged)"
| "oo_flush_loop (Suc n) w =
    (if fq_empty (oo_ROB w) then Inr w
     else bind_res (fq_end_data (oo_ROB w)) (\<lambda>d.
       bind_res (oo_flush_one d w) (\<lambda>w. oo_flush_loop n (oo_pop_back_ROB w))))"

text \<open>An instruction of the side vector that is done leaves, if two entries or more of its window are in use; the others return.\<close>

definition oo_flush_done :: "nat \<Rightarrow> 'a ooo_scheme \<Rightarrow> 'a ooo_scheme res" where
  "oo_flush_done d w =
    co_cluster_of d (\<lambda>c.
      if cp_windowSize (co_pool w c) \<ge> cp_MaxWinSize (co_pool w c) - 1 then Inr w
      else bind_res (if hasDstRegister (di_inst (co_dinst d w)) \<and> \<not> fl_try_flush_transient (di_flags (co_dinst d w))
                     then oo_add_cluster_reg d w else Inr w) (\<lambda>w.
           bind_res (co_with_store (di_clearRATEntry d) (co_update d (di_markExecutedTransient (co_clock w)) w)) (\<lambda>w.
           bind_res (cl_try_flushed c d w) (\<lambda>w.
             let w = oo_try_flush d w
             in bind_res (if fl_del_entry (di_flags (co_dinst d w)) then Inr w else cl_del_entry_flush c d w) (\<lambda>w.
                  co_with_store (di_destroyTransientInst (co_self w) d) w))))) w"

definition oo_return_one :: "nat \<Rightarrow> 'a ooo_scheme \<Rightarrow> 'a ooo_scheme res" where
  "oo_return_one d w =
    (let x = co_dinst d w
     in bind_res (if fl_flush_transient (di_flags x) \<and> di_isExecuted x
                  then bind_res (di_hasDeps x) (\<lambda>deps. if deps then Inr False
                         else bind_res (di_hasPending x) (\<lambda>pend. Inr (\<not> pend)))
                  else Inr False) (\<lambda>done.
          if done then oo_flush_done d w
          else bind_res (fq_push (oo_ROB w) d) (\<lambda>q.
            let w = w\<lparr>oo_ROB := q\<rparr>; x = co_dinst d w
            in if \<not> fl_del_entry (di_flags x) \<and> di_isTransient x
               then co_cluster_of d (\<lambda>c. cl_del_entry_flush c d w) w else Inr w)))"

fun oo_return_loop :: "nat \<Rightarrow> 'a ooo_scheme \<Rightarrow> 'a ooo_scheme res" where
  "oo_return_loop 0 w = (if fq_empty_pipe_in_cluster (oo_ROB w) then Inr w else Inl Diverged)"
| "oo_return_loop (Suc n) w =
    (if fq_empty_pipe_in_cluster (oo_ROB w) then Inr w
     else bind_res (fq_back_pipe_in_cluster (oo_ROB w)) (\<lambda>d.
       bind_res (oo_return_one d w) (\<lambda>w.
       bind_res (fq_pop_pipe_in_cluster (oo_ROB w)) (\<lambda>q. oo_return_loop n (w\<lparr>oo_ROB := q\<rparr>)))))"

definition oo_flush_rob :: "'a ooo_scheme \<Rightarrow> 'a ooo_scheme res" where
  "oo_flush_rob w =
    bind_res (oo_flush_loop (fq_size (oo_ROB w)) w) (\<lambda>w.
      oo_return_loop (length (fq_pipe_in_cluster (oo_ROB w))) w)"

text \<open>\<open>flush_transient_inst_on_fetch_ready\<close>\<close>

definition oo_flush_on_fetch_ready :: "'a ooo_scheme \<Rightarrow> 'a ooo_scheme res" where
  "oo_flush_on_fetch_ready w =
    (if \<not> oo_do_random_transients w then Inr w
     else let w = w\<lparr>oo_flushing_last_transientid := oo_last_transientid w,
                    oo_pipe := pi_set_flushing_id (oo_last_transientid w) (oo_pipe w)\<rparr>
          in bind_res (oo_flush_inst_queue w) (\<lambda>w.
             bind_res (oo_in_pipe (pi_flush_buffer (co_self w)) w) (\<lambda>w.
             bind_res (oo_in_pipe (pi_flush_received (co_self w)) w) (\<lambda>w.
             bind_res (oo_flush_rob w) (\<lambda>w. Inr (w\<lparr>co_scb := sb_flush_transient (co_scb w)\<rparr>))))))"

end
