(* ===== verification/Commit_Order.thy ===== *)
theory Commit_Order
  imports Ooo_Core
begin

text \<open>
  What the core promises to the program: instructions commit in the order in which they were renamed, a flush
  of transient instructions removes no other, and registers are never created. Every operation of
  the back end leaves the buffers of the core and the identity of the instructions alone; its lemma says that the view is the same,
  and the simplifier chains these equations.
\<close>

section \<open>The view\<close>

text \<open>What identifies an instruction, and whether it is marked for a flush without being transient.\<close>

definition di_ident :: "dinst \<Rightarrow> instruction \<times> u64 \<times> bool \<times> bool" where
  "di_ident x = (di_inst x, di_ID x, fl_transient (di_flags x), fl_flush_transient (di_flags x) \<and> \<not> fl_transient (di_flags x))"

definition ds_ident :: "dinst_store \<Rightarrow> nat \<Rightarrow> instruction \<times> u64 \<times> bool \<times> bool" where
  "ds_ident s d = di_ident (ds_obj s d)"

definition co_view :: "'a core_scheme \<Rightarrow> (nat \<Rightarrow> instruction \<times> u64 \<times> bool \<times> bool) \<times> 'a" where
  "co_view w = (ds_ident (co_store w), core.more w)"

named_theorems view_simps "operations that keep the view"
named_theorems view_dests "operations that keep the view when they return"

lemma ds_ident_update: "(\<And>x. di_ident (f x) = di_ident x) \<Longrightarrow> ds_ident (ds_update d f s) = ds_ident s"
  by (auto simp: ds_ident_def ds_update_obj fun_eq_iff)

lemma ds_ident_update_at: "di_ident (f (ds_obj s d)) = di_ident (ds_obj s d) \<Longrightarrow> ds_ident (ds_update d f s) = ds_ident s"
  by (auto simp: ds_ident_def ds_update_obj fun_eq_iff)

lemma ds_keeps_ident: "ds_keeps s s' \<Longrightarrow> ds_ident s' = ds_ident s"
proof (rule ext)
  fix d
  assume k: "ds_keeps s s'"
  have "(di_flags (ds_obj s' d))\<lparr>fl_interCluster := False, fl_in_cluster := False\<rparr> =
      (di_flags (ds_obj s d))\<lparr>fl_interCluster := False, fl_in_cluster := False\<rparr>" "di_ID (ds_obj s' d) = di_ID (ds_obj s d)"
    using k by (simp_all add: ds_keeps_def di_static_def)
  moreover have "fl_flush_transient (di_flags (ds_obj s' d)) = fl_flush_transient (di_flags (ds_obj s d))"
    using arg_cong [OF calculation(1), of fl_flush_transient] by simp
  ultimately show "ds_ident s' d = ds_ident s d" using ds_keeps_flags [OF k] by (simp add: ds_ident_def di_ident_def)
qed

lemma ds_ident_set_pend [simp]: "ds_ident (ds_set_pend nd f s) = ds_ident s"
  by (auto simp: ds_ident_def ds_set_pend_def di_ident_def ds_update_def fun_eq_iff)

lemma di_addSrc_ident:
  assumes "di_addSrc k p d s = Inr s'"
  shows "ds_ident s' = ds_ident s"
proof -
  have u: "ds_ident (ds_update x (\<lambda>x. x\<lparr>di_nDeps := di_nDeps x + 1\<rparr>) s) = ds_ident s"
    "ds_ident (ds_update x (\<lambda>x. x\<lparr>di_first := f\<rparr>) s) = ds_ident s"
    "ds_ident (ds_update x (\<lambda>x. x\<lparr>di_last := f\<rparr>) s) = ds_ident s" for x f s
    by (rule ds_ident_update; simp add: di_ident_def)+
  show ?thesis using assms by (auto simp: di_addSrc_def Let_def res_Inr_iffs u split: if_splits)
qed

section \<open>The back end\<close>

lemma co_view_fields [view_simps]:
  "co_view (w\<lparr>co_lsq := q\<rparr>) = co_view w" "co_view (w\<lparr>co_scb := b\<rparr>) = co_view w"
  "co_view (w\<lparr>co_ss := t\<rparr>) = co_view w" "co_view (w\<lparr>co_events := es\<rparr>) = co_view w"
  "co_view (w\<lparr>co_port := p\<rparr>) = co_view w" "co_view (w\<lparr>co_unit := u\<rparr>) = co_view w"
  "co_view (w\<lparr>co_cluster := k\<rparr>) = co_view w" "co_view (w\<lparr>co_replayID := n\<rparr>) = co_view w"
  "co_view (w\<lparr>co_replayRecovering := e\<rparr>) = co_view w" "co_view (w\<lparr>co_pool := c\<rparr>) = co_view w"
  "co_view (w\<lparr>co_window := v\<rparr>) = co_view w" "co_view (w\<lparr>co_serialize_for := n'\<rparr>) = co_view w"
  "co_view (w\<lparr>co_flushing := e\<rparr>) = co_view w"
  by (simp_all add: co_view_def)

lemma co_view_lifts [view_simps]:
  "co_view (co_emit e w) = co_view w" "co_view (co_on_unit u g w) = co_view w" "co_view (co_on_pool c f w) = co_view w"
  "co_view (cl_leave_ready k w) = co_view w" "co_view (fu_lsq_inc w) = co_view w" "co_view (fu_load_add n u w) = co_view w"
  "co_view (fu_store_add n u w) = co_view w" "co_view (fu_branch_add n u w) = co_view w" "co_view (cl_add_reg_pool c w) = co_view w"
  "co_view (oo_set_rat cell v w) = co_view w"
  by (simp_all add: co_view_def co_emit_def co_on_unit_def co_on_pool_def cl_leave_ready_def fu_lsq_inc_def fu_load_add_def
      fu_store_add_def fu_branch_add_def cl_add_reg_pool_def oo_set_rat_def ds_ident_def [abs_def])

lemma co_view_update: "(\<And>x. di_ident (f x) = di_ident x) \<Longrightarrow> co_view (co_update d f w) = co_view w"
  by (simp add: co_view_def co_update_def ds_ident_update)

lemmas mark_defs = di_markDispatched_def di_set_load_scb_all_def di_markReplay_def di_mark_retired_def
  di_mark_try_flush_transient_def di_markExecutingTransient_def di_markExecutedTransient_def di_set_spec_def
  di_set_present_in_rob_def di_mark_destroy_transient_def di_mark_flush_transient_def di_mark_rrob_def di_mark_del_entry_def
  di_reset_present_in_scb_def di_set_present_in_scb_def di_set_safe_def di_set_load_destroyed_performed_spec_def
  di_set_load_destroyed_performed_safe_write_def di_set_load_destroyed_retired_spec_def di_set_load_destroyed_retired_safe_write_def
  di_set_def

lemma co_view_marks [view_simps]:
  "co_view (co_update d di_markDispatched w) = co_view w" "co_view (co_update d di_set_load_scb_all w) = co_view w"
  "co_view (co_update d di_markReplay w) = co_view w" "co_view (co_update d di_mark_retired w) = co_view w"
  "co_view (co_update d di_mark_try_flush_transient w) = co_view w" "co_view (co_update d (di_markExecutingTransient t) w) = co_view w"
  "co_view (co_update d (di_markExecutedTransient t) w) = co_view w" "co_view (co_update d di_set_spec w) = co_view w"
  "co_view (co_update d di_set_present_in_rob w) = co_view w" "co_view (co_update d di_mark_destroy_transient w) = co_view w"
  "co_view (co_update d di_mark_rrob w) = co_view w"
  "co_view (co_update d di_mark_del_entry w) = co_view w" "co_view (co_update d di_reset_present_in_scb w) = co_view w"
  "co_view (co_update d di_set_load_destroyed_performed_spec w) = co_view w"
  "co_view (co_update d di_set_load_destroyed_retired_safe_write w) = co_view w"
  "co_view (co_update d di_set_load_destroyed_performed_safe_write w) = co_view w"
  "co_view (co_update d di_set_load_destroyed_retired_spec w) = co_view w"
  "co_view (co_update d di_set_present_in_scb w) = co_view w" "co_view (co_update d di_set_safe w) = co_view w"
  by (rule co_view_update; simp add: mark_defs di_ident_def)+

lemma co_view_mark_flush [view_simps]:
  "di_isTransient (co_dinst d w) \<Longrightarrow> co_view (co_update d di_mark_flush_transient w) = co_view w"
  by (simp add: co_view_def co_update_def co_dinst_def)
    (rule ds_ident_update_at, simp add: mark_defs di_ident_def di_isTransient_def)

lemma co_view_update_res:
  assumes "co_update_res d f w = Inr w'" and "\<And>x y. f x = Inr y \<Longrightarrow> di_ident y = di_ident x"
  shows "co_view w' = co_view w"
proof -
  obtain x where x: "f (co_dinst d w) = Inr x" "w' = co_update d (\<lambda>_. x) w"
    using assms(1) by (auto simp: co_update_res_def bind_res_Inr_iff)
  have "ds_ident (ds_update d (\<lambda>_. x) (co_store w)) = ds_ident (co_store w)"
    by (rule ds_ident_update_at) (use assms(2) [OF x(1)] in \<open>simp add: co_dinst_def\<close>)
  then show ?thesis by (simp add: x(2) co_view_def co_update_def)
qed

lemma co_view_update_marks [view_dests]:
  "co_update_res d di_markPerformed w = Inr w' \<Longrightarrow> co_view w' = co_view w"
  "co_update_res d di_markRetired w = Inr w' \<Longrightarrow> co_view w' = co_view w"
  "co_update_res d (di_markExecuting t) w = Inr w' \<Longrightarrow> co_view w' = co_view w"
  "co_update_res d (di_markRenamed t) w = Inr w' \<Longrightarrow> co_view w' = co_view w"
  "co_update_res d (di_setRAT1Entry e) w = Inr w' \<Longrightarrow> co_view w' = co_view w"
  "co_update_res d (di_setRAT2Entry e) w = Inr w' \<Longrightarrow> co_view w' = co_view w"
  "co_update_res d (di_setSerializeEntry e) w = Inr w' \<Longrightarrow> co_view w' = co_view w"
  "co_update_res d (di_setGProc g) w = Inr w' \<Longrightarrow> co_view w' = co_view w"
  by (erule co_view_update_res; auto simp: di_markPerformed_def di_markRetired_def di_markExecuting_def di_markRenamed_def
      di_setRAT1Entry_def di_setRAT2Entry_def di_setSerializeEntry_def di_setGProc_def assert_res_Inr_iff di_set_def di_ident_def)+

lemma co_view_store:
  assumes "co_with_store f w = Inr w'" and "\<And>s s'. f s = Inr s' \<Longrightarrow> ds_ident s' = ds_ident s"
  shows "co_view w' = co_view w"
  using assms by (auto simp: co_with_store_def bind_res_Inr_iff co_view_def)

lemma co_view_stores [view_dests]:
  "co_with_store (di_clearRATEntry d) w = Inr w' \<Longrightarrow> co_view w' = co_view w"
  "co_with_store (di_destroy self d) w = Inr w' \<Longrightarrow> co_view w' = co_view w"
  "co_with_store (di_destroyTransientInst self d) w = Inr w' \<Longrightarrow> co_view w' = co_view w"
  "co_with_store (di_addSrc k p d) w = Inr w' \<Longrightarrow> co_view w' = co_view w"
  by (erule co_view_store; blast intro: ds_keeps_ident di_clearRATEntry_keeps di_destroy_keeps di_destroyTransientInst_keeps di_addSrc_ident)+

lemma co_view_window:
  assumes "co_in_window k f w = Inr w'" and "\<And>v v'. f v = Inr v' \<Longrightarrow> ds_keeps (ww_store v) (ww_store v')"
  shows "co_view w' = co_view w"
proof -
  obtain v where v: "f \<lparr>ww_store = co_store w, ww_cluster = co_cluster w, ww_window = co_window w k\<rparr> = Inr v"
    and w': "w' = w\<lparr>co_store := ww_store v, co_cluster := ww_cluster v, co_window := (co_window w)(k := ww_window v)\<rparr>"
    using assms(1) by (auto simp: co_in_window_def bind_res_Inr_iff)
  show ?thesis using ds_keeps_ident [OF assms(2) [OF v]] by (simp add: w' co_view_def)
qed

lemma dw_loop_keeps: "loop_res (dw_executed self d v) = Inr v' \<Longrightarrow> ds_keeps (ww_store v) (ww_store v')"
  using dw_executed_keeps by (auto simp: loop_res_def split: option.splits)

lemma co_view_windows [view_dests]:
  "co_in_window c (dw_add_inst d) w = Inr w' \<Longrightarrow> co_view w' = co_view w"
  "co_in_window c (\<lambda>v. loop_res (dw_executed self d v)) w = Inr w' \<Longrightarrow> co_view w' = co_view w"
  "co_in_window c (dw_executed_flushed d) w = Inr w' \<Longrightarrow> co_view w' = co_view w"
  by (erule co_view_window; blast intro: dw_add_inst_keeps dw_loop_keeps dw_mark_executed_keeps [folded dw_executed_flushed_def])+

lemma fu_view_queues [view_dests]:
  "fu_lsq_remove d w = Inr w' \<Longrightarrow> co_view w' = co_view w"
  "fu_storeset_remove d w = Inr w' \<Longrightarrow> co_view w' = co_view w"
  "fu_gen_schedule u d w = Inr w' \<Longrightarrow> co_view w' = co_view w"
  "oo_replay d w = Inr w' \<Longrightarrow> co_view w' = co_view w"
  "fu_add_st d w = Inr w' \<Longrightarrow> co_view w' = co_view w"
  by (auto simp: fu_lsq_remove_def fu_storeset_remove_def fu_gen_schedule_def oo_replay_def fu_add_st_def Let_def
      res_Inr_iffs view_simps split: if_splits)
lemma lf_exec_loop_ident: "lf_exec_loop d qs faulty fwd s = Inr (r, n, s') \<Longrightarrow> ds_ident s' = ds_ident s"
proof (induction qs arbitrary: faulty fwd s)
  case (Cons q qs)
  have u: "ds_ident (ds_update d (\<lambda>_. x') s) = ds_ident s" if "di_setLoadForwarded (ds_obj s d) = Inr x'" for x'
    by (rule ds_ident_update_at) (use that in \<open>auto simp: di_setLoadForwarded_def assert_res_Inr_iff di_ident_def di_set_def\<close>)
  from Cons.prems show ?case
    by (auto simp: Let_def bind_res_Inr_iff u split: if_splits dest: Cons.IH)
qed simp

lemma fu_lsq_executing_view [view_dests]: "fu_lsq_executing d w = Inr (r, w') \<Longrightarrow> co_view w' = co_view w"
  by (auto simp: fu_lsq_executing_def lf_executing_def Let_def res_Inr_iffs co_view_def dest!: lf_exec_loop_ident)

lemma ss_insert_ident:
  assumes "ss_insert d (t, s) = Inr (b, t', s')"
  shows "ds_ident s' = ds_ident s"
proof -
  have u: "ds_ident (ds_setSSID d i s) = ds_ident s" for i
    unfolding ds_setSSID_def by (rule ds_ident_update) (simp add: di_ident_def)
  show ?thesis
    using assms
    by (auto simp: ss_insert_def Let_def ss_get_LFS_def int_nth_res_def nth_res_def deref_def res_Inr_iffs u
        split: if_splits option.splits dest!: di_addSrc_ident)
qed

lemma fu_enter_lsq_view [view_dests]:
  assumes "fu_enter_lsq cause u d w = Inr (sc, w')"
  shows "co_view w' = co_view w"
  using assms
  by (auto simp: fu_enter_lsq_def Let_def res_Inr_iffs co_view_def split: if_splits dest!: ss_insert_ident)

lemma cl_view_regs [view_dests]:
  "cl_take_reg b c d w = Inr w' \<Longrightarrow> co_view w' = co_view w"
  "cl_give_reg c w = Inr w' \<Longrightarrow> co_view w' = co_view w"
  "cl_delEntry c w = Inr w' \<Longrightarrow> co_view w' = co_view w"
  "cl_newEntry c w = Inr w' \<Longrightarrow> co_view w' = co_view w"
  by (auto simp: cl_take_reg_def cl_give_reg_def cl_delEntry_def cl_newEntry_def Let_def assert_res_Inr_iff view_simps
      split: if_splits)

lemma cl_del_entry_view [view_dests]:
  "cl_del_entry_once c d w = Inr w' \<Longrightarrow> co_view w' = co_view w"
  "cl_del_entry_flush c d w = Inr w' \<Longrightarrow> co_view w' = co_view w"
  by (auto simp: cl_del_entry_flush_def cl_del_entry_once_def view_simps split: if_splits dest!: view_dests)

lemma cl_add_inst_view [view_dests]: "cl_add_inst c d w = Inr w' \<Longrightarrow> co_view w' = co_view w"
  by (auto simp: cl_add_inst_def bind_res_Inr_iff split: if_splits dest!: view_dests)

lemma cl_executing_view [view_dests]:
  assumes "cl_executing c d w = Inr w'"
  shows "co_view w' = co_view w"
proof -
  let ?w0 = "cl_leave_ready c w"
  obtain w1 w2 where w1: "(if cp_lateAlloc (co_pool ?w0 c)
        then cl_take_reg (cp_kind (co_pool ?w0 c) \<noteq> RetiredCluster) c d ?w0 else Inr ?w0) = Inr w1"
    and w2: "oo_executing d w1 = Inr w2"
    and w': "(if cp_kind (co_pool w2 c) = ExecutingCluster then cl_delEntry c w2 else Inr w2) = Inr w'"
    using assms by (auto simp only: cl_executing_def Let_def bind_res_Inr_iff)
  have "co_view w1 = co_view w" using w1 by (auto simp: view_simps split: if_splits dest!: view_dests)
  moreover have "co_view w2 = co_view w1" using w2 by (auto simp: oo_executing_def view_simps split: if_splits dest!: view_dests)
  moreover have "co_view w' = co_view w2" using w' by (auto split: if_splits dest!: view_dests)
  ultimately show ?thesis by simp
qed

lemma cl_executed_view [view_dests]: "cl_executed c d w = Inr w' \<Longrightarrow> co_view w' = co_view w"
  by (auto simp: cl_executed_def res_Inr_iffs split: if_splits dest!: view_dests)

section \<open>The units\<close>

lemma load_view [view_dests]:
  "load_release b u d w = Inr w' \<Longrightarrow> co_view w' = co_view w"
  "store_performed d w = Inr w' \<Longrightarrow> co_view w' = co_view w"
  by (auto simp: load_release_def store_performed_def Let_def res_Inr_iffs view_simps split: if_splits dest!: view_dests)

lemma load_leave_scb_view [view_simps]:
  "co_view (load_leave_scb d w) = co_view w" "co_view (load_to_cache d w) = co_view w"
  "co_view (load_make_safe l d w) = co_view w"
proof -
  show l: "co_view (load_leave_scb d w) = co_view w" for w :: "'a core_scheme" by (simp add: load_leave_scb_def view_simps)
  show c: "co_view (load_to_cache d w) = co_view w" for w :: "'a core_scheme"
    by (simp add: load_to_cache_def Let_def view_simps split: prod.split)
  show "co_view (load_make_safe l d w) = co_view w" by (simp add: load_make_safe_def Let_def l c view_simps)
qed

lemma load_enter_scb_view [view_dests]: "load_enter_scb d w = Inr w' \<Longrightarrow> co_view w' = co_view w"
  by (auto simp: load_enter_scb_def bind_res_Inr_iff view_simps split: if_splits dest!: view_dests)

lemma fu_canIssue_view [view_dests]: "fu_canIssue u d w = Inr (sc, w') \<Longrightarrow> co_view w' = co_view w"
  by (auto simp: fu_canIssue_def load_canIssue_def store_canIssue_def branch_canIssue_def ralu_canIssue_def Let_def
      res_Inr_iffs view_simps split: fu_kind.splits if_splits dest!: view_dests)

lemma cl_canIssue_view [view_dests]: "cl_canIssue c d w = Inr (sc, w') \<Longrightarrow> co_view w' = co_view w"
  by (auto simp: cl_canIssue_def co_resource_of_def res_Inr_iffs split: if_splits dest!: view_dests)

lemma fu_preretire_view [view_dests]: "fu_preretire u d fl w = Inr (b, w') \<Longrightarrow> co_view w' = co_view w"
  by (auto simp: fu_preretire_def load_preretire_def store_preretire_def branch_preretire_def branch_unblock_def Let_def
      res_Inr_iffs view_simps split: fu_kind.splits if_splits dest!: view_dests)

lemma fu_retire_view [view_dests]: "fu_retire u d w = Inr (b, w') \<Longrightarrow> co_view w' = co_view w"
  by (auto simp: fu_retire_def load_retire_def store_retire_def ralu_retire_def Let_def
      res_Inr_iffs view_simps split: fu_kind.splits if_splits dest!: view_dests)

lemma cl_retire_view [view_dests]:
  assumes "cl_retire c d w = Inr (b, w')"
  shows "co_view w' = co_view w"
proof -
  obtain u b1 w1 where w1: "fu_retire u d w = Inr (b1, w1)"
    and r: "w' = w1 \<or> cl_give_reg c w1 = Inr w' \<or> (\<exists>w2. (w2 = w1 \<or> cl_give_reg c w1 = Inr w2) \<and> cl_delEntry c w2 = Inr w')"
    using assms
    by (auto simp: cl_retire_def co_resource_of_def res_Inr_iffs Let_def split: if_splits cluster_kind.splits)
  have "co_view w1 = co_view w" by (rule fu_retire_view [OF w1])
  moreover have "co_view w' = co_view w1" using r by (auto dest!: view_dests)
  ultimately show ?thesis by simp
qed

lemma fu_try_flushed_view [view_dests]: "fu_try_flushed u d w = Inr w' \<Longrightarrow> co_view w' = co_view w"
  by (auto simp: fu_try_flushed_def load_try_flushed_def store_try_flushed_def Let_def res_Inr_iffs view_simps
      split: fu_kind.splits if_splits dest!: view_dests)

lemma cl_try_flushed_view [view_dests]: "cl_try_flushed c d w = Inr w' \<Longrightarrow> co_view w' = co_view w"
  by (auto simp: cl_try_flushed_def co_resource_of_def res_Inr_iffs split: if_splits dest!: view_dests)

text \<open>What the ports and the callbacks run between the cycles.\<close>

lemma fu_executing_view [view_dests]: "fu_executing u d w = Inr w' \<Longrightarrow> co_view w' = co_view w"
  by (auto simp: fu_executing_def store_executing_def store_check_order_def res_Inr_iffs view_simps
      split: fu_kind.splits if_splits option.splits dest!: view_dests)

lemma store_executed_view [view_dests]:
  "store_executed u d w = Inr w' \<Longrightarrow> co_view w' = co_view w"
  "load_executed u d w = Inr w' \<Longrightarrow> co_view w' = co_view w"
  by (auto simp: store_executed_def load_executed_def res_Inr_iffs split: if_splits dest!: view_dests)

lemma fu_do_execution_view [view_dests]: "fu_do_execution u t d w = Inr w' \<Longrightarrow> co_view w' = co_view w"
  by (auto simp: fu_do_execution_def do_load_execution_def load_performs_at_def do_store_execution_def do_branch_execution_def
      do_generic_execution_def Let_def res_Inr_iffs view_simps split: fu_kind.splits if_splits dest!: view_dests)

lemma fu_executed_view [view_dests]: "fu_executed u d w = Inr w' \<Longrightarrow> co_view w' = co_view w"
  by (auto simp: fu_executed_def branch_executed_def branch_unblock_def generic_executed_def res_Inr_iffs view_simps
      split: fu_kind.splits if_splits dest!: view_dests)

lemma fu_performed_view [view_dests]: "fu_performed u d w = Inr w' \<Longrightarrow> co_view w' = co_view w"
  by (auto simp: fu_performed_def load_performed_def not_memory_performed_def res_Inr_iffs
      split: fu_kind.splits if_splits dest!: view_dests)

lemma fu_performed_safe_write_view [view_dests]: "fu_performed_safe_write u d w = Inr w' \<Longrightarrow> co_view w' = co_view w"
  by (auto simp: fu_performed_safe_write_def load_performed_safe_write_def Let_def res_Inr_iffs view_simps
      split: fu_kind.splits if_splits dest!: view_dests)

lemma fu_performed_spec_view [view_dests]:
  assumes "fu_performed_spec u d w = Inr w'"
  shows "co_view w' = co_view w"
proof (cases "\<exists>l. rs_kind (co_unit w u) = FULoad l")
  case True
  then obtain w1 w2 where w1: "(if di_is_spec (co_dinst d w) then load_enter_scb d w else co_update_res d di_markPerformed w) = Inr w1"
    and w2: "(if \<not> di_isExecuted (co_dinst d w1) then load_executed u d w1 else Inr w1) = Inr w2"
    and w': "(if fl_retired (di_flags (co_dinst d w2))
      then if di_is_load_destroyed_performed_spec (co_dinst d w2)
           then co_with_store (di_destroy (co_self w2) d) w2
           else Inr (co_update d di_set_load_destroyed_performed_safe_write w2)
      else Inr (co_update d di_set_load_destroyed_retired_spec
                 (co_update d di_set_load_destroyed_performed_safe_write w2))) = Inr w'"
    using assms by (auto simp: fu_performed_spec_def load_performed_spec_def bind_res_Inr_iff)
  have "co_view w1 = co_view w" using w1 by (auto split: if_splits dest!: view_dests)
  moreover have "co_view w2 = co_view w1" using w2 by (auto split: if_splits dest!: view_dests)
  moreover have "co_view w' = co_view w2" using w' by (auto simp: view_simps split: if_splits dest!: view_dests)
  ultimately show ?thesis by simp
qed (use assms in \<open>simp add: fu_performed_spec_def split: fu_kind.splits\<close>)

section \<open>The core\<close>

text \<open>What the tracer has seen, and how many instructions may retire in a cycle.\<close>

definition oo_log :: "'a ooo_scheme \<Rightarrow> nat list \<times> nat list \<times> int" where
  "oo_log w = (oo_renamed w, oo_committed w, oo_RetireWidth w)"

definition oo_view :: "'a ooo_scheme \<Rightarrow>
    nat fastqueue \<times> nat fastqueue \<times> int \<times> (nat list \<times> nat list \<times> int) \<times> (nat \<Rightarrow> instruction \<times> u64 \<times> bool \<times> bool)" where
  "oo_view w = (oo_ROB w, oo_rROB w, oo_nTotalRegs w, oo_log w, ds_ident (co_store w))"

lemma oo_log_buffers [simp]: "oo_log (w\<lparr>oo_ROB := q\<rparr>) = oo_log w" "oo_log (w\<lparr>oo_rROB := q\<rparr>) = oo_log w"
  by (simp_all add: oo_log_def)

lemma oo_view_core: "co_view w' = co_view w \<Longrightarrow> oo_view w' = oo_view w"
  by (cases w; cases w') (simp add: co_view_def oo_view_def oo_log_def)

named_theorems oo_simps "operations of the core that keep its buffers"
named_theorems oo_dests "operations of the core that keep its buffers when they return"

lemma oo_view_fields [oo_simps]:
  "oo_view (w\<lparr>oo_last_serialized := l\<rparr>) = oo_view w" "oo_view (w\<lparr>oo_last_serializedST := l\<rparr>) = oo_view w"
  "oo_view (w\<lparr>oo_last_serializeLogical := r\<rparr>) = oo_view w" "oo_view (w\<lparr>oo_last_serializePC := a\<rparr>) = oo_view w"
  "oo_view (w\<lparr>oo_flushing_fid := f\<rparr>) = oo_view w" "oo_view (w\<lparr>oo_pipe := p\<rparr>) = oo_view w"
  "oo_view (w\<lparr>oo_instQueue := q\<rparr>) = oo_view w" "oo_view (w\<lparr>oo_spaceInInstQueue := i\<rparr>) = oo_view w"
  "oo_view (w\<lparr>oo_sched := s\<rparr>) = oo_view w" "oo_view (w\<lparr>oo_serialize_level := n\<rparr>) = oo_view w"
  "oo_view (w\<lparr>oo_lastReplay := t\<rparr>) = oo_view w"
  by (simp_all add: oo_view_def oo_log_def)

lemmas oo_view_core_simps [oo_simps] = view_simps [THEN oo_view_core]
lemmas oo_view_core_dests [oo_dests] = view_dests [THEN oo_view_core]

lemma oo_drop_waiters_ident:
  "oo_drop_waiters d s = Some r \<Longrightarrow> \<forall>s'. r = Inr s' \<longrightarrow> ds_ident s' = ds_ident s"
proof (rule oo_drop_waiters.raw_induct [rotated])
  fix f d s r
  assume IH: "\<And>d s r. f d s = Some r \<Longrightarrow> \<forall>s'. r = Inr s' \<longrightarrow> ds_ident s' = ds_ident s"
    and run: "(case di_hasPending (ds_obj s d) of Inl e \<Rightarrow> Some (Inl e)
      | Inr pend \<Rightarrow> if \<not> pend then Some (Inr s)
          else (case di_getNextPending d s of Inl e \<Rightarrow> Some (Inl e)
            | Inr (r, s) \<Rightarrow> if di_isTransient (ds_obj s r) then f d s else Some (Inl Assert_failed))) = Some r"
  show "\<forall>s'. r = Inr s' \<longrightarrow> ds_ident s' = ds_ident s"
    using run by (auto split: sum.splits if_splits prod.splits dest!: IH ds_keeps_ident [OF di_getNextPending_keeps])
qed

lemma oo_drop_view [view_dests]: "oo_drop d w = Inr w' \<Longrightarrow> co_view w' = co_view w"
  unfolding oo_drop_def
  by (erule co_view_store) (auto simp: loop_res_def split: option.splits dest!: oo_drop_waiters_ident)

lemma oo_mark_dead_view [view_dests]: "oo_mark_dead d w = Inr w' \<Longrightarrow> co_view w' = co_view w"
  by (auto simp: oo_mark_dead_def view_simps split: if_splits dest!: view_dests)

lemma oo_wait_issue_view [view_dests]: "oo_wait_issue p d w = Inr w' \<Longrightarrow> co_view w' = co_view w"
  by (auto simp: oo_wait_issue_def split: option.splits if_splits dest!: view_dests)

lemma oo_link_view [view_dests]: "oo_link k r d w = Inr w' \<Longrightarrow> co_view w' = co_view w"
  by (auto simp: oo_link_def split: option.splits dest!: view_dests)

lemma oo_link_sources_view [view_dests]: "oo_link_sources d w = Inr w' \<Longrightarrow> co_view w' = co_view w"
  by (auto simp: oo_link_sources_def Let_def bind_res_Inr_iff split: if_splits dest!: view_dests)

lemma oo_rename_view [view_dests]:
  assumes "oo_rename d w = Inr w'"
  shows "co_view w' = co_view w"
proof -
  obtain w1 w2 w3 w4 w5 where w1: "oo_link_sources d w = Inr w1"
    and w2: "co_update_res d (di_setRAT1Entry (Some (fst (oo_dst_cells d w1)))) w1 = Inr w2"
    and w3: "co_update_res d (di_setRAT2Entry (Some (snd (oo_dst_cells d w2)))) w2 = Inr w3"
    and w4: "co_cluster_of d (\<lambda>c. cl_add_inst c d w3) w3 = Inr w4"
    and w5: "w5 = (if di_isExecuted (co_dinst d w4) then w4
      else oo_set_rat (snd (oo_dst_cells d w4)) (Some d) (oo_set_rat (fst (oo_dst_cells d w4)) (Some d) w4))"
    and w': "co_update_res d (di_markRenamed (co_clock w5)) w5 = Inr w'"
    using assms by (auto simp only: oo_rename_def Let_def bind_res_Inr_iff assert_res_Inr_iff)
  obtain c where w4: "cl_add_inst c d w3 = Inr w4" using w4 by (auto simp: co_cluster_of_def deref_Inr_iff)
  have "co_view w5 = co_view w4" by (simp add: w5 view_simps)
  then show ?thesis using w1 w2 w3 w4 w' by (auto dest!: view_dests)
qed

lemma oo_serialize_view [oo_dests]:
  "oo_serialize_all d w = Inr w' \<Longrightarrow> oo_view w' = oo_view w"
  "oo_serialize_stores d w = Inr w' \<Longrightarrow> oo_view w' = oo_view w"
  by (auto simp: oo_serialize_all_def oo_serialize_stores_def bind_res_Inr_iff oo_simps split: if_splits
      dest!: view_dests [THEN oo_view_core])

lemma oo_serialize_register_view [oo_dests]: "oo_serialize_register d w = Inr w' \<Longrightarrow> oo_view w' = oo_view w"
  by (auto simp: oo_serialize_register_def Let_def bind_res_Inr_iff oo_simps split: if_splits option.splits
      dest!: view_dests [THEN oo_view_core])

lemma oo_serialize_inst_view [oo_dests]: "oo_serialize_inst d w = Inr w' \<Longrightarrow> oo_view w' = oo_view w"
  by (auto simp: oo_serialize_inst_def Let_def oo_simps split: if_splits dest!: oo_dests)

lemma cs_getResource_view [view_dests]:
  "cs_getResource x s w = Inr (u, s', w') \<Longrightarrow> co_view w' = co_view w"
  by (auto simp: cs_getResource_def cs_lru_def nth_res_Inr_iff Let_def bind_res_Inr_iff view_simps split: sched_policy.splits)

lemma oo_assign_view [oo_dests]:
  assumes "oo_assign d w = Inr w'"
  shows "oo_view w' = oo_view w"
proof -
  have u: "co_view (co_update d (\<lambda>x. x\<lparr>di_cluster := c, di_resource := u\<rparr>) v) = co_view v" for c u and v :: "'a ooo_scheme"
    by (rule co_view_update) (simp add: di_ident_def)
  show ?thesis
    using assms
    by (auto simp: oo_assign_def bind_res_Inr_iff oo_simps u [THEN oo_view_core] split: if_splits
        dest!: cs_getResource_view [THEN oo_view_core])
qed

section \<open>The instructions in the buffers\<close>

definition oo_all :: "'a ooo_scheme \<Rightarrow> nat list" where
  "oo_all w = fq_contents (oo_rROB w) @ fq_contents (oo_ROB w) @ rev (fq_pipe_in_cluster (oo_ROB w))"

definition oo_transient :: "'a ooo_scheme \<Rightarrow> nat \<Rightarrow> bool" where
  "oo_transient w d = di_isTransient (co_dinst d w)"

definition oo_has_dst :: "'a ooo_scheme \<Rightarrow> nat \<Rightarrow> bool" where
  "oo_has_dst w d = hasDstRegister (di_inst (co_dinst d w))"

definition oo_live :: "'a ooo_scheme \<Rightarrow> nat list" where
  "oo_live w = filter (\<lambda>d. \<not> oo_transient w d) (oo_all w)"

text \<open>Registers: the free ones, and one for each instruction with a destination in the buffers.\<close>

definition oo_regs :: "'a ooo_scheme \<Rightarrow> int" where
  "oo_regs w = oo_nTotalRegs w + int (length (filter (oo_has_dst w) (oo_all w)))"

definition oo_ok :: "'a ooo_scheme \<Rightarrow> bool" where
  "oo_ok w \<longleftrightarrow> fq_inv (oo_ROB w) \<and> fq_inv (oo_rROB w) \<and> (\<forall>d \<in> set (fq_contents (oo_rROB w)). \<not> oo_transient w d) \<and>
    (\<forall>d \<in> set (oo_all w). fl_flush_transient (di_flags (co_dinst d w)) \<longrightarrow> oo_transient w d)"

lemma oo_view_facts:
  assumes "oo_view w' = oo_view w"
  shows "oo_ROB w' = oo_ROB w" "oo_rROB w' = oo_rROB w" "oo_nTotalRegs w' = oo_nTotalRegs w"
    "oo_transient w' = oo_transient w" "oo_has_dst w' = oo_has_dst w"
    "oo_all w' = oo_all w" "oo_live w' = oo_live w" "oo_regs w' = oo_regs w" "oo_ok w' = oo_ok w"
    "oo_log w' = oo_log w" "ds_ident (co_store w') = ds_ident (co_store w)"
proof -
  show f: "oo_ROB w' = oo_ROB w" "oo_rROB w' = oo_rROB w" "oo_nTotalRegs w' = oo_nTotalRegs w"
    "oo_log w' = oo_log w" "ds_ident (co_store w') = ds_ident (co_store w)"
    using assms by (simp_all add: oo_view_def)
  have i: "di_ident (co_dinst d w') = di_ident (co_dinst d w)" for d
    using assms by (auto simp: oo_view_def co_dinst_def ds_ident_def fun_eq_iff)
  show t: "oo_transient w' = oo_transient w" and h: "oo_has_dst w' = oo_has_dst w"
    using i by (auto simp: oo_transient_def oo_has_dst_def di_isTransient_def di_ident_def fun_eq_iff)
  show a: "oo_all w' = oo_all w" by (simp add: oo_all_def f)
  show "oo_live w' = oo_live w" "oo_regs w' = oo_regs w" by (simp_all add: oo_live_def oo_regs_def t h a f)
  have m: "(fl_flush_transient (di_flags (co_dinst d w')) \<longrightarrow> oo_transient w' d) =
      (fl_flush_transient (di_flags (co_dinst d w)) \<longrightarrow> oo_transient w d)" for d
    using i [of d] by (auto simp: oo_transient_def di_isTransient_def di_ident_def)
  show "oo_ok w' = oo_ok w" by (simp add: oo_ok_def f a m [unfolded t] t)
qed

text \<open>
  \<open>oo_advances k r w w'\<close>: the first \<open>k\<close> live instructions have committed, the others are where they were, nothing was renamed, and the
  registers are as before, or fewer when \<open>r\<close> allows it.
\<close>

definition oo_advances :: "nat \<Rightarrow> bool \<Rightarrow> 'a ooo_scheme \<Rightarrow> 'a ooo_scheme \<Rightarrow> bool" where
  "oo_advances k r w w' \<longleftrightarrow> (oo_ok w \<longrightarrow> oo_ok w' \<and> oo_live w' = drop k (oo_live w) \<and>
    oo_log w' = (oo_renamed w, oo_committed w @ take k (oo_live w), oo_RetireWidth w) \<and>
    ds_ident (co_store w') = ds_ident (co_store w) \<and> oo_regs w' \<le> oo_regs w \<and>
    (\<not> r \<longrightarrow> oo_regs w' = oo_regs w \<and> fq_pipe_in_cluster (oo_ROB w') = fq_pipe_in_cluster (oo_ROB w)))"

lemma oo_advances_refl [simp]: "oo_advances 0 r w w"
  by (simp add: oo_advances_def oo_log_def)

lemma oo_advances_trans: "oo_advances j r w w' \<Longrightarrow> oo_advances k r w' w'' \<Longrightarrow> oo_advances (j + k) r w w''"
  by (auto simp: oo_advances_def oo_log_def take_add add.commute)

lemma oo_advances_weaken: "oo_advances k False w w' \<Longrightarrow> oo_advances k r w w'"
  by (simp add: oo_advances_def)

lemma oo_log_eqs:
  "oo_log w' = oo_log w \<longleftrightarrow>
    oo_renamed w' = oo_renamed w \<and> oo_committed w' = oo_committed w \<and> oo_RetireWidth w' = oo_RetireWidth w"
  by (auto simp: oo_log_def)

lemma oo_advances_view:
  assumes "oo_view w' = oo_view w"
  shows "oo_advances 0 r w w'"
  using oo_view_facts [OF assms] by (simp add: oo_advances_def) (simp add: oo_log_def)

lemma oo_advances_from:
  assumes "oo_view v = oo_view w" and "oo_advances k r v w'"
  shows "oo_advances k r w w'"
  using oo_view_facts [OF assms(1)] assms(2) by (simp add: oo_advances_def oo_log_eqs)

text \<open>Removing one instruction from the list: a transient one anywhere, with or without its register, or the first one by a commit.\<close>

lemma oo_advances_remove:
  assumes all: "oo_all w = xs @ d # ys" "oo_all w' = xs @ ys" and id: "ds_ident (co_store w') = ds_ident (co_store w)"
    and live: "oo_ok w \<Longrightarrow> if oo_transient w d then k = 0 else k = 1 \<and> xs = []"
    and log: "oo_log w' = (oo_renamed w, oo_committed w @ (if oo_transient w d then [] else [d]), oo_RetireWidth w)"
    and regs: "oo_nTotalRegs w' = oo_nTotalRegs w + (if b \<and> oo_has_dst w d then 1 else 0)" "\<not> r \<Longrightarrow> b"
    and inv: "oo_ok w \<Longrightarrow> fq_inv (oo_ROB w') \<and> fq_inv (oo_rROB w') \<and> set (fq_contents (oo_rROB w')) \<subseteq> set (fq_contents (oo_rROB w))"
    and side: "\<not> r \<Longrightarrow> fq_pipe_in_cluster (oo_ROB w') = fq_pipe_in_cluster (oo_ROB w)"
  shows "oo_advances k r w w'"
proof -
  have i: "di_ident (co_dinst x w') = di_ident (co_dinst x w)" for x
    using id by (auto simp: co_dinst_def ds_ident_def fun_eq_iff)
  have t: "oo_transient w' = oo_transient w" and h: "oo_has_dst w' = oo_has_dst w"
    using i by (auto simp: oo_transient_def oo_has_dst_def di_isTransient_def di_ident_def fun_eq_iff)
  have m: "(fl_flush_transient (di_flags (co_dinst d w')) \<longrightarrow> oo_transient w' d) =
      (fl_flush_transient (di_flags (co_dinst d w)) \<longrightarrow> oo_transient w d)" for d
    using i [of d] by (auto simp: oo_transient_def di_isTransient_def di_ident_def)
  show ?thesis
    unfolding oo_advances_def
  proof (intro impI conjI)
    assume ok: "oo_ok w"
    show "oo_ok w'" using ok inv all m t by (auto simp: oo_ok_def)
    show "ds_ident (co_store w') = ds_ident (co_store w)" by (rule id)
    show "oo_log w' = (oo_renamed w, oo_committed w @ take k (oo_live w), oo_RetireWidth w)"
      using live [OF ok] all log by (auto simp: oo_live_def split: if_splits)
    show "oo_live w' = drop k (oo_live w)" using live [OF ok] all t by (auto simp: oo_live_def split: if_splits)
    show "oo_regs w' \<le> oo_regs w" using all regs h by (auto simp: oo_regs_def)
    show "oo_regs w' = oo_regs w" if "\<not> r" using all regs h that by (auto simp: oo_regs_def)
    show "fq_pipe_in_cluster (oo_ROB w') = fq_pipe_in_cluster (oo_ROB w)" if "\<not> r" by (rule side [OF that])
  qed
qed

section \<open>Retirement\<close>

lemma fq_side:
  "fq_push q d = Inr q' \<Longrightarrow> fq_pipe_in_cluster q' = fq_pipe_in_cluster q"
  "fq_pop q = Inr q' \<Longrightarrow> fq_pipe_in_cluster q' = fq_pipe_in_cluster q"
  by (auto simp: fq_push_def fq_pop_def res_Inr_iffs)

lemma fq_top_contents:
  assumes "fq_inv q" and "\<not> fq_empty q" and "fq_top q = Inr d"
  shows "fq_contents q = d # tl (fq_contents q)"
  using fq_top_hd [OF assms(1)] assms by (simp add: fq_empty_contents)

lemma oo_give_reg_simps:
  "co_view (oo_give_reg d w) = co_view (w\<lparr>oo_nTotalRegs := oo_nTotalRegs w + (if oo_has_dst w d then 1 else 0)\<rparr>)"
  "oo_ROB (oo_give_reg d w) = oo_ROB w" "oo_rROB (oo_give_reg d w) = oo_rROB w" "oo_log (oo_give_reg d w) = oo_log w"
  "co_store (oo_give_reg d w) = co_store w"
  "oo_nTotalRegs (oo_give_reg d w) = oo_nTotalRegs w + (if oo_has_dst w d then 1 else 0)"
  by (auto simp: oo_give_reg_def oo_take_reg_def oo_has_dst_def co_view_def oo_log_def)

lemma oo_view_eqs:
  "oo_view w' = oo_view w \<longleftrightarrow> oo_ROB w' = oo_ROB w \<and> oo_rROB w' = oo_rROB w \<and> oo_nTotalRegs w' = oo_nTotalRegs w \<and>
    oo_log w' = oo_log w \<and> ds_ident (co_store w') = ds_ident (co_store w)"
  by (auto simp: oo_view_def)

lemma oo_retire_transient_advances:
  assumes run: "oo_retire_transient d w = Inr w'" and top: "fq_top (oo_ROB w) = Inr d" "\<not> fq_empty (oo_ROB w)"
    and tr: "oo_ok w \<Longrightarrow> oo_transient w d"
  shows "oo_advances 0 r w w'"
proof (cases "oo_ok w")
  case ok: True
  obtain w1 w2 w3 q where w1: "oo_mark_dead d w = Inr w1" and w2: "oo_drop d w1 = Inr w2"
    and w3: "co_with_store (di_destroyTransientInst (co_self w2) d) (oo_give_reg d w2) = Inr w3"
    and q: "fq_pop (oo_ROB w3) = Inr q" "w' = w3\<lparr>oo_ROB := q\<rparr>"
    using run by (auto simp: oo_retire_transient_def oo_pop_ROB_def bind_res_Inr_iff)
  have v2: "oo_view w2 = oo_view w"
    using oo_mark_dead_view [OF w1, THEN oo_view_core] oo_drop_view [OF w2, THEN oo_view_core] by simp
  have v3: "oo_view w3 = oo_view (oo_give_reg d w2)" by (rule oo_view_core, rule co_view_stores(3) [OF w3])
  have f: "oo_ROB w3 = oo_ROB w" "oo_rROB w3 = oo_rROB w" "oo_log w3 = oo_log w" "ds_ident (co_store w3) = ds_ident (co_store w)"
    "oo_nTotalRegs w3 = oo_nTotalRegs w + (if oo_has_dst w d then 1 else 0)"
    using v2 v3 oo_view_facts(5) [OF v2] by (simp_all add: oo_view_eqs oo_give_reg_simps)
  have inv: "fq_inv (oo_ROB w)" "fq_inv (oo_rROB w)" using ok by (simp_all add: oo_ok_def)
  note p = fq_pop_Inr [OF inv(1) q(1) [unfolded f(1)]] fq_side(2) [OF q(1) [unfolded f(1)]]
  note c = fq_top_contents [OF inv(1) top(2,1)]
  show ?thesis
  proof (rule oo_advances_remove [where b = True and d = d])
    show "oo_all w = fq_contents (oo_rROB w) @ d # (tl (fq_contents (oo_ROB w)) @ rev (fq_pipe_in_cluster (oo_ROB w)))"
      by (subst c) (simp add: oo_all_def, subst c, simp)
    show "oo_all w' = fq_contents (oo_rROB w) @ tl (fq_contents (oo_ROB w)) @ rev (fq_pipe_in_cluster (oo_ROB w))"
      by (simp add: oo_all_def q(2) f p)
  qed (use f p inv tr [OF ok] q(2) in \<open>simp_all add: oo_log_def\<close>)
qed (simp add: oo_advances_def)

lemma oo_pnr_move_advances:
  assumes top: "fq_top (oo_ROB w) = Inr d" "\<not> fq_empty (oo_ROB w)" and q: "fq_push (oo_rROB w) d = Inr q"
    and run: "oo_pop_ROB (w\<lparr>oo_rROB := q\<rparr>) = Inr w'" and live: "\<not> oo_transient w d"
  shows "oo_advances 0 r w w'"
proof (cases "oo_ok w")
  case ok: True
  obtain q' where q': "fq_pop (oo_ROB w) = Inr q'" "w' = w\<lparr>oo_rROB := q, oo_ROB := q'\<rparr>"
    using run by (auto simp: oo_pop_ROB_def bind_res_Inr_iff)
  have inv: "fq_inv (oo_ROB w)" "fq_inv (oo_rROB w)" using ok by (simp_all add: oo_ok_def)
  note p = fq_pop_Inr [OF inv(1) q'(1)] fq_side(2) [OF q'(1)] fq_push_Inr [OF inv(2) q]
  have all: "oo_all w' = oo_all w"
    using p fq_top_contents [OF inv(1) top(2,1)] by (simp add: oo_all_def q'(2))
  have "oo_transient w' = oo_transient w" "oo_has_dst w' = oo_has_dst w" "\<And>d. co_dinst d w' = co_dinst d w"
    "oo_nTotalRegs w' = oo_nTotalRegs w"
    by (simp_all add: oo_transient_def [abs_def] oo_has_dst_def [abs_def] co_dinst_def q'(2))
  then show ?thesis using all ok p live by (simp add: oo_advances_def oo_ok_def oo_live_def oo_regs_def oo_log_def q'(2))
qed (simp add: oo_advances_def)

lemma oo_pnr_loop_advances: "oo_pnr_loop n w = Inr w' \<Longrightarrow> oo_advances 0 r w w'"
proof (induction n arbitrary: w)
  case 0
  then show ?case by (simp split: if_splits)
next
  case (Suc n)
  show ?case
  proof (cases "fq_empty (oo_ROB w)")
    case True
    then show ?thesis using Suc.prems by simp
  next
    case ne: False
    obtain d w1 b1 where d: "fq_top (oo_ROB w) = Inr d"
      and w1: "co_resource_of d (\<lambda>u. fu_preretire u d (co_flushing w) w) w = Inr (b1, w1)"
      and rest: "(if \<not> b1 then Inr w1
         else assert_res (di_cluster (co_dinst d w1) \<noteq> None) (
           bind_res (if di_isTransient (co_dinst d w1) then co_cluster_of d (\<lambda>c. cl_retire c d w1) w1 else Inr (True, w1))
            (\<lambda>(done, w).
              if \<not> done then Inr w
              else if fl_flush_transient (di_flags (co_dinst d w)) \<or> di_isTransient (co_dinst d w)
              then bind_res (oo_retire_transient d w) (oo_pnr_loop n)
              else bind_res (fq_push (oo_rROB w) d) (\<lambda>q.
                   bind_res (oo_pop_ROB (w\<lparr>oo_rROB := q\<rparr>)) (oo_pnr_loop n))))) = Inr w'"
      using Suc.prems ne by (simp only: oo_pnr_loop.simps if_False) (auto simp: bind_res_Inr_iff assert_res_Inr_iff)
    have v1: "oo_view w1 = oo_view w"
      using w1 by (auto simp: co_resource_of_def deref_Inr_iff dest!: fu_preretire_view [THEN oo_view_core])
    show ?thesis
    proof (cases b1)
      case False
      then show ?thesis using rest v1 by (simp add: oo_advances_view)
    next
      case True
      obtain b2 w2 where w2: "(if di_isTransient (co_dinst d w1) then co_cluster_of d (\<lambda>c. cl_retire c d w1) w1 else Inr (True, w1)) = Inr (b2, w2)"
        and rest2: "(if \<not> b2 then Inr w2
              else if fl_flush_transient (di_flags (co_dinst d w2)) \<or> di_isTransient (co_dinst d w2)
              then bind_res (oo_retire_transient d w2) (oo_pnr_loop n)
              else bind_res (fq_push (oo_rROB w2) d) (\<lambda>q.
                   bind_res (oo_pop_ROB (w2\<lparr>oo_rROB := q\<rparr>)) (oo_pnr_loop n))) = Inr w'"
        using rest True by (simp only: bind_res_Inr_iff assert_res_Inr_iff not_True_eq_False if_False) auto
      have v2: "oo_view w2 = oo_view w"
        using w2 v1 by (auto simp: co_cluster_of_def deref_Inr_iff split: if_splits dest!: cl_retire_view [THEN oo_view_core])
      note f2 = oo_view_facts [OF v2]
      have d2: "fq_top (oo_ROB w2) = Inr d" "\<not> fq_empty (oo_ROB w2)" using d ne f2 by simp_all
      have "oo_advances 0 r w2 w'"
      proof (cases "b2 \<and> (fl_flush_transient (di_flags (co_dinst d w2)) \<or> di_isTransient (co_dinst d w2))")
        case go: True
        then obtain w3 where w3: "oo_retire_transient d w2 = Inr w3" "oo_pnr_loop n w3 = Inr w'"
          using rest2 by (auto simp: bind_res_Inr_iff)
        have tr: "oo_transient w2 d" if ok: "oo_ok w2"
        proof -
          have "fq_contents (oo_ROB w2) = d # tl (fq_contents (oo_ROB w2))"
            using fq_top_contents [OF _ d2(2,1)] ok by (simp add: oo_ok_def)
          then have "d \<in> set (oo_all w2)" using list.set_intros(1) by (metis Un_iff oo_all_def set_append)
          then show ?thesis using ok go by (auto simp: oo_ok_def oo_transient_def)
        qed
        show ?thesis
          using oo_advances_trans [OF oo_retire_transient_advances [OF w3(1) d2 tr] Suc.IH [OF w3(2)]] by simp
      next
        case stay: False
        show ?thesis
        proof (cases b2)
          case True
          have tr2: "\<not> oo_transient w2 d" using stay True by (simp add: oo_transient_def)
          from True obtain q w3 where q: "fq_push (oo_rROB w2) d = Inr q" "oo_pop_ROB (w2\<lparr>oo_rROB := q\<rparr>) = Inr w3"
            "oo_pnr_loop n w3 = Inr w'"
            using rest2 stay by (auto simp: bind_res_Inr_iff)
          show ?thesis using oo_advances_trans [OF oo_pnr_move_advances [OF d2 q(1,2) tr2] Suc.IH [OF q(3)]] by simp
        next
          case False
          then show ?thesis using rest2 by simp
        qed
      qed
      then show ?thesis by (rule oo_advances_from [OF v2])
    qed
  qed
qed

section \<open>Commit\<close>

lemma oo_forget_view [oo_simps]: "oo_view (oo_forget_serialized d w) = oo_view w"
  by (simp add: oo_forget_serialized_def Let_def oo_simps)

lemma oo_destroy_if_view [oo_dests]: "oo_destroy_if P d w = Inr w' \<Longrightarrow> oo_view w' = oo_view w"
  by (auto simp: oo_destroy_if_def split: if_splits dest!: co_view_stores(2) [THEN oo_view_core])

lemma oo_commit_advances:
  assumes run: "oo_commit d w = Inr w'" and top: "fq_top (oo_rROB w) = Inr d" "\<not> fq_empty (oo_rROB w)"
  shows "oo_advances 1 r w w'"
proof (cases "oo_ok w")
  case ok: True
  define w1 where "w1 = (if fl_replay (di_flags (co_dinst d w))
              then w\<lparr>co_flushing := True, oo_flushing_fid := di_fid (co_dinst d w)\<rparr> else w)"
  define wm where "wm = co_update d di_mark_retired (oo_give_reg d w1)"
  define wc where "wc = wm\<lparr>oo_committed := oo_committed wm @ [d]\<rparr>"
  obtain w2 w3 w4 q where w2: "oo_destroy_if (\<lambda>x. fl_performed (di_flags x) \<and> \<not> isLoad (di_inst x)) d wc = Inr w2"
    and w3: "oo_destroy_if (\<lambda>x. fl_performed (di_flags x) \<and> fl_to_be_load_scb_all (di_flags x)) d w2 = Inr w3"
    and w4: "oo_destroy_if (\<lambda>x. di_is_load_destroyed_retired_spec x \<and> di_is_load_destroyed_retired_safe_write x) d w3 = Inr w4"
    and q: "fq_pop (oo_rROB w4) = Inr q" "w' = w4\<lparr>oo_rROB := q\<rparr>"
    using run by (auto simp only: oo_commit_def Let_def bind_res_Inr_iff assert_res_Inr_iff w1_def wm_def wc_def Inr_inject)
  have v1: "oo_view w1 = oo_view w" by (simp add: w1_def oo_simps)
  have vm: "oo_view wm = oo_view (oo_give_reg d w1)" by (simp add: wm_def oo_simps)
  have v4: "oo_view w4 = oo_view wc"
    using w2 w3 w4 by (auto simp: oo_simps dest!: oo_destroy_if_view)
  have f: "oo_ROB w4 = oo_ROB w" "oo_rROB w4 = oo_rROB w" "ds_ident (co_store w4) = ds_ident (co_store w)"
    "oo_nTotalRegs w4 = oo_nTotalRegs w + (if oo_has_dst w d then 1 else 0)"
    "oo_log w4 = (oo_renamed w, oo_committed w @ [d], oo_RetireWidth w)"
    using v4 vm v1 oo_view_facts(5) [OF v1] by (simp_all add: oo_view_eqs oo_give_reg_simps oo_log_eqs wc_def)
      (simp_all add: oo_log_def)
  have inv: "fq_inv (oo_ROB w)" "fq_inv (oo_rROB w)" using ok by (simp_all add: oo_ok_def)
  note p = fq_pop_Inr [OF inv(2) q(1) [unfolded f(2)]]
  note c = fq_top_contents [OF inv(2) top(2,1)]
  have "d \<in> set (fq_contents (oo_rROB w))" by (subst c) simp
  then have live: "\<not> oo_transient w d" using ok by (simp add: oo_ok_def)
  show ?thesis
  proof (rule oo_advances_remove [where b = True and d = d and xs = "[]"])
    show "oo_all w = [] @ d # (tl (fq_contents (oo_rROB w)) @ fq_contents (oo_ROB w) @ rev (fq_pipe_in_cluster (oo_ROB w)))"
      by (simp add: oo_all_def, subst c, simp)
    show "oo_all w' = [] @ tl (fq_contents (oo_rROB w)) @ fq_contents (oo_ROB w) @ rev (fq_pipe_in_cluster (oo_ROB w))"
      by (simp add: oo_all_def q(2) f p)
    show "fq_inv (oo_ROB w') \<and> fq_inv (oo_rROB w') \<and> set (fq_contents (oo_rROB w')) \<subseteq> set (fq_contents (oo_rROB w))"
      using p inv by (simp add: f q(2)) (metis c list.set_intros(2) subsetI)
    show "oo_log w' = (oo_renamed w, oo_committed w @ (if oo_transient w d then [] else [d]), oo_RetireWidth w)"
      using f(5) live by (simp add: oo_log_def q(2))
  qed (use f p inv q(2) live in simp_all)
qed (simp add: oo_advances_def)

lemma oo_commit_loop_advances: "oo_commit_loop n w = Inr w' \<Longrightarrow> \<exists>k \<le> n. oo_advances k r w w'"
proof (induction n arbitrary: w)
  case 0
  then show ?case by simp
next
  case (Suc n)
  show ?case
  proof (cases "fq_empty (oo_rROB w)")
    case True
    then show ?thesis using Suc.prems by (intro exI [of _ 0]) simp
  next
    case ne: False
    obtain d where d: "fq_top (oo_rROB w) = Inr d"
      and rest: "(let w = oo_forget_serialized d (co_update d di_mark_rrob w)
       in if di_executed (co_dinst d w) + word_of_int (oo_RetireDelay w) \<ge> co_clock w then Inr w
          else assert_res (\<not> di_is_spec (co_dinst d w) \<longrightarrow> di_cluster (co_dinst d w) \<noteq> None) (
            bind_res (co_cluster_of d (\<lambda>c. cl_retire c d w) w) (\<lambda>(done, w).
              if \<not> done then Inr w else bind_res (oo_commit d w) (oo_commit_loop n)))) = Inr w'"
      using Suc.prems ne by (simp only: oo_commit_loop.simps if_False) (auto simp: bind_res_Inr_iff)
    define w1 where "w1 = oo_forget_serialized d (co_update d di_mark_rrob w)"
    have v1: "oo_view w1 = oo_view w" by (simp add: w1_def oo_simps)
    show ?thesis
    proof (cases "di_executed (co_dinst d w1) + word_of_int (oo_RetireDelay w1) \<ge> co_clock w1")
      case True
      then have "w' = w1" using rest by (simp only: w1_def [symmetric] Let_def if_True) simp
      then show ?thesis using v1 by (intro exI [of _ 0]) (simp add: oo_advances_view)
    next
      case False
      then obtain b w2 where w2: "co_cluster_of d (\<lambda>c. cl_retire c d w1) w1 = Inr (b, w2)"
        and rest2: "(if \<not> b then Inr w2 else bind_res (oo_commit d w2) (oo_commit_loop n)) = Inr w'"
        using rest by (simp only: w1_def [symmetric] Let_def if_False) (auto simp: bind_res_Inr_iff assert_res_Inr_iff)
      have v2: "oo_view w2 = oo_view w"
        using w2 v1 by (auto simp: co_cluster_of_def deref_Inr_iff dest!: cl_retire_view [THEN oo_view_core])
      show ?thesis
      proof (cases b)
        case False
        then show ?thesis using rest2 v2 by (intro exI [of _ 0]) (simp add: oo_advances_view)
      next
        case True
        then obtain w3 where w3: "oo_commit d w2 = Inr w3" "oo_commit_loop n w3 = Inr w'"
          using rest2 by (auto simp: bind_res_Inr_iff)
        have t2: "fq_top (oo_rROB w2) = Inr d" "\<not> fq_empty (oo_rROB w2)" using d ne oo_view_facts [OF v2] by simp_all
        obtain k where "oo_advances 1 r w2 w3" "k \<le> n" "oo_advances k r w3 w'"
          using oo_commit_advances [OF w3(1) t2] Suc.IH [OF w3(2)] by blast
        then have "1 + k \<le> Suc n" "oo_advances (1 + k) r w w'"
          using oo_advances_from [OF v2 oo_advances_trans] by (simp, blast)
        then show ?thesis by blast
      qed
    qed
  qed
qed

lemma oo_retire_advances:
  assumes "oo_retire w = Inr w'"
  shows "\<exists>k. (oo_ok w \<longrightarrow> k \<le> nat (oo_RetireWidth w)) \<and> oo_advances k False w w'"
proof -
  obtain w1 where w1: "oo_pnr_loop (fq_size (oo_ROB w)) w = Inr w1" "oo_commit_loop (nat (oo_RetireWidth w1)) w1 = Inr w'"
    using assms by (auto simp: oo_retire_def bind_res_Inr_iff)
  have p: "oo_advances 0 False w w1" by (rule oo_pnr_loop_advances [OF w1(1)])
  obtain k where k: "k \<le> nat (oo_RetireWidth w1)" "oo_advances k False w1 w'" using oo_commit_loop_advances [OF w1(2)] by blast
  have "oo_ok w \<longrightarrow> oo_RetireWidth w1 = oo_RetireWidth w" using p by (simp add: oo_advances_def oo_log_def)
  then show ?thesis using k oo_advances_trans [OF p k(2)] by auto
qed

section \<open>Rename\<close>

lemma oo_take_reg_simps:
  "oo_ROB (oo_take_reg n d w) = oo_ROB w" "oo_rROB (oo_take_reg n d w) = oo_rROB w"
  "co_store (oo_take_reg n d w) = co_store w" "oo_renamed (oo_take_reg n d w) = oo_renamed w"
  "oo_committed (oo_take_reg n d w) = oo_committed w" "oo_RetireWidth (oo_take_reg n d w) = oo_RetireWidth w"
  "oo_nTotalRegs (oo_take_reg n d w) = oo_nTotalRegs w + (if oo_has_dst w d then n else 0)"
  by (auto simp: oo_take_reg_def oo_has_dst_def)

lemma oo_insert_appends:
  assumes run: "oo_insert d w = Inr w'"
  shows "\<exists>q. fq_push (oo_ROB w) d = Inr q \<and> oo_ROB w' = q \<and> oo_rROB w' = oo_rROB w \<and>
    oo_nTotalRegs w' = oo_nTotalRegs w - (if oo_has_dst w d then 1 else 0) \<and>
    oo_log w' = (oo_renamed w @ [d], oo_committed w, oo_RetireWidth w) \<and> ds_ident (co_store w') = ds_ident (co_store w)"
proof -
  let ?w0 = "oo_take_reg (- 1) d w"
  obtain w1 q spec w2 w3 w4 where w1: "oo_serialize_inst d ?w0 = Inr w1" and q: "fq_push (oo_ROB w1) d = Inr q"
    and w2: "w2 = (if spec then co_update d di_set_spec (w1\<lparr>oo_ROB := q\<rparr>) else w1\<lparr>oo_ROB := q\<rparr>)"
    and w3: "w3 = co_update d di_set_present_in_rob w2" and w4: "oo_rename d w3 = Inr w4"
    and w': "w' = w4\<lparr>oo_renamed := oo_renamed w4 @ [d]\<rparr>"
    using run by (auto simp only: oo_insert_def Let_def bind_res_Inr_iff assert_res_Inr_iff Inr_inject)
  have v1: "oo_view w1 = oo_view ?w0" by (rule oo_serialize_inst_view [OF w1])
  have "oo_view w2 = oo_view (w1\<lparr>oo_ROB := q\<rparr>)" by (simp add: w2 oo_simps)
  moreover have "oo_view w3 = oo_view w2" by (simp add: w3 oo_simps)
  moreover have "oo_view w4 = oo_view w3" by (rule oo_rename_view [OF w4, THEN oo_view_core])
  ultimately show ?thesis
    using v1 q by (simp add: oo_view_eqs oo_log_eqs oo_take_reg_simps w') (simp add: oo_log_def)
qed

lemma oo_add_inst_cases:
  assumes run: "oo_add_inst d w = Inr (sc, w')"
  shows "sc \<noteq> NoStall \<and> oo_view w' = oo_view w \<or>
    (sc = NoStall \<and> (\<exists>q. fq_push (oo_ROB w) d = Inr q \<and> oo_ROB w' = q \<and> oo_rROB w' = oo_rROB w \<and>
      oo_nTotalRegs w' = oo_nTotalRegs w - (if oo_has_dst w d then 1 else 0) \<and>
      oo_log w' = (oo_renamed w @ [d], oo_committed w, oo_RetireWidth w) \<and> ds_ident (co_store w') = ds_ident (co_store w)))"
proof (cases "oo_view w' = oo_view w \<and> sc \<noteq> NoStall")
  case False
  obtain w1 sc2 w2 where w1: "oo_assign d w = Inr w1"
    and w2: "co_cluster_of d (\<lambda>c. cl_canIssue c d w1) w1 = Inr (sc2, w2)"
    and w': "(if sc2 \<noteq> NoStall then Inr (sc2, w2) else bind_res (oo_insert d w2) (\<lambda>w. Inr (NoStall, w))) = Inr (sc, w')"
    using run False by (auto simp: oo_add_inst_def bind_res_Inr_iff split: if_splits)
  have v2: "oo_view w2 = oo_view w"
    using w2 oo_assign_view [OF w1] by (auto simp: co_cluster_of_def deref_Inr_iff dest!: cl_canIssue_view [THEN oo_view_core])
  have "sc2 = NoStall" using w' v2 False by (auto split: if_splits)
  then have "oo_insert d w2 = Inr w'" "sc = NoStall" using w' by (auto simp: bind_res_Inr_iff)
  then show ?thesis using oo_insert_appends [of d w2 w'] oo_view_facts [OF v2] v2 by (simp add: oo_view_eqs oo_log_eqs)
qed simp

section \<open>Flush\<close>

lemma fq_side_push:
  "fq_contents (fq_push_pipe_in_cluster q d) = fq_contents q"
  "fq_inv (fq_push_pipe_in_cluster q d) = fq_inv q"
  "fq_pipe_in_cluster (fq_push_pipe_in_cluster q d) = fq_pipe_in_cluster q @ [d]"
  "fq_empty (fq_push_pipe_in_cluster q d) = fq_empty q"
  by (simp_all add: fq_push_pipe_in_cluster_def fq_contents_def fq_inv_def fq_capacity_def fq_empty_def)

lemma fq_side_pop_back: "fq_pipe_in_cluster (fq_pop_from_back q) = fq_pipe_in_cluster q"
  by (simp add: fq_pop_from_back_def)

lemma oo_keep_simps:
  "oo_ROB (oo_keep d w) = fq_push_pipe_in_cluster (oo_ROB w) d" "oo_rROB (oo_keep d w) = oo_rROB w"
  "oo_nTotalRegs (oo_keep d w) = oo_nTotalRegs w" "oo_log (oo_keep d w) = oo_log w" "co_store (oo_keep d w) = co_store w"
  by (simp_all add: oo_keep_def oo_log_def)

lemma oo_add_cluster_reg_view [view_dests]: "oo_add_cluster_reg d w = Inr w' \<Longrightarrow> co_view w' = co_view w"
  by (auto simp: oo_add_cluster_reg_def co_cluster_of_def deref_Inr_iff view_simps)

text \<open>Each instruction at the back of the buffer is kept in the side vector, or leaves with its register, or is lost.\<close>

lemma oo_keep_cong: "oo_view v = oo_view w \<Longrightarrow> oo_view (oo_keep d v) = oo_view (oo_keep d w)"
  by (simp add: oo_view_eqs oo_keep_simps)

lemma oo_give_reg_cong: "oo_view v = oo_view w \<Longrightarrow> oo_view (oo_give_reg d v) = oo_view (oo_give_reg d w)"
  using oo_view_facts(5) [of v w] by (simp add: oo_view_eqs oo_give_reg_simps)

lemma oo_flush_pending_keeps: "oo_flush_pending d w = Inr w' \<Longrightarrow> oo_view w' = oo_view (oo_keep d w)"
  by (auto simp: oo_flush_pending_def bind_res_Inr_iff co_cluster_of_def deref_Inr_iff oo_simps split: if_splits
      dest!: view_dests [THEN oo_view_core] intro!: oo_keep_cong)

lemma oo_flush_executed_gives: "oo_flush_executed d w = Inr w' \<Longrightarrow> oo_view w' = oo_view (oo_give_reg d w)"
  by (auto simp: oo_flush_executed_def bind_res_Inr_iff co_cluster_of_def deref_Inr_iff Let_def oo_try_flush_def
      split: if_splits dest!: view_dests [THEN oo_view_core] intro!: oo_give_reg_cong)

lemma oo_flush_one_cases:
  assumes "oo_flush_one d w = Inr w'"
  shows "oo_view w' = oo_view (oo_keep d w) \<or> (oo_transient w d \<and> (oo_view w' = oo_view (oo_give_reg d w) \<or> oo_view w' = oo_view w))"
proof (cases "oo_transient w d")
  case False
  then show ?thesis using assms by (simp add: oo_flush_one_def oo_transient_def)
next
  case True
  obtain w1 where w1: "co_with_store (di_clearRATEntry d) w = Inr w1"
    and rest: "(let w = co_update d di_mark_destroy_transient w1; x = co_dinst d w
       in if \<not> fl_retired (di_flags x) \<and> di_isExecuted x then oo_flush_executed d w
          else if di_isExecuting x \<or> di_isIssued x
          then if fl_try_flush_transient (di_flags x) then Inr (oo_keep d w)
               else oo_flush_pending d (co_update d di_mark_flush_transient w)
          else if di_isRenamed x
          then if fl_try_flush_transient (di_flags x) then Inr (oo_keep d w) else oo_flush_pending d w
          else Inr w) = Inr w'"
    using assms True by (auto simp: oo_flush_one_def oo_transient_def bind_res_Inr_iff)
  define w2 where "w2 = co_update d di_mark_destroy_transient w1"
  have v2: "oo_view w2 = oo_view w"
    using co_view_stores(1) [OF w1, THEN oo_view_core] by (simp add: w2_def oo_simps)
  have t2: "di_isTransient (co_dinst d w2)" using True oo_view_facts(4) [OF v2] by (simp add: oo_transient_def fun_eq_iff)
  have m: "oo_view (co_update d di_mark_flush_transient w2) = oo_view w2"
    by (rule oo_view_core, rule co_view_mark_flush [OF t2])
  have k: "oo_view (oo_keep d v) = oo_view (oo_keep d w)" if "oo_view v = oo_view w" for v
    using that by (simp add: oo_view_eqs oo_keep_simps)
  have g: "oo_view (oo_give_reg d w2) = oo_view (oo_give_reg d w)"
    using v2 oo_view_facts(5) [OF v2] by (simp add: oo_view_eqs oo_give_reg_simps)
  show ?thesis
    using rest True k [OF v2] k [OF trans [OF m v2]] g v2 unfolding w2_def [symmetric] Let_def
    by (auto split: if_splits dest!: oo_flush_pending_keeps oo_flush_executed_gives)
qed

lemma oo_flush_step_advances:
  assumes run: "oo_flush_one d w = Inr w1" and d: "fq_end_data (oo_ROB w) = Inr d" and ne: "\<not> fq_empty (oo_ROB w)"
  shows "oo_advances 0 True w (oo_pop_back_ROB w1)"
proof (cases "oo_ok w")
  case ok: True
  have inv: "fq_inv (oo_ROB w)" "fq_inv (oo_rROB w)" using ok by (simp_all add: oo_ok_def)
  have ne': "fq_contents (oo_ROB w) \<noteq> []" using ne by (simp add: fq_empty_contents)
  have c: "fq_contents (oo_ROB w) = butlast (fq_contents (oo_ROB w)) @ [d]"
    using fq_end_data_last [OF inv(1) ne'] d ne' by simp
  let ?pre = "fq_contents (oo_rROB w) @ butlast (fq_contents (oo_ROB w))"
  let ?post = "rev (fq_pipe_in_cluster (oo_ROB w))"
  have all: "oo_all w = ?pre @ d # ?post" by (simp add: oo_all_def, subst c, simp)
  note bk = fq_pop_from_back_refines [OF inv(1) ne'] fq_side_pop_back
  consider "oo_view w1 = oo_view (oo_keep d w)"
    | b where "oo_transient w d" "oo_ROB w1 = oo_ROB w" "oo_rROB w1 = oo_rROB w"
        "oo_nTotalRegs w1 = oo_nTotalRegs w + (if b \<and> oo_has_dst w d then 1 else 0)"
        "oo_log w1 = oo_log w" "ds_ident (co_store w1) = ds_ident (co_store w)"
    using oo_flush_one_cases [OF run] that(1) that(2) [of True] that(2) [of False]
    by (auto simp: oo_view_eqs oo_give_reg_simps)
  then show ?thesis
  proof cases
    case 1
    let ?q = "fq_push_pipe_in_cluster (oo_ROB w) d"
    have e: "fq_pop_from_back ?q = fq_push_pipe_in_cluster (fq_pop_from_back (oo_ROB w)) d"
      by (simp add: fq_pop_from_back_def fq_push_pipe_in_cluster_def)
    have f: "oo_ROB (oo_pop_back_ROB w1) = fq_push_pipe_in_cluster (fq_pop_from_back (oo_ROB w)) d"
      "oo_rROB (oo_pop_back_ROB w1) = oo_rROB w" "oo_nTotalRegs (oo_pop_back_ROB w1) = oo_nTotalRegs w"
      "ds_ident (co_store (oo_pop_back_ROB w1)) = ds_ident (co_store w)" "oo_log (oo_pop_back_ROB w1) = oo_log w"
      using 1 by (simp_all add: oo_pop_back_ROB_def oo_view_eqs oo_keep_simps e)
    have a: "oo_all (oo_pop_back_ROB w1) = oo_all w"
      unfolding all by (simp add: oo_all_def f fq_side_push bk)
    have i: "di_ident (co_dinst x (oo_pop_back_ROB w1)) = di_ident (co_dinst x w)" for x
      using f(4) by (auto simp: co_dinst_def ds_ident_def fun_eq_iff)
    have t: "oo_transient (oo_pop_back_ROB w1) = oo_transient w" and h: "oo_has_dst (oo_pop_back_ROB w1) = oo_has_dst w"
      using i by (auto simp: oo_transient_def oo_has_dst_def di_isTransient_def di_ident_def fun_eq_iff)
    have m: "(fl_flush_transient (di_flags (co_dinst x (oo_pop_back_ROB w1))) \<longrightarrow> oo_transient (oo_pop_back_ROB w1) x) =
        (fl_flush_transient (di_flags (co_dinst x w)) \<longrightarrow> oo_transient w x)" for x
      using i [of x] by (auto simp: oo_transient_def di_isTransient_def di_ident_def)
    have "oo_ok (oo_pop_back_ROB w1)" using ok a m [unfolded t] t f bk by (simp add: oo_ok_def fq_side_push)
    then show ?thesis using a t h f by (simp add: oo_advances_def oo_live_def oo_regs_def) (simp add: oo_log_def)
  next
    case (2 b)
    show ?thesis
    proof (rule oo_advances_remove [where b = b and d = d, OF all])
      show "oo_all (oo_pop_back_ROB w1) = ?pre @ ?post" using 2 bk by (simp add: oo_all_def oo_pop_back_ROB_def)
    qed (use 2 bk inv in \<open>simp_all add: oo_pop_back_ROB_def oo_log_def\<close>)
  qed
qed (simp add: oo_advances_def)

lemma oo_flush_loop_advances: "oo_flush_loop n w = Inr w' \<Longrightarrow> oo_advances 0 True w w' \<and> fq_empty (oo_ROB w')"
proof (induction n arbitrary: w)
  case 0
  then show ?case by (simp split: if_splits)
next
  case (Suc n)
  show ?case
  proof (cases "fq_empty (oo_ROB w)")
    case True
    then show ?thesis using Suc.prems by simp
  next
    case False
    obtain d w1 where d: "fq_end_data (oo_ROB w) = Inr d" and w1: "oo_flush_one d w = Inr w1"
      and rest: "oo_flush_loop n (oo_pop_back_ROB w1) = Inr w'"
      using Suc.prems False by (auto simp: bind_res_Inr_iff)
    show ?thesis
      using oo_advances_trans [OF oo_flush_step_advances [OF w1 d False]] Suc.IH [OF rest] by force
  qed
qed

lemma oo_flush_done_cases:
  assumes "oo_flush_done d w = Inr w'"
  shows "oo_view w' = oo_view w \<or> oo_view w' = oo_view (oo_give_reg d w)"
proof -
  obtain c where c: "(if cp_windowSize (co_pool w c) \<ge> cp_MaxWinSize (co_pool w c) - 1 then Inr w
      else bind_res (if hasDstRegister (di_inst (co_dinst d w)) \<and> \<not> fl_try_flush_transient (di_flags (co_dinst d w))
                     then oo_add_cluster_reg d w else Inr w) (\<lambda>w.
           bind_res (co_with_store (di_clearRATEntry d) (co_update d (di_markExecutedTransient (co_clock w)) w)) (\<lambda>w.
           bind_res (cl_try_flushed c d w) (\<lambda>w.
             let w = oo_try_flush d w
             in bind_res (if fl_del_entry (di_flags (co_dinst d w)) then Inr w else cl_del_entry_flush c d w) (\<lambda>w.
                  co_with_store (di_destroyTransientInst (co_self w) d) w))))) = Inr w'"
    using assms by (auto simp: oo_flush_done_def co_cluster_of_def deref_Inr_iff)
  show ?thesis
  proof (cases "cp_windowSize (co_pool w c) \<ge> cp_MaxWinSize (co_pool w c) - 1")
    case True
    then show ?thesis using c by simp
  next
    case False
    then have "oo_view w' = oo_view (oo_give_reg d w)"
      using c
      by (auto simp: bind_res_Inr_iff Let_def oo_simps oo_try_flush_def split: if_splits
          dest!: view_dests [THEN oo_view_core] intro!: oo_give_reg_cong)
    then show ?thesis by simp
  qed
qed

lemma oo_return_step_advances:
  assumes run: "oo_return_one d w = Inr w1" and d: "fq_pipe_in_cluster (oo_ROB w) = side @ [d]"
    and q: "fq_pop_pipe_in_cluster (oo_ROB w1) = Inr q"
  shows "oo_advances 0 True w (w1\<lparr>oo_ROB := q\<rparr>)"
proof (cases "oo_ok w")
  case ok: True
  have inv: "fq_inv (oo_ROB w)" "fq_inv (oo_rROB w)" using ok by (simp_all add: oo_ok_def)
  let ?w' = "w1\<lparr>oo_ROB := q\<rparr>"
  have qf: "fq_contents q = fq_contents (oo_ROB w1)" "fq_inv q = fq_inv (oo_ROB w1)"
    "fq_pipe_in_cluster q = butlast (fq_pipe_in_cluster (oo_ROB w1))"
    using q by (auto simp: fq_pop_pipe_in_cluster_def fq_contents_def fq_inv_def fq_capacity_def split: if_splits)
  let ?pre = "fq_contents (oo_rROB w) @ fq_contents (oo_ROB w)"
  have all: "oo_all w = ?pre @ d # rev side" by (simp add: oo_all_def d)
  have "(fl_flush_transient (di_flags (co_dinst d w)) \<and> oo_flush_done d w = Inr w1) \<or>
    (\<exists>q1. fq_push (oo_ROB w) d = Inr q1 \<and> oo_view w1 = oo_view (w\<lparr>oo_ROB := q1\<rparr>))"
    using run
    by (auto simp: oo_return_one_def Let_def bind_res_Inr_iff co_cluster_of_def deref_Inr_iff split: if_splits
        dest!: cl_del_entry_view(2) [THEN oo_view_core])
  then consider b where "oo_transient w d" "oo_ROB w1 = oo_ROB w" "oo_rROB w1 = oo_rROB w"
        "oo_nTotalRegs w1 = oo_nTotalRegs w + (if b \<and> oo_has_dst w d then 1 else 0)"
        "oo_log w1 = oo_log w" "ds_ident (co_store w1) = ds_ident (co_store w)"
    | q1 where "fq_push (oo_ROB w) d = Inr q1" "oo_view w1 = oo_view (w\<lparr>oo_ROB := q1\<rparr>)"
  proof (elim disjE exE conjE)
    assume m: "fl_flush_transient (di_flags (co_dinst d w))" and r: "oo_flush_done d w = Inr w1"
    have "oo_transient w d" using ok m all by (simp add: oo_ok_def)
    then show thesis
      using oo_flush_done_cases [OF r] that(1) [of True] that(1) [of False] by (auto simp: oo_view_eqs oo_give_reg_simps)
  qed (rule that(2))
  then show ?thesis
  proof cases
    case (1 b)
    show ?thesis
    proof (rule oo_advances_remove [where b = b and d = d, OF all])
      show "oo_all ?w' = ?pre @ rev side" using 1 d by (simp add: oo_all_def qf)
    qed (use 1 qf inv in \<open>simp_all add: oo_log_def\<close>)
  next
    case (2 q1)
    note p = fq_push_Inr [OF inv(1) 2(1)] fq_side(1) [OF 2(1)]
    have f: "oo_ROB w1 = q1" "oo_rROB w1 = oo_rROB w" "oo_nTotalRegs w1 = oo_nTotalRegs w" "oo_log w1 = oo_log w"
      "ds_ident (co_store w1) = ds_ident (co_store w)"
      using 2(2) by (simp_all add: oo_view_eqs)
    have a: "oo_all ?w' = oo_all w" unfolding all using p d by (simp add: oo_all_def qf f)
    have i: "di_ident (co_dinst x ?w') = di_ident (co_dinst x w)" for x
      using f(5) by (auto simp: co_dinst_def ds_ident_def fun_eq_iff)
    have t: "oo_transient ?w' = oo_transient w" and h: "oo_has_dst ?w' = oo_has_dst w"
      using i by (auto simp: oo_transient_def oo_has_dst_def di_isTransient_def di_ident_def fun_eq_iff)
    have m: "(fl_flush_transient (di_flags (co_dinst x ?w')) \<longrightarrow> oo_transient ?w' x) =
        (fl_flush_transient (di_flags (co_dinst x w)) \<longrightarrow> oo_transient w x)" for x
      using i [of x] by (auto simp: oo_transient_def di_isTransient_def di_ident_def)
    have "oo_ok ?w'" using ok a m [unfolded t] t p inv by (simp add: oo_ok_def qf f)
    then show ?thesis using a t h f by (simp add: oo_advances_def oo_live_def oo_regs_def) (simp add: oo_log_def)
  qed
qed (simp add: oo_advances_def)

lemma oo_return_loop_advances:
  "oo_return_loop n w = Inr w' \<Longrightarrow> oo_advances 0 True w w' \<and> fq_pipe_in_cluster (oo_ROB w') = []"
proof (induction n arbitrary: w)
  case 0
  then show ?case by (simp add: fq_empty_pipe_in_cluster_def split: if_splits)
next
  case (Suc n)
  show ?case
  proof (cases "fq_pipe_in_cluster (oo_ROB w) = []")
    case True
    then show ?thesis using Suc.prems by (simp add: fq_empty_pipe_in_cluster_def)
  next
    case False
    obtain d w1 q where d: "fq_back_pipe_in_cluster (oo_ROB w) = Inr d" and w1: "oo_return_one d w = Inr w1"
      and q: "fq_pop_pipe_in_cluster (oo_ROB w1) = Inr q" and rest: "oo_return_loop n (w1\<lparr>oo_ROB := q\<rparr>) = Inr w'"
      using Suc.prems False by (auto simp: bind_res_Inr_iff fq_empty_pipe_in_cluster_def)
    have "fq_pipe_in_cluster (oo_ROB w) = butlast (fq_pipe_in_cluster (oo_ROB w)) @ [d]"
      using d False append_butlast_last_id [OF False] by (simp add: fq_back_pipe_in_cluster_def)
    then show ?thesis
      using oo_advances_trans [OF oo_return_step_advances [OF w1 _ q]] Suc.IH [OF rest] by force
  qed
qed

lemma oo_flush_rob_advances:
  assumes "oo_flush_rob w = Inr w'"
  shows "oo_advances 0 True w w' \<and> fq_pipe_in_cluster (oo_ROB w') = []"
proof -
  obtain w1 where w1: "oo_flush_loop (fq_size (oo_ROB w)) w = Inr w1"
    "oo_return_loop (length (fq_pipe_in_cluster (oo_ROB w1))) w1 = Inr w'"
    using assms by (auto simp: oo_flush_rob_def bind_res_Inr_iff)
  then show ?thesis
    using oo_advances_trans [of 0 True w w1 0 w'] oo_flush_loop_advances oo_return_loop_advances by fastforce
qed

section \<open>Runs of the core\<close>

text \<open>
  \<open>oo_reach fl N H w\<close>: \<open>w\<close> arises from a core with \<open>N\<close> free registers, empty buffers and an empty trace; \<open>H\<close> are the
  instructions that are not transient, in the order in which they were renamed, and \<open>fl\<close> tells whether transient ones have been
  flushed. Between the steps the rest of the simulator may do what leaves the buffers, the trace and the instructions in the buffers alone, which
  all operations of the back end do.
\<close>

inductive oo_reach :: "bool \<Rightarrow> int \<Rightarrow> nat list \<Rightarrow> 'a ooo_scheme \<Rightarrow> bool" where
  oor_start: "fq_inv (oo_ROB w) \<Longrightarrow> fq_inv (oo_rROB w) \<Longrightarrow> oo_all w = [] \<Longrightarrow> oo_committed w = [] \<Longrightarrow>
    oo_reach False (oo_nTotalRegs w) [] w"
| oor_rename: "oo_reach fl N H w \<Longrightarrow> (fl_flush_transient (di_flags (co_dinst d w)) \<Longrightarrow> oo_transient w d) \<Longrightarrow>
    oo_add_inst d w = Inr (sc, w') \<Longrightarrow> oo_reach fl N (if sc = NoStall \<and> \<not> oo_transient w d then H @ [d] else H) w'"
| oor_retire: "oo_reach fl N H w \<Longrightarrow> oo_retire w = Inr w' \<Longrightarrow> oo_reach fl N H w'"
| oor_flush: "oo_reach fl N H w \<Longrightarrow> oo_flush_rob w = Inr w' \<Longrightarrow> oo_reach True N H w'"
| oor_other: "oo_reach fl N H w \<Longrightarrow> oo_ROB w' = oo_ROB w \<Longrightarrow> oo_rROB w' = oo_rROB w \<Longrightarrow>
    oo_nTotalRegs w' = oo_nTotalRegs w \<Longrightarrow> oo_committed w' = oo_committed w \<Longrightarrow>
    \<forall>d \<in> set (oo_all w). di_ident (co_dinst d w') = di_ident (co_dinst d w) \<Longrightarrow> oo_reach fl N H w'"

definition oo_run_inv :: "bool \<Rightarrow> int \<Rightarrow> nat list \<Rightarrow> 'a ooo_scheme \<Rightarrow> bool" where
  "oo_run_inv fl N H w \<longleftrightarrow> oo_ok w \<and> fq_pipe_in_cluster (oo_ROB w) = [] \<and> H = oo_committed w @ oo_live w \<and>
    oo_regs w \<le> N \<and> (\<not> fl \<longrightarrow> oo_regs w = N)"

lemma oo_run_inv_advances:
  assumes "oo_run_inv fl N H w" and "oo_advances k r w w'" and "fq_pipe_in_cluster (oo_ROB w') = []"
  shows "oo_run_inv (fl \<or> r) N H w'"
proof -
  have "H = oo_committed w' @ oo_live w'" using assms(1,2) by (simp add: oo_run_inv_def oo_advances_def oo_log_def)
  moreover have "oo_ok w' \<and> oo_regs w' \<le> N \<and> (\<not> (fl \<or> r) \<longrightarrow> oo_regs w' = N)"
    using assms(1,2) by (auto simp: oo_run_inv_def oo_advances_def)
  ultimately show ?thesis using assms(3) by (simp add: oo_run_inv_def)
qed

lemma oo_run_inv_rename:
  assumes inv: "oo_run_inv fl N H w" and mark: "fl_flush_transient (di_flags (co_dinst d w)) \<Longrightarrow> oo_transient w d"
    and run: "oo_add_inst d w = Inr (sc, w')"
  shows "oo_run_inv fl N (if sc = NoStall \<and> \<not> oo_transient w d then H @ [d] else H) w'"
  using oo_add_inst_cases [OF run]
proof (elim disjE conjE exE)
  assume "sc \<noteq> NoStall" "oo_view w' = oo_view w"
  then show ?thesis using inv oo_view_facts [of w' w] by (simp add: oo_run_inv_def oo_log_eqs)
next
  fix q
  assume sc: "sc = NoStall" and q: "fq_push (oo_ROB w) d = Inr q" "oo_ROB w' = q" "oo_rROB w' = oo_rROB w"
    and n: "oo_nTotalRegs w' = oo_nTotalRegs w - (if oo_has_dst w d then 1 else 0)"
    and log: "oo_log w' = (oo_renamed w @ [d], oo_committed w, oo_RetireWidth w)"
    and id: "ds_ident (co_store w') = ds_ident (co_store w)"
  have ok: "oo_ok w" and side: "fq_pipe_in_cluster (oo_ROB w) = []" using inv by (simp_all add: oo_run_inv_def)
  have f: "fq_inv (oo_ROB w)" "fq_inv (oo_rROB w)" using ok by (simp_all add: oo_ok_def)
  note p = fq_push_Inr [OF f(1) q(1)] fq_side(1) [OF q(1)]
  have all: "oo_all w' = oo_all w @ [d]" using p side by (simp add: oo_all_def q(2,3))
  have i: "di_ident (co_dinst x w') = di_ident (co_dinst x w)" for x
    using id by (auto simp: co_dinst_def ds_ident_def fun_eq_iff)
  have t: "oo_transient w' = oo_transient w" and h: "oo_has_dst w' = oo_has_dst w"
    using i by (auto simp: oo_transient_def oo_has_dst_def di_isTransient_def di_ident_def fun_eq_iff)
  have m: "(fl_flush_transient (di_flags (co_dinst x w')) \<longrightarrow> oo_transient w' x) =
      (fl_flush_transient (di_flags (co_dinst x w)) \<longrightarrow> oo_transient w x)" for x
    using i [of x] by (auto simp: oo_transient_def di_isTransient_def di_ident_def)
  have "oo_ok w'" using ok mark p q f all m [unfolded t] t by (auto simp: oo_ok_def)
  moreover have "oo_regs w' = oo_regs w" using n all h by (simp add: oo_regs_def)
  moreover have "oo_live w' = oo_live w @ (if oo_transient w d then [] else [d])" using all t by (simp add: oo_live_def)
  ultimately show ?thesis using inv sc p side q(2) log by (auto simp: oo_run_inv_def oo_log_def)
qed

lemma oo_run_inv_other:
  assumes inv: "oo_run_inv fl N H w" and f: "oo_ROB w' = oo_ROB w" "oo_rROB w' = oo_rROB w" "oo_nTotalRegs w' = oo_nTotalRegs w"
      "oo_committed w' = oo_committed w"
    and i: "\<forall>d \<in> set (oo_all w). di_ident (co_dinst d w') = di_ident (co_dinst d w)"
  shows "oo_run_inv fl N H w'"
proof -
  have a: "oo_all w' = oo_all w" by (simp add: oo_all_def f)
  have t: "oo_transient w' d = oo_transient w d" "oo_has_dst w' d = oo_has_dst w d"
    "(fl_flush_transient (di_flags (co_dinst d w')) \<longrightarrow> oo_transient w' d) =
      (fl_flush_transient (di_flags (co_dinst d w)) \<longrightarrow> oo_transient w d)" if "d \<in> set (oo_all w)" for d
    using i [rule_format, OF that] by (auto simp: oo_transient_def oo_has_dst_def di_isTransient_def di_ident_def)
  have "oo_live w' = oo_live w" "oo_regs w' = oo_regs w"
    using t by (auto simp: oo_live_def oo_regs_def a f cong: filter_cong)
  moreover have "set (fq_contents (oo_rROB w)) \<subseteq> set (oo_all w)" by (auto simp: oo_all_def)
  then have "oo_ok w' = oo_ok w" using t by (simp add: oo_ok_def a f subset_iff)
  ultimately show ?thesis using inv f by (simp add: oo_run_inv_def)
qed

lemma oo_reach_inv: "oo_reach fl N H w \<Longrightarrow> oo_run_inv fl N H w"
proof (induction rule: oo_reach.induct)
  case (oor_start w)
  then have "oo_ok w" "oo_live w = []" "oo_regs w = oo_nTotalRegs w" "fq_pipe_in_cluster (oo_ROB w) = []"
    by (simp_all add: oo_ok_def oo_live_def oo_regs_def) (simp_all add: oo_all_def)
  then show ?case using oor_start.hyps(4) by (simp add: oo_run_inv_def)
next
  case (oor_rename fl N H w d sc w')
  show ?case by (rule oo_run_inv_rename [OF oor_rename.IH oor_rename.hyps(2,3)])
next
  case (oor_retire fl N H w w')
  obtain k where k: "oo_advances k False w w'" using oo_retire_advances [OF oor_retire.hyps(2)] by blast
  moreover have "fq_pipe_in_cluster (oo_ROB w') = []" using k oor_retire.IH by (simp add: oo_run_inv_def oo_advances_def)
  ultimately show ?case using oo_run_inv_advances [OF oor_retire.IH] by fastforce
next
  case (oor_flush fl N H w w')
  show ?case
    using oo_run_inv_advances [OF oor_flush.IH, of 0 True w'] oo_flush_rob_advances [OF oor_flush.hyps(2)] by simp
next
  case (oor_other fl N H w w')
  show ?case by (rule oo_run_inv_other [OF oor_other.IH oor_other.hyps(2-6)])
qed

text \<open>
  C1. Take the instructions that are not transient in the order in which they were renamed. After any sequence of renames, retirements,
  flushes and steps of the rest of the simulator, they are exactly those that \<open>retire\<close> has committed, in the order of the calls
  of \<open>Tracer::commit\<close>, followed by those that are still in the two reorder buffers, in the order of the buffers: commit is in program
  order, nothing commits twice, and neither a retirement nor a flush loses an instruction. The free registers and those held by
  instructions in the buffers are as many as at the start; only a flush can lose some.
\<close>

theorem commit_is_in_order:
  assumes "oo_reach fl N H w"
  shows "H = oo_committed w @ oo_live w \<and>
    oo_nTotalRegs w + int (length (filter (oo_has_dst w) (oo_all w))) \<le> N \<and>
    (\<not> fl \<longrightarrow> oo_nTotalRegs w + int (length (filter (oo_has_dst w) (oo_all w))) = N)"
  using oo_reach_inv [OF assms] by (simp add: oo_run_inv_def oo_regs_def)

text \<open>A core with one branch unit, and one branch with a destination.\<close>

definition oo_example :: ooo where
  "oo_example =
    (let d = di_blank\<lparr>di_flags := di_setup_flags (di_flags di_blank), di_RAT1Entry := None, di_RAT2Entry := None,
               di_inst := \<lparr>in_opcode = iBALU_LBRANCH, in_src1 = 0, in_src2 = 0, in_dst1 = 5, in_dst2 = 120\<rparr>\<rparr>;
         ring = \<lparr>fq_pipe = [0, 0], fq_pipe_in_cluster = [], fq_pipeMask = 1, fq_start = 0, fq_end = 0, fq_nElems = 0\<rparr>
     in \<lparr>co_self = 0, co_hid = 0, co_store = (ds_blank pool_two)\<lparr>ds_obj := (\<lambda>_. d), ds_globalClock := 5\<rparr>,
         co_cluster = co_cluster co_example, co_window = co_window co_example, co_pool = co_pool co_example,
         co_unit = co_unit co_example, co_port = co_port co_example, co_lsq = lf_create 4,
         co_ss = fst (ss_create 16 0 0), co_scb = sb_create 6 4 True, co_junk_line = undefined,
         co_dl1_isBusy = (\<lambda>_. False), co_MemoryReplay = False, co_serialize_for = 0, co_replayRecovering = False,
         co_replayID = 0, co_flushing = False, co_events = [],
         oo_FetchWidth = 2, oo_IssueWidth = 2, oo_RetireWidth = 2, oo_InstQueueSize = 4, oo_MaxROBSize = 4,
         oo_do_random_transients = False, oo_RetireDelay = 1, oo_ROB = ring, oo_rROB = ring, oo_nTotalRegs = 4,
         oo_sched = cs_create SchedRoundRobin (\<lambda>_. [0]) (\<lambda>_. 0) (\<lambda>_. 0), oo_scooreMemory = False, oo_serialize = 32,
         oo_serialize_level = 2, oo_forwardProg_threshold = 200, oo_last_serialized = None, oo_last_serializedST = None,
         oo_last_serializeLogical = 0, oo_last_serializePC = 0, oo_lastReplay = 0, oo_flushing_fid = 0,
         oo_pipe = undefined, oo_instQueue = ring, oo_spaceInInstQueue = 4, oo_busy = True, oo_last_transientid = 0,
         oo_flushing_last_transientid = 0, oo_renamed = [], oo_committed = []\<rparr>)"

lemma oo_example_rename: "\<exists>w. oo_add_inst 0 oo_example = Inr (NoStall, w)"
  by (simp add: oo_example_def Let_def co_example_simps oo_add_inst_def oo_robs_def fq_size_def oo_assign_def cs_getResource_def
      cs_round_robin_def cs_advance_def cs_create_def nth_res_def co_update_def ds_update_def co_cluster_of_def deref_def
      cl_canIssue_def co_resource_of_def fu_canIssue_def branch_canIssue_def isControl_def isBranch_def less_eq_opcode_def
      fu_branch_add_def co_on_unit_def oo_insert_def oo_take_reg_def hasDstRegister_def LREG_InvalidOutput_def
      oo_serialize_inst_def fq_push_def update_res_def oo_is_load_spec_def isLoad_def
      oo_rename_def oo_link_sources_def di_isSrcReady_def dn_idle_def oo_link_def oo_rat_def rat_cell_def LREG_MAX_def
      di_isTransient_def co_update_res_def di_setRAT1Entry_def di_setRAT2Entry_def oo_dst_cells_def di_isExecuted_def
      cl_add_inst_def cl_take_reg_def cl_newEntry_def co_on_pool_def co_in_window_def dw_add_inst_def ww_dinst_def
      di_hasDeps_def di_no_source_def ww_update_def dw_preSelect_def di_markIssued_def di_set_in_cluster_def di_set_def
      cl_select_def dw_select_def di_set_present_in_rob_def oo_set_rat_def di_markRenamed_def co_clock_def)

text \<open>The example after the rename, its branch executed in the meantime.\<close>

definition oo_done_example :: ooo where
  "oo_done_example = oo_example
    \<lparr>co_store := (ds_blank (pool_two\<lparr>pl_first := [1], pl_inPool := (\<lambda>n. n \<noteq> 0)\<rparr>))
       \<lparr>ds_obj := (\<lambda>_. (co_dinst 0 oo_example)\<lparr>di_executed := 1, di_issued := 1, di_cluster := Some 0, di_resource := Some 0,
           di_flags := (di_flags (co_dinst 0 oo_example))\<lparr>fl_performed := True\<rparr>\<rparr>), ds_globalClock := 5\<rparr>,
     co_pool := (\<lambda>c. (co_pool oo_example c)\<lparr>cp_regPool := 3\<rparr>),
     oo_ROB := \<lparr>fq_pipe = [0, 0], fq_pipe_in_cluster = [], fq_pipeMask = 1, fq_start = 0, fq_end = 1, fq_nElems = 1\<rparr>,
     oo_nTotalRegs := 3\<rparr>"

lemmas oo_example_retire_simps = oo_done_example_def oo_example_def Let_def co_example_simps oo_retire_def fq_size_def fq_empty_def
  fq_top_def nth_res_def co_resource_of_def co_cluster_of_def deref_def fu_preretire_def branch_preretire_def di_isExecuted_def
  di_isTransient_def fq_push_def update_res_def oo_pop_ROB_def fq_pop_def oo_forget_serialized_def co_update_def ds_update_def
  di_mark_rrob_def di_set_def co_clock_def pool_two_def

lemma oo_done_example_commits: "\<exists>w. oo_retire oo_done_example = Inr w \<and> oo_committed w = [0]"
  by (simp add: oo_example_retire_simps cl_retire_def fu_retire_def cl_give_reg_def cl_add_reg_pool_def co_on_pool_def
      hasDstRegister_def LREG_InvalidOutput_def oo_commit_def oo_give_reg_def oo_take_reg_def isStore_def isLoad_def
      oo_destroy_if_def co_with_store_def di_destroy_def di_recycle_def pool_in_def di_mark_retired_def
      di_is_load_destroyed_retired_spec_def oo_commit_loop.simps(2) [of "Suc 0", folded numeral_2_eq_2])

theorem commit_is_in_order_witness:
  "\<exists>w. oo_retire oo_done_example = Inr w \<and> oo_committed w = [0] \<and> [0] = oo_committed w @ oo_live w \<and>
    oo_nTotalRegs w + int (length (filter (oo_has_dst w) (oo_all w))) = 4"
proof -
  obtain w1 where w1: "oo_add_inst 0 oo_example = Inr (NoStall, w1)" using oo_example_rename by blast
  have ring: "fq_inv (oo_ROB oo_example)" "fq_inv (oo_rROB oo_example)"
    by (auto simp: oo_example_def Let_def fq_inv_def fq_capacity_def intro!: exI [of _ 1])
  have e: "oo_all oo_example = []" "oo_committed oo_example = []"
    by (simp_all add: oo_all_def oo_example_def Let_def fq_contents_def)
  have t: "\<not> oo_transient oo_example 0" "\<not> fl_flush_transient (di_flags (co_dinst 0 oo_example))"
    by (simp_all add: oo_transient_def di_isTransient_def co_dinst_def oo_example_def Let_def co_example_simps)
  have n: "oo_nTotalRegs oo_example = 4" by (simp add: oo_example_def Let_def)
  have "oo_reach False (oo_nTotalRegs oo_example) [] oo_example" by (rule oor_start [OF ring e])
  from oor_rename [OF this _ w1] have r1: "oo_reach False 4 [0] w1" using t n by simp
  have f: "fq_push (oo_ROB oo_example) 0 = Inr (oo_ROB w1)" "oo_rROB w1 = oo_rROB oo_example"
    "oo_nTotalRegs w1 = oo_nTotalRegs oo_example - (if oo_has_dst oo_example 0 then 1 else 0)"
    "oo_committed w1 = []" "ds_ident (co_store w1) = ds_ident (co_store oo_example)"
    using oo_add_inst_cases [OF w1] e(2) by (auto simp: oo_log_def)
  have q: "oo_ROB oo_done_example = oo_ROB w1"
    using f(1) by (simp add: oo_done_example_def oo_example_def Let_def fq_push_def update_res_def)
  have "oo_all w1 = [0]"
    unfolding oo_all_def q [symmetric] f(2) by (simp add: oo_done_example_def oo_example_def Let_def fq_contents_def)
  moreover have "di_ident (co_dinst 0 w1) = di_ident (co_dinst 0 oo_example)"
    using fun_cong [OF f(5), of 0] by (simp add: ds_ident_def co_dinst_def)
  moreover have "di_ident (co_dinst 0 oo_done_example) = di_ident (co_dinst 0 oo_example)"
    by (simp add: co_dinst_def di_ident_def oo_done_example_def)
  ultimately have r2: "oo_reach False 4 [0] oo_done_example"
    by (intro oor_other [OF r1])
      (simp_all add: q f, simp_all add: oo_done_example_def oo_example_def Let_def oo_has_dst_def hasDstRegister_def
        LREG_InvalidOutput_def co_example_simps)
  obtain w where w: "oo_retire oo_done_example = Inr w" "oo_committed w = [0]" using oo_done_example_commits by blast
  from commit_is_in_order [OF oor_retire [OF r2 w(1)]] show ?thesis using w by (auto simp del: append.simps)
qed

end
