(* ===== verification/Core_Cycle.thy ===== *)
theory Core_Cycle
  imports Commit_Order
begin

text \<open>
  A whole cycle of the core: the pipeline hands buckets to the queue of the decoded instructions, rename takes
  them in order, and the retirement follows. The order of the program survives the composition, and a cycle renames and commits
  at most as many instructions as its widths allow. A further fact shows where
  the code does not do what it means to: a load counts itself among the unresolved instructions.
\<close>

section \<open>The pipeline leaves the instructions alone\<close>








section \<open>A cycle\<close>













text \<open>What a cycle does to the trace and to the buffers.\<close>

definition oo_cycle_ok :: "int \<Rightarrow> 'a ooo_scheme \<Rightarrow> nat \<Rightarrow> 'a ooo_scheme \<Rightarrow> bool" where
  "oo_cycle_ok N v k w \<longleftrightarrow> (\<exists>new out. oo_renamed w = oo_renamed v @ new \<and> length new \<le> k \<and>
     oo_committed w = oo_committed v @ out \<and> length out \<le> nat (oo_RetireWidth v) \<and>
     oo_live v @ filter (\<lambda>d. \<not> oo_transient v d) new = out @ oo_live w \<and> oo_regs w = N)"



lemma oo_cycle_ok_mono: "oo_cycle_ok N v 0 w \<Longrightarrow> oo_cycle_ok N v k w"
  unfolding oo_cycle_ok_def by (meson le_trans le0)









section \<open>A flaw of the rename stage\<close>

text \<open>
  \<open>add_inst\<close> puts a load into the reorder buffer before it asks \<open>is_load_spec\<close>, whose scan then meets the load itself, not yet executing:
  unless the buffer is full every load is marked speculative, whatever stands before it.
\<close>

theorem load_counts_itself:
  assumes inv: "fq_inv (oo_ROB w)" and room: "unat (fq_nElems (oo_ROB w)) + 1 < fq_capacity (oo_ROB w)"
    and load: "isLoad (di_inst (co_dinst d w))" and new: "\<not> di_isExecuting (co_dinst d w)"
  shows "bind_res (fq_push (oo_ROB w) d) (\<lambda>q. oo_is_load_spec d (w\<lparr>oo_ROB := q\<rparr>)) = Inr True"
proof -
  let ?n = "unat (fq_nElems (oo_ROB w))"
  obtain q where q: "fq_push (oo_ROB w) d = Inr q" "fq_inv q" "fq_contents q = fq_contents (oo_ROB w) @ [d]"
      and cap: "fq_capacity q = fq_capacity (oo_ROB w)"
    using fq_push_refines [OF inv] room by (metis Suc_eq_plus1 Suc_lessD)
  have n: "unat (fq_nElems q) = Suc ?n"
    using q(3) length_fq_contents [of q] length_fq_contents [of "oo_ROB w"] by simp
  let ?w = "w\<lparr>oo_ROB := q\<rparr>"
  let ?f = "\<lambda>i found. bind_res (fq_getIDFromTop q (of_nat i)) (\<lambda>pos. bind_res (fq_getData q pos) (\<lambda>x. Inr (found \<or> oo_unresolved (co_dinst x ?w))))"
  have at: "?f i found = Inr (found \<or> oo_unresolved (co_dinst (fq_contents q ! i) ?w))" if "i < Suc ?n" for i found
  proof -
    have "unat (fq_nElems q) < 2 ^ 32" using unsigned_less [of "fq_nElems q", where 'a = nat] by simp
    then have "i < 2 ^ 32" using that n by linarith
    then have i: "unat (of_nat i :: u32) = i" by (simp add: unsigned_of_nat take_bit_nat_eq_self)
    have "bind_res (fq_getIDFromTop q (of_nat i)) (fq_getData q) = Inr (fq_contents q ! i)"
      using fq_getData_by_index [OF q(2), of "of_nat i"] that n i room cap by (simp add: word_less_nat_alt)
    then show ?thesis by (cases "fq_getIDFromTop q (of_nat i)") auto
  qed
  have u: "oo_unresolved (co_dinst (fq_contents q ! ?n) ?w)"
    using q(3) load new length_fq_contents [of "oo_ROB w"]
    by (simp add: oo_unresolved_def isMemory_def co_dinst_def nth_append)
  have "\<exists>s. for_res [0..<Suc ?n] ?f False = Inr s \<and> (0 < Suc ?n \<longrightarrow> Suc ?n = Suc ?n \<longrightarrow> s)"
    by (rule for_res_upt [where P = "\<lambda>k s. 0 < k \<longrightarrow> k = Suc ?n \<longrightarrow> s"]) (use at u in \<open>auto simp: less_Suc_eq\<close>)
  then have "for_res [0..<Suc ?n] ?f False = Inr True" by (metis zero_less_Suc)
  then show ?thesis
    using q(1) n load by (simp add: oo_is_load_spec_def fq_size_def co_dinst_def del: upt_Suc)
qed

text \<open>A load that is about to be renamed into the empty buffer of the example.\<close>

definition oo_load_example :: ooo where
  "oo_load_example =
    (let d = di_blank\<lparr>di_executing := 0, di_inst := \<lparr>in_opcode = iLALU_LD, in_src1 = 0, in_src2 = 0, in_dst1 = 5, in_dst2 = 120\<rparr>\<rparr>
     in oo_example\<lparr>co_store := (ds_blank pool_two)\<lparr>ds_obj := (\<lambda>_. d)\<rparr>\<rparr>)"

theorem load_counts_itself_witness:
  "bind_res (fq_push (oo_ROB oo_load_example) 0) (\<lambda>q. oo_is_load_spec 0 (oo_load_example\<lparr>oo_ROB := q\<rparr>)) = Inr True"
proof (rule load_counts_itself)
  show "fq_inv (oo_ROB oo_load_example)"
    by (auto simp: oo_load_example_def oo_example_def Let_def fq_inv_def fq_capacity_def intro!: exI [of _ 1])
  show "unat (fq_nElems (oo_ROB oo_load_example)) + 1 < fq_capacity (oo_ROB oo_load_example)"
    by (simp add: oo_load_example_def oo_example_def Let_def fq_capacity_def)
  show "isLoad (di_inst (co_dinst 0 oo_load_example))" and "\<not> di_isExecuting (co_dinst 0 oo_load_example)"
    by (simp_all add: oo_load_example_def Let_def co_dinst_def isLoad_def less_eq_opcode_def di_isExecuting_def)
qed

end
