(* ===== verification/Tage_History.thy ===== *)
theory Tage_History
  imports Instruction
begin

text \<open>
  The histories of the two TAGE predictors (\<open>simu/tahead.hpp\<close>, \<open>simu/tahead1.hpp\<close>): the folded registers, the
  buffer of global history bits, the path history, the loop counters (IMLI) and \<open>HistoryUpdate\<close>. The headers are the same text up to
  the prefix of their macros and the values of some; those values are a record here. What the code keeps in global
  variables is a record of state. A history length is a rounded value of \<open>pow\<close> in floating
  point, so the function of lengths is an argument. \<open>TAHEAD_AHEAD\<close> is 0, and \<open>TAHEAD_OPTTAGE\<close> is not defined. The facts: every folded register is the exclusive or
  of its part of the history, cut into pieces of its width; once it is not, it never is again.
\<close>

section \<open>Parameters\<close>

record tage_config =
  tc_NHIST :: nat
  tc_LOGG :: nat
  tc_LOGB :: nat
  tc_LOGBIAS :: nat
  tc_MINHIST :: nat
  tc_geo :: "nat \<Rightarrow> nat"

text \<open>\<open>tc_geo\<close> stands for the values of \<open>pow\<close>, rounded. In both headers the size of a way is 9 bits.\<close>

definition tahead_config :: "(nat \<Rightarrow> nat) \<Rightarrow> tage_config" where
  "tahead_config geo = \<lparr>tc_NHIST = 14, tc_LOGG = 9, tc_LOGB = 15, tc_LOGBIAS = 11, tc_MINHIST = 2, tc_geo = geo\<rparr>"

definition tahead1_config :: "(nat \<Rightarrow> nat) \<Rightarrow> tage_config" where
  "tahead1_config geo = \<lparr>tc_NHIST = 6, tc_LOGG = 9, tc_LOGB = 10, tc_LOGBIAS = 10, tc_MINHIST = 2, tc_geo = geo\<rparr>"

text \<open>The loops of \<open>reinit\<close> over the lengths: from the third on they grow strictly; then each is counted in bits, four per block.\<close>

fun tc_grow :: "tage_config \<Rightarrow> nat \<Rightarrow> nat" where
  "tc_grow c 0 = 0"
| "tc_grow c (Suc n) =
    (if n = 0 then tc_MINHIST c
     else if n = 1 then tc_geo c 2
     else if tc_geo c (Suc n) \<le> tc_grow c n then tc_grow c n + 1 else tc_geo c (Suc n))"

definition tc_m :: "tage_config \<Rightarrow> nat \<Rightarrow> nat" where
  "tc_m c i = push_bit 2 (tc_grow c i)"

section \<open>Folded histories\<close>

record folded_history =
  fh_comp :: u32
  fh_CLENGTH :: nat
  fh_OLENGTH :: nat
  fh_OUTPOINT :: nat

definition fh_init :: "nat \<Rightarrow> nat \<Rightarrow> folded_history" where
  "fh_init original_length compressed_length =
    \<lparr>fh_comp = 0, fh_CLENGTH = compressed_length, fh_OLENGTH = original_length,
     fh_OUTPOINT = original_length mod compressed_length\<rparr>"

text \<open>A position of the history buffer.\<close>

definition HISTBUFFERLENGTH :: nat where "HISTBUFFERLENGTH = 4096"

definition hist_pos :: "u32 \<Rightarrow> nat" where
  "hist_pos y = unat (y AND of_nat (HISTBUFFERLENGTH - 1))"

definition fh_fold :: "nat \<Rightarrow> nat \<Rightarrow> u8 \<Rightarrow> u8 \<Rightarrow> u32 \<Rightarrow> u32" where
  "fh_fold clength outpoint newest oldest x =
    (let x = push_bit 1 x XOR ucast newest;
         x = x XOR push_bit outpoint (ucast oldest);
         x = x XOR drop_bit clength x
     in x AND (push_bit clength 1 - 1))"

definition fh_update :: "(nat \<Rightarrow> u8) \<Rightarrow> u32 \<Rightarrow> folded_history \<Rightarrow> folded_history" where
  "fh_update h PT f =
    f\<lparr>fh_comp := fh_fold (fh_CLENGTH f) (fh_OUTPOINT f) (h (hist_pos PT)) (h (hist_pos (PT + of_nat (fh_OLENGTH f)))) (fh_comp f)\<rparr>"

section \<open>The histories\<close>

text \<open>The second group of fields counts the iterations of loops.\<close>

record tage_hist =
  hi_NPRED :: nat
  hi_Numero :: u64
  hi_PCBLOCK :: u64
  hi_PrevPCBLOCK :: u64
  hi_phist :: u64
  hi_GH :: u32
  hi_ghist :: "nat \<Rightarrow> u8"
  hi_ptghist :: u32
  hi_ch_i :: "nat \<Rightarrow> folded_history"
  hi_ch_t0 :: "nat \<Rightarrow> folded_history"
  hi_ch_t1 :: "nat \<Rightarrow> folded_history"
  hi_TaIMLI :: u64
  hi_BrIMLI :: u64
  hi_F_TaIMLI :: u64
  hi_F_BrIMLI :: u64
  hi_BHIST :: u64
  hi_FHIST :: u64
  hi_PrevF_TaIMLI :: u64
  hi_PrevF_BrIMLI :: u64
  hi_PrevBHIST :: u64
  hi_PrevFHIST :: u64
  hi_LastBack :: u64
  hi_LastBackPC :: u64
  hi_BBHIST :: u64

text \<open>The globals when the program starts; the constructor sets up the folded registers.\<close>

definition hi_globals :: tage_hist where
  "hi_globals =
    \<lparr>hi_NPRED = 20, hi_Numero = 0, hi_PCBLOCK = 0, hi_PrevPCBLOCK = 0, hi_phist = 0, hi_GH = 0, hi_ghist = (\<lambda>_. 0), hi_ptghist = 0,
     hi_ch_i = (\<lambda>_. \<lparr>fh_comp = 0, fh_CLENGTH = 0, fh_OLENGTH = 0, fh_OUTPOINT = 0\<rparr>),
     hi_ch_t0 = (\<lambda>_. \<lparr>fh_comp = 0, fh_CLENGTH = 0, fh_OLENGTH = 0, fh_OUTPOINT = 0\<rparr>),
     hi_ch_t1 = (\<lambda>_. \<lparr>fh_comp = 0, fh_CLENGTH = 0, fh_OLENGTH = 0, fh_OUTPOINT = 0\<rparr>),
     hi_TaIMLI = 0, hi_BrIMLI = 0, hi_F_TaIMLI = 0, hi_F_BrIMLI = 0, hi_BHIST = 0, hi_FHIST = 0,
     hi_PrevF_TaIMLI = 0, hi_PrevF_BrIMLI = 0, hi_PrevBHIST = 0, hi_PrevFHIST = 0,
     hi_LastBack = 0, hi_LastBackPC = 0, hi_BBHIST = 0\<rparr>"

definition index_width :: "nat \<Rightarrow> nat" where
  "index_width i = 25 + (2 * ((i - 1) div 2)) mod 4"

text \<open>\<open>reinit\<close> clears the first bit of the buffer only: its loop has the wrong index.\<close>

definition hi_reinit :: "tage_config \<Rightarrow> tage_hist \<Rightarrow> tage_hist" where
  "hi_reinit c s =
    (let on_banks = (\<lambda>ch w i. if 1 \<le> i \<and> i \<le> tc_NHIST c then fh_init (tc_m c i) (w i) else ch i)
     in s\<lparr>hi_ch_i := on_banks (hi_ch_i s) index_width, hi_ch_t0 := on_banks (hi_ch_t0 s) (\<lambda>_. 13),
          hi_ch_t1 := on_banks (hi_ch_t1 s) (\<lambda>_. 11), hi_phist := 0, hi_ghist := (hi_ghist s)(0 := 0), hi_ptghist := 0\<rparr>)"

text \<open>One bit into the buffer and the registers.\<close>

definition hi_shift_in :: "tage_config \<Rightarrow> bool \<Rightarrow> tage_hist \<Rightarrow> tage_hist" where
  "hi_shift_in c DIR s =
    (let Y = hi_ptghist s - 1; g = (hi_ghist s)(hist_pos Y := of_bool DIR);
         on_banks = (\<lambda>ch i. if 1 \<le> i \<and> i \<le> tc_NHIST c then fh_update g Y (ch i) else ch i)
     in s\<lparr>hi_ptghist := Y, hi_ghist := g, hi_ch_i := on_banks (hi_ch_i s), hi_ch_t0 := on_banks (hi_ch_t0 s),
          hi_ch_t1 := on_banks (hi_ch_t1 s)\<rparr>)"

fun hi_shift_loop :: "tage_config \<Rightarrow> nat \<Rightarrow> u32 \<Rightarrow> tage_hist \<Rightarrow> tage_hist" where
  "hi_shift_loop c 0 T s = s"
| "hi_shift_loop c (Suc t) T s = hi_shift_loop c t (signed_drop_bit 1 T) (hi_shift_in c (T AND 1 \<noteq> 0) s)"

text \<open>The kind of a branch: 2 for indirect jumps, calls and returns, plus 1 for conditional branches.\<close>

definition hi_brtype :: "opcode \<Rightarrow> nat res" where
  "hi_brtype opType =
    (case opType of
       iBALU_RJUMP \<Rightarrow> Inr 2 | iBALU_RCALL \<Rightarrow> Inr 2 | iBALU_RBRANCH \<Rightarrow> Inr 3 | iBALU_RET \<Rightarrow> Inr 2
     | iBALU_LCALL \<Rightarrow> Inr 0 | iBALU_LBRANCH \<Rightarrow> Inr 1 | iBALU_LJUMP \<Rightarrow> Inr 0
     | _ \<Rightarrow> Inl Exit_called)"

definition near :: "u64 \<Rightarrow> u64" where
  "near a = drop_bit 6 (a AND 65535)"

definition hi_count_loops :: "tage_config \<Rightarrow> u64 \<Rightarrow> u64 \<Rightarrow> tage_hist \<Rightarrow> tage_hist" where
  "hi_count_loops c PCBRANCH branchTarget s =
    (let top = push_bit (tc_LOGBIAS c) 1 - 1;
         s = (if near branchTarget = hi_LastBack s
              then if hi_TaIMLI s < top then s\<lparr>hi_TaIMLI := hi_TaIMLI s + 1\<rparr> else s
              else s\<lparr>hi_BBHIST := push_bit 1 (hi_BBHIST s) XOR hi_LastBack s, hi_TaIMLI := 0\<rparr>);
         s = (if near PCBRANCH = hi_LastBackPC s
              then if hi_BrIMLI s < top then s\<lparr>hi_BrIMLI := hi_BrIMLI s + 1\<rparr> else s
              else s\<lparr>hi_BBHIST := push_bit 1 (hi_BBHIST s) XOR hi_LastBackPC s, hi_BrIMLI := 0\<rparr>)
     in s\<lparr>hi_LastBack := near branchTarget, hi_LastBackPC := near PCBRANCH\<rparr>)"

definition hi_save_prev :: "tage_hist \<Rightarrow> tage_hist" where
  "hi_save_prev s =
    s\<lparr>hi_PrevF_TaIMLI := hi_F_TaIMLI s, hi_PrevF_BrIMLI := hi_F_BrIMLI s, hi_PrevBHIST := hi_BHIST s, hi_PrevFHIST := hi_FHIST s\<rparr>"

text \<open>\<open>x ^ (x >> 4)\<close>, the hash of a block address.\<close>

definition block_hash :: "u64 \<Rightarrow> u64" where
  "block_hash a = a XOR drop_bit 4 a"

text \<open>The steps at the end of a block, which is a taken branch or the last place: first the address where the program goes on.\<close>

definition hi_note_successor :: "u64 \<Rightarrow> bool \<Rightarrow> u64 \<Rightarrow> tage_hist \<Rightarrow> tage_hist" where
  "hi_note_successor PCBRANCH taken branchTarget s =
    (let Successor = (if taken then block_hash branchTarget else block_hash (PCBRANCH + 1));
         GH = push_bit 2 (push_bit 2 (hi_GH s) XOR ucast PCBRANCH) XOR ucast (hi_Numero s XOR Successor)
     in s\<lparr>hi_NPRED := hi_NPRED s + 1, hi_GH := GH\<rparr>)"

text \<open>The forward jumps, and the loops.\<close>

definition hi_note_jump :: "tage_config \<Rightarrow> nat \<Rightarrow> u64 \<Rightarrow> bool \<Rightarrow> u64 \<Rightarrow> tage_hist \<Rightarrow> tage_hist" where
  "hi_note_jump c brtype PCBRANCH taken branchTarget s =
    (let s = hi_save_prev s;
         s = (if taken \<and> branchTarget > PCBRANCH
              then s\<lparr>hi_FHIST := push_bit 3 (hi_FHIST s) XOR drop_bit 2 branchTarget XOR drop_bit 1 PCBRANCH\<rparr> else s)
     in if brtype AND 2 = 0 \<and> taken \<and> branchTarget < PCBRANCH then hi_count_loops c PCBRANCH branchTarget s else s)"

text \<open>Four bits of the block go into the history.\<close>

definition hi_push_path :: "tage_config \<Rightarrow> bool \<Rightarrow> u64 \<Rightarrow> tage_hist \<Rightarrow> tage_hist" where
  "hi_push_path c taken branchTarget s =
    (let PC = hi_PCBLOCK s XOR push_bit 5 (hi_Numero s);
         Numero = push_bit 1 (hi_Numero s) + of_bool taken;
         T = ucast (PC XOR drop_bit 2 PC XOR Numero XOR drop_bit 3 branchTarget);
         PATH = ucast (PC XOR drop_bit 2 PC XOR drop_bit 4 PC XOR branchTarget XOR push_bit 3 Numero) :: u32
     in hi_shift_loop c 4 T (s\<lparr>hi_phist := (push_bit 4 (hi_phist s) XOR scast PATH) AND (push_bit 27 1 - 1)\<rparr>))"

definition hi_block_end :: "tage_config \<Rightarrow> u64 \<Rightarrow> opcode \<Rightarrow> bool \<Rightarrow> u64 \<Rightarrow> tage_hist \<Rightarrow> tage_hist res" where
  "hi_block_end c PCBRANCH opType taken branchTarget s =
    bind_res (hi_brtype opType) (\<lambda>brtype.
      let s = hi_note_successor PCBRANCH taken branchTarget s;
          s = hi_note_jump c brtype PCBRANCH taken branchTarget s;
          s = hi_push_path c taken branchTarget s
      in Inr (s\<lparr>hi_Numero := 0, hi_PrevPCBLOCK := hi_PCBLOCK s,
                hi_PCBLOCK := block_hash (if taken then branchTarget else PCBRANCH + 1)\<rparr>))"

definition hi_views :: "tage_hist \<Rightarrow> tage_hist" where
  "hi_views s =
    hi_save_prev (s\<lparr>hi_BHIST := (if hi_BrIMLI s = 0 then hi_BBHIST s
                      else ((hi_BBHIST s AND 15) + push_bit 6 (hi_BrIMLI s)) XOR drop_bit 4 (hi_BrIMLI s)),
       hi_F_TaIMLI := (if hi_TaIMLI s = 0 \<or> hi_BrIMLI s = hi_TaIMLI s then scast (hi_GH s) else hi_TaIMLI s),
       hi_F_BrIMLI := (if hi_BrIMLI s = 0 then hi_phist s else hi_BrIMLI s)\<rparr>)"

definition MAXBR :: u64 where "MAXBR = 8"

definition ta_HistoryUpdate :: "tage_config \<Rightarrow> u64 \<Rightarrow> opcode \<Rightarrow> bool \<Rightarrow> u64 \<Rightarrow> tage_hist \<Rightarrow> tage_hist res" where
  "ta_HistoryUpdate c PCBRANCH opType taken branchTarget s =
    bind_res (if hi_Numero s = MAXBR - 1 \<or> taken then hi_block_end c PCBRANCH opType taken branchTarget s
              else Inr (s\<lparr>hi_Numero := hi_Numero s + 1\<rparr>)) (\<lambda>s. Inr (hi_views s))"


section \<open>Folding\<close>

text \<open>The reference: the history bits cut into pieces of the width, all combined by exclusive or.\<close>

fun fold_bits :: "(nat \<Rightarrow> bool) \<Rightarrow> nat \<Rightarrow> nat \<Rightarrow> u32" where
  "fold_bits h C 0 = 0"
| "fold_bits h C (Suc n) = fold_bits h C n XOR push_bit (n mod C) (of_bool (h n))"

text \<open>The \<open>j\<close>th youngest bit of the buffer.\<close>

definition hist_bit :: "(nat \<Rightarrow> u8) \<Rightarrow> u32 \<Rightarrow> nat \<Rightarrow> u8" where
  "hist_bit g y j = g (hist_pos (y + of_nat j))"

lemma bit_fold_bits_ge:
  assumes "0 < C" and "C \<le> k"
  shows "\<not> bit (fold_bits h C n) k"
proof (induction n)
  case (Suc n)
  have "n mod C < C" using assms(1) by simp
  then show ?case using Suc assms(2) by (auto simp: bit_simps)
qed simp

lemma bit_fold_bits_Suc:
  assumes "k < C" and "C \<le> 32"
  shows "bit (fold_bits h C (Suc n)) k \<longleftrightarrow> bit (fold_bits h C n) k \<noteq> (n mod C = k \<and> h n)"
  using assms by (auto simp: bit_simps)

lemma mod_Suc_shift:
  assumes "k < (C :: nat)"
  shows "Suc n mod C = k \<longleftrightarrow> n mod C = (if k = 0 then C - 1 else k - 1)"
proof -
  have "n mod C < C" using assms by (simp add: mod_less_divisor)
  then show ?thesis using assms by (auto simp: mod_Suc)
qed

text \<open>A new youngest bit moves all others on by one: the fold is rotated.\<close>

lemma bit_fold_bits_step:
  assumes "k < C" and "C \<le> 32"
  shows "bit (fold_bits (case_nat b h) C (Suc n)) k \<longleftrightarrow>
    (k = 0 \<and> b) \<noteq> bit (fold_bits h C n) (if k = 0 then C - 1 else k - 1)"
proof (induction n)
  case 0
  show ?case using assms by (auto simp: bit_simps)
next
  case (Suc n)
  have p: "(if k = 0 then C - 1 else k - 1) < C" using assms by auto
  have "bit (fold_bits (case_nat b h) C (Suc (Suc n))) k \<longleftrightarrow>
      bit (fold_bits (case_nat b h) C (Suc n)) k \<noteq> (Suc n mod C = k \<and> h n)"
    using bit_fold_bits_Suc [OF assms, of "case_nat b h" "Suc n"] by simp
  then show ?case
    using Suc bit_fold_bits_Suc [OF p assms(2), of h n] mod_Suc_shift [OF assms(1), of n] by (simp only: not_False_eq_True) blast
qed

lemma eq_iff_low_bits:
  fixes a b :: u32
  assumes "\<And>k. C \<le> k \<Longrightarrow> \<not> bit a k" and "\<And>k. C \<le> k \<Longrightarrow> \<not> bit b k"
  shows "a = b \<longleftrightarrow> (\<forall>k < C. bit a k = bit b k)"
  using assms by (metis bit_word_eqI not_less)

lemma u8_odd_bit: "(x :: u8) = 0 \<or> x = 1 \<Longrightarrow> bit (ucast x :: u32) k \<longleftrightarrow> k = 0 \<and> x = 1"
  by (auto simp: bit_simps)

text \<open>The code's step in bits: a rotation of the register, with the newest bit at place 0 and the oldest one taken out.\<close>

lemma bit_fh_fold:
  assumes C: "1 < C" "C < 32" and out: "out < C" and x: "\<And>k. C \<le> k \<Longrightarrow> \<not> bit x k"
    and new: "new = 0 \<or> new = 1" and old: "old = 0 \<or> old = 1"
  shows "bit (fh_fold C out new old x) k \<longleftrightarrow>
    k < C \<and> ((k = 0 \<and> new = 1) \<noteq> (bit x (if k = 0 then C - 1 else k - 1) \<noteq> (out = k \<and> old = 1)))"
proof -
  define y where "y = (push_bit 1 x XOR ucast new) XOR push_bit out (ucast old)"
  have fold: "bit (fh_fold C out new old x) k \<longleftrightarrow> (bit y k \<noteq> bit y (C + k)) \<and> k < C"
  proof -
    have m: "push_bit C 1 - 1 = (mask C :: u32)" by (simp add: mask_eq_exp_minus_1 push_bit_of_1)
    have "fh_fold C out new old x = (y XOR drop_bit C y) AND mask C"
      unfolding fh_fold_def Let_def y_def m by (rule refl)
    then show ?thesis using C by (auto simp: bit_and_iff bit_xor_iff bit_drop_bit_eq bit_mask_iff)
  qed
  have y: "bit y j \<longleftrightarrow> j < 32 \<and> ((j \<noteq> 0 \<and> bit x (j - 1)) \<noteq> ((j = 0 \<and> new = 1) \<noteq> (out = j \<and> old = 1)))" for j
  proof -
    have b1: "bit (push_bit 1 x) j \<longleftrightarrow> j \<noteq> 0 \<and> j < 32 \<and> bit x (j - 1)"
      unfolding Bit_Operations.bit_push_bit_iff by (auto simp: Suc_le_eq)
    have b2: "bit (ucast new :: u32) j \<longleftrightarrow> j = 0 \<and> new = 1" by (rule u8_odd_bit [OF new])
    have "bit (push_bit out (ucast old :: u32)) j \<longleftrightarrow> out \<le> j \<and> j < 32 \<and> bit (ucast old :: u32) (j - out)"
      by (simp add: bit_simps)
    then have b3: "bit (push_bit out (ucast old :: u32)) j \<longleftrightarrow> out = j \<and> old = 1"
      by (simp only: u8_odd_bit [OF old]) (use out C in auto)
    show ?thesis
    proof (cases "j < 32")
      case True
      then show ?thesis unfolding y_def bit_xor_iff b1 b2 b3 by blast
    next
      case False
      then have "j \<noteq> 0" "j \<noteq> out" using out C by auto
      then show ?thesis unfolding y_def bit_xor_iff b1 b2 b3 using False by blast
    qed
  qed
  show ?thesis
  proof (cases "k < C")
    case True
    have "bit y (C + k) \<longleftrightarrow> k = 0 \<and> bit x (C - 1)"
      using y [of "C + k"] x [of "C + k - 1"] True C out by (cases "k = 0") auto
    then show ?thesis unfolding fold using y [of k] True C by auto
  next
    case False
    then show ?thesis unfolding fold by blast
  qed
qed

text \<open>
  So a register agrees with the fold of its history after a step if and only if it did before.
\<close>

lemma fh_fold_sync:
  assumes C: "1 < C" "C < 32" and x: "\<And>k. C \<le> k \<Longrightarrow> \<not> bit x k"
    and h': "h' = case_nat b h"
  shows "fh_fold C (L mod C) (of_bool b) (of_bool (h' L)) x = fold_bits h' C L \<longleftrightarrow> x = fold_bits h C L"
proof -
  have O: "L mod C < C" using C by simp
  have step: "bit (fh_fold C (L mod C) (of_bool b) (of_bool (h' L)) x) k = bit (fold_bits h' C L) k \<longleftrightarrow>
      bit x (if k = 0 then C - 1 else k - 1) = bit (fold_bits h C L) (if k = 0 then C - 1 else k - 1)" if k: "k < C" for k
  proof -
    have "bit (fold_bits h' C (Suc L)) k \<longleftrightarrow> bit (fold_bits h' C L) k \<noteq> (L mod C = k \<and> h' L)"
      using bit_fold_bits_Suc [OF k, of h' L] C by simp
    moreover have "bit (fold_bits h' C (Suc L)) k \<longleftrightarrow> (k = 0 \<and> b) \<noteq> bit (fold_bits h C L) (if k = 0 then C - 1 else k - 1)"
      using bit_fold_bits_step [OF k, of b h L] C h' by simp
    moreover have "bit (fh_fold C (L mod C) (of_bool b) (of_bool (h' L)) x) k \<longleftrightarrow>
        ((k = 0 \<and> b) \<noteq> (bit x (if k = 0 then C - 1 else k - 1) \<noteq> (L mod C = k \<and> h' L)))"
      using bit_fh_fold [OF C O x, of "of_bool b" "of_bool (h' L)" k] k by simp
    ultimately show ?thesis by argo
  qed
  have high: "\<not> bit (fh_fold C (L mod C) (of_bool b) (of_bool (h' L)) x) k" "\<not> bit (fold_bits h' C L) k" if "C \<le> k" for k
    using that bit_fh_fold [OF C O x, of "of_bool b" "of_bool (h' L)" k] bit_fold_bits_ge [of C k h' L] C by auto
  have "fh_fold C (L mod C) (of_bool b) (of_bool (h' L)) x = fold_bits h' C L \<longleftrightarrow>
      (\<forall>k < C. bit (fh_fold C (L mod C) (of_bool b) (of_bool (h' L)) x) k = bit (fold_bits h' C L) k)"
    by (rule eq_iff_low_bits) (use high in blast)+
  also have "\<dots> \<longleftrightarrow> (\<forall>j < C. bit x j = bit (fold_bits h C L) j)"
  proof (rule iffI; intro allI impI)
    fix j assume all: "\<forall>k < C. bit (fh_fold C (L mod C) (of_bool b) (of_bool (h' L)) x) k = bit (fold_bits h' C L) k" and j: "j < C"
    define k where "k = (if j = C - 1 then 0 else Suc j)"
    have k: "k < C" and p: "(if k = 0 then C - 1 else k - 1) = j" using j C by (auto simp: k_def)
    show "bit x j = bit (fold_bits h C L) j" using step [OF k, unfolded p] all k by blast
  next
    fix k assume all: "\<forall>j < C. bit x j = bit (fold_bits h C L) j" and k: "k < C"
    have "(if k = 0 then C - 1 else k - 1) < C" using k by auto
    then show "bit (fh_fold C (L mod C) (of_bool b) (of_bool (h' L)) x) k = bit (fold_bits h' C L) k" using all step [OF k] by blast
  qed
  also have "\<dots> \<longleftrightarrow> x = fold_bits h C L"
  proof (rule eq_iff_low_bits [symmetric])
    show "\<not> bit x k" if "C \<le> k" for k using that by (rule x)
    show "\<not> bit (fold_bits h C L) k" if "C \<le> k" for k by (rule bit_fold_bits_ge [OF _ that]) (use C in simp)
  qed
  finally show ?thesis .
qed


section \<open>The registers follow the history\<close>

lemma hist_pos_eq: "hist_pos y = unat y mod 4096"
  unfolding hist_pos_def HISTBUFFERLENGTH_def
  using take_bit_eq_mask [of 12 y, symmetric] by (simp add: mask_eq_exp_minus_1 take_bit_eq_mod unat_mod)

lemma hist_pos_add: "hist_pos (y + of_nat n) = (unat y + n) mod 4096"
proof -
  have "(4096 :: nat) dvd 2 ^ 32" by simp
  then show ?thesis
    unfolding hist_pos_eq unat_word_ariths(1)
    by (simp add: unsigned_of_nat take_bit_eq_mod mod_mod_cancel mod_add_right_eq)
qed

lemma hist_pos_newest: "0 < n \<Longrightarrow> n < 4096 \<Longrightarrow> hist_pos (y + of_nat n) \<noteq> hist_pos y"
proof
  assume n: "0 < n" "n < 4096" and eq: "hist_pos (y + of_nat n) = hist_pos y"
  have "(unat y + n) mod 4096 = unat y mod 4096" using eq hist_pos_eq [of y] by (simp only: hist_pos_add)
  then have "4096 dvd n" using mod_eq_dvd_iff_nat [of "unat y" "unat y + n" 4096] by simp
  then show False using n by (auto dest: dvd_imp_le)
qed

text \<open>The youngest bits, newest first.\<close>

definition hi_window :: "tage_hist \<Rightarrow> nat \<Rightarrow> bool" where
  "hi_window s j = (hist_bit (hi_ghist s) (hi_ptghist s) j = 1)"

text \<open>The register of one bank agrees with the history it stands for.\<close>

definition fh_follows :: "tage_hist \<Rightarrow> folded_history \<Rightarrow> bool" where
  "fh_follows s f \<longleftrightarrow> fh_comp f = fold_bits (hi_window s) (fh_CLENGTH f) (fh_OLENGTH f)"

definition hi_follows :: "nat \<Rightarrow> tage_hist \<Rightarrow> bool" where
  "hi_follows i s \<longleftrightarrow> fh_follows s (hi_ch_i s i) \<and> fh_follows s (hi_ch_t0 s i) \<and> fh_follows s (hi_ch_t1 s i)"

definition fh_ok :: "nat \<Rightarrow> folded_history \<Rightarrow> bool" where
  "fh_ok L f \<longleftrightarrow> 1 < fh_CLENGTH f \<and> fh_CLENGTH f < 32 \<and> fh_OLENGTH f = L \<and> fh_OUTPOINT f = L mod fh_CLENGTH f \<and>
    (\<forall>k \<ge> fh_CLENGTH f. \<not> bit (fh_comp f) k)"

definition hi_ok :: "tage_config \<Rightarrow> tage_hist \<Rightarrow> bool" where
  "hi_ok c s \<longleftrightarrow> (\<forall>k. hi_ghist s k = 0 \<or> hi_ghist s k = 1) \<and>
    (\<forall>i. 1 \<le> i \<longrightarrow> i \<le> tc_NHIST c \<longrightarrow>
      fh_ok (tc_m c i) (hi_ch_i s i) \<and> fh_ok (tc_m c i) (hi_ch_t0 s i) \<and> fh_ok (tc_m c i) (hi_ch_t1 s i) \<and>
      fh_CLENGTH (hi_ch_i s i) = index_width i \<and> fh_CLENGTH (hi_ch_t0 s i) = 13 \<and> fh_CLENGTH (hi_ch_t1 s i) = 11)"

definition tc_ok :: "tage_config \<Rightarrow> bool" where
  "tc_ok c \<longleftrightarrow> (\<forall>i \<le> tc_NHIST c. tc_m c i < HISTBUFFERLENGTH)"

lemma fold_bits_cong: "(\<And>j. j < n \<Longrightarrow> h j = h' j) \<Longrightarrow> fold_bits h C n = fold_bits h' C n"
  by (induction n) auto

lemma index_width_bounds: "1 < index_width i" "index_width i < 32"
proof -
  have "(2 * ((i - 1) div 2)) mod 4 < 4" by simp
  then show "1 < index_width i" "index_width i < 32" by (simp_all add: index_width_def del: mod_less_divisor)
qed

lemma fh_ok_init: "1 < C \<Longrightarrow> C < 32 \<Longrightarrow> fh_ok L (fh_init L C)"
  by (simp add: fh_ok_def fh_init_def)

lemma fh_update_fields [simp]:
  "fh_CLENGTH (fh_update g y f) = fh_CLENGTH f" "fh_OLENGTH (fh_update g y f) = fh_OLENGTH f"
  "fh_OUTPOINT (fh_update g y f) = fh_OUTPOINT f"
  by (simp_all add: fh_update_def)

lemma hi_shift_in_fields [simp]:
  "hi_ptghist (hi_shift_in c b s) = hi_ptghist s - 1"
  "hi_ghist (hi_shift_in c b s) = (hi_ghist s)(hist_pos (hi_ptghist s - 1) := of_bool b)"
  by (simp_all add: hi_shift_in_def Let_def)

lemma hi_window_shift_in:
  assumes "j < 4096"
  shows "hi_window (hi_shift_in c b s) j = case_nat b (hi_window s) j"
proof (cases j)
  case 0
  then show ?thesis by (simp add: hi_window_def hist_bit_def)
next
  case (Suc n)
  have "hi_ptghist s - 1 + of_nat (Suc n) = hi_ptghist s + of_nat n" by simp
  moreover have "hist_pos (hi_ptghist s - 1 + of_nat (Suc n)) \<noteq> hist_pos (hi_ptghist s - 1)"
    by (rule hist_pos_newest) (use assms Suc in auto)
  ultimately show ?thesis using Suc by (simp add: hi_window_def hist_bit_def)
qed

lemma fh_update_step:
  fixes b :: bool and c :: tage_config
  assumes f: "fh_ok L f" and L: "L < 4096" and g: "\<And>k. hi_ghist s k = 0 \<or> hi_ghist s k = 1"
  defines "f' \<equiv> fh_update (hi_ghist (hi_shift_in c b s)) (hi_ptghist s - 1) f"
  shows "fh_ok L f'" and "fh_follows (hi_shift_in c b s) f' \<longleftrightarrow> fh_follows s f"
proof -
  let ?s = "hi_shift_in c b s" and ?C = "fh_CLENGTH f"
  have C: "1 < ?C" "?C < 32" and O: "fh_OLENGTH f = L" "fh_OUTPOINT f = L mod ?C" and x: "\<And>k. ?C \<le> k \<Longrightarrow> \<not> bit (fh_comp f) k"
    using f by (auto simp: fh_ok_def)
  have bool01: "\<And>k. hi_ghist ?s k = 0 \<or> hi_ghist ?s k = 1" using g by auto
  have old: "hi_ghist ?s (hist_pos (hi_ptghist s - 1 + of_nat L)) = of_bool (hi_window ?s L)"
    using bool01 [of "hist_pos (hi_ptghist s - 1 + of_nat L)"] by (auto simp: hi_window_def hist_bit_def)
  have comp: "fh_comp f' = fh_fold ?C (L mod ?C) (of_bool b) (of_bool (case_nat b (hi_window s) L)) (fh_comp f)"
    using O old hi_window_shift_in [OF L, of c b s] by (simp add: f'_def fh_update_def)
  have O': "L mod ?C < ?C" using C by simp
  show "fh_ok L f'"
    using C O bit_fh_fold [OF C O' x, of "of_bool b" "of_bool (case_nat b (hi_window s) L)"]
    by (simp add: fh_ok_def comp) (simp add: f'_def)
  have fields: "fh_CLENGTH f' = ?C" "fh_OLENGTH f' = L" using O by (simp_all add: f'_def)
  have win: "fold_bits (hi_window ?s) ?C L = fold_bits (case_nat b (hi_window s)) ?C L"
    by (rule fold_bits_cong) (use hi_window_shift_in L in auto)
  show "fh_follows ?s f' \<longleftrightarrow> fh_follows s f"
    unfolding fh_follows_def comp fields O(1) win by (rule fh_fold_sync [OF C x refl])
qed

text \<open>What the folded registers are about.\<close>

definition hi_core ::
    "tage_hist \<Rightarrow> (nat \<Rightarrow> u8) \<times> u32 \<times> (nat \<Rightarrow> folded_history) \<times> (nat \<Rightarrow> folded_history) \<times> (nat \<Rightarrow> folded_history)" where
  "hi_core s = (hi_ghist s, hi_ptghist s, hi_ch_i s, hi_ch_t0 s, hi_ch_t1 s)"

lemma hi_core_cong:
  assumes "hi_core s' = hi_core s"
  shows "hi_ok c s' = hi_ok c s" and "hi_follows i s' = hi_follows i s"
  using assms by (simp_all add: hi_core_def hi_ok_def hi_follows_def fh_follows_def hi_window_def cong: conj_cong) (simp add: hi_window_def [abs_def])

lemma hi_shift_in_banks:
  assumes "1 \<le> i" and "i \<le> tc_NHIST c"
  shows "hi_ch_i (hi_shift_in c b s) i = fh_update (hi_ghist (hi_shift_in c b s)) (hi_ptghist s - 1) (hi_ch_i s i)"
    and "hi_ch_t0 (hi_shift_in c b s) i = fh_update (hi_ghist (hi_shift_in c b s)) (hi_ptghist s - 1) (hi_ch_t0 s i)"
    and "hi_ch_t1 (hi_shift_in c b s) i = fh_update (hi_ghist (hi_shift_in c b s)) (hi_ptghist s - 1) (hi_ch_t1 s i)"
  using assms by (simp_all add: hi_shift_in_def Let_def)

lemma hi_shift_in_sync:
  assumes c: "tc_ok c" and s: "hi_ok c s"
  shows "hi_ok c (hi_shift_in c b s)"
    and "1 \<le> i \<Longrightarrow> i \<le> tc_NHIST c \<Longrightarrow> hi_follows i (hi_shift_in c b s) = hi_follows i s"
proof -
  have g: "\<And>k. hi_ghist s k = 0 \<or> hi_ghist s k = 1" using s by (simp add: hi_ok_def)
  have L: "tc_m c i < 4096" if "i \<le> tc_NHIST c" for i using c that by (simp add: tc_ok_def HISTBUFFERLENGTH_def)
  note step = fh_update_step [OF _ L g, where c = c and b = b]
  show "hi_ok c (hi_shift_in c b s)"
    using s step(1) by (simp add: hi_ok_def hi_shift_in_banks del: hi_shift_in_fields(2)) (simp add: g)
  assume i: "1 \<le> i" "i \<le> tc_NHIST c"
  then have ok: "fh_ok (tc_m c i) (hi_ch_i s i)" "fh_ok (tc_m c i) (hi_ch_t0 s i)" "fh_ok (tc_m c i) (hi_ch_t1 s i)"
    using s by (simp_all add: hi_ok_def)
  show "hi_follows i (hi_shift_in c b s) = hi_follows i s"
    unfolding hi_follows_def hi_shift_in_banks [OF i] using step(2) [OF ok(1) i(2)] step(2) [OF ok(2) i(2)] step(2) [OF ok(3) i(2)]
    by blast
qed

lemma hi_shift_loop_sync:
  assumes c: "tc_ok c"
  shows "hi_ok c s \<Longrightarrow> hi_ok c (hi_shift_loop c n T s) \<and>
    (1 \<le> i \<longrightarrow> i \<le> tc_NHIST c \<longrightarrow> hi_follows i (hi_shift_loop c n T s) = hi_follows i s)"
  by (induction n arbitrary: T s) (use hi_shift_in_sync [OF c] in auto)

lemma hi_save_prev_core [simp]: "hi_core (hi_save_prev s) = hi_core s"
  by (simp add: hi_core_def hi_save_prev_def)

lemma hi_views_core [simp]: "hi_core (hi_views s) = hi_core s"
  by (simp add: hi_views_def) (simp add: hi_core_def)

lemma hi_count_loops_core [simp]: "hi_core (hi_count_loops c pc target s) = hi_core s"
  by (simp add: hi_count_loops_def Let_def hi_core_def)

lemma hi_note_core [simp]:
  "hi_core (hi_note_successor pc taken target s) = hi_core s" "hi_core (hi_note_jump c br pc taken target s) = hi_core s"
proof -
  show "hi_core (hi_note_successor pc taken target s) = hi_core s" by (simp add: hi_note_successor_def Let_def hi_core_def)
  have "hi_core (s\<lparr>hi_FHIST := x\<rparr>) = hi_core s" for x s by (simp add: hi_core_def)
  then show "hi_core (hi_note_jump c br pc taken target s) = hi_core s" by (simp add: hi_note_jump_def Let_def)
qed

lemma hi_push_path_sync:
  assumes c: "tc_ok c" and s: "hi_ok c s"
  shows "hi_ok c (hi_push_path c taken target s) \<and>
    (1 \<le> i \<longrightarrow> i \<le> tc_NHIST c \<longrightarrow> hi_follows i (hi_push_path c taken target s) = hi_follows i s)"
proof -
  define s1 where "s1 = s\<lparr>hi_phist := (push_bit 4 (hi_phist s) XOR scast (ucast ((hi_PCBLOCK s XOR push_bit 5 (hi_Numero s)) XOR drop_bit 2 (hi_PCBLOCK s XOR push_bit 5 (hi_Numero s)) XOR drop_bit 4 (hi_PCBLOCK s XOR push_bit 5 (hi_Numero s)) XOR target XOR push_bit 3 (push_bit 1 (hi_Numero s) + of_bool taken)) :: u32)) AND (push_bit 27 1 - 1)\<rparr>"
  obtain T where p: "hi_push_path c taken target s = hi_shift_loop c 4 T s1"
    unfolding hi_push_path_def Let_def s1_def by blast
  have s1c: "hi_core s1 = hi_core s" by (simp add: s1_def hi_core_def)
  have "hi_ok c s1" using s hi_core_cong(1) [OF s1c] by simp
  from hi_shift_loop_sync [OF c this, of 4 T i] show ?thesis unfolding p using hi_core_cong(2) [OF s1c] by simp
qed

lemma ta_HistoryUpdate_sync:
  assumes c: "tc_ok c" and s: "hi_ok c s" and run: "ta_HistoryUpdate c pc op taken target s = Inr s'"
  shows "hi_ok c s' \<and> (1 \<le> i \<longrightarrow> i \<le> tc_NHIST c \<longrightarrow> hi_follows i s' = hi_follows i s)"
proof (cases "hi_Numero s = MAXBR - 1 \<or> taken")
  case True
  then obtain br s1 where s1: "s1 = hi_note_jump c br pc taken target (hi_note_successor pc taken target s)"
      and s': "hi_core s' = hi_core (hi_push_path c taken target s1)"
    using run unfolding ta_HistoryUpdate_def hi_block_end_def Let_def
    by (auto simp only: if_True bind_res_Inr_iff Inr_inject hi_views_core) (auto simp: hi_core_def)
  have s1c: "hi_core s1 = hi_core s" by (simp add: s1)
  have "hi_ok c s1" using s hi_core_cong(1) [OF s1c] by simp
  from hi_push_path_sync [OF c this, of taken target i] show ?thesis
    using hi_core_cong [OF s'] hi_core_cong [OF s1c] by simp
next
  case False
  then have "hi_core s' = hi_core s"
    using run by (auto simp: ta_HistoryUpdate_def) (simp add: hi_core_def)
  from hi_core_cong [OF this] show ?thesis using s by simp
qed

text \<open>A program for the predictor: the branches in their order, with their outcomes and targets.\<close>

fun hi_run :: "tage_config \<Rightarrow> (u64 \<times> opcode \<times> bool \<times> u64) list \<Rightarrow> tage_hist \<Rightarrow> tage_hist res" where
  "hi_run c [] s = Inr s"
| "hi_run c ((pc, op, taken, target) # es) s = bind_res (ta_HistoryUpdate c pc op taken target s) (hi_run c es)"

lemma hi_run_sync:
  assumes c: "tc_ok c"
  shows "hi_run c es s = Inr s' \<Longrightarrow> hi_ok c s \<Longrightarrow> hi_ok c s' \<and>
    (1 \<le> i \<longrightarrow> i \<le> tc_NHIST c \<longrightarrow> hi_follows i s' = hi_follows i s)"
proof (induction es arbitrary: s)
  case (Cons e es)
  obtain pc op taken target where e: "e = (pc, op, taken, target)" by (cases e)
  with Cons.prems(1) obtain s1 where s1: "ta_HistoryUpdate c pc op taken target s = Inr s1" and run: "hi_run c es s1 = Inr s'"
    by (auto simp: bind_res_Inr_iff)
  note step = ta_HistoryUpdate_sync [OF c Cons.prems(2) s1, of i]
  from Cons.IH [OF run] step show ?case by blast
qed auto

lemma hi_reinit_ok: "\<forall>k. hi_ghist s k = 0 \<or> hi_ghist s k = 1 \<Longrightarrow> hi_ok c (hi_reinit c s)"
  by (simp add: hi_ok_def hi_reinit_def Let_def fh_ok_init index_width_bounds [simplified] fh_init_def [of _ "_ :: nat", THEN arg_cong [where f = fh_CLENGTH]])

lemma fold_bits_False: "fold_bits (\<lambda>_. False) C n = 0"
  by (induction n) auto

lemma hi_reinit_banks:
  assumes "1 \<le> i" and "i \<le> tc_NHIST c"
  shows "hi_ch_i (hi_reinit c s) i = fh_init (tc_m c i) (index_width i)" "hi_ch_t0 (hi_reinit c s) i = fh_init (tc_m c i) 13"
    "hi_ch_t1 (hi_reinit c s) i = fh_init (tc_m c i) 11"
  using assms by (simp_all add: hi_reinit_def Let_def)

text \<open>
  C10. Whatever branches the program runs, the three folded registers of every bank of the predictor hold the exclusive or of the
  pieces of the last \<open>m\<close> bits of the history.
\<close>

theorem folded_registers_follow_history:
  assumes c: "tc_ok c" and run: "hi_run c es (hi_reinit c hi_globals) = Inr s" and i: "1 \<le> i" "i \<le> tc_NHIST c"
  shows "fh_comp (hi_ch_i s i) = fold_bits (hi_window s) (index_width i) (tc_m c i) \<and>
    fh_comp (hi_ch_t0 s i) = fold_bits (hi_window s) 13 (tc_m c i) \<and>
    fh_comp (hi_ch_t1 s i) = fold_bits (hi_window s) 11 (tc_m c i)"
proof -
  have ok: "hi_ok c (hi_reinit c hi_globals)" by (rule hi_reinit_ok) (simp add: hi_globals_def)
  have "hi_window (hi_reinit c hi_globals) = (\<lambda>_. False)"
    by (rule ext) (simp add: hi_window_def hist_bit_def hi_reinit_def Let_def hi_globals_def)
  then have "hi_follows i (hi_reinit c hi_globals)"
    by (simp add: hi_follows_def fh_follows_def hi_reinit_banks [OF i] fold_bits_False) (simp add: fh_init_def)
  then have "hi_follows i s" "hi_ok c s" using hi_run_sync [OF c run ok, of i] i by simp_all
  then show ?thesis using i by (simp add: hi_follows_def fh_follows_def hi_ok_def fh_ok_def)
qed

text \<open>The rounded values of \<open>pow\<close> for \<open>tahead.hpp\<close>.\<close>

definition geo_14 :: "nat \<Rightarrow> nat" where
  "geo_14 i = [0, 2, 3, 4, 6, 9, 13, 19, 27, 39, 57, 82, 119, 172, 250] ! i"

lemma tahead_config_ok: "tc_ok (tahead_config geo_14)"
proof -
  have "\<forall>i \<in> set [0..<15]. tc_m (tahead_config geo_14) i < HISTBUFFERLENGTH" by code_simp
  then show ?thesis by (auto simp: tc_ok_def tahead_config_def)
qed

text \<open>A loop branch, taken once and then not.\<close>

definition tage_example_run :: "(u64 \<times> opcode \<times> bool \<times> u64) list" where
  "tage_example_run = [(0x400120, iBALU_LBRANCH, True, 0x400100), (0x400120, iBALU_LBRANCH, False, 0x400100)]"

definition tage_example_hist :: "tage_hist res" where
  "tage_example_hist = hi_run (tahead_config geo_14) tage_example_run (hi_reinit (tahead_config geo_14) hi_globals)"

lemma ta_HistoryUpdate_total: "hi_brtype op = Inr b \<Longrightarrow> \<exists>s'. ta_HistoryUpdate c pc op taken target s = Inr s'"
  by (simp add: ta_HistoryUpdate_def hi_block_end_def Let_def)

lemma hi_run_total: "\<forall>(pc, op, taken, target) \<in> set es. \<exists>b. hi_brtype op = Inr b \<Longrightarrow> \<exists>s'. hi_run c es s = Inr s'"
proof (induction es arbitrary: s)
  case (Cons e es)
  obtain pc op taken target where e: "e = (pc, op, taken, target)" by (cases e)
  then obtain b where "hi_brtype op = Inr b" using Cons.prems by auto
  then obtain s1 where "ta_HistoryUpdate c pc op taken target s = Inr s1" using ta_HistoryUpdate_total by blast
  moreover obtain s' where "hi_run c es s1 = Inr s'" using Cons by auto
  ultimately show ?case by (simp add: e)
qed simp

lemma tage_example_hist_ok: "\<exists>s. tage_example_hist = Inr s"
  unfolding tage_example_hist_def by (rule hi_run_total) (simp add: tage_example_run_def hi_brtype_def)

theorem folded_registers_follow_history_witness:
  "\<exists>s. tage_example_hist = Inr s \<and> fh_comp (hi_ch_i s 3) = fold_bits (hi_window s) (index_width 3) (tc_m (tahead_config geo_14) 3) \<and>
    fh_comp (hi_ch_t0 s 3) = fold_bits (hi_window s) 13 (tc_m (tahead_config geo_14) 3) \<and>
    fh_comp (hi_ch_t1 s 3) = fold_bits (hi_window s) 11 (tc_m (tahead_config geo_14) 3)"
proof -
  obtain s where s: "tage_example_hist = Inr s" using tage_example_hist_ok by blast
  have n: "3 \<le> tc_NHIST (tahead_config geo_14)" by (simp add: tahead_config_def)
  have one: "1 \<le> (3 :: nat)" by simp
  from folded_registers_follow_history [OF tahead_config_ok s [unfolded tage_example_hist_def] one n] show ?thesis using s by blast
qed

text \<open>
  C40. A second predictor of the class is constructed when another one has run and left its history \<open>u\<close>: \<open>reinit\<close> clears the registers
  but only one bit of the history they share. If the rest of the history does not fold to zero then no sequence of branches ever makes the register of that
  bank agree with the history again.
\<close>

theorem stale_history_is_never_forgotten:
  assumes c: "tc_ok c" and bits: "\<forall>k. hi_ghist u k = 0 \<or> hi_ghist u k = 1"
    and run: "hi_run c es (hi_reinit c u) = Inr s" and i: "1 \<le> i" "i \<le> tc_NHIST c"
    and stale: "fold_bits (hi_window (hi_reinit c u)) (index_width i) (tc_m c i) \<noteq> 0"
  shows "\<not> hi_follows i s"
proof -
  have ok: "hi_ok c (hi_reinit c u)" using bits by (rule hi_reinit_ok)
  have "\<not> hi_follows i (hi_reinit c u)"
    using stale by (simp add: hi_follows_def fh_follows_def hi_reinit_banks [OF i]) (simp add: fh_init_def)
  then show ?thesis using hi_run_sync [OF c run ok, of i] i by simp
qed

text \<open>One bit left over by the other predictor.\<close>

definition tage_stale_hist :: tage_hist where
  "tage_stale_hist = hi_globals\<lparr>hi_ghist := (\<lambda>k. of_bool (k = 5))\<rparr>"

theorem stale_history_is_never_forgotten_witness:
  "\<exists>s. hi_run (tahead_config geo_14) tage_example_run (hi_reinit (tahead_config geo_14) tage_stale_hist) = Inr s \<and> \<not> hi_follows 3 s"
proof -
  obtain s where s: "hi_run (tahead_config geo_14) tage_example_run (hi_reinit (tahead_config geo_14) tage_stale_hist) = Inr s"
    using hi_run_total [of tage_example_run] by (force simp: tage_example_run_def hi_brtype_def)
  have one: "1 \<le> (3 :: nat)" and n: "3 \<le> tc_NHIST (tahead_config geo_14)" by (simp_all add: tahead_config_def)
  have bits: "\<forall>k. hi_ghist tage_stale_hist k = 0 \<or> hi_ghist tage_stale_hist k = 1" by (simp add: tage_stale_hist_def)
  have "fold_bits (hi_window (hi_reinit (tahead_config geo_14) tage_stale_hist)) (index_width 3) (tc_m (tahead_config geo_14) 3) \<noteq> 0"
    by code_simp
  from stale_history_is_never_forgotten [OF tahead_config_ok bits s one n this] s show ?thesis by blast
qed

end
