(* ===== verification/Tage_Engine.thy ===== *)
theory Tage_Engine
  imports Tage_History
begin

text \<open>
  The two TAGE predictors with their statistical corrector (\<open>simu/tahead.hpp\<close>, class \<open>Tahead\<close>, and \<open>simu/tahead1.hpp\<close>, class
  \<open>Tahead1\<close>), as they are compiled: associativity 2, no banks shared, two bits of usefulness, a corrector with four history
  tables. Counters are integers, a table is a function of its index; \<open>Tage_Facts\<close> shows that no index leaves its table. All
  of the state is in global variables: one record stands for them, and two objects of a class share it.
\<close>

section \<open>State\<close>

record bentry =
  be_hyst :: int
  be_pred :: int

record gentry =
  ge_ctr :: int
  ge_tag :: u32
  ge_u :: int

text \<open>What a lookup leaves for the update.\<close>

record tage_look =
  lk_AHGI :: "nat \<Rightarrow> nat \<Rightarrow> u32"
  lk_AHGTAG :: "nat \<Rightarrow> nat \<Rightarrow> u32"
  lk_GI :: "nat \<Rightarrow> u32"
  lk_GGI :: "nat \<Rightarrow> nat \<Rightarrow> u32"
  lk_GTAG :: "nat \<Rightarrow> u32"
  lk_BI :: nat
  lk_HitBank :: nat
  lk_AltBank :: nat
  lk_HCpredBank :: nat
  lk_HitAssoc :: nat
  lk_AltAssoc :: nat
  lk_HCpredAssoc :: nat
  lk_alttaken :: bool
  lk_HCpred :: bool
  lk_tage_pred :: bool
  lk_LongestMatchPred :: bool
  lk_BIM :: int
  lk_TAGECONF :: int

text \<open>The statistical corrector.\<close>

record tage_corrector =
  cr_BiasGEN :: int
  cr_BiasAP :: "bool \<Rightarrow> int"
  cr_BiasLM :: "bool \<Rightarrow> int"
  cr_BiasLMAP :: "nat \<Rightarrow> int"
  cr_BiasPC :: "nat \<Rightarrow> int"
  cr_BiasPCLMAP :: "nat \<Rightarrow> int"
  cr_IBIAS :: "nat \<Rightarrow> int"
  cr_IIBIAS :: "nat \<Rightarrow> int"
  cr_BBIAS :: "nat \<Rightarrow> int"
  cr_FBIAS :: "nat \<Rightarrow> int"
  cr_updatethreshold :: int
  cr_SUMSC :: int
  cr_SUMFULL :: int
  cr_predTSC :: bool
  cr_predSC :: bool

record tahead =
  ta_hist :: tage_hist
  ta_look :: tage_look
  ta_corr :: tage_corrector
  ta_btable :: "nat \<Rightarrow> bentry"
  ta_gtable :: "nat \<Rightarrow> nat \<Rightarrow> gentry"
  ta_Seed :: u32
  ta_CountMiss11 :: int
  ta_CountLowConf :: int
  ta_TICK :: int
  ta_TICKH :: int
  ta_pred_taken :: bool

definition PHISTWIDTH :: nat where "PHISTWIDTH = 27"
definition TBITS :: nat where "TBITS = 12"
definition CWIDTH :: nat where "CWIDTH = 3"
definition UWIDTH :: nat where "UWIDTH = 2"
definition BIMWIDTH :: nat where "BIMWIDTH = 3"
definition PERCWIDTH :: nat where "PERCWIDTH = 6"
definition WIDTHRES :: nat where "WIDTHRES = 8"
definition LOGASSOC :: nat where "LOGASSOC = 1"
definition ASSOC :: nat where "ASSOC = 2"
definition HYSTSHIFT :: nat where "HYSTSHIFT = 1"
definition NBREADPERTABLE :: u64 where "NBREADPERTABLE = 4"
definition BORNTICK :: int where "BORNTICK = 4096"

section \<open>Construction\<close>

definition ge_init :: gentry where "ge_init = \<lparr>ge_ctr = 0, ge_tag = 0, ge_u = 0\<rparr>"
definition be_init :: bentry where "be_init = \<lparr>be_hyst = 1, be_pred = 0\<rparr>"

definition bias_init :: "nat \<Rightarrow> (nat \<Rightarrow> int) \<Rightarrow> nat \<Rightarrow> int" where
  "bias_init lg old j = (if j < 2 ^ lg - 1 \<and> even j then - 1 else old j)"

definition bias_lmap_init :: "nat \<Rightarrow> (nat \<Rightarrow> int) \<Rightarrow> nat \<Rightarrow> int" where
  "bias_lmap_init lg old j =
    (if j < 2 ^ lg then [- 8, 7, - 32, 31] ! (j mod 4) else old j)"

definition cr_reinit :: "tage_config \<Rightarrow> tage_corrector \<Rightarrow> tage_corrector" where
  "cr_reinit c r =
    r\<lparr>cr_updatethreshold := 23, cr_BBIAS := bias_init (tc_LOGBIAS c) (cr_BBIAS r), cr_FBIAS := bias_init (tc_LOGBIAS c) (cr_FBIAS r),
      cr_IBIAS := bias_init (tc_LOGBIAS c) (cr_IBIAS r), cr_IIBIAS := bias_init (tc_LOGBIAS c) (cr_IIBIAS r),
      cr_BiasPCLMAP := bias_lmap_init (tc_LOGBIAS c) (cr_BiasPCLMAP r)\<rparr>"

definition ta_reinit :: "tage_config \<Rightarrow> tahead \<Rightarrow> tahead" where
  "ta_reinit c s =
    s\<lparr>ta_hist := hi_reinit c (ta_hist s), ta_gtable := (\<lambda>i. if 1 \<le> i \<and> i \<le> tc_NHIST c then \<lambda>_. ge_init else ta_gtable s i),
      ta_btable := (\<lambda>_. be_init), ta_Seed := 0, ta_TICK := 0, ta_corr := cr_reinit c (ta_corr s)\<rparr>"

text \<open>The globals when the program starts.\<close>

definition lk_globals :: tage_look where
  "lk_globals =
    \<lparr>lk_AHGI = (\<lambda>_ _. 0), lk_AHGTAG = (\<lambda>_ _. 0), lk_GI = (\<lambda>_. 0), lk_GGI = (\<lambda>_ _. 0), lk_GTAG = (\<lambda>_. 0), lk_BI = 0,
     lk_HitBank = 0, lk_AltBank = 0, lk_HCpredBank = 0, lk_HitAssoc = 0, lk_AltAssoc = 0, lk_HCpredAssoc = 0,
     lk_alttaken = False, lk_HCpred = False, lk_tage_pred = False, lk_LongestMatchPred = False, lk_BIM = 0, lk_TAGECONF = 0\<rparr>"

definition cr_globals :: tage_corrector where
  "cr_globals =
    \<lparr>cr_BiasGEN = 0, cr_BiasAP = (\<lambda>_. 0), cr_BiasLM = (\<lambda>_. 0), cr_BiasLMAP = (\<lambda>_. 0), cr_BiasPC = (\<lambda>_. 0), cr_BiasPCLMAP = (\<lambda>_. 0),
     cr_IBIAS = (\<lambda>_. 0), cr_IIBIAS = (\<lambda>_. 0), cr_BBIAS = (\<lambda>_. 0), cr_FBIAS = (\<lambda>_. 0), cr_updatethreshold = 0, cr_SUMSC = 0,
     cr_SUMFULL = 0, cr_predTSC = False, cr_predSC = False\<rparr>"

definition ta_globals :: tahead where
  "ta_globals =
    \<lparr>ta_hist = hi_globals, ta_look = lk_globals, ta_corr = cr_globals, ta_btable = (\<lambda>_. be_init), ta_gtable = (\<lambda>_ _. ge_init), ta_Seed = 0,
     ta_CountMiss11 = - 64, ta_CountLowConf = 0, ta_TICK = 0, ta_TICKH = 0, ta_pred_taken = False\<rparr>"

section \<open>Indices and tags\<close>

text \<open>The values stay below \<open>2 ^ 27\<close>, so shifts of signed and of unsigned numbers agree.\<close>

definition ta_rotate :: "nat \<Rightarrow> nat \<Rightarrow> u32 \<Rightarrow> u32" where
  "ta_rotate logg bank a =
    (if bank < logg then (push_bit bank a AND (push_bit logg 1 - 1)) XOR drop_bit (logg - bank) a else a)"

definition ta_F :: "tage_config \<Rightarrow> u64 \<Rightarrow> nat \<Rightarrow> nat \<Rightarrow> u32" where
  "ta_F c A sz bank =
    (let logg = tc_LOGG c;
         A = A AND (push_bit sz 1 - 1);
         A1 = ucast (A AND (push_bit logg 1 - 1));
         A2 = ta_rotate logg bank (ucast (drop_bit logg A))
     in ta_rotate logg bank (A1 XOR A2))"

definition ta_path_width :: "tage_config \<Rightarrow> nat \<Rightarrow> nat" where
  "ta_path_width c bank = (if tc_m c bank > PHISTWIDTH then PHISTWIDTH else tc_m c bank)"

definition ta_gindex :: "tage_config \<Rightarrow> u32 \<Rightarrow> nat \<Rightarrow> tage_hist \<Rightarrow> u32" where
  "ta_gindex c PC bank h =
    (let logg = tc_LOGG c;
         index = PC XOR drop_bit (nat \<bar>int logg - int bank\<bar> + 1) PC XOR fh_comp (hi_ch_i h bank)
                 XOR ta_F c (hi_phist h) (ta_path_width c bank) bank
     in (index XOR drop_bit logg index XOR drop_bit (2 * logg) index) AND (push_bit logg 1 - 1))"

definition ta_gtag :: "tage_config \<Rightarrow> u32 \<Rightarrow> nat \<Rightarrow> tage_hist \<Rightarrow> u32" where
  "ta_gtag c PC bank h =
    (let tag = PC XOR drop_bit 2 PC;
         tag = signed_drop_bit 1 tag XOR push_bit 10 (tag AND 1) XOR ta_F c (hi_phist h) (ta_path_width c bank) bank;
         tag = tag XOR (fh_comp (hi_ch_t0 h bank) XOR push_bit 1 (fh_comp (hi_ch_t1 h bank)));
         tag = tag XOR signed_drop_bit TBITS tag;
         tag = tag XOR signed_drop_bit (TBITS - 2) tag
     in tag AND (push_bit TBITS 1 - 1))"

definition ta_table_size :: "tage_config \<Rightarrow> nat" where
  "ta_table_size c = 2 ^ tc_LOGG c * ASSOC"

text \<open>\<open>get_TAHEAD_gtable_entry\<close> and \<open>get_TAHEAD_btable_entry\<close> take the index modulo the size.\<close>

definition ta_gentry :: "tage_config \<Rightarrow> nat \<Rightarrow> nat \<Rightarrow> tahead \<Rightarrow> gentry" where
  "ta_gentry c i j s = ta_gtable s i (j mod ta_table_size c)"

definition ta_on_gentry :: "tage_config \<Rightarrow> nat \<Rightarrow> nat \<Rightarrow> (gentry \<Rightarrow> gentry) \<Rightarrow> tahead \<Rightarrow> tahead" where
  "ta_on_gentry c i j f s =
    s\<lparr>ta_gtable := (ta_gtable s)(i := (ta_gtable s i)(j mod ta_table_size c := f (ta_gentry c i j s)))\<rparr>"

definition ta_bentry :: "tage_config \<Rightarrow> nat \<Rightarrow> tahead \<Rightarrow> bentry" where
  "ta_bentry c j s = ta_btable s (j mod 2 ^ tc_LOGB c)"

definition ta_on_bentry :: "tage_config \<Rightarrow> nat \<Rightarrow> (bentry \<Rightarrow> bentry) \<Rightarrow> tahead \<Rightarrow> tahead" where
  "ta_on_bentry c j f s = s\<lparr>ta_btable := (ta_btable s)(j mod 2 ^ tc_LOGB c := f (ta_bentry c j s))\<rparr>"

section \<open>Counters\<close>

definition ctrupdate :: "int \<Rightarrow> bool \<Rightarrow> nat \<Rightarrow> int" where
  "ctrupdate ctr taken nbits =
    (if taken then (if ctr < 2 ^ (nbits - 1) - 1 then ctr + 1 else ctr)
     else (if ctr > - (2 ^ (nbits - 1)) then ctr - 1 else ctr))"

definition incval :: "int \<Rightarrow> int" where "incval ctr = 2 * ctr + 1"

definition ge_weak :: "gentry \<Rightarrow> bool" where "ge_weak e \<longleftrightarrow> \<bar>2 * ge_ctr e + 1\<bar> = 1"

text \<open>The counter of the bimodal table is split into its sign and its strength, and two signs share a strength.\<close>

definition ta_getbim :: "tage_config \<Rightarrow> tahead \<Rightarrow> bool \<times> tahead" where
  "ta_getbim c s =
    (let b = ta_bentry c (lk_BI (ta_look s)) s; h = ta_bentry c (lk_BI (ta_look s) div 2 ^ HYSTSHIFT) s
     in (be_pred b \<noteq> 0,
         s\<lparr>ta_look := (ta_look s)\<lparr>lk_BIM := (if be_pred b \<noteq> 0 then be_hyst h else - 1 - be_hyst h),
                                  lk_TAGECONF := 3 * of_bool (be_hyst h \<noteq> 0)\<rparr>\<rparr>))"

definition ta_baseupdate :: "tage_config \<Rightarrow> bool \<Rightarrow> tahead \<Rightarrow> tahead" where
  "ta_baseupdate c Taken s =
    (let i = ctrupdate (lk_BIM (ta_look s)) Taken BIMWIDTH;
         s = ta_on_bentry c (lk_BI (ta_look s)) (\<lambda>b. b\<lparr>be_pred := of_bool (i \<ge> 0)\<rparr>) s
     in ta_on_bentry c (lk_BI (ta_look s) div 2 ^ HYSTSHIFT) (\<lambda>b. b\<lparr>be_hyst := (if i \<ge> 0 then i else - i - 1)\<rparr>) s)"

definition ta_MYRANDOM :: "tahead \<Rightarrow> u32 \<times> tahead" where
  "ta_MYRANDOM s =
    (let x = ta_Seed s + 1;
         x = x + ucast (hi_phist (ta_hist s));
         x = signed_drop_bit 21 x + push_bit 11 x;
         x = x + hi_ptghist (ta_hist s);
         x = signed_drop_bit 10 x + push_bit 22 x;
         x = x + lk_GTAG (ta_look s) 4
     in (x, s\<lparr>ta_Seed := x\<rparr>))"


section \<open>The lookup\<close>

text \<open>At the first branch of a block the indices and tags of all banks are computed and kept under the number of the prediction.\<close>

definition ta_hash_block :: "tage_config \<Rightarrow> u64 \<Rightarrow> tahead \<Rightarrow> tahead" where
  "ta_hash_block c PC s =
    (let h = ta_hist s; k = ta_look s; n = hi_NPRED h mod 10;
         on_banks = (\<lambda>f row i. if 1 \<le> i \<and> i \<le> tc_NHIST c then f (ucast PC) i h else row i)
     in if hi_Numero h \<noteq> 0 then s
        else s\<lparr>ta_look := k\<lparr>lk_AHGI := (lk_AHGI k)(n := on_banks (ta_gindex c) (lk_AHGI k n)),
                            lk_AHGTAG := (lk_AHGTAG k)(n := on_banks (ta_gtag c) (lk_AHGTAG k n))\<rparr>\<rparr>)"

text \<open>The place of the branch in its block selects within the rows that are read.\<close>

definition ta_place :: "tage_config \<Rightarrow> tahead \<Rightarrow> tahead" where
  "ta_place c s =
    (let h = ta_hist s; k = ta_look s; n = hi_NPRED h mod 10;
         read = hi_Numero h AND (NBREADPERTABLE - 1);
         on_banks = (\<lambda>f row i. if 1 \<le> i \<and> i \<le> tc_NHIST c then f i else row i);
         GI = on_banks (\<lambda>i. (lk_AHGI k n i XOR ucast (push_bit (tc_LOGG c - LOGASSOC - 2) read)) * of_nat ASSOC) (lk_GI k);
         GTAG = on_banks (\<lambda>i. lk_AHGTAG k n i XOR ucast (hi_Numero h)) (lk_GTAG k)
     in s\<lparr>ta_look := k\<lparr>lk_BI := unat ((hi_PCBLOCK h XOR push_bit (tc_LOGB c - 2) read) AND (push_bit (tc_LOGB c) 1 - 1)),
                         lk_GI := GI, lk_GTAG := GTAG,
                         lk_GGI := (\<lambda>j. if j < ASSOC then on_banks GI (lk_GGI k j) else lk_GGI k j)\<rparr>\<rparr>)"

text \<open>The way \<open>j\<close> of bank \<open>i\<close> for the branch that is looked up.\<close>

definition ta_way :: "tage_config \<Rightarrow> nat \<Rightarrow> nat \<Rightarrow> tahead \<Rightarrow> gentry" where
  "ta_way c i j s = ta_gentry c i (unat (lk_GGI (ta_look s) j i + of_nat j)) s"

definition ta_on_way :: "tage_config \<Rightarrow> nat \<Rightarrow> nat \<Rightarrow> (gentry \<Rightarrow> gentry) \<Rightarrow> tahead \<Rightarrow> tahead" where
  "ta_on_way c i j f s = ta_on_gentry c i (unat (lk_GGI (ta_look s) j i + of_nat j)) f s"

definition ta_hits :: "tage_config \<Rightarrow> tahead \<Rightarrow> nat \<Rightarrow> nat \<Rightarrow> bool" where
  "ta_hits c s i j \<longleftrightarrow> ge_tag (ta_way c i j s) = lk_GTAG (ta_look s) i"

text \<open>From bank \<open>n\<close> down to bank 1, and in a bank from way 0 on.\<close>

fun ta_search :: "(nat \<Rightarrow> nat \<Rightarrow> bool) \<Rightarrow> nat \<Rightarrow> (nat \<times> nat) option" where
  "ta_search P 0 = None"
| "ta_search P (Suc n) = (case List.find (P (Suc n)) [0..<ASSOC] of Some j \<Rightarrow> Some (Suc n, j) | None \<Rightarrow> ta_search P n)"

definition ta_bank :: "(nat \<times> nat) option \<Rightarrow> nat" where
  "ta_bank r = (case r of None \<Rightarrow> 0 | Some (i, j) \<Rightarrow> i)"

definition ta_assoc :: "(nat \<times> nat) option \<Rightarrow> nat \<Rightarrow> nat" where
  "ta_assoc r old = (case r of None \<Rightarrow> old | Some (i, j) \<Rightarrow> j)"

definition ta_longest :: "tage_config \<Rightarrow> tahead \<Rightarrow> tahead" where
  "ta_longest c s =
    (let r = ta_search (ta_hits c s) (tc_NHIST c); k = ta_look s
     in case r of
          None \<Rightarrow> s\<lparr>ta_look := k\<lparr>lk_HitBank := 0\<rparr>\<rparr>
        | Some (i, j) \<Rightarrow>
            let e = ta_way c i j s
            in s\<lparr>ta_look := k\<lparr>lk_HitBank := i, lk_HitAssoc := j, lk_LongestMatchPred := (ge_ctr e \<ge> 0),
                              lk_TAGECONF := \<bar>2 * ge_ctr e + 1\<bar> div 2\<rparr>\<rparr>)"

definition ta_alternate :: "tage_config \<Rightarrow> tahead \<Rightarrow> tahead" where
  "ta_alternate c s =
    (let k = ta_look s; r = ta_search (ta_hits c s) (lk_HitBank k - 1)
     in s\<lparr>ta_look := k\<lparr>lk_AltBank := ta_bank r, lk_AltAssoc := ta_assoc r (lk_AltAssoc k)\<rparr>\<rparr>)"

text \<open>The longest match that is not weak.\<close>

definition ta_high_conf :: "tage_config \<Rightarrow> tahead \<Rightarrow> tahead" where
  "ta_high_conf c s =
    (let k = ta_look s
     in if lk_HitBank k = 0 then s\<lparr>ta_look := k\<lparr>lk_HCpredBank := 0\<rparr>\<rparr>
        else if \<not> ge_weak (ta_way c (lk_HitBank k) (lk_HitAssoc k) s)
        then s\<lparr>ta_look := k\<lparr>lk_HCpredBank := lk_HitBank k, lk_HCpredAssoc := lk_HitAssoc k, lk_HCpred := lk_LongestMatchPred k\<rparr>\<rparr>
        else let r = ta_search (\<lambda>i j. ta_hits c s i j \<and> \<not> ge_weak (ta_way c i j s)) (lk_HitBank k - 1)
             in s\<lparr>ta_look := k\<lparr>lk_HCpredBank := ta_bank r, lk_HCpredAssoc := ta_assoc r (lk_HCpredAssoc k),
                               lk_HCpred := (case r of None \<Rightarrow> lk_HCpred k | Some (i, j) \<Rightarrow> ge_ctr (ta_way c i j s) \<ge> 0)\<rparr>\<rparr>)"

definition ta_choose :: "tage_config \<Rightarrow> tahead \<Rightarrow> tahead" where
  "ta_choose c s =
    (let k = ta_look s
     in if lk_HitBank k = 0 then s
        else s\<lparr>ta_look := k\<lparr>lk_alttaken := (if lk_AltBank k > 0 then ge_ctr (ta_way c (lk_AltBank k) (lk_AltAssoc k) s) \<ge> 0
                                             else lk_alttaken k),
                            lk_tage_pred := lk_LongestMatchPred k\<rparr>\<rparr>)"

definition ta_Tagepred :: "tage_config \<Rightarrow> u64 \<Rightarrow> tahead \<Rightarrow> tahead" where
  "ta_Tagepred c PC s =
    (let (bim, s) = ta_getbim c (ta_place c (ta_hash_block c PC s));
         s = s\<lparr>ta_look := (ta_look s)\<lparr>lk_alttaken := bim, lk_HCpred := bim, lk_tage_pred := bim, lk_LongestMatchPred := bim\<rparr>\<rparr>
     in ta_choose c (ta_high_conf c (ta_alternate c (ta_longest c s))))"

section \<open>The statistical corrector\<close>

definition ind_psnum :: "tage_hist \<Rightarrow> u64" where
  "ind_psnum h = push_bit 2 (hi_Numero h AND (MAXBR - 1))"

definition ind_hash :: "tage_config \<Rightarrow> u64 \<Rightarrow> tage_hist \<Rightarrow> nat" where
  "ind_hash c x h = unat ((x AND (push_bit (tc_LOGBIAS c) 1 - 1)) XOR ind_psnum h)"

definition ind_lmap :: "tage_look \<Rightarrow> nat" where
  "ind_lmap k = of_bool (lk_LongestMatchPred k) + 2 * of_bool (lk_HCpred k)"

definition ind_pc :: "tage_config \<Rightarrow> tage_hist \<Rightarrow> nat" where
  "ind_pc c h = (let p = hi_PCBLOCK h in ind_hash c (p XOR drop_bit (tc_LOGBIAS c - 5) p) h)"

definition ind_pc_lmap :: "tage_config \<Rightarrow> tage_hist \<Rightarrow> tage_look \<Rightarrow> nat" where
  "ind_pc_lmap c h k = ind_pc c h XOR push_bit (tc_LOGBIAS c - 2) (of_bool (lk_LongestMatchPred k) XOR push_bit 1 (of_bool (lk_HCpred k)))"

definition ind_bhist :: "tage_config \<Rightarrow> tage_hist \<Rightarrow> nat" where
  "ind_bhist c h = (let p = hi_PCBLOCK h in ind_hash c (p XOR hi_PrevBHIST h XOR drop_bit (tc_LOGBIAS c - 4) p) h)"

definition ind_fhist :: "tage_config \<Rightarrow> tage_hist \<Rightarrow> nat" where
  "ind_fhist c h = (let p = hi_PCBLOCK h in ind_hash c (p XOR hi_PrevFHIST h XOR drop_bit (tc_LOGBIAS c - 3) p) h)"

definition ind_imli_br :: "tage_config \<Rightarrow> tage_hist \<Rightarrow> nat" where
  "ind_imli_br c h = (let p = hi_PCBLOCK h in ind_hash c (p XOR hi_PrevF_BrIMLI h XOR drop_bit (tc_LOGBIAS c - 6) p) h)"

definition ind_imli_ta :: "tage_config \<Rightarrow> tage_hist \<Rightarrow> nat" where
  "ind_imli_ta c h = (let p = hi_PCBLOCK h in ind_hash c (drop_bit 4 p XOR hi_PrevF_TaIMLI h XOR push_bit (tc_LOGBIAS c - 4) p) h)"

text \<open>The two sums; \<open>predTSC\<close> is the sign of the first part.\<close>

definition cr_sum :: "tage_config \<Rightarrow> tage_hist \<Rightarrow> tage_look \<Rightarrow> tage_corrector \<Rightarrow> tage_corrector" where
  "cr_sum c h k r =
    (let tsc = incval (cr_BiasLMAP r (ind_lmap k)) + 2 * incval (cr_BiasPC r (ind_pc c h)) + incval (cr_BiasPCLMAP r (ind_pc_lmap c h k));
         full = incval (cr_IIBIAS r (ind_imli_br c h)) + incval (cr_FBIAS r (ind_fhist c h)) + incval (cr_BBIAS r (ind_bhist c h))
                + incval (cr_IBIAS r (ind_imli_ta c h))
     in r\<lparr>cr_predTSC := (tsc \<ge> 0), cr_SUMFULL := full, cr_SUMSC := tsc + 2 * full, cr_predSC := (tsc + 2 * full \<ge> 0)\<rparr>)"

text \<open>The result is the prediction and whether it is biased.\<close>

definition ta_getPrediction :: "tage_config \<Rightarrow> u64 \<Rightarrow> tahead \<Rightarrow> (bool \<times> bool) \<times> tahead" where
  "ta_getPrediction c PCBRANCH s =
    (let s = ta_Tagepred c (hi_PCBLOCK (ta_hist s) XOR push_bit 5 (hi_Numero (ta_hist s))) s;
         k = ta_look s; r = cr_sum c (ta_hist s) k (ta_corr s);
         taken = (if lk_TAGECONF k \<noteq> 3 \<or> \<bar>cr_SUMSC r\<bar> \<ge> cr_updatethreshold r div 2 then cr_SUMSC r \<ge> 0 else lk_LongestMatchPred k)
     in ((taken, lk_TAGECONF k \<ge> 1), s\<lparr>ta_corr := r, ta_pred_taken := taken\<rparr>))"

section \<open>The update\<close>

definition cr_train :: "tage_config \<Rightarrow> tage_hist \<Rightarrow> tage_look \<Rightarrow> bool \<Rightarrow> tage_corrector \<Rightarrow> tage_corrector" where
  "cr_train c h k dir r =
    (let up = (\<lambda>f x. f(x := ctrupdate (f x) dir PERCWIDTH))
     in r\<lparr>cr_BiasGEN := ctrupdate (cr_BiasGEN r) dir PERCWIDTH,
          cr_BiasAP := (cr_BiasAP r)(lk_HCpred k := ctrupdate (cr_BiasAP r (lk_HCpred k)) dir PERCWIDTH),
          cr_BiasLM := (cr_BiasLM r)(lk_LongestMatchPred k := ctrupdate (cr_BiasLM r (lk_LongestMatchPred k)) dir PERCWIDTH),
          cr_BiasLMAP := up (cr_BiasLMAP r) (ind_lmap k), cr_BiasPC := up (cr_BiasPC r) (ind_pc c h),
          cr_BiasPCLMAP := up (cr_BiasPCLMAP r) (ind_pc_lmap c h k), cr_IBIAS := up (cr_IBIAS r) (ind_imli_ta c h),
          cr_IIBIAS := up (cr_IIBIAS r) (ind_imli_br c h), cr_BBIAS := up (cr_BBIAS r) (ind_bhist c h),
          cr_FBIAS := up (cr_FBIAS r) (ind_fhist c h)\<rparr>)"

definition cr_update :: "tage_config \<Rightarrow> tage_hist \<Rightarrow> tage_look \<Rightarrow> bool \<Rightarrow> tage_corrector \<Rightarrow> tage_corrector" where
  "cr_update c h k dir r =
    (let SCPRED = (cr_SUMSC r \<ge> 0); t = cr_updatethreshold r
     in if SCPRED \<noteq> dir \<or> \<bar>cr_SUMSC r\<bar> < t
        then cr_train c h k dir
               (r\<lparr>cr_updatethreshold := (if SCPRED \<noteq> dir then (if t < 2 ^ WIDTHRES - 1 then t + 1 else t)
                                          else (if t > 0 then t - 1 else t))\<rparr>)
        else r)"

text \<open>A new entry: weak in the direction of the outcome, and useless.\<close>

definition ta_install :: "tage_config \<Rightarrow> nat \<Rightarrow> nat \<Rightarrow> bool \<Rightarrow> tahead \<Rightarrow> tahead" where
  "ta_install c i j dir s = ta_on_way c i j (\<lambda>e. e\<lparr>ge_tag := lk_GTAG (ta_look s) i, ge_u := 0, ge_ctr := (if dir then 0 else - 1)\<rparr>) s"

definition ta_skip :: "nat \<Rightarrow> tahead \<Rightarrow> nat \<times> tahead" where
  "ta_skip i s =
    (let (r1, s) = ta_MYRANDOM s; (r2, s) = ta_MYRANDOM s; (r3, s) = ta_MYRANDOM s
     in (i + 2 - of_bool (r1 AND 1 = 0) + of_bool (r2 AND 1 = 0) + of_bool (r3 AND 3 = 0), s))"

lemma ta_skip_less: "ta_skip i s = (i', s') \<Longrightarrow> i < i'"
  by (auto simp: ta_skip_def Let_def split: prod.splits)

text \<open>The loop over the longer banks: the count of new entries, the banks without room, and the number that may still be made.\<close>

function ta_alloc_loop :: "tage_config \<Rightarrow> bool \<Rightarrow> nat \<Rightarrow> int \<Rightarrow> int \<Rightarrow> int \<Rightarrow> bool \<Rightarrow> tahead \<Rightarrow> (int \<times> int) \<times> tahead" where
  "ta_alloc_loop c dir i NA Penalty MaxNALLOC First s =
    (if tc_NHIST c < i then ((NA, Penalty), s)
     else let (r, s) = ta_MYRANDOM s; j = unat r mod ASSOC
          in case List.find (\<lambda>j. ge_u (ta_way c i j s) = 0) [(j + 1) mod ASSOC, (j + 2) mod ASSOC] of
               Some j \<Rightarrow>
                 let s = ta_install c i j dir s;
                     MaxNALLOC = (if i \<ge> 3 \<or> \<not> First then MaxNALLOC - 1 else MaxNALLOC);
                     (i', s) = ta_skip i s
                 in if MaxNALLOC < 0 then ((NA + 1, Penalty), s) else ta_alloc_loop c dir (i' + 1) (NA + 1) Penalty MaxNALLOC False s
             | None \<Rightarrow>
                 if MaxNALLOC < 0 then ((NA, Penalty), s) else ta_alloc_loop c dir (i + 1) NA (Penalty + 1) MaxNALLOC First s)"
  by pat_completeness auto

termination
  by (relation "measure (\<lambda>(c, dir, i, NA, Penalty, MaxNALLOC, First, s). Suc (tc_NHIST c) - i)") (auto dest!: sym [THEN ta_skip_less])

declare ta_alloc_loop.simps [simp del]

definition ta_age :: "tage_config \<Rightarrow> tahead \<Rightarrow> tahead" where
  "ta_age c s =
    s\<lparr>ta_gtable := (\<lambda>i. if 1 \<le> i \<and> i \<le> tc_NHIST c
                        then \<lambda>j. let e = ta_gtable s i j in if j < ta_table_size c \<and> ge_u e > 0 then e\<lparr>ge_u := ge_u e - 1\<rparr> else e
                        else ta_gtable s i),
      ta_TICK := 0, ta_TICKH := 0\<rparr>"

definition ta_tick :: "tage_config \<Rightarrow> int \<Rightarrow> int \<Rightarrow> tahead \<Rightarrow> tahead" where
  "ta_tick c NA Penalty s =
    (let s = s\<lparr>ta_TICKH := min BORNTICK (max 0 (ta_TICKH s + Penalty - NA)), ta_TICK := max 0 (ta_TICK s + Penalty - 2 * NA)\<rparr>
     in if ta_TICK s \<ge> BORNTICK then ta_age c s else s)"

definition ta_alloc :: "tage_config \<Rightarrow> bool \<Rightarrow> tahead \<Rightarrow> tahead" where
  "ta_alloc c dir s =
    (let MaxNALLOC = of_bool (ta_CountMiss11 s < 0) + 8 * of_bool (ta_CountLowConf s \<ge> 0);
         HitBank = lk_HitBank (ta_look s);
         (r1, s) = ta_MYRANDOM s; (r2, s) = ta_MYRANDOM s;
         DEP = HitBank + 1 + of_bool (r1 AND 1 = 0) + of_bool (r2 AND 3 = 0);
         ((NA, Penalty), s) = ta_alloc_loop c dir DEP 0 0 MaxNALLOC True s
     in ta_tick c NA Penalty s)"

definition ta_count_low_conf :: "tahead \<Rightarrow> tahead" where
  "ta_count_low_conf s =
    (let k = ta_look s; low = (lk_TAGECONF k = 0)
     in if lk_HitBank k = 0 then s
        else let (hit, s) = (if low then (True, s) else let (r, s) = ta_MYRANDOM s in (r AND 3 = 0, s))
             in if hit then s\<lparr>ta_CountLowConf := ctrupdate (ta_CountLowConf s) low 7\<rparr> else s)"

definition ta_train :: "tage_config \<Rightarrow> bool \<Rightarrow> tahead \<Rightarrow> tahead" where
  "ta_train c dir s =
    (let k = ta_look s
     in if lk_HitBank k > 0 then ta_on_way c (lk_HitBank k) (lk_HitAssoc k) (\<lambda>e. e\<lparr>ge_ctr := ctrupdate (ge_ctr e) dir CWIDTH\<rparr>) s
        else ta_baseupdate c dir s)"

definition ta_useful :: "tage_config \<Rightarrow> bool \<Rightarrow> tahead \<Rightarrow> tahead" where
  "ta_useful c dir s =
    (let k = ta_look s; on_hit = ta_on_way c (lk_HitBank k) (lk_HitAssoc k)
     in if lk_LongestMatchPred k = lk_alttaken k then s
        else if lk_LongestMatchPred k = dir
        then on_hit (\<lambda>e. if ge_u e < 2 ^ UWIDTH - 1 then e\<lparr>ge_u := ge_u e + 1\<rparr> else e) s
        else on_hit (\<lambda>e. if ge_u e > 0 \<and> cr_predSC (ta_corr s) = dir then e\<lparr>ge_u := ge_u e - 1\<rparr> else e) s)"

definition ta_TrackOtherInst :: "tage_config \<Rightarrow> u64 \<Rightarrow> opcode \<Rightarrow> bool \<Rightarrow> u64 \<Rightarrow> tahead \<Rightarrow> tahead res" where
  "ta_TrackOtherInst c PCBRANCH opType taken branchTarget s =
    bind_res (ta_HistoryUpdate c PCBRANCH opType taken branchTarget (ta_hist s)) (\<lambda>h. Inr (s\<lparr>ta_hist := h\<rparr>))"

definition ta_updateTables :: "tage_config \<Rightarrow> bool \<Rightarrow> tahead \<Rightarrow> tahead" where
  "ta_updateTables c dir s =
    (let s = s\<lparr>ta_corr := cr_update c (ta_hist s) (ta_look s) dir (ta_corr s)\<rparr>;
         k = ta_look s;
         ALLOC = (lk_HitBank k < tc_NHIST c \<and> lk_LongestMatchPred k \<noteq> dir \<and> cr_predTSC (ta_corr s) \<noteq> dir);
         s = ta_count_low_conf s;
         s = (if ALLOC then ta_alloc c dir s else s)
     in ta_useful c dir (ta_train c dir s))"

definition ta_updatePredictor :: "tage_config \<Rightarrow> u64 \<Rightarrow> opcode \<Rightarrow> bool \<Rightarrow> bool \<Rightarrow> u64 \<Rightarrow> tahead \<Rightarrow> tahead res" where
  "ta_updatePredictor c PCBRANCH opType resolveDir predDir branchTarget s =
    ta_TrackOtherInst c PCBRANCH opType resolveDir branchTarget (ta_updateTables c resolveDir s)"

end
