(* ===== verification/Tage_Facts.thy ===== *)
theory Tage_Facts
  imports Tage_Engine
begin

text \<open>
  What the TAGE predictors do: every index stays inside its table and every counter inside its bits, whatever branches are
  predicted; the prediction is that of the longest history that matches; and a new entry never replaces a useful one.
\<close>

section \<open>The search for a match\<close>

lemma ta_search_Some:
  "ta_search P n = Some (i, j) \<Longrightarrow>
    1 \<le> i \<and> i \<le> n \<and> j < ASSOC \<and> P i j \<and> (\<forall>i'. i < i' \<longrightarrow> i' \<le> n \<longrightarrow> (\<forall>j' < ASSOC. \<not> P i' j'))"
proof (induction n)
  case (Suc n)
  show ?case
  proof (cases "List.find (P (Suc n)) [0..<ASSOC]")
    case None
    then have none: "\<forall>j < ASSOC. \<not> P (Suc n) j" by (simp add: find_None_iff)
    have "ta_search P n = Some (i, j)" using Suc.prems None by simp
    from Suc.IH [OF this] none show ?thesis by (auto simp: le_Suc_eq)
  next
    case (Some k)
    then have "i = Suc n" "j = k" using Suc.prems by auto
    moreover have "k < ASSOC" "P (Suc n) k" using Some by (auto simp: find_Some_iff)
    ultimately show ?thesis by auto
  qed
qed simp

lemma ta_search_None: "ta_search P n = None \<Longrightarrow> 1 \<le> i \<Longrightarrow> i \<le> n \<Longrightarrow> j < ASSOC \<Longrightarrow> \<not> P i j"
proof (induction n)
  case (Suc n)
  have none: "List.find (P (Suc n)) [0..<ASSOC] = None" and rest: "ta_search P n = None"
    using Suc.prems(1) by (auto split: option.splits)
  show ?case
  proof (cases "i = Suc n")
    case True
    then show ?thesis using none Suc.prems(4) by (auto simp: find_None_iff)
  next
    case False
    then show ?thesis using Suc rest by auto
  qed
qed simp

text \<open>What the search reads: the tables, the indices and the tags.\<close>

definition ta_view :: "tahead \<Rightarrow> (nat \<Rightarrow> nat \<Rightarrow> gentry) \<times> (nat \<Rightarrow> nat \<Rightarrow> u32) \<times> (nat \<Rightarrow> u32) \<times> (nat \<Rightarrow> bentry) \<times> nat" where
  "ta_view s = (ta_gtable s, lk_GGI (ta_look s), lk_GTAG (ta_look s), ta_btable s, lk_BI (ta_look s))"

lemma ta_way_view: "ta_view s' = ta_view s \<Longrightarrow> ta_way c i j s' = ta_way c i j s"
  by (simp add: ta_view_def ta_way_def ta_gentry_def)

lemma ta_hits_view: "ta_view s' = ta_view s \<Longrightarrow> ta_hits c s' i j = ta_hits c s i j"
  using ta_way_view [of s' s c i j] by (simp add: ta_hits_def ta_view_def)

lemma ta_steps_view [simp]:
  "ta_view (ta_longest c s) = ta_view s" "ta_view (ta_alternate c s) = ta_view s"
  "ta_view (ta_high_conf c s) = ta_view s" "ta_view (ta_choose c s) = ta_view s"
  by (simp_all add: ta_view_def ta_longest_def ta_alternate_def ta_high_conf_def ta_choose_def Let_def split: option.splits prod.splits)

lemma ta_longest_spec:
  fixes c s
  defines "k \<equiv> ta_look (ta_longest c s)"
  shows "lk_HitBank k = 0 \<and> (\<forall>i j. 1 \<le> i \<longrightarrow> i \<le> tc_NHIST c \<longrightarrow> j < ASSOC \<longrightarrow> \<not> ta_hits c s i j) \<and>
      lk_LongestMatchPred k = lk_LongestMatchPred (ta_look s) \<or>
    1 \<le> lk_HitBank k \<and> lk_HitBank k \<le> tc_NHIST c \<and> lk_HitAssoc k < ASSOC \<and> ta_hits c s (lk_HitBank k) (lk_HitAssoc k) \<and>
      (\<forall>i j. lk_HitBank k < i \<longrightarrow> i \<le> tc_NHIST c \<longrightarrow> j < ASSOC \<longrightarrow> \<not> ta_hits c s i j) \<and>
      lk_LongestMatchPred k = (0 \<le> ge_ctr (ta_way c (lk_HitBank k) (lk_HitAssoc k) s))"
proof (cases "ta_search (ta_hits c s) (tc_NHIST c)")
  case None
  then show ?thesis using ta_search_None [OF None] by (simp add: k_def ta_longest_def Let_def)
next
  case (Some r)
  obtain i j where r: "r = (i, j)" by (cases r)
  from ta_search_Some [OF Some [unfolded r]] show ?thesis using Some r by (simp add: k_def ta_longest_def Let_def)
qed

lemma ta_longest_other [simp]:
  "lk_alttaken (ta_look (ta_longest c s)) = lk_alttaken (ta_look s)" "lk_HCpred (ta_look (ta_longest c s)) = lk_HCpred (ta_look s)"
  "lk_tage_pred (ta_look (ta_longest c s)) = lk_tage_pred (ta_look s)"
  by (simp_all add: ta_longest_def Let_def split: option.splits prod.splits)

lemma ta_alternate_other [simp]:
  "lk_HitBank (ta_look (ta_alternate c s)) = lk_HitBank (ta_look s)" "lk_HitAssoc (ta_look (ta_alternate c s)) = lk_HitAssoc (ta_look s)"
  "lk_LongestMatchPred (ta_look (ta_alternate c s)) = lk_LongestMatchPred (ta_look s)"
  "lk_alttaken (ta_look (ta_alternate c s)) = lk_alttaken (ta_look s)" "lk_HCpred (ta_look (ta_alternate c s)) = lk_HCpred (ta_look s)"
  "lk_tage_pred (ta_look (ta_alternate c s)) = lk_tage_pred (ta_look s)" "lk_TAGECONF (ta_look (ta_alternate c s)) = lk_TAGECONF (ta_look s)"
  by (simp_all add: ta_alternate_def Let_def)

lemma ta_high_conf_other [simp]:
  "lk_HitBank (ta_look (ta_high_conf c s)) = lk_HitBank (ta_look s)" "lk_HitAssoc (ta_look (ta_high_conf c s)) = lk_HitAssoc (ta_look s)"
  "lk_AltBank (ta_look (ta_high_conf c s)) = lk_AltBank (ta_look s)" "lk_AltAssoc (ta_look (ta_high_conf c s)) = lk_AltAssoc (ta_look s)"
  "lk_LongestMatchPred (ta_look (ta_high_conf c s)) = lk_LongestMatchPred (ta_look s)"
  "lk_alttaken (ta_look (ta_high_conf c s)) = lk_alttaken (ta_look s)" "lk_tage_pred (ta_look (ta_high_conf c s)) = lk_tage_pred (ta_look s)"
  "lk_TAGECONF (ta_look (ta_high_conf c s)) = lk_TAGECONF (ta_look s)"
  by (simp_all add: ta_high_conf_def Let_def)

lemma ta_choose_other [simp]:
  "lk_HitBank (ta_look (ta_choose c s)) = lk_HitBank (ta_look s)" "lk_HitAssoc (ta_look (ta_choose c s)) = lk_HitAssoc (ta_look s)"
  "lk_AltBank (ta_look (ta_choose c s)) = lk_AltBank (ta_look s)" "lk_AltAssoc (ta_look (ta_choose c s)) = lk_AltAssoc (ta_look s)"
  "lk_LongestMatchPred (ta_look (ta_choose c s)) = lk_LongestMatchPred (ta_look s)"
  "lk_TAGECONF (ta_look (ta_choose c s)) = lk_TAGECONF (ta_look s)"
  by (simp_all add: ta_choose_def Let_def)

lemma ta_choose_alttaken:
  "lk_alttaken (ta_look (ta_choose c s)) =
    (if lk_HitBank (ta_look s) > 0 \<and> lk_AltBank (ta_look s) > 0
     then 0 \<le> ge_ctr (ta_way c (lk_AltBank (ta_look s)) (lk_AltAssoc (ta_look s)) s) else lk_alttaken (ta_look s))"
  by (simp add: ta_choose_def Let_def)

text \<open>
  C11. A lookup answers with the entry of the longest history whose tag matches, and with the bimodal table when no tag
  matches; the alternate prediction, which decides about usefulness, is that of the next shorter match.
\<close>

theorem prediction_is_longest_match:
  fixes c PC s
  defines "s' \<equiv> ta_Tagepred c PC s"
  defines "k \<equiv> ta_look s'"
  shows "lk_HitBank k = 0 \<and> (\<forall>i j. 1 \<le> i \<longrightarrow> i \<le> tc_NHIST c \<longrightarrow> j < ASSOC \<longrightarrow> \<not> ta_hits c s' i j) \<and>
      lk_tage_pred k = (be_pred (ta_bentry c (lk_BI k) s') \<noteq> 0) \<or>
    1 \<le> lk_HitBank k \<and> lk_HitBank k \<le> tc_NHIST c \<and> ta_hits c s' (lk_HitBank k) (lk_HitAssoc k) \<and>
      (\<forall>i j. lk_HitBank k < i \<longrightarrow> i \<le> tc_NHIST c \<longrightarrow> j < ASSOC \<longrightarrow> \<not> ta_hits c s' i j) \<and>
      lk_tage_pred k = (0 \<le> ge_ctr (ta_way c (lk_HitBank k) (lk_HitAssoc k) s')) \<and>
      (if lk_AltBank k = 0 then lk_alttaken k = (be_pred (ta_bentry c (lk_BI k) s') \<noteq> 0) \<and>
          (\<forall>i j. 1 \<le> i \<longrightarrow> i < lk_HitBank k \<longrightarrow> j < ASSOC \<longrightarrow> \<not> ta_hits c s' i j)
       else lk_AltBank k < lk_HitBank k \<and> ta_hits c s' (lk_AltBank k) (lk_AltAssoc k) \<and>
          lk_alttaken k = (0 \<le> ge_ctr (ta_way c (lk_AltBank k) (lk_AltAssoc k) s')) \<and>
          (\<forall>i j. lk_AltBank k < i \<longrightarrow> i < lk_HitBank k \<longrightarrow> j < ASSOC \<longrightarrow> \<not> ta_hits c s' i j))"
proof -
  obtain bim s0 where bim: "ta_getbim c (ta_place c (ta_hash_block c PC s)) = (bim, s0)" by fastforce
  define s1 where "s1 = s0\<lparr>ta_look := (ta_look s0)\<lparr>lk_alttaken := bim, lk_HCpred := bim, lk_tage_pred := bim, lk_LongestMatchPred := bim\<rparr>\<rparr>"
  define s2 where "s2 = ta_longest c s1"
  define s3 where "s3 = ta_high_conf c (ta_alternate c s2)"
  have s': "s' = ta_choose c s3" by (simp add: s'_def ta_Tagepred_def bim s1_def s2_def s3_def)
  have views: "ta_view s2 = ta_view s1" "ta_view s' = ta_view s1" "ta_view s3 = ta_view s1" by (simp_all add: s' s2_def s3_def)
  have "bim = (be_pred (ta_bentry c (lk_BI (ta_look s1)) s1) \<noteq> 0)"
    using bim by (auto simp: ta_getbim_def Let_def s1_def ta_bentry_def)
  then have base: "bim = (be_pred (ta_bentry c (lk_BI k) s') \<noteq> 0)"
    using views(2) by (simp add: ta_view_def ta_bentry_def k_def)
  have hits: "ta_hits c s1 = ta_hits c s'" "ta_hits c s2 = ta_hits c s'"
    using ta_hits_view [of s1 s' c] ta_hits_view [of s2 s' c] views by (simp_all add: fun_eq_iff)
  have ways: "ta_way c i j s1 = ta_way c i j s'" "ta_way c i j s3 = ta_way c i j s'" for i j
    using ta_way_view [of s1 s' c] ta_way_view [of s3 s' c] views by simp_all
  have start: "lk_LongestMatchPred (ta_look s1) = bim" "lk_alttaken (ta_look s2) = bim" "lk_tage_pred (ta_look s2) = bim"
    by (simp_all add: s1_def s2_def)
  have same: "lk_HitBank k = lk_HitBank (ta_look s2)" "lk_HitAssoc k = lk_HitAssoc (ta_look s2)"
      "lk_LongestMatchPred k = lk_LongestMatchPred (ta_look s2)"
      "lk_AltBank k = lk_AltBank (ta_look (ta_alternate c s2))" "lk_AltAssoc k = lk_AltAssoc (ta_look (ta_alternate c s2))"
    by (simp_all add: k_def s' s3_def)
  note hit = ta_longest_spec [of c s1, folded s2_def, folded same, unfolded hits ways start]
  have pred: "lk_tage_pred k = (if lk_HitBank k = 0 then bim else lk_LongestMatchPred k)"
    using start(3) same(1, 3) by (simp add: k_def s' ta_choose_def Let_def s3_def)
  have alt: "lk_alttaken k = (if lk_HitBank k > 0 \<and> lk_AltBank k > 0 then 0 \<le> ge_ctr (ta_way c (lk_AltBank k) (lk_AltAssoc k) s') else bim)"
    using ta_choose_alttaken [of c s3, folded s', folded k_def] start(2) same unfolding ways by (simp add: s3_def)
  have second: "lk_AltBank k = ta_bank (ta_search (ta_hits c s') (lk_HitBank k - 1))"
      "lk_AltAssoc k = ta_assoc (ta_search (ta_hits c s') (lk_HitBank k - 1)) (lk_AltAssoc (ta_look s2))"
    unfolding same by (simp_all add: ta_alternate_def Let_def hits)
  show ?thesis
  proof (cases "lk_HitBank k = 0")
    case True
    then show ?thesis using hit pred base by auto
  next
    case False
    then have h: "1 \<le> lk_HitBank k" by simp
    show ?thesis
    proof (cases "ta_search (ta_hits c s') (lk_HitBank k - 1)")
      case None
      then have "lk_AltBank k = 0" using second by (simp add: ta_bank_def)
      then show ?thesis using hit pred base h alt ta_search_None [OF None] by auto
    next
      case (Some r)
      obtain i j where r: "r = (i, j)" by (cases r)
      have ij: "lk_AltBank k = i" "lk_AltAssoc k = j" using second Some r by (simp_all add: ta_bank_def ta_assoc_def)
      from ta_search_Some [OF Some [unfolded r]] show ?thesis using hit pred base h alt ij by auto
    qed
  qed
qed

theorem prediction_is_longest_match_witness:
  "lk_HitBank (ta_look (ta_Tagepred (tahead_config geo_14) 64 ta_globals)) \<le> 14"
proof -
  have n: "tc_NHIST (tahead_config geo_14) = 14" by (simp add: tahead_config_def)
  note longest = prediction_is_longest_match [of "tahead_config geo_14" 64 ta_globals, unfolded n]
  show ?thesis using longest by (elim disjE conjE) simp_all
qed

section \<open>New entries\<close>

lemma ta_MYRANDOM_fields:
  "ta_MYRANDOM s = (r, s') \<Longrightarrow> ta_gtable s' = ta_gtable s \<and> ta_look s' = ta_look s \<and> ta_btable s' = ta_btable s \<and>
    ta_corr s' = ta_corr s \<and> ta_hist s' = ta_hist s \<and> ta_CountLowConf s' = ta_CountLowConf s \<and> ta_CountMiss11 s' = ta_CountMiss11 s \<and>
    ta_TICK s' = ta_TICK s \<and> ta_TICKH s' = ta_TICKH s \<and> ta_pred_taken s' = ta_pred_taken s"
  by (auto simp: ta_MYRANDOM_def Let_def)

lemma ta_skip_fields:
  "ta_skip i s = (i', s') \<Longrightarrow> ta_gtable s' = ta_gtable s \<and> ta_look s' = ta_look s \<and> ta_btable s' = ta_btable s \<and>
    ta_corr s' = ta_corr s \<and> ta_hist s' = ta_hist s \<and> ta_CountLowConf s' = ta_CountLowConf s \<and> ta_CountMiss11 s' = ta_CountMiss11 s \<and>
    ta_TICK s' = ta_TICK s \<and> ta_TICKH s' = ta_TICKH s \<and> ta_pred_taken s' = ta_pred_taken s"
  by (auto simp: ta_skip_def Let_def split: prod.splits dest!: ta_MYRANDOM_fields)

lemma ta_on_way_fields [simp]:
  "ta_look (ta_on_way c i j f s) = ta_look s" "ta_btable (ta_on_way c i j f s) = ta_btable s"
  "ta_corr (ta_on_way c i j f s) = ta_corr s" "ta_hist (ta_on_way c i j f s) = ta_hist s"
  "ta_CountLowConf (ta_on_way c i j f s) = ta_CountLowConf s" "ta_TICK (ta_on_way c i j f s) = ta_TICK s"
  "ta_TICKH (ta_on_way c i j f s) = ta_TICKH s"
  by (simp_all add: ta_on_way_def ta_on_gentry_def)

text \<open>An invariant of the steps of the loop holds after it.\<close>

lemma ta_alloc_loop_inv:
  assumes random: "\<And>s x s'. I s \<Longrightarrow> ta_MYRANDOM s = (x, s') \<Longrightarrow> I s'"
    and install: "\<And>i j s. I s \<Longrightarrow> b \<le> i \<Longrightarrow> i \<le> tc_NHIST c \<Longrightarrow> j < ASSOC \<Longrightarrow> ge_u (ta_way c i j s) = 0 \<Longrightarrow> I (ta_install c i j dir s)"
  shows "ta_alloc_loop c dir i NA Penalty M First s = (r, s') \<Longrightarrow> b \<le> i \<Longrightarrow> I s \<Longrightarrow> I s'"
proof (induction "Suc (tc_NHIST c) - i" arbitrary: i NA Penalty M First s rule: less_induct)
  case less
  have skip: "I s2" if sk: "ta_skip i s1 = (i', s2)" and s1: "I s1" for i' s1 s2
  proof -
    obtain r1 s3 r2 s4 r3 where "ta_MYRANDOM s1 = (r1, s3)" "ta_MYRANDOM s3 = (r2, s4)" "ta_MYRANDOM s4 = (r3, s2)"
      using sk by (auto simp: ta_skip_def Let_def split: prod.splits)
    then show ?thesis using s1 random by blast
  qed
  show ?case
  proof (cases "tc_NHIST c < i")
    case True
    then show ?thesis using less.prems by (simp add: ta_alloc_loop.simps [of c dir i])
  next
    case False
    then have i: "i \<le> tc_NHIST c" by simp
    obtain x s1 where x: "ta_MYRANDOM s = (x, s1)" by fastforce
    have I1: "I s1" by (rule random [OF less.prems(3) x])
    define ways where "ways = [(unat x mod ASSOC + 1) mod ASSOC, (unat x mod ASSOC + 2) mod ASSOC]"
    have run: "(case List.find (\<lambda>j. ge_u (ta_way c i j s1) = 0) ways of
         Some j \<Rightarrow> let s = ta_install c i j dir s1; M' = (if i \<ge> 3 \<or> \<not> First then M - 1 else M); (i', s) = ta_skip i s
                   in if M' < 0 then ((NA + 1, Penalty), s) else ta_alloc_loop c dir (i' + 1) (NA + 1) Penalty M' False s
       | None \<Rightarrow> if M < 0 then ((NA, Penalty), s1) else ta_alloc_loop c dir (i + 1) NA (Penalty + 1) M First s1) = (r, s')"
      using less.prems(1) False x unfolding ta_alloc_loop.simps [of c dir i] ways_def by (simp add: Let_def)
    show ?thesis
    proof (cases "List.find (\<lambda>j. ge_u (ta_way c i j s1) = 0) ways")
      case None
      show ?thesis
      proof (cases "M < 0")
        case True
        then show ?thesis using run None I1 by simp
      next
        case False
        then have "ta_alloc_loop c dir (i + 1) NA (Penalty + 1) M First s1 = (r, s')" using run None by simp
        from less.hyps [OF _ this _ I1] show ?thesis using i less.prems(2) by simp
      qed
    next
      case (Some j)
      then have j: "j \<in> set ways" "ge_u (ta_way c i j s1) = 0" by (auto simp: find_Some_iff)
      have "j < ASSOC" using j(1) by (auto simp: ways_def ASSOC_def)
      obtain i' s2 where sk: "ta_skip i (ta_install c i j dir s1) = (i', s2)" by fastforce
      define M' where "M' = (if i \<ge> 3 \<or> \<not> First then M - 1 else M)"
      have I2: "I s2" by (rule skip [OF sk install [OF I1 less.prems(2) i \<open>j < ASSOC\<close> j(2)]])
      have run2: "(if M' < 0 then ((NA + 1, Penalty), s2) else ta_alloc_loop c dir (i' + 1) (NA + 1) Penalty M' False s2) = (r, s')"
        using run unfolding M'_def Some option.case Let_def sk prod.case .
      show ?thesis
      proof (cases "M' < 0")
        case True
        then show ?thesis using run2 I2 by simp
      next
        case False
        then have "ta_alloc_loop c dir (i' + 1) (NA + 1) Penalty M' False s2 = (r, s')" using run2 by simp
        from less.hyps [OF _ this _ I2] show ?thesis using ta_skip_less [OF sk] less.prems(2) i by simp
      qed
    qed
  qed
qed

lemma gentry_all_set: "(e :: gentry)\<lparr>ge_tag := t, ge_u := u, ge_ctr := x\<rparr> = \<lparr>ge_ctr = x, ge_tag = t, ge_u = u\<rparr>"
  by (cases e) simp

text \<open>
  C13. An allocation for the banks from \<open>b\<close> on leaves every useful entry as it is, and every entry of a shorter history; what it changes
  it makes into a useless entry with a weak counter that carries the tag of the branch.
\<close>

theorem allocation_spares_useful_entries:
  assumes run: "ta_alloc_loop c dir b NA Penalty M First s = (r, s')"
  shows "ta_gtable s' i n = ta_gtable s i n \<or>
    b \<le> i \<and> i \<le> tc_NHIST c \<and> ge_u (ta_gtable s i n) = 0 \<and>
      ta_gtable s' i n = \<lparr>ge_ctr = (if dir then 0 else - 1), ge_tag = lk_GTAG (ta_look s) i, ge_u = 0\<rparr>"
proof -
  let ?new = "\<lambda>i. \<lparr>ge_ctr = (if dir then 0 else - 1), ge_tag = lk_GTAG (ta_look s) i, ge_u = 0\<rparr>"
  define I where "I t \<longleftrightarrow> ta_look t = ta_look s \<and> (\<forall>i n. ta_gtable t i n = ta_gtable s i n \<or>
    b \<le> i \<and> i \<le> tc_NHIST c \<and> ge_u (ta_gtable s i n) = 0 \<and> ta_gtable t i n = ?new i)" for t :: tahead
  have "I s'"
  proof (rule ta_alloc_loop_inv [OF _ _ run order_refl])
    show "I t'" if "I t" "ta_MYRANDOM t = (x, t')" for t x t' using that ta_MYRANDOM_fields [OF that(2)] by (simp add: I_def)
    show "I (ta_install c i j dir t)" if t: "I t" and i: "b \<le> i" "i \<le> tc_NHIST c" and u: "ge_u (ta_way c i j t) = 0" for i j t
    proof -
      define n where "n = unat (lk_GGI (ta_look t) j i + of_nat j) mod ta_table_size c"
      have tab: "ta_gtable (ta_install c i j dir t) = (ta_gtable t)(i := (ta_gtable t i)(n := ?new i))"
        using t by (simp add: ta_install_def ta_on_way_def ta_on_gentry_def n_def I_def gentry_all_set)
      have "ge_u (ta_gtable t i n) = 0" using u by (simp add: ta_way_def ta_gentry_def n_def)
      moreover have old: "ta_gtable t i n = ta_gtable s i n \<or> ge_u (ta_gtable s i n) = 0" using t unfolding I_def by blast
      ultimately have "ge_u (ta_gtable s i n) = 0" by auto
      then have u0: "ge_u (ta_gtable s i n) = 0" .
      show ?thesis unfolding I_def tab
      proof (intro conjI allI)
        show "ta_look (ta_install c i j dir t) = ta_look s" using t by (simp add: ta_install_def I_def)
        fix i' n'
        show "((ta_gtable t)(i := (ta_gtable t i)(n := ?new i))) i' n' = ta_gtable s i' n' \<or>
          b \<le> i' \<and> i' \<le> tc_NHIST c \<and> ge_u (ta_gtable s i' n') = 0 \<and> ((ta_gtable t)(i := (ta_gtable t i)(n := ?new i))) i' n' = ?new i'"
        proof (cases "i' = i \<and> n' = n")
          case True
          then show ?thesis using u0 i by simp
        next
          case False
          then have "((ta_gtable t)(i := (ta_gtable t i)(n := ?new i))) i' n' = ta_gtable t i' n'" by auto
          then show ?thesis using t unfolding I_def by metis
        qed
      qed
    qed
    show "I s" by (simp add: I_def)
  qed
  then show ?thesis by (simp add: I_def)
qed

text \<open>An allocation in the example: the first way is useful, the second is not.\<close>

definition ta_alloc_example :: tahead where
  "ta_alloc_example = ta_globals\<lparr>ta_gtable := (\<lambda>i n. if n = 0 then ge_init\<lparr>ge_u := 2\<rparr> else ge_init)\<rparr>"

theorem allocation_spares_useful_entries_witness:
  "\<exists>r s'. ta_alloc_loop (tahead_config geo_14) True 12 0 0 1 True ta_alloc_example = (r, s') \<and> ge_u (ta_gtable s' 12 0) = 2"
proof -
  obtain r s' where run: "ta_alloc_loop (tahead_config geo_14) True 12 0 0 1 True ta_alloc_example = (r, s')" by fastforce
  have u: "ge_u (ta_gtable ta_alloc_example 12 0) = 2" by (simp add: ta_alloc_example_def)
  then show ?thesis using run allocation_spares_useful_entries [OF run, of 12 0] by auto
qed

section \<open>Counters\<close>

definition in_bits :: "nat \<Rightarrow> int \<Rightarrow> bool" where
  "in_bits n x \<longleftrightarrow> - (2 ^ (n - 1)) \<le> x \<and> x < 2 ^ (n - 1)"

lemma ctrupdate_in_bits [intro]: "in_bits n x \<Longrightarrow> in_bits n (ctrupdate x taken n)"
  by (auto simp: in_bits_def ctrupdate_def)

lemma ctrupdate_moves: "in_bits n x \<Longrightarrow> taken \<Longrightarrow> x \<le> ctrupdate x taken n" "in_bits n x \<Longrightarrow> \<not> taken \<Longrightarrow> ctrupdate x taken n \<le> x"
  by (auto simp: ctrupdate_def)

definition ge_ok :: "gentry \<Rightarrow> bool" where
  "ge_ok e \<longleftrightarrow> in_bits CWIDTH (ge_ctr e) \<and> 0 \<le> ge_u e \<and> ge_u e < 2 ^ UWIDTH"

definition be_ok :: "bentry \<Rightarrow> bool" where
  "be_ok b \<longleftrightarrow> (be_pred b = 0 \<or> be_pred b = 1) \<and> 0 \<le> be_hyst b \<and> be_hyst b < 2 ^ (BIMWIDTH - 1)"

definition cr_ok :: "tage_corrector \<Rightarrow> bool" where
  "cr_ok r \<longleftrightarrow> in_bits PERCWIDTH (cr_BiasGEN r) \<and> (\<forall>b. in_bits PERCWIDTH (cr_BiasAP r b)) \<and> (\<forall>b. in_bits PERCWIDTH (cr_BiasLM r b)) \<and>
    (\<forall>i. in_bits PERCWIDTH (cr_BiasLMAP r i) \<and> in_bits PERCWIDTH (cr_BiasPC r i) \<and> in_bits PERCWIDTH (cr_BiasPCLMAP r i) \<and>
         in_bits PERCWIDTH (cr_IBIAS r i) \<and> in_bits PERCWIDTH (cr_IIBIAS r i) \<and> in_bits PERCWIDTH (cr_BBIAS r i) \<and>
         in_bits PERCWIDTH (cr_FBIAS r i)) \<and>
    0 \<le> cr_updatethreshold r \<and> cr_updatethreshold r < 2 ^ WIDTHRES"

definition ta_ok :: "tahead \<Rightarrow> bool" where
  "ta_ok s \<longleftrightarrow> (\<forall>i j. ge_ok (ta_gtable s i j)) \<and> (\<forall>j. be_ok (ta_btable s j)) \<and> cr_ok (ta_corr s) \<and>
    in_bits BIMWIDTH (lk_BIM (ta_look s)) \<and> in_bits 7 (ta_CountLowConf s) \<and>
    0 \<le> ta_TICK s \<and> ta_TICK s < BORNTICK \<and> 0 \<le> ta_TICKH s \<and> ta_TICKH s \<le> BORNTICK"

lemmas width_defs = CWIDTH_def UWIDTH_def BIMWIDTH_def PERCWIDTH_def WIDTHRES_def

lemma in_bits_small [simp]: "in_bits n 0" "in_bits n (- 1)"
proof -
  have "(0 :: int) < 2 ^ (n - 1)" by simp
  then show "in_bits n 0" "in_bits n (- 1)" unfolding in_bits_def by linarith+
qed

lemma widths_pos [simp]: "0 < CWIDTH" "0 < BIMWIDTH" "0 < PERCWIDTH"
  by (simp_all add: width_defs)

lemma ge_ok_init: "ge_ok ge_init"
  by (simp add: ge_ok_def ge_init_def)

lemma be_ok_init: "be_ok be_init"
  by (simp add: be_ok_def be_init_def BIMWIDTH_def)

lemma cr_ok_reinit: "cr_ok r \<Longrightarrow> cr_ok (cr_reinit c r)"
proof -
  have "in_bits PERCWIDTH ([- 8, 7, - 32, 31] ! (j mod 4))" for j :: nat
  proof -
    have "j mod 4 < 4" by simp
    then consider "j mod 4 = 0" | "j mod 4 = 1" | "j mod 4 = 2" | "j mod 4 = 3" by linarith
    then show ?thesis by cases (simp_all add: in_bits_def PERCWIDTH_def)
  qed
  then show "cr_ok r \<Longrightarrow> cr_ok (cr_reinit c r)"
    by (auto simp: cr_ok_def cr_reinit_def bias_init_def bias_lmap_init_def WIDTHRES_def)
qed

lemma ta_ok_start: "ta_ok (ta_reinit c ta_globals)"
proof -
  have "cr_ok cr_globals" by (simp add: cr_ok_def cr_globals_def)
  from cr_ok_reinit [OF this] show ?thesis
    by (simp add: ta_ok_def ta_reinit_def ta_globals_def ge_ok_init be_ok_init lk_globals_def BORNTICK_def)
qed

lemma ta_on_gentry_ok: "ta_ok s \<Longrightarrow> (\<And>e. ge_ok e \<Longrightarrow> ge_ok (f e)) \<Longrightarrow> ta_ok (ta_on_gentry c i j f s)"
  by (simp add: ta_ok_def ta_on_gentry_def ta_gentry_def)

lemma ta_on_way_ok: "ta_ok s \<Longrightarrow> (\<And>e. ge_ok e \<Longrightarrow> ge_ok (f e)) \<Longrightarrow> ta_ok (ta_on_way c i j f s)"
  unfolding ta_on_way_def by (rule ta_on_gentry_ok)

lemma ta_on_bentry_ok: "ta_ok s \<Longrightarrow> (\<And>b. be_ok b \<Longrightarrow> be_ok (f b)) \<Longrightarrow> ta_ok (ta_on_bentry c j f s)"
  by (simp add: ta_ok_def ta_on_bentry_def ta_bentry_def)

lemma ta_look_ok: "ta_ok s \<Longrightarrow> lk_BIM k = lk_BIM (ta_look s) \<Longrightarrow> ta_ok (s\<lparr>ta_look := k\<rparr>)"
  by (simp add: ta_ok_def)

lemma ta_MYRANDOM_ok: "ta_ok s \<Longrightarrow> ta_MYRANDOM s = (x, s') \<Longrightarrow> ta_ok s'"
  by (auto simp: ta_MYRANDOM_def Let_def ta_ok_def)

lemma ta_getbim_ok: "ta_ok s \<Longrightarrow> ta_getbim c s = (b, s') \<Longrightarrow> ta_ok s'"
proof -
  assume s: "ta_ok s" and r: "ta_getbim c s = (b, s')"
  let ?h = "ta_bentry c (lk_BI (ta_look s) div 2 ^ HYSTSHIFT) s"
  have "be_ok ?h" using s by (simp add: ta_ok_def ta_bentry_def)
  then show "ta_ok s'" using s r by (auto simp: ta_getbim_def Let_def ta_ok_def be_ok_def in_bits_def BIMWIDTH_def)
qed

lemma ta_longest_ok: "ta_ok s \<Longrightarrow> ta_ok (ta_longest c s)"
proof (cases "ta_search (ta_hits c s) (tc_NHIST c)")
  case None
  assume "ta_ok s"
  then show ?thesis using None by (simp add: ta_longest_def Let_def) (rule ta_look_ok, simp_all)
next
  case (Some r)
  obtain i j where r: "r = (i, j)" by (rule prod.exhaust)
  assume "ta_ok s"
  then show ?thesis using Some r by (simp add: ta_longest_def Let_def) (rule ta_look_ok, simp_all)
qed

lemma ta_alternate_ok: "ta_ok s \<Longrightarrow> ta_ok (ta_alternate c s)"
  unfolding ta_alternate_def Let_def by (rule ta_look_ok) simp_all

lemma ta_high_conf_ok: "ta_ok s \<Longrightarrow> ta_ok (ta_high_conf c s)"
  unfolding ta_high_conf_def Let_def by (split if_split, split if_split) (simp add: ta_look_ok)

lemma ta_choose_ok: "ta_ok s \<Longrightarrow> ta_ok (ta_choose c s)"
  unfolding ta_choose_def Let_def by (simp add: ta_look_ok)

lemmas ta_steps_ok = ta_longest_ok ta_alternate_ok ta_high_conf_ok ta_choose_ok

lemma ta_Tagepred_ok:
  assumes s: "ta_ok s"
  shows "ta_ok (ta_Tagepred c PC s)"
proof -
  have place: "ta_ok (ta_place c t)" if "ta_ok t" for t
    unfolding ta_place_def Let_def by (rule ta_look_ok [OF that]) simp
  have hash: "ta_ok (ta_hash_block c PC s)"
  proof (cases "hi_Numero (ta_hist s) = 0")
    case True
    then have "\<exists>X Y. ta_hash_block c PC s = s\<lparr>ta_look := (ta_look s)\<lparr>lk_AHGI := X, lk_AHGTAG := Y\<rparr>\<rparr>"
      unfolding ta_hash_block_def Let_def by (simp only: simp_thms if_False) blast
    then obtain X Y where "ta_hash_block c PC s = s\<lparr>ta_look := (ta_look s)\<lparr>lk_AHGI := X, lk_AHGTAG := Y\<rparr>\<rparr>" by blast
    then show ?thesis using s by (simp add: ta_look_ok)
  next
    case False
    then show ?thesis using s by (simp add: ta_hash_block_def)
  qed
  obtain bim s1 where bim: "ta_getbim c (ta_place c (ta_hash_block c PC s)) = (bim, s1)" by (rule prod.exhaust)
  have s1: "ta_ok s1" by (rule ta_getbim_ok [OF place [OF hash] bim])
  define s2 where "s2 = s1\<lparr>ta_look := (ta_look s1)\<lparr>lk_alttaken := bim, lk_HCpred := bim, lk_tage_pred := bim, lk_LongestMatchPred := bim\<rparr>\<rparr>"
  have s2: "ta_ok s2" unfolding s2_def by (rule ta_look_ok [OF s1]) simp
  have "ta_Tagepred c PC s = ta_choose c (ta_high_conf c (ta_alternate c (ta_longest c s2)))"
    unfolding ta_Tagepred_def Let_def bim prod.case s2_def [symmetric] ..
  then show ?thesis using s2 by (simp only: ta_steps_ok)
qed

lemma cr_sum_ok: "cr_ok r \<Longrightarrow> cr_ok (cr_sum c h k r)"
  by (simp add: cr_ok_def cr_sum_def Let_def)

lemma ta_getPrediction_ok: "ta_ok s \<Longrightarrow> ta_getPrediction c pc s = (r, s') \<Longrightarrow> ta_ok s'"
  by (auto simp: ta_getPrediction_def Let_def dest!: ta_Tagepred_ok [of s c])
    (auto simp: ta_ok_def cr_sum_ok)

lemma cr_train_ok: "cr_ok r \<Longrightarrow> cr_ok (cr_train c h k dir r)"
  by (auto simp: cr_ok_def cr_train_def Let_def)

lemma cr_update_ok: "cr_ok r \<Longrightarrow> cr_ok (cr_update c h k dir r)"
  unfolding cr_update_def Let_def by (auto intro!: cr_train_ok) (auto simp: cr_ok_def)

lemma ta_CountLowConf_ok: "ta_ok s \<Longrightarrow> ta_ok (s\<lparr>ta_CountLowConf := ctrupdate (ta_CountLowConf s) b 7\<rparr>)"
  by (auto simp: ta_ok_def)

lemma ta_count_low_conf_ok:
  assumes s: "ta_ok s"
  shows "ta_ok (ta_count_low_conf s)"
proof -
  obtain r s1 where r: "ta_MYRANDOM s = (r, s1)" by (rule prod.exhaust)
  have s1: "ta_ok s1" by (rule ta_MYRANDOM_ok [OF s r])
  show ?thesis
    unfolding ta_count_low_conf_def Let_def r prod.case using s s1 by (simp add: ta_CountLowConf_ok)
qed

lemma ta_install_ok: "ta_ok s \<Longrightarrow> ta_ok (ta_install c i j dir s)"
  unfolding ta_install_def by (rule ta_on_way_ok) (auto simp: ge_ok_def UWIDTH_def)

lemma ge_ok_less: "ge_ok e \<Longrightarrow> 0 < ge_u e \<Longrightarrow> ge_ok (e\<lparr>ge_u := ge_u e - 1\<rparr>)"
  by (simp add: ge_ok_def)

lemma ta_age_ok: "ta_ok (s\<lparr>ta_TICK := 0, ta_TICKH := 0\<rparr>) \<Longrightarrow> ta_ok (ta_age c s)"
  by (simp add: ta_ok_def ta_age_def Let_def ge_ok_less)

lemma ta_tick_ok:
  assumes s: "ta_ok s"
  shows "ta_ok (ta_tick c NA Penalty s)"
proof -
  define s1 where "s1 = s\<lparr>ta_TICKH := min BORNTICK (max 0 (ta_TICKH s + Penalty - NA)), ta_TICK := max 0 (ta_TICK s + Penalty - 2 * NA)\<rparr>"
  show ?thesis
  proof (cases "ta_TICK s1 \<ge> BORNTICK")
    case True
    have "ta_ok (s1\<lparr>ta_TICK := 0, ta_TICKH := 0\<rparr>)" using s by (simp add: s1_def ta_ok_def BORNTICK_def)
    from ta_age_ok [OF this] show ?thesis using True by (simp add: ta_tick_def s1_def [symmetric])
  next
    case False
    then have "ta_ok s1" using s by (auto simp: ta_ok_def s1_def BORNTICK_def)
    then show ?thesis using False by (simp add: ta_tick_def s1_def [symmetric])
  qed
qed

lemma ta_alloc_ok:
  assumes s: "ta_ok s"
  shows "ta_ok (ta_alloc c dir s)"
proof -
  obtain r1 s1 r2 s2 where r: "ta_MYRANDOM s = (r1, s1)" "ta_MYRANDOM s1 = (r2, s2)" by (metis surj_pair)
  have s2: "ta_ok s2" using s r ta_MYRANDOM_ok by blast
  define DEP where "DEP = lk_HitBank (ta_look s) + 1 + of_bool (r1 AND 1 = 0) + of_bool (r2 AND 3 = 0)"
  define M :: int where "M = of_bool (ta_CountMiss11 s < 0) + 8 * of_bool (ta_CountLowConf s \<ge> 0)"
  obtain NA Penalty s3 where l: "ta_alloc_loop c dir DEP 0 0 M True s2 = ((NA, Penalty), s3)" by (metis surj_pair)
  have "ta_ok s3" 
    by (rule ta_alloc_loop_inv [where I = ta_ok and b = DEP, OF _ _ l order_refl s2]) (blast intro: ta_MYRANDOM_ok ta_install_ok)+
  moreover have "ta_alloc c dir s = ta_tick c NA Penalty s3"
    unfolding ta_alloc_def Let_def r prod.case DEP_def [symmetric] M_def [symmetric] l ..
  ultimately show ?thesis by (simp add: ta_tick_ok)
qed

lemma ta_baseupdate_ok:
  assumes s: "ta_ok s"
  shows "ta_ok (ta_baseupdate c dir s)"
proof -
  define i where "i = ctrupdate (lk_BIM (ta_look s)) dir BIMWIDTH"
  have i: "in_bits BIMWIDTH i" unfolding i_def using s by (intro ctrupdate_in_bits) (simp add: ta_ok_def)
  have 1: "ta_ok (ta_on_bentry c (lk_BI (ta_look s)) (\<lambda>b. b\<lparr>be_pred := of_bool (i \<ge> 0)\<rparr>) s)"
    by (rule ta_on_bentry_ok [OF s]) (simp add: be_ok_def)
  show ?thesis unfolding ta_baseupdate_def Let_def i_def [symmetric]
    by (rule ta_on_bentry_ok [OF 1]) (use i in \<open>auto simp: be_ok_def in_bits_def\<close>)
qed

lemma ta_train_ok: "ta_ok s \<Longrightarrow> ta_ok (ta_train c dir s)"
  unfolding ta_train_def Let_def by (auto intro!: ta_on_way_ok ta_baseupdate_ok) (auto simp: ge_ok_def)

lemma ge_ok_more: "ge_ok e \<Longrightarrow> ge_u e < 2 ^ UWIDTH - 1 \<Longrightarrow> ge_ok (e\<lparr>ge_u := ge_u e + 1\<rparr>)"
  by (simp add: ge_ok_def)

lemma ge_ok_if: "(b \<Longrightarrow> ge_ok x) \<Longrightarrow> (\<not> b \<Longrightarrow> ge_ok y) \<Longrightarrow> ge_ok (if b then x else y)"
  by simp

lemma ta_useful_ok: "ta_ok s \<Longrightarrow> ta_ok (ta_useful c dir s)"
  unfolding ta_useful_def Let_def by (auto intro!: ta_on_way_ok ge_ok_if ge_ok_less ge_ok_more)

lemma ta_updateTables_ok:
  assumes s: "ta_ok s"
  shows "ta_ok (ta_updateTables c dir s)"
proof -
  define s1 where "s1 = s\<lparr>ta_corr := cr_update c (ta_hist s) (ta_look s) dir (ta_corr s)\<rparr>"
  have s1: "ta_ok s1" using s by (simp add: ta_ok_def s1_def cr_update_ok)
  have s2: "ta_ok (if b then ta_alloc c dir (ta_count_low_conf s1) else ta_count_low_conf s1)" for b
    using s1 by (simp add: ta_alloc_ok ta_count_low_conf_ok)
  show ?thesis unfolding ta_updateTables_def Let_def s1_def [symmetric] by (rule ta_useful_ok [OF ta_train_ok [OF s2]])
qed

section \<open>Runs\<close>

text \<open>What a wrapper asks for: a prediction, the update of the branch, and other control instructions.\<close>

datatype tage_request =
    Predict u64
  | Update u64 opcode bool bool u64
  | Track u64 opcode bool u64

fun ta_step :: "tage_config \<Rightarrow> tage_request \<Rightarrow> tahead \<Rightarrow> tahead res" where
  "ta_step c (Predict pc) s = Inr (snd (ta_getPrediction c pc s))"
| "ta_step c (Update pc op dir pred target) s = ta_updatePredictor c pc op dir pred target s"
| "ta_step c (Track pc op taken target) s = ta_TrackOtherInst c pc op taken target s"

fun ta_run :: "tage_config \<Rightarrow> tage_request list \<Rightarrow> tahead \<Rightarrow> tahead res" where
  "ta_run c [] s = Inr s"
| "ta_run c (q # qs) s = bind_res (ta_step c q s) (ta_run c qs)"

lemma ta_step_ok: "ta_ok s \<Longrightarrow> ta_step c q s = Inr s' \<Longrightarrow> ta_ok s'"
proof (cases q)
  case (Predict pc)
  assume "ta_ok s" and "ta_step c q s = Inr s'"
  then show "ta_ok s'" using Predict ta_getPrediction_ok [of s c pc] by (metis Inr_inject prod.collapse ta_step.simps(1))
next
  case (Update pc op dir pred target)
  assume s: "ta_ok s" and "ta_step c q s = Inr s'"
  then obtain h where "s' = (ta_updateTables c dir s)\<lparr>ta_hist := h\<rparr>"
    using Update by (auto simp: ta_updatePredictor_def ta_TrackOtherInst_def bind_res_Inr_iff)
  then show "ta_ok s'" using ta_updateTables_ok [OF s, of c dir] by (simp add: ta_ok_def)
next
  case (Track pc op taken target)
  assume "ta_ok s" and "ta_step c q s = Inr s'"
  then show "ta_ok s'" using Track by (auto simp: ta_TrackOtherInst_def bind_res_Inr_iff ta_ok_def)
qed

text \<open>
  C12. Whatever branches are predicted and trained, in whatever order, no counter of the tables, of the corrector or of the
  allocation policy leaves the bits it is meant to have.
\<close>

theorem tage_counters_stay_in_range:
  assumes "ta_run c qs (ta_reinit c ta_globals) = Inr s"
  shows "ta_ok s"
proof -
  have "ta_run c qs t = Inr s \<Longrightarrow> ta_ok t \<Longrightarrow> ta_ok s" for t
    by (induction qs arbitrary: t) (auto simp: bind_res_Inr_iff dest: ta_step_ok)
  from this [OF assms ta_ok_start] show ?thesis .
qed

text \<open>Two branches and a call.\<close>

definition tage_requests :: "tage_request list" where
  "tage_requests = [Predict 0x400120, Update 0x400120 iBALU_LBRANCH True False 0x400100, Track 0x400110 iBALU_LCALL True 0x500000,
    Predict 0x500010, Update 0x500010 iBALU_LBRANCH False False 0x500040]"

lemma ta_step_total: "(\<And>pc op t f. q = Track pc op t f \<Longrightarrow> \<exists>b. hi_brtype op = Inr b) \<Longrightarrow>
    (\<And>pc op t u f. q = Update pc op t u f \<Longrightarrow> \<exists>b. hi_brtype op = Inr b) \<Longrightarrow> \<exists>s'. ta_step c q s = Inr s'"
proof (cases q)
  case (Update pc op dir pred target)
  assume "\<And>pc op t u f. q = Update pc op t u f \<Longrightarrow> \<exists>b. hi_brtype op = Inr b"
  then obtain b where b: "hi_brtype op = Inr b" using Update by blast
  show ?thesis using Update ta_HistoryUpdate_total [OF b, of c pc dir target "ta_hist (ta_updateTables c dir s)"]
    by (auto simp: ta_updatePredictor_def ta_TrackOtherInst_def)
next
  case (Track pc op taken target)
  assume "\<And>pc op t f. q = Track pc op t f \<Longrightarrow> \<exists>b. hi_brtype op = Inr b"
  then obtain b where b: "hi_brtype op = Inr b" using Track by blast
  show ?thesis using Track ta_HistoryUpdate_total [OF b, of c pc taken target "ta_hist s"]
    by (auto simp: ta_TrackOtherInst_def)
qed simp

lemma tage_requests_run: "\<exists>s. ta_run c tage_requests t = Inr s"
proof -
  have "\<forall>q \<in> set qs. \<forall>s. \<exists>s'. ta_step c q s = Inr s' \<Longrightarrow> \<exists>s. ta_run c qs t = Inr s" for qs t
  proof (induction qs arbitrary: t)
    case (Cons q qs)
    then obtain s1 where "ta_step c q t = Inr s1" by (meson list.set_intros(1))
    moreover have "\<exists>s. ta_run c qs s1 = Inr s" by (rule Cons.IH) (use Cons.prems in \<open>meson list.set_intros(2)\<close>)
    ultimately show ?case by auto
  qed simp
  moreover have "\<forall>q \<in> set tage_requests. \<forall>s. \<exists>s'. ta_step c q s = Inr s'"
    by (intro ballI allI ta_step_total) (auto simp: tage_requests_def hi_brtype_def)
  ultimately show ?thesis by blast
qed

theorem tage_counters_stay_in_range_witness:
  "\<exists>s. ta_run (tahead_config geo_14) tage_requests (ta_reinit (tahead_config geo_14) ta_globals) = Inr s \<and> ta_ok s"
  using tage_requests_run tage_counters_stay_in_range by blast

section \<open>Indices of the corrector\<close>

lemma unat_take_bit_less: "unat (take_bit n (x :: u64)) < 2 ^ n"
  by (simp add: unsigned_take_bit_eq)

lemma ind_hash_less:
  assumes n: "5 \<le> tc_LOGBIAS c" and n': "tc_LOGBIAS c < 64"
  shows "ind_hash c x h < 2 ^ tc_LOGBIAS c"
proof -
  let ?n = "tc_LOGBIAS c"
  have m: "push_bit ?n 1 - 1 = (mask ?n :: u64)" by (simp add: mask_eq_exp_minus_1 push_bit_of_1)
  have 1: "x AND (push_bit ?n 1 - 1) = take_bit ?n x" unfolding m by (simp only: take_bit_eq_mask)
  have "hi_Numero h AND 7 = take_bit 3 (hi_Numero h)" by (simp add: take_bit_eq_mask mask_eq_exp_minus_1)
  then have "ind_psnum h = take_bit 5 (push_bit 2 (hi_Numero h))"
    by (simp add: ind_psnum_def MAXBR_def push_bit_take_bit)
  then have 2: "ind_psnum h = take_bit ?n (ind_psnum h)" using n by (simp add: min_def)
  have "ind_hash c x h = unat (take_bit ?n (x XOR ind_psnum h))"
    unfolding ind_hash_def 1 by (subst 2) (simp only: take_bit_xor)
  then show ?thesis using unat_take_bit_less [of ?n "x XOR ind_psnum h"] by (simp only:)
qed

lemma xor_less_exp: "a < 2 ^ n \<Longrightarrow> b < 2 ^ n \<Longrightarrow> a XOR b < (2 :: nat) ^ n"
  by (metis take_bit_nat_eq_self_iff take_bit_xor)

text \<open>
  The tables of the statistical corrector are indexed without a check: with the sizes of both headers every index is inside.
\<close>

theorem corrector_indices_in_bounds:
  assumes "c = tahead_config geo \<or> c = tahead1_config geo"
  shows "ind_lmap k < 4 \<and> ind_pc c h < 2 ^ tc_LOGBIAS c \<and> ind_pc_lmap c h k < 2 ^ tc_LOGBIAS c \<and> ind_bhist c h < 2 ^ tc_LOGBIAS c \<and>
    ind_fhist c h < 2 ^ tc_LOGBIAS c \<and> ind_imli_br c h < 2 ^ tc_LOGBIAS c \<and> ind_imli_ta c h < 2 ^ tc_LOGBIAS c"
proof -
  have n: "5 \<le> tc_LOGBIAS c" "tc_LOGBIAS c < 64" using assms by (auto simp: tahead_config_def tahead1_config_def)
  note hash = ind_hash_less [OF n]
  have "push_bit (tc_LOGBIAS c - 2) (of_bool a XOR push_bit 1 (of_bool b)) < (2 :: nat) ^ tc_LOGBIAS c" for a b
  proof -
    have p: "(2 :: nat) ^ tc_LOGBIAS c = 4 * 2 ^ (tc_LOGBIAS c - 2)" using n by (simp add: power_diff power_eq_if)
    have "of_bool a XOR push_bit 1 (of_bool b) < (4 :: nat)" by (cases a; cases b) simp_all
    then show ?thesis unfolding p push_bit_eq_mult by simp
  qed
  then have "ind_pc_lmap c h k < 2 ^ tc_LOGBIAS c"
    unfolding ind_pc_lmap_def by (intro xor_less_exp) (simp_all add: ind_pc_def Let_def hash)
  moreover have "ind_lmap k < 4" by (simp add: ind_lmap_def)
  ultimately show ?thesis
    by (simp add: ind_pc_def ind_bhist_def ind_fhist_def ind_imli_br_def ind_imli_ta_def Let_def hash)
qed

theorem corrector_indices_in_bounds_witness:
  "ind_pc (tahead1_config geo_14) hi_globals < 2 ^ tc_LOGBIAS (tahead1_config geo_14)"
  using corrector_indices_in_bounds [of "tahead1_config geo_14" geo_14] by simp

end
