(* ===== verification/Tage_Predictor.thy ===== *)
theory Tage_Predictor
  imports Branch_Wrapped Branch_Global Tage_Facts
begin

text \<open>
  The two TAGE engines behind the predictors of the simulator: \<open>Tahead\<close> inside \<open>BPTahead\<close> and \<open>Tahead1\<close> inside
  \<open>BPTahead1\<close>. The operations of \<open>simu/tahead1.hpp\<close> are those of \<open>simu/tahead.hpp\<close> with its own sizes, and a
  prediction also reports a low confidence. The facts: a predictor built on an engine keeps every counter of the engine in its
  range, block after block, and each prediction reaches the fetch as the engine made it.
\<close>

section \<open>The engine of \<open>Tahead\<close>\<close>

definition tahead_engine :: "(nat \<Rightarrow> nat) \<Rightarrow> tahead tahead_ops" where
  "tahead_engine geo =
    \<lparr>th_TrackOtherInst = ta_TrackOtherInst (tahead_config geo),
     th_getPrediction = (\<lambda>pc s. Inr (ta_getPrediction (tahead_config geo) pc s)),
     th_updatePredictor = ta_updatePredictor (tahead_config geo)\<rparr>"

section \<open>The engine of \<open>Tahead1\<close>\<close>

definition tahead1_reinit :: "(nat \<Rightarrow> nat) \<Rightarrow> tahead \<Rightarrow> tahead" where
  "tahead1_reinit geo = ta_reinit (tahead1_config geo)"

definition tahead1_Tagepred :: "(nat \<Rightarrow> nat) \<Rightarrow> u64 \<Rightarrow> tahead \<Rightarrow> tahead" where
  "tahead1_Tagepred geo = ta_Tagepred (tahead1_config geo)"

definition tahead1_getPrediction :: "(nat \<Rightarrow> nat) \<Rightarrow> u64 \<Rightarrow> tahead \<Rightarrow> (bool \<times> bool \<times> bool) \<times> tahead" where
  "tahead1_getPrediction geo PCBRANCH s =
    (let s = tahead1_Tagepred geo (hi_PCBLOCK (ta_hist s) XOR push_bit 5 (hi_Numero (ta_hist s))) s;
         k = ta_look s; r = cr_sum (tahead1_config geo) (ta_hist s) k (ta_corr s);
         taken = (if lk_TAGECONF k \<noteq> 3 \<or> \<bar>cr_SUMSC r\<bar> \<ge> cr_updatethreshold r div 2 then cr_SUMSC r \<ge> 0 else lk_LongestMatchPred k)
     in ((taken, lk_TAGECONF k \<ge> 1, lk_TAGECONF k = 1), s\<lparr>ta_corr := r, ta_pred_taken := taken\<rparr>))"

definition tahead1_HistoryUpdate :: "(nat \<Rightarrow> nat) \<Rightarrow> u64 \<Rightarrow> opcode \<Rightarrow> bool \<Rightarrow> u64 \<Rightarrow> tage_hist \<Rightarrow> tage_hist res" where
  "tahead1_HistoryUpdate geo = ta_HistoryUpdate (tahead1_config geo)"

definition tahead1_TrackOtherInst :: "(nat \<Rightarrow> nat) \<Rightarrow> u64 \<Rightarrow> opcode \<Rightarrow> bool \<Rightarrow> u64 \<Rightarrow> tahead \<Rightarrow> tahead res" where
  "tahead1_TrackOtherInst geo PCBRANCH opType taken branchTarget s =
    bind_res (tahead1_HistoryUpdate geo PCBRANCH opType taken branchTarget (ta_hist s)) (\<lambda>h. Inr (s\<lparr>ta_hist := h\<rparr>))"

definition tahead1_updatePredictor :: "(nat \<Rightarrow> nat) \<Rightarrow> u64 \<Rightarrow> opcode \<Rightarrow> bool \<Rightarrow> bool \<Rightarrow> u64 \<Rightarrow> tahead \<Rightarrow> tahead res" where
  "tahead1_updatePredictor geo PCBRANCH opType resolveDir predDir branchTarget s =
    tahead1_TrackOtherInst geo PCBRANCH opType resolveDir branchTarget (ta_updateTables (tahead1_config geo) resolveDir s)"

definition tahead1_engine :: "(nat \<Rightarrow> nat) \<Rightarrow> tahead tahead1_ops" where
  "tahead1_engine geo =
    \<lparr>th1_TrackOtherInst = tahead1_TrackOtherInst geo,
     th1_getPrediction = (\<lambda>pc s. Inr (tahead1_getPrediction geo pc s)),
     th1_updatePredictor = tahead1_updatePredictor geo\<rparr>"

section \<open>Both engines answer alike\<close>

lemma tahead1_getPrediction_ta:
  "ta_getPrediction (tahead1_config geo) pc s = ((t, b), s') \<Longrightarrow>
   tahead1_getPrediction geo pc s = ((t, b, lk_TAGECONF (ta_look s') = 1), s')"
  by (auto simp: tahead1_getPrediction_def ta_getPrediction_def tahead1_Tagepred_def Let_def)

lemma tahead1_updates_ta:
  "tahead1_TrackOtherInst geo = ta_TrackOtherInst (tahead1_config geo)"
  "tahead1_updatePredictor geo = ta_updatePredictor (tahead1_config geo)"
  by (intro ext, simp add: tahead1_TrackOtherInst_def tahead1_HistoryUpdate_def tahead1_updatePredictor_def
      ta_TrackOtherInst_def ta_updatePredictor_def)+

lemma ta_ok_requests:
  "ta_ok s \<Longrightarrow> ta_getPrediction c pc s = (r, s') \<Longrightarrow> ta_ok s'"
  "ta_ok s \<Longrightarrow> ta_updatePredictor c pc op dir pred target s = Inr s' \<Longrightarrow> ta_ok s'"
  "ta_ok s \<Longrightarrow> ta_TrackOtherInst c pc op taken target s = Inr s' \<Longrightarrow> ta_ok s'"
  by (erule (1) ta_getPrediction_ok)
    (use ta_step_ok [of s c "Update pc op dir pred target" s'] in simp,
     use ta_step_ok [of s c "Track pc op taken target" s'] in simp)

section \<open>A contract of engines\<close>

text \<open>
  What a wrapper needs to carry an invariant of its engine through a block: each of the three operations keeps it. The
  wrapper then does.
\<close>

locale tage_engine_contract =
  fixes ops :: "'t tahead_ops" and good :: "'t \<Rightarrow> bool"
  assumes track_keeps: "good s \<Longrightarrow> th_TrackOtherInst ops pc op taken target s = Inr s' \<Longrightarrow> good s'"
    and get_keeps: "good s \<Longrightarrow> th_getPrediction ops pc s = Inr (r, s') \<Longrightarrow> good s'"
    and update_keeps: "good s \<Longrightarrow> th_updatePredictor ops pc op dir pred target s = Inr s' \<Longrightarrow> good s'"
begin

text \<open>Such an engine sits in a predictor that meets the interface, with the invariant of the engine as its own.\<close>

lemma predict_keeps:
  assumes good: "good (th_tahead p)" and pred: "th_predict ops d upd p = Inr (r, p')"
  shows "good (th_tahead p')"
  using pred good
  by (auto simp: th_predict_def bind_res_Inr_iff Let_def bw_same_def split: if_splits
      dest!: bw_btb_predict_same bw_finish_same) (metis track_keeps get_keeps update_keeps)+

end

sublocale tage_engine_contract < block_predictor "th_predict ops" "\<lambda>d p. Inr (bw_fetchBoundaryBegin d p)"
    "\<lambda>p. Inr (bw_fetchBoundaryEnd p)" "\<lambda>p. good (th_tahead p)"
  by unfold_locales (auto simp: bw_fetchBoundaryBegin_def bw_fetchBoundaryEnd_def bp_fetchBoundaryBegin_def bp_fetchBoundaryEnd_def
      dest: th_predict_keeps predict_keeps)

text \<open>The wrapper of \<open>Tahead1\<close> is the one of \<open>Tahead\<close> on an engine that keeps the low confidence to itself.\<close>

definition drop_lowconf :: "'t tahead1_ops \<Rightarrow> 't tahead_ops" where
  "drop_lowconf ops =
    \<lparr>th_TrackOtherInst = th1_TrackOtherInst ops,
     th_getPrediction = (\<lambda>pc s. bind_res (th1_getPrediction ops pc s) (\<lambda>((t, b, l), s). Inr ((t, b), s))),
     th_updatePredictor = th1_updatePredictor ops\<rparr>"

lemma drop_lowconf_ops:
  "th_TrackOtherInst (drop_lowconf ops) = th1_TrackOtherInst ops" "th_updatePredictor (drop_lowconf ops) = th1_updatePredictor ops"
  "th_getPrediction (drop_lowconf ops) pc s = bind_res (th1_getPrediction ops pc s) (\<lambda>((t, b, l), s). Inr ((t, b), s))"
  by (simp_all add: drop_lowconf_def)

lemma bind_drop: "bind_res (bind_res m (\<lambda>((t, b, l), s). Inr ((t, b), s))) f = bind_res m (\<lambda>((t, b, l), s). f ((t, b), s))"
  by (cases m) (auto split: prod.splits)

lemma th1_predict_drop: "th1_predict ops = th_predict (drop_lowconf ops)"
  by (intro ext) (simp only: th1_predict_def th_predict_def drop_lowconf_ops bind_drop prod.case)

lemma drop_lowconf_tahead1: "drop_lowconf (tahead1_engine geo) =
    \<lparr>th_TrackOtherInst = ta_TrackOtherInst (tahead1_config geo),
     th_getPrediction = (\<lambda>pc s. Inr (ta_getPrediction (tahead1_config geo) pc s)),
     th_updatePredictor = ta_updatePredictor (tahead1_config geo)\<rparr>"
proof -
  have "bind_res (Inr (tahead1_getPrediction geo pc s)) (\<lambda>((t, b, l), s). Inr ((t, b), s)) =
      Inr (ta_getPrediction (tahead1_config geo) pc s)" for pc s
    by (cases "ta_getPrediction (tahead1_config geo) pc s") (auto dest!: tahead1_getPrediction_ta)
  then show ?thesis by (simp add: drop_lowconf_def tahead1_engine_def tahead1_updates_ta)
qed

interpretation engine: tage_engine_contract "tahead_engine geo" ta_ok for geo
  by unfold_locales (auto simp: tahead_engine_def intro: ta_ok_requests)

interpretation engine1: tage_engine_contract "drop_lowconf (tahead1_engine geo)" ta_ok for geo
  by unfold_locales (auto simp: drop_lowconf_tahead1 intro: ta_ok_requests)

section \<open>Blocks\<close>

text \<open>
  A predictor with the TAGE engine of the code, \<open>BPTahead\<close> or \<open>BPTahead1\<close>: when a block is begun and its
  instructions are predicted, every counter of the engine is still in its range, and the base class has counted the taken
  instructions.
\<close>

theorem tage_block_keeps_engine:
  assumes "ta_ok (th_tahead p)" and "step = th_predict (tahead_engine geo) \<or> step = th1_predict (tahead1_engine geo)"
    and "bp_block step ds (bw_fetchBoundaryBegin d p) = Inr (os, p')"
  shows "ta_ok (th_tahead p') \<and> bp_taken_counter p' = int (length (filter (\<lambda>d. di_addr d \<noteq> 0) ds))"
  using assms engine.begun_block [of p d "bw_fetchBoundaryBegin d p" geo ds os p']
    engine1.begun_block [of p d "bw_fetchBoundaryBegin d p" geo ds os p'] by (auto simp: th1_predict_drop)

lemma branch_taken: "isBranch (di_inst d) \<Longrightarrow> di_isTaken d = Inr (di_addr d \<noteq> 0)"
  by (auto simp: di_isTaken_def isControl_def isBranch_def less_eq_opcode_def)

lemma tahead_predicts:
  assumes "bw_oracle p" and "isBranch (di_inst d)" and "hi_brtype (in_opcode (di_inst d)) = Inr b"
    and "ta_getPrediction (tahead_config geo) (di_pc d) (th_tahead p) = ((ptaken, bias), s)"
  shows "\<exists>p'. th_predict (tahead_engine geo) d True p =
      Inr ((if (di_addr d \<noteq> 0) = ptaken then Outcome_Correct else Outcome_Miss, di_setBiasBranch bias d), p') \<and>
    bw_oracle p' \<and>
    ta_updatePredictor (tahead_config geo) (di_pc d) (in_opcode (di_inst d)) (di_addr d \<noteq> 0) ptaken (di_addr d) s = Inr (th_tahead p')"
proof -
  let ?taken = "di_addr d \<noteq> 0" let ?d = "di_setBiasBranch bias d"
  obtain h where "ta_HistoryUpdate (tahead_config geo) (di_pc d) (in_opcode (di_inst d)) ?taken (di_addr d)
      (ta_hist (ta_updateTables (tahead_config geo) ?taken s)) = Inr h"
    using ta_HistoryUpdate_total [OF assms(3)] by blast
  then obtain x where x: "ta_updatePredictor (tahead_config geo) (di_pc d) (in_opcode (di_inst d)) ?taken ptaken (di_addr d) s = Inr x"
    by (simp add: ta_updatePredictor_def ta_TrackOtherInst_def)
  have "bw_oracle (p\<lparr>th_tahead := x\<rparr>)" using assms(1) by (simp add: bw_oracle_def)
  then obtain q where q: "bw_finish ?d True ?taken ptaken (p\<lparr>th_tahead := x\<rparr>) =
      Inr (if ?taken = ptaken then Outcome_Correct else Outcome_Miss, q)" "bw_same (p\<lparr>th_tahead := x\<rparr>) q" "bw_oracle q"
    by (rule bw_finish_oracle [where d = ?d and upd = True and taken = ?taken and ptaken = ptaken])
  have "th_predict (tahead_engine geo) d True p =
      Inr ((if ?taken = ptaken then Outcome_Correct else Outcome_Miss, ?d), q)"
    using assms(2,4) branch_taken [OF assms(2)] x q(1) by (simp add: th_predict_def tahead_engine_def)
  moreover have "th_tahead q = x" using q(2) by (auto simp: bw_same_def)
  ultimately show ?thesis using q(3) x by blast
qed

text \<open>
  A branch in front of a perfect buffer: it is a miss exactly if its direction differs from the one the tables and the corrector
  give, it carries their confidence, and the engine is then trained with the outcome.
\<close>

theorem tahead_predicts_direction:
  assumes "bw_oracle p" and "isBranch (di_inst d)" and "hi_brtype (in_opcode (di_inst d)) = Inr b"
    and "ta_getPrediction (tahead_config geo) (di_pc d) (th_tahead p) = ((ptaken, bias), s)"
  shows "\<exists>p'. th_predict (tahead_engine geo) d True p =
      Inr ((if (di_addr d \<noteq> 0) = ptaken then Outcome_Correct else Outcome_Miss, di_setBiasBranch bias d), p') \<and>
    bw_oracle p' \<and>
    ta_updatePredictor (tahead_config geo) (di_pc d) (in_opcode (di_inst d)) (di_addr d \<noteq> 0) ptaken (di_addr d) s = Inr (th_tahead p')"
  by (rule tahead_predicts [OF assms])

text \<open>An empty engine, and a conditional branch at address 64.\<close>

definition tage_example_predictor :: "tahead bp_tahead" where
  "tage_example_predictor =
    \<lparr>bp_taken_counter = 0, bp_addrShift = 0, bw_btb = undefined\<lparr>bt_data := []\<rparr>, th_tahead = ta_reinit (tahead_config geo_14) ta_globals\<rparr>"

lemma tage_example_branch:
  "bw_oracle tage_example_predictor" "isBranch (di_inst (di_branch_at 64 200))"
  "hi_brtype (in_opcode (di_inst (di_branch_at 64 200))) = Inr 1" "ta_ok (th_tahead tage_example_predictor)"
  by (simp_all add: bw_oracle_def tage_example_predictor_def di_branch_at_def isBranch_def hi_brtype_def ta_ok_start)

theorem tahead_predicts_direction_witness:
  "\<exists>r p'. th_predict (tahead_engine geo_14) (di_branch_at 64 200) True tage_example_predictor = Inr (r, p') \<and> bw_oracle p'"
proof -
  obtain t b s where "ta_getPrediction (tahead_config geo_14) (di_pc (di_branch_at 64 200)) (th_tahead tage_example_predictor) = ((t, b), s)"
    by (metis prod.collapse)
  from tahead_predicts_direction [OF tage_example_branch(1-3) this] show ?thesis by blast
qed

theorem tage_block_keeps_engine_witness:
  "\<exists>os p'. bp_block (th_predict (tahead_engine geo_14)) [di_branch_at 64 200]
      (bw_fetchBoundaryBegin (di_branch_at 64 200) tage_example_predictor) = Inr (os, p') \<and>
    ta_ok (th_tahead p') \<and> bp_taken_counter p' = 1"
proof -
  let ?d = "di_branch_at 64 200" let ?p = "bw_fetchBoundaryBegin ?d tage_example_predictor"
  have p: "bw_oracle ?p" "ta_ok (th_tahead tage_example_predictor)" using tage_example_branch(1,4) by simp_all
  obtain t bias s where "ta_getPrediction (tahead_config geo_14) (di_pc ?d) (th_tahead ?p) = ((t, bias), s)" by (metis prod.collapse)
  from tahead_predicts [OF p(1) tage_example_branch(2,3) this] obtain o' p' where
    step: "th_predict (tahead_engine geo_14) ?d True ?p = Inr ((o', di_setBiasBranch bias ?d), p')" by blast
  have "bp_taken_counter ?p = 0" by (simp add: bw_fetchBoundaryBegin_def bp_fetchBoundaryBegin_def)
  then have "\<exists>q. bp_block (th_predict (tahead_engine geo_14)) [?d] ?p = Inr ([o'], q)"
    using step branch_taken [of "di_setBiasBranch bias ?d"] tage_example_branch(2) by (simp add: bp_doPredict_def)
  then obtain q where q: "bp_block (th_predict (tahead_engine geo_14)) [?d] ?p = Inr ([o'], q)" by blast
  have "di_addr ?d \<noteq> 0" by (simp add: di_branch_at_def di_jump_at_def)
  with tage_block_keeps_engine [OF p(2) disjI1 [OF refl] q] q show ?thesis by simp
qed

end
