(* ===== verification/Spec2Isabelle.thy ===== *)
theory Spec2Isabelle
  imports Snippets Sctable Fast_Queue Pool Tqueue Port Event_Scheduler Callbacks Bloom_Filter
    Instruction Dinst Dep_Window Store_Set Lsq Mshr Cache_Geometry Cache_Client Cache_Assoc
    Cache_Direct Cache_Ship Cache_Hawk Cache_Factory Store_Buffer Dolc
    Branch_Base Branch_Btb Branch_Ras Sctable_Learning Branch_Simple Branch_Global Branch_Loop Branch_Wrapped
    Branch_Predictor Core_State Functional_Units Cluster_Window Pipeline
    Cluster_Scheduler Ooo_Core Commit_Order Core_Cycle
    Tage_History Tage_Engine Tage_Facts Tage_Predictor
begin

text \<open>
  A verification library for the simulation kernel of DESESC, a discrete-event simulator of
  out-of-order processors and their memories, in C++.

  \<^bold>\<open>The program.\<close> A run of the simulator is a loop over \<open>EventScheduler::advanceClock\<close>
  (\<open>src/core/callback.hpp\<close>). Every delay of the machine that is simulated is a callback object,
  taken from a pool (\<open>src/core/pool.hpp\<close>) and queued by its time in a calendar queue
  (\<open>src/core/tqueue.hpp\<close>). The pipeline (\<open>src/simu\<close>) fetches dynamic instructions
  (\<open>src/emul/dinst.hpp\<close>), links them by their register dependences, issues the ready ones
  from dependence windows through contention ports (\<open>src/core/port.cpp\<close>), checks loads
  against stores in the load/store queues, and predicts aliases with store sets and branches
  with tables of saturating counters (\<open>src/core/sctable.cpp\<close>). The caches (\<open>src/mem\<close>)
  hold requests to lines that are being fetched in miss status registers.

  \<^bold>\<open>Conventions.\<close> \<open>Desesc_Prelude\<close> holds them: a w-bit unsigned integer is a
  \<open>w word\<close>, so wrap-around is that of the code; a signed counter that the code moves by one
  is an \<open>int\<close> (its overflow is undefined in C++). The assertions \<open>I(...)\<close> of a debug build,
  null dereferences, accesses past the end of a vector, divisions by zero, shifts by the width or more, calls of \<open>exit\<close>
  and exhausted fuel are values of \<open>sim_error\<close>, the left part of the result type \<open>res\<close>. An
  operation that changes an object takes its record and returns the changed one. Objects that are shared
  through pointers are numbers, and a store maps them to records. Code that is passed in as a
  callback is a function argument.

  \<^bold>\<open>The theories.\<close>
  \<^item> \<open>Snippets\<close> (\<open>core/snippets.cpp\<close>): \<open>roundUpPower2\<close> returns the least power of two
    that is large enough, \<open>log2i\<close> returns its exponent where its loop ends.
  \<^item> \<open>Sctable\<close> (\<open>core/sctable.cpp\<close>): the counters keep their invariant under every sequence of
    operations, and training decides the prediction.
  \<^item> \<open>Fast_Queue\<close> (\<open>core/fastqueue.hpp\<close>): the ring refines a bounded double-ended queue.
  \<^item> \<open>Pool\<close> (\<open>core/pool.hpp\<close>): the locale \<open>object_pool\<close> states what clients rely on; no object
    is handed out twice.
  \<^item> \<open>Tqueue\<close> (\<open>core/tqueue.hpp\<close>): the calendar queue with its overflow heap; the locale
    \<open>event_queue\<close> is its contract: an insertion adds the job, \<open>nextJob\<close> takes the earliest. Three
    theorems show where the code leaves the contract (\<open>remove\<close>, \<open>reschedule\<close>, far jobs).
  \<^item> \<open>Event_Scheduler\<close> (\<open>core/callback.hpp\<close>, class \<open>EventScheduler\<close>): a client of the locale
    \<open>event_queue\<close>; \<open>advanceClock\<close> runs all and only the callbacks of the new cycle, and then drains the registered
    ports until none of them has anything pending. What a callback does and what a port fires are parameters with a contract.
  \<^item> \<open>Callbacks\<close> (\<open>core/callback.hpp\<close>, the callback templates and \<open>CallbackContainer\<close>): a client
    of \<open>object_pool\<close>.
  \<^item> \<open>Port\<close> (\<open>core/port.cpp\<close>, \<open>core/port.hpp\<close>): the locale \<open>slot_port\<close> says that at most as many
    requests start per cycle as the port has units; the managed ports drain the most urgent
    requests first.
  \<^item> \<open>Bloom_Filter\<close> (\<open>core/bloomfilter.cpp\<close>): the locale \<open>membership_filter\<close>; no false negatives.
  \<^item> \<open>Instruction\<close>, \<open>Dinst\<close> (\<open>emul/instruction.hpp\<close>, \<open>emul/dinst.hpp\<close>, \<open>emul/dinst.cpp\<close>): the
    dynamic instructions and their dependence lists; the locale \<open>wake_list\<close> abstracts the
    linked nodes to one queue of waiters per instruction.
  \<^item> \<open>Dep_Window\<close> (\<open>simu/DepWindow.cpp\<close>): a client of \<open>wake_list\<close> and of the ports; an executed
    instruction wakes exactly the waiters whose last source it was.
  \<^item> \<open>Store_Set\<close> (\<open>simu/StoreSet.cpp\<close>), \<open>Lsq\<close> (\<open>simu/LSQ.cpp\<close>): alias prediction and the
    load/store queues.
  \<^item> \<open>Mshr\<close> (\<open>mem/mshr.cpp\<close>, \<open>mem/mshr_entry.hpp\<close>): a client of the callback container; with what the
    coherent cache does with the registers (\<open>doReq\<close>, \<open>tryPrefetch\<close> and the calls of \<open>retire\<close> in \<open>mem/ccache.cpp\<close>) no
    miss is lost.
  \<^item> \<open>Cache_Geometry\<close>, \<open>Cache_Client\<close> (\<open>core/cachecore.hpp\<close>): the address arithmetic of the cache
    arrays, the state of a line, and the locale \<open>demand_cache\<close>: an array whose sets keep their
    lines by recency answers a sequence of demand accesses like a list of recently used tags.
  \<^item> \<open>Cache_Assoc\<close>, \<open>Cache_Direct\<close>, \<open>Cache_Ship\<close>, \<open>Cache_Hawk\<close> (\<open>core/cachecore.hpp\<close>): the
    set-associative array with its policies, the direct-mapped and the skewed arrays, SHIP and
    Hawkeye. The first two interpret \<open>demand_cache\<close>; theorems show that SHIP can replace no
    line of the only state that it can be made with, that Hawkeye stays inside its tables for small caches, and where the code fails.
  \<^item> \<open>Cache_Factory\<close> (\<open>core/cachecore.hpp\<close>, class \<open>CacheGeneric\<close>): the choice of an array by \<open>create\<close>
    and its common operations; the locale \<open>line_store\<close> is what a client of a cache of its own data relies
    on (what is filled is found, and holds what was stored), proved by \<open>sublocale\<close>s for the associative
    and the direct-mapped arrays.
  \<^item> \<open>Store_Buffer\<close> (\<open>simu/store_buffer.cpp\<close>): the coherent store buffer.
  \<^item> \<open>Dolc\<close> (\<open>simu/dolc.hpp\<close>): the path history of the predictors; its signature is a function of
    the last addresses only.
  \<^item> \<open>Branch_Btb\<close>, \<open>Branch_Ras\<close> (\<open>simu/BPred.cpp\<close>): the branch target buffer, a client of
    \<open>line_store\<close> that learns a target in one step, and the return address stack, which predicts
    every well nested return.
  \<^item> \<open>Branch_Base\<close> (\<open>simu/bpred.hpp\<close>, class \<open>BPred\<close>): what all predictors share, and their contract as two
    locales: a \<open>block_predictor\<close> stays usable over a fetch block and counts its taken branches, a
    \<open>direction_predictor\<close> (which gives the first by a \<open>sublocale\<close>) leaves the count to the base class.
    Every predictor of the following theories interprets one of them.
  \<^item> \<open>Sctable_Learning\<close>: how often counters mispredict while they learn; \<open>Branch_Simple\<close> and
    \<open>Branch_Global\<close> (\<open>simu/BPred.cpp\<close>: the static, bimodal and data predictors; the two-level, hybrid,
    skewed and YAGS predictors) bound the mispredictions of branches with a stable outcome by it.
  \<^item> \<open>Branch_Loop\<close> (class \<open>LoopPredictor\<close>): a loop with a fixed number of iterations is predicted exactly
    once it is trusted.
  \<^item> \<open>Branch_Wrapped\<close> (\<open>BPTahead\<close>, \<open>BPTahead1\<close>, \<open>BPIMLI\<close>, \<open>BPSuperbp\<close>): the predictors around engines that
    are passed in as records of operations.
  \<^item> \<open>Tage_History\<close>, \<open>Tage_Engine\<close> (\<open>simu/tahead.hpp\<close>, \<open>simu/tahead1.hpp\<close>): the engines \<open>Tahead\<close> and \<open>Tahead1\<close>, the same text with
    two sets of sizes. The history lengths come from \<open>pow\<close> in floating point and are an argument. The folded registers
    always hold the folded history, unless an engine is constructed over the global history another one has left. \<open>Tage_Facts\<close>: a lookup
    answers with the longest match, an allocation spares useful entries, counters and indices stay in range.
    \<open>Tage_Predictor\<close>: the locale \<open>tage_engine_contract\<close> says what an engine keeps, a \<open>sublocale\<close> makes a wrapped engine a
    \<open>block_predictor\<close>, and both engines interpret it.
  \<^item> \<open>Branch_Predictor\<close> (classes \<open>BPredictor\<close> and \<open>BPred::getBPred\<close>): the unit with the return stack and up to three
    levels; its delays, the agreement of its levels on the fetch block, and a perfect front end.
  \<^item> \<open>Pipeline\<close> (\<open>simu/pipeline.cpp\<close>): the buckets between fetch and rename. Instruction cache answers come in
    any order and flushes empty buckets anywhere; the inductive relation \<open>pi_reach\<close> has a rule per call, and its invariant shows
    that the buckets leave in the order of their fetches and that none is left behind.
  \<^item> \<open>Core_State\<close> (\<open>simu/cluster.cpp\<close>): the state that the clusters, their units and the processor share, and the entries and registers of
    the clusters; \<open>Functional_Units\<close> (\<open>simu/resource.cpp\<close>): the methods of the five classes of units, as compiled with
    \<open>ENABLE_SCB_ALL\<close>, \<open>ENABLE_SCB_SPEC\<close> (which \<open>store_buffer.hpp\<close> defines) and \<open>USE_PNR\<close>, with the calls of the
    load/store queue, the store set and the store buffer. What they schedule for later or ask of other parts is
    an event of a trace. \<open>Cluster_Window\<close>: the entries of a window of an \<open>ExecutedCluster\<close> are exactly the
    instructions that have not given theirs back; and three flaws: a flush makes the other two classes give an entry back twice, a
    branch unit frees a place twice, and a load that becomes safe never asks for the clean displacement of its line.
  \<^item> \<open>Cluster_Scheduler\<close> (\<open>simu/clusterscheduler.cpp\<close>): the choice of a unit for an instruction by three policies; round robin is
    fair. \<open>Ooo_Core\<close> (\<open>simu/oooprocessor.cpp\<close>, \<open>simu/gprocessor.cpp\<close>): rename, retirement, decode, the cycle of the core and
    the flush of transient instructions. \<open>Commit_Order\<close>: in every state that the inductive relation \<open>oo_reach\<close> reaches, what has
    committed, followed by what is in the buffers, is what was renamed but for the flushed instructions, in order, and the free
    registers and those of the buffers add up (the calls of the tracer at rename and at commit are kept as two lists, the state's record
    of what was renamed and committed); \<open>Core_Cycle\<close> puts a cycle of the core together from those steps and shows a flaw of the rename stage.

  \<^bold>\<open>Bounds and fuel.\<close> The loops of \<open>advanceClock\<close> run callbacks that can schedule others: the
  model has fuel, and \<open>es_advance_runs_due\<close> shows that the number of jobs of the cycle plus
  that of the rounds over the ports plus two is enough under the contract of the callbacks. The loops of \<open>CallbackContainer\<close> have
  fuel; for \<open>mycall\<close> the length of the container at its start is enough
  (\<open>cc_mycall_bounded\<close>). \<open>log2i\<close> is a partial function, defined up to \<open>2 ^ 31\<close>
  (\<open>log2i_returns_exponent\<close>). The skewed array has two rounds of its retry loop of which the second
  finds a line; SHIP has four rounds of its ageing loop, of which the first one already fails an assertion of \<open>StateGeneric\<close>. All other loops are structural recursions over lists.

  \<^bold>\<open>Not modelled.\<close> The dumps and prints, the configuration and report files, the statistics
  (the samples an operation gives to a statistics object are lists where the code reads them
  back, and left out elsewhere), the emulators (calls of the Dromajo library) and the output of the tracer,
  the variants \<open>tspool\<close> and \<open>poolplus\<close> of the pool (threads and atomics), and the
  parts of the processor, the memory hierarchy and the network that the manifest lists as not
  modelled.
\<close>

end
